(* ===== verification/MG_Prelude.thy ===== *)
theory MG_Prelude
  imports Main "HOL-Library.Word"
begin

text \<open>
  The vocabulary the components share: the integer types of the C code, the
  collections of rewrite rules, and the list lemmas that several components use.

  A C \<open>int\<close> that the code only compares, copies or adds to without relying on
  wrap-around is an \<open>int\<close> (signed overflow has no defined result in C, so the model
  is exact wherever the program is defined). Bitmaps and masks are words of their
  width. The modelled build is MiniGUI-Threads on a 64-bit system, where \<open>DWORD\<close>
  has 64 bits.
\<close>

unbundle bit_operations_syntax

type_synonym u8 = "8 word"
type_synonym dword = "64 word"

named_theorems rect_simps \<open>unfolding of the rectangle operations\<close>
named_theorems mq_simps \<open>unfolding of the message queue operations\<close>

section \<open>Lists\<close>

lemma pts_eqI: "(\<And>x y. (x, y) \<in> A \<longleftrightarrow> (x, y) \<in> B) \<Longrightarrow> A = B"
  by auto

lemma takeWhile_append_all:
  assumes "\<forall>x \<in> set xs. P x" and "ys = [] \<or> \<not> P (hd ys)"
  shows "takeWhile P (xs @ ys) = xs"
  using assms by (cases ys) (auto simp: takeWhile_append)

lemma dropWhile_append_all:
  assumes "\<forall>x \<in> set xs. P x" and "ys = [] \<or> \<not> P (hd ys)"
  shows "dropWhile P (xs @ ys) = ys"
  using assms by (cases ys) (auto simp: dropWhile_append)

lemma length_dropWhile_less:
  "P x \<Longrightarrow> length (dropWhile P (x # xs)) < length (x # xs)"
  by (simp add: le_imp_less_Suc length_dropWhile_le)

lemma dropWhile_ConsD:
  assumes "dropWhile P xs = d # ds"
  shows "\<not> P d" and "d \<in> set xs"
proof -
  show "\<not> P d" using hd_dropWhile [of P xs] assms by simp
  have "d \<in> set (dropWhile P xs)" using assms by simp
  then show "d \<in> set xs" by (rule set_dropWhileD)
qed

lemma nth_update_map_eq:
  "i < length xs \<Longrightarrow> f (xs ! i) = y \<Longrightarrow> (map f xs)[i := y] = map f xs"
  by (metis list_update_id nth_map)

end
