(* ===== verification/MG_Rect.thy ===== *)
theory MG_Rect
  imports MG_Prelude
begin

text \<open>
  The rectangle operations of \<open>src/newgdi/rect.c\<close> and the inline helpers of
  \<open>include/gdi.h\<close>. A rectangle covers the half-open set of pixels
  \<open>[left, right) \<times> [top, bottom)\<close>; that set (\<open>rect_pts\<close>) is the
  specification every operation is measured against.

  Operations that write through a pointer return the written rectangle; where the
  code writes only on some paths, the old contents are an argument.
\<close>

section \<open>Data\<close>

record RECT =
  left :: int
  top :: int
  right :: int
  bottom :: int

definition SetRect :: "int \<Rightarrow> int \<Rightarrow> int \<Rightarrow> int \<Rightarrow> RECT" where
  "SetRect l t r b = \<lparr>left = l, top = t, right = r, bottom = b\<rparr>"

definition SetRectEmpty :: RECT where
  "SetRectEmpty = \<lparr>left = 0, top = 0, right = 0, bottom = 0\<rparr>"

definition OffsetRect :: "RECT \<Rightarrow> int \<Rightarrow> int \<Rightarrow> RECT" where
  "OffsetRect r x y =
     \<lparr>left = left r + x, top = top r + y, right = right r + x, bottom = bottom r + y\<rparr>"

definition InflateRect :: "RECT \<Rightarrow> int \<Rightarrow> int \<Rightarrow> RECT" where
  "InflateRect r cx cy =
     \<lparr>left = left r - cx, top = top r - cy, right = right r + cx, bottom = bottom r + cy\<rparr>"

definition InflateRectToPt :: "RECT \<Rightarrow> int \<Rightarrow> int \<Rightarrow> RECT" where
  "InflateRectToPt r x y =
     \<lparr>left = (if x < left r then x else left r),
      top = (if y < top r then y else top r),
      right = (if x > right r then x else right r),
      bottom = (if y > bottom r then y else bottom r)\<rparr>"

definition PtInRect :: "RECT \<Rightarrow> int \<Rightarrow> int \<Rightarrow> bool" where
  "PtInRect r x y \<longleftrightarrow> x \<ge> left r \<and> x < right r \<and> y \<ge> top r \<and> y < bottom r"

section \<open>Operations of rect.c\<close>

definition IsRectEmpty :: "RECT \<Rightarrow> bool" where
  "IsRectEmpty r \<longleftrightarrow> left r = right r \<or> top r = bottom r"

definition EqualRect :: "RECT \<Rightarrow> RECT \<Rightarrow> bool" where
  "EqualRect r1 r2 \<longleftrightarrow>
     \<not> (left r1 \<noteq> left r2 \<or> top r1 \<noteq> top r2 \<or> right r1 \<noteq> right r2 \<or> bottom r1 \<noteq> bottom r2)"

definition NormalizeRect :: "RECT \<Rightarrow> RECT" where
  "NormalizeRect r =
     (let r1 = (if left r > right r then r\<lparr>left := right r, right := left r\<rparr> else r)
      in if top r1 > bottom r1 then r1\<lparr>top := bottom r1, bottom := top r1\<rparr> else r1)"

definition IsCovered :: "RECT \<Rightarrow> RECT \<Rightarrow> bool" where
  "IsCovered r1 r2 \<longleftrightarrow>
     \<not> (left r1 < left r2 \<or> top r1 < top r2 \<or> right r1 > right r2 \<or> bottom r1 > bottom r2)"

definition IntersectRect :: "RECT \<Rightarrow> RECT \<Rightarrow> bool \<times> RECT" where
  "IntersectRect s1 s2 =
     (let d = \<lparr>left = (if left s1 > left s2 then left s1 else left s2),
               top = (if top s1 > top s2 then top s1 else top s2),
               right = (if right s1 < right s2 then right s1 else right s2),
               bottom = (if bottom s1 < bottom s2 then bottom s1 else bottom s2)\<rparr>
      in if left d \<ge> right d \<or> top d \<ge> bottom d then (False, d) else (True, d))"

definition DoesIntersect :: "RECT \<Rightarrow> RECT \<Rightarrow> bool" where
  "DoesIntersect s1 s2 =
     (let l = (if left s1 > left s2 then left s1 else left s2);
          t = (if top s1 > top s2 then top s1 else top s2);
          r = (if right s1 < right s2 then right s1 else right s2);
          b = (if bottom s1 < bottom s2 then bottom s1 else bottom s2)
      in \<not> (l \<ge> r \<or> t \<ge> b))"

definition UnionRect :: "RECT \<Rightarrow> RECT \<Rightarrow> RECT \<Rightarrow> bool \<times> RECT" where
  "UnionRect d p1 p2 =
     (let s1 = NormalizeRect p1; s2 = NormalizeRect p2
      in if left s1 = left s2 \<and> right s1 = right s2 then
           (if top s1 \<le> top s2 \<and> top s2 \<le> bottom s1 then
              (True, \<lparr>left = left s1, top = top s1, right = right s1,
                      bottom = max (bottom s1) (bottom s2)\<rparr>)
            else if top s1 \<ge> top s2 \<and> bottom s2 \<ge> top s1 then
              (True, \<lparr>left = left s1, top = top s2, right = right s1,
                      bottom = max (bottom s1) (bottom s2)\<rparr>)
            else (False, d))
         else if top s1 = top s2 \<and> bottom s1 = bottom s2 then
           (if left s1 \<le> left s2 \<and> left s2 \<le> right s1 then
              (True, \<lparr>left = left s1, top = top s1,
                      right = max (right s1) (right s2), bottom = bottom s1\<rparr>)
            else if left s1 \<ge> left s2 \<and> right s2 \<ge> left s1 then
              (True, \<lparr>left = left s2, top = top s1,
                      right = max (right s1) (right s2), bottom = bottom s1\<rparr>)
            else (False, d))
         else (False, d))"

definition GetBoundRect :: "RECT \<Rightarrow> RECT \<Rightarrow> RECT" where
  "GetBoundRect p1 p2 =
     (let s1 = NormalizeRect p1; s2 = NormalizeRect p2
      in if IsRectEmpty s1 then s2
         else if IsRectEmpty s2 then s1
         else \<lparr>left = (if left s1 < left s2 then left s1 else left s2),
               top = (if top s1 < top s2 then top s1 else top s2),
               right = (if right s1 > right s2 then right s1 else right s2),
               bottom = (if bottom s1 > bottom s2 then bottom s1 else bottom s2)\<rparr>)"

text \<open>
  \<open>SubtractRect\<close> fills \<open>rc[0..nCount)\<close>; the model returns that part of the
  array. The top and bottom strips shrink \<open>src\<close> before the side strips are cut.
\<close>

definition SubtractRect :: "RECT \<Rightarrow> RECT \<Rightarrow> RECT list" where
  "SubtractRect src e =
     (if \<not> DoesIntersect src e then [src]
      else
        let rc0 = (if top e > top src then
                     [\<lparr>left = left src, top = top src, right = right src, bottom = top e\<rparr>]
                   else []);
            src1 = (if top e > top src then src\<lparr>top := top e\<rparr> else src);
            rc1 = (if bottom e < bottom src1 then
                     [\<lparr>left = left src1, top = bottom e, right = right src1,
                       bottom = bottom src1\<rparr>]
                   else []);
            src2 = (if bottom e < bottom src1 then src1\<lparr>bottom := bottom e\<rparr> else src1);
            rc2 = (if left e > left src2 then
                     [\<lparr>left = left src2, top = top src2, right = left e, bottom = bottom src2\<rparr>]
                   else []);
            rc3 = (if right e < right src2 then
                     [\<lparr>left = right e, top = top src2, right = right src2,
                       bottom = bottom src2\<rparr>]
                   else [])
        in rc0 @ rc1 @ rc2 @ rc3)"

section \<open>The pixels of a rectangle\<close>

definition rect_pts :: "RECT \<Rightarrow> (int \<times> int) set" where
  "rect_pts r = {(x, y). left r \<le> x \<and> x < right r \<and> top r \<le> y \<and> y < bottom r}"

definition rect_ok :: "RECT \<Rightarrow> bool" where
  "rect_ok r \<longleftrightarrow> left r < right r \<and> top r < bottom r"

declare SetRect_def [rect_simps] SetRectEmpty_def [rect_simps] OffsetRect_def [rect_simps]
  PtInRect_def [rect_simps] IsRectEmpty_def [rect_simps] IsCovered_def [rect_simps]
  DoesIntersect_def [rect_simps] IntersectRect_def [rect_simps] Let_def [rect_simps]

lemma mem_rect_pts [simp]:
  "(x, y) \<in> rect_pts r \<longleftrightarrow> left r \<le> x \<and> x < right r \<and> top r \<le> y \<and> y < bottom r"
  by (simp add: rect_pts_def)

lemma rect_pts_empty_iff: "rect_pts r = {} \<longleftrightarrow> \<not> rect_ok r"
proof
  assume "rect_pts r = {}"
  then have "(left r, top r) \<notin> rect_pts r" by simp
  then show "\<not> rect_ok r" by (auto simp: rect_ok_def)
qed (auto simp: rect_pts_def rect_ok_def)

lemma NormalizeRect_sel [simp]:
  "left (NormalizeRect r) = min (left r) (right r)"
  "right (NormalizeRect r) = max (left r) (right r)"
  "top (NormalizeRect r) = min (top r) (bottom r)"
  "bottom (NormalizeRect r) = max (top r) (bottom r)"
  by (auto simp: NormalizeRect_def Let_def)

lemma NormalizeRect_le:
  "left (NormalizeRect r) \<le> right (NormalizeRect r)"
  "top (NormalizeRect r) \<le> bottom (NormalizeRect r)"
  by simp_all

lemma NormalizeRect_idem: "NormalizeRect (NormalizeRect r) = NormalizeRect r"
  by (rule RECT.equality) auto

lemma DoesIntersect_iff: "DoesIntersect r s \<longleftrightarrow> rect_pts r \<inter> rect_pts s \<noteq> {}"
proof
  assume "DoesIntersect r s"
  then have "(max (left r) (left s), max (top r) (top s)) \<in> rect_pts r \<inter> rect_pts s"
    by (auto simp: rect_simps split: if_splits)
  then show "rect_pts r \<inter> rect_pts s \<noteq> {}" by blast
qed (auto simp: rect_simps rect_pts_def)

lemma IntersectRect_pts: "rect_pts (snd (IntersectRect r s)) = rect_pts r \<inter> rect_pts s"
  by (auto simp: rect_simps rect_pts_def)

lemma IntersectRect_fst: "fst (IntersectRect r s) = DoesIntersect r s"
  by (simp add: rect_simps)

lemma rect_pts_OffsetRect:
  "rect_pts (OffsetRect r dx dy) = (\<lambda>(x, y). (x + dx, y + dy)) ` rect_pts r"
proof -
  have "(x, y) \<in> (\<lambda>(x, y). (x + dx, y + dy)) ` rect_pts r \<longleftrightarrow> (x - dx, y - dy) \<in> rect_pts r"
    for x y by (auto simp: image_iff intro: bexI [of _ "(x - dx, y - dy)"])
  then show ?thesis by (auto simp: rect_simps simp del: mem_rect_pts) (auto simp: rect_pts_def)
qed

section \<open>Properties\<close>

text \<open>
  \<open>IntersectRect\<close> reports TRUE exactly when the two rectangles share a pixel, it
  always writes a rectangle whose pixels are the common pixels, and its report agrees with
  \<open>DoesIntersect\<close>.
\<close>

theorem IntersectRect_correct:
  "rect_pts (snd (IntersectRect r s)) = rect_pts r \<inter> rect_pts s
   \<and> fst (IntersectRect r s) = (rect_pts r \<inter> rect_pts s \<noteq> {})
   \<and> fst (IntersectRect r s) = DoesIntersect r s"
  by (simp add: IntersectRect_pts IntersectRect_fst DoesIntersect_iff)


lemma DoesIntersect_alt:
  "DoesIntersect r s \<longleftrightarrow>
     left r < right r \<and> left r < right s \<and> left s < right r \<and> left s < right s
     \<and> top r < bottom r \<and> top r < bottom s \<and> top s < bottom r \<and> top s < bottom s"
  by (auto simp: DoesIntersect_def Let_def)

lemma SubtractRect_pts:
  "(\<Union>r \<in> set (SubtractRect s e). rect_pts r) = rect_pts s - rect_pts e"
proof (cases "DoesIntersect s e")
  case True
  then have "(x, y) \<in> (\<Union>r \<in> set (SubtractRect s e). rect_pts r)
      \<longleftrightarrow> (x, y) \<in> rect_pts s - rect_pts e" for x y
    by (simp add: SubtractRect_def Let_def DoesIntersect_alt) arith
  then show ?thesis by (rule pts_eqI)
next
  case False
  then show ?thesis
    by (auto simp: SubtractRect_def DoesIntersect_iff)
qed

lemma SubtractRect_disjoint:
  "sorted_wrt (\<lambda>r r'. rect_pts r \<inter> rect_pts r' = {}) (SubtractRect s e)"
  by (auto simp: SubtractRect_def Let_def rect_pts_def DoesIntersect_alt)

lemma SubtractRect_length: "length (SubtractRect s e) \<le> 4"
  by (auto simp: SubtractRect_def Let_def)

lemma SubtractRect_pieces_ok:
  "DoesIntersect s e \<Longrightarrow> r \<in> set (SubtractRect s e) \<Longrightarrow> rect_ok r"
  by (auto simp: SubtractRect_def Let_def DoesIntersect_alt rect_ok_def split: if_splits)

text \<open>
  \<open>SubtractRect\<close> cuts the minuend into at most four rectangles that cover exactly
  the pixels of the minuend outside the subtrahend; no two of them overlap, and when the
  rectangles intersect no piece is degenerate.
\<close>

theorem SubtractRect_correct:
  "(\<Union>r \<in> set (SubtractRect s e). rect_pts r) = rect_pts s - rect_pts e
   \<and> length (SubtractRect s e) \<le> 4
   \<and> sorted_wrt (\<lambda>r r'. rect_pts r \<inter> rect_pts r' = {}) (SubtractRect s e)
   \<and> (DoesIntersect s e \<longrightarrow> list_all rect_ok (SubtractRect s e))"
  by (simp add: SubtractRect_pts SubtractRect_length SubtractRect_disjoint
      SubtractRect_pieces_ok list_all_iff)

text \<open>The hypothesis of the last part holds at a rectangle with a hole in its middle.\<close>

theorem SubtractRect_correct_witness:
  "DoesIntersect (SetRect 0 0 10 10) (SetRect 2 3 5 6)
   \<and> list_all rect_ok (SubtractRect (SetRect 0 0 10 10) (SetRect 2 3 5 6))
   \<and> length (SubtractRect (SetRect 0 0 10 10) (SetRect 2 3 5 6)) = 4"
proof -
  have i: "DoesIntersect (SetRect 0 0 10 10) (SetRect 2 3 5 6)" by (simp add: rect_simps)
  then have "list_all rect_ok (SubtractRect (SetRect 0 0 10 10) (SetRect 2 3 5 6))"
    using SubtractRect_correct [of "SetRect 0 0 10 10" "SetRect 2 3 5 6"] by blast
  with i show ?thesis by (simp add: SubtractRect_def rect_simps)
qed

text \<open>
  when \<open>UnionRect\<close> reports TRUE the rectangle it wrote covers exactly the pixels
  of the two normalised sources; when it reports FALSE it leaves the destination alone.
\<close>

theorem UnionRect_sound:
  "if fst (UnionRect d r s)
   then rect_pts (snd (UnionRect d r s))
        = rect_pts (NormalizeRect r) \<union> rect_pts (NormalizeRect s)
   else snd (UnionRect d r s) = d"
proof -
  let ?r = "NormalizeRect r" and ?s = "NormalizeRect s"
  note le = NormalizeRect_le [of r] NormalizeRect_le [of s]
  have "(x, y) \<in> rect_pts (snd (UnionRect d r s)) \<longleftrightarrow> (x, y) \<in> rect_pts ?r \<union> rect_pts ?s"
    if "fst (UnionRect d r s)" for x y
    using le that
    by (simp add: UnionRect_def Let_def del: NormalizeRect_sel split: if_splits) arith+
  then have "fst (UnionRect d r s) \<longrightarrow> rect_pts (snd (UnionRect d r s)) = rect_pts ?r \<union> rect_pts ?s"
    by (intro impI pts_eqI)
  moreover have "\<not> fst (UnionRect d r s) \<longrightarrow> snd (UnionRect d r s) = d"
    by (simp add: UnionRect_def Let_def del: NormalizeRect_sel)
  ultimately show ?thesis by simp
qed

text \<open>
  the rectangle of \<open>GetBoundRect\<close> covers both normalised sources and lies inside
  every non-degenerate rectangle that covers them, so it is the smallest one whenever it is
  not degenerate itself.
\<close>

theorem GetBoundRect_least:
  "rect_pts (NormalizeRect r) \<union> rect_pts (NormalizeRect s) \<subseteq> rect_pts (GetBoundRect r s)
   \<and> (\<forall>q. rect_pts (NormalizeRect r) \<union> rect_pts (NormalizeRect s) \<subseteq> rect_pts q
          \<longrightarrow> rect_pts (GetBoundRect r s) \<subseteq> rect_pts q)"
proof (intro conjI allI impI)
  show "rect_pts (NormalizeRect r) \<union> rect_pts (NormalizeRect s) \<subseteq> rect_pts (GetBoundRect r s)"
    by (auto simp: GetBoundRect_def Let_def IsRectEmpty_def simp del: NormalizeRect_sel)
next
  fix q
  assume q: "rect_pts (NormalizeRect r) \<union> rect_pts (NormalizeRect s) \<subseteq> rect_pts q"
  show "rect_pts (GetBoundRect r s) \<subseteq> rect_pts q"
  proof (cases "IsRectEmpty (NormalizeRect r) \<or> IsRectEmpty (NormalizeRect s)")
    case True
    with q show ?thesis by (auto simp: GetBoundRect_def Let_def)
  next
    case False
    let ?r = "NormalizeRect r" and ?s = "NormalizeRect s"
    from False have ok: "rect_ok ?r" "rect_ok ?s"
      using NormalizeRect_le [of r] NormalizeRect_le [of s]
      by (auto simp: IsRectEmpty_def rect_ok_def simp del: NormalizeRect_sel)
    then have "(left ?r, top ?r) \<in> rect_pts ?r" "(right ?r - 1, bottom ?r - 1) \<in> rect_pts ?r"
      "(left ?s, top ?s) \<in> rect_pts ?s" "(right ?s - 1, bottom ?s - 1) \<in> rect_pts ?s"
      by (auto simp: rect_ok_def simp del: NormalizeRect_sel)
    with q have "(left ?r, top ?r) \<in> rect_pts q" "(right ?r - 1, bottom ?r - 1) \<in> rect_pts q"
      "(left ?s, top ?s) \<in> rect_pts q" "(right ?s - 1, bottom ?s - 1) \<in> rect_pts q"
      by blast+
    then show ?thesis
      using False by (auto simp: GetBoundRect_def Let_def simp del: NormalizeRect_sel)
  qed
qed

theorem GetBoundRect_least_witness:
  "rect_pts (GetBoundRect (SetRect 0 0 4 4) (SetRect 9 9 6 6)) \<subseteq> rect_pts (SetRect 0 0 20 20)"
proof -
  have "rect_pts (NormalizeRect (SetRect 0 0 4 4)) \<union> rect_pts (NormalizeRect (SetRect 9 9 6 6))
        \<subseteq> rect_pts (SetRect 0 0 20 20)"
    by (auto simp: SetRect_def)
  then show ?thesis
    using GetBoundRect_least [of "SetRect 0 0 4 4" "SetRect 9 9 6 6"] by blast
qed

section \<open>Where the documentation and the code differ\<close>

text \<open>
  \<open>include/gdi.h\<close> says that \<open>IntersectRect\<close> stores the all-zero rectangle when the
  sources do not intersect; the code stores the crossed bounds.
\<close>

lemma IntersectRect_miss_not_zero:
  "IntersectRect (SetRect 0 0 2 2) (SetRect 5 5 8 8) = (False, SetRect 5 5 2 2)
   \<and> SetRect 5 5 2 2 \<noteq> SetRectEmpty"
  by (simp add: rect_simps)

end
