(* ===== verification/MG_SlotSet.thy ===== *)
theory MG_SlotSet
  imports MG_Prelude
begin

text \<open>
  The slot sets of \<open>src/kernel/slotset.c\<close> and \<open>src/include/misc.h\<close>: a bitmap in
  a byte array, where a set bit marks an idle slot and slot \<open>i\<close> is bit \<open>7 - i mod 8\<close>
  of byte \<open>i div 8\<close>. A bitmap of \<open>len_bmp\<close> bytes is a list of that length. The
  functions return the bitmap they leave behind; \<open>(size_t)-1\<close> is \<open>None\<close>.
\<close>

section \<open>Operations\<close>

text \<open>The loop over one half byte: \<open>j\<close> counts up to \<open>e\<close> while the test bit moves right.\<close>

function scan_half :: "u8 \<Rightarrow> u8 \<Rightarrow> nat \<Rightarrow> nat \<Rightarrow> (nat \<times> u8) option" where
  "scan_half half_byte test_byte j e =
     (if j < e then
        if half_byte AND test_byte \<noteq> 0 then Some (j, test_byte)
        else scan_half half_byte (drop_bit 1 test_byte) (Suc j) e
      else None)"
  by pat_completeness auto
termination by (relation "measure (\<lambda>(h, t, j, e). e - j)") auto

declare scan_half.simps [simp del]

fun lookfor_unused_slot_from :: "u8 list \<Rightarrow> bool \<Rightarrow> nat \<Rightarrow> (nat \<times> u8 list) option" where
  "lookfor_unused_slot_from [] set_it unused = None"
| "lookfor_unused_slot_from (b # bmp) set_it unused =
     (let next_byte = map_option (\<lambda>(i, bmp'). (i, b # bmp'))
                        (lookfor_unused_slot_from bmp set_it (unused + 8));
          found = (\<lambda>(j, test_byte).
                     (unused + j, (if set_it then b XOR test_byte else b) # bmp))
      in if b \<noteq> 0 then
           (case (if b AND 0xF0 \<noteq> 0 then scan_half (b AND 0xF0) 0x80 0 4 else None) of
              Some r \<Rightarrow> Some (found r)
            | None \<Rightarrow>
                (case scan_half (b AND 0x0F) 0x08 4 8 of
                   Some r \<Rightarrow> Some (found r)
                 | None \<Rightarrow> next_byte))
         else next_byte)"

definition lookfor_unused_slot :: "u8 list \<Rightarrow> bool \<Rightarrow> (nat \<times> u8 list) option" where
  "lookfor_unused_slot bmp set_it = lookfor_unused_slot_from bmp set_it 0"

definition slot_set_use :: "u8 list \<Rightarrow> nat \<Rightarrow> u8 list" where
  "slot_set_use bmp i = bmp[i div 8 := bmp ! (i div 8) AND NOT (drop_bit (i mod 8) 0x80)]"

definition slot_clear_use :: "u8 list \<Rightarrow> nat \<Rightarrow> u8 list" where
  "slot_clear_use bmp i = bmp[i div 8 := bmp ! (i div 8) OR drop_bit (i mod 8) 0x80]"

definition slot_is_used :: "u8 list \<Rightarrow> nat \<Rightarrow> bool" where
  "slot_is_used bmp i \<longleftrightarrow> \<not> (bmp ! (i div 8) AND drop_bit (i mod 8) 0x80 \<noteq> 0)"

text \<open>\<open>__mg_get_nr_idle_slots\<close>, with its shortcuts for full bytes and empty halves.\<close>

fun get_nr_idle_slots :: "u8 list \<Rightarrow> nat" where
  "get_nr_idle_slots [] = 0"
| "get_nr_idle_slots (b # bmp) =
     (if b \<noteq> 0 then
        if b = 0xFF then 8
        else (if b AND 0xF0 \<noteq> 0
              then length (filter (\<lambda>j. b AND drop_bit j 0x80 \<noteq> 0) [0..<4]) else 0)
             + (if b AND 0x0F \<noteq> 0
                then length (filter (\<lambda>j. b AND drop_bit j 0x08 \<noteq> 0) [0..<4]) else 0)
      else 0) + get_nr_idle_slots bmp"

section \<open>The set of idle slots\<close>

definition slot_idle :: "u8 list \<Rightarrow> nat \<Rightarrow> bool" where
  "slot_idle bmp i \<longleftrightarrow> i < 8 * length bmp \<and> bit (bmp ! (i div 8)) (7 - i mod 8)"

definition idle_slots :: "u8 list \<Rightarrow> nat set" where
  "idle_slots bmp = {i. slot_idle bmp i}"

lemma mem_idle_slots [simp]: "i \<in> idle_slots bmp \<longleftrightarrow> slot_idle bmp i"
  by (simp add: idle_slots_def)

lemma finite_idle_slots [simp]: "finite (idle_slots bmp)"
  by (rule finite_subset [of _ "{..< 8 * length bmp}"]) (auto simp: slot_idle_def)

lemma less8_cases:
  "j < (8::nat) \<Longrightarrow> j = 0 \<or> j = 1 \<or> j = 2 \<or> j = 3 \<or> j = 4 \<or> j = 5 \<or> j = 6 \<or> j = 7"
  by arith

lemma test_bit_exp: "j < 8 \<Longrightarrow> drop_bit j (0x80 :: u8) = push_bit (7 - j) 1"
  by (drule less8_cases) (elim disjE; simp)

lemma test_low_bit_exp: "j < 4 \<Longrightarrow> drop_bit j (0x08 :: u8) = push_bit (3 - j) 1"
  by (subgoal_tac "j = 0 \<or> j = 1 \<or> j = 2 \<or> j = 3") (auto)

lemma and_test_bit: "j < 8 \<Longrightarrow> (b :: u8) AND drop_bit j 0x80 \<noteq> 0 \<longleftrightarrow> bit b (7 - j)"
  by (simp add: test_bit_exp push_bit_of_1 and_exp_eq_0_iff_not_bit)

lemma and_test_low_bit: "j < 4 \<Longrightarrow> (b :: u8) AND drop_bit j 0x08 \<noteq> 0 \<longleftrightarrow> bit b (3 - j)"
  by (simp add: test_low_bit_exp push_bit_of_1 and_exp_eq_0_iff_not_bit)

lemma slot_idle_iff_and:
  "i < 8 * length bmp \<Longrightarrow> slot_idle bmp i \<longleftrightarrow> \<not> slot_is_used bmp i"
  by (simp add: slot_idle_def slot_is_used_def and_test_bit)

lemma bit_hi_half: "j < 4 \<Longrightarrow> bit ((b :: u8) AND 0xF0) (7 - j) = bit b (7 - j)"
  by (subgoal_tac "j = 0 \<or> j = 1 \<or> j = 2 \<or> j = 3") (auto simp: bit_simps)

lemma bit_lo_half: "4 \<le> j \<Longrightarrow> j < 8 \<Longrightarrow> bit ((b :: u8) AND 0x0F) (7 - j) = bit b (7 - j)"
  by (subgoal_tac "j = 4 \<or> j = 5 \<or> j = 6 \<or> j = 7") (auto simp: bit_simps)


lemma drop_bit_0x08: "j < 4 \<Longrightarrow> drop_bit j (0x08 :: u8) = drop_bit (j + 4) 0x80"
  by (subgoal_tac "j = 0 \<or> j = 1 \<or> j = 2 \<or> j = 3") auto

lemma scan_half_find:
  "e \<le> 8 \<Longrightarrow> scan_half h (drop_bit j 0x80) j e =
     map_option (\<lambda>k. (k, drop_bit k 0x80)) (find (\<lambda>k. bit h (7 - k)) [j..<e])"
proof (induction "e - j" arbitrary: j)
  case 0
  then show ?case by (subst scan_half.simps) simp
next
  case (Suc n)
  then have j: "j < e" "j < 8" and n: "n = e - Suc j" by auto
  have "scan_half h (drop_bit j 0x80) j e =
      (if bit h (7 - j) then Some (j, drop_bit j 0x80)
       else scan_half h (drop_bit (Suc j) 0x80) (Suc j) e)"
    using j by (subst scan_half.simps) (simp add: and_test_bit)
  with Suc.hyps(1) [OF n Suc.prems] j show ?case
    by (simp add: upt_conv_Cons)
qed

lemma find_cong_set: "(\<And>k. k \<in> set ks \<Longrightarrow> P k = Q k) \<Longrightarrow> find P ks = find Q ks"
  by (induction ks) auto

lemma find_append:
  "find P (xs @ ys) = (case find P xs of Some x \<Rightarrow> Some x | None \<Rightarrow> find P ys)"
  by (induction xs) auto

lemma find_upt_8:
  "find P [0..<8] = (case find P [0..<4] of Some x \<Rightarrow> Some x | None \<Rightarrow> find P [4..<8])"
  by (subst find_append [symmetric]) (simp add: upt_add_eq_append [of 0 4 4, simplified])

text \<open>The two half-byte loops together find the first set bit of the byte.\<close>

lemma scan_byte:
  "(case (if b AND 0xF0 \<noteq> 0 then scan_half (b AND 0xF0) 0x80 0 4 else None) of
      Some r \<Rightarrow> Some r | None \<Rightarrow> scan_half (b AND 0x0F) 0x08 4 8)
   = map_option (\<lambda>k. (k, drop_bit k 0x80)) (find (\<lambda>k. bit b (7 - k)) [0..<8])"
proof -
  have "find (\<lambda>k. bit (b AND 0xF0) (7 - k)) [0..<4] = find (\<lambda>k. bit b (7 - k)) [0..<4]"
    by (rule find_cong_set) (simp add: bit_hi_half)
  then have hi: "scan_half (b AND 0xF0) 0x80 0 4 =
      map_option (\<lambda>k. (k, drop_bit k 0x80)) (find (\<lambda>k. bit b (7 - k)) [0..<4])"
    using scan_half_find [of 4 "b AND 0xF0" 0] by simp
  have "find (\<lambda>k. bit (b AND 0x0F) (7 - k)) [4..<8] = find (\<lambda>k. bit b (7 - k)) [4..<8]"
    by (rule find_cong_set, rule bit_lo_half) auto
  then have lo: "scan_half (b AND 0x0F) 0x08 4 8 =
      map_option (\<lambda>k. (k, drop_bit k 0x80)) (find (\<lambda>k. bit b (7 - k)) [4..<8])"
    using scan_half_find [of 8 "b AND 0x0F" 4] by simp
  have zero: "find (\<lambda>k. bit b (7 - k)) [0..<4] = None" if "b AND 0xF0 = 0"
    using that by (auto simp: find_None_iff simp flip: bit_hi_half)
  show ?thesis
    by (auto simp: hi lo zero find_upt_8 split: option.splits)
qed

lemma xor_test_bit:
  assumes "j < 8" "bit (b :: u8) (7 - j)"
  shows "b XOR drop_bit j 0x80 = b AND NOT (drop_bit j 0x80)"
  by (rule bit_eqI) (use assms in \<open>auto simp: bit_simps test_bit_exp push_bit_of_1\<close>)

lemma find_first_bit_zero: "(b :: u8) = 0 \<Longrightarrow> find (\<lambda>k. bit b (7 - k)) [0..<8] = None"
  by (simp add: find_None_iff)

lemma lookfor_unused_slot_from_Cons:
  "lookfor_unused_slot_from (b # bmp) s u =
     (case find (\<lambda>k. bit b (7 - k)) [0..<8] of
        Some j \<Rightarrow> Some (u + j, (if s then b AND NOT (drop_bit j 0x80) else b) # bmp)
      | None \<Rightarrow> map_option (\<lambda>(i, bmp'). (i, b # bmp')) (lookfor_unused_slot_from bmp s (u + 8)))"
proof (cases "find (\<lambda>k. bit b (7 - k)) [0..<8]")
  case None
  with scan_byte [of b] show ?thesis by (auto simp: Let_def split: option.splits if_splits)
next
  case (Some j)
  then have "j < 8" "bit b (7 - j)" by (auto simp: find_Some_iff)
  moreover have "b \<noteq> 0" using Some find_first_bit_zero [of b] by auto
  ultimately show ?thesis
    using scan_byte [of b] Some
    by (auto simp: xor_test_bit Let_def split: option.splits if_splits)
qed

section \<open>What the operations do to the set of idle slots\<close>

lemma slot_idle_Nil [simp]: "\<not> slot_idle [] i"
  by (simp add: slot_idle_def)

lemma slot_idle_Cons: "slot_idle (b # bmp) i = (if i < 8 then bit b (7 - i) else slot_idle bmp (i - 8))"
proof (cases "i < 8")
  case False
  then obtain k where k: "i = 8 + k" by (metis le_add_diff_inverse not_less)
  have "i div 8 = Suc (k div 8)" "i mod 8 = k mod 8" by (auto simp: k)
  with k show ?thesis by (auto simp: slot_idle_def)
qed (auto simp: slot_idle_def)

lemma slot_set_use_Cons:
  "slot_set_use (b # bmp) i =
     (if i < 8 then (b AND NOT (drop_bit i 0x80)) # bmp else b # slot_set_use bmp (i - 8))"
proof (cases "i < 8")
  case False
  then obtain k where k: "i = 8 + k" by (metis le_add_diff_inverse not_less)
  have "i div 8 = Suc (k div 8)" "i mod 8 = k mod 8" by (auto simp: k)
  with k show ?thesis by (auto simp: slot_set_use_def)
qed (auto simp: slot_set_use_def)

lemma length_slot_ops [simp]:
  "length (slot_set_use bmp i) = length bmp" "length (slot_clear_use bmp i) = length bmp"
  by (simp_all add: slot_set_use_def slot_clear_use_def)

lemma bit_test_bit: "j < 8 \<Longrightarrow> k < 8 \<Longrightarrow> bit (drop_bit j (0x80 :: u8)) k \<longleftrightarrow> k = 7 - j"
  by (auto simp: test_bit_exp push_bit_of_1 bit_simps)

lemma slot_position_eq: "i div 8 = k div 8 \<Longrightarrow> (7 - i mod 8 = 7 - k mod 8) = (i = (k :: nat))"
proof
  assume a: "i div 8 = k div 8" "7 - i mod 8 = 7 - k mod 8"
  have "i mod 8 < 8" "k mod 8 < 8" by simp_all
  with a(2) have "i mod 8 = k mod 8" by linarith
  with a(1) show "i = k" by (metis div_mult_mod_eq)
qed simp

lemma bit_7_minus: "7 - i mod 8 < LENGTH(8)" for i :: nat
  by simp

lemma slot_idle_set_use:
  "i < 8 * length bmp \<Longrightarrow> slot_idle (slot_set_use bmp i) k \<longleftrightarrow> slot_idle bmp k \<and> k \<noteq> i"
proof (cases "k div 8 = i div 8")
  case True
  then have "(7 - k mod 8 = 7 - i mod 8) = (k = i)" by (rule slot_position_eq)
  then have "bit (drop_bit (i mod 8) (0x80 :: u8)) (7 - k mod 8) \<longleftrightarrow> k = i"
    by (simp only: bit_test_bit mod_less_divisor zero_less_numeral diff_less_Suc)
  with True show ?thesis
    by (auto simp: slot_idle_def slot_set_use_def bit_and_iff bit_not_iff simp del: bit_drop_bit_eq)
qed (auto simp: slot_idle_def slot_set_use_def)

lemma slot_idle_clear_use:
  "i < 8 * length bmp \<Longrightarrow> slot_idle (slot_clear_use bmp i) k \<longleftrightarrow> slot_idle bmp k \<or> k = i"
proof (cases "k div 8 = i div 8")
  case True
  then have "(7 - k mod 8 = 7 - i mod 8) = (k = i)" by (rule slot_position_eq)
  then have "bit (drop_bit (i mod 8) (0x80 :: u8)) (7 - k mod 8) \<longleftrightarrow> k = i"
    by (simp only: bit_test_bit mod_less_divisor zero_less_numeral diff_less_Suc)
  moreover assume "i < 8 * length bmp"
  ultimately show ?thesis using True
    by (auto simp: slot_idle_def slot_clear_use_def bit_or_iff simp del: bit_drop_bit_eq)
qed (auto simp: slot_idle_def slot_clear_use_def)

lemma idle_slot_set_use:
  "i < 8 * length bmp \<Longrightarrow> idle_slots (slot_set_use bmp i) = idle_slots bmp - {i}"
  by (auto simp: slot_idle_set_use)

lemma idle_slot_clear_use:
  "i < 8 * length bmp \<Longrightarrow> idle_slots (slot_clear_use bmp i) = insert i (idle_slots bmp)"
  by (auto simp: slot_idle_clear_use)

lemma lookfor_unused_slot_from_spec:
  "case lookfor_unused_slot_from bmp s u of
     None \<Rightarrow> \<forall>i. \<not> slot_idle bmp i
   | Some (k, bmp') \<Rightarrow> u \<le> k \<and> slot_idle bmp (k - u) \<and> (\<forall>j < k - u. \<not> slot_idle bmp j)
       \<and> bmp' = (if s then slot_set_use bmp (k - u) else bmp)"
proof (induction bmp arbitrary: u)
  case Nil
  show ?case by simp
next
  case (Cons b bmp)
  show ?case
  proof (cases "find (\<lambda>k. bit b (7 - k)) [0..<8]")
    case (Some j)
    then have "j < 8" "bit b (7 - j)" "\<forall>i < j. \<not> bit b (7 - i)"
      by (auto simp: find_Some_iff)
    with Some show ?thesis
      by (simp add: lookfor_unused_slot_from_Cons slot_idle_Cons slot_set_use_Cons
          del: lookfor_unused_slot_from.simps)
  next
    case None
    then have no: "\<forall>i < 8. \<not> bit b (7 - i)" by (auto simp: find_None_iff)
    show ?thesis
    proof (cases "lookfor_unused_slot_from bmp s (u + 8)")
      case None': None
      with Cons.IH [of "u + 8"] None no show ?thesis
        by (simp add: lookfor_unused_slot_from_Cons slot_idle_Cons
            del: lookfor_unused_slot_from.simps)
    next
      case (Some r)
      obtain k bmp' where r: "r = (k, bmp')" by (cases r)
      with Some Cons.IH [of "u + 8"]
      have k: "u + 8 \<le> k" "slot_idle bmp (k - (u + 8))"
        "\<forall>j < k - (u + 8). \<not> slot_idle bmp j"
        "bmp' = (if s then slot_set_use bmp (k - (u + 8)) else bmp)"
        by auto
      then obtain n where n: "k = u + 8 + n" by (metis le_Suc_ex)
      have "\<forall>j < 8 + n. \<not> slot_idle (b # bmp) j"
        using k(3) no by (auto simp: slot_idle_Cons n)
      with k r Some None n show ?thesis
        by (simp add: lookfor_unused_slot_from_Cons slot_idle_Cons slot_set_use_Cons
            del: lookfor_unused_slot_from.simps)
    qed
  qed
qed


lemma lookfor_unused_slot_spec:
  "case lookfor_unused_slot bmp s of
     None \<Rightarrow> idle_slots bmp = {}
   | Some (k, bmp') \<Rightarrow> k \<in> idle_slots bmp \<and> (\<forall>j \<in> idle_slots bmp. k \<le> j)
       \<and> bmp' = (if s then slot_set_use bmp k else bmp)"
  using lookfor_unused_slot_from_spec [where bmp = bmp and s = s and u = 0]
  by (auto simp: lookfor_unused_slot_def not_less [symmetric] split: option.splits)

section \<open>The interface of a slot set\<close>

text \<open>
  What the block heap and the window tables rely on: a search that returns the least idle
  slot (and can mark it used), and a release. Everything a client needs about
  allocating is derived from these laws.
\<close>

fun alloc_slots :: "('s \<Rightarrow> bool \<Rightarrow> (nat \<times> 's) option) \<Rightarrow> nat \<Rightarrow> 's \<Rightarrow> (nat list \<times> 's) option" where
  "alloc_slots search 0 s = Some ([], s)"
| "alloc_slots search (Suc n) s =
     (case search s True of
        None \<Rightarrow> None
      | Some (i, s') \<Rightarrow> map_option (\<lambda>(ks, s''). (i # ks, s'')) (alloc_slots search n s'))"

locale slot_allocator =
  fixes idle :: "'s \<Rightarrow> nat set"
    and size_of :: "'s \<Rightarrow> nat"
    and find_idle :: "'s \<Rightarrow> bool \<Rightarrow> (nat \<times> 's) option"
    and release :: "'s \<Rightarrow> nat \<Rightarrow> 's"
  assumes finite_idle: "finite (idle s)"
    and idle_less: "i \<in> idle s \<Longrightarrow> i < size_of s"
    and find_none: "find_idle s b = None \<longleftrightarrow> idle s = {}"
    and find_some: "find_idle s b = Some (i, s') \<Longrightarrow>
      i \<in> idle s \<and> (\<forall>j \<in> idle s. i \<le> j) \<and> size_of s' = size_of s
      \<and> idle s' = (if b then idle s - {i} else idle s)"
    and release_idle: "i < size_of s \<Longrightarrow>
      idle (release s i) = insert i (idle s) \<and> size_of (release s i) = size_of s"
begin

lemma find_then_release:
  assumes "find_idle s True = Some (i, s')"
  shows "idle (release s' i) = idle s"
proof -
  from find_some [OF assms] have i: "i \<in> idle s" "size_of s' = size_of s" "idle s' = idle s - {i}"
    by auto
  with idle_less have "i < size_of s'" by simp
  from release_idle [OF this] i show ?thesis by auto
qed

lemma alloc_slots_some:
  "alloc_slots find_idle n s = Some (ks, s') \<Longrightarrow>
     length ks = n \<and> distinct ks \<and> set ks \<subseteq> idle s \<and> idle s' = idle s - set ks"
proof (induction n arbitrary: s ks s')
  case (Suc n)
  then obtain i s1 ks1 where f: "find_idle s True = Some (i, s1)"
    and a: "alloc_slots find_idle n s1 = Some (ks1, s')" and ks: "ks = i # ks1"
    by (auto split: option.splits)
  from find_some [OF f] Suc.IH [OF a] ks show ?case by auto
qed simp

lemma alloc_slots_succeeds_iff: "alloc_slots find_idle n s \<noteq> None \<longleftrightarrow> n \<le> card (idle s)"
proof (induction n arbitrary: s)
  case (Suc n)
  show ?case
  proof (cases "find_idle s True")
    case None
    then show ?thesis using find_none [of s True] by simp
  next
    case (Some r)
    obtain i s1 where r: "r = (i, s1)" by (cases r)
    with find_some [of s True i s1] Some have i: "i \<in> idle s" "idle s1 = idle s - {i}" by auto
    then have "card (idle s1) = card (idle s) - 1" "0 < card (idle s)"
      using finite_idle [of s] by (auto simp: card_gt_0_iff)
    with Suc.IH [of s1] Some r show ?thesis by auto
  qed
qed simp

end

interpretation slots: slot_allocator idle_slots "\<lambda>bmp. 8 * length bmp" lookfor_unused_slot slot_clear_use
proof unfold_locales
  show "(lookfor_unused_slot bmp b = None) = (idle_slots bmp = {})" for bmp b
    using lookfor_unused_slot_spec [where bmp = bmp and s = b] by (auto split: option.splits)
  show "i \<in> idle_slots bmp \<and> (\<forall>j \<in> idle_slots bmp. i \<le> j) \<and> 8 * length bmp' = 8 * length bmp
      \<and> idle_slots bmp' = (if b then idle_slots bmp - {i} else idle_slots bmp)"
    if found: "lookfor_unused_slot bmp b = Some (i, bmp')" for bmp b i bmp'
  proof -
    from found lookfor_unused_slot_spec [where bmp = bmp and s = b]
    have i: "slot_idle bmp i" "\<forall>j. slot_idle bmp j \<longrightarrow> i \<le> j"
      "bmp' = (if b then slot_set_use bmp i else bmp)"
      by auto
    then have "i < 8 * length bmp" by (simp add: slot_idle_def)
    with i show ?thesis by (auto simp: slot_idle_set_use)
  qed
  show "idle_slots (slot_clear_use bmp i) = insert i (idle_slots bmp)
      \<and> 8 * length (slot_clear_use bmp i) = 8 * length bmp" if "i < 8 * length bmp" for bmp i
    using that by (simp add: idle_slot_clear_use)
qed (auto simp: slot_idle_def)

section \<open>Properties\<close>

text \<open>
  \<open>__mg_lookfor_unused_slot\<close> returns -1 exactly when the bitmap has no idle slot;
  otherwise it returns the least idle slot and, with \<open>set\<close>, marks that slot and no
  other as used.
\<close>

theorem lookfor_unused_slot_least:
  "(lookfor_unused_slot bmp s = None) = (idle_slots bmp = {})
   \<and> (case lookfor_unused_slot bmp s of
        None \<Rightarrow> True
      | Some (i, bmp') \<Rightarrow>
          i = Min (idle_slots bmp) \<and> slot_idle bmp i
          \<and> idle_slots bmp' = (if s then idle_slots bmp - {i} else idle_slots bmp)
          \<and> length bmp' = length bmp)"
proof (intro conjI)
  show "(lookfor_unused_slot bmp s = None) = (idle_slots bmp = {})"
    by (rule slots.find_none)
next
  show "case lookfor_unused_slot bmp s of
        None \<Rightarrow> True
      | Some (i, bmp') \<Rightarrow>
          i = Min (idle_slots bmp) \<and> slot_idle bmp i
          \<and> idle_slots bmp' = (if s then idle_slots bmp - {i} else idle_slots bmp)
          \<and> length bmp' = length bmp"
    by (auto dest!: slots.find_some intro!: Min_eqI [symmetric] split: option.splits)
qed

text \<open>
  starting from any bitmap, exactly as many searches with \<open>set\<close> succeed as there are
  idle slots; the slots handed out are pairwise distinct, were idle before and are in use after.
\<close>

theorem alloc_slots_exhausts:
  "(alloc_slots lookfor_unused_slot n bmp \<noteq> None) = (n \<le> card (idle_slots bmp))
   \<and> (case alloc_slots lookfor_unused_slot n bmp of
        None \<Rightarrow> True
      | Some (ks, bmp') \<Rightarrow> length ks = n \<and> distinct ks \<and> set ks \<subseteq> idle_slots bmp
          \<and> idle_slots bmp' = idle_slots bmp - set ks)"
  using slots.alloc_slots_succeeds_iff [of n bmp] slots.alloc_slots_some [of n bmp]
  by (auto split: option.splits)

lemma nr_idle_byte_card:
  "length (filter (\<lambda>i. bit (b :: u8) (7 - i)) [0..<8]) = card {i. i < 8 \<and> bit b (7 - i)}"
proof -
  have "{i. i < 8 \<and> bit b (7 - i)} = set (filter (\<lambda>i. bit b (7 - i)) [0..<8])"
    by auto
  then show ?thesis by (simp only: distinct_card distinct_filter distinct_upt)
qed

lemma idle_slots_Cons:
  "idle_slots (b # bmp) = {i. i < 8 \<and> bit b (7 - i)} \<union> (\<lambda>i. i + 8) ` idle_slots bmp"
proof (rule set_eqI)
  fix i
  have "\<not> i < 8 \<Longrightarrow> i \<in> (\<lambda>i. i + 8) ` idle_slots bmp \<longleftrightarrow> i - 8 \<in> idle_slots bmp"
    by (auto simp: image_iff intro: bexI [of _ "i - 8"])
  then show "i \<in> idle_slots (b # bmp)
      \<longleftrightarrow> i \<in> {i. i < 8 \<and> bit b (7 - i)} \<union> (\<lambda>i. i + 8) ` idle_slots bmp"
    by (cases "i < 8") (auto simp: slot_idle_Cons)
qed

lemma nr_idle_byte:
  "(if b \<noteq> 0 then
      if b = 0xFF then 8
      else (if b AND 0xF0 \<noteq> 0
            then length (filter (\<lambda>j. b AND drop_bit j 0x80 \<noteq> 0) [0..<4]) else 0)
           + (if b AND 0x0F \<noteq> 0
              then length (filter (\<lambda>j. b AND drop_bit j 0x08 \<noteq> 0) [0..<4]) else 0)
    else 0) = length (filter (\<lambda>i. bit (b :: u8) (7 - i)) [0..<8])"
proof -
  have hi: "filter (\<lambda>j. b AND drop_bit j 0x80 \<noteq> 0) [0..<4] = filter (\<lambda>j. bit b (7 - j)) [0..<4]"
    by (rule filter_cong [OF refl]) (subst and_test_bit, auto)
  have lo: "length (filter (\<lambda>j. b AND drop_bit j 0x08 \<noteq> 0) [0..<4])
      = length (filter (\<lambda>j. bit b (7 - j)) [4..<8])"
  proof -
    have "filter (\<lambda>j. b AND drop_bit j 0x08 \<noteq> 0) [0..<4] = filter (\<lambda>j. bit b (3 - j)) [0..<4]"
      by (rule filter_cong [OF refl]) (subst and_test_low_bit, auto)
    then show ?thesis by (simp add: upt_rec)
  qed
  have z: "b AND 0xF0 = 0 \<Longrightarrow> filter (\<lambda>j. bit b (7 - j)) [0..<4] = []"
    by (auto simp: filter_empty_conv simp flip: bit_hi_half)
  have z': "b AND 0x0F = 0 \<Longrightarrow> filter (\<lambda>j. bit b (7 - j)) [4..<8] = []"
  proof (unfold filter_empty_conv, intro ballI)
    fix j assume "b AND 0x0F = 0" "j \<in> set [4..<8]"
    with bit_lo_half [of j b] show "\<not> bit b (7 - j)" by auto
  qed
  have "[0..<8] = [0..<4] @ [4..<8::nat]" by (simp add: upt_rec)
  then have split: "length (filter (\<lambda>j. bit b (7 - j)) [0..<8])
      = length (filter (\<lambda>j. bit b (7 - j)) [0..<4]) + length (filter (\<lambda>j. bit b (7 - j)) [4..<8])"
    by (simp only: filter_append length_append)
  show ?thesis
  proof (cases "b = 0 \<or> b = 0xFF")
    case True
    have "bit (0xFF :: u8) (7 - i)" for i
    proof -
      have "(0xFF :: u8) = -1" by simp
      then show ?thesis by (simp only: bit_minus_1_iff) simp
    qed
    with True show ?thesis by auto
  next
    case False
    have h: "(if b AND 0xF0 \<noteq> 0 then length (filter (\<lambda>j. bit b (7 - j)) [0..<4]) else 0)
        = length (filter (\<lambda>j. bit b (7 - j)) [0..<4])"
      by (cases "b AND 0xF0 = 0") (simp_all only: z list.size if_cancel simp_thms if_True if_False not_True_eq_False not_False_eq_True)
    have l: "(if b AND 0x0F \<noteq> 0 then length (filter (\<lambda>j. bit b (7 - j)) [4..<8]) else 0)
        = length (filter (\<lambda>j. bit b (7 - j)) [4..<8])"
      by (cases "b AND 0x0F = 0") (simp_all only: z' list.size if_cancel simp_thms if_True if_False not_True_eq_False not_False_eq_True)
    from False have "b \<noteq> 0" "b \<noteq> 0xFF" by auto
    then show ?thesis
      unfolding hi lo split h l by (simp only: if_False if_True not_False_eq_True)
  qed
qed

lemma get_nr_idle_slots_card: "get_nr_idle_slots bmp = card (idle_slots bmp)"
proof (induction bmp)
  case Nil
  show ?case by (simp add: idle_slots_def)
next
  case (Cons b bmp)
  have "get_nr_idle_slots (b # bmp)
      = card {i. i < 8 \<and> bit b (7 - i)} + get_nr_idle_slots bmp"
    by (simp only: get_nr_idle_slots.simps nr_idle_byte nr_idle_byte_card)
  also have "\<dots> = card (idle_slots (b # bmp))"
    unfolding idle_slots_Cons
    by (subst card_Un_disjoint) (auto simp: Cons.IH card_image)
  finally show ?case .
qed

text \<open>
  \<open>__mg_get_nr_idle_slots\<close>, which counts half bytes and full bytes by shortcut,
  returns the number of idle slots; marking a slot used and releasing it remove and add
  exactly that slot, and \<open>__mg_slot_is_used\<close> reports the complement.
\<close>

theorem slot_ops_set:
  assumes "i < 8 * length bmp"
  shows "idle_slots (slot_set_use bmp i) = idle_slots bmp - {i}
    \<and> idle_slots (slot_clear_use bmp i) = insert i (idle_slots bmp)
    \<and> slot_is_used bmp i = (i \<notin> idle_slots bmp)
    \<and> get_nr_idle_slots bmp = card (idle_slots bmp)"
  using assms
  by (simp add: idle_slot_set_use idle_slot_clear_use slot_idle_iff_and get_nr_idle_slots_card)

theorem slot_ops_set_witness:
  "slot_is_used [0xFF, 0x00] 9 = (9 \<notin> idle_slots [0xFF, 0x00])
   \<and> get_nr_idle_slots [0xFF, 0x00] = card (idle_slots [0xFF, 0x00])"
  using slot_ops_set [of 9 "[0xFF, 0x00]"] by simp

end
