(* ===== verification/MG_BlockHeap.thy ===== *)
theory MG_BlockHeap
  imports MG_SlotSet
begin

text \<open>
  The block heap of \<open>src/kernel/blockheap.c\<close>: a pre-allocated arena of equal blocks whose
  use is recorded in a slot set, with single blocks from \<open>calloc\<close> once the arena is full.
  Clip rectangles and queued messages live in such heaps.

  Addresses are naturals. What \<open>calloc\<close> returns is an argument of the operations
  (\<open>None\<close> is NULL). A store outside the usage bitmap, which C leaves undefined, makes
  \<open>BlockDataFree\<close> return \<open>None\<close>. The lock around each operation is left out:
  each operation is one atomic step.
\<close>

section \<open>Data and operations\<close>

record BLOCKHEAP =
  sz_block :: nat
  sz_heap :: nat
  nr_alloc :: dword
  sz_usage_bmp :: nat
  heap :: "nat option"
  usage_bmp :: "u8 list"

definition ROUND_TO_MULTIPLE_PTR :: "nat \<Rightarrow> nat" where
  "ROUND_TO_MULTIPLE_PTR n = unat ((of_nat n + 7 :: dword) AND NOT 7)"

definition InitBlockDataHeap ::
  "nat \<Rightarrow> nat \<Rightarrow> nat option \<Rightarrow> bool \<Rightarrow> bool \<times> BLOCKHEAP" where
  "InitBlockDataHeap sz n arena bmp_ok =
     (let h = \<lparr>sz_block = ROUND_TO_MULTIPLE_PTR sz, sz_heap = ((n + 7) div 8) * 8,
               nr_alloc = 0, sz_usage_bmp = (n + 7) div 8, heap = None, usage_bmp = []\<rparr>
      in if sz_heap h = 0 \<or> sz_block h = 0 then (False, h)
         else case arena of
                None \<Rightarrow> (False, h)
              | Some base \<Rightarrow>
                  if bmp_ok then
                    (True, h\<lparr>heap := Some base,
                             usage_bmp := replicate (sz_usage_bmp h) 0xFF\<rparr>)
                  else (False, h))"

text \<open>The slot is stored in an \<open>int\<close>, and \<open>(size_t)-1\<close> becomes \<open>-1\<close> there.\<close>

definition int_of_slot :: "nat \<Rightarrow> int" where
  "int_of_slot i = sint (of_nat i :: 32 word)"

definition BlockDataAlloc :: "BLOCKHEAP \<Rightarrow> nat option \<Rightarrow> nat option \<times> BLOCKHEAP" where
  "BlockDataAlloc h extra =
     (let (free_slot, bmp) = (case lookfor_unused_slot (usage_bmp h) True of
                                None \<Rightarrow> (-1, usage_bmp h)
                              | Some (i, bmp) \<Rightarrow> (int_of_slot i, bmp));
          h1 = h\<lparr>usage_bmp := bmp\<rparr>
      in if free_slot \<ge> 0 then
           (map_option (\<lambda>base. base + sz_block h * nat free_slot) (heap h), h1)
         else case extra of
                None \<Rightarrow> (None, h1)
              | Some p \<Rightarrow> (Some p, h1\<lparr>nr_alloc := nr_alloc h1 + 1\<rparr>))"

definition BlockDataFree :: "BLOCKHEAP \<Rightarrow> nat \<Rightarrow> BLOCKHEAP option" where
  "BlockDataFree h p =
     (let base = (case heap h of None \<Rightarrow> 0 | Some b \<Rightarrow> b)
      in if p < base \<or> p > base + sz_block h * sz_heap h then
           Some (h\<lparr>nr_alloc := nr_alloc h - 1\<rparr>)
         else
           let slot = (p - base) div sz_block h
           in if slot div 8 < length (usage_bmp h)
              then Some (h\<lparr>usage_bmp := slot_clear_use (usage_bmp h) slot\<rparr>)
              else None)"

definition DestroyBlockDataHeap :: "BLOCKHEAP \<Rightarrow> bool \<times> BLOCKHEAP" where
  "DestroyBlockDataHeap h =
     (nr_alloc h > 0 \<or> get_nr_idle_slots (usage_bmp h) \<noteq> sz_heap h,
      h\<lparr>heap := None, usage_bmp := []\<rparr>)"

section \<open>The invariant\<close>

definition arena :: "BLOCKHEAP \<Rightarrow> nat \<Rightarrow> nat set" where
  "arena h base = {base ..< base + sz_block h * sz_heap h}"

definition block_addr :: "BLOCKHEAP \<Rightarrow> nat \<Rightarrow> nat \<Rightarrow> nat" where
  "block_addr h base i = base + sz_block h * i"

definition heap_wf :: "BLOCKHEAP \<Rightarrow> nat \<Rightarrow> bool" where
  "heap_wf h base \<longleftrightarrow> heap h = Some base \<and> 0 < sz_block h
     \<and> sz_heap h = 8 * length (usage_bmp h) \<and> sz_heap h \<le> 2 ^ 31"

text \<open>
  \<open>live\<close> is the set of blocks handed out and not freed. A block of the arena is live
  exactly when its slot is in use; the other live blocks came from \<open>calloc\<close> and are counted.
\<close>

definition heap_inv :: "BLOCKHEAP \<Rightarrow> nat set \<Rightarrow> bool" where
  "heap_inv h live \<longleftrightarrow>
     (\<exists>base. heap_wf h base \<and> finite live
        \<and> live \<inter> arena h base
          = block_addr h base ` {i. i < sz_heap h \<and> i \<notin> idle_slots (usage_bmp h)}
        \<and> (\<forall>p \<in> live - arena h base. p + sz_block h \<le> base \<or> base + sz_block h * sz_heap h \<le> p)
        \<and> nr_alloc h = of_nat (card (live - arena h base))
        \<and> (\<forall>p \<in> live. \<forall>q \<in> live. p \<noteq> q \<longrightarrow> p + sz_block h \<le> q \<or> q + sz_block h \<le> p))"

text \<open>What the heap relies on from \<open>calloc\<close>: a block overlapping nothing in use.\<close>

definition calloc_ok :: "BLOCKHEAP \<Rightarrow> nat set \<Rightarrow> nat \<Rightarrow> bool" where
  "calloc_ok h live p \<longleftrightarrow>
     (case heap h of None \<Rightarrow> False
      | Some base \<Rightarrow> p + sz_block h \<le> base \<or> base + sz_block h * sz_heap h \<le> p)
     \<and> (\<forall>q \<in> live. p + sz_block h \<le> q \<or> q + sz_block h \<le> p)"

lemma int_of_slot_small: "i < 2 ^ 31 \<Longrightarrow> int_of_slot i = int i"
  by (simp add: int_of_slot_def sint_uint unsigned_of_nat take_bit_nat_eq_self
      signed_take_bit_int_eq_self uint_nat)

lemma block_addr_in_arena: "0 < sz_block h \<Longrightarrow> i < sz_heap h \<Longrightarrow> block_addr h base i \<in> arena h base"
  by (simp add: block_addr_def arena_def)

lemma block_addr_gap:
  assumes "i \<noteq> j"
  shows "block_addr h base i + sz_block h \<le> block_addr h base j
       \<or> block_addr h base j + sz_block h \<le> block_addr h base i"
proof -
  have "Suc i \<le> j \<or> Suc j \<le> i" using assms by arith
  then have "sz_block h * Suc i \<le> sz_block h * j \<or> sz_block h * Suc j \<le> sz_block h * i"
    using mult_le_mono2 by blast
  then show ?thesis by (auto simp: block_addr_def)
qed

lemma block_addr_inj: "0 < sz_block h \<Longrightarrow> block_addr h base i = block_addr h base j \<longleftrightarrow> i = j"
  by (simp add: block_addr_def)


section \<open>Every operation keeps the invariant\<close>

lemma heap_inv_alloc_slot:
  assumes inv: "heap_inv h live" and wf: "heap_wf h base"
    and found: "lookfor_unused_slot (usage_bmp h) True = Some (i, bmp)"
  shows "BlockDataAlloc h extra = (Some (block_addr h base i), h\<lparr>usage_bmp := bmp\<rparr>)"
    and "block_addr h base i \<notin> live"
    and "heap_inv (h\<lparr>usage_bmp := bmp\<rparr>) (insert (block_addr h base i) live)"
proof -
  let ?p = "block_addr h base i" and ?h = "h\<lparr>usage_bmp := bmp\<rparr>"
  from slots.find_some [OF found]
  have i: "i \<in> idle_slots (usage_bmp h)" "length bmp = length (usage_bmp h)"
    "idle_slots bmp = idle_slots (usage_bmp h) - {i}"
    by auto
  with wf have less: "i < sz_heap h" and bound: "i < 2 ^ 31" and pos: "0 < sz_block h"
    by (auto simp: heap_wf_def slot_idle_def)
  then show "BlockDataAlloc h extra = (Some ?p, ?h)"
    using found wf by (simp add: BlockDataAlloc_def int_of_slot_small heap_wf_def block_addr_def)
  let ?used = "{j. j < sz_heap h \<and> j \<notin> idle_slots (usage_bmp h)}"
  from inv wf have fin: "finite live" and live: "live \<inter> arena h base = block_addr h base ` ?used"
    and ext: "\<forall>p \<in> live - arena h base. p + sz_block h \<le> base \<or> base + sz_block h * sz_heap h \<le> p"
    and nr: "nr_alloc h = of_nat (card (live - arena h base))"
    and disj: "\<forall>p \<in> live. \<forall>q \<in> live. p \<noteq> q \<longrightarrow> p + sz_block h \<le> q \<or> q + sz_block h \<le> p"
    by (auto simp: heap_inv_def heap_wf_def)
  have pa: "?p \<in> arena h base" by (rule block_addr_in_arena [OF pos less])
  show new: "?p \<notin> live"
  proof
    assume "?p \<in> live"
    with pa live have "?p \<in> block_addr h base ` ?used" by blast
    with i(1) pos show False by (auto simp: block_addr_inj)
  qed
  have apart: "?p + sz_block h \<le> q \<or> q + sz_block h \<le> ?p" if "q \<in> live" for q
  proof (cases "q \<in> arena h base")
    case True
    with that live obtain j where "q = block_addr h base j" "j \<in> ?used" by blast
    moreover from this i have "j \<noteq> i" by auto
    ultimately show ?thesis using block_addr_gap [of i j h base] by auto
  next
    case False
    with that ext have "q + sz_block h \<le> base \<or> base + sz_block h * sz_heap h \<le> q" by blast
    moreover have "?p + sz_block h \<le> base + sz_block h * sz_heap h"
      using less by (simp add: block_addr_def) (metis Suc_leI add.commute mult_Suc_right mult_le_mono2)
    moreover have "base \<le> ?p" by (simp add: block_addr_def)
    ultimately show ?thesis by linarith
  qed
  then have apart': "\<forall>q \<in> live. ?p + sz_block h \<le> q \<or> q + sz_block h \<le> ?p" by blast
  have arena: "arena ?h base = arena h base" "block_addr ?h base = block_addr h base"
    by (simp_all add: arena_def block_addr_def fun_eq_iff)
  have "insert ?p live \<inter> arena h base = block_addr h base ` {j. j < sz_heap h \<and> j \<notin> idle_slots bmp}"
  proof -
    have "{j. j < sz_heap h \<and> j \<notin> idle_slots bmp} = insert i ?used"
      using i(3) less by auto
    with pa live show ?thesis by simp
  qed
  moreover have "insert ?p live - arena h base = live - arena h base" using pa by blast
  moreover have "heap_wf ?h base" using wf i(2) by (simp add: heap_wf_def)
  ultimately show "heap_inv ?h (insert ?p live)"
    unfolding heap_inv_def using fin ext nr disj apart' arena
    by (intro exI [of _ base]) auto
qed

lemma heap_inv_alloc_extra:
  assumes inv: "heap_inv h live" and wf: "heap_wf h base"
    and full: "lookfor_unused_slot (usage_bmp h) True = None" and p: "calloc_ok h live p"
  shows "BlockDataAlloc h (Some p) = (Some p, h\<lparr>nr_alloc := nr_alloc h + 1\<rparr>)"
    and "p \<notin> live"
    and "heap_inv (h\<lparr>nr_alloc := nr_alloc h + 1\<rparr>) (insert p live)"
proof -
  let ?h = "h\<lparr>nr_alloc := nr_alloc h + 1\<rparr>"
  show "BlockDataAlloc h (Some p) = (Some p, ?h)"
    using full by (simp add: BlockDataAlloc_def)
  from wf have pos: "0 < sz_block h" by (simp add: heap_wf_def)
  from p wf have apart: "\<forall>q \<in> live. p + sz_block h \<le> q \<or> q + sz_block h \<le> p"
    and out: "p + sz_block h \<le> base \<or> base + sz_block h * sz_heap h \<le> p"
    by (auto simp: calloc_ok_def heap_wf_def)
  with pos show new: "p \<notin> live" by auto
  have pa: "p \<notin> arena h base" using out pos by (auto simp: arena_def)
  have arena: "arena ?h base = arena h base" "block_addr ?h base = block_addr h base"
    by (simp_all add: arena_def block_addr_def fun_eq_iff)
  have "insert p live \<inter> arena h base = live \<inter> arena h base"
    and ins: "insert p live - arena h base = insert p (live - arena h base)" using pa by auto
  moreover have "finite live" using inv by (auto simp: heap_inv_def)
  then have "card (insert p (live - arena h base)) = Suc (card (live - arena h base))"
    using new by simp
  ultimately show "heap_inv ?h (insert p live)"
    using inv wf apart out arena
    by (auto simp: heap_inv_def heap_wf_def add.commute intro!: exI [of _ base])
qed

text \<open>The address right behind the arena, where the bound test of \<open>BlockDataFree\<close> is off by one.\<close>

definition arena_end :: "BLOCKHEAP \<Rightarrow> nat" where
  "arena_end h = (case heap h of None \<Rightarrow> 0 | Some base \<Rightarrow> base + sz_block h * sz_heap h)"

lemma BlockDataFree_arena_end: "heap_inv h live \<Longrightarrow> BlockDataFree h (arena_end h) = None"
  by (auto simp: heap_inv_def heap_wf_def BlockDataFree_def arena_end_def)

lemma heap_inv_free:
  assumes inv: "heap_inv h live" and p: "p \<in> live" and e: "p \<noteq> arena_end h"
  shows "\<exists>h'. BlockDataFree h p = Some h' \<and> heap_inv h' (live - {p})"
proof -
  from inv obtain base where wf: "heap_wf h base" and fin: "finite live"
    and live: "live \<inter> arena h base = block_addr h base ` {i. i < sz_heap h \<and> i \<notin> idle_slots (usage_bmp h)}"
    and ext: "\<forall>p \<in> live - arena h base. p + sz_block h \<le> base \<or> base + sz_block h * sz_heap h \<le> p"
    and nr: "nr_alloc h = of_nat (card (live - arena h base))"
    and disj: "\<forall>p \<in> live. \<forall>q \<in> live. p \<noteq> q \<longrightarrow> p + sz_block h \<le> q \<or> q + sz_block h \<le> p"
    by (auto simp: heap_inv_def)
  from wf have pos: "0 < sz_block h" and hb: "heap h = Some base" by (auto simp: heap_wf_def)
  show ?thesis
  proof (cases "p \<in> arena h base")
    case False
    let ?h = "h\<lparr>nr_alloc := nr_alloc h - 1\<rparr>"
    from False p ext have "p + sz_block h \<le> base \<or> base + sz_block h * sz_heap h \<le> p" by auto
    with e hb have out: "p + sz_block h \<le> base \<or> base + sz_block h * sz_heap h < p" by (auto simp: arena_end_def)
    with pos hb have f: "BlockDataFree h p = Some ?h" by (auto simp: BlockDataFree_def)
    have arena: "arena ?h base = arena h base" "block_addr ?h base = block_addr h base"
      by (simp_all add: arena_def block_addr_def fun_eq_iff)
    have "(live - {p}) \<inter> arena h base = live \<inter> arena h base"
      "live - {p} - arena h base = live - arena h base - {p}" using False by auto
    moreover have "card (live - arena h base) = Suc (card (live - arena h base - {p}))"
      using fin p False by (intro card.remove) auto
    ultimately have "heap_inv ?h (live - {p})"
      using wf fin live ext nr disj arena
      by (auto simp: heap_inv_def heap_wf_def intro!: exI [of _ base])
    with f show ?thesis by blast
  next
    case True
    with p live obtain i where i: "p = block_addr h base i" "i < sz_heap h"
      "i \<notin> idle_slots (usage_bmp h)" by blast
    let ?bmp = "slot_clear_use (usage_bmp h) i"
    let ?h = "h\<lparr>usage_bmp := ?bmp\<rparr>"
    from i(2) wf have il: "i < 8 * length (usage_bmp h)" by (simp add: heap_wf_def)
    then have "i div 8 < length (usage_bmp h)" by simp
    with i(1) True pos hb have f: "BlockDataFree h p = Some ?h"
      by (auto simp: BlockDataFree_def block_addr_def arena_def)
    have arena: "arena ?h base = arena h base" "block_addr ?h base = block_addr h base"
      by (simp_all add: arena_def block_addr_def fun_eq_iff)
    have idle: "idle_slots ?bmp = insert i (idle_slots (usage_bmp h))" and len: "length ?bmp = length (usage_bmp h)"
      using slots.release_idle [OF il] by auto
    have "{j. j < sz_heap h \<and> j \<notin> idle_slots ?bmp}
        = {j. j < sz_heap h \<and> j \<notin> idle_slots (usage_bmp h)} - {i}"
      using idle by auto
    moreover have "inj (block_addr h base)" using pos by (simp add: inj_def block_addr_inj)
    moreover have "(live - {p}) \<inter> arena h base = live \<inter> arena h base - {block_addr h base i}"
      using i(1) by blast
    ultimately have "(live - {p}) \<inter> arena h base
        = block_addr h base ` {j. j < sz_heap h \<and> j \<notin> idle_slots ?bmp}"
      by (simp only: live image_set_diff image_insert image_empty)
    moreover have "live - {p} - arena h base = live - arena h base" using True by auto
    moreover have "heap_wf ?h base" using wf len by (simp add: heap_wf_def)
    ultimately have "heap_inv ?h (live - {p})"
      unfolding heap_inv_def using fin ext nr disj arena
      by (intro exI [of _ base]) auto
    with f show ?thesis by blast
  qed
qed


section \<open>The heap under any sequence of calls\<close>

text \<open>
  One call at a time, in any order: allocations with whatever \<open>calloc\<close> answers (within its
  contract), and frees of live blocks. A free that stores outside the bitmap has no step: C leaves
  undefined what follows.
\<close>

inductive heap_step :: "BLOCKHEAP \<times> nat set \<Rightarrow> BLOCKHEAP \<times> nat set \<Rightarrow> bool" where
  step_alloc: "BlockDataAlloc h extra = (Some p, h') \<Longrightarrow>
     \<forall>q. extra = Some q \<longrightarrow> calloc_ok h live q \<Longrightarrow> heap_step (h, live) (h', insert p live)"
| step_fail: "BlockDataAlloc h None = (None, h') \<Longrightarrow> heap_step (h, live) (h', live)"
| step_free: "p \<in> live \<Longrightarrow> BlockDataFree h p = Some h' \<Longrightarrow> heap_step (h, live) (h', live - {p})"

inductive_cases heap_stepE: "heap_step s t"

inductive heap_reachable :: "BLOCKHEAP \<times> nat set \<Rightarrow> bool" where
  reach_init: "InitBlockDataHeap sz n (Some base) True = (True, h) \<Longrightarrow> sz_heap h \<le> 2 ^ 31 \<Longrightarrow>
     heap_reachable (h, {})"
| reach_step: "heap_reachable s \<Longrightarrow> heap_step s t \<Longrightarrow> heap_reachable t"

lemma idle_slots_full: "idle_slots (replicate k 0xFF) = {..< 8 * k}"
proof -
  have "(0xFF :: u8) = -1" by simp
  then have "bit (0xFF :: u8) (7 - i mod 8)" for i by (simp only: bit_minus_1_iff) simp
  then show ?thesis by (auto simp: slot_idle_def)
qed

lemma heap_inv_init:
  "InitBlockDataHeap sz n (Some base) True = (True, h) \<Longrightarrow> sz_heap h \<le> 2 ^ 31 \<Longrightarrow> heap_inv h {}"
  by (auto simp: InitBlockDataHeap_def Let_def heap_inv_def heap_wf_def idle_slots_full
      simp del: mem_idle_slots split: if_splits)

lemma heap_inv_step:
  assumes "heap_step s t" and "heap_inv (fst s) (snd s)"
  shows "heap_inv (fst t) (snd t)"
  using assms
proof (induction rule: heap_step.induct)
  case (step_alloc h extra p h' live)
  then obtain base where wf: "heap_wf h base" by (auto simp: heap_inv_def)
  show ?case
  proof (cases "lookfor_unused_slot (usage_bmp h) True")
    case None
    with step_alloc have "extra = Some p"
      by (auto simp: BlockDataAlloc_def split: option.splits)
    moreover from step_alloc have inv: "heap_inv h live" by simp
    ultimately show ?thesis
      using step_alloc heap_inv_alloc_extra(1) [OF inv wf None, of p]
        heap_inv_alloc_extra(3) [OF inv wf None, of p] by simp
  next
    case (Some r)
    obtain i bmp where "r = (i, bmp)" by (cases r)
    with Some have f: "lookfor_unused_slot (usage_bmp h) True = Some (i, bmp)" by simp
    from step_alloc have inv: "heap_inv h live" by simp
    from step_alloc heap_inv_alloc_slot(1) [OF inv wf f, of extra]
      heap_inv_alloc_slot(3) [OF inv wf f] show ?thesis by simp
  qed
next
  case (step_fail h h' live)
  then obtain base where wf: "heap_wf h base" by (auto simp: heap_inv_def)
  show ?case
  proof (cases "lookfor_unused_slot (usage_bmp h) True")
    case None
    with step_fail show ?thesis by (auto simp: BlockDataAlloc_def)
  next
    case (Some r)
    obtain i bmp where "r = (i, bmp)" by (cases r)
    with Some have f: "lookfor_unused_slot (usage_bmp h) True = Some (i, bmp)" by simp
    from step_fail have inv: "heap_inv h live" by simp
    from step_fail heap_inv_alloc_slot(1) [OF inv wf f, of None] show ?thesis by simp
  qed
next
  case (step_free p live h h')
  then have inv: "heap_inv h live" by simp
  have "p \<noteq> arena_end h" using BlockDataFree_arena_end [OF inv] step_free(2) by auto
  from heap_inv_free [OF inv step_free(1) this] step_free(2) show ?case by simp
qed

lemma heap_reachable_inv: "heap_reachable s \<Longrightarrow> heap_inv (fst s) (snd s)"
  by (induction rule: heap_reachable.induct) (auto intro: heap_inv_init heap_inv_step)

text \<open>
  C8: in every state that allocations and frees reach from a heap of at most \<open>2 ^ 31\<close> blocks (slot numbers are of
  type \<open>int\<close>) that was set up, whatever \<open>calloc\<close> answers when the arena is
  full (any block that overlaps nothing in use, also one right behind the arena), the blocks handed out do not
  overlap, and every further allocation returns a block that overlaps none of them. A run ends where
  \<open>BlockDataFree\<close> is given a \<open>calloc\<close> block right behind the arena, which makes it write outside the bitmap.
\<close>

theorem block_heap_disjoint:
  assumes "heap_reachable (h, live)" and "BlockDataAlloc h extra = (Some p, h')"
    and "\<forall>q. extra = Some q \<longrightarrow> calloc_ok h live q"
  shows "(\<forall>q \<in> live. p + sz_block h \<le> q \<or> q + sz_block h \<le> p) \<and> p \<notin> live
    \<and> (\<forall>q \<in> live. \<forall>r \<in> live. q \<noteq> r \<longrightarrow> q + sz_block h \<le> r \<or> r + sz_block h \<le> q)"
proof -
  from assms(1) have inv: "heap_inv h live" using heap_reachable_inv by fastforce
  from heap_step.step_alloc [OF assms(2,3)] have "heap_step (h, live) (h', insert p live)" .
  from heap_inv_step [OF this] inv have inv': "heap_inv h' (insert p live)" by simp
  from inv obtain base where wf: "heap_wf h base" by (auto simp: heap_inv_def)
  have sz: "sz_block h' = sz_block h"
    using assms(2) by (auto simp: BlockDataAlloc_def Let_def split: option.splits prod.splits if_splits)
  have "p \<notin> live"
  proof (cases "lookfor_unused_slot (usage_bmp h) True")
    case None
    with assms have "extra = Some p" by (auto simp: BlockDataAlloc_def split: option.splits)
    with assms(3) heap_inv_alloc_extra(2) [OF inv wf None] show ?thesis by blast
  next
    case (Some r)
    obtain i bmp where "r = (i, bmp)" by (cases r)
    with Some have f: "lookfor_unused_slot (usage_bmp h) True = Some (i, bmp)" by simp
    from assms(2) heap_inv_alloc_slot(1) [OF inv wf f, of extra]
      heap_inv_alloc_slot(2) [OF inv wf f] show ?thesis by simp
  qed
  with inv inv' sz show ?thesis by (auto simp: heap_inv_def)
qed

text \<open>
  In every reachable state, freeing a live block other than one right behind the arena stays inside the usage
  bitmap and succeeds, leaves the other live blocks valid, and the teardown warns exactly when
  something is still allocated (as long as fewer than \<open>2 ^ 64\<close> blocks came from \<open>calloc\<close>).
\<close>

theorem block_heap_free_safe:
  assumes "heap_reachable (h, live)"
  shows "(\<forall>p \<in> live. p \<noteq> arena_end h \<longrightarrow> (\<exists>h'. BlockDataFree h p = Some h' \<and> heap_reachable (h', live - {p})))
    \<and> (card live < 2 ^ 64 \<longrightarrow> fst (DestroyBlockDataHeap h) = (live \<noteq> {}))"
proof -
  from assms have inv: "heap_inv h live" using heap_reachable_inv by fastforce
  have free: "\<forall>p \<in> live. p \<noteq> arena_end h \<longrightarrow> (\<exists>h'. BlockDataFree h p = Some h' \<and> heap_reachable (h', live - {p}))"
    using heap_inv_free [OF inv] assms by (meson heap_reachable.reach_step heap_step.step_free)
  from inv obtain base where wf: "heap_wf h base" and fin: "finite live"
    and live: "live \<inter> arena h base = block_addr h base ` {i. i < sz_heap h \<and> i \<notin> idle_slots (usage_bmp h)}"
    and nr: "nr_alloc h = of_nat (card (live - arena h base))"
    by (auto simp: heap_inv_def)
  have "fst (DestroyBlockDataHeap h) = (live \<noteq> {})" if card: "card live < 2 ^ 64"
  proof -
    have "card (live - arena h base) < 2 ^ 64"
      using card card_mono [of live "live - arena h base"] fin by auto
    then have "unat (nr_alloc h) = card (live - arena h base)"
      by (simp add: nr unsigned_of_nat take_bit_nat_eq_self)
    then have ext: "nr_alloc h > 0 \<longleftrightarrow> live - arena h base \<noteq> {}"
      using fin by (metis card_gt_0_iff finite_Diff unat_gt_0 word_neq_0_conv)
    have idle: "idle_slots (usage_bmp h) \<subseteq> {..< sz_heap h}"
      using wf by (auto simp: heap_wf_def slot_idle_def)
    have "card (idle_slots (usage_bmp h)) \<noteq> sz_heap h \<longleftrightarrow> idle_slots (usage_bmp h) \<noteq> {..< sz_heap h}"
      using idle by (metis card_lessThan card_subset_eq finite_lessThan)
    also have "\<dots> \<longleftrightarrow> live \<inter> arena h base \<noteq> {}"
      using idle live by auto
    finally have "get_nr_idle_slots (usage_bmp h) \<noteq> sz_heap h \<longleftrightarrow> live \<inter> arena h base \<noteq> {}"
      by (simp add: get_nr_idle_slots_card)
    with ext show ?thesis by (auto simp: DestroyBlockDataHeap_def)
  qed
  with free show ?thesis by blast
qed

text \<open>A heap of eight blocks of 16 bytes at address 1000.\<close>

definition small_heap :: BLOCKHEAP where
  "small_heap = snd (InitBlockDataHeap 13 5 (Some 1000) True)"

lemma small_heap_eq:
  "InitBlockDataHeap 13 5 (Some 1000) True = (True, small_heap)"
  "small_heap = \<lparr>sz_block = 16, sz_heap = 8, nr_alloc = 0, sz_usage_bmp = 1, heap = Some 1000,
     usage_bmp = [0xFF]\<rparr>"
  by (simp_all add: small_heap_def InitBlockDataHeap_def ROUND_TO_MULTIPLE_PTR_def Let_def)

lemma small_heap_reachable: "heap_reachable (small_heap, {})"
  by (rule heap_reachable.reach_init [OF small_heap_eq(1)]) (simp add: small_heap_eq(2))

lemma small_heap_alloc:
  "BlockDataAlloc small_heap None = (Some 1000, small_heap\<lparr>usage_bmp := [0x7F]\<rparr>)"
  by (simp add: BlockDataAlloc_def small_heap_eq(2) lookfor_unused_slot_def scan_half.simps
      int_of_slot_def Let_def)

lemma small_heap_alloc_reachable:
  "heap_reachable (small_heap\<lparr>usage_bmp := [0x7F]\<rparr>, {1000})"
  by (rule heap_reachable.reach_step [OF small_heap_reachable])
    (use heap_step.step_alloc [OF small_heap_alloc, of "{}"] in simp)

theorem block_heap_disjoint_witness:
  "(1016 + sz_block small_heap \<le> 1000 \<or> 1000 + sz_block small_heap \<le> 1016) \<and> (1016::nat) \<notin> {1000}"
proof -
  have "BlockDataAlloc (small_heap\<lparr>usage_bmp := [0x7F]\<rparr>) None
      = (Some 1016, small_heap\<lparr>usage_bmp := [0x3F]\<rparr>)"
    by (simp add: BlockDataAlloc_def small_heap_eq(2) lookfor_unused_slot_def scan_half.simps
        int_of_slot_def Let_def)
  from block_heap_disjoint [OF small_heap_alloc_reachable this] show ?thesis by simp
qed

theorem block_heap_free_safe_witness:
  "(\<exists>h'. BlockDataFree (small_heap\<lparr>usage_bmp := [0x7F]\<rparr>) 1000 = Some h')
   \<and> fst (DestroyBlockDataHeap (small_heap\<lparr>usage_bmp := [0x7F]\<rparr>))"
  using block_heap_free_safe [OF small_heap_alloc_reachable] by (auto simp: arena_end_def small_heap_eq(2))

text \<open>
  The bound test of \<open>BlockDataFree\<close> is off by one: a block from \<open>calloc\<close> that starts
  exactly at the end of the arena is taken for slot \<open>sz_heap\<close>, one past the bitmap.
\<close>

lemma BlockDataFree_end_of_arena:
  "BlockDataFree small_heap (1000 + sz_block small_heap * sz_heap small_heap) = None"
  by (simp add: BlockDataFree_def small_heap_eq(2))

end
