(* ===== verification/MG_Region.thy ===== *)
theory MG_Region
  imports MG_Rect
begin

text \<open>
  The clip regions of \<open>src/newgdi/region.c\<close>: the data, the \<open>y-x-banded\<close> form of
  the rectangle list, and the queries and simple updates.

  The doubly linked list from \<open>head\<close> to \<open>tail\<close> is the list \<open>cliprects\<close>; a NULL
  head is the empty list and \<open>tail\<close> is its last element. Allocating a clip rectangle
  is taken to succeed, as the code takes it (\<open>NEWCLIPRECT\<close> does not test for NULL),
  except in \<open>SetClipRgn\<close>, which tests. A read through a NULL \<open>head\<close> or \<open>tail\<close> is
  the result \<open>None\<close>.
\<close>

section \<open>Data\<close>

datatype rgn_type = NULLREGION | SIMPLEREGION | COMPLEXREGION

record CLIPRGN =
  rgn_type :: rgn_type
  rcBound :: RECT
  cliprects :: "RECT list"
  rgn_heap :: "nat option"

definition EXTENTCHECK :: "RECT \<Rightarrow> RECT \<Rightarrow> bool" where
  "EXTENTCHECK r1 r2 \<longleftrightarrow>
     right r1 > left r2 \<and> left r1 < right r2 \<and> bottom r1 > top r2 \<and> top r1 < bottom r2"

definition INRECT :: "RECT \<Rightarrow> int \<Rightarrow> int \<Rightarrow> bool" where
  "INRECT r x y \<longleftrightarrow> right r > x \<and> left r \<le> x \<and> bottom r > y \<and> top r \<le> y"

section \<open>Queries\<close>

fun pt_in_band :: "int \<Rightarrow> RECT list \<Rightarrow> int \<Rightarrow> int \<Rightarrow> bool" where
  "pt_in_band t [] x y = False"
| "pt_in_band t (c # cs) x y =
     (if top c = t then (if INRECT c x y then True else pt_in_band t cs x y) else False)"

definition PtInRegion :: "CLIPRGN \<Rightarrow> int \<Rightarrow> int \<Rightarrow> bool option" where
  "PtInRegion rgn x y =
     (if rgn_type rgn = NULLREGION then Some False
      else case cliprects rgn of
        [] \<Rightarrow> None
      | h # _ \<Rightarrow>
          if y \<ge> bottom (last (cliprects rgn)) \<or> y < top h then Some False
          else case dropWhile (\<lambda>c. y \<ge> bottom c) (cliprects rgn) of
                 [] \<Rightarrow> Some False
               | c # cs \<Rightarrow> Some (pt_in_band (top c) (c # cs) x y))"

fun rect_in_rects :: "RECT list \<Rightarrow> RECT \<Rightarrow> bool" where
  "rect_in_rects [] r = False"
| "rect_in_rects (c # cs) r =
     (if bottom c \<le> top r then rect_in_rects cs r
      else if top c \<ge> bottom r then False
      else if right c \<le> left r then rect_in_rects cs r
      else if left c \<ge> right r then rect_in_rects cs r
      else True)"

definition RectInRegion :: "CLIPRGN \<Rightarrow> RECT \<Rightarrow> bool" where
  "RectInRegion rgn r =
     (if cliprects rgn \<noteq> [] \<and> EXTENTCHECK (rcBound rgn) r
      then rect_in_rects (cliprects rgn) r else False)"

definition GetClipRgnBoundRect :: "CLIPRGN \<Rightarrow> RECT" where
  "GetClipRgnBoundRect rgn = rcBound rgn"

definition IsEmptyClipRgn :: "CLIPRGN \<Rightarrow> bool" where
  "IsEmptyClipRgn rgn \<longleftrightarrow> cliprects rgn = [] \<or> IsRectEmpty (rcBound rgn)"

section \<open>Simple updates\<close>

definition InitClipRgn :: "nat option \<Rightarrow> CLIPRGN" where
  "InitClipRgn h =
     \<lparr>rgn_type = NULLREGION, rcBound = SetRectEmpty, cliprects = [], rgn_heap = h\<rparr>"

definition EmptyClipRgn :: "CLIPRGN \<Rightarrow> CLIPRGN" where
  "EmptyClipRgn rgn = rgn\<lparr>rgn_type := NULLREGION, rcBound := SetRectEmpty, cliprects := []\<rparr>"

definition SetClipRgn :: "bool \<Rightarrow> CLIPRGN \<Rightarrow> RECT \<Rightarrow> bool \<times> CLIPRGN" where
  "SetClipRgn alloc_ok rgn r =
     (if IsRectEmpty r then (False, rgn)
      else let e = EmptyClipRgn rgn
           in if \<not> alloc_ok then (False, e)
              else (True, e\<lparr>rgn_type := SIMPLEREGION, cliprects := [r], rcBound := r\<rparr>))"

fun extents_loop :: "RECT \<Rightarrow> RECT list \<Rightarrow> RECT" where
  "extents_loop e [] = e"
| "extents_loop e (c # cs) =
     (let e1 = (if left c < left e then e\<lparr>left := left c\<rparr> else e);
          e2 = (if right c > right e1 then e1\<lparr>right := right c\<rparr> else e1)
      in extents_loop e2 cs)"

definition REGION_SetExtents :: "CLIPRGN \<Rightarrow> CLIPRGN" where
  "REGION_SetExtents rgn =
     (case cliprects rgn of
        [] \<Rightarrow> rgn\<lparr>rcBound := SetRectEmpty\<rparr>
      | h # _ \<Rightarrow>
          let t = last (cliprects rgn)
          in rgn\<lparr>rcBound := extents_loop
               \<lparr>left = left h, top = top h, right = right t, bottom = bottom t\<rparr>
               (cliprects rgn)\<rparr>)"

definition OffsetRegion :: "CLIPRGN \<Rightarrow> int \<Rightarrow> int \<Rightarrow> CLIPRGN" where
  "OffsetRegion rgn x y =
     (let rgn1 = rgn\<lparr>cliprects := map (\<lambda>c. OffsetRect c x y) (cliprects rgn)\<rparr>
      in if cliprects rgn1 \<noteq> [] then rgn1\<lparr>rcBound := OffsetRect (rcBound rgn1) x y\<rparr> else rgn1)"

section \<open>The banded form\<close>

text \<open>
  Two rectangles of the list, in list order, either lie in one band (the same scan lines,
  with free space between them) or in different bands, the first above the second.
\<close>

definition before :: "RECT \<Rightarrow> RECT \<Rightarrow> bool" where
  "before r s \<longleftrightarrow> (top r = top s \<and> bottom r = bottom s \<and> right r < left s) \<or> bottom r \<le> top s"

definition banded :: "RECT list \<Rightarrow> bool" where
  "banded rs \<longleftrightarrow> (\<forall>r \<in> set rs. rect_ok r) \<and> sorted_wrt before rs"

definition rects_pts :: "RECT list \<Rightarrow> (int \<times> int) set" where
  "rects_pts rs = (\<Union>r \<in> set rs. rect_pts r)"

definition rgn_pts :: "CLIPRGN \<Rightarrow> (int \<times> int) set" where
  "rgn_pts rgn = rects_pts (cliprects rgn)"

definition rgn_wf :: "CLIPRGN \<Rightarrow> bool" where
  "rgn_wf rgn \<longleftrightarrow> banded (cliprects rgn)
     \<and> (rgn_type rgn = NULLREGION \<longleftrightarrow> cliprects rgn = [])
     \<and> rcBound rgn = rcBound (REGION_SetExtents rgn)"

lemma mem_rects_pts: "(x, y) \<in> rects_pts rs \<longleftrightarrow> (\<exists>r \<in> set rs. (x, y) \<in> rect_pts r)"
  by (simp add: rects_pts_def)

lemma rects_pts_simps [simp]:
  "rects_pts [] = {}" "rects_pts (r # rs) = rect_pts r \<union> rects_pts rs"
  "rects_pts (rs @ ss) = rects_pts rs \<union> rects_pts ss"
  by (auto simp: rects_pts_def)

lemma banded_Nil [simp]: "banded []"
  by (simp add: banded_def)

lemma banded_Cons: "banded (r # rs) \<longleftrightarrow> rect_ok r \<and> (\<forall>s \<in> set rs. before r s) \<and> banded rs"
  by (auto simp: banded_def)

lemma banded_append:
  "banded (rs @ ss) \<longleftrightarrow> banded rs \<and> banded ss \<and> (\<forall>r \<in> set rs. \<forall>s \<in> set ss. before r s)"
  by (auto simp: banded_def sorted_wrt_append)

lemma before_top: "rect_ok r \<Longrightarrow> before r s \<Longrightarrow> top r \<le> top s"
  by (auto simp: before_def rect_ok_def)

lemma before_bottom: "rect_ok s \<Longrightarrow> before r s \<Longrightarrow> bottom r \<le> bottom s"
  by (auto simp: before_def rect_ok_def)

lemma banded_member_ok: "banded rs \<Longrightarrow> r \<in> set rs \<Longrightarrow> rect_ok r"
  by (simp add: banded_def)

subsection \<open>Bounds\<close>

lemma extents_loop_spec:
  "let b = extents_loop e cs in
     top b = top e \<and> bottom b = bottom e
     \<and> (\<forall>c \<in> set cs. left b \<le> left c \<and> right c \<le> right b) \<and> left b \<le> left e \<and> right e \<le> right b
     \<and> (left b = left e \<or> (\<exists>c \<in> set cs. left b = left c))
     \<and> (right b = right e \<or> (\<exists>c \<in> set cs. right b = right c))"
proof (induction cs arbitrary: e)
  case Nil
  then show ?case by simp
next
  case (Cons c cs)
  let ?e1 = "if left c < left e then e\<lparr>left := left c\<rparr> else e"
  define e2 where "e2 = (if right c > right ?e1 then ?e1\<lparr>right := right c\<rparr> else ?e1)"
  have e2: "top e2 = top e" "bottom e2 = bottom e" "left e2 = min (left c) (left e)"
    "right e2 = max (right c) (right e)"
    by (auto simp: e2_def)
  have step: "extents_loop e (c # cs) = extents_loop e2 cs"
    unfolding e2_def by (simp only: extents_loop.simps Let_def)
  from Cons.IH [of e2] show ?case
    unfolding step Let_def e2 by (auto simp: min_def max_def split: if_splits)
qed

lemma banded_top_bottom:
  assumes "banded (h # cs)" and "c \<in> set (h # cs)"
  shows "top h \<le> top c \<and> bottom c \<le> bottom (last (h # cs))"
proof
  show "top h \<le> top c" using assms by (auto simp: banded_Cons dest: before_top)
  from assms(2) obtain us vs where uv: "h # cs = us @ c # vs" by (meson split_list)
  show "bottom c \<le> bottom (last (h # cs))"
  proof (cases "vs = []")
    case False
    then have "last (h # cs) = last vs" "last vs \<in> set vs" using uv by auto
    with assms(1) uv show ?thesis
      by (auto simp: banded_append banded_Cons intro: before_bottom banded_member_ok)
  qed (use uv in simp)
qed

lemma SetExtents_bound:
  assumes b: "banded rs" and ne: "rs \<noteq> []" and rs: "cliprects rgn = rs"
    and B: "B = rcBound (REGION_SetExtents rgn)"
  shows "\<forall>r \<in> set rs. left B \<le> left r \<and> right r \<le> right B \<and> top B \<le> top r \<and> bottom r \<le> bottom B"
    and "\<exists>r \<in> set rs. left B = left r" and "\<exists>r \<in> set rs. right B = right r"
    and "top B = top (hd rs)" and "bottom B = bottom (last rs)"
proof -
  obtain h cs where hs: "rs = h # cs" using ne by (cases rs) auto
  let ?e = "\<lparr>left = left h, top = top h, right = right (last rs), bottom = bottom (last rs)\<rparr>"
  have B': "B = extents_loop ?e rs"
    using rs B hs by (simp add: REGION_SetExtents_def Let_def)
  note spec = extents_loop_spec [of ?e rs, folded B', unfolded Let_def]
  have "\<forall>c \<in> set rs. top h \<le> top c \<and> bottom c \<le> bottom (last rs)"
    using b banded_top_bottom hs by blast
  with spec show "\<forall>r \<in> set rs. left B \<le> left r \<and> right r \<le> right B \<and> top B \<le> top r \<and> bottom r \<le> bottom B"
    by auto
  show "\<exists>r \<in> set rs. left B = left r" "\<exists>r \<in> set rs. right B = right r"
    using spec last_in_set [OF ne] hs by (auto simp del: last.simps)
  show "top B = top (hd rs)" "bottom B = bottom (last rs)" using spec hs by auto
qed

lemma rgn_wf_bound:
  assumes "rgn_wf rgn" "r \<in> set (cliprects rgn)"
  shows "left (rcBound rgn) \<le> left r" "right r \<le> right (rcBound rgn)"
    "top (rcBound rgn) \<le> top r" "bottom r \<le> bottom (rcBound rgn)"
proof -
  have ne: "cliprects rgn \<noteq> []" using assms(2) by auto
  from assms(1) have b: "banded (cliprects rgn)" and B: "rcBound rgn = rcBound (REGION_SetExtents rgn)"
    by (simp_all add: rgn_wf_def)
  from SetExtents_bound(1) [OF b ne refl B] assms(2)
  show "left (rcBound rgn) \<le> left r" "right r \<le> right (rcBound rgn)"
    "top (rcBound rgn) \<le> top r" "bottom r \<le> bottom (rcBound rgn)"
    by blast+
qed

lemma rgn_wf_simple:
  assumes "rect_ok r" and "rgn_type rgn \<noteq> NULLREGION" and "cliprects rgn = [r]" and "rcBound rgn = r"
  shows "rgn_wf rgn"
proof -
  have "rcBound (REGION_SetExtents rgn) = r"
    unfolding REGION_SetExtents_def assms(3) by (rule RECT.equality) simp_all
  with assms show ?thesis unfolding rgn_wf_def by (simp add: banded_Cons)
qed

lemma rgn_wf_empty:
  "rgn_type rgn = NULLREGION \<Longrightarrow> cliprects rgn = [] \<Longrightarrow> rcBound rgn = SetRectEmpty \<Longrightarrow> rgn_wf rgn"
  by (simp add: rgn_wf_def REGION_SetExtents_def)

lemma rgn_wf_EmptyClipRgn [simp]: "rgn_wf (EmptyClipRgn rgn)" "rgn_pts (EmptyClipRgn rgn) = {}"
  by (auto simp: EmptyClipRgn_def rgn_pts_def intro: rgn_wf_empty)

lemma rgn_wf_InitClipRgn [simp]: "rgn_wf (InitClipRgn h)" "rgn_pts (InitClipRgn h) = {}"
  by (auto simp: InitClipRgn_def rgn_pts_def intro: rgn_wf_empty)

subsection \<open>Points\<close>

lemma pt_in_band_iff:
  "pt_in_band t cs x y \<longleftrightarrow> (\<exists>s \<in> set (takeWhile (\<lambda>s. top s = t) cs). (x, y) \<in> rect_pts s)"
  by (induction cs) (auto simp: INRECT_def)

lemma not_in_dropWhile:
  assumes "banded (c # cs)" and "s \<in> set (dropWhile (\<lambda>s. top s = top c) (c # cs))"
  shows "bottom c \<le> top s"
proof -
  let ?d = "dropWhile (\<lambda>s. top s = top c) cs"
  have s: "s \<in> set ?d" using assms(2) by simp
  then have "?d \<noteq> []" by (rule length_pos_if_in_set [THEN length_greater_0_conv [THEN iffD1]])
  then obtain d ds where d: "?d = d # ds" by (meson neq_Nil_conv)
  have "d \<in> set cs" by (rule dropWhile_ConsD(2) [OF d])
  moreover have "top d \<noteq> top c" by (rule dropWhile_ConsD(1) [OF d])
  ultimately have "bottom c \<le> top d" using assms(1) by (auto simp: banded_Cons before_def)
  moreover have "banded (d # ds)" using assms(1) d
    by (metis banded_Cons banded_append takeWhile_dropWhile_id)
  then have "top d \<le> top s" using s unfolding d by (auto simp: banded_Cons dest: before_top)
  ultimately show ?thesis by simp
qed

lemma pt_in_band_banded:
  assumes "banded (c # cs)" and "y < bottom c"
  shows "pt_in_band (top c) (c # cs) x y \<longleftrightarrow> (x, y) \<in> rects_pts (c # cs)"
proof
  assume "pt_in_band (top c) (c # cs) x y"
  then show "(x, y) \<in> rects_pts (c # cs)"
    unfolding pt_in_band_iff mem_rects_pts by (meson set_takeWhileD)
next
  assume "(x, y) \<in> rects_pts (c # cs)"
  then obtain s where s: "s \<in> set (c # cs)" "(x, y) \<in> rect_pts s" by (auto simp: mem_rects_pts)
  then have "s \<notin> set (dropWhile (\<lambda>s. top s = top c) (c # cs))"
    using not_in_dropWhile [OF assms(1)] assms(2) by fastforce
  moreover have "set (c # cs) = set (takeWhile (\<lambda>s. top s = top c) (c # cs))
      \<union> set (dropWhile (\<lambda>s. top s = top c) (c # cs))"
    by (metis set_append takeWhile_dropWhile_id)
  ultimately have "s \<in> set (takeWhile (\<lambda>s. top s = top c) (c # cs))" using s(1) by blast
  with s(2) show "pt_in_band (top c) (c # cs) x y" unfolding pt_in_band_iff by blast
qed

lemma rect_in_rects_iff:
  assumes "banded cs" and "rect_ok r"
  shows "rect_in_rects cs r \<longleftrightarrow> rects_pts cs \<inter> rect_pts r \<noteq> {}"
  using assms
proof (induction cs)
  case (Cons c cs)
  have c: "rect_ok c" and cs: "banded cs" and bef: "\<forall>s \<in> set cs. before c s"
    using Cons.prems by (auto simp: banded_Cons)
  have hit: "rect_pts c \<inter> rect_pts r \<noteq> {} \<longleftrightarrow> EXTENTCHECK c r"
    using c Cons.prems(2) by (auto simp: EXTENTCHECK_def rect_ok_def DoesIntersect_alt simp flip: DoesIntersect_iff)
  show ?case
  proof (cases "top c \<ge> bottom r")
    case True
    then have "rects_pts (c # cs) \<inter> rect_pts r = {}"
      using bef before_top [OF c] by (fastforce simp: rects_pts_def rect_pts_def)
    moreover have "\<not> rect_in_rects (c # cs) r"
      using True c Cons.prems(2) by (auto simp: rect_ok_def)
    ultimately show ?thesis by simp
  next
    case False
    with hit Cons.IH [OF cs Cons.prems(2)] show ?thesis
      by (auto simp: EXTENTCHECK_def Int_Un_distrib2)
  qed
qed simp

section \<open>Properties\<close>

text \<open>
  on a well-formed region \<open>PtInRegion\<close> never reads through NULL, and its band-wise
  search answers exactly whether the pixel belongs to the region.
\<close>

theorem PtInRegion_correct:
  assumes "rgn_wf rgn"
  shows "PtInRegion rgn x y = Some ((x, y) \<in> rgn_pts rgn)"
proof (cases "cliprects rgn")
  case Nil
  with assms show ?thesis by (simp add: PtInRegion_def rgn_wf_def rgn_pts_def)
next
  case (Cons h cs)
  let ?rs = "cliprects rgn"
  from assms Cons have b: "banded ?rs" and ty: "rgn_type rgn \<noteq> NULLREGION"
    by (auto simp: rgn_wf_def)
  then have tb: "\<forall>c \<in> set ?rs. top h \<le> top c \<and> bottom c \<le> bottom (last ?rs)"
    using banded_top_bottom Cons by metis
  show ?thesis
  proof (cases "y \<ge> bottom (last ?rs) \<or> y < top h")
    case True
    with tb have "(x, y) \<notin> rgn_pts rgn" by (fastforce simp: rgn_pts_def mem_rects_pts)
    with True ty Cons show ?thesis by (simp add: PtInRegion_def)
  next
    case False
    let ?t = "takeWhile (\<lambda>c. y \<ge> bottom c) ?rs" and ?d = "dropWhile (\<lambda>c. y \<ge> bottom c) ?rs"
    have split: "rects_pts ?rs = rects_pts ?t \<union> rects_pts ?d"
      by (metis rects_pts_simps(3) takeWhile_dropWhile_id)
    have t: "(x, y) \<notin> rects_pts ?t"
      by (auto simp: mem_rects_pts dest!: set_takeWhileD)
    have eq: "PtInRegion rgn x y = (case ?d of [] \<Rightarrow> Some False | c # cs \<Rightarrow> Some (pt_in_band (top c) (c # cs) x y))"
      using False ty Cons by (simp add: PtInRegion_def)
    show ?thesis
    proof (cases ?d)
      case Nil
      with eq t split show ?thesis by (simp add: rgn_pts_def)
    next
      case (Cons c ds)
      then have "y < bottom c" using dropWhile_ConsD(1) by fastforce
      moreover have "banded (c # ds)" using b Cons by (metis banded_append takeWhile_dropWhile_id)
      ultimately have "pt_in_band (top c) (c # ds) x y \<longleftrightarrow> (x, y) \<in> rects_pts ?d"
        using pt_in_band_banded Cons by simp
      with eq t split Cons show ?thesis by (simp add: rgn_pts_def)
    qed
  qed
qed

text \<open>
  on a well-formed region and a non-degenerate rectangle \<open>RectInRegion\<close>, with its
  bound test and its early exit below the rectangle, answers exactly whether the two
  share a pixel.
\<close>

theorem RectInRegion_correct:
  assumes "rgn_wf rgn" and "rect_ok r"
  shows "RectInRegion rgn r = (rgn_pts rgn \<inter> rect_pts r \<noteq> {})"
proof (cases "cliprects rgn = [] \<or> EXTENTCHECK (rcBound rgn) r")
  case True
  with assms rect_in_rects_iff [of "cliprects rgn" r] show ?thesis
    by (auto simp: RectInRegion_def rgn_wf_def rgn_pts_def)
next
  case False
  have "rect_pts c \<inter> rect_pts r = {}" if "c \<in> set (cliprects rgn)" for c
    using rgn_wf_bound [OF assms(1) that] False
    by (auto simp: EXTENTCHECK_def rect_pts_def)
  with False show ?thesis by (auto simp: RectInRegion_def rgn_pts_def rects_pts_def)
qed

definition sample_rgn :: CLIPRGN where
  "sample_rgn = \<lparr>rgn_type = COMPLEXREGION, rcBound = SetRect 0 0 9 6,
     cliprects = [SetRect 0 0 3 4, SetRect 5 0 9 4, SetRect 2 4 8 6], rgn_heap = None\<rparr>"

lemma sample_rgn_wf: "rgn_wf sample_rgn"
  by (simp add: sample_rgn_def rgn_wf_def banded_Cons before_def rect_ok_def SetRect_def
      REGION_SetExtents_def Let_def)

theorem PtInRegion_correct_witness:
  "PtInRegion sample_rgn 6 5 = Some True \<and> (6, 5) \<in> rgn_pts sample_rgn"
proof -
  have "PtInRegion sample_rgn 6 5 = Some True"
    by (simp add: PtInRegion_def sample_rgn_def SetRect_def INRECT_def)
  with PtInRegion_correct [OF sample_rgn_wf, of 6 5] show ?thesis by simp
qed

theorem RectInRegion_correct_witness:
  "\<not> RectInRegion sample_rgn (SetRect 3 0 5 4)
   \<and> rgn_pts sample_rgn \<inter> rect_pts (SetRect 3 0 5 4) = {}"
proof -
  have "\<not> RectInRegion sample_rgn (SetRect 3 0 5 4)"
    by (simp add: RectInRegion_def sample_rgn_def SetRect_def EXTENTCHECK_def)
  moreover have "rect_ok (SetRect 3 0 5 4)" by (simp add: rect_ok_def SetRect_def)
  ultimately show ?thesis using RectInRegion_correct [OF sample_rgn_wf] by blast
qed

lemma OffsetRect_sel [simp]:
  "left (OffsetRect r x y) = left r + x" "right (OffsetRect r x y) = right r + x"
  "top (OffsetRect r x y) = top r + y" "bottom (OffsetRect r x y) = bottom r + y"
  by (simp_all add: OffsetRect_def)

lemma before_OffsetRect [simp]: "before (OffsetRect r x y) (OffsetRect s x y) = before r s"
  by (auto simp: before_def)

lemma banded_OffsetRect: "banded (map (\<lambda>c. OffsetRect c x y) rs) = banded rs"
  by (induction rs) (auto simp: banded_Cons rect_ok_def)

lemma extents_loop_OffsetRect:
  "extents_loop (OffsetRect e x y) (map (\<lambda>c. OffsetRect c x y) cs) = OffsetRect (extents_loop e cs) x y"
proof (induction cs arbitrary: e)
  case (Cons c cs)
  let ?e1 = "\<lambda>e c. if left c < left e then e\<lparr>left := left c\<rparr> else (e :: RECT)"
  let ?e2 = "\<lambda>e c. if right c > right (?e1 e c) then (?e1 e c)\<lparr>right := right c\<rparr> else ?e1 e c"
  have "?e2 (OffsetRect e x y) (OffsetRect c x y) = OffsetRect (?e2 e c) x y"
    by (auto simp: OffsetRect_def)
  then have "extents_loop (OffsetRect e x y) (map (\<lambda>c. OffsetRect c x y) (c # cs))
      = extents_loop (OffsetRect (?e2 e c) x y) (map (\<lambda>c. OffsetRect c x y) cs)"
    by (simp only: list.map extents_loop.simps Let_def)
  also have "\<dots> = OffsetRect (extents_loop (?e2 e c) cs) x y" by (rule Cons.IH)
  finally show ?case by (simp only: extents_loop.simps Let_def)
qed simp

text \<open>
  \<open>OffsetRegion\<close> keeps a region well formed and moves its pixels by the offset.
\<close>

theorem OffsetRegion_correct:
  assumes "rgn_wf rgn"
  shows "rgn_wf (OffsetRegion rgn dx dy)
    \<and> rgn_pts (OffsetRegion rgn dx dy) = (\<lambda>(x, y). (x + dx, y + dy)) ` rgn_pts rgn"
proof
  show "rgn_pts (OffsetRegion rgn dx dy) = (\<lambda>(x, y). (x + dx, y + dy)) ` rgn_pts rgn"
    by (simp add: rgn_pts_def rects_pts_def OffsetRegion_def Let_def image_UN rect_pts_OffsetRect)
  show "rgn_wf (OffsetRegion rgn dx dy)"
  proof (cases "cliprects rgn")
    case Nil
    with assms show ?thesis by (simp add: rgn_wf_def OffsetRegion_def REGION_SetExtents_def)
  next
    case (Cons h cs)
    let ?l = "last (h # cs)"
    let ?e = "\<lparr>left = left h, top = top h, right = right ?l, bottom = bottom ?l\<rparr>"
    have "rcBound rgn = extents_loop ?e (h # cs)"
      using assms Cons by (simp add: rgn_wf_def REGION_SetExtents_def Let_def)
    moreover have "extents_loop (OffsetRect ?e dx dy) (map (\<lambda>c. OffsetRect c dx dy) (h # cs))
        = OffsetRect (extents_loop ?e (h # cs)) dx dy"
      by (rule extents_loop_OffsetRect)
    moreover have "OffsetRect ?e dx dy = \<lparr>left = left (OffsetRect h dx dy), top = top (OffsetRect h dx dy),
        right = right (OffsetRect ?l dx dy), bottom = bottom (OffsetRect ?l dx dy)\<rparr>"
      by (simp add: OffsetRect_def)
    moreover have "last (map (\<lambda>c. OffsetRect c dx dy) (h # cs)) = OffsetRect ?l dx dy"
      by (rule last_map) simp
    ultimately have "rcBound (OffsetRegion rgn dx dy)
        = rcBound (REGION_SetExtents (OffsetRegion rgn dx dy))"
      using Cons by (simp add: OffsetRegion_def REGION_SetExtents_def Let_def del: extents_loop.simps OffsetRect_sel)
    with assms Cons banded_OffsetRect [where rs = "h # cs"] show ?thesis
      by (simp add: rgn_wf_def OffsetRegion_def Let_def)
  qed
qed

theorem OffsetRegion_correct_witness:
  "rgn_pts (OffsetRegion sample_rgn 2 3) = (\<lambda>(x, y). (x + 2, y + 3)) ` rgn_pts sample_rgn"
  using OffsetRegion_correct [OF sample_rgn_wf, of 2 3] by simp

end
