(* ===== verification/MG_RegionOp.thy ===== *)
theory MG_RegionOp
  imports MG_Region
begin

text \<open>
  The band sweep of \<open>src/newgdi/region.c\<close>: \<open>REGION_RegionOp\<close>,
  \<open>REGION_Coalesce\<close> and the callbacks of the three set operations.

  The output list is built from its head. A pointer into it (\<open>prevBand\<close>, \<open>curBand\<close>, the
  tail) is the position of the node in the list, \<open>None\<close> for NULL. When coalescing unlinks
  nodes, the positions behind them move down by the number of nodes freed, which is where
  the model adjusts the returned position and the code does not need to.
\<close>

section \<open>Bands\<close>

text \<open>The loop that looks for \<open>r1BandEnd\<close>: the band is the run with the top of its first node.\<close>

definition band_of :: "RECT list \<Rightarrow> RECT list" where
  "band_of r = takeWhile (\<lambda>c. top c = top (hd r)) r"

definition band_end :: "RECT list \<Rightarrow> RECT list" where
  "band_end r = dropWhile (\<lambda>c. top c = top (hd r)) r"

definition tail_ix :: "RECT list \<Rightarrow> nat option" where
  "tail_ix rs = (if rs = [] then None else Some (length rs - 1))"

section \<open>REGION_Coalesce\<close>

text \<open>The comparison loop over two bands of the same length.\<close>

fun lined_up :: "RECT list \<Rightarrow> RECT list \<Rightarrow> bool" where
  "lined_up (p # ps) (c # cs) =
     (if left p \<noteq> left c \<or> right p \<noteq> right c then False else lined_up ps cs)"
| "lined_up _ _ = True"

text \<open>The loop that moves the bottoms of the previous band down.\<close>

fun stretch :: "RECT list \<Rightarrow> RECT list \<Rightarrow> RECT list" where
  "stretch (p # ps) (c # cs) = p\<lparr>bottom := bottom c\<rparr> # stretch ps cs"
| "stretch ps _ = ps"

text \<open>The walk back from the tail to the start of the last band.\<close>

definition last_band_start :: "RECT list \<Rightarrow> nat" where
  "last_band_start rs =
     length rs - length (takeWhile (\<lambda>c. top c = top (last rs)) (rev rs))"

definition REGION_Coalesce ::
  "RECT list \<Rightarrow> nat option \<Rightarrow> nat option \<Rightarrow> RECT list \<times> nat" where
  "REGION_Coalesce rs prevStart curStart =
     (let p = (case prevStart of None \<Rightarrow> 0 | Some i \<Rightarrow> i);
          c = (case curStart of None \<Rightarrow> 0 | Some i \<Rightarrow> i)
      in if p = c then (rs, p)
         else
           let prevNumRects = c - p;
               curNumRects = length (band_of (drop c rs));
               e = c + curNumRects;
               newStart = (if e < length rs then last_band_start rs else c)
           in if curNumRects = prevNumRects \<and> curNumRects \<noteq> 0
                 \<and> bottom (rs ! p) = top (rs ! c) then
                if \<not> lined_up (take prevNumRects (drop p rs)) (take curNumRects (drop c rs))
                then (rs, newStart)
                else (take p rs
                        @ stretch (take prevNumRects (drop p rs)) (take curNumRects (drop c rs))
                        @ drop e rs,
                      if e < length rs then newStart - curNumRects else p)
              else (rs, newStart))"

section \<open>REGION_RegionOp\<close>

type_synonym overlap_proc = "RECT list \<Rightarrow> RECT list \<Rightarrow> RECT list \<Rightarrow> int \<Rightarrow> int \<Rightarrow> RECT list"
type_synonym nonoverlap_proc = "RECT list \<Rightarrow> RECT list \<Rightarrow> int \<Rightarrow> int \<Rightarrow> RECT list"

definition call_nonoverlap :: "nonoverlap_proc option \<Rightarrow> nonoverlap_proc" where
  "call_nonoverlap f out band t b = (case f of None \<Rightarrow> out | Some g \<Rightarrow> g out band t b)"

text \<open>The band that only one region has, above the next band of the other.\<close>

definition nonoverlap_part ::
  "nonoverlap_proc option \<Rightarrow> nonoverlap_proc option \<Rightarrow> RECT list \<Rightarrow> RECT list \<Rightarrow> int
     \<Rightarrow> RECT list \<Rightarrow> int \<times> RECT list" where
  "nonoverlap_part non1 non2 r1 r2 ybot out =
     (if top (hd r1) < top (hd r2) then
        let t = max (top (hd r1)) ybot; b = min (bottom (hd r1)) (top (hd r2))
        in (top (hd r2), if t \<noteq> b then call_nonoverlap non1 out (band_of r1) t b else out)
      else if top (hd r2) < top (hd r1) then
        let t = max (top (hd r2)) ybot; b = min (bottom (hd r2)) (top (hd r1))
        in (top (hd r1), if t \<noteq> b then call_nonoverlap non2 out (band_of r2) t b else out)
      else (top (hd r1), out))"

definition coalesce_if_grown ::
  "RECT list \<Rightarrow> nat option \<Rightarrow> nat option \<Rightarrow> RECT list \<times> nat option" where
  "coalesce_if_grown out prevBand curBand =
     (if tail_ix out \<noteq> curBand
      then map_prod id Some (REGION_Coalesce out prevBand curBand)
      else (out, prevBand))"

definition band_step ::
  "overlap_proc \<Rightarrow> nonoverlap_proc option \<Rightarrow> nonoverlap_proc option \<Rightarrow> RECT list \<Rightarrow> RECT list
     \<Rightarrow> int \<Rightarrow> RECT list \<Rightarrow> nat option \<Rightarrow> int \<times> RECT list \<times> nat option" where
  "band_step overlap non1 non2 r1 r2 ybot out prevBand =
     (let (ytop, out1) = nonoverlap_part non1 non2 r1 r2 ybot out;
          (out2, prevBand2) = coalesce_if_grown out1 prevBand (tail_ix out);
          ybot' = min (bottom (hd r1)) (bottom (hd r2));
          out3 = (if ybot' > ytop
                  then overlap out2 (band_of r1) (band_of r2) ytop ybot' else out2);
          (out4, prevBand4) = coalesce_if_grown out3 prevBand2 (tail_ix out2)
      in (ybot', out4, prevBand4))"

lemma band_end_shorter: "r \<noteq> [] \<Longrightarrow> length (band_end r) < length r"
  by (cases r) (simp_all add: band_end_def le_imp_less_Suc length_dropWhile_le)

function region_sweep ::
  "overlap_proc \<Rightarrow> nonoverlap_proc option \<Rightarrow> nonoverlap_proc option \<Rightarrow> RECT list \<Rightarrow> RECT list
     \<Rightarrow> int \<Rightarrow> RECT list \<Rightarrow> nat option
     \<Rightarrow> RECT list \<times> RECT list \<times> int \<times> RECT list \<times> nat option" where
  "region_sweep overlap non1 non2 r1 r2 ybot out prevBand =
     (if r1 \<noteq> [] \<and> r2 \<noteq> [] then
        let ybot' = min (bottom (hd r1)) (bottom (hd r2));
            (_, out', prevBand') = band_step overlap non1 non2 r1 r2 ybot out prevBand
        in region_sweep overlap non1 non2
             (if bottom (hd r1) = ybot' then band_end r1 else r1)
             (if bottom (hd r2) = ybot' then band_end r2 else r2)
             ybot' out' prevBand'
      else (r1, r2, ybot, out, prevBand))"
  by pat_completeness auto
termination
proof (relation "measure (\<lambda>(ov, n1, n2, r1, r2, y, out, p). length r1 + length r2)", goal_cases)
  case (2 overlap non1 non2 r1 r2 ybot out prevBand ybot')
  then have "length (band_end r1) < length r1" "length (band_end r2) < length r2"
    by (simp_all add: band_end_shorter)
  then show ?case using 2 by (auto simp: min_def split: if_splits)
qed simp

declare region_sweep.simps [simp del]

function leftover :: "nonoverlap_proc \<Rightarrow> RECT list \<Rightarrow> int \<Rightarrow> RECT list \<Rightarrow> RECT list" where
  "leftover f r ybot out =
     (if r \<noteq> [] then
        leftover f (band_end r) ybot
          (f out (band_of r) (max (top (hd r)) ybot) (bottom (hd r)))
      else out)"
  by pat_completeness auto
termination
  by (relation "measure (\<lambda>(f, r, y, out). length r)") (auto simp: band_end_shorter)

declare leftover.simps [simp del]

text \<open>
  The rectangle list \<open>REGION_RegionOp\<close> builds. The \<open>do\<close> loop assumes two non-empty
  regions, which its callers check.
\<close>

definition RegionOp_rects ::
  "overlap_proc \<Rightarrow> nonoverlap_proc option \<Rightarrow> nonoverlap_proc option \<Rightarrow> CLIPRGN \<Rightarrow> CLIPRGN
     \<Rightarrow> RECT list" where
  "RegionOp_rects overlap non1 non2 reg1 reg2 =
     (let ybot = (if top (rcBound reg1) < top (rcBound reg2)
                  then top (rcBound reg1) else top (rcBound reg2));
          (r1, r2, ybot', out, prevBand) =
            region_sweep overlap non1 non2 (cliprects reg1) (cliprects reg2) ybot [] None;
          out' = (if r1 \<noteq> [] then
                    (case non1 of None \<Rightarrow> out | Some f \<Rightarrow> leftover f r1 ybot' out)
                  else if r2 \<noteq> [] then
                    (case non2 of None \<Rightarrow> out | Some f \<Rightarrow> leftover f r2 ybot' out)
                  else out)
      in fst (coalesce_if_grown out' prevBand (tail_ix out)))"

section \<open>The callbacks\<close>

definition mk_rect :: "int \<Rightarrow> int \<Rightarrow> int \<Rightarrow> int \<Rightarrow> RECT" where
  "mk_rect l t r b = \<lparr>left = l, top = t, right = r, bottom = b\<rparr>"

fun REGION_IntersectO :: overlap_proc where
  "REGION_IntersectO region (a # as) (c # cs) t b =
     (let l = max (left a) (left c); r = min (right a) (right c);
          region' = (if l < r then region @ [mk_rect l t r b] else region)
      in if right a < right c then REGION_IntersectO region' as (c # cs) t b
         else if right c < right a then REGION_IntersectO region' (a # as) cs t b
         else REGION_IntersectO region' as cs t b)"
| "REGION_IntersectO region _ _ t b = region"

fun REGION_UnionNonO :: nonoverlap_proc where
  "REGION_UnionNonO region (r # rs) t b =
     REGION_UnionNonO (region @ [mk_rect (left r) t (right r) b]) rs t b"
| "REGION_UnionNonO region [] t b = region"

definition MERGERECT :: "RECT list \<Rightarrow> RECT \<Rightarrow> int \<Rightarrow> int \<Rightarrow> RECT list" where
  "MERGERECT region r t b =
     (if region \<noteq> [] \<and> top (last region) = t \<and> bottom (last region) = b
         \<and> right (last region) \<ge> left r then
        if right (last region) < right r
        then butlast region @ [(last region)\<lparr>right := right r\<rparr>]
        else region
      else region @ [mk_rect (left r) t (right r) b])"

fun REGION_UnionO :: overlap_proc where
  "REGION_UnionO region (a # as) (c # cs) t b =
     (if left a < left c then REGION_UnionO (MERGERECT region a t b) as (c # cs) t b
      else REGION_UnionO (MERGERECT region c t b) (a # as) cs t b)"
| "REGION_UnionO region (a # as) [] t b = REGION_UnionO (MERGERECT region a t b) as [] t b"
| "REGION_UnionO region [] (c # cs) t b = REGION_UnionO (MERGERECT region c t b) [] cs t b"
| "REGION_UnionO region [] [] t b = region"

fun REGION_SubtractNonO1 :: nonoverlap_proc where
  "REGION_SubtractNonO1 region (r # rs) t b =
     REGION_SubtractNonO1 (region @ [mk_rect (left r) t (right r) b]) rs t b"
| "REGION_SubtractNonO1 region [] t b = region"

text \<open>\<open>l\<close> is the left fence; \<open>next_left\<close> resets it when the minuend advances.\<close>

definition next_left :: "RECT list \<Rightarrow> int \<Rightarrow> int" where
  "next_left as l = (case as of [] \<Rightarrow> l | a # _ \<Rightarrow> left a)"

function subtract_loop ::
  "RECT list \<Rightarrow> RECT list \<Rightarrow> RECT list \<Rightarrow> int \<Rightarrow> int \<Rightarrow> int \<Rightarrow> RECT list" where
  "subtract_loop region (a # as) (c # cs) l t b =
     (if right c \<le> l then subtract_loop region (a # as) cs l t b
      else if left c \<le> l then
        (let l' = right c
         in if l' \<ge> right a then subtract_loop region as (c # cs) (next_left as l') t b
            else subtract_loop region (a # as) cs l' t b)
      else if left c < right a then
        (let region' = region @ [mk_rect l t (left c) b]; l' = right c
         in if l' \<ge> right a then subtract_loop region' as (c # cs) (next_left as l') t b
            else subtract_loop region' (a # as) cs l' t b)
      else
        (let region' = (if right a > l then region @ [mk_rect l t (right a) b] else region)
         in subtract_loop region' as (c # cs) (next_left as l) t b))"
| "subtract_loop region (a # as) [] l t b =
     subtract_loop (region @ [mk_rect l t (right a) b]) as [] (next_left as l) t b"
| "subtract_loop region [] cs l t b = region"
  by pat_completeness auto
termination
  by (relation "measure (\<lambda>(region, as, cs, l, t, b). length as + length cs)") auto

definition REGION_SubtractO :: overlap_proc where
  "REGION_SubtractO region as cs t b = subtract_loop region as cs (left (hd as)) t b"

end
