(* ===== verification/MG_RegionSweep.thy ===== *)
theory MG_RegionSweep
  imports MG_RegionOp
begin

text \<open>
  Correctness of the band sweep. The contract of a callback is a locale; the sweep is
  verified once inside it, and the callbacks of the three set operations interpret it.
\<close>

section \<open>Rows\<close>

text \<open>Rectangles of one band: ordered by \<open>x\<close>, with free space between neighbours.\<close>

definition xrow :: "RECT list \<Rightarrow> bool" where
  "xrow rs \<longleftrightarrow> (\<forall>r \<in> set rs. left r < right r) \<and> sorted_wrt (\<lambda>r s. right r < left s) rs"

definition row :: "int \<Rightarrow> int \<Rightarrow> RECT list \<Rightarrow> bool" where
  "row t b rs \<longleftrightarrow> xrow rs \<and> (\<forall>r \<in> set rs. top r = t \<and> bottom r = b)"

definition in_row :: "RECT list \<Rightarrow> int \<Rightarrow> bool" where
  "in_row rs x \<longleftrightarrow> (\<exists>r \<in> set rs. left r \<le> x \<and> x < right r)"

lemma xrow_simps [simp]:
  "xrow []" "xrow (r # rs) \<longleftrightarrow> left r < right r \<and> (\<forall>s \<in> set rs. right r < left s) \<and> xrow rs"
  by (auto simp: xrow_def)

lemma in_row_simps [simp]:
  "\<not> in_row [] x" "in_row (r # rs) x \<longleftrightarrow> (left r \<le> x \<and> x < right r) \<or> in_row rs x"
  "in_row (rs @ ss) x \<longleftrightarrow> in_row rs x \<or> in_row ss x"
  by (auto simp: in_row_def)

lemma row_simps [simp]:
  "row t b []"
  "row t b (r # rs) \<longleftrightarrow>
     top r = t \<and> bottom r = b \<and> left r < right r \<and> (\<forall>s \<in> set rs. right r < left s) \<and> row t b rs"
  by (auto simp: row_def)

lemma row_append:
  "row t b (rs @ ss) \<longleftrightarrow> row t b rs \<and> row t b ss \<and> (\<forall>r \<in> set rs. \<forall>s \<in> set ss. right r < left s)"
  by (auto simp: row_def xrow_def sorted_wrt_append)

lemma xrow_append:
  "xrow (rs @ ss) \<longleftrightarrow> xrow rs \<and> xrow ss \<and> (\<forall>r \<in> set rs. \<forall>s \<in> set ss. right r < left s)"
  by (auto simp: xrow_def sorted_wrt_append)

lemma mk_rect_sel [simp]:
  "left (mk_rect l t r b) = l" "top (mk_rect l t r b) = t"
  "right (mk_rect l t r b) = r" "bottom (mk_rect l t r b) = b"
  by (simp_all add: mk_rect_def)

lemma row_pts: "row t b rs \<Longrightarrow> rects_pts rs = {(x, y). in_row rs x \<and> t \<le> y \<and> y < b}"
  by (induction rs) auto

lemma banded_row: "row t b rs \<Longrightarrow> t < b \<Longrightarrow> banded rs"
  by (induction rs) (auto simp: banded_Cons rect_ok_def before_def row_def)

lemma banded_append_row:
  assumes "banded out" "\<forall>r \<in> set out. bottom r \<le> t" "row t b rs" "t < b"
  shows "banded (out @ rs)"
  using assms banded_row [of t b rs] by (auto simp: banded_append before_def row_def)

subsection \<open>Splitting a banded list at its first band\<close>

lemma band_of_end: "band_of r @ band_end r = r"
  by (simp add: band_of_def band_end_def)

lemma band_of_Cons [simp]: "band_of (r # rs) = r # takeWhile (\<lambda>c. top c = top r) rs"
  by (simp add: band_of_def)

lemma band_of_nonempty: "r \<noteq> [] \<Longrightarrow> band_of r \<noteq> []"
  by (cases r) simp_all

lemma banded_first_band:
  assumes "banded (r # rs)"
  shows "row (top r) (bottom r) (band_of (r # rs))"
    and "banded (band_end (r # rs))"
    and "\<forall>s \<in> set (band_end (r # rs)). bottom r \<le> top s"
proof -
  have split: "r # rs = band_of (r # rs) @ band_end (r # rs)" by (simp only: band_of_end)
  with assms show "banded (band_end (r # rs))" by (metis banded_append)
  show "\<forall>s \<in> set (band_end (r # rs)). bottom r \<le> top s"
    using not_in_dropWhile [OF assms] by (simp add: band_end_def)
  have b: "banded (band_of (r # rs))" using split assms by (metis banded_append)
  have same: "top s = top r" if "s \<in> set (band_of (r # rs))" for s
    using that by (auto simp: band_of_def dest: set_takeWhileD)
  have bot: "bottom s = bottom r" if "s \<in> set (band_of (r # rs))" for s
    using that b same [OF that] by (auto simp: banded_Cons before_def rect_ok_def)
  have "sorted_wrt (\<lambda>r s. right r < left s) (band_of (r # rs))"
  proof (rule sorted_wrt_mono_rel)
    show "sorted_wrt before (band_of (r # rs))" using b by (simp add: banded_def)
  next
    fix x y assume xy: "x \<in> set (band_of (r # rs))" "y \<in> set (band_of (r # rs))" "before x y"
    moreover have "rect_ok x" by (rule banded_member_ok [OF b xy(1)])
    moreover have "top y = top r" "bottom x = bottom r" "top x = top r"
      using same bot xy by blast+
    ultimately show "right x < left y" by (auto simp: before_def rect_ok_def)
  qed
  with b same bot show "row (top r) (bottom r) (band_of (r # rs))"
    by (auto simp: row_def xrow_def banded_def rect_ok_def simp del: band_of_Cons)
qed

lemma banded_first_band_pts:
  assumes "banded (r # rs)"
  shows "(x, y) \<in> rects_pts (r # rs) \<longleftrightarrow>
    (in_row (band_of (r # rs)) x \<and> top r \<le> y \<and> y < bottom r) \<or> (x, y) \<in> rects_pts (band_end (r # rs))"
proof -
  have "rects_pts (r # rs) = rects_pts (band_of (r # rs)) \<union> rects_pts (band_end (r # rs))"
    by (metis band_of_end rects_pts_simps(3))
  then show ?thesis using row_pts [OF banded_first_band(1) [OF assms]] by auto
qed

lemma pts_above: "\<forall>r \<in> set rs. Y \<le> top r \<Longrightarrow> (x, y) \<in> rects_pts rs \<Longrightarrow> Y \<le> y"
  by (fastforce simp: mem_rects_pts)

lemma pts_below: "\<forall>r \<in> set rs. bottom r \<le> Y \<Longrightarrow> (x, y) \<in> rects_pts rs \<Longrightarrow> y < Y"
  by (fastforce simp: mem_rects_pts)

section \<open>Coalescing\<close>

definition band_start :: "RECT list \<Rightarrow> nat \<Rightarrow> bool" where
  "band_start rs i \<longleftrightarrow> i < length rs \<and> (i = 0 \<or> top (rs ! (i - 1)) \<noteq> top (rs ! i))"

text \<open>
  What holds of the output between two steps: banded, nothing at or below scan line \<open>Y\<close>,
  and \<open>prevBand\<close> NULL exactly while the output is empty, else the start of a band.
\<close>

definition out_inv :: "RECT list \<Rightarrow> nat option \<Rightarrow> int \<Rightarrow> bool" where
  "out_inv out prev Y \<longleftrightarrow> banded out \<and> (\<forall>r \<in> set out. bottom r \<le> Y)
     \<and> (case prev of None \<Rightarrow> out = [] | Some p \<Rightarrow> band_start out p)"

lemma last_band_start:
  assumes "rs \<noteq> []"
  shows "band_start rs (last_band_start rs)"
    and "\<forall>i. last_band_start rs \<le> i \<and> i < length rs \<longrightarrow> top (rs ! i) = top (last rs)"
proof -
  let ?P = "\<lambda>c. top c = top (last rs)"
  let ?k = "length (takeWhile ?P (rev rs))"
  have k: "?k \<le> length rs" "0 < ?k"
    using length_takeWhile_le [of ?P "rev rs"] assms by (auto simp: hd_rev neq_Nil_conv takeWhile_eq_Nil_iff)
  have in_band: "top (rs ! i) = top (last rs)" if "length rs - ?k \<le> i" "i < length rs" for i
  proof -
    have "length rs - Suc i < ?k" using that k by linarith
    then have "?P (takeWhile ?P (rev rs) ! (length rs - Suc i))"
      by (meson nth_mem set_takeWhileD)
    then have "?P (rev rs ! (length rs - Suc i))"
      using \<open>length rs - Suc i < ?k\<close> by (simp add: takeWhile_nth)
    then show ?thesis using that by (simp add: rev_nth)
  qed
  then show "\<forall>i. last_band_start rs \<le> i \<and> i < length rs \<longrightarrow> top (rs ! i) = top (last rs)"
    by (simp add: last_band_start_def)
  have "top (rs ! (length rs - ?k - 1)) \<noteq> top (rs ! (length rs - ?k))" if "length rs - ?k \<noteq> 0"
  proof -
    have less: "?k < length (rev rs)" using that k by simp
    have "\<not> ?P (rev rs ! ?k)" by (rule nth_length_takeWhile [OF less])
    then have "\<not> ?P (rs ! (length rs - Suc ?k))" using less by (simp add: rev_nth)
    moreover have "?P (rs ! (length rs - ?k))" by (rule in_band) (use k in linarith)+
    ultimately show ?thesis by simp
  qed
  moreover have "length rs - ?k < length rs" using k by linarith
  ultimately show "band_start rs (last_band_start rs)"
    unfolding band_start_def last_band_start_def by (metis One_nat_def)
qed


text \<open>One coalescing of the last two bands, written over the split output.\<close>

lemma coalesce_merge:
  assumes b: "banded (us @ [a, c] @ new)" and start: "us = [] \<or> top (last us) \<noteq> top a"
    and below: "\<forall>r \<in> set new. bottom c \<le> top r"
    and touch: "bottom a = top c" "left a = left c" "right a = right c"
    and a': "a' = a\<lparr>bottom := bottom c\<rparr>"
  shows "banded (us @ a' # new)"
    and "rects_pts (us @ a' # new) = rects_pts (us @ [a, c] @ new)"
proof -
  have ok: "rect_ok a" "rect_ok c" using b by (auto simp: banded_append banded_Cons)
  have us: "bottom u \<le> top a" if u: "u \<in> set us" for u
  proof -
    from u have ne: "us \<noteq> []" by auto
    then obtain vs where vs: "us = vs @ [last us]" by (metis append_butlast_last_id)
    have "before (last us) a" using b ne by (auto simp: banded_append)
    with start ne have last: "bottom (last us) \<le> top a" by (auto simp: before_def)
    show ?thesis
    proof (cases "u = last us")
      case False
      with u vs have "u \<in> set vs" by (metis Un_iff empty_iff insert_iff list.set set_append)
      moreover have "banded (vs @ [last us])" using b vs by (metis append.assoc banded_append)
      ultimately have "bottom u \<le> bottom (last us)"
        by (auto simp: banded_append banded_Cons intro: before_bottom)
      with last show ?thesis by simp
    qed (use last in simp)
  qed
  show "banded (us @ a' # new)"
    using b us below ok touch a' by (auto simp: banded_append banded_Cons before_def rect_ok_def)
  have "(x, y) \<in> rect_pts a' \<longleftrightarrow> (x, y) \<in> rect_pts a \<or> (x, y) \<in> rect_pts c" for x y
    using ok touch a' by (auto simp: rect_ok_def)
  then have "rect_pts a' = rect_pts a \<union> rect_pts c" by auto
  then show "rects_pts (us @ a' # new) = rects_pts (us @ [a, c] @ new)" by auto
qed

text \<open>The current band is the old last node alone: the only case the sweep meets.\<close>

lemma REGION_Coalesce_single:
  assumes one: "band_of (drop c rs) = [x]" and x: "rs ! c = x" and pc: "p \<le> c" and c: "Suc c < length rs"
  shows "REGION_Coalesce rs (Some p) (Some c) =
    (if p = c then (rs, p)
     else if c = Suc p \<and> bottom (rs ! p) = top x \<and> left (rs ! p) = left x \<and> right (rs ! p) = right x
       then (take p rs @ (rs ! p)\<lparr>bottom := bottom x\<rparr> # drop (Suc c) rs, last_band_start rs - 1)
       else (rs, last_band_start rs))"
proof (cases "c = Suc p")
  case True
  have "take (Suc 0) (drop p rs) = [rs ! p]" "take (Suc 0) (drop c rs) = [x]"
    using c x True by (simp_all add: take_Suc_conv_app_nth)
  with True one x c show ?thesis
    unfolding REGION_Coalesce_def by (simp add: Let_def)
next
  case False
  then have "p = c \<or> Suc 0 \<noteq> c - p" using pc by linarith
  with False one c show ?thesis
    unfolding REGION_Coalesce_def by (auto simp: Let_def)
qed

lemma REGION_Coalesce_grown:
  assumes inv: "out_inv out prev Y" and b: "banded (out @ new)" and new: "new \<noteq> []"
    and above: "\<forall>r \<in> set new. Y \<le> top r" and Z: "\<forall>r \<in> set (out @ new). bottom r \<le> Z"
    and res: "REGION_Coalesce (out @ new) prev (tail_ix out) = (out', p')"
  shows "out_inv out' (Some p') Z \<and> rects_pts out' = rects_pts (out @ new)"
proof (cases "out = []")
  case True
  then have "prev = None" using inv by (cases prev) (auto simp: out_inv_def band_start_def)
  with True res b Z new show ?thesis
    by (auto simp: REGION_Coalesce_def tail_ix_def Let_def out_inv_def band_start_def)
next
  case False
  let ?rs = "out @ new" and ?c = "length out - 1"
  from False inv obtain p where p: "prev = Some p" and start: "band_start out p"
    by (cases prev) (auto simp: out_inv_def)
  have c: "?c < length out" using False by simp
  have rc: "?rs ! ?c = last out" using False by (simp add: nth_append last_conv_nth)
  have last_ok: "rect_ok (last out)" "bottom (last out) \<le> Y"
    using b inv False by (auto simp: out_inv_def banded_append intro: banded_member_ok)
  have low: "top r < top n" if "r \<in> set out" "n \<in> set new" for r n
    using that inv above by (fastforce simp: out_inv_def banded_def rect_ok_def)
  have dc: "drop ?c ?rs = last out # new"
  proof -
    have "drop ?c out = [last out]"
      by (metis False append_butlast_last_id append_eq_conv_conj length_butlast)
    then show ?thesis using c by simp
  qed
  have one: "band_of (drop ?c ?rs) = [last out]"
  proof -
    obtain n ns where ns: "new = n # ns" using new by (cases new) simp_all
    with low [of "last out" n] False have "top n \<noteq> top (last out)" by auto
    with ns show ?thesis unfolding dc by simp
  qed
  let ?n = "last_band_start ?rs"
  have n: "band_start ?rs ?n" using last_band_start(1) [of ?rs] new by simp
  have n_new: "length out \<le> ?n"
  proof (rule ccontr)
    assume "\<not> length out \<le> ?n"
    then have "top (?rs ! ?c) = top (last ?rs)"
      using last_band_start(2) [of ?rs] new c by auto
    with rc new False low [of "last out" "last new"] show False by simp
  qed
  have start': "band_start ?rs p" using start by (auto simp: band_start_def nth_append)
  have unmerged: ?thesis if "out' = ?rs" "band_start ?rs p'"
    using that b Z by (simp add: out_inv_def)
  have "p \<le> ?c" "Suc ?c < length ?rs"
    using start length_greater_0_conv [THEN iffD2, OF new] c by (auto simp: band_start_def simp del: length_greater_0_conv)
  note single = REGION_Coalesce_single [OF one rc this]
  have tail: "tail_ix out = Some ?c" using False by (simp add: tail_ix_def)
  show ?thesis
  proof (cases "p = ?c \<or> \<not> (?c = Suc p \<and> bottom (?rs ! p) = top (last out)
      \<and> left (?rs ! p) = left (last out) \<and> right (?rs ! p) = right (last out))")
    case True
    then have "out' = ?rs \<and> (p' = p \<or> p' = ?n)"
      using res unfolding p tail single by (auto split: if_splits)
    then show ?thesis using unmerged n start' by blast
  next
    case False
    then have pc: "?c = Suc p" by linarith
    from c pc obtain us a where out: "out = us @ [a, last out]" and us: "length us = p"
    proof -
      have "out = take p out @ out ! p # out ! Suc p # drop (Suc (Suc p)) out"
        using c pc by (metis Cons_nth_drop_Suc Suc_lessD append_take_drop_id)
      moreover have "drop (Suc (Suc p)) out = []" using pc c by simp
      moreover have "out ! Suc p = last out"
        using \<open>out \<noteq> []\<close> pc by (simp add: last_conv_nth)
      ultimately show thesis using that [of "take p out" "out ! p"] c pc by simp
    qed
    let ?a = "a\<lparr>bottom := bottom (last out)\<rparr>"
    have a: "?rs ! p = a" using us by (subst out) (simp add: nth_append)
    have t2: "take p ?rs = us" "drop (Suc ?c) ?rs = new" using us pc by (subst out, simp)+
    have out': "out' = us @ ?a # new" "p' = ?n - 1"
      using False res t2 a unfolding p tail single by auto
    have rs: "?rs = us @ [a, last out] @ new" using out by (metis append.assoc)
    have ustart: "us = [] \<or> top (last us) \<noteq> top a"
    proof (cases us rule: rev_cases)
      case (snoc vs u)
      then have "p \<noteq> 0" "out ! (p - 1) = u" "out ! p = a"
        using us by (auto simp: nth_append) (subst out, simp add: nth_append)+
      with start snoc show ?thesis by (simp add: band_start_def)
    qed simp
    have below: "\<forall>r \<in> set new. bottom (last out) \<le> top r" using above last_ok(2) by force
    note merge = coalesce_merge [OF b [unfolded rs] ustart below _ _ _ refl]
    have touch: "bottom a = top (last out)" "left a = left (last out)" "right a = right (last out)"
      using False a by auto
    have "band_start out' p'"
    proof -
      have n2: "Suc (Suc p) \<le> ?n" using n_new pc c by linarith
      then obtain m where m: "?n = Suc (Suc p) + m" using le_Suc_ex by blast
      have nth1: "?rs ! ?n = new ! m" using m us by (subst rs) (simp add: nth_append)
      have m_less: "m < length new" using n m us rs by (auto simp: band_start_def)
      have "top (new ! m) \<noteq> top (out' ! (p' - 1))"
      proof (cases m)
        case 0
        then have "out' ! (p' - 1) = ?a" using out' m us by (simp add: nth_append)
        moreover have "a \<in> set out" by (subst out) simp
        ultimately show ?thesis using low [of a "new ! m"] m_less by auto
      next
        case (Suc k)
        then have "out' ! (p' - 1) = new ! k" using out' m us by (simp add: nth_append)
        moreover have "?rs ! (?n - 1) = new ! k" using m us Suc by (subst rs) (simp add: nth_append)
        ultimately show ?thesis using n m nth1 by (auto simp: band_start_def)
      qed
      moreover have "out' ! p' = new ! m" "p' < length out'"
        using out' m us m_less by (auto simp: nth_append)
      ultimately show ?thesis by (simp add: band_start_def)
    qed
    moreover have "\<forall>r \<in> set out'. bottom r \<le> Z" using Z unfolding rs out' by auto
    moreover have "rects_pts out' = rects_pts ?rs"
      unfolding rs out'(1) by (rule merge(2) [OF touch])
    moreover have "banded out'" unfolding out'(1) by (rule merge(1) [OF touch])
    ultimately show ?thesis by (simp add: out_inv_def)
  qed
qed


lemma out_inv_mono: "out_inv out prev Y \<Longrightarrow> Y \<le> Z \<Longrightarrow> out_inv out prev Z"
  by (fastforce simp: out_inv_def)

lemma tail_ix_append_neq: "rs \<noteq> [] \<Longrightarrow> tail_ix (out @ rs) \<noteq> tail_ix out"
  by (cases out) (auto simp: tail_ix_def)

lemma coalesce_if_grown_list:
  assumes inv: "out_inv out prev Y" and b: "banded (out @ new)"
    and above: "\<forall>r \<in> set new. Y \<le> top r" and Z: "\<forall>r \<in> set (out @ new). bottom r \<le> Z"
    and res: "coalesce_if_grown (out @ new) prev (tail_ix out) = (out', prev')"
  shows "out_inv out' prev' Z \<and> rects_pts out' = rects_pts (out @ new)"
proof (cases "new = []")
  case True
  with res inv Z show ?thesis by (auto simp: coalesce_if_grown_def out_inv_def)
next
  case False
  obtain o1 p1 where c: "REGION_Coalesce (out @ new) prev (tail_ix out) = (o1, p1)"
    by (cases "REGION_Coalesce (out @ new) prev (tail_ix out)")
  with res tail_ix_append_neq [OF False] have "out' = o1" "prev' = Some p1"
    by (auto simp: coalesce_if_grown_def)
  with REGION_Coalesce_grown [OF inv b False above Z c] show ?thesis by simp
qed

lemma coalesce_if_grown_row:
  assumes inv: "out_inv out prev Y" and row: "row t b rs" and tb: "t < b" "Y \<le> t"
    and res: "coalesce_if_grown (out @ rs) prev (tail_ix out) = (out', prev')"
  shows "out_inv out' prev' b \<and> rects_pts out' = rects_pts (out @ rs)"
proof (rule coalesce_if_grown_list [OF inv _ _ _ res])
  have out: "banded out" "\<forall>r \<in> set out. bottom r \<le> t" using inv tb by (auto simp: out_inv_def)
  from banded_append_row [OF out row tb(1)] show "banded (out @ rs)" .
  show "\<forall>r \<in> set rs. Y \<le> top r" using row tb by (auto simp: row_def)
  show "\<forall>r \<in> set (out @ rs). bottom r \<le> b" using out row tb by (auto simp: row_def)
qed

section \<open>The sweep under a contract of its callbacks\<close>

text \<open>
  A set operation is a Boolean function \<open>f\<close> of two memberships. The callbacks append to the
  output the row of the pixels \<open>f\<close> selects; a NULL callback selects none.
\<close>

text \<open>The bands that are left when one region is used up.\<close>

lemma leftover_correct:
  assumes g: "\<And>out as t b. xrow as \<Longrightarrow> \<exists>rs. g out as t b = out @ rs \<and> row t b rs
        \<and> (\<forall>x. in_row rs x \<longleftrightarrow> h (in_row as x))"
    and h: "\<not> h False"
  shows "banded r \<Longrightarrow> \<forall>s \<in> set r. Y < bottom s \<Longrightarrow> \<exists>new. leftover g r Y out = out @ new \<and> banded new
    \<and> (\<forall>n \<in> set new. Y \<le> top n \<and> (\<exists>s \<in> set r. top s \<le> top n))
    \<and> (\<forall>x y. (x, y) \<in> rects_pts new \<longleftrightarrow> Y \<le> y \<and> h ((x, y) \<in> rects_pts r))"
proof (induction "length r" arbitrary: r out rule: less_induct)
  case less
  show ?case
  proof (cases r)
    case Nil
    with h show ?thesis by (simp add: leftover.simps [of g "[]"])
  next
    case (Cons a as)
    note b = less.prems(1) [unfolded Cons]
    let ?E = "band_end (a # as)" and ?t = "max (top a) Y"
    obtain rs where rs: "g out (band_of (a # as)) ?t (bottom a) = out @ rs" "row ?t (bottom a) rs"
      "\<forall>x. in_row rs x \<longleftrightarrow> h (in_row (band_of (a # as)) x)"
      using g banded_first_band(1) [OF b] unfolding row_def by blast
    have sub: "set ?E \<subseteq> set r" using Cons by (auto simp: band_end_def dest: set_dropWhileD)
    have "length ?E < length r" using band_end_shorter [of r] Cons by simp
    from less.hyps [OF this banded_first_band(2) [OF b], of "out @ rs"] less.prems(2) sub
    obtain new where new: "leftover g ?E Y (out @ rs) = (out @ rs) @ new" "banded new"
      "\<forall>n \<in> set new. Y \<le> top n \<and> (\<exists>s \<in> set ?E. top s \<le> top n)"
      "\<forall>x y. (x, y) \<in> rects_pts new \<longleftrightarrow> Y \<le> y \<and> h ((x, y) \<in> rects_pts ?E)" by blast
    have low: "\<forall>n \<in> set new. bottom a \<le> top n"
      using new(3) banded_first_band(3) [OF b] by force
    have tb: "?t < bottom a" using b less.prems(2) Cons by (auto simp: banded_Cons rect_ok_def)
    have "banded (rs @ new)"
      using banded_row [OF rs(2) tb] new(2) low rs(2) by (auto simp: banded_append before_def row_def)
    moreover have "leftover g r Y out = out @ (rs @ new)"
      using Cons rs(1) new(1) by (simp add: leftover.simps [of g "a # as"] del: band_of_Cons)
    moreover have "Y \<le> top n \<and> (\<exists>s \<in> set r. top s \<le> top n)" if "n \<in> set (rs @ new)" for n
    proof (cases "n \<in> set new")
      case True
      with new(3) sub show ?thesis by blast
    next
      case False
      with that rs(2) have "top n = ?t" by (auto simp: row_def)
      with Cons show ?thesis by auto
    qed
    moreover have "(x, y) \<in> rects_pts (rs @ new) \<longleftrightarrow> Y \<le> y \<and> h ((x, y) \<in> rects_pts r)" for x y
    proof -
      have E: "y < bottom a \<Longrightarrow> ((x, y) \<in> rects_pts ?E) = False"
        using pts_above [OF banded_first_band(3) [OF b], of x y] by fastforce
      have "(x, y) \<in> rects_pts (rs @ new) \<longleftrightarrow> (h (in_row (band_of (a # as)) x) \<and> ?t \<le> y \<and> y < bottom a)
          \<or> (Y \<le> y \<and> h ((x, y) \<in> rects_pts ?E))"
        using row_pts [OF rs(2)] rs(3) new(4) by simp
      then show ?thesis
        using banded_first_band_pts [OF b, of x y] E h unfolding Cons
        by (cases "y < bottom a"; cases "top a \<le> y") (simp_all del: band_of_Cons rects_pts_simps, blast)
    qed
    ultimately show ?thesis by blast
  qed
qed

text \<open>One region moves on when its band has been used up to the scan line \<open>Y\<close>.\<close>

lemma advance:
  assumes b: "banded (a # as)" and Y: "Y \<le> bottom a"
    and n: "n = (if bottom a = Y then band_end (a # as) else a # as)"
  shows "banded n" "\<forall>r \<in> set n. Y < bottom r" "Y \<le> y \<Longrightarrow> (x, y) \<in> rects_pts n \<longleftrightarrow> (x, y) \<in> rects_pts (a # as)"
    and "bottom a = Y \<Longrightarrow> \<forall>r \<in> set n. Y \<le> top r"
proof -
  note fb = banded_first_band [OF b]
  show "banded n" using fb(2) b n by simp
  show top: "bottom a = Y \<Longrightarrow> \<forall>r \<in> set n. Y \<le> top r" using fb(3) n by simp
  show "\<forall>r \<in> set n. Y < bottom r"
  proof
    fix r assume r: "r \<in> set n"
    show "Y < bottom r"
    proof (cases "bottom a = Y")
      case True
      then have "Y \<le> top r" using top r by blast
      moreover have "rect_ok r" using \<open>banded n\<close> r by (rule banded_member_ok)
      ultimately show ?thesis by (simp add: rect_ok_def)
    next
      case False
      then have "r = a \<or> before a r \<and> rect_ok r" using b r n by (auto simp: banded_Cons banded_def)
      then have "bottom a \<le> bottom r" using before_bottom by blast
      then show ?thesis using False Y by simp
    qed
  qed
  show "(x, y) \<in> rects_pts n \<longleftrightarrow> (x, y) \<in> rects_pts (a # as)" if "Y \<le> y"
    using banded_first_band_pts [OF b, of x y] that n by (simp del: rects_pts_simps band_of_Cons)
qed

text \<open>One pixel above the next band of the other region.\<close>

lemma lone_band_pixel:
  fixes y :: int
  assumes a: "y < ba \<Longrightarrow> A \<longleftrightarrow> ia \<and> ta \<le> y" and c: "y < bc \<Longrightarrow> C \<longleftrightarrow> ic \<and> tc \<le> y"
    and "tc < bc" and n: "\<not> g False False"
  shows "g ia False \<and> max ta Y \<le> y \<and> y < min ba tc \<longleftrightarrow>
    Y \<le> y \<and> y < tc \<and> y < min ba bc \<and> g A C"
proof (cases "y < min ba tc")
  case True
  then have "\<not> C" "y < bc" "y < ba" using c assms(3) by auto
  then show ?thesis using True n a by (cases "ta \<le> y"; cases ia) auto
qed (use assms(3) in auto)

locale band_op =
  fixes overlap :: overlap_proc
    and non1 non2 :: "nonoverlap_proc option"
    and f :: "bool \<Rightarrow> bool \<Rightarrow> bool"
  assumes f_none: "\<not> f False False"
    and overlap_row: "xrow as \<Longrightarrow> xrow cs \<Longrightarrow> as \<noteq> [] \<Longrightarrow> cs \<noteq> [] \<Longrightarrow> t < b
      \<Longrightarrow> \<forall>r \<in> set out. bottom r \<le> t
      \<Longrightarrow> \<exists>rs. overlap out as cs t b = out @ rs \<and> row t b rs
            \<and> (\<forall>x. in_row rs x \<longleftrightarrow> f (in_row as x) (in_row cs x))"
    and non1_row: "xrow as \<Longrightarrow> \<exists>rs. call_nonoverlap non1 out as t b = out @ rs \<and> row t b rs
            \<and> (\<forall>x. in_row rs x \<longleftrightarrow> f (in_row as x) False)"
    and non2_row: "xrow cs \<Longrightarrow> \<exists>rs. call_nonoverlap non2 out cs t b = out @ rs \<and> row t b rs
            \<and> (\<forall>x. in_row rs x \<longleftrightarrow> f False (in_row cs x))"
begin

text \<open>The points of a region above the bottom of its first band are those of the band.\<close>

lemma first_band_points:
  assumes "banded (a # as)" and "y < bottom a"
  shows "(x, y) \<in> rects_pts (a # as) \<longleftrightarrow> in_row (band_of (a # as)) x \<and> top a \<le> y"
  using banded_first_band_pts [OF assms(1)] pts_above [OF banded_first_band(3) [OF assms(1)]] assms(2)
  by fastforce

lemma xrow_band: "banded (a # as) \<Longrightarrow> xrow (band_of (a # as))"
  using banded_first_band(1) [of a as] by (simp add: row_def del: band_of_Cons)

lemma nonoverlap_rows:
  assumes b1: "banded (a # as)" and b2: "banded (c # cs)"
    and Y: "Y \<le> max (top a) (top c)" "Y < bottom a" "Y < bottom c"
    and res: "nonoverlap_part non1 non2 (a # as) (c # cs) Y out = (ytop, out1)"
  shows "ytop = max (top a) (top c) \<and> (\<exists>t b rs. out1 = out @ rs
     \<and> (rs = [] \<or> (row t b rs \<and> t < b \<and> Y \<le> t \<and> b \<le> ytop))
     \<and> (\<forall>x y. (x, y) \<in> rects_pts rs \<longleftrightarrow> Y \<le> y \<and> y < ytop \<and> y < min (bottom a) (bottom c)
          \<and> f ((x, y) \<in> rects_pts (a # as)) ((x, y) \<in> rects_pts (c # cs))))"
proof -
  have ok: "top a < bottom a" "top c < bottom c"
    using b1 b2 by (auto simp: banded_Cons rect_ok_def)
  note p1 = first_band_points [OF b1] and p2 = first_band_points [OF b2]
  consider "top a < top c" | "top c < top a" | "top a = top c" by linarith
  then show ?thesis
  proof cases
    case 1
    define t where "t = max (top a) Y"
    define b where "b = min (bottom a) (top c)"
    obtain rs where rs: "call_nonoverlap non1 out (band_of (a # as)) t b = out @ rs" "row t b rs"
      "\<forall>x. in_row rs x \<longleftrightarrow> f (in_row (band_of (a # as)) x) False"
      using non1_row [OF xrow_band [OF b1]] by blast
    have tb: "t \<le> b" "Y \<le> t" "b \<le> top c" using 1 Y ok by (auto simp: t_def b_def)
    let ?rs = "if t \<noteq> b then rs else []"
    have eq: "ytop = top c" "out1 = out @ ?rs"
      using res rs(1) 1 by (auto simp: nonoverlap_part_def Let_def t_def b_def simp del: band_of_Cons split: if_splits)
    have "(x, y) \<in> rects_pts ?rs \<longleftrightarrow> in_row rs x \<and> t \<le> y \<and> y < b" for x y
      by (simp add: row_pts [OF rs(2)])
    moreover have "in_row rs x \<and> t \<le> y \<and> y < b \<longleftrightarrow>
        Y \<le> y \<and> y < top c \<and> y < min (bottom a) (bottom c)
        \<and> f ((x, y) \<in> rects_pts (a # as)) ((x, y) \<in> rects_pts (c # cs))" for x y
      using lone_band_pixel [OF p1 [of y x] p2 [of y x] ok(2), where g = f and Y = Y] f_none rs(3)
      unfolding t_def b_def by blast
    moreover have "?rs = [] \<or> (row t b ?rs \<and> t < b \<and> Y \<le> t \<and> b \<le> top c)"
      using rs(2) tb by auto
    ultimately have "?rs = [] \<or> (row t b ?rs \<and> t < b \<and> Y \<le> t \<and> b \<le> top c)"
      and "\<forall>x y. (x, y) \<in> rects_pts ?rs \<longleftrightarrow> Y \<le> y \<and> y < top c \<and> y < min (bottom a) (bottom c)
        \<and> f ((x, y) \<in> rects_pts (a # as)) ((x, y) \<in> rects_pts (c # cs))" by blast+
    moreover have "max (top a) (top c) = top c" using 1 by simp
    ultimately show ?thesis unfolding eq
      apply (intro conjI)
       apply (rule sym, assumption)
      apply (rule exI [of _ t], rule exI [of _ b], rule exI [of _ ?rs])
      apply (intro conjI)
        apply (rule refl, assumption, assumption)
      done
  next
    case 2
    define t where "t = max (top c) Y"
    define b where "b = min (bottom c) (top a)"
    obtain rs where rs: "call_nonoverlap non2 out (band_of (c # cs)) t b = out @ rs" "row t b rs"
      "\<forall>x. in_row rs x \<longleftrightarrow> f False (in_row (band_of (c # cs)) x)"
      using non2_row [OF xrow_band [OF b2]] by blast
    have tb: "t \<le> b" "Y \<le> t" "b \<le> top a" using 2 Y ok by (auto simp: t_def b_def)
    let ?rs = "if t \<noteq> b then rs else []"
    have eq: "ytop = top a" "out1 = out @ ?rs"
      using res rs(1) 2 by (auto simp: nonoverlap_part_def Let_def t_def b_def simp del: band_of_Cons split: if_splits)
    have "(x, y) \<in> rects_pts ?rs \<longleftrightarrow> in_row rs x \<and> t \<le> y \<and> y < b" for x y
      by (simp add: row_pts [OF rs(2)])
    moreover have "in_row rs x \<and> t \<le> y \<and> y < b \<longleftrightarrow>
        Y \<le> y \<and> y < top a \<and> y < min (bottom a) (bottom c)
        \<and> f ((x, y) \<in> rects_pts (a # as)) ((x, y) \<in> rects_pts (c # cs))" for x y
      using lone_band_pixel [OF p2 [of y x] p1 [of y x] ok(1), where g = "\<lambda>u v. f v u" and Y = Y] f_none rs(3)
      unfolding t_def b_def min.commute [of "bottom a" "bottom c"] by blast
    moreover have "?rs = [] \<or> (row t b ?rs \<and> t < b \<and> Y \<le> t \<and> b \<le> top a)"
      using rs(2) tb by auto
    ultimately have "?rs = [] \<or> (row t b ?rs \<and> t < b \<and> Y \<le> t \<and> b \<le> top a)"
      and "\<forall>x y. (x, y) \<in> rects_pts ?rs \<longleftrightarrow> Y \<le> y \<and> y < top a \<and> y < min (bottom a) (bottom c)
        \<and> f ((x, y) \<in> rects_pts (a # as)) ((x, y) \<in> rects_pts (c # cs))" by blast+
    moreover have "max (top a) (top c) = top a" using 2 by simp
    ultimately show ?thesis unfolding eq
      apply (intro conjI)
       apply (rule sym, assumption)
      apply (rule exI [of _ t], rule exI [of _ b], rule exI [of _ ?rs])
      apply (intro conjI)
        apply (rule refl, assumption, assumption)
      done
  next
    case 3
    have "\<not> f ((x, y) \<in> rects_pts (a # as)) ((x, y) \<in> rects_pts (c # cs))"
      if "y < top a" "y < min (bottom a) (bottom c)" for x y
      using p1 [of y x] p2 [of y x] f_none 3 that by (simp del: band_of_Cons rects_pts_simps)
    with res 3 show ?thesis
      by (intro conjI exI [of _ Y] exI [of _ "[]"])
        (auto simp: nonoverlap_part_def simp del: band_of_Cons rects_pts_simps(2))
  qed
qed

lemma band_step_correct:
  assumes b1: "banded (a # as)" and b2: "banded (c # cs)"
    and Y: "Y \<le> max (top a) (top c)" "Y < bottom a" "Y < bottom c"
    and inv: "out_inv out prev Y"
    and res: "band_step overlap non1 non2 (a # as) (c # cs) Y out prev = (Y', out', prev')"
  shows "Y' = min (bottom a) (bottom c) \<and> out_inv out' prev' Y'
    \<and> (\<forall>x y. (x, y) \<in> rects_pts out' \<longleftrightarrow> (x, y) \<in> rects_pts out \<or> (Y \<le> y \<and> y < Y'
          \<and> f ((x, y) \<in> rects_pts (a # as)) ((x, y) \<in> rects_pts (c # cs))))"
proof -
  obtain ytop out1 where n: "nonoverlap_part non1 non2 (a # as) (c # cs) Y out = (ytop, out1)"
    by (cases "nonoverlap_part non1 non2 (a # as) (c # cs) Y out")
  obtain out2 prev2 where g2: "coalesce_if_grown out1 prev (tail_ix out) = (out2, prev2)"
    by (cases "coalesce_if_grown out1 prev (tail_ix out)")
  let ?Y' = "min (bottom a) (bottom c)"
  define out3 where "out3 = (if ?Y' > ytop
    then overlap out2 (band_of (a # as)) (band_of (c # cs)) ytop ?Y' else out2)"
  have g4: "coalesce_if_grown out3 prev2 (tail_ix out2) = (out', prev')" and Y': "Y' = ?Y'"
    using res n g2 by (auto simp: band_step_def out3_def Let_def simp del: band_of_Cons split: prod.splits)
  from nonoverlap_rows [OF b1 b2 Y n] obtain t b rs where ytop: "ytop = max (top a) (top c)"
    and o1: "out1 = out @ rs" and rs: "rs = [] \<or> (row t b rs \<and> t < b \<and> Y \<le> t \<and> b \<le> ytop)"
    and rs_pts: "\<forall>x y. (x, y) \<in> rects_pts rs \<longleftrightarrow> Y \<le> y \<and> y < ytop \<and> y < ?Y'
          \<and> f ((x, y) \<in> rects_pts (a # as)) ((x, y) \<in> rects_pts (c # cs))"
    by blast
  have inv2: "out_inv out2 prev2 ytop \<and> rects_pts out2 = rects_pts (out @ rs)"
  proof (cases "rs = []")
    case True
    with g2 o1 inv Y(1) ytop show ?thesis
      by (auto simp: coalesce_if_grown_def intro: out_inv_mono)
  next
    case False
    with rs coalesce_if_grown_row [OF inv _ _ _ g2 [unfolded o1], of t b] show ?thesis
      by (auto intro: out_inv_mono)
  qed
  have in_band: "(x, y) \<in> rects_pts (a # as) \<longleftrightarrow> in_row (band_of (a # as)) x"
    "(x, y) \<in> rects_pts (c # cs) \<longleftrightarrow> in_row (band_of (c # cs)) x"
    if "ytop \<le> y" "y < ?Y'" for x y
    using first_band_points [OF b1, of y x] first_band_points [OF b2, of y x] that ytop
    by (auto simp del: band_of_Cons rects_pts_simps)
  show ?thesis
  proof (cases "?Y' > ytop")
    case True
    from inv2 have "\<forall>r \<in> set out2. bottom r \<le> ytop" by (simp add: out_inv_def)
    from overlap_row [OF xrow_band [OF b1] xrow_band [OF b2] _ _ True this]
    obtain ss where ss: "out3 = out2 @ ss" "row ytop ?Y' ss"
      "\<forall>x. in_row ss x \<longleftrightarrow> f (in_row (band_of (a # as)) x) (in_row (band_of (c # cs)) x)"
      using True by (auto simp: out3_def simp del: band_of_Cons) (metis band_of_nonempty list.distinct(1))
    have inv4: "out_inv out' prev' ?Y' \<and> rects_pts out' = rects_pts (out2 @ ss)"
      using coalesce_if_grown_row [OF conjunct1 [OF inv2] ss(2) True order.refl g4 [unfolded ss(1)]] .
    have "(x, y) \<in> rects_pts ss \<longleftrightarrow> ytop \<le> y \<and> y < ?Y'
        \<and> f ((x, y) \<in> rects_pts (a # as)) ((x, y) \<in> rects_pts (c # cs))" for x y
      using row_pts [OF ss(2)] ss(3) in_band [of y x] by (auto simp del: band_of_Cons rects_pts_simps)
    moreover have "rects_pts out' = rects_pts out \<union> (rects_pts rs \<union> rects_pts ss)"
      using inv4 inv2 by auto
    ultimately have "(x, y) \<in> rects_pts out' \<longleftrightarrow> (x, y) \<in> rects_pts out \<or> (Y \<le> y \<and> y < ?Y'
          \<and> f ((x, y) \<in> rects_pts (a # as)) ((x, y) \<in> rects_pts (c # cs)))" for x y
      using rs_pts Y(1) ytop True by (auto simp del: rects_pts_simps)
    with inv4 Y' show ?thesis by blast
  next
    case False
    then have o3: "out3 = out2" by (simp only: out3_def if_False)
    then have o': "out' = out2" "prev' = prev2" using g4 by (auto simp: coalesce_if_grown_def)
    have bot: "\<forall>r \<in> set out2. bottom r \<le> ?Y'"
    proof
      fix r assume r: "r \<in> set out2"
      show "bottom r \<le> ?Y'"
      proof (rule ccontr)
        assume n: "\<not> bottom r \<le> ?Y'"
        have ok: "rect_ok r" using inv2 r by (auto simp: out_inv_def intro: banded_member_ok)
        then have "(left r, bottom r - 1) \<in> rects_pts out2"
          using r by (auto simp: mem_rects_pts rect_ok_def intro!: bexI [of _ r])
        with inv2 have "(left r, bottom r - 1) \<in> rects_pts out \<or> (left r, bottom r - 1) \<in> rects_pts rs"
          by simp
        moreover have "bottom r - 1 < ?Y'" if "(left r, bottom r - 1) \<in> rects_pts out"
          using pts_below [OF _ that, of Y] inv Y by (auto simp: out_inv_def)
        moreover have "bottom r - 1 < ?Y'" if "(left r, bottom r - 1) \<in> rects_pts rs"
          using rs_pts that by blast
        ultimately show False using n by linarith
      qed
    qed
    have "out_inv out' prev' ?Y'" using inv2 bot o' by (simp add: out_inv_def)
    moreover have "(x, y) \<in> rects_pts out' \<longleftrightarrow> (x, y) \<in> rects_pts out \<or> (Y \<le> y \<and> y < ?Y'
          \<and> f ((x, y) \<in> rects_pts (a # as)) ((x, y) \<in> rects_pts (c # cs)))" for x y
      using rs_pts inv2 o' False by (auto simp del: rects_pts_simps(2))
    ultimately show ?thesis using Y' by blast
  qed
qed

lemma leftover_part:
  assumes b: "banded r1" "banded r2" and one: "r1 = [] \<or> r2 = []"
    and low: "\<forall>r \<in> set r1 \<union> set r2. Y < bottom r"
    and o: "out1 = (if r1 \<noteq> [] then (case non1 of None \<Rightarrow> out | Some g \<Rightarrow> leftover g r1 Y out)
      else if r2 \<noteq> [] then (case non2 of None \<Rightarrow> out | Some g \<Rightarrow> leftover g r2 Y out) else out)"
  shows "\<exists>new. out1 = out @ new \<and> banded new \<and> (\<forall>n \<in> set new. Y \<le> top n)
    \<and> (\<forall>x y. (x, y) \<in> rects_pts new \<longleftrightarrow> Y \<le> y \<and> f ((x, y) \<in> rects_pts r1) ((x, y) \<in> rects_pts r2))"
proof -
  have n1: "\<And>u. \<not> f u False" if "non1 = None"
  proof -
    have "xrow [\<lparr>left = 0, top = 0, right = 1, bottom = 1\<rparr>]" by simp
    from non1_row [OF this, of "[]" 0 1] have "\<not> f True False"
      using that by (auto simp: call_nonoverlap_def in_row_def dest!: spec [of _ 0])
    with f_none show "\<And>u. \<not> f u False" by (metis (full_types))
  qed
  have n2: "\<And>u. \<not> f False u" if "non2 = None"
  proof -
    have "xrow [\<lparr>left = 0, top = 0, right = 1, bottom = 1\<rparr>]" by simp
    from non2_row [OF this, of "[]" 0 1] have "\<not> f False True"
      using that by (auto simp: call_nonoverlap_def in_row_def dest!: spec [of _ 0])
    with f_none show "\<And>u. \<not> f False u" by (metis (full_types))
  qed
  consider "r1 \<noteq> []" "r2 = []" | "r1 = []" "r2 \<noteq> []" | "r1 = []" "r2 = []" using one by blast
  then show ?thesis
  proof cases
    case 1
    show ?thesis
    proof (cases non1)
      case None
      with 1 o n1 show ?thesis by (intro exI [of _ "[]"]) simp
    next
      case (Some g)
      have "\<exists>rs. g out as t b = out @ rs \<and> row t b rs \<and> (\<forall>x. in_row rs x \<longleftrightarrow> f (in_row as x) False)"
        if "xrow as" for out as t b using non1_row [OF that, of out t b] Some by (simp add: call_nonoverlap_def)
      from leftover_correct [where g = g and h = "\<lambda>u. f u False", OF this f_none b(1)] low
      obtain new where "leftover g r1 Y out = out @ new" "banded new" "\<forall>n \<in> set new. Y \<le> top n"
        "\<forall>x y. (x, y) \<in> rects_pts new \<longleftrightarrow> Y \<le> y \<and> f ((x, y) \<in> rects_pts r1) False" by blast
      moreover have "out1 = leftover g r1 Y out" "rects_pts r2 = {}" using o 1 Some by simp_all
      ultimately show ?thesis by (intro exI [of _ new]) (simp only: empty_iff simp_thms)
    qed
  next
    case 2
    show ?thesis
    proof (cases non2)
      case None
      with 2 o n2 show ?thesis by (intro exI [of _ "[]"]) simp
    next
      case (Some g)
      have "\<exists>rs. g out as t b = out @ rs \<and> row t b rs \<and> (\<forall>x. in_row rs x \<longleftrightarrow> f False (in_row as x))"
        if "xrow as" for out as t b using non2_row [OF that, of out t b] Some by (simp add: call_nonoverlap_def)
      from leftover_correct [where g = g and h = "\<lambda>u. f False u", OF this f_none b(2)] low
      obtain new where "leftover g r2 Y out = out @ new" "banded new" "\<forall>n \<in> set new. Y \<le> top n"
        "\<forall>x y. (x, y) \<in> rects_pts new \<longleftrightarrow> Y \<le> y \<and> f False ((x, y) \<in> rects_pts r2)" by blast
      moreover have "out1 = leftover g r2 Y out" "rects_pts r1 = {}" using o 2 Some by simp_all
      ultimately show ?thesis by (intro exI [of _ new]) (simp only: empty_iff simp_thms)
    qed
  next
    case 3
    with o f_none show ?thesis by (intro exI [of _ "[]"]) simp
  qed
qed

lemma region_sweep_correct:
  assumes "region_sweep overlap non1 non2 r1 r2 Y out prev = (r1', r2', Y', out', prev')"
    and "banded r1" "banded r2" "\<forall>r \<in> set r1 \<union> set r2. Y < bottom r"
    and "r1 \<noteq> [] \<longrightarrow> r2 \<noteq> [] \<longrightarrow> Y \<le> max (top (hd r1)) (top (hd r2))" and "out_inv out prev Y"
  shows "(r1' = [] \<or> r2' = []) \<and> banded r1' \<and> banded r2' \<and> Y \<le> Y' \<and> out_inv out' prev' Y'
    \<and> (\<forall>r \<in> set r1' \<union> set r2'. Y' < bottom r)
    \<and> (\<forall>x y. (x, y) \<in> rects_pts out' \<longleftrightarrow> (x, y) \<in> rects_pts out \<or> (Y \<le> y \<and> y < Y'
          \<and> f ((x, y) \<in> rects_pts r1) ((x, y) \<in> rects_pts r2)))
    \<and> (\<forall>x y. Y' \<le> y \<longrightarrow> ((x, y) \<in> rects_pts r1' \<longleftrightarrow> (x, y) \<in> rects_pts r1)
          \<and> ((x, y) \<in> rects_pts r2' \<longleftrightarrow> (x, y) \<in> rects_pts r2))"
  using assms
proof (induction "length r1 + length r2" arbitrary: r1 r2 Y out prev rule: less_induct)
  case less
  note prems = less.prems
  show ?case
  proof (cases "r1 \<noteq> [] \<and> r2 \<noteq> []")
    case False
    with prems show ?thesis by (auto simp: region_sweep.simps [of _ _ _ r1 r2])
  next
    case True
    then obtain a as c cs where r: "r1 = a # as" "r2 = c # cs" by (meson neq_Nil_conv)
    note b1 = prems(2) [unfolded r] and b2 = prems(3) [unfolded r]
    define Z where "Z = min (bottom a) (bottom c)"
    define n1 where "n1 = (if bottom a = Z then band_end (a # as) else a # as)"
    define n2 where "n2 = (if bottom c = Z then band_end (c # cs) else c # cs)"
    obtain Z1 o1 p1 where step: "band_step overlap non1 non2 (a # as) (c # cs) Y out prev = (Z1, o1, p1)"
      by (cases "band_step overlap non1 non2 (a # as) (c # cs) Y out prev")
    have rec: "region_sweep overlap non1 non2 n1 n2 Z o1 p1 = (r1', r2', Y', out', prev')"
      using prems(1) unfolding r
      by (subst (asm) region_sweep.simps) (simp only: list.sel Z_def [symmetric] n1_def [symmetric] n2_def [symmetric] Let_def
          step prod.case list.distinct simp_thms if_True)
    have Y: "Y \<le> max (top a) (top c)" "Y < bottom a" "Y < bottom c" using prems r by auto
    from band_step_correct [OF b1 b2 Y prems(6) step] have inv: "out_inv o1 p1 Z"
      and o1: "\<forall>x y. (x, y) \<in> rects_pts o1 \<longleftrightarrow> (x, y) \<in> rects_pts out \<or> (Y \<le> y \<and> y < Z
          \<and> f ((x, y) \<in> rects_pts (a # as)) ((x, y) \<in> rects_pts (c # cs)))"
      unfolding Z_def by blast+
    have Zle: "Z \<le> bottom a" "Z \<le> bottom c" "Y < Z" using Y by (simp_all add: Z_def)
    note adv1 = advance [OF b1 Zle(1) n1_def] and adv2 = advance [OF b2 Zle(2) n2_def]
    have one: "bottom a = Z \<or> bottom c = Z" by (auto simp: Z_def min_def)
    then have "length n1 + length n2 < length r1 + length r2"
      using band_end_shorter [of r1] band_end_shorter [of r2] unfolding r n1_def n2_def by auto
    moreover have "n1 \<noteq> [] \<longrightarrow> n2 \<noteq> [] \<longrightarrow> Z \<le> max (top (hd n1)) (top (hd n2))"
      using one adv1(4) adv2(4) by (auto simp: le_max_iff_disj)
    moreover have "\<forall>r \<in> set n1 \<union> set n2. Z < bottom r" using adv1(2) adv2(2) by blast
    ultimately have IH: "(r1' = [] \<or> r2' = []) \<and> banded r1' \<and> banded r2' \<and> Z \<le> Y'
        \<and> out_inv out' prev' Y' \<and> (\<forall>r \<in> set r1' \<union> set r2'. Y' < bottom r)
        \<and> (\<forall>x y. (x, y) \<in> rects_pts out' \<longleftrightarrow> (x, y) \<in> rects_pts o1 \<or> (Z \<le> y \<and> y < Y'
              \<and> f ((x, y) \<in> rects_pts n1) ((x, y) \<in> rects_pts n2)))
        \<and> (\<forall>x y. Y' \<le> y \<longrightarrow> ((x, y) \<in> rects_pts r1' \<longleftrightarrow> (x, y) \<in> rects_pts n1)
              \<and> ((x, y) \<in> rects_pts r2' \<longleftrightarrow> (x, y) \<in> rects_pts n2))"
      using less.hyps [OF _ rec adv1(1) adv2(1) _ _ inv] by blast
    have pix: "(x, y) \<in> rects_pts out' \<longleftrightarrow> (x, y) \<in> rects_pts out \<or> (Y \<le> y \<and> y < Y'
          \<and> f ((x, y) \<in> rects_pts r1) ((x, y) \<in> rects_pts r2))" for x y
    proof (cases "Z \<le> y")
      case True
      then show ?thesis using IH o1 Zle(3) adv1(3) [OF True, of x] adv2(3) [OF True, of x]
        unfolding r by auto
    next
      case False
      then show ?thesis using IH o1 Zle(3) unfolding r by auto
    qed
    have tail: "((x, y) \<in> rects_pts r1' \<longleftrightarrow> (x, y) \<in> rects_pts r1)
        \<and> ((x, y) \<in> rects_pts r2' \<longleftrightarrow> (x, y) \<in> rects_pts r2)" if "Y' \<le> y" for x y
      using IH that adv1(3) [of y x] adv2(3) [of y x] unfolding r by auto
    from IH pix tail Zle(3) show ?thesis by auto
  qed
qed

theorem RegionOp_rects_correct:
  assumes wf: "rgn_wf reg1" "rgn_wf reg2" and ne: "cliprects reg1 \<noteq> []" "cliprects reg2 \<noteq> []"
  shows "banded (RegionOp_rects overlap non1 non2 reg1 reg2)
    \<and> (\<forall>x y. (x, y) \<in> rects_pts (RegionOp_rects overlap non1 non2 reg1 reg2)
          \<longleftrightarrow> f ((x, y) \<in> rgn_pts reg1) ((x, y) \<in> rgn_pts reg2))"
proof -
  define Y where "Y = (if top (rcBound reg1) < top (rcBound reg2)
      then top (rcBound reg1) else top (rcBound reg2))"
  obtain r1 r2 Y' out prev where sw: "region_sweep overlap non1 non2 (cliprects reg1) (cliprects reg2)
      Y [] None = (r1, r2, Y', out, prev)"
    by (cases "region_sweep overlap non1 non2 (cliprects reg1) (cliprects reg2) Y [] None") auto
  have b: "banded (cliprects reg1)" "banded (cliprects reg2)" using wf by (simp_all add: rgn_wf_def)
  have tops: "\<forall>r \<in> set (cliprects reg1) \<union> set (cliprects reg2). Y \<le> top r"
    using rgn_wf_bound(3) [OF wf(1)] rgn_wf_bound(3) [OF wf(2)] by (force simp: Y_def)
  have bots: "\<forall>r \<in> set (cliprects reg1) \<union> set (cliprects reg2). Y < bottom r"
    using tops b by (force simp: banded_def rect_ok_def)
  have start: "Y \<le> max (top (hd (cliprects reg1))) (top (hd (cliprects reg2)))"
    using tops ne by (auto simp: le_max_iff_disj)
  have "out_inv [] None Y" by (simp add: out_inv_def)
  from region_sweep_correct [OF sw b bots _ this] start
  have S: "r1 = [] \<or> r2 = []" "banded r1" "banded r2" "Y \<le> Y'" "out_inv out prev Y'"
    "\<forall>r \<in> set r1 \<union> set r2. Y' < bottom r"
    and out: "\<And>x y. (x, y) \<in> rects_pts out \<longleftrightarrow> Y \<le> y \<and> y < Y'
        \<and> f ((x, y) \<in> rgn_pts reg1) ((x, y) \<in> rgn_pts reg2)"
    and tail: "\<And>x y. Y' \<le> y \<Longrightarrow> ((x, y) \<in> rects_pts r1 \<longleftrightarrow> (x, y) \<in> rgn_pts reg1)
        \<and> ((x, y) \<in> rects_pts r2 \<longleftrightarrow> (x, y) \<in> rgn_pts reg2)"
    unfolding rgn_pts_def by simp_all
  have above: "Y \<le> y" if "f ((x, y) \<in> rgn_pts reg1) ((x, y) \<in> rgn_pts reg2)" for x y
  proof -
    have "(x, y) \<in> rgn_pts reg1 \<or> (x, y) \<in> rgn_pts reg2" using that f_none by (metis (full_types))
    then show ?thesis
      using pts_above [of "cliprects reg1" Y x y] pts_above [of "cliprects reg2" Y x y] tops
      unfolding rgn_pts_def by blast
  qed
  define out1 where "out1 = (if r1 \<noteq> [] then (case non1 of None \<Rightarrow> out | Some g \<Rightarrow> leftover g r1 Y' out)
      else if r2 \<noteq> [] then (case non2 of None \<Rightarrow> out | Some g \<Rightarrow> leftover g r2 Y' out) else out)"
  have res: "RegionOp_rects overlap non1 non2 reg1 reg2 = fst (coalesce_if_grown out1 prev (tail_ix out))"
    unfolding RegionOp_rects_def Y_def [symmetric] Let_def sw out1_def by simp
  have "\<exists>new. out1 = out @ new \<and> banded new \<and> (\<forall>n \<in> set new. Y' \<le> top n)
    \<and> (\<forall>x y. (x, y) \<in> rects_pts new \<longleftrightarrow> Y' \<le> y \<and> f ((x, y) \<in> rects_pts r1) ((x, y) \<in> rects_pts r2))"
  proof (rule leftover_part [OF S(2,3,1,6)])
    show "out1 = (if r1 \<noteq> [] then (case non1 of None \<Rightarrow> out | Some g \<Rightarrow> leftover g r1 Y' out)
      else if r2 \<noteq> [] then (case non2 of None \<Rightarrow> out | Some g \<Rightarrow> leftover g r2 Y' out) else out)"
      by (rule out1_def)
  qed
  then obtain new where new: "out1 = out @ new" "banded new" "\<forall>n \<in> set new. Y' \<le> top n"
    "\<And>x y. (x, y) \<in> rects_pts new \<longleftrightarrow> Y' \<le> y \<and> f ((x, y) \<in> rects_pts r1) ((x, y) \<in> rects_pts r2)"
    by blast
  have "\<forall>r \<in> set out. bottom r \<le> Y'" using S(5) by (simp add: out_inv_def)
  then have bn: "banded (out @ new)" using S(5) new by (force simp: out_inv_def banded_append before_def)
  obtain Z where Z: "\<forall>r \<in> set (out @ new). bottom r \<le> Z"
    using that [of "Max (bottom ` set (out @ new))"] by (meson Max_ge List.finite_set finite_imageI imageI)
  obtain o2 p2 where g: "coalesce_if_grown (out @ new) prev (tail_ix out) = (o2, p2)"
    by (cases "coalesce_if_grown (out @ new) prev (tail_ix out)")
  from coalesce_if_grown_list [OF S(5) bn new(3) Z g]
  have o2: "banded o2" "rects_pts o2 = rects_pts out \<union> rects_pts new" by (simp_all add: out_inv_def)
  have "(x, y) \<in> rects_pts o2 \<longleftrightarrow> f ((x, y) \<in> rgn_pts reg1) ((x, y) \<in> rgn_pts reg2)" for x y
    using out [of x y] new(4) [of x y] tail [of y x] above [of x y] unfolding o2(2)
    by (cases "y < Y'") auto
  with o2(1) show ?thesis using res new(1) g by simp
qed

end

end
