(* ===== verification/MG_RegionOps.thy ===== *)
theory MG_RegionOps
  imports MG_RegionSweep
begin

text \<open>
  The callbacks of \<open>src/newgdi/region.c\<close> meet the contract of the band sweep, one
  interpretation for each set operation.
\<close>

section \<open>Intersection\<close>

lemma IntersectO_row:
  "xrow as \<Longrightarrow> xrow cs \<Longrightarrow> \<exists>rs. REGION_IntersectO out as cs t b = out @ rs \<and> row t b rs
     \<and> (\<forall>x. in_row rs x \<longleftrightarrow> in_row as x \<and> in_row cs x)
     \<and> (\<forall>r \<in> set rs. (\<exists>s \<in> set as. left s \<le> left r) \<and> (\<exists>s \<in> set cs. left s \<le> left r))"
proof (induction out as cs t b rule: REGION_IntersectO.induct)
  case (1 region a as c cs t b)
  let ?l = "max (left a) (left c)" and ?r = "min (right a) (right c)"
  let ?new = "if ?l < ?r then [mk_rect ?l t ?r b] else []"
  let ?as = "if right c < right a then a # as else as"
  let ?cs = "if right a < right c then c # cs else cs"
  have IH: "\<exists>rs. REGION_IntersectO (region @ ?new) ?as ?cs t b = (region @ ?new) @ rs \<and> row t b rs
     \<and> (\<forall>x. in_row rs x \<longleftrightarrow> in_row ?as x \<and> in_row ?cs x)
     \<and> (\<forall>r \<in> set rs. (\<exists>s \<in> set ?as. left s \<le> left r) \<and> (\<exists>s \<in> set ?cs. left s \<le> left r))"
  proof -
    consider "right a < right c" | "right c < right a" | "right a = right c" by linarith
    then show ?thesis
    proof cases
      case 1
      with "1.IH"(1) [OF refl refl refl] "1.prems" show ?thesis by (cases "?l < ?r") simp_all
    next
      case 2
      with "1.IH"(2) [OF refl refl refl] "1.prems" show ?thesis by (cases "?l < ?r") simp_all
    next
      case 3
      with "1.IH"(3) [OF refl refl refl] "1.prems" show ?thesis by (cases "?l < ?r") simp_all
    qed
  qed
  then obtain rs where rs: "REGION_IntersectO (region @ ?new) ?as ?cs t b = (region @ ?new) @ rs"
    "row t b rs" "\<forall>x. in_row rs x \<longleftrightarrow> in_row ?as x \<and> in_row ?cs x"
    "\<forall>r \<in> set rs. (\<exists>s \<in> set ?as. left s \<le> left r) \<and> (\<exists>s \<in> set ?cs. left s \<le> left r)" by blast
  have eq: "REGION_IntersectO region (a # as) (c # cs) t b = region @ (?new @ rs)"
    using rs(1) by (auto simp: Let_def)
  have xr: "\<forall>s \<in> set as. right a < left s" "\<forall>s \<in> set cs. right c < left s"
    "left a < right a" "left c < right c" using 1 by simp_all
  have gap: "?r < left r" if "r \<in> set rs" for r
    using rs(4) that xr by (cases "right a < right c"; cases "right c < right a") force+
  have "row t b (?new @ rs)" using rs(2) gap by (auto simp: row_append)
  moreover have "in_row (?new @ rs) x \<longleftrightarrow> in_row (a # as) x \<and> in_row (c # cs) x" for x
  proof -
    have "\<not> in_row as x" if "x \<le> right a" using that xr(1) by (force simp: in_row_def)
    moreover have "\<not> in_row cs x" if "x \<le> right c" using that xr(2) by (force simp: in_row_def)
    ultimately show ?thesis using rs(3) by auto
  qed
  moreover have "(\<exists>s \<in> set (a # as). left s \<le> left r) \<and> (\<exists>s \<in> set (c # cs). left s \<le> left r)"
    if r: "r \<in> set (?new @ rs)" for r
  proof (cases "r \<in> set rs")
    case True
    have "set ?as \<subseteq> set (a # as)" "set ?cs \<subseteq> set (c # cs)" by auto
    with True rs(4) show ?thesis by blast
  next
    case False
    with r have "left r = ?l" by (auto split: if_splits)
    then show ?thesis by auto
  qed
  ultimately show ?case using eq by blast
qed auto

section \<open>Union\<close>

lemma NonO_row: "xrow as \<Longrightarrow> row t b (map (\<lambda>r. mk_rect (left r) t (right r) b) as)"
  and in_row_NonO: "in_row (map (\<lambda>r. mk_rect (left r) t (right r) b) as) x \<longleftrightarrow> in_row as x"
  by (induction as) auto

lemma UnionNonO_eq:
  "REGION_UnionNonO out as t b = out @ map (\<lambda>r. mk_rect (left r) t (right r) b) as"
  by (induction out as t b rule: REGION_UnionNonO.induct) simp_all

lemma SubtractNonO1_eq:
  "REGION_SubtractNonO1 out as t b = out @ map (\<lambda>r. mk_rect (left r) t (right r) b) as"
  by (induction out as t b rule: REGION_SubtractNonO1.induct) simp_all

lemma MERGERECT_row:
  assumes row: "row t b rs" and out: "\<forall>r \<in> set out. bottom r \<le> t" and tb: "t < b"
    and r: "left r < right r" and lefts: "\<forall>s \<in> set rs. left s \<le> left r"
  shows "\<exists>rs'. MERGERECT (out @ rs) r t b = out @ rs' \<and> row t b rs'
    \<and> (\<forall>x. in_row rs' x \<longleftrightarrow> in_row rs x \<or> (left r \<le> x \<and> x < right r))
    \<and> (\<forall>s \<in> set rs'. left s \<le> left r)"
proof (cases rs rule: rev_cases)
  case Nil
  have "out = [] \<or> bottom (last out) \<noteq> b" using out tb by (metis last_in_set leD)
  with Nil r show ?thesis
    by (intro exI [of _ "[mk_rect (left r) t (right r) b]"]) (auto simp: MERGERECT_def)
next
  case (snoc us u)
  have u: "row t b us" "top u = t" "bottom u = b" "left u < right u" "\<forall>s \<in> set us. right s < left u"
    "left u \<le> left r" using row lefts snoc by (auto simp: row_append)
  consider "right u < left r" | "left r \<le> right u" "right u < right r" | "right r \<le> right u"
    using r by linarith
  then show ?thesis
  proof cases
    case 1
    with snoc u have "MERGERECT (out @ rs) r t b = out @ (rs @ [mk_rect (left r) t (right r) b])"
      by (simp add: MERGERECT_def)
    moreover have "row t b (rs @ [mk_rect (left r) t (right r) b])"
      using row 1 r u snoc by (fastforce simp: row_append)
    moreover have "\<forall>s \<in> set (rs @ [mk_rect (left r) t (right r) b]). left s \<le> left r"
      using lefts by simp
    ultimately show ?thesis
      by (intro exI [of _ "rs @ [mk_rect (left r) t (right r) b]"]) simp
  next
    case 2
    with snoc u have "MERGERECT (out @ rs) r t b = out @ (us @ [u\<lparr>right := right r\<rparr>])"
      by (simp add: MERGERECT_def butlast_append)
    moreover have "row t b (us @ [u\<lparr>right := right r\<rparr>])" using u 2 by (auto simp: row_append)
    moreover have "in_row (us @ [u\<lparr>right := right r\<rparr>]) x \<longleftrightarrow>
        in_row rs x \<or> (left r \<le> x \<and> x < right r)" for x
      using 2 u(6) snoc by auto
    moreover have "\<forall>s \<in> set (us @ [u\<lparr>right := right r\<rparr>]). left s \<le> left r" using lefts snoc by simp
    ultimately show ?thesis by blast
  next
    case 3
    with snoc u r have "MERGERECT (out @ rs) r t b = out @ rs" by (simp add: MERGERECT_def)
    moreover have "in_row rs x \<longleftrightarrow> in_row rs x \<or> (left r \<le> x \<and> x < right r)" for x
      using 3 u(6) snoc by auto
    ultimately show ?thesis using row lefts by blast
  qed
qed

lemma UnionO_row:
  assumes "xrow as" "xrow cs" "t < b" "\<forall>r \<in> set out. bottom r \<le> t" "row t b rs"
    "\<forall>s \<in> set rs. \<forall>r \<in> set as \<union> set cs. left s \<le> left r"
  shows "\<exists>rs'. REGION_UnionO (out @ rs) as cs t b = out @ rs' \<and> row t b rs'
    \<and> (\<forall>x. in_row rs' x \<longleftrightarrow> in_row rs x \<or> in_row as x \<or> in_row cs x)"
  using assms
proof (induction "length as + length cs" arbitrary: as cs rs)
  case 0
  then show ?case by auto
next
  case (Suc n)
  obtain r as' cs' where pick: "REGION_UnionO (out @ rs) as cs t b
      = REGION_UnionO (MERGERECT (out @ rs) r t b) as' cs' t b"
    and n: "n = length as' + length cs'" and sub: "xrow as'" "xrow cs'" "left r < right r"
    and r: "\<forall>s \<in> set as' \<union> set cs'. left r \<le> left s" "r \<in> set as \<union> set cs"
    and mem: "\<And>x. in_row as x \<or> in_row cs x \<longleftrightarrow>
        (left r \<le> x \<and> x < right r) \<or> in_row as' x \<or> in_row cs' x"
  proof (cases as)
    case Nil
    with Suc.hyps(2) obtain c cs0 where "cs = c # cs0" by (cases cs) simp_all
    with Nil Suc show thesis by (intro that [of c "[]" cs0]) force+
  next
    case as: (Cons a as0)
    show thesis
    proof (cases cs)
      case Nil
      with as Suc show thesis by (intro that [of a as0 "[]"]) force+
    next
      case cs: (Cons c cs0)
      show thesis
      proof (cases "left a < left c")
        case True
        with as cs Suc show thesis by (intro that [of a as0 cs]) (simp, simp, simp, simp, simp, force, simp, auto)
      next
        case False
        with as cs Suc show thesis by (intro that [of c as cs0]) (simp, simp, simp, simp, simp, force, simp, auto)
      qed
    qed
  qed
  have "\<forall>s \<in> set rs. left s \<le> left r" using Suc.prems(6) r(2) by blast
  from MERGERECT_row [OF Suc.prems(5,4,3) sub(3) this] obtain rs1 where
    m: "MERGERECT (out @ rs) r t b = out @ rs1" "row t b rs1"
      "\<forall>x. in_row rs1 x \<longleftrightarrow> in_row rs x \<or> (left r \<le> x \<and> x < right r)"
      "\<forall>s \<in> set rs1. left s \<le> left r" by blast
  have "\<forall>s \<in> set rs1. \<forall>q \<in> set as' \<union> set cs'. left s \<le> left q" using m(4) r(1) by force
  from Suc.hyps(1) [OF n sub(1,2) Suc.prems(3,4) m(2) this] obtain rs' where
    "REGION_UnionO (out @ rs1) as' cs' t b = out @ rs'" "row t b rs'"
    "\<forall>x. in_row rs' x \<longleftrightarrow> in_row rs1 x \<or> in_row as' x \<or> in_row cs' x" by blast
  then show ?case using pick m mem by (intro exI [of _ rs']) auto
qed

section \<open>Difference\<close>

lemma subtract_loop_row:
  "xrow as \<Longrightarrow> xrow cs \<Longrightarrow> (as \<noteq> [] \<Longrightarrow> left (hd as) \<le> l \<and> l < right (hd as)) \<Longrightarrow>
   \<exists>rs. subtract_loop region as cs l t b = region @ rs \<and> row t b rs
     \<and> (\<forall>x. in_row rs x \<longleftrightarrow> in_row as x \<and> l \<le> x \<and> \<not> in_row cs x) \<and> (\<forall>r \<in> set rs. l \<le> left r)"
proof (induction region as cs l t b rule: subtract_loop.induct)
  case (1 region a as c cs l t b)
  have xr: "\<forall>s \<in> set as. right a < left s" "\<forall>s \<in> set cs. right c < left s" "xrow as" "xrow cs"
    "left a < right a" "left c < right c" "left a \<le> l" "l < right a" using 1 by simp_all
  have off_a: "\<not> in_row as x" if "x \<le> right a" for x using that xr(1) by (force simp: in_row_def)
  have off_c: "\<not> in_row cs x" if "x \<le> right c" for x using that xr(2) by (force simp: in_row_def)
  have nxt: "as \<noteq> [] \<Longrightarrow> left (hd as) \<le> next_left as m \<and> next_left as m < right (hd as)" for m
    using xr(3) by (cases as) (simp_all add: next_left_def)
  have nxt_above: "as \<noteq> [] \<Longrightarrow> right a < next_left as m" for m
    using xr(1) by (cases as) (simp_all add: next_left_def)
  have from_next: "in_row as x \<and> next_left as m \<le> x \<longleftrightarrow> in_row as x" for x m
    using xr(3) by (cases as) (auto simp: next_left_def in_row_def)
  have empty: "as = [] \<Longrightarrow> subtract_loop reg as k m t b = reg" for reg k m by simp
  have low: "\<forall>r \<in> set rs. right a < left r"
    if "\<forall>r \<in> set rs. next_left as m \<le> left r" "as = [] \<Longrightarrow> rs = []" for rs m
    using that nxt_above [of m] by (cases "as = []") force+
  consider (skip) "right c \<le> l" | (hide) "\<not> right c \<le> l" "left c \<le> l" "right a \<le> right c"
    | (trim) "\<not> right c \<le> l" "left c \<le> l" "\<not> right a \<le> right c"
    | (cut) "\<not> right c \<le> l" "\<not> left c \<le> l" "left c < right a" "right a \<le> right c"
    | (split) "\<not> right c \<le> l" "\<not> left c \<le> l" "left c < right a" "\<not> right a \<le> right c"
    | (keep) "\<not> right c \<le> l" "\<not> left c \<le> l" "\<not> left c < right a" by linarith
  then show ?case
  proof cases
    case skip
    with "1.IH"(1) xr "1.prems" obtain rs where
      rs: "subtract_loop region (a # as) cs l t b = region @ rs" "row t b rs"
      "\<forall>x. in_row rs x \<longleftrightarrow> in_row (a # as) x \<and> l \<le> x \<and> \<not> in_row cs x" "\<forall>r \<in> set rs. l \<le> left r" by auto
    then show ?thesis using skip by (intro exI [of _ rs]) auto
  next
    case hide
    from "1.IH"(2) [OF hide(1,2) refl hide(3) xr(3) "1.prems"(2) nxt] obtain rs where
      rs: "subtract_loop region as (c # cs) (next_left as (right c)) t b = region @ rs" "row t b rs"
      "\<forall>x. in_row rs x \<longleftrightarrow> in_row as x \<and> next_left as (right c) \<le> x \<and> \<not> in_row (c # cs) x"
      "\<forall>r \<in> set rs. next_left as (right c) \<le> left r" by blast
    have "in_row rs x \<longleftrightarrow> in_row (a # as) x \<and> l \<le> x \<and> \<not> in_row (c # cs) x" for x
      using spec [OF rs(3), of x] from_next [of x "right c"] off_a [of x] hide xr(8)
      by (cases "in_row as x"; cases "in_row cs x"; simp; (linarith | auto))
    moreover have "\<forall>r \<in> set rs. right a < left r" by (rule low [OF rs(4)]) (use rs(1) in simp)
    then have "\<forall>r \<in> set rs. l \<le> left r" using xr(8) by force
    moreover have "subtract_loop region (a # as) (c # cs) l t b = region @ rs" using rs(1) hide by simp
    ultimately show ?thesis using rs(2) by blast
  next
    case trim
    have "left (hd (a # as)) \<le> right c \<and> right c < right (hd (a # as))" using trim xr(7) by simp
    from "1.IH"(3) [OF trim(1,2) refl trim(3) "1.prems"(1) xr(4) this] obtain rs where
      rs: "subtract_loop region (a # as) cs (right c) t b = region @ rs" "row t b rs"
      "\<forall>x. in_row rs x \<longleftrightarrow> in_row (a # as) x \<and> right c \<le> x \<and> \<not> in_row cs x"
      "\<forall>r \<in> set rs. right c \<le> left r" by blast
    have "in_row rs x \<longleftrightarrow> in_row (a # as) x \<and> l \<le> x \<and> \<not> in_row (c # cs) x" for x
      using spec [OF rs(3), of x] off_c [of x] off_a [of x] trim xr(8)
      by (cases "in_row as x"; cases "in_row cs x"; simp; (linarith | auto))
    moreover have "\<forall>r \<in> set rs. l \<le> left r" using rs(4) trim by force
    moreover have "subtract_loop region (a # as) (c # cs) l t b = region @ rs" using rs(1) trim by simp
    ultimately show ?thesis using rs(2) by blast
  next
    case cut
    let ?n = "mk_rect l t (left c) b"
    from "1.IH"(4) [OF cut(1,2,3) refl refl cut(4) xr(3) "1.prems"(2) nxt] obtain rs where
      rs: "subtract_loop (region @ [?n]) as (c # cs) (next_left as (right c)) t b = (region @ [?n]) @ rs"
      "row t b rs" "\<forall>x. in_row rs x \<longleftrightarrow> in_row as x \<and> next_left as (right c) \<le> x \<and> \<not> in_row (c # cs) x"
      "\<forall>r \<in> set rs. next_left as (right c) \<le> left r" by blast
    have lo: "\<forall>r \<in> set rs. right a < left r" by (rule low [OF rs(4)]) (use rs(1) in simp)
    have "in_row (?n # rs) x \<longleftrightarrow> in_row (a # as) x \<and> l \<le> x \<and> \<not> in_row (c # cs) x" for x
      using spec [OF rs(3), of x] from_next [of x "right c"] off_a [of x] off_c [of x] cut xr(6,7,8)
      by (cases "in_row as x"; cases "in_row cs x"; simp; (linarith | auto))
    moreover have "row t b (?n # rs)" "\<forall>r \<in> set (?n # rs). l \<le> left r"
      using rs(2) lo cut xr(8) by fastforce+
    moreover have "subtract_loop region (a # as) (c # cs) l t b = region @ (?n # rs)"
      using rs(1) cut by simp
    ultimately show ?thesis by blast
  next
    case split
    let ?n = "mk_rect l t (left c) b"
    have "left (hd (a # as)) \<le> right c \<and> right c < right (hd (a # as))" using split xr(6,7) by simp
    from "1.IH"(5) [OF split(1,2,3) refl refl split(4) "1.prems"(1) xr(4) this] obtain rs where
      rs: "subtract_loop (region @ [?n]) (a # as) cs (right c) t b = (region @ [?n]) @ rs"
      "row t b rs" "\<forall>x. in_row rs x \<longleftrightarrow> in_row (a # as) x \<and> right c \<le> x \<and> \<not> in_row cs x"
      "\<forall>r \<in> set rs. right c \<le> left r" by blast
    have "in_row (?n # rs) x \<longleftrightarrow> in_row (a # as) x \<and> l \<le> x \<and> \<not> in_row (c # cs) x" for x
      using spec [OF rs(3), of x] off_a [of x] off_c [of x] split xr(6,7,8)
      by (cases "in_row as x"; cases "in_row cs x"; simp; (linarith | auto))
    moreover have "row t b (?n # rs)" "\<forall>r \<in> set (?n # rs). l \<le> left r"
      using rs(2,4) split xr(6) by fastforce+
    moreover have "subtract_loop region (a # as) (c # cs) l t b = region @ (?n # rs)"
      using rs(1) split by simp
    ultimately show ?thesis by blast
  next
    case keep
    let ?n = "mk_rect l t (right a) b"
    have "(if l < right a then region @ [?n] else region) = region @ [?n]" using xr(8) by simp
    from "1.IH"(6) [OF keep refl xr(3) "1.prems"(2) nxt, unfolded this] obtain rs where
      rs: "subtract_loop (region @ [?n]) as (c # cs) (next_left as l) t b = (region @ [?n]) @ rs"
      "row t b rs" "\<forall>x. in_row rs x \<longleftrightarrow> in_row as x \<and> next_left as l \<le> x \<and> \<not> in_row (c # cs) x"
      "\<forall>r \<in> set rs. next_left as l \<le> left r" by blast
    have lo: "\<forall>r \<in> set rs. right a < left r" by (rule low [OF rs(4)]) (use rs(1) in simp)
    have "in_row (?n # rs) x \<longleftrightarrow> in_row (a # as) x \<and> l \<le> x \<and> \<not> in_row (c # cs) x" for x
      using spec [OF rs(3), of x] from_next [of x l] off_a [of x] off_c [of x] keep xr(6,7,8)
      by (cases "in_row as x"; cases "in_row cs x"; simp; (linarith | auto))
    moreover have "row t b (?n # rs)" "\<forall>r \<in> set (?n # rs). l \<le> left r"
      using rs(2) lo xr(8) by fastforce+
    moreover have "subtract_loop region (a # as) (c # cs) l t b = region @ (?n # rs)"
      using rs(1) keep xr(8) by simp
    ultimately show ?thesis by blast
  qed
next
  case (2 region a as l t b)
  let ?n = "mk_rect l t (right a) b"
  have xr: "\<forall>s \<in> set as. right a < left s" "xrow as" "left a \<le> l" "l < right a" using 2 by simp_all
  have nxt: "as \<noteq> [] \<Longrightarrow> left (hd as) \<le> next_left as l \<and> next_left as l < right (hd as) \<and> right a < next_left as l"
    using xr by (cases as) (simp_all add: next_left_def)
  from 2 nxt xr obtain rs where rs: "subtract_loop (region @ [?n]) as [] (next_left as l) t b = (region @ [?n]) @ rs"
    "row t b rs" "\<forall>x. in_row rs x \<longleftrightarrow> in_row as x \<and> next_left as l \<le> x"
    "\<forall>r \<in> set rs. next_left as l \<le> left r" by auto
  have fn: "in_row as x \<and> next_left as l \<le> x \<longleftrightarrow> in_row as x" for x
    using xr by (cases as) (auto simp: next_left_def in_row_def)
  have lo: "\<forall>r \<in> set rs. right a < left r"
  proof (cases "as = []")
    case True
    with rs(1) show ?thesis by simp
  next
    case False
    with rs(4) nxt show ?thesis by force
  qed
  have "in_row (?n # rs) x \<longleftrightarrow> in_row (a # as) x \<and> l \<le> x \<and> \<not> in_row [] x" for x
  proof -
    have off: "\<not> in_row as x" if "x \<le> right a" using that xr(1) by (force simp: in_row_def)
    show ?thesis using spec [OF rs(3), of x] fn [of x] off xr(3,4)
      by (cases "in_row as x"; simp; (linarith | auto))
  qed
  moreover have "row t b (?n # rs)" "\<forall>r \<in> set (?n # rs). l \<le> left r"
    using rs(2) lo xr(4) by fastforce+
  moreover have "subtract_loop region (a # as) [] l t b = region @ (?n # rs)" using rs(1) by simp
  ultimately show ?case by blast
qed auto

section \<open>The three interpretations\<close>

interpretation union: band_op REGION_UnionO "Some REGION_UnionNonO" "Some REGION_UnionNonO" "(\<or>)"
proof unfold_locales
  show "\<exists>rs. REGION_UnionO out as cs t b = out @ rs \<and> row t b rs
      \<and> (\<forall>x. in_row rs x \<longleftrightarrow> in_row as x \<or> in_row cs x)"
    if "xrow as" "xrow cs" "t < b" "\<forall>r \<in> set out. bottom r \<le> t" for as cs t b out
    using UnionO_row [OF that, of "[]"] by simp
  show "\<exists>rs. call_nonoverlap (Some REGION_UnionNonO) out as t b = out @ rs \<and> row t b rs
      \<and> (\<forall>x. in_row rs x \<longleftrightarrow> in_row as x \<or> False)" if "xrow as" for as out t b
    using NonO_row [OF that] in_row_NonO by (simp add: call_nonoverlap_def UnionNonO_eq)
  show "\<exists>rs. call_nonoverlap (Some REGION_UnionNonO) out cs t b = out @ rs \<and> row t b rs
      \<and> (\<forall>x. in_row rs x \<longleftrightarrow> False \<or> in_row cs x)" if "xrow cs" for cs out t b
    using NonO_row [OF that] in_row_NonO by (simp add: call_nonoverlap_def UnionNonO_eq)
qed simp

interpretation intersect: band_op REGION_IntersectO None None "(\<and>)"
proof unfold_locales
  show "\<exists>rs. REGION_IntersectO out as cs t b = out @ rs \<and> row t b rs
      \<and> (\<forall>x. in_row rs x \<longleftrightarrow> in_row as x \<and> in_row cs x)"
    if "xrow as" "xrow cs" for as cs t b out
    using IntersectO_row [OF that, of out t b] by blast
qed (auto simp: call_nonoverlap_def intro!: exI [of _ "[]"])

interpretation subtract: band_op REGION_SubtractO "Some REGION_SubtractNonO1" None "\<lambda>u v. u \<and> \<not> v"
proof unfold_locales
  show "\<exists>rs. REGION_SubtractO out as cs t b = out @ rs \<and> row t b rs
      \<and> (\<forall>x. in_row rs x \<longleftrightarrow> in_row as x \<and> \<not> in_row cs x)"
    if "xrow as" "xrow cs" "as \<noteq> []" for as cs t b out
  proof -
    from that(1,3) have first: "left (hd as) \<le> left (hd as) \<and> left (hd as) < right (hd as)"
      by (cases as) simp_all
    have "left (hd as) \<le> x" if "in_row as x" for x
      using that \<open>xrow as\<close> by (cases as) (fastforce simp: in_row_def)+
    with subtract_loop_row [OF that(1,2) first, of out t b] show ?thesis
      unfolding REGION_SubtractO_def by blast
  qed
  show "\<exists>rs. call_nonoverlap (Some REGION_SubtractNonO1) out as t b = out @ rs \<and> row t b rs
      \<and> (\<forall>x. in_row rs x \<longleftrightarrow> in_row as x \<and> \<not> False)" if "xrow as" for as out t b
    using NonO_row [OF that] in_row_NonO by (simp add: call_nonoverlap_def SubtractNonO1_eq)
qed (auto simp: call_nonoverlap_def intro!: exI [of _ "[]"])

end
