(* ===== verification/MG_Generators.thy ===== *)
theory MG_Generators
  imports MG_Rect "HOL-Library.Signed_Division"
begin

text \<open>
  The generators of \<open>src/newgdi/generators.c\<close>: line clipper, line, circle and ellipse. A
  callback with its \<open>void*\<close> context is a function that threads the context. C's \<open>/\<close> is
  \<open>sdiv\<close>, its \<open>%\<close> is \<open>smod\<close> and \<open>n >> 6\<close> is the floor of \<open>n / 64\<close>.
\<close>

section \<open>The line clipper\<close>

text \<open>An out code is the four flags \<open>OC_LEFT\<close>, \<open>OC_RIGHT\<close>, \<open>OC_TOP\<close>, \<open>OC_BOTTOM\<close>.\<close>

record outcode =
  OC_LEFT :: bool
  OC_RIGHT :: bool
  OC_TOP :: bool
  OC_BOTTOM :: bool

definition outcode_of :: "RECT \<Rightarrow> int \<Rightarrow> int \<Rightarrow> outcode" where
  "outcode_of cliprc xx yy =
     \<lparr>OC_LEFT = xx < left cliprc, OC_RIGHT = \<not> xx < left cliprc \<and> xx \<ge> right cliprc,
      OC_TOP = yy < top cliprc, OC_BOTTOM = \<not> yy < top cliprc \<and> yy \<ge> bottom cliprc\<rparr>"

definition oc_or_zero :: "outcode \<Rightarrow> outcode \<Rightarrow> bool" where
  "oc_or_zero a b \<longleftrightarrow> \<not> (OC_LEFT a \<or> OC_LEFT b) \<and> \<not> (OC_RIGHT a \<or> OC_RIGHT b)
     \<and> \<not> (OC_TOP a \<or> OC_TOP b) \<and> \<not> (OC_BOTTOM a \<or> OC_BOTTOM b)"

definition oc_and_zero :: "outcode \<Rightarrow> outcode \<Rightarrow> bool" where
  "oc_and_zero a b \<longleftrightarrow> \<not> (OC_LEFT a \<and> OC_LEFT b) \<and> \<not> (OC_RIGHT a \<and> OC_RIGHT b)
     \<and> \<not> (OC_TOP a \<and> OC_TOP b) \<and> \<not> (OC_BOTTOM a \<and> OC_BOTTOM b)"

definition FloorDiv :: "int \<Rightarrow> int \<Rightarrow> int" where
  "FloorDiv a b =
     (if b > 0 then
        (if a > 0 then a sdiv b
         else let fl = - ((- a) sdiv b) in if (- a) smod b \<noteq> 0 then fl - 1 else fl)
      else
        (if a > 0 then
           let fl = - (a sdiv (- b)) in if a smod (- b) \<noteq> 0 then fl - 1 else fl
         else (- a) sdiv (- b)))"

definition CeilDiv :: "int \<Rightarrow> int \<Rightarrow> int" where
  "CeilDiv a b = (if b > 0 then FloorDiv (a - 1) b + 1 else FloorDiv (- a - 1) (- b) + 1)"

text \<open>The segment from \<open>(sx0, sy0)\<close> to \<open>(sx1, sy1)\<close>, the four in-out parameters.\<close>

record segment =
  sx0 :: int
  sy0 :: int
  sx1 :: int
  sy1 :: int

text \<open>The new end point on the edge that \<open>code\<close> names, from the original segment \<open>s\<close>.\<close>

definition clip_point :: "RECT \<Rightarrow> segment \<Rightarrow> outcode \<Rightarrow> int \<times> int" where
  "clip_point cliprc s code =
     (let dx = sx1 s - sx0 s; dy = sy1 s - sy0 s;
          xmajor = (\<bar>dx\<bar> > \<bar>dy\<bar>);
          slope = ((dx \<ge> 0 \<and> dy \<ge> 0) \<or> (dx < 0 \<and> dy < 0))
      in if OC_LEFT code then
           let x = left cliprc
           in (x, if xmajor then sy0 s + FloorDiv (dy * (x - sx0 s) * 2 + dx) (2 * dx)
                  else if slope then sy0 s + CeilDiv (dy * ((x - sx0 s) * 2 - 1)) (2 * dx)
                  else sy0 s + FloorDiv (dy * ((x - sx0 s) * 2 - 1)) (2 * dx))
         else if OC_RIGHT code then
           let x = right cliprc - 1
           in (x, if xmajor then sy0 s + FloorDiv (dy * (x - sx0 s) * 2 + dx) (2 * dx)
                  else if slope then sy0 s + CeilDiv (dy * ((x - sx0 s) * 2 + 1)) (2 * dx) - 1
                  else sy0 s + FloorDiv (dy * ((x - sx0 s) * 2 + 1)) (2 * dx) + 1)
         else if OC_TOP code then
           let y = top cliprc
           in (if xmajor then
                 (if slope then sx0 s + CeilDiv (dx * ((y - sy0 s) * 2 - 1)) (2 * dy)
                  else sx0 s + FloorDiv (dx * ((y - sy0 s) * 2 - 1)) (2 * dy))
               else sx0 s + FloorDiv (dx * (y - sy0 s) * 2 + dy) (2 * dy), y)
         else
           let y = bottom cliprc - 1
           in (if xmajor then
                 (if slope then sx0 s + CeilDiv (dx * ((y - sy0 s) * 2 + 1)) (2 * dy) - 1
                  else sx0 s + FloorDiv (dx * ((y - sy0 s) * 2 + 1)) (2 * dy) + 1)
               else sx0 s + FloorDiv (dx * (y - sy0 s) * 2 + dy) (2 * dy), y))"

text \<open>The \<open>while (TRUE)\<close> loop; \<open>s\<close> is the original segment, \<open>c\<close> the current one.\<close>

partial_function (option) clip_loop ::
  "RECT \<Rightarrow> segment \<Rightarrow> segment \<Rightarrow> outcode \<Rightarrow> outcode \<Rightarrow> (bool \<times> segment) option" where
  "clip_loop cliprc s c fst_code last_code =
     (let at_first = \<not> oc_or_zero fst_code fst_code;
          (x, y) = clip_point cliprc s (if at_first then fst_code else last_code);
          c' = (if at_first then c\<lparr>sx0 := x, sy0 := y\<rparr> else c\<lparr>sx1 := x, sy1 := y\<rparr>);
          fst_code' = (if at_first then outcode_of cliprc x y else fst_code);
          last_code' = (if at_first then last_code else outcode_of cliprc x y)
      in if \<not> oc_and_zero fst_code' last_code' then Some (False, s)
         else if oc_or_zero fst_code' last_code' then Some (True, c')
         else clip_loop cliprc s c' fst_code' last_code')"

definition clip_vertical :: "RECT \<Rightarrow> segment \<Rightarrow> bool \<times> segment" where
  "clip_vertical cliprc s =
     (let sy = (if sy1 s > sy0 s then sy0 s else sy1 s);
          ey = (if sy1 s > sy0 s then sy1 s else sy0 s)
      in if sx0 s \<ge> right cliprc \<or> sy \<ge> bottom cliprc \<or> sx0 s < left cliprc \<or> ey < top cliprc
         then (False, s)
         else if sx0 s \<ge> left cliprc \<and> sy \<ge> top cliprc \<and> sx0 s < right cliprc \<and> ey < bottom cliprc
         then (True, s)
         else
           let sy' = (if sy < top cliprc then top cliprc else sy);
               ey' = (if ey \<ge> bottom cliprc then bottom cliprc - 1 else ey)
           in if ey' < sy' then (False, s) else (True, s\<lparr>sy0 := sy', sy1 := ey'\<rparr>))"

definition clip_horizontal :: "RECT \<Rightarrow> segment \<Rightarrow> bool \<times> segment" where
  "clip_horizontal cliprc s =
     (let sx = (if sx1 s > sx0 s then sx0 s else sx1 s);
          ex = (if sx1 s > sx0 s then sx1 s else sx0 s)
      in if sx \<ge> right cliprc \<or> sy0 s \<ge> bottom cliprc \<or> ex < left cliprc \<or> sy0 s < top cliprc
         then (False, s)
         else if sx \<ge> left cliprc \<and> sy0 s \<ge> top cliprc \<and> ex < right cliprc \<and> sy0 s < bottom cliprc
         then (True, s)
         else
           let sx' = (if sx < left cliprc then left cliprc else sx);
               ex' = (if ex \<ge> right cliprc then right cliprc - 1 else ex)
           in if ex' < sx' then (False, s) else (True, s\<lparr>sx0 := sx', sx1 := ex'\<rparr>))"

definition LineClipper :: "RECT \<Rightarrow> segment \<Rightarrow> (bool \<times> segment) option" where
  "LineClipper cliprc s =
     (if sx0 s = sx1 s \<and> sy0 s = sy1 s then Some (PtInRect cliprc (sx0 s) (sy0 s), s)
      else if sx0 s = sx1 s then Some (clip_vertical cliprc s)
      else if sy0 s = sy1 s then Some (clip_horizontal cliprc s)
      else
        let fst_code = outcode_of cliprc (sx0 s) (sy0 s);
            last_code = outcode_of cliprc (sx1 s) (sy1 s)
        in if oc_or_zero fst_code last_code then Some (True, s)
           else if \<not> oc_and_zero fst_code last_code then Some (False, s)
           else clip_loop cliprc s s fst_code last_code)"

section \<open>The line generator\<close>

function walk_straight :: "('c \<Rightarrow> int \<Rightarrow> 'c) \<Rightarrow> 'c \<Rightarrow> int \<Rightarrow> int \<Rightarrow> 'c" where
  "walk_straight cb ctx v1 v2 =
     (if v1 = v2 then ctx
      else let dir = (if v2 > v1 then 1 else - 1) in walk_straight cb (cb ctx dir) (v1 + dir) v2)"
  by pat_completeness auto
termination by (relation "measure (\<lambda>(cb, ctx, v1, v2). nat \<bar>v2 - v1\<bar>)") (auto split: if_splits)

declare walk_straight.simps [simp del]

text \<open>
  The two slanted loops are one loop over the major coordinate \<open>u\<close>: \<open>d\<close> is the larger
  delta, \<open>e\<close> the other, and \<open>turn\<close> says whether the minor coordinate moves too.
\<close>

function walk_slanted ::
  "('c \<Rightarrow> bool \<Rightarrow> 'c) \<Rightarrow> 'c \<Rightarrow> int \<Rightarrow> int \<Rightarrow> int \<Rightarrow> int \<Rightarrow> int \<Rightarrow> 'c" where
  "walk_slanted cb ctx u1 u2 r d e =
     (if u1 = u2 then ctx
      else let u1' = u1 + (if u2 > u1 then 1 else - 1); r' = r + e
           in if r' \<ge> d then walk_slanted cb (cb ctx True) u1' u2 (r' - d) d e
              else walk_slanted cb (cb ctx False) u1' u2 r' d e)"
  by pat_completeness auto
termination by (relation "measure (\<lambda>(cb, ctx, u1, u2, r, d, e). nat \<bar>u2 - u1\<bar>)") (auto split: if_splits)

declare walk_slanted.simps [simp del]

definition LineGenerator ::
  "('c \<Rightarrow> int \<Rightarrow> int \<Rightarrow> 'c) \<Rightarrow> 'c \<Rightarrow> int \<Rightarrow> int \<Rightarrow> int \<Rightarrow> int \<Rightarrow> 'c" where
  "LineGenerator cb ctx0 x1 y1 x2 y2 =
     (let ctx = cb ctx0 0 0;
          xdelta = \<bar>x2 - x1\<bar>; ydelta = \<bar>y2 - y1\<bar>;
          xinc = (if x2 > x1 then 1 else - 1); yinc = (if y2 > y1 then 1 else - 1)
      in if x1 = x2 \<and> y1 = y2 then ctx
         else if x1 = x2 then walk_straight (\<lambda>c dir. cb c 0 dir) ctx y1 y2
         else if y1 = y2 then walk_straight (\<lambda>c dir. cb c dir 0) ctx x1 x2
         else if xdelta \<ge> ydelta then
           walk_slanted (\<lambda>c turn. cb c xinc (if turn then yinc else 0)) ctx x1 x2
             (xdelta div 2) xdelta ydelta
         else
           walk_slanted (\<lambda>c turn. cb c (if turn then xinc else 0) yinc) ctx y1 y2
             (ydelta div 2) ydelta xdelta)"

section \<open>The circle and ellipse generators\<close>

type_synonym 'c span_cb = "'c \<Rightarrow> int \<Rightarrow> int \<Rightarrow> int \<Rightarrow> 'c"

definition circle_spans :: "'c span_cb \<Rightarrow> 'c \<Rightarrow> int \<Rightarrow> int \<Rightarrow> int \<Rightarrow> int \<Rightarrow> 'c" where
  "circle_spans cb c0 x y cx cy =
     (let c1 = cb c0 (x - cx) (x + cx) (y + cy);
          c2 = (if cy \<noteq> 0 then cb c1 (x - cx) (x + cx) (y - cy) else c1)
      in if cx \<noteq> cy then
           let c3 = cb c2 (x - cy) (x + cy) (y + cx)
           in if cx \<noteq> 0 then cb c3 (x - cy) (x + cy) (y - cx) else c3
         else c2)"

function circle_loop ::
  "'c span_cb \<Rightarrow> 'c \<Rightarrow> int \<Rightarrow> int \<Rightarrow> int \<Rightarrow> int \<Rightarrow> int \<Rightarrow> int \<Rightarrow> int \<Rightarrow> 'c" where
  "circle_loop cb c x y cx cy df d_e d_se =
     (let c' = circle_spans cb c x y cx cy;
          cy' = (if df < 0 then cy else cy - 1);
          df' = (if df < 0 then df + d_e else df + d_se);
          d_se' = (if df < 0 then d_se + 2 else d_se + 4)
      in if cx + 1 \<le> cy' then circle_loop cb c' x y (cx + 1) cy' df' (d_e + 2) d_se' else c')"
  by pat_completeness auto
termination
  by (relation "measure (\<lambda>(cb, c, x, y, cx, cy, df, d_e, d_se). nat (cy - cx))")
    (auto split: if_splits)

declare circle_loop.simps [simp del]

definition CircleGenerator :: "'c span_cb \<Rightarrow> 'c \<Rightarrow> int \<Rightarrow> int \<Rightarrow> int \<Rightarrow> 'c" where
  "CircleGenerator cb c x y r = circle_loop cb c x y 0 r (1 - r) 3 (- 2 * r + 5)"

text \<open>The ellipse has one loop for \<open>rx > ry\<close> and one for the other case.\<close>

definition shr6 :: "int \<Rightarrow> int" where
  "shr6 n = n div 64"

definition ellipse_wide_spans ::
  "'c span_cb \<Rightarrow> 'c \<Rightarrow> int \<Rightarrow> int \<Rightarrow> int \<times> int \<times> int \<times> int \<Rightarrow> int \<times> int \<times> int \<times> int \<Rightarrow> 'c" where
  "ellipse_wide_spans cb c0 x y old new =
     (case old of (oh, oi, oj, ok) \<Rightarrow> case new of (h, i, j, k) \<Rightarrow>
        let c1 = (if (h \<noteq> oh \<or> k \<noteq> ok) \<and> h < oi then
                    let c = cb c0 (x - h) (x + h) (y + k)
                    in if k \<noteq> 0 then cb c (x - h) (x + h) (y - k) else c
                  else c0)
        in if (i \<noteq> oi \<or> j \<noteq> oj) \<and> h < i then
             let c = cb c1 (x - i) (x + i) (y + j)
             in if j \<noteq> 0 then cb c (x - i) (x + i) (y - j) else c
           else c1)"

definition ellipse_tall_spans ::
  "'c span_cb \<Rightarrow> 'c \<Rightarrow> int \<Rightarrow> int \<Rightarrow> int \<times> int \<times> int \<times> int \<Rightarrow> int \<times> int \<times> int \<times> int \<Rightarrow> 'c" where
  "ellipse_tall_spans cb c0 x y old new =
     (case old of (oh, oi, oj, ok) \<Rightarrow> case new of (h, i, j, k) \<Rightarrow>
        let c1 = (if (j \<noteq> oj \<or> i \<noteq> oi) \<and> h < i then
                    let c = cb c0 (x - j) (x + j) (y + i)
                    in if i \<noteq> 0 then cb c (x - j) (x + j) (y - i) else c
                  else c0)
        in if (k \<noteq> ok \<or> h \<noteq> oh) \<and> h < oi then
             let c = cb c1 (x - k) (x + k) (y + h)
             in if h \<noteq> 0 then cb c (x - k) (x + k) (y - h) else c
           else c1)"

text \<open>
  One loop for both cases: \<open>rm\<close> is the radius the fixed-point walk runs on (the larger
  one), \<open>rn\<close> the other, and \<open>spans\<close> the callback part of the case.
\<close>

partial_function (option) ellipse_loop ::
  "('c \<Rightarrow> int \<times> int \<times> int \<times> int \<Rightarrow> int \<times> int \<times> int \<times> int \<Rightarrow> 'c) \<Rightarrow> 'c \<Rightarrow> int \<Rightarrow> int \<Rightarrow> int \<Rightarrow> int
     \<Rightarrow> int \<times> int \<times> int \<times> int \<Rightarrow> 'c option" where
  "ellipse_loop spans c rm rn ix iy old =
     (let h = shr6 (ix + 32); i = shr6 (iy + 32);
          j = (h * rn) sdiv rm; k = (i * rn) sdiv rm;
          c' = spans c old (h, i, j, k);
          ix' = ix + iy sdiv rm;
          iy' = iy - ix' sdiv rm
      in if i > h then ellipse_loop spans c' rm rn ix' iy' (h, i, j, k) else Some c')"

definition EllipseGenerator :: "'c span_cb \<Rightarrow> 'c \<Rightarrow> int \<Rightarrow> int \<Rightarrow> int \<Rightarrow> int \<Rightarrow> 'c option" where
  "EllipseGenerator cb c x y rx0 ry0 =
     (let rx = (if rx0 < 1 then 1 else rx0); ry = (if ry0 < 1 then 1 else ry0);
          old = (65535, 65535, 65535, 65535)
      in if rx > ry
         then ellipse_loop (\<lambda>c. ellipse_wide_spans cb c x y) c rx ry 0 (rx * 64) old
         else ellipse_loop (\<lambda>c. ellipse_tall_spans cb c x y) c ry rx 0 (ry * 64) old)"

section \<open>Division\<close>

lemma sdiv_pos: "0 \<le> a \<Longrightarrow> 0 < b \<Longrightarrow> a sdiv b = (a div b :: int)"
  and smod_pos: "0 \<le> a \<Longrightarrow> 0 < b \<Longrightarrow> a smod b = (a mod b :: int)"
  by (simp_all add: signed_divide_int_def signed_modulo_int_def sgn_if)

lemma div_neg_exact: "0 < b \<Longrightarrow> (- a) div b = (if a mod b \<noteq> 0 then - (a div b) - 1 else - (a div b))"
  for a b :: int
  by (simp add: zdiv_zminus1_eq_if)

lemma FloorDiv_div: "b \<noteq> 0 \<Longrightarrow> FloorDiv a b = a div b"
proof -
  assume b: "b \<noteq> 0"
  have pos: "FloorDiv a b = a div b" if "0 < b" for a b
  proof (cases "0 < a")
    case False
    define n where "n = - a"
    have "a = - n" "0 \<le> n" using False by (simp_all add: n_def)
    with that div_neg_exact [of b n] show ?thesis
      by (simp add: FloorDiv_def sdiv_pos smod_pos Let_def)
  qed (use that in \<open>simp add: FloorDiv_def sdiv_pos\<close>)
  show ?thesis
  proof (cases "0 < b")
    case False
    with b have n: "0 < - b" by simp
    define d where "d = - b"
    have d: "b = - d" "0 < d" using n by (simp_all add: d_def)
    have "FloorDiv a b = (- a) div d"
    proof (cases "0 < a")
      case True
      with d div_neg_exact [OF d(2), of a] show ?thesis
        by (simp add: FloorDiv_def sdiv_pos smod_pos Let_def)
    next
      case False
      with d have "FloorDiv a b = (- a) sdiv d" by (simp add: FloorDiv_def)
      with False d show ?thesis using sdiv_pos [of "- a" d] by linarith
    qed
    then show ?thesis using d by (simp add: div_minus_right)
  qed (rule pos)
qed

text \<open>\<open>FloorDiv\<close> and \<open>CeilDiv\<close> round towards minus and plus infinity for every
  non-zero divisor, also where C's truncating division does not.\<close>

theorem FloorDiv_CeilDiv_round:
  assumes "b \<noteq> 0"
  shows "FloorDiv a b = a div b \<and> CeilDiv a b = - ((- a) div b)"
proof -
  have up: "(c - 1) div d + 1 = - ((- c) div d)" if "0 < d" for c d :: int
  proof -
    have "(c - 1) div d + 1 = (c + (d - 1)) div d"
    proof -
      have "c + (d - 1) = (c - 1) + d" by simp
      then show ?thesis using div_add_self2 [of d "c - 1"] that by (simp only:)
    qed
    moreover have "- ((- c) div d) = (if c mod d = 0 then c div d else c div d + 1)"
      using div_neg_exact [OF that, of c] by simp
    moreover have "(c + (d - 1)) div d = (if c mod d = 0 then c div d else c div d + 1)"
    proof -
      define q r where "q = c div d" and "r = c mod d"
      have c: "c = d * q + r" by (simp add: q_def r_def)
      have r: "0 \<le> r" "r < d" using that by (simp_all add: r_def)
      have "(c + (d - 1)) div d = q + (r + (d - 1)) div d" using that by (simp add: c add.assoc)
      moreover have "(r + (d - 1)) div d = (if r = 0 then 0 else 1)"
        using r by (cases "r = 0") (simp_all add: int_div_pos_eq [of _ d 1 "r - 1"])
      ultimately show ?thesis by (simp add: q_def r_def)
    qed
    ultimately show ?thesis by simp
  qed
  show ?thesis
  proof (cases "0 < b")
    case True
    with up [OF this] assms show ?thesis by (simp add: CeilDiv_def FloorDiv_div)
  next
    case False
    then have "0 < - b" using assms by simp
    from up [OF this, of "- a"] False assms show ?thesis
      by (simp add: CeilDiv_def FloorDiv_div) (metis div_minus_minus minus_minus)
  qed
qed

theorem FloorDiv_CeilDiv_round_witness:
  "FloorDiv (-7) 2 = (-7) div 2 \<and> CeilDiv (-7) 2 = - (7 div 2) \<and> FloorDiv (-7) 2 = -4"
  using FloorDiv_CeilDiv_round [of 2 "-7"] by simp

section \<open>Lines\<close>

lemma upt_Suc_shift: "[0..<Suc n] = 0 # map Suc [0..<n]"
  by (simp add: upt_conv_Cons map_Suc_upt)

lemma walk_straight_eq:
  "walk_straight cb ctx v1 v2 =
     foldl cb ctx (replicate (nat \<bar>v2 - v1\<bar>) (if v2 > v1 then 1 else - 1))"
proof (induction cb ctx v1 v2 rule: walk_straight.induct)
  case (1 cb ctx v1 v2)
  show ?case
  proof (cases "v1 = v2")
    case False
    let ?d = "if v2 > v1 then 1 else - 1 :: int"
    have n: "nat \<bar>v2 - v1\<bar> = Suc (nat \<bar>v2 - (v1 + ?d)\<bar>)" using False by auto
    have "replicate (nat \<bar>v2 - (v1 + ?d)\<bar>) (if v2 > v1 + ?d then 1 else - 1 :: int)
        = replicate (nat \<bar>v2 - (v1 + ?d)\<bar>) ?d"
      by (cases "v1 + ?d = v2") (use False in auto)
    then show ?thesis
      unfolding n using 1 [OF False refl] False by (simp add: walk_straight.simps [of cb ctx v1 v2] Let_def)
  qed (simp add: walk_straight.simps)
qed

lemma walk_slanted_eq:
  assumes "0 \<le> r" "r < d" "0 \<le> e" "e \<le> d"
  shows "walk_slanted cb ctx u1 u2 r d e =
    foldl cb ctx (map (\<lambda>k. (r + int (Suc k) * e) div d \<noteq> (r + int k * e) div d) [0..<nat \<bar>u2 - u1\<bar>])"
  using assms
proof (induction "nat \<bar>u2 - u1\<bar>" arbitrary: ctx u1 r)
  case 0
  then show ?case by (simp add: walk_slanted.simps)
next
  case (Suc n)
  let ?u = "u1 + (if u2 > u1 then 1 else - 1)"
  have n: "n = nat \<bar>u2 - ?u\<bar>" using Suc.hyps(2) by auto
  have ne: "u1 \<noteq> u2" using Suc.hyps(2) by auto
  have d: "0 < d" using Suc.prems by linarith
  define r' where "r' = (if r + e \<ge> d then r + e - d else r + e)"
  have r': "0 \<le> r'" "r' < d" using Suc.prems by (auto simp: r'_def)
  have q: "(r + e + m * e) div d = (if r + e \<ge> d then 1 else 0) + (r' + m * e) div d" for m
  proof (cases "r + e \<ge> d")
    case True
    then have "r + e + m * e = (r' + m * e) + d" by (simp add: r'_def)
    with True d show ?thesis using div_add_self2 [of d "r' + m * e"] by (simp only: if_True)
  qed (simp add: r'_def)
  have first: "(r + int (Suc 0) * e) div d \<noteq> r div d \<longleftrightarrow> r + e \<ge> d"
    using q [of 0] r' Suc.prems by simp
  have shift: "(r + int (Suc (Suc k)) * e) div d \<noteq> (r + int (Suc k) * e) div d \<longleftrightarrow>
      (r' + int (Suc k) * e) div d \<noteq> (r' + int k * e) div d" for k
    using q [of "int (Suc k)"] q [of "int k"] by (simp add: algebra_simps)
  have "walk_slanted cb ctx u1 u2 r d e = walk_slanted cb (cb ctx (r + e \<ge> d)) ?u u2 r' d e"
    using ne by (simp add: walk_slanted.simps [of cb ctx u1] Let_def r'_def)
  also have "\<dots> = foldl cb (cb ctx (r + e \<ge> d))
      (map (\<lambda>k. (r' + int (Suc k) * e) div d \<noteq> (r' + int k * e) div d) [0..<n])"
    using Suc.hyps(1) [OF n r' Suc.prems(3,4)] n by simp
  finally show ?case
    unfolding Suc.hyps(2) [symmetric] upt_Suc_shift using first shift
    by (simp add: o_def del: upt_Suc of_nat_Suc)
qed

text \<open>The point of the ideal line at step \<open>k\<close> of the major coordinate, rounded.\<close>

definition line_point :: "int \<Rightarrow> int \<Rightarrow> int \<Rightarrow> int \<Rightarrow> nat \<Rightarrow> int \<times> int" where
  "line_point x1 y1 x2 y2 k =
     (let dx = \<bar>x2 - x1\<bar>; dy = \<bar>y2 - y1\<bar>;
          xinc = (if x2 > x1 then 1 else - 1); yinc = (if y2 > y1 then 1 else - 1)
      in if dx \<ge> dy then (x1 + xinc * int k, y1 + yinc * ((dx div 2 + int k * dy) div dx))
         else (x1 + xinc * ((dy div 2 + int k * dx) div dy), y1 + yinc * int k))"

definition line_steps :: "int \<Rightarrow> int \<Rightarrow> int \<Rightarrow> int \<Rightarrow> nat" where
  "line_steps x1 y1 x2 y2 = nat (max \<bar>x2 - x1\<bar> \<bar>y2 - y1\<bar>)"

lemma div_step: "0 \<le> e \<Longrightarrow> e \<le> d \<Longrightarrow> 0 < d \<Longrightarrow>
    (a + e) div d = (if (a + e) div d \<noteq> a div d then a div d + 1 else a div d)" for a :: int
proof -
  assume e: "0 \<le> e" "e \<le> d" "0 < d"
  have "a div d \<le> (a + e) div d" using e by (intro zdiv_mono1) auto
  moreover have "(a + e) div d \<le> (a + d) div d" using e by (intro zdiv_mono1) auto
  moreover have "(a + d) div d = a div d + 1" using e div_add_self2 [of d a] by simp
  ultimately show ?thesis by auto
qed

text \<open>the steps the generator reports are exactly those between successive rounded
  points of the ideal line, from its first end point to its last; in particular it stops after
  the larger delta of steps and lands on the last point.\<close>

theorem LineGenerator_ideal_line:
  shows "LineGenerator cb ctx x1 y1 x2 y2 =
      foldl (\<lambda>c k. cb c (fst (line_point x1 y1 x2 y2 (Suc k)) - fst (line_point x1 y1 x2 y2 k))
                      (snd (line_point x1 y1 x2 y2 (Suc k)) - snd (line_point x1 y1 x2 y2 k)))
        (cb ctx 0 0) [0..<line_steps x1 y1 x2 y2]
    \<and> line_point x1 y1 x2 y2 0 = (x1, y1)
    \<and> line_point x1 y1 x2 y2 (line_steps x1 y1 x2 y2) = (x2, y2)"
proof -
  have half: "(n div 2 + n * m) div n = m" if "0 < n" for n m :: int
    using that by (simp add: div_pos_pos_trivial)
  have zero: "n div 2 div n = 0" if "0 \<le> n" for n :: int
    using that by (cases "n = 0") (simp_all add: div_pos_pos_trivial)
  have start: "line_point x1 y1 x2 y2 0 = (x1, y1)"
    by (simp add: line_point_def Let_def zero)
  have last: "line_point x1 y1 x2 y2 (line_steps x1 y1 x2 y2) = (x2, y2)"
    using half [of "\<bar>x2 - x1\<bar>" "\<bar>y2 - y1\<bar>"] half [of "\<bar>y2 - y1\<bar>" "\<bar>x2 - x1\<bar>"]
    by (auto simp: line_point_def line_steps_def Let_def max_def abs_if split: if_splits)
  have slant: "yinc * ((h + int (Suc k) * e) div d) - yinc * ((h + int k * e) div d)
      = (if (h + int (Suc k) * e) div d \<noteq> (h + int k * e) div d then yinc else 0)"
    if "0 \<le> e" "e \<le> d" "0 < d" for h e d yinc :: int and k :: nat
  proof -
    have "h + int (Suc k) * e = (h + int k * e) + e" by (simp add: algebra_simps)
    then show ?thesis using div_step [OF that, of "h + int k * e"] by (auto simp: algebra_simps)
  qed
  have major: "s * int (Suc k) - s * int k = s" for s k by (simp add: algebra_simps)
  have minor: "(u + s * v) - (u + s * w) = s * v - s * w" for u s v w :: int by simp
  let ?P = "line_point x1 y1 x2 y2" and ?n = "line_steps x1 y1 x2 y2"
  let ?cb = "\<lambda>c k. cb c (fst (?P (Suc k)) - fst (?P k)) (snd (?P (Suc k)) - snd (?P k))"
  have straight: "replicate m d = map (\<lambda>_. d) [0..<m]" for m and d :: int
    by (simp add: map_replicate_const)
  consider "x1 = x2 \<and> y1 = y2" | "x1 = x2" "y1 \<noteq> y2" | "x1 \<noteq> x2" "y1 = y2"
    | "x1 \<noteq> x2" "y1 \<noteq> y2" "\<bar>y2 - y1\<bar> \<le> \<bar>x2 - x1\<bar>"
    | "x1 \<noteq> x2" "y1 \<noteq> y2" "\<bar>x2 - x1\<bar> < \<bar>y2 - y1\<bar>" by linarith
  then have "LineGenerator cb ctx x1 y1 x2 y2 = foldl ?cb (cb ctx 0 0) [0..<?n]"
  proof cases
    case 1
    then show ?thesis by (simp add: LineGenerator_def Let_def line_steps_def)
  next
    case 2
    then show ?thesis
      by (simp add: LineGenerator_def Let_def line_steps_def walk_straight_eq straight foldl_map
          line_point_def zero algebra_simps)
  next
    case 3
    then show ?thesis
      by (simp add: LineGenerator_def Let_def line_steps_def walk_straight_eq straight foldl_map
          line_point_def zero algebra_simps)
  next
    case 4
    define d e where "d = \<bar>x2 - x1\<bar>" and "e = \<bar>y2 - y1\<bar>"
    have de: "0 \<le> e" "e \<le> d" "0 < d" "0 \<le> d div 2" "d div 2 < d" using 4 by (auto simp: d_def e_def)
    have n: "?n = nat \<bar>x2 - x1\<bar>" using 4 by (simp add: line_steps_def)
    have P: "?P k = (x1 + (if x2 > x1 then 1 else - 1) * int k,
        y1 + (if y2 > y1 then 1 else - 1) * ((d div 2 + int k * e) div d))" for k
      using 4 by (simp add: line_point_def Let_def d_def e_def)
    have "LineGenerator cb ctx x1 y1 x2 y2 = walk_slanted (\<lambda>c turn. cb c (if x2 > x1 then 1 else - 1)
        (if turn then (if y2 > y1 then 1 else - 1) else 0)) (cb ctx 0 0) x1 x2 (d div 2) d e"
      using 4 by (simp add: LineGenerator_def Let_def d_def e_def)
    also have "\<dots> = foldl ?cb (cb ctx 0 0) [0..<?n]"
      unfolding walk_slanted_eq [OF de(4,5,1,2)] foldl_map n P fst_conv snd_conv minor major
        slant [OF de(1,2,3)] ..
    finally show ?thesis .
  next
    case 5
    define d e where "d = \<bar>y2 - y1\<bar>" and "e = \<bar>x2 - x1\<bar>"
    have de: "0 \<le> e" "e \<le> d" "0 < d" "0 \<le> d div 2" "d div 2 < d" using 5 by (auto simp: d_def e_def)
    have n: "?n = nat \<bar>y2 - y1\<bar>" using 5 by (simp add: line_steps_def)
    have P: "?P k = (x1 + (if x2 > x1 then 1 else - 1) * ((d div 2 + int k * e) div d),
        y1 + (if y2 > y1 then 1 else - 1) * int k)" for k
      using 5 by (simp add: line_point_def Let_def d_def e_def)
    have "LineGenerator cb ctx x1 y1 x2 y2 = walk_slanted (\<lambda>c turn. cb c
        (if turn then (if x2 > x1 then 1 else - 1) else 0) (if y2 > y1 then 1 else - 1))
        (cb ctx 0 0) y1 y2 (d div 2) d e"
      using 5 by (simp add: LineGenerator_def Let_def d_def e_def)
    also have "\<dots> = foldl ?cb (cb ctx 0 0) [0..<?n]"
      unfolding walk_slanted_eq [OF de(4,5,1,2)] foldl_map n P fst_conv snd_conv minor major
        slant [OF de(1,2,3)] ..
    finally show ?thesis .
  qed
  with start last show ?thesis by blast
qed

section \<open>Circles\<close>

text \<open>What a scan line \<open>(x1, x2, y')\<close> of the circle around \<open>(x, y)\<close> satisfies: it is centred
  on \<open>x\<close> and its ends are within half a pixel of the circle, measured by the squares.\<close>

definition circle_span_ok :: "int \<Rightarrow> int \<Rightarrow> int \<Rightarrow> int \<Rightarrow> int \<Rightarrow> int \<Rightarrow> bool" where
  "circle_span_ok x y r x1 x2 y' \<longleftrightarrow> x1 + x2 = 2 * x \<and> x1 \<le> x2 \<and> x2 - x \<le> r \<and> \<bar>y' - y\<bar> \<le> r
     \<and> \<bar>(x2 - x) * (x2 - x) + (y' - y) * (y' - y) - r * r\<bar> \<le> max (x2 - x) \<bar>y' - y\<bar>"

lemma circle_spans_inv:
  assumes cb: "\<And>c x1 x2 y'. P c \<Longrightarrow> circle_span_ok x y r x1 x2 y' \<Longrightarrow> P (cb c x1 x2 y')"
    and c: "P c" and b: "0 \<le> cx" "cx \<le> cy" "cy \<le> r"
    and near: "cx * cx + cy * cy - cy \<le> r * r" "r * r \<le> cx * cx + cy * cy + cy"
  shows "P (circle_spans cb c x y cx cy)"
proof -
  have "circle_span_ok x y r (x - cx) (x + cx) (y + cy)" "circle_span_ok x y r (x - cx) (x + cx) (y - cy)"
    "circle_span_ok x y r (x - cy) (x + cy) (y + cx)" "circle_span_ok x y r (x - cy) (x + cy) (y - cx)"
    using b near by (auto simp: circle_span_ok_def)
  then show ?thesis using c cb by (auto simp: circle_spans_def Let_def)
qed

lemma circle_loop_inv:
  assumes cb: "\<And>c x1 x2 y'. P c \<Longrightarrow> circle_span_ok x y r x1 x2 y' \<Longrightarrow> P (cb c x1 x2 y')"
    and "P c" "0 \<le> cx" "cx \<le> cy" "cy \<le> r"
    and "cx * cx + cy * cy - cy \<le> r * r" "r * r \<le> cx * cx + cy * cy + cy"
    and "df = (cx + 1) * (cx + 1) + cy * cy - cy - r * r"
    and "d_e = 2 * cx + 3" "d_se = 2 * (cx - cy) + 5"
  shows "P (circle_loop cb c x y cx cy df d_e d_se)"
  using assms(2-)
proof (induction "nat (cy - cx)" arbitrary: c cx cy df d_e d_se rule: less_induct)
  case less
  let ?c = "circle_spans cb c x y cx cy"
  let ?cy = "if df < 0 then cy else cy - 1"
  have P: "P ?c" by (rule circle_spans_inv [where P = P, OF cb less.prems(1-6)])
  show ?case
  proof (cases "cx + 1 \<le> ?cy")
    case False
    with P show ?thesis by (simp add: circle_loop.simps [of cb c] Let_def)
  next
    case True
    note sq = less.prems(5,6,7)
    have near: "(cx + 1) * (cx + 1) + ?cy * ?cy - ?cy \<le> r * r"
      "r * r \<le> (cx + 1) * (cx + 1) + ?cy * ?cy + ?cy"
      using sq True less.prems(2,3) by (auto simp: algebra_simps split: if_splits)
    have "P (circle_loop cb ?c x y (cx + 1) ?cy (if df < 0 then df + d_e else df + d_se) (d_e + 2)
        (if df < 0 then d_se + 2 else d_se + 4))"
      by (rule less.hyps [OF _ P _ True _ near])
        (use True less.prems in \<open>auto simp: algebra_simps split: if_splits\<close>)
    with True show ?thesis by (simp add: circle_loop.simps [of cb c] Let_def)
  qed
qed

lemma CircleGenerator_inv:
  assumes cb: "\<And>c x1 x2 y'. P c \<Longrightarrow> circle_span_ok x y r x1 x2 y' \<Longrightarrow> P (cb c x1 x2 y')"
    and c: "P c" and r: "0 \<le> r"
  shows "P (CircleGenerator cb c x y r)"
  unfolding CircleGenerator_def
  by (rule circle_loop_inv [where P = P and r = r, OF cb c]) (use r in \<open>auto simp: algebra_simps\<close>)

text \<open>Two callbacks that keep a relation between their contexts keep it over the generator.\<close>

lemma CircleGenerator_rel:
  assumes step: "\<And>c d x1 x2 y'. R c d \<Longrightarrow> R (f c x1 x2 y') (g d x1 x2 y')" and R: "R c d"
  shows "R (CircleGenerator f c x y r) (CircleGenerator g d x y r)"
proof -
  have spans: "R (circle_spans f c x y cx cy) (circle_spans g d x y cx cy)" if "R c d" for c d cx cy
    using that step by (auto simp: circle_spans_def Let_def)
  have "R (circle_loop f c x y cx cy df d_e d_se) (circle_loop g d x y cx cy df d_e d_se)"
    if "R c d" for cx cy df d_e d_se using that
  proof (induction "nat (cy - cx)" arbitrary: c d cx cy df d_e d_se rule: less_induct)
    case less
    have go: "cx + 1 \<le> k \<Longrightarrow> k \<le> cy \<Longrightarrow>
        R (circle_loop f (circle_spans f c x y cx cy) x y (cx + 1) k e1 e2 e3)
          (circle_loop g (circle_spans g d x y cx cy) x y (cx + 1) k e1 e2 e3)" for k e1 e2 e3
      by (rule less.hyps [OF _ spans [OF less.prems]]) simp
    show ?case using spans [OF less.prems, of cx cy]
      by (simp add: circle_loop.simps [of f c] circle_loop.simps [of g d] Let_def go)
  qed
  then show ?thesis using R by (simp add: CircleGenerator_def)
qed

text \<open>every scan line \<open>CircleGenerator\<close> reports is centred, and both of its ends lie
  within half a pixel of the circle of radius \<open>r\<close>.\<close>

theorem CircleGenerator_on_circle:
  assumes "0 \<le> r"
  shows "\<forall>(x1, x2, y') \<in> set (CircleGenerator (\<lambda>l x1 x2 y'. l @ [(x1, x2, y')]) [] x y r).
      x1 + x2 = 2 * x \<and> x1 \<le> x2
      \<and> \<bar>(x2 - x) * (x2 - x) + (y' - y) * (y' - y) - r * r\<bar> \<le> r"
proof -
  have "\<forall>(x1, x2, y') \<in> set (CircleGenerator (\<lambda>l x1 x2 y'. l @ [(x1, x2, y')]) [] x y r).
      circle_span_ok x y r x1 x2 y'"
    by (rule CircleGenerator_inv) (use assms in auto)
  then show ?thesis by (fastforce simp: circle_span_ok_def)
qed

theorem CircleGenerator_on_circle_witness:
  "CircleGenerator (\<lambda>l x1 x2 y'. l @ [(x1, x2, y')]) [] 10 20 2
     = [(10, 10, 22), (10, 10, 18), (8, 12, 20), (9, 11, 22), (9, 11, 18), (8, 12, 21), (8, 12, 19)]
   \<and> list_all (\<lambda>(x1, x2, y'). x1 + x2 = 2 * 10 \<and> x1 \<le> x2
        \<and> \<bar>(x2 - 10) * (x2 - 10) + (y' - 20) * (y' - 20) - 2 * 2\<bar> \<le> 2)
      (CircleGenerator (\<lambda>l x1 x2 y'. l @ [(x1, x2, y')]) [] (10::int) 20 2)"
proof
  show "CircleGenerator (\<lambda>l x1 x2 y'. l @ [(x1, x2, y')]) [] 10 20 2
     = [(10, 10, 22), (10, 10, 18), (8, 12, 20), (9, 11, 22), (9, 11, 18), (8, 12, 21), (8, 12, 19)]"
    by (simp add: CircleGenerator_def circle_loop.simps circle_spans_def Let_def)
qed (use CircleGenerator_on_circle [of 2 10 20] in \<open>simp add: list_all_iff\<close>)

section \<open>Ellipses\<close>

text \<open>
  The walk of \<open>ellipse_loop\<close> keeps \<open>64 rm \<le> iy + 3 ix\<close>, so \<open>iy / rm\<close> is positive while
  the loop runs and the distance of \<open>ix\<close> and \<open>iy\<close> shrinks.
\<close>

lemma ellipse_loop_rel:
  assumes step: "\<And>c d old new. R c d \<Longrightarrow> R (f c old new) (g d old new)"
    and "0 < rm" "0 \<le> ix" "64 * rm \<le> iy + 3 * ix" "R c d"
  shows "\<exists>c' d'. ellipse_loop f c rm rn ix iy old = Some c' \<and> ellipse_loop g d rm rn ix iy old = Some d'
    \<and> R c' d'"
  using assms(2-)
proof (induction "nat (iy - ix)" arbitrary: c d ix iy old rule: less_induct)
  case less
  let ?a = "iy sdiv rm" let ?ix = "ix + iy sdiv rm" let ?b = "?ix sdiv rm"
  show ?case
  proof (cases "shr6 (ix + 32) < shr6 (iy + 32)")
    case False
    then show ?thesis using step [OF less.prems(4)]
      by (subst (1 2) ellipse_loop.simps) (simp add: Let_def)
  next
    case True
    then have lt: "ix < iy" by (rule contrapos_pp) (simp add: shr6_def zdiv_mono1)
    have a: "?a = iy div rm" using less.prems lt by (simp add: sdiv_pos)
    have "16 * rm < iy" using lt less.prems by linarith
    then have a16: "16 \<le> iy div rm" using less.prems(1) zdiv_mono1 [of "16 * rm" iy rm] by simp
    have ix: "0 \<le> ?ix" using a a16 less.prems by simp
    have b: "?b = ?ix div rm" using less.prems ix by (simp add: sdiv_pos)
    have b0: "0 \<le> ?b" unfolding b using ix less.prems by (simp add: pos_imp_zdiv_nonneg_iff)
    have amul: "rm * (iy div rm) \<le> iy" "iy < rm * (iy div rm) + rm"
      using less.prems(1) pos_mod_bound [of rm iy] pos_mod_sign [of rm iy] mult_div_mod_eq [of rm iy]
      by linarith+
    have bmul: "rm * ?b \<le> ?ix" unfolding b
      using less.prems(1) pos_mod_sign [of rm ?ix] mult_div_mod_eq [of rm ?ix] by linarith
    have "?b \<le> 3 * ?a"
    proof (rule ccontr)
      assume "\<not> ?b \<le> 3 * ?a"
      then have "3 * (iy div rm) + 1 \<le> ?b" using a by simp
      then have "rm * (3 * (iy div rm) + 1) \<le> rm * ?b" using less.prems(1) by simp
      then have "3 * (rm * (iy div rm)) + rm \<le> ix + iy div rm" using bmul a by (simp add: algebra_simps)
      moreover have "iy div rm \<le> rm * (iy div rm)" using less.prems(1) a16 by simp
      ultimately show False using lt amul a16 by linarith
    qed
    moreover have "m \<le> (u - w) + 3 * (v + z)" if "w \<le> 3 * z" "m \<le> u + 3 * v" for m u v w z :: int
      using that by (simp add: distrib_left)
    ultimately have inv: "64 * rm \<le> (iy - ?b) + 3 * ?ix" using less.prems(3) by blast
    let ?new = "(shr6 (ix + 32), shr6 (iy + 32), (shr6 (ix + 32) * rn) sdiv rm, (shr6 (iy + 32) * rn) sdiv rm)"
    have "nat (iy - ?b - ?ix) < nat (iy - ix)" using a a16 b0 lt by simp
    from less.hyps [OF this less.prems(1) ix inv step [OF less.prems(4)], of old ?new ?new] True
    show ?thesis by (subst (1 2) ellipse_loop.simps) (simp add: Let_def)
  qed
qed

lemma ellipse_wide_rel:
  assumes step: "\<And>c d x1 x2 y'. R c d \<Longrightarrow> R (f c x1 x2 y') (g d x1 x2 y')" and "R c d"
  shows "R (ellipse_wide_spans f c x y old new) (ellipse_wide_spans g d x y old new)"
    and "R (ellipse_tall_spans f c x y old new) (ellipse_tall_spans g d x y old new)"
  using assms
  by (auto simp: ellipse_wide_spans_def ellipse_tall_spans_def Let_def split: prod.splits)

lemma EllipseGenerator_rel:
  assumes step: "\<And>c d x1 x2 y'. R c d \<Longrightarrow> R (f c x1 x2 y') (g d x1 x2 y')" and R: "R c d"
  shows "\<exists>c' d'. EllipseGenerator f c x y rx ry = Some c' \<and> EllipseGenerator g d x y rx ry = Some d' \<and> R c' d'"
proof -
  note span = ellipse_wide_rel [where R = R, OF step]
  have wide: "\<exists>c' d'. ellipse_loop (\<lambda>c. ellipse_wide_spans f c x y) c rm rn 0 (rm * 64) old = Some c'
      \<and> ellipse_loop (\<lambda>d. ellipse_wide_spans g d x y) d rm rn 0 (rm * 64) old = Some d' \<and> R c' d'"
    if "0 < rm" for rm rn old
    by (rule ellipse_loop_rel [where R = R]) (use that R span(1) in auto)
  have tall: "\<exists>c' d'. ellipse_loop (\<lambda>c. ellipse_tall_spans f c x y) c rm rn 0 (rm * 64) old = Some c'
      \<and> ellipse_loop (\<lambda>d. ellipse_tall_spans g d x y) d rm rn 0 (rm * 64) old = Some d' \<and> R c' d'"
    if "0 < rm" for rm rn old
    by (rule ellipse_loop_rel [where R = R]) (use that R span(2) in auto)
  define a b where "a = (if rx < 1 then 1 else rx)" and "b = (if ry < 1 then 1 else ry)"
  have "0 < a" "0 < b" by (auto simp: a_def b_def)
  then show ?thesis
    unfolding EllipseGenerator_def Let_def a_def [symmetric] b_def [symmetric]
    using wide [of a b] tall [of b a] by (cases "b < a") auto
qed

text \<open>\<open>EllipseGenerator\<close> returns for all radii.\<close>

theorem EllipseGenerator_returns: "\<exists>c'. EllipseGenerator cb c x y rx ry = Some c'"
  using EllipseGenerator_rel [of "\<lambda>_ _. True" cb cb c c x y rx ry] by blast

section \<open>Clipping axis-parallel segments\<close>

text \<open>The pixels of an axis-parallel segment.\<close>

definition segment_pts :: "segment \<Rightarrow> (int \<times> int) set" where
  "segment_pts s = {(x, y). min (sx0 s) (sx1 s) \<le> x \<and> x \<le> max (sx0 s) (sx1 s)
     \<and> min (sy0 s) (sy1 s) \<le> y \<and> y \<le> max (sy0 s) (sy1 s)}"

lemma segment_pts_nonempty: "segment_pts s \<noteq> {}"
proof -
  have "(sx0 s, sy0 s) \<in> segment_pts s" by (simp add: segment_pts_def)
  then show ?thesis by blast
qed

lemma clip_vertical_correct:
  assumes "sx0 s = sx1 s"
  shows "if fst (clip_vertical cliprc s)
    then segment_pts (snd (clip_vertical cliprc s)) = segment_pts s \<inter> rect_pts cliprc
    else segment_pts s \<inter> rect_pts cliprc = {} \<and> snd (clip_vertical cliprc s) = s"
proof -
  obtain x y0 y1 where s: "s = \<lparr>sx0 = x, sy0 = y0, sx1 = x, sy1 = y1\<rparr>"
    using assms(1) by (cases s) simp
  show ?thesis
    unfolding s clip_vertical_def Let_def
    by (cases "y1 > y0") (auto simp: segment_pts_def)
qed

lemma clip_horizontal_correct:
  assumes "sy0 s = sy1 s"
  shows "if fst (clip_horizontal cliprc s)
    then segment_pts (snd (clip_horizontal cliprc s)) = segment_pts s \<inter> rect_pts cliprc
    else segment_pts s \<inter> rect_pts cliprc = {} \<and> snd (clip_horizontal cliprc s) = s"
proof -
  obtain x0 x1 y where s: "s = \<lparr>sx0 = x0, sy0 = y, sx1 = x1, sy1 = y\<rparr>"
    using assms(1) by (cases s) simp
  show ?thesis
    unfolding s clip_horizontal_def Let_def
    by (cases "x1 > x0") (auto simp: segment_pts_def)
qed

text \<open>for a pixel, a vertical or a horizontal segment the clipper returns TRUE exactly when
  the segment meets the rectangle, the clipped segment is then exactly their common pixels, and
  it leaves the segment alone otherwise.\<close>

theorem LineClipper_axis_exact:
  assumes "sx0 s = sx1 s \<or> sy0 s = sy1 s"
  shows "\<exists>ok s'. LineClipper cliprc s = Some (ok, s')
    \<and> (ok = (segment_pts s \<inter> rect_pts cliprc \<noteq> {}))
    \<and> segment_pts s' = (if ok then segment_pts s \<inter> rect_pts cliprc else segment_pts s)"
proof -
  consider "sx0 s = sx1 s \<and> sy0 s = sy1 s" | "sx0 s = sx1 s" "sy0 s \<noteq> sy1 s"
    | "sx0 s \<noteq> sx1 s" "sy0 s = sy1 s" using assms by blast
  then show ?thesis
  proof cases
    case 1
    then have "segment_pts s = {(sx0 s, sy0 s)}" by (auto simp: segment_pts_def)
    with 1 show ?thesis by (auto simp: LineClipper_def PtInRect_def)
  next
    case 2
    with clip_vertical_correct [OF 2(1), of cliprc] segment_pts_nonempty [of "snd (clip_vertical cliprc s)"] show ?thesis
      by (cases "clip_vertical cliprc s") (auto simp: LineClipper_def split: if_splits)
  next
    case 3
    with clip_horizontal_correct [OF 3(2), of cliprc] segment_pts_nonempty [of "snd (clip_horizontal cliprc s)"] show ?thesis
      by (cases "clip_horizontal cliprc s") (auto simp: LineClipper_def split: if_splits)
  qed
qed

theorem LineClipper_axis_exact_witness:
  "LineClipper \<lparr>left = 0, top = 0, right = 10, bottom = 10\<rparr> \<lparr>sx0 = 3, sy0 = 20, sx1 = 3, sy1 = 4\<rparr>
     = Some (True, \<lparr>sx0 = 3, sy0 = 4, sx1 = 3, sy1 = 9\<rparr>)
   \<and> segment_pts \<lparr>sx0 = 3, sy0 = 4, sx1 = 3, sy1 = 9\<rparr>
     = segment_pts \<lparr>sx0 = 3, sy0 = 20, sx1 = 3, sy1 = 4\<rparr>
         \<inter> rect_pts \<lparr>left = 0, top = 0, right = 10, bottom = 10\<rparr>"
proof -
  let ?s = "\<lparr>sx0 = 3, sy0 = 20, sx1 = 3, sy1 = 4\<rparr>" and ?c = "\<lparr>left = 0, top = 0, right = 10, bottom = 10\<rparr>"
  have run: "LineClipper ?c ?s = Some (True, \<lparr>sx0 = 3, sy0 = 4, sx1 = 3, sy1 = 9\<rparr>)"
    by (simp add: LineClipper_def clip_vertical_def)
  with LineClipper_axis_exact [of ?s ?c] show ?thesis by (simp split: if_splits)
qed

end
