(* ===== verification/MG_RegionAlg.thy ===== *)
theory MG_RegionAlg
  imports MG_RegionOps MG_Generators
begin

text \<open>
  The exported region algebra of \<open>src/newgdi/region.c\<close> over region pointers: copy, the
  four set operations with their shortcuts, the operations with one rectangle, scrolling and
  the regions made from scan lines. A store maps pointers to regions, so an operation whose
  destination is also a source is the same term with the same pointer twice. \<open>Local\<close> pointers
  are the functions' stack variables.
\<close>

section \<open>Pointers and copying\<close>

datatype rgn_ptr = Rgn nat | Local nat

type_synonym rgns = "rgn_ptr \<Rightarrow> CLIPRGN"

definition ClipRgnCopy :: "rgns \<Rightarrow> rgn_ptr \<Rightarrow> rgn_ptr \<Rightarrow> bool \<times> rgns" where
  "ClipRgnCopy st pDst pSrc =
     (if pDst = pSrc then (False, st)
      else
        let st1 = st(pDst := EmptyClipRgn (st pDst))
        in if cliprects (st1 pSrc) = [] then (True, st1)
           else (True, st1(pDst := (st1 pDst)\<lparr>cliprects := cliprects (st1 pSrc),
                  rgn_type := rgn_type (st1 pSrc), rcBound := rcBound (st1 pSrc)\<rparr>)))"

section \<open>The set operations\<close>

text \<open>\<open>REGION_RegionOp\<close>: a destination that is a source is replaced only at the end.\<close>

definition REGION_RegionOp ::
  "rgns \<Rightarrow> rgn_ptr \<Rightarrow> rgn_ptr \<Rightarrow> rgn_ptr \<Rightarrow> overlap_proc \<Rightarrow> nonoverlap_proc option
     \<Rightarrow> nonoverlap_proc option \<Rightarrow> rgns" where
  "REGION_RegionOp st newReg reg1 reg2 overlap non1 non2 =
     (if newReg = reg1 \<or> newReg = reg2 then
        let my_dst = (InitClipRgn (rgn_heap (st newReg)))
              \<lparr>cliprects := RegionOp_rects overlap non1 non2 (st reg1) (st reg2)\<rparr>
        in st(newReg := my_dst)
      else
        let st1 = st(newReg := EmptyClipRgn (st newReg))
        in st1(newReg := (st1 newReg)
             \<lparr>cliprects := RegionOp_rects overlap non1 non2 (st1 reg1) (st1 reg2)\<rparr>))"

text \<open>The two statements that end each operation: extents, then type.\<close>

definition set_extents_type :: "rgns \<Rightarrow> rgn_ptr \<Rightarrow> rgns" where
  "set_extents_type st dst =
     (let r = REGION_SetExtents (st dst)
      in st(dst := r\<lparr>rgn_type := if cliprects r \<noteq> [] then COMPLEXREGION else NULLREGION\<rparr>))"

definition ClipRgnIntersect :: "rgns \<Rightarrow> rgn_ptr \<Rightarrow> rgn_ptr \<Rightarrow> rgn_ptr \<Rightarrow> bool \<times> rgns" where
  "ClipRgnIntersect st dst src1 src2 =
     (if cliprects (st src1) = [] \<or> cliprects (st src2) = []
         \<or> \<not> EXTENTCHECK (rcBound (st src1)) (rcBound (st src2))
      then (False, st(dst := EmptyClipRgn (st dst)))
      else (True, set_extents_type
                    (REGION_RegionOp st dst src1 src2 REGION_IntersectO None None) dst))"

definition SubtractRegion :: "rgns \<Rightarrow> rgn_ptr \<Rightarrow> rgn_ptr \<Rightarrow> rgn_ptr \<Rightarrow> bool \<times> rgns" where
  "SubtractRegion st rgnD rgnM rgnS =
     (if cliprects (st rgnM) = [] \<or> cliprects (st rgnS) = []
         \<or> \<not> EXTENTCHECK (rcBound (st rgnM)) (rcBound (st rgnS))
      then (True, snd (ClipRgnCopy st rgnD rgnM))
      else (True, set_extents_type
                    (REGION_RegionOp st rgnD rgnM rgnS REGION_SubtractO
                       (Some REGION_SubtractNonO1) None) rgnD))"

text \<open>\<open>head == tail\<close> of a non-empty region, and the four comparisons of the bounds.\<close>

definition subsumes :: "CLIPRGN \<Rightarrow> CLIPRGN \<Rightarrow> bool" where
  "subsumes a b \<longleftrightarrow> length (cliprects a) \<le> 1
     \<and> left (rcBound a) \<le> left (rcBound b) \<and> top (rcBound a) \<le> top (rcBound b)
     \<and> right (rcBound a) \<ge> right (rcBound b) \<and> bottom (rcBound a) \<ge> bottom (rcBound b)"

definition copy_unless_same :: "rgns \<Rightarrow> rgn_ptr \<Rightarrow> rgn_ptr \<Rightarrow> rgns" where
  "copy_unless_same st dst src = (if dst \<noteq> src then snd (ClipRgnCopy st dst src) else st)"

definition UnionRegion :: "rgns \<Rightarrow> rgn_ptr \<Rightarrow> rgn_ptr \<Rightarrow> rgn_ptr \<Rightarrow> bool \<times> rgns" where
  "UnionRegion st dst src1 src2 =
     (if src1 = src2 \<or> cliprects (st src1) = [] then (True, copy_unless_same st dst src2)
      else if cliprects (st src2) = [] then (True, copy_unless_same st dst src1)
      else if subsumes (st src1) (st src2) then (True, copy_unless_same st dst src1)
      else if subsumes (st src2) (st src1) then (True, copy_unless_same st dst src2)
      else (True, set_extents_type
                    (REGION_RegionOp st dst src1 src2 REGION_UnionO
                       (Some REGION_UnionNonO) (Some REGION_UnionNonO)) dst))"

definition XorRegion :: "rgns \<Rightarrow> rgn_ptr \<Rightarrow> rgn_ptr \<Rightarrow> rgn_ptr \<Rightarrow> bool \<times> rgns" where
  "XorRegion st dst src1 src2 =
     (let tmpa = Local 0; tmpb = Local 1;
          st1 = st(tmpa := InitClipRgn (rgn_heap (st src1)));
          st2 = st1(tmpb := InitClipRgn (rgn_heap (st1 src2)));
          st3 = snd (SubtractRegion st2 tmpa src1 src2);
          st4 = snd (SubtractRegion st3 tmpb src2 src1);
          st5 = snd (UnionRegion st4 dst tmpa tmpb);
          st6 = st5(tmpa := EmptyClipRgn (st5 tmpa))
      in (True, st6(tmpb := EmptyClipRgn (st6 tmpb))))"

section \<open>Operations with one rectangle\<close>

text \<open>The region on the stack that holds the one rectangle, without a heap.\<close>

definition rect_region :: "RECT \<Rightarrow> CLIPRGN" where
  "rect_region r =
     \<lparr>rgn_type = SIMPLEREGION, rcBound = r, cliprects = [r], rgn_heap = None\<rparr>"

definition AddClipRect :: "rgns \<Rightarrow> rgn_ptr \<Rightarrow> RECT \<Rightarrow> bool \<times> rgns" where
  "AddClipRect st region r =
     (if IsRectEmpty r then (False, st)
      else (True, snd (UnionRegion (st(Local 2 := rect_region r)) region region (Local 2))))"

definition IntersectClipRect :: "rgns \<Rightarrow> rgn_ptr \<Rightarrow> RECT \<Rightarrow> bool \<times> rgns" where
  "IntersectClipRect st region r =
     (if IsRectEmpty r then (True, st(region := EmptyClipRgn (st region)))
      else (True, snd (ClipRgnIntersect (st(Local 2 := rect_region r)) region region (Local 2))))"

definition SubtractClipRect :: "rgns \<Rightarrow> rgn_ptr \<Rightarrow> RECT \<Rightarrow> bool \<times> rgns" where
  "SubtractClipRect st region r =
     (if IsRectEmpty r \<or> \<not> DoesIntersect (rcBound (st region)) r then (False, st)
      else (True, snd (SubtractRegion (st(Local 2 := rect_region r)) region region (Local 2))))"

section \<open>Scrolling a region\<close>

text \<open>The loop over the list, with the nodes it has left behind in \<open>past\<close>.\<close>

fun offset_ex_loop ::
  "RECT \<Rightarrow> int \<Rightarrow> int \<Rightarrow> CLIPRGN \<Rightarrow> RECT list \<Rightarrow> RECT list \<Rightarrow> CLIPRGN" where
  "offset_ex_loop rc x y region past [] = region"
| "offset_ex_loop rc x y region past (c # cs) =
     (if \<not> DoesIntersect c rc then offset_ex_loop rc x y region (past @ [c]) cs
      else
        let c1 = (if \<not> IsCovered c rc then snd (IntersectRect c rc) else c);
            c2 = OffsetRect c1 x y
        in if \<not> DoesIntersect c2 rc
           then offset_ex_loop rc x y (region\<lparr>cliprects := past @ cs\<rparr>) past cs
           else
             let c3 = (if \<not> IsCovered c2 rc then snd (IntersectRect c2 rc) else c2)
             in offset_ex_loop rc x y
                  (REGION_SetExtents (region\<lparr>cliprects := past @ c3 # cs\<rparr>)) (past @ [c3]) cs)"

definition OffsetRegionEx ::
  "CLIPRGN \<Rightarrow> RECT option \<Rightarrow> RECT option \<Rightarrow> int \<Rightarrow> int \<Rightarrow> CLIPRGN" where
  "OffsetRegionEx region rcClient rcScroll x y =
     (case (rcClient, rcScroll) of
        (Some cl, Some sc) \<Rightarrow>
          (if \<not> fst (IntersectRect cl sc) then region
           else offset_ex_loop (snd (IntersectRect cl sc)) x y region [] (cliprects region))
      | _ \<Rightarrow> region)"

section \<open>Regions from scan lines\<close>

definition cb_region :: "rgn_ptr \<Rightarrow> rgns span_cb" where
  "cb_region region st x1 x2 y =
     (let r = (if x2 > x1 then mk_rect x1 y (x2 + 1) (y + 1) else mk_rect x2 y (x1 + 1) (y + 1));
          st1 = st(Local 3 := rect_region r)
      in if IsEmptyClipRgn (st1 region) then snd (ClipRgnCopy st1 region (Local 3))
         else snd (UnionRegion st1 region region (Local 3)))"

text \<open>The region of a radius below 1: one pixel, by \<open>NEWCLIPRECT\<close> alone.\<close>

definition one_pixel :: "CLIPRGN \<Rightarrow> int \<Rightarrow> int \<Rightarrow> CLIPRGN" where
  "one_pixel rgn x y = rgn\<lparr>cliprects := cliprects rgn @ [mk_rect x y (x + 1) (y + 1)]\<rparr>"

definition InitCircleRegion :: "rgns \<Rightarrow> rgn_ptr \<Rightarrow> int \<Rightarrow> int \<Rightarrow> int \<Rightarrow> bool \<times> rgns" where
  "InitCircleRegion st dst x y r =
     (let st1 = st(dst := EmptyClipRgn (st dst))
      in if r < 1 then (True, st1(dst := one_pixel (st1 dst) x y))
         else (True, CircleGenerator (cb_region dst) st1 x y r))"

definition InitEllipseRegion ::
  "rgns \<Rightarrow> rgn_ptr \<Rightarrow> int \<Rightarrow> int \<Rightarrow> int \<Rightarrow> int \<Rightarrow> (bool \<times> rgns) option" where
  "InitEllipseRegion st dst x y rx ry =
     (let st1 = st(dst := EmptyClipRgn (st dst))
      in if rx < 1 \<or> ry < 1 then Some (True, st1(dst := one_pixel (st1 dst) x y))
         else map_option (Pair True) (EllipseGenerator (cb_region dst) st1 x y rx ry))"

section \<open>Correctness\<close>

lemma set_extents_type_wf:
  assumes "banded (cliprects (st dst))"
  shows "rgn_wf (set_extents_type st dst dst)"
    and "rgn_pts (set_extents_type st dst dst) = rects_pts (cliprects (st dst))"
    and "p \<noteq> dst \<Longrightarrow> set_extents_type st dst p = st p"
  using assms
  by (auto simp: set_extents_type_def rgn_wf_def rgn_pts_def REGION_SetExtents_def Let_def
      split: list.splits)

lemma REGION_RegionOp_sel:
  "cliprects (REGION_RegionOp st d a b ov n1 n2 d) = RegionOp_rects ov n1 n2 (st a) (st b)"
  "p \<noteq> d \<Longrightarrow> REGION_RegionOp st d a b ov n1 n2 p = st p"
  by (auto simp: REGION_RegionOp_def Let_def)

lemma EmptyClipRgn_sel [simp]: "cliprects (EmptyClipRgn r) = []"
  by (simp add: EmptyClipRgn_def)

lemma copy_unless_same_correct:
  assumes "rgn_wf (st s)"
  shows "rgn_wf (copy_unless_same st d s d)" "rgn_pts (copy_unless_same st d s d) = rgn_pts (st s)"
    "p \<noteq> d \<Longrightarrow> copy_unless_same st d s p = st p"
  using assms
  by (auto simp: copy_unless_same_def ClipRgnCopy_def rgn_wf_def rgn_pts_def Let_def EmptyClipRgn_def
      REGION_SetExtents_def split: list.splits)

lemma ClipRgnCopy_correct:
  assumes "rgn_wf (st s)"
  shows "rgn_wf (snd (ClipRgnCopy st d s) d)" "rgn_pts (snd (ClipRgnCopy st d s) d) = rgn_pts (st s)"
    "p \<noteq> d \<Longrightarrow> snd (ClipRgnCopy st d s) p = st p"
  using copy_unless_same_correct [where st = st and s = s and d = d, OF assms] assms
  by (cases "d = s"; simp add: copy_unless_same_def ClipRgnCopy_def)+

lemma rgn_pts_bound:
  assumes "rgn_wf r" "(x, y) \<in> rgn_pts r"
  shows "left (rcBound r) \<le> x" "x < right (rcBound r)" "top (rcBound r) \<le> y" "y < bottom (rcBound r)"
proof -
  from assms(2) obtain c where c: "c \<in> set (cliprects r)" "(x, y) \<in> rect_pts c"
    by (auto simp: rgn_pts_def mem_rects_pts)
  from c(2) rgn_wf_bound [OF assms(1) c(1)]
  show "left (rcBound r) \<le> x" "x < right (rcBound r)" "top (rcBound r) \<le> y" "y < bottom (rcBound r)"
    by auto
qed

lemma EXTENTCHECK_disjoint:
  assumes "rgn_wf a" "rgn_wf b" "\<not> EXTENTCHECK (rcBound a) (rcBound b)"
  shows "rgn_pts a \<inter> rgn_pts b = {}"
proof (rule ccontr)
  assume "rgn_pts a \<inter> rgn_pts b \<noteq> {}"
  then obtain x y where "(x, y) \<in> rgn_pts a" "(x, y) \<in> rgn_pts b" by auto
  from rgn_pts_bound [OF assms(1) this(1)] rgn_pts_bound [OF assms(2) this(2)] assms(3)
  show False by (simp add: EXTENTCHECK_def)
qed

lemma subsumes_pts:
  assumes "rgn_wf a" "rgn_wf b" "subsumes a b" "cliprects a \<noteq> []"
  shows "rgn_pts b \<subseteq> rgn_pts a"
proof -
  from assms(3,4) obtain r where r: "cliprects a = [r]"
    by (cases "cliprects a") (auto simp: subsumes_def)
  have B: "rcBound a = r"
    using assms(1) r by (auto simp: rgn_wf_def REGION_SetExtents_def intro: RECT.equality)
  show ?thesis
  proof
    fix p assume p: "p \<in> rgn_pts b"
    obtain x y where xy: "p = (x, y)" by (cases p)
    from rgn_pts_bound [OF assms(2) p [unfolded xy]] assms(3) B
    show "p \<in> rgn_pts a" by (simp add: xy rgn_pts_def r subsumes_def)
  qed
qed

lemma rgn_pts_nil: "cliprects r = [] \<Longrightarrow> rgn_pts r = {}"
  by (simp add: rgn_pts_def)

lemma UnionRegion_spec:
  assumes "rgn_wf (st src1)" "rgn_wf (st src2)" "UnionRegion st dst src1 src2 = (ok, st')"
  shows "ok \<and> rgn_wf (st' dst) \<and> rgn_pts (st' dst) = rgn_pts (st src1) \<union> rgn_pts (st src2)
    \<and> (\<forall>p. p \<noteq> dst \<longrightarrow> st' p = st p)"
proof -
  note copy1 = copy_unless_same_correct [where st = st and s = src1 and d = dst, OF assms(1)]
    and copy2 = copy_unless_same_correct [where st = st and s = src2 and d = dst, OF assms(2)]
  note sub12 = subsumes_pts [OF assms(1,2)] and sub21 = subsumes_pts [OF assms(2,1)]
  consider "src1 = src2 \<or> cliprects (st src1) = []" | "src1 \<noteq> src2" "cliprects (st src1) \<noteq> []" "cliprects (st src2) = []"
    | "src1 \<noteq> src2" "cliprects (st src1) \<noteq> []" "cliprects (st src2) \<noteq> []" "subsumes (st src1) (st src2)"
    | "src1 \<noteq> src2" "cliprects (st src1) \<noteq> []" "cliprects (st src2) \<noteq> []" "\<not> subsumes (st src1) (st src2)" "subsumes (st src2) (st src1)"
    | "src1 \<noteq> src2" "cliprects (st src1) \<noteq> []" "cliprects (st src2) \<noteq> []" "\<not> subsumes (st src1) (st src2)" "\<not> subsumes (st src2) (st src1)"
    by blast
  then show ?thesis
  proof cases
    case 1
    with assms(3) have "ok" "st' = copy_unless_same st dst src2" by (auto simp: UnionRegion_def)
    with 1 copy2 rgn_pts_nil [of "st src1"] show ?thesis by auto
  next
    case 2
    with assms(3) have "ok" "st' = copy_unless_same st dst src1" by (auto simp: UnionRegion_def)
    with 2 copy1 rgn_pts_nil [of "st src2"] show ?thesis by auto
  next
    case 3
    with assms(3) have "ok" "st' = copy_unless_same st dst src1" by (auto simp: UnionRegion_def)
    with 3 copy1 sub12 show ?thesis by auto
  next
    case 4
    with assms(3) have "ok" "st' = copy_unless_same st dst src2" by (auto simp: UnionRegion_def)
    with 4 copy2 sub21 show ?thesis by auto
  next
    case 5
    let ?st = "REGION_RegionOp st dst src1 src2 REGION_UnionO (Some REGION_UnionNonO) (Some REGION_UnionNonO)"
    have R: "cliprects (?st dst) = RegionOp_rects REGION_UnionO (Some REGION_UnionNonO)
        (Some REGION_UnionNonO) (st src1) (st src2)" by (rule REGION_RegionOp_sel(1))
    note C = union.RegionOp_rects_correct [OF assms(1,2) 5(2,3), folded R]
    from 5 assms(3) have "ok" "st' = set_extents_type ?st dst" by (auto simp: UnionRegion_def)
    with set_extents_type_wf [of ?st dst] C REGION_RegionOp_sel(2) show ?thesis by auto
  qed
qed

text \<open>C2: the destination of \<open>UnionRegion\<close> is a well-formed region of exactly the pixels of
  the two sources, whichever of the three pointers coincide, and no other region changes.\<close>

theorem UnionRegion_correct:
  assumes "rgn_wf (st src1)" "rgn_wf (st src2)" "UnionRegion st dst src1 src2 = (ok, st')"
  shows "ok \<and> rgn_wf (st' dst) \<and> rgn_pts (st' dst) = rgn_pts (st src1) \<union> rgn_pts (st src2)
    \<and> (\<forall>p. p \<noteq> dst \<longrightarrow> st' p = st p)"
  by (rule UnionRegion_spec [OF assms])

definition two_rgns :: rgns where
  "two_rgns p = (case p of
      Rgn n \<Rightarrow> if n = 0 then rect_region (mk_rect 0 0 10 10)
               else if n = 1 then rect_region (mk_rect 5 5 20 20) else InitClipRgn None
    | Local n \<Rightarrow> InitClipRgn None)"

lemma rect_region_wf: "rect_ok r \<Longrightarrow> rgn_wf (rect_region r)"
  and rect_region_pts: "rgn_pts (rect_region r) = rect_pts r"
  by (rule rgn_wf_simple) (simp_all add: rect_region_def rgn_pts_def)

lemma two_rgns_wf: "rgn_wf (two_rgns (Rgn n))"
  by (auto simp: two_rgns_def rect_ok_def intro!: rect_region_wf)

theorem UnionRegion_correct_witness:
  "let st' = snd (UnionRegion two_rgns (Rgn 0) (Rgn 0) (Rgn 1)) in
     rgn_wf (st' (Rgn 0)) \<and> (6, 6) \<in> rgn_pts (st' (Rgn 0)) \<and> (15, 2) \<notin> rgn_pts (st' (Rgn 0))"
proof -
  obtain ok st' where u: "UnionRegion two_rgns (Rgn 0) (Rgn 0) (Rgn 1) = (ok, st')"
    by (cases "UnionRegion two_rgns (Rgn 0) (Rgn 0) (Rgn 1)")
  from UnionRegion_correct [OF two_rgns_wf two_rgns_wf u] u show ?thesis
    by (simp add: two_rgns_def rect_region_pts)
qed

lemma ClipRgnIntersect_spec:
  assumes "rgn_wf (st src1)" "rgn_wf (st src2)" "ClipRgnIntersect st dst src1 src2 = (ok, st')"
  shows "rgn_wf (st' dst) \<and> rgn_pts (st' dst) = rgn_pts (st src1) \<inter> rgn_pts (st src2)
    \<and> (\<not> ok \<longrightarrow> rgn_pts (st' dst) = {}) \<and> (\<forall>p. p \<noteq> dst \<longrightarrow> st' p = st p)"
proof (cases "cliprects (st src1) = [] \<or> cliprects (st src2) = []
    \<or> \<not> EXTENTCHECK (rcBound (st src1)) (rcBound (st src2))")
  case True
  then have "rgn_pts (st src1) \<inter> rgn_pts (st src2) = {}"
    using EXTENTCHECK_disjoint [OF assms(1,2)] rgn_pts_nil by blast
  with True assms(3) show ?thesis by (auto simp: ClipRgnIntersect_def)
next
  case False
  let ?st = "REGION_RegionOp st dst src1 src2 REGION_IntersectO None None"
  have R: "cliprects (?st dst) = RegionOp_rects REGION_IntersectO None None (st src1) (st src2)"
    by (rule REGION_RegionOp_sel(1))
  have ne: "cliprects (st src1) \<noteq> []" "cliprects (st src2) \<noteq> []" using False by blast+
  note C = intersect.RegionOp_rects_correct [OF assms(1,2) ne, folded R]
  from False assms(3) have "ok" "st' = set_extents_type ?st dst" by (auto simp: ClipRgnIntersect_def)
  with set_extents_type_wf [of ?st dst] C REGION_RegionOp_sel(2) show ?thesis by auto
qed

text \<open>C9: \<open>ClipRgnIntersect\<close> leaves exactly the common pixels in the destination, for any
  coincidence of its pointers, and returns FALSE only when there are none.\<close>

theorem ClipRgnIntersect_correct:
  assumes "rgn_wf (st src1)" "rgn_wf (st src2)" "ClipRgnIntersect st dst src1 src2 = (ok, st')"
  shows "rgn_wf (st' dst) \<and> rgn_pts (st' dst) = rgn_pts (st src1) \<inter> rgn_pts (st src2)
    \<and> (\<not> ok \<longrightarrow> rgn_pts (st' dst) = {}) \<and> (\<forall>p. p \<noteq> dst \<longrightarrow> st' p = st p)"
  by (rule ClipRgnIntersect_spec [OF assms])

theorem ClipRgnIntersect_correct_witness:
  "let st' = snd (ClipRgnIntersect two_rgns (Rgn 1) (Rgn 0) (Rgn 1)) in
     rgn_wf (st' (Rgn 1)) \<and> (6, 6) \<in> rgn_pts (st' (Rgn 1)) \<and> (2, 2) \<notin> rgn_pts (st' (Rgn 1))"
proof -
  obtain ok st' where u: "ClipRgnIntersect two_rgns (Rgn 1) (Rgn 0) (Rgn 1) = (ok, st')"
    by (cases "ClipRgnIntersect two_rgns (Rgn 1) (Rgn 0) (Rgn 1)")
  from ClipRgnIntersect_correct [OF two_rgns_wf two_rgns_wf u] u show ?thesis
    by (simp add: two_rgns_def rect_region_pts)
qed

lemma SubtractRegion_spec:
  assumes "rgn_wf (st rgnM)" "rgn_wf (st rgnS)" "SubtractRegion st rgnD rgnM rgnS = (ok, st')"
  shows "ok \<and> rgn_wf (st' rgnD) \<and> rgn_pts (st' rgnD) = rgn_pts (st rgnM) - rgn_pts (st rgnS)
    \<and> (\<forall>p. p \<noteq> rgnD \<longrightarrow> st' p = st p)"
proof (cases "cliprects (st rgnM) = [] \<or> cliprects (st rgnS) = []
    \<or> \<not> EXTENTCHECK (rcBound (st rgnM)) (rcBound (st rgnS))")
  case True
  then have "rgn_pts (st rgnM) \<inter> rgn_pts (st rgnS) = {}"
    using EXTENTCHECK_disjoint [OF assms(1,2)] rgn_pts_nil by blast
  moreover have "ok" "st' = snd (ClipRgnCopy st rgnD rgnM)"
    using True assms(3) by (auto simp: SubtractRegion_def)
  moreover note ClipRgnCopy_correct [where st = st and s = rgnM and d = rgnD, OF assms(1)]
  ultimately show ?thesis by auto
next
  case False
  let ?st = "REGION_RegionOp st rgnD rgnM rgnS REGION_SubtractO (Some REGION_SubtractNonO1) None"
  have R: "cliprects (?st rgnD) = RegionOp_rects REGION_SubtractO (Some REGION_SubtractNonO1) None
      (st rgnM) (st rgnS)" by (rule REGION_RegionOp_sel(1))
  have ne: "cliprects (st rgnM) \<noteq> []" "cliprects (st rgnS) \<noteq> []" using False by blast+
  note C = subtract.RegionOp_rects_correct [OF assms(1,2) ne, folded R]
  from False assms(3) have "ok" "st' = set_extents_type ?st rgnD" by (auto simp: SubtractRegion_def)
  with set_extents_type_wf [of ?st rgnD] C REGION_RegionOp_sel(2) show ?thesis by auto
qed

text \<open>C6: \<open>SubtractRegion\<close> leaves exactly the pixels of the minuend that are not in the
  subtrahend, for any coincidence of its pointers.\<close>

theorem SubtractRegion_correct:
  assumes "rgn_wf (st rgnM)" "rgn_wf (st rgnS)" "SubtractRegion st rgnD rgnM rgnS = (ok, st')"
  shows "ok \<and> rgn_wf (st' rgnD) \<and> rgn_pts (st' rgnD) = rgn_pts (st rgnM) - rgn_pts (st rgnS)
    \<and> (\<forall>p. p \<noteq> rgnD \<longrightarrow> st' p = st p)"
  by (rule SubtractRegion_spec [OF assms])

theorem SubtractRegion_correct_witness:
  "let st' = snd (SubtractRegion two_rgns (Rgn 1) (Rgn 0) (Rgn 1)) in
     rgn_wf (st' (Rgn 1)) \<and> (2, 2) \<in> rgn_pts (st' (Rgn 1)) \<and> (6, 6) \<notin> rgn_pts (st' (Rgn 1))"
proof -
  obtain ok st' where u: "SubtractRegion two_rgns (Rgn 1) (Rgn 0) (Rgn 1) = (ok, st')"
    by (cases "SubtractRegion two_rgns (Rgn 1) (Rgn 0) (Rgn 1)")
  from SubtractRegion_correct [OF two_rgns_wf two_rgns_wf u] u show ?thesis
    by (simp add: two_rgns_def rect_region_pts)
qed

text \<open>\<open>XorRegion\<close> leaves the symmetric difference in the destination, which may be one of
  the sources, and changes no other region of its caller.\<close>

theorem XorRegion_correct:
  assumes "rgn_wf (st (Rgn a))" "rgn_wf (st (Rgn b))" "XorRegion st (Rgn d) (Rgn a) (Rgn b) = (ok, st')"
  shows "ok \<and> rgn_wf (st' (Rgn d))
    \<and> rgn_pts (st' (Rgn d)) = (rgn_pts (st (Rgn a)) - rgn_pts (st (Rgn b)))
        \<union> (rgn_pts (st (Rgn b)) - rgn_pts (st (Rgn a)))
    \<and> (\<forall>n. n \<noteq> d \<longrightarrow> st' (Rgn n) = st (Rgn n))"
proof -
  define st2 where "st2 = st(Local 0 := InitClipRgn (rgn_heap (st (Rgn a))),
      Local 1 := InitClipRgn (rgn_heap (st (Rgn b))))"
  have same: "st2 (Rgn n) = st (Rgn n)" for n by (simp add: st2_def)
  obtain oka st3 where s3: "SubtractRegion st2 (Local 0) (Rgn a) (Rgn b) = (oka, st3)"
    by (cases "SubtractRegion st2 (Local 0) (Rgn a) (Rgn b)")
  obtain okb st4 where s4: "SubtractRegion st3 (Local 1) (Rgn b) (Rgn a) = (okb, st4)"
    by (cases "SubtractRegion st3 (Local 1) (Rgn b) (Rgn a)")
  obtain oku st5 where s5: "UnionRegion st4 (Rgn d) (Local 0) (Local 1) = (oku, st5)"
    by (cases "UnionRegion st4 (Rgn d) (Local 0) (Local 1)")
  have res: "ok" "st' (Rgn n) = st5 (Rgn n)" for n
    using assms(3) s3 s4 s5 by (auto simp: XorRegion_def Let_def st2_def)
  from SubtractRegion_spec [OF _ _ s3] assms(1,2) same
  have c3: "rgn_wf (st3 (Local 0))" "rgn_pts (st3 (Local 0)) = rgn_pts (st (Rgn a)) - rgn_pts (st (Rgn b))"
    "\<And>n. st3 (Rgn n) = st (Rgn n)" by auto
  from SubtractRegion_spec [OF _ _ s4] assms(1,2) c3
  have c4: "rgn_wf (st4 (Local 1))" "rgn_pts (st4 (Local 1)) = rgn_pts (st (Rgn b)) - rgn_pts (st (Rgn a))"
    "st4 (Local 0) = st3 (Local 0)" "\<And>n. st4 (Rgn n) = st (Rgn n)" by auto
  from UnionRegion_spec [OF _ _ s5] c3 c4 res show ?thesis by auto
qed

theorem XorRegion_correct_witness:
  "let st' = snd (XorRegion two_rgns (Rgn 0) (Rgn 0) (Rgn 1)) in
     rgn_wf (st' (Rgn 0)) \<and> (2, 2) \<in> rgn_pts (st' (Rgn 0)) \<and> (6, 6) \<notin> rgn_pts (st' (Rgn 0))"
proof -
  obtain ok st' where u: "XorRegion two_rgns (Rgn 0) (Rgn 0) (Rgn 1) = (ok, st')"
    by (cases "XorRegion two_rgns (Rgn 0) (Rgn 0) (Rgn 1)")
  from XorRegion_correct [OF two_rgns_wf two_rgns_wf u] u show ?thesis
    by (simp add: two_rgns_def rect_region_pts)
qed

section \<open>One rectangle\<close>

lemma rect_ok_not_empty: "rect_ok r \<Longrightarrow> \<not> IsRectEmpty r"
  by (auto simp: rect_ok_def IsRectEmpty_def)

lemma DoesIntersect_not_ok: "\<not> rect_ok r \<Longrightarrow> \<not> DoesIntersect q r"
  by (auto simp: DoesIntersect_iff rect_ok_def rect_pts_def)

lemma rect_pts_not_ok: "\<not> rect_ok r \<Longrightarrow> rect_pts r = {}"
  by (auto simp: rect_ok_def rect_pts_def)

lemma rect_region_store:
  assumes "rgn_wf (st (Rgn n))" "rect_ok r"
  shows "rgn_wf ((st(Local 2 := rect_region r)) (Rgn n))"
    and "rgn_wf ((st(Local 2 := rect_region r)) (Local 2))"
    and "rgn_pts ((st(Local 2 := rect_region r)) (Local 2)) = rect_pts r"
  using assms(1) rect_region_wf [OF assms(2)] by (simp_all add: rect_region_pts)

lemma AddClipRect_spec:
  assumes "rgn_wf (st (Rgn n))" "rect_ok r \<or> IsRectEmpty r" "st1 = snd (AddClipRect st (Rgn n) r)"
  shows "rgn_wf (st1 (Rgn n)) \<and> rgn_pts (st1 (Rgn n)) = rgn_pts (st (Rgn n)) \<union> rect_pts r
    \<and> (\<forall>m. m \<noteq> n \<longrightarrow> st1 (Rgn m) = st (Rgn m))"
proof (cases "rect_ok r")
  case True
  let ?st = "st(Local 2 := rect_region r)"
  note R = rect_region_store [where st = st, OF assms(1) True]
  obtain ok u where u: "UnionRegion ?st (Rgn n) (Rgn n) (Local 2) = (ok, u)"
    by (cases "UnionRegion ?st (Rgn n) (Rgn n) (Local 2)")
  with UnionRegion_spec [OF R(1,2) u] R(3) assms(3) rect_ok_not_empty [OF True]
  show ?thesis by (simp add: AddClipRect_def)
qed (use assms rect_pts_not_ok in \<open>auto simp: AddClipRect_def\<close>)

lemma IntersectClipRect_spec:
  assumes "rgn_wf (st (Rgn n))" "rect_ok r \<or> IsRectEmpty r" "st1 = snd (IntersectClipRect st (Rgn n) r)"
  shows "rgn_wf (st1 (Rgn n)) \<and> rgn_pts (st1 (Rgn n)) = rgn_pts (st (Rgn n)) \<inter> rect_pts r
    \<and> (\<forall>m. m \<noteq> n \<longrightarrow> st1 (Rgn m) = st (Rgn m))"
proof (cases "rect_ok r")
  case True
  let ?st = "st(Local 2 := rect_region r)"
  note R = rect_region_store [where st = st, OF assms(1) True]
  obtain ok u where u: "ClipRgnIntersect ?st (Rgn n) (Rgn n) (Local 2) = (ok, u)"
    by (cases "ClipRgnIntersect ?st (Rgn n) (Rgn n) (Local 2)")
  with ClipRgnIntersect_spec [OF R(1,2) u] R(3) assms(3) rect_ok_not_empty [OF True]
  show ?thesis by (simp add: IntersectClipRect_def)
qed (use assms rect_pts_not_ok in \<open>auto simp: IntersectClipRect_def\<close>)

lemma SubtractClipRect_spec:
  assumes "rgn_wf (st (Rgn n))" "st1 = snd (SubtractClipRect st (Rgn n) r)"
  shows "rgn_wf (st1 (Rgn n)) \<and> rgn_pts (st1 (Rgn n)) = rgn_pts (st (Rgn n)) - rect_pts r
    \<and> (\<forall>m. m \<noteq> n \<longrightarrow> st1 (Rgn m) = st (Rgn m))"
proof (cases "DoesIntersect (rcBound (st (Rgn n))) r")
  case True
  then have ok: "rect_ok r" using DoesIntersect_not_ok by blast
  let ?st = "st(Local 2 := rect_region r)"
  note R = rect_region_store [where st = st, OF assms(1) ok]
  obtain okay u where u: "SubtractRegion ?st (Rgn n) (Rgn n) (Local 2) = (okay, u)"
    by (cases "SubtractRegion ?st (Rgn n) (Rgn n) (Local 2)")
  with SubtractRegion_spec [OF R(1,2) u] R(3) assms(2) rect_ok_not_empty [OF ok] True
  show ?thesis by (simp add: SubtractClipRect_def)
next
  case False
  then have "rect_pts (rcBound (st (Rgn n))) \<inter> rect_pts r = {}" by (simp add: DoesIntersect_iff)
  moreover have "rgn_pts (st (Rgn n)) \<subseteq> rect_pts (rcBound (st (Rgn n)))"
    using rgn_pts_bound [OF assms(1)] by auto
  ultimately have "rgn_pts (st (Rgn n)) - rect_pts r = rgn_pts (st (Rgn n))" by blast
  with False assms show ?thesis by (simp add: SubtractClipRect_def)
qed

text \<open>adding, intersecting and subtracting one proper rectangle are the set operations on
  the pixels of the region; no other region changes.\<close>

theorem ClipRect_ops_correct:
  assumes "rgn_wf (st (Rgn n))" "rect_ok r"
    and "st1 = snd (AddClipRect st (Rgn n) r)" "st2 = snd (IntersectClipRect st (Rgn n) r)"
    and "st3 = snd (SubtractClipRect st (Rgn n) r)"
  shows "rgn_wf (st1 (Rgn n)) \<and> rgn_pts (st1 (Rgn n)) = rgn_pts (st (Rgn n)) \<union> rect_pts r
    \<and> rgn_wf (st2 (Rgn n)) \<and> rgn_pts (st2 (Rgn n)) = rgn_pts (st (Rgn n)) \<inter> rect_pts r
    \<and> rgn_wf (st3 (Rgn n)) \<and> rgn_pts (st3 (Rgn n)) = rgn_pts (st (Rgn n)) - rect_pts r
    \<and> (\<forall>m. m \<noteq> n \<longrightarrow> st1 (Rgn m) = st (Rgn m) \<and> st2 (Rgn m) = st (Rgn m) \<and> st3 (Rgn m) = st (Rgn m))"
  using AddClipRect_spec [where st = st, OF assms(1) disjI1, OF assms(2,3)]
    IntersectClipRect_spec [where st = st, OF assms(1) disjI1, OF assms(2,4)]
    SubtractClipRect_spec [where st = st, OF assms(1,5)] by blast

theorem ClipRect_ops_correct_witness:
  "rgn_pts (snd (SubtractClipRect two_rgns (Rgn 0) (mk_rect 2 2 4 4)) (Rgn 0))
     = rect_pts (mk_rect 0 0 10 10) - rect_pts (mk_rect 2 2 4 4)"
proof -
  have "rect_ok (mk_rect 2 2 4 4)" by (simp add: rect_ok_def)
  from ClipRect_ops_correct [where st = two_rgns and n = 0, OF two_rgns_wf this refl refl refl] show ?thesis
    by (simp add: two_rgns_def rect_region_pts)
qed

section \<open>Scrolling\<close>

text \<open>What the loop does to one rectangle.\<close>

definition scroll_rect :: "RECT \<Rightarrow> int \<Rightarrow> int \<Rightarrow> RECT \<Rightarrow> RECT list" where
  "scroll_rect rc x y c =
     (if \<not> DoesIntersect c rc then [c]
      else
        let c2 = OffsetRect (if \<not> IsCovered c rc then snd (IntersectRect c rc) else c) x y
        in if \<not> DoesIntersect c2 rc then []
           else [if \<not> IsCovered c2 rc then snd (IntersectRect c2 rc) else c2])"

lemma cliprects_SetExtents [simp]: "cliprects (REGION_SetExtents r) = cliprects r"
  by (simp add: REGION_SetExtents_def Let_def split: list.splits)

lemma offset_ex_loop_rects:
  "cliprects region = past @ cs \<Longrightarrow>
   cliprects (offset_ex_loop rc x y region past cs) = past @ concat (map (scroll_rect rc x y) cs)"
proof (induction cs arbitrary: region past)
  case (Cons c cs)
  then show ?case by (simp add: scroll_rect_def Let_def)
qed simp

lemma IsCovered_pts: "IsCovered c rc \<Longrightarrow> rect_pts c \<inter> rect_pts rc = rect_pts c"
  by (auto simp: IsCovered_def)

lemma covered_or_cut:
  "rect_pts (if \<not> IsCovered c rc then snd (IntersectRect c rc) else c) = rect_pts c \<inter> rect_pts rc"
  using IntersectRect_pts [of c rc] by (simp add: IsCovered_pts)

lemma scroll_rect_pts:
  "rects_pts (scroll_rect rc x y c) = (if DoesIntersect c rc
     then (\<lambda>(u, v). (u + x, v + y)) ` (rect_pts c \<inter> rect_pts rc) \<inter> rect_pts rc else rect_pts c)"
proof (cases "DoesIntersect c rc")
  case True
  define c2 where "c2 = OffsetRect (if \<not> IsCovered c rc then snd (IntersectRect c rc) else c) x y"
  have c2: "rect_pts c2 = (\<lambda>(u, v). (u + x, v + y)) ` (rect_pts c \<inter> rect_pts rc)"
    unfolding c2_def rect_pts_OffsetRect covered_or_cut ..
  have "rects_pts (scroll_rect rc x y c) = rect_pts c2 \<inter> rect_pts rc"
  proof (cases "DoesIntersect c2 rc")
    case True
    then have "scroll_rect rc x y c = [if \<not> IsCovered c2 rc then snd (IntersectRect c2 rc) else c2]"
      using \<open>DoesIntersect c rc\<close> by (simp add: scroll_rect_def c2_def Let_def)
    then show ?thesis using covered_or_cut [of c2 rc] by (simp only: rects_pts_simps Un_empty_right)
  next
    case False
    with \<open>DoesIntersect c rc\<close> show ?thesis
      by (simp add: scroll_rect_def c2_def [symmetric] Let_def DoesIntersect_iff)
  qed
  with True c2 show ?thesis by simp
qed (simp add: scroll_rect_def)

text \<open>what \<open>OffsetRegionEx\<close> does to the pixels: rectangles that miss the scrolled area stay,
  and the pixels of the others that lie in it are moved and cut to it. The parts of those
  rectangles outside the area are lost.\<close>

theorem OffsetRegionEx_pixels:
  assumes "rc = snd (IntersectRect cl sc)" "fst (IntersectRect cl sc)"
  shows "rgn_pts (OffsetRegionEx region (Some cl) (Some sc) x y) =
    (\<Union>c \<in> {c \<in> set (cliprects region). \<not> DoesIntersect c rc}. rect_pts c)
    \<union> ((\<lambda>(u, v). (u + x, v + y)) ` (rgn_pts region \<inter> rect_pts rc) \<inter> rect_pts rc)"
proof -
  have "cliprects (OffsetRegionEx region (Some cl) (Some sc) x y)
      = concat (map (scroll_rect rc x y) (cliprects region))"
    using assms offset_ex_loop_rects [of region "[]" "cliprects region" rc x y]
    by (simp add: OffsetRegionEx_def)
  then have "rgn_pts (OffsetRegionEx region (Some cl) (Some sc) x y)
      = (\<Union>c \<in> set (cliprects region). rects_pts (scroll_rect rc x y c))"
    by (auto simp: rgn_pts_def rects_pts_def)
  also have "\<dots> = (\<Union>c \<in> {c \<in> set (cliprects region). \<not> DoesIntersect c rc}. rect_pts c)
    \<union> ((\<lambda>(u, v). (u + x, v + y)) ` (rgn_pts region \<inter> rect_pts rc) \<inter> rect_pts rc)"
  proof -
    define T where "T c = (\<lambda>(u, v). (u + x, v + y)) ` (rect_pts c \<inter> rect_pts rc) \<inter> rect_pts rc" for c
    have "T c = {}" if "\<not> DoesIntersect c rc" for c
      using that by (simp add: T_def DoesIntersect_iff)
    then have split: "(\<Union>c \<in> S. if DoesIntersect c rc then T c else rect_pts c)
        = (\<Union>c \<in> {c \<in> S. \<not> DoesIntersect c rc}. rect_pts c) \<union> (\<Union>c \<in> S. T c)" for S
      by (auto split: if_splits)
    have all: "(\<Union>c \<in> S. T c) = (\<lambda>(u, v). (u + x, v + y)) ` ((\<Union>c \<in> S. rect_pts c) \<inter> rect_pts rc)
        \<inter> rect_pts rc" for S unfolding T_def by blast
    have "rects_pts (scroll_rect rc x y c) = (if DoesIntersect c rc then T c else rect_pts c)" for c
      by (simp add: scroll_rect_pts T_def)
    then show ?thesis unfolding rgn_pts_def rects_pts_def [of "cliprects region"] by (simp only: split all)
  qed
  finally show ?thesis .
qed

theorem OffsetRegionEx_pixels_witness:
  "rgn_pts (OffsetRegionEx (rect_region (mk_rect 0 0 10 10)) (Some (mk_rect 0 0 5 5))
      (Some (mk_rect 0 0 20 20)) 2 0)
    = (\<lambda>(u, v). (u + 2, v)) ` (rect_pts (mk_rect 0 0 10 10) \<inter> rect_pts (mk_rect 0 0 5 5))
        \<inter> rect_pts (mk_rect 0 0 5 5)"
proof -
  have i: "IntersectRect (mk_rect 0 0 5 5) (mk_rect 0 0 20 20) = (True, mk_rect 0 0 5 5)"
    by (simp add: IntersectRect_def mk_rect_def)
  have "DoesIntersect (mk_rect 0 0 10 10) (mk_rect 0 0 5 5)" by (simp add: DoesIntersect_def)
  then have "{c \<in> set (cliprects (rect_region (mk_rect 0 0 10 10))). \<not> DoesIntersect c (mk_rect 0 0 5 5)} = {}"
    by (auto simp: rect_region_def)
  with OffsetRegionEx_pixels [of "mk_rect 0 0 5 5" "mk_rect 0 0 5 5" "mk_rect 0 0 20 20"
      "rect_region (mk_rect 0 0 10 10)" 2 0] i
  show ?thesis by (simp add: rect_region_pts)
qed

text \<open>Scrolling the last rectangle out leaves an empty list with the old type and bounds, and the
  next \<open>PtInRegion\<close> reads through a NULL \<open>tail\<close>.\<close>

lemma OffsetRegionEx_stale:
  "let r = OffsetRegionEx (rect_region (mk_rect 0 0 10 10)) (Some (mk_rect 0 0 10 10))
             (Some (mk_rect 0 0 10 10)) 20 0
   in cliprects r = [] \<and> rgn_type r = SIMPLEREGION \<and> rcBound r = mk_rect 0 0 10 10
      \<and> PtInRegion r 3 3 = None"
  by (simp add: OffsetRegionEx_def IntersectRect_def mk_rect_def rect_region_def DoesIntersect_def
      IsCovered_def OffsetRect_def PtInRegion_def)

section \<open>Circles and ellipses\<close>

definition span_pts :: "(int \<times> int \<times> int) list \<Rightarrow> (int \<times> int) set" where
  "span_pts l = (\<Union>(x1, x2, y) \<in> set l. {min x1 x2 .. max x1 x2} \<times> {y})"

definition trace :: "(int \<times> int \<times> int) list span_cb" where
  "trace l x1 x2 y = l @ [(x1, x2, y)]"

definition rgn_of_trace :: "rgns \<Rightarrow> nat \<Rightarrow> rgns \<Rightarrow> (int \<times> int \<times> int) list \<Rightarrow> bool" where
  "rgn_of_trace st0 n st l \<longleftrightarrow> rgn_wf (st (Rgn n)) \<and> rgn_pts (st (Rgn n)) = span_pts l
     \<and> (\<forall>m. m \<noteq> n \<longrightarrow> st (Rgn m) = st0 (Rgn m))"

lemma IsEmptyClipRgn_pts: "rgn_wf r \<Longrightarrow> IsEmptyClipRgn r \<Longrightarrow> rgn_pts r = {}"
  using rgn_pts_bound by (fastforce simp: IsEmptyClipRgn_def IsRectEmpty_def rgn_pts_nil)

lemma cb_region_trace:
  assumes "rgn_of_trace st0 n st l"
  shows "rgn_of_trace st0 n (cb_region (Rgn n) st x1 x2 y) (trace l x1 x2 y)"
proof -
  define r where "r = (if x2 > x1 then mk_rect x1 y (x2 + 1) (y + 1) else mk_rect x2 y (x1 + 1) (y + 1))"
  let ?st = "st(Local 3 := rect_region r)"
  have ok: "rect_ok r" by (auto simp: r_def rect_ok_def)
  have wf: "rgn_wf (?st (Rgn n))" "rgn_wf (?st (Local 3))"
    using assms rect_region_wf [OF ok] by (simp_all add: rgn_of_trace_def)
  have pts: "rgn_pts (?st (Local 3)) = {min x1 x2 .. max x1 x2} \<times> {y}"
    by (auto simp: rect_region_pts r_def rect_pts_def)
  have l: "rgn_pts (st (Rgn n)) \<union> rgn_pts (?st (Local 3)) = span_pts (trace l x1 x2 y)"
    using assms pts by (auto simp: rgn_of_trace_def span_pts_def trace_def)
  obtain ok u where u: "UnionRegion ?st (Rgn n) (Rgn n) (Local 3) = (ok, u)"
    by (cases "UnionRegion ?st (Rgn n) (Rgn n) (Local 3)")
  note U = UnionRegion_spec [OF wf u]
  note C = ClipRgnCopy_correct [where st = ?st and s = "Local 3" and d = "Rgn n", OF wf(2)]
  have run: "cb_region (Rgn n) st x1 x2 y = (if IsEmptyClipRgn (st (Rgn n))
      then snd (ClipRgnCopy ?st (Rgn n) (Local 3)) else u)"
    using u by (simp add: cb_region_def r_def [symmetric] Let_def)
  show ?thesis
  proof (cases "IsEmptyClipRgn (st (Rgn n))")
    case True
    with IsEmptyClipRgn_pts [of "st (Rgn n)"] wf(1) have "rgn_pts (st (Rgn n)) = {}" by simp
    with True C l assms run show ?thesis by (simp add: rgn_of_trace_def)
  next
    case False
    with U l assms run show ?thesis by (simp add: rgn_of_trace_def)
  qed
qed

text \<open>\<open>InitCircleRegion\<close> and \<open>InitEllipseRegion\<close> return TRUE and make a well-formed region
  of exactly the pixels of the scan lines of their generators, for all radii from 1 on.\<close>

theorem InitRegion_spans:
  assumes "1 \<le> r" "1 \<le> rx" "1 \<le> ry"
  shows "(let (ok, st') = InitCircleRegion st (Rgn n) x y r in
      ok \<and> rgn_wf (st' (Rgn n)) \<and> rgn_pts (st' (Rgn n)) = span_pts (CircleGenerator trace [] x y r)
      \<and> (\<forall>m. m \<noteq> n \<longrightarrow> st' (Rgn m) = st (Rgn m)))
    \<and> (\<exists>st' l. InitEllipseRegion st (Rgn n) x y rx ry = Some (True, st')
        \<and> EllipseGenerator trace [] x y rx ry = Some l
        \<and> rgn_wf (st' (Rgn n)) \<and> rgn_pts (st' (Rgn n)) = span_pts l
        \<and> (\<forall>m. m \<noteq> n \<longrightarrow> st' (Rgn m) = st (Rgn m)))"
proof -
  let ?st = "st(Rgn n := EmptyClipRgn (st (Rgn n)))"
  have start: "rgn_of_trace st n ?st []" by (simp add: rgn_of_trace_def span_pts_def)
  have "rgn_of_trace st n (CircleGenerator (cb_region (Rgn n)) ?st x y r) (CircleGenerator trace [] x y r)"
    by (rule CircleGenerator_rel [where R = "rgn_of_trace st n", OF cb_region_trace start])
  moreover have "\<exists>c' d'. EllipseGenerator (cb_region (Rgn n)) ?st x y rx ry = Some c'
      \<and> EllipseGenerator trace [] x y rx ry = Some d' \<and> rgn_of_trace st n c' d'"
    by (rule EllipseGenerator_rel [where R = "rgn_of_trace st n", OF cb_region_trace start])
  ultimately show ?thesis
    using assms by (auto simp: InitCircleRegion_def InitEllipseRegion_def rgn_of_trace_def Let_def)
qed

theorem InitRegion_spans_witness:
  "(20, 10) \<in> rgn_pts (snd (InitCircleRegion two_rgns (Rgn 0) 20 10 1) (Rgn 0))
   \<and> rgn_wf (snd (InitCircleRegion two_rgns (Rgn 0) 20 10 1) (Rgn 0))"
proof -
  have "(20, 10) \<in> span_pts (CircleGenerator trace [] 20 10 1)"
    by (simp add: CircleGenerator_def circle_loop.simps circle_spans_def Let_def trace_def span_pts_def)
  then show ?thesis
    using InitRegion_spans [of 1 1 1 two_rgns 0 20 10] by (auto split: prod.splits)
qed

text \<open>With a radius below 1 the region gets its pixel but keeps the type \<open>NULLREGION\<close> and the
  empty bounds, so the queries do not see it.\<close>

lemma InitCircleRegion_small:
  "let r = snd (InitCircleRegion two_rgns (Rgn 0) 20 10 0) (Rgn 0)
   in rgn_pts r = {(20, 10)} \<and> PtInRegion r 20 10 = Some False \<and> IsEmptyClipRgn r
      \<and> \<not> RectInRegion r (mk_rect 0 0 100 100)"
  by (auto simp: InitCircleRegion_def one_pixel_def EmptyClipRgn_def PtInRegion_def IsEmptyClipRgn_def
      IsRectEmpty_def SetRectEmpty_def SetRect_def RectInRegion_def EXTENTCHECK_def rgn_pts_def
      rect_pts_def Let_def)

text \<open>The union of two stacked rectangles of the same width is not coalesced.\<close>

lemma UnionRegion_last_band_not_merged:
  "cliprects (snd (UnionRegion (two_rgns(Rgn 1 := rect_region (mk_rect 0 10 10 20))) (Rgn 2) (Rgn 0) (Rgn 1)) (Rgn 2))
     = [mk_rect 0 0 10 10, mk_rect 0 10 10 20]"
proof -
  let ?st = "two_rgns(Rgn 1 := rect_region (mk_rect 0 10 10 20))"
  have "RegionOp_rects REGION_UnionO (Some REGION_UnionNonO) (Some REGION_UnionNonO)
      (rect_region (mk_rect 0 0 10 10)) (rect_region (mk_rect 0 10 10 20))
      = [mk_rect 0 0 10 10, mk_rect 0 10 10 20]"
    by (simp add: RegionOp_rects_def rect_region_def region_sweep.simps band_step_def nonoverlap_part_def
        call_nonoverlap_def coalesce_if_grown_def tail_ix_def REGION_Coalesce_def band_end_def
        leftover.simps Let_def)
  then show ?thesis
    by (simp add: UnionRegion_def subsumes_def set_extents_type_def REGION_RegionOp_sel two_rgns_def
        Let_def) (simp add: rect_region_def)
qed

end
