(* ===== verification/MG_KernelData.thy ===== *)
theory MG_KernelData
  imports MG_Prelude
begin

text \<open>
  The data the timer and message modules share: handles, the fields of a window they read,
  the message and the \<open>MSGQUEUE\<close> of \<open>src/include/internals.h\<close>, and the inline checks there.

  A handle is an address. \<open>windows\<close> is the part of memory that holds window objects; an
  address outside it does not pass the \<open>DataType\<close> test. A message queue is named by a
  number, and each message thread owns one queue, so comparing the threads of two queues is
  comparing their names. The bits of \<open>dwState\<close> are a set of the flags \<open>QS_*\<close>.
\<close>

section \<open>Handles and windows\<close>

type_synonym HWND = dword

definition HWND_NULL :: HWND where "HWND_NULL = 0"
definition HWND_INVALID :: HWND where "HWND_INVALID = - 1"

datatype data_type = TYPE_HWND | TYPE_WINTODEL | TYPE_UNDEFINED
datatype win_type = TYPE_MAINWIN | TYPE_CONTROL | TYPE_ROOTWIN | TYPE_VIRTWIN

record WINDOW =
  DataType :: data_type
  WinType :: win_type
  pMainWin :: HWND
  pMsgQueue :: nat

type_synonym windows = "HWND \<rightharpoonup> WINDOW"

definition MG_IS_WINDOW :: "windows \<Rightarrow> HWND \<Rightarrow> bool" where
  "MG_IS_WINDOW wins h \<longleftrightarrow> h \<noteq> HWND_NULL \<and> h \<noteq> HWND_INVALID
     \<and> (case wins h of None \<Rightarrow> False | Some w \<Rightarrow> DataType w = TYPE_HWND)"

definition win_type_is :: "windows \<Rightarrow> HWND \<Rightarrow> win_type \<Rightarrow> bool" where
  "win_type_is wins h t \<longleftrightarrow> (case wins h of None \<Rightarrow> False | Some w \<Rightarrow> WinType w = t)"

definition MG_IS_CONTROL_WINDOW :: "windows \<Rightarrow> HWND \<Rightarrow> bool" where
  "MG_IS_CONTROL_WINDOW wins h \<longleftrightarrow> MG_IS_WINDOW wins h \<and> win_type_is wins h TYPE_CONTROL"

definition MG_IS_MAIN_VIRT_WINDOW :: "windows \<Rightarrow> HWND \<Rightarrow> bool" where
  "MG_IS_MAIN_VIRT_WINDOW wins h \<longleftrightarrow> MG_IS_WINDOW wins h
     \<and> (win_type_is wins h TYPE_MAINWIN \<or> win_type_is wins h TYPE_VIRTWIN)"

text \<open>NULL is \<open>None\<close> for a pointer result.\<close>

definition main_win_of :: "windows \<Rightarrow> HWND \<Rightarrow> HWND option" where
  "main_win_of wins h = (case wins h of None \<Rightarrow> None
     | Some w \<Rightarrow> if pMainWin w = HWND_NULL then None else Some (pMainWin w))"

definition checkAndGetMainWindowIfControl :: "windows \<Rightarrow> HWND \<Rightarrow> HWND option" where
  "checkAndGetMainWindowIfControl wins h =
     (if \<not> MG_IS_CONTROL_WINDOW wins h then None else main_win_of wins h)"

definition getMainWindowPtr :: "windows \<Rightarrow> HWND \<Rightarrow> HWND option" where
  "getMainWindowPtr wins h = (if \<not> MG_IS_WINDOW wins h then None else main_win_of wins h)"

definition getMsgQueue :: "windows \<Rightarrow> HWND \<Rightarrow> nat option" where
  "getMsgQueue wins h =
     (case getMainWindowPtr wins h of None \<Rightarrow> None | Some m \<Rightarrow> map_option pMsgQueue (wins m))"

text \<open>\<open>self\<close> is the queue of the calling thread.\<close>

definition getMainWinIfWindowInThisThread :: "windows \<Rightarrow> nat \<Rightarrow> HWND \<Rightarrow> HWND option" where
  "getMainWinIfWindowInThisThread wins self h =
     (case getMainWindowPtr wins h of None \<Rightarrow> None
      | Some m \<Rightarrow> if map_option pMsgQueue (wins m) = Some self then Some m else None)"

definition getMsgQueueIfWindowInThisThread :: "windows \<Rightarrow> nat \<Rightarrow> HWND \<Rightarrow> nat option" where
  "getMsgQueueIfWindowInThisThread wins self h =
     (case getMainWinIfWindowInThisThread wins self h of None \<Rightarrow> None | Some _ \<Rightarrow> Some self)"

section \<open>Window trees\<close>

text \<open>
  A window with its children in the order of \<open>next\<close>, and a main window with the windows it
  hosts in the order of \<open>pNextHosted\<close>. \<open>needs_paint\<close>: the invalid region has a rectangle.
\<close>

datatype CONTROL = CONTROL (ctrl_hwnd: HWND) (is_virtual: bool) (needs_paint: bool) (children: "CONTROL list")

datatype MAINWIN = MAINWIN (main_ctrl: CONTROL) (mw_queue: nat) (hosted: "MAINWIN list")

section \<open>Messages\<close>

record MSG =
  hwnd :: HWND
  message :: nat
  wParam :: dword
  lParam :: dword
  msg_time :: dword
  pSyncMsg :: "nat option"

definition zero_msg :: MSG where
  "zero_msg = \<lparr>hwnd = 0, message = 0, wParam = 0, lParam = 0, msg_time = 0, pSyncMsg = None\<rparr>"

definition MSG_MOUSEMOVE :: nat where "MSG_MOUSEMOVE = 0x0004"
definition MSG_NCMOUSEMOVE :: nat where "MSG_NCMOUSEMOVE = 0x000E"
definition MSG_DT_MOUSEMOVE :: nat where "MSG_DT_MOUSEMOVE = 0x00D4"
definition MSG_PAINT :: nat where "MSG_PAINT = 0x00B1"
definition MSG_NOTIFICATION :: nat where "MSG_NOTIFICATION = 0x0136"
definition MSG_QUIT :: nat where "MSG_QUIT = 0x0140"
definition MSG_IDLE :: nat where "MSG_IDLE = 0x0142"
definition MSG_TIMEOUT :: nat where "MSG_TIMEOUT = 0x0143"
definition MSG_TIMER :: nat where "MSG_TIMER = 0x0144"
definition MSG_CARETBLINK :: nat where "MSG_CARETBLINK = 0x0145"

lemmas msg_codes = MSG_MOUSEMOVE_def MSG_NCMOUSEMOVE_def MSG_DT_MOUSEMOVE_def MSG_PAINT_def
  MSG_NOTIFICATION_def MSG_QUIT_def MSG_IDLE_def MSG_TIMEOUT_def MSG_TIMER_def MSG_CARETBLINK_def

section \<open>Timers and queues\<close>

text \<open>A timer procedure is the address of its code; NULL is \<open>None\<close>.\<close>

record TIMER =
  tm_hWnd :: HWND
  tm_id :: int
  interv :: dword
  ticks_expected :: dword
  ticks_fired :: dword
  tm_proc :: "nat option"

datatype QS = QS_NOTIFYMSG | QS_SYNCMSG | QS_POSTMSG | QS_QUIT | QS_INPUT | QS_PAINT | QS_DESKTIMER

text \<open>A sync message lives on the stack of its sender; \<open>sem_posts\<close> counts \<open>sem_post\<close>.\<close>

record SYNCMSG =
  sMsg :: MSG
  retval :: int
  sem_posts :: nat
  pNext :: "nat option"

record MSGQUEUE =
  wait_sem :: nat
  dwState :: "QS set"
  notify_msgs :: "MSG list"
  pFirstSyncMsg :: "nat option"
  pLastSyncMsg :: "nat option"
  OnIdle :: bool
  pRootMainWin :: "MAINWIN option"
  nrWindows :: int
  len :: nat
  msgs :: "MSG list"
  readpos :: nat
  writepos :: nat
  loop_depth :: int
  idle_counter :: int
  last_ticks :: dword
  nr_timers :: int
  first_timer_slot :: nat
  timer_slots :: "TIMER option list"
  old_tick_count :: dword
  expired_timer_mask :: dword

definition DEF_NR_TIMERS :: nat where "DEF_NR_TIMERS = 64"
definition DEF_MSGQUEUE_LEN :: nat where "DEF_MSGQUEUE_LEN = 64"
definition MAX_IDLE_COUNTER :: int where "MAX_IDLE_COUNTER = 30"
definition DESKTOP_TIMER_INERTVAL :: dword where "DESKTOP_TIMER_INERTVAL = 10"

text \<open>
  \<open>mg_InitMsgQueue\<close>: \<open>os_ok\<close> says that the mutex and the semaphore could be initialised,
  \<open>malloc_ok\<close> that the buffer could be allocated; the messages in a new buffer are whatever
  \<open>malloc\<close> returns, here zero. On failure the queue must not be used.
\<close>

definition zero_queue :: MSGQUEUE where
  "zero_queue = \<lparr>wait_sem = 0, dwState = {}, notify_msgs = [], pFirstSyncMsg = None, pLastSyncMsg = None,
     OnIdle = False, pRootMainWin = None, nrWindows = 0, len = 0, msgs = [], readpos = 0, writepos = 0,
     loop_depth = 0, idle_counter = 0, last_ticks = 0, nr_timers = 0, first_timer_slot = 0,
     timer_slots = replicate DEF_NR_TIMERS None, old_tick_count = 0, expired_timer_mask = 0\<rparr>"

definition InitMsgQueue :: "dword \<Rightarrow> bool \<Rightarrow> bool \<Rightarrow> int \<Rightarrow> bool \<times> MSGQUEUE" where
  "InitMsgQueue tick os_ok malloc_ok iBufferLen =
     (if \<not> os_ok then (False, zero_queue)
      else
        let n = (if iBufferLen \<le> 0 then DEF_MSGQUEUE_LEN else nat iBufferLen)
        in if \<not> malloc_ok then (False, zero_queue)
           else (True, zero_queue\<lparr>msgs := replicate n zero_msg, len := n, OnIdle := True, old_tick_count := tick\<rparr>))"

definition fresh_queue :: MSGQUEUE where
  "fresh_queue = snd (InitMsgQueue 0 True True 0)"

text \<open>Signalling a queue: the semaphore is raised only when it is down.\<close>

definition POST_MSGQ :: "MSGQUEUE \<Rightarrow> MSGQUEUE" where
  "POST_MSGQ q = (if wait_sem q = 0 then q\<lparr>wait_sem := 1\<rparr> else q)"

text \<open>One bit of the mask of expired timers.\<close>

definition slot_bit :: "nat \<Rightarrow> dword" where
  "slot_bit i = push_bit i 1"

lemma bit_mask_or [simp]: "i < 64 \<Longrightarrow> bit (m OR slot_bit i) j \<longleftrightarrow> bit m j \<or> j = i"
  by (auto simp: slot_bit_def bit_simps)

lemma bit_mask_clear [simp]: "bit (m AND NOT (slot_bit i)) j \<longleftrightarrow> bit m j \<and> j \<noteq> i"
  for m :: dword
  by (auto simp: slot_bit_def bit_simps dest: bit_imp_le_length)

lemma and_slot_bit [simp]: "i < 64 \<Longrightarrow> m AND slot_bit i \<noteq> 0 \<longleftrightarrow> bit m i" for m :: dword
  by (simp add: slot_bit_def push_bit_of_1 and_exp_eq_0_iff_not_bit)

lemma POST_MSGQ_sel [simp]:
  "dwState (POST_MSGQ q) = dwState q" "notify_msgs (POST_MSGQ q) = notify_msgs q"
  "pFirstSyncMsg (POST_MSGQ q) = pFirstSyncMsg q" "pLastSyncMsg (POST_MSGQ q) = pLastSyncMsg q"
  "OnIdle (POST_MSGQ q) = OnIdle q" "pRootMainWin (POST_MSGQ q) = pRootMainWin q"
  "len (POST_MSGQ q) = len q" "msgs (POST_MSGQ q) = msgs q"
  "readpos (POST_MSGQ q) = readpos q" "writepos (POST_MSGQ q) = writepos q"
  "last_ticks (POST_MSGQ q) = last_ticks q" "nr_timers (POST_MSGQ q) = nr_timers q"
  "first_timer_slot (POST_MSGQ q) = first_timer_slot q"
  "timer_slots (POST_MSGQ q) = timer_slots q" "loop_depth (POST_MSGQ q) = loop_depth q"
  "expired_timer_mask (POST_MSGQ q) = expired_timer_mask q"
  "idle_counter (POST_MSGQ q) = idle_counter q" "wait_sem (POST_MSGQ q) \<noteq> 0"
  by (simp_all add: POST_MSGQ_def)

text \<open>The flags in the order in which \<open>PeekMessageEx\<close> serves what they announce.\<close>

instantiation QS :: linorder
begin

definition qs_rank :: "QS \<Rightarrow> nat" where
  "qs_rank f = (case f of QS_QUIT \<Rightarrow> 0 | QS_SYNCMSG \<Rightarrow> 1 | QS_NOTIFYMSG \<Rightarrow> 2 | QS_POSTMSG \<Rightarrow> 3
     | QS_PAINT \<Rightarrow> 4 | QS_DESKTIMER \<Rightarrow> 5 | QS_INPUT \<Rightarrow> 6)"

definition less_eq_QS :: "QS \<Rightarrow> QS \<Rightarrow> bool" where "less_eq_QS a b \<longleftrightarrow> qs_rank a \<le> qs_rank b"
definition less_QS :: "QS \<Rightarrow> QS \<Rightarrow> bool" where "less_QS a b \<longleftrightarrow> qs_rank a < qs_rank b"

instance
  by standard (auto simp: less_eq_QS_def less_QS_def qs_rank_def split: QS.splits)

end

end
