(* ===== verification/MG_Timer.thy ===== *)
theory MG_Timer
  imports MG_KernelData
begin

text \<open>
  The timers of a message queue, from \<open>src/kernel/timer.c\<close>: tick counting, expiry, and the
  set, kill, reset and query operations. A scan over \<open>timer_slots\<close> is a recursion over the
  slot list with the index of its first slot. \<open>now\<close> is what the system clock returns, and
  \<open>is_dsk\<close> says that the queue is the desktop's.
\<close>

section \<open>Ticks\<close>

definition update_tick_count :: "bool \<Rightarrow> dword \<Rightarrow> MSGQUEUE \<Rightarrow> MSGQUEUE" where
  "update_tick_count is_dsk now q =
     (if now \<noteq> last_ticks q then
        let q1 = (if is_dsk \<and> now > last_ticks q + DESKTOP_TIMER_INERTVAL
                  then POST_MSGQ (q\<lparr>dwState := insert QS_DESKTIMER (dwState q)\<rparr>) else q)
        in q1\<lparr>last_ticks := now\<rparr>
      else q)"

definition slot_expired :: "MSGQUEUE \<Rightarrow> nat \<Rightarrow> bool" where
  "slot_expired q i \<longleftrightarrow>
     (case timer_slots q ! i of None \<Rightarrow> False | Some t \<Rightarrow> last_ticks q \<ge> ticks_expected t)"

definition fire_slot :: "MSGQUEUE \<Rightarrow> nat \<Rightarrow> TIMER \<Rightarrow> MSGQUEUE" where
  "fire_slot q i t =
     (POST_MSGQ (q\<lparr>expired_timer_mask := expired_timer_mask q OR slot_bit i\<rparr>))
       \<lparr>timer_slots := (timer_slots q)[i :=
          Some (t\<lparr>ticks_expected := ticks_expected t + interv t, ticks_fired := last_ticks q\<rparr>)]\<rparr>"

definition check_slot :: "int \<times> MSGQUEUE \<Rightarrow> nat \<Rightarrow> int \<times> MSGQUEUE" where
  "check_slot st i =
     (case st of (nr, q) \<Rightarrow>
        (case timer_slots q ! i of
           None \<Rightarrow> (nr, q)
         | Some t \<Rightarrow> if last_ticks q \<ge> ticks_expected t then (nr + 1, fire_slot q i t) else (nr, q)))"

definition check_expired_timers :: "bool \<Rightarrow> dword \<Rightarrow> MSGQUEUE \<Rightarrow> dword \<Rightarrow> int \<times> MSGQUEUE" where
  "check_expired_timers is_dsk now q elapsed =
     (if elapsed = 0 then (0, q)
      else foldl check_slot (0, update_tick_count is_dsk now q) [0..<DEF_NR_TIMERS])"

section \<open>Set, kill, reset, query\<close>

definition timer_is :: "HWND \<Rightarrow> int \<Rightarrow> TIMER option \<Rightarrow> bool" where
  "timer_is h i s = (case s of None \<Rightarrow> False | Some t \<Rightarrow> tm_hWnd t = h \<and> tm_id t = i)"

text \<open>
  The loop of \<open>SetTimerEx\<close>: \<open>Inl k\<close> for the duplicate it meets at slot \<open>k\<close>, otherwise
  \<open>Inr\<close> of the first empty slot it has passed.
\<close>

fun find_timer_slot ::
  "HWND \<Rightarrow> int \<Rightarrow> nat \<Rightarrow> nat option \<Rightarrow> TIMER option list \<Rightarrow> nat + nat option" where
  "find_timer_slot h i k slot [] = Inr slot"
| "find_timer_slot h i k slot (s # ss) =
     (if s = None
      then find_timer_slot h i (Suc k) (if slot = None then Some k else slot) ss
      else if timer_is h i s then Inl k
      else find_timer_slot h i (Suc k) slot ss)"

definition restart_timer :: "MSGQUEUE \<Rightarrow> dword \<Rightarrow> TIMER \<Rightarrow> TIMER" where
  "restart_timer q iv t = t\<lparr>interv := iv, ticks_expected := last_ticks q + iv, ticks_fired := 0\<rparr>"

definition set_slot :: "MSGQUEUE \<Rightarrow> nat \<Rightarrow> TIMER option \<Rightarrow> MSGQUEUE" where
  "set_slot q k s = q\<lparr>timer_slots := (timer_slots q)[k := s]\<rparr>"

text \<open>\<open>win_ok\<close>: \<open>getMainWinIfWindowInThisThread (hWnd)\<close> is not NULL.\<close>

definition SetTimerEx ::
  "bool \<Rightarrow> dword \<Rightarrow> bool \<Rightarrow> MSGQUEUE \<Rightarrow> HWND \<Rightarrow> int \<Rightarrow> dword \<Rightarrow> nat option \<Rightarrow> bool \<times> MSGQUEUE" where
  "SetTimerEx is_dsk now win_ok q0 h i iv0 proc =
     (if i = 0 then (False, q0)
      else
        let iv = (if iv0 = 0 then 1 else iv0);
            q = update_tick_count is_dsk now q0
        in if proc = None \<and> \<not> win_ok then (False, q)
           else case find_timer_slot h i 0 None (timer_slots q) of
                  Inl k \<Rightarrow> (True, set_slot q k
                      (map_option (\<lambda>t. (restart_timer q iv t)\<lparr>tm_proc := proc\<rparr>) (timer_slots q ! k)))
                | Inr None \<Rightarrow> (False, q)
                | Inr (Some k) \<Rightarrow> (True, (set_slot q k
                      (Some \<lparr>tm_hWnd = h, tm_id = i, interv = iv, ticks_expected = last_ticks q + iv,
                             ticks_fired = 0, tm_proc = proc\<rparr>))
                      \<lparr>nr_timers := nr_timers q + 1\<rparr>))"

definition remove_timer :: "MSGQUEUE \<Rightarrow> int \<Rightarrow> MSGQUEUE" where
  "remove_timer q slot =
     (if slot < 0 \<or> slot \<ge> int DEF_NR_TIMERS then q
      else if timer_slots q ! nat slot \<noteq> None
      then (set_slot q (nat slot) None)\<lparr>nr_timers := nr_timers q - 1\<rparr>
      else q)"

definition remove_timers_by_msg_queue :: "MSGQUEUE \<Rightarrow> MSGQUEUE" where
  "remove_timers_by_msg_queue q =
     q\<lparr>timer_slots := map (\<lambda>s. if s \<noteq> None then None else s) (timer_slots q),
       nr_timers := nr_timers q - 1\<rparr>"

text \<open>The loop of \<open>KillTimer\<close> over the slots from \<open>k\<close> on; it stops at the first for \<open>id \<noteq> 0\<close>.\<close>

fun kill_timers :: "HWND \<Rightarrow> int \<Rightarrow> int \<Rightarrow> MSGQUEUE \<Rightarrow> nat list \<Rightarrow> int \<times> MSGQUEUE" where
  "kill_timers h i killed q [] = (killed, q)"
| "kill_timers h i killed q (k # ks) =
     (case timer_slots q ! k of
        None \<Rightarrow> kill_timers h i killed q ks
      | Some t \<Rightarrow>
          if tm_hWnd t = h \<and> (i = 0 \<or> tm_id t = i) then
            let q' = (set_slot q k None)
                       \<lparr>expired_timer_mask := expired_timer_mask q AND NOT (slot_bit k),
                        nr_timers := nr_timers q - 1\<rparr>
            in if i \<noteq> 0 then (killed + 1, q') else kill_timers h i (killed + 1) q' ks
          else kill_timers h i killed q ks)"

definition KillTimer :: "MSGQUEUE \<Rightarrow> HWND \<Rightarrow> int \<Rightarrow> int \<times> MSGQUEUE" where
  "KillTimer q h i = kill_timers h i 0 q [0..<DEF_NR_TIMERS]"

text \<open>\<open>INV_PTR\<close> as the procedure keeps the old one: \<open>None\<close> for \<open>proc\<close>.\<close>

fun reset_timer ::
  "HWND \<Rightarrow> int \<Rightarrow> dword \<Rightarrow> nat option option \<Rightarrow> MSGQUEUE \<Rightarrow> nat list \<Rightarrow> bool \<times> MSGQUEUE" where
  "reset_timer h i iv proc q [] = (False, q)"
| "reset_timer h i iv proc q (k # ks) =
     (case timer_slots q ! k of
        None \<Rightarrow> reset_timer h i iv proc q ks
      | Some t \<Rightarrow>
          if tm_hWnd t = h \<and> tm_id t = i then
            let t1 = restart_timer q iv t;
                t2 = (case proc of None \<Rightarrow> t1 | Some p \<Rightarrow> t1\<lparr>tm_proc := p\<rparr>)
            in (True, (set_slot q k (Some t2))
                  \<lparr>expired_timer_mask := expired_timer_mask q AND NOT (slot_bit k)\<rparr>)
          else reset_timer h i iv proc q ks)"

definition ResetTimerEx ::
  "bool \<Rightarrow> dword \<Rightarrow> MSGQUEUE \<Rightarrow> HWND \<Rightarrow> int \<Rightarrow> dword \<Rightarrow> nat option option \<Rightarrow> bool \<times> MSGQUEUE" where
  "ResetTimerEx is_dsk now q h i iv proc =
     (if i = 0 then (False, q)
      else reset_timer h i iv proc (update_tick_count is_dsk now q) [0..<DEF_NR_TIMERS])"

fun timer_installed :: "HWND \<Rightarrow> int \<Rightarrow> TIMER option list \<Rightarrow> bool" where
  "timer_installed h i [] = False"
| "timer_installed h i (s # ss) = (if timer_is h i s then True else timer_installed h i ss)"

definition IsTimerInstalled :: "MSGQUEUE \<Rightarrow> HWND \<Rightarrow> int \<Rightarrow> bool" where
  "IsTimerInstalled q h i = (if i = 0 then False else timer_installed h i (timer_slots q))"

fun have_free :: "TIMER option list \<Rightarrow> bool" where
  "have_free [] = False"
| "have_free (s # ss) = (if s = None then True else have_free ss)"

definition HaveFreeTimer :: "MSGQUEUE \<Rightarrow> bool" where
  "HaveFreeTimer q = have_free (timer_slots q)"

section \<open>The invariant and the table of timers\<close>

definition timers_inv :: "MSGQUEUE \<Rightarrow> bool" where
  "timers_inv q \<longleftrightarrow> length (timer_slots q) = DEF_NR_TIMERS
     \<and> (\<forall>j < DEF_NR_TIMERS. \<forall>k < DEF_NR_TIMERS. \<forall>t u. timer_slots q ! j = Some t \<longrightarrow> timer_slots q ! k = Some u
          \<longrightarrow> tm_hWnd t = tm_hWnd u \<longrightarrow> tm_id t = tm_id u \<longrightarrow> j = k)
     \<and> (\<forall>j < DEF_NR_TIMERS. \<forall>t. timer_slots q ! j = Some t \<longrightarrow> tm_id t \<noteq> 0)
     \<and> nr_timers q = int (card {j. j < DEF_NR_TIMERS \<and> timer_slots q ! j \<noteq> None})
     \<and> (\<forall>j. bit (expired_timer_mask q) j \<longrightarrow> j < DEF_NR_TIMERS \<and> timer_slots q ! j \<noteq> None)"

lemma timers_invD:
  assumes "timers_inv q"
  shows "length (timer_slots q) = DEF_NR_TIMERS"
    and "j < DEF_NR_TIMERS \<Longrightarrow> k < DEF_NR_TIMERS \<Longrightarrow> timer_slots q ! j = Some t \<Longrightarrow> timer_slots q ! k = Some u
      \<Longrightarrow> tm_hWnd t = tm_hWnd u \<Longrightarrow> tm_id t = tm_id u \<Longrightarrow> j = k"
    and "j < DEF_NR_TIMERS \<Longrightarrow> timer_slots q ! j = Some t \<Longrightarrow> tm_id t \<noteq> 0"
    and "bit (expired_timer_mask q) j \<Longrightarrow> j < DEF_NR_TIMERS"
    and "bit (expired_timer_mask q) j \<Longrightarrow> timer_slots q ! j \<noteq> None"
  using assms unfolding timers_inv_def by blast+

text \<open>The abstract table: window and identifier to timer.\<close>

definition timer_map :: "MSGQUEUE \<Rightarrow> HWND \<times> int \<rightharpoonup> TIMER" where
  "timer_map q key = Option.bind (find (timer_is (fst key) (snd key)) (timer_slots q)) id"

lemma timer_is_Some [simp]: "timer_is h i (Some t) \<longleftrightarrow> tm_hWnd t = h \<and> tm_id t = i"
  and timer_is_None [simp]: "\<not> timer_is h i None"
  by (simp_all add: timer_is_def)

lemma timer_is_iff: "timer_is h i s \<longleftrightarrow> (\<exists>t. s = Some t \<and> tm_hWnd t = h \<and> tm_id t = i)"
  by (cases s) auto

lemma timer_map_Some:
  assumes "timers_inv q"
  shows "timer_map q (h, i) = Some t \<longleftrightarrow>
    (\<exists>j < DEF_NR_TIMERS. timer_slots q ! j = Some t \<and> tm_hWnd t = h \<and> tm_id t = i)"
proof -
  have len: "length (timer_slots q) = DEF_NR_TIMERS" using assms by (simp add: timers_inv_def)
  have "timer_map q (h, i) = Some t \<longleftrightarrow> find (timer_is h i) (timer_slots q) = Some (Some t)"
    unfolding timer_map_def
    by (cases "find (timer_is h i) (timer_slots q)") auto
  also have "\<dots> \<longleftrightarrow> (\<exists>j < DEF_NR_TIMERS. timer_slots q ! j = Some t \<and> tm_hWnd t = h \<and> tm_id t = i)"
  proof
    assume "find (timer_is h i) (timer_slots q) = Some (Some t)"
    then show "\<exists>j < DEF_NR_TIMERS. timer_slots q ! j = Some t \<and> tm_hWnd t = h \<and> tm_id t = i"
      using len by (auto simp: find_Some_iff) (metis timer_is_Some)
  next
    assume "\<exists>j < DEF_NR_TIMERS. timer_slots q ! j = Some t \<and> tm_hWnd t = h \<and> tm_id t = i"
    then obtain j where j: "j < DEF_NR_TIMERS" "timer_slots q ! j = Some t" "tm_hWnd t = h" "tm_id t = i"
      by blast
    have "\<not> timer_is h i (timer_slots q ! k)" if "k < j" for k
    proof
      assume "timer_is h i (timer_slots q ! k)"
      then obtain u where "timer_slots q ! k = Some u" "tm_hWnd u = h" "tm_id u = i"
        by (auto simp: timer_is_iff)
      with assms j that have "k = j" unfolding timers_inv_def by (meson less_trans)
      with that show False by simp
    qed
    with j len show "find (timer_is h i) (timer_slots q) = Some (Some t)"
      by (auto simp: find_Some_iff intro!: exI [of _ j])
  qed
  finally show ?thesis .
qed

lemma timer_map_None:
  "timers_inv q \<Longrightarrow> timer_map q (h, i) = None \<longleftrightarrow>
     (\<forall>j < DEF_NR_TIMERS. \<not> timer_is h i (timer_slots q ! j))"
proof -
  assume inv: "timers_inv q"
  have "timer_map q (h, i) = None \<longleftrightarrow> (\<forall>t. timer_map q (h, i) \<noteq> Some t)" by auto
  then show ?thesis unfolding timer_map_Some [OF inv] timer_is_iff by blast
qed

lemma option_eqI: "(\<And>t. a = Some t \<longleftrightarrow> b = Some t) \<Longrightarrow> a = b"
  by (cases a; cases b) auto

lemma timer_installed_iff: "timer_installed h i ss \<longleftrightarrow> (\<exists>s \<in> set ss. timer_is h i s)"
  by (induction ss) auto

lemma IsTimerInstalled_dom:
  assumes "timers_inv q"
  shows "IsTimerInstalled q h i \<longleftrightarrow> (h, i) \<in> dom (timer_map q)"
proof -
  have "IsTimerInstalled q h i \<longleftrightarrow> i \<noteq> 0 \<and> (\<exists>j < DEF_NR_TIMERS. timer_is h i (timer_slots q ! j))"
    using assms by (simp add: IsTimerInstalled_def timer_installed_iff timers_inv_def) (metis in_set_conv_nth)
  moreover have "(\<exists>j < DEF_NR_TIMERS. timer_is h i (timer_slots q ! j)) \<longleftrightarrow> (h, i) \<in> dom (timer_map q)"
    using timer_map_None [OF assms, of h i] by (auto simp: domIff)
  moreover have "i \<noteq> 0" if "\<exists>j < DEF_NR_TIMERS. timer_is h i (timer_slots q ! j)"
    using that assms by (auto simp: timer_is_iff timers_inv_def)
  ultimately show ?thesis by blast
qed

lemma have_free_iff: "have_free ss \<longleftrightarrow> None \<in> set ss"
  by (induction ss) auto

lemma HaveFreeTimer_iff:
  "timers_inv q \<Longrightarrow> HaveFreeTimer q \<longleftrightarrow> (\<exists>j < DEF_NR_TIMERS. timer_slots q ! j = None)"
  by (auto simp: HaveFreeTimer_def have_free_iff in_set_conv_nth timers_inv_def)

lemma update_tick_count_sel [simp]:
  "timer_slots (update_tick_count d n q) = timer_slots q"
  "expired_timer_mask (update_tick_count d n q) = expired_timer_mask q"
  "nr_timers (update_tick_count d n q) = nr_timers q"
  "last_ticks (update_tick_count d n q) = n"
  by (simp_all add: update_tick_count_def Let_def)

lemma timers_inv_update_tick_count [simp]: "timers_inv (update_tick_count d n q) = timers_inv q"
  by (simp add: timers_inv_def)

lemma timer_map_update_tick_count [simp]: "timer_map (update_tick_count d n q) = timer_map q"
  by (simp add: timer_map_def fun_eq_iff)

lemma find_timer_slot_dup:
  "find_timer_slot h i k slot ss = Inl m \<Longrightarrow> k \<le> m \<and> m < k + length ss \<and> timer_is h i (ss ! (m - k))"
proof (induction h i k slot ss rule: find_timer_slot.induct)
  case (2 h i k slot s ss)
  show ?case
  proof (cases "s \<noteq> None \<and> timer_is h i s")
    case True
    with 2(3) show ?thesis by auto
  next
    case False
    with 2 have "Suc k \<le> m \<and> m < Suc k + length ss \<and> timer_is h i (ss ! (m - Suc k))"
      by (auto split: if_splits)
    moreover from this have "m - k = Suc (m - Suc k)" by linarith
    ultimately show ?thesis by simp
  qed
qed simp

lemma find_timer_slot_new:
  "find_timer_slot h i k slot ss = Inr r \<Longrightarrow> \<forall>s \<in> set ss. \<not> timer_is h i s"
proof (induction ss arbitrary: k slot)
  case (Cons s ss)
  obtain slot' where "find_timer_slot h i (Suc k) slot' ss = Inr r" and s: "\<not> timer_is h i s"
  proof (cases s)
    case None
    with Cons.prems that show thesis by simp
  next
    case (Some u)
    with Cons.prems have "\<not> timer_is h i s" by (cases "timer_is h i s") simp_all
    with Some Cons.prems that show thesis by (simp del: timer_is_Some)
  qed
  from Cons.IH [OF this(1)] s show ?case by simp
qed simp

lemma find_timer_slot_keep: "find_timer_slot h i k (Some x) ss = Inr r \<Longrightarrow> r = Some x"
  by (induction ss arbitrary: k) (simp_all split: if_splits)

lemma find_timer_slot_free:
  "find_timer_slot h i k None ss = Inr r \<Longrightarrow>
    (case r of None \<Rightarrow> None \<notin> set ss | Some m \<Rightarrow> k \<le> m \<and> m < k + length ss \<and> ss ! (m - k) = None)"
proof (induction ss arbitrary: k)
  case (Cons s ss)
  show ?case
  proof (cases "s = None")
    case True
    with Cons.prems have "r = Some k" using find_timer_slot_keep by (auto split: if_splits)
    with True show ?thesis by simp
  next
    case False
    with Cons.prems have "find_timer_slot h i (Suc k) None ss = Inr r" by (simp split: if_splits)
    note IH = Cons.IH [OF this]
    show ?thesis
    proof (cases r)
      case None
      with IH False show ?thesis by auto
    next
      case (Some m)
      with IH have "m - k = Suc (m - Suc k)" by auto
      with IH Some show ?thesis by auto
    qed
  qed
qed auto

text \<open>Replacing the timer of one slot.\<close>

lemma set_slot_sel [simp]:
  "timer_slots (set_slot q k s) = (timer_slots q)[k := s]"
  "expired_timer_mask (set_slot q k s) = expired_timer_mask q"
  "nr_timers (set_slot q k s) = nr_timers q"
  by (simp_all add: set_slot_def)

lemma occupied_update:
  assumes "k < DEF_NR_TIMERS" "length ss = DEF_NR_TIMERS"
  shows "{j. j < DEF_NR_TIMERS \<and> ss[k := s] ! j \<noteq> None} =
    (if s = None then {j. j < DEF_NR_TIMERS \<and> ss ! j \<noteq> None} - {k}
     else insert k {j. j < DEF_NR_TIMERS \<and> ss ! j \<noteq> None})"
  using assms by (auto simp: nth_list_update split: if_splits)

lemma timers_inv_store:
  assumes inv: "timers_inv q" and k: "k < DEF_NR_TIMERS" and i: "tm_id t \<noteq> 0"
    and slots: "timer_slots q' = (timer_slots q)[k := Some t]"
    and uniq: "\<forall>j < DEF_NR_TIMERS. j \<noteq> k \<longrightarrow> \<not> timer_is (tm_hWnd t) (tm_id t) (timer_slots q ! j)"
    and nr: "nr_timers q' = (if timer_slots q ! k = None then nr_timers q + 1 else nr_timers q)"
    and mask: "\<forall>j. bit (expired_timer_mask q') j \<longrightarrow> bit (expired_timer_mask q) j \<or> j = k"
  shows "timers_inv q'"
    and "old = timer_slots q ! k \<Longrightarrow> (\<And>u. old = Some u \<Longrightarrow> tm_hWnd u = tm_hWnd t \<and> tm_id u = tm_id t)
      \<Longrightarrow> timer_map q' = (timer_map q)((tm_hWnd t, tm_id t) \<mapsto> t)"
proof -
  have len: "length (timer_slots q) = DEF_NR_TIMERS" using inv by (simp add: timers_inv_def)
  have nth: "timer_slots q' ! j = (if j = k then Some t else timer_slots q ! j)"
    if "j < DEF_NR_TIMERS" for j using that k len slots by (simp add: nth_list_update)
  have "card {j. j < DEF_NR_TIMERS \<and> timer_slots q' ! j \<noteq> None} =
      (if timer_slots q ! k = None then 1 else 0) + card {j. j < DEF_NR_TIMERS \<and> timer_slots q ! j \<noteq> None}"
    unfolding slots occupied_update [OF k len] using k by (auto simp: card_insert_if insert_absorb)
  then have cnt: "nr_timers q' = int (card {j. j < DEF_NR_TIMERS \<and> timer_slots q' ! j \<noteq> None})"
    using inv nr by (auto simp: timers_inv_def)
  have "j = m" if "j < DEF_NR_TIMERS" "m < DEF_NR_TIMERS" "timer_slots q' ! j = Some a"
      "timer_slots q' ! m = Some b" "tm_hWnd a = tm_hWnd b" "tm_id a = tm_id b" for j m a b
  proof (cases "j = k \<or> m = k")
    case True
    with that uniq nth show ?thesis by (auto split: if_splits)
  next
    case False
    with that nth have "timer_slots q ! j = Some a" "timer_slots q ! m = Some b" by simp_all
    with that inv show ?thesis unfolding timers_inv_def by blast
  qed
  moreover have "tm_id a \<noteq> 0" if "j < DEF_NR_TIMERS" "timer_slots q' ! j = Some a" for j a
    using that nth inv i by (auto simp: timers_inv_def split: if_splits)
  moreover have "j < DEF_NR_TIMERS \<and> timer_slots q' ! j \<noteq> None" if "bit (expired_timer_mask q') j" for j
    using that mask inv k nth by (auto simp: timers_inv_def)
  ultimately show inv': "timers_inv q'" using cnt slots len unfolding timers_inv_def by auto
  show "timer_map q' = (timer_map q)((tm_hWnd t, tm_id t) \<mapsto> t)"
    if old: "old = timer_slots q ! k" "\<And>u. old = Some u \<Longrightarrow> tm_hWnd u = tm_hWnd t \<and> tm_id u = tm_id t"
  proof (rule ext, clarify)
    fix h and i' :: int
    show "timer_map q' (h, i') = ((timer_map q)((tm_hWnd t, tm_id t) \<mapsto> t)) (h, i')"
    proof (rule option_eqI)
      fix u
      have "timer_map q' (h, i') = Some u \<longleftrightarrow> (\<exists>j < DEF_NR_TIMERS.
          (if j = k then Some t else timer_slots q ! j) = Some u \<and> tm_hWnd u = h \<and> tm_id u = i')"
        unfolding timer_map_Some [OF inv'] using nth by (simp cong: conj_cong)
      also have "\<dots> \<longleftrightarrow> (if h = tm_hWnd t \<and> i' = tm_id t then u = t else timer_map q (h, i') = Some u)"
      proof (cases "h = tm_hWnd t \<and> i' = tm_id t")
        case True
        with uniq k show ?thesis by (auto simp: timer_is_iff split: if_splits)
      next
        case False
        have "(if j = k then Some t else timer_slots q ! j) = Some u \<and> tm_hWnd u = h \<and> tm_id u = i' \<longleftrightarrow>
            timer_slots q ! j = Some u \<and> tm_hWnd u = h \<and> tm_id u = i'" for j
          using False old by (cases "j = k") auto
        then show ?thesis unfolding timer_map_Some [OF inv] if_not_P [OF False] by (simp only:)
      qed
      finally show "timer_map q' (h, i') = Some u \<longleftrightarrow>
          ((timer_map q)((tm_hWnd t, tm_id t) \<mapsto> t)) (h, i') = Some u" by auto
    qed
  qed
qed

section \<open>Properties\<close>

lemma SetTimerEx_valid:
  assumes inv: "timers_inv q" and i: "i \<noteq> 0" and w: "proc \<noteq> None \<or> win_ok"
    and res: "SetTimerEx is_dsk now win_ok q h i iv proc = (ok, q')"
  shows "timers_inv q'
    \<and> (ok \<longleftrightarrow> (h, i) \<in> dom (timer_map q) \<or> HaveFreeTimer q)
    \<and> (if ok then timer_map q' = (timer_map q)((h, i) \<mapsto>
          \<lparr>tm_hWnd = h, tm_id = i, interv = (if iv = 0 then 1 else iv),
           ticks_expected = now + (if iv = 0 then 1 else iv),
           ticks_fired = 0, tm_proc = proc\<rparr>)
       else timer_map q' = timer_map q)"
proof -
  let ?iv = "if iv = 0 then 1 else iv" and ?q = "update_tick_count is_dsk now q"
  have len: "length (timer_slots q) = DEF_NR_TIMERS" using inv by (simp add: timers_inv_def)
  let ?t = "\<lparr>tm_hWnd = h, tm_id = i, interv = ?iv, ticks_expected = now + ?iv,
           ticks_fired = 0, tm_proc = proc\<rparr>"
  show ?thesis
  proof (cases "find_timer_slot h i 0 None (timer_slots q)")
    case (Inl k)
    from find_timer_slot_dup [OF Inl] len have k: "k < DEF_NR_TIMERS" "timer_is h i (timer_slots q ! k)"
      by simp_all
    then obtain u where u: "timer_slots q ! k = Some u" "tm_hWnd u = h" "tm_id u = i"
      by (auto simp: timer_is_iff)
    have "(restart_timer ?q ?iv u)\<lparr>tm_proc := proc\<rparr> = ?t"
      using u by (cases u) (simp add: restart_timer_def)
    then have run: "ok" "q' = set_slot ?q k (Some ?t)"
      using res i w Inl u by (auto simp: SetTimerEx_def Let_def)
    have uniq: "\<forall>j < DEF_NR_TIMERS. j \<noteq> k \<longrightarrow> \<not> timer_is h i (timer_slots q ! j)"
      using inv u k unfolding timers_inv_def timer_is_iff by metis
    have dom: "(h, i) \<in> dom (timer_map q)"
      using timer_map_None [OF inv, of h i] k by (auto simp: domIff)
    have "timers_inv q'"
      by (rule timers_inv_store(1) [OF inv k(1), where t = ?t]) (use uniq u i run in simp_all)
    moreover have "timer_map q' = (timer_map q)((tm_hWnd ?t, tm_id ?t) \<mapsto> ?t)"
      by (rule timers_inv_store(2) [OF inv k(1), where old = "Some u"]) (use uniq u i run in simp_all)
    ultimately show ?thesis using run dom by simp
  next
    case (Inr r)
    have none: "\<forall>j < DEF_NR_TIMERS. \<not> timer_is h i (timer_slots q ! j)"
      using find_timer_slot_new [OF Inr] len by (simp add: all_set_conv_all_nth)
    then have dom: "(h, i) \<notin> dom (timer_map q)" using timer_map_None [OF inv, of h i] by (auto simp: domIff)
    show ?thesis
    proof (cases r)
      case None
      with find_timer_slot_free [OF Inr] have "\<not> HaveFreeTimer q"
        by (simp add: HaveFreeTimer_def have_free_iff)
      moreover have "\<not> ok" "q' = ?q" using res i w Inr None by (auto simp: SetTimerEx_def Let_def)
      ultimately show ?thesis using inv dom by simp
    next
      case (Some k)
      with find_timer_slot_free [OF Inr] len have k: "k < DEF_NR_TIMERS" "timer_slots q ! k = None" by simp_all
      have run: "ok" "q' = (set_slot ?q k (Some ?t))\<lparr>nr_timers := nr_timers q + 1\<rparr>"
        using res i w Inr Some by (auto simp: SetTimerEx_def Let_def)
      have "HaveFreeTimer q" using k HaveFreeTimer_iff [OF inv] by blast
      moreover have "timers_inv q'"
        by (rule timers_inv_store(1) [OF inv k(1), where t = ?t]) (use none k i run in simp_all)
      moreover have "timer_map q' = (timer_map q)((tm_hWnd ?t, tm_id ?t) \<mapsto> ?t)"
        by (rule timers_inv_store(2) [OF inv k(1), where old = None]) (use none k i run in simp_all)
      ultimately show ?thesis using run by simp
    qed
  qed
qed

text \<open>C12: \<open>SetTimerEx\<close> is an update of the table of timers: it succeeds exactly when the identifier is not
  0, a procedure is given or the window belongs to the thread, and the timer is already there or a slot is free;
  then the table maps the key to a timer that expires \<open>iv\<close> ticks (at least one) after the clock, and otherwise it
  leaves the table alone.\<close>

theorem SetTimerEx_updates_table:
  assumes inv: "timers_inv q" and res: "SetTimerEx is_dsk now win_ok q h i iv proc = (ok, q')"
  shows "timers_inv q'
    \<and> (ok \<longleftrightarrow> i \<noteq> 0 \<and> (proc \<noteq> None \<or> win_ok) \<and> ((h, i) \<in> dom (timer_map q) \<or> HaveFreeTimer q))
    \<and> (if ok then timer_map q' = (timer_map q)((h, i) \<mapsto>
          \<lparr>tm_hWnd = h, tm_id = i, interv = (if iv = 0 then 1 else iv),
           ticks_expected = now + (if iv = 0 then 1 else iv),
           ticks_fired = 0, tm_proc = proc\<rparr>)
       else timer_map q' = timer_map q)"
proof (cases "i \<noteq> 0 \<and> (proc \<noteq> None \<or> win_ok)")
  case True
  then show ?thesis using SetTimerEx_valid [OF inv _ _ res] by simp
next
  case False
  have "SetTimerEx is_dsk now win_ok q h i iv proc = (False, if i = 0 then q else update_tick_count is_dsk now q)"
  proof (cases "i = 0")
    case i: False
    with False have "proc = None" "\<not> win_ok" by simp_all
    with i show ?thesis by (simp add: SetTimerEx_def Let_def)
  qed (simp add: SetTimerEx_def)
  then have "\<not> ok" "timer_map q' = timer_map q" "timers_inv q'" using res inv by (auto split: if_splits)
  then show ?thesis using False by auto
qed

text \<open>A queue with an empty timer table, and the effect of setting a timer on it.\<close>

definition no_timers :: "MSGQUEUE \<Rightarrow> MSGQUEUE" where
  "no_timers q = q\<lparr>timer_slots := replicate DEF_NR_TIMERS None, nr_timers := 0, expired_timer_mask := 0\<rparr>"

lemma no_timers_inv: "timers_inv (no_timers q)" "timer_map (no_timers q) = Map.empty"
proof -
  show inv: "timers_inv (no_timers q)" by (simp add: timers_inv_def no_timers_def)
  show "timer_map (no_timers q) = Map.empty"
  proof (rule ext, clarify)
    fix h and i :: int
    show "timer_map (no_timers q) (h, i) = None"
      unfolding timer_map_None [OF inv] by (simp add: no_timers_def)
  qed
qed

lemma no_timers_free: "HaveFreeTimer (no_timers q)"
  unfolding HaveFreeTimer_iff [OF no_timers_inv(1)] by (simp add: no_timers_def DEF_NR_TIMERS_def exI [of _ 0])

theorem SetTimerEx_updates_table_witness:
  "timer_map (snd (SetTimerEx False 100 True (no_timers fresh_queue) 7 1 20 None)) (7, 1) =
     Some \<lparr>tm_hWnd = 7, tm_id = 1, interv = 20, ticks_expected = 120, ticks_fired = 0, tm_proc = None\<rparr>"
proof -
  obtain ok q' where r: "SetTimerEx False 100 True (no_timers fresh_queue) 7 1 20 None = (ok, q')"
    by (cases "SetTimerEx False 100 True (no_timers fresh_queue) 7 1 20 None")
  from SetTimerEx_updates_table [OF no_timers_inv(1) r] r no_timers_free show ?thesis by simp
qed

text \<open>Emptying the slots of a set of positions.\<close>

lemma timers_inv_clear:
  assumes inv: "timers_inv q" and S: "S \<subseteq> {..<DEF_NR_TIMERS}" "\<forall>j \<in> S. timer_slots q ! j \<noteq> None"
    and len: "length (timer_slots q') = DEF_NR_TIMERS"
    and slots: "\<forall>j < DEF_NR_TIMERS. timer_slots q' ! j = (if j \<in> S then None else timer_slots q ! j)"
    and nr: "nr_timers q' = nr_timers q - int (card S)"
    and mask: "\<forall>j. bit (expired_timer_mask q') j \<longleftrightarrow> bit (expired_timer_mask q) j \<and> j \<notin> S"
  shows "timers_inv q'"
proof -
  let ?O = "{j. j < DEF_NR_TIMERS \<and> timer_slots q ! j \<noteq> None}"
  have "{j. j < DEF_NR_TIMERS \<and> timer_slots q' ! j \<noteq> None} = ?O - S" using slots by (auto split: if_splits)
  moreover have "card (?O - S) = card ?O - card S" "card S \<le> card ?O"
    using S by (auto intro!: card_Diff_subset card_mono intro: finite_subset)
  ultimately have "nr_timers q' = int (card {j. j < DEF_NR_TIMERS \<and> timer_slots q' ! j \<noteq> None})"
    using inv nr by (simp add: timers_inv_def of_nat_diff)
  moreover have "timer_slots q ! j = Some t" if "j < DEF_NR_TIMERS" "timer_slots q' ! j = Some t" for j t
    using that slots by (auto split: if_splits)
  moreover have "j < DEF_NR_TIMERS \<and> timer_slots q' ! j \<noteq> None" if "bit (expired_timer_mask q') j" for j
    using that mask slots inv by (auto simp: timers_inv_def)
  ultimately show ?thesis using inv len unfolding timers_inv_def by meson
qed

lemma timer_map_clear:
  assumes inv: "timers_inv q" "timers_inv q'"
    and slots: "\<forall>j < DEF_NR_TIMERS. timer_slots q' ! j = (if j \<in> S then None else timer_slots q ! j)"
    and S: "\<forall>j < DEF_NR_TIMERS. \<forall>t. timer_slots q ! j = Some t \<longrightarrow> (j \<in> S \<longleftrightarrow> P (tm_hWnd t, tm_id t))"
  shows "timer_map q' = (\<lambda>key. if P key then None else timer_map q key)"
proof (rule ext, clarify)
  fix h and i :: int
  show "timer_map q' (h, i) = (if P (h, i) then None else timer_map q (h, i))"
  proof (rule option_eqI)
    fix t
    have "timer_map q' (h, i) = Some t \<longleftrightarrow> (\<exists>j < DEF_NR_TIMERS. j \<notin> S \<and> timer_slots q ! j = Some t
        \<and> tm_hWnd t = h \<and> tm_id t = i)"
    proof -
      have "timer_slots q' ! j = Some t \<longleftrightarrow> j \<notin> S \<and> timer_slots q ! j = Some t" if "j < DEF_NR_TIMERS" for j
        using slots that by simp
      then show ?thesis unfolding timer_map_Some [OF inv(2)] by (simp cong: conj_cong)
    qed
    also have "\<dots> \<longleftrightarrow> \<not> P (h, i) \<and> timer_map q (h, i) = Some t"
      unfolding timer_map_Some [OF inv(1)] using S by blast
    finally show "timer_map q' (h, i) = Some t \<longleftrightarrow> (if P (h, i) then None else timer_map q (h, i)) = Some t"
      by simp
  qed
qed

definition kill_match :: "HWND \<Rightarrow> int \<Rightarrow> HWND \<times> int \<Rightarrow> bool" where
  "kill_match h i key \<longleftrightarrow> fst key = h \<and> (i = 0 \<or> snd key = i)"

definition kill_set :: "HWND \<Rightarrow> int \<Rightarrow> MSGQUEUE \<Rightarrow> nat list \<Rightarrow> nat set" where
  "kill_set h i q ks = {j \<in> set ks. case timer_slots q ! j of None \<Rightarrow> False
      | Some t \<Rightarrow> kill_match h i (tm_hWnd t, tm_id t)}"

lemma kill_timers_run:
  assumes "timers_inv q" "distinct ks" "set ks \<subseteq> {..<DEF_NR_TIMERS}"
    and "kill_timers h i killed q ks = (n, q')"
  shows "n = killed + int (card (kill_set h i q ks))
    \<and> length (timer_slots q') = DEF_NR_TIMERS
    \<and> (\<forall>j < DEF_NR_TIMERS. timer_slots q' ! j = (if j \<in> kill_set h i q ks then None else timer_slots q ! j))
    \<and> nr_timers q' = nr_timers q - int (card (kill_set h i q ks))
    \<and> (\<forall>j. bit (expired_timer_mask q') j \<longleftrightarrow> bit (expired_timer_mask q) j \<and> j \<notin> kill_set h i q ks)"
  using assms
proof (induction ks arbitrary: killed q)
  case Nil
  then show ?case by (simp add: kill_set_def timers_inv_def)
next
  case (Cons k ks)
  have len: "length (timer_slots q) = DEF_NR_TIMERS" using Cons.prems(1) by (simp add: timers_inv_def)
  have k: "k < DEF_NR_TIMERS" "k \<notin> set ks" "distinct ks" "set ks \<subseteq> {..<DEF_NR_TIMERS}"
    using Cons.prems by auto
  show ?case
  proof (cases "k \<in> kill_set h i q (k # ks)")
    case False
    then have same: "kill_set h i q (k # ks) = kill_set h i q ks" using k by (auto simp: kill_set_def)
    have "kill_timers h i killed q ks = (n, q')"
      using False Cons.prems(4) by (auto simp: kill_set_def kill_match_def split: option.splits if_splits)
    from Cons.IH [OF Cons.prems(1) k(3,4) this] show ?thesis unfolding same .
  next
    case True
    then obtain t where t: "timer_slots q ! k = Some t" "tm_hWnd t = h" "i = 0 \<or> tm_id t = i"
      by (auto simp: kill_set_def kill_match_def split: option.splits)
    define q1 where "q1 = (set_slot q k None)
      \<lparr>expired_timer_mask := expired_timer_mask q AND NOT (slot_bit k), nr_timers := nr_timers q - 1\<rparr>"
    have slots1: "\<forall>j < DEF_NR_TIMERS. timer_slots q1 ! j = (if j \<in> {k} then None else timer_slots q ! j)"
      using len k(1) by (simp add: q1_def nth_list_update)
    have len1: "length (timer_slots q1) = DEF_NR_TIMERS" using len by (simp add: q1_def)
    have mask1: "\<forall>j. bit (expired_timer_mask q1) j \<longleftrightarrow> bit (expired_timer_mask q) j \<and> j \<notin> {k}"
      by (simp add: q1_def)
    have inv1: "timers_inv q1"
      by (rule timers_inv_clear [OF Cons.prems(1) _ _ len1 slots1 _ mask1]) (use k t in \<open>auto simp: q1_def\<close>)
    have "timer_slots q1 ! j = timer_slots q ! j" if "j \<in> set ks" for j
      using slots1 k(2,4) that by auto
    then have K1: "kill_set h i q1 ks = kill_set h i q ks"
      by (simp add: kill_set_def cong: conj_cong)
    have K: "kill_set h i q (k # ks) = insert k (kill_set h i q ks)" "k \<notin> kill_set h i q ks"
      using True k by (auto simp: kill_set_def)
    have fin: "finite (kill_set h i q ks)" by (simp add: kill_set_def)
    show ?thesis
    proof (cases "i = 0")
      case i0: True
      have "kill_timers h i (killed + 1) q1 ks = (n, q')"
        using Cons.prems(4) t i0 by (simp add: q1_def Let_def)
      from Cons.IH [OF inv1 k(3,4) this] K K1 fin slots1 mask1 show ?thesis
        by (auto simp: q1_def)
    next
      case False
      have "kill_set h i q ks = {}"
      proof (rule ccontr)
        assume "kill_set h i q ks \<noteq> {}"
        then obtain j u where "j \<in> set ks" "timer_slots q ! j = Some u" "tm_hWnd u = h" "tm_id u = i"
          using False by (auto simp: kill_set_def kill_match_def split: option.splits)
        with t False k Cons.prems(1) have "j = k" unfolding timers_inv_def by blast
        with \<open>j \<in> set ks\<close> k(2) show False by simp
      qed
      moreover have "n = killed + 1" "q' = q1" using Cons.prems(4) t False by (auto simp: q1_def Let_def)
      ultimately show ?thesis using K slots1 len1 mask1 by (auto simp: q1_def)
    qed
  qed
qed

text \<open>\<open>KillTimer\<close> removes exactly the matching timers from the table (all of the window for
  identifier 0), returns their number, and clears their expiry flags with them.\<close>

theorem KillTimer_removes:
  assumes inv: "timers_inv q" and res: "KillTimer q h i = (n, q')"
  shows "timers_inv q' \<and> timer_map q' = (\<lambda>key. if kill_match h i key then None else timer_map q key)
    \<and> n = nr_timers q - nr_timers q' \<and> n = int (card {key \<in> dom (timer_map q). kill_match h i key})"
proof -
  let ?S = "kill_set h i q [0..<DEF_NR_TIMERS]"
  have run: "kill_timers h i 0 q [0..<DEF_NR_TIMERS] = (n, q')" using res by (simp add: KillTimer_def)
  have "set [0..<DEF_NR_TIMERS] \<subseteq> {..<DEF_NR_TIMERS}" by auto
  note K = kill_timers_run [OF inv distinct_upt this run]
  have S: "?S \<subseteq> {..<DEF_NR_TIMERS}" "\<forall>j \<in> ?S. timer_slots q ! j \<noteq> None"
    by (auto simp: kill_set_def split: option.splits)
  have inv': "timers_inv q'" by (rule timers_inv_clear [OF inv S]) (use K in auto)
  have match: "\<forall>j < DEF_NR_TIMERS. \<forall>t. timer_slots q ! j = Some t \<longrightarrow>
      (j \<in> ?S \<longleftrightarrow> kill_match h i (tm_hWnd t, tm_id t))" by (auto simp: kill_set_def)
  have map: "timer_map q' = (\<lambda>key. if kill_match h i key then None else timer_map q key)"
    by (rule timer_map_clear [OF inv inv' _ match]) (use K in blast)
  let ?key = "\<lambda>j. (tm_hWnd (the (timer_slots q ! j)), tm_id (the (timer_slots q ! j)))"
  have "inj_on ?key ?S"
  proof (rule inj_onI)
    fix j k assume jk: "j \<in> ?S" "k \<in> ?S" and key: "?key j = ?key k"
    then obtain t u where "timer_slots q ! j = Some t" "timer_slots q ! k = Some u" using S(2) by blast
    moreover have "j < DEF_NR_TIMERS" "k < DEF_NR_TIMERS" using jk S(1) by auto
    moreover have "tm_hWnd t = tm_hWnd u" "tm_id t = tm_id u" using key calculation(1,2) by simp_all
    ultimately show "j = k" using inv unfolding timers_inv_def by blast
  qed
  moreover have "?key ` ?S = {key \<in> dom (timer_map q). kill_match h i key}"
  proof (rule set_eqI, clarify)
    fix a and b :: int
    show "(a, b) \<in> ?key ` ?S \<longleftrightarrow> (a, b) \<in> {key \<in> dom (timer_map q). kill_match h i key}"
    proof
      assume "(a, b) \<in> ?key ` ?S"
      then obtain j t where "j < DEF_NR_TIMERS" "timer_slots q ! j = Some t" "tm_hWnd t = a" "tm_id t = b"
        "kill_match h i (a, b)" by (auto simp: kill_set_def split: option.splits)
      then show "(a, b) \<in> {key \<in> dom (timer_map q). kill_match h i key}"
        using timer_map_Some [OF inv, of a b t] by auto
    next
      assume "(a, b) \<in> {key \<in> dom (timer_map q). kill_match h i key}"
      then obtain t where "timer_map q (a, b) = Some t" "kill_match h i (a, b)" by auto
      then show "(a, b) \<in> ?key ` ?S"
        unfolding timer_map_Some [OF inv] by (auto simp: kill_set_def intro!: rev_image_eqI)
    qed
  qed
  ultimately have card: "card {key \<in> dom (timer_map q). kill_match h i key} = card ?S"
    using card_image [of ?key ?S] by simp
  from K have n: "n = nr_timers q - nr_timers q'" "n = int (card ?S)" by linarith+
  show ?thesis unfolding card by (intro conjI inv' map n)
qed

text \<open>A queue with one timer that has expired.\<close>

definition one_timer :: "MSGQUEUE \<Rightarrow> MSGQUEUE" where
  "one_timer q = (set_slot (no_timers q) 3 (Some \<lparr>tm_hWnd = 7, tm_id = 1, interv = 20,
     ticks_expected = 120, ticks_fired = 0, tm_proc = None\<rparr>))
     \<lparr>nr_timers := 1, expired_timer_mask := slot_bit 3\<rparr>"

lemma one_timer_inv:
  "timers_inv (one_timer q)"
  "timer_map (one_timer q) = [(7, 1) \<mapsto> \<lparr>tm_hWnd = 7, tm_id = 1, interv = 20,
     ticks_expected = 120, ticks_fired = 0, tm_proc = None\<rparr>]"
proof -
  let ?t = "\<lparr>tm_hWnd = 7, tm_id = 1, interv = 20, ticks_expected = 120, ticks_fired = 0, tm_proc = None\<rparr>"
  have k: "3 < DEF_NR_TIMERS" by (simp add: DEF_NR_TIMERS_def)
  have facts: "timer_slots (no_timers q) ! j = None" if "j < DEF_NR_TIMERS" for j
    using that by (simp add: no_timers_def)
  have mask: "bit (expired_timer_mask (one_timer q)) j \<longrightarrow> j = 3" for j
    using bit_mask_or [of 3 0 j] by (simp add: one_timer_def)
  show "timers_inv (one_timer q)"
    by (rule timers_inv_store(1) [OF no_timers_inv(1) k, where t = ?t])
      (use facts mask k in \<open>auto simp: one_timer_def no_timers_def\<close>)
  have "timer_map (one_timer q) = (timer_map (no_timers q))((tm_hWnd ?t, tm_id ?t) \<mapsto> ?t)"
    by (rule timers_inv_store(2) [OF no_timers_inv(1) k, where old = None])
      (use facts mask k in \<open>auto simp: one_timer_def no_timers_def\<close>)
  then show "timer_map (one_timer q) = [(7, 1) \<mapsto> ?t]" by (simp add: no_timers_inv(2))
qed

theorem KillTimer_removes_witness:
  "fst (KillTimer (one_timer fresh_queue) 7 0) = 1 \<and> timer_map (snd (KillTimer (one_timer fresh_queue) 7 0)) = Map.empty"
proof -
  obtain n q' where k: "KillTimer (one_timer fresh_queue) 7 0 = (n, q')" by (cases "KillTimer (one_timer fresh_queue) 7 0")
  have one: "{key \<in> dom (timer_map (one_timer fresh_queue)). kill_match 7 0 key} = {(7, 1)}"
    by (auto simp: one_timer_inv(2) kill_match_def)
  from KillTimer_removes [OF one_timer_inv(1) k] k show ?thesis
    unfolding one by (auto simp: one_timer_inv(2) kill_match_def)
qed

lemma reset_timer_run:
  assumes "\<forall>k \<in> set ks. k < DEF_NR_TIMERS"
  shows "(\<exists>k t. k \<in> set ks \<and> timer_slots q ! k = Some t \<and> tm_hWnd t = h \<and> tm_id t = i
      \<and> reset_timer h i iv proc q ks = (True, (set_slot q k (Some (case proc of None \<Rightarrow> restart_timer q iv t
            | Some p \<Rightarrow> (restart_timer q iv t)\<lparr>tm_proc := p\<rparr>)))
          \<lparr>expired_timer_mask := expired_timer_mask q AND NOT (slot_bit k)\<rparr>))
    \<or> ((\<forall>k \<in> set ks. \<not> timer_is h i (timer_slots q ! k)) \<and> reset_timer h i iv proc q ks = (False, q))"
  using assms
proof (induction ks)
  case (Cons k ks)
  show ?case
  proof (cases "timer_is h i (timer_slots q ! k)")
    case True
    then obtain t where "timer_slots q ! k = Some t" "tm_hWnd t = h" "tm_id t = i" by (auto simp: timer_is_iff)
    then show ?thesis by (intro disjI1 exI [of _ k] exI [of _ t]) (simp add: Let_def)
  next
    case False
    then have step: "reset_timer h i iv proc q (k # ks) = reset_timer h i iv proc q ks"
      by (auto simp: timer_is_iff split: option.splits)
    show ?thesis unfolding step using Cons False by (auto simp del: reset_timer.simps)
  qed
qed simp

text \<open>\<open>ResetTimerEx\<close> succeeds exactly for an installed timer, restarts its interval at the
  clock, keeps its procedure for \<open>INV_PTR\<close>, and drops a pending expiry of it.\<close>

theorem ResetTimerEx_restarts:
  assumes inv: "timers_inv q" and i: "i \<noteq> 0"
    and res: "ResetTimerEx is_dsk now q h i iv proc = (ok, q')"
  shows "timers_inv q' \<and> ok = IsTimerInstalled q h i
    \<and> (case timer_map q (h, i) of
         None \<Rightarrow> timer_map q' = timer_map q
       | Some t \<Rightarrow> timer_map q' = (timer_map q)((h, i) \<mapsto> t\<lparr>interv := iv, ticks_expected := now + iv,
             ticks_fired := 0, tm_proc := (case proc of None \<Rightarrow> tm_proc t | Some p \<Rightarrow> p)\<rparr>))
    \<and> (\<forall>k < DEF_NR_TIMERS. timer_is h i (timer_slots q' ! k) \<longrightarrow> \<not> bit (expired_timer_mask q') k)"
proof -
  let ?q = "update_tick_count is_dsk now q"
  have run: "reset_timer h i iv proc ?q [0..<DEF_NR_TIMERS] = (ok, q')"
    using res i by (simp add: ResetTimerEx_def)
  have len: "length (timer_slots q) = DEF_NR_TIMERS" using inv by (simp add: timers_inv_def)
  have "\<forall>k \<in> set [0..<DEF_NR_TIMERS]. k < DEF_NR_TIMERS" by simp
  from reset_timer_run [OF this, of ?q h i iv proc] run consider
    (found) k t where "k < DEF_NR_TIMERS" "timer_slots q ! k = Some t" "tm_hWnd t = h" "tm_id t = i" "ok"
      "q' = (set_slot ?q k (Some (case proc of None \<Rightarrow> restart_timer ?q iv t
            | Some p \<Rightarrow> (restart_timer ?q iv t)\<lparr>tm_proc := p\<rparr>)))
          \<lparr>expired_timer_mask := expired_timer_mask ?q AND NOT (slot_bit k)\<rparr>"
  | (none) "\<forall>k < DEF_NR_TIMERS. \<not> timer_is h i (timer_slots q ! k)" "\<not> ok" "q' = ?q" by auto
  then show ?thesis
  proof cases
    case none
    then have "timer_map q (h, i) = None" using timer_map_None [OF inv] by blast
    moreover have "\<not> IsTimerInstalled q h i" using calculation IsTimerInstalled_dom [OF inv] by auto
    ultimately show ?thesis using none inv by simp
  next
    case (found k t)
    define u where "u = t\<lparr>interv := iv, ticks_expected := now + iv, ticks_fired := 0,
        tm_proc := (case proc of None \<Rightarrow> tm_proc t | Some p \<Rightarrow> p)\<rparr>"
    have q': "q' = (set_slot ?q k (Some u))\<lparr>expired_timer_mask := expired_timer_mask q AND NOT (slot_bit k)\<rparr>"
      using found by (simp add: u_def restart_timer_def split: option.splits)
    have u: "tm_hWnd u = h" "tm_id u = i" using found by (simp_all add: u_def)
    have uniq: "\<forall>j < DEF_NR_TIMERS. j \<noteq> k \<longrightarrow> \<not> timer_is h i (timer_slots q ! j)"
      using inv found(1-4) unfolding timers_inv_def timer_is_iff by metis
    have inv': "timers_inv q'"
      by (rule timers_inv_store(1) [OF inv found(1), where t = u]) (use uniq u i q' found in simp_all)
    have map: "timer_map q' = (timer_map q)((tm_hWnd u, tm_id u) \<mapsto> u)"
      by (rule timers_inv_store(2) [OF inv found(1), where old = "Some t"]) (use uniq u i q' found in simp_all)
    have old: "timer_map q (h, i) = Some t" using timer_map_Some [OF inv] found by blast
    then have inst: "IsTimerInstalled q h i" using IsTimerInstalled_dom [OF inv] by auto
    have "\<not> bit (expired_timer_mask q') j" if "j < DEF_NR_TIMERS" "timer_is h i (timer_slots q' ! j)" for j
      using that uniq q' len found(1) by (cases "j = k") simp_all
    then show ?thesis using inv' map old inst found(5) u u_def by simp
  qed
qed

theorem ResetTimerEx_restarts_witness:
  "fst (ResetTimerEx False 200 (one_timer fresh_queue) 7 1 50 None)
   \<and> timer_map (snd (ResetTimerEx False 200 (one_timer fresh_queue) 7 1 50 None)) (7, 1) =
      Some \<lparr>tm_hWnd = 7, tm_id = 1, interv = 50, ticks_expected = 250, ticks_fired = 0, tm_proc = None\<rparr>"
proof -
  obtain ok q' where r: "ResetTimerEx False 200 (one_timer fresh_queue) 7 1 50 None = (ok, q')"
    by (cases "ResetTimerEx False 200 (one_timer fresh_queue) 7 1 50 None")
  have "IsTimerInstalled (one_timer fresh_queue) 7 1"
    unfolding IsTimerInstalled_dom [OF one_timer_inv(1)] by (simp add: one_timer_inv(2))
  with ResetTimerEx_restarts [OF one_timer_inv(1) _ r] r show ?thesis by (simp add: one_timer_inv(2))
qed

section \<open>Expiry\<close>

lemma fire_slot_sel [simp]:
  "last_ticks (fire_slot q i t) = last_ticks q" "nr_timers (fire_slot q i t) = nr_timers q"
  "expired_timer_mask (fire_slot q i t) = expired_timer_mask q OR slot_bit i"
  "timer_slots (fire_slot q i t) = (timer_slots q)[i :=
     Some (t\<lparr>ticks_expected := ticks_expected t + interv t, ticks_fired := last_ticks q\<rparr>)]"
  by (simp_all add: fire_slot_def)

definition fired :: "MSGQUEUE \<Rightarrow> TIMER \<Rightarrow> TIMER" where
  "fired q t = t\<lparr>ticks_expected := ticks_expected t + interv t, ticks_fired := last_ticks q\<rparr>"

lemma check_slots_run:
  assumes "length (timer_slots q) = DEF_NR_TIMERS" "n \<le> DEF_NR_TIMERS"
    and "foldl check_slot (0, q) [0..<n] = (nr, q')"
  shows "nr = int (card {j. j < n \<and> slot_expired q j}) \<and> last_ticks q' = last_ticks q
    \<and> nr_timers q' = nr_timers q \<and> length (timer_slots q') = DEF_NR_TIMERS
    \<and> (\<forall>j < DEF_NR_TIMERS. timer_slots q' ! j =
         (if j < n \<and> slot_expired q j then map_option (fired q) (timer_slots q ! j) else timer_slots q ! j))
    \<and> (\<forall>j. bit (expired_timer_mask q') j \<longleftrightarrow> bit (expired_timer_mask q) j \<or> (j < n \<and> slot_expired q j))"
  using assms
proof (induction n arbitrary: nr q')
  case (Suc n)
  obtain nr1 q1 where r1: "foldl check_slot (0, q) [0..<n] = (nr1, q1)"
    by (cases "foldl check_slot (0, q) [0..<n]")
  from Suc.IH [OF Suc.prems(1) _ r1] Suc.prems(2)
  have IH: "nr1 = int (card {j. j < n \<and> slot_expired q j})" "last_ticks q1 = last_ticks q"
    "nr_timers q1 = nr_timers q" "length (timer_slots q1) = DEF_NR_TIMERS"
    and slots1: "\<And>j. j < DEF_NR_TIMERS \<Longrightarrow> timer_slots q1 ! j =
         (if j < n \<and> slot_expired q j then map_option (fired q) (timer_slots q ! j) else timer_slots q ! j)"
    and mask1: "\<And>j. bit (expired_timer_mask q1) j \<longleftrightarrow> bit (expired_timer_mask q) j \<or> (j < n \<and> slot_expired q j)"
    by auto
  have n: "n < DEF_NR_TIMERS" "n < 64" using Suc.prems(2) by (simp_all add: DEF_NR_TIMERS_def)
  have last: "check_slot (nr1, q1) n = (nr, q')" using Suc.prems(3) r1 by simp
  have sl: "timer_slots q1 ! n = timer_slots q ! n" using slots1 [OF n(1)] by simp
  show ?case
  proof (cases "slot_expired q n")
    case False
    then have same: "nr = nr1" "q' = q1"
      using last sl IH(2) by (auto simp: check_slot_def slot_expired_def split: option.splits)
    have "{j. j < Suc n \<and> slot_expired q j} = {j. j < n \<and> slot_expired q j}"
      using False by (auto simp: less_Suc_eq)
    then show ?thesis using same IH slots1 mask1 False by (auto simp: less_Suc_eq)
  next
    case True
    then obtain t where t: "timer_slots q ! n = Some t" "ticks_expected t \<le> last_ticks q"
      by (auto simp: slot_expired_def split: option.splits)
    have new: "nr = nr1 + 1" "q' = fire_slot q1 n t"
      using last sl t IH(2) by (auto simp: check_slot_def)
    have "{j. j < Suc n \<and> slot_expired q j} = insert n {j. j < n \<and> slot_expired q j}"
      using True by (auto simp: less_Suc_eq)
    then have "nr = int (card {j. j < Suc n \<and> slot_expired q j})" using new IH(1) by simp
    moreover have "timer_slots q' ! j = (if j < Suc n \<and> slot_expired q j
        then map_option (fired q) (timer_slots q ! j) else timer_slots q ! j)" if "j < DEF_NR_TIMERS" for j
      using that slots1 [OF that] True t new IH n by (auto simp: nth_list_update fired_def less_Suc_eq)
    moreover have "bit (expired_timer_mask q') j \<longleftrightarrow>
        bit (expired_timer_mask q) j \<or> (j < Suc n \<and> slot_expired q j)" for j
      using mask1 [of j] True new n by (auto simp: less_Suc_eq)
    ultimately show ?thesis using new IH by simp
  qed
qed simp

lemma check_expired_timers_elapsed:
  assumes inv: "timers_inv q" and e: "elapsed \<noteq> 0"
    and res: "check_expired_timers is_dsk now q elapsed = (nr, q')"
  shows "timers_inv q'
    \<and> (\<forall>j < DEF_NR_TIMERS. bit (expired_timer_mask q') j \<longleftrightarrow> bit (expired_timer_mask q) j
         \<or> (\<exists>t. timer_slots q ! j = Some t \<and> ticks_expected t \<le> now))
    \<and> nr = int (card {j. j < DEF_NR_TIMERS \<and> (\<exists>t. timer_slots q ! j = Some t \<and> ticks_expected t \<le> now)})
    \<and> (\<forall>j < DEF_NR_TIMERS. timer_slots q' ! j = map_option (\<lambda>t. if ticks_expected t \<le> now
         then t\<lparr>ticks_expected := ticks_expected t + interv t, ticks_fired := now\<rparr> else t) (timer_slots q ! j))"
proof -
  let ?q = "update_tick_count is_dsk now q"
  have len: "length (timer_slots ?q) = DEF_NR_TIMERS" using inv by (simp add: timers_inv_def)
  have run: "foldl check_slot (0, ?q) [0..<DEF_NR_TIMERS] = (nr, q')"
    using res e by (simp add: check_expired_timers_def)
  have ex: "slot_expired ?q j \<longleftrightarrow> (\<exists>t. timer_slots q ! j = Some t \<and> ticks_expected t \<le> now)" for j
    by (auto simp: slot_expired_def split: option.splits)
  note R = check_slots_run [OF len order.refl run]
  have slots: "timer_slots q' ! j = map_option (\<lambda>t. if ticks_expected t \<le> now
         then t\<lparr>ticks_expected := ticks_expected t + interv t, ticks_fired := now\<rparr> else t) (timer_slots q ! j)"
    if "j < DEF_NR_TIMERS" for j
    using R that by (cases "timer_slots q ! j") (auto simp: ex fired_def)
  have occ: "timer_slots q' ! j = None \<longleftrightarrow> timer_slots q ! j = None" if "j < DEF_NR_TIMERS" for j
    using slots [OF that] by simp
  have keys: "\<exists>u. timer_slots q ! j = Some u \<and> tm_hWnd u = tm_hWnd t \<and> tm_id u = tm_id t"
    if "j < DEF_NR_TIMERS" "timer_slots q' ! j = Some t" for j t
    using slots [OF that(1)] that(2) by (cases "timer_slots q ! j") (auto split: if_splits)
  have "{j. j < DEF_NR_TIMERS \<and> timer_slots q' ! j \<noteq> None} = {j. j < DEF_NR_TIMERS \<and> timer_slots q ! j \<noteq> None}"
    using occ by (simp cong: conj_cong)
  then have "nr_timers q' = int (card {j. j < DEF_NR_TIMERS \<and> timer_slots q' ! j \<noteq> None})"
    using R inv by (simp add: timers_inv_def)
  moreover have "j = k" if "j < DEF_NR_TIMERS" "k < DEF_NR_TIMERS" "timer_slots q' ! j = Some t"
      "timer_slots q' ! k = Some u" "tm_hWnd t = tm_hWnd u" "tm_id t = tm_id u" for j k t u
    using keys [OF that(1,3)] keys [OF that(2,4)] that timers_invD(2) [OF inv that(1,2)] by metis
  moreover have "tm_id t \<noteq> 0" if "j < DEF_NR_TIMERS" "timer_slots q' ! j = Some t" for j t
    using keys [OF that] timers_invD(3) [OF inv that(1)] by metis
  moreover have "j < DEF_NR_TIMERS \<and> timer_slots q' ! j \<noteq> None" if "bit (expired_timer_mask q') j" for j
  proof -
    from R that have "bit (expired_timer_mask q) j \<or> (j < DEF_NR_TIMERS \<and> slot_expired ?q j)" by simp
    then have "j < DEF_NR_TIMERS \<and> timer_slots q ! j \<noteq> None"
      using timers_invD(4,5) [OF inv, of j] unfolding ex by (metis option.distinct(1))
    with occ [of j] show ?thesis by blast
  qed
  ultimately have "timers_inv q'" using R unfolding timers_inv_def by blast
  then show ?thesis using R slots ex by simp
qed

text \<open>C11: When ticks have elapsed, \<open>__mg_check_expired_timers\<close> flags exactly the timers whose expected tick has come (no
  timer fires early, none that is due is missed), returns their number, and moves each of
  them on by its interval. Called with no tick elapsed it returns 0 and leaves the queue as it is, whatever is due.\<close>

theorem check_expired_timers_exact:
  assumes inv: "timers_inv q" and res: "check_expired_timers is_dsk now q elapsed = (nr, q')"
  shows "if elapsed = 0 then nr = 0 \<and> q' = q
    else timers_inv q'
    \<and> (\<forall>j < DEF_NR_TIMERS. bit (expired_timer_mask q') j \<longleftrightarrow> bit (expired_timer_mask q) j
         \<or> (\<exists>t. timer_slots q ! j = Some t \<and> ticks_expected t \<le> now))
    \<and> nr = int (card {j. j < DEF_NR_TIMERS \<and> (\<exists>t. timer_slots q ! j = Some t \<and> ticks_expected t \<le> now)})
    \<and> (\<forall>j < DEF_NR_TIMERS. timer_slots q' ! j = map_option (\<lambda>t. if ticks_expected t \<le> now
         then t\<lparr>ticks_expected := ticks_expected t + interv t, ticks_fired := now\<rparr> else t) (timer_slots q ! j))"
proof (cases "elapsed = 0")
  case True
  then show ?thesis using res by (simp add: check_expired_timers_def)
next
  case False
  then show ?thesis using check_expired_timers_elapsed [OF inv False res] by simp
qed

theorem check_expired_timers_exact_witness:
  "bit (expired_timer_mask (snd (check_expired_timers False 130 (one_timer fresh_queue) 10))) 3"
proof -
  obtain nr q' where r: "check_expired_timers False 130 (one_timer fresh_queue) 10 = (nr, q')"
    by (cases "check_expired_timers False 130 (one_timer fresh_queue) 10")
  have "3 < DEF_NR_TIMERS" "timer_slots (one_timer fresh_queue) ! 3 = Some \<lparr>tm_hWnd = 7, tm_id = 1, interv = 20,
     ticks_expected = 120, ticks_fired = 0, tm_proc = None\<rparr>"
    by (simp_all add: one_timer_def no_timers_def DEF_NR_TIMERS_def)
  moreover have "(10 :: dword) \<noteq> 0" by simp
  ultimately show ?thesis using check_expired_timers_exact [OF one_timer_inv(1) r] r by auto
qed

section \<open>Where the code leaves the invariant\<close>

text \<open>\<open>__mg_remove_timer\<close>, which \<open>PeekMessageEx\<close> calls after a timer procedure has returned
  FALSE, does not clear an expiry flag that the slot has gained meanwhile.\<close>

lemma remove_timer_stale_flag:
  "timer_slots (remove_timer (one_timer q) 3) ! 3 = None
   \<and> bit (expired_timer_mask (remove_timer (one_timer q) 3)) 3"
  by (simp add: remove_timer_def one_timer_def no_timers_def DEF_NR_TIMERS_def)
    (simp add: slot_bit_def bit_simps)

text \<open>\<open>__mg_remove_timers_by_msg_queue\<close> frees every timer and counts one.\<close>

lemma remove_timers_by_msg_queue_count:
  "nr_timers (remove_timers_by_msg_queue (no_timers q)) = - 1"
  by (simp add: remove_timers_by_msg_queue_def no_timers_def)

text \<open>The desktop's flag needs a jump of more than ten ticks between two calls, because every call
  moves \<open>last_ticks\<close>: a clock that is read at least every ten ticks never raises it.\<close>

lemma update_tick_count_10:
  assumes "QS_DESKTIMER \<notin> dwState q" "now = last_ticks q + 10"
  shows "QS_DESKTIMER \<notin> dwState (update_tick_count True now q)"
proof -
  have "\<not> now > last_ticks q + DESKTOP_TIMER_INERTVAL" using assms(2) by (simp add: DESKTOP_TIMER_INERTVAL_def)
  with assms(1) show ?thesis by (simp add: update_tick_count_def Let_def)
qed

lemma desktop_timer_starves:
  assumes "QS_DESKTIMER \<notin> dwState q" "last_ticks q = 0"
  shows "QS_DESKTIMER \<notin> dwState
    (foldl (\<lambda>q k. update_tick_count True (10 * of_nat k) q) q (map Suc [0..<n]))"
proof -
  let ?f = "\<lambda>n. foldl (\<lambda>q k. update_tick_count True (10 * of_nat k) q) q (map Suc [0..<n])"
  have "QS_DESKTIMER \<notin> dwState (?f n) \<and> last_ticks (?f n) = 10 * of_nat n"
  proof (induction n)
    case 0
    with assms show ?case by simp
  next
    case (Suc n)
    have "(10 * of_nat (Suc n) :: dword) = 10 * of_nat n + 10" by simp
    with Suc update_tick_count_10 [of "?f n" "10 * of_nat (Suc n)"] show ?case by simp
  qed
  then show ?thesis by blast
qed

end
