(* ===== verification/MG_PostQueue.thy ===== *)
theory MG_PostQueue
  imports MG_KernelData
begin

text \<open>
  The ring buffer of posted messages in \<open>src/kernel/message.c\<close>: \<open>kernel_QueueMessage\<close> with its
  merging of mouse moves and clock messages, \<open>PeekPostMessage\<close>, and the removal of a window's
  messages. The model is refined to a bounded list.
\<close>

section \<open>Walking the ring\<close>

text \<open>
  The positions the loops \<open>while (readpos != writepos)\<close> visit. The walk is defined for
  positions inside the buffer, which every operation keeps.
\<close>

definition ring_gap :: "nat \<Rightarrow> nat \<Rightarrow> nat \<Rightarrow> nat" where
  "ring_gap n r w = (w + n - r) mod n"

lemma ring_gap_alt:
  assumes "r < n" "w < n"
  shows "ring_gap n r w = (if r \<le> w then w - r else w + n - r)"
proof (cases "r \<le> w")
  case True
  with assms have "w + n - r = (w - r) + n" "w - r < n" by auto
  then have "(w + n - r) mod n = w - r" by (metis mod_add_self2 mod_less)
  with True show ?thesis by (simp add: ring_gap_def)
qed (use assms in \<open>simp add: ring_gap_def\<close>)

lemma next_pos: "r < n \<Longrightarrow> (r + 1) mod n = (if r + 1 = n then 0 else r + 1)" for r n :: nat
  by auto

lemma ring_gap_next:
  assumes "r \<noteq> w" "r < n" "w < n"
  shows "ring_gap n r w = Suc (ring_gap n ((r + 1) mod n) w)"
proof -
  have "(r + 1) mod n < n" using assms by simp
  with assms show ?thesis
    by (simp only: ring_gap_alt next_pos [OF assms(2)]) (auto split: if_splits)
qed

lemma ring_gap_shrink:
  assumes "r \<noteq> w" "r < n" "w < n"
  shows "ring_gap n r w = Suc (ring_gap n r (if w > 0 then w - 1 else n - 1))"
proof -
  have "(if w > 0 then w - 1 else n - 1) < n" using assms by auto
  with assms show ?thesis by (simp only: ring_gap_alt) (auto split: if_splits)
qed

function ring :: "nat \<Rightarrow> nat \<Rightarrow> nat \<Rightarrow> nat list" where
  "ring n r w = (if r = w \<or> \<not> (r < n \<and> w < n) then [] else r # ring n ((r + 1) mod n) w)"
  by pat_completeness auto
termination
  by (relation "measure (\<lambda>(n, r, w). ring_gap n r w)") (auto dest: ring_gap_next)

declare ring.simps [simp del]

section \<open>Operations\<close>

text \<open>The two scans: the last message of the same kind, parameter and window, and the first of the
  same kind and window.\<close>

definition same_move :: "MSG \<Rightarrow> MSG \<Rightarrow> bool" where
  "same_move m a \<longleftrightarrow> message a = message m \<and> wParam a = wParam m \<and> hwnd a = hwnd m"

definition same_clock :: "MSG \<Rightarrow> MSG \<Rightarrow> bool" where
  "same_clock m a \<longleftrightarrow> message a = message m \<and> hwnd a = hwnd m"

fun last_at :: "(MSG \<Rightarrow> bool) \<Rightarrow> MSG list \<Rightarrow> nat option \<Rightarrow> nat list \<Rightarrow> nat option" where
  "last_at P ms last_msg [] = last_msg"
| "last_at P ms last_msg (p # ps) = last_at P ms (if P (ms ! p) then Some p else last_msg) ps"

fun first_at :: "(MSG \<Rightarrow> bool) \<Rightarrow> MSG list \<Rightarrow> nat list \<Rightarrow> nat option" where
  "first_at P ms [] = None"
| "first_at P ms (p # ps) = (if P (ms ! p) then Some p else first_at P ms ps)"

definition is_move :: "MSG \<Rightarrow> bool" where
  "is_move m \<longleftrightarrow> message m = MSG_MOUSEMOVE \<or> message m = MSG_NCMOUSEMOVE \<or> message m = MSG_DT_MOUSEMOVE"

definition is_clock :: "MSG \<Rightarrow> bool" where
  "is_clock m \<longleftrightarrow> message m = MSG_TIMEOUT \<or> message m = MSG_IDLE \<or> message m = MSG_CARETBLINK"

text \<open>Label \<open>ret\<close>: flag the queue, and wake its thread when the window is another thread's.\<close>

definition posted_ok :: "bool \<Rightarrow> MSGQUEUE \<Rightarrow> MSGQUEUE" where
  "posted_ok in_this_thread q =
     (let q1 = q\<lparr>dwState := insert QS_POSTMSG (dwState q)\<rparr>
      in if in_this_thread then q1 else POST_MSGQ q1)"

definition write_post :: "bool \<Rightarrow> MSGQUEUE \<Rightarrow> MSG \<Rightarrow> bool \<times> MSGQUEUE" where
  "write_post in_this_thread q m =
     (if (writepos q + 1) mod len q = readpos q then (False, q)
      else (True, posted_ok in_this_thread
              (q\<lparr>msgs := (msgs q)[writepos q := m], writepos := (writepos q + 1) mod len q\<rparr>)))"

text \<open>The result also has the caller's message, whose time the function sets.\<close>

definition kernel_QueueMessage :: "dword \<Rightarrow> bool \<Rightarrow> MSGQUEUE \<Rightarrow> MSG \<Rightarrow> bool \<times> MSG \<times> MSGQUEUE" where
  "kernel_QueueMessage tick in_this_thread q msg =
     (let m = msg\<lparr>msg_time := tick\<rparr>;
          ps = ring (len q) (readpos q) (writepos q);
          put = (case write_post in_this_thread q m of (ok, q') \<Rightarrow> (ok, m, q'))
      in if is_move m then
           (case last_at (same_move m) (msgs q) None ps of
              Some p \<Rightarrow> (True, m, posted_ok in_this_thread
                (q\<lparr>msgs := (msgs q)[p := (msgs q ! p)\<lparr>lParam := lParam m, msg_time := msg_time m\<rparr>]\<rparr>))
            | None \<Rightarrow> put)
         else if is_clock m then
           (case first_at (same_clock m) (msgs q) ps of
              Some p \<Rightarrow> (True, m, posted_ok in_this_thread
                (q\<lparr>msgs := (msgs q)[p := (msgs q ! p)\<lparr>wParam := wParam m, lParam := lParam m,
                                                   msg_time := msg_time m\<rparr>]\<rparr>))
            | None \<Rightarrow> put)
         else put)"

definition PeekPostMessage :: "MSGQUEUE \<Rightarrow> nat \<Rightarrow> nat \<Rightarrow> bool \<Rightarrow> bool \<times> MSG \<times> MSGQUEUE" where
  "PeekPostMessage q nMsgFilterMin nMsgFilterMax remove =
     (if QS_POSTMSG \<in> dwState q \<and> readpos q \<noteq> writepos q then
        let m = msgs q ! readpos q
        in if (nMsgFilterMin = 0 \<and> nMsgFilterMax = 0)
              \<or> (message m \<le> nMsgFilterMax \<and> message m \<ge> nMsgFilterMin)
           then (True, m\<lparr>pSyncMsg := None\<rparr>,
                 if remove then q\<lparr>readpos := (readpos q + 1) mod len q\<rparr> else q)
           else (False, zero_msg, q)
      else (False, zero_msg, q))"

text \<open>The \<open>do ... while (1)\<close> that moves the messages behind \<open>p\<close> down by one.\<close>

fun shift_down :: "nat list \<Rightarrow> MSG list \<Rightarrow> MSG list" where
  "shift_down (p # p' # ps) ms = shift_down (p' # ps) (ms[p := ms ! p'])"
| "shift_down _ ms = ms"

function throw_posted ::
  "(MSG \<Rightarrow> bool) \<Rightarrow> nat \<Rightarrow> nat \<Rightarrow> nat \<Rightarrow> MSG list \<Rightarrow> int \<Rightarrow> nat \<times> MSG list \<times> int" where
  "throw_posted P n r w ms cnt =
     (if r = w \<or> \<not> (r < n \<and> w < n) then (w, ms, cnt)
      else if P (ms ! r) then
        throw_posted P n r (if w > 0 then w - 1 else n - 1)
          (shift_down (ring n r w) (ms[r := (ms ! r)\<lparr>hwnd := HWND_INVALID\<rparr>])) (cnt + 1)
      else throw_posted P n ((r + 1) mod n) w ms cnt)"
  by pat_completeness auto
termination
proof (relation "measure (\<lambda>(P, n, r, w, ms, cnt). ring_gap n r w)", goal_cases)
  case (2 P n r w ms cnt)
  then show ?case using ring_gap_shrink [of r w n] by auto
next
  case (3 P n r w ms cnt)
  then show ?case using ring_gap_next [of r w n] by auto
qed simp

declare throw_posted.simps [simp del]

section \<open>The list behind the ring\<close>

definition ring_inv :: "MSGQUEUE \<Rightarrow> bool" where
  "ring_inv q \<longleftrightarrow> length (msgs q) = len q \<and> readpos q < len q \<and> writepos q < len q"

definition posted :: "MSGQUEUE \<Rightarrow> MSG list" where
  "posted q = map (\<lambda>p. msgs q ! p) (ring (len q) (readpos q) (writepos q))"

lemma ring_Nil [simp]: "ring n r r = []"
  by (simp add: ring.simps)

lemma ring_Cons: "r \<noteq> w \<Longrightarrow> r < n \<Longrightarrow> w < n \<Longrightarrow> ring n r w = r # ring n ((r + 1) mod n) w"
  by (simp add: ring.simps)

lemma length_ring: "r < n \<Longrightarrow> w < n \<Longrightarrow> length (ring n r w) = ring_gap n r w"
proof (induction n r w rule: ring.induct)
  case (1 n r w)
  show ?case
  proof (cases "r = w")
    case True
    with 1 show ?thesis by (simp add: ring_gap_def)
  next
    case False
    with 1 show ?thesis by (simp add: ring_Cons ring_gap_next)
  qed
qed

lemma nth_ring: "r < n \<Longrightarrow> w < n \<Longrightarrow> i < ring_gap n r w \<Longrightarrow> ring n r w ! i = (r + i) mod n"
proof (induction n r w arbitrary: i rule: ring.induct)
  case (1 n r w)
  then have ne: "r \<noteq> w" by (auto simp: ring_gap_def)
  show ?case
  proof (cases i)
    case 0
    with 1 ne show ?thesis by (simp add: ring_Cons)
  next
    case (Suc k)
    with 1 ne have "ring n ((r + 1) mod n) w ! k = ((r + 1) mod n + k) mod n"
      by (simp add: ring_gap_next)
    also have "\<dots> = (r + i) mod n" using Suc by (simp add: mod_add_left_eq)
    finally show ?thesis using 1 ne Suc by (simp add: ring_Cons)
  qed
qed

lemma ring_eq_map: "r < n \<Longrightarrow> w < n \<Longrightarrow> ring n r w = map (\<lambda>i. (r + i) mod n) [0..<ring_gap n r w]"
  by (rule nth_equalityI) (simp_all add: length_ring nth_ring)

lemma ring_gap_less: "0 < n \<Longrightarrow> ring_gap n r w < n"
  by (simp add: ring_gap_def)

lemma ring_distinct: "r < n \<Longrightarrow> w < n \<Longrightarrow> distinct (ring n r w)"
proof -
  assume rw: "r < n" "w < n"
  have "inj_on (\<lambda>i. (r + i) mod n) {0..<ring_gap n r w}"
  proof (rule inj_onI)
    fix i j assume "i \<in> {0..<ring_gap n r w}" "j \<in> {0..<ring_gap n r w}" and eq: "(r + i) mod n = (r + j) mod n"
    then have ij: "i < n" "j < n" using ring_gap_less [of n r w] rw by auto
    have wrap: "(r + k) mod n = (if r + k < n then r + k else r + k - n)" if "k < n" for k
      using that rw by (simp add: mod_if)
    show "i = j" using eq ij rw unfolding wrap [OF ij(1)] wrap [OF ij(2)] by (simp split: if_splits)
  qed
  then show ?thesis using rw by (simp add: ring_eq_map distinct_map)
qed

lemma ring_less: "r < n \<Longrightarrow> w < n \<Longrightarrow> p \<in> set (ring n r w) \<Longrightarrow> p < n"
  by (auto simp: ring_eq_map)

lemma ring_end: "r < n \<Longrightarrow> w < n \<Longrightarrow> (r + ring_gap n r w) mod n = w"
proof -
  assume rw: "r < n" "w < n"
  have "(r + ring_gap n r w) mod n = (r + (w + n - r)) mod n" by (simp add: ring_gap_def mod_add_right_eq)
  also have "r + (w + n - r) = w + n" using rw by simp
  finally show ?thesis using rw by simp
qed

lemma writepos_not_in_ring: "r < n \<Longrightarrow> w < n \<Longrightarrow> w \<notin> set (ring n r w)"
proof (induction n r w rule: ring.induct)
  case (1 n r w)
  then show ?case by (cases "r = w") (auto simp: ring_Cons)
qed

text \<open>The ring with its last position split off.\<close>

lemma ring_snoc:
  assumes "r \<noteq> w" "r < n" "w < n"
  shows "ring n r w = ring n r (if w > 0 then w - 1 else n - 1) @ [if w > 0 then w - 1 else n - 1]"
proof (rule nth_equalityI)
  let ?w = "if w > 0 then w - 1 else n - 1"
  have w: "?w < n" using assms by auto
  show "length (ring n r w) = length (ring n r ?w @ [?w])"
    using ring_gap_shrink [OF assms] assms w by (simp add: length_ring)
  fix i assume "i < length (ring n r w)"
  then have i: "i < ring_gap n r w" using assms by (simp add: length_ring)
  show "ring n r w ! i = (ring n r ?w @ [?w]) ! i"
  proof (cases "i < ring_gap n r ?w")
    case True
    then show ?thesis using i assms w by (simp add: nth_append length_ring nth_ring)
  next
    case False
    then have "i = ring_gap n r ?w" using i ring_gap_shrink [OF assms] by simp
    then show ?thesis using i assms w ring_end [OF assms(2) w]
      by (simp add: nth_append length_ring nth_ring)
  qed
qed

section \<open>Refinement to a list\<close>

lemma posted_Nil_iff: "ring_inv q \<Longrightarrow> posted q = [] \<longleftrightarrow> readpos q = writepos q"
  by (cases "readpos q = writepos q") (simp_all add: posted_def ring_inv_def ring_Cons)

lemma length_posted_less: "ring_inv q \<Longrightarrow> length (posted q) < len q"
  by (auto simp: posted_def ring_inv_def length_ring intro: ring_gap_less)

lemma posted_full:
  assumes "ring_inv q"
  shows "(writepos q + 1) mod len q = readpos q \<longleftrightarrow> length (posted q) + 1 = len q"
proof -
  have r: "readpos q < len q" "writepos q < len q" using assms by (simp_all add: ring_inv_def)
  then show ?thesis
    by (simp only: posted_def length_map length_ring ring_gap_alt next_pos) (auto split: if_splits)
qed

lemma ring_write:
  assumes "r < n" "w < n" "(w + 1) mod n \<noteq> r"
  shows "ring n r ((w + 1) mod n) = ring n r w @ [w]"
proof -
  have w: "(w + 1) mod n < n" using assms by simp
  have "(if (w + 1) mod n > 0 then (w + 1) mod n - 1 else n - 1) = w"
    using assms(2) by (simp only: next_pos) auto
  with ring_snoc [OF not_sym [OF assms(3)] assms(1) w] show ?thesis by simp
qed

lemma write_post_posted:
  assumes "ring_inv q"
  shows "write_post t q m = (ok, q') \<Longrightarrow> ring_inv q' \<and> len q' = len q \<and>
    (if length (posted q) + 1 = len q then \<not> ok \<and> q' = q else ok \<and> posted q' = posted q @ [m])"
proof -
  assume res: "write_post t q m = (ok, q')"
  have r: "readpos q < len q" "writepos q < len q" "length (msgs q) = len q"
    using assms by (simp_all add: ring_inv_def)
  show ?thesis
  proof (cases "(writepos q + 1) mod len q = readpos q")
    case True
    with res assms posted_full [OF assms] show ?thesis by (simp add: write_post_def)
  next
    case False
    then have "ok" and q': "msgs q' = (msgs q)[writepos q := m]" "writepos q' = (writepos q + 1) mod len q"
      "readpos q' = readpos q" "len q' = len q"
      using res by (auto simp: write_post_def posted_ok_def Let_def split: if_splits)
    have "posted q' = map ((!) (msgs q')) (ring (len q) (readpos q) (writepos q)) @ [m]"
      unfolding posted_def q'(2-4) ring_write [OF r(1,2) False] using r by (simp add: q'(1))
    also have "map ((!) (msgs q')) (ring (len q) (readpos q) (writepos q)) = posted q"
      unfolding posted_def using writepos_not_in_ring [OF r(1,2)]
      by (auto simp: q'(1) intro!: nth_list_update_neq)
    finally show ?thesis using \<open>ok\<close> False posted_full [OF assms] r q' by (simp add: ring_inv_def)
  qed
qed

lemma last_at_spec:
  "last_at P ms acc ps = (case filter (\<lambda>p. P (ms ! p)) ps of [] \<Rightarrow> acc | fs \<Rightarrow> Some (last fs))"
  by (induction P ms acc ps rule: last_at.induct) (auto split: list.splits)

lemma first_at_spec: "first_at P ms ps = find (\<lambda>p. P (ms ! p)) ps"
  by (induction ps) auto

text \<open>The list-level meaning: replace the last, or the first, element with a property.\<close>

fun update_first :: "('a \<Rightarrow> bool) \<Rightarrow> ('a \<Rightarrow> 'a) \<Rightarrow> 'a list \<Rightarrow> 'a list option" where
  "update_first P f [] = None"
| "update_first P f (x # xs) = (if P x then Some (f x # xs) else map_option ((#) x) (update_first P f xs))"

definition update_last :: "('a \<Rightarrow> bool) \<Rightarrow> ('a \<Rightarrow> 'a) \<Rightarrow> 'a list \<Rightarrow> 'a list option" where
  "update_last P f xs = map_option rev (update_first P f (rev xs))"

text \<open>Posting to a bounded list: merge a move with the latest of its kind, a clock message with the
  earliest, and append anything else while there is room.\<close>

definition post_list :: "nat \<Rightarrow> MSG \<Rightarrow> MSG list \<Rightarrow> MSG list option" where
  "post_list cap m xs =
     (let append = (if length xs < cap then Some (xs @ [m]) else None)
      in if is_move m then
           (case update_last (same_move m) (\<lambda>a. a\<lparr>lParam := lParam m, msg_time := msg_time m\<rparr>) xs of
              Some ys \<Rightarrow> Some ys | None \<Rightarrow> append)
         else if is_clock m then
           (case update_first (same_clock m)
               (\<lambda>a. a\<lparr>wParam := wParam m, lParam := lParam m, msg_time := msg_time m\<rparr>) xs of
              Some ys \<Rightarrow> Some ys | None \<Rightarrow> append)
         else append)"

lemma update_first_at:
  assumes "distinct ps" "\<forall>p \<in> set ps. p < length ms"
  shows "update_first P f (map ((!) ms) ps) =
    (case first_at P ms ps of None \<Rightarrow> None | Some p \<Rightarrow> Some (map ((!) (ms[p := f (ms ! p)])) ps))"
  using assms
proof (induction ps)
  case (Cons p ps)
  have found: "p' \<in> set ps" if "first_at P ms ps = Some p'" for p'
    using that by (auto simp: first_at_spec find_Some_iff)
  show ?case
  proof (cases "P (ms ! p)")
    case True
    have "map ((!) (ms[p := f (ms ! p)])) ps = map ((!) ms) ps" using Cons.prems by (auto simp: nth_list_update)
    with True Cons.prems show ?thesis by simp
  next
    case False
    then show ?thesis using Cons found by (auto split: option.splits simp: nth_list_update)
  qed
qed simp

lemma first_at_rev: "first_at P ms (rev ps) = last_at P ms None ps"
proof -
  have "first_at P ms (rev ps) = (case filter (\<lambda>p. P (ms ! p)) (rev ps) of [] \<Rightarrow> None | f # _ \<Rightarrow> Some f)"
    unfolding first_at_spec by (induction ps rule: rev_induct) auto
  also have "\<dots> = last_at P ms None ps"
  proof (cases "filter (\<lambda>p. P (ms ! p)) ps" rule: rev_cases)
    case (snoc ys y)
    moreover have "(case ys @ [y] of [] \<Rightarrow> None | fs \<Rightarrow> Some (last fs)) = Some y" by (cases ys) auto
    ultimately show ?thesis by (simp add: last_at_spec rev_filter [symmetric])
  qed (simp add: last_at_spec rev_filter [symmetric])
  finally show ?thesis .
qed

lemma update_last_at:
  assumes "distinct ps" "\<forall>p \<in> set ps. p < length ms"
  shows "update_last P f (map ((!) ms) ps) =
    (case last_at P ms None ps of None \<Rightarrow> None | Some p \<Rightarrow> Some (map ((!) (ms[p := f (ms ! p)])) ps))"
proof -
  have "update_first P f (map ((!) ms) (rev ps)) = (case first_at P ms (rev ps) of None \<Rightarrow> None
      | Some p \<Rightarrow> Some (map ((!) (ms[p := f (ms ! p)])) (rev ps)))"
    by (rule update_first_at) (use assms in auto)
  then show ?thesis
    unfolding update_last_def rev_map first_at_rev by (auto split: option.splits simp: rev_map)
qed

lemma posted_ok_sel [simp]:
  "len (posted_ok t q) = len q" "msgs (posted_ok t q) = msgs q" "readpos (posted_ok t q) = readpos q"
  "writepos (posted_ok t q) = writepos q" "QS_POSTMSG \<in> dwState (posted_ok t q)"
  by (simp_all add: posted_ok_def Let_def)

lemma queue_message_spec:
  assumes inv: "ring_inv q" and res: "kernel_QueueMessage tick here q msg = (ok, m, q')"
  shows "ring_inv q' \<and> m = msg\<lparr>msg_time := tick\<rparr>
    \<and> (case post_list (len q - 1) m (posted q) of
         None \<Rightarrow> \<not> ok \<and> q' = q
       | Some xs \<Rightarrow> ok \<and> posted q' = xs \<and> QS_POSTMSG \<in> dwState q')"
proof -
  let ?ps = "ring (len q) (readpos q) (writepos q)" and ?m = "msg\<lparr>msg_time := tick\<rparr>"
  have r: "readpos q < len q" "writepos q < len q" "length (msgs q) = len q"
    using inv by (simp_all add: ring_inv_def)
  have ps: "distinct ?ps" by (rule ring_distinct [OF r(1,2)])
  have less: "\<forall>p \<in> set ?ps. p < length (msgs q)"
    unfolding r(3) by (intro ballI ring_less [OF r(1,2)])
  have "fst (snd (kernel_QueueMessage tick here q msg)) = ?m"
    by (simp add: kernel_QueueMessage_def Let_def split: option.split prod.split)
  then have m: "m = ?m" using res by simp
  obtain okw qw where w: "write_post here q ?m = (okw, qw)" by (cases "write_post here q ?m")
  note W = write_post_posted [OF inv w]
  have flag: "okw \<longrightarrow> QS_POSTMSG \<in> dwState qw" using w by (auto simp: write_post_def split: if_splits)
  have room: "length (posted q) < len q - 1 \<longleftrightarrow> length (posted q) + 1 \<noteq> len q"
    using length_posted_less [OF inv] by auto
  let ?append = "if length (posted q) < len q - 1 then Some (posted q @ [?m]) else None"
  have put: "case (if length (posted q) < len q - 1 then Some (posted q @ [?m]) else None) of
      None \<Rightarrow> \<not> okw \<and> qw = q | Some xs \<Rightarrow> okw \<and> posted qw = xs \<and> QS_POSTMSG \<in> dwState qw"
    using W flag room by auto
  have upd: "posted (posted_ok here (q\<lparr>msgs := (msgs q)[p := x]\<rparr>)) = map ((!) ((msgs q)[p := x])) ?ps" for p x
    by (simp add: posted_def)
  have inv_upd: "ring_inv (posted_ok here (q\<lparr>msgs := (msgs q)[p := x]\<rparr>))" for p x
    using r by (simp add: ring_inv_def)
  have posted: "posted q = map ((!) (msgs q)) ?ps" by (simp add: posted_def)
  note last = update_last_at [OF ps less, folded posted] and first = update_first_at [OF ps less, folded posted]
  have appended: ?thesis if "post_list (len q - 1) ?m (posted q) = ?append" "ok = okw" "q' = qw"
    using put W unfolding m that by blast
  consider (move) "is_move ?m" | (clock) "\<not> is_move ?m" "is_clock ?m" | (plain) "\<not> is_move ?m" "\<not> is_clock ?m"
    by blast
  then show ?thesis
  proof cases
    case move
    show ?thesis
    proof (cases "last_at (same_move ?m) (msgs q) None ?ps")
      case None
      then have "ok = okw" "q' = qw" using res w move by (auto simp: kernel_QueueMessage_def Let_def)
      moreover have "post_list (len q - 1) ?m (posted q) = ?append"
        using None move by (simp add: post_list_def last Let_def)
      ultimately show ?thesis by (intro appended)
    next
      case (Some p)
      then have "ok" "q' = posted_ok here
          (q\<lparr>msgs := (msgs q)[p := (msgs q ! p)\<lparr>lParam := lParam ?m, msg_time := msg_time ?m\<rparr>]\<rparr>)"
        using res move by (auto simp: kernel_QueueMessage_def Let_def)
      with Some move m inv_upd show ?thesis
        by (simp add: post_list_def last upd Let_def)
    qed
  next
    case clock
    show ?thesis
    proof (cases "first_at (same_clock ?m) (msgs q) ?ps")
      case None
      then have "ok = okw" "q' = qw" using res w clock by (auto simp: kernel_QueueMessage_def Let_def)
      moreover have "post_list (len q - 1) ?m (posted q) = ?append"
        using None clock by (simp add: post_list_def first Let_def)
      ultimately show ?thesis by (intro appended)
    next
      case (Some p)
      then have "ok" "q' = posted_ok here (q\<lparr>msgs := (msgs q)[p := (msgs q ! p)\<lparr>wParam := wParam ?m,
            lParam := lParam ?m, msg_time := msg_time ?m\<rparr>]\<rparr>)"
        using res clock by (auto simp: kernel_QueueMessage_def Let_def)
      with Some clock m inv_upd show ?thesis
        by (simp add: post_list_def first upd Let_def)
    qed
  next
    case plain
    then have "ok = okw" "q' = qw" using res w by (auto simp: kernel_QueueMessage_def Let_def)
    moreover have "post_list (len q - 1) ?m (posted q) = ?append"
      using plain by (simp add: post_list_def Let_def)
    ultimately show ?thesis by (intro appended)
  qed
qed

text \<open>C5: \<open>kernel_QueueMessage\<close> refines posting to a bounded list of \<open>len - 1\<close> places: it fails
  exactly when the list operation does, leaving the queue alone, and otherwise the ring holds
  the list the operation returns.\<close>

theorem kernel_QueueMessage_refines:
  assumes "ring_inv q" "kernel_QueueMessage tick here q msg = (ok, m, q')"
  shows "ring_inv q' \<and> m = msg\<lparr>msg_time := tick\<rparr>
    \<and> (case post_list (len q - 1) m (posted q) of
         None \<Rightarrow> \<not> ok \<and> q' = q
       | Some xs \<Rightarrow> ok \<and> posted q' = xs \<and> QS_POSTMSG \<in> dwState q')"
  using assms by (rule queue_message_spec)

text \<open>A queue with an empty buffer of \<open>n\<close> cells.\<close>

definition empty_posts :: "nat \<Rightarrow> MSGQUEUE \<Rightarrow> MSGQUEUE" where
  "empty_posts n q = q\<lparr>len := n, msgs := replicate n zero_msg, readpos := 0, writepos := 0\<rparr>"

lemma empty_posts_inv: "0 < n \<Longrightarrow> ring_inv (empty_posts n q)" "posted (empty_posts n q) = []"
  "len (empty_posts n q) = n"
  by (simp_all add: ring_inv_def empty_posts_def posted_def)

lemma post_list_plain:
  "\<not> is_move m \<Longrightarrow> \<not> is_clock m \<Longrightarrow> length xs < cap \<Longrightarrow> post_list cap m xs = Some (xs @ [m])"
  by (simp add: post_list_def)

lemma one_plain_message:
  "\<not> is_move (zero_msg\<lparr>message := 5, msg_time := 9\<rparr>)" "\<not> is_clock (zero_msg\<lparr>message := 5, msg_time := 9\<rparr>)"
  by (simp_all add: is_move_def is_clock_def msg_codes)

theorem kernel_QueueMessage_refines_witness:
  "posted (snd (snd (kernel_QueueMessage 9 True (empty_posts 64 fresh_queue) (zero_msg\<lparr>message := 5\<rparr>))))
     = [zero_msg\<lparr>message := 5, msg_time := 9\<rparr>]"
proof -
  obtain ok m q' where r: "kernel_QueueMessage 9 True (empty_posts 64 fresh_queue) (zero_msg\<lparr>message := 5\<rparr>) = (ok, m, q')"
    by (cases "kernel_QueueMessage 9 True (empty_posts 64 fresh_queue) (zero_msg\<lparr>message := 5\<rparr>)")
  have inv: "ring_inv (empty_posts 64 fresh_queue)" by (simp add: empty_posts_inv)
  note refines = kernel_QueueMessage_refines [OF inv r]
  have m: "m = zero_msg\<lparr>message := 5, msg_time := 9\<rparr>" using refines by simp
  show ?thesis using refines unfolding r m by (simp add: empty_posts_inv post_list_plain one_plain_message)
qed

section \<open>Taking messages out\<close>

lemma posted_advance:
  assumes "ring_inv q" "readpos q \<noteq> writepos q"
  shows "posted q = msgs q ! readpos q # posted (q\<lparr>readpos := (readpos q + 1) mod len q\<rparr>)"
    and "ring_inv (q\<lparr>readpos := (readpos q + 1) mod len q\<rparr>)"
proof -
  have r: "readpos q < len q" "writepos q < len q" using assms by (simp_all add: ring_inv_def)
  show "posted q = msgs q ! readpos q # posted (q\<lparr>readpos := (readpos q + 1) mod len q\<rparr>)"
    unfolding posted_def ring_Cons [OF assms(2) r] by simp
  have "(readpos q + 1) mod len q < len q" by (rule mod_less_divisor) (use r in linarith)
  then show "ring_inv (q\<lparr>readpos := (readpos q + 1) mod len q\<rparr>)"
    using assms(1) by (simp add: ring_inv_def)
qed

lemma peek_post_spec:
  assumes inv: "ring_inv q" and flag: "posted q \<noteq> [] \<longrightarrow> QS_POSTMSG \<in> dwState q"
    and res: "PeekPostMessage q lo hi remove = (ok, m, q')"
  shows "ring_inv q' \<and> (case posted q of
      [] \<Rightarrow> \<not> ok \<and> q' = q
    | x # xs \<Rightarrow> (if (lo = 0 \<and> hi = 0) \<or> (lo \<le> message x \<and> message x \<le> hi)
        then ok \<and> m = x\<lparr>pSyncMsg := None\<rparr> \<and> posted q' = (if remove then xs else x # xs)
        else \<not> ok \<and> q' = q))"
proof (cases "readpos q = writepos q")
  case True
  with res inv show ?thesis by (simp add: posted_def PeekPostMessage_def)
next
  case False
  note adv = posted_advance [OF inv False]
  have "QS_POSTMSG \<in> dwState q" using flag adv(1) by simp
  with res False have "ok \<longleftrightarrow> (lo = 0 \<and> hi = 0) \<or> (lo \<le> message (msgs q ! readpos q) \<and> message (msgs q ! readpos q) \<le> hi)"
    "ok \<Longrightarrow> m = (msgs q ! readpos q)\<lparr>pSyncMsg := None\<rparr>"
    "q' = (if ok \<and> remove then q\<lparr>readpos := (readpos q + 1) mod len q\<rparr> else q)"
    by (auto simp: PeekPostMessage_def Let_def split: if_splits)
  then show ?thesis using adv inv by (auto split: list.split)
qed

text \<open>Deleting: what \<open>shift_down\<close> leaves in the cells of a ring.\<close>

lemma length_shift_down [simp]: "length (shift_down ps ms) = length ms"
  by (induction ps ms rule: shift_down.induct) simp_all

lemma shift_down_other: "p \<notin> set (butlast ps) \<Longrightarrow> shift_down ps ms ! p = ms ! p"
  by (induction ps ms rule: shift_down.induct) (auto simp: nth_list_update_neq)

lemma shift_down_ring:
  assumes "distinct (p # ps)" "\<forall>x \<in> set (p # ps). x < length ms"
  shows "map ((!) (shift_down (p # ps) ms)) (butlast (p # ps)) = map ((!) ms) ps"
  using assms
proof (induction ps arbitrary: p ms)
  case (Cons p' ps)
  let ?ms = "ms[p := ms ! p']"
  have "shift_down (p' # ps) ?ms ! p = ?ms ! p"
    by (rule shift_down_other) (use Cons.prems in \<open>auto dest: in_set_butlastD\<close>)
  then have "shift_down (p' # ps) ?ms ! p = ms ! p'" using Cons.prems by simp
  moreover have "map ((!) (shift_down (p' # ps) ?ms)) (butlast (p' # ps)) = map ((!) ?ms) ps"
    using Cons.prems by (intro Cons.IH) auto
  moreover have "map ((!) ?ms) ps = map ((!) ms) ps"
    using Cons.prems by (auto intro!: nth_list_update_neq)
  ultimately show ?case by simp
qed simp

lemma throw_posted_run:
  assumes "throw_posted P n r w ms cnt = (w', ms', cnt')" "r < n" "w < n" "length ms = n"
  shows "w' < n \<and> length ms' = n
    \<and> map ((!) ms') (ring n r w') = filter (Not \<circ> P) (map ((!) ms) (ring n r w))
    \<and> cnt' = cnt + int (length (filter P (map ((!) ms) (ring n r w))))
    \<and> (\<forall>p. p \<notin> set (ring n r w) \<longrightarrow> ms' ! p = ms ! p)"
  using assms
proof (induction P n r w ms cnt arbitrary: w' ms' cnt' rule: throw_posted.induct)
  case (1 P n r w ms cnt)
  note prems = "1.prems"
  show ?case
  proof (cases "r = w")
    case True
    with prems have "w' = w" "ms' = ms" "cnt' = cnt" by (simp_all add: throw_posted.simps [of P n w w])
    with True prems show ?thesis by simp
  next
    case ne: False
    have go: "\<not> (r = w \<or> \<not> (r < n \<and> w < n))" using ne prems by simp
    let ?rest = "ring n ((r + 1) mod n) w"
    have ring: "ring n r w = r # ?rest" by (rule ring_Cons [OF ne prems(2,3)])
    have dist: "distinct (r # ?rest)" using ring_distinct [OF prems(2,3)] ring by simp
    have less: "\<forall>x \<in> set (r # ?rest). x < n" using ring_less [OF prems(2,3)] ring by metis
    show ?thesis
    proof (cases "P (ms ! r)")
      case match: True
      let ?w = "if w > 0 then w - 1 else n - 1"
      define ms1 where "ms1 = ms[r := (ms ! r)\<lparr>hwnd := HWND_INVALID\<rparr>]"
      define ms2 where "ms2 = shift_down (ring n r w) ms1"
      have w: "?w < n" using prems by auto
      have res: "throw_posted P n r ?w ms2 (cnt + 1) = (w', ms', cnt')"
        using prems(1) go match by (simp add: throw_posted.simps [of P n r w] ms1_def ms2_def)
      have len: "length ms2 = n" using prems by (simp add: ms1_def ms2_def)
      note IH = "1.IH"(1) [OF go match, folded ms1_def, folded ms2_def, OF res prems(2) w len]
      have butlast: "ring n r ?w = butlast (ring n r w)"
        unfolding ring_snoc [OF ne prems(2,3)] by simp
      have cells: "map ((!) ms2) (ring n r ?w) = map ((!) ms) ?rest"
      proof -
        have "map ((!) ms2) (butlast (r # ?rest)) = map ((!) ms1) ?rest"
          unfolding ms2_def ring by (rule shift_down_ring [OF dist]) (use less prems in \<open>simp add: ms1_def\<close>)
        also have "\<dots> = map ((!) ms) ?rest"
          using dist by (auto simp: ms1_def intro!: nth_list_update_neq)
        finally show ?thesis unfolding butlast ring .
      qed
      have other: "ms' ! p = ms ! p" if "p \<notin> set (ring n r w)" for p
      proof -
        have nb: "p \<notin> set (butlast (ring n r w))" using that by (auto dest: in_set_butlastD)
        then have "ms' ! p = ms2 ! p" using IH butlast by metis
        also have "\<dots> = ms1 ! p" unfolding ms2_def by (rule shift_down_other [OF nb])
        also have "\<dots> = ms ! p" using that ring by (simp add: ms1_def nth_list_update)
        finally show ?thesis .
      qed
      from IH match other show ?thesis unfolding cells ring by simp
    next
      case nomatch: False
      let ?r = "(r + 1) mod n"
      have r: "?r < n" using prems by simp
      have res: "throw_posted P n ?r w ms cnt = (w', ms', cnt')"
        using prems(1) go nomatch by (simp add: throw_posted.simps [of P n r w])
      note IH = "1.IH"(2) [OF go nomatch res r prems(3,4)]
      then have w': "w' < n" by simp
      have "length (map ((!) ms') (ring n ?r w')) \<le> length (map ((!) ms) ?rest)"
        using IH by (simp only: length_filter_le)
      then have "ring_gap n ?r w' \<le> ring_gap n ?r w" by (simp only: length_map length_ring r w' prems)
      moreover have "ring_gap n ?r w + 1 = ring_gap n r w" "ring_gap n r w < n"
        using ring_gap_next [OF ne prems(2,3)] ring_gap_less [of n r w] prems by (simp_all add: ring_gap_def)
      ultimately have gap: "ring_gap n ?r w' < n - 1" by linarith
      have "w' \<noteq> r"
      proof
        assume "w' = r"
        then have "ring_gap n ?r r < n - 1" using gap by simp
        moreover have "ring_gap n ?r r = n - 1" using r prems(2) by (simp only: ring_gap_alt next_pos) auto
        ultimately show False by simp
      qed
      then have ring': "ring n r w' = r # ring n ?r w'" by (intro ring_Cons) (use w' prems in auto)
      have "r \<notin> set ?rest" using dist by simp
      then have "ms' ! r = ms ! r" using IH by blast
      with IH nomatch show ?thesis unfolding ring ring' by simp
    qed
  qed
qed

end
