(* ===== verification/MG_Fifo.thy ===== *)
theory MG_Fifo
  imports MG_PostQueue
begin

text \<open>
  The contract of a bounded first-in-first-out queue, the order in which its client gets things back, and
  the ring of posted messages as an instance: \<open>kernel_QueueMessage\<close> for messages that are not merged, and
  \<open>PeekPostMessage\<close> without a filter.
\<close>

section \<open>The contract\<close>

locale bounded_fifo =
  fixes wf :: "'q \<Rightarrow> bool" and cap :: "'q \<Rightarrow> nat" and contents :: "'q \<Rightarrow> 'm list"
    and adm :: "'m \<Rightarrow> bool" and stamp :: "'m \<Rightarrow> 'm"
    and put :: "'m \<Rightarrow> 'q \<Rightarrow> bool \<times> 'q" and get :: "'q \<Rightarrow> ('m \<times> 'q) option"
  assumes put_room: "wf q \<Longrightarrow> adm m \<Longrightarrow> length (contents q) < cap q \<Longrightarrow>
      \<exists>q'. put m q = (True, q') \<and> wf q' \<and> cap q' = cap q \<and> contents q' = contents q @ [stamp m]"
    and put_full: "wf q \<Longrightarrow> adm m \<Longrightarrow> \<not> length (contents q) < cap q \<Longrightarrow> put m q = (False, q)"
    and get_none: "wf q \<Longrightarrow> contents q = [] \<Longrightarrow> get q = None"
    and get_some: "wf q \<Longrightarrow> contents q = x # xs \<Longrightarrow>
      \<exists>q'. get q = Some (x, q') \<and> wf q' \<and> cap q' = cap q \<and> contents q' = xs"

text \<open>The client: put a list of messages, and get until nothing is left or \<open>n\<close> have come.\<close>

fun put_all :: "('m \<Rightarrow> 'q \<Rightarrow> bool \<times> 'q) \<Rightarrow> 'm list \<Rightarrow> 'q \<Rightarrow> bool list \<times> 'q" where
  "put_all put [] q = ([], q)"
| "put_all put (m # ms) q =
     (let (ok, q') = put m q; (oks, q'') = put_all put ms q' in (ok # oks, q''))"

fun get_upto :: "('q \<Rightarrow> ('m \<times> 'q) option) \<Rightarrow> nat \<Rightarrow> 'q \<Rightarrow> 'm list" where
  "get_upto get 0 q = []"
| "get_upto get (Suc n) q = (case get q of None \<Rightarrow> [] | Some (x, q') \<Rightarrow> x # get_upto get n q')"

context bounded_fifo
begin

lemma put_all_contents:
  "wf q \<Longrightarrow> list_all adm ms \<Longrightarrow> length (contents q) \<le> cap q \<Longrightarrow>
     \<exists>q'. put_all put ms q = (map (\<lambda>i. i < cap q - length (contents q)) [0..<length ms], q')
       \<and> wf q' \<and> cap q' = cap q \<and> length (contents q') \<le> cap q
       \<and> contents q' = contents q @ take (cap q - length (contents q)) (map stamp ms)"
proof (induction ms arbitrary: q)
  case (Cons m ms)
  have upt: "map (\<lambda>i. i < n) [0..<length (m # ms)] = (0 < n) # map (\<lambda>i. i < n - 1) [0..<length ms]" for n :: nat
    by (rule nth_equalityI) (auto simp: nth_Cons' simp del: upt_Suc)
  show ?case
  proof (cases "length (contents q) < cap q")
    case True
    have "wf q" "adm m" using Cons.prems by simp_all
    from put_room [OF this True] obtain q1 where q1: "put m q = (True, q1)" "wf q1" "cap q1 = cap q"
      "contents q1 = contents q @ [stamp m]" by blast
    have "list_all adm ms" "length (contents q1) \<le> cap q1" using Cons.prems True q1 by simp_all
    from Cons.IH [OF q1(2) this] obtain q2 where q2:
      "put_all put ms q1 = (map (\<lambda>i. i < cap q1 - length (contents q1)) [0..<length ms], q2)"
      "wf q2" "cap q2 = cap q1" "length (contents q2) \<le> cap q1"
      "contents q2 = contents q1 @ take (cap q1 - length (contents q1)) (map stamp ms)" by blast
    obtain n where n: "cap q - length (contents q) = Suc n" using True by (metis Suc_diff_Suc)
    then have n1: "cap q1 - length (contents q1) = n" "cap q - Suc (length (contents q)) = n" using q1 by simp_all
    show ?thesis unfolding n upt using q1(1,3,4) q2 by (simp add: n1 Let_def)
  next
    case False
    have "wf q" "adm m" using Cons.prems by simp_all
    from put_full [OF this False] have put: "put m q = (False, q)" .
    have "list_all adm ms" using Cons.prems by simp
    from Cons.IH [OF Cons.prems(1) this Cons.prems(3)] obtain q2 where q2:
      "put_all put ms q = (map (\<lambda>i. i < cap q - length (contents q)) [0..<length ms], q2)"
      "wf q2" "cap q2 = cap q" "length (contents q2) \<le> cap q"
      "contents q2 = contents q @ take (cap q - length (contents q)) (map stamp ms)" by blast
    have n: "cap q - length (contents q) = 0" using False by simp
    show ?thesis using put q2 unfolding n upt by (simp add: Let_def)
  qed
qed simp

lemma get_upto_contents: "wf q \<Longrightarrow> get_upto get n q = take n (contents q)"
proof (induction n arbitrary: q)
  case (Suc n)
  show ?case
  proof (cases "contents q")
    case Nil
    with get_none [OF Suc.prems] show ?thesis by simp
  next
    case (Cons x xs)
    from get_some [OF Suc.prems Cons] obtain q' where "get q = Some (x, q')" "wf q'" "contents q' = xs" by blast
    with Suc.IH [of q'] Cons show ?thesis by simp
  qed
qed simp

text \<open>What fits comes back in the order in which it was put, behind what was there.\<close>

lemma fifo_order:
  assumes "wf q" "list_all adm ms" "length (contents q) \<le> cap q" "cap q \<le> n"
  shows "get_upto get n (snd (put_all put ms q))
    = contents q @ take (cap q - length (contents q)) (map stamp ms)"
proof -
  obtain q' where q': "snd (put_all put ms q) = q'" "wf q'" "length (contents q') \<le> cap q"
    "contents q' = contents q @ take (cap q - length (contents q)) (map stamp ms)"
    using put_all_contents [OF assms(1-3)] by fastforce
  then show ?thesis using get_upto_contents [OF q'(2), of n] assms(4) by simp
qed

end

section \<open>The ring of posted messages\<close>

definition unsync :: "MSG \<Rightarrow> MSG" where
  "unsync m = m\<lparr>pSyncMsg := None\<rparr>"

definition ring_ready :: "MSGQUEUE \<Rightarrow> bool" where
  "ring_ready q \<longleftrightarrow> ring_inv q \<and> (posted q \<noteq> [] \<longrightarrow> QS_POSTMSG \<in> dwState q)"

definition plain_msg :: "MSG \<Rightarrow> bool" where
  "plain_msg m \<longleftrightarrow> \<not> is_move m \<and> \<not> is_clock m"

definition post_to_ring :: "dword \<Rightarrow> bool \<Rightarrow> MSG \<Rightarrow> MSGQUEUE \<Rightarrow> bool \<times> MSGQUEUE" where
  "post_to_ring tick here m q = (case kernel_QueueMessage tick here q m of (ok, _, q') \<Rightarrow> (ok, q'))"

definition take_from_ring :: "MSGQUEUE \<Rightarrow> (MSG \<times> MSGQUEUE) option" where
  "take_from_ring q = (case PeekPostMessage q 0 0 True of (ok, m, q') \<Rightarrow> if ok then Some (m, q') else None)"

lemma ring_len_kept:
  "kernel_QueueMessage tick here q m = (ok, m', q') \<Longrightarrow> len q' = len q"
  by (auto simp: kernel_QueueMessage_def write_post_def Let_def split: if_splits option.splits)

lemma peek_len_kept: "PeekPostMessage q lo hi remove = (ok, m, q') \<Longrightarrow> len q' = len q \<and> dwState q' = dwState q"
  by (auto simp: PeekPostMessage_def Let_def split: if_splits)

interpretation ring: bounded_fifo ring_ready "\<lambda>q. len q - 1" "\<lambda>q. map unsync (posted q)" plain_msg
    "\<lambda>m. unsync (m\<lparr>msg_time := tick\<rparr>)" "post_to_ring tick here" take_from_ring
  for tick :: dword and here :: bool
proof unfold_locales
  fix q m
  assume q: "ring_ready q" and m: "plain_msg m"
  obtain ok m' q' where k: "kernel_QueueMessage tick here q m = (ok, m', q')"
    by (cases "kernel_QueueMessage tick here q m")
  have inv: "ring_inv q" using q by (simp add: ring_ready_def)
  note spec = queue_message_spec [OF inv k]
  have m': "m' = m\<lparr>msg_time := tick\<rparr>" using spec by simp
  then have plain: "\<not> is_move m'" "\<not> is_clock m'" using m by (simp_all add: plain_msg_def is_move_def is_clock_def)
  note step = spec [THEN conjunct2, THEN conjunct2]
  show "\<exists>q'. post_to_ring tick here m q = (True, q') \<and> ring_ready q' \<and> len q' - 1 = len q - 1
      \<and> map unsync (posted q') = map unsync (posted q) @ [unsync (m\<lparr>msg_time := tick\<rparr>)]"
    if room: "length (map unsync (posted q)) < len q - 1"
  proof -
    have "post_list (len q - 1) m' (posted q) = Some (posted q @ [m'])"
      using room plain by (intro post_list_plain) simp_all
    with step have "ok" "posted q' = posted q @ [m']" "QS_POSTMSG \<in> dwState q'" by simp_all
    then show ?thesis using spec k m' ring_len_kept [OF k] by (simp add: post_to_ring_def ring_ready_def)
  qed
  show "post_to_ring tick here m q = (False, q)" if full: "\<not> length (map unsync (posted q)) < len q - 1"
  proof -
    have "post_list (len q - 1) m' (posted q) = None" using full plain by (simp add: post_list_def)
    with step have "\<not> ok" "q' = q" by simp_all
    then show ?thesis using k by (simp add: post_to_ring_def)
  qed
next
  fix q
  assume q: "ring_ready q"
  then have inv: "ring_inv q" and flag: "posted q \<noteq> [] \<longrightarrow> QS_POSTMSG \<in> dwState q" by (simp_all add: ring_ready_def)
  obtain ok m q' where p: "PeekPostMessage q 0 0 True = (ok, m, q')" by (cases "PeekPostMessage q 0 0 True")
  note spec = peek_post_spec [OF inv flag p]
  show "take_from_ring q = None" if "map unsync (posted q) = []"
    using that spec p by (simp add: take_from_ring_def)
  show "\<exists>q'. take_from_ring q = Some (x, q') \<and> ring_ready q' \<and> len q' - 1 = len q - 1
      \<and> map unsync (posted q') = xs" if "map unsync (posted q) = x # xs" for x xs
  proof -
    from that obtain y ys where y: "posted q = y # ys" "x = unsync y" "xs = map unsync ys" by auto
    then have "ok" "m = unsync y" "posted q' = ys" "ring_inv q'" using spec by (simp_all add: unsync_def)
    moreover have "QS_POSTMSG \<in> dwState q'" "len q' = len q" using peek_len_kept [OF p] flag y(1) by simp_all
    ultimately show ?thesis using p y by (simp add: take_from_ring_def ring_ready_def)
  qed
qed

lemma posted_le_cap: "ring_ready q \<Longrightarrow> length (map unsync (posted q)) \<le> len q - 1"
  using length_posted_less [of q] by (simp add: ring_ready_def)

text \<open>messages that are not merged come out of the ring in the order in which they were posted,
  behind those already there; posting accepts the first ones up to the capacity of \<open>len - 1\<close> and refuses
  the rest without losing any.\<close>

theorem posted_messages_fifo:
  assumes "ring_ready q" "list_all plain_msg ms" "len q \<le> n"
  shows "get_upto take_from_ring n (snd (put_all (post_to_ring tick here) ms q))
      = map unsync (posted q) @ take (len q - 1 - length (posted q)) (map (\<lambda>m. unsync (m\<lparr>msg_time := tick\<rparr>)) ms)
    \<and> fst (put_all (post_to_ring tick here) ms q)
      = map (\<lambda>i. i < len q - 1 - length (posted q)) [0..<length ms]"
proof -
  have "len q - 1 \<le> n" using assms(3) by simp
  from ring.fifo_order [OF assms(1,2) posted_le_cap [OF assms(1)] this, of tick here]
    ring.put_all_contents [OF assms(1,2) posted_le_cap [OF assms(1)], of tick here]
  show ?thesis by auto
qed

theorem posted_messages_fifo_witness:
  "map message (get_upto take_from_ring 4 (snd (put_all (post_to_ring 9 True)
       [zero_msg\<lparr>message := 5\<rparr>, zero_msg\<lparr>message := 6\<rparr>, zero_msg\<lparr>message := 7\<rparr>, zero_msg\<lparr>message := 8\<rparr>]
       (empty_posts 4 fresh_queue)))) = [5, 6, 7]"
proof -
  let ?ms = "[zero_msg\<lparr>message := 5\<rparr>, zero_msg\<lparr>message := 6\<rparr>, zero_msg\<lparr>message := 7\<rparr>, zero_msg\<lparr>message := 8\<rparr>]"
  have ready: "ring_ready (empty_posts 4 fresh_queue)" by (simp add: ring_ready_def empty_posts_inv)
  have plain: "list_all plain_msg ?ms" by (simp add: plain_msg_def is_move_def is_clock_def msg_codes)
  have "len (empty_posts 4 fresh_queue) \<le> 4" by (simp add: empty_posts_inv)
  from posted_messages_fifo [OF ready plain this, of 9 True] have "get_upto take_from_ring 4 (snd (put_all (post_to_ring 9 True) ?ms (empty_posts 4 fresh_queue)))
      = map unsync [] @ take (4 - 1 - length ([] :: MSG list)) (map (\<lambda>m. unsync (m\<lparr>msg_time := 9\<rparr>)) ?ms)"
    unfolding empty_posts_inv(2,3) by blast
  then show ?thesis by (simp add: unsync_def del: put_all.simps get_upto.simps)
qed

end
