(* ===== verification/MG_MsgSend.thy ===== *)
theory MG_MsgSend
  imports MG_Timer MG_PostQueue
begin

text \<open>
  The sending side of \<open>src/kernel/message.c\<close>: notification, synchronous, posted and quit
  messages, broadcasting, dispatching, and the removal of a window's messages.

  \<open>qs\<close> holds the message queues by name, \<open>self\<close> is the calling thread's queue, \<open>wins\<close> the
  window objects, \<open>tick\<close> the value of \<open>__mg_tick_counter\<close>. The list of notification
  messages is the chain from \<open>pFirstNotifyMsg\<close>. A synchronous message is an object on its
  sender's stack: \<open>nodes\<close> holds these by address, because the chain from \<open>pFirstSyncMsg\<close> is
  changed in place.
\<close>

type_synonym queues = "nat \<Rightarrow> MSGQUEUE"
type_synonym syncs = "nat \<Rightarrow> SYNCMSG"

definition ERR_OK :: int where "ERR_OK = 0"
definition ERR_QUEUE_FULL :: int where "ERR_QUEUE_FULL = -1"
definition ERR_INV_HWND :: int where "ERR_INV_HWND = -2"
definition ERR_MSG_CANCELED :: int where "ERR_MSG_CANCELED = -3"

definition in_this_thread :: "windows \<Rightarrow> nat \<Rightarrow> HWND \<Rightarrow> bool" where
  "in_this_thread wins self h \<longleftrightarrow> getMainWinIfWindowInThisThread wins self h \<noteq> None"

definition wake_unless :: "bool \<Rightarrow> MSGQUEUE \<Rightarrow> MSGQUEUE" where
  "wake_unless here q = (if here then q else POST_MSGQ q)"

section \<open>Notification messages\<close>

definition queue_notify :: "bool \<Rightarrow> MSG \<Rightarrow> MSGQUEUE \<Rightarrow> MSGQUEUE" where
  "queue_notify here m q =
     wake_unless here (q\<lparr>notify_msgs := notify_msgs q @ [m], dwState := insert QS_NOTIFYMSG (dwState q)\<rparr>)"

definition queue_prior_notify :: "bool \<Rightarrow> MSG \<Rightarrow> MSGQUEUE \<Rightarrow> MSGQUEUE" where
  "queue_prior_notify here m q =
     wake_unless here (q\<lparr>notify_msgs := m # notify_msgs q, dwState := insert QS_NOTIFYMSG (dwState q)\<rparr>)"

definition SendNotifyMessage ::
  "windows \<Rightarrow> nat \<Rightarrow> dword \<Rightarrow> queues \<Rightarrow> HWND \<Rightarrow> nat \<Rightarrow> dword \<Rightarrow> dword \<Rightarrow> int \<times> queues" where
  "SendNotifyMessage wins self tick qs hWnd nMsg wp lp =
     (if \<not> MG_IS_WINDOW wins hWnd then (ERR_INV_HWND, qs)
      else case getMsgQueue wins hWnd of
        None \<Rightarrow> (ERR_INV_HWND, qs)
      | Some k \<Rightarrow> (ERR_OK, qs(k := queue_notify (in_this_thread wins self hWnd)
          \<lparr>hwnd = hWnd, message = nMsg, wParam = wp, lParam = lp, msg_time = tick, pSyncMsg = None\<rparr> (qs k))))"

definition SendPriorNotifyMessage ::
  "windows \<Rightarrow> nat \<Rightarrow> dword \<Rightarrow> queues \<Rightarrow> HWND \<Rightarrow> nat \<Rightarrow> dword \<Rightarrow> dword \<Rightarrow> int \<times> queues" where
  "SendPriorNotifyMessage wins self tick qs hWnd nMsg wp lp =
     (if \<not> MG_IS_WINDOW wins hWnd then (ERR_INV_HWND, qs)
      else case getMsgQueue wins hWnd of
        None \<Rightarrow> (ERR_INV_HWND, qs)
      | Some k \<Rightarrow> (ERR_OK, qs(k := queue_prior_notify (in_this_thread wins self hWnd)
          \<lparr>hwnd = hWnd, message = nMsg, wParam = wp, lParam = lp, msg_time = tick, pSyncMsg = None\<rparr> (qs k))))"

definition NotifyWindow ::
  "windows \<Rightarrow> nat \<Rightarrow> queues \<Rightarrow> HWND \<Rightarrow> dword \<Rightarrow> dword \<Rightarrow> dword \<Rightarrow> int \<times> queues" where
  "NotifyWindow wins self qs hWnd i code dwAddData =
     (if \<not> MG_IS_WINDOW wins hWnd then (ERR_INV_HWND, qs)
      else case getMsgQueue wins hWnd of
        None \<Rightarrow> (ERR_INV_HWND, qs)
      | Some k \<Rightarrow> (ERR_OK, qs(k := queue_notify (in_this_thread wins self hWnd)
          \<lparr>hwnd = hWnd, message = MSG_NOTIFICATION, wParam = i, lParam = code, msg_time = dwAddData,
           pSyncMsg = None\<rparr> (qs k))))"

section \<open>Posted messages, paint requests and quitting\<close>

definition PostMessage ::
  "windows \<Rightarrow> nat \<Rightarrow> dword \<Rightarrow> queues \<Rightarrow> HWND \<Rightarrow> nat \<Rightarrow> dword \<Rightarrow> dword \<Rightarrow> int \<times> queues" where
  "PostMessage wins self tick qs hWnd nMsg wp lp =
     (case getMsgQueue wins hWnd of
        None \<Rightarrow> (ERR_INV_HWND, qs)
      | Some k \<Rightarrow>
          if nMsg = MSG_PAINT then
            (ERR_OK, qs(k := wake_unless (in_this_thread wins self hWnd)
               ((qs k)\<lparr>dwState := insert QS_PAINT (dwState (qs k))\<rparr>)))
          else
            (case kernel_QueueMessage tick (in_this_thread wins self hWnd) (qs k)
                    \<lparr>hwnd = hWnd, message = nMsg, wParam = wp, lParam = lp, msg_time = 0, pSyncMsg = None\<rparr> of
               (ok, m, q') \<Rightarrow> (if ok then ERR_OK else ERR_QUEUE_FULL, qs(k := q'))))"

text \<open>The window may already be marked for deletion, unlike in \<open>getMsgQueue\<close>.\<close>

definition queue_of_live_or_dying :: "windows \<Rightarrow> HWND \<Rightarrow> nat option" where
  "queue_of_live_or_dying wins h =
     (if h \<noteq> HWND_NULL \<and> h \<noteq> HWND_INVALID then
        (case wins h of
           None \<Rightarrow> None
         | Some w \<Rightarrow> if DataType w = TYPE_HWND \<or> DataType w = TYPE_WINTODEL
                     then map_option pMsgQueue (wins (pMainWin w)) else None)
      else None)"

definition request_quit :: "MSGQUEUE \<Rightarrow> MSGQUEUE" where
  "request_quit q =
     (if QS_QUIT \<notin> dwState q
      then q\<lparr>loop_depth := loop_depth q + 1, dwState := insert QS_QUIT (dwState q)\<rparr> else q)"

definition PostQuitMessage :: "windows \<Rightarrow> nat \<Rightarrow> queues \<Rightarrow> HWND \<Rightarrow> int \<times> queues" where
  "PostQuitMessage wins self qs hWnd =
     (case queue_of_live_or_dying wins hWnd of
        None \<Rightarrow> (ERR_INV_HWND, qs)
      | Some k \<Rightarrow> (ERR_OK, qs(k := wake_unless (in_this_thread wins self hWnd) (request_quit (qs k)))))"

section \<open>Broadcasting\<close>

fun travel_all_hosted :: "MAINWIN \<Rightarrow> (MAINWIN \<Rightarrow> 's \<Rightarrow> 's) \<Rightarrow> 's \<Rightarrow> 's" where
  "travel_all_hosted (MAINWIN c k hs) cb data = foldl (\<lambda>d w. cb w (travel_all_hosted w cb d)) data hs"

definition my_travel_cb ::
  "windows \<Rightarrow> nat \<Rightarrow> dword \<Rightarrow> MAINWIN \<Rightarrow> MSG \<times> queues \<Rightarrow> MSG \<times> queues" where
  "my_travel_cb wins self tick w st =
     (case st of (msg, qs) \<Rightarrow>
        let m = msg\<lparr>hwnd := ctrl_hwnd (main_ctrl w)\<rparr>; k = mw_queue w
        in case kernel_QueueMessage tick (in_this_thread wins self (hwnd m)) (qs k) m of
             (ok, m', q') \<Rightarrow> (if ok then m'\<lparr>msg_time := msg_time m' + 1\<rparr> else m', qs(k := q')))"

definition broadcast_message ::
  "windows \<Rightarrow> nat \<Rightarrow> dword \<Rightarrow> queues \<Rightarrow> nat \<Rightarrow> MSG \<Rightarrow> int \<times> queues" where
  "broadcast_message wins self tick qs k msg =
     (let m0 = msg\<lparr>msg_time := 0\<rparr>;
          (m, qs') = (case pRootMainWin (qs k) of
             None \<Rightarrow> (m0, qs)
           | Some win \<Rightarrow> my_travel_cb wins self tick win
               (travel_all_hosted win (my_travel_cb wins self tick) (m0, qs)))
      in (sint (ucast (msg_time m) :: 32 word), qs'))"

definition handle_idle_message :: "windows \<Rightarrow> nat \<Rightarrow> dword \<Rightarrow> queues \<Rightarrow> nat \<Rightarrow> int \<times> queues" where
  "handle_idle_message wins self tick qs k =
     (let n = idle_counter (qs k) + 1;
          qs1 = qs(k := (qs k)\<lparr>idle_counter := n\<rparr>)
      in if n \<ge> MAX_IDLE_COUNTER then
           (case broadcast_message wins self tick qs1 k (zero_msg\<lparr>message := MSG_IDLE, wParam := tick\<rparr>) of
              (r, qs2) \<Rightarrow> (r, qs2(k := (qs2 k)\<lparr>idle_counter := 0\<rparr>)))
         else (0, qs1))"

section \<open>Synchronous messages\<close>

text \<open>\<open>SendSyncMessage\<close> up to the point where the sender waits; \<open>p\<close> is the address of its
  \<open>SyncMsg\<close>.\<close>

definition queue_sync :: "nat \<Rightarrow> MSG \<Rightarrow> syncs \<Rightarrow> MSGQUEUE \<Rightarrow> syncs \<times> MSGQUEUE" where
  "queue_sync p m nodes q =
     (let nodes1 = nodes(p := \<lparr>sMsg = m, retval = ERR_MSG_CANCELED, sem_posts = 0, pNext = None\<rparr>);
          (nodes2, q2) =
            (case pFirstSyncMsg q of
               None \<Rightarrow> (nodes1, q\<lparr>pFirstSyncMsg := Some p, pLastSyncMsg := Some p\<rparr>)
             | Some _ \<Rightarrow>
                 (case pLastSyncMsg q of
                    None \<Rightarrow> (nodes1, q\<lparr>pLastSyncMsg := Some p\<rparr>)
                  | Some l \<Rightarrow> (nodes1(l := (nodes1 l)\<lparr>pNext := Some p\<rparr>), q\<lparr>pLastSyncMsg := Some p\<rparr>)))
      in (nodes2, POST_MSGQ (q2\<lparr>dwState := insert QS_SYNCMSG (dwState q2)\<rparr>)))"

definition sem_post :: "nat \<Rightarrow> syncs \<Rightarrow> syncs" where
  "sem_post p nodes = nodes(p := (nodes p)\<lparr>sem_posts := sem_posts (nodes p) + 1\<rparr>)"

text \<open>The handlers: \<open>wndproc h\<close> and \<open>notifproc h\<close> are the procedures of window \<open>h\<close>, as
  functions on the state \<open>s\<close> of the rest of the program.\<close>

definition MSG_COMMAND :: nat where "MSG_COMMAND = 0x0120"

definition MAKELONG :: "dword \<Rightarrow> dword \<Rightarrow> dword" where
  "MAKELONG low high = take_bit 32 low OR push_bit 32 (take_bit 32 high)"

definition DispatchMessage ::
  "(HWND \<Rightarrow> (HWND \<Rightarrow> nat \<Rightarrow> dword \<Rightarrow> dword \<Rightarrow> 's \<Rightarrow> int \<times> 's) option) \<Rightarrow>
   (HWND \<Rightarrow> (HWND \<Rightarrow> dword \<Rightarrow> dword \<Rightarrow> dword \<Rightarrow> 's \<Rightarrow> 's) option) \<Rightarrow>
   MSG \<Rightarrow> syncs \<Rightarrow> 's \<Rightarrow> int \<times> syncs \<times> 's" where
  "DispatchMessage wndproc notifproc m nodes s =
     (let finish = (\<lambda>r nodes. case pSyncMsg m of
              None \<Rightarrow> nodes
            | Some p \<Rightarrow> sem_post p (nodes(p := (nodes p)\<lparr>retval := r\<rparr>)))
      in if hwnd m = HWND_INVALID then (-1, finish ERR_MSG_CANCELED nodes, s)
         else if hwnd m = 0 then (-1, nodes, s)
         else case wndproc (hwnd m) of
           None \<Rightarrow> (-1, nodes, s)
         | Some wp \<Rightarrow>
             let (r, s') =
               (if message m = MSG_NOTIFICATION then
                  (case notifproc (hwnd m) of
                     Some np \<Rightarrow> (0, np (hwnd m) (wParam m) (lParam m) (msg_time m) s)
                   | None \<Rightarrow> wp (hwnd m) MSG_COMMAND (MAKELONG (wParam m) (lParam m)) (msg_time m) s)
                else wp (hwnd m) (message m) (wParam m) (lParam m) s)
             in (r, finish r nodes, s'))"

section \<open>Removing the messages of a window\<close>

definition msg_of_window :: "windows \<Rightarrow> HWND \<Rightarrow> HWND \<Rightarrow> bool" where
  "msg_of_window wins h a \<longleftrightarrow> a = h
     \<or> (case checkAndGetMainWindowIfControl wins a of None \<Rightarrow> h = HWND_NULL | Some m \<Rightarrow> m = h)"

fun throw_notify :: "(MSG \<Rightarrow> bool) \<Rightarrow> MSG list \<Rightarrow> int \<Rightarrow> MSG list \<times> int" where
  "throw_notify P [] n = ([], n)"
| "throw_notify P (m # ms) n =
     (if P m then throw_notify P ms (n + 1)
      else (case throw_notify P ms n of (r, n') \<Rightarrow> (m # r, n')))"

text \<open>
  The loop over the chain of synchronous messages, pointer by pointer; \<open>first\<close> is
  \<open>pFirstSyncMsg\<close>. It is partial because a chain in memory may be a cycle.
\<close>

definition cancel_node :: "nat \<Rightarrow> syncs \<Rightarrow> syncs" where
  "cancel_node p nodes = nodes(p := (nodes p)\<lparr>sMsg := (sMsg (nodes p))\<lparr>hwnd := HWND_INVALID\<rparr>,
                                             retval := ERR_MSG_CANCELED\<rparr>)"

partial_function (option) throw_sync ::
  "(MSG \<Rightarrow> bool) \<Rightarrow> syncs \<Rightarrow> nat option \<Rightarrow> nat option \<Rightarrow> nat option \<Rightarrow> int
     \<Rightarrow> (syncs \<times> nat option \<times> int) option" where
  "throw_sync P nodes first prev cur cnt =
     (case cur of
        None \<Rightarrow> Some (nodes, first, cnt)
      | Some p \<Rightarrow>
          if P (sMsg (nodes p)) then
            let nodes1 = cancel_node p nodes
            in (case prev of
                  Some v \<Rightarrow>
                    let nodes2 = sem_post p (nodes1(v := (nodes1 v)\<lparr>pNext := pNext (nodes1 p)\<rparr>))
                    in throw_sync P nodes2 first (Some p) (pNext (nodes2 p)) (cnt + 1)
                | None \<Rightarrow>
                    throw_sync P (sem_post p nodes1) (pNext (nodes1 p)) None (pNext (nodes1 p)) (cnt + 1))
          else throw_sync P nodes first (Some p) (pNext (nodes p)) cnt)"

text \<open>Clearing the flags of expired timers: a flag of an empty slot makes the program read
  through NULL, the result \<open>None\<close>.\<close>

definition throw_timer_flag :: "(HWND \<Rightarrow> bool) \<Rightarrow> MSGQUEUE option \<Rightarrow> nat \<Rightarrow> MSGQUEUE option" where
  "throw_timer_flag P r slot =
     (case r of
        None \<Rightarrow> None
      | Some q \<Rightarrow>
          if bit (expired_timer_mask q) slot then
            (case timer_slots q ! slot of
               None \<Rightarrow> None
             | Some t \<Rightarrow>
                 if P (tm_hWnd t)
                 then Some (q\<lparr>expired_timer_mask := expired_timer_mask q AND NOT (slot_bit slot)\<rparr>)
                 else Some q)
          else Some q)"

definition throw_away_messages ::
  "windows \<Rightarrow> HWND \<Rightarrow> syncs \<Rightarrow> MSGQUEUE \<Rightarrow> (int \<times> syncs \<times> MSGQUEUE) option" where
  "throw_away_messages wins h nodes q =
     (let P = (\<lambda>m. msg_of_window wins h (hwnd m));
          (ns, cn) = throw_notify P (notify_msgs q) 0
      in case throw_sync P nodes (pFirstSyncMsg q) None (pFirstSyncMsg q) 0 of
           None \<Rightarrow> None
         | Some (nodes', first, cs) \<Rightarrow>
             (case throw_posted P (len q) (readpos q) (writepos q) (msgs q) 0 of
                (w, ms, cp) \<Rightarrow>
                  map_option (\<lambda>q'. (cn + cs + cp, nodes', q'))
                    (foldl (throw_timer_flag (msg_of_window wins h))
                       (Some (q\<lparr>notify_msgs := ns, pFirstSyncMsg := first, writepos := w, msgs := ms\<rparr>))
                       [0..<DEF_NR_TIMERS])))"

definition ThrowAwayMessages ::
  "windows \<Rightarrow> HWND \<Rightarrow> syncs \<Rightarrow> queues \<Rightarrow> (int \<times> syncs \<times> queues) option" where
  "ThrowAwayMessages wins h nodes qs =
     (case queue_of_live_or_dying wins h of
        None \<Rightarrow> Some (ERR_INV_HWND, nodes, qs)
      | Some k \<Rightarrow> map_option (\<lambda>(n, nodes', q'). (n, nodes', qs(k := q')))
                    (throw_away_messages wins h nodes (qs k)))"

text \<open>Every synchronous message matches when the whole queue is emptied.\<close>

definition EmptyMessageQueue ::
  "windows \<Rightarrow> nat \<Rightarrow> HWND \<Rightarrow> syncs \<Rightarrow> queues \<Rightarrow> (bool \<times> syncs \<times> queues) option" where
  "EmptyMessageQueue wins self h nodes qs =
     (case getMsgQueueIfWindowInThisThread wins self h of
        None \<Rightarrow> Some (False, nodes, qs)
      | Some k \<Rightarrow>
          map_option (\<lambda>(nodes', first, n). (True, nodes', qs(k :=
              (qs k)\<lparr>pFirstSyncMsg := first, notify_msgs := [], readpos := 0, writepos := 0,
                     dwState := {}, expired_timer_mask := 0\<rparr>)))
            (throw_sync (\<lambda>_. True) nodes (pFirstSyncMsg (qs k)) None (pFirstSyncMsg (qs k)) 0))"

section \<open>Notification messages of a window are filtered out\<close>

lemma throw_notify_filter:
  "throw_notify P ms n = (filter (Not \<circ> P) ms, n + int (length (filter P ms)))"
  by (induction P ms n rule: throw_notify.induct) simp_all

section \<open>The chain of synchronous messages\<close>

text \<open>\<open>sync_chain nodes p xs\<close>: following \<open>pNext\<close> from \<open>p\<close> one meets exactly \<open>xs\<close>, then NULL.\<close>

fun sync_chain :: "syncs \<Rightarrow> nat option \<Rightarrow> nat list \<Rightarrow> bool" where
  "sync_chain nodes p [] \<longleftrightarrow> p = None"
| "sync_chain nodes p (x # xs) \<longleftrightarrow> p = Some x \<and> sync_chain nodes (pNext (nodes x)) xs"

lemma sync_chain_cong:
  "(\<And>x. x \<in> set xs \<Longrightarrow> pNext (nodes' x) = pNext (nodes x)) \<Longrightarrow> sync_chain nodes' p xs = sync_chain nodes p xs"
  by (induction xs arbitrary: p) simp_all

text \<open>The chain the loop leaves. Matches at the head all go; after a message that stays, the
  first match is unlinked, the second stays linked, the third is unlinked, and so on:
  \<open>sync_kept True\<close> has a linked predecessor, \<open>sync_kept False\<close> one that was just unlinked.\<close>

fun sync_kept :: "(nat \<Rightarrow> bool) \<Rightarrow> bool \<Rightarrow> nat list \<Rightarrow> nat list" where
  "sync_kept M linked [] = []"
| "sync_kept M True (x # xs) = (if M x then sync_kept M False xs else x # sync_kept M True xs)"
| "sync_kept M False (x # xs) = x # sync_kept M True xs"

definition sync_left :: "(nat \<Rightarrow> bool) \<Rightarrow> nat list \<Rightarrow> nat list" where
  "sync_left M xs = (case dropWhile M xs of [] \<Rightarrow> [] | y # ys \<Rightarrow> y # sync_kept M True ys)"

text \<open>What happens to a message besides its link.\<close>

definition cancelled :: "SYNCMSG \<Rightarrow> SYNCMSG" where
  "cancelled s = s\<lparr>sMsg := (sMsg s)\<lparr>hwnd := HWND_INVALID\<rparr>, retval := ERR_MSG_CANCELED,
                   sem_posts := sem_posts s + 1\<rparr>"

definition same_body :: "SYNCMSG \<Rightarrow> SYNCMSG \<Rightarrow> bool" where
  "same_body s t \<longleftrightarrow> s\<lparr>pNext := None\<rparr> = t\<lparr>pNext := None\<rparr>"

lemma same_body_simps [simp]:
  "same_body s s" "same_body (s\<lparr>pNext := p\<rparr>) t = same_body s t" "same_body s (t\<lparr>pNext := p\<rparr>) = same_body s t"
  "pNext (cancelled s) = pNext s"
  by (simp_all add: same_body_def cancelled_def)

lemma same_body_trans: "same_body s t \<Longrightarrow> same_body t u \<Longrightarrow> same_body s u"
  by (simp add: same_body_def)

lemma same_body_cancelled: "same_body s t \<Longrightarrow> same_body (cancelled s) (cancelled t)"
  by (cases s; cases t) (simp add: same_body_def cancelled_def)

lemma same_body_msg: "same_body s t \<Longrightarrow> sMsg s = sMsg t"
  by (cases s; cases t) (simp add: same_body_def)

lemma cancel_post: "sem_post p (cancel_node p nodes) = nodes(p := cancelled (nodes p))"
  by (simp add: sem_post_def cancel_node_def cancelled_def fun_eq_iff)

lemma cancel_unlink_post:
  "p \<noteq> v \<Longrightarrow> sem_post p ((cancel_node p nodes)(v := (cancel_node p nodes v)\<lparr>pNext := pNext (cancel_node p nodes p)\<rparr>))
     = nodes(p := cancelled (nodes p), v := (nodes v)\<lparr>pNext := pNext (nodes p)\<rparr>)"
  by (auto simp: sem_post_def cancel_node_def cancelled_def fun_eq_iff)

lemma throw_sync_None: "throw_sync P nodes first prev None cnt = Some (nodes, first, cnt)"
  by (simp add: throw_sync.simps)

lemma throw_sync_match:
  "P (sMsg (nodes p)) \<Longrightarrow> p \<noteq> v \<Longrightarrow> throw_sync P nodes first (Some v) (Some p) cnt =
     throw_sync P (nodes(p := cancelled (nodes p), v := (nodes v)\<lparr>pNext := pNext (nodes p)\<rparr>))
       first (Some p) (pNext (nodes p)) (cnt + 1)"
  by (subst throw_sync.simps) (simp add: cancel_unlink_post Let_def)

lemma throw_sync_match_head:
  "P (sMsg (nodes p)) \<Longrightarrow> throw_sync P nodes first None (Some p) cnt =
     throw_sync P (nodes(p := cancelled (nodes p))) (pNext (nodes p)) None (pNext (nodes p)) (cnt + 1)"
  by (subst throw_sync.simps) (simp add: cancel_post Let_def, simp add: cancel_node_def)

lemma throw_sync_keep:
  "\<not> P (sMsg (nodes p)) \<Longrightarrow> throw_sync P nodes first prev (Some p) cnt =
     throw_sync P nodes first (Some p) (pNext (nodes p)) cnt"
  by (subst throw_sync.simps) simp

lemma throw_sync_from:
  assumes "sync_chain nodes cur xs" "distinct (v # xs)" "linked \<Longrightarrow> pNext (nodes v) = cur"
    and "\<forall>x \<in> set xs. M x \<longleftrightarrow> P (sMsg (nodes x))"
  shows "\<exists>nodes'. throw_sync P nodes first (Some v) cur cnt = Some (nodes', first, cnt + int (length (filter M xs)))
    \<and> (\<forall>x \<in> set xs. same_body (nodes' x) (if M x then cancelled (nodes x) else nodes x))
    \<and> same_body (nodes' v) (nodes v) \<and> (\<forall>x. x \<notin> set (v # xs) \<longrightarrow> nodes' x = nodes x)
    \<and> sync_chain nodes' (if linked then pNext (nodes' v) else cur) (sync_kept M linked xs)"
  using assms
proof (induction xs arbitrary: nodes v cur cnt linked)
  case Nil
  then show ?case by (auto simp: throw_sync_None)
next
  case (Cons p xs)
  have cur: "cur = Some p" and rest: "sync_chain nodes (pNext (nodes p)) xs" using Cons.prems by simp_all
  have d: "p \<noteq> v" "p \<notin> set xs" "v \<notin> set xs" "distinct (p # xs)" using Cons.prems by auto
  show ?case
  proof (cases "M p")
    case True
    define nodes1 where "nodes1 = nodes(p := cancelled (nodes p), v := (nodes v)\<lparr>pNext := pNext (nodes p)\<rparr>)"
    have n1: "nodes1 p = cancelled (nodes p)" "nodes1 v = (nodes v)\<lparr>pNext := pNext (nodes p)\<rparr>"
      "\<And>x. x \<noteq> p \<Longrightarrow> x \<noteq> v \<Longrightarrow> nodes1 x = nodes x" using d by (auto simp: nodes1_def)
    have step: "throw_sync P nodes first (Some v) cur cnt
        = throw_sync P nodes1 first (Some p) (pNext (nodes p)) (cnt + 1)"
      unfolding cur nodes1_def using True Cons.prems d by (intro throw_sync_match) simp_all
    have eq: "nodes1 x = nodes x" if "x \<in> set xs" for x using n1(3) d that by metis
    have chain1: "sync_chain nodes1 (pNext (nodes p)) xs"
      using rest eq by (simp add: sync_chain_cong [of xs nodes1 nodes])
    have link1: "pNext (nodes1 p) = pNext (nodes p)" using n1(1) by simp
    have M1: "\<forall>x \<in> set xs. M x \<longleftrightarrow> P (sMsg (nodes1 x))" using Cons.prems eq by simp
    obtain nodes' where IH: "throw_sync P nodes1 first (Some p) (pNext (nodes p)) (cnt + 1)
          = Some (nodes', first, cnt + 1 + int (length (filter M xs)))"
      "\<forall>x \<in> set xs. same_body (nodes' x) (if M x then cancelled (nodes1 x) else nodes1 x)"
      "same_body (nodes' p) (nodes1 p)" "\<forall>x. x \<notin> set (p # xs) \<longrightarrow> nodes' x = nodes1 x"
      "sync_chain nodes' (if \<not> linked then pNext (nodes' p) else pNext (nodes p)) (sync_kept M (\<not> linked) xs)"
      using Cons.IH [of nodes1 "pNext (nodes p)" p "\<not> linked" "cnt + 1", OF chain1 d(4) link1 M1] by blast
    have "nodes' v = nodes1 v" using IH(4) d by simp
    then have v: "pNext (nodes' v) = pNext (nodes p)" "same_body (nodes' v) (nodes v)" using n1(2) by simp_all
    have "throw_sync P nodes first (Some v) cur cnt
        = Some (nodes', first, cnt + int (length (filter M (p # xs))))"
      unfolding step IH(1) using True by simp
    moreover have "same_body (nodes' x) (if M x then cancelled (nodes x) else nodes x)" if "x \<in> set xs" for x
      using bspec [OF IH(2) that] unfolding eq [OF that] .
    then have "\<forall>x \<in> set (p # xs). same_body (nodes' x) (if M x then cancelled (nodes x) else nodes x)"
      using IH(3) n1(1) True by simp
    moreover have "\<forall>x. x \<notin> set (v # p # xs) \<longrightarrow> nodes' x = nodes x" using IH(4) n1(3) by simp
    moreover have "sync_chain nodes' (if linked then pNext (nodes' v) else cur) (sync_kept M linked (p # xs))"
      using IH(5) True v(1) cur by (cases linked) simp_all
    ultimately show ?thesis using v(2) by blast
  next
    case False
    have step: "throw_sync P nodes first (Some v) cur cnt = throw_sync P nodes first (Some p) (pNext (nodes p)) cnt"
      unfolding cur using False Cons.prems by (intro throw_sync_keep) simp
    have M1: "\<forall>x \<in> set xs. M x \<longleftrightarrow> P (sMsg (nodes x))" using Cons.prems by simp
    obtain nodes' where IH: "throw_sync P nodes first (Some p) (pNext (nodes p)) cnt
          = Some (nodes', first, cnt + int (length (filter M xs)))"
      "\<forall>x \<in> set xs. same_body (nodes' x) (if M x then cancelled (nodes x) else nodes x)"
      "same_body (nodes' p) (nodes p)" "\<forall>x. x \<notin> set (p # xs) \<longrightarrow> nodes' x = nodes x"
      "sync_chain nodes' (pNext (nodes' p)) (sync_kept M True xs)"
      using Cons.IH [of nodes "pNext (nodes p)" p True cnt, OF rest d(4) refl M1] by auto
    have v: "nodes' v = nodes v" using IH(4) d by simp
    have "throw_sync P nodes first (Some v) cur cnt
        = Some (nodes', first, cnt + int (length (filter M (p # xs))))"
      unfolding step IH(1) using False by simp
    moreover have "\<forall>x \<in> set (p # xs). same_body (nodes' x) (if M x then cancelled (nodes x) else nodes x)"
      using IH(2,3) False by simp
    moreover have "sync_chain nodes' (if linked then pNext (nodes' v) else cur) (sync_kept M linked (p # xs))"
      using IH(5) False v cur Cons.prems(3) by (cases linked) simp_all
    ultimately show ?thesis using v IH(4) by auto
  qed
qed

lemma throw_sync_chain:
  assumes "sync_chain nodes cur xs" "distinct xs" "\<forall>x \<in> set xs. M x \<longleftrightarrow> P (sMsg (nodes x))"
  shows "\<exists>nodes' first'. throw_sync P nodes cur None cur cnt
      = Some (nodes', first', cnt + int (length (filter M xs)))
    \<and> (\<forall>x \<in> set xs. same_body (nodes' x) (if M x then cancelled (nodes x) else nodes x))
    \<and> (\<forall>x. x \<notin> set xs \<longrightarrow> nodes' x = nodes x) \<and> sync_chain nodes' first' (sync_left M xs)"
  using assms
proof (induction xs arbitrary: nodes cur cnt)
  case Nil
  then show ?case by (auto simp: throw_sync_None sync_left_def)
next
  case (Cons p xs)
  have cur: "cur = Some p" and rest: "sync_chain nodes (pNext (nodes p)) xs" using Cons.prems by simp_all
  have d: "p \<notin> set xs" "distinct xs" using Cons.prems by auto
  show ?case
  proof (cases "M p")
    case True
    let ?n = "nodes(p := cancelled (nodes p))"
    have step: "throw_sync P nodes cur None cur cnt
        = throw_sync P ?n (pNext (nodes p)) None (pNext (nodes p)) (cnt + 1)"
      unfolding cur using True Cons.prems by (intro throw_sync_match_head) simp
    have "sync_chain ?n (pNext (nodes p)) xs" using rest d by (subst sync_chain_cong [of xs _ nodes]) auto
    moreover have "\<forall>x \<in> set xs. M x \<longleftrightarrow> P (sMsg (?n x))" using Cons.prems d by auto
    ultimately obtain nodes' first' where IH: "throw_sync P ?n (pNext (nodes p)) None (pNext (nodes p)) (cnt + 1)
          = Some (nodes', first', cnt + 1 + int (length (filter M xs)))"
      "\<forall>x \<in> set xs. same_body (nodes' x) (if M x then cancelled (?n x) else ?n x)"
      "\<forall>x. x \<notin> set xs \<longrightarrow> nodes' x = ?n x" "sync_chain nodes' first' (sync_left M xs)"
      using Cons.IH [of ?n "pNext (nodes p)" "cnt + 1"] d(2) by blast
    have eq: "?n x = nodes x" if "x \<in> set xs" for x using that d by auto
    have "same_body (nodes' x) (if M x then cancelled (nodes x) else nodes x)" if "x \<in> set xs" for x
      using bspec [OF IH(2) that] unfolding eq [OF that] .
    then have "\<forall>x \<in> set (p # xs). same_body (nodes' x) (if M x then cancelled (nodes x) else nodes x)"
      using IH(3) d True by simp
    moreover have "\<forall>x. x \<notin> set (p # xs) \<longrightarrow> nodes' x = nodes x" using IH(3) by simp
    ultimately show ?thesis using IH(1,4) True unfolding step
      by (intro exI [of _ nodes'] exI [of _ first']) (simp add: sync_left_def)
  next
    case False
    have step: "throw_sync P nodes cur None cur cnt = throw_sync P nodes cur (Some p) (pNext (nodes p)) cnt"
      unfolding cur using False Cons.prems by (intro throw_sync_keep) simp
    have dp: "distinct (p # xs)" and M1: "\<forall>x \<in> set xs. M x \<longleftrightarrow> P (sMsg (nodes x))" using Cons.prems by simp_all
    obtain nodes' where run: "throw_sync P nodes cur (Some p) (pNext (nodes p)) cnt
          = Some (nodes', cur, cnt + int (length (filter M xs)))"
      "\<forall>x \<in> set xs. same_body (nodes' x) (if M x then cancelled (nodes x) else nodes x)"
      "same_body (nodes' p) (nodes p)" "\<forall>x. x \<notin> set (p # xs) \<longrightarrow> nodes' x = nodes x"
      "sync_chain nodes' (pNext (nodes' p)) (sync_kept M True xs)"
      using throw_sync_from [of nodes "pNext (nodes p)" xs p True M P cur cnt, OF rest dp refl M1] by auto
    then show ?thesis unfolding step using False cur
      by (intro exI [of _ nodes'] exI [of _ cur]) (auto simp: sync_left_def)
  qed
qed

section \<open>Flags of expired timers\<close>

lemma throw_timer_flags:
  assumes "\<And>j. j \<in> set ks \<Longrightarrow> bit (expired_timer_mask q) j \<Longrightarrow> timer_slots q ! j \<noteq> None"
  shows "\<exists>m. foldl (throw_timer_flag P) (Some q) ks = Some (q\<lparr>expired_timer_mask := m\<rparr>)
    \<and> (\<forall>j. bit m j \<longleftrightarrow> bit (expired_timer_mask q) j
          \<and> \<not> (j \<in> set ks \<and> (\<exists>t. timer_slots q ! j = Some t \<and> P (tm_hWnd t))))"
  using assms
proof (induction ks arbitrary: q)
  case Nil
  show ?case by (rule exI [of _ "expired_timer_mask q"]) simp
next
  case (Cons k ks)
  obtain m1 where m1: "throw_timer_flag P (Some q) k = Some (q\<lparr>expired_timer_mask := m1\<rparr>)"
    "\<forall>j. bit m1 j \<longleftrightarrow> bit (expired_timer_mask q) j \<and> \<not> (j = k \<and> (\<exists>t. timer_slots q ! j = Some t \<and> P (tm_hWnd t)))"
  proof (cases "bit (expired_timer_mask q) k")
    case True
    then obtain t where t: "timer_slots q ! k = Some t" using Cons.prems [of k] by auto
    show thesis
    proof (cases "P (tm_hWnd t)")
      case yes: True
      show thesis
        by (rule that [of "expired_timer_mask q AND NOT (slot_bit k)"])
          (use True t yes in \<open>auto simp: throw_timer_flag_def\<close>)
    next
      case no: False
      show thesis by (rule that [of "expired_timer_mask q"]) (use True t no in \<open>auto simp: throw_timer_flag_def\<close>)
    qed
  next
    case False
    show thesis by (rule that [of "expired_timer_mask q"]) (use False in \<open>auto simp: throw_timer_flag_def\<close>)
  qed
  let ?q = "q\<lparr>expired_timer_mask := m1\<rparr>"
  have "timer_slots ?q ! j \<noteq> None" if "j \<in> set ks" "bit (expired_timer_mask ?q) j" for j
    using that m1(2) Cons.prems [of j] by auto
  then obtain m where m: "foldl (throw_timer_flag P) (Some ?q) ks = Some (?q\<lparr>expired_timer_mask := m\<rparr>)"
    "\<forall>j. bit m j \<longleftrightarrow> bit (expired_timer_mask ?q) j \<and> \<not> (j \<in> set ks \<and> (\<exists>t. timer_slots ?q ! j = Some t \<and> P (tm_hWnd t)))"
    using Cons.IH [of ?q] by blast
  have "foldl (throw_timer_flag P) (Some q) (k # ks) = Some (q\<lparr>expired_timer_mask := m\<rparr>)" using m(1) m1(1) by simp
  moreover have "bit m j \<longleftrightarrow> bit (expired_timer_mask q) j
      \<and> \<not> (j \<in> set (k # ks) \<and> (\<exists>t. timer_slots q ! j = Some t \<and> P (tm_hWnd t)))" for j
    using m(2) [rule_format, of j] m1(2) [rule_format, of j] by auto
  ultimately show ?case by blast
qed

section \<open>Throwing away the messages of a window\<close>

definition owned :: "windows \<Rightarrow> HWND \<Rightarrow> MSG \<Rightarrow> bool" where
  "owned wins h m \<longleftrightarrow> msg_of_window wins h (hwnd m)"

definition timer_flags_ok :: "MSGQUEUE \<Rightarrow> bool" where
  "timer_flags_ok q \<longleftrightarrow> (\<forall>j < DEF_NR_TIMERS. bit (expired_timer_mask q) j \<longrightarrow> timer_slots q ! j \<noteq> None)"

lemma timers_inv_flags_ok: "timers_inv q \<Longrightarrow> timer_flags_ok q"
  by (simp add: timer_flags_ok_def timers_inv_def)

lemma throw_away_spec:
  assumes inv: "ring_inv q" "timer_flags_ok q"
    and chain: "sync_chain nodes (pFirstSyncMsg q) xs" "distinct xs"
  shows "\<exists>n nodes' q'. throw_away_messages wins h nodes q = Some (n, nodes', q')
    \<and> ring_inv q' \<and> posted q' = filter (Not \<circ> owned wins h) (posted q)
    \<and> notify_msgs q' = filter (Not \<circ> owned wins h) (notify_msgs q)
    \<and> sync_chain nodes' (pFirstSyncMsg q') (sync_left (\<lambda>x. owned wins h (sMsg (nodes x))) xs)
    \<and> (\<forall>x \<in> set xs. same_body (nodes' x)
          (if owned wins h (sMsg (nodes x)) then cancelled (nodes x) else nodes x))
    \<and> n = int (length (filter (owned wins h) (notify_msgs q)))
        + int (length (filter (\<lambda>x. owned wins h (sMsg (nodes x))) xs))
        + int (length (filter (owned wins h) (posted q)))
    \<and> (\<forall>j < DEF_NR_TIMERS. bit (expired_timer_mask q') j \<longleftrightarrow> bit (expired_timer_mask q) j
          \<and> \<not> (\<exists>t. timer_slots q ! j = Some t \<and> msg_of_window wins h (tm_hWnd t)))
    \<and> pLastSyncMsg q' = pLastSyncMsg q \<and> dwState q' = dwState q"
proof -
  let ?P = "owned wins h" and ?M = "\<lambda>x. owned wins h (sMsg (nodes x))"
  obtain nodes' first' where sync: "throw_sync ?P nodes (pFirstSyncMsg q) None (pFirstSyncMsg q) 0
      = Some (nodes', first', int (length (filter ?M xs)))"
    "\<forall>x \<in> set xs. same_body (nodes' x) (if ?M x then cancelled (nodes x) else nodes x)"
    "sync_chain nodes' first' (sync_left ?M xs)"
    using throw_sync_chain [of nodes "pFirstSyncMsg q" xs ?M ?P 0] chain by auto
  obtain w ms cp where ring: "throw_posted ?P (len q) (readpos q) (writepos q) (msgs q) 0 = (w, ms, cp)"
    by (cases "throw_posted ?P (len q) (readpos q) (writepos q) (msgs q) 0")
  have r: "readpos q < len q" "writepos q < len q" "length (msgs q) = len q" using inv by (simp_all add: ring_inv_def)
  note R = throw_posted_run [OF ring r, folded posted_def]
  let ?q = "q\<lparr>notify_msgs := filter (Not \<circ> ?P) (notify_msgs q), pFirstSyncMsg := first', writepos := w, msgs := ms\<rparr>"
  have flags: "timer_slots ?q ! j \<noteq> None"
    if "j \<in> set [0..<DEF_NR_TIMERS]" "bit (expired_timer_mask ?q) j" for j
    using that inv(2) by (simp add: timer_flags_ok_def)
  obtain m where m: "foldl (throw_timer_flag (msg_of_window wins h)) (Some ?q) [0..<DEF_NR_TIMERS]
      = Some (?q\<lparr>expired_timer_mask := m\<rparr>)"
    "\<forall>j. bit m j \<longleftrightarrow> bit (expired_timer_mask ?q) j \<and> \<not> (j \<in> set [0..<DEF_NR_TIMERS]
        \<and> (\<exists>t. timer_slots ?q ! j = Some t \<and> msg_of_window wins h (tm_hWnd t)))"
    using throw_timer_flags [of "[0..<DEF_NR_TIMERS]" ?q "msg_of_window wins h", OF flags] by blast
  let ?q' = "?q\<lparr>expired_timer_mask := m\<rparr>"
  have P: "(\<lambda>m. msg_of_window wins h (hwnd m)) = ?P" by (simp add: owned_def fun_eq_iff)
  have "throw_away_messages wins h nodes q
      = Some (int (length (filter ?P (notify_msgs q))) + int (length (filter ?M xs)) + cp, nodes', ?q')"
    unfolding throw_away_messages_def P Let_def throw_notify_filter
    by (simp only: prod.case sync(1) option.case ring m(1) option.map add_0)
  moreover have "cp = int (length (filter ?P (posted q)))" using R by simp
  moreover have "ring_inv ?q'" using R r by (simp add: ring_inv_def)
  moreover have "posted ?q' = filter (Not \<circ> ?P) (posted q)" using R by (simp add: posted_def)
  moreover have "\<forall>j < DEF_NR_TIMERS. bit (expired_timer_mask ?q') j \<longleftrightarrow> bit (expired_timer_mask q) j
      \<and> \<not> (\<exists>t. timer_slots q ! j = Some t \<and> msg_of_window wins h (tm_hWnd t))"
    using m(2) by auto
  ultimately show ?thesis using sync(2,3)
    by (intro exI [of _ "int (length (filter ?P (notify_msgs q))) + int (length (filter ?M xs)) + cp"]
        exI [of _ nodes'] exI [of _ ?q']) simp
qed

text \<open>C7: throwing away the messages of a window removes exactly its notification and posted messages
  and keeps the order of the others, clears exactly the flags of its expired timers, cancels and releases
  each of its waiting synchronous messages once, and returns their total number. Of the chain of
  synchronous messages it leaves \<open>sync_left\<close>.\<close>

theorem throw_away_messages_removes:
  assumes "ring_inv q" "timer_flags_ok q" "sync_chain nodes (pFirstSyncMsg q) xs" "distinct xs"
  shows "\<exists>n nodes' q'. throw_away_messages wins h nodes q = Some (n, nodes', q')
    \<and> ring_inv q' \<and> posted q' = filter (Not \<circ> owned wins h) (posted q)
    \<and> notify_msgs q' = filter (Not \<circ> owned wins h) (notify_msgs q)
    \<and> sync_chain nodes' (pFirstSyncMsg q') (sync_left (\<lambda>x. owned wins h (sMsg (nodes x))) xs)
    \<and> (\<forall>x \<in> set xs. same_body (nodes' x)
          (if owned wins h (sMsg (nodes x)) then cancelled (nodes x) else nodes x))
    \<and> n = int (length (filter (owned wins h) (notify_msgs q)))
        + int (length (filter (\<lambda>x. owned wins h (sMsg (nodes x))) xs))
        + int (length (filter (owned wins h) (posted q)))
    \<and> (\<forall>j < DEF_NR_TIMERS. bit (expired_timer_mask q') j \<longleftrightarrow> bit (expired_timer_mask q) j
          \<and> \<not> (\<exists>t. timer_slots q ! j = Some t \<and> msg_of_window wins h (tm_hWnd t)))"
  using throw_away_spec [of q nodes xs wins h, OF assms] by metis

text \<open>One synchronous message of window 7 waits in an otherwise empty queue.\<close>

definition one_sync :: "syncs \<times> MSGQUEUE" where
  "one_sync = queue_sync 5 (zero_msg\<lparr>hwnd := 7\<rparr>) (\<lambda>_. \<lparr>sMsg = zero_msg, retval = 0, sem_posts = 0, pNext = None\<rparr>)
     fresh_queue"

lemma one_sync_facts:
  "pFirstSyncMsg (snd one_sync) = Some 5" "fst one_sync 5 = \<lparr>sMsg = zero_msg\<lparr>hwnd := 7\<rparr>, retval = ERR_MSG_CANCELED,
      sem_posts = 0, pNext = None\<rparr>"
  "ring_inv (snd one_sync)" "timer_flags_ok (snd one_sync)" "notify_msgs (snd one_sync) = []"
  "readpos (snd one_sync) = writepos (snd one_sync)"
  by (simp_all add: one_sync_def queue_sync_def fresh_queue_def InitMsgQueue_def zero_queue_def ring_inv_def
      timer_flags_ok_def DEF_MSGQUEUE_LEN_def POST_MSGQ_def)

theorem throw_away_messages_removes_witness:
  "map_option (\<lambda>(n, nodes, q). (n, pFirstSyncMsg q, sem_posts (nodes 5)))
     (throw_away_messages Map.empty 7 (fst one_sync) (snd one_sync)) = Some (1, None, 1)"
proof -
  have mine: "owned Map.empty 7 (sMsg (fst one_sync 5))"
    by (simp add: owned_def msg_of_window_def one_sync_facts)
  have none: "posted (snd one_sync) = []" by (simp add: posted_def one_sync_facts)
  have chain: "sync_chain (fst one_sync) (pFirstSyncMsg (snd one_sync)) [5]" by (simp add: one_sync_facts)
  obtain n nodes' q' where run: "throw_away_messages Map.empty 7 (fst one_sync) (snd one_sync) = Some (n, nodes', q')"
    "sync_chain nodes' (pFirstSyncMsg q') (sync_left (\<lambda>x. owned Map.empty 7 (sMsg (fst one_sync x))) [5])"
    "\<forall>x \<in> set [5]. same_body (nodes' x) (if owned Map.empty 7 (sMsg (fst one_sync x)) then cancelled (fst one_sync x)
        else fst one_sync x)"
    "n = int (length (filter (owned Map.empty 7) (notify_msgs (snd one_sync))))
        + int (length (filter (\<lambda>x. owned Map.empty 7 (sMsg (fst one_sync x))) [5]))
        + int (length (filter (owned Map.empty 7) (posted (snd one_sync))))"
    using throw_away_messages_removes [of "snd one_sync" "fst one_sync" "[5]" Map.empty 7,
        OF one_sync_facts(3,4) chain] by (metis distinct_singleton)
  have "sem_posts (nodes' 5) = 1"
    using run(3) mine by (cases "nodes' 5") (simp add: same_body_def cancelled_def one_sync_facts(2))
  moreover have "pFirstSyncMsg q' = None" using run(2) mine by (simp add: sync_left_def)
  moreover have "n = 1" using run(4) mine none by (simp add: one_sync_facts)
  ultimately show ?thesis unfolding run(1) by simp
qed

text \<open>With two adjacent messages of the window behind a foreign one, the second stays in the chain although
  its sender has been released.\<close>

lemma throw_away_leaves_released:
  "\<not> M a \<Longrightarrow> M b \<Longrightarrow> M c \<Longrightarrow> sync_left M [a, b, c] = [a, c]"
  by (simp add: sync_left_def)

section \<open>Sending synchronous messages\<close>

definition sync_wf :: "syncs \<Rightarrow> MSGQUEUE \<Rightarrow> nat list \<Rightarrow> bool" where
  "sync_wf nodes q xs \<longleftrightarrow> sync_chain nodes (pFirstSyncMsg q) xs \<and> distinct xs
     \<and> (xs \<noteq> [] \<longrightarrow> pLastSyncMsg q = Some (last xs))"

lemma sync_chain_append:
  "sync_chain nodes p xs \<Longrightarrow> distinct xs \<Longrightarrow> xs \<noteq> [] \<Longrightarrow> y \<notin> set xs \<Longrightarrow> pNext (nodes y) = None \<Longrightarrow>
     sync_chain (nodes(last xs := (nodes (last xs))\<lparr>pNext := Some y\<rparr>)) p (xs @ [y])"
proof (induction xs arbitrary: p)
  case (Cons x xs)
  show ?case
  proof (cases "xs = []")
    case True
    with Cons.prems show ?thesis by auto
  next
    case False
    then have "last xs \<noteq> x" using Cons.prems by auto
    with Cons False show ?thesis by simp
  qed
qed simp

text \<open>\<open>SendSyncMessage\<close> puts its message behind all that wait, with the cancelled result as
  default, flags the queue and wakes its thread.\<close>

theorem SendSyncMessage_fifo:
  assumes "sync_wf nodes q xs" "p \<notin> set xs" "queue_sync p m nodes q = (nodes', q')"
  shows "sync_wf nodes' q' (xs @ [p]) \<and> sMsg (nodes' p) = m \<and> retval (nodes' p) = ERR_MSG_CANCELED
    \<and> sem_posts (nodes' p) = 0 \<and> QS_SYNCMSG \<in> dwState q' \<and> wait_sem q' \<noteq> 0
    \<and> (\<forall>x. x \<noteq> p \<longrightarrow> same_body (nodes' x) (nodes x)) \<and> notify_msgs q' = notify_msgs q \<and> posted q' = posted q"
proof -
  let ?n1 = "nodes(p := \<lparr>sMsg = m, retval = ERR_MSG_CANCELED, sem_posts = 0, pNext = None\<rparr>)"
  have chain: "sync_chain nodes (pFirstSyncMsg q) xs" "distinct xs" "xs \<noteq> [] \<Longrightarrow> pLastSyncMsg q = Some (last xs)"
    using assms(1) by (simp_all add: sync_wf_def)
  show ?thesis
  proof (cases xs)
    case Nil
    then have "pFirstSyncMsg q = None" using chain by simp
    then have n: "nodes' = ?n1"
      and q: "q' = POST_MSGQ (q\<lparr>pFirstSyncMsg := Some p, pLastSyncMsg := Some p, dwState := insert QS_SYNCMSG (dwState q)\<rparr>)"
      using assms(3) by (auto simp: queue_sync_def Let_def)
    show ?thesis unfolding n q Nil by (simp add: sync_wf_def posted_def)
  next
    case (Cons x ys)
    let ?l = "last xs"
    have first: "pFirstSyncMsg q = Some x" and last: "pLastSyncMsg q = Some ?l" and l: "?l \<in> set xs"
      using chain Cons by auto
    then have "?l \<noteq> p" using assms(2) by auto
    have n: "nodes' = ?n1(?l := (?n1 ?l)\<lparr>pNext := Some p\<rparr>)"
      and q: "q' = POST_MSGQ (q\<lparr>pLastSyncMsg := Some p, dwState := insert QS_SYNCMSG (dwState q)\<rparr>)"
      using assms(3) first last by (auto simp: queue_sync_def Let_def)
    have "sync_chain ?n1 (pFirstSyncMsg q) xs" using chain(1) assms(2) by (subst sync_chain_cong [of xs _ nodes]) auto
    then have "sync_chain nodes' (pFirstSyncMsg q') (xs @ [p])"
      unfolding n q using sync_chain_append [of ?n1 "pFirstSyncMsg q" xs p] chain(2) Cons assms(2) by simp
    then have "sync_wf nodes' q' (xs @ [p])" using chain(2) assms(2) by (simp add: sync_wf_def q)
    then show ?thesis unfolding n q using \<open>?l \<noteq> p\<close> by (simp add: posted_def)
  qed
qed

theorem SendSyncMessage_fifo_witness:
  "sync_wf (fst (queue_sync 6 zero_msg (fst one_sync) (snd one_sync)))
     (snd (queue_sync 6 zero_msg (fst one_sync) (snd one_sync))) [5, 6]"
proof -
  have "sync_wf (fst one_sync) (snd one_sync) [5]"
    by (simp add: sync_wf_def one_sync_def queue_sync_def fresh_queue_def InitMsgQueue_def zero_queue_def)
  from SendSyncMessage_fifo [OF this, of 6 zero_msg] show ?thesis
    by (cases "queue_sync 6 zero_msg (fst one_sync) (snd one_sync)") simp
qed

text \<open>After the last message has been thrown away \<open>pLastSyncMsg\<close> still names it: the next message to
  a queue with others waiting is linked to the dead one and never reached.\<close>

lemma queue_sync_lost:
  assumes "sync_chain nodes (pFirstSyncMsg q) xs" "xs \<noteq> []" "p \<notin> set xs"
    and "pLastSyncMsg q = Some l" "l \<notin> set xs"
  shows "sync_chain (fst (queue_sync p m nodes q)) (pFirstSyncMsg (snd (queue_sync p m nodes q))) xs"
proof -
  obtain x ys where "xs = x # ys" using assms(2) by (cases xs) auto
  then have first: "pFirstSyncMsg q = Some x" using assms(1) by simp
  let ?n = "fst (queue_sync p m nodes q)"
  have "pNext (?n y) = pNext (nodes y)" if "y \<in> set xs" for y
    using that assms(3-5) first by (auto simp: queue_sync_def Let_def)
  moreover have "pFirstSyncMsg (snd (queue_sync p m nodes q)) = pFirstSyncMsg q"
    using first assms(4) by (simp add: queue_sync_def Let_def)
  ultimately show ?thesis using assms(1) by (simp add: sync_chain_cong [of xs ?n nodes])
qed

section \<open>Broadcasting\<close>

text \<open>The windows in the order the traversal posts to them: what a window hosts comes before it.\<close>

fun travel_order :: "MAINWIN \<Rightarrow> MAINWIN list" where
  "travel_order (MAINWIN c k hs) = concat (map (\<lambda>w. travel_order w @ [w]) hs)"

lemma travel_all_hosted_order: "travel_all_hosted w cb d = foldl (\<lambda>d w. cb w d) d (travel_order w)"
proof (induction w arbitrary: d)
  case (MAINWIN c k hs)
  have "foldl (\<lambda>d w. cb w (travel_all_hosted w cb d)) d ws
      = foldl (\<lambda>d w. cb w d) d (concat (map (\<lambda>w. travel_order w @ [w]) ws))" if "set ws \<subseteq> set hs" for ws
    using that
  proof (induction ws arbitrary: d)
    case (Cons w ws)
    then have "travel_all_hosted w cb d = foldl (\<lambda>d w. cb w d) d (travel_order w)"
      by (intro MAINWIN.IH) simp
    with Cons show ?case by simp
  qed simp
  from this [of hs] show ?case by simp
qed

lemma is_move_clock_sel [simp]:
  "is_move (m\<lparr>msg_time := t\<rparr>) = is_move m" "is_move (m\<lparr>hwnd := h\<rparr>) = is_move m"
  "is_clock (m\<lparr>msg_time := t\<rparr>) = is_clock m" "is_clock (m\<lparr>hwnd := h\<rparr>) = is_clock m"
  by (simp_all add: is_move_def is_clock_def)

lemma queue_plain_message:
  assumes "ring_inv q" "\<not> is_move m" "\<not> is_clock m" "length (posted q) + 1 < len q"
  shows "\<exists>q'. kernel_QueueMessage tick here q m = (True, m\<lparr>msg_time := tick\<rparr>, q')
    \<and> ring_inv q' \<and> len q' = len q \<and> posted q' = posted q @ [m\<lparr>msg_time := tick\<rparr>]"
proof -
  obtain ok q' where w: "write_post here q (m\<lparr>msg_time := tick\<rparr>) = (ok, q')"
    by (cases "write_post here q (m\<lparr>msg_time := tick\<rparr>)")
  have "kernel_QueueMessage tick here q m = (ok, m\<lparr>msg_time := tick\<rparr>, q')"
    using w assms by (simp add: kernel_QueueMessage_def)
  with write_post_posted [OF assms(1) w] assms(4) show ?thesis by auto
qed

definition for_window :: "MSG \<Rightarrow> dword \<Rightarrow> MAINWIN \<Rightarrow> MSG" where
  "for_window m tick w = m\<lparr>hwnd := ctrl_hwnd (main_ctrl w), msg_time := tick\<rparr>"

lemma for_window_upd [simp]:
  "for_window (m\<lparr>hwnd := h\<rparr>) tick w = for_window m tick w" "for_window (m\<lparr>msg_time := t\<rparr>) tick w = for_window m tick w"
  by (simp_all add: for_window_def)

lemma broadcast_fold:
  assumes "ring_inv (qs k)" "\<not> is_move m" "\<not> is_clock m" "\<forall>w \<in> set ws. mw_queue w = k"
    and "length (posted (qs k)) + length ws < len (qs k)"
  shows "\<exists>m' qs'. foldl (\<lambda>d w. my_travel_cb wins self tick w d) (m, qs) ws = (m', qs')
    \<and> ring_inv (qs' k) \<and> posted (qs' k) = posted (qs k) @ map (for_window m tick) ws
    \<and> (ws \<noteq> [] \<longrightarrow> msg_time m' = tick + 1) \<and> (\<forall>j. j \<noteq> k \<longrightarrow> qs' j = qs j)"
  using assms
proof (induction ws arbitrary: m qs)
  case (Cons w ws)
  let ?m = "m\<lparr>hwnd := ctrl_hwnd (main_ctrl w)\<rparr>"
  let ?here = "in_this_thread wins self (ctrl_hwnd (main_ctrl w))"
  have "length (posted (qs k)) + 1 < len (qs k)" using Cons.prems(5) by simp
  then obtain q where q: "kernel_QueueMessage tick ?here (qs k) ?m = (True, ?m\<lparr>msg_time := tick\<rparr>, q)"
    "ring_inv q" "len q = len (qs k)" "posted q = posted (qs k) @ [?m\<lparr>msg_time := tick\<rparr>]"
    using queue_plain_message [of "qs k" ?m tick ?here] Cons.prems(1-3) by auto
  let ?m1 = "?m\<lparr>msg_time := tick + 1\<rparr>" and ?qs1 = "qs(k := q)"
  have cb: "my_travel_cb wins self tick w (m, qs) = (?m1, ?qs1)"
    using q(1) Cons.prems(4) by (simp add: my_travel_cb_def Let_def)
  have "ring_inv (?qs1 k)" "\<not> is_move ?m1" "\<not> is_clock ?m1" "\<forall>w \<in> set ws. mw_queue w = k"
    "length (posted (?qs1 k)) + length ws < len (?qs1 k)"
    using Cons.prems(2-5) q(2-4) by simp_all
  from Cons.IH [where m = ?m1 and qs = ?qs1, OF this]
  obtain m' qs' where IH: "foldl (\<lambda>d w. my_travel_cb wins self tick w d) (?m1, ?qs1) ws = (m', qs')"
    "ring_inv (qs' k)" "posted (qs' k) = posted (?qs1 k) @ map (for_window ?m1 tick) ws"
    "ws \<noteq> [] \<longrightarrow> msg_time m' = tick + 1" "\<forall>j. j \<noteq> k \<longrightarrow> qs' j = ?qs1 j"
    by blast
  have "posted (qs' k) = posted (qs k) @ map (for_window m tick) (w # ws)"
    unfolding IH(3) by (simp add: q(4) for_window_def)
  moreover have "msg_time m' = tick + 1"
    using IH(1,4) by (cases ws) (auto dest: sym)
  moreover have "\<forall>j. j \<noteq> k \<longrightarrow> qs' j = qs j" using IH(5) by simp
  moreover have "foldl (\<lambda>d w. my_travel_cb wins self tick w d) (m, qs) (w # ws) = (m', qs')"
    using IH(1) cb by simp
  ultimately show ?case using IH(2) by blast
qed simp

text \<open>broadcasting an ordinary message to a thread whose queue has room posts one copy to every window
  hosted under the root, hosted windows first and the root last, and touches no other queue. What it
  returns is not their number but the tick counter plus one, cut to an \<open>int\<close>.\<close>

theorem broadcast_message_all:
  assumes "pRootMainWin (qs k) = Some win" "ring_inv (qs k)" "\<not> is_move msg" "\<not> is_clock msg"
    and "\<forall>w \<in> set (travel_order win @ [win]). mw_queue w = k"
    and "length (posted (qs k)) + length (travel_order win @ [win]) < len (qs k)"
  shows "\<exists>qs'. broadcast_message wins self tick qs k msg = (sint (ucast (tick + 1) :: 32 word), qs')
    \<and> ring_inv (qs' k)
    \<and> posted (qs' k) = posted (qs k) @ map (for_window msg tick) (travel_order win @ [win])
    \<and> (\<forall>j. j \<noteq> k \<longrightarrow> qs' j = qs j)"
proof -
  let ?m = "msg\<lparr>msg_time := 0\<rparr>" and ?ws = "travel_order win @ [win]"
  obtain m' qs' where f: "foldl (\<lambda>d w. my_travel_cb wins self tick w d) (?m, qs) ?ws = (m', qs')"
    "ring_inv (qs' k)" "posted (qs' k) = posted (qs k) @ map (for_window ?m tick) ?ws"
    "msg_time m' = tick + 1" "\<forall>j. j \<noteq> k \<longrightarrow> qs' j = qs j"
    using broadcast_fold [of qs k ?m ?ws wins self tick] assms by auto
  have "for_window ?m tick = for_window msg tick" by (simp add: fun_eq_iff)
  moreover have "broadcast_message wins self tick qs k msg = (sint (ucast (tick + 1) :: 32 word), qs')"
    using f(1,4) assms(1) by (simp add: broadcast_message_def Let_def travel_all_hosted_order)
  ultimately show ?thesis using f(2,3,5) by simp
qed

text \<open>A thread with a root window 3 that hosts window 4.\<close>

definition two_windows :: queues where
  "two_windows = (\<lambda>_. (empty_posts 64 fresh_queue)\<lparr>pRootMainWin :=
     Some (MAINWIN (CONTROL 3 False False []) 0 [MAINWIN (CONTROL 4 False False []) 0 []])\<rparr>)"

theorem broadcast_message_all_witness:
  "fst (broadcast_message Map.empty 0 99 two_windows 0 (zero_msg\<lparr>message := 5\<rparr>)) = 100
   \<and> map hwnd (posted (snd (broadcast_message Map.empty 0 99 two_windows 0 (zero_msg\<lparr>message := 5\<rparr>)) 0)) = [4, 3]"
proof -
  let ?m = "zero_msg\<lparr>message := 5\<rparr>" and ?c = "MAINWIN (CONTROL 4 False False []) 0 []"
  have posted: "posted (two_windows 0) = []" by (simp add: two_windows_def posted_def empty_posts_def)
  have inv: "ring_inv (two_windows 0)" "len (two_windows 0) = 64"
    by (simp_all add: two_windows_def ring_inv_def empty_posts_def)
  have root: "pRootMainWin (two_windows 0) = Some (MAINWIN (CONTROL 3 False False []) 0 [?c])"
    by (simp add: two_windows_def)
  have plain: "\<not> is_move ?m" "\<not> is_clock ?m" by (simp_all add: is_move_def is_clock_def msg_codes)
  obtain qs' where r: "broadcast_message Map.empty 0 99 two_windows 0 ?m = (sint (ucast (99 + 1 :: dword) :: 32 word), qs')"
    "posted (qs' 0) = posted (two_windows 0)
      @ map (for_window ?m 99) (travel_order (MAINWIN (CONTROL 3 False False []) 0 [?c]) @ [MAINWIN (CONTROL 3 False False []) 0 [?c]])"
    using broadcast_message_all [of two_windows 0 _ ?m Map.empty 0 99, OF root inv(1) plain] inv posted by auto
  show ?thesis unfolding r(1) snd_conv fst_conv r(2) posted by (simp add: for_window_def)
qed

section \<open>Posting\<close>

lemma wake_unless_sel [simp]:
  "posted (wake_unless b q) = posted q" "ring_inv (wake_unless b q) = ring_inv q"
  "dwState (wake_unless b q) = dwState q" "notify_msgs (wake_unless b q) = notify_msgs q"
  "loop_depth (wake_unless b q) = loop_depth q" "pFirstSyncMsg (wake_unless b q) = pFirstSyncMsg q"
  by (simp_all add: wake_unless_def posted_def ring_inv_def)

text \<open>C34: \<open>PostMessage\<close> fails with \<open>ERR_INV_HWND\<close> exactly for a window without a queue and with
  \<open>ERR_QUEUE_FULL\<close> exactly when the bounded list refuses the message; on failure nothing changes, on
  success only the queue of the window, which gets the paint flag or the message.\<close>

theorem PostMessage_outcomes:
  assumes inv: "\<And>k. ring_inv (qs k)" and res: "PostMessage wins self tick qs h nMsg wp lp = (r, qs')"
  shows "(r = ERR_INV_HWND \<longleftrightarrow> getMsgQueue wins h = None) \<and> (r \<noteq> ERR_OK \<longrightarrow> qs' = qs)
    \<and> (case getMsgQueue wins h of
         None \<Rightarrow> r \<noteq> ERR_OK
       | Some k \<Rightarrow> (\<forall>j. j \<noteq> k \<longrightarrow> qs' j = qs j) \<and> ring_inv (qs' k)
           \<and> (if nMsg = MSG_PAINT
              then r = ERR_OK \<and> QS_PAINT \<in> dwState (qs' k) \<and> posted (qs' k) = posted (qs k)
              else (case post_list (len (qs k) - 1) \<lparr>hwnd = h, message = nMsg, wParam = wp, lParam = lp,
                          msg_time = tick, pSyncMsg = None\<rparr> (posted (qs k)) of
                      None \<Rightarrow> r = ERR_QUEUE_FULL
                    | Some xs \<Rightarrow> r = ERR_OK \<and> posted (qs' k) = xs \<and> QS_POSTMSG \<in> dwState (qs' k))))"
proof (cases "getMsgQueue wins h")
  case None
  with res show ?thesis by (simp add: PostMessage_def ERR_OK_def ERR_INV_HWND_def)
next
  case (Some k)
  let ?m = "\<lparr>hwnd = h, message = nMsg, wParam = wp, lParam = lp, msg_time = 0, pSyncMsg = None\<rparr>"
  show ?thesis
  proof (cases "nMsg = MSG_PAINT")
    case True
    with res Some have q: "r = ERR_OK" "qs' = qs(k := wake_unless (in_this_thread wins self h)
        ((qs k)\<lparr>dwState := insert QS_PAINT (dwState (qs k))\<rparr>))"
      by (auto simp: PostMessage_def)
    have "ring_inv (qs' k)" "posted (qs' k) = posted (qs k)" "QS_PAINT \<in> dwState (qs' k)"
      using inv [of k] by (simp_all add: q(2) posted_def ring_inv_def wake_unless_def)
    then show ?thesis using True Some q by (simp add: ERR_OK_def ERR_INV_HWND_def)
  next
    case False
    obtain ok m q' where k: "kernel_QueueMessage tick (in_this_thread wins self h) (qs k) ?m = (ok, m, q')"
      by (cases "kernel_QueueMessage tick (in_this_thread wins self h) (qs k) ?m")
    then have r: "r = (if ok then ERR_OK else ERR_QUEUE_FULL)" and qs': "qs' = qs(k := q')"
      using res Some False by (simp_all add: PostMessage_def)
    note spec = queue_message_spec [OF inv [of k] k]
    then have m: "m = ?m\<lparr>msg_time := tick\<rparr>" and q': "ring_inv q'" by simp_all
    note spec = spec [THEN conjunct2, THEN conjunct2]
    show ?thesis
    proof (cases "post_list (len (qs k) - 1) m (posted (qs k))")
      case None
      with spec have "\<not> ok" "q' = qs k" by simp_all
      with None Some False r qs' q' m show ?thesis
        by (simp add: ERR_OK_def ERR_INV_HWND_def ERR_QUEUE_FULL_def)
    next
      case (Some xs)
      with spec have "ok" "posted q' = xs" "QS_POSTMSG \<in> dwState q'" by simp_all
      with Some \<open>getMsgQueue wins h = Some k\<close> False r qs' q' m show ?thesis
        by (simp add: ERR_OK_def ERR_INV_HWND_def)
    qed
  qed
qed

text \<open>Main window 3, whose queue is number 0.\<close>

definition one_window :: windows where
  "one_window = [3 \<mapsto> \<lparr>DataType = TYPE_HWND, WinType = TYPE_MAINWIN, pMainWin = 3, pMsgQueue = 0\<rparr>]"

lemma one_window_queue: "getMsgQueue one_window 3 = Some 0"
  by (simp add: getMsgQueue_def getMainWindowPtr_def MG_IS_WINDOW_def main_win_of_def one_window_def
      HWND_NULL_def HWND_INVALID_def)

theorem PostMessage_outcomes_witness:
  "fst (PostMessage one_window 0 9 (\<lambda>_. empty_posts 64 fresh_queue) 3 5 1 2) = ERR_OK
   \<and> map message (posted (snd (PostMessage one_window 0 9 (\<lambda>_. empty_posts 64 fresh_queue) 3 5 1 2) 0)) = [5]"
proof -
  let ?m = "\<lparr>hwnd = 3, message = 5, wParam = 1, lParam = 2, msg_time = 9, pSyncMsg = None\<rparr>"
  obtain r qs' where run: "PostMessage one_window 0 9 (\<lambda>_. empty_posts 64 fresh_queue) 3 5 1 2 = (r, qs')"
    by (cases "PostMessage one_window 0 9 (\<lambda>_. empty_posts 64 fresh_queue) 3 5 1 2")
  have "\<not> is_move ?m" "\<not> is_clock ?m" "(5::nat) \<noteq> MSG_PAINT"
    by (simp_all add: is_move_def is_clock_def msg_codes)
  then have "r = ERR_OK \<and> posted (qs' 0) = [?m]"
    using PostMessage_outcomes [OF _ run] by (simp add: one_window_queue empty_posts_inv post_list_plain)
  then show ?thesis unfolding run by simp
qed

section \<open>Dispatching\<close>

text \<open>dispatching a synchronous message releases its sender exactly once, with the value of the window
  procedure as its result, or with the cancelled result for a message whose window was thrown away;
  nothing happens to any other waiting message.\<close>

theorem DispatchMessage_releases_sender:
  assumes "pSyncMsg m = Some p" "hwnd m \<noteq> 0" "hwnd m = HWND_INVALID \<or> wndproc (hwnd m) \<noteq> None"
    and "DispatchMessage wndproc notifproc m nodes s = (r, nodes', s')"
  shows "sem_posts (nodes' p) = sem_posts (nodes p) + 1
    \<and> retval (nodes' p) = (if hwnd m = HWND_INVALID then ERR_MSG_CANCELED else r)
    \<and> (hwnd m = HWND_INVALID \<longrightarrow> r = -1 \<and> s' = s)
    \<and> (\<forall>x. x \<noteq> p \<longrightarrow> nodes' x = nodes x)"
proof (cases "hwnd m = HWND_INVALID")
  case True
  with assms show ?thesis by (auto simp: DispatchMessage_def Let_def sem_post_def)
next
  case False
  then obtain wp where "wndproc (hwnd m) = Some wp" using assms(3) by auto
  with False assms show ?thesis
    by (auto simp: DispatchMessage_def Let_def sem_post_def split: if_splits prod.splits option.splits)
qed

theorem DispatchMessage_releases_sender_witness:
  "case DispatchMessage (\<lambda>_. Some (\<lambda>h c wp lp s. (42, Suc s))) (\<lambda>_. None)
      (zero_msg\<lparr>hwnd := 7, pSyncMsg := Some 5\<rparr>) (fst one_sync) (0::nat) of
    (r, nodes, s) \<Rightarrow> retval (nodes 5) = r \<and> sem_posts (nodes 5) = 1 \<and> r = 42"
proof -
  have run: "DispatchMessage (\<lambda>_. Some (\<lambda>h c wp lp s. (42, Suc s))) (\<lambda>_. None)
      (zero_msg\<lparr>hwnd := 7, pSyncMsg := Some 5\<rparr>) (fst one_sync) (0::nat)
      = (42, sem_post 5 ((fst one_sync)(5 := (fst one_sync 5)\<lparr>retval := 42\<rparr>)), 1)"
    by (simp add: DispatchMessage_def Let_def zero_msg_def HWND_INVALID_def MSG_NOTIFICATION_def)
  show ?thesis
    using DispatchMessage_releases_sender [OF _ _ _ run, of 5] unfolding run
    by (simp add: zero_msg_def HWND_INVALID_def one_sync_facts)
qed

text \<open>A sender whose window has no procedure, or which addressed no window, is never released.\<close>

lemma DispatchMessage_strands_sender:
  "wndproc (hwnd m) = None \<Longrightarrow> hwnd m \<noteq> HWND_INVALID \<Longrightarrow>
     DispatchMessage wndproc notifproc m nodes s = (-1, nodes, s)"
  by (simp add: DispatchMessage_def Let_def)

section \<open>A new queue\<close>

text \<open>a queue that \<open>mg_InitMsgQueue\<close> returns is empty and satisfies every invariant of its parts.\<close>

theorem InitMsgQueue_invariants:
  assumes "InitMsgQueue tick os_ok malloc_ok n = (True, q)"
  shows "ring_inv q \<and> timers_inv q \<and> sync_wf nodes q [] \<and> posted q = [] \<and> notify_msgs q = []
    \<and> timer_map q = Map.empty \<and> dwState q = {} \<and> loop_depth q = 0
    \<and> len q = (if n \<le> 0 then DEF_MSGQUEUE_LEN else nat n)"
proof -
  have q: "q = zero_queue\<lparr>msgs := replicate (if n \<le> 0 then DEF_MSGQUEUE_LEN else nat n) zero_msg,
      len := (if n \<le> 0 then DEF_MSGQUEUE_LEN else nat n), OnIdle := True, old_tick_count := tick\<rparr>"
    using assms by (auto simp: InitMsgQueue_def Let_def split: if_splits)
  have slots: "timer_slots q = timer_slots (no_timers q)" "nr_timers q = 0" "expired_timer_mask q = 0"
    by (simp_all add: q zero_queue_def no_timers_def)
  have "timers_inv q" using no_timers_inv(1) [of q] slots by (simp add: timers_inv_def no_timers_def)
  moreover have "timer_map q = Map.empty"
    using no_timers_inv(2) [of q] slots(1) by (simp add: timer_map_def fun_eq_iff)
  ultimately show ?thesis
    by (simp add: q zero_queue_def ring_inv_def posted_def sync_wf_def DEF_MSGQUEUE_LEN_def)
qed

theorem InitMsgQueue_invariants_witness:
  "ring_inv (snd (InitMsgQueue 7 True True 32)) \<and> len (snd (InitMsgQueue 7 True True 32)) = 32"
proof -
  have run: "InitMsgQueue 7 True True 32 = (True, snd (InitMsgQueue 7 True True 32))"
    by (simp add: InitMsgQueue_def Let_def)
  show ?thesis using InitMsgQueue_invariants [OF run] by simp
qed

end
