(* ===== verification/MG_Peek.thy ===== *)
theory MG_Peek
  imports MG_MsgSend
begin

text \<open>
  The receiving side of \<open>src/kernel/message.c\<close>: \<open>PeekMessageEx\<close>, \<open>HavePendingMessageEx\<close> and
  \<open>WaitMessage\<close>. One pass of \<open>PeekMessageEx\<close> from the label \<open>checkagain\<close> is the composition of a step
  per kind of message; a step either ends the pass or hands the caller's message and the queue on.
\<close>

section \<open>Windows that need painting\<close>

text \<open>The first window of a tree with an invalid region; a virtual window has none, and neither do
  its children.\<close>

fun kernel_CheckInvalidRegion :: "CONTROL \<Rightarrow> HWND" where
  "kernel_CheckInvalidRegion (CONTROL h virt paint cs) =
     (if virt then HWND_NULL
      else if paint then h
      else foldr (\<lambda>c rest. let hw = kernel_CheckInvalidRegion c in if hw \<noteq> 0 then hw else rest) cs HWND_NULL)"

fun msgCheckHostedTree :: "HWND \<Rightarrow> MAINWIN \<Rightarrow> HWND" where
  "msgCheckHostedTree dsk_win (MAINWIN c k hs) =
     (let hw = (if ctrl_hwnd c \<noteq> dsk_win then kernel_CheckInvalidRegion c else 0)
      in if hw \<noteq> 0 then hw
         else foldr (\<lambda>w rest. let hw = msgCheckHostedTree dsk_win w in if hw \<noteq> 0 then hw else rest) hs 0)"

section \<open>HavePendingMessageEx\<close>

text \<open>\<open>idle\<close> is what the idle handler returns when it is called without waiting.\<close>

definition some_pending :: "MSGQUEUE \<Rightarrow> bool" where
  "some_pending q \<longleftrightarrow>
     (QS_SYNCMSG \<in> dwState q \<and> pFirstSyncMsg q \<noteq> None)
     \<or> (QS_NOTIFYMSG \<in> dwState q \<and> notify_msgs q \<noteq> [])
     \<or> (QS_POSTMSG \<in> dwState q \<and> readpos q \<noteq> writepos q)"

definition HavePendingMessageEx :: "bool \<Rightarrow> (MSGQUEUE \<Rightarrow> bool \<times> MSGQUEUE) \<Rightarrow> MSGQUEUE \<Rightarrow> bool \<Rightarrow> bool \<times> MSGQUEUE" where
  "HavePendingMessageEx is_dsk idle q bNoDeskTimer =
     (if some_pending q then (True, q)
      else if dwState q \<inter> {QS_QUIT, QS_PAINT} \<noteq> {} then (True, q)
      else if expired_timer_mask q \<noteq> 0 then (True, q)
      else if \<not> bNoDeskTimer \<and> is_dsk \<and> QS_DESKTIMER \<in> dwState q then (True, q)
      else if OnIdle q then idle q else (False, q))"

section \<open>Mouse messages of a captured window\<close>

definition MSG_FIRSTMOUSEMSG :: nat where "MSG_FIRSTMOUSEMSG = 0x0001"
definition MSG_LASTMOUSEMSG :: nat where "MSG_LASTMOUSEMSG = 0x0014"
definition KS_CAPTURED :: dword where "KS_CAPTURED = 0x400"

definition LOSWORD :: "dword \<Rightarrow> 32 word" where "LOSWORD l = ucast l"
definition HISWORD :: "dword \<Rightarrow> 32 word" where "HISWORD l = ucast (drop_bit 32 l AND 0xFFFFFFFF)"

text \<open>\<open>frames h\<close>: the client origin \<open>(cl, ct)\<close> of window \<open>h\<close> and of its ancestors in turn.\<close>

definition ClientToScreen :: "(HWND \<Rightarrow> (32 word \<times> 32 word) list) \<Rightarrow> HWND \<Rightarrow> 32 word \<times> 32 word \<Rightarrow> 32 word \<times> 32 word" where
  "ClientToScreen frames h p = foldl (\<lambda>(x, y) (cl, ct). (x + cl, y + ct)) p (frames h)"

definition CheckCapturedMouseMessage ::
  "HWND \<Rightarrow> (HWND \<Rightarrow> (32 word \<times> 32 word) list) \<Rightarrow> MSG \<Rightarrow> MSG" where
  "CheckCapturedMouseMessage captured frames m =
     (if captured = hwnd m \<and> message m \<ge> MSG_FIRSTMOUSEMSG \<and> message m \<le> MSG_LASTMOUSEMSG
         \<and> wParam m AND KS_CAPTURED = 0 then
        (case ClientToScreen frames (hwnd m) (LOSWORD (lParam m), HISWORD (lParam m)) of
           (x, y) \<Rightarrow> m\<lparr>lParam := MAKELONG (ucast x) (ucast y), wParam := wParam m OR KS_CAPTURED\<rparr>)
      else m)"

section \<open>One pass of PeekMessageEx\<close>

definition IS_MSG_WANTED :: "nat \<Rightarrow> nat \<Rightarrow> nat \<Rightarrow> bool" where
  "IS_MSG_WANTED lo hi code \<longleftrightarrow> (lo = 0 \<and> hi = 0) \<or> (0 < lo \<and> lo \<le> hi \<and> lo \<le> code \<and> code \<le> hi)"

text \<open>How a pass ends: FALSE for quitting, a message, a timer procedure to call for a slot, or a read
  through NULL or outside an array.\<close>

datatype peek_exit = Quit | Got | Call nat TIMER | Bad_read

type_synonym peek_step = "(peek_exit \<times> MSG \<times> MSGQUEUE) + (MSG \<times> MSGQUEUE)"

definition or_else :: "peek_step \<Rightarrow> (MSG \<Rightarrow> MSGQUEUE \<Rightarrow> peek_step) \<Rightarrow> peek_step" where
  "or_else r f = (case r of Inl x \<Rightarrow> Inl x | Inr (m, q) \<Rightarrow> f m q)"

definition peek_quit :: "HWND \<Rightarrow> bool \<Rightarrow> MSG \<Rightarrow> MSGQUEUE \<Rightarrow> peek_step" where
  "peek_quit hWnd remove m q =
     (if QS_QUIT \<in> dwState q then
        Inl (Quit, m\<lparr>hwnd := hWnd, message := MSG_QUIT, wParam := 0, lParam := 0, pSyncMsg := None\<rparr>,
             if remove then
               let q1 = q\<lparr>loop_depth := loop_depth q - 1\<rparr>
               in if loop_depth q1 = 0 then q1\<lparr>dwState := dwState q1 - {QS_QUIT}\<rparr> else q1
             else q)
      else Inr (m, q))"

definition peek_sync :: "syncs \<Rightarrow> nat \<Rightarrow> nat \<Rightarrow> bool \<Rightarrow> MSG \<Rightarrow> MSGQUEUE \<Rightarrow> peek_step" where
  "peek_sync nodes lo hi remove m q =
     (if QS_SYNCMSG \<in> dwState q then
        (case pFirstSyncMsg q of
           None \<Rightarrow> Inr (m, q\<lparr>dwState := dwState q - {QS_SYNCMSG}\<rparr>)
         | Some p \<Rightarrow>
             let m1 = (sMsg (nodes p))\<lparr>pSyncMsg := Some p\<rparr>
             in if IS_MSG_WANTED lo hi (message m1)
                then Inl (Got, m1, if remove then q\<lparr>pFirstSyncMsg := pNext (nodes p)\<rparr> else q)
                else Inr (m1, q))
      else Inr (m, q))"

definition peek_notify :: "nat \<Rightarrow> nat \<Rightarrow> bool \<Rightarrow> MSG \<Rightarrow> MSGQUEUE \<Rightarrow> peek_step" where
  "peek_notify lo hi remove m q =
     (if QS_NOTIFYMSG \<in> dwState q then
        (case notify_msgs q of
           [] \<Rightarrow> Inr (m, q\<lparr>dwState := dwState q - {QS_NOTIFYMSG}\<rparr>)
         | x # xs \<Rightarrow>
             let m1 = x\<lparr>pSyncMsg := None\<rparr>
             in if IS_MSG_WANTED lo hi (message m1)
                then Inl (Got, m1, if remove then q\<lparr>notify_msgs := xs\<rparr> else q)
                else Inr (m1, q))
      else Inr (m, q))"

definition peek_post ::
  "(MSG \<Rightarrow> MSG) \<Rightarrow> nat \<Rightarrow> nat \<Rightarrow> bool \<Rightarrow> MSG \<Rightarrow> MSGQUEUE \<Rightarrow> peek_step" where
  "peek_post check lo hi remove m q =
     (if QS_POSTMSG \<in> dwState q then
        if readpos q \<noteq> writepos q then
          let m1 = (msgs q ! readpos q)\<lparr>pSyncMsg := None\<rparr>
          in if IS_MSG_WANTED lo hi (message m1)
             then Inl (Got, check m1, if remove then q\<lparr>readpos := (readpos q + 1) mod len q\<rparr> else q)
             else Inr (m1, q)
        else Inr (m, q\<lparr>dwState := dwState q - {QS_POSTMSG}\<rparr>)
      else Inr (m, q))"

text \<open>\<open>inv_rgn h\<close> is the address of the invalid region of window \<open>h\<close>.\<close>

definition peek_paint :: "HWND \<Rightarrow> (HWND \<Rightarrow> dword) \<Rightarrow> nat \<Rightarrow> nat \<Rightarrow> MSG \<Rightarrow> MSGQUEUE \<Rightarrow> peek_step" where
  "peek_paint dsk_win inv_rgn lo hi m q =
     (if QS_PAINT \<in> dwState q \<and> IS_MSG_WANTED lo hi MSG_PAINT then
        let m1 = m\<lparr>message := MSG_PAINT, wParam := 0, lParam := 0, pSyncMsg := None\<rparr>
        in case pRootMainWin q of
             None \<Rightarrow> Inl (Bad_read, m1, q)
           | Some root \<Rightarrow>
               let h = msgCheckHostedTree dsk_win root
               in if h \<noteq> 0 then Inl (Got, m1\<lparr>hwnd := h, lParam := inv_rgn h\<rparr>, q)
                  else Inr (m1, q\<lparr>dwState := dwState q - {QS_PAINT}\<rparr>)
      else Inr (m, q))"

definition peek_desktimer :: "bool \<Rightarrow> HWND \<Rightarrow> bool \<Rightarrow> MSG \<Rightarrow> MSGQUEUE \<Rightarrow> peek_step" where
  "peek_desktimer is_dsk dsk_win remove m q =
     (if is_dsk \<and> QS_DESKTIMER \<in> dwState q then
        Inl (Got, m\<lparr>hwnd := dsk_win, message := MSG_TIMEOUT, wParam := 0, lParam := 0\<rparr>,
             if remove then q\<lparr>dwState := dwState q - {QS_DESKTIMER}\<rparr> else q)
      else Inr (m, q))"

text \<open>The circular search for a flagged slot from \<open>first_timer_slot\<close> on; \<open>None\<close> is -1.\<close>

definition first_expired :: "dword \<Rightarrow> nat \<Rightarrow> nat option" where
  "first_expired msk first =
     find (bit msk) (map (\<lambda>i. (first + i) mod DEF_NR_TIMERS) [0..<DEF_NR_TIMERS])"

definition peek_timer :: "nat \<Rightarrow> nat \<Rightarrow> MSG \<Rightarrow> MSGQUEUE \<Rightarrow> peek_step" where
  "peek_timer lo hi m q =
     (if expired_timer_mask q \<noteq> 0 \<and> IS_MSG_WANTED lo hi MSG_TIMER then
        let q1 = q\<lparr>first_timer_slot := (first_timer_slot q + 1) mod DEF_NR_TIMERS\<rparr>
        in case first_expired (expired_timer_mask q) (first_timer_slot q) of
             None \<Rightarrow> Inl (Bad_read, m, q1)
           | Some slot \<Rightarrow>
               (case timer_slots q1 ! slot of
                  None \<Rightarrow> Inr (m, q1)
                | Some t \<Rightarrow>
                    let q2 = q1\<lparr>expired_timer_mask := expired_timer_mask q1 AND NOT (slot_bit slot)\<rparr>
                    in if tm_proc t \<noteq> None then Inl (Call slot t, m, q2)
                       else Inl (Got, m\<lparr>message := MSG_TIMER, hwnd := tm_hWnd t, wParam := word_of_int (tm_id t),
                                        lParam := ticks_fired t, pSyncMsg := None\<rparr>, q2))
      else Inr (m, q))"

text \<open>What a pass depends on besides the queue.\<close>

record peek_env =
  pe_is_dsk :: bool
  pe_dsk_win :: HWND
  pe_captured :: HWND
  pe_frames :: "HWND \<Rightarrow> (32 word \<times> 32 word) list"
  pe_inv_rgn :: "HWND \<Rightarrow> dword"

definition peek_pass ::
  "peek_env \<Rightarrow> syncs \<Rightarrow> HWND \<Rightarrow> nat \<Rightarrow> nat \<Rightarrow> bool \<Rightarrow> MSG \<Rightarrow> MSGQUEUE \<Rightarrow> peek_step" where
  "peek_pass e nodes hWnd lo hi remove m q =
     or_else (or_else (or_else (or_else (or_else (or_else
       (peek_quit hWnd remove m q)
       (peek_sync nodes lo hi remove))
       (peek_notify lo hi remove))
       (peek_post (CheckCapturedMouseMessage (pe_captured e) (pe_frames e)) lo hi remove))
       (peek_paint (pe_dsk_win e) (pe_inv_rgn e) lo hi))
       (peek_desktimer (pe_is_dsk e) (pe_dsk_win e) remove))
       (peek_timer lo hi)"

section \<open>The idle handler\<close>

text \<open>The handler of a build without \<open>select\<close>; \<open>tick\<close> is \<open>__mg_tick_counter\<close> when it is called and \<open>now\<close>
  the system clock, to which a check of the timers sets the counter.\<close>

definition std_idle_handler :: "bool \<Rightarrow> dword \<Rightarrow> dword \<Rightarrow> MSGQUEUE \<Rightarrow> bool \<times> MSGQUEUE" where
  "std_idle_handler is_dsk tick now q =
     (case check_expired_timers is_dsk now q (tick - old_tick_count q) of
        (n, q1) \<Rightarrow> (n > 0, q1\<lparr>old_tick_count := (if tick = old_tick_count q then tick else now)\<rparr>))"

section \<open>PeekMessageEx and WaitMessage\<close>

text \<open>Label \<open>got_ret\<close>.\<close>

definition got_ret :: "peek_env \<Rightarrow> MSG \<Rightarrow> MSGQUEUE \<Rightarrow> MSGQUEUE" where
  "got_ret e m q = (if hwnd m \<noteq> pe_dsk_win e then q\<lparr>idle_counter := 0\<rparr> else q)"

text \<open>The result of a call: TRUE or FALSE with the message and the queue, or a bad read.\<close>

datatype peek_result = Returned bool MSG MSGQUEUE | Crashed

text \<open>
  A call without waiting. \<open>proc\<close> runs a timer procedure and returns what it leaves of the queue, \<open>idle\<close>
  is the idle handler and \<open>idle_msg\<close> stands for \<open>handle_idle_message\<close>. The loop goes on for as
  long as timer procedures are called.
\<close>

partial_function (option) peek_nowait ::
  "peek_env \<Rightarrow> syncs \<Rightarrow> (TIMER \<Rightarrow> MSGQUEUE \<Rightarrow> bool \<times> MSGQUEUE) \<Rightarrow> (MSGQUEUE \<Rightarrow> bool \<times> MSGQUEUE)
     \<Rightarrow> (MSGQUEUE \<Rightarrow> MSGQUEUE) \<Rightarrow> HWND \<Rightarrow> nat \<Rightarrow> nat \<Rightarrow> bool \<Rightarrow> MSG \<Rightarrow> MSGQUEUE \<Rightarrow> peek_result option" where
  "peek_nowait e nodes proc idle idle_msg hWnd lo hi remove m q =
     (case peek_pass e nodes hWnd lo hi remove m q of
        Inl (Quit, m1, q1) \<Rightarrow> Some (Returned False m1 q1)
      | Inl (Got, m1, q1) \<Rightarrow> Some (Returned True m1 (got_ret e m1 q1))
      | Inl (Bad_read, m1, q1) \<Rightarrow> Some Crashed
      | Inl (Call slot t, m1, q1) \<Rightarrow>
          (case proc t q1 of
             (keep, q2) \<Rightarrow> peek_nowait e nodes proc idle idle_msg hWnd lo hi remove m1
                             (if keep then q2 else remove_timer q2 (int slot)))
      | Inr (m1, q1) \<Rightarrow>
          (if OnIdle q1 then
             (case idle q1 of (busy, q2) \<Rightarrow> Some (Returned False m1 (if busy then q2 else idle_msg q2)))
           else Some (Returned False m1 q1)))"

definition PeekMessage ::
  "peek_env \<Rightarrow> syncs \<Rightarrow> (TIMER \<Rightarrow> MSGQUEUE \<Rightarrow> bool \<times> MSGQUEUE) \<Rightarrow> (MSGQUEUE \<Rightarrow> bool \<times> MSGQUEUE)
     \<Rightarrow> (MSGQUEUE \<Rightarrow> MSGQUEUE) \<Rightarrow> windows \<Rightarrow> dword \<Rightarrow> HWND \<Rightarrow> nat \<Rightarrow> nat \<Rightarrow> bool \<Rightarrow> MSG \<Rightarrow> MSGQUEUE
     \<Rightarrow> peek_result option" where
  "PeekMessage e nodes proc idle idle_msg wins tick hWnd lo hi remove pMsg q =
     (if hWnd \<noteq> pe_dsk_win e \<and> \<not> MG_IS_MAIN_VIRT_WINDOW wins hWnd then Some (Returned False pMsg q)
      else peek_nowait e nodes proc idle idle_msg hWnd lo hi remove (zero_msg\<lparr>msg_time := tick\<rparr>) q)"

text \<open>
  A waiting call. \<open>env i\<close> is what other threads do to the queue during the \<open>i\<close>-th wait. A queue with an
  idle handler takes a signal that is there (\<open>sem_trywait\<close>) and otherwise lets the handler run; a queue
  without one blocks until it is signalled.
\<close>

partial_function (option) await :: "(nat \<Rightarrow> MSGQUEUE \<Rightarrow> MSGQUEUE) \<Rightarrow> nat \<Rightarrow> MSGQUEUE \<Rightarrow> (nat \<times> MSGQUEUE) option" where
  "await env i q =
     (if wait_sem q > 0 then Some (i, q\<lparr>wait_sem := wait_sem q - 1\<rparr>) else await env (Suc i) (env i q))"

definition wait_step ::
  "(MSGQUEUE \<Rightarrow> bool \<times> MSGQUEUE) \<Rightarrow> (MSGQUEUE \<Rightarrow> MSGQUEUE) \<Rightarrow> (nat \<Rightarrow> MSGQUEUE \<Rightarrow> MSGQUEUE) \<Rightarrow> nat \<Rightarrow> MSGQUEUE
     \<Rightarrow> (nat \<times> MSGQUEUE) option" where
  "wait_step idle idle_msg env i q =
     (let q1 = env i q
      in if OnIdle q1 then
           if wait_sem q1 > 0 then Some (Suc i, q1\<lparr>wait_sem := wait_sem q1 - 1\<rparr>)
           else (case idle q1 of (busy, q2) \<Rightarrow> Some (Suc i, if busy then q2 else idle_msg q2))
         else await env (Suc i) q1)"

partial_function (option) peek_wait ::
  "peek_env \<Rightarrow> syncs \<Rightarrow> (TIMER \<Rightarrow> MSGQUEUE \<Rightarrow> bool \<times> MSGQUEUE) \<Rightarrow> (MSGQUEUE \<Rightarrow> bool \<times> MSGQUEUE)
     \<Rightarrow> (MSGQUEUE \<Rightarrow> MSGQUEUE) \<Rightarrow> (nat \<Rightarrow> MSGQUEUE \<Rightarrow> MSGQUEUE) \<Rightarrow> nat
     \<Rightarrow> HWND \<Rightarrow> nat \<Rightarrow> nat \<Rightarrow> bool \<Rightarrow> MSG \<Rightarrow> MSGQUEUE \<Rightarrow> peek_result option" where
  "peek_wait e nodes proc idle idle_msg env i hWnd lo hi remove m q =
     (case peek_pass e nodes hWnd lo hi remove m q of
        Inl (Quit, m1, q1) \<Rightarrow> Some (Returned False m1 q1)
      | Inl (Got, m1, q1) \<Rightarrow> Some (Returned True m1 (got_ret e m1 q1))
      | Inl (Bad_read, m1, q1) \<Rightarrow> Some Crashed
      | Inl (Call slot t, m1, q1) \<Rightarrow>
          (case proc t q1 of
             (keep, q2) \<Rightarrow> peek_wait e nodes proc idle idle_msg env i hWnd lo hi remove m1
                             (if keep then q2 else remove_timer q2 (int slot)))
      | Inr (m1, q1) \<Rightarrow>
          Option.bind (wait_step idle idle_msg env i q1)
            (\<lambda>(i', q2). peek_wait e nodes proc idle idle_msg env i' hWnd lo hi remove m1 q2))"

text \<open>What makes \<open>WaitMessage\<close> return.\<close>

definition wait_over :: "bool \<Rightarrow> MSGQUEUE \<Rightarrow> bool" where
  "wait_over is_dsk q \<longleftrightarrow> QS_QUIT \<in> dwState q \<or> some_pending q \<or> QS_PAINT \<in> dwState q
     \<or> (is_dsk \<and> QS_DESKTIMER \<in> dwState q) \<or> expired_timer_mask q \<noteq> 0"

partial_function (option) wait_loop ::
  "bool \<Rightarrow> (MSGQUEUE \<Rightarrow> bool \<times> MSGQUEUE) \<Rightarrow> (MSGQUEUE \<Rightarrow> MSGQUEUE) \<Rightarrow> (nat \<Rightarrow> MSGQUEUE \<Rightarrow> MSGQUEUE) \<Rightarrow> nat
     \<Rightarrow> MSGQUEUE \<Rightarrow> MSGQUEUE option" where
  "wait_loop is_dsk idle idle_msg env i q =
     (if wait_over is_dsk q then Some q
      else
        Option.bind (wait_step idle idle_msg env i q)
          (\<lambda>(i', q2). wait_loop is_dsk idle idle_msg env i' q2))"

definition WaitMessage ::
  "windows \<Rightarrow> nat \<Rightarrow> bool \<Rightarrow> (MSGQUEUE \<Rightarrow> bool \<times> MSGQUEUE) \<Rightarrow> (MSGQUEUE \<Rightarrow> MSGQUEUE)
     \<Rightarrow> (nat \<Rightarrow> MSGQUEUE \<Rightarrow> MSGQUEUE) \<Rightarrow> HWND \<Rightarrow> MSGQUEUE \<Rightarrow> (bool \<times> MSGQUEUE) option" where
  "WaitMessage wins self is_dsk idle idle_msg env hWnd q =
     (if getMsgQueueIfWindowInThisThread wins self hWnd = None then Some (False, q)
      else map_option (Pair True) (wait_loop is_dsk idle idle_msg env 0 (q\<lparr>idle_counter := 0\<rparr>)))"

section \<open>The order of service\<close>

lemma or_else_simps [simp]: "or_else (Inl x) f = Inl x" "or_else (Inr (m, q)) f = f m q"
  by (simp_all add: or_else_def)

lemma wanted_any [simp]: "IS_MSG_WANTED 0 0 code"
  by (simp add: IS_MSG_WANTED_def)

definition needs_paint_win :: "HWND \<Rightarrow> MSGQUEUE \<Rightarrow> bool" where
  "needs_paint_win dsk_win q \<longleftrightarrow>
     (case pRootMainWin q of None \<Rightarrow> False | Some root \<Rightarrow> msgCheckHostedTree dsk_win root \<noteq> 0)"

text \<open>What a queue has ready: a flag counts when there is something behind it.\<close>

definition ready :: "peek_env \<Rightarrow> MSGQUEUE \<Rightarrow> QS set" where
  "ready e q = {f \<in> dwState q. case f of
       QS_QUIT \<Rightarrow> True
     | QS_SYNCMSG \<Rightarrow> pFirstSyncMsg q \<noteq> None
     | QS_NOTIFYMSG \<Rightarrow> notify_msgs q \<noteq> []
     | QS_POSTMSG \<Rightarrow> readpos q \<noteq> writepos q
     | QS_PAINT \<Rightarrow> needs_paint_win (pe_dsk_win e) q
     | QS_DESKTIMER \<Rightarrow> pe_is_dsk e
     | QS_INPUT \<Rightarrow> False}"

text \<open>The step that serves a flag.\<close>

definition serve :: "peek_env \<Rightarrow> syncs \<Rightarrow> HWND \<Rightarrow> bool \<Rightarrow> MSG \<Rightarrow> QS \<Rightarrow> MSGQUEUE \<Rightarrow> peek_step" where
  "serve e nodes hWnd remove m f q =
     (case f of
        QS_QUIT \<Rightarrow> peek_quit hWnd remove m q
      | QS_SYNCMSG \<Rightarrow> peek_sync nodes 0 0 remove m q
      | QS_NOTIFYMSG \<Rightarrow> peek_notify 0 0 remove m q
      | QS_POSTMSG \<Rightarrow> peek_post (CheckCapturedMouseMessage (pe_captured e) (pe_frames e)) 0 0 remove m q
      | QS_PAINT \<Rightarrow> peek_paint (pe_dsk_win e) (pe_inv_rgn e) 0 0 m q
      | QS_DESKTIMER \<Rightarrow> peek_desktimer (pe_is_dsk e) (pe_dsk_win e) remove m q
      | QS_INPUT \<Rightarrow> Inr (m, q))"

text \<open>The queue with some flags cleared.\<close>

definition cleared :: "QS set \<Rightarrow> MSGQUEUE \<Rightarrow> MSGQUEUE" where
  "cleared S q = q\<lparr>dwState := dwState q - S\<rparr>"

lemma cleared_sel [simp]:
  "dwState (cleared S q) = dwState q - S" "pFirstSyncMsg (cleared S q) = pFirstSyncMsg q"
  "notify_msgs (cleared S q) = notify_msgs q" "readpos (cleared S q) = readpos q"
  "writepos (cleared S q) = writepos q" "pRootMainWin (cleared S q) = pRootMainWin q"
  "(cleared S q)\<lparr>dwState := D\<rparr> = q\<lparr>dwState := D\<rparr>"
  by (simp_all add: cleared_def)

lemma cleared_insert: "q\<lparr>dwState := dwState q - S - {f}\<rparr> = cleared (insert f S) q"
  by (simp add: cleared_def Diff_insert [of "dwState q" f S])

lemma cleared_absent: "f \<notin> dwState q - S \<Longrightarrow> cleared (insert f S) q = cleared S q"
proof -
  assume "f \<notin> dwState q - S"
  then have "dwState q - insert f S = dwState q - S" by auto
  then show ?thesis by (simp add: cleared_def)
qed

lemma skip_quit: "QS_QUIT \<notin> ready e q \<Longrightarrow> peek_quit hWnd remove m q = Inr (m, cleared {QS_QUIT} q)"
  by (simp add: ready_def peek_quit_def cleared_def)

lemma skip_sync:
  "QS_SYNCMSG \<notin> ready e q \<Longrightarrow> peek_sync nodes 0 0 remove m (cleared S q) = Inr (m, cleared (insert QS_SYNCMSG S) q)"
  using cleared_absent [of QS_SYNCMSG q S]
  by (auto simp: ready_def peek_sync_def cleared_insert split: option.split)

lemma skip_notify:
  "QS_NOTIFYMSG \<notin> ready e q \<Longrightarrow> peek_notify 0 0 remove m (cleared S q) = Inr (m, cleared (insert QS_NOTIFYMSG S) q)"
  using cleared_absent [of QS_NOTIFYMSG q S]
  by (auto simp: ready_def peek_notify_def cleared_insert split: list.split)

lemma skip_post:
  "QS_POSTMSG \<notin> ready e q \<Longrightarrow> peek_post check 0 0 remove m (cleared S q) = Inr (m, cleared (insert QS_POSTMSG S) q)"
  using cleared_absent [of QS_POSTMSG q S]
  by (auto simp: ready_def peek_post_def cleared_insert)

definition paint_msg :: "MSG \<Rightarrow> MSG" where
  "paint_msg m = m\<lparr>message := MSG_PAINT, wParam := 0, lParam := 0, pSyncMsg := None\<rparr>"

lemma skip_paint:
  assumes "QS_PAINT \<notin> ready e q" "QS_PAINT \<in> dwState q \<Longrightarrow> pRootMainWin q \<noteq> None"
  shows "\<exists>m' \<in> {m, paint_msg m}. peek_paint (pe_dsk_win e) inv_rgn 0 0 m (cleared S q)
    = Inr (m', cleared (insert QS_PAINT S) q)"
proof (cases "QS_PAINT \<in> dwState q - S")
  case True
  then obtain root where "pRootMainWin q = Some root" using assms(2) by auto
  with True assms(1) show ?thesis
    by (simp add: ready_def peek_paint_def needs_paint_win_def Let_def cleared_insert paint_msg_def)
next
  case False
  then have "QS_PAINT \<notin> dwState (cleared S q)" by simp
  then have "peek_paint (pe_dsk_win e) inv_rgn 0 0 m (cleared S q) = Inr (m, cleared S q)"
    by (simp add: peek_paint_def del: cleared_sel)
  with cleared_absent [OF False] show ?thesis by simp
qed

lemma skip_desktimer:
  "QS_DESKTIMER \<notin> ready e q \<Longrightarrow>
     peek_desktimer (pe_is_dsk e) dsk_win remove m (cleared S q) = Inr (m, cleared S q)"
  by (auto simp: ready_def peek_desktimer_def)

lemma serve_isl: "f \<in> ready e q \<Longrightarrow> isl (serve e nodes hWnd remove m f q)"
  by (cases f) (auto simp: ready_def serve_def peek_quit_def peek_sync_def peek_notify_def peek_post_def
      peek_paint_def peek_desktimer_def needs_paint_win_def Let_def split: option.splits list.splits)

lemma or_else_isl [simp]: "isl r \<Longrightarrow> or_else r f = r"
  by (cases r) (simp_all add: or_else_def)

lemma qs_less_iff:
  "g < QS_QUIT \<longleftrightarrow> False" "g < QS_SYNCMSG \<longleftrightarrow> g = QS_QUIT" "g < QS_NOTIFYMSG \<longleftrightarrow> g = QS_SYNCMSG \<or> g = QS_QUIT"
  "g < QS_POSTMSG \<longleftrightarrow> g = QS_NOTIFYMSG \<or> g = QS_SYNCMSG \<or> g = QS_QUIT"
  "g < QS_PAINT \<longleftrightarrow> g = QS_POSTMSG \<or> g = QS_NOTIFYMSG \<or> g = QS_SYNCMSG \<or> g = QS_QUIT"
  "g < QS_DESKTIMER \<longleftrightarrow> g = QS_PAINT \<or> g = QS_POSTMSG \<or> g = QS_NOTIFYMSG \<or> g = QS_SYNCMSG \<or> g = QS_QUIT"
  by (cases g; simp add: less_QS_def qs_rank_def)+

lemma qs_below:
  "{g. g < QS_QUIT} = {}" "{g. g < QS_SYNCMSG} = {QS_QUIT}" "{g. g < QS_NOTIFYMSG} = {QS_SYNCMSG, QS_QUIT}"
  "{g. g < QS_POSTMSG} = {QS_NOTIFYMSG, QS_SYNCMSG, QS_QUIT}"
  "{g. g < QS_PAINT} = {QS_POSTMSG, QS_NOTIFYMSG, QS_SYNCMSG, QS_QUIT}"
  "{g. g < QS_DESKTIMER} = {QS_PAINT, QS_POSTMSG, QS_NOTIFYMSG, QS_SYNCMSG, QS_QUIT}"
  by (auto simp: qs_less_iff)

lemma cleared_none [simp]: "cleared {} q = q"
  by (simp add: cleared_def)

lemma ready_cleared: "f \<in> ready e q \<Longrightarrow> f \<notin> S \<Longrightarrow> f \<in> ready e (cleared S q)"
  by (cases f) (auto simp: ready_def needs_paint_win_def)

text \<open>The pass up to the paint step, when nothing before it is ready.\<close>

lemma pass_to_paint:
  assumes "QS_QUIT \<notin> ready e q" "QS_SYNCMSG \<notin> ready e q" "QS_NOTIFYMSG \<notin> ready e q" "QS_POSTMSG \<notin> ready e q"
  shows "peek_pass e nodes hWnd 0 0 remove m q =
    or_else (or_else (peek_paint (pe_dsk_win e) (pe_inv_rgn e) 0 0 m
         (cleared {QS_POSTMSG, QS_NOTIFYMSG, QS_SYNCMSG, QS_QUIT} q))
       (peek_desktimer (pe_is_dsk e) (pe_dsk_win e) remove)) (peek_timer 0 0)"
  unfolding peek_pass_def skip_quit [OF assms(1)] or_else_simps skip_sync [OF assms(2)] skip_notify [OF assms(3)]
    skip_post [OF assms(4)] ..

lemma desktimer_any:
  "m' \<in> {m, paint_msg m} \<Longrightarrow> pSyncMsg m = None \<Longrightarrow> d \<Longrightarrow> QS_DESKTIMER \<in> dwState q \<Longrightarrow>
     peek_desktimer d w remove m' q = peek_desktimer d w remove m q"
  by (cases m) (auto simp: peek_desktimer_def paint_msg_def)

lemma pass_serves:
  assumes f: "f \<in> ready e q" "\<And>g. g \<in> ready e q \<Longrightarrow> f \<le> g"
    and root: "QS_PAINT \<in> dwState q \<Longrightarrow> pRootMainWin q \<noteq> None" and m: "pSyncMsg m = None"
  shows "peek_pass e nodes hWnd 0 0 remove m q = serve e nodes hWnd remove m f (cleared {g. g < f} q)"
proof -
  have no: "g \<notin> ready e q" if "g < f" for g using f(2) [of g] that by (meson leD)
  have "isl (serve e nodes hWnd remove m f (cleared {g. g < f} q))"
    by (rule serve_isl, rule ready_cleared) (use f in auto)
  note L = this
  show ?thesis
  proof (cases f)
    case QS_QUIT
    with L show ?thesis by (simp add: peek_pass_def serve_def qs_below)
  next
    case QS_SYNCMSG
    then have q: "QS_QUIT \<notin> ready e q" using no by (simp add: qs_less_iff)
    from L QS_SYNCMSG show ?thesis unfolding peek_pass_def skip_quit [OF q] by (simp add: serve_def qs_below)
  next
    case QS_NOTIFYMSG
    then have q: "QS_QUIT \<notin> ready e q" "QS_SYNCMSG \<notin> ready e q" using no by (simp_all add: qs_less_iff)
    from L QS_NOTIFYMSG show ?thesis
      unfolding peek_pass_def skip_quit [OF q(1)] or_else_simps skip_sync [OF q(2)] by (simp add: serve_def qs_below)
  next
    case QS_POSTMSG
    then have q: "QS_QUIT \<notin> ready e q" "QS_SYNCMSG \<notin> ready e q" "QS_NOTIFYMSG \<notin> ready e q"
      using no by (simp_all add: qs_less_iff)
    from L QS_POSTMSG show ?thesis
      unfolding peek_pass_def skip_quit [OF q(1)] or_else_simps skip_sync [OF q(2)] skip_notify [OF q(3)]
      by (simp add: serve_def qs_below)
  next
    case QS_PAINT
    then have q: "QS_QUIT \<notin> ready e q" "QS_SYNCMSG \<notin> ready e q" "QS_NOTIFYMSG \<notin> ready e q" "QS_POSTMSG \<notin> ready e q"
      using no by (simp_all add: qs_less_iff)
    from L QS_PAINT show ?thesis unfolding pass_to_paint [OF q] by (simp add: serve_def qs_below)
  next
    case QS_DESKTIMER
    then have q: "QS_QUIT \<notin> ready e q" "QS_SYNCMSG \<notin> ready e q" "QS_NOTIFYMSG \<notin> ready e q" "QS_POSTMSG \<notin> ready e q"
      "QS_PAINT \<notin> ready e q"
      using no by (simp_all add: qs_less_iff)
    obtain m' where m': "m' \<in> {m, paint_msg m}" "peek_paint (pe_dsk_win e) (pe_inv_rgn e) 0 0 m
        (cleared {QS_POSTMSG, QS_NOTIFYMSG, QS_SYNCMSG, QS_QUIT} q)
        = Inr (m', cleared {QS_PAINT, QS_POSTMSG, QS_NOTIFYMSG, QS_SYNCMSG, QS_QUIT} q)"
      using skip_paint [OF q(5) root] by blast
    have "pe_is_dsk e" "QS_DESKTIMER \<in> dwState (cleared {QS_PAINT, QS_POSTMSG, QS_NOTIFYMSG, QS_SYNCMSG, QS_QUIT} q)"
      using f(1) QS_DESKTIMER by (simp_all add: ready_def)
    note same = desktimer_any [OF m'(1) m this]
    from L QS_DESKTIMER show ?thesis
      unfolding pass_to_paint [OF q(1-4)] m'(2) or_else_simps same by (simp add: serve_def qs_below)
  next
    case QS_INPUT
    with f(1) show ?thesis by (simp add: ready_def)
  qed
qed

lemma pass_idle:
  assumes "ready e q = {}" "QS_PAINT \<in> dwState q \<Longrightarrow> pRootMainWin q \<noteq> None"
  shows "\<exists>m' \<in> {m, paint_msg m}. peek_pass e nodes hWnd 0 0 remove m q
    = peek_timer 0 0 m' (cleared {g. g < QS_DESKTIMER} q)"
proof -
  have no: "g \<notin> ready e q" for g using assms(1) by simp
  obtain m' where m': "m' \<in> {m, paint_msg m}" "peek_paint (pe_dsk_win e) (pe_inv_rgn e) 0 0 m
      (cleared {QS_POSTMSG, QS_NOTIFYMSG, QS_SYNCMSG, QS_QUIT} q)
      = Inr (m', cleared {QS_PAINT, QS_POSTMSG, QS_NOTIFYMSG, QS_SYNCMSG, QS_QUIT} q)"
    using skip_paint [OF no assms(2)] by blast
  have "peek_pass e nodes hWnd 0 0 remove m q
      = peek_timer 0 0 m' (cleared {QS_PAINT, QS_POSTMSG, QS_NOTIFYMSG, QS_SYNCMSG, QS_QUIT} q)"
    unfolding pass_to_paint [OF no no no no] m'(2) or_else_simps skip_desktimer [OF no] ..
  with m'(1) show ?thesis unfolding qs_below by blast
qed

text \<open>The message each source has to offer.\<close>

definition offered :: "peek_env \<Rightarrow> syncs \<Rightarrow> HWND \<Rightarrow> MSG \<Rightarrow> MSGQUEUE \<Rightarrow> QS \<Rightarrow> MSG" where
  "offered e nodes hWnd m q f =
     (case f of
        QS_QUIT \<Rightarrow> m\<lparr>hwnd := hWnd, message := MSG_QUIT, wParam := 0, lParam := 0, pSyncMsg := None\<rparr>
      | QS_SYNCMSG \<Rightarrow> (sMsg (nodes (the (pFirstSyncMsg q))))\<lparr>pSyncMsg := pFirstSyncMsg q\<rparr>
      | QS_NOTIFYMSG \<Rightarrow> (hd (notify_msgs q))\<lparr>pSyncMsg := None\<rparr>
      | QS_POSTMSG \<Rightarrow> CheckCapturedMouseMessage (pe_captured e) (pe_frames e) ((hd (posted q))\<lparr>pSyncMsg := None\<rparr>)
      | QS_PAINT \<Rightarrow>
          (let h = msgCheckHostedTree (pe_dsk_win e) (the (pRootMainWin q))
           in m\<lparr>hwnd := h, message := MSG_PAINT, wParam := 0, lParam := pe_inv_rgn e h, pSyncMsg := None\<rparr>)
      | QS_DESKTIMER \<Rightarrow> m\<lparr>hwnd := pe_dsk_win e, message := MSG_TIMEOUT, wParam := 0, lParam := 0\<rparr>
      | QS_INPUT \<Rightarrow> m)"

text \<open>What taking the message of a source does to the contents.\<close>

definition taken :: "syncs \<Rightarrow> bool \<Rightarrow> QS \<Rightarrow> MSGQUEUE \<Rightarrow> MSGQUEUE \<Rightarrow> bool" where
  "taken nodes remove f q q' \<longleftrightarrow>
     notify_msgs q' = (if remove \<and> f = QS_NOTIFYMSG then tl (notify_msgs q) else notify_msgs q)
     \<and> posted q' = (if remove \<and> f = QS_POSTMSG then tl (posted q) else posted q)
     \<and> pFirstSyncMsg q' = (if remove \<and> f = QS_SYNCMSG then pNext (nodes (the (pFirstSyncMsg q))) else pFirstSyncMsg q)
     \<and> timer_slots q' = timer_slots q \<and> expired_timer_mask q' = expired_timer_mask q"

lemma finite_QS [simp]: "finite (A :: QS set)"
proof (rule finite_subset)
  show "A \<subseteq> {QS_NOTIFYMSG, QS_SYNCMSG, QS_POSTMSG, QS_QUIT, QS_INPUT, QS_PAINT, QS_DESKTIMER}"
    using QS.exhaust by blast
qed simp

lemma posted_cleared [simp]: "posted (cleared S q) = posted q" "ring_inv (cleared S q) = ring_inv q"
  "timer_slots (cleared S q) = timer_slots q" "expired_timer_mask (cleared S q) = expired_timer_mask q"
  "msgs (cleared S q) = msgs q" "len (cleared S q) = len q" "loop_depth (cleared S q) = loop_depth q"
  "first_timer_slot (cleared S q) = first_timer_slot q"
  by (simp_all add: cleared_def posted_def ring_inv_def)

lemma posted_upd [simp]: "posted (q\<lparr>dwState := D\<rparr>) = posted q" "ring_inv (q\<lparr>dwState := D\<rparr>) = ring_inv q"
  "posted (q\<lparr>loop_depth := d\<rparr>) = posted q" "ring_inv (q\<lparr>loop_depth := d\<rparr>) = ring_inv q"
  "posted (q\<lparr>pFirstSyncMsg := p\<rparr>) = posted q" "ring_inv (q\<lparr>pFirstSyncMsg := p\<rparr>) = ring_inv q"
  "posted (q\<lparr>notify_msgs := ns\<rparr>) = posted q" "ring_inv (q\<lparr>notify_msgs := ns\<rparr>) = ring_inv q"
  by (simp_all add: posted_def ring_inv_def)

lemma serve_spec:
  assumes "f \<in> ready e q" "ring_inv q" "f \<notin> S"
  shows "\<exists>q'. serve e nodes hWnd remove m f (cleared S q) = Inl (if f = QS_QUIT then Quit else Got, offered e nodes hWnd m q f, q')
      \<and> ring_inv q' \<and> taken nodes remove f q q'"
proof (cases f)
  case QS_QUIT
  with assms show ?thesis
    by (auto simp: ready_def serve_def offered_def taken_def peek_quit_def Let_def)
next
  case QS_SYNCMSG
  with assms obtain p where "pFirstSyncMsg q = Some p" by (auto simp: ready_def)
  with QS_SYNCMSG assms show ?thesis
    by (cases remove) (auto simp: ready_def serve_def offered_def taken_def peek_sync_def Let_def)
next
  case QS_NOTIFYMSG
  with assms obtain x xs where "notify_msgs q = x # xs" by (auto simp: ready_def neq_Nil_conv)
  with QS_NOTIFYMSG assms show ?thesis
    by (cases remove) (auto simp: ready_def serve_def offered_def taken_def peek_notify_def Let_def)
next
  case QS_POSTMSG
  with assms have ne: "readpos (cleared S q) \<noteq> writepos (cleared S q)" by (simp add: ready_def)
  have inv: "ring_inv (cleared S q)" using assms by simp
  have hd: "hd (posted q) = msgs q ! readpos q"
    and tl: "tl (posted q) = posted ((cleared S q)\<lparr>readpos := (readpos q + 1) mod len q\<rparr>)"
    and inv': "ring_inv ((cleared S q)\<lparr>readpos := (readpos q + 1) mod len q\<rparr>)"
    using posted_advance [OF inv ne] by simp_all
  show ?thesis using QS_POSTMSG assms ne inv'
    by (cases remove) (auto simp: ready_def serve_def offered_def taken_def peek_post_def Let_def hd tl)
next
  case QS_PAINT
  with assms obtain root where "pRootMainWin q = Some root" "msgCheckHostedTree (pe_dsk_win e) root \<noteq> 0"
    by (auto simp: ready_def needs_paint_win_def split: option.splits)
  with QS_PAINT assms show ?thesis
    by (auto simp: ready_def serve_def offered_def taken_def peek_paint_def Let_def)
next
  case QS_DESKTIMER
  with assms show ?thesis
    by (auto simp: ready_def serve_def offered_def taken_def peek_desktimer_def)
next
  case QS_INPUT
  with assms show ?thesis by (simp add: ready_def)
qed

text \<open>C1: an unfiltered pass of \<open>PeekMessageEx\<close> serves the source that comes first in the order quit,
  synchronous, notification, posted, paint, desktop timer, among those that have something: it returns that
  source's oldest message, FALSE for quitting only, and takes out at most that message.\<close>

theorem PeekMessageEx_priority:
  assumes "ready e q \<noteq> {}" "ring_inv q" "pSyncMsg m = None" "QS_PAINT \<in> dwState q \<longrightarrow> pRootMainWin q \<noteq> None"
  shows "\<exists>q'. peek_pass e nodes hWnd 0 0 remove m q
      = Inl (if Min (ready e q) = QS_QUIT then Quit else Got, offered e nodes hWnd m q (Min (ready e q)), q')
    \<and> ring_inv q' \<and> taken nodes remove (Min (ready e q)) q q'"
proof -
  let ?f = "Min (ready e q)" and ?S = "{g. g < Min (ready e q)}"
  have f: "?f \<in> ready e q" and least: "\<And>g. g \<in> ready e q \<Longrightarrow> ?f \<le> g" using assms(1) by simp_all
  have pass: "peek_pass e nodes hWnd 0 0 remove m q = serve e nodes hWnd remove m ?f (cleared ?S q)"
    using assms(3,4) by (intro pass_serves [OF f least]) simp_all
  have "?f \<notin> ?S" by simp
  then show ?thesis unfolding pass by (rule serve_spec [OF f assms(2)])
qed

text \<open>A notification behind a paint request: the notification comes first.\<close>

definition plain_env :: peek_env where
  "plain_env = \<lparr>pe_is_dsk = False, pe_dsk_win = 1, pe_captured = 0, pe_frames = (\<lambda>_. []), pe_inv_rgn = (\<lambda>_. 0)\<rparr>"

definition notify_and_paint :: MSGQUEUE where
  "notify_and_paint = fresh_queue\<lparr>dwState := {QS_PAINT, QS_NOTIFYMSG}, notify_msgs := [zero_msg\<lparr>message := 9\<rparr>],
     pRootMainWin := Some (MAINWIN (CONTROL 3 False True []) 0 [])\<rparr>"

lemma fresh_queue_ring: "ring_inv fresh_queue"
  by (simp add: ring_inv_def fresh_queue_def InitMsgQueue_def DEF_MSGQUEUE_LEN_def zero_queue_def)

theorem PeekMessageEx_priority_witness:
  "\<exists>q'. peek_pass plain_env (fst one_sync) 3 0 0 True zero_msg notify_and_paint
      = Inl (Got, zero_msg\<lparr>message := 9\<rparr>, q') \<and> notify_msgs q' = []"
proof -
  have "f \<in> ready plain_env notify_and_paint \<longleftrightarrow> f = QS_NOTIFYMSG \<or> f = QS_PAINT" for f
    by (cases f) (simp_all add: ready_def notify_and_paint_def needs_paint_win_def plain_env_def HWND_NULL_def)
  then have ready: "ready plain_env notify_and_paint = {QS_NOTIFYMSG, QS_PAINT}" by blast
  have "QS_NOTIFYMSG \<le> QS_PAINT" by (simp add: less_eq_QS_def qs_rank_def)
  then have Min: "Min (ready plain_env notify_and_paint) = QS_NOTIFYMSG" unfolding ready by (simp add: min_def)
  have "ring_inv notify_and_paint" using fresh_queue_ring by (simp add: notify_and_paint_def ring_inv_def)
  from PeekMessageEx_priority [of plain_env notify_and_paint zero_msg "fst one_sync" 3 True, OF _ this]
  show ?thesis unfolding Min unfolding ready
    by (auto simp: offered_def taken_def zero_msg_def notify_and_paint_def)
qed

section \<open>Quitting\<close>

text \<open>One quit request is outstanding at most; \<open>loop_depth\<close> counts it.\<close>

definition quit_inv :: "MSGQUEUE \<Rightarrow> bool" where
  "quit_inv q \<longleftrightarrow> loop_depth q = (if QS_QUIT \<in> dwState q then 1 else 0)"

lemma quit_inv_cong:
  "loop_depth q' = loop_depth q \<Longrightarrow> QS_QUIT \<in> dwState q' \<longleftrightarrow> QS_QUIT \<in> dwState q \<Longrightarrow> quit_inv q' = quit_inv q"
  by (simp add: quit_inv_def)

definition step_queue :: "peek_step \<Rightarrow> MSGQUEUE" where
  "step_queue r = (case r of Inl (_, _, q) \<Rightarrow> q | Inr (_, q) \<Rightarrow> q)"

lemma step_queue_simps [simp]: "step_queue (Inl (x, m, q)) = q" "step_queue (Inr (m, q)) = q"
  by (simp_all add: step_queue_def)

lemma step_queue_or_else:
  "(\<And>m q. r = Inr (m, q) \<Longrightarrow> quit_inv q \<Longrightarrow> quit_inv (step_queue (f m q))) \<Longrightarrow> quit_inv (step_queue r) \<Longrightarrow>
     quit_inv (step_queue (or_else r f))"
  by (cases r) (auto simp: or_else_def step_queue_def split: prod.splits)

lemma quit_inv_steps:
  "quit_inv q \<Longrightarrow> quit_inv (step_queue (peek_quit hWnd remove m q))"
  "quit_inv q \<Longrightarrow> quit_inv (step_queue (peek_sync nodes lo hi remove m q))"
  "quit_inv q \<Longrightarrow> quit_inv (step_queue (peek_notify lo hi remove m q))"
  "quit_inv q \<Longrightarrow> quit_inv (step_queue (peek_post check lo hi remove m q))"
  "quit_inv q \<Longrightarrow> quit_inv (step_queue (peek_paint d inv_rgn lo hi m q))"
  "quit_inv q \<Longrightarrow> quit_inv (step_queue (peek_desktimer b d remove m q))"
  "quit_inv q \<Longrightarrow> quit_inv (step_queue (peek_timer lo hi m q))"
  by (auto simp: quit_inv_def peek_quit_def peek_sync_def peek_notify_def peek_post_def peek_paint_def
      peek_desktimer_def peek_timer_def Let_def split: option.split list.split)

lemma quit_inv_pass: "quit_inv q \<Longrightarrow> quit_inv (step_queue (peek_pass e nodes hWnd lo hi remove m q))"
  unfolding peek_pass_def by (intro step_queue_or_else quit_inv_steps)

text \<open>one posted quit request ends exactly one message loop. The request and every pass, filtered or
  not, keep the count of requests; repeating the request before it is seen changes nothing; the next
  removing pass returns FALSE with \<open>MSG_QUIT\<close> and leaves no request behind.\<close>

theorem quit_request_once:
  assumes "quit_inv q"
  shows "quit_inv (request_quit q) \<and> request_quit (request_quit q) = request_quit q
    \<and> quit_inv (step_queue (peek_pass e nodes hWnd lo hi remove m q))
    \<and> (\<exists>m' q'. peek_pass e nodes hWnd lo hi True m (request_quit q) = Inl (Quit, m', q')
          \<and> message m' = MSG_QUIT \<and> hwnd m' = hWnd \<and> QS_QUIT \<notin> dwState q' \<and> loop_depth q' = 0
          \<and> posted q' = posted q \<and> notify_msgs q' = notify_msgs q)"
proof -
  have "QS_QUIT \<in> dwState (request_quit q)" "loop_depth (request_quit q) = 1"
    using assms by (auto simp: quit_inv_def request_quit_def)
  moreover have "posted (request_quit q) = posted q" "notify_msgs (request_quit q) = notify_msgs q"
    by (simp_all add: request_quit_def posted_def)
  ultimately show ?thesis using quit_inv_pass [OF assms, of e nodes hWnd lo hi remove m]
    by (auto simp: quit_inv_def request_quit_def peek_pass_def peek_quit_def)
qed

theorem quit_request_once_witness:
  "\<exists>m' q'. peek_pass plain_env (fst one_sync) 3 0 0 True zero_msg (request_quit fresh_queue) = Inl (Quit, m', q')
     \<and> message m' = MSG_QUIT \<and> QS_QUIT \<notin> dwState q'"
proof -
  have "quit_inv fresh_queue" by (simp add: quit_inv_def fresh_queue_def InitMsgQueue_def zero_queue_def)
  from quit_request_once [OF this, of plain_env "fst one_sync" 3 0 0 True zero_msg] show ?thesis by blast
qed

text \<open>\<open>EmptyMessageQueue\<close> clears the flag of a pending request but not its count: the next request then ends
  two loops.\<close>

lemma quit_count_after_empty:
  "loop_depth q = 1 \<Longrightarrow> QS_QUIT \<notin> dwState q \<Longrightarrow>
     \<exists>m' q'. peek_pass e nodes hWnd lo hi True m (request_quit q) = Inl (Quit, m', q')
       \<and> QS_QUIT \<in> dwState q' \<and> loop_depth q' = 1"
  by (simp add: request_quit_def peek_pass_def peek_quit_def)

section \<open>Timers\<close>

lemma first_expired_found:
  assumes "msk \<noteq> 0" "first < DEF_NR_TIMERS"
  shows "\<exists>s. first_expired msk first = Some s \<and> s < DEF_NR_TIMERS \<and> bit msk s"
proof -
  obtain j where j: "bit msk j" using assms(1) bit_eqI [of msk 0] by auto
  then have "j < DEF_NR_TIMERS" using bit_imp_le_length [OF j] by (simp add: DEF_NR_TIMERS_def)
  then have "(first + (j + DEF_NR_TIMERS - first) mod DEF_NR_TIMERS) mod DEF_NR_TIMERS = j"
    using assms(2) by (simp add: mod_add_right_eq)
  then have "\<exists>i < DEF_NR_TIMERS. bit msk ((first + i) mod DEF_NR_TIMERS)"
    using j by (intro exI [of _ "(j + DEF_NR_TIMERS - first) mod DEF_NR_TIMERS"]) (simp add: DEF_NR_TIMERS_def)
  then have "first_expired msk first \<noteq> None" by (auto simp: first_expired_def find_None_iff)
  then obtain s where s: "first_expired msk first = Some s" by auto
  then have "bit msk s" "s \<in> set (map (\<lambda>i. (first + i) mod DEF_NR_TIMERS) [0..<DEF_NR_TIMERS])"
    unfolding first_expired_def by (auto simp: find_Some_iff)
  with s show ?thesis by (auto simp: DEF_NR_TIMERS_def)
qed

lemma first_expired_first:
  assumes "bit msk s" "s < DEF_NR_TIMERS"
  shows "first_expired msk s = Some s"
proof -
  have "[0..<DEF_NR_TIMERS] = 0 # [1..<DEF_NR_TIMERS]" by (simp add: DEF_NR_TIMERS_def upt_conv_Cons)
  then show ?thesis using assms by (simp add: first_expired_def)
qed

lemma peek_timer_next_slot:
  assumes "expired_timer_mask q \<noteq> 0" "IS_MSG_WANTED lo hi MSG_TIMER"
  shows "first_timer_slot (step_queue (peek_timer lo hi m q)) = (first_timer_slot q + 1) mod DEF_NR_TIMERS"
  using assms by (auto simp: peek_timer_def Let_def split: option.split)

text \<open>C28: no expired timer starves. Whatever else happens to the queue between the passes that reach the
  timers, a timer that stays flagged is served, by a message or a call of its procedure, within 64 such
  passes, and its flag is cleared.\<close>

theorem expired_timer_served:
  assumes s: "s < DEF_NR_TIMERS" "first_timer_slot (qs 0) < DEF_NR_TIMERS"
    and flagged: "\<And>i. bit (expired_timer_mask (qs i)) s" "\<And>i. timer_slots (qs i) ! s = Some (t i)"
    and wanted: "IS_MSG_WANTED lo hi MSG_TIMER"
    and step: "\<And>i. first_timer_slot (qs (Suc i)) = first_timer_slot (step_queue (peek_timer lo hi (ms i) (qs i)))"
  shows "\<exists>i < DEF_NR_TIMERS. \<exists>x m' q'. peek_timer lo hi (ms i) (qs i) = Inl (x, m', q')
    \<and> \<not> bit (expired_timer_mask q') s
    \<and> (if tm_proc (t i) = None then x = Got \<and> message m' = MSG_TIMER \<and> hwnd m' = tm_hWnd (t i)
                                  \<and> lParam m' = ticks_fired (t i)
       else x = Call s (t i))"
proof -
  have ne: "expired_timer_mask (qs i) \<noteq> 0" for i using flagged(1) [of i] by auto
  have at: "first_timer_slot (qs i) = (first_timer_slot (qs 0) + i) mod DEF_NR_TIMERS" for i
  proof (induction i)
    case (Suc i)
    then show ?case unfolding step peek_timer_next_slot [OF ne wanted] by (simp add: mod_Suc_eq)
  qed (use s(2) in simp)
  define i where "i = (s + DEF_NR_TIMERS - first_timer_slot (qs 0)) mod DEF_NR_TIMERS"
  have i: "i < DEF_NR_TIMERS" by (simp add: i_def DEF_NR_TIMERS_def)
  have "(first_timer_slot (qs 0) + i) mod DEF_NR_TIMERS = s" using s by (simp add: i_def mod_add_right_eq)
  then have "first_timer_slot (qs i) = s" using at [of i] by metis
  then have found: "first_expired (expired_timer_mask (qs i)) (first_timer_slot (qs i)) = Some s"
    using first_expired_first [OF flagged(1) s(1)] by simp
  have "peek_timer lo hi (ms i) (qs i) =
      Inl (if tm_proc (t i) = None then Got else Call s (t i),
           if tm_proc (t i) = None
           then (ms i)\<lparr>message := MSG_TIMER, hwnd := tm_hWnd (t i), wParam := word_of_int (tm_id (t i)),
                       lParam := ticks_fired (t i), pSyncMsg := None\<rparr> else ms i,
           (qs i)\<lparr>first_timer_slot := (first_timer_slot (qs i) + 1) mod DEF_NR_TIMERS,
                  expired_timer_mask := expired_timer_mask (qs i) AND NOT (slot_bit s)\<rparr>)"
    using ne wanted found flagged(2) by (simp add: peek_timer_def Let_def)
  then show ?thesis using i by (intro exI [of _ i]) simp
qed

lemma one_timer_slot:
  "timer_slots (one_timer q) ! 3 = Some \<lparr>tm_hWnd = 7, tm_id = 1, interv = 20, ticks_expected = 120,
     ticks_fired = 0, tm_proc = None\<rparr>"
  "bit (expired_timer_mask (one_timer q)) 3"
  using bit_mask_or [of 3 0 3] by (simp_all add: one_timer_def no_timers_def DEF_NR_TIMERS_def)

theorem expired_timer_served_witness:
  "\<exists>i < DEF_NR_TIMERS. \<exists>x m' q'.
     peek_timer 0 0 zero_msg ((one_timer fresh_queue)\<lparr>first_timer_slot := i\<rparr>) = Inl (x, m', q')
     \<and> message m' = MSG_TIMER \<and> hwnd m' = 7"
proof -
  let ?q = "\<lambda>i. (one_timer fresh_queue)\<lparr>first_timer_slot := i mod DEF_NR_TIMERS\<rparr>"
  have bit: "bit (expired_timer_mask (?q i)) 3" for i by (simp add: one_timer_slot)
  then have ne: "expired_timer_mask (?q i) \<noteq> 0" for i by (metis bit_0_eq bot_apply bot_bool_def)
  have slot: "timer_slots (?q i) ! 3 = Some \<lparr>tm_hWnd = 7, tm_id = 1, interv = 20, ticks_expected = 120,
     ticks_fired = 0, tm_proc = None\<rparr>" for i by (simp add: one_timer_slot)
  have "first_timer_slot (step_queue (peek_timer 0 0 zero_msg (?q i))) = (first_timer_slot (?q i) + 1) mod DEF_NR_TIMERS" for i
    by (rule peek_timer_next_slot [OF ne wanted_any])
  then have "first_timer_slot (?q (Suc i)) = first_timer_slot (step_queue (peek_timer 0 0 zero_msg (?q i)))" for i
    by (simp add: mod_Suc_eq)
  from expired_timer_served [of 3 ?q "\<lambda>_. \<lparr>tm_hWnd = 7, tm_id = 1, interv = 20, ticks_expected = 120,
     ticks_fired = 0, tm_proc = None\<rparr>" 0 0 "\<lambda>_. zero_msg", OF _ _ bit slot wanted_any this]
  obtain i x m' q' where i: "i < DEF_NR_TIMERS" and served: "peek_timer 0 0 zero_msg (?q i) = Inl (x, m', q')"
    "message m' = MSG_TIMER" "hwnd m' = 7"
    by (auto simp: DEF_NR_TIMERS_def)
  have "peek_timer 0 0 zero_msg ((one_timer fresh_queue)\<lparr>first_timer_slot := i\<rparr>) = Inl (x, m', q')"
    using served(1) i by simp
  with i served(2,3) show ?thesis by blast
qed

section \<open>Returning\<close>

text \<open>The steps before the timers call no procedure and leave the timers alone.\<close>

definition no_call :: "MSGQUEUE \<Rightarrow> peek_step \<Rightarrow> bool" where
  "no_call q r \<longleftrightarrow> (case r of Inl (x, _, _) \<Rightarrow> (\<forall>s t. x \<noteq> Call s t)
     | Inr (_, q') \<Rightarrow> expired_timer_mask q' = expired_timer_mask q)"

lemma no_call_or_else:
  "no_call q r \<Longrightarrow> (\<And>m q'. expired_timer_mask q' = expired_timer_mask q \<Longrightarrow> no_call q (f m q')) \<Longrightarrow> no_call q (or_else r f)"
proof (cases r)
  case (Inr b)
  assume r: "no_call q r" and f: "\<And>m q'. expired_timer_mask q' = expired_timer_mask q \<Longrightarrow> no_call q (f m q')"
  obtain m q' where b: "b = (m, q')" by (cases b)
  have "expired_timer_mask q' = expired_timer_mask q" using r Inr b by (simp add: no_call_def)
  then show ?thesis unfolding Inr b by (simp add: f)
qed (simp add: or_else_def)

lemma no_call_steps:
  assumes "expired_timer_mask q' = expired_timer_mask q"
  shows "no_call q (peek_quit hWnd remove m q')" "no_call q (peek_sync nodes lo hi remove m q')"
    "no_call q (peek_notify lo hi remove m q')" "no_call q (peek_post check lo hi remove m q')"
    "no_call q (peek_paint d inv_rgn lo hi m q')" "no_call q (peek_desktimer b d remove m q')"
  using assms by (auto simp: no_call_def peek_quit_def peek_sync_def peek_notify_def peek_post_def peek_paint_def
      peek_desktimer_def Let_def split: option.split list.split)

lemma peek_timer_call:
  assumes "peek_timer lo hi m q = Inl (Call slot t, m1, q1)"
  shows "bit (expired_timer_mask q) slot \<and> expired_timer_mask q1 = expired_timer_mask q AND NOT (slot_bit slot)"
proof -
  have go: "expired_timer_mask q \<noteq> 0 \<and> IS_MSG_WANTED lo hi MSG_TIMER"
    using assms by (cases "expired_timer_mask q \<noteq> 0 \<and> IS_MSG_WANTED lo hi MSG_TIMER") (simp_all add: peek_timer_def)
  show ?thesis
  proof (cases "first_expired (expired_timer_mask q) (first_timer_slot q)")
    case None
    with assms go show ?thesis by (simp add: peek_timer_def Let_def)
  next
    case (Some s)
    then have "bit (expired_timer_mask q) s" by (auto simp: first_expired_def find_Some_iff)
    moreover obtain u where u: "timer_slots q ! s = Some u"
      using assms go Some by (cases "timer_slots q ! s") (simp_all add: peek_timer_def Let_def)
    moreover have "s = slot \<and> expired_timer_mask q1 = expired_timer_mask q AND NOT (slot_bit s)"
      using assms go Some u by (cases "tm_proc u") (auto simp: peek_timer_def Let_def)
    ultimately show ?thesis by simp
  qed
qed

lemma pass_call:
  assumes "peek_pass e nodes hWnd lo hi remove m q = Inl (Call slot t, m1, q1)"
  shows "bit (expired_timer_mask q) slot \<and> expired_timer_mask q1 = expired_timer_mask q AND NOT (slot_bit slot)"
proof -
  have "\<exists>r. peek_pass e nodes hWnd lo hi remove m q = or_else r (peek_timer lo hi) \<and> no_call q r"
    unfolding peek_pass_def by (intro exI conjI, rule refl) (intro no_call_or_else no_call_steps; simp)
  then obtain r where pass: "peek_pass e nodes hWnd lo hi remove m q = or_else r (peek_timer lo hi)"
    and r: "no_call q r" by blast
  show ?thesis
  proof (cases r)
    case (Inl x)
    with assms pass r show ?thesis by (cases x) (simp add: no_call_def)
  next
    case (Inr x)
    obtain m' q' where x: "x = (m', q')" by (cases x)
    have "expired_timer_mask q' = expired_timer_mask q" using r Inr x by (simp add: no_call_def)
    moreover have "peek_timer lo hi m' q' = Inl (Call slot t, m1, q1)" using assms pass Inr x by simp
    ultimately show ?thesis using peek_timer_call by metis
  qed
qed

definition flags :: "MSGQUEUE \<Rightarrow> nat set" where
  "flags q = {j. bit (expired_timer_mask q) j}"

lemma finite_flags [simp]: "finite (flags q)"
  by (rule finite_subset [of _ "{..<64}"]) (auto simp: flags_def dest: bit_imp_le_length)

lemma flags_remove_timer [simp]: "flags (remove_timer q i) = flags q"
  by (simp add: flags_def remove_timer_def set_slot_def)

text \<open>C31: \<open>PeekMessage\<close> without waiting returns, whatever the timer procedures and the idle handler do,
  provided that no procedure flags a timer: each call takes one flag away.\<close>

theorem PeekMessage_returns:
  assumes "\<And>t q. flags (snd (proc t q)) \<subseteq> flags q"
  shows "\<exists>r. PeekMessage e nodes proc idle idle_msg wins tick hWnd lo hi remove pMsg q = Some r"
proof -
  have "\<exists>r. peek_nowait e nodes proc idle idle_msg hWnd lo hi remove m q = Some r" for m q
  proof (induction "card (flags q)" arbitrary: m q rule: less_induct)
    case less
    show ?case
    proof (cases "peek_pass e nodes hWnd lo hi remove m q")
      case (Inr r)
      then show ?thesis by (subst peek_nowait.simps) (auto split: prod.split)
    next
      case (Inl r)
      obtain x m1 q1 where r: "r = (x, m1, q1)" by (cases r)
      show ?thesis
      proof (cases x)
        case (Call slot t)
        obtain keep q2 where p: "proc t q1 = (keep, q2)" by (cases "proc t q1")
        note call = pass_call [OF Inl [unfolded r Call]]
        have "flags q1 = flags q - {slot}" using call by (auto simp: flags_def)
        moreover have "slot \<in> flags q" using call by (simp add: flags_def)
        ultimately have "flags q2 \<subset> flags q" using assms [of t q1] p by auto
        then have less': "card (flags q2) < card (flags q)" by (intro psubset_card_mono) simp_all
        let ?q3 = "if keep then q2 else remove_timer q2 (int slot)"
        have "card (flags ?q3) < card (flags q)" using less' by simp
        from less [OF this] obtain r' where
          "peek_nowait e nodes proc idle idle_msg hWnd lo hi remove m1 ?q3 = Some r'" by blast
        then show ?thesis by (subst peek_nowait.simps) (simp add: Inl r Call p)
      qed (subst peek_nowait.simps, simp add: Inl r)+
    qed
  qed
  then show ?thesis by (simp add: PeekMessage_def)
qed

theorem PeekMessage_returns_witness:
  "\<exists>r. PeekMessage plain_env (fst one_sync) (\<lambda>t q. (False, q)) (\<lambda>q. (False, q)) (\<lambda>q. q) Map.empty 7 1 0 0 True zero_msg
     (one_timer fresh_queue) = Some r"
  by (rule PeekMessage_returns) simp

section \<open>Pending messages and waiting\<close>

text \<open>Whatever a pass would serve is reported as pending, and ends a wait; a wait ends for nothing else.\<close>

lemma HavePendingMessageEx_ready:
  "ready e q \<noteq> {} \<Longrightarrow> HavePendingMessageEx (pe_is_dsk e) idle q False = (True, q) \<and> wait_over (pe_is_dsk e) q"
proof -
  assume "ready e q \<noteq> {}"
  then obtain f where "f \<in> ready e q" by blast
  then show ?thesis
    by (cases f) (auto simp: ready_def HavePendingMessageEx_def wait_over_def some_pending_def)
qed

lemma wait_loop_over:
  assumes "wait_loop is_dsk idle idle_msg env i q = Some q'"
  shows "wait_over is_dsk q'"
proof (rule wait_loop.raw_induct [where P = "\<lambda>d idle idle_msg env i q y. wait_over d y", OF _ assms])
  fix wl d idle idle_msg env i q y
  assume IH: "\<And>d idle idle_msg env i q y. wl d idle idle_msg env i q = Some y \<Longrightarrow> wait_over d y"
    and step: "(if wait_over d q then Some q
      else Option.bind (wait_step idle idle_msg env i q) (\<lambda>(i', q2). wl d idle idle_msg env i' q2)) = Some y"
  show "wait_over d y"
    using step IH by (cases "wait_over d q") (auto simp: bind_eq_Some_conv)
qed

lemma WaitMessage_over: "WaitMessage wins self is_dsk idle idle_msg env h q = Some (True, q') \<Longrightarrow> wait_over is_dsk q'"
  by (auto simp: WaitMessage_def wait_loop_over split: if_splits)

text \<open>The desktop timer step looks neither at the filter nor at the \<open>pSyncMsg\<close> that an unwanted synchronous
  message has left in the caller's message: the timer message then names a sender that still waits in the
  queue, and dispatching it would release that sender.\<close>

lemma desktimer_carries_sync:
  assumes "pe_is_dsk e" "dwState q = {QS_SYNCMSG, QS_DESKTIMER}" "pFirstSyncMsg q = Some p"
    and "\<not> IS_MSG_WANTED lo hi (message (sMsg (nodes p)))"
  shows "\<exists>m' q'. peek_pass e nodes hWnd lo hi remove m q = Inl (Got, m', q')
    \<and> message m' = MSG_TIMEOUT \<and> pSyncMsg m' = Some p \<and> pFirstSyncMsg q' = Some p"
  using assms by (simp add: peek_pass_def peek_quit_def peek_sync_def peek_notify_def peek_post_def
      peek_paint_def peek_desktimer_def Let_def)

end
