(* ===== verification/MG_ZOrderData.thy ===== *)
theory MG_ZOrderData
  imports MG_SlotSet MG_KernelData MG_RegionAlg
begin

text \<open>
  The z-order of \<open>src/include/zorder.h\<close>, \<open>src/kernel/zorder.c\<close> and
  \<open>src/kernel/desktop.c\<close>: the nodes of the main windows in seven levels, each level a doubly linked
  list through indices of one array of nodes, the masks of irregular windows, and the bitmaps that
  record which nodes and mask rectangles are in use.

  The build is MiniGUI-Threads, which keeps one \<open>ZORDERINFO\<close> and draws to the frame buffer without
  a compositor. The arrays that follow the structure in its block are fields of the record. The
  union of \<open>first_in_levels\<close> with \<open>first_tooltip\<close>, \<open>first_global\<close> and so on is the list.
\<close>

section \<open>Flags\<close>

definition ZOF_VISIBLE :: dword where "ZOF_VISIBLE = 0x00000001"
definition ZOF_DISABLED :: dword where "ZOF_DISABLED = 0x00000002"
definition ZOF_MAXIMIZED :: dword where "ZOF_MAXIMIZED = 0x00000004"
definition ZOF_MINIMIZED :: dword where "ZOF_MINIMIZED = 0x00000008"
definition ZOF_GESTURE_FLAGS_MASK :: dword where "ZOF_GESTURE_FLAGS_MASK = 0x000000F0"
definition ZOF_IF_REFERENCE :: dword where "ZOF_IF_REFERENCE = 0x00010000"
definition ZOF_IF_ALWAYSTOP :: dword where "ZOF_IF_ALWAYSTOP = 0x00020000"
definition ZOF_IF_SPECIAL :: dword where "ZOF_IF_SPECIAL = 0x00040000"
definition ZOF_TW_TROUNDCNS :: dword where "ZOF_TW_TROUNDCNS = 0x00100000"
definition ZOF_TW_BROUNDCNS :: dword where "ZOF_TW_BROUNDCNS = 0x00200000"
definition ZOF_TF_MAINWIN :: dword where "ZOF_TF_MAINWIN = 0x01000000"
definition ZOF_TF_TOOLWIN :: dword where "ZOF_TF_TOOLWIN = 0x02000000"
definition ZOF_TF_CONTROL :: dword where "ZOF_TF_CONTROL = 0x04000000"
definition ZOF_TYPE_MASK :: dword where "ZOF_TYPE_MASK = 0xF0000000"
definition ZOF_TYPE_DESKTOP :: dword where "ZOF_TYPE_DESKTOP = 0x10000000"
definition ZOF_TYPE_LAUNCHER :: dword where "ZOF_TYPE_LAUNCHER = 0x20000000"
definition ZOF_TYPE_NORMAL :: dword where "ZOF_TYPE_NORMAL = 0x30000000"
definition ZOF_TYPE_HIGHER :: dword where "ZOF_TYPE_HIGHER = 0x40000000"
definition ZOF_TYPE_DOCKER :: dword where "ZOF_TYPE_DOCKER = 0x50000000"
definition ZOF_TYPE_SCREENLOCK :: dword where "ZOF_TYPE_SCREENLOCK = 0x60000000"
definition ZOF_TYPE_GLOBAL :: dword where "ZOF_TYPE_GLOBAL = 0x70000000"
definition ZOF_TYPE_TOOLTIP :: dword where "ZOF_TYPE_TOOLTIP = 0x80000000"
definition ZOF_TYPE_POPUPMENU :: dword where "ZOF_TYPE_POPUPMENU = 0x90000000"

lemmas zof_type_defs = ZOF_TYPE_DESKTOP_def ZOF_TYPE_LAUNCHER_def ZOF_TYPE_NORMAL_def
  ZOF_TYPE_HIGHER_def ZOF_TYPE_DOCKER_def ZOF_TYPE_SCREENLOCK_def ZOF_TYPE_GLOBAL_def
  ZOF_TYPE_TOOLTIP_def ZOF_TYPE_POPUPMENU_def ZOF_TYPE_MASK_def

section \<open>Records\<close>

text \<open>The links of a mask rectangle are indices of the array of mask rectangles, 0 for none.\<close>

record MASKRECT =
  mr_left :: "16 word"
  mr_top :: "16 word"
  mr_right :: "16 word"
  mr_bottom :: "16 word"
  mr_next :: nat
  mr_prev :: nat

record ZORDERNODE =
  zn_flags :: dword
  zn_caption :: "string option"
  zn_hwnd :: HWND
  zn_main_win :: HWND
  zn_rc :: RECT
  zn_cli :: int
  zn_lock_count :: nat
  zn_age :: dword
  zn_dirty_rc :: RECT
  idx_mask_rect :: nat
  zn_next :: nat
  zn_prev :: nat

type_synonym znodes = "nat \<Rightarrow> ZORDERNODE"

record ZORDERINFO =
  max_nr_popupmenus :: nat
  max_nr_nodes_in_levels :: "nat list"
  nr_popupmenus :: nat
  nr_nodes_in_levels :: "int list"
  first_in_levels :: "nat list"
  active_win :: nat
  old_active :: nat
  next_active :: nat
  cli_trackmenu :: int
  ptmi_in_cli :: HWND
  zi_usage_bmp :: "u8 list"
  menu_nodes :: znodes
  nodes_of :: znodes
  maskrect_usage_bmp :: "u8 list"
  maskrects :: "nat \<Rightarrow> MASKRECT"

text \<open>What the desktop module sends out, in order: updates of windows, messages to their queues,
  requests to the desktop window.\<close>

datatype ZEVENT = UpdateWindow HWND RECT | PostMsg HWND nat dword | EraseDesktop RECT | CloseMenu

text \<open>The other globals of the module: the regions, of which \<open>Rgn 0\<close> is \<open>sg_UpdateRgn\<close>, the
  rectangle of the screen, the window of the input method.\<close>

record DESKTOP = ZORDERINFO +
  d_rgns :: rgns
  d_screen :: RECT
  d_ime_wnd :: HWND
  d_events :: "ZEVENT list"

section \<open>Levels\<close>

definition ZLIDX_TOOLTIP :: nat where [simp]: "ZLIDX_TOOLTIP = 0"
definition ZLIDX_GLOBAL :: nat where [simp]: "ZLIDX_GLOBAL = 1"
definition ZLIDX_SCREENLOCK :: nat where [simp]: "ZLIDX_SCREENLOCK = 2"
definition ZLIDX_DOCKER :: nat where [simp]: "ZLIDX_DOCKER = 3"
definition ZLIDX_TOPMOST :: nat where [simp]: "ZLIDX_TOPMOST = 4"
definition ZLIDX_NORMAL :: nat where [simp]: "ZLIDX_NORMAL = 5"
definition ZLIDX_LAUNCHER :: nat where [simp]: "ZLIDX_LAUNCHER = 6"
definition NR_ZORDER_LEVELS :: nat where [simp]: "NR_ZORDER_LEVELS = 7"

definition ZOF_TYPE_TO_LEVEL_IDX :: "dword \<Rightarrow> int" where
  "ZOF_TYPE_TO_LEVEL_IDX ty = sint (ucast (8 - drop_bit 28 ty) :: 32 word)"

definition IS_TYPE_SPECIAL :: "dword \<Rightarrow> bool" where
  "IS_TYPE_SPECIAL ty \<longleftrightarrow> ty = ZOF_TYPE_GLOBAL \<or> ty = ZOF_TYPE_SCREENLOCK
     \<or> ty = ZOF_TYPE_DOCKER \<or> ty = ZOF_TYPE_LAUNCHER"

text \<open>The table has type \<open>int\<close>, so its first entry is negative, and an entry that is compared with a
  \<open>DWORD\<close> is extended with its sign.\<close>

definition zof_types_for_level :: "32 word list" where
  "zof_types_for_level = map ucast [ZOF_TYPE_TOOLTIP, ZOF_TYPE_GLOBAL, ZOF_TYPE_SCREENLOCK,
     ZOF_TYPE_DOCKER, ZOF_TYPE_HIGHER, ZOF_TYPE_NORMAL, ZOF_TYPE_LAUNCHER]"

definition zof_type_for_level :: "nat \<Rightarrow> dword" where
  "zof_type_for_level l = scast (zof_types_for_level ! l)"

definition zts_for_level :: "32 word list" where
  "zts_for_level = [0x80, 0x40, 0x20, 0x10, 0x08, 0x04, 0x02]"

definition zn_type :: "ZORDERNODE \<Rightarrow> dword" where
  "zn_type n = zn_flags n AND ZOF_TYPE_MASK"

definition has_flag :: "dword \<Rightarrow> ZORDERNODE \<Rightarrow> bool" where
  "has_flag f n \<longleftrightarrow> zn_flags n AND f \<noteq> 0"

abbreviation visible :: "ZORDERNODE \<Rightarrow> bool" where "visible \<equiv> has_flag ZOF_VISIBLE"
abbreviation always_top :: "ZORDERNODE \<Rightarrow> bool" where "always_top \<equiv> has_flag ZOF_IF_ALWAYSTOP"

section \<open>Sizes\<close>

definition NR_FIXED_ZNODES :: nat where [simp]: "NR_FIXED_ZNODES = 1"
definition DEF_NR_POPUPMENUS :: nat where [simp]: "DEF_NR_POPUPMENUS = 16"
definition DEF_NR_TOOLTIPS :: nat where [simp]: "DEF_NR_TOOLTIPS = 16"
definition DEF_NR_GLOBALS :: nat where [simp]: "DEF_NR_GLOBALS = 15"
definition DEF_NR_SCREENLOCKS :: nat where [simp]: "DEF_NR_SCREENLOCKS = 8"
definition DEF_NR_DOCKERS :: nat where [simp]: "DEF_NR_DOCKERS = 8"
definition DEF_NR_LAUNCHERS :: nat where [simp]: "DEF_NR_LAUNCHERS = 8"
definition DEF_NR_MASKRECTS :: nat where [simp]: "DEF_NR_MASKRECTS = 1024"

definition MAX_NR_SPECIAL_ZNODES :: "'a ZORDERINFO_scheme \<Rightarrow> nat" where
  "MAX_NR_SPECIAL_ZNODES zi = max_nr_nodes_in_levels zi ! ZLIDX_GLOBAL
     + max_nr_nodes_in_levels zi ! ZLIDX_SCREENLOCK + max_nr_nodes_in_levels zi ! ZLIDX_DOCKER
     + max_nr_nodes_in_levels zi ! ZLIDX_LAUNCHER + NR_FIXED_ZNODES"

definition MAX_NR_GENERAL_ZNODES :: "'a ZORDERINFO_scheme \<Rightarrow> nat" where
  "MAX_NR_GENERAL_ZNODES zi = max_nr_nodes_in_levels zi ! ZLIDX_TOOLTIP
     + max_nr_nodes_in_levels zi ! ZLIDX_TOPMOST + max_nr_nodes_in_levels zi ! ZLIDX_NORMAL"

definition MAX_NR_ZNODES :: "'a ZORDERINFO_scheme \<Rightarrow> nat" where
  "MAX_NR_ZNODES zi = MAX_NR_SPECIAL_ZNODES zi + MAX_NR_GENERAL_ZNODES zi"

text \<open>\<open>>> 3\<close> and \<open>ROUND_TO_MULTIPLE (n, 8)\<close> on non-negative numbers.\<close>

definition LEN_USAGE_BMP_GENERAL :: "'a ZORDERINFO_scheme \<Rightarrow> nat" where
  "LEN_USAGE_BMP_GENERAL zi = (7 + MAX_NR_GENERAL_ZNODES zi) div 8"

definition LEN_USAGE_BMP_SPECIAL :: "'a ZORDERINFO_scheme \<Rightarrow> nat" where
  "LEN_USAGE_BMP_SPECIAL zi = (7 + MAX_NR_SPECIAL_ZNODES zi) div 8"

definition ROUND_TO_MULTIPLE_8 :: "nat \<Rightarrow> nat" where
  "ROUND_TO_MULTIPLE_8 n = (n + 7) div 8 * 8"

definition SIZE_USAGE_BMP :: "nat \<Rightarrow> nat \<Rightarrow> nat \<Rightarrow> nat" where
  "SIZE_USAGE_BMP g t n = ROUND_TO_MULTIPLE_8
     ((7 + DEF_NR_TOOLTIPS + t + n) div 8
      + (7 + g + DEF_NR_SCREENLOCKS + DEF_NR_DOCKERS + DEF_NR_LAUNCHERS + NR_FIXED_ZNODES) div 8)"

definition SIZE_MASKRECT_USAGE_BMP :: nat where
  "SIZE_MASKRECT_USAGE_BMP = ROUND_TO_MULTIPLE_8 (DEF_NR_MASKRECTS div 8)"

definition IS_INVALID_ZIDX :: "'a ZORDERINFO_scheme \<Rightarrow> int \<Rightarrow> bool" where
  "IS_INVALID_ZIDX zi idx \<longleftrightarrow> idx > int (MAX_NR_ZNODES zi) \<or> idx < 0"

section \<open>Set-up\<close>

text \<open>The block comes from \<open>malloc\<close>: \<open>mem\<close>, \<open>menus\<close> and \<open>masks\<close> are what its arrays hold before,
  \<open>oa\<close> and \<open>na\<close> the two fields the function leaves alone. The desktop part is set by
  \<open>InitWndManagementInfo\<close>.\<close>

text \<open>\<open>HWND_DESKTOP\<close> is the variable \<open>__mg_hwnd_desktop\<close>, still zero when the set-up runs.\<close>

definition HWND_DESKTOP :: HWND where "HWND_DESKTOP = 0"

definition desktop_znode :: "RECT \<Rightarrow> ZORDERNODE \<Rightarrow> ZORDERNODE" where
  "desktop_znode g_rcScr n = n\<lparr>zn_flags := ZOF_TYPE_DESKTOP OR ZOF_VISIBLE, zn_rc := g_rcScr, zn_age := 0,
     zn_cli := 0, zn_hwnd := HWND_DESKTOP, zn_next := 0, zn_prev := 0, idx_mask_rect := 0\<rparr>"

definition kernel_alloc_z_order_info ::
  "nat \<Rightarrow> nat \<Rightarrow> RECT \<Rightarrow> znodes \<Rightarrow> znodes \<Rightarrow> (nat \<Rightarrow> MASKRECT) \<Rightarrow> nat \<Rightarrow> nat \<Rightarrow> rgns \<Rightarrow> DESKTOP" where
  "kernel_alloc_z_order_info nr_topmosts nr_normals g_rcScr mem menus masks oa na rg =
     \<lparr>max_nr_popupmenus = DEF_NR_POPUPMENUS,
      max_nr_nodes_in_levels = [DEF_NR_TOOLTIPS, DEF_NR_GLOBALS, DEF_NR_SCREENLOCKS, DEF_NR_DOCKERS,
        nr_topmosts, nr_normals, DEF_NR_LAUNCHERS],
      nr_popupmenus = 0, nr_nodes_in_levels = [0, 0, 0, 0, 0, 0, 0],
      first_in_levels = [0, 0, 0, 0, 0, 0, 0], active_win = 0, old_active = oa, next_active = na,
      cli_trackmenu = - 1, ptmi_in_cli = - 1,
      zi_usage_bmp = slot_set_use (replicate (SIZE_USAGE_BMP DEF_NR_GLOBALS nr_topmosts nr_normals) 0xFF) 0,
      menu_nodes = menus, nodes_of = mem(0 := desktop_znode g_rcScr (mem 0)),
      maskrect_usage_bmp = slot_set_use (replicate SIZE_MASKRECT_USAGE_BMP 0xFF) 0,
      maskrects = masks, d_rgns = rg, d_screen = g_rcScr, d_ime_wnd = HWND_NULL, d_events = []\<rparr>"

section \<open>Walking the levels\<close>

text \<open>A \<open>for\<close> loop along the \<open>next\<close> links that calls \<open>cb\<close> on every node until it meets \<open>stop\<close>, and counts
  the calls that answer TRUE. No level has more nodes than the array, so \<open>MAX_NR_ZNODES\<close> rounds are
  enough for a list that ends.\<close>

fun for_chain ::
  "nat \<Rightarrow> nat \<Rightarrow> ('c \<Rightarrow> ZORDERNODE \<Rightarrow> bool \<times> 'c \<times> ZORDERNODE) \<Rightarrow> nat \<Rightarrow> 'c \<times> znodes \<times> int \<Rightarrow> 'c \<times> znodes \<times> int" where
  "for_chain 0 stop cb slot r = r"
| "for_chain (Suc k) stop cb slot r =
     (if slot = stop then r
      else case r of (c, ns, count) \<Rightarrow>
        (case cb c (ns slot) of (b, c', n) \<Rightarrow>
           let ns' = ns(slot := n)
           in for_chain k stop cb (zn_next (ns' slot)) (c', ns', if b then count + 1 else count)))"

definition do_for_all_znodes ::
  "('c \<Rightarrow> ZORDERNODE \<Rightarrow> bool \<times> 'c \<times> ZORDERNODE) \<Rightarrow> 32 word \<Rightarrow> 'c \<Rightarrow> 'a ZORDERINFO_scheme
     \<Rightarrow> 'c \<times> znodes \<times> int" where
  "do_for_all_znodes cb types c zi =
     foldl (\<lambda>r level. if types AND zts_for_level ! level \<noteq> 0
                     then for_chain (MAX_NR_ZNODES zi) 0 cb (first_in_levels zi ! level) r else r)
       (c, nodes_of zi, 0) [0..<NR_ZORDER_LEVELS]"

text \<open>The cascade of tests for the first level that has a node.\<close>

fun first_of :: "nat list \<Rightarrow> nat" where
  "first_of [] = 0"
| "first_of (f # fs) = (if f = 0 then first_of fs else f)"

definition kernel_get_next_znode :: "'a ZORDERINFO_scheme \<Rightarrow> int \<Rightarrow> int" where
  "kernel_get_next_znode zi from =
     (let firsts = first_in_levels zi; ns = nodes_of zi; n = ns (nat from); ty = zn_type n
      in if from \<le> 0 then int (first_of firsts)
         else if zn_next n > 0 then int (zn_next n)
         else if ty = ZOF_TYPE_TOOLTIP then int (first_of (drop ZLIDX_GLOBAL firsts))
         else if ty = ZOF_TYPE_GLOBAL then int (first_of (drop ZLIDX_SCREENLOCK firsts))
         else if ty = ZOF_TYPE_SCREENLOCK then int (first_of (drop ZLIDX_DOCKER firsts))
         else if ty = ZOF_TYPE_DOCKER then int (first_of (drop ZLIDX_TOPMOST firsts))
         else if ty = ZOF_TYPE_HIGHER then int (first_of (drop ZLIDX_NORMAL firsts))
         else if ty = ZOF_TYPE_NORMAL then int (firsts ! ZLIDX_LAUNCHER)
         else - 1)"

text \<open>The end of a list, with the number of nodes as fuel, and the cascade upwards.\<close>

fun last_in_chain :: "nat \<Rightarrow> znodes \<Rightarrow> nat \<Rightarrow> nat" where
  "last_in_chain 0 ns prev = prev"
| "last_in_chain (Suc k) ns prev =
     (if zn_next (ns prev) \<noteq> 0 then last_in_chain k ns (zn_next (ns prev)) else prev)"

fun last_of :: "nat \<Rightarrow> znodes \<Rightarrow> nat list \<Rightarrow> nat" where
  "last_of k ns [] = 0"
| "last_of k ns (f # fs) = (if f \<noteq> 0 then last_in_chain k ns f else last_of k ns fs)"

definition kernel_get_prev_znode :: "'a ZORDERINFO_scheme \<Rightarrow> int \<Rightarrow> int" where
  "kernel_get_prev_znode zi from =
     (let firsts = first_in_levels zi; ns = nodes_of zi; n = ns (nat from); ty = zn_type n;
          up = (\<lambda>l. int (last_of (MAX_NR_ZNODES zi) ns (rev (take l firsts))))
      in if from \<le> 0 then up NR_ZORDER_LEVELS
         else if zn_prev n > 0 then int (zn_prev n)
         else if ty = ZOF_TYPE_LAUNCHER then up ZLIDX_LAUNCHER
         else if ty = ZOF_TYPE_NORMAL then up ZLIDX_NORMAL
         else if ty = ZOF_TYPE_HIGHER then up ZLIDX_TOPMOST
         else if ty = ZOF_TYPE_DOCKER then up ZLIDX_DOCKER
         else if ty = ZOF_TYPE_SCREENLOCK then up ZLIDX_SCREENLOCK
         else if ty = ZOF_TYPE_GLOBAL then up ZLIDX_GLOBAL
         else - 1)"

text \<open>The search for the next window that can be active; it advances along the order, so the number
  of nodes is enough fuel.\<close>

fun next_activable :: "nat \<Rightarrow> 'a ZORDERINFO_scheme \<Rightarrow> int \<Rightarrow> int" where
  "next_activable 0 zi from = 0"
| "next_activable (Suc k) zi from =
     (let nx = kernel_get_next_znode zi from; n = nodes_of zi (nat nx)
      in if nx \<le> 0 then 0
         else if has_flag ZOF_TF_MAINWIN n \<and> visible n \<and> \<not> has_flag ZOF_DISABLED n then nx
         else next_activable k zi nx)"

definition get_next_activable_mainwin :: "'a ZORDERINFO_scheme \<Rightarrow> int \<Rightarrow> int" where
  "get_next_activable_mainwin zi from = next_activable (Suc (MAX_NR_ZNODES zi)) zi from"

end
