(* ===== verification/MG_ZChain.thy ===== *)
theory MG_ZChain
  imports MG_ZOrderData
begin

text \<open>
  The doubly linked lists of the z-order: the link operations of \<open>src/kernel/desktop.c\<close>, the list a
  level's links spell, and what each link operation does to it.
\<close>

section \<open>Link operations\<close>

text \<open>\<open>unchain_znode\<close> and the same statements in \<open>dskMove2Top\<close>.\<close>

definition unlink :: "znodes \<Rightarrow> nat \<Rightarrow> znodes" where
  "unlink ns i =
     (let p = zn_prev (ns i);
          ns1 = (if p \<noteq> 0 then ns(p := (ns p)\<lparr>zn_next := zn_next (ns i)\<rparr>) else ns);
          n = zn_next (ns1 i)
      in if n \<noteq> 0 then ns1(n := (ns1 n)\<lparr>zn_prev := zn_prev (ns1 i)\<rparr>) else ns1)"

text \<open>The last node of the leading run of always-top nodes.\<close>

fun last_top :: "nat \<Rightarrow> znodes \<Rightarrow> nat \<Rightarrow> nat \<Rightarrow> nat" where
  "last_top 0 ns f pre = pre"
| "last_top (Suc k) ns f pre =
     (if f \<noteq> 0 then if always_top (ns f) then last_top k ns (zn_next (ns f)) f else pre else pre)"

definition link_after :: "znodes \<Rightarrow> nat \<Rightarrow> nat \<Rightarrow> znodes" where
  "link_after ns pre k =
     (let ns1 = ns(k := (ns k)\<lparr>zn_prev := pre\<rparr>);
          ns2 = ns1(k := (ns1 k)\<lparr>zn_next := zn_next (ns1 pre)\<rparr>);
          ns3 = ns2(zn_next (ns2 pre) := (ns2 (zn_next (ns2 pre)))\<lparr>zn_prev := k\<rparr>)
      in ns3(pre := (ns3 pre)\<lparr>zn_next := k\<rparr>))"

text \<open>A new node goes to the front (\<open>AllocZOrderNodeEx\<close>; the node 0 stands for the end of an empty
  list, and its \<open>prev\<close> is written too), a node that is raised too (\<open>dskMove2Top\<close>).\<close>

definition link_new :: "znodes \<Rightarrow> nat \<Rightarrow> nat \<Rightarrow> znodes" where
  "link_new ns old_first k =
     (let ns1 = ns(old_first := (ns old_first)\<lparr>zn_prev := k\<rparr>);
          ns2 = ns1(k := (ns1 k)\<lparr>zn_prev := 0\<rparr>)
      in ns2(k := (ns2 k)\<lparr>zn_next := old_first\<rparr>))"

definition link_raised :: "znodes \<Rightarrow> nat \<Rightarrow> nat \<Rightarrow> znodes" where
  "link_raised ns f k =
     (let ns1 = ns(k := (ns k)\<lparr>zn_prev := zn_prev (ns f)\<rparr>);
          ns2 = ns1(k := (ns1 k)\<lparr>zn_next := f\<rparr>)
      in ns2(f := (ns2 f)\<lparr>zn_prev := k\<rparr>))"

section \<open>Lists of nodes\<close>

text \<open>From \<open>f\<close>, after the node \<open>p\<close>, the links lead through \<open>xs\<close> to \<open>g\<close>.\<close>

fun dseg :: "znodes \<Rightarrow> nat \<Rightarrow> nat \<Rightarrow> nat list \<Rightarrow> nat \<Rightarrow> bool" where
  "dseg ns p f [] g \<longleftrightarrow> f = g"
| "dseg ns p f (x # xs) g \<longleftrightarrow>
     f = x \<and> x \<noteq> 0 \<and> zn_prev (ns x) = p \<and> dseg ns x (zn_next (ns x)) xs g"

lemma dseg_append:
  "dseg ns p f (xs @ ys) g \<longleftrightarrow> (\<exists>h. dseg ns p f xs h \<and> dseg ns (last (p # xs)) h ys g)"
  by (induction xs arbitrary: p f) auto

lemma dseg_cong:
  "(\<And>x. x \<in> set xs \<Longrightarrow> zn_next (ns x) = zn_next (ns' x) \<and> zn_prev (ns x) = zn_prev (ns' x)) \<Longrightarrow>
     dseg ns p f xs g = dseg ns' p f xs g"
  by (induction xs arbitrary: p f) auto

lemma dseg_upd [simp]: "k \<notin> set xs \<Longrightarrow> dseg (ns(k := v)) p f xs g = dseg ns p f xs g"
  by (rule dseg_cong) auto

lemma dseg_not_0: "dseg ns p f xs g \<Longrightarrow> 0 \<notin> set xs"
  by (induction xs arbitrary: p f) auto

text \<open>Changing the \<open>next\<close> of the last node moves the end, changing the \<open>prev\<close> of the first the start.\<close>

lemma dseg_set_next:
  assumes "dseg ns p f (xs @ [x]) g" "x \<notin> set xs"
  shows "dseg (ns(x := (ns x)\<lparr>zn_next := h\<rparr>)) p f (xs @ [x]) h"
  using assms by (auto simp: dseg_append)

lemma dseg_set_prev:
  assumes "dseg ns p f (x # xs) g" "x \<notin> set xs"
  shows "dseg (ns(x := (ns x)\<lparr>zn_prev := q\<rparr>)) q f (x # xs) g"
  using assms by auto

lemma dseg_first: "dseg ns p f xs 0 \<Longrightarrow> f = (case xs of [] \<Rightarrow> 0 | x # _ \<Rightarrow> x)"
  by (cases xs) auto

lemma unlink_same:
  "zn_flags (unlink ns i j) = zn_flags (ns j)" "zn_rc (unlink ns i j) = zn_rc (ns j)"
  "zn_age (unlink ns i j) = zn_age (ns j)" "idx_mask_rect (unlink ns i j) = idx_mask_rect (ns j)"
  "zn_hwnd (unlink ns i j) = zn_hwnd (ns j)" "zn_main_win (unlink ns i j) = zn_main_win (ns j)"
  "zn_cli (unlink ns i j) = zn_cli (ns j)"
  by (simp_all add: unlink_def Let_def)

lemma unlink_other:
  "j \<noteq> zn_prev (ns i) \<Longrightarrow> j \<noteq> zn_next (ns i) \<Longrightarrow> zn_prev (ns i) \<noteq> i \<Longrightarrow> unlink ns i j = ns j"
  by (simp add: unlink_def Let_def)

lemma unlink_0: "unlink ns i 0 = ns 0"
  by (simp add: unlink_def Let_def)

lemma dseg_unlink:
  assumes "dseg ns 0 f (xs @ i # ys) 0" "distinct (xs @ i # ys)"
  shows "dseg (unlink ns i) 0 (if f = i then zn_next (ns i) else f) (xs @ ys) 0"
proof -
  define q n where "q = last (0 # xs)" and "n = zn_next (ns i)"
  from assms(1) obtain h where x: "dseg ns 0 f xs h" and "h = i" "i \<noteq> 0"
    and p: "zn_prev (ns i) = q" and y: "dseg ns i n ys 0"
    by (auto simp: dseg_append q_def n_def)
  from y have n: "n = (case ys of [] \<Rightarrow> 0 | y # _ \<Rightarrow> y)" by (rule dseg_first)
  have no0: "0 \<notin> set (xs @ i # ys)" using assms(1) by (rule dseg_not_0)
  define ns1 where "ns1 = (if q \<noteq> 0 then ns(q := (ns q)\<lparr>zn_next := n\<rparr>) else ns)"
  have li: "q \<noteq> i" using assms(2) no0 by (cases xs rule: rev_cases) (auto simp: q_def)
  have x1: "dseg ns1 0 (if f = i then n else f) xs n"
  proof (cases xs rule: rev_cases)
    case Nil
    with x \<open>h = i\<close> show ?thesis by simp
  next
    case (snoc us u)
    with assms(2) have "u \<notin> set us" by simp
    with x snoc have "dseg (ns(u := (ns u)\<lparr>zn_next := n\<rparr>)) 0 f xs n"
      using dseg_set_next by blast
    moreover have "f \<noteq> i" using dseg_first [OF assms(1)] snoc assms(2) by (cases us) auto
    moreover have "q \<noteq> 0" "q = u" using no0 snoc by (auto simp: q_def)
    ultimately show ?thesis by (simp add: ns1_def)
  qed
  have nx1: "zn_next (ns1 i) = n" "zn_prev (ns1 i) = q"
    using li p by (simp_all add: ns1_def n_def)
  have eq: "unlink ns i = (if n \<noteq> 0 then ns1(n := (ns1 n)\<lparr>zn_prev := q\<rparr>) else ns1)"
    unfolding unlink_def Let_def p n_def [symmetric] ns1_def [symmetric] nx1 ..
  have qs: "q = last (0 # xs)" by (rule q_def)
  show ?thesis
  proof (cases ys)
    case Nil
    with n eq have "n = 0" "unlink ns i = ns1" by simp_all
    with x1 Nil show ?thesis unfolding n_def [symmetric] by simp
  next
    case (Cons z zs)
    have z: "z \<notin> set xs" "z \<notin> set zs" "z \<noteq> q" "q \<notin> set zs" "z \<noteq> 0" "n = z"
      using no0 Cons n assms(2) by (cases xs rule: rev_cases; auto simp: q_def)+
    have "dseg ns i z (z # zs) 0" using y Cons z(6) by simp
    from dseg_set_prev [OF this z(2)] have "dseg (ns(z := (ns z)\<lparr>zn_prev := q\<rparr>)) q z (z # zs) 0" .
    then have s2: "dseg (unlink ns i) q z (z # zs) 0"
      by (rule iffD1 [OF dseg_cong, rotated]) (use eq z in \<open>auto simp: ns1_def\<close>)
    have s1: "dseg (unlink ns i) 0 (if f = i then n else f) xs z"
      using x1 z unfolding eq by simp
    from s1 s2 show ?thesis unfolding Cons dseg_append qs n_def by blast
  qed
qed

lemma dseg_link_new:
  assumes "dseg ns 0 f xs 0" "k \<notin> set xs" "k \<noteq> 0" "distinct xs"
  shows "dseg (link_new ns f k) 0 k (k # xs) 0"
proof -
  have f: "f = (case xs of [] \<Rightarrow> 0 | x # _ \<Rightarrow> x)" using dseg_first [OF assms(1)] .
  then have "f \<noteq> k" using assms(2,3) by (cases xs) auto
  have "dseg (ns(f := (ns f)\<lparr>zn_prev := k\<rparr>)) k f xs 0"
  proof (cases xs)
    case (Cons x xs')
    with assms f show ?thesis using dseg_set_prev [of ns 0 f x xs' 0 k] by simp
  qed (use f in simp)
  then have "dseg (link_new ns f k) k f xs 0"
    by (rule iffD1 [OF dseg_cong, rotated]) (use assms(2) in \<open>auto simp: link_new_def Let_def\<close>)
  with \<open>f \<noteq> k\<close> assms(3) show ?thesis by (simp add: link_new_def Let_def)
qed

lemma dseg_link_raised:
  assumes "dseg ns 0 f xs 0" "k \<notin> set xs" "k \<noteq> 0" "distinct xs" "f \<noteq> 0"
  shows "dseg (link_raised ns f k) 0 k (k # xs) 0"
proof -
  from assms(1,5) obtain xs' where xs: "xs = f # xs'" by (cases xs) auto
  with assms have "f \<noteq> k" "zn_prev (ns f) = 0" by auto
  have "dseg (ns(f := (ns f)\<lparr>zn_prev := k\<rparr>)) k f xs 0"
    using assms xs dseg_set_prev [of ns 0 f f xs' 0 k] by simp
  then have "dseg (link_raised ns f k) k f xs 0"
    by (rule iffD1 [OF dseg_cong, rotated]) (use assms(2) in \<open>auto simp: link_raised_def Let_def\<close>)
  with \<open>f \<noteq> k\<close> \<open>zn_prev (ns f) = 0\<close> assms(3) show ?thesis by (simp add: link_raised_def Let_def)
qed

lemma dseg_link_after:
  assumes "dseg ns 0 f (xs @ pre # ys) 0" "k \<notin> set (xs @ pre # ys)" "k \<noteq> 0" "distinct (xs @ pre # ys)"
  shows "dseg (link_after ns pre k) 0 f (xs @ pre # k # ys) 0"
proof -
  from assms(1) have x: "dseg ns 0 f (xs @ [pre]) (zn_next (ns pre))" and y: "dseg ns pre (zn_next (ns pre)) ys 0"
    and "pre \<noteq> 0" by (auto simp: dseg_append)
  let ?n = "zn_next (ns pre)"
  have n: "?n = (case ys of [] \<Rightarrow> 0 | y # _ \<Rightarrow> y)" using y by (rule dseg_first)
  have no0: "0 \<notin> set (xs @ pre # ys)" using assms(1) by (rule dseg_not_0)
  have kn: "pre \<noteq> k" "?n \<noteq> k" "?n \<noteq> pre" using assms n no0 by (cases ys; auto)+
  have nxs: "?n \<notin> set xs" using assms(4) n no0 by (cases ys) auto
  have "dseg (ns(pre := (ns pre)\<lparr>zn_next := k\<rparr>)) 0 f (xs @ [pre]) k"
    using x assms(4) by (intro dseg_set_next) auto
  then have 1: "dseg (link_after ns pre k) 0 f (xs @ [pre]) k"
    by (rule iffD1 [OF dseg_cong, rotated]) (use assms(2) kn nxs in \<open>auto simp: link_after_def Let_def\<close>)
  have "dseg (ns(?n := (ns ?n)\<lparr>zn_prev := k\<rparr>)) k ?n ys 0"
  proof (cases ys)
    case (Cons z zs)
    with y n assms(4) show ?thesis using dseg_set_prev [of ns pre z z zs 0 k] by simp
  qed (use n in simp)
  then have 2: "dseg (link_after ns pre k) k ?n ys 0"
    by (rule iffD1 [OF dseg_cong, rotated]) (use assms(2,4) kn in \<open>auto simp: link_after_def Let_def\<close>)
  have "zn_prev (link_after ns pre k k) = pre" "zn_next (link_after ns pre k k) = ?n"
    using kn by (simp_all add: link_after_def Let_def)
  with 1 2 assms(3) show ?thesis by (simp add: dseg_append)
qed

section \<open>The run of always-top nodes\<close>

lemma last_top_spec:
  "dseg ns p f xs 0 \<Longrightarrow> length xs \<le> k \<Longrightarrow>
     last_top k ns f pre = last (pre # takeWhile (\<lambda>x. always_top (ns x)) xs)"
  by (induction xs arbitrary: p f k pre; case_tac k) auto

end
