(* ===== verification/MG_ZMask.thy ===== *)
theory MG_ZMask
  imports MG_ZOrderData
begin

text \<open>
  The masks of irregular windows in \<open>src/kernel/desktop.c\<close>: a singly read chain of mask
  rectangles, in coordinates of the window, taken from one array with a slot bitmap. The loops over a
  chain take the size of the array as fuel.
\<close>

section \<open>Reading a mask\<close>

type_synonym masks = "nat \<Rightarrow> MASKRECT"

text \<open>The rectangle on the screen that \<open>subtract_rgn_by_node\<close> computes for a mask rectangle.\<close>

definition mask_on_screen :: "MASKRECT \<Rightarrow> RECT \<Rightarrow> RECT" where
  "mask_on_screen m rc =
     (let x = uint (mr_left m) + left rc; y = uint (mr_top m) + top rc
      in SetRect x y (x + uint (mr_right m) - uint (mr_left m)) (y + uint (mr_bottom m) - uint (mr_top m)))"

fun subtract_masks :: "nat \<Rightarrow> masks \<Rightarrow> RECT \<Rightarrow> nat \<Rightarrow> rgns \<Rightarrow> rgn_ptr \<Rightarrow> rgns" where
  "subtract_masks 0 mr rc idx st region = st"
| "subtract_masks (Suc k) mr rc idx st region =
     (if idx = 0 then st
      else let tmprc = snd (IntersectRect (mask_on_screen (mr idx) rc) rc)
           in subtract_masks k mr rc (mr_next (mr idx)) (snd (SubtractClipRect st region tmprc)) region)"

definition subtract_rgn_by_node :: "masks \<Rightarrow> rgns \<Rightarrow> rgn_ptr \<Rightarrow> ZORDERNODE \<Rightarrow> bool \<times> rgns" where
  "subtract_rgn_by_node mr st region node =
     (if idx_mask_rect node \<noteq> 0
      then (True, subtract_masks DEF_NR_MASKRECTS mr (zn_rc node) (idx_mask_rect node) st region)
      else (True, snd (SubtractClipRect st region (zn_rc node))))"

fun pt_in_masks :: "nat \<Rightarrow> masks \<Rightarrow> nat \<Rightarrow> int \<Rightarrow> int \<Rightarrow> bool" where
  "pt_in_masks 0 mr idx cx cy = False"
| "pt_in_masks (Suc k) mr idx cx cy =
     (if idx = 0 then False
      else let m = mr idx;
               tmprc = SetRect (uint (mr_left m)) (uint (mr_top m)) (uint (mr_right m)) (uint (mr_bottom m))
           in if PtInRect tmprc cx cy then True else pt_in_masks k mr (mr_next m) cx cy)"

definition pt_in_maskrect :: "masks \<Rightarrow> ZORDERNODE \<Rightarrow> int \<Rightarrow> int \<Rightarrow> bool" where
  "pt_in_maskrect mr node x y =
     (if idx_mask_rect node \<noteq> 0 \<and> PtInRect (zn_rc node) x y
      then pt_in_masks DEF_NR_MASKRECTS mr (idx_mask_rect node) (x - left (zn_rc node)) (y - top (zn_rc node))
      else PtInRect (zn_rc node) x y)"

text \<open>The search of \<open>get_znode_at_point\<close>, along one level and over the levels.\<close>

fun at_point_in_level :: "nat \<Rightarrow> masks \<Rightarrow> znodes \<Rightarrow> nat \<Rightarrow> int \<Rightarrow> int \<Rightarrow> nat" where
  "at_point_in_level 0 mr ns slot x y = 0"
| "at_point_in_level (Suc k) mr ns slot x y =
     (if slot > 0 then
        if visible (ns slot) \<and> pt_in_maskrect mr (ns slot) x y then slot
        else at_point_in_level k mr ns (zn_next (ns slot)) x y
      else 0)"

fun at_point_in_levels :: "nat \<Rightarrow> masks \<Rightarrow> znodes \<Rightarrow> nat list \<Rightarrow> int \<Rightarrow> int \<Rightarrow> nat" where
  "at_point_in_levels k mr ns [] x y = 0"
| "at_point_in_levels k mr ns (f # fs) x y =
     (let slot = at_point_in_level k mr ns f x y
      in if slot \<noteq> 0 then slot else at_point_in_levels k mr ns fs x y)"

definition get_znode_at_point :: "'a ZORDERINFO_scheme \<Rightarrow> int \<Rightarrow> int \<Rightarrow> nat" where
  "get_znode_at_point zi x y =
     at_point_in_levels (MAX_NR_ZNODES zi) (maskrects zi) (nodes_of zi) (first_in_levels zi) x y"

section \<open>Changing a mask\<close>

fun release_masks :: "nat \<Rightarrow> nat \<Rightarrow> u8 list \<times> masks \<Rightarrow> u8 list \<times> masks" where
  "release_masks 0 idx s = s"
| "release_masks (Suc k) idx s =
     (if idx = 0 then s
      else case s of (bmp, mr) \<Rightarrow>
        let bmp1 = slot_clear_use bmp idx;
            mr1 = mr(idx := (mr idx)\<lparr>mr_prev := 0\<rparr>);
            tmp = mr_next (mr1 idx);
            mr2 = mr1(idx := (mr1 idx)\<lparr>mr_next := 0\<rparr>)
        in release_masks k tmp (bmp1, mr2))"

definition release_znode_maskrect :: "'a ZORDERINFO_scheme \<Rightarrow> nat \<Rightarrow> 'a ZORDERINFO_scheme" where
  "release_znode_maskrect zi i =
     (case release_masks DEF_NR_MASKRECTS (idx_mask_rect (nodes_of zi i)) (maskrect_usage_bmp zi, maskrects zi) of
        (bmp, mr) \<Rightarrow> zi\<lparr>maskrect_usage_bmp := bmp, maskrects := mr,
                       nodes_of := (nodes_of zi)(i := (nodes_of zi i)\<lparr>idx_mask_rect := 0\<rparr>)\<rparr>)"

definition FreeZOrderMaskRect :: "'a ZORDERINFO_scheme \<Rightarrow> int \<Rightarrow> int \<times> 'a ZORDERINFO_scheme" where
  "FreeZOrderMaskRect zi idx =
     (if IS_INVALID_ZIDX zi idx then (- 1, zi) else (0, release_znode_maskrect zi (nat idx)))"

fun count_masks :: "nat \<Rightarrow> masks \<Rightarrow> nat \<Rightarrow> nat" where
  "count_masks 0 mr idx = 0"
| "count_masks (Suc k) mr idx = (if idx = 0 then 0 else Suc (count_masks k mr (mr_next (mr idx))))"

text \<open>The loop that adds \<open>n\<close> rectangles in front of \<open>idx\<close>; FALSE when the bitmap has no slot.\<close>

fun add_masks :: "nat \<Rightarrow> u8 list \<Rightarrow> masks \<Rightarrow> nat \<Rightarrow> bool \<times> u8 list \<times> masks \<times> nat" where
  "add_masks 0 bmp mr idx = (True, bmp, mr, idx)"
| "add_masks (Suc n) bmp mr idx =
     (case lookfor_unused_slot bmp True of
        None \<Rightarrow> (False, bmp, mr, idx)
      | Some (k, bmp') \<Rightarrow>
          let mr1 = mr(k := (mr k)\<lparr>mr_next := idx\<rparr>);
              mr2 = (if idx \<noteq> 0 then mr1(idx := (mr1 idx)\<lparr>mr_prev := k\<rparr>) else mr1)
          in add_masks n bmp' mr2 k)"

text \<open>The loop that drops \<open>n\<close> rectangles: each round starts at the node's first rectangle again.\<close>

fun drop_masks :: "nat \<Rightarrow> nat \<Rightarrow> u8 list \<Rightarrow> masks \<Rightarrow> nat \<Rightarrow> u8 list \<times> nat" where
  "drop_masks 0 first bmp mr idx = (bmp, idx)"
| "drop_masks (Suc n) first bmp mr idx =
     drop_masks n first (slot_clear_use bmp first) mr (mr_next (mr first))"

text \<open>The caller's rectangles are the memory from \<open>rc\<close> on.\<close>

record RECT4MASK =
  m4_left :: "16 word"
  m4_top :: "16 word"
  m4_right :: "16 word"
  m4_bottom :: "16 word"

fun fill_masks :: "nat \<Rightarrow> masks \<Rightarrow> nat \<Rightarrow> (nat \<Rightarrow> RECT4MASK) \<Rightarrow> nat \<Rightarrow> masks" where
  "fill_masks 0 mr cur rc i = mr"
| "fill_masks (Suc k) mr cur rc i =
     (if cur = 0 then mr
      else let mr1 = mr(cur := (mr cur)\<lparr>mr_left := m4_left (rc i), mr_top := m4_top (rc i),
                              mr_right := m4_right (rc i), mr_bottom := m4_bottom (rc i)\<rparr>)
           in fill_masks k mr1 (mr_next (mr1 cur)) rc (i + 1))"

definition AllocZOrderMaskRect ::
  "'a ZORDERINFO_scheme \<Rightarrow> int \<Rightarrow> (nat \<Rightarrow> RECT4MASK) \<Rightarrow> nat \<Rightarrow> int \<times> 'a ZORDERINFO_scheme" where
  "AllocZOrderMaskRect zi idx_znode rc nr_rc =
     (if IS_INVALID_ZIDX zi idx_znode then (- 1, zi)
      else
        let i = nat idx_znode; first = idx_mask_rect (nodes_of zi i);
            bmp = maskrect_usage_bmp zi; mr = maskrects zi;
            old_num = count_masks DEF_NR_MASKRECTS mr first;
            set_mask = (\<lambda>zi idx. zi\<lparr>nodes_of := (nodes_of zi)(i := (nodes_of zi i)\<lparr>idx_mask_rect := idx\<rparr>),
              maskrects := fill_masks DEF_NR_MASKRECTS (maskrects zi) idx rc 0\<rparr>)
        in if nr_rc > old_num then
             if get_nr_idle_slots bmp < nr_rc - old_num then (- 1, zi)
             else case add_masks (nr_rc - old_num) bmp mr first of (ok, bmp1, mr1, idx) \<Rightarrow>
               if \<not> ok then (- 1, zi\<lparr>maskrect_usage_bmp := bmp1, maskrects := mr1\<rparr>)
               else
                 let mr2 = (if idx \<noteq> 0 then mr1(idx := (mr1 idx)\<lparr>mr_prev := 0\<rparr>) else mr1)
                 in (0, set_mask (zi\<lparr>maskrect_usage_bmp := bmp1, maskrects := mr2\<rparr>) idx)
           else case drop_masks (old_num - nr_rc) first bmp mr 0 of (bmp1, idx) \<Rightarrow>
             (0, set_mask (zi\<lparr>maskrect_usage_bmp := bmp1\<rparr>) idx))"

section \<open>Round corners\<close>

text \<open>The rectangles of a window with round corners, a scan line at a time; a line with the same left
  edge and width as the last rectangle is joined to it (\<open>do_with_round_rect\<close>). C's \<open>sqrt\<close> cut to an
  \<open>int\<close> is the integer square root.\<close>

definition RADIUS_WINDOW_CORNERS :: nat where [simp]: "RADIUS_WINDOW_CORNERS = 7"

definition int_sqrt :: "nat \<Rightarrow> int" where
  "int_sqrt n = int (length (filter (\<lambda>k. (k + 1) * (k + 1) \<le> n) [0..<n]))"

definition do_with_round_rect :: "RECT list \<Rightarrow> RECT \<Rightarrow> RECT list" where
  "do_with_round_rect drc src =
     (if drc = [] then [src]
      else let p = last drc
           in if left p = left src \<and> right p - left p = right src - left src
              then butlast drc @ [SetRect (left p) (top p) (right p) (bottom src)]
              else drc @ [src])"

definition round_rects :: "dword \<Rightarrow> RECT \<Rightarrow> RECT list" where
  "round_rects flags rc =
     (let r = int RADIUS_WINDOW_CORNERS; w = right rc - left rc; h = bottom rc - top rc;
          line = (\<lambda>z t b. SetRect (left rc + r - z) t (left rc + w - r + z) b);
          tops = (if flags AND ZOF_TW_TROUNDCNS \<noteq> 0
                  then foldl do_with_round_rect []
                         (map (\<lambda>i. line (int_sqrt (2 * i * RADIUS_WINDOW_CORNERS - i * i)) (top rc + int i) (top rc + int i + 1))
                            [0..<RADIUS_WINDOW_CORNERS])
                  else [SetRect (left rc) (top rc) (left rc + w) (top rc + r)]);
          mid = do_with_round_rect tops (SetRect (left rc) (top rc + r) (left rc + w) (top rc + h - r))
      in if flags AND ZOF_TW_BROUNDCNS \<noteq> 0
         then foldl do_with_round_rect mid
                (map (\<lambda>i. line (int_sqrt (RADIUS_WINDOW_CORNERS * RADIUS_WINDOW_CORNERS - i * i))
                           (top rc + h - r + int i - 1) (top rc + h - r + int i + 1))
                   [1..<RADIUS_WINDOW_CORNERS])
         else do_with_round_rect mid (SetRect (left rc) (top rc + h - r) (left rc + w) (top rc + h)))"

text \<open>The loop that allocates the chain from its first rectangle on: the last one keeps the \<open>next\<close> it
  had. FALSE when the bitmap has no slot.\<close>

fun append_masks :: "nat \<Rightarrow> nat \<Rightarrow> nat \<Rightarrow> u8 list \<times> masks \<Rightarrow> bool \<times> nat \<times> nat \<times> u8 list \<times> masks" where
  "append_masks 0 first idx s = (True, first, idx, s)"
| "append_masks (Suc n) first idx (bmp, mr) =
     (case lookfor_unused_slot bmp True of
        None \<Rightarrow> (False, first, idx, (bmp, mr))
      | Some (k, bmp') \<Rightarrow>
          let mr1 = mr(k := (mr k)\<lparr>mr_prev := idx\<rparr>)
          in if idx \<noteq> 0 then append_masks n first k (bmp', mr1(idx := (mr1 idx)\<lparr>mr_next := k\<rparr>))
             else append_masks n k k (bmp', mr1))"

definition rect4 :: "RECT \<Rightarrow> RECT4MASK" where
  "rect4 r = \<lparr>m4_left = word_of_int (left r), m4_top = word_of_int (top r),
     m4_right = word_of_int (right r), m4_bottom = word_of_int (bottom r)\<rparr>"

text \<open>Its callers ignore the result. Reading the list of rectangles behind its end reads what \<open>calloc\<close>
  or the memory behind it holds, taken as 0 here.\<close>

definition alloc_mask_rects_for_round_corners ::
  "nat \<Rightarrow> dword \<Rightarrow> RECT \<Rightarrow> 'a ZORDERINFO_scheme \<Rightarrow> 'a ZORDERINFO_scheme" where
  "alloc_mask_rects_for_round_corners i flags rc zi =
     (let rects = round_rects flags rc; bmp = maskrect_usage_bmp zi
      in if length rects > get_nr_idle_slots bmp then zi
         else case append_masks (length rects) (idx_mask_rect (nodes_of zi i)) 0 (bmp, maskrects zi) of
           (ok, first, idx, (bmp1, mr1)) \<Rightarrow>
             let zi1 = zi\<lparr>maskrect_usage_bmp := bmp1, maskrects := mr1,
                          nodes_of := (nodes_of zi)(i := (nodes_of zi i)\<lparr>idx_mask_rect := first\<rparr>)\<rparr>
             in if \<not> ok then zi1
                else
                  let mr2 = (if idx \<noteq> 0 then mr1(idx := (mr1 idx)\<lparr>mr_prev := 0\<rparr>) else mr1);
                      value_at = (\<lambda>i. if i < length rects then rect4 (rects ! i) else rect4 SetRectEmpty)
                  in zi1\<lparr>maskrects := fill_masks DEF_NR_MASKRECTS mr2 first value_at 0\<rparr>)"

section \<open>The pixels of a node\<close>

fun mchain :: "masks \<Rightarrow> nat \<Rightarrow> nat list \<Rightarrow> bool" where
  "mchain mr f [] \<longleftrightarrow> f = 0"
| "mchain mr f (k # ks) \<longleftrightarrow> f = k \<and> k \<noteq> 0 \<and> mchain mr (mr_next (mr k)) ks"

definition mask_pts :: "masks \<Rightarrow> RECT \<Rightarrow> nat list \<Rightarrow> (int \<times> int) set" where
  "mask_pts mr rc ks = rect_pts rc \<inter> (\<Union>k \<in> set ks. rect_pts (mask_on_screen (mr k) rc))"

definition mask_ok :: "masks \<Rightarrow> nat \<Rightarrow> nat list \<Rightarrow> bool" where
  "mask_ok mr f ks \<longleftrightarrow> mchain mr f ks \<and> distinct ks \<and> length ks < DEF_NR_MASKRECTS"

definition node_pts :: "masks \<Rightarrow> nat list \<Rightarrow> ZORDERNODE \<Rightarrow> (int \<times> int) set" where
  "node_pts mr ks n = (if ks = [] then rect_pts (zn_rc n) else mask_pts mr (zn_rc n) ks)"

lemma mchain_upd [simp]: "k \<notin> set ks \<Longrightarrow> mchain (mr(k := v)) f ks = mchain mr f ks"
  by (induction ks arbitrary: f) auto

lemma mchain_cong:
  "(\<And>k. k \<in> set ks \<Longrightarrow> mr_next (mr k) = mr_next (mr' k)) \<Longrightarrow> mchain mr f ks = mchain mr' f ks"
  by (induction ks arbitrary: f) auto

lemma mchain_0 [simp]: "mchain mr 0 ks \<longleftrightarrow> ks = []"
  by (cases ks) auto

lemma mchain_nonzero: "mchain mr f ks \<Longrightarrow> f \<noteq> 0 \<longleftrightarrow> ks \<noteq> []"
  by (cases ks) auto

lemma mchain_unique: "mchain mr f ks \<Longrightarrow> mchain mr f ks' \<Longrightarrow> ks = ks'"
proof (induction ks arbitrary: f ks')
  case (Cons k ks)
  then show ?case by (cases ks') auto
qed simp

lemma subtract_masks_pts:
  "mchain mr f ks \<Longrightarrow> length ks \<le> k \<Longrightarrow> rgn_wf (st (Rgn p)) \<Longrightarrow>
     rgn_wf (subtract_masks k mr rc f st (Rgn p) (Rgn p))
     \<and> rgn_pts (subtract_masks k mr rc f st (Rgn p) (Rgn p)) = rgn_pts (st (Rgn p)) - mask_pts mr rc ks
     \<and> (\<forall>m. m \<noteq> p \<longrightarrow> subtract_masks k mr rc f st (Rgn p) (Rgn m) = st (Rgn m))"
proof (induction ks arbitrary: f k st)
  case Nil
  then show ?case by (cases k) (auto simp: mask_pts_def)
next
  case (Cons j ks)
  then obtain k' where k: "k = Suc k'" by (cases k) auto
  define st1 where "st1 = snd (SubtractClipRect st (Rgn p) (snd (IntersectRect (mask_on_screen (mr j) rc) rc)))"
  from SubtractClipRect_spec [where st = st, OF Cons.prems(3) st1_def]
  have s: "rgn_wf (st1 (Rgn p))"
    "rgn_pts (st1 (Rgn p)) = rgn_pts (st (Rgn p)) - rect_pts (mask_on_screen (mr j) rc) \<inter> rect_pts rc"
    "\<forall>m. m \<noteq> p \<longrightarrow> st1 (Rgn m) = st (Rgn m)" by (auto simp: IntersectRect_pts)
  have st: "subtract_masks k mr rc f st (Rgn p) = subtract_masks k' mr rc (mr_next (mr j)) st1 (Rgn p)"
    using Cons.prems k by (simp add: st1_def Let_def)
  have "mchain mr (mr_next (mr j)) ks" "length ks \<le> k'" using Cons.prems k by auto
  from Cons.IH [where st = st1, OF this s(1)] s show ?case unfolding st by (auto simp: mask_pts_def)
qed

lemma subtract_rgn_by_node_spec:
  assumes "mask_ok mr (idx_mask_rect n) ks" "rgn_wf (st (Rgn p))" "subtract_rgn_by_node mr st (Rgn p) n = (b, st')"
  shows "b" "rgn_wf (st' (Rgn p))" "rgn_pts (st' (Rgn p)) = rgn_pts (st (Rgn p)) - node_pts mr ks n"
    and "m \<noteq> p \<Longrightarrow> st' (Rgn m) = st (Rgn m)"
proof -
  have ks: "idx_mask_rect n \<noteq> 0 \<longleftrightarrow> ks \<noteq> []" using assms(1) mchain_nonzero unfolding mask_ok_def by blast
  have "b \<and> rgn_wf (st' (Rgn p)) \<and> rgn_pts (st' (Rgn p)) = rgn_pts (st (Rgn p)) - node_pts mr ks n
      \<and> (m \<noteq> p \<longrightarrow> st' (Rgn m) = st (Rgn m))"
  proof (cases "ks = []")
    case True
    with assms(3) ks SubtractClipRect_spec [where st = st, OF assms(2) refl] show ?thesis
      by (auto simp: subtract_rgn_by_node_def node_pts_def)
  next
    case False
    have "mchain mr (idx_mask_rect n) ks" "length ks \<le> DEF_NR_MASKRECTS"
      using assms(1) by (auto simp: mask_ok_def)
    from subtract_masks_pts [where st = st, OF this assms(2)] assms(3) ks False show ?thesis
      by (auto simp: subtract_rgn_by_node_def node_pts_def)
  qed
  then show "b" "rgn_wf (st' (Rgn p))" "rgn_pts (st' (Rgn p)) = rgn_pts (st (Rgn p)) - node_pts mr ks n"
    and "m \<noteq> p \<Longrightarrow> st' (Rgn m) = st (Rgn m)" by auto
qed

lemma pt_in_masks_iff:
  "mchain mr f ks \<Longrightarrow> length ks \<le> k \<Longrightarrow>
     pt_in_masks k mr f (x - left rc) (y - top rc) \<longleftrightarrow> (\<exists>j \<in> set ks. (x, y) \<in> rect_pts (mask_on_screen (mr j) rc))"
proof (induction ks arbitrary: f k)
  case Nil
  then show ?case by (cases k) auto
next
  case (Cons j ks)
  then obtain k' where k: "k = Suc k'" by (cases k) auto
  have "PtInRect (SetRect (uint (mr_left (mr j))) (uint (mr_top (mr j))) (uint (mr_right (mr j))) (uint (mr_bottom (mr j))))
      (x - left rc) (y - top rc) \<longleftrightarrow> (x, y) \<in> rect_pts (mask_on_screen (mr j) rc)"
    by (auto simp: PtInRect_def mask_on_screen_def SetRect_def rect_pts_def Let_def)
  moreover have "mchain mr (mr_next (mr j)) ks" "length ks \<le> k'" using Cons.prems k by auto
  ultimately show ?case using Cons.IH [of "mr_next (mr j)" k'] Cons.prems k by (auto simp: Let_def)
qed

lemma pt_in_maskrect_iff:
  assumes "mask_ok mr (idx_mask_rect n) ks"
  shows "pt_in_maskrect mr n x y \<longleftrightarrow> (x, y) \<in> node_pts mr ks n"
proof -
  have c: "mchain mr (idx_mask_rect n) ks" "length ks \<le> DEF_NR_MASKRECTS" using assms by (auto simp: mask_ok_def)
  have "PtInRect (zn_rc n) x y \<longleftrightarrow> (x, y) \<in> rect_pts (zn_rc n)" by (auto simp: PtInRect_def rect_pts_def)
  then show ?thesis
    using pt_in_masks_iff [OF c] mchain_nonzero [OF c(1)]
    by (auto simp: pt_in_maskrect_def node_pts_def mask_pts_def)
qed

end
