(* ===== verification/MG_ZOrder.thy ===== *)
theory MG_ZOrder
  imports MG_ZChain MG_ZMask
begin

text \<open>
  The operations on the z-order in \<open>src/kernel/desktop.c\<close>: a node is allocated, freed, raised, shown,
  hidden, enabled, kept on top, activated. With the order they keep the ages of the nodes, which tell
  a window when its clipping region is stale, and the region \<open>sg_UpdateRgn\<close>. The zi locks are left out.
  \<open>assert\<close> is compiled out.
\<close>

section \<open>Callbacks\<close>

definition age_up :: "ZORDERNODE \<Rightarrow> ZORDERNODE" where
  "age_up n = n\<lparr>zn_age := zn_age n + 1\<rparr>"

definition set_flag :: "dword \<Rightarrow> ZORDERNODE \<Rightarrow> ZORDERNODE" where
  "set_flag f n = n\<lparr>zn_flags := zn_flags n OR f\<rparr>"

definition clear_flag :: "dword \<Rightarrow> ZORDERNODE \<Rightarrow> ZORDERNODE" where
  "clear_flag f n = n\<lparr>zn_flags := zn_flags n AND NOT f\<rparr>"

definition cb_intersect_rc :: "RECT \<Rightarrow> ZORDERNODE \<Rightarrow> bool \<times> RECT \<times> ZORDERNODE" where
  "cb_intersect_rc rc n =
     (if visible n \<and> DoesIntersect rc (zn_rc n) then (True, rc, age_up n) else (False, rc, n))"

definition cb_update_rc :: "masks \<Rightarrow> rgns \<Rightarrow> ZORDERNODE \<Rightarrow> bool \<times> rgns \<times> ZORDERNODE" where
  "cb_update_rc mr st n =
     (if visible n then
        case subtract_rgn_by_node mr st (Rgn 0) n of (b, st') \<Rightarrow>
          if b then (True, st', set_flag ZOF_IF_REFERENCE (age_up n)) else (False, st', n)
      else (False, st, n))"

definition cb_update_znode :: "RECT \<Rightarrow> ZEVENT list \<Rightarrow> ZORDERNODE \<Rightarrow> bool \<times> ZEVENT list \<times> ZORDERNODE" where
  "cb_update_znode rc ev n =
     (if visible n \<and> has_flag ZOF_IF_REFERENCE n
      then (True, ev @ [UpdateWindow (zn_hwnd n) rc], clear_flag ZOF_IF_REFERENCE n)
      else (False, ev, n))"

definition cb_raise_over :: "RECT \<Rightarrow> rgns \<Rightarrow> ZORDERNODE \<Rightarrow> bool \<times> rgns \<times> ZORDERNODE" where
  "cb_raise_over rc st n =
     (if visible n \<and> DoesIntersect rc (zn_rc n)
      then (True, snd (AddClipRect st (Rgn 0) (zn_rc n)), age_up n) else (False, st, n))"

section \<open>Steps shared by the operations\<close>

definition upd_node :: "nat \<Rightarrow> (ZORDERNODE \<Rightarrow> ZORDERNODE) \<Rightarrow> DESKTOP \<Rightarrow> DESKTOP" where
  "upd_node i f d = d\<lparr>nodes_of := (nodes_of d)(i := f (nodes_of d i))\<rparr>"

definition set_update_rgn :: "RECT \<Rightarrow> DESKTOP \<Rightarrow> DESKTOP" where
  "set_update_rgn rc d = d\<lparr>d_rgns := (d_rgns d)(Rgn 0 := snd (SetClipRgn True (d_rgns d (Rgn 0)) rc))\<rparr>"

text \<open>A loop over some levels, or over the rest of one, that changes the nodes and \<open>sg_UpdateRgn\<close>.\<close>

definition update_levels :: "32 word \<Rightarrow> DESKTOP \<Rightarrow> DESKTOP" where
  "update_levels types d =
     (case do_for_all_znodes (cb_update_rc (maskrects d)) types (d_rgns d) d of
        (st, ns, _) \<Rightarrow> d\<lparr>d_rgns := st, nodes_of := ns\<rparr>)"

definition update_from :: "nat \<Rightarrow> DESKTOP \<Rightarrow> DESKTOP" where
  "update_from slot d =
     (case for_chain (MAX_NR_ZNODES d) 0 (cb_update_rc (maskrects d)) slot (d_rgns d, nodes_of d, 0) of
        (st, ns, _) \<Rightarrow> d\<lparr>d_rgns := st, nodes_of := ns\<rparr>)"

definition intersect_levels :: "RECT \<Rightarrow> 32 word \<Rightarrow> DESKTOP \<Rightarrow> DESKTOP" where
  "intersect_levels rc types d =
     (case do_for_all_znodes cb_intersect_rc types rc d of (_, ns, _) \<Rightarrow> d\<lparr>nodes_of := ns\<rparr>)"

definition intersect_from :: "RECT \<Rightarrow> nat \<Rightarrow> DESKTOP \<Rightarrow> DESKTOP" where
  "intersect_from rc slot d =
     (case for_chain (MAX_NR_ZNODES d) 0 cb_intersect_rc slot (rc, nodes_of d, 0) of
        (_, ns, _) \<Rightarrow> d\<lparr>nodes_of := ns\<rparr>)"

text \<open>The statements about the desktop's own node that end the operations.\<close>

definition age_desktop :: "RECT \<Rightarrow> DESKTOP \<Rightarrow> DESKTOP" where
  "age_desktop rc d = (if DoesIntersect rc (d_screen d) then upd_node 0 age_up d else d)"

definition refer_desktop :: "DESKTOP \<Rightarrow> DESKTOP" where
  "refer_desktop d =
     (case SubtractClipRect (d_rgns d) (Rgn 0) (d_screen d) of (b, st) \<Rightarrow>
        let d1 = d\<lparr>d_rgns := st\<rparr>
        in if b then upd_node 0 (set_flag ZOF_IF_REFERENCE) (upd_node 0 age_up d1) else d1)"

definition update_dirty :: "RECT \<Rightarrow> DESKTOP \<Rightarrow> DESKTOP" where
  "update_dirty rc d =
     (case do_for_all_znodes (cb_update_znode rc) 0xFF (d_events d) d of
        (ev, ns, _) \<Rightarrow> d\<lparr>d_events := ev, nodes_of := ns\<rparr>)"

definition erase_desktop :: "RECT \<Rightarrow> DESKTOP \<Rightarrow> DESKTOP" where
  "erase_desktop rc d =
     (if has_flag ZOF_IF_REFERENCE (nodes_of d 0)
      then upd_node 0 (clear_flag ZOF_IF_REFERENCE) (d\<lparr>d_events := d_events d @ [EraseDesktop rc]\<rparr>)
      else d)"

section \<open>Closing the menus\<close>

definition srvForceCloseMenu :: "DESKTOP \<Rightarrow> DESKTOP" where
  "srvForceCloseMenu d =
     (if cli_trackmenu d < 0 \<or> nr_popupmenus d = 0 then d
      else
        let rc_bound = foldl (\<lambda>b i. GetBoundRect b (zn_rc (menu_nodes d i))) (SetRect 0 0 0 0) [0..<nr_popupmenus d];
            d1 = refer_desktop (update_levels 0xFF (set_update_rgn rc_bound d));
            d2 = update_dirty rc_bound (d1\<lparr>cli_trackmenu := - 1, nr_popupmenus := 0\<rparr>);
            d3 = erase_desktop rc_bound d2
        in d3\<lparr>d_events := d_events d3 @ [CloseMenu]\<rparr>)"

definition close_menu_if :: "bool \<Rightarrow> DESKTOP \<Rightarrow> DESKTOP" where
  "close_menu_if b d = (if cli_trackmenu d \<ge> 0 \<and> b then srvForceCloseMenu d else d)"

definition srvStartTrackPopupMenu :: "DESKTOP \<Rightarrow> int \<Rightarrow> RECT \<Rightarrow> HWND \<Rightarrow> int \<times> DESKTOP" where
  "srvStartTrackPopupMenu d0 cli rc ptmi =
     (let d = close_menu_if (cli_trackmenu d0 \<noteq> cli) d0
      in if nr_popupmenus d = max_nr_popupmenus d then (- 1, d)
         else
           let d1 = age_desktop rc (intersect_levels rc 0xFF d);
               k = nr_popupmenus d1;
               d2 = d1\<lparr>menu_nodes := (menu_nodes d1)(k := (menu_nodes d1 k)
                       \<lparr>zn_flags := ZOF_TYPE_POPUPMENU, zn_rc := rc, zn_hwnd := ptmi, zn_cli := 0\<rparr>)\<rparr>;
               d3 = (if cli_trackmenu d2 = - 1 then d2\<lparr>cli_trackmenu := cli\<rparr> else d2);
               d4 = d3\<lparr>nr_popupmenus := nr_popupmenus d3 + 1\<rparr>
           in (int (nr_popupmenus d4) - 1, d4))"

definition srvEndTrackPopupMenu :: "DESKTOP \<Rightarrow> int \<Rightarrow> int \<Rightarrow> int \<times> DESKTOP" where
  "srvEndTrackPopupMenu d cli idx_znode =
     (if cli_trackmenu d \<noteq> cli \<or> int (nr_popupmenus d) \<noteq> idx_znode + 1 then (- 1, d)
      else
        let rc = zn_rc (menu_nodes d (nat idx_znode));
            d1 = refer_desktop (update_levels 0xFF (set_update_rgn rc d));
            d2 = d1\<lparr>nr_popupmenus := nr_popupmenus d1 - 1\<rparr>;
            d3 = (if nr_popupmenus d2 = 0 then d2\<lparr>cli_trackmenu := - 1\<rparr> else d2)
        in (0, erase_desktop rc (update_dirty rc d3)))"

section \<open>Activation\<close>

definition MSG_NCACTIVATE :: nat where "MSG_NCACTIVATE = 0x00B3"
definition MSG_ACTIVE :: nat where "MSG_ACTIVE = 0x0033"
definition MSG_SETFOCUS :: nat where "MSG_SETFOCUS = 0x0030"
definition MSG_KILLFOCUS :: nat where "MSG_KILLFOCUS = 0x0031"
definition HWND_OTHERPROC :: HWND where "HWND_OTHERPROC = - 1"

definition post_msg_by_znode_p :: "nat \<Rightarrow> nat \<Rightarrow> dword \<Rightarrow> DESKTOP \<Rightarrow> DESKTOP" where
  "post_msg_by_znode_p i msg w d =
     (let n = nodes_of d i
      in if zn_main_win n \<noteq> HWND_NULL \<and> zn_cli n = 0
         then d\<lparr>d_events := d_events d @ [PostMsg (zn_main_win n) msg w]\<rparr> else d)"

definition dskSetActiveZOrderNode :: "DESKTOP \<Rightarrow> int \<Rightarrow> int \<Rightarrow> HWND \<times> DESKTOP" where
  "dskSetActiveZOrderNode d cli idx_znode =
     (let i = nat idx_znode in
      if IS_INVALID_ZIDX d idx_znode then (HWND_INVALID, d)
      else if (d_ime_wnd d \<noteq> HWND_NULL \<and> d_ime_wnd d = zn_main_win (nodes_of d i))
              \<or> has_flag ZOF_TF_TOOLWIN (nodes_of d i) then (HWND_INVALID, d)
      else
        let d1 = close_menu_if True d;
            old = active_win d1;
            d2 = d1\<lparr>active_win := i\<rparr>;
            owner = (\<lambda>k. if k \<noteq> 0 then if zn_cli (nodes_of d2 k) = cli then zn_hwnd (nodes_of d2 k) else HWND_OTHERPROC
                         else HWND_NULL);
            d3 = (if old \<noteq> 0 \<and> visible (nodes_of d2 old)
                  then post_msg_by_znode_p old MSG_KILLFOCUS (owner i)
                         (post_msg_by_znode_p old MSG_ACTIVE 0 (post_msg_by_znode_p old MSG_NCACTIVATE 0 d2))
                  else d2);
            d4 = (if i \<noteq> 0
                  then post_msg_by_znode_p i MSG_SETFOCUS (owner old)
                         (post_msg_by_znode_p i MSG_ACTIVE 1 (post_msg_by_znode_p i MSG_NCACTIVATE 1 d3))
                  else d3)
        in (owner old, d4))"

section \<open>Allocation\<close>

definition level_with_room :: "'a ZORDERINFO_scheme \<Rightarrow> dword \<Rightarrow> nat option" where
  "level_with_room zi ty =
     (let room = (\<lambda>l. if nr_nodes_in_levels zi ! l < int (max_nr_nodes_in_levels zi ! l) then Some l else None)
      in if ty = ZOF_TYPE_TOOLTIP then room ZLIDX_TOOLTIP
         else if ty = ZOF_TYPE_GLOBAL then room ZLIDX_GLOBAL
         else if ty = ZOF_TYPE_SCREENLOCK then room ZLIDX_SCREENLOCK
         else if ty = ZOF_TYPE_DOCKER then room ZLIDX_DOCKER
         else if ty = ZOF_TYPE_HIGHER then room ZLIDX_TOPMOST
         else if ty = ZOF_TYPE_NORMAL then room ZLIDX_NORMAL
         else if ty = ZOF_TYPE_LAUNCHER then room ZLIDX_LAUNCHER
         else None)"

text \<open>The special types take their slots from the front part of the bitmap, the general ones from the
  part behind it. A slot beyond the array is given up, but its bit stays taken.\<close>

definition take_slot :: "'a ZORDERINFO_scheme \<Rightarrow> dword \<Rightarrow> nat option \<times> u8 list" where
  "take_slot zi ty =
     (let ls = LEN_USAGE_BMP_SPECIAL zi; lg = LEN_USAGE_BMP_GENERAL zi; bmp = zi_usage_bmp zi
      in if IS_TYPE_SPECIAL ty then
           (case lookfor_unused_slot (take ls bmp) True of
              None \<Rightarrow> (None, bmp)
            | Some (k, b) \<Rightarrow> (if k \<ge> MAX_NR_SPECIAL_ZNODES zi then None else Some k, b @ drop ls bmp))
         else
           (case lookfor_unused_slot (take lg (drop ls bmp)) True of
              None \<Rightarrow> (None, bmp)
            | Some (k, b) \<Rightarrow>
                (if k + 8 * ls \<ge> MAX_NR_ZNODES zi then None else Some (k + 8 * ls),
                 take ls bmp @ b @ drop (ls + lg) bmp)))"

text \<open>Linking the node: in front, or behind the always-top nodes when the first one is one. In the
  second case \<open>*first\<close> is the \<open>next\<close> of the last of them, which \<open>link_after\<close> has set.\<close>

definition chain_new :: "nat \<Rightarrow> nat \<Rightarrow> DESKTOP \<Rightarrow> DESKTOP" where
  "chain_new l k d =
     (let f = first_in_levels d ! l; ns = nodes_of d
      in if f = 0 \<or> \<not> always_top (ns f)
         then d\<lparr>nodes_of := link_new ns f k, first_in_levels := (first_in_levels d)[l := k]\<rparr>
         else d\<lparr>nodes_of := link_after ns (last_top (MAX_NR_ZNODES d) ns f f) k\<rparr>)"

definition update_on_new_visible_znode :: "nat \<Rightarrow> dword \<Rightarrow> DESKTOP \<Rightarrow> DESKTOP" where
  "update_on_new_visible_znode i ty d =
     (let rc = zn_rc (nodes_of d i);
          d1 = foldl (\<lambda>d level. if ty \<ge> zof_type_for_level level
                               then intersect_from rc (first_in_levels d ! level) d else d)
                 d [0..<NR_ZORDER_LEVELS]
      in age_desktop rc d1)"

definition new_znode :: "HWND \<Rightarrow> HWND \<Rightarrow> dword \<Rightarrow> RECT \<Rightarrow> int \<Rightarrow> ZORDERNODE \<Rightarrow> ZORDERNODE" where
  "new_znode hWnd main_win flags rc cli n =
     n\<lparr>zn_flags := flags, zn_rc := rc, zn_cli := cli, zn_hwnd := hWnd, zn_main_win := main_win,
       zn_lock_count := 0, zn_age := 1, zn_dirty_rc := SetRectEmpty, idx_mask_rect := 0\<rparr>"

definition AllocZOrderNodeEx ::
  "DESKTOP \<Rightarrow> int \<Rightarrow> HWND \<Rightarrow> HWND \<Rightarrow> dword \<Rightarrow> RECT \<Rightarrow> string option \<Rightarrow> int \<times> DESKTOP" where
  "AllocZOrderNodeEx d0 cli hWnd main_win flags rc caption =
     (let ty = flags AND ZOF_TYPE_MASK; vis = (flags AND ZOF_VISIBLE \<noteq> 0)
      in case level_with_room d0 ty of
           None \<Rightarrow> (- 1, d0)
         | Some l \<Rightarrow>
             let d = close_menu_if vis d0;
                 fl = (if IS_TYPE_SPECIAL ty then flags OR ZOF_IF_SPECIAL else flags)
             in case take_slot d ty of
                  (None, bmp) \<Rightarrow> (- 1, d\<lparr>zi_usage_bmp := bmp\<rparr>)
                | (Some k, bmp) \<Rightarrow>
                    let d1 = d\<lparr>zi_usage_bmp := bmp,
                               nr_nodes_in_levels := (nr_nodes_in_levels d)[l := nr_nodes_in_levels d ! l + 1]\<rparr>;
                        d2 = upd_node k (new_znode hWnd main_win fl rc cli) (chain_new l k d1);
                        d3 = (if fl AND ZOF_TW_TROUNDCNS \<noteq> 0 \<or> fl AND ZOF_TW_BROUNDCNS \<noteq> 0
                              then alloc_mask_rects_for_round_corners k fl
                                     (SetRect 0 0 (right rc - left rc) (bottom rc - top rc)) d2
                              else d2);
                        d4 = upd_node k (\<lambda>n. n\<lparr>zn_caption := caption\<rparr>) d3
                    in (int k, if vis then update_on_new_visible_znode k ty d4 else d4))"

section \<open>Release\<close>

definition prepare_to_delete_visible_znode :: "nat \<Rightarrow> dword \<Rightarrow> DESKTOP \<Rightarrow> DESKTOP" where
  "prepare_to_delete_visible_znode i ty d =
     (let d1 = set_update_rgn (zn_rc (nodes_of d i)) d;
          d2 = (if visible (nodes_of d1 i) then
                  refer_desktop
                    (foldl (\<lambda>d level. if ty > zof_type_for_level level
                                     then update_from (first_in_levels d ! level) d else d)
                       (update_from (zn_next (nodes_of d1 i)) d1) [0..<NR_ZORDER_LEVELS])
                else d1);
          d3 = d2\<lparr>next_active := nat (get_next_activable_mainwin d2 (int i)), old_active := active_win d2\<rparr>
      in if i = active_win d3 then d3\<lparr>active_win := 0\<rparr> else d3)"

definition update_after_delete_visible_znode :: "nat \<Rightarrow> RECT \<Rightarrow> DESKTOP \<Rightarrow> DESKTOP" where
  "update_after_delete_visible_znode i rc d =
     (let d1 = update_dirty rc d
      in if i = old_active d1
         then snd (dskSetActiveZOrderNode d1 (zn_cli (nodes_of d1 (next_active d1))) (int (next_active d1)))
         else d1)"

definition unchain_znode :: "nat \<Rightarrow> DESKTOP \<Rightarrow> DESKTOP" where
  "unchain_znode i d =
     upd_node i (\<lambda>n. n\<lparr>zn_flags := 0\<rparr>)
       (d\<lparr>nodes_of := unlink (nodes_of d) i, zi_usage_bmp := slot_clear_use (zi_usage_bmp d) i\<rparr>)"

definition FreeZOrderNodeEx :: "DESKTOP \<Rightarrow> int \<Rightarrow> int \<times> DESKTOP" where
  "FreeZOrderNodeEx d0 idx_znode =
     (if IS_INVALID_ZIDX d0 idx_znode then (- 1, d0)
      else
        let i = nat idx_znode; n = nodes_of d0 i; ty = zn_type n; rc = zn_rc n; vis = visible n;
            d = close_menu_if vis d0; level = ZOF_TYPE_TO_LEVEL_IDX ty
        in if level < 0 \<or> level > int ZLIDX_LAUNCHER then (- 1, d)
           else
             let l = nat level;
                 d1 = (if vis then prepare_to_delete_visible_znode i ty d else d);
                 d2 = upd_node i (\<lambda>n. n\<lparr>zn_hwnd := HWND_NULL, zn_cli := - 1, zn_caption := None\<rparr>) d1;
                 d3 = (if idx_mask_rect (nodes_of d2 i) \<noteq> 0 then release_znode_maskrect d2 i else d2);
                 d4 = unchain_znode i d3;
                 d5 = (if first_in_levels d4 ! l = i
                       then d4\<lparr>first_in_levels := (first_in_levels d4)[l := zn_next (nodes_of d4 i)]\<rparr> else d4);
                 d6 = d5\<lparr>nr_nodes_in_levels := (nr_nodes_in_levels d5)[l := nr_nodes_in_levels d5 ! l - 1]\<rparr>
             in (0, if vis then erase_desktop rc (update_after_delete_visible_znode i rc d6) else d6))"

section \<open>Raising, showing, hiding\<close>

definition update_client_window_rgn :: "HWND \<Rightarrow> DESKTOP \<Rightarrow> DESKTOP" where
  "update_client_window_rgn h d =
     (if h \<noteq> HWND_NULL
      then d\<lparr>d_events := d_events d @ map (UpdateWindow h) (cliprects (d_rgns d (Rgn 0)))\<rparr> else d)"

definition chain_raised :: "nat \<Rightarrow> nat \<Rightarrow> DESKTOP \<Rightarrow> DESKTOP" where
  "chain_raised l i d =
     (let ns = unlink (nodes_of d) i; f = first_in_levels d ! l
      in if \<not> always_top (ns f)
         then d\<lparr>nodes_of := link_raised ns f i, first_in_levels := (first_in_levels d)[l := i]\<rparr>
         else d\<lparr>nodes_of := link_after ns (last_top (MAX_NR_ZNODES d) ns f f) i\<rparr>)"

definition dskMove2Top :: "DESKTOP \<Rightarrow> int \<Rightarrow> int \<times> DESKTOP" where
  "dskMove2Top d0 idx_znode =
     (if IS_INVALID_ZIDX d0 idx_znode then (- 1, d0)
      else
        let i = nat idx_znode; level = ZOF_TYPE_TO_LEVEL_IDX (zn_type (nodes_of d0 i)); l = nat level
        in if level < 0 \<or> level > int ZLIDX_LAUNCHER then (- 1, d0)
           else if first_in_levels d0 ! l = i then (0, d0)
           else
             let d = close_menu_if True d0;
                 d1 = d\<lparr>d_rgns := (d_rgns d)(Rgn 0 := EmptyClipRgn (d_rgns d (Rgn 0)))\<rparr>;
                 n = nodes_of d1 i;
                 d2 = (if visible n then
                         case for_chain (MAX_NR_ZNODES d1) i (cb_raise_over (zn_rc n)) (first_in_levels d1 ! l)
                                (d_rgns d1, nodes_of d1, 0) of (st, ns, _) \<Rightarrow> d1\<lparr>d_rgns := st, nodes_of := ns\<rparr>
                       else d1);
                 d3 = upd_node i age_up (chain_raised l i d2);
                 n3 = nodes_of d3 i
             in (0, if visible n3 \<and> zn_hwnd n3 \<noteq> HWND_NULL then update_client_window_rgn (zn_hwnd n3) d3 else d3))"

definition dskSetZNodeAlwaysTop :: "DESKTOP \<Rightarrow> int \<Rightarrow> bool \<Rightarrow> int \<times> DESKTOP" where
  "dskSetZNodeAlwaysTop d idx_znode fSet =
     (if IS_INVALID_ZIDX d idx_znode then (- 1, d)
      else
        let d1 = upd_node (nat idx_znode)
                   (if fSet then set_flag ZOF_IF_ALWAYSTOP else clear_flag ZOF_IF_ALWAYSTOP) d
        in (0, snd (dskMove2Top d1 idx_znode)))"

definition dskSetZNodeGestureFlags :: "DESKTOP \<Rightarrow> int \<Rightarrow> dword \<Rightarrow> int \<times> DESKTOP" where
  "dskSetZNodeGestureFlags d idx_znode flags =
     (if IS_INVALID_ZIDX d idx_znode then (- 1, d)
      else (0, upd_node (nat idx_znode) (set_flag (flags AND ZOF_GESTURE_FLAGS_MASK))
                 (upd_node (nat idx_znode) (clear_flag ZOF_GESTURE_FLAGS_MASK) d)))"

definition dskEnableZOrderNode :: "DESKTOP \<Rightarrow> int \<Rightarrow> bool \<Rightarrow> int \<times> DESKTOP" where
  "dskEnableZOrderNode d idx_znode enable =
     (if IS_INVALID_ZIDX d idx_znode then (- 1, d)
      else (0, upd_node (nat idx_znode) (if enable then clear_flag ZOF_DISABLED else set_flag ZOF_DISABLED) d))"

definition dskShowWindow :: "DESKTOP \<Rightarrow> int \<Rightarrow> int \<times> DESKTOP" where
  "dskShowWindow d0 idx_znode =
     (if IS_INVALID_ZIDX d0 idx_znode then (- 1, d0)
      else
        let i = nat idx_znode; ty = zn_type (nodes_of d0 i); level = ZOF_TYPE_TO_LEVEL_IDX ty
        in if level < 0 \<or> level > int ZLIDX_LAUNCHER then (- 1, d0)
           else if visible (nodes_of d0 i) then (0, d0)
           else
             let d = close_menu_if True d0; rc = zn_rc (nodes_of d i);
                 step = (\<lambda>t zt d. if ty > t then intersect_levels rc zt d else d);
                 d1 = step ZOF_TYPE_TOOLTIP 0x80 (step ZOF_TYPE_GLOBAL 0x40 (step ZOF_TYPE_SCREENLOCK 0x20
                        (step ZOF_TYPE_DOCKER 0x10 (step ZOF_TYPE_HIGHER 0x08 (step ZOF_TYPE_NORMAL 0x04
                          (step ZOF_TYPE_LAUNCHER 0x02 d))))));
                 d2 = intersect_from rc (zn_next (nodes_of d1 i)) d1;
                 d3 = age_desktop rc d2
             in (0, upd_node i (set_flag ZOF_VISIBLE) (upd_node i age_up d3)))"

definition dskHideWindow :: "DESKTOP \<Rightarrow> int \<Rightarrow> int \<times> DESKTOP" where
  "dskHideWindow d0 idx_znode =
     (if IS_INVALID_ZIDX d0 idx_znode then (- 1, d0)
      else
        let i = nat idx_znode; ty = zn_type (nodes_of d0 i); level = ZOF_TYPE_TO_LEVEL_IDX ty
        in if level < 0 \<or> level > int ZLIDX_LAUNCHER then (- 1, d0)
           else if \<not> visible (nodes_of d0 i) then (0, d0)
           else
             let d = set_update_rgn (zn_rc (nodes_of (close_menu_if True d0) i)) (close_menu_if True d0);
                 step = (\<lambda>t zt d. if ty > t then update_levels zt d else d);
                 d1 = (if visible (nodes_of d i) then
                         refer_desktop (step ZOF_TYPE_LAUNCHER 0x02 (step ZOF_TYPE_NORMAL 0x04
                           (step ZOF_TYPE_HIGHER 0x08 (step ZOF_TYPE_DOCKER 0x10 (step ZOF_TYPE_SCREENLOCK 0x20
                             (step ZOF_TYPE_GLOBAL 0x40 (update_from (zn_next (nodes_of d i)) d)))))))
                       else d);
                 n1 = nodes_of d1 i;
                 d2 = (if i \<noteq> 0 \<and> has_flag ZOF_TF_MAINWIN n1 \<and> visible n1
                       then post_msg_by_znode_p i MSG_KILLFOCUS 0
                              (post_msg_by_znode_p i MSG_ACTIVE 0 (post_msg_by_znode_p i MSG_NCACTIVATE 0 d1))
                       else d1);
                 d3 = upd_node i (clear_flag ZOF_VISIBLE) d2;
                 rc = zn_rc (nodes_of d3 i)
             in (0, erase_desktop rc (update_dirty rc d3)))"

end
