(* ===== verification/MG_ZOrderSpec.thy ===== *)
theory MG_ZOrderSpec
  imports MG_ZOrder
begin

text \<open>
  What the z-order promises: seven lists of nodes, from the top level to the bottom one. The relation
  \<open>zrep\<close> says that a state represents such lists; every operation is the operation on the lists that
  it is named for.
\<close>

section \<open>The lists of a state\<close>

definition ztype :: "nat \<Rightarrow> dword" where
  "ztype l = [ZOF_TYPE_TOOLTIP, ZOF_TYPE_GLOBAL, ZOF_TYPE_SCREENLOCK, ZOF_TYPE_DOCKER, ZOF_TYPE_HIGHER,
     ZOF_TYPE_NORMAL, ZOF_TYPE_LAUNCHER] ! l"

definition slot_of_type :: "'a ZORDERINFO_scheme \<Rightarrow> dword \<Rightarrow> nat \<Rightarrow> bool" where
  "slot_of_type z ty x \<longleftrightarrow>
     (if IS_TYPE_SPECIAL ty then 0 < x \<and> x < MAX_NR_SPECIAL_ZNODES z
      else 8 * LEN_USAGE_BMP_SPECIAL z \<le> x \<and> x < MAX_NR_ZNODES z)"

definition zrep :: "'a ZORDERINFO_scheme \<Rightarrow> nat list list \<Rightarrow> bool" where
  "zrep z L \<longleftrightarrow>
     length L = 7 \<and> length (first_in_levels z) = 7 \<and> length (nr_nodes_in_levels z) = 7
     \<and> LEN_USAGE_BMP_SPECIAL z + LEN_USAGE_BMP_GENERAL z \<le> length (zi_usage_bmp z)
     \<and> (\<forall>l < 7. dseg (nodes_of z) 0 (first_in_levels z ! l) (L ! l) 0 \<and> distinct (L ! l)
          \<and> nr_nodes_in_levels z ! l = int (length (L ! l))
          \<and> length (L ! l) \<le> max_nr_nodes_in_levels z ! l
          \<and> (\<forall>x \<in> set (L ! l). zn_type (nodes_of z x) = ztype l \<and> slot_of_type z (ztype l) x))
     \<and> (\<forall>x. x < MAX_NR_SPECIAL_ZNODES z \<or> 8 * LEN_USAGE_BMP_SPECIAL z \<le> x \<and> x < MAX_NR_ZNODES z \<longrightarrow>
          slot_idle (zi_usage_bmp z) x = (x \<noteq> 0 \<and> (\<forall>l < 7. x \<notin> set (L ! l))))"

lemma less_7_cases: "l < 7 \<Longrightarrow> l = 0 \<or> l = 1 \<or> l = 2 \<or> l = 3 \<or> l = 4 \<or> l = 5 \<or> l = (6::nat)"
  by arith

lemma ztype_simps [simp]:
  "ztype 0 = ZOF_TYPE_TOOLTIP" "ztype (Suc 0) = ZOF_TYPE_GLOBAL" "ztype 1 = ZOF_TYPE_GLOBAL"
  "ztype 2 = ZOF_TYPE_SCREENLOCK" "ztype 3 = ZOF_TYPE_DOCKER" "ztype 4 = ZOF_TYPE_HIGHER"
  "ztype 5 = ZOF_TYPE_NORMAL" "ztype 6 = ZOF_TYPE_LAUNCHER"
  by (simp_all add: ztype_def)

lemma ztype_inj: "l < 7 \<Longrightarrow> m < 7 \<Longrightarrow> ztype l = ztype m \<Longrightarrow> l = m"
proof -
  assume l: "l < 7" and m: "m < 7" and eq: "ztype l = ztype m"
  have "ztype k = of_nat (8 - k) * 0x10000000" if "k < 7" for k
    using less_7_cases [OF that] by (elim disjE) (simp_all add: zof_type_defs)
  with l m eq have "(of_nat (8 - l) :: dword) * 0x10000000 = of_nat (8 - m) * 0x10000000" by metis
  then have "unat ((of_nat (8 - l) :: dword) * 0x10000000) = unat ((of_nat (8 - m) :: dword) * 0x10000000)" by simp
  then have "(8 - l) * 0x10000000 = (8 - m) * 0x10000000"
    by (simp add: unat_word_ariths unat_of_nat)
  with l m show "l = m" by simp
qed

lemma level_of_ztype: "l < 7 \<Longrightarrow> ZOF_TYPE_TO_LEVEL_IDX (ztype l) = int l"
  by (drule less_7_cases, elim disjE) (simp_all add: zof_type_defs ZOF_TYPE_TO_LEVEL_IDX_def drop_bit_eq_div)

lemma level_with_room_ztype:
  "l < 7 \<Longrightarrow> level_with_room z (ztype l) =
     (if nr_nodes_in_levels z ! l < int (max_nr_nodes_in_levels z ! l) then Some l else None)"
  by (drule less_7_cases, elim disjE) (simp_all add: zof_type_defs level_with_room_def Let_def)

lemma zrepD:
  assumes "zrep z L"
  shows "length L = 7" "length (first_in_levels z) = 7" "length (nr_nodes_in_levels z) = 7"
    "LEN_USAGE_BMP_SPECIAL z + LEN_USAGE_BMP_GENERAL z \<le> length (zi_usage_bmp z)"
    "\<And>l. l < 7 \<Longrightarrow> dseg (nodes_of z) 0 (first_in_levels z ! l) (L ! l) 0"
    "\<And>l. l < 7 \<Longrightarrow> distinct (L ! l)"
    "\<And>l. l < 7 \<Longrightarrow> nr_nodes_in_levels z ! l = int (length (L ! l))"
    "\<And>l. l < 7 \<Longrightarrow> length (L ! l) \<le> max_nr_nodes_in_levels z ! l"
    "\<And>l x. l < 7 \<Longrightarrow> x \<in> set (L ! l) \<Longrightarrow> zn_type (nodes_of z x) = ztype l"
    "\<And>l x. l < 7 \<Longrightarrow> x \<in> set (L ! l) \<Longrightarrow> slot_of_type z (ztype l) x"
    "\<And>x. x < MAX_NR_SPECIAL_ZNODES z \<or> 8 * LEN_USAGE_BMP_SPECIAL z \<le> x \<and> x < MAX_NR_ZNODES z \<Longrightarrow>
       slot_idle (zi_usage_bmp z) x = (x \<noteq> 0 \<and> (\<forall>l < 7. x \<notin> set (L ! l)))"
proof -
  note Z = assms [unfolded zrep_def]
  from Z show "length L = 7" "length (first_in_levels z) = 7" "length (nr_nodes_in_levels z) = 7"
    "LEN_USAGE_BMP_SPECIAL z + LEN_USAGE_BMP_GENERAL z \<le> length (zi_usage_bmp z)" by simp_all
  from Z have A: "\<forall>l < 7. dseg (nodes_of z) 0 (first_in_levels z ! l) (L ! l) 0 \<and> distinct (L ! l)
      \<and> nr_nodes_in_levels z ! l = int (length (L ! l)) \<and> length (L ! l) \<le> max_nr_nodes_in_levels z ! l
      \<and> (\<forall>x \<in> set (L ! l). zn_type (nodes_of z x) = ztype l \<and> slot_of_type z (ztype l) x)" by simp
  show "\<And>l. l < 7 \<Longrightarrow> dseg (nodes_of z) 0 (first_in_levels z ! l) (L ! l) 0" "\<And>l. l < 7 \<Longrightarrow> distinct (L ! l)"
    "\<And>l. l < 7 \<Longrightarrow> nr_nodes_in_levels z ! l = int (length (L ! l))"
    "\<And>l. l < 7 \<Longrightarrow> length (L ! l) \<le> max_nr_nodes_in_levels z ! l"
    "\<And>l x. l < 7 \<Longrightarrow> x \<in> set (L ! l) \<Longrightarrow> zn_type (nodes_of z x) = ztype l"
    "\<And>l x. l < 7 \<Longrightarrow> x \<in> set (L ! l) \<Longrightarrow> slot_of_type z (ztype l) x" using A by simp_all
  from Z have B: "\<forall>x. x < MAX_NR_SPECIAL_ZNODES z \<or> 8 * LEN_USAGE_BMP_SPECIAL z \<le> x \<and> x < MAX_NR_ZNODES z \<longrightarrow>
      slot_idle (zi_usage_bmp z) x = (x \<noteq> 0 \<and> (\<forall>l < 7. x \<notin> set (L ! l)))" by (elim conjE)
  then show "\<And>x. x < MAX_NR_SPECIAL_ZNODES z \<or> 8 * LEN_USAGE_BMP_SPECIAL z \<le> x \<and> x < MAX_NR_ZNODES z \<Longrightarrow>
      slot_idle (zi_usage_bmp z) x = (x \<noteq> 0 \<and> (\<forall>l < 7. x \<notin> set (L ! l)))" by blast
qed

lemma zrep_disjoint:
  assumes "zrep z L" "l < 7" "m < 7" "x \<in> set (L ! l)" "x \<in> set (L ! m)"
  shows "l = m"
  using zrepD(9) [OF assms(1)] assms ztype_inj by metis

lemma zrep_not_0:
  assumes "zrep z L" "l < 7" "x \<in> set (L ! l)"
  shows "x \<noteq> 0"
  using dseg_not_0 [OF zrepD(5) [OF assms(1,2)]] assms(3) by metis

lemma max_le_all: "l < 7 \<Longrightarrow> max_nr_nodes_in_levels z ! l \<le> MAX_NR_ZNODES z"
  by (drule less_7_cases) (auto simp: MAX_NR_ZNODES_def MAX_NR_SPECIAL_ZNODES_def MAX_NR_GENERAL_ZNODES_def)

lemma zrep_length:
  assumes "zrep z L" "l < 7"
  shows "length (L ! l) \<le> MAX_NR_ZNODES z"
  using zrepD(8) [OF assms] max_le_all [OF assms(2), of z] by linarith

lemma slot_less: "slot_of_type z ty x \<Longrightarrow> x < MAX_NR_ZNODES z"
  by (auto simp: slot_of_type_def MAX_NR_ZNODES_def split: if_splits)

lemma zrep_valid:
  assumes "zrep z L" "l < 7" "x \<in> set (L ! l)"
  shows "\<not> IS_INVALID_ZIDX z (int x)"
  using slot_less [OF zrepD(10) [OF assms]] by (simp add: IS_INVALID_ZIDX_def)

section \<open>Changes that keep the order\<close>

definition node_like :: "ZORDERNODE \<Rightarrow> ZORDERNODE \<Rightarrow> bool" where
  "node_like n n' \<longleftrightarrow> zn_next n' = zn_next n \<and> zn_prev n' = zn_prev n \<and> zn_rc n' = zn_rc n
     \<and> zn_hwnd n' = zn_hwnd n \<and> zn_main_win n' = zn_main_win n \<and> zn_cli n' = zn_cli n
     \<and> idx_mask_rect n' = idx_mask_rect n
     \<and> zn_flags n' AND NOT ZOF_IF_REFERENCE = zn_flags n AND NOT ZOF_IF_REFERENCE"

lemma node_like_refl [simp]: "node_like n n"
  by (simp add: node_like_def)

lemma node_like_trans [trans]: "node_like a b \<Longrightarrow> node_like b c \<Longrightarrow> node_like a c"
  by (simp add: node_like_def)

lemma node_like_and:
  assumes "node_like n n'" "f AND NOT ZOF_IF_REFERENCE = f"
  shows "zn_flags n' AND f = zn_flags n AND f"
proof -
  have "zn_flags m AND f = (zn_flags m AND NOT ZOF_IF_REFERENCE) AND f" for m :: ZORDERNODE
  proof -
    have "zn_flags m AND f = zn_flags m AND (f AND NOT ZOF_IF_REFERENCE)" by (simp only: assms(2))
    then show ?thesis by (simp only: and.assoc and.commute and.left_commute)
  qed
  with assms(1) show ?thesis unfolding node_like_def by metis
qed

lemma node_like_flag: "node_like n n' \<Longrightarrow> f AND NOT ZOF_IF_REFERENCE = f \<Longrightarrow> has_flag f n' = has_flag f n"
  by (simp add: has_flag_def node_like_and)

lemma node_like_type: "node_like n n' \<Longrightarrow> zn_type n' = zn_type n"
  by (simp add: zn_type_def node_like_and ZOF_TYPE_MASK_def ZOF_IF_REFERENCE_def)

lemma node_like_flags:
  assumes "node_like n n'"
  shows "visible n' = visible n" "always_top n' = always_top n" "has_flag ZOF_DISABLED n' = has_flag ZOF_DISABLED n"
    "has_flag ZOF_TF_MAINWIN n' = has_flag ZOF_TF_MAINWIN n" "has_flag ZOF_TF_TOOLWIN n' = has_flag ZOF_TF_TOOLWIN n"
  by (simp_all add: node_like_flag [OF assms] ZOF_VISIBLE_def ZOF_IF_ALWAYSTOP_def ZOF_DISABLED_def
      ZOF_TF_MAINWIN_def ZOF_TF_TOOLWIN_def ZOF_IF_REFERENCE_def)

lemma node_like_age_up [simp]: "node_like n (age_up n)"
  by (simp add: node_like_def age_up_def)

lemma node_like_reference [simp]:
  "node_like n (set_flag ZOF_IF_REFERENCE n)" "node_like n (clear_flag ZOF_IF_REFERENCE n)"
  by (simp_all add: node_like_def set_flag_def clear_flag_def bit.conj_disj_distrib2 and.assoc)

definition cb_quiet :: "('c \<Rightarrow> ZORDERNODE \<Rightarrow> bool \<times> 'c \<times> ZORDERNODE) \<Rightarrow> bool" where
  "cb_quiet cb \<longleftrightarrow> (\<forall>c n. node_like n (snd (snd (cb c n))))"

lemma cb_quiet_callbacks [simp]:
  "cb_quiet cb_intersect_rc" "cb_quiet (cb_update_rc mr)" "cb_quiet (cb_update_znode rc)" "cb_quiet (cb_raise_over rc)"
proof -
  have "node_like n (set_flag ZOF_IF_REFERENCE (age_up n))" for n
    using node_like_trans node_like_age_up node_like_reference(1) by blast
  then show "cb_quiet (cb_update_rc mr)" by (auto simp: cb_quiet_def cb_update_rc_def split: prod.splits)
qed (auto simp: cb_quiet_def cb_intersect_rc_def cb_update_znode_def cb_raise_over_def)

lemma for_chain_quiet:
  assumes "cb_quiet cb"
  shows "node_like (ns x) (fst (snd (for_chain k stop cb slot (c, ns, m))) x)"
proof (induction k arbitrary: slot c ns m)
  case (Suc k)
  obtain b c' n where cb: "cb c (ns slot) = (b, c', n)" by (cases "cb c (ns slot)")
  with assms have n: "node_like (ns slot) n" unfolding cb_quiet_def by (metis snd_conv)
  then have "node_like (ns x) ((ns(slot := n)) x)" by simp
  from node_like_trans [OF this Suc.IH [where ns = "ns(slot := n)"]]
  show ?case by (simp add: cb Let_def del: fun_upd_apply)
qed simp

lemma do_for_all_quiet:
  assumes "cb_quiet cb"
  shows "node_like (nodes_of z x) (fst (snd (do_for_all_znodes cb types c z)) x)"
proof -
  have "node_like (nodes_of z x) (fst (snd (foldl (\<lambda>r level. if types AND zts_for_level ! level \<noteq> 0
      then for_chain (MAX_NR_ZNODES z) 0 cb (first_in_levels z ! level) r else r) (c, nodes_of z, 0) ls)) x)" for ls
  proof (induction ls rule: rev_induct)
    case (snoc l ls)
    let ?r = "foldl (\<lambda>r level. if types AND zts_for_level ! level \<noteq> 0
      then for_chain (MAX_NR_ZNODES z) 0 cb (first_in_levels z ! level) r else r) (c, nodes_of z, 0) ls"
    obtain c' ns' m' where r: "?r = (c', ns', m')" by (cases ?r)
    from snoc r for_chain_quiet [OF assms, of ns' x] show ?case by (auto intro: node_like_trans)
  qed simp
  then show ?thesis by (simp add: do_for_all_znodes_def)
qed

definition same_order :: "'a ZORDERINFO_scheme \<Rightarrow> 'a ZORDERINFO_scheme \<Rightarrow> bool" where
  "same_order d d' \<longleftrightarrow> (\<forall>x. node_like (nodes_of d x) (nodes_of d' x))
     \<and> first_in_levels d' = first_in_levels d \<and> nr_nodes_in_levels d' = nr_nodes_in_levels d
     \<and> max_nr_nodes_in_levels d' = max_nr_nodes_in_levels d \<and> zi_usage_bmp d' = zi_usage_bmp d
     \<and> maskrects d' = maskrects d \<and> maskrect_usage_bmp d' = maskrect_usage_bmp d"

lemma same_order_refl [simp]: "same_order d d"
  by (simp add: same_order_def)

lemma same_order_trans [trans]: "same_order a b \<Longrightarrow> same_order b c \<Longrightarrow> same_order a c"
  unfolding same_order_def by (metis node_like_trans)

lemma same_order_MAX:
  assumes "same_order d d'"
  shows "MAX_NR_ZNODES d' = MAX_NR_ZNODES d" "MAX_NR_SPECIAL_ZNODES d' = MAX_NR_SPECIAL_ZNODES d"
    "LEN_USAGE_BMP_SPECIAL d' = LEN_USAGE_BMP_SPECIAL d" "LEN_USAGE_BMP_GENERAL d' = LEN_USAGE_BMP_GENERAL d"
    "IS_INVALID_ZIDX d' = IS_INVALID_ZIDX d"
  using assms by (simp_all add: same_order_def MAX_NR_ZNODES_def MAX_NR_SPECIAL_ZNODES_def
      MAX_NR_GENERAL_ZNODES_def LEN_USAGE_BMP_SPECIAL_def LEN_USAGE_BMP_GENERAL_def IS_INVALID_ZIDX_def fun_eq_iff)

lemma zrep_same_order:
  assumes "zrep d L" "same_order d d'"
  shows "zrep d' L"
proof -
  note Z = zrepD [OF assms(1)] and M = same_order_MAX [OF assms(2)]
  have n: "node_like (nodes_of d x) (nodes_of d' x)" for x using assms(2) by (simp add: same_order_def)
  have f: "first_in_levels d' = first_in_levels d" "nr_nodes_in_levels d' = nr_nodes_in_levels d"
    "max_nr_nodes_in_levels d' = max_nr_nodes_in_levels d" "zi_usage_bmp d' = zi_usage_bmp d"
    using assms(2) by (simp_all add: same_order_def)
  have seg: "dseg (nodes_of d') 0 (first_in_levels d ! l) (L ! l) 0" if "l < 7" for l
    by (rule iffD1 [OF dseg_cong Z(5) [OF that]]) (use n in \<open>simp add: node_like_def\<close>)
  have ty: "zn_type (nodes_of d' x) = zn_type (nodes_of d x)" for x by (rule node_like_type [OF n])
  have sl: "slot_of_type d' t x = slot_of_type d t x" for t x by (simp add: slot_of_type_def M)
  show ?thesis unfolding zrep_def f ty sl M using Z seg by simp
qed

named_theorems quiet \<open>operations that keep the order\<close>

lemma quiet_upd_node [quiet]: "(\<And>n. node_like n (f n)) \<Longrightarrow> same_order d (upd_node i f d)"
  by (simp add: same_order_def upd_node_def)

lemma quiet_after: "same_order d (f d) \<Longrightarrow> same_order c d \<Longrightarrow> same_order c (f d)"
  by (rule same_order_trans)

lemma quiet_foldl: "(\<And>d l. same_order d (f d l)) \<Longrightarrow> same_order d (foldl f d ls)"
  by (induction ls arbitrary: d) (auto intro: same_order_trans)

lemma quiet_set_update_rgn [quiet]: "same_order d (set_update_rgn rc d)"
  by (simp add: same_order_def set_update_rgn_def)

lemma quiet_update_levels [quiet]: "same_order d (update_levels types d)"
  using do_for_all_quiet [where z = d and cb = "cb_update_rc (maskrects d)" and c = "d_rgns d"]
  by (auto simp: same_order_def update_levels_def split: prod.splits) (metis fst_conv snd_conv)

lemma quiet_update_from [quiet]: "same_order d (update_from slot d)"
  using for_chain_quiet [where ns = "nodes_of d" and cb = "cb_update_rc (maskrects d)" and c = "d_rgns d"]
  by (auto simp: same_order_def update_from_def split: prod.splits) (metis fst_conv snd_conv)

lemma quiet_intersect_levels [quiet]: "same_order d (intersect_levels rc types d)"
  using do_for_all_quiet [where z = d and cb = cb_intersect_rc and c = rc]
  by (auto simp: same_order_def intersect_levels_def split: prod.splits) (metis fst_conv snd_conv)

lemma quiet_intersect_from [quiet]: "same_order d (intersect_from rc slot d)"
  using for_chain_quiet [where ns = "nodes_of d" and cb = cb_intersect_rc and c = rc]
  by (auto simp: same_order_def intersect_from_def split: prod.splits) (metis fst_conv snd_conv)

lemma quiet_update_dirty [quiet]: "same_order d (update_dirty rc d)"
  using do_for_all_quiet [where z = d and cb = "cb_update_znode rc" and c = "d_events d"]
  by (auto simp: same_order_def update_dirty_def split: prod.splits) (metis fst_conv snd_conv)

lemma quiet_age_desktop [quiet]: "same_order d (age_desktop rc d)"
  by (simp add: age_desktop_def quiet)

lemma same_order_upd [simp]:
  "same_order (d\<lparr>d_rgns := st\<rparr>) e = same_order d e" "same_order (d\<lparr>d_events := ev\<rparr>) e = same_order d e"
  "same_order d (e\<lparr>d_rgns := st\<rparr>) = same_order d e" "same_order d (e\<lparr>d_events := ev\<rparr>) = same_order d e"
  "same_order d (e\<lparr>cli_trackmenu := t\<rparr>) = same_order d e" "same_order d (e\<lparr>nr_popupmenus := k\<rparr>) = same_order d e"
  "same_order d (e\<lparr>active_win := a\<rparr>) = same_order d e" "same_order d (e\<lparr>old_active := a\<rparr>) = same_order d e"
  "same_order d (e\<lparr>next_active := a\<rparr>) = same_order d e" "same_order d (e\<lparr>menu_nodes := mn\<rparr>) = same_order d e"
  by (simp_all add: same_order_def)

lemma quiet_refer_desktop [quiet]: "same_order d (refer_desktop d)"
proof -
  have "same_order c (upd_node 0 (set_flag ZOF_IF_REFERENCE) (upd_node 0 age_up c))" for c
    by (rule same_order_trans; rule quiet; simp)
  from this [of "d\<lparr>d_rgns := st\<rparr>" for st] show ?thesis
    by (auto simp: refer_desktop_def Let_def split: prod.splits)
qed

lemma quiet_erase_desktop [quiet]: "same_order d (erase_desktop rc d)"
  using quiet_upd_node [of "clear_flag ZOF_IF_REFERENCE" "d\<lparr>d_events := ev\<rparr>" for ev]
  by (simp add: erase_desktop_def)

lemma quiet_srvForceCloseMenu [quiet]: "same_order d (srvForceCloseMenu d)"
  unfolding srvForceCloseMenu_def Let_def
  by (auto intro!: quiet_after [OF quiet_erase_desktop] quiet_after [OF quiet_update_dirty]
      quiet_after [OF quiet_refer_desktop] quiet_after [OF quiet_update_levels] quiet)

lemma quiet_close_menu_if [quiet]: "same_order d (close_menu_if b d)"
  by (simp add: close_menu_if_def quiet)

lemma quiet_post_msg [quiet]: "same_order d (post_msg_by_znode_p i msg w d)"
  by (simp add: post_msg_by_znode_p_def Let_def)

lemma quiet_set_active [quiet]: "same_order d (snd (dskSetActiveZOrderNode d cli i))"
proof -
  have p: "same_order c (post_msg_by_znode_p i m1 w1 (post_msg_by_znode_p i m2 w2 (post_msg_by_znode_p i m3 w3 e)))"
    if "same_order c e" for c e i m1 m2 m3 w1 w2 w3
    by (intro quiet_after [OF quiet_post_msg] that)
  have a: "same_order d ((close_menu_if True d)\<lparr>active_win := j\<rparr>)" for j by (simp add: quiet)
  have q: "same_order d (if P then post_msg_by_znode_p i m1 w1 (post_msg_by_znode_p i m2 w2 (post_msg_by_znode_p i m3 w3 e)) else e)"
    if "same_order d e" for P e i m1 m2 m3 w1 w2 w3 using that p by simp
  show ?thesis
    unfolding dskSetActiveZOrderNode_def Let_def
    by (split if_split, intro conjI impI, simp, split if_split, intro conjI impI, simp, unfold snd_conv, intro q a)
qed

lemma quiet_update_on_new [quiet]: "same_order d (update_on_new_visible_znode i ty d)"
  unfolding update_on_new_visible_znode_def Let_def
  by (intro quiet_after [OF quiet_age_desktop] quiet_foldl) (simp add: quiet)

lemma quiet_prepare [quiet]: "same_order d (prepare_to_delete_visible_znode i ty d)"
proof -
  have "same_order c (refer_desktop (foldl (\<lambda>d level. if ty > zof_type_for_level level
      then update_from (first_in_levels d ! level) d else d) (update_from s c) ls))" for c s ls
  proof (rule quiet_after [OF quiet_refer_desktop], rule same_order_trans [OF quiet_update_from], rule quiet_foldl)
    show "same_order d (if ty > zof_type_for_level l then update_from (first_in_levels d ! l) d else d)" for d l
      by (simp add: quiet)
  qed
  note p = this
  have q: "same_order d (if P then e\<lparr>active_win := 0\<rparr> else e)" if "same_order d e" for P and e :: DESKTOP
    using that by simp
  have r: "same_order d (if P then refer_desktop (foldl (\<lambda>d level. if ty > zof_type_for_level level
      then update_from (first_in_levels d ! level) d else d) (update_from s e) ls) else e)"
    if "same_order d e" for P s ls and e :: DESKTOP
    using that p [of e s ls] same_order_trans by (cases P) auto
  have s: "same_order d (e\<lparr>next_active := x, old_active := y\<rparr>)" if "same_order d e" for x y and e :: DESKTOP
    using that by simp
  show ?thesis unfolding prepare_to_delete_visible_znode_def Let_def
    by (intro q s r quiet_set_update_rgn)
qed

lemma quiet_after_delete [quiet]: "same_order d (update_after_delete_visible_znode i rc d)"
  unfolding update_after_delete_visible_znode_def Let_def
  by (auto intro: quiet_after [OF quiet_set_active] quiet)

lemma quiet_update_client_rgn [quiet]: "same_order d (update_client_window_rgn h d)"
  by (simp add: update_client_window_rgn_def)

section \<open>Changes of one list\<close>

definition relinked :: "nat set \<Rightarrow> znodes \<Rightarrow> znodes \<Rightarrow> bool" where
  "relinked S ns ns' \<longleftrightarrow> (\<forall>x. zn_flags (ns' x) = zn_flags (ns x) \<and> zn_rc (ns' x) = zn_rc (ns x)
     \<and> zn_hwnd (ns' x) = zn_hwnd (ns x) \<and> zn_main_win (ns' x) = zn_main_win (ns x)
     \<and> zn_cli (ns' x) = zn_cli (ns x) \<and> idx_mask_rect (ns' x) = idx_mask_rect (ns x)
     \<and> zn_age (ns' x) = zn_age (ns x)
     \<and> (x \<notin> S \<longrightarrow> zn_next (ns' x) = zn_next (ns x) \<and> zn_prev (ns' x) = zn_prev (ns x)))"

lemma relinked_mono: "relinked S ns ns' \<Longrightarrow> S \<subseteq> T \<Longrightarrow> relinked T ns ns'"
  unfolding relinked_def by blast

lemma relinked_trans: "relinked S ns ns' \<Longrightarrow> relinked S ns' ns'' \<Longrightarrow> relinked S ns ns''"
  unfolding relinked_def by metis

lemma relinked_new: "relinked {f, k} ns (link_new ns f k)"
  by (simp add: relinked_def link_new_def Let_def)

lemma relinked_raised: "relinked {f, k} ns (link_raised ns f k)"
  by (simp add: relinked_def link_raised_def Let_def)

lemma relinked_after: "pre \<noteq> k \<Longrightarrow> relinked {k, pre, zn_next (ns pre)} ns (link_after ns pre k)"
  by (simp add: relinked_def link_after_def Let_def)

lemma relinked_unlink: "relinked {zn_prev (ns i), zn_next (ns i), i} ns (unlink ns i)"
  by (simp add: relinked_def unlink_def Let_def)

lemma dseg_next_in:
  assumes "dseg ns p f xs 0" "x \<in> set xs"
  shows "zn_next (ns x) \<in> insert 0 (set xs)" "zn_prev (ns x) \<in> insert p (set xs)"
proof -
  from assms(2) obtain us vs where xs: "xs = us @ x # vs" by (auto simp: in_set_conv_decomp)
  with assms(1) have "zn_prev (ns x) = last (p # us)" "dseg ns x (zn_next (ns x)) vs 0" by (auto simp: dseg_append)
  with dseg_first [of ns x "zn_next (ns x)" vs]
  show "zn_next (ns x) \<in> insert 0 (set xs)" "zn_prev (ns x) \<in> insert p (set xs)"
    unfolding xs by (auto split: list.splits)
qed

text \<open>The list with a node put behind the leading always-top nodes.\<close>

definition put_top :: "znodes \<Rightarrow> nat \<Rightarrow> nat list \<Rightarrow> nat list" where
  "put_top ns k xs = takeWhile (\<lambda>x. always_top (ns x)) xs @ k # dropWhile (\<lambda>x. always_top (ns x)) xs"

lemma set_put_top: "set (put_top ns k xs) = insert k (set xs)"
  unfolding put_top_def by (metis set_append Un_insert_right list.simps(15) takeWhile_dropWhile_id)

lemma distinct_put_top: "distinct xs \<Longrightarrow> k \<notin> set xs \<Longrightarrow> distinct (put_top ns k xs)"
proof -
  assume "distinct xs" "k \<notin> set xs"
  moreover have "xs = takeWhile (\<lambda>x. always_top (ns x)) xs @ dropWhile (\<lambda>x. always_top (ns x)) xs" by simp
  ultimately show ?thesis unfolding put_top_def
    by (metis distinct.simps(2) distinct_append Un_iff disjoint_insert(1) insert_disjoint(1) list.simps(15) set_append)
qed

lemma length_put_top: "length (put_top ns k xs) = Suc (length xs)"
  unfolding put_top_def by (metis add_Suc_right length_Cons length_append takeWhile_dropWhile_id)

lemma put_top_cong:
  "(\<And>x. x \<in> set xs \<Longrightarrow> always_top (ns x) = always_top (ns' x)) \<Longrightarrow> put_top ns k xs = put_top ns' k xs"
  unfolding put_top_def by (metis (mono_tags, lifting) dropWhile_cong takeWhile_cong)

text \<open>Both ways of linking a node give this list.\<close>

lemma dseg_link_behind_tops:
  assumes "dseg ns 0 f xs 0" "k \<notin> set xs" "k \<noteq> 0" "distinct xs" "length xs \<le> n" "f \<noteq> 0" "always_top (ns f)"
  shows "dseg (link_after ns (last_top n ns f f) k) 0 f (put_top ns k xs) 0"
    "relinked (insert 0 (insert k (set xs))) ns (link_after ns (last_top n ns f f) k)"
proof -
  define t where "t = takeWhile (\<lambda>x. always_top (ns x)) xs"
  define w where "w = dropWhile (\<lambda>x. always_top (ns x)) xs"
  have xs: "xs = t @ w" by (simp add: t_def w_def)
  from assms(1,6) obtain xs' where "xs = f # xs'" by (cases xs) auto
  with assms(7) have "t \<noteq> []" by (simp add: t_def)
  have pre: "last_top n ns f f = last t"
    using last_top_spec [OF assms(1,5)] \<open>t \<noteq> []\<close> by (simp add: t_def)
  from \<open>t \<noteq> []\<close> have xs2: "xs = butlast t @ last t # w" by (simp add: xs)
  have "dseg (link_after ns (last t) k) 0 f (butlast t @ last t # k # w) 0"
    by (rule dseg_link_after) (use assms xs2 in auto)
  then show "dseg (link_after ns (last_top n ns f f) k) 0 f (put_top ns k xs) 0"
    using append_butlast_last_id [OF \<open>t \<noteq> []\<close>]
    unfolding pre put_top_def t_def [symmetric] w_def [symmetric] by (metis append.assoc append_Cons append_Nil)
  have "last t \<in> set xs" using xs2 by (metis in_set_conv_decomp)
  with assms(2) have "last t \<noteq> k" by auto
  from relinked_after [OF this, of ns] dseg_next_in(1) [OF assms(1) \<open>last t \<in> set xs\<close>] \<open>last t \<in> set xs\<close>
  show "relinked (insert 0 (insert k (set xs))) ns (link_after ns (last_top n ns f f) k)"
    unfolding pre by (rule_tac relinked_mono) auto
qed

lemma put_top_front: "xs = [] \<or> \<not> always_top (ns (hd xs)) \<Longrightarrow> put_top ns k xs = k # xs"
  by (cases xs) (auto simp: put_top_def)

lemma chain_new_spec:
  assumes "dseg (nodes_of d) 0 (first_in_levels d ! l) xs 0" "k \<notin> set xs" "k \<noteq> 0" "distinct xs"
    "length xs \<le> MAX_NR_ZNODES d" "l < length (first_in_levels d)"
  shows "dseg (nodes_of (chain_new l k d)) 0 (first_in_levels (chain_new l k d) ! l) (put_top (nodes_of d) k xs) 0"
    "relinked (insert 0 (insert k (set xs))) (nodes_of d) (nodes_of (chain_new l k d))"
    "chain_new l k d = d\<lparr>nodes_of := nodes_of (chain_new l k d), first_in_levels := (first_in_levels d)[l := first_in_levels (chain_new l k d) ! l]\<rparr>"
proof -
  let ?f = "first_in_levels d ! l" and ?ns = "nodes_of d"
  have f: "?f = (case xs of [] \<Rightarrow> 0 | x # _ \<Rightarrow> x)" by (rule dseg_first [OF assms(1)])
  have all: "dseg (nodes_of (chain_new l k d)) 0 (first_in_levels (chain_new l k d) ! l) (put_top (nodes_of d) k xs) 0
    \<and> relinked (insert 0 (insert k (set xs))) (nodes_of d) (nodes_of (chain_new l k d))
    \<and> chain_new l k d = d\<lparr>nodes_of := nodes_of (chain_new l k d), first_in_levels := (first_in_levels d)[l := first_in_levels (chain_new l k d) ! l]\<rparr>"
  proof (cases "?f = 0 \<or> \<not> always_top (?ns ?f)")
    case True
    then have c: "chain_new l k d = d\<lparr>nodes_of := link_new ?ns ?f k, first_in_levels := (first_in_levels d)[l := k]\<rparr>"
      by (auto simp: chain_new_def Let_def)
    have front: "put_top ?ns k xs = k # xs"
      using True f dseg_not_0 [OF assms(1)] by (intro put_top_front) (cases xs; auto)
    have "relinked (insert 0 (insert k (set xs))) ?ns (link_new ?ns ?f k)"
      by (rule relinked_mono [OF relinked_new]) (use f in \<open>auto split: list.splits\<close>)
    with dseg_link_new [OF assms(1-4)] assms(6) show ?thesis
      unfolding c front by simp
  next
    case False
    let ?n = "link_after ?ns (last_top (MAX_NR_ZNODES d) ?ns ?f ?f) k"
    from False have c: "chain_new l k d = d\<lparr>nodes_of := ?n\<rparr>" by (simp add: chain_new_def Let_def)
    from dseg_link_behind_tops [OF assms(1-5)] False show ?thesis unfolding c by simp
  qed
  from all show "dseg (nodes_of (chain_new l k d)) 0 (first_in_levels (chain_new l k d) ! l) (put_top (nodes_of d) k xs) 0"
    "relinked (insert 0 (insert k (set xs))) (nodes_of d) (nodes_of (chain_new l k d))"
    "chain_new l k d = d\<lparr>nodes_of := nodes_of (chain_new l k d), first_in_levels := (first_in_levels d)[l := first_in_levels (chain_new l k d) ! l]\<rparr>" by blast+
qed

lemma chain_raised_spec:
  assumes "dseg (nodes_of d) 0 (first_in_levels d ! l) xs 0" "i \<in> set xs" "first_in_levels d ! l \<noteq> i" "distinct xs"
    "length xs \<le> MAX_NR_ZNODES d" "l < length (first_in_levels d)"
  shows "dseg (nodes_of (chain_raised l i d)) 0 (first_in_levels (chain_raised l i d) ! l)
           (put_top (nodes_of d) i (remove1 i xs)) 0"
    "relinked (insert 0 (set xs)) (nodes_of d) (nodes_of (chain_raised l i d))"
    "chain_raised l i d = d\<lparr>nodes_of := nodes_of (chain_raised l i d), first_in_levels := (first_in_levels d)[l := first_in_levels (chain_raised l i d) ! l]\<rparr>"
proof -
  let ?f = "first_in_levels d ! l" and ?ns = "unlink (nodes_of d) i" and ?ys = "remove1 i xs"
  from assms(2) obtain us vs where xs: "xs = us @ i # vs" "i \<notin> set us" by (meson split_list_first)
  then have ys: "?ys = us @ vs" by (simp add: remove1_append)
  have i0: "i \<noteq> 0" using dseg_not_0 [OF assms(1)] assms(2) by metis
  have "us \<noteq> []" using dseg_first [OF assms(1)] assms(3) xs by auto
  have seg: "dseg ?ns 0 ?f ?ys 0"
    using dseg_unlink [of "nodes_of d" ?f us i vs] assms(1,3,4) xs ys by simp
  have rl: "relinked (insert 0 (set xs)) (nodes_of d) ?ns"
    by (rule relinked_mono [OF relinked_unlink]) (use dseg_next_in [OF assms(1,2)] assms(2) in auto)
  obtain u us' where "us = u # us'" using \<open>us \<noteq> []\<close> by (cases us) auto
  with dseg_first [OF assms(1)] xs have "?f = u" "u \<in> set xs" by auto
  then have f: "?f \<noteq> 0" "?f \<in> set xs" using dseg_not_0 [OF assms(1)] by metis+
  have pt: "put_top (nodes_of d) i ?ys = put_top ?ns i ?ys" by (rule put_top_cong) (simp add: has_flag_def unlink_same)
  have ni: "i \<notin> set ?ys" "distinct ?ys" "length ?ys \<le> MAX_NR_ZNODES d" "set ?ys \<subseteq> set xs"
    using assms(4,5) xs ys by auto
  have all: "dseg (nodes_of (chain_raised l i d)) 0 (first_in_levels (chain_raised l i d) ! l) (put_top ?ns i ?ys) 0
    \<and> relinked (insert 0 (set xs)) (nodes_of d) (nodes_of (chain_raised l i d))
    \<and> chain_raised l i d = d\<lparr>nodes_of := nodes_of (chain_raised l i d), first_in_levels := (first_in_levels d)[l := first_in_levels (chain_raised l i d) ! l]\<rparr>"
  proof (cases "always_top (?ns ?f)")
    case True
    let ?n = "link_after ?ns (last_top (MAX_NR_ZNODES d) ?ns ?f ?f) i"
    from True have c: "chain_raised l i d = d\<lparr>nodes_of := ?n\<rparr>" by (simp add: chain_raised_def Let_def)
    note B = dseg_link_behind_tops [OF seg ni(1) i0 ni(2,3) f(1) True]
    have "relinked (insert 0 (set xs)) ?ns ?n" by (rule relinked_mono [OF B(2)]) (use ni(4) assms(2) in auto)
    with rl have "relinked (insert 0 (set xs)) (nodes_of d) ?n" by (rule relinked_trans)
    with B(1) show ?thesis unfolding c by simp
  next
    case False
    then have c: "chain_raised l i d = d\<lparr>nodes_of := link_raised ?ns ?f i, first_in_levels := (first_in_levels d)[l := i]\<rparr>"
      by (simp add: chain_raised_def Let_def)
    have front: "put_top ?ns i ?ys = i # ?ys"
      using False dseg_first [OF seg] by (intro put_top_front) (cases ?ys; auto)
    have "relinked (insert 0 (set xs)) ?ns (link_raised ?ns ?f i)"
      by (rule relinked_mono [OF relinked_raised]) (use f assms(2) in auto)
    with rl have "relinked (insert 0 (set xs)) (nodes_of d) (link_raised ?ns ?f i)" by (rule relinked_trans)
    with dseg_link_raised [OF seg ni(1) i0 ni(2) f(1)] assms(6) show ?thesis
      unfolding c front by simp
  qed
  from all show "dseg (nodes_of (chain_raised l i d)) 0 (first_in_levels (chain_raised l i d) ! l)
           (put_top (nodes_of d) i (remove1 i xs)) 0"
    "relinked (insert 0 (set xs)) (nodes_of d) (nodes_of (chain_raised l i d))"
    "chain_raised l i d = d\<lparr>nodes_of := nodes_of (chain_raised l i d), first_in_levels := (first_in_levels d)[l := first_in_levels (chain_raised l i d) ! l]\<rparr>"
    unfolding pt by blast+
qed

section \<open>The operations on the lists\<close>

lemma zn_type_relinked: "relinked S ns ns' \<Longrightarrow> zn_type (ns' x) = zn_type (ns x)"
  by (simp add: relinked_def zn_type_def)

text \<open>A state that differs in the links of one level represents the lists with that level replaced.\<close>

lemma zrep_relink:
  assumes "zrep d L" "l < 7" "set ys = set (L ! l)" "distinct ys" "length ys = length (L ! l)"
    and "dseg ns 0 f ys 0" "relinked (insert 0 (set (L ! l))) (nodes_of d) ns"
  shows "zrep (d\<lparr>nodes_of := ns, first_in_levels := (first_in_levels d)[l := f]\<rparr>) (L[l := ys])"
proof -
  note Z = zrepD [OF assms(1)]
  let ?d = "d\<lparr>nodes_of := ns, first_in_levels := (first_in_levels d)[l := f]\<rparr>"
  have M: "MAX_NR_SPECIAL_ZNODES ?d = MAX_NR_SPECIAL_ZNODES d" "MAX_NR_ZNODES ?d = MAX_NR_ZNODES d"
    "LEN_USAGE_BMP_SPECIAL ?d = LEN_USAGE_BMP_SPECIAL d" "LEN_USAGE_BMP_GENERAL ?d = LEN_USAGE_BMP_GENERAL d"
    by (simp_all add: MAX_NR_SPECIAL_ZNODES_def MAX_NR_GENERAL_ZNODES_def MAX_NR_ZNODES_def
        LEN_USAGE_BMP_SPECIAL_def LEN_USAGE_BMP_GENERAL_def)
  have sl: "slot_of_type ?d t x = slot_of_type d t x" for t x by (simp add: slot_of_type_def M)
  have set: "set (L[l := ys] ! m) = set (L ! m)" for m
    using assms(2,3) Z(1) by (cases "m = l") simp_all
  have len: "length (L[l := ys] ! m) = length (L ! m)" for m
    using assms(2,5) Z(1) by (cases "m = l") simp_all
  have dist: "distinct (L[l := ys] ! m)" if "m < 7" for m
    using assms(2,4) Z(1) Z(6) [OF that] by (cases "m = l") simp_all
  have seg: "dseg ns 0 ((first_in_levels d)[l := f] ! m) (L[l := ys] ! m) 0" if "m < 7" for m
  proof (cases "m = l")
    case False
    have "dseg ns 0 (first_in_levels d ! m) (L ! m) 0"
    proof (rule iffD1 [OF dseg_cong Z(5) [OF that]])
      fix x assume x: "x \<in> set (L ! m)"
      then have "x \<notin> insert 0 (set (L ! l))"
        using False zrep_disjoint [OF assms(1) that assms(2) x] zrep_not_0 [OF assms(1) that x] by blast
      with assms(7) show "zn_next (nodes_of d x) = zn_next (ns x) \<and> zn_prev (nodes_of d x) = zn_prev (ns x)"
        unfolding relinked_def by metis
    qed
    with False show ?thesis by simp
  qed (use assms Z(1,2) in simp)
  show ?thesis
    unfolding zrep_def M sl set len
    using Z dist seg zn_type_relinked [OF assms(7)] by simp
qed

lemma upd_node_rep:
  assumes "zrep d L" "\<And>n. zn_next (f n) = zn_next n" "\<And>n. zn_prev (f n) = zn_prev n"
    "\<And>n. zn_type (f n) = zn_type n"
  shows "zrep (upd_node i f d) L"
proof -
  note Z = zrepD [OF assms(1)]
  let ?d = "upd_node i f d"
  have M: "MAX_NR_SPECIAL_ZNODES ?d = MAX_NR_SPECIAL_ZNODES d" "MAX_NR_ZNODES ?d = MAX_NR_ZNODES d"
    "LEN_USAGE_BMP_SPECIAL ?d = LEN_USAGE_BMP_SPECIAL d" "LEN_USAGE_BMP_GENERAL ?d = LEN_USAGE_BMP_GENERAL d"
    by (simp_all add: MAX_NR_SPECIAL_ZNODES_def MAX_NR_GENERAL_ZNODES_def MAX_NR_ZNODES_def
        LEN_USAGE_BMP_SPECIAL_def LEN_USAGE_BMP_GENERAL_def upd_node_def)
  have sl: "slot_of_type ?d t x = slot_of_type d t x" for t x by (simp add: slot_of_type_def M)
  have seg: "dseg (nodes_of ?d) 0 (first_in_levels d ! l) (L ! l) 0" if "l < 7" for l
    by (rule iffD1 [OF dseg_cong Z(5) [OF that]]) (simp add: upd_node_def assms(2,3))
  have ty: "zn_type (nodes_of ?d x) = zn_type (nodes_of d x)" for x by (simp add: upd_node_def assms(4))
  have f: "first_in_levels ?d = first_in_levels d" "nr_nodes_in_levels ?d = nr_nodes_in_levels d"
    "max_nr_nodes_in_levels ?d = max_nr_nodes_in_levels d" "zi_usage_bmp ?d = zi_usage_bmp d"
    by (simp_all add: upd_node_def)
  show ?thesis unfolding zrep_def f ty sl M using Z seg by simp
qed

lemma type_flag_ops:
  "f AND ZOF_TYPE_MASK = 0 \<Longrightarrow> zn_type (set_flag f n) = zn_type n"
  "f AND ZOF_TYPE_MASK = 0 \<Longrightarrow> zn_type (clear_flag f n) = zn_type n"
proof -
  assume f: "f AND ZOF_TYPE_MASK = 0"
  show "zn_type (set_flag f n) = zn_type n"
    by (simp add: zn_type_def set_flag_def bit.conj_disj_distrib2 f)
  have m: "NOT f AND ZOF_TYPE_MASK = ZOF_TYPE_MASK"
  proof (rule bit_eqI)
    fix j
    have "\<not> (bit f j \<and> bit ZOF_TYPE_MASK j)" using f by (metis bit_and_iff bit_0_eq bot_apply bot_bool_def)
    then show "bit (NOT f AND ZOF_TYPE_MASK) j = bit ZOF_TYPE_MASK j"
      by (auto simp: bit_simps dest: bit_imp_possible_bit)
  qed
  have "zn_type (clear_flag f n) = zn_flags n AND (NOT f AND ZOF_TYPE_MASK)"
    by (simp add: zn_type_def clear_flag_def and.assoc)
  then show "zn_type (clear_flag f n) = zn_type n" by (simp only: m zn_type_def)
qed

lemma upd_flag_rep:
  assumes "zrep d L" "f AND ZOF_TYPE_MASK = 0"
  shows "zrep (upd_node i (set_flag f) d) L" "zrep (upd_node i (clear_flag f) d) L"
proof -
  show "zrep (upd_node i (set_flag f) d) L"
    by (rule upd_node_rep [OF assms(1)]) (simp_all add: type_flag_ops [OF assms(2)], simp_all add: set_flag_def)
  show "zrep (upd_node i (clear_flag f) d) L"
    by (rule upd_node_rep [OF assms(1)]) (simp_all add: type_flag_ops [OF assms(2)], simp_all add: clear_flag_def)
qed

text \<open>What a node shows of itself, apart from its place.\<close>

definition same_look :: "ZORDERNODE \<Rightarrow> ZORDERNODE \<Rightarrow> bool" where
  "same_look n n' \<longleftrightarrow> zn_rc n' = zn_rc n \<and> zn_hwnd n' = zn_hwnd n \<and> zn_main_win n' = zn_main_win n
     \<and> zn_cli n' = zn_cli n \<and> idx_mask_rect n' = idx_mask_rect n
     \<and> zn_flags n' AND NOT ZOF_IF_REFERENCE = zn_flags n AND NOT ZOF_IF_REFERENCE"

lemma same_look_trans [trans]: "same_look a b \<Longrightarrow> same_look b c \<Longrightarrow> same_look a c"
  by (simp add: same_look_def)

lemma node_like_look: "node_like n n' \<Longrightarrow> same_look n n'"
  by (simp add: same_look_def node_like_def)

lemma relinked_look: "relinked S ns ns' \<Longrightarrow> same_look (ns x) (ns' x)"
  by (simp add: relinked_def same_look_def)

lemma same_look_flags:
  assumes "same_look n n'"
  shows "visible n' = visible n" "always_top n' = always_top n" "has_flag ZOF_DISABLED n' = has_flag ZOF_DISABLED n"
    "has_flag ZOF_TF_MAINWIN n' = has_flag ZOF_TF_MAINWIN n" "has_flag ZOF_TF_TOOLWIN n' = has_flag ZOF_TF_TOOLWIN n"
    "zn_type n' = zn_type n"
proof -
  define m where "m = n'\<lparr>zn_next := zn_next n, zn_prev := zn_prev n\<rparr>"
  with assms have "node_like n m" by (simp add: node_like_def same_look_def)
  from node_like_flags [OF this] node_like_type [OF this]
  show "visible n' = visible n" "always_top n' = always_top n" "has_flag ZOF_DISABLED n' = has_flag ZOF_DISABLED n"
    "has_flag ZOF_TF_MAINWIN n' = has_flag ZOF_TF_MAINWIN n" "has_flag ZOF_TF_TOOLWIN n' = has_flag ZOF_TF_TOOLWIN n"
    "zn_type n' = zn_type n"
    by (simp_all add: m_def has_flag_def zn_type_def)
qed

lemma same_order_look: "same_order d d' \<Longrightarrow> same_look (nodes_of d x) (nodes_of d' x)"
  by (rule node_like_look) (simp add: same_order_def)

lemma same_look_refl [simp]: "same_look n n"
  by (simp add: same_look_def)

text \<open>Where \<open>dskMove2Top\<close> puts a node.\<close>

definition raise_in :: "znodes \<Rightarrow> nat \<Rightarrow> nat list \<Rightarrow> nat list" where
  "raise_in ns i xs = (if hd xs = i then xs else put_top ns i (remove1 i xs))"

lemma zrep_first:
  assumes "zrep d L" "l < 7" "L ! l \<noteq> []"
  shows "first_in_levels d ! l = hd (L ! l)"
  using dseg_first [OF zrepD(5) [OF assms(1,2)]] assms(3) by (cases "L ! l") auto

lemma dskMove2Top_spec:
  assumes "zrep d L" "l < 7" "i \<in> set (L ! l)" "dskMove2Top d (int i) = (r, d')"
  shows "r = 0 \<and> zrep d' (L[l := raise_in (nodes_of d) i (L ! l)])
    \<and> (\<forall>x. always_top (nodes_of d' x) = always_top (nodes_of d x)) \<and> (\<forall>x. visible (nodes_of d' x) = visible (nodes_of d x))
    \<and> (\<forall>x. same_look (nodes_of d x) (nodes_of d' x))"
proof -
  note Z = zrepD [OF assms(1)]
  have inv: "\<not> IS_INVALID_ZIDX d (int i)" by (rule zrep_valid [OF assms(1-3)])
  have lev: "ZOF_TYPE_TO_LEVEL_IDX (zn_type (nodes_of d i)) = int l"
    using Z(9) [OF assms(2,3)] level_of_ztype [OF assms(2)] by simp
  have ne: "L ! l \<noteq> []" using assms(3) by auto
  have first: "first_in_levels d ! l = hd (L ! l)" by (rule zrep_first [OF assms(1,2) ne])
  show ?thesis
  proof (cases "hd (L ! l) = i")
    case True
    with assms(4) inv lev first assms(2) have "r = 0" "d' = d" by (simp_all add: dskMove2Top_def)
    with True assms(1) show ?thesis by (simp add: raise_in_def)
  next
    case False
    define d0 where "d0 = (close_menu_if True d)\<lparr>d_rgns := (d_rgns (close_menu_if True d))
        (Rgn 0 := EmptyClipRgn (d_rgns (close_menu_if True d) (Rgn 0)))\<rparr>"
    define d2 where "d2 = (if visible (nodes_of d0 i) then
        case for_chain (MAX_NR_ZNODES d0) i (cb_raise_over (zn_rc (nodes_of d0 i))) (first_in_levels d0 ! l)
               (d_rgns d0, nodes_of d0, 0) of (st, ns, _) \<Rightarrow> d0\<lparr>d_rgns := st, nodes_of := ns\<rparr> else d0)"
    define d3 where "d3 = upd_node i age_up (chain_raised l i d2)"
    have res: "r = 0" "d' = (if visible (nodes_of d3 i) \<and> zn_hwnd (nodes_of d3 i) \<noteq> HWND_NULL
        then update_client_window_rgn (zn_hwnd (nodes_of d3 i)) d3 else d3)"
      using assms(4) inv lev first False assms(2)
      by (auto simp: dskMove2Top_def Let_def d3_def d2_def d0_def)
    have so0: "same_order d d0" by (simp add: d0_def quiet)
    have "same_order d0 d2"
      using for_chain_quiet [where ns = "nodes_of d0" and cb = "cb_raise_over (zn_rc (nodes_of d0 i))" and c = "d_rgns d0"]
      by (auto simp: d2_def same_order_def split: prod.splits) (metis fst_conv snd_conv)
    with so0 have so: "same_order d d2" by (rule same_order_trans)
    then have rep2: "zrep d2 L" by (rule zrep_same_order [OF assms(1)])
    have nl: "node_like (nodes_of d x) (nodes_of d2 x)" for x using so by (simp add: same_order_def)
    have first2: "first_in_levels d2 ! l \<noteq> i" using so first False by (simp add: same_order_def)
    note Z2 = zrepD [OF rep2]
    note C = chain_raised_spec [OF Z2(5) [OF assms(2)] assms(3) first2 Z2(6) [OF assms(2)]
        zrep_length [OF rep2 assms(2)]]
    have l: "l < length (first_in_levels d2)" using Z2(2) assms(2) by simp
    let ?ys = "put_top (nodes_of d2) i (remove1 i (L ! l))"
    have dist: "distinct (L ! l)" by (rule Z(6) [OF assms(2)])
    have "0 < length (L ! l)" using ne by simp
    then have ys: "set ?ys = set (L ! l)" "distinct ?ys" "length ?ys = length (L ! l)"
      using dist assms(3)
      by (simp_all add: set_put_top distinct_put_top length_put_top set_remove1_eq insert_absorb length_remove1)
    from zrep_relink [OF rep2 assms(2) ys C(1) [OF l] C(2) [OF l]] C(3) [OF l]
    have "zrep (chain_raised l i d2) (L[l := ?ys])" by simp
    then have rep3: "zrep d3 (L[l := ?ys])"
      unfolding d3_def by (rule upd_node_rep) (simp_all add: age_up_def zn_type_def)
    have yseq: "?ys = raise_in (nodes_of d) i (L ! l)"
      using False put_top_cong [of "remove1 i (L ! l)" "nodes_of d2" "nodes_of d" i] node_like_flags(2) [OF nl]
      by (simp add: raise_in_def)
    have so3: "same_order d3 d'" unfolding res(2) by (simp add: quiet)
    have "has_flag f (nodes_of d3 x) = has_flag f (nodes_of d2 x)" for f x
      using C(2) [OF l] by (simp add: d3_def upd_node_def age_up_def has_flag_def relinked_def)
    moreover have "node_like (nodes_of d3 x) (nodes_of d' x)" for x using so3 by (simp add: same_order_def)
    ultimately have "\<forall>x. always_top (nodes_of d' x) = always_top (nodes_of d x)"
      "\<forall>x. visible (nodes_of d' x) = visible (nodes_of d x)"
      using node_like_flags(1,2) nl by metis+
    moreover have "same_look (nodes_of d x) (nodes_of d' x)" for x
    proof -
      have "same_look (nodes_of d2 x) (nodes_of d3 x)"
        using C(2) [OF l] by (simp add: d3_def upd_node_def age_up_def same_look_def relinked_def)
      then show ?thesis
        using same_look_trans same_order_look [OF so] same_order_look [OF so3] by blast
    qed
    ultimately show ?thesis using zrep_same_order [OF rep3 so3] res(1) yseq by simp
  qed
qed

section \<open>Slots of nodes\<close>

lemma slot_idle_append:
  "slot_idle (a @ b) x = (if x < 8 * length a then slot_idle a x else slot_idle b (x - 8 * length a))"
proof (induction a arbitrary: x)
  case (Cons u a)
  then show ?case by (auto simp: slot_idle_Cons)
qed simp

lemma lookfor_part:
  assumes "lookfor_unused_slot p True = Some (k, b)"
  shows "slot_idle p k" "length b = length p" "\<And>j. slot_idle p j \<Longrightarrow> k \<le> j"
    "slot_idle (u @ b @ v) x \<longleftrightarrow> slot_idle (u @ p @ v) x \<and> x \<noteq> k + 8 * length u"
proof -
  have l: "slot_idle p k" "b = slot_set_use p k" "\<forall>j \<in> idle_slots p. k \<le> j"
    using lookfor_unused_slot_spec [of p True] assms by auto
  then show "slot_idle p k" "length b = length p" "\<And>j. slot_idle p j \<Longrightarrow> k \<le> j" by auto
  have "k < 8 * length p" using l(1) by (simp add: slot_idle_def)
  then show "slot_idle (u @ b @ v) x \<longleftrightarrow> slot_idle (u @ p @ v) x \<and> x \<noteq> k + 8 * length u"
    unfolding l(2) by (auto simp: slot_idle_append slot_idle_set_use)
qed

lemma bmp_parts:
  assumes "ls + lg \<le> length bmp"
  shows "bmp = take ls bmp @ take lg (drop ls bmp) @ drop (ls + lg) bmp"
  by (metis add.commute append_take_drop_id drop_drop)

lemma special_bytes: "MAX_NR_SPECIAL_ZNODES z \<le> 8 * LEN_USAGE_BMP_SPECIAL z"
  unfolding LEN_USAGE_BMP_SPECIAL_def by linarith

lemma general_bytes: "MAX_NR_GENERAL_ZNODES z \<le> 8 * LEN_USAGE_BMP_GENERAL z"
  unfolding LEN_USAGE_BMP_GENERAL_def by linarith

lemma take_slot_spec:
  assumes "zrep z L" "take_slot z ty = (sl, bmp')"
  shows "length bmp' = length (zi_usage_bmp z)"
    and "sl = None \<Longrightarrow> x < MAX_NR_SPECIAL_ZNODES z \<or> 8 * LEN_USAGE_BMP_SPECIAL z \<le> x \<and> x < MAX_NR_ZNODES z \<Longrightarrow>
      slot_idle bmp' x = slot_idle (zi_usage_bmp z) x"
    and "sl = Some k \<Longrightarrow> slot_of_type z ty k \<and> slot_idle (zi_usage_bmp z) k
      \<and> (slot_idle bmp' x \<longleftrightarrow> slot_idle (zi_usage_bmp z) x \<and> x \<noteq> k)"
    and "sl = None \<Longrightarrow> slot_of_type z ty x \<Longrightarrow> \<not> slot_idle (zi_usage_bmp z) x"
proof -
  note Z = zrepD [OF assms(1)]
  let ?bmp = "zi_usage_bmp z" and ?ls = "LEN_USAGE_BMP_SPECIAL z" and ?lg = "LEN_USAGE_BMP_GENERAL z"
  define p where "p = (if IS_TYPE_SPECIAL ty then take ?ls ?bmp else take ?lg (drop ?ls ?bmp))"
  define u where "u = (if IS_TYPE_SPECIAL ty then [] else take ?ls ?bmp)"
  define v where "v = (if IS_TYPE_SPECIAL ty then drop ?ls ?bmp else drop (?ls + ?lg) ?bmp)"
  define top where "top = (if IS_TYPE_SPECIAL ty then MAX_NR_SPECIAL_ZNODES z else MAX_NR_ZNODES z)"
  have bmp: "?bmp = u @ p @ v" using bmp_parts [OF Z(4)] by (simp add: p_def u_def v_def)
  have ts: "take_slot z ty = (case lookfor_unused_slot p True of None \<Rightarrow> (None, ?bmp)
      | Some (k, b) \<Rightarrow> (if k + 8 * length u \<ge> top then None else Some (k + 8 * length u), u @ b @ v))"
    using Z(4) by (auto simp: take_slot_def Let_def p_def u_def v_def top_def split: option.splits)
  have lu: "length u = (if IS_TYPE_SPECIAL ty then 0 else ?ls)" using Z(4) by (simp add: u_def)
  have zero: "\<not> slot_idle ?bmp 0" using Z(11) [of 0] by (simp add: MAX_NR_SPECIAL_ZNODES_def)
  have sot: "slot_of_type z ty x \<longleftrightarrow> 8 * length u \<le> x \<and> x < top \<and> (IS_TYPE_SPECIAL ty \<longrightarrow> 0 < x)" for x
    by (auto simp: slot_of_type_def lu top_def)
  have all: "length bmp' = length ?bmp
    \<and> (sl = None \<longrightarrow> (x < MAX_NR_SPECIAL_ZNODES z \<or> 8 * ?ls \<le> x \<and> x < MAX_NR_ZNODES z \<longrightarrow> slot_idle bmp' x = slot_idle ?bmp x)
          \<and> (slot_of_type z ty x \<longrightarrow> \<not> slot_idle ?bmp x))
    \<and> (\<forall>k. sl = Some k \<longrightarrow> slot_of_type z ty k \<and> slot_idle ?bmp k \<and> (slot_idle bmp' x \<longleftrightarrow> slot_idle ?bmp x \<and> x \<noteq> k))" for x
  proof (cases "lookfor_unused_slot p True")
    case None
    then have "idle_slots p = {}" using lookfor_unused_slot_spec [of p True] by simp
    moreover have "slot_of_type z ty x \<longrightarrow> slot_idle ?bmp x \<longrightarrow> slot_idle p (x - 8 * length u)"
    proof (intro impI)
      assume x: "slot_of_type z ty x" "slot_idle ?bmp x"
      have "x - 8 * length u < 8 * length p"
        using x(1) special_bytes [of z] general_bytes [of z] Z(4)
        by (auto simp: sot p_def u_def top_def MAX_NR_ZNODES_def split: if_splits)
      with x show "slot_idle p (x - 8 * length u)" by (auto simp: bmp slot_idle_append sot)
    qed
    ultimately have "slot_of_type z ty x \<longrightarrow> \<not> slot_idle ?bmp x" by (metis empty_iff mem_idle_slots)
    with None assms(2) ts show ?thesis by auto
  next
    case (Some r)
    obtain k b where r: "lookfor_unused_slot p True = Some (k, b)" using Some by (cases r) auto
    note P = lookfor_part [OF r]
    let ?k = "k + 8 * length u"
    have idle: "slot_idle (u @ b @ v) x \<longleftrightarrow> slot_idle ?bmp x \<and> x \<noteq> ?k" by (simp only: P(4) bmp)
    have "k < 8 * length p" using P(1) by (simp add: slot_idle_def)
    then have kb: "slot_idle ?bmp ?k" using P(1) by (simp add: bmp slot_idle_append)
    have len: "length (u @ b @ v) = length ?bmp" using P(2) by (simp add: bmp)
    show ?thesis
    proof (cases "?k \<ge> top")
      case True
      then have res: "sl = None" "bmp' = u @ b @ v" using assms(2) ts r by auto
      have "\<not> (x < MAX_NR_SPECIAL_ZNODES z \<or> 8 * ?ls \<le> x \<and> x < MAX_NR_ZNODES z)" if "x = ?k"
      proof (cases "IS_TYPE_SPECIAL ty")
        case t: True
        have "?k < 8 * ?ls" using \<open>k < 8 * length p\<close> t by (simp add: p_def u_def)
        with True t that show ?thesis by (simp add: top_def)
      next
        case f: False
        with True that special_bytes [of z] lu show ?thesis by (simp add: top_def)
      qed
      moreover have "slot_idle ?bmp x \<longrightarrow> \<not> slot_of_type z ty x"
      proof (intro impI notI)
        assume x: "slot_idle ?bmp x" "slot_of_type z ty x"
        have "x - 8 * length u < 8 * length p"
          using x(2) special_bytes [of z] general_bytes [of z] Z(4)
          by (auto simp: sot p_def u_def top_def MAX_NR_ZNODES_def split: if_splits)
        with x have "slot_idle p (x - 8 * length u)" by (auto simp: bmp slot_idle_append sot)
        from P(3) [OF this] True x(2) show False by (auto simp: sot)
      qed
      ultimately show ?thesis using res idle len by auto
    next
      case False
      then have res: "sl = Some ?k" "bmp' = u @ b @ v" using assms(2) ts r by auto
      have "?k \<noteq> 0" using zero kb by metis
      then have "slot_of_type z ty ?k" using False by (simp add: sot)
      with res idle len kb show ?thesis by simp
    qed
  qed
  show "length bmp' = length ?bmp" using all by blast
  show "sl = None \<Longrightarrow> x < MAX_NR_SPECIAL_ZNODES z \<or> 8 * ?ls \<le> x \<and> x < MAX_NR_ZNODES z \<Longrightarrow>
      slot_idle bmp' x = slot_idle ?bmp x" using all by blast
  show "sl = Some k \<Longrightarrow> slot_of_type z ty k \<and> slot_idle ?bmp k \<and> (slot_idle bmp' x \<longleftrightarrow> slot_idle ?bmp x \<and> x \<noteq> k)"
    using all by blast
  show "sl = None \<Longrightarrow> slot_of_type z ty x \<Longrightarrow> \<not> slot_idle ?bmp x" using all by blast
qed

section \<open>Allocating a node\<close>

lemma zrep_cong:
  assumes "zrep d L" "\<And>x. zn_next (nodes_of d' x) = zn_next (nodes_of d x)"
    "\<And>x. zn_prev (nodes_of d' x) = zn_prev (nodes_of d x)" "\<And>x. zn_type (nodes_of d' x) = zn_type (nodes_of d x)"
    "first_in_levels d' = first_in_levels d" "nr_nodes_in_levels d' = nr_nodes_in_levels d"
    "max_nr_nodes_in_levels d' = max_nr_nodes_in_levels d" "zi_usage_bmp d' = zi_usage_bmp d"
  shows "zrep d' L"
proof -
  note Z = zrepD [OF assms(1)]
  have M: "MAX_NR_SPECIAL_ZNODES d' = MAX_NR_SPECIAL_ZNODES d" "MAX_NR_ZNODES d' = MAX_NR_ZNODES d"
    "LEN_USAGE_BMP_SPECIAL d' = LEN_USAGE_BMP_SPECIAL d" "LEN_USAGE_BMP_GENERAL d' = LEN_USAGE_BMP_GENERAL d"
    by (simp_all add: MAX_NR_SPECIAL_ZNODES_def MAX_NR_GENERAL_ZNODES_def MAX_NR_ZNODES_def
        LEN_USAGE_BMP_SPECIAL_def LEN_USAGE_BMP_GENERAL_def assms(7))
  have sl: "slot_of_type d' t x = slot_of_type d t x" for t x by (simp add: slot_of_type_def M)
  have seg: "dseg (nodes_of d') 0 (first_in_levels d ! l) (L ! l) 0" if "l < 7" for l
    by (rule iffD1 [OF dseg_cong Z(5) [OF that]]) (simp add: assms(2,3))
  show ?thesis unfolding zrep_def assms(4-) sl M using Z seg by simp
qed

lemma chain_new_rep:
  assumes "zrep d L" "l < 7" "slot_of_type d (ztype l) k" "slot_idle (zi_usage_bmp d) k"
    and "\<And>x. slot_idle bmp' x \<longleftrightarrow> slot_idle (zi_usage_bmp d) x \<and> x \<noteq> k" "length bmp' = length (zi_usage_bmp d)"
    and "length (L ! l) < max_nr_nodes_in_levels d ! l"
    and "\<And>n. zn_next (f n) = zn_next n" "\<And>n. zn_prev (f n) = zn_prev n" "\<And>n. zn_type (f n) = ztype l"
    and d1: "d1 = d\<lparr>zi_usage_bmp := bmp', nr_nodes_in_levels := (nr_nodes_in_levels d)[l := nr_nodes_in_levels d ! l + 1]\<rparr>"
  shows "zrep (upd_node k f (chain_new l k d1)) (L[l := put_top (nodes_of d) k (L ! l)])"
    "\<And>x. x \<noteq> k \<Longrightarrow> same_look (nodes_of d x) (nodes_of (upd_node k f (chain_new l k d1)) x)"
    "\<And>m. m < 7 \<Longrightarrow> k \<notin> set (L ! m)"
proof -
  note Z = zrepD [OF assms(1)]
  have valid: "k < MAX_NR_SPECIAL_ZNODES d \<or> 8 * LEN_USAGE_BMP_SPECIAL d \<le> k \<and> k < MAX_NR_ZNODES d"
    using assms(3) by (auto simp: slot_of_type_def split: if_splits)
  from Z(11) [OF this] assms(4) have k0: "k \<noteq> 0" and kout: "\<And>m. m < 7 \<Longrightarrow> k \<notin> set (L ! m)" by auto
  show "\<And>m. m < 7 \<Longrightarrow> k \<notin> set (L ! m)" by (rule kout)
  have nd: "nodes_of d1 = nodes_of d" "first_in_levels d1 = first_in_levels d"
    "max_nr_nodes_in_levels d1 = max_nr_nodes_in_levels d" by (simp_all add: d1)
  have M1: "MAX_NR_ZNODES d1 = MAX_NR_ZNODES d"
    by (simp add: MAX_NR_SPECIAL_ZNODES_def MAX_NR_GENERAL_ZNODES_def MAX_NR_ZNODES_def nd)
  note C = chain_new_spec [where d = d1 and l = l, unfolded nd M1, OF Z(5) [OF assms(2)] kout [OF assms(2)] k0
      Z(6) [OF assms(2)] zrep_length [OF assms(1,2)]]
  have l: "l < length (first_in_levels d)" using Z(2) assms(2) by simp
  let ?c = "chain_new l k d1" let ?d = "upd_node k f ?c" let ?ys = "put_top (nodes_of d) k (L ! l)"
  have cf: "nr_nodes_in_levels ?c = nr_nodes_in_levels d1" "max_nr_nodes_in_levels ?c = max_nr_nodes_in_levels d"
    "zi_usage_bmp ?c = bmp'" "\<And>m. m \<noteq> l \<Longrightarrow> first_in_levels ?c ! m = first_in_levels d ! m"
    "length (first_in_levels ?c) = 7"
    by (subst C(3) [OF l], simp add: d1 Z(2))+
  have df: "nr_nodes_in_levels ?d = nr_nodes_in_levels d1" "max_nr_nodes_in_levels ?d = max_nr_nodes_in_levels d"
    "zi_usage_bmp ?d = bmp'" "first_in_levels ?d = first_in_levels ?c"
    by (simp_all add: upd_node_def cf)
  have M: "MAX_NR_SPECIAL_ZNODES ?d = MAX_NR_SPECIAL_ZNODES d" "MAX_NR_ZNODES ?d = MAX_NR_ZNODES d"
    "LEN_USAGE_BMP_SPECIAL ?d = LEN_USAGE_BMP_SPECIAL d" "LEN_USAGE_BMP_GENERAL ?d = LEN_USAGE_BMP_GENERAL d"
    by (simp_all add: MAX_NR_SPECIAL_ZNODES_def MAX_NR_GENERAL_ZNODES_def MAX_NR_ZNODES_def
        LEN_USAGE_BMP_SPECIAL_def LEN_USAGE_BMP_GENERAL_def df)
  have sl: "slot_of_type ?d t x = slot_of_type d t x" for t x by (simp add: slot_of_type_def M)
  have links: "zn_next (nodes_of ?d x) = zn_next (nodes_of ?c x)" "zn_prev (nodes_of ?d x) = zn_prev (nodes_of ?c x)" for x
    by (simp_all add: upd_node_def assms(8,9))
  have nth: "L[l := ?ys] ! m = (if m = l then ?ys else L ! m)" if "m < 7" for m
    using Z(1) that by simp
  have seg: "dseg (nodes_of ?d) 0 (first_in_levels ?c ! m) (L[l := ?ys] ! m) 0" if m: "m < 7" for m
  proof (cases "m = l")
    case True
    have "dseg (nodes_of ?d) 0 (first_in_levels ?c ! l) ?ys 0"
      by (rule iffD1 [OF dseg_cong C(1) [OF l]]) (simp add: links)
    with True nth [OF m] show ?thesis by simp
  next
    case False
    have "dseg (nodes_of ?d) 0 (first_in_levels d ! m) (L ! m) 0"
    proof (rule iffD1 [OF dseg_cong Z(5) [OF m]])
      fix x assume x: "x \<in> set (L ! m)"
      then have "x \<notin> insert 0 (insert k (set (L ! l)))"
        using False zrep_disjoint [OF assms(1) m assms(2) x] zrep_not_0 [OF assms(1) m x] kout [OF m] by blast
      with C(2) [OF l] show "zn_next (nodes_of d x) = zn_next (nodes_of ?d x) \<and> zn_prev (nodes_of d x) = zn_prev (nodes_of ?d x)"
        unfolding links relinked_def by metis
    qed
    with False nth [OF m] cf(4) show ?thesis by simp
  qed
  have ty: "zn_type (nodes_of ?d x) = (if x = k then ztype l else zn_type (nodes_of d x))" for x
    using zn_type_relinked [OF C(2) [OF l], of x] by (simp add: upd_node_def assms(10))
  have dist: "distinct (L[l := ?ys] ! m)" if "m < 7" for m
    using nth [OF that] Z(6) [OF that] distinct_put_top [OF Z(6) [OF assms(2)] kout [OF assms(2)]]
    by (cases "m = l") simp_all
  have nr: "nr_nodes_in_levels d1 ! m = int (length (L[l := ?ys] ! m))" if "m < 7" for m
    using nth [OF that] Z(3) Z(7) [OF that] that by (cases "m = l") (simp_all add: d1 length_put_top)
  have mx: "length (L[l := ?ys] ! m) \<le> max_nr_nodes_in_levels d ! m" if "m < 7" for m
    using nth [OF that] Z(8) [OF that] assms(7) by (simp add: length_put_top)
  have st: "set (L[l := ?ys] ! m) = (if m = l then insert k (set (L ! l)) else set (L ! m))" if "m < 7" for m
    using nth [OF that] by (simp add: set_put_top)
  have mem: "zn_type (nodes_of ?d x) = ztype m \<and> slot_of_type d (ztype m) x"
    if "m < 7" "x \<in> set (L[l := ?ys] ! m)" for m x
    using that st Z(9,10) [OF that(1)] ty kout [OF that(1)] assms(3) by (auto split: if_splits)
  have used: "slot_idle bmp' x = (x \<noteq> 0 \<and> (\<forall>m < 7. x \<notin> set (L[l := ?ys] ! m)))"
    if "x < MAX_NR_SPECIAL_ZNODES d \<or> 8 * LEN_USAGE_BMP_SPECIAL d \<le> x \<and> x < MAX_NR_ZNODES d" for x
  proof -
    have "(\<forall>m < 7. x \<notin> set (L[l := ?ys] ! m)) \<longleftrightarrow> (\<forall>m < 7. x \<notin> set (L ! m)) \<and> x \<noteq> k"
      using st assms(2) by auto
    with assms(5) Z(11) [OF that] show ?thesis by blast
  qed
  show "zrep ?d (L[l := ?ys])"
    unfolding zrep_def df M sl
    using Z(1,3,4) seg dist nr mx mem used cf(5) assms(6) by (simp add: d1)
  show "same_look (nodes_of d x) (nodes_of ?d x)" if "x \<noteq> k" for x
    using relinked_look [OF C(2) [OF l], of x] that by (simp add: upd_node_def)
qed

lemma masks_rep:
  "zrep z L \<Longrightarrow> zrep (alloc_mask_rects_for_round_corners i fl rc z) L"
  "zrep z L \<Longrightarrow> zrep (release_znode_maskrect z i) L"
  by (erule zrep_cong; auto simp: alloc_mask_rects_for_round_corners_def release_znode_maskrect_def Let_def zn_type_def
      split: prod.splits)+

lemma masks_look:
  "x \<noteq> i \<Longrightarrow> nodes_of (alloc_mask_rects_for_round_corners i fl rc z) x = nodes_of z x"
  "x \<noteq> i \<Longrightarrow> nodes_of (release_znode_maskrect z i) x = nodes_of z x"
  by (auto simp: alloc_mask_rects_for_round_corners_def release_znode_maskrect_def Let_def split: prod.splits)

definition node_is :: "HWND \<Rightarrow> HWND \<Rightarrow> dword \<Rightarrow> RECT \<Rightarrow> int \<Rightarrow> ZORDERNODE \<Rightarrow> bool" where
  "node_is hWnd main_win flags rc cli n \<longleftrightarrow> zn_hwnd n = hWnd \<and> zn_main_win n = main_win \<and> zn_rc n = rc \<and> zn_cli n = cli
     \<and> visible n = (flags AND ZOF_VISIBLE \<noteq> 0) \<and> always_top n = (flags AND ZOF_IF_ALWAYSTOP \<noteq> 0)
     \<and> zn_type n = flags AND ZOF_TYPE_MASK"

lemma node_is_look: "node_is h m fl rc c n \<Longrightarrow> same_look n n' \<Longrightarrow> node_is h m fl rc c n'"
  using same_look_flags [of n n'] by (simp add: node_is_def same_look_def)

lemma masks_node_is:
  "node_is h m f r c (nodes_of z k) \<Longrightarrow> node_is h m f r c (nodes_of (alloc_mask_rects_for_round_corners i fl rc z) k)"
  by (auto simp: alloc_mask_rects_for_round_corners_def Let_def node_is_def has_flag_def zn_type_def split: prod.splits)

lemma AllocZOrderNodeEx_spec:
  assumes "zrep d L" "l < 7" "flags AND ZOF_TYPE_MASK = ztype l"
    and "AllocZOrderNodeEx d cli hWnd main_win flags rc caption = (r, d')"
  shows "(r = - 1 \<and> zrep d' L \<and> (\<forall>x. same_look (nodes_of d x) (nodes_of d' x))
        \<and> (length (L ! l) < max_nr_nodes_in_levels d ! l \<longrightarrow>
            (\<forall>x. slot_of_type d (ztype l) x \<longrightarrow> \<not> slot_idle (zi_usage_bmp d) x)))
    \<or> (\<exists>k. r = int k \<and> length (L ! l) < max_nr_nodes_in_levels d ! l \<and> (\<forall>m < 7. k \<notin> set (L ! m))
        \<and> zrep d' (L[l := put_top (nodes_of d) k (L ! l)])
        \<and> (\<forall>x. x \<noteq> k \<longrightarrow> same_look (nodes_of d x) (nodes_of d' x))
        \<and> node_is hWnd main_win flags rc cli (nodes_of d' k))"
proof (cases "length (L ! l) < max_nr_nodes_in_levels d ! l")
  case False
  with assms zrepD(7) [OF assms(1,2)] level_with_room_ztype [OF assms(2), of d] show ?thesis
    by (auto simp: AllocZOrderNodeEx_def Let_def)
next
  case True
  define d0 where "d0 = close_menu_if (flags AND ZOF_VISIBLE \<noteq> 0) d"
  have so: "same_order d d0" by (simp add: d0_def quiet)
  from zrep_same_order [OF assms(1) so] have rep0: "zrep d0 L" .
  have room: "level_with_room d (ztype l) = Some l"
    using True zrepD(7) [OF assms(1,2)] level_with_room_ztype [OF assms(2), of d] by simp
  have same: "zi_usage_bmp d0 = zi_usage_bmp d" "max_nr_nodes_in_levels d0 = max_nr_nodes_in_levels d"
    using so by (simp_all add: same_order_def)
  have sot: "slot_of_type d0 = slot_of_type d"
    by (intro ext) (simp add: slot_of_type_def same_order_MAX [OF so])
  obtain sl bmp where ts: "take_slot d0 (ztype l) = (sl, bmp)" by (cases "take_slot d0 (ztype l)")
  note T = take_slot_spec [OF rep0 ts]
  show ?thesis
  proof (cases sl)
    case None
    then have res: "r = - 1" "d' = d0\<lparr>zi_usage_bmp := bmp\<rparr>"
      using assms(3,4) room ts by (simp_all add: AllocZOrderNodeEx_def Let_def d0_def [symmetric])
    note Z = zrepD [OF rep0]
    have M: "MAX_NR_SPECIAL_ZNODES d' = MAX_NR_SPECIAL_ZNODES d0" "MAX_NR_ZNODES d' = MAX_NR_ZNODES d0"
      "LEN_USAGE_BMP_SPECIAL d' = LEN_USAGE_BMP_SPECIAL d0" "LEN_USAGE_BMP_GENERAL d' = LEN_USAGE_BMP_GENERAL d0"
      by (simp_all add: MAX_NR_SPECIAL_ZNODES_def MAX_NR_GENERAL_ZNODES_def MAX_NR_ZNODES_def
          LEN_USAGE_BMP_SPECIAL_def LEN_USAGE_BMP_GENERAL_def res(2))
    have sl': "slot_of_type d' t x = slot_of_type d0 t x" for t x by (simp add: slot_of_type_def M)
    have df: "first_in_levels d' = first_in_levels d0" "nr_nodes_in_levels d' = nr_nodes_in_levels d0"
      "max_nr_nodes_in_levels d' = max_nr_nodes_in_levels d0" "nodes_of d' = nodes_of d0" "zi_usage_bmp d' = bmp"
      by (simp_all add: res(2))
    have "zrep d' L"
      unfolding zrep_def df M sl' using Z(1-10) T(1) T(2) [OF None] Z(11) by simp
    moreover have "same_look (nodes_of d x) (nodes_of d' x)" for x
      using same_order_look [OF so] df(4) by simp
    ultimately show ?thesis using res(1) T(4) [OF None] by (simp add: same sot)
  next
    case (Some k)
    define fl where "fl = (if IS_TYPE_SPECIAL (ztype l) then flags OR ZOF_IF_SPECIAL else flags)"
    define d1 where "d1 = d0\<lparr>zi_usage_bmp := bmp,
        nr_nodes_in_levels := (nr_nodes_in_levels d0)[l := nr_nodes_in_levels d0 ! l + 1]\<rparr>"
    define d2 where "d2 = upd_node k (new_znode hWnd main_win fl rc cli) (chain_new l k d1)"
    define d3 where "d3 = (if fl AND ZOF_TW_TROUNDCNS \<noteq> 0 \<or> fl AND ZOF_TW_BROUNDCNS \<noteq> 0
        then alloc_mask_rects_for_round_corners k fl (SetRect 0 0 (right rc - left rc) (bottom rc - top rc)) d2 else d2)"
    define d4 where "d4 = upd_node k (\<lambda>n. n\<lparr>zn_caption := caption\<rparr>) d3"
    have "AllocZOrderNodeEx d cli hWnd main_win flags rc caption
        = (int k, if flags AND ZOF_VISIBLE \<noteq> 0 then update_on_new_visible_znode k (ztype l) d4 else d4)"
      unfolding AllocZOrderNodeEx_def Let_def assms(3) room option.case d0_def [symmetric] ts prod.case Some
        fl_def [symmetric] d1_def [symmetric] d2_def [symmetric] d3_def [symmetric] d4_def [symmetric] by (rule refl)
    with assms(4) have res: "r = int k"
      "d' = (if flags AND ZOF_VISIBLE \<noteq> 0 then update_on_new_visible_znode k (ztype l) d4 else d4)" by simp_all
    have slot: "slot_of_type d0 (ztype l) k" "slot_idle (zi_usage_bmp d0) k"
      "\<And>x. slot_idle bmp x \<longleftrightarrow> slot_idle (zi_usage_bmp d0) x \<and> x \<noteq> k" using T(3) [OF Some] by blast+
    have fty: "fl AND m = flags AND m" if "ZOF_IF_SPECIAL AND m = 0" for m
      using that by (simp add: fl_def bit.conj_disj_distrib2)
    have ty: "zn_type (new_znode hWnd main_win fl rc cli n) = ztype l" for n
      using assms(3) fty [of ZOF_TYPE_MASK]
      by (simp add: zn_type_def new_znode_def) (simp add: ZOF_IF_SPECIAL_def ZOF_TYPE_MASK_def)
    have len: "length (L ! l) < max_nr_nodes_in_levels d0 ! l" using True same by simp
    note R = chain_new_rep [OF rep0 assms(2) slot T(1) len, where f = "new_znode hWnd main_win fl rc cli", OF _ _ ty d1_def, folded d2_def]
    have pt: "put_top (nodes_of d0) k (L ! l) = put_top (nodes_of d) k (L ! l)"
      by (rule put_top_cong) (use same_look_flags(2) [OF same_order_look [OF so]] in blast)
    have "zrep d2 (L[l := put_top (nodes_of d) k (L ! l)])"
      using R(1) by (simp add: pt new_znode_def)
    then have "zrep d3 (L[l := put_top (nodes_of d) k (L ! l)])" by (simp add: d3_def masks_rep)
    then have "zrep d4 (L[l := put_top (nodes_of d) k (L ! l)])"
      unfolding d4_def by (rule upd_node_rep) (simp_all add: zn_type_def)
    then have rep: "zrep d' (L[l := put_top (nodes_of d) k (L ! l)])"
      unfolding res(2) by (simp add: zrep_same_order quiet)
    have so4: "same_order d4 d'" unfolding res(2) by (simp add: quiet)
    have look: "same_look (nodes_of d x) (nodes_of d' x)" if "x \<noteq> k" for x
    proof -
      have "same_look (nodes_of d0 x) (nodes_of d2 x)" using R(2) that by (simp add: new_znode_def)
      moreover have "nodes_of d4 x = nodes_of d2 x" using that by (simp add: d4_def d3_def upd_node_def masks_look)
      ultimately show ?thesis
        using same_look_trans [OF same_look_trans [OF same_order_look [OF so] _] same_order_look [OF so4]] by simp
    qed
    have "node_is hWnd main_win flags rc cli (nodes_of d2 k)"
      using ty fty [of ZOF_VISIBLE] fty [of ZOF_IF_ALWAYSTOP] assms(3)
      by (simp add: node_is_def d2_def upd_node_def has_flag_def)
        (simp add: new_znode_def ZOF_IF_SPECIAL_def ZOF_VISIBLE_def ZOF_IF_ALWAYSTOP_def)
    then have "node_is hWnd main_win flags rc cli (nodes_of d3 k)" by (simp add: d3_def masks_node_is)
    then have "node_is hWnd main_win flags rc cli (nodes_of d4 k)"
      by (simp add: d4_def upd_node_def node_is_def has_flag_def zn_type_def)
    then have "node_is hWnd main_win flags rc cli (nodes_of d' k)"
      by (rule node_is_look [OF _ same_order_look [OF so4]])
    with res(1) rep look R(3) True show ?thesis by (auto simp: new_znode_def)
  qed
qed

end
