(* ===== verification/MG_ZOrderFree.thy ===== *)
theory MG_ZOrderFree
  imports MG_ZOrderSpec
begin

text \<open>Freeing a node of the z-order (\<open>FreeZOrderNodeEx\<close>, \<open>src/kernel/desktop.c\<close>): the node leaves
  the list of its level and its slot is idle again.\<close>

section \<open>Freeing a node\<close>

lemma unlink_self:
  "zn_prev (ns i) \<noteq> i \<Longrightarrow> zn_next (ns i) \<noteq> i \<Longrightarrow> unlink ns i i = ns i"
  by (simp add: unlink_def Let_def)

lemma unchain_rep:
  assumes "zrep d L" "l < 7" "i \<in> set (L ! l)"
    and u: "u = unchain_znode i d"
    and e: "e = u\<lparr>first_in_levels := (first_in_levels u)[l := if first_in_levels u ! l = i then zn_next (nodes_of u i)
                                                         else first_in_levels u ! l],
              nr_nodes_in_levels := (nr_nodes_in_levels u)[l := nr_nodes_in_levels u ! l - 1]\<rparr>"
  shows "zrep e (L[l := remove1 i (L ! l)])" "\<And>x. x \<noteq> i \<Longrightarrow> same_look (nodes_of d x) (nodes_of e x)"
proof -
  note Z = zrepD [OF assms(1)]
  let ?ns = "unlink (nodes_of d) i" and ?ys = "remove1 i (L ! l)" and ?f = "first_in_levels d ! l"
  obtain us vs where xs: "L ! l = us @ i # vs" "i \<notin> set us" using assms(3) by (meson split_list_first)
  then have ys: "?ys = us @ vs" by (simp add: remove1_append)
  have dist: "distinct (us @ i # vs)" using Z(6) [OF assms(2)] xs by simp
  have seg0: "dseg (nodes_of d) 0 ?f (us @ i # vs) 0" using Z(5) [OF assms(2)] xs by simp
  then have pn: "zn_prev (nodes_of d i) = last (0 # us)" "dseg (nodes_of d) i (zn_next (nodes_of d i)) vs 0" "i \<noteq> 0"
    by (auto simp: dseg_append)
  have "zn_prev (nodes_of d i) \<noteq> i" using pn(1,3) xs(2) by (cases us rule: rev_cases) auto
  moreover have "zn_next (nodes_of d i) \<noteq> i" using dseg_first [OF pn(2)] pn(3) dist by (cases vs) auto
  ultimately have self: "?ns i = nodes_of d i" by (rule unlink_self)
  have seg: "dseg ?ns 0 (if ?f = i then zn_next (nodes_of d i) else ?f) ?ys 0"
    using dseg_unlink [OF seg0 dist] ys by simp
  have rl: "relinked (insert 0 (set (L ! l))) (nodes_of d) ?ns"
    by (rule relinked_mono [OF relinked_unlink])
      (use dseg_next_in [OF Z(5) [OF assms(2)] assms(3)] assms(3) in auto)
  have ue: "nodes_of e = ?ns(i := (nodes_of d i)\<lparr>zn_flags := 0\<rparr>)" "zi_usage_bmp e = slot_clear_use (zi_usage_bmp d) i"
    "first_in_levels e = (first_in_levels d)[l := if ?f = i then zn_next (nodes_of d i) else ?f]"
    "nr_nodes_in_levels e = (nr_nodes_in_levels d)[l := nr_nodes_in_levels d ! l - 1]"
    "max_nr_nodes_in_levels e = max_nr_nodes_in_levels d"
    by (simp_all add: e u unchain_znode_def upd_node_def self fun_eq_iff)
  have M: "MAX_NR_SPECIAL_ZNODES e = MAX_NR_SPECIAL_ZNODES d" "MAX_NR_ZNODES e = MAX_NR_ZNODES d"
    "LEN_USAGE_BMP_SPECIAL e = LEN_USAGE_BMP_SPECIAL d" "LEN_USAGE_BMP_GENERAL e = LEN_USAGE_BMP_GENERAL d"
    by (simp_all add: MAX_NR_SPECIAL_ZNODES_def MAX_NR_GENERAL_ZNODES_def MAX_NR_ZNODES_def
        LEN_USAGE_BMP_SPECIAL_def LEN_USAGE_BMP_GENERAL_def ue)
  have sl: "slot_of_type e t x = slot_of_type d t x" for t x by (simp add: slot_of_type_def M)
  have nth: "L[l := ?ys] ! m = (if m = l then ?ys else L ! m)" if "m < 7" for m
    using Z(1) that by simp
  have st: "set (L[l := ?ys] ! m) = set (L ! m) - {i}" if "m < 7" for m
  proof (cases "m = l")
    case True
    with nth [OF that] Z(6) [OF that] show ?thesis by (simp add: set_remove1_eq)
  next
    case False
    then have "i \<notin> set (L ! m)" using zrep_disjoint [OF assms(1,2) that assms(3)] by metis
    with False nth [OF that] show ?thesis by simp
  qed
  have links: "zn_next (nodes_of e x) = zn_next (?ns x)" "zn_prev (nodes_of e x) = zn_prev (?ns x)" for x
    by (simp_all add: ue self)
  have sege: "dseg (nodes_of e) 0 (first_in_levels e ! m) (L[l := ?ys] ! m) 0" if m: "m < 7" for m
  proof (cases "m = l")
    case True
    have "dseg (nodes_of e) 0 (if ?f = i then zn_next (nodes_of d i) else ?f) ?ys 0"
      by (rule iffD1 [OF dseg_cong seg]) (simp add: links)
    with True nth [OF m] Z(2) m show ?thesis by (simp add: ue)
  next
    case False
    have "dseg (nodes_of e) 0 (first_in_levels d ! m) (L ! m) 0"
    proof (rule iffD1 [OF dseg_cong Z(5) [OF m]])
      fix x assume x: "x \<in> set (L ! m)"
      then have "x \<notin> insert 0 (set (L ! l))"
        using False zrep_disjoint [OF assms(1) m assms(2) x] zrep_not_0 [OF assms(1) m x] by blast
      with rl show "zn_next (nodes_of d x) = zn_next (nodes_of e x) \<and> zn_prev (nodes_of d x) = zn_prev (nodes_of e x)"
        unfolding links relinked_def by metis
    qed
    with False nth [OF m] show ?thesis by (simp add: ue)
  qed
  have dist': "distinct (L[l := ?ys] ! m)" if "m < 7" for m
    using nth [OF that] Z(6) [OF that] by (cases "m = l") simp_all
  have ne: "0 < length (L ! l)" using assms(3) by (cases "L ! l") auto
  have len: "length (L[l := ?ys] ! m) = (if m = l then length (L ! l) - 1 else length (L ! m))" if "m < 7" for m
    using nth [OF that] assms(3) by (simp add: length_remove1)
  have nr: "nr_nodes_in_levels e ! m = int (length (L[l := ?ys] ! m))" if "m < 7" for m
    using len [OF that] Z(3) Z(7) [OF that] that ne by (cases "m = l") (simp_all add: ue of_nat_diff Suc_leI)
  have mx: "length (L[l := ?ys] ! m) \<le> max_nr_nodes_in_levels d ! m" if "m < 7" for m
    using len [OF that] Z(8) [OF that] by (cases "m = l") simp_all
  have mem: "zn_type (nodes_of e x) = ztype m \<and> slot_of_type d (ztype m) x"
    if "m < 7" "x \<in> set (L[l := ?ys] ! m)" for m x
  proof -
    from that st have x: "x \<in> set (L ! m)" "x \<noteq> i" by auto
    then have "zn_type (nodes_of e x) = zn_type (nodes_of d x)"
      using zn_type_relinked [OF rl, of x] by (simp add: ue)
    with x Z(9,10) [OF that(1)] show ?thesis by simp
  qed
  have lt: "i < 8 * length (zi_usage_bmp d)"
    using Z(10) [OF assms(2,3)] Z(4) special_bytes [of d] general_bytes [of d]
    by (auto simp: slot_of_type_def MAX_NR_ZNODES_def split: if_splits)
  have used: "slot_idle (zi_usage_bmp e) x = (x \<noteq> 0 \<and> (\<forall>m < 7. x \<notin> set (L[l := ?ys] ! m)))"
    if "x < MAX_NR_SPECIAL_ZNODES d \<or> 8 * LEN_USAGE_BMP_SPECIAL d \<le> x \<and> x < MAX_NR_ZNODES d" for x
  proof -
    have "(\<forall>m < 7. x \<notin> set (L[l := ?ys] ! m)) \<longleftrightarrow> (\<forall>m < 7. x \<notin> set (L ! m)) \<or> x = i" using st by auto
    with Z(11) [OF that] pn(3) show ?thesis unfolding ue slot_idle_clear_use [OF lt] by blast
  qed
  show "zrep e (L[l := ?ys])"
    unfolding zrep_def M sl
    using Z(1-4) sege dist' nr mx mem used by (simp add: ue(2-5))
  show "same_look (nodes_of d x) (nodes_of e x)" if "x \<noteq> i" for x
    using relinked_look [OF rl, of x] that by (simp add: ue)
qed

lemma FreeZOrderNodeEx_spec:
  assumes "zrep d L" "l < 7" "i \<in> set (L ! l)" "FreeZOrderNodeEx d (int i) = (r, d')"
  shows "r = 0" "zrep d' (L[l := remove1 i (L ! l)])" "\<And>x. x \<noteq> i \<Longrightarrow> same_look (nodes_of d x) (nodes_of d' x)"
proof -
  note Z = zrepD [OF assms(1)]
  have inv: "\<not> IS_INVALID_ZIDX d (int i)" by (rule zrep_valid [OF assms(1-3)])
  have ty: "zn_type (nodes_of d i) = ztype l" by (rule Z(9) [OF assms(2,3)])
  have lev: "ZOF_TYPE_TO_LEVEL_IDX (ztype l) = int l" by (rule level_of_ztype [OF assms(2)])
  define vis where "vis = visible (nodes_of d i)"
  define d0 where "d0 = close_menu_if vis d"
  define d1 where "d1 = (if vis then prepare_to_delete_visible_znode i (ztype l) d0 else d0)"
  define d2 where "d2 = upd_node i (\<lambda>n. n\<lparr>zn_hwnd := HWND_NULL, zn_cli := - 1, zn_caption := None\<rparr>) d1"
  define d3 where "d3 = (if idx_mask_rect (nodes_of d2 i) \<noteq> 0 then release_znode_maskrect d2 i else d2)"
  define d4 where "d4 = unchain_znode i d3"
  define d5 where "d5 = d4\<lparr>first_in_levels := (first_in_levels d4)[l := if first_in_levels d4 ! l = i then zn_next (nodes_of d4 i)
                                                         else first_in_levels d4 ! l],
              nr_nodes_in_levels := (nr_nodes_in_levels d4)[l := nr_nodes_in_levels d4 ! l - 1]\<rparr>"
  have upd: "(let e = (if first_in_levels d4 ! l = i then d4\<lparr>first_in_levels := (first_in_levels d4)[l := zn_next (nodes_of d4 i)]\<rparr> else d4)
      in e\<lparr>nr_nodes_in_levels := (nr_nodes_in_levels e)[l := nr_nodes_in_levels e ! l - 1]\<rparr>) = d5"
    by (simp add: d5_def Let_def)
  have nl: "\<not> (int l < 0 \<or> int ZLIDX_LAUNCHER < int l)" using assms(2) by simp
  have "FreeZOrderNodeEx d (int i) = (0, if vis then erase_desktop (zn_rc (nodes_of d i))
      (update_after_delete_visible_znode i (zn_rc (nodes_of d i)) d5) else d5)"
    unfolding upd [symmetric] FreeZOrderNodeEx_def Let_def nat_int ty lev if_not_P [OF inv] if_not_P [OF nl]
      vis_def [symmetric] d0_def [symmetric] d1_def [symmetric] d2_def [symmetric] d3_def [symmetric] d4_def [symmetric]
    by (rule refl)
  with assms(4) have res: "r = 0" "d' = (if vis then erase_desktop (zn_rc (nodes_of d i))
      (update_after_delete_visible_znode i (zn_rc (nodes_of d i)) d5) else d5)" by simp_all
  show "r = 0" by (rule res(1))
  have so1: "same_order d d1"
    unfolding d1_def d0_def by (simp add: quiet same_order_trans [OF quiet_close_menu_if quiet_prepare])
  have rep1: "zrep d1 L" by (rule zrep_same_order [OF assms(1) so1])
  then have "zrep d2 L" unfolding d2_def by (rule upd_node_rep) (simp_all add: zn_type_def)
  then have rep3: "zrep d3 L" by (simp add: d3_def masks_rep)
  note U = unchain_rep [OF rep3 assms(2,3) d4_def d5_def]
  have so5: "same_order d5 d'"
    unfolding res(2) by (simp add: quiet same_order_trans [OF quiet_after_delete quiet_erase_desktop])
  show "zrep d' (L[l := remove1 i (L ! l)])" by (rule zrep_same_order [OF U(1) so5])
  show "same_look (nodes_of d x) (nodes_of d' x)" if "x \<noteq> i" for x
  proof -
    have "nodes_of d3 x = nodes_of d1 x" using that by (simp add: d3_def d2_def upd_node_def masks_look)
    with same_order_look [OF so1, of x] U(2) [OF that] same_order_look [OF so5, of x]
    show ?thesis by (metis same_look_trans)
  qed
qed

text \<open>Freeing a hidden node does not look at \<open>active_win\<close>.\<close>

lemma release_masks_frame: "active_win (release_znode_maskrect d i) = active_win d"
  by (simp add: release_znode_maskrect_def split: prod.splits)

lemma hidden_active_stays:
  assumes "\<not> visible (nodes_of d (nat i))"
  shows "active_win (snd (FreeZOrderNodeEx d i)) = active_win d"
  using assms by (simp add: FreeZOrderNodeEx_def Let_def close_menu_if_def unchain_znode_def upd_node_def release_masks_frame)

end
