(* ===== verification/MG_ZOrderInv.thy ===== *)
theory MG_ZOrderInv
  imports MG_ZOrderFree
begin

text \<open>
  The remaining operations of the z-order on the lists it represents, the capacity of the levels, the
  order that the set-up builds, and the states that sequences of operations reach.
\<close>

section \<open>Operations that keep the order\<close>

lemma flag_masks [simp]:
  "ZOF_VISIBLE AND ZOF_TYPE_MASK = 0" "ZOF_DISABLED AND ZOF_TYPE_MASK = 0" "ZOF_IF_ALWAYSTOP AND ZOF_TYPE_MASK = 0"
  "ZOF_GESTURE_FLAGS_MASK AND ZOF_TYPE_MASK = 0"
  by (simp_all add: ZOF_VISIBLE_def ZOF_DISABLED_def ZOF_IF_ALWAYSTOP_def ZOF_TYPE_MASK_def ZOF_GESTURE_FLAGS_MASK_def)

lemma gesture_mask [simp]: "(f AND ZOF_GESTURE_FLAGS_MASK) AND ZOF_TYPE_MASK = 0"
  by (simp add: and.assoc)

lemma has_flag_ops:
  "f \<noteq> 0 \<Longrightarrow> has_flag f (set_flag f n)" "\<not> has_flag f (clear_flag f n)"
  "f AND g = 0 \<Longrightarrow> has_flag f (set_flag g n) = has_flag f n" "f AND g = 0 \<Longrightarrow> has_flag f (clear_flag g n) = has_flag f n"
proof -
  show "has_flag f (set_flag f n)" if "f \<noteq> 0"
    using that by (simp add: has_flag_def set_flag_def bit.conj_disj_distrib2)
  show "\<not> has_flag f (clear_flag f n)" by (simp add: has_flag_def clear_flag_def and.assoc)
  show "has_flag f (set_flag g n) = has_flag f n" if "f AND g = 0"
    using that by (simp add: has_flag_def set_flag_def bit.conj_disj_distrib2 and.commute [of _ f] bit.conj_disj_distrib)
  show "has_flag f (clear_flag g n) = has_flag f n" if "f AND g = 0"
  proof -
    have "f = f AND (g OR NOT g)" by simp
    also have "\<dots> = f AND NOT g" using that by (simp only: bit.conj_disj_distrib) simp
    finally have "NOT g AND f = f" by (simp add: and.commute)
    then show ?thesis by (simp add: has_flag_def clear_flag_def and.assoc)
  qed
qed

lemma live_node:
  assumes "zrep d L" "l < 7" "i \<in> set (L ! l)"
  shows "\<not> IS_INVALID_ZIDX d (int i)" "zn_type (nodes_of d i) = ztype l"
    "ZOF_TYPE_TO_LEVEL_IDX (zn_type (nodes_of d i)) = int l"
    "\<not> (int l < 0 \<or> int ZLIDX_LAUNCHER < int l)" "i \<noteq> 0"
  using zrep_valid [OF assms] zrepD(9) [OF assms] level_of_ztype [OF assms(2)] assms(2) zrep_not_0 [OF assms] by simp_all

lemma if_both: "P a \<Longrightarrow> P b \<Longrightarrow> P (if c then a else b)"
  by simp

lemma quiet_step:
  "same_order c d \<Longrightarrow> same_order c (if P then intersect_levels rc t d else d)"
  "same_order c d \<Longrightarrow> same_order c (if P then update_levels t d else d)"
  by (simp_all add: quiet_after quiet_intersect_levels quiet_update_levels)

lemma dskShowWindow_spec:
  assumes "zrep d L" "l < 7" "i \<in> set (L ! l)" "dskShowWindow d (int i) = (r, d')"
  shows "r = 0 \<and> zrep d' L \<and> visible (nodes_of d' i) \<and> (\<forall>x. x \<noteq> i \<longrightarrow> same_look (nodes_of d x) (nodes_of d' x))"
proof (cases "visible (nodes_of d i)")
  case True
  with assms live_node [OF assms(1-3)] show ?thesis by (auto simp: dskShowWindow_def Let_def)
next
  case False
  note N = live_node [OF assms(1-3)]
  obtain d3 where d': "d' = upd_node i (set_flag ZOF_VISIBLE) (upd_node i age_up d3)" "r = 0" and so: "same_order d d3"
  proof -
    define e where "e = close_menu_if True d"
    define rc where "rc = zn_rc (nodes_of e i)"
    define step where "step t zt c = (if ztype l > t then intersect_levels rc zt c else c)" for t :: dword and zt and c :: DESKTOP
    define d1 where "d1 = step ZOF_TYPE_TOOLTIP 0x80 (step ZOF_TYPE_GLOBAL 0x40 (step ZOF_TYPE_SCREENLOCK 0x20
      (step ZOF_TYPE_DOCKER 0x10 (step ZOF_TYPE_HIGHER 0x08 (step ZOF_TYPE_NORMAL 0x04 (step ZOF_TYPE_LAUNCHER 0x02 e))))))"
    define d3 where "d3 = age_desktop rc (intersect_from rc (zn_next (nodes_of d1 i)) d1)"
    have "dskShowWindow d (int i) = (0, upd_node i (set_flag ZOF_VISIBLE) (upd_node i age_up d3))"
      unfolding dskShowWindow_def Let_def nat_int if_not_P [OF N(1)] N(2) level_of_ztype [OF assms(2)] if_not_P [OF N(4)] if_not_P [OF False]
        d3_def d1_def step_def rc_def e_def by (rule refl)
    moreover have "same_order d d3"
      unfolding d3_def d1_def step_def e_def
      by (intro quiet_after [OF quiet_age_desktop] quiet_after [OF quiet_intersect_from] quiet_step quiet_close_menu_if)
    ultimately show thesis using assms(4) that by simp
  qed
  have "zrep (upd_node i age_up d3) L"
    using zrep_same_order [OF zrep_same_order [OF assms(1) so] quiet_upd_node [OF node_like_age_up]] .
  then have "zrep d' L" unfolding d' by (rule upd_flag_rep) simp
  moreover have "visible (nodes_of d' i)"
    by (simp add: d' upd_node_def has_flag_ops ZOF_VISIBLE_def)
  moreover have "same_look (nodes_of d x) (nodes_of d' x)" if "x \<noteq> i" for x
    using same_order_look [OF so, of x] that by (simp add: d' upd_node_def)
  ultimately show ?thesis using d'(2) by simp
qed

lemma dskHideWindow_spec:
  assumes "zrep d L" "l < 7" "i \<in> set (L ! l)" "dskHideWindow d (int i) = (r, d')"
  shows "r = 0 \<and> zrep d' L \<and> \<not> visible (nodes_of d' i) \<and> (\<forall>x. x \<noteq> i \<longrightarrow> same_look (nodes_of d x) (nodes_of d' x))"
proof (cases "visible (nodes_of d i)")
  case False
  with assms live_node [OF assms(1-3)] show ?thesis by (auto simp: dskHideWindow_def Let_def)
next
  case True
  note N = live_node [OF assms(1-3)]
  have nn: "\<not> \<not> visible (nodes_of d i)" using True by simp
  obtain d2 where d': "d' = (let d3 = upd_node i (clear_flag ZOF_VISIBLE) d2; rc = zn_rc (nodes_of d3 i)
      in erase_desktop rc (update_dirty rc d3))" "r = 0" and so: "same_order d d2"
  proof -
    define e where "e = set_update_rgn (zn_rc (nodes_of (close_menu_if True d) i)) (close_menu_if True d)"
    define step where "step t zt c = (if ztype l > t then update_levels zt c else c)" for t :: dword and zt and c :: DESKTOP
    define d1 where "d1 = (if visible (nodes_of e i) then refer_desktop (step ZOF_TYPE_LAUNCHER 0x02 (step ZOF_TYPE_NORMAL 0x04
      (step ZOF_TYPE_HIGHER 0x08 (step ZOF_TYPE_DOCKER 0x10 (step ZOF_TYPE_SCREENLOCK 0x20 (step ZOF_TYPE_GLOBAL 0x40
        (update_from (zn_next (nodes_of e i)) e))))))) else e)"
    define d2 where "d2 = (if i \<noteq> 0 \<and> has_flag ZOF_TF_MAINWIN (nodes_of d1 i) \<and> visible (nodes_of d1 i)
      then post_msg_by_znode_p i MSG_KILLFOCUS 0 (post_msg_by_znode_p i MSG_ACTIVE 0 (post_msg_by_znode_p i MSG_NCACTIVATE 0 d1)) else d1)"
    have "dskHideWindow d (int i) = (0, let d3 = upd_node i (clear_flag ZOF_VISIBLE) d2; rc = zn_rc (nodes_of d3 i)
        in erase_desktop rc (update_dirty rc d3))"
      unfolding dskHideWindow_def Let_def nat_int if_not_P [OF N(1)] N(2) level_of_ztype [OF assms(2)] if_not_P [OF N(4)] if_not_P [OF nn]
        d2_def d1_def step_def e_def by (rule refl)
    moreover have "same_order d d2"
    proof -
      have e: "same_order d e" unfolding e_def by (intro quiet_after [OF quiet_set_update_rgn] quiet_close_menu_if)
      have u: "same_order d (refer_desktop (step ZOF_TYPE_LAUNCHER 0x02 (step ZOF_TYPE_NORMAL 0x04
          (step ZOF_TYPE_HIGHER 0x08 (step ZOF_TYPE_DOCKER 0x10 (step ZOF_TYPE_SCREENLOCK 0x20 (step ZOF_TYPE_GLOBAL 0x40
          (update_from (zn_next (nodes_of e i)) e))))))))"
        unfolding step_def
        by (intro quiet_after [OF quiet_refer_desktop] quiet_step quiet_after [OF quiet_update_from] e)
      have d1: "same_order d d1" unfolding d1_def using u e by (rule if_both [where P = "same_order d"])
      show ?thesis unfolding d2_def
        by (intro if_both [where P = "same_order d"] quiet_after [OF quiet_post_msg] d1)
    qed
    ultimately show thesis using assms(4) that by simp
  qed
  define d3 where "d3 = upd_node i (clear_flag ZOF_VISIBLE) d2"
  have d'3: "d' = erase_desktop (zn_rc (nodes_of d3 i)) (update_dirty (zn_rc (nodes_of d3 i)) d3)"
    unfolding d'(1) Let_def d3_def by (rule refl)
  have so3: "same_order d3 d'" unfolding d'3 by (intro quiet_after [OF quiet_erase_desktop] quiet)
  have "zrep d3 L" unfolding d3_def by (rule upd_flag_rep [OF zrep_same_order [OF assms(1) so]]) simp
  then have "zrep d' L" by (rule zrep_same_order [OF _ so3])
  moreover have "\<not> visible (nodes_of d3 i)" by (simp add: d3_def upd_node_def has_flag_ops)
  then have "\<not> visible (nodes_of d' i)" using same_look_flags(1) [OF same_order_look [OF so3]] by simp
  moreover have "same_look (nodes_of d x) (nodes_of d' x)" if "x \<noteq> i" for x
  proof -
    have "same_look (nodes_of d x) (nodes_of d3 x)" using same_order_look [OF so, of x] that by (simp add: d3_def upd_node_def)
    then show ?thesis using same_order_look [OF so3] by (rule same_look_trans)
  qed
  ultimately show ?thesis using d'(2) by simp
qed

lemma upd_flag_look: "x \<noteq> i \<Longrightarrow> same_look (nodes_of d x) (nodes_of (upd_node i f d) x)"
  by (simp add: upd_node_def)

lemma dskEnableZOrderNode_spec:
  assumes "zrep d L" "l < 7" "i \<in> set (L ! l)" "dskEnableZOrderNode d (int i) en = (r, d')"
  shows "r = 0 \<and> zrep d' L \<and> has_flag ZOF_DISABLED (nodes_of d' i) = (\<not> en)
    \<and> (\<forall>x. x \<noteq> i \<longrightarrow> same_look (nodes_of d x) (nodes_of d' x))"
proof (cases en)
  case True
  with assms(4) live_node [OF assms(1-3)] have d': "r = 0" "d' = upd_node i (clear_flag ZOF_DISABLED) d"
    by (simp_all add: dskEnableZOrderNode_def)
  with True upd_flag_rep(2) [OF assms(1)] show ?thesis by (simp add: upd_flag_look) (simp add: upd_node_def has_flag_ops)
next
  case False
  with assms(4) live_node [OF assms(1-3)] have d': "r = 0" "d' = upd_node i (set_flag ZOF_DISABLED) d"
    by (simp_all add: dskEnableZOrderNode_def)
  with False upd_flag_rep(1) [OF assms(1)] show ?thesis
    by (simp add: upd_flag_look) (simp add: upd_node_def has_flag_ops ZOF_DISABLED_def)
qed

lemma dskSetZNodeGestureFlags_spec:
  assumes "zrep d L" "l < 7" "i \<in> set (L ! l)" "dskSetZNodeGestureFlags d (int i) fl = (r, d')"
  shows "r = 0 \<and> zrep d' L \<and> zn_flags (nodes_of d' i) AND ZOF_GESTURE_FLAGS_MASK = fl AND ZOF_GESTURE_FLAGS_MASK
    \<and> (\<forall>x. x \<noteq> i \<longrightarrow> same_look (nodes_of d x) (nodes_of d' x))"
proof -
  have d': "r = 0" "d' = upd_node i (set_flag (fl AND ZOF_GESTURE_FLAGS_MASK)) (upd_node i (clear_flag ZOF_GESTURE_FLAGS_MASK) d)"
    using assms(4) live_node [OF assms(1-3)] by (simp_all add: dskSetZNodeGestureFlags_def)
  have "zrep d' L" unfolding d'(2) by (intro upd_flag_rep assms(1)) simp_all
  moreover have "zn_flags (nodes_of d' i) AND ZOF_GESTURE_FLAGS_MASK = fl AND ZOF_GESTURE_FLAGS_MASK"
    by (simp add: d'(2) upd_node_def set_flag_def clear_flag_def bit.conj_disj_distrib2 and.assoc)
  ultimately show ?thesis by (simp add: d' upd_node_def)
qed

text \<open>Setting or clearing always-top raises the node afterwards.\<close>

definition with_top :: "znodes \<Rightarrow> nat \<Rightarrow> bool \<Rightarrow> znodes" where
  "with_top ns i fSet = ns(i := (if fSet then set_flag ZOF_IF_ALWAYSTOP else clear_flag ZOF_IF_ALWAYSTOP) (ns i))"

lemma dskSetZNodeAlwaysTop_spec:
  assumes "zrep d L" "l < 7" "i \<in> set (L ! l)" "dskSetZNodeAlwaysTop d (int i) fSet = (r, d')"
  shows "r = 0 \<and> zrep d' (L[l := raise_in (with_top (nodes_of d) i fSet) i (L ! l)])
    \<and> (\<forall>x. always_top (nodes_of d' x) = (if x = i then fSet else always_top (nodes_of d x)))"
proof -
  define d1 where "d1 = upd_node i (if fSet then set_flag ZOF_IF_ALWAYSTOP else clear_flag ZOF_IF_ALWAYSTOP) d"
  have n1: "nodes_of d1 = with_top (nodes_of d) i fSet" by (simp add: d1_def with_top_def upd_node_def)
  have rep: "zrep d1 L" unfolding d1_def using upd_flag_rep [OF assms(1)] by simp
  obtain q where q: "dskMove2Top d1 (int i) = (q, d')" and r: "r = 0"
    using assms(4) live_node [OF assms(1-3)] by (cases "dskMove2Top d1 (int i)") (simp add: dskSetZNodeAlwaysTop_def d1_def)
  from dskMove2Top_spec [OF rep assms(2,3) q] r show ?thesis
    unfolding n1 by (simp add: with_top_def has_flag_ops ZOF_IF_ALWAYSTOP_def)
qed

section \<open>Capacity\<close>

definition aligned :: "'a ZORDERINFO_scheme \<Rightarrow> bool" where
  "aligned z \<longleftrightarrow> 8 * LEN_USAGE_BMP_SPECIAL z = MAX_NR_SPECIAL_ZNODES z"

definition levels_like :: "nat \<Rightarrow> nat set" where
  "levels_like l = (if IS_TYPE_SPECIAL (ztype l) then {1, 2, 3, 6} else {0, 4, 5})"

lemma special_levels: "l < 7 \<Longrightarrow> IS_TYPE_SPECIAL (ztype l) \<longleftrightarrow> l \<in> {1, 2, 3, 6}"
  by (drule less_7_cases, elim disjE) (simp_all add: IS_TYPE_SPECIAL_def zof_type_defs)

lemma levels_like_simps: "l < 7 \<Longrightarrow> l \<in> levels_like l" "m \<in> levels_like l \<Longrightarrow> m < 7" "finite (levels_like l)"
  using special_levels [of l] less_7_cases [of l] by (auto simp: levels_like_def split: if_splits)

lemma card_slots:
  assumes "aligned z"
  shows "card {x. slot_of_type z (ztype l) x} = (\<Sum>m \<in> levels_like l. max_nr_nodes_in_levels z ! m)"
proof (cases "IS_TYPE_SPECIAL (ztype l)")
  case True
  then have "{x. slot_of_type z (ztype l) x} = {1 ..< MAX_NR_SPECIAL_ZNODES z}" by (auto simp: slot_of_type_def)
  then show ?thesis using True by (simp add: levels_like_def MAX_NR_SPECIAL_ZNODES_def)
next
  case False
  then have "{x. slot_of_type z (ztype l) x} = {MAX_NR_SPECIAL_ZNODES z ..< MAX_NR_ZNODES z}"
    using assms by (auto simp: slot_of_type_def aligned_def)
  then show ?thesis using False by (simp add: levels_like_def MAX_NR_ZNODES_def MAX_NR_GENERAL_ZNODES_def)
qed

lemma free_slot:
  assumes "zrep d L" "l < 7" "length (L ! l) < max_nr_nodes_in_levels d ! l" "aligned d"
  obtains x where "slot_of_type d (ztype l) x" "slot_idle (zi_usage_bmp d) x"
proof -
  note Z = zrepD [OF assms(1)]
  let ?S = "{x. slot_of_type d (ztype l) x}" and ?U = "\<Union>m \<in> levels_like l. set (L ! m)"
  have fin: "finite ?U" using levels_like_simps(3) by simp
  have "card ?U \<le> (\<Sum>m \<in> levels_like l. card (set (L ! m)))" by (rule card_UN_le [OF levels_like_simps(3)])
  also have "\<dots> \<le> (\<Sum>m \<in> levels_like l. length (L ! m))" by (intro sum_mono card_length)
  also have "\<dots> < (\<Sum>m \<in> levels_like l. max_nr_nodes_in_levels d ! m)"
    using Z(8) levels_like_simps assms(2,3) by (intro sum_strict_mono_ex1) auto
  also have "\<dots> = card ?S" by (rule card_slots [OF assms(4), symmetric])
  finally have "\<not> ?S \<subseteq> ?U" using card_mono [OF fin] by (metis not_le)
  then obtain x where x: "slot_of_type d (ztype l) x" "x \<notin> ?U" by blast
  have out: "x \<notin> set (L ! m)" if m: "m < 7" for m
  proof
    assume i: "x \<in> set (L ! m)"
    then have "slot_of_type d (ztype m) x" using Z(10) [OF m] by simp
    then have "IS_TYPE_SPECIAL (ztype m) = IS_TYPE_SPECIAL (ztype l)"
      using x(1) assms(4) by (auto simp: slot_of_type_def aligned_def split: if_splits)
    then have "m \<in> levels_like l" using levels_like_simps(1) [OF m] by (simp add: levels_like_def)
    with i x(2) show False by blast
  qed
  have "x \<noteq> 0" using x(1) assms(4) by (auto simp: slot_of_type_def aligned_def MAX_NR_SPECIAL_ZNODES_def split: if_splits)
  moreover have "x < MAX_NR_SPECIAL_ZNODES d \<or> 8 * LEN_USAGE_BMP_SPECIAL d \<le> x \<and> x < MAX_NR_ZNODES d"
    using x(1) by (auto simp: slot_of_type_def split: if_splits)
  ultimately have "slot_idle (zi_usage_bmp d) x" using Z(11) out by simp
  with x(1) show thesis by (rule that)
qed

section \<open>The set-up\<close>

lemma slot_idle_replicate_FF: "slot_idle (replicate n 0xFF) x \<longleftrightarrow> x < 8 * n"
proof -
  have ff: "(0xFF :: u8) = - 1" by simp
  have "bit (0xFF :: u8) (7 - x mod 8)" unfolding ff by (simp add: bit_minus_1_iff)
  then show ?thesis by (auto simp: slot_idle_def)
qed

text \<open>The set-up represents seven empty lists, whatever \<open>malloc\<close> left in the block; the special slots
  fill their bytes of the bitmap exactly.\<close>

lemma zrep_init:
  "zrep (kernel_alloc_z_order_info t n scr mem menus masks oa na rg) (replicate 7 [])"
  "aligned (kernel_alloc_z_order_info t n scr mem menus masks oa na rg)"
proof -
  let ?z = "kernel_alloc_z_order_info t n scr mem menus masks oa na rg"
  have S: "MAX_NR_SPECIAL_ZNODES ?z = 40" "LEN_USAGE_BMP_SPECIAL ?z = 5" "MAX_NR_ZNODES ?z = 56 + t + n"
    "LEN_USAGE_BMP_GENERAL ?z = (23 + t + n) div 8"
    by (simp_all add: MAX_NR_SPECIAL_ZNODES_def LEN_USAGE_BMP_SPECIAL_def MAX_NR_ZNODES_def MAX_NR_GENERAL_ZNODES_def
        LEN_USAGE_BMP_GENERAL_def kernel_alloc_z_order_info_def)
  define B where "B = SIZE_USAGE_BMP DEF_NR_GLOBALS t n"
  have B: "(23 + t + n) div 8 + 5 \<le> B"
    unfolding B_def SIZE_USAGE_BMP_def ROUND_TO_MULTIPLE_8_def by simp
  have bmp: "zi_usage_bmp ?z = slot_set_use (replicate B 0xFF) 0" by (simp add: kernel_alloc_z_order_info_def B_def)
  have B0: "0 < 8 * length (replicate B (0xFF :: u8))" using B by simp
  have idle: "slot_idle (zi_usage_bmp ?z) x \<longleftrightarrow> x < 8 * B \<and> x \<noteq> 0" for x
    unfolding bmp slot_idle_set_use [OF B0] slot_idle_replicate_FF by simp
  have len: "length (zi_usage_bmp ?z) = B" unfolding bmp by (simp add: slot_set_use_def)
  have bound: "x < 8 * B" if "x < 56 + t + n" for x
  proof -
    have "56 + t + n \<le> 8 * ((23 + t + n) div 8 + 5)" by presburger
    with that B show ?thesis by linarith
  qed
  have f: "first_in_levels ?z = replicate 7 0" "nr_nodes_in_levels ?z = replicate 7 0"
    by (simp_all add: kernel_alloc_z_order_info_def numeral_eq_Suc)
  show "zrep ?z (replicate 7 [])"
    unfolding zrep_def S len f using B bound by (simp add: idle) 
  show "aligned ?z" by (simp add: aligned_def S)
qed

section \<open>Reachable states\<close>

text \<open>The operations a server performs on the handles it has given out.\<close>

inductive zreach :: "DESKTOP \<Rightarrow> nat set \<Rightarrow> bool" where
  init: "zreach (kernel_alloc_z_order_info t n scr mem menus masks oa na rg) {}"
| alloc: "\<lbrakk>zreach d A; l < 7; flags AND ZOF_TYPE_MASK = ztype l;
    AllocZOrderNodeEx d cli hWnd main_win flags rc caption = (int k, d')\<rbrakk> \<Longrightarrow> zreach d' (insert k A)"
| alloc_fails: "\<lbrakk>zreach d A; l < 7; flags AND ZOF_TYPE_MASK = ztype l;
    AllocZOrderNodeEx d cli hWnd main_win flags rc caption = (- 1, d')\<rbrakk> \<Longrightarrow> zreach d' A"
| free: "\<lbrakk>zreach d A; i \<in> A; FreeZOrderNodeEx d (int i) = (r, d')\<rbrakk> \<Longrightarrow> zreach d' (A - {i})"
| raise: "\<lbrakk>zreach d A; i \<in> A; dskMove2Top d (int i) = (r, d')\<rbrakk> \<Longrightarrow> zreach d' A"
| top: "\<lbrakk>zreach d A; i \<in> A; dskSetZNodeAlwaysTop d (int i) fSet = (r, d')\<rbrakk> \<Longrightarrow> zreach d' A"
| gesture: "\<lbrakk>zreach d A; i \<in> A; dskSetZNodeGestureFlags d (int i) fl = (r, d')\<rbrakk> \<Longrightarrow> zreach d' A"
| enable: "\<lbrakk>zreach d A; i \<in> A; dskEnableZOrderNode d (int i) en = (r, d')\<rbrakk> \<Longrightarrow> zreach d' A"
| show_win: "\<lbrakk>zreach d A; i \<in> A; dskShowWindow d (int i) = (r, d')\<rbrakk> \<Longrightarrow> zreach d' A"
| hide_win: "\<lbrakk>zreach d A; i \<in> A; dskHideWindow d (int i) = (r, d')\<rbrakk> \<Longrightarrow> zreach d' A"
| active: "\<lbrakk>zreach d A; dskSetActiveZOrderNode d cli i = (h, d')\<rbrakk> \<Longrightarrow> zreach d' A"
| start_popup: "\<lbrakk>zreach d A; srvStartTrackPopupMenu d cli rc ptmi = (r, d')\<rbrakk> \<Longrightarrow> zreach d' A"
| end_popup: "\<lbrakk>zreach d A; srvEndTrackPopupMenu d cli k = (r, d')\<rbrakk> \<Longrightarrow> zreach d' A"
| close_popup: "zreach d A \<Longrightarrow> zreach (srvForceCloseMenu d) A"

definition handles :: "nat list list \<Rightarrow> nat set" where
  "handles L = (\<Union>l < length L. set (L ! l))"

lemma handlesD: "i \<in> handles L \<Longrightarrow> length L = 7 \<Longrightarrow> \<exists>l < 7. i \<in> set (L ! l)"
  by (auto simp: handles_def)

lemma handles_update:
  assumes "zrep d L" "l < 7"
  shows "handles (L[l := put_top ns k (L ! l)]) = insert k (handles L)"
    "i \<in> set (L ! l) \<Longrightarrow> handles (L[l := remove1 i (L ! l)]) = handles L - {i}"
    "set ys = set (L ! l) \<Longrightarrow> handles (L[l := ys]) = handles L"
proof -
  note Z = zrepD [OF assms(1)]
  have H: "handles (L[l := ys]) = set ys \<union> (\<Union>m \<in> {..< 7} - {l}. set (L ! m))" for ys
  proof -
    have "{..< 7} = insert l ({..< 7} - {l})" using assms(2) by auto
    then have "handles (L[l := ys]) = (\<Union>m \<in> insert l ({..< 7} - {l}). set (L[l := ys] ! m))"
      using Z(1) by (simp add: handles_def)
    then show ?thesis using Z(1) assms(2) by (simp del: insert_Diff_single)
  qed
  have L: "handles L = set (L ! l) \<union> (\<Union>m \<in> {..< 7} - {l}. set (L ! m))"
    using H [of "L ! l"] by simp
  show "handles (L[l := put_top ns k (L ! l)]) = insert k (handles L)" unfolding H L set_put_top by blast
  show "handles (L[l := ys]) = handles L" if "set ys = set (L ! l)" for ys unfolding H L that by blast
  show "handles (L[l := remove1 i (L ! l)]) = handles L - {i}" if i: "i \<in> set (L ! l)"
  proof -
    have "i \<notin> (\<Union>m \<in> {..< 7} - {l}. set (L ! m))" using zrep_disjoint [OF assms _ i] by blast
    then show ?thesis unfolding H L using set_remove1_eq [OF Z(6) [OF assms(2)]] by blast
  qed
qed

lemma set_raise_in: "i \<in> set xs \<Longrightarrow> distinct xs \<Longrightarrow> set (raise_in ns i xs) = set xs"
  by (auto simp: raise_in_def set_put_top)

end
