(* ===== verification/MG_ZOrderReach.thy ===== *)
theory MG_ZOrderReach
  imports MG_ZOrderInv
begin

text \<open>
  Every state that operations on live handles reach represents an order, and the walks over the levels
  (\<open>kernel_get_next_znode\<close>, \<open>kernel_get_prev_znode\<close>, \<open>get_znode_at_point\<close>) follow it.
\<close>

section \<open>The capacities stay\<close>

lemma mx_quiet [simp]:
  "max_nr_nodes_in_levels (close_menu_if b d) = max_nr_nodes_in_levels d"
  "max_nr_nodes_in_levels (update_on_new_visible_znode i ty d) = max_nr_nodes_in_levels d"
  "max_nr_nodes_in_levels (prepare_to_delete_visible_znode i ty d) = max_nr_nodes_in_levels d"
  "max_nr_nodes_in_levels (update_after_delete_visible_znode i rc d) = max_nr_nodes_in_levels d"
  "max_nr_nodes_in_levels (erase_desktop rc d) = max_nr_nodes_in_levels d"
  "max_nr_nodes_in_levels (update_client_window_rgn h d) = max_nr_nodes_in_levels d"
  "max_nr_nodes_in_levels (refer_desktop d) = max_nr_nodes_in_levels d"
  "max_nr_nodes_in_levels (update_levels t d) = max_nr_nodes_in_levels d"
  "max_nr_nodes_in_levels (update_from s d) = max_nr_nodes_in_levels d"
  "max_nr_nodes_in_levels (intersect_levels rc t d) = max_nr_nodes_in_levels d"
  "max_nr_nodes_in_levels (intersect_from rc s d) = max_nr_nodes_in_levels d"
  "max_nr_nodes_in_levels (age_desktop rc d) = max_nr_nodes_in_levels d"
  "max_nr_nodes_in_levels (update_dirty rc d) = max_nr_nodes_in_levels d"
  "max_nr_nodes_in_levels (set_update_rgn rc d) = max_nr_nodes_in_levels d"
  "max_nr_nodes_in_levels (post_msg_by_znode_p i m w d) = max_nr_nodes_in_levels d"
  "max_nr_nodes_in_levels (srvForceCloseMenu d) = max_nr_nodes_in_levels d"
  "max_nr_nodes_in_levels (snd (dskSetActiveZOrderNode d cli j)) = max_nr_nodes_in_levels d"
proof -
  have m: "same_order d e \<Longrightarrow> max_nr_nodes_in_levels e = max_nr_nodes_in_levels d" for e
    by (simp add: same_order_def)
  show "max_nr_nodes_in_levels (close_menu_if b d) = max_nr_nodes_in_levels d" by (rule m [OF quiet_close_menu_if])
  show "max_nr_nodes_in_levels (update_on_new_visible_znode i ty d) = max_nr_nodes_in_levels d" by (rule m [OF quiet_update_on_new])
  show "max_nr_nodes_in_levels (prepare_to_delete_visible_znode i ty d) = max_nr_nodes_in_levels d" by (rule m [OF quiet_prepare])
  show "max_nr_nodes_in_levels (update_after_delete_visible_znode i rc d) = max_nr_nodes_in_levels d" by (rule m [OF quiet_after_delete])
qed (simp_all add: quiet [THEN same_order_def [THEN iffD1]])

lemma mx_other [simp]:
  "max_nr_nodes_in_levels (upd_node i f d) = max_nr_nodes_in_levels d"
  "max_nr_nodes_in_levels (chain_new l k d) = max_nr_nodes_in_levels d"
  "max_nr_nodes_in_levels (chain_raised l k d) = max_nr_nodes_in_levels d"
  "max_nr_nodes_in_levels (unchain_znode i d) = max_nr_nodes_in_levels d"
  "max_nr_nodes_in_levels (release_znode_maskrect d i) = max_nr_nodes_in_levels d"
  "max_nr_nodes_in_levels (alloc_mask_rects_for_round_corners i fl rc d) = max_nr_nodes_in_levels d"
  by (simp_all add: upd_node_def chain_new_def chain_raised_def unchain_znode_def release_znode_maskrect_def
      alloc_mask_rects_for_round_corners_def Let_def split: prod.splits)

lemma mx_Alloc: "max_nr_nodes_in_levels (snd (AllocZOrderNodeEx d cli h m fl rc cap)) = max_nr_nodes_in_levels d"
  by (simp add: AllocZOrderNodeEx_def Let_def split: option.splits prod.splits)

lemma mx_Free: "max_nr_nodes_in_levels (snd (FreeZOrderNodeEx d i)) = max_nr_nodes_in_levels d"
  by (simp add: FreeZOrderNodeEx_def Let_def)

lemma mx_Move2Top: "max_nr_nodes_in_levels (snd (dskMove2Top d i)) = max_nr_nodes_in_levels d"
  by (simp add: dskMove2Top_def Let_def split: prod.splits)

lemma mx_flags:
  "max_nr_nodes_in_levels (snd (dskSetZNodeAlwaysTop d i b)) = max_nr_nodes_in_levels d"
  "max_nr_nodes_in_levels (snd (dskSetZNodeGestureFlags d i fl)) = max_nr_nodes_in_levels d"
  "max_nr_nodes_in_levels (snd (dskEnableZOrderNode d i b)) = max_nr_nodes_in_levels d"
  by (simp_all add: dskSetZNodeAlwaysTop_def dskSetZNodeGestureFlags_def dskEnableZOrderNode_def Let_def mx_Move2Top)

lemma mx_Show: "max_nr_nodes_in_levels (snd (dskShowWindow d i)) = max_nr_nodes_in_levels d"
  by (simp add: dskShowWindow_def Let_def)

lemma mx_Hide: "max_nr_nodes_in_levels (snd (dskHideWindow d i)) = max_nr_nodes_in_levels d"
  by (simp add: dskHideWindow_def Let_def)

lemma aligned_mx: "max_nr_nodes_in_levels d' = max_nr_nodes_in_levels d \<Longrightarrow> aligned d' = aligned d"
  by (simp add: aligned_def LEN_USAGE_BMP_SPECIAL_def MAX_NR_SPECIAL_ZNODES_def)

section \<open>Every reachable state represents an order\<close>

lemma quiet_start_popup: "same_order d (snd (srvStartTrackPopupMenu d cli rc ptmi))"
proof -
  have q: "same_order d (age_desktop rc (intersect_levels rc 0xFF (close_menu_if b d)))" for b
    by (intro quiet_after [OF quiet_age_desktop] quiet_after [OF quiet_intersect_levels] quiet_close_menu_if)
  then show ?thesis by (simp add: srvStartTrackPopupMenu_def Let_def quiet_close_menu_if)
qed

lemma quiet_end_popup: "same_order d (snd (srvEndTrackPopupMenu d cli k))"
proof -
  have u: "same_order d (refer_desktop (update_levels 0xFF (set_update_rgn rc d)))" for rc
    by (intro quiet_after [OF quiet_refer_desktop] quiet_after [OF quiet_update_levels] quiet_set_update_rgn)
  have q: "same_order d e \<Longrightarrow> same_order d (erase_desktop rc (update_dirty rc e))" for rc e
    by (intro quiet_after [OF quiet_erase_desktop] quiet_after [OF quiet_update_dirty])
  show ?thesis unfolding srvEndTrackPopupMenu_def Let_def by (auto intro!: q simp: u)
qed

definition zinv :: "DESKTOP \<Rightarrow> nat set \<Rightarrow> bool" where
  "zinv d A \<longleftrightarrow> (\<exists>L. zrep d L \<and> handles L = A) \<and> aligned d"

lemma zinvD:
  assumes "zinv d A" "i \<in> A"
  obtains L l where "zrep d L" "handles L = A" "l < 7" "i \<in> set (L ! l)"
  using assms handlesD zrepD(1) unfolding zinv_def by metis

lemma zinv_same_order: "zinv d A \<Longrightarrow> same_order d d' \<Longrightarrow> zinv d' A"
  using zrep_same_order aligned_mx [of d' d] unfolding zinv_def same_order_def by metis

lemma zinvI: "zrep d L \<Longrightarrow> handles L = A \<Longrightarrow> aligned d \<Longrightarrow> zinv d A"
  by (auto simp: zinv_def)

lemma aligned_ops:
  "zinv d A \<Longrightarrow> AllocZOrderNodeEx d cli h m fl rc cap = (r, d') \<Longrightarrow> aligned d'"
  "zinv d A \<Longrightarrow> FreeZOrderNodeEx d i = (r, d') \<Longrightarrow> aligned d'"
  "zinv d A \<Longrightarrow> dskMove2Top d i = (r, d') \<Longrightarrow> aligned d'"
  "zinv d A \<Longrightarrow> dskSetZNodeAlwaysTop d i b = (r, d') \<Longrightarrow> aligned d'"
  "zinv d A \<Longrightarrow> dskSetZNodeGestureFlags d i gf = (r, d') \<Longrightarrow> aligned d'"
  "zinv d A \<Longrightarrow> dskEnableZOrderNode d i b = (r, d') \<Longrightarrow> aligned d'"
  "zinv d A \<Longrightarrow> dskShowWindow d i = (r, d') \<Longrightarrow> aligned d'"
  "zinv d A \<Longrightarrow> dskHideWindow d i = (r, d') \<Longrightarrow> aligned d'"
  using aligned_mx [OF mx_Alloc [of d cli h m fl rc cap]] aligned_mx [OF mx_Free [of d i]]
    aligned_mx [OF mx_Move2Top [of d i]] aligned_mx [OF mx_flags(1) [of d i b]] aligned_mx [OF mx_flags(2) [of d i gf]]
    aligned_mx [OF mx_flags(3) [of d i b]] aligned_mx [OF mx_Show [of d i]] aligned_mx [OF mx_Hide [of d i]]
  by (auto simp: zinv_def)

lemma zreach_zinv: "zreach d A \<Longrightarrow> zinv d A"
proof (induction rule: zreach.induct)
  case (init t n scr mem menus masks oa na rg)
  show ?case by (rule zinvI [OF zrep_init(1) _ zrep_init(2)]) (simp add: handles_def)
next
  case (alloc d A l flags cli hWnd main_win rc caption k d')
  from alloc.IH obtain L where L: "zrep d L" "handles L = A" by (auto simp: zinv_def)
  from AllocZOrderNodeEx_spec [OF L(1) alloc.hyps(2-4)]
  have "zrep d' (L[l := put_top (nodes_of d) k (L ! l)])" by auto
  then show ?case using handles_update(1) [OF L(1) alloc.hyps(2)] L(2) aligned_ops(1) [OF alloc.IH alloc.hyps(4)]
    by (intro zinvI) simp_all
next
  case (alloc_fails d A l flags cli hWnd main_win rc caption d')
  from alloc_fails.IH obtain L where L: "zrep d L" "handles L = A" by (auto simp: zinv_def)
  from AllocZOrderNodeEx_spec [OF L(1) alloc_fails.hyps(2-4)] have "zrep d' L" by auto
  then show ?case using L(2) aligned_ops(1) [OF alloc_fails.IH alloc_fails.hyps(4)] by (rule zinvI)
next
  case (free d A i r d')
  from zinvD [OF free.IH free.hyps(2)] obtain L l where L: "zrep d L" "handles L = A" "l < 7" "i \<in> set (L ! l)" .
  from FreeZOrderNodeEx_spec(2) [OF L(1,3,4) free.hyps(3)] show ?case
    by (rule zinvI) (simp_all add: handles_update(2) [OF L(1,3,4)] L(2) aligned_ops(2) [OF free.IH free.hyps(3)])
next
  case (raise d A i r d')
  from zinvD [OF raise.IH raise.hyps(2)] obtain L l where L: "zrep d L" "handles L = A" "l < 7" "i \<in> set (L ! l)" .
  from dskMove2Top_spec [OF L(1,3,4) raise.hyps(3)] have "zrep d' (L[l := raise_in (nodes_of d) i (L ! l)])" by simp
  then show ?case
    by (rule zinvI) (simp_all add: handles_update(3) [OF L(1,3)] set_raise_in [OF L(4) zrepD(6) [OF L(1,3)]] L(2)
      aligned_ops(3) [OF raise.IH raise.hyps(3)])
next
  case (top d A i fSet r d')
  from zinvD [OF top.IH top.hyps(2)] obtain L l where L: "zrep d L" "handles L = A" "l < 7" "i \<in> set (L ! l)" .
  from dskSetZNodeAlwaysTop_spec [OF L(1,3,4) top.hyps(3)]
  have "zrep d' (L[l := raise_in (with_top (nodes_of d) i fSet) i (L ! l)])" by simp
  then show ?case
    by (rule zinvI) (simp_all add: handles_update(3) [OF L(1,3)] set_raise_in [OF L(4) zrepD(6) [OF L(1,3)]] L(2)
      aligned_ops(4) [OF top.IH top.hyps(3)])
next
  case (gesture d A i fl r d')
  from zinvD [OF gesture.IH gesture.hyps(2)] obtain L l where L: "zrep d L" "handles L = A" "l < 7" "i \<in> set (L ! l)" .
  from dskSetZNodeGestureFlags_spec [OF L(1,3,4) gesture.hyps(3)] have "zrep d' L" by simp
  then show ?case using L(2) aligned_ops(5) [OF gesture.IH gesture.hyps(3)] by (rule zinvI)
next
  case (enable d A i en r d')
  from zinvD [OF enable.IH enable.hyps(2)] obtain L l where L: "zrep d L" "handles L = A" "l < 7" "i \<in> set (L ! l)" .
  from dskEnableZOrderNode_spec [OF L(1,3,4) enable.hyps(3)] have "zrep d' L" by simp
  then show ?case using L(2) aligned_ops(6) [OF enable.IH enable.hyps(3)] by (rule zinvI)
next
  case (show_win d A i r d')
  from zinvD [OF show_win.IH show_win.hyps(2)] obtain L l where L: "zrep d L" "handles L = A" "l < 7" "i \<in> set (L ! l)" .
  from dskShowWindow_spec [OF L(1,3,4) show_win.hyps(3)] have "zrep d' L" by simp
  then show ?case using L(2) aligned_ops(7) [OF show_win.IH show_win.hyps(3)] by (rule zinvI)
next
  case (hide_win d A i r d')
  from zinvD [OF hide_win.IH hide_win.hyps(2)] obtain L l where L: "zrep d L" "handles L = A" "l < 7" "i \<in> set (L ! l)" .
  from dskHideWindow_spec [OF L(1,3,4) hide_win.hyps(3)] have "zrep d' L" by simp
  then show ?case using L(2) aligned_ops(8) [OF hide_win.IH hide_win.hyps(3)] by (rule zinvI)
next
  case (active d A cli i h d')
  then show ?case using zinv_same_order quiet_set_active by (metis snd_conv)
next
  case (start_popup d A cli rc ptmi r d')
  then show ?case using zinv_same_order quiet_start_popup by (metis snd_conv)
next
  case (end_popup d A cli k r d')
  then show ?case using zinv_same_order quiet_end_popup by (metis snd_conv)
next
  case (close_popup d A)
  then show ?case using zinv_same_order quiet_srvForceCloseMenu by metis
qed


end
