(* ===== verification/MG_ZWalk.thy ===== *)
theory MG_ZWalk
  imports MG_ZOrderReach
begin

text \<open>
  The walks over the levels in \<open>src/kernel/zorder.c\<close> and \<open>src/kernel/desktop.c\<close> follow the order that
  the links represent: the next and the previous node, the next window that can be active, the window
  at a point of the screen.
\<close>

section \<open>The order as one list\<close>

definition hd0 :: "nat list \<Rightarrow> nat" where
  "hd0 xs = (if xs = [] then 0 else hd xs)"

definition last0 :: "nat list \<Rightarrow> nat" where
  "last0 xs = (if xs = [] then 0 else last xs)"

lemma hd0_simps [simp]: "hd0 [] = 0" "hd0 (x # xs) = x"
  by (simp_all add: hd0_def)

lemma hd0_append: "hd0 (xs @ ys) = (if xs = [] then hd0 ys else hd0 xs)"
  by (cases xs) simp_all

lemma zrep_firsts:
  assumes "zrep d L"
  shows "first_in_levels d = map hd0 L"
proof (rule nth_equalityI)
  fix l assume "l < length (first_in_levels d)"
  then have l: "l < 7" using zrepD(2) [OF assms] by simp
  from zrepD(5) [OF assms l] have "first_in_levels d ! l = hd0 (L ! l)" by (cases "L ! l") auto
  then show "first_in_levels d ! l = map hd0 L ! l" using l zrepD(1) [OF assms] by simp
qed (simp add: zrepD(1,2) [OF assms])

lemma first_of_hd0: "\<forall>xs \<in> set L. 0 \<notin> set xs \<Longrightarrow> first_of (map hd0 L) = hd0 (concat L)"
proof (induction L)
  case (Cons xs L)
  then show ?case by (cases xs) (auto simp: hd0_append)
qed simp

lemma zrep_no_0: "zrep d L \<Longrightarrow> xs \<in> set L \<Longrightarrow> 0 \<notin> set xs"
  using zrep_not_0 zrepD(1) by (metis in_set_conv_nth)

lemma distinct_order:
  assumes "zrep d L"
  shows "distinct (concat L)"
proof -
  note Z = zrepD [OF assms]
  have "distinct (concat (take n L))" if "n \<le> 7" for n
    using that
  proof (induction n)
    case (Suc n)
    then have n: "n < 7" by simp
    have "set (concat (take n L)) \<inter> set (L ! n) = {}"
    proof -
      have "x \<notin> set (L ! n)" if "x \<in> set (concat (take n L))" for x
      proof
        assume x: "x \<in> set (L ! n)"
        from that obtain m where m: "m < n" "x \<in> set (L ! m)"
          using n Z(1) by (auto simp: in_set_conv_nth) (metis in_set_conv_nth)
        then have "m = n" using zrep_disjoint [OF assms _ n m(2) x] n by simp
        with m(1) show False by simp
      qed
      then show ?thesis by blast
    qed
    with Suc Z(6) [OF n] n Z(1) show ?case by (simp add: take_Suc_conv_app_nth)
  qed simp
  from this [of 7] Z(1) show ?thesis by simp
qed

lemma order_less:
  assumes "zrep d L"
  shows "set (concat L) \<subseteq> {1 ..< MAX_NR_ZNODES d}" "length (concat L) \<le> MAX_NR_ZNODES d"
proof -
  have "x \<in> {1 ..< MAX_NR_ZNODES d}" if x: "x \<in> set (concat L)" for x
  proof -
    from x obtain l where l: "l < 7" "x \<in> set (L ! l)"
      using zrepD(1) [OF assms] by (auto simp: in_set_conv_nth) (metis in_set_conv_nth)
    from slot_less [OF zrepD(10) [OF assms l]] zrep_not_0 [OF assms l] show ?thesis by simp
  qed
  then show s: "set (concat L) \<subseteq> {1 ..< MAX_NR_ZNODES d}" by blast
  have "length (concat L) = card (set (concat L))" using distinct_card [OF distinct_order [OF assms]] by simp
  also have "\<dots> \<le> card {1 ..< MAX_NR_ZNODES d}" by (rule card_mono [OF _ s]) simp
  finally show "length (concat L) \<le> MAX_NR_ZNODES d" by simp
qed

text \<open>A place in the order is a place in one level.\<close>

lemma order_split:
  assumes "zrep d L" "concat L = us @ i # vs"
  obtains l a b where "l < 7" "L ! l = a @ i # b" "us = concat (take l L) @ a" "vs = b @ concat (drop (Suc l) L)"
proof -
  note Z = zrepD [OF assms(1)]
  have "i \<in> set (concat L)" using assms(2) by simp
  then obtain l where l: "l < 7" "i \<in> set (L ! l)"
    using Z(1) by (auto simp: in_set_conv_nth) (metis in_set_conv_nth)
  then obtain a b where ab: "L ! l = a @ i # b" by (meson split_list)
  have "L = take l L @ L ! l # drop (Suc l) L" using l Z(1) by (simp add: id_take_nth_drop)
  then have c: "concat L = (concat (take l L) @ a) @ i # (b @ concat (drop (Suc l) L))"
    using ab by (metis append.assoc append_Cons concat.simps(2) concat_append)
  have "us = concat (take l L) @ a \<and> vs = b @ concat (drop (Suc l) L)"
    using distinct_order [OF assms(1)] c assms(2)
    by (metis append_Cons_eq_iff distinct_append distinct.simps(2) not_distinct_conv_prefix)
  with l(1) ab show thesis using that by blast
qed

lemma order_at_level:
  assumes "zrep d L" "l < 7" "L ! l = a @ i # b"
  shows "i \<in> set (L ! l)" "zn_type (nodes_of d i) = ztype l" "zn_next (nodes_of d i) = hd0 b"
    "zn_prev (nodes_of d i) = last0 a" "0 \<notin> set (L ! l)"
proof -
  show i: "i \<in> set (L ! l)" using assms(3) by simp
  then show "zn_type (nodes_of d i) = ztype l" by (rule zrepD(9) [OF assms(1,2)])
  have "dseg (nodes_of d) 0 (first_in_levels d ! l) (a @ i # b) 0" using zrepD(5) [OF assms(1,2)] assms(3) by simp
  then have p: "zn_prev (nodes_of d i) = last (0 # a)" and n: "dseg (nodes_of d) i (zn_next (nodes_of d i)) b 0"
    by (auto simp: dseg_append)
  from n show "zn_next (nodes_of d i) = hd0 b" by (cases b) auto
  from p show "zn_prev (nodes_of d i) = last0 a" by (simp add: last0_def)
  show "0 \<notin> set (L ! l)" using zrep_not_0 [OF assms(1,2)] by blast
qed

lemma first_of_levels: "zrep d L \<Longrightarrow> first_of (drop k (first_in_levels d)) = hd0 (concat (drop k L))"
  using zrep_firsts [of d L] first_of_hd0 [of "drop k L"] zrep_no_0 [of d L]
  by (metis drop_map in_set_dropD)

lemma last_level: "length L = 7 \<Longrightarrow> concat (drop 6 L) = L ! 6" "length L = 7 \<Longrightarrow> concat (take (Suc 0) L) = L ! 0"
proof -
  assume L: "length L = 7"
  then have "drop 6 L = L ! 6 # drop 7 L" using Cons_nth_drop_Suc [of 6 L] by simp
  with L show "concat (drop 6 L) = L ! 6" by simp
  from L show "concat (take (Suc 0) L) = L ! 0" by (cases L) simp_all
qed

text \<open>The next node is the next one of the order; behind the last one the answer is -1 on the launcher
  level and 0 elsewhere.\<close>

lemma next_znode_spec:
  assumes "zrep d L" "concat L = us @ i # vs"
  shows "kernel_get_next_znode d (int i) = (if vs = [] \<and> i \<in> set (L ! 6) then - 1 else int (hd0 vs))"
proof -
  from order_split [OF assms] obtain l a b where s: "l < 7" "L ! l = a @ i # b" "us = concat (take l L) @ a"
    "vs = b @ concat (drop (Suc l) L)" .
  note A = order_at_level [OF assms(1) s(1,2)]
  have "i \<noteq> 0" using A(1,5) by metis
  then have i0: "\<not> int i \<le> 0" by simp
  have firsts: "first_in_levels d ! 6 = hd0 (L ! 6)" using zrep_firsts [OF assms(1)] zrepD(1) [OF assms(1)] by simp
  show ?thesis
  proof (cases "b = []")
    case False
    then have "zn_next (nodes_of d i) > 0" "hd0 vs = hd0 b" using A(3,5) s(2,4) by (cases b; auto)+
    with i0 A(3) False s(4) show ?thesis by (simp add: kernel_get_next_znode_def Let_def)
  next
    case True
    then have n: "\<not> zn_next (nodes_of d i) > 0" using A(3) by simp
    have in6: "i \<in> set (L ! 6) \<longleftrightarrow> l = 6" using zrep_disjoint [OF assms(1) s(1) _ A(1)] A(1) by auto
    have F: "first_of (drop k (first_in_levels d)) = hd0 (concat (drop k L))" for k by (rule first_of_levels [OF assms(1)])
    have l6: "concat (drop 6 L) = L ! 6" by (rule last_level(1) [OF zrepD(1) [OF assms(1)]])
    have d7: "drop 7 L = []" using zrepD(1) [OF assms(1)] by simp
    have vs: "vs = concat (drop (Suc l) L)" using s(4) True by simp
    show ?thesis
      unfolding kernel_get_next_znode_def Let_def nat_int if_not_P [OF i0] if_not_P [OF n] A(2) vs in6
      using less_7_cases [OF s(1)] by (elim disjE) (simp_all add: zof_type_defs F firsts l6 d7 numeral_2_eq_2 [symmetric])
  qed
qed

lemma next_znode_first: "zrep d L \<Longrightarrow> from \<le> 0 \<Longrightarrow> kernel_get_next_znode d from = int (hd0 (concat L))"
  using first_of_levels [of d L 0] by (simp add: kernel_get_next_znode_def)

lemma last_in_chain_spec:
  "dseg ns p f (x # xs) 0 \<Longrightarrow> length xs \<le> k \<Longrightarrow> last_in_chain k ns f = last (x # xs)"
proof (induction xs arbitrary: p f x k)
  case Nil
  then show ?case by (cases k) auto
next
  case (Cons y xs)
  then obtain k' where k: "k = Suc k'" by (cases k) auto
  from Cons.prems have "dseg ns x (zn_next (ns x)) (y # xs) 0" "f = x" "zn_next (ns x) = y" "y \<noteq> 0" by auto
  with Cons.IH [of x "zn_next (ns x)" y k'] Cons.prems(2) k show ?case by simp
qed

lemma last_of_spec:
  assumes "\<forall>(f, xs) \<in> set (zip fs L). dseg ns 0 f xs 0 \<and> length xs \<le> k" "length fs = length L"
  shows "last_of k ns fs = last0 (concat (rev L))"
  using assms(2,1)
proof (induction fs L rule: list_induct2)
  case (Cons f fs xs L)
  show ?case
  proof (cases xs)
    case Nil
    with Cons show ?thesis by simp
  next
    case (Cons y ys)
    with Cons.prems have "dseg ns 0 f (y # ys) 0" "length ys \<le> k" by auto
    from last_in_chain_spec [OF this] this(1) Cons show ?thesis by (simp add: last0_def)
  qed
qed (simp add: last0_def)

lemma last_of_levels:
  assumes "zrep d L" "l \<le> 7"
  shows "last_of (MAX_NR_ZNODES d) (nodes_of d) (rev (take l (first_in_levels d))) = last0 (concat (take l L))"
proof -
  note Z = zrepD [OF assms(1)]
  have D: "dseg (nodes_of d) 0 f xs 0 \<and> length xs \<le> MAX_NR_ZNODES d"
    if "(f, xs) \<in> set (zip (rev (take l (first_in_levels d))) (rev (take l L)))" for f xs
  proof -
    from that have "(f, xs) \<in> set (zip (take l (first_in_levels d)) (take l L))"
      using assms(2) Z(1,2) by (simp add: zip_rev)
    then obtain m where "m < 7" "f = first_in_levels d ! m" "xs = L ! m"
      using assms(2) Z(1,2) by (auto simp: set_zip) (metis order_less_le_trans)
    with Z(5) zrep_length [OF assms(1)] show ?thesis by simp
  qed
  have "\<forall>(f, xs) \<in> set (zip (rev (take l (first_in_levels d))) (rev (take l L))).
      dseg (nodes_of d) 0 f xs 0 \<and> length xs \<le> MAX_NR_ZNODES d" by (intro ballI case_prodI2, rule D) simp
  from last_of_spec [OF this] Z(1,2) show ?thesis by simp
qed

lemma last0_append: "last0 (xs @ ys) = (if ys = [] then last0 xs else last0 ys)"
  by (simp add: last0_def)

lemma prev_znode_spec:
  assumes "zrep d L" "concat L = us @ i # vs"
  shows "kernel_get_prev_znode d (int i) = (if us = [] \<and> i \<in> set (L ! 0) then - 1 else int (last0 us))"
proof -
  from order_split [OF assms] obtain l a b where s: "l < 7" "L ! l = a @ i # b" "us = concat (take l L) @ a"
    "vs = b @ concat (drop (Suc l) L)" .
  note A = order_at_level [OF assms(1) s(1,2)]
  have "i \<noteq> 0" using A(1,5) by metis
  then have i0: "\<not> int i \<le> 0" by simp
  show ?thesis
  proof (cases "a = []")
    case False
    then have "last0 a \<in> set (L ! l)" using s(2) by (simp add: last0_def)
    then have "zn_prev (nodes_of d i) > 0" using A(4,5) by (metis gr0I)
    with i0 A(4) False s(3) show ?thesis by (simp add: kernel_get_prev_znode_def Let_def last0_append)
  next
    case True
    then have n: "\<not> zn_prev (nodes_of d i) > 0" using A(4) by (simp add: last0_def)
    have in0: "i \<in> set (L ! 0) \<longleftrightarrow> l = 0" using zrep_disjoint [OF assms(1) s(1) _ A(1)] A(1) by auto
    have us: "us = concat (take l L)" using s(3) True by simp
    show ?thesis
      unfolding kernel_get_prev_znode_def Let_def nat_int if_not_P [OF i0] if_not_P [OF n] A(2) us in0
      using less_7_cases [OF s(1)] last_of_levels [OF assms(1), of l]
      by (elim disjE) (simp_all add: zof_type_defs)
  qed
qed

lemma prev_znode_last: "zrep d L \<Longrightarrow> from \<le> 0 \<Longrightarrow> kernel_get_prev_znode d from = int (last0 (concat L))"
  using last_of_levels [of d L 7] zrepD(1) [of d L] by (simp add: kernel_get_prev_znode_def)


section \<open>The next window that can be active\<close>

definition activable :: "ZORDERNODE \<Rightarrow> bool" where
  "activable n \<longleftrightarrow> has_flag ZOF_TF_MAINWIN n \<and> visible n \<and> \<not> has_flag ZOF_DISABLED n"

definition found :: "nat option \<Rightarrow> nat" where
  "found r = (case r of None \<Rightarrow> 0 | Some i \<Rightarrow> i)"

lemma found_simps [simp]: "found None = 0" "found (Some i) = i"
  by (simp_all add: found_def)

lemma next_activable_spec:
  "zrep d L \<Longrightarrow> concat L = us @ vs \<Longrightarrow> length vs < k \<Longrightarrow> from = int (last0 us) \<Longrightarrow>
     next_activable k d from = int (found (find (\<lambda>j. activable (nodes_of d j)) vs))"
proof (induction vs arbitrary: us k "from")
  case Nil
  then obtain k' where k: "k = Suc k'" by (cases k) auto
  have "kernel_get_next_znode d from \<le> 0"
  proof (cases us rule: rev_cases)
    case Nil
    with Nil.prems have "concat L = []" "from = 0" by (simp_all add: last0_def)
    with next_znode_first [OF Nil.prems(1), of 0] show ?thesis by (simp only: hd0_simps)
  next
    case (snoc us' i)
    then have "from = int i" "concat L = us' @ i # []" using Nil.prems by (simp_all add: last0_def)
    with next_znode_spec [OF Nil.prems(1), of us' i "[]"] show ?thesis by simp
  qed
  then show ?case by (simp add: k Let_def)
next
  case (Cons j vs)
  then obtain k' where k: "k = Suc k'" by (cases k) auto
  have nx: "kernel_get_next_znode d from = int j"
  proof (cases us rule: rev_cases)
    case Nil
    with Cons.prems next_znode_first [of d L "from"] show ?thesis by (simp add: last0_def)
  next
    case (snoc us' i)
    then have "from = int i" "concat L = us' @ i # j # vs" using Cons.prems by (simp_all add: last0_def)
    with next_znode_spec [OF Cons.prems(1), of us' i "j # vs"] show ?thesis by simp
  qed
  have "j \<in> set (concat L)" using Cons.prems(2) by simp
  with order_less(1) [OF Cons.prems(1)] have j: "\<not> int j \<le> 0" by auto
  have "next_activable k' d (int j) = int (found (find (\<lambda>j. activable (nodes_of d j)) vs))"
    by (rule Cons.IH [of "us @ [j]"]) (use Cons.prems k in \<open>simp_all add: last0_def\<close>)
  with nx j show ?case by (simp add: k Let_def activable_def)
qed

section \<open>The window at a point\<close>

lemma at_point_in_level_spec:
  "dseg ns p f xs 0 \<Longrightarrow> length xs \<le> k \<Longrightarrow>
     at_point_in_level k mr ns f x y = found (find (\<lambda>i. visible (ns i) \<and> pt_in_maskrect mr (ns i) x y) xs)"
proof (induction xs arbitrary: p f k)
  case Nil
  then show ?case by (cases k) auto
next
  case (Cons i xs)
  then obtain k' where k: "k = Suc k'" by (cases k) auto
  from Cons.prems have "dseg ns i (zn_next (ns i)) xs 0" "length xs \<le> k'" "f = i" "0 < i" using k by auto
  with Cons.IH [of i "zn_next (ns i)" k'] k show ?case by simp
qed

lemma find_in: "find P xs = Some i \<Longrightarrow> i \<in> set xs"
  by (auto simp: find_Some_iff)

lemma at_point_in_levels_spec:
  assumes "length fs = length L" "\<forall>(f, xs) \<in> set (zip fs L). dseg ns 0 f xs 0 \<and> length xs \<le> k"
  shows "at_point_in_levels k mr ns fs x y
    = found (find (\<lambda>i. visible (ns i) \<and> pt_in_maskrect mr (ns i) x y) (concat L))"
  using assms
proof (induction fs L rule: list_induct2)
  case (Cons f fs xs L)
  let ?P = "\<lambda>i. visible (ns i) \<and> pt_in_maskrect mr (ns i) x y"
  from Cons.prems have d: "dseg ns 0 f xs 0" and k: "length xs \<le> k" by auto
  from at_point_in_level_spec [OF d k] have a: "at_point_in_level k mr ns f x y = found (find ?P xs)" .
  show ?case
  proof (cases "find ?P xs")
    case None
    with a Cons show ?thesis by (simp add: find_append)
  next
    case (Some i)
    then have "i \<noteq> 0" using find_in dseg_not_0 [OF d] by metis
    with a Some show ?thesis by (simp add: find_append)
  qed
qed simp

lemma znode_at_point_spec:
  assumes "zrep d L" "\<And>i. i \<in> handles L \<Longrightarrow> mask_ok (maskrects d) (idx_mask_rect (nodes_of d i)) (M i)"
  shows "get_znode_at_point d x y
    = found (find (\<lambda>i. visible (nodes_of d i) \<and> (x, y) \<in> node_pts (maskrects d) (M i) (nodes_of d i)) (concat L))"
proof -
  note Z = zrepD [OF assms(1)]
  have "\<forall>(f, xs) \<in> set (zip (first_in_levels d) L). dseg (nodes_of d) 0 f xs 0 \<and> length xs \<le> MAX_NR_ZNODES d"
    using Z(1,2,5) zrep_length [OF assms(1)] by (auto simp: set_zip)
  then have "get_znode_at_point d x y
      = found (find (\<lambda>i. visible (nodes_of d i) \<and> pt_in_maskrect (maskrects d) (nodes_of d i) x y) (concat L))"
    unfolding get_znode_at_point_def using Z(1,2) by (intro at_point_in_levels_spec) simp_all
  moreover have "pt_in_maskrect (maskrects d) (nodes_of d i) x y \<longleftrightarrow> (x, y) \<in> node_pts (maskrects d) (M i) (nodes_of d i)"
    if "i \<in> set (concat L)" for i
  proof (rule pt_in_maskrect_iff, rule assms(2))
    from that obtain xs where "xs \<in> set L" "i \<in> set xs" by auto
    then show "i \<in> handles L" unfolding handles_def in_set_conv_nth [of xs] by blast
  qed
  then have "find (\<lambda>i. visible (nodes_of d i) \<and> pt_in_maskrect (maskrects d) (nodes_of d i) x y) (concat L)
      = find (\<lambda>i. visible (nodes_of d i) \<and> (x, y) \<in> node_pts (maskrects d) (M i) (nodes_of d i)) (concat L)"
    by (intro find_cong) simp_all
  ultimately show ?thesis by simp
qed


end
