(* ===== verification/MG_ZClip.thy ===== *)
theory MG_ZClip
  imports MG_ZWalk
begin

text \<open>
  The clipping region of a main window, which \<open>__mg_lock_recalc_gcrinfo\<close> in
  \<open>src/kernel/desktop.c\<close> computes from the z-order when the age of the window's node has changed:
  what is seen of a window that others cover.
\<close>

section \<open>Recomputing the region\<close>

text \<open>\<open>crgn\<close> is the region of a window, \<open>Rgn 1\<close> the variable \<open>invisible_rgn\<close>.\<close>

record GCRINFO =
  gc_crgn :: nat
  gc_age :: "32 word"
  old_zi_age :: "32 word"

definition cb_recalc_gcrinfo :: "masks \<Rightarrow> rgn_ptr \<Rightarrow> rgns \<Rightarrow> ZORDERNODE \<Rightarrow> bool \<times> rgns \<times> ZORDERNODE" where
  "cb_recalc_gcrinfo mr crgn st n =
     (if \<not> visible n then (False, st, n)
      else case subtract_rgn_by_node mr st crgn n of (b, st') \<Rightarrow> (b, st', n))"

definition reset_window :: "rgns \<Rightarrow> nat \<Rightarrow> RECT \<Rightarrow> RECT \<Rightarrow> rgns" where
  "reset_window st c rcWin rcScr =
     st(Rgn c := snd (SetClipRgn True (st (Rgn c)) (snd (IntersectRect rcWin rcScr))))"

text \<open>The \<open>switch\<close>: \<open>level_from\<close>, \<open>level_to\<close> and \<open>slot\<close>.\<close>

definition levels_above :: "'a ZORDERINFO_scheme \<Rightarrow> dword \<Rightarrow> int \<times> int \<times> nat" where
  "levels_above zi ty =
     (let f = first_in_levels zi
      in if ty = ZOF_TYPE_TOOLTIP then (- 1, - 1, f ! ZLIDX_TOOLTIP)
         else if ty = ZOF_TYPE_GLOBAL then (int ZLIDX_TOOLTIP, int ZLIDX_TOOLTIP, f ! ZLIDX_GLOBAL)
         else if ty = ZOF_TYPE_SCREENLOCK then (int ZLIDX_TOOLTIP, int ZLIDX_GLOBAL, f ! ZLIDX_SCREENLOCK)
         else if ty = ZOF_TYPE_DOCKER then (int ZLIDX_TOOLTIP, int ZLIDX_SCREENLOCK, f ! ZLIDX_DOCKER)
         else if ty = ZOF_TYPE_HIGHER then (int ZLIDX_TOOLTIP, int ZLIDX_DOCKER, f ! ZLIDX_TOPMOST)
         else if ty = ZOF_TYPE_NORMAL then (int ZLIDX_TOOLTIP, int ZLIDX_TOPMOST, f ! ZLIDX_NORMAL)
         else if ty = ZOF_TYPE_LAUNCHER then (int ZLIDX_TOOLTIP, int ZLIDX_NORMAL, f ! ZLIDX_LAUNCHER)
         else if ty = ZOF_TYPE_DESKTOP then (- 1, 0, 0)
         else (- 1, - 1, 0))"

fun clip_above :: "nat \<Rightarrow> masks \<Rightarrow> znodes \<Rightarrow> nat \<Rightarrow> rgn_ptr \<Rightarrow> nat \<Rightarrow> rgns \<Rightarrow> rgns" where
  "clip_above 0 mr ns idx crgn slot st = st"
| "clip_above (Suc k) mr ns idx crgn slot st =
     (if slot \<noteq> 0 \<and> slot \<noteq> idx
      then clip_above k mr ns idx crgn (zn_next (ns slot))
             (if visible (ns slot) then snd (subtract_rgn_by_node mr st crgn (ns slot)) else st)
      else st)"

definition mg_lock_recalc_gcrinfo :: "DESKTOP \<Rightarrow> GCRINFO \<Rightarrow> nat \<Rightarrow> GCRINFO \<times> DESKTOP" where
  "mg_lock_recalc_gcrinfo d g idx_znode =
     (let n = nodes_of d idx_znode; mr = maskrects d; c = gc_crgn g
      in if ucast (old_zi_age g) = zn_age n then (g, d)
         else
           let st1 = reset_window (d_rgns d) c (zn_rc n) (d_screen d);
               st2 = (if idx_mask_rect n \<noteq> 0 then
                        let i1 = st1(Rgn 1 := InitClipRgn None);
                            i2 = i1(Rgn 1 := snd (SetClipRgn True (i1 (Rgn 1)) (zn_rc n)));
                            i3 = snd (subtract_rgn_by_node mr i2 (Rgn 1) n);
                            i4 = snd (SubtractRegion i3 (Rgn c) (Rgn c) (Rgn 1))
                        in i4(Rgn 1 := EmptyClipRgn (i4 (Rgn 1)))
                      else st1);
               st3 = foldl (\<lambda>st i. snd (SubtractClipRect st (Rgn c) (zn_rc (menu_nodes d i)))) st2 [0..<nr_popupmenus d]
           in case levels_above d (zn_type n) of (level_from, level_to, slot) \<Rightarrow>
             let st4 = (if level_from \<ge> 0 then
                          foldl (\<lambda>st i. fst (do_for_all_znodes (cb_recalc_gcrinfo mr (Rgn c)) (zts_for_level ! i) st d))
                            st3 [nat level_from..<nat level_to + 1]
                        else if level_to = 0 then fst (do_for_all_znodes (cb_recalc_gcrinfo mr (Rgn c)) 0xFF st3 d)
                        else st3);
                 st5 = clip_above (MAX_NR_ZNODES d) mr (nodes_of d) idx_znode (Rgn c) slot st4
             in (g\<lparr>old_zi_age := ucast (zn_age n), gc_age := gc_age g + 1\<rparr>, d\<lparr>d_rgns := st5\<rparr>))"

section \<open>What is left of the window\<close>

text \<open>A region \<open>Rgn c\<close> loses \<open>P\<close>: a step of the computation.\<close>

definition cut :: "nat \<Rightarrow> (int \<times> int) set \<Rightarrow> rgns \<Rightarrow> rgns \<Rightarrow> bool" where
  "cut c P st st' \<longleftrightarrow> rgn_wf (st' (Rgn c)) \<and> rgn_pts (st' (Rgn c)) = rgn_pts (st (Rgn c)) - P
     \<and> (\<forall>m. m \<noteq> c \<longrightarrow> st' (Rgn m) = st (Rgn m))"

lemma cut_refl: "rgn_wf (st (Rgn c)) \<Longrightarrow> cut c {} st st"
  by (simp add: cut_def)

lemma cut_trans: "cut c P st st' \<Longrightarrow> cut c Q st' st'' \<Longrightarrow> cut c (P \<union> Q) st st''"
  by (auto simp: cut_def)

lemma cut_trans_eq: "cut c P st st' \<Longrightarrow> cut c Q st' st'' \<Longrightarrow> R = P \<union> Q \<Longrightarrow> cut c R st st''"
  using cut_trans by blast

lemma cut_wf: "cut c P st st' \<Longrightarrow> rgn_wf (st' (Rgn c))"
  by (simp add: cut_def)

lemma cut_node:
  assumes "rgn_wf (st (Rgn c))" "mask_ok mr (idx_mask_rect n) ks"
  shows "cut c (node_pts mr ks n) st (snd (subtract_rgn_by_node mr st (Rgn c) n))"
proof -
  obtain b st' where s: "subtract_rgn_by_node mr st (Rgn c) n = (b, st')"
    by (cases "subtract_rgn_by_node mr st (Rgn c) n")
  from subtract_rgn_by_node_spec [where st = st, OF assms(2,1) s] s show ?thesis by (simp add: cut_def)
qed

definition seen :: "masks \<Rightarrow> (nat \<Rightarrow> nat list) \<Rightarrow> znodes \<Rightarrow> nat \<Rightarrow> (int \<times> int) set" where
  "seen mr M ns i = (if visible (ns i) then node_pts mr (M i) (ns i) else {})"

lemma cut_chain:
  "dseg ns p f xs 0 \<Longrightarrow> length xs \<le> k \<Longrightarrow> rgn_wf (st (Rgn c)) \<Longrightarrow>
     (\<forall>i \<in> set xs. mask_ok mr (idx_mask_rect (ns i)) (M i)) \<Longrightarrow>
     cut c (\<Union>i \<in> set xs. seen mr M ns i) st (fst (for_chain k 0 (cb_recalc_gcrinfo mr (Rgn c)) f (st, ns, m)))
     \<and> fst (snd (for_chain k 0 (cb_recalc_gcrinfo mr (Rgn c)) f (st, ns, m))) = ns"
proof (induction xs arbitrary: p f k st m)
  case Nil
  then show ?case by (cases k) (auto simp: cut_refl)
next
  case (Cons i xs)
  then obtain k' where k: "k = Suc k'" by (cases k) auto
  from Cons.prems have f: "f = i" "i \<noteq> 0" "dseg ns i (zn_next (ns i)) xs 0" "length xs \<le> k'"
    "mask_ok mr (idx_mask_rect (ns i)) (M i)" "\<forall>i \<in> set xs. mask_ok mr (idx_mask_rect (ns i)) (M i)" using k by auto
  obtain b st1 where s: "cb_recalc_gcrinfo mr (Rgn c) st (ns i) = (b, st1, ns i)"
    by (cases "subtract_rgn_by_node mr st (Rgn c) (ns i)"; cases "visible (ns i)")
      (simp_all add: cb_recalc_gcrinfo_def)
  have c1: "cut c (seen mr M ns i) st st1"
    using s cut_node [where st = st and c = c and n = "ns i", OF Cons.prems(3) f(5)] cut_refl [where st = st and c = c, OF Cons.prems(3)]
    by (auto simp: cb_recalc_gcrinfo_def seen_def split: prod.splits if_splits)
  have step: "for_chain k 0 (cb_recalc_gcrinfo mr (Rgn c)) f (st, ns, m)
      = for_chain k' 0 (cb_recalc_gcrinfo mr (Rgn c)) (zn_next (ns i)) (st1, ns, if b then m + 1 else m)"
    using f(1,2) s k by (simp add: Let_def)
  from Cons.IH [where st = st1 and m = "if b then m + 1 else m", OF f(3,4) cut_wf [OF c1] f(6)] cut_trans [OF c1]
  show ?case unfolding step by simp
qed

lemma cut_above:
  "dseg ns p f xs 0 \<Longrightarrow> length xs \<le> k \<Longrightarrow> rgn_wf (st (Rgn c)) \<Longrightarrow>
     (\<forall>i \<in> set xs. mask_ok mr (idx_mask_rect (ns i)) (M i)) \<Longrightarrow>
     cut c (\<Union>i \<in> set (takeWhile (\<lambda>j. j \<noteq> idx) xs). seen mr M ns i) st (clip_above k mr ns idx (Rgn c) f st)"
proof (induction xs arbitrary: p f k st)
  case Nil
  then show ?case by (cases k) (auto simp: cut_refl)
next
  case (Cons i xs)
  then obtain k' where k: "k = Suc k'" by (cases k) auto
  from Cons.prems have f: "f = i" "i \<noteq> 0" "dseg ns i (zn_next (ns i)) xs 0" "length xs \<le> k'"
    "mask_ok mr (idx_mask_rect (ns i)) (M i)" "\<forall>i \<in> set xs. mask_ok mr (idx_mask_rect (ns i)) (M i)" using k by auto
  define st1 where "st1 = (if visible (ns i) then snd (subtract_rgn_by_node mr st (Rgn c) (ns i)) else st)"
  have c1: "cut c (seen mr M ns i) st st1"
    using cut_node [where st = st and c = c and n = "ns i", OF Cons.prems(3) f(5)] cut_refl [where st = st and c = c, OF Cons.prems(3)] by (simp add: st1_def seen_def)
  have step: "clip_above k mr ns idx (Rgn c) f st
      = (if i \<noteq> idx then clip_above k' mr ns idx (Rgn c) (zn_next (ns i)) st1 else st)"
    using f(1,2) k by (simp add: st1_def)
  have c2: "cut c (\<Union>j \<in> set (takeWhile (\<lambda>j. j \<noteq> idx) xs). seen mr M ns j) st1
      (clip_above k' mr ns idx (Rgn c) (zn_next (ns i)) st1)"
    by (rule Cons.IH [where st = st1, OF f(3,4) cut_wf [OF c1] f(6)])
  show ?case
  proof (cases "i = idx")
    case True
    with step cut_refl [where st = st and c = c, OF Cons.prems(3)] show ?thesis by simp
  next
    case False
    then have "cut c (\<Union>j \<in> set (takeWhile (\<lambda>j. j \<noteq> idx) (i # xs)). seen mr M ns j) st
        (clip_above k' mr ns idx (Rgn c) (zn_next (ns i)) st1)"
      by (intro cut_trans_eq [OF c1 c2]) auto
    with step False show ?thesis by simp
  qed
qed

lemma cut_levels:
  fixes types :: "32 word" and d :: DESKTOP
  assumes "zrep d L" "\<forall>i \<in> handles L. mask_ok (maskrects d) (idx_mask_rect (nodes_of d i)) (M i)"
    and "\<forall>l \<in> set ls. l < 7" "rgn_wf (st (Rgn c))"
  defines "r \<equiv> foldl (\<lambda>r level. if types AND zts_for_level ! level \<noteq> 0
      then for_chain (MAX_NR_ZNODES d) 0 (cb_recalc_gcrinfo (maskrects d) (Rgn c)) (first_in_levels d ! level) r else r)
      (st, nodes_of d, 0) ls"
  shows "cut c (\<Union>l \<in> {l \<in> set ls. types AND zts_for_level ! l \<noteq> 0}. \<Union>i \<in> set (L ! l). seen (maskrects d) M (nodes_of d) i)
      st (fst r) \<and> fst (snd r) = nodes_of d"
  using assms(3,4) unfolding r_def
proof (induction ls rule: rev_induct)
  case Nil
  then show ?case by (simp add: cut_refl)
next
  case (snoc l ls)
  define r where "r = foldl (\<lambda>r level. if types AND zts_for_level ! level \<noteq> 0
      then for_chain (MAX_NR_ZNODES d) 0 (cb_recalc_gcrinfo (maskrects d) (Rgn c)) (first_in_levels d ! level) r else r)
      (st, nodes_of d, 0) ls"
  from snoc have IH: "cut c (\<Union>l \<in> {l \<in> set ls. types AND zts_for_level ! l \<noteq> 0}. \<Union>i \<in> set (L ! l). seen (maskrects d) M (nodes_of d) i)
      st (fst r)" "fst (snd r) = nodes_of d" by (simp_all add: r_def)
  obtain st1 m where r: "r = (st1, nodes_of d, m)" using IH(2) by (cases r) auto
  have l: "l < 7" using snoc.prems by simp
  show ?case
  proof (cases "types AND zts_for_level ! l \<noteq> 0")
    case True
    have "\<forall>i \<in> set (L ! l). mask_ok (maskrects d) (idx_mask_rect (nodes_of d i)) (M i)"
      using assms(2) l zrepD(1) [OF assms(1)] by (auto simp: handles_def)
    from cut_chain [where st = st1 and c = c and m = m, OF zrepD(5) [OF assms(1) l] zrep_length [OF assms(1) l] _ this] IH(1) r
    have c: "cut c (\<Union>i \<in> set (L ! l). seen (maskrects d) M (nodes_of d) i) st1
        (fst (for_chain (MAX_NR_ZNODES d) 0 (cb_recalc_gcrinfo (maskrects d) (Rgn c)) (first_in_levels d ! l) r))"
      "fst (snd (for_chain (MAX_NR_ZNODES d) 0 (cb_recalc_gcrinfo (maskrects d) (Rgn c)) (first_in_levels d ! l) r)) = nodes_of d"
      using cut_wf by auto
    have "{k \<in> set (ls @ [l]). types AND zts_for_level ! k \<noteq> 0} = {k \<in> set ls. types AND zts_for_level ! k \<noteq> 0} \<union> {l}"
      using True by auto
    then have "cut c (\<Union>k \<in> {k \<in> set (ls @ [l]). types AND zts_for_level ! k \<noteq> 0}. \<Union>i \<in> set (L ! k). seen (maskrects d) M (nodes_of d) i)
        st (fst (for_chain (MAX_NR_ZNODES d) 0 (cb_recalc_gcrinfo (maskrects d) (Rgn c)) (first_in_levels d ! l) r))"
      using r by (intro cut_trans_eq [OF IH(1)]) (use c(1) in simp, blast)
    with c(2) True show ?thesis by (simp add: r_def [symmetric] del: set_append)
  next
    case False
    then have "{k \<in> set (ls @ [l]). types AND zts_for_level ! k \<noteq> 0} = {k \<in> set ls. types AND zts_for_level ! k \<noteq> 0}" by auto
    with IH False show ?thesis by (simp add: r_def [symmetric] del: set_append)
  qed
qed


lemma SetClipRgn_ok:
  assumes "rect_ok r"
  shows "rgn_wf (snd (SetClipRgn True rgn r))" "rgn_pts (snd (SetClipRgn True rgn r)) = rect_pts r"
proof -
  have e: "\<not> IsRectEmpty r" by (rule rect_ok_not_empty [OF assms])
  show "rgn_wf (snd (SetClipRgn True rgn r))"
    by (rule rgn_wf_simple [OF assms]) (simp_all add: SetClipRgn_def e Let_def)
  show "rgn_pts (snd (SetClipRgn True rgn r)) = rect_pts r"
    by (simp add: SetClipRgn_def e Let_def rgn_pts_def)
qed

text \<open>The region before the other windows are cut off.\<close>

definition own_region :: "DESKTOP \<Rightarrow> nat \<Rightarrow> nat \<Rightarrow> rgns" where
  "own_region d c i =
     (let n = nodes_of d i; st1 = reset_window (d_rgns d) c (zn_rc n) (d_screen d)
      in if idx_mask_rect n \<noteq> 0 then
           let i1 = st1(Rgn 1 := InitClipRgn None);
               i2 = i1(Rgn 1 := snd (SetClipRgn True (i1 (Rgn 1)) (zn_rc n)));
               i3 = snd (subtract_rgn_by_node (maskrects d) i2 (Rgn 1) n);
               i4 = snd (SubtractRegion i3 (Rgn c) (Rgn c) (Rgn 1))
           in i4(Rgn 1 := EmptyClipRgn (i4 (Rgn 1)))
         else st1)"

lemma own_region_spec:
  assumes "DoesIntersect (zn_rc (nodes_of d i)) (d_screen d)" "c \<noteq> 1"
    and "mask_ok (maskrects d) (idx_mask_rect (nodes_of d i)) ks"
  shows "rgn_wf (own_region d c i (Rgn c))"
    "rgn_pts (own_region d c i (Rgn c)) = node_pts (maskrects d) ks (nodes_of d i) \<inter> rect_pts (d_screen d)"
    "m \<noteq> c \<Longrightarrow> m \<noteq> 1 \<Longrightarrow> own_region d c i (Rgn m) = d_rgns d (Rgn m)"
proof -
  let ?n = "nodes_of d i"
  let ?r = "snd (IntersectRect (zn_rc ?n) (d_screen d))"
  define st1 where "st1 = reset_window (d_rgns d) c (zn_rc ?n) (d_screen d)"
  have pts: "rect_pts ?r = rect_pts (zn_rc ?n) \<inter> rect_pts (d_screen d)" by (rule IntersectRect_pts)
  then have ok: "rect_ok ?r" using assms(1) rect_pts_not_ok by (metis DoesIntersect_iff)
  then have ok2: "rect_ok (zn_rc ?n)" using pts assms(1) rect_pts_not_ok by (metis DoesIntersect_iff Int_empty_left)
  have s1: "rgn_wf (st1 (Rgn c))" "rgn_pts (st1 (Rgn c)) = rect_pts (zn_rc ?n) \<inter> rect_pts (d_screen d)"
    "m \<noteq> c \<Longrightarrow> st1 (Rgn m) = d_rgns d (Rgn m)" for m
    using SetClipRgn_ok [OF ok] pts by (simp_all add: st1_def reset_window_def)
  have k: "idx_mask_rect ?n \<noteq> 0 \<longleftrightarrow> ks \<noteq> []" using assms(3) mchain_nonzero unfolding mask_ok_def by blast
  have "rgn_wf (own_region d c i (Rgn c)) \<and>
    rgn_pts (own_region d c i (Rgn c)) = node_pts (maskrects d) ks (nodes_of d i) \<inter> rect_pts (d_screen d) \<and>
    (m \<noteq> c \<longrightarrow> m \<noteq> 1 \<longrightarrow> own_region d c i (Rgn m) = d_rgns d (Rgn m))"
  proof (cases "ks = []")
    case True
    with k have "own_region d c i = st1" by (simp add: own_region_def st1_def Let_def)
    with s1 True show ?thesis by (simp add: node_pts_def)
  next
    case False
    define i2 where "i2 = st1(Rgn 1 := snd (SetClipRgn True (InitClipRgn None) (zn_rc ?n)))"
    define i3 where "i3 = snd (subtract_rgn_by_node (maskrects d) i2 (Rgn 1) ?n)"
    obtain b i4 where i4: "SubtractRegion i3 (Rgn c) (Rgn c) (Rgn 1) = (b, i4)"
      by (cases "SubtractRegion i3 (Rgn c) (Rgn c) (Rgn 1)")
    have own: "own_region d c i = i4(Rgn 1 := EmptyClipRgn (i4 (Rgn 1)))"
      unfolding own_region_def Let_def st1_def [symmetric] fun_upd_same fun_upd_upd i2_def [symmetric] i3_def [symmetric] i4 snd_conv
      using k False by simp
    have r2: "rgn_wf (i2 (Rgn 1))" "rgn_pts (i2 (Rgn 1)) = rect_pts (zn_rc ?n)" "i2 (Rgn c) = st1 (Rgn c)"
      using SetClipRgn_ok [OF ok2] assms(2) by (simp_all add: i2_def)
    have c3: "cut 1 (node_pts (maskrects d) ks ?n) i2 i3"
      unfolding i3_def by (rule cut_node [where st = i2, OF r2(1) assms(3)])
    then have r3: "rgn_wf (i3 (Rgn 1))" "rgn_pts (i3 (Rgn 1)) = rect_pts (zn_rc ?n) - node_pts (maskrects d) ks ?n"
      "i3 (Rgn m) = (if m = 1 then i3 (Rgn 1) else i2 (Rgn m))" for m using r2 by (simp_all add: cut_def)
    have "rgn_wf (i3 (Rgn c))" using r3(3) [of c] r2(3) s1(1) assms(2) by simp
    from SubtractRegion_spec [where st = i3, OF this r3(1) i4]
    have r4: "rgn_wf (i4 (Rgn c))" "rgn_pts (i4 (Rgn c)) = rgn_pts (i3 (Rgn c)) - rgn_pts (i3 (Rgn 1))"
      "m \<noteq> c \<Longrightarrow> i4 (Rgn m) = i3 (Rgn m)" for m by simp_all
    have "node_pts (maskrects d) ks ?n \<subseteq> rect_pts (zn_rc ?n)" using False by (simp add: node_pts_def mask_pts_def)
    then have "rgn_pts (i4 (Rgn c)) = node_pts (maskrects d) ks ?n \<inter> rect_pts (d_screen d)"
      unfolding r4(2) r3(2) using r3(3) [of c] r2(3) s1(2) assms(2) by auto
    moreover have "i4 (Rgn m) = d_rgns d (Rgn m)" if "m \<noteq> c" "m \<noteq> 1" for m
      using r4(3) [OF that(1)] r3(3) [of m] that s1(3) [OF that(1)] by (simp add: i2_def)
    ultimately show ?thesis using r4(1) assms(2) by (simp add: own)
  qed
  then show "rgn_wf (own_region d c i (Rgn c))"
    "rgn_pts (own_region d c i (Rgn c)) = node_pts (maskrects d) ks (nodes_of d i) \<inter> rect_pts (d_screen d)"
    "m \<noteq> c \<Longrightarrow> m \<noteq> 1 \<Longrightarrow> own_region d c i (Rgn m) = d_rgns d (Rgn m)" by simp_all
qed

lemma cut_menus:
  assumes "rgn_wf (st (Rgn c))"
  shows "cut c (\<Union>i \<in> set ks. rect_pts (zn_rc (mn i))) st
    (foldl (\<lambda>st i. snd (SubtractClipRect st (Rgn c) (zn_rc (mn i)))) st ks)"
  using assms
proof (induction ks rule: rev_induct)
  case (snoc k ks)
  define st1 where "st1 = foldl (\<lambda>st i. snd (SubtractClipRect st (Rgn c) (zn_rc (mn i)))) st ks"
  from snoc have c1: "cut c (\<Union>i \<in> set ks. rect_pts (zn_rc (mn i))) st st1" by (simp add: st1_def)
  have "cut c (rect_pts (zn_rc (mn k))) st1 (snd (SubtractClipRect st1 (Rgn c) (zn_rc (mn k))))"
    using SubtractClipRect_spec [where st = st1, OF cut_wf [OF c1] refl] by (simp add: cut_def)
  then have "cut c (\<Union>i \<in> set (ks @ [k]). rect_pts (zn_rc (mn i))) st (snd (SubtractClipRect st1 (Rgn c) (zn_rc (mn k))))"
    by (rule cut_trans_eq [OF c1]) auto
  then show ?case by (simp only: foldl_append st1_def [symmetric]) simp
qed (simp add: cut_refl)

text \<open>The levels above level \<open>l\<close>, one call of \<open>do_for_all_znodes\<close> each.\<close>

lemma zts_and: "l < 7 \<Longrightarrow> m < 7 \<Longrightarrow> (zts_for_level ! l AND zts_for_level ! m \<noteq> 0) = (l = m)"
  by (drule less_7_cases, drule less_7_cases, elim disjE) (simp_all add: zts_for_level_def)

lemma zts_all: "m < 7 \<Longrightarrow> 0xFF AND zts_for_level ! m \<noteq> 0"
  by (drule less_7_cases, elim disjE) (simp_all add: zts_for_level_def)

lemma cut_upper_levels:
  fixes d :: DESKTOP
  assumes "zrep d L" "\<forall>i \<in> handles L. mask_ok (maskrects d) (idx_mask_rect (nodes_of d i)) (M i)"
    and "l \<le> 7" "rgn_wf (st (Rgn c))"
  shows "cut c (\<Union>i \<in> set (concat (take l L)). seen (maskrects d) M (nodes_of d) i) st
    (foldl (\<lambda>st i. fst (do_for_all_znodes (cb_recalc_gcrinfo (maskrects d) (Rgn c)) (zts_for_level ! i) st d)) st [0..<l])"
  using assms(3)
proof (induction l)
  case 0
  then show ?case using assms(4) by (simp add: cut_refl)
next
  case (Suc l)
  define st1 where "st1 = foldl (\<lambda>st i. fst (do_for_all_znodes (cb_recalc_gcrinfo (maskrects d) (Rgn c)) (zts_for_level ! i) st d)) st [0..<l]"
  from Suc have c1: "cut c (\<Union>i \<in> set (concat (take l L)). seen (maskrects d) M (nodes_of d) i) st st1" and l: "l < 7"
    by (simp_all add: st1_def)
  have sel: "{m \<in> set [0..<NR_ZORDER_LEVELS]. zts_for_level ! l AND zts_for_level ! m \<noteq> 0} = {l}"
    using zts_and [OF l] l by auto
  have lt: "\<forall>m \<in> set [0..<NR_ZORDER_LEVELS]. m < 7" by simp
  have "cut c (\<Union>i \<in> set (L ! l). seen (maskrects d) M (nodes_of d) i) st1
      (fst (do_for_all_znodes (cb_recalc_gcrinfo (maskrects d) (Rgn c)) (zts_for_level ! l) st1 d))"
    using cut_levels [where types = "zts_for_level ! l" and ls = "[0..<NR_ZORDER_LEVELS]" and st = st1 and c = c, OF assms(1,2) lt cut_wf [OF c1]]
    unfolding sel do_for_all_znodes_def by simp
  then have "cut c (\<Union>i \<in> set (concat (take (Suc l) L)). seen (maskrects d) M (nodes_of d) i) st
      (fst (do_for_all_znodes (cb_recalc_gcrinfo (maskrects d) (Rgn c)) (zts_for_level ! l) st1 d))"
    by (rule cut_trans_eq [OF c1]) (use l zrepD(1) [OF assms(1)] in \<open>simp add: take_Suc_conv_app_nth UN_Un\<close>)
  then show ?case by (simp add: st1_def)
qed

lemma cut_all_levels:
  fixes d :: DESKTOP
  assumes "zrep d L" "\<forall>i \<in> handles L. mask_ok (maskrects d) (idx_mask_rect (nodes_of d i)) (M i)" "rgn_wf (st (Rgn c))"
  shows "cut c (\<Union>i \<in> set (concat L). seen (maskrects d) M (nodes_of d) i) st
    (fst (do_for_all_znodes (cb_recalc_gcrinfo (maskrects d) (Rgn c)) 0xFF st d))"
proof -
  have lt: "\<forall>m \<in> set [0..<NR_ZORDER_LEVELS]. m < 7" by simp
  have sel: "{m \<in> set [0..<NR_ZORDER_LEVELS]. 0xFF AND zts_for_level ! m \<noteq> 0} = {..< length L}"
    using zts_all zrepD(1) [OF assms(1)] by auto
  have "set (concat L) = (\<Union>l < length L. set (L ! l))" by (auto simp: in_set_conv_nth [of _ L]) (metis nth_mem)
  with cut_levels [where types = "0xFF" and ls = "[0..<NR_ZORDER_LEVELS]" and st = st and c = c, OF assms(1,2) lt assms(3)]
  show ?thesis unfolding sel do_for_all_znodes_def by simp
qed

lemma takeWhile_order:
  assumes "zrep d L" "l < 7" "i \<in> set (L ! l)"
  shows "takeWhile (\<lambda>j. j \<noteq> i) (concat L) = concat (take l L) @ takeWhile (\<lambda>j. j \<noteq> i) (L ! l)"
proof -
  have "L = take l L @ L ! l # drop (Suc l) L" using assms(2) zrepD(1) [OF assms(1)] by (simp add: id_take_nth_drop)
  then have c: "concat L = concat (take l L) @ L ! l @ concat (drop (Suc l) L)"
    by (metis concat.simps(2) concat_append)
  with distinct_order [OF assms(1)] assms(3) have "i \<notin> set (concat (take l L))"
    by (metis Int_iff Un_iff distinct_append empty_iff set_append)
  then have "takeWhile (\<lambda>j. j \<noteq> i) (concat (take l L) @ L ! l @ concat (drop (Suc l) L))
      = concat (take l L) @ takeWhile (\<lambda>j. j \<noteq> i) (L ! l @ concat (drop (Suc l) L))"
    by (intro takeWhile_append2) metis
  also have "takeWhile (\<lambda>j. j \<noteq> i) (L ! l @ concat (drop (Suc l) L)) = takeWhile (\<lambda>j. j \<noteq> i) (L ! l)"
    by (rule takeWhile_append1 [OF assms(3)]) simp
  finally show ?thesis unfolding c .
qed

lemma levels_above_ztype:
  "l < 7 \<Longrightarrow> levels_above z (ztype l) = (if l = 0 then - 1 else 0, int l - 1, first_in_levels z ! l)"
  by (drule less_7_cases, elim disjE) (simp_all add: levels_above_def zof_type_defs Let_def)

text \<open>The nodes above a node, in the order they are met; all of them for the desktop's own node 0.\<close>

definition nodes_above :: "nat list list \<Rightarrow> nat \<Rightarrow> nat list" where
  "nodes_above L i = takeWhile (\<lambda>j. j \<noteq> i) (concat L)"

definition cut_others :: "DESKTOP \<Rightarrow> nat \<Rightarrow> nat \<Rightarrow> rgns \<Rightarrow> rgns" where
  "cut_others d c i st3 =
     (case levels_above d (zn_type (nodes_of d i)) of (level_from, level_to, slot) \<Rightarrow>
        let st4 = (if level_from \<ge> 0 then
                     foldl (\<lambda>st i. fst (do_for_all_znodes (cb_recalc_gcrinfo (maskrects d) (Rgn c)) (zts_for_level ! i) st d))
                       st3 [nat level_from..<nat level_to + 1]
                   else if level_to = 0 then fst (do_for_all_znodes (cb_recalc_gcrinfo (maskrects d) (Rgn c)) 0xFF st3 d)
                   else st3)
        in clip_above (MAX_NR_ZNODES d) (maskrects d) (nodes_of d) i (Rgn c) slot st4)"

lemma cut_others_spec:
  fixes d :: DESKTOP
  assumes "zrep d L" "\<forall>i \<in> handles L. mask_ok (maskrects d) (idx_mask_rect (nodes_of d i)) (M i)" "rgn_wf (st (Rgn c))"
    and "i \<in> handles L \<or> i = 0 \<and> zn_type (nodes_of d 0) = ZOF_TYPE_DESKTOP"
  shows "cut c (\<Union>j \<in> set (nodes_above L i). seen (maskrects d) M (nodes_of d) j) st (cut_others d c i st)"
  using assms(4)
proof
  assume i: "i \<in> handles L"
  then obtain l where l: "l < 7" "i \<in> set (L ! l)" using handlesD zrepD(1) [OF assms(1)] by metis
  define st4 where "st4 = foldl (\<lambda>st i. fst (do_for_all_znodes (cb_recalc_gcrinfo (maskrects d) (Rgn c)) (zts_for_level ! i) st d)) st [0..<l]"
  have c1: "cut c (\<Union>i \<in> set (concat (take l L)). seen (maskrects d) M (nodes_of d) i) st st4"
    unfolding st4_def using l(1) by (intro cut_upper_levels assms(1-3)) simp
  have mk: "\<forall>i \<in> set (L ! l). mask_ok (maskrects d) (idx_mask_rect (nodes_of d i)) (M i)"
    using assms(2) l zrepD(1) [OF assms(1)] by (auto simp: handles_def)
  have co: "cut_others d c i st = clip_above (MAX_NR_ZNODES d) (maskrects d) (nodes_of d) i (Rgn c) (first_in_levels d ! l) st4"
  proof (cases "l = 0")
    case True
    then have la: "levels_above d (zn_type (nodes_of d i)) = (- 1, - 1, first_in_levels d ! l)"
      using levels_above_ztype [OF l(1)] zrepD(9) [OF assms(1) l] by simp
    have st4: "st4 = st" using True by (simp add: st4_def)
    show ?thesis unfolding cut_others_def la st4 by simp
  next
    case False
    then have la: "levels_above d (zn_type (nodes_of d i)) = (0, int l - 1, first_in_levels d ! l)"
      using levels_above_ztype [OF l(1)] zrepD(9) [OF assms(1) l] by simp
    have n: "[nat 0..<nat (int l - 1) + 1] = [0..<l]" using False by (intro arg_cong2 [where f = upt]) simp_all
    show ?thesis unfolding cut_others_def la prod.case Let_def n st4_def by simp
  qed
  have "cut c (\<Union>j \<in> set (takeWhile (\<lambda>j. j \<noteq> i) (L ! l)). seen (maskrects d) M (nodes_of d) j) st4 (cut_others d c i st)"
    unfolding co by (rule cut_above [where st = st4, OF zrepD(5) [OF assms(1) l(1)] zrep_length [OF assms(1) l(1)] cut_wf [OF c1] mk])
  then show ?thesis
    by (rule cut_trans_eq [OF c1]) (simp add: nodes_above_def takeWhile_order [OF assms(1) l] UN_Un)
next
  assume i: "i = 0 \<and> zn_type (nodes_of d 0) = ZOF_TYPE_DESKTOP"
  have "0 \<notin> set (concat L)" using zrep_no_0 [OF assms(1)] by auto
  then have "nodes_above L 0 = concat L" unfolding nodes_above_def
    by (intro takeWhile_eq_all_conv [THEN iffD2] ballI) metis
  moreover have "clip_above k (maskrects d) (nodes_of d) 0 (Rgn c) 0 s = s" for k s by (cases k) simp_all
  then have "cut_others d c 0 st = fst (do_for_all_znodes (cb_recalc_gcrinfo (maskrects d) (Rgn c)) 0xFF st d)"
    using i by (simp add: cut_others_def levels_above_def zof_type_defs)
  ultimately show ?thesis using cut_all_levels [where st = st and c = c, OF assms(1-3)] i by simp
qed

lemma mg_lock_recalc_gcrinfo_unfold:
  "ucast (old_zi_age g) \<noteq> zn_age (nodes_of d i) \<Longrightarrow> mg_lock_recalc_gcrinfo d g i =
     (g\<lparr>old_zi_age := ucast (zn_age (nodes_of d i)), gc_age := gc_age g + 1\<rparr>,
      d\<lparr>d_rgns := cut_others d (gc_crgn g) i
        (foldl (\<lambda>st i. snd (SubtractClipRect st (Rgn (gc_crgn g)) (zn_rc (menu_nodes d i))))
           (own_region d (gc_crgn g) i) [0..<nr_popupmenus d])\<rparr>)"
  unfolding mg_lock_recalc_gcrinfo_def own_region_def cut_others_def Let_def
  by (simp only: if_False split: prod.splits) simp

lemma recalc_spec:
  assumes "zrep d L" "\<forall>j \<in> insert i (handles L). mask_ok (maskrects d) (idx_mask_rect (nodes_of d j)) (M j)"
    and "i \<in> handles L \<or> i = 0 \<and> zn_type (nodes_of d 0) = ZOF_TYPE_DESKTOP"
    and "DoesIntersect (zn_rc (nodes_of d i)) (d_screen d)" "gc_crgn g \<noteq> 1"
    and "ucast (old_zi_age g) \<noteq> zn_age (nodes_of d i)" "mg_lock_recalc_gcrinfo d g i = (g', d')"
  shows "rgn_wf (d_rgns d' (Rgn (gc_crgn g)))
    \<and> rgn_pts (d_rgns d' (Rgn (gc_crgn g))) =
        node_pts (maskrects d) (M i) (nodes_of d i) \<inter> rect_pts (d_screen d)
        - (\<Union>k < nr_popupmenus d. rect_pts (zn_rc (menu_nodes d k)))
        - (\<Union>j \<in> set (nodes_above L i). seen (maskrects d) M (nodes_of d) j)
    \<and> (\<forall>m. m \<noteq> gc_crgn g \<longrightarrow> m \<noteq> 1 \<longrightarrow> d_rgns d' (Rgn m) = d_rgns d (Rgn m))
    \<and> old_zi_age g' = ucast (zn_age (nodes_of d i)) \<and> gc_age g' = gc_age g + 1"
proof -
  let ?c = "gc_crgn g"
  define st3 where "st3 = foldl (\<lambda>st i. snd (SubtractClipRect st (Rgn ?c) (zn_rc (menu_nodes d i)))) (own_region d ?c i) [0..<nr_popupmenus d]"
  have mi: "mask_ok (maskrects d) (idx_mask_rect (nodes_of d i)) (M i)"
    and mL: "\<forall>j \<in> handles L. mask_ok (maskrects d) (idx_mask_rect (nodes_of d j)) (M j)" using assms(2) by simp_all
  note O = own_region_spec [OF assms(4,5) mi]
  have c3: "cut ?c (\<Union>k \<in> set [0..<nr_popupmenus d]. rect_pts (zn_rc (menu_nodes d k))) (own_region d ?c i) st3"
    unfolding st3_def by (rule cut_menus [where st = "own_region d ?c i", OF O(1)])
  have c4: "cut ?c (\<Union>j \<in> set (nodes_above L i). seen (maskrects d) M (nodes_of d) j) st3 (cut_others d ?c i st3)"
    by (rule cut_others_spec [where st = st3, OF assms(1) mL cut_wf [OF c3] assms(3)])
  have d': "d_rgns d' = cut_others d ?c i st3" "old_zi_age g' = ucast (zn_age (nodes_of d i))" "gc_age g' = gc_age g + 1"
    using mg_lock_recalc_gcrinfo_unfold [OF assms(6)] assms(7) by (auto simp: st3_def)
  from c3 c4 O show ?thesis by (simp add: d' cut_def atLeast0LessThan)
qed

text \<open>A window that ends exactly where the screen begins keeps the region it had.\<close>

lemma reset_window_touching:
  assumes "left rcWin = right rcScr" "right rcScr < right rcWin" "left rcScr < right rcScr"
  shows "reset_window st c rcWin rcScr (Rgn c) = st (Rgn c)"
proof -
  have "IsRectEmpty (snd (IntersectRect rcWin rcScr))"
    using assms by (simp add: IntersectRect_def IsRectEmpty_def Let_def)
  then show ?thesis by (simp add: reset_window_def SetClipRgn_def)
qed


end
