(* ===== verification/MG_ZAge.thy ===== *)
theory MG_ZAge
  imports MG_ZClip
begin

text \<open>
  The ages of the nodes: which nodes become older when a window is shown, so that
  \<open>__mg_lock_recalc_gcrinfo\<close> computes their clipping regions again.
\<close>

section \<open>The nodes that meet a rectangle\<close>

definition hit :: "RECT \<Rightarrow> ZORDERNODE \<Rightarrow> bool" where
  "hit rc n \<longleftrightarrow> visible n \<and> DoesIntersect rc (zn_rc n)"

definition age_nodes :: "RECT \<Rightarrow> nat set \<Rightarrow> znodes \<Rightarrow> znodes" where
  "age_nodes rc S ns = (\<lambda>x. if x \<in> S \<and> hit rc (ns x) then age_up (ns x) else ns x)"

definition age_set :: "RECT \<Rightarrow> nat set \<Rightarrow> DESKTOP \<Rightarrow> DESKTOP" where
  "age_set rc S d = d\<lparr>nodes_of := age_nodes rc S (nodes_of d)\<rparr>"

lemma hit_age_up [simp]: "hit rc (age_up n) = hit rc n"
  by (simp add: hit_def age_up_def has_flag_def)

lemma age_up_links [simp]: "zn_next (age_up n) = zn_next n" "zn_prev (age_up n) = zn_prev n"
  by (simp_all add: age_up_def)

lemma age_nodes_links [simp]:
  "zn_next (age_nodes rc S ns x) = zn_next (ns x)" "zn_prev (age_nodes rc S ns x) = zn_prev (ns x)"
  "hit rc (age_nodes rc S ns x) = hit rc (ns x)"
  by (simp_all add: age_nodes_def)

lemma age_nodes_empty [simp]: "age_nodes rc {} ns = ns"
  by (simp add: age_nodes_def)

lemma age_nodes_union: "S \<inter> T = {} \<Longrightarrow> age_nodes rc S (age_nodes rc T ns) = age_nodes rc (T \<union> S) ns"
  by (rule ext) (auto simp: age_nodes_def)

lemma age_nodes_upd: "x \<notin> S \<Longrightarrow> age_nodes rc S (ns(x := v)) = (age_nodes rc S ns)(x := v)"
  by (rule ext) (simp add: age_nodes_def)

lemma age_set_union: "S \<inter> T = {} \<Longrightarrow> age_set rc S (age_set rc T d) = age_set rc (T \<union> S) d"
  by (simp add: age_set_def age_nodes_union)

lemma age_set_order: "same_order d (age_set rc S d)"
  by (simp add: same_order_def age_set_def age_nodes_def)

lemma for_chain_intersect:
  "dseg ns p f xs 0 \<Longrightarrow> distinct xs \<Longrightarrow> length xs \<le> k \<Longrightarrow>
     \<exists>m'. for_chain k 0 cb_intersect_rc f (rc, ns, m) = (rc, age_nodes rc (set xs) ns, m')"
proof (induction xs arbitrary: p f k ns m)
  case Nil
  then show ?case by (cases k) auto
next
  case (Cons i xs)
  then obtain k' where k: "k = Suc k'" by (cases k) auto
  from Cons.prems have f: "f = i" "i \<noteq> 0" "dseg ns i (zn_next (ns i)) xs 0" "distinct xs" "length xs \<le> k'" "i \<notin> set xs"
    using k by auto
  define v where "v = (if hit rc (ns i) then age_up (ns i) else ns i)"
  have v: "zn_next v = zn_next (ns i)" by (simp add: v_def)
  have step: "for_chain k 0 cb_intersect_rc f (rc, ns, m)
      = for_chain k' 0 cb_intersect_rc (zn_next (ns i)) (rc, ns(i := v), if hit rc (ns i) then m + 1 else m)"
    using f(1,2) k v by (simp add: cb_intersect_rc_def hit_def v_def Let_def)
  have "dseg (ns(i := v)) i (zn_next (ns i)) xs 0" using f(3,6) by simp
  from Cons.IH [OF this f(4,5)] obtain m' where
    "for_chain k 0 cb_intersect_rc f (rc, ns, m) = (rc, age_nodes rc (set xs) (ns(i := v)), m')" unfolding step by blast
  moreover have "age_nodes rc (set xs) (ns(i := v)) = age_nodes rc (set (i # xs)) ns"
    using f(6) by (intro ext) (auto simp: age_nodes_def v_def)
  ultimately show ?case by simp
qed

lemma intersect_from_spec:
  assumes "dseg (nodes_of d) p f xs 0" "distinct xs" "length xs \<le> MAX_NR_ZNODES d"
  shows "intersect_from rc f d = age_set rc (set xs) d"
  using for_chain_intersect [OF assms, of rc 0] by (auto simp: intersect_from_def age_set_def)

lemma do_for_one_level:
  "m < 7 \<Longrightarrow> do_for_all_znodes cb (zts_for_level ! m) c z
     = for_chain (MAX_NR_ZNODES z) 0 cb (first_in_levels z ! m) (c, nodes_of z, 0)"
proof -
  assume m: "m < 7"
  have u: "[0..<NR_ZORDER_LEVELS] = [0, 1, 2, 3, 4, 5, 6]" by (simp add: upt_rec)
  show ?thesis unfolding do_for_all_znodes_def u
    using m by (simp add: zts_and [OF m]) (drule less_7_cases, elim disjE, simp_all)
qed

lemma intersect_level_spec:
  assumes "zrep d L" "m < 7"
  shows "intersect_levels rc (zts_for_level ! m) d = age_set rc (set (L ! m)) d"
  using for_chain_intersect [OF zrepD(5) [OF assms] zrepD(6) [OF assms] zrep_length [OF assms], of rc 0]
  by (auto simp: intersect_levels_def age_set_def do_for_one_level [OF assms(2)])

section \<open>Showing a window\<close>

lemma ztype_less: "l < 7 \<Longrightarrow> m < 7 \<Longrightarrow> ztype m < ztype l \<longleftrightarrow> l < m"
proof -
  assume l: "l < 7" and m: "m < 7"
  have u: "unat (ztype k) = (8 - k) * 0x10000000" if "k < 7" for k
    using less_7_cases [OF that] by (elim disjE) (simp_all add: zof_type_defs)
  show "ztype m < ztype l \<longleftrightarrow> l < m" unfolding word_less_nat_alt u [OF l] u [OF m] using l m by auto
qed

definition age_below :: "RECT \<Rightarrow> nat \<Rightarrow> nat \<Rightarrow> DESKTOP \<Rightarrow> DESKTOP" where
  "age_below rc l m d = (if ztype l > ztype m then intersect_levels rc (zts_for_level ! m) d else d)"

lemma age_below_spec:
  assumes "zrep d L" "l < 7" "m < 7" "S \<inter> set (L ! m) = {}"
  shows "age_below rc l m (age_set rc S d) = age_set rc (S \<union> (if l < m then set (L ! m) else {})) d"
proof -
  have z: "zrep (age_set rc S d) L" by (rule zrep_same_order [OF assms(1) age_set_order])
  show ?thesis using assms(4)
    by (simp add: age_below_def ztype_less [OF assms(2,3)] intersect_level_spec [OF z assms(3)] age_set_union Int_commute)
qed

definition age_levels :: "RECT \<Rightarrow> nat \<Rightarrow> DESKTOP \<Rightarrow> DESKTOP" where
  "age_levels rc l d = age_below rc l 0 (age_below rc l 1 (age_below rc l 2 (age_below rc l 3 (age_below rc l 4
     (age_below rc l 5 (age_below rc l 6 d))))))"

definition lower_levels :: "nat list list \<Rightarrow> nat \<Rightarrow> nat \<Rightarrow> nat set" where
  "lower_levels L l k = (\<Union>m \<in> {m. k \<le> m \<and> m < 7 \<and> l < m}. set (L ! m))"

lemma age_levels_spec:
  assumes "zrep d L" "l < 7"
  shows "age_levels rc l d = age_set rc (lower_levels L l 0) d"
proof -
  have D: "lower_levels L l (Suc m) \<inter> set (L ! m) = {}" if "m < 7" for m
    using zrep_disjoint [OF assms(1) _ that] by (fastforce simp: lower_levels_def)
  have step: "age_below rc l m (age_set rc (lower_levels L l (Suc m)) d) = age_set rc (lower_levels L l m) d" if m: "m < 7" for m
  proof -
    have "{k. m \<le> k \<and> k < 7 \<and> l < k} = {k. Suc m \<le> k \<and> k < 7 \<and> l < k} \<union> (if l < m then {m} else {})"
      using m by (auto simp: le_less)
    then have "lower_levels L l m = lower_levels L l (Suc m) \<union> (if l < m then set (L ! m) else {})"
      unfolding lower_levels_def by (simp add: UN_Un)
    with age_below_spec [OF assms m D [OF m]] show ?thesis by simp
  qed
  have "lower_levels L l 7 = {}" by (auto simp: lower_levels_def)
  then have e: "age_set rc (lower_levels L l 7) d = d" by (simp add: age_set_def)
  show ?thesis
    unfolding age_levels_def
    using step [of 6] step [of 5] step [of 4] step [of 3] step [of 2] step [of 1] step [of 0] e
    by (simp add: numeral_eq_Suc)
qed

lemma lower_order:
  assumes "zrep d L" "l < 7" "L ! l = a @ i # b"
  shows "lower_levels L l 0 \<inter> set b = {}" "lower_levels L l 0 = set (concat (drop (Suc l) L))" "i \<notin> lower_levels L l 0"
    "i \<notin> set b" "distinct b" "length b \<le> MAX_NR_ZNODES d"
proof -
  have i: "set (a @ i # b) \<subseteq> set (L ! l)" using assms(3) by simp
  have D: "lower_levels L l 0 \<inter> set (L ! l) = {}"
    using zrep_disjoint [OF assms(1) _ assms(2)] by (fastforce simp: lower_levels_def)
  with assms(3) show "lower_levels L l 0 \<inter> set b = {}" "i \<notin> lower_levels L l 0" by auto
  have "{m. 0 \<le> m \<and> m < 7 \<and> l < m} = {Suc l..< 7}" by auto
  then have "lower_levels L l 0 = (\<Union>m \<in> {Suc l..< 7}. set (L ! m))" by (simp add: lower_levels_def)
  also have "\<dots> = set (concat (drop (Suc l) L))"
  proof -
    have "set (drop (Suc l) L) = (\<lambda>m. L ! m) ` {Suc l..< 7}"
      using zrepD(1) [OF assms(1)] by (simp add: drop_eq_nths set_nths) auto
    then show ?thesis by auto
  qed
  finally show "lower_levels L l 0 = set (concat (drop (Suc l) L))" .
  show "i \<notin> set b" "distinct b" using zrepD(6) [OF assms(1,2)] assms(3) by simp_all
  show "length b \<le> MAX_NR_ZNODES d" using zrep_length [OF assms(1,2)] assms(3) by simp
qed

text \<open>Without a menu to close, showing a window makes exactly the nodes older that it may cover.\<close>

lemma dskShowWindow_ages:
  assumes "zrep d L" "concat L = us @ i # vs" "\<not> visible (nodes_of d i)" "cli_trackmenu d < 0"
    and "dskShowWindow d (int i) = (r, d')" "j \<noteq> 0"
  shows "zn_age (nodes_of d' j) = zn_age (nodes_of d j)
    + (if j = i \<or> j \<in> set vs \<and> hit (zn_rc (nodes_of d i)) (nodes_of d j) then 1 else 0)"
    "zn_age (nodes_of d' 0) = zn_age (nodes_of d 0) + (if DoesIntersect (zn_rc (nodes_of d i)) (d_screen d) then 1 else 0)"
proof -
  from order_split [OF assms(1,2)] obtain l a b where s: "l < 7" "L ! l = a @ i # b" "us = concat (take l L) @ a"
    "vs = b @ concat (drop (Suc l) L)" .
  have il: "i \<in> set (L ! l)" using s(2) by simp
  note N = live_node [OF assms(1) s(1) il] and B = lower_order [OF assms(1) s(1,2)]
  let ?rc = "zn_rc (nodes_of d i)"
  have cm: "close_menu_if True d = d" using assms(4) by (simp add: close_menu_if_def)
  define d1 where "d1 = age_levels ?rc l d"
  have d1: "d1 = age_set ?rc (lower_levels L l 0) d" unfolding d1_def by (rule age_levels_spec [OF assms(1) s(1)])
  define d2 where "d2 = intersect_from ?rc (zn_next (nodes_of d1 i)) d1"
  have res: "dskShowWindow d (int i) = (0, upd_node i (set_flag ZOF_VISIBLE) (upd_node i age_up (age_desktop ?rc d2)))"
  proof -
    have lv: "age_levels ?rc l d =
      (if ztype l > ZOF_TYPE_TOOLTIP then intersect_levels ?rc 0x80 e1 else e1)"
      if "e1 = (if ztype l > ZOF_TYPE_GLOBAL then intersect_levels ?rc 0x40 e2 else e2)"
        "e2 = (if ztype l > ZOF_TYPE_SCREENLOCK then intersect_levels ?rc 0x20 e3 else e3)"
        "e3 = (if ztype l > ZOF_TYPE_DOCKER then intersect_levels ?rc 0x10 e4 else e4)"
        "e4 = (if ztype l > ZOF_TYPE_HIGHER then intersect_levels ?rc 0x08 e5 else e5)"
        "e5 = (if ztype l > ZOF_TYPE_NORMAL then intersect_levels ?rc 0x04 e6 else e6)"
        "e6 = (if ztype l > ZOF_TYPE_LAUNCHER then intersect_levels ?rc 0x02 d else d)" for e1 e2 e3 e4 e5 e6
      unfolding age_levels_def age_below_def that by (simp add: zts_for_level_def)
    show ?thesis
      unfolding dskShowWindow_def Let_def nat_int if_not_P [OF N(1)] N(2) level_of_ztype [OF s(1)] if_not_P [OF N(4)]
        if_not_P [OF assms(3)] cm d2_def d1_def lv [OF refl refl refl refl refl refl] by (rule refl)
  qed
  have nx: "zn_next (nodes_of d1 i) = zn_next (nodes_of d i)" by (simp add: d1 age_set_def)
  have mx: "MAX_NR_ZNODES d1 = MAX_NR_ZNODES d"
    unfolding d1 by (rule same_order_MAX(1) [OF age_set_order])
  have "dseg (nodes_of d) 0 (first_in_levels d ! l) (a @ i # b) 0" using zrepD(5) [OF assms(1) s(1)] s(2) by simp
  then have "dseg (nodes_of d) i (zn_next (nodes_of d i)) b 0" by (auto simp: dseg_append)
  then have "dseg (nodes_of d1) i (zn_next (nodes_of d i)) b 0"
    using dseg_cong [of b "nodes_of d" "nodes_of d1"] by (simp add: d1 age_set_def)
  then have "d2 = age_set ?rc (set b) d1"
    unfolding d2_def nx by (rule intersect_from_spec [OF _ B(5)]) (simp add: mx B(6))
  then have d2: "d2 = age_set ?rc (set vs) d" using age_set_union B(1,2) s(4) unfolding d1 by (simp add: Un_commute Int_commute)
  have "distinct (us @ i # vs)" using distinct_order [OF assms(1)] assms(2) by simp
  then have i1: "i \<notin> set vs" by simp
  have "0 \<notin> set (concat L)" using zrep_no_0 [OF assms(1)] by auto
  then have i2: "0 \<notin> set vs" unfolding assms(2) by simp
  note i = i1 i2
  have d': "d' = upd_node i (set_flag ZOF_VISIBLE) (upd_node i age_up (age_desktop ?rc d2))" using res assms(5) by simp
  show "zn_age (nodes_of d' j) = zn_age (nodes_of d j)
      + (if j = i \<or> j \<in> set vs \<and> hit ?rc (nodes_of d j) then 1 else 0)"
    using i(1) assms(6) by (simp add: d' d2 upd_node_def age_desktop_def age_set_def age_nodes_def age_up_def set_flag_def)
  show "zn_age (nodes_of d' 0) = zn_age (nodes_of d 0) + (if DoesIntersect ?rc (d_screen d) then 1 else 0)"
    using i(2) N(5) by (simp add: d' d2 upd_node_def age_desktop_def age_set_def age_nodes_def age_up_def set_flag_def)
qed


end
