(* ===== verification/MG_ZOrderCorrect.thy ===== *)
theory MG_ZOrderCorrect
  imports MG_ZAge
begin

text \<open>
  The properties of the z-order, each with an instance on a small desktop: two normal windows, the
  second partly under the first.
\<close>

section \<open>A small desktop\<close>

definition ex_node :: "dword \<Rightarrow> RECT \<Rightarrow> HWND \<Rightarrow> nat \<Rightarrow> nat \<Rightarrow> ZORDERNODE" where
  "ex_node fl rc h nx pv = \<lparr>zn_flags = fl, zn_caption = None, zn_hwnd = h, zn_main_win = h, zn_rc = rc, zn_cli = 0,
     zn_lock_count = 0, zn_age = 1, zn_dirty_rc = SetRectEmpty, idx_mask_rect = 0, zn_next = nx, zn_prev = pv\<rparr>"

definition ex_nodes :: znodes where
  "ex_nodes = (\<lambda>_. ex_node 0 SetRectEmpty 0 0 0)
     (0 := ex_node 0x10000001 (SetRect 0 0 100 100) 0 0 0,
      8 := ex_node 0x31000001 (SetRect 0 0 50 50) 11 9 0,
      9 := ex_node 0x31000001 (SetRect 40 40 80 80) 12 0 8)"

definition ex_desktop :: DESKTOP where
  "ex_desktop =
     \<lparr>max_nr_popupmenus = 16, max_nr_nodes_in_levels = [1, 2, 2, 2, 1, 6, 1], nr_popupmenus = 0,
      nr_nodes_in_levels = [0, 0, 0, 0, 0, 2, 0], first_in_levels = [0, 0, 0, 0, 0, 8, 0],
      active_win = 8, old_active = 0, next_active = 0, cli_trackmenu = - 1, ptmi_in_cli = - 1,
      zi_usage_bmp = [0x7F, 0x3F], menu_nodes = (\<lambda>_. ex_node 0 SetRectEmpty 0 0 0), nodes_of = ex_nodes,
      maskrect_usage_bmp = [0x7F], maskrects = (\<lambda>_. \<lparr>mr_left = 0, mr_top = 0, mr_right = 0, mr_bottom = 0, mr_next = 0, mr_prev = 0\<rparr>),
      d_rgns = (\<lambda>_. InitClipRgn None), d_screen = SetRect 0 0 100 100, d_ime_wnd = 0, d_events = []\<rparr>"

definition ex_order :: "nat list list" where
  "ex_order = [[], [], [], [], [], [8, 9], []]"

lemma ex_sizes: "MAX_NR_SPECIAL_ZNODES ex_desktop = 8" "MAX_NR_ZNODES ex_desktop = 16"
  "LEN_USAGE_BMP_SPECIAL ex_desktop = 1" "LEN_USAGE_BMP_GENERAL ex_desktop = 1"
  by code_simp+

lemma ex_aligned: "aligned ex_desktop"
  by (simp add: aligned_def ex_sizes)

lemma less_7_all: "(\<forall>l < 7. P l) \<longleftrightarrow> P 0 \<and> P 1 \<and> P 2 \<and> P 3 \<and> P 4 \<and> P 5 \<and> P (6::nat)"
  using less_7_cases by auto

lemma ex_idle: "x < 16 \<Longrightarrow> slot_idle (zi_usage_bmp ex_desktop) x = (x \<noteq> 0 \<and> x \<noteq> 8 \<and> x \<noteq> 9)"
proof -
  have "\<forall>x \<in> set [0..<16]. slot_idle (zi_usage_bmp ex_desktop) x = (x \<noteq> 0 \<and> x \<noteq> 8 \<and> x \<noteq> 9)" by code_simp
  then show "x < 16 \<Longrightarrow> slot_idle (zi_usage_bmp ex_desktop) x = (x \<noteq> 0 \<and> x \<noteq> 8 \<and> x \<noteq> 9)" by simp
qed

lemma ex_rep: "zrep ex_desktop ex_order"
proof -
  have st: "\<forall>l < 7. dseg (nodes_of ex_desktop) 0 (first_in_levels ex_desktop ! l) (ex_order ! l) 0 \<and> distinct (ex_order ! l)
      \<and> nr_nodes_in_levels ex_desktop ! l = int (length (ex_order ! l))
      \<and> length (ex_order ! l) \<le> max_nr_nodes_in_levels ex_desktop ! l
      \<and> (\<forall>x \<in> set (ex_order ! l). zn_type (nodes_of ex_desktop x) = ztype l \<and> slot_of_type ex_desktop (ztype l) x)"
    unfolding less_7_all by code_simp
  have mem: "(\<forall>l < 7. x \<notin> set (ex_order ! l)) \<longleftrightarrow> x \<noteq> 8 \<and> x \<noteq> 9" for x
    unfolding less_7_all by (simp add: ex_order_def)
  have len: "length ex_order = 7" "length (first_in_levels ex_desktop) = 7" "length (nr_nodes_in_levels ex_desktop) = 7"
    "1 + 1 \<le> length (zi_usage_bmp ex_desktop)" by code_simp+
  show ?thesis unfolding zrep_def ex_sizes mem using st len ex_idle by simp
qed

lemma ex_in: "8 \<in> set (ex_order ! 5)" "9 \<in> set (ex_order ! 5)" "handles ex_order = {8, 9}"
  by (auto simp: ex_order_def handles_def lessThan_Suc numeral_eq_Suc)

section \<open>Reachable states\<close>

text \<open>
  C4: in every state that the server reaches from the set-up by allocating, freeing, raising, showing,
  hiding, enabling and activating windows and tracking popup menus, the links and counters of each
  level spell one list without repetition: the lists hold exactly the live handles, each in the level
  of its type and in a slot for that type, no list is longer than its level allows, and the bitmap marks
  exactly the slots in the lists as used.
\<close>

theorem zorder_reachable_represents:
  assumes "zreach d A"
  shows "\<exists>L. zrep d L \<and> handles L = A"
  using zreach_zinv [OF assms] by (auto simp: zinv_def)

theorem zorder_reachable_represents_witness:
  "\<exists>L. zrep (kernel_alloc_z_order_info 16 128 (SetRect 0 0 640 480) ex_nodes ex_nodes (maskrects ex_desktop) 0 0 (d_rgns ex_desktop)) L
     \<and> handles L = {}"
  by (rule zorder_reachable_represents [OF zreach.init])

section \<open>Allocation and release\<close>

text \<open>
  C10: a node gets a slot exactly as long as its level has room, although the levels share two pools of
  slots: then it becomes the first node of its level behind the always-top nodes, with the data that was
  passed, and no other node changes its looks; when the level is full the answer is -1 and nothing changes.
\<close>

theorem AllocZOrderNodeEx_correct:
  assumes "zrep d L" "aligned d" "l < 7" "flags AND ZOF_TYPE_MASK = ztype l"
    and "AllocZOrderNodeEx d cli hWnd main_win flags rc caption = (r, d')"
  shows "if length (L ! l) < max_nr_nodes_in_levels d ! l
    then \<exists>k. r = int k \<and> k \<notin> handles L \<and> zrep d' (L[l := put_top (nodes_of d) k (L ! l)])
      \<and> node_is hWnd main_win flags rc cli (nodes_of d' k)
      \<and> (\<forall>x. x \<noteq> k \<longrightarrow> same_look (nodes_of d x) (nodes_of d' x))
    else r = - 1 \<and> d' = d"
proof (cases "length (L ! l) < max_nr_nodes_in_levels d ! l")
  case True
  obtain x where "slot_of_type d (ztype l) x" "slot_idle (zi_usage_bmp d) x"
    by (rule free_slot [OF assms(1,3) True assms(2)])
  then obtain k where "r = int k" "\<forall>m < 7. k \<notin> set (L ! m)" "zrep d' (L[l := put_top (nodes_of d) k (L ! l)])"
    "\<forall>x. x \<noteq> k \<longrightarrow> same_look (nodes_of d x) (nodes_of d' x)" "node_is hWnd main_win flags rc cli (nodes_of d' k)"
    using AllocZOrderNodeEx_spec [OF assms(1,3,4,5)] True by metis
  moreover from this(2) have "k \<notin> handles L" using handlesD [OF _ zrepD(1) [OF assms(1)]] by metis
  ultimately show ?thesis using True by auto
next
  case False
  with assms(4,5) zrepD(7) [OF assms(1,3)] level_with_room_ztype [OF assms(3), of d] show ?thesis
    by (simp add: AllocZOrderNodeEx_def Let_def)
qed

theorem AllocZOrderNodeEx_correct_witness:
  "case AllocZOrderNodeEx ex_desktop 0 13 13 0x31000001 (SetRect 10 10 20 20) None of (r, d') \<Rightarrow>
     \<exists>k. r = int k \<and> zrep d' (ex_order[5 := put_top ex_nodes k [8, 9]])"
proof -
  obtain r d' where a: "AllocZOrderNodeEx ex_desktop 0 13 13 0x31000001 (SetRect 10 10 20 20) None = (r, d')"
    by (cases "AllocZOrderNodeEx ex_desktop 0 13 13 0x31000001 (SetRect 10 10 20 20) None")
  have "0x31000001 AND ZOF_TYPE_MASK = ztype 5" "length (ex_order ! 5) < max_nr_nodes_in_levels ex_desktop ! 5"
    by code_simp+
  with AllocZOrderNodeEx_correct [OF ex_rep ex_aligned _ _ a, of 5] show ?thesis
    unfolding a by (auto simp: ex_order_def ex_desktop_def)
qed

lemma ex_alloc:
  obtains d1 where "AllocZOrderNodeEx ex_desktop 0 13 13 0x31000001 (SetRect 10 10 20 20) None = (int 10, d1)"
proof -
  have "fst (AllocZOrderNodeEx ex_desktop 0 13 13 0x31000001 (SetRect 10 10 20 20) None) = int 10" by code_simp
  then show thesis using that by (metis prod.collapse)
qed

lemma freed_slot_idle:
  assumes "zrep d L" "l < 7" "i \<in> set (L ! l)" "zrep d' (L[l := remove1 i (L ! l)])"
    and "max_nr_nodes_in_levels d' = max_nr_nodes_in_levels d"
  shows "slot_idle (zi_usage_bmp d') i"
proof -
  have M: "MAX_NR_SPECIAL_ZNODES d' = MAX_NR_SPECIAL_ZNODES d" "MAX_NR_ZNODES d' = MAX_NR_ZNODES d"
    "LEN_USAGE_BMP_SPECIAL d' = LEN_USAGE_BMP_SPECIAL d"
    using assms(5) by (simp_all add: MAX_NR_ZNODES_def MAX_NR_SPECIAL_ZNODES_def MAX_NR_GENERAL_ZNODES_def LEN_USAGE_BMP_SPECIAL_def)
  have "i < MAX_NR_SPECIAL_ZNODES d' \<or> 8 * LEN_USAGE_BMP_SPECIAL d' \<le> i \<and> i < MAX_NR_ZNODES d'"
    using zrepD(10) [OF assms(1-3)] unfolding slot_of_type_def M by (auto split: if_splits)
  then have "slot_idle (zi_usage_bmp d') i = (i \<noteq> 0 \<and> (\<forall>m < 7. i \<notin> set (L[l := remove1 i (L ! l)] ! m)))"
    by (rule zrepD(11) [OF assms(4)])
  moreover have "i \<notin> set (L[l := remove1 i (L ! l)] ! m)" if "m < 7" for m
  proof (cases "m = l")
    case True
    then show ?thesis using zrepD(1) [OF assms(1)] zrepD(6) [OF assms(1,2)] assms(2) by simp
  next
    case False
    have "i \<notin> set (L ! m)"
    proof
      assume "i \<in> set (L ! m)"
      then have "ztype m = ztype l" using zrepD(9) [OF assms(1) that] zrepD(9) [OF assms(1-3)] by metis
      then show False using ztype_inj [OF that assms(2)] False by simp
    qed
    then show ?thesis using False by simp
  qed
  ultimately show ?thesis using zrep_not_0 [OF assms(1-3)] by simp
qed

lemma FreeZOrderNodeEx_after_alloc:
  assumes "zrep d L" "l < 7" "flags AND ZOF_TYPE_MASK = ztype l"
    and "AllocZOrderNodeEx d cli hWnd main_win flags rc caption = (int k, d1)"
    and "FreeZOrderNodeEx d1 (int k) = (r, d2)"
  shows "r = 0 \<and> zrep d2 L \<and> (\<forall>x. x \<noteq> k \<longrightarrow> same_look (nodes_of d x) (nodes_of d2 x))"
proof -
  from AllocZOrderNodeEx_spec [OF assms(1-4)]
  have k: "k \<notin> set (L ! l)" "zrep d1 (L[l := put_top (nodes_of d) k (L ! l)])"
    "\<forall>x. x \<noteq> k \<longrightarrow> same_look (nodes_of d x) (nodes_of d1 x)" using assms(2) by auto
  have L: "length L = 7" by (rule zrepD(1) [OF assms(1)])
  then have "k \<in> set (L[l := put_top (nodes_of d) k (L ! l)] ! l)" using assms(2) by (simp add: set_put_top)
  from FreeZOrderNodeEx_spec [OF k(2) assms(2) this assms(5)]
  have f: "r = 0" "zrep d2 (L[l := remove1 k (put_top (nodes_of d) k (L ! l))])"
    "\<And>x. x \<noteq> k \<Longrightarrow> same_look (nodes_of d1 x) (nodes_of d2 x)" using L assms(2) by simp_all
  have "remove1 k (put_top (nodes_of d) k (L ! l)) = L ! l"
    using k(1) by (simp add: put_top_def remove1_append set_takeWhileD [of k])
      (metis set_takeWhileD takeWhile_dropWhile_id)
  with f k(3) L assms(2) show ?thesis by (simp, metis same_look_trans)
qed

text \<open>
  C30: freeing a live node succeeds, takes it out of its level, makes its slot idle and leaves the looks of all
  other nodes as they are (their links, ages and \<open>ZOF_IF_REFERENCE\<close> marks apart); so freeing what was just
  allocated restores the order.
\<close>

theorem FreeZOrderNodeEx_undoes_alloc:
  assumes "zrep d L" "l < 7"
  shows "(\<forall>i \<in> set (L ! l). case FreeZOrderNodeEx d (int i) of (r, d') \<Rightarrow>
        r = 0 \<and> zrep d' (L[l := remove1 i (L ! l)]) \<and> slot_idle (zi_usage_bmp d') i
        \<and> (\<forall>x. x \<noteq> i \<longrightarrow> same_look (nodes_of d x) (nodes_of d' x)))
    \<and> (\<forall>cli hWnd main_win flags rc caption k d1. flags AND ZOF_TYPE_MASK = ztype l
        \<and> AllocZOrderNodeEx d cli hWnd main_win flags rc caption = (int k, d1) \<longrightarrow>
        (case FreeZOrderNodeEx d1 (int k) of (r, d2) \<Rightarrow>
          r = 0 \<and> zrep d2 L \<and> (\<forall>x. x \<noteq> k \<longrightarrow> same_look (nodes_of d x) (nodes_of d2 x))))"
proof -
  have "r = 0 \<and> zrep d' (L[l := remove1 i (L ! l)]) \<and> slot_idle (zi_usage_bmp d') i
      \<and> (\<forall>x. x \<noteq> i \<longrightarrow> same_look (nodes_of d x) (nodes_of d' x))"
    if "i \<in> set (L ! l)" "FreeZOrderNodeEx d (int i) = (r, d')" for i r d'
    using FreeZOrderNodeEx_spec [OF assms that] freed_slot_idle [OF assms that(1)] mx_Free [of d "int i"] that(2) by simp
  then show ?thesis using FreeZOrderNodeEx_after_alloc [OF assms] by (fastforce split: prod.splits)
qed

theorem FreeZOrderNodeEx_undoes_alloc_witness:
  "(\<exists>d1. AllocZOrderNodeEx ex_desktop 0 13 13 0x31000001 (SetRect 10 10 20 20) None = (int 10, d1)
     \<and> (\<exists>d2. FreeZOrderNodeEx d1 (int 10) = (0, d2) \<and> zrep d2 ex_order))
   \<and> (case FreeZOrderNodeEx ex_desktop 8 of (r, d') \<Rightarrow>
        r = 0 \<and> zrep d' (ex_order[5 := [9]]) \<and> slot_idle (zi_usage_bmp d') 8)"
proof
  have l: "(5 :: nat) < 7" by simp
  note P = FreeZOrderNodeEx_undoes_alloc [OF ex_rep l]
  obtain d1 where a: "AllocZOrderNodeEx ex_desktop 0 13 13 0x31000001 (SetRect 10 10 20 20) None = (int 10, d1)"
    by (rule ex_alloc)
  obtain r d2 where f: "FreeZOrderNodeEx d1 (int 10) = (r, d2)" by (cases "FreeZOrderNodeEx d1 (int 10)")
  have t: "0x31000001 AND ZOF_TYPE_MASK = ztype 5" by code_simp
  have "case FreeZOrderNodeEx d1 (int 10) of (r, d2) \<Rightarrow>
      r = 0 \<and> zrep d2 ex_order \<and> (\<forall>x. x \<noteq> 10 \<longrightarrow> same_look (nodes_of ex_desktop x) (nodes_of d2 x))"
    by (rule conjunct2 [OF P, rule_format, OF conjI [OF t a]])
  with a f show "\<exists>d1. AllocZOrderNodeEx ex_desktop 0 13 13 0x31000001 (SetRect 10 10 20 20) None = (int 10, d1)
     \<and> (\<exists>d2. FreeZOrderNodeEx d1 (int 10) = (0, d2) \<and> zrep d2 ex_order)" by simp
  have "remove1 8 (ex_order ! 5) = [9]" by code_simp
  then show "case FreeZOrderNodeEx ex_desktop 8 of (r, d') \<Rightarrow>
        r = 0 \<and> zrep d' (ex_order[5 := [9]]) \<and> slot_idle (zi_usage_bmp d') 8"
    using conjunct1 [OF P] ex_in(1) by (auto split: prod.splits)
qed

section \<open>Raising, showing and hiding\<close>

text \<open>Always-top nodes come first on every level.\<close>

definition tops_first :: "znodes \<Rightarrow> nat list \<Rightarrow> bool" where
  "tops_first ns xs \<longleftrightarrow> (\<forall>x \<in> set (dropWhile (\<lambda>x. always_top (ns x)) xs). \<not> always_top (ns x))"

lemma tops_first_Nil [simp]: "tops_first ns []"
  by (simp add: tops_first_def)

lemma tops_first_Cons: "tops_first ns (x # xs) \<longleftrightarrow> tops_first ns xs \<and> (always_top (ns x) \<or> (\<forall>y \<in> set xs. \<not> always_top (ns y)))"
proof (cases "always_top (ns x)")
  case False
  have "tops_first ns xs" if "\<forall>y \<in> set xs. \<not> always_top (ns y)"
    using that set_dropWhileD unfolding tops_first_def by metis
  with False show ?thesis by (auto simp: tops_first_def)
qed (simp add: tops_first_def)

lemma tops_first_remove1: "tops_first ns xs \<Longrightarrow> tops_first ns (remove1 i xs)"
proof (induction xs)
  case (Cons x xs)
  have "set (remove1 i xs) \<subseteq> set xs" by (rule set_remove1_subset)
  with Cons show ?case unfolding tops_first_Cons remove1.simps by (simp add: tops_first_Cons) blast
qed simp

lemma tops_first_put_top: "tops_first ns xs \<Longrightarrow> tops_first ns (put_top ns k xs)"
proof (induction xs)
  case Nil
  then show ?case by (simp add: put_top_def tops_first_Cons)
next
  case (Cons x xs)
  show ?case
  proof (cases "always_top (ns x)")
    case True
    then have "put_top ns k (x # xs) = x # put_top ns k xs" by (simp add: put_top_def)
    with Cons True show ?thesis by (simp add: tops_first_Cons)
  next
    case False
    then have "put_top ns k (x # xs) = k # x # xs" by (simp add: put_top_def)
    with Cons.prems False show ?thesis by (simp add: tops_first_Cons)
  qed
qed

lemma tops_first_cong: "(\<And>x. x \<in> set xs \<Longrightarrow> always_top (ns x) = always_top (ns' x)) \<Longrightarrow> tops_first ns xs = tops_first ns' xs"
  by (induction xs) (simp_all add: tops_first_Cons)

text \<open>
  C13: raising a live node keeps every other node in its place and order: the node moves to the front of
  its level, or right behind the leading always-top nodes when there are some; a first node stays. Every node
  keeps its rectangle, its windows, its client, its mask and all its flags but \<open>ZOF_IF_REFERENCE\<close>, the mark
  that closing the menus sets on what they covered, and always-top nodes that came first on the level still do.
\<close>

theorem dskMove2Top_correct:
  assumes "zrep d L" "l < 7" "i \<in> set (L ! l)" "dskMove2Top d (int i) = (r, d')"
  shows "r = 0 \<and> zrep d' (L[l := raise_in (nodes_of d) i (L ! l)])
    \<and> (\<forall>x. visible (nodes_of d' x) = visible (nodes_of d x) \<and> always_top (nodes_of d' x) = always_top (nodes_of d x))
    \<and> (\<forall>x. zn_flags (nodes_of d' x) AND NOT ZOF_IF_REFERENCE = zn_flags (nodes_of d x) AND NOT ZOF_IF_REFERENCE)
    \<and> (\<forall>x. same_look (nodes_of d x) (nodes_of d' x))
    \<and> (tops_first (nodes_of d) (L ! l) \<longrightarrow> tops_first (nodes_of d') (raise_in (nodes_of d) i (L ! l)))"
proof -
  note S = dskMove2Top_spec [OF assms]
  then have "tops_first (nodes_of d') xs = tops_first (nodes_of d) xs" for xs by (intro tops_first_cong) simp
  moreover have "tops_first (nodes_of d) (raise_in (nodes_of d) i xs)" if "tops_first (nodes_of d) xs" for xs
    using that by (simp add: raise_in_def tops_first_put_top tops_first_remove1)
  moreover have "zn_flags (nodes_of d' x) AND NOT ZOF_IF_REFERENCE = zn_flags (nodes_of d x) AND NOT ZOF_IF_REFERENCE" for x
    using S by (simp add: same_look_def)
  ultimately show ?thesis using S by simp
qed

theorem dskMove2Top_correct_witness:
  "case dskMove2Top ex_desktop 9 of (r, d') \<Rightarrow> r = 0 \<and> zrep d' [[], [], [], [], [], [9, 8], []]"
proof -
  obtain r d' where m: "dskMove2Top ex_desktop (int 9) = (r, d')" by (cases "dskMove2Top ex_desktop (int 9)")
  have "raise_in (nodes_of ex_desktop) 9 (ex_order ! 5) = [9, 8]" by code_simp
  with dskMove2Top_correct [OF ex_rep _ ex_in(2) m] m show ?thesis by (simp add: ex_order_def)
qed

text \<open>
  making a live node always-top, and taking the flag from a node that is not the first of its level,
  sets the flag, changes no other node's flag and keeps the always-top nodes of the level first.
\<close>

theorem dskSetZNodeAlwaysTop_correct:
  assumes "zrep d L" "l < 7" "i \<in> set (L ! l)" "dskSetZNodeAlwaysTop d (int i) fSet = (r, d')"
    and "tops_first (nodes_of d) (L ! l)" "fSet \<or> hd (L ! l) \<noteq> i"
  shows "r = 0 \<and> (\<exists>xs. set xs = set (L ! l) \<and> zrep d' (L[l := xs]) \<and> tops_first (nodes_of d') xs)
    \<and> (\<forall>x. always_top (nodes_of d' x) = (if x = i then fSet else always_top (nodes_of d x)))"
proof -
  let ?ns = "with_top (nodes_of d) i fSet" and ?xs = "L ! l"
  note S = dskSetZNodeAlwaysTop_spec [OF assms(1-4)]
  have dist: "distinct ?xs" by (rule zrepD(6) [OF assms(1,2)])
  have at: "always_top (with_top (nodes_of d) i b x) = (if x = i then b else always_top (nodes_of d x))" for b x
    by (simp add: with_top_def has_flag_ops ZOF_IF_ALWAYSTOP_def)
  have "tops_first ?ns (raise_in ?ns i ?xs)"
  proof (cases "hd ?xs = i")
    case True
    with assms(3) obtain ys where ys: "?xs = i # ys" by (cases ?xs) auto
    with dist have "tops_first ?ns ys = tops_first (nodes_of d) ys" by (intro tops_first_cong) (auto simp: at)
    with assms(5,6) True ys show ?thesis by (simp add: raise_in_def tops_first_Cons at)
  next
    case False
    have "i \<notin> set (remove1 i ?xs)" using dist by simp
    then have "tops_first ?ns (remove1 i ?xs) = tops_first (nodes_of d) (remove1 i ?xs)"
      by (intro tops_first_cong) (auto simp: at)
    with False assms(5) show ?thesis by (simp add: raise_in_def tops_first_put_top tops_first_remove1)
  qed
  moreover have "tops_first (nodes_of d') xs = tops_first ?ns xs" for xs
    using S by (intro tops_first_cong) (simp add: at)
  ultimately show ?thesis using S set_raise_in [OF assms(3) dist] by blast
qed

theorem dskSetZNodeAlwaysTop_correct_witness:
  "case dskSetZNodeAlwaysTop ex_desktop 9 True of (r, d') \<Rightarrow>
     r = 0 \<and> always_top (nodes_of d' 9) \<and> \<not> always_top (nodes_of d' 8)"
proof -
  obtain r d' where m: "dskSetZNodeAlwaysTop ex_desktop (int 9) True = (r, d')"
    by (cases "dskSetZNodeAlwaysTop ex_desktop (int 9) True")
  have "tops_first (nodes_of ex_desktop) (ex_order ! 5)" "\<not> always_top (nodes_of ex_desktop 8)" by code_simp+
  with dskSetZNodeAlwaysTop_correct [OF ex_rep _ ex_in(2) m] m show ?thesis by simp
qed

text \<open>A first node that loses the flag stays in front of the always-top nodes behind it.\<close>

lemma dskSetZNodeAlwaysTop_first_stays:
  assumes "zrep d L" "l < 7" "L ! l = i # xs" "dskSetZNodeAlwaysTop d (int i) False = (r, d')"
  shows "zrep d' L \<and> \<not> always_top (nodes_of d' i) \<and> (\<forall>x \<in> set xs. always_top (nodes_of d' x) = always_top (nodes_of d x))"
proof -
  have "i \<in> set (L ! l)" "i \<notin> set xs" using assms(3) zrepD(6) [OF assms(1,2)] by auto
  with dskSetZNodeAlwaysTop_spec [OF assms(1,2) _ assms(4)] assms(3) show ?thesis
    by (auto simp: raise_in_def) (metis list_update_id)
qed

text \<open>
  showing a hidden node makes it visible, hiding a visible one makes it hidden; both keep the order
  and the looks of every other node.
\<close>

theorem dskShow_HideWindow_correct:
  assumes "zrep d L" "l < 7" "i \<in> set (L ! l)"
  shows "(case dskShowWindow d (int i) of (r, d') \<Rightarrow> r = 0 \<and> zrep d' L \<and> visible (nodes_of d' i)
      \<and> (\<forall>x. x \<noteq> i \<longrightarrow> same_look (nodes_of d x) (nodes_of d' x)))
    \<and> (case dskHideWindow d (int i) of (r, d') \<Rightarrow> r = 0 \<and> zrep d' L \<and> \<not> visible (nodes_of d' i)
      \<and> (\<forall>x. x \<noteq> i \<longrightarrow> same_look (nodes_of d x) (nodes_of d' x)))"
  using dskShowWindow_spec [OF assms] dskHideWindow_spec [OF assms] by (auto split: prod.splits)

theorem dskShow_HideWindow_correct_witness:
  "case dskHideWindow ex_desktop (int 8) of (r, d') \<Rightarrow> r = 0 \<and> zrep d' ex_order \<and> \<not> visible (nodes_of d' 8)"
  using dskShow_HideWindow_correct [OF ex_rep _ ex_in(1)] by auto

text \<open>
  C29: when a hidden window is shown and no menu is open, the age of a node grows by one exactly when it is
  the window itself, or a visible node further down in the order, on the same or a lower level, that the
  window's rectangle meets; these are the windows whose clipping region has to be computed again.
\<close>

theorem dskShowWindow_ages_covered:
  assumes "zrep d L" "concat L = us @ i # vs" "\<not> visible (nodes_of d i)" "cli_trackmenu d < 0"
    and "dskShowWindow d (int i) = (r, d')" "j \<in> handles L"
  shows "zn_age (nodes_of d' j) = zn_age (nodes_of d j)
    + (if j = i \<or> j \<in> set vs \<and> visible (nodes_of d j) \<and> DoesIntersect (zn_rc (nodes_of d i)) (zn_rc (nodes_of d j)) then 1 else 0)"
proof -
  have "j \<noteq> 0" using assms(6) handlesD [OF _ zrepD(1) [OF assms(1)]] zrep_not_0 [OF assms(1)] by metis
  from dskShowWindow_ages(1) [OF assms(1-5) this] show ?thesis by (simp add: hit_def)
qed

definition ex_hidden :: DESKTOP where
  "ex_hidden = upd_node 8 (clear_flag ZOF_VISIBLE) ex_desktop"

lemma ex_hidden_rep: "zrep ex_hidden ex_order"
  unfolding ex_hidden_def by (rule upd_flag_rep [OF ex_rep]) simp

theorem dskShowWindow_ages_covered_witness:
  "case dskShowWindow ex_hidden (int 8) of (r, d') \<Rightarrow> zn_age (nodes_of d' 9) = 2"
proof -
  obtain r d' where s: "dskShowWindow ex_hidden (int 8) = (r, d')" by (cases "dskShowWindow ex_hidden (int 8)")
  have c: "concat ex_order = [] @ 8 # [9]" "\<not> visible (nodes_of ex_hidden 8)" "cli_trackmenu ex_hidden < 0" by code_simp+
  have "visible (nodes_of ex_hidden 9)" "DoesIntersect (zn_rc (nodes_of ex_hidden 8)) (zn_rc (nodes_of ex_hidden 9))"
    "zn_age (nodes_of ex_hidden 9) = 1" by code_simp+
  with dskShowWindow_ages_covered [OF ex_hidden_rep c s, of 9] ex_in(3) s show ?thesis by simp
qed

section \<open>Walking the order\<close>

text \<open>
  C33: \<open>kernel_get_next_znode\<close> and \<open>kernel_get_prev_znode\<close> walk the order that the levels make when they
  are put one behind the other, and each undoes the other; behind the last node of the order the next one
  is -1 on the launcher level and 0 elsewhere, before the first one the previous one is -1 on the
  tooltip level and 0 elsewhere. (\<open>ServerGetNextZNode\<close> passes the result on, while its documentation in minigui.h
  has 0 for the desktop behind the last node and a negative number for errors only.)
\<close>

theorem get_znode_walks_order:
  assumes "zrep d L" "concat L = us @ i # vs"
  shows "kernel_get_next_znode d (int i) = (if vs \<noteq> [] then int (hd vs) else if i \<in> set (L ! 6) then - 1 else 0)
    \<and> kernel_get_prev_znode d (int i) = (if us \<noteq> [] then int (last us) else if i \<in> set (L ! 0) then - 1 else 0)
    \<and> (vs \<noteq> [] \<longrightarrow> kernel_get_prev_znode d (kernel_get_next_znode d (int i)) = int i)
    \<and> (us \<noteq> [] \<longrightarrow> kernel_get_next_znode d (kernel_get_prev_znode d (int i)) = int i)"
proof -
  have "kernel_get_next_znode d (int (last us)) = int i" if "us \<noteq> []"
  proof -
    have "concat L = butlast us @ last us # (i # vs)" using assms(2) that by simp
    from next_znode_spec [OF assms(1) this] show ?thesis by (simp add: hd0_def)
  qed
  moreover
  have "kernel_get_prev_znode d (int (hd vs)) = int i" if "vs \<noteq> []"
  proof -
    have "concat L = (us @ [i]) @ hd vs # tl vs" using assms(2) that by simp
    from prev_znode_spec [OF assms(1) this] show ?thesis by (simp add: last0_def)
  qed
  ultimately show ?thesis using next_znode_spec [OF assms] prev_znode_spec [OF assms] by (simp add: hd0_def last0_def)
qed

theorem get_znode_walks_order_witness:
  "kernel_get_next_znode ex_desktop (int 8) = int 9 \<and> kernel_get_prev_znode ex_desktop (int 9) = int 8"
proof -
  have "concat ex_order = [] @ 8 # [9]" by code_simp
  from get_znode_walks_order [OF ex_rep this] show ?thesis by (elim conjE) simp
qed

text \<open>
  the window that becomes active when the active one is deleted is the next one down in the order
  that is a visible, enabled main window; the search returns 0 when there is none.
\<close>

theorem get_next_activable_mainwin_correct:
  assumes "zrep d L" "concat L = us @ i # vs"
  shows "get_next_activable_mainwin d (int i) = (case find (\<lambda>j. activable (nodes_of d j)) vs of None \<Rightarrow> 0 | Some j \<Rightarrow> int j)"
proof -
  have "length vs < Suc (MAX_NR_ZNODES d)" using order_less(2) [OF assms(1)] assms(2) by simp
  then show ?thesis
    using next_activable_spec [OF assms(1), of "us @ [i]" vs "Suc (MAX_NR_ZNODES d)" "int i"] assms(2)
    by (simp add: get_next_activable_mainwin_def last0_def found_def split: option.splits)
qed

theorem get_next_activable_mainwin_correct_witness:
  "get_next_activable_mainwin ex_desktop (int 8) = int 9"
proof -
  have c: "concat ex_order = [] @ 8 # [9]" "activable (nodes_of ex_desktop 9)" by code_simp+
  from get_next_activable_mainwin_correct [OF ex_rep c(1)] c(2) show ?thesis by simp
qed

text \<open>
  C32: \<open>get_znode_at_point\<close> finds the first visible node in the order whose pixels, its rectangle cut to
  its mask, contain the point, and 0 when there is none; \<open>M\<close> lists the mask rectangles of the nodes.
\<close>

theorem get_znode_at_point_correct:
  assumes "zrep d L" "\<forall>i \<in> handles L. mask_ok (maskrects d) (idx_mask_rect (nodes_of d i)) (M i)"
  shows "get_znode_at_point d x y
    = (case find (\<lambda>i. visible (nodes_of d i) \<and> (x, y) \<in> node_pts (maskrects d) (M i) (nodes_of d i)) (concat L) of
         None \<Rightarrow> 0 | Some i \<Rightarrow> i)"
  using znode_at_point_spec [OF assms(1)] assms(2) by (simp add: found_def)

lemma ex_masks: "mask_ok (maskrects ex_desktop) (idx_mask_rect (nodes_of ex_desktop i)) []"
  by (simp add: mask_ok_def ex_desktop_def ex_nodes_def ex_node_def)

theorem get_znode_at_point_correct_witness:
  "get_znode_at_point ex_desktop 45 45 = 8 \<and> get_znode_at_point ex_desktop 60 60 = 9"
proof -
  have "\<forall>i \<in> handles ex_order. mask_ok (maskrects ex_desktop) (idx_mask_rect (nodes_of ex_desktop i)) ((\<lambda>_. []) i)"
    using ex_masks by simp
  note P = get_znode_at_point_correct [OF ex_rep this]
  have v: "visible (nodes_of ex_desktop 8)" "visible (nodes_of ex_desktop 9)" by code_simp+
  have "concat ex_order = [8, 9]" by code_simp
  moreover have "node_pts (maskrects ex_desktop) [] (nodes_of ex_desktop 8) = rect_pts (SetRect 0 0 50 50)"
    "node_pts (maskrects ex_desktop) [] (nodes_of ex_desktop 9) = rect_pts (SetRect 40 40 80 80)"
    by (simp_all add: node_pts_def ex_desktop_def ex_nodes_def ex_node_def)
  ultimately show ?thesis unfolding P using v by (simp add: SetRect_def)
qed

section \<open>The clipping region\<close>

text \<open>
  C3: when the age of a window's node differs from the one seen last, its clipping region is computed
  anew: for a window that meets the screen it becomes a well-formed region of exactly those pixels of the
  node on the screen that no popup menu and no visible node above it covers. The other regions are kept,
  and the age is remembered.
\<close>

theorem mg_lock_recalc_gcrinfo_correct:
  assumes "zrep d L" "\<forall>j \<in> insert i (handles L). mask_ok (maskrects d) (idx_mask_rect (nodes_of d j)) (M j)"
    and "i \<in> handles L \<or> i = 0 \<and> zn_type (nodes_of d 0) = ZOF_TYPE_DESKTOP"
    and "DoesIntersect (zn_rc (nodes_of d i)) (d_screen d)" "gc_crgn g \<noteq> 1"
    and "ucast (old_zi_age g) \<noteq> zn_age (nodes_of d i)" "mg_lock_recalc_gcrinfo d g i = (g', d')"
  shows "rgn_wf (d_rgns d' (Rgn (gc_crgn g)))
    \<and> rgn_pts (d_rgns d' (Rgn (gc_crgn g))) =
        node_pts (maskrects d) (M i) (nodes_of d i) \<inter> rect_pts (d_screen d)
        - (\<Union>k < nr_popupmenus d. rect_pts (zn_rc (menu_nodes d k)))
        - (\<Union>j \<in> {j \<in> set (takeWhile (\<lambda>j. j \<noteq> i) (concat L)). visible (nodes_of d j)}.
             node_pts (maskrects d) (M j) (nodes_of d j))
    \<and> (\<forall>m. m \<noteq> gc_crgn g \<longrightarrow> m \<noteq> 1 \<longrightarrow> d_rgns d' (Rgn m) = d_rgns d (Rgn m))
    \<and> old_zi_age g' = ucast (zn_age (nodes_of d i)) \<and> gc_age g' = gc_age g + 1"
proof -
  have "(\<Union>j \<in> set (nodes_above L i). seen (maskrects d) M (nodes_of d) j)
      = (\<Union>j \<in> {j \<in> set (takeWhile (\<lambda>j. j \<noteq> i) (concat L)). visible (nodes_of d j)}. node_pts (maskrects d) (M j) (nodes_of d j))"
    unfolding nodes_above_def seen_def by auto
  with recalc_spec [OF assms] show ?thesis by simp
qed

theorem mg_lock_recalc_gcrinfo_correct_witness:
  "case mg_lock_recalc_gcrinfo ex_desktop \<lparr>gc_crgn = 2, gc_age = 0, old_zi_age = 0\<rparr> 9 of (g', d') \<Rightarrow>
     rgn_pts (d_rgns d' (Rgn 2)) = rect_pts (SetRect 40 40 80 80) - rect_pts (SetRect 0 0 50 50)"
proof -
  let ?g = "\<lparr>gc_crgn = 2, gc_age = 0, old_zi_age = 0\<rparr>"
  obtain g' d' where r: "mg_lock_recalc_gcrinfo ex_desktop ?g 9 = (g', d')"
    by (cases "mg_lock_recalc_gcrinfo ex_desktop ?g 9")
  have m: "\<forall>j \<in> insert 9 (handles ex_order). mask_ok (maskrects ex_desktop) (idx_mask_rect (nodes_of ex_desktop j)) ((\<lambda>_. []) j)"
    using ex_masks by simp
  have c: "DoesIntersect (zn_rc (nodes_of ex_desktop 9)) (d_screen ex_desktop)" "gc_crgn ?g \<noteq> 1"
    "ucast (old_zi_age ?g) \<noteq> zn_age (nodes_of ex_desktop 9)" by code_simp+
  have "takeWhile (\<lambda>j. j \<noteq> 9) (concat ex_order) = [8]" "visible (nodes_of ex_desktop 8)" by code_simp+
  moreover have "node_pts (maskrects ex_desktop) [] (nodes_of ex_desktop 8) = rect_pts (SetRect 0 0 50 50)"
    "node_pts (maskrects ex_desktop) [] (nodes_of ex_desktop 9) = rect_pts (SetRect 40 40 80 80)"
    "nr_popupmenus ex_desktop = 0" "d_screen ex_desktop = SetRect 0 0 100 100"
    by (simp_all add: node_pts_def ex_desktop_def ex_nodes_def ex_node_def)
  moreover have "rect_pts (SetRect 40 40 80 80) \<inter> rect_pts (SetRect 0 0 100 100) = rect_pts (SetRect 40 40 80 80)"
    by (auto simp: rect_pts_def SetRect_def)
  moreover have i: "9 \<in> handles ex_order \<or> (9::nat) = 0 \<and> zn_type (nodes_of ex_desktop 0) = ZOF_TYPE_DESKTOP"
    using ex_in(3) by simp
  ultimately show ?thesis
    using mg_lock_recalc_gcrinfo_correct [OF ex_rep m i c r] r by (simp add: conj_commute cong: conj_cong)
qed

end
