(* ===== verification/MG_Charset.thy ===== *)
theory MG_Charset
  imports MG_Prelude
begin

unbundle bit_operations_syntax

text \<open>
  The interface of the charset modules (\<open>src/include/devfont.h\<close>, \<open>src/font/charset.c\<close>,
  \<open>src/font/charset-unicode.c\<close>) and the loops that several of them share. A string is a position in
  memory and a length; the operations read the memory behind the string where the code does. A loop
  that may never end has the value \<open>None\<close> when it does not, and so has a call that fails an assertion
  or writes behind a local array.
\<close>

section \<open>Types\<close>

type_synonym bytes = "nat \<Rightarrow> u8"
type_synonym Uchar16 = "16 word"
type_synonym Uchar32 = "32 word"
type_synonym Achar32 = "32 word"

record WORDINFO =
  wi_len :: nat
  wi_delimiter :: u8
  wi_nr_delimiters :: nat

definition no_word :: WORDINFO where
  "no_word = \<lparr>wi_len = 0, wi_delimiter = 0, wi_nr_delimiters = 0\<rparr>"

definition next_of :: "nat \<Rightarrow> WORDINFO \<Rightarrow> nat" where
  "next_of mstr w = mstr + wi_len w + wi_nr_delimiters w"

record CHARSETOPS =
  nr_chars :: int
  bytes_maxlen_char :: nat
  cs_name :: string
  len_first_char :: "bytes \<Rightarrow> nat \<Rightarrow> int \<Rightarrow> nat"
  get_char_value :: "bytes \<Rightarrow> nat \<Rightarrow> Achar32"
  nr_chars_in_str :: "bytes \<Rightarrow> nat \<Rightarrow> int \<Rightarrow> int option"
  is_this_charset :: "string \<Rightarrow> bool option"
  len_first_substr :: "bytes \<Rightarrow> nat \<Rightarrow> int \<Rightarrow> int"
  get_next_word :: "bytes \<Rightarrow> nat \<Rightarrow> int \<Rightarrow> (WORDINFO \<times> nat option) option"
  pos_first_char :: "bytes \<Rightarrow> nat \<Rightarrow> int \<Rightarrow> int option"
  conv_to_uc32 :: "(Achar32 \<Rightarrow> Uchar32) option"
  conv_from_uc32 :: "Uchar32 \<Rightarrow> bytes \<Rightarrow> nat \<Rightarrow> nat \<times> bytes"

definition is_blank :: "'a::len word \<Rightarrow> bool" where
  "is_blank c \<longleftrightarrow> c = 0x20 \<or> c = 0x09 \<or> c = 0x0A \<or> c = 0x0D"

lemma ucast_u8_back [simp]: "(ucast (ucast (c :: u8) :: Uchar32) :: u8) = c"
  by (rule bit_eqI) (auto simp: bit_ucast_iff bit_imp_le_length)

lemma ucast_u8_inject: "(ucast (c :: u8) :: Uchar32) = ucast d \<longleftrightarrow> c = d"
  by (metis ucast_u8_back)

lemma ucast_u16_inject: "(ucast (c :: Uchar16) :: Uchar32) = ucast d \<longleftrightarrow> c = d"
proof -
  have "(ucast (ucast x :: Uchar32) :: Uchar16) = x" for x :: Uchar16
    by (rule bit_eqI) (auto simp: bit_ucast_iff bit_imp_le_length)
  then show ?thesis by metis
qed

lemma unat_ucast_u16: "unat (ucast (c :: Uchar16) :: Uchar32) = unat c"
proof -
  have "unat c < 2 ^ LENGTH(16)" by (rule unsigned_less)
  then show ?thesis by (simp add: unsigned_ucast_eq take_bit_nat_eq_self)
qed

lemma is_blank_ucast: "is_blank (ucast (c :: u8) :: Uchar32) \<longleftrightarrow> is_blank c"
  using ucast_u8_inject [of c "0x20"] ucast_u8_inject [of c "0x09"] ucast_u8_inject [of c "0x0A"]
    ucast_u8_inject [of c "0x0D"]
  by (simp add: is_blank_def)

definition REAL_ACHAR :: "Achar32 \<Rightarrow> Achar32" where
  "REAL_ACHAR chv = chv AND NOT 0x80000000"

section \<open>Charset names\<close>

definition LEN_LOGFONT_NAME_FIELD :: nat where
  "LEN_LOGFONT_NAME_FIELD = 31"

definition toupper :: "char \<Rightarrow> char" where
  "toupper c = (let n = of_char c :: nat in if 97 \<le> n \<and> n \<le> 122 then char_of (n - 32) else c)"

text \<open>The copy of a name in upper case that every \<open>is_this_charset\<close> starts with. With more than 31
  characters the terminating zero is written behind the array.\<close>

definition upper_name :: "string \<Rightarrow> string option" where
  "upper_name charset = (if length charset > LEN_LOGFONT_NAME_FIELD then None else Some (map toupper charset))"

fun starts_with :: "string \<Rightarrow> string \<Rightarrow> bool" where
  "starts_with s [] = True"
| "starts_with [] (c # cs) = False"
| "starts_with (d # s) (c # cs) = (d = c \<and> starts_with s cs)"

fun strstr :: "string \<Rightarrow> string \<Rightarrow> string option" where
  "strstr s pat = (if starts_with s pat then Some s else case s of [] \<Rightarrow> None | c # s' \<Rightarrow> strstr s' pat)"

definition has :: "string \<Rightarrow> string \<Rightarrow> bool" where
  "has s pat \<longleftrightarrow> strstr s pat \<noteq> None"

definition with_name :: "(string \<Rightarrow> bool) \<Rightarrow> string \<Rightarrow> bool option" where
  "with_name test charset = map_option test (upper_name charset)"

text \<open>\<open>GetCharsetOps\<close> asks the charsets in the order of their table.\<close>

fun first_charset :: "CHARSETOPS list \<Rightarrow> string \<Rightarrow> CHARSETOPS option option" where
  "first_charset [] charset = Some None"
| "first_charset (ops # rest) charset =
     (case is_this_charset ops charset of
        None \<Rightarrow> None
      | Some b \<Rightarrow> if b then Some (Some ops) else first_charset rest charset)"

definition GetCharsetOps :: "CHARSETOPS list \<Rightarrow> string \<Rightarrow> CHARSETOPS option option" where
  "GetCharsetOps Charsets charset = first_charset Charsets charset"

definition GetCharsetOpsEx :: "CHARSETOPS list \<Rightarrow> string \<Rightarrow> CHARSETOPS option option" where
  "GetCharsetOpsEx Charsets charset =
     map_option (\<lambda>name. List.find (\<lambda>ops. cs_name ops = name) Charsets) (upper_name charset)"

text \<open>A table entry is compared by its address, here its position in the table.\<close>

fun compatible_from :: "CHARSETOPS list \<Rightarrow> nat \<Rightarrow> string \<Rightarrow> nat \<Rightarrow> bool option" where
  "compatible_from [] i charset ops = Some False"
| "compatible_from (c # rest) i charset ops =
     (case is_this_charset c charset of
        None \<Rightarrow> None
      | Some b \<Rightarrow> if b \<and> i = ops then Some True else compatible_from rest (i + 1) charset ops)"

definition IsCompatibleCharset :: "CHARSETOPS list \<Rightarrow> string \<Rightarrow> nat \<Rightarrow> bool option" where
  "IsCompatibleCharset Charsets charset ops = compatible_from Charsets 0 charset ops"

section \<open>Loops over the characters of a string\<close>

type_synonym len1 = "bytes \<Rightarrow> nat \<Rightarrow> int \<Rightarrow> nat"

function substr_loop :: "len1 \<Rightarrow> bytes \<Rightarrow> nat \<Rightarrow> int \<Rightarrow> nat \<Rightarrow> nat" where
  "substr_loop len1 m mstr mstrlen sub_len =
     (if mstrlen > 0 then
        let ch_len = len1 m mstr mstrlen
        in if ch_len = 0 then sub_len
           else substr_loop len1 m (mstr + ch_len) (mstrlen - int ch_len) (sub_len + ch_len)
      else sub_len)"
  by auto
termination by (relation "measure (\<lambda>(len1, m, p, l, s). nat l)") auto

declare substr_loop.simps [simp del]

lemma substr_loop_acc: "substr_loop len1 m p l s = s + substr_loop len1 m p l 0"
proof (induction "nat l" arbitrary: p l s rule: less_induct)
  case less
  show ?case
  proof (cases "0 < l \<and> len1 m p l \<noteq> 0")
    case True
    let ?n = "len1 m p l"
    have "nat (l - int ?n) < nat l" using True by simp
    from less [OF this] have
      "substr_loop len1 m (p + ?n) (l - int ?n) t = t + substr_loop len1 m (p + ?n) (l - int ?n) 0" for t .
    from this [of "s + ?n"] this [of ?n] True show ?thesis
      by (subst substr_loop.simps, subst (2) substr_loop.simps) (simp add: Let_def)
  qed (subst substr_loop.simps, subst (2) substr_loop.simps, auto simp: Let_def)
qed

text \<open>\<open>left\<close> may stay the same for ever.\<close>

partial_function (option) nr_chars_loop :: "len1 \<Rightarrow> bytes \<Rightarrow> nat \<Rightarrow> int \<Rightarrow> int \<Rightarrow> int option" where
  [code]: "nr_chars_loop len1 m mstr left n =
     (if left \<ge> 0 then
        let charlen = len1 m mstr left
        in nr_chars_loop len1 m (mstr + charlen) (left - int charlen) (if charlen > 0 then n + 1 else n)
      else Some n)"

text \<open>The loop of the \<open>get_next_word\<close> of the three Unicode charsets: \<open>key\<close> is what the \<open>switch\<close>
  looks at, \<open>unit\<close> what one delimiter adds to the count.\<close>

function word_loop :: "len1 \<Rightarrow> (bytes \<Rightarrow> nat \<Rightarrow> Achar32) \<Rightarrow> (bytes \<Rightarrow> nat \<Rightarrow> Uchar32) \<Rightarrow> (nat \<Rightarrow> nat)
    \<Rightarrow> bytes \<Rightarrow> nat \<Rightarrow> int \<Rightarrow> WORDINFO \<Rightarrow> WORDINFO" where
  "word_loop len1 value key unit m mchar mstrlen w =
     (if mstrlen > 0 then
        let ch_len = len1 m mchar mstrlen; wc = value m mchar; c = key m mchar
        in if ch_len = 0 then w
           else if wc > 0x0FFF then (if wi_len w \<noteq> 0 then w else w\<lparr>wi_len := ch_len\<rparr>)
           else if is_blank c then
             if wi_delimiter w = 0
             then word_loop len1 value key unit m (mchar + ch_len) (mstrlen - int ch_len)
                    (w\<lparr>wi_delimiter := ucast c, wi_nr_delimiters := wi_nr_delimiters w + unit ch_len\<rparr>)
             else if wi_delimiter w = ucast c
             then word_loop len1 value key unit m (mchar + ch_len) (mstrlen - int ch_len)
                    (w\<lparr>wi_nr_delimiters := wi_nr_delimiters w + unit ch_len\<rparr>)
             else w
           else if wi_delimiter w \<noteq> 0 then w
           else word_loop len1 value key unit m (mchar + ch_len) (mstrlen - int ch_len)
                  (w\<lparr>wi_len := wi_len w + ch_len\<rparr>)
      else w)"
  by auto
termination by (relation "measure (\<lambda>(len1, v, k, u, m, p, l, w). nat l)") auto

declare word_loop.simps [simp del]

definition next_word :: "len1 \<Rightarrow> (bytes \<Rightarrow> nat \<Rightarrow> Achar32) \<Rightarrow> (bytes \<Rightarrow> nat \<Rightarrow> Uchar32) \<Rightarrow> (nat \<Rightarrow> nat)
    \<Rightarrow> bytes \<Rightarrow> nat \<Rightarrow> int \<Rightarrow> WORDINFO \<times> nat option" where
  "next_word len1 value key unit m mstr mstrlen =
     (if mstrlen = 0 then (no_word, None)
      else let w = word_loop len1 value key unit m mstr mstrlen no_word in (w, Some (next_of mstr w)))"

section \<open>Charsets whose characters are found without looking behind the string\<close>

text \<open>\<open>chars_at\<close>: the characters of the string from \<open>p\<close> to \<open>e\<close> have the lengths \<open>ns\<close>.\<close>

fun chars_at :: "len1 \<Rightarrow> bytes \<Rightarrow> nat \<Rightarrow> nat list \<Rightarrow> nat \<Rightarrow> bool" where
  "chars_at len1 m p [] e \<longleftrightarrow> p = e"
| "chars_at len1 m p (n # ns) e \<longleftrightarrow> 0 < n \<and> len1 m p (int n) = n \<and> chars_at len1 m (p + n) ns e"

locale stable_lengths =
  fixes len1 :: len1
  assumes longer: "0 < len1 m p l \<Longrightarrow> 0 < l \<Longrightarrow> int (len1 m p l) \<le> l' \<Longrightarrow> len1 m p l' = len1 m p l"
begin

lemma chars_at_le: "chars_at len1 m p ns e \<Longrightarrow> e = p + sum_list ns"
  by (induction ns arbitrary: p) (fastforce simp: add.assoc)+

lemma chars_at_append:
  "chars_at len1 m p (ns @ ks) e \<longleftrightarrow> chars_at len1 m p ns (p + sum_list ns) \<and> chars_at len1 m (p + sum_list ns) ks e"
  by (induction ns arbitrary: p) (auto simp: add.assoc)

lemma first_char: "chars_at len1 m p (n # ns) e \<Longrightarrow> int n \<le> l \<Longrightarrow> len1 m p l = n"
  using longer [of m p "int n" l] by simp

text \<open>A string of whole characters is scanned to its end.\<close>

lemma substr_whole:
  "chars_at len1 m p ns e \<Longrightarrow> l = int e - int p \<Longrightarrow> substr_loop len1 m p l s = s + sum_list ns"
proof (induction ns arbitrary: p l s)
  case Nil
  then show ?case by (subst substr_loop.simps) simp
next
  case (Cons n ns)
  from chars_at_le [OF Cons.prems(1)] Cons.prems(2) have l: "l = int n + int (sum_list ns)" by simp
  with first_char [OF Cons.prems(1), of l] have "len1 m p l = n" by simp
  with Cons.prems l Cons.IH [of "p + n" "l - int n" "s + n"] show ?case
    by (subst substr_loop.simps) (auto simp: Let_def algebra_simps)
qed

text \<open>Counting does not stop at the end: the byte behind the string is taken for one more character.\<close>

lemma nr_chars_reaches_end:
  "chars_at len1 m p ns e \<Longrightarrow> l = int e - int p \<Longrightarrow>
   nr_chars_loop len1 m p l n = nr_chars_loop len1 m e 0 (n + int (length ns))"
proof (induction ns arbitrary: p l n)
  case (Cons k ns)
  from chars_at_le [OF Cons.prems(1)] Cons.prems(2) have l: "l = int k + int (sum_list ns)" by simp
  with first_char [OF Cons.prems(1), of l] have "len1 m p l = k" by simp
  with Cons.prems l Cons.IH [of "p + k" "l - int k" "n + 1"] show ?case
    by (subst nr_chars_loop.simps) (auto simp: Let_def algebra_simps)
qed simp

end

locale char_lengths = stable_lengths +
  assumes within: "0 < l \<Longrightarrow> int (len1 m p l) \<le> l"
begin

text \<open>The scan stops exactly behind the longest prefix made of whole characters.\<close>

lemma substr_prefix:
  "\<exists>ns. substr_loop len1 m p l s = s + sum_list ns \<and> chars_at len1 m p ns (p + sum_list ns)
     \<and> int (sum_list ns) \<le> max 0 l
     \<and> (int (sum_list ns) < l \<longrightarrow> len1 m (p + sum_list ns) (l - int (sum_list ns)) = 0)"
proof (induction "nat l" arbitrary: p l s rule: less_induct)
  case less
  show ?case
  proof (cases "0 < l \<and> len1 m p l \<noteq> 0")
    case False
    then have "substr_loop len1 m p l s = s" by (subst substr_loop.simps) (auto simp: Let_def)
    with False show ?thesis by (intro exI [of _ "[]"]) auto
  next
    case True
    let ?n = "len1 m p l"
    have le: "int ?n \<le> l" using True by (intro within) simp
    from True have e: "substr_loop len1 m p l s = substr_loop len1 m (p + ?n) (l - int ?n) (s + ?n)"
      by (subst substr_loop.simps) (auto simp: Let_def)
    have "nat (l - int ?n) < nat l" using True by simp
    from less [OF this, of "p + ?n" "s + ?n"] obtain ns where ns:
      "substr_loop len1 m (p + ?n) (l - int ?n) (s + ?n) = s + ?n + sum_list ns"
      "chars_at len1 m (p + ?n) ns (p + ?n + sum_list ns)" "int (sum_list ns) \<le> max 0 (l - int ?n)"
      "int (sum_list ns) < l - int ?n \<longrightarrow> len1 m (p + ?n + sum_list ns) (l - int ?n - int (sum_list ns)) = 0"
      by blast
    have "len1 m p (int ?n) = ?n" using True by (intro longer) simp_all
    with True ns e le show ?thesis
      by (intro exI [of _ "?n # ns"]) (simp add: add.assoc diff_diff_eq)
  qed
qed

end

lemma nr_chars_loop_stuck:
  assumes "0 \<le> l" "len1 m p l = 0"
  shows "nr_chars_loop len1 m p l n = None"
proof -
  have "nr_chars_loop f m' q k i = Some r \<Longrightarrow> f = len1 \<and> m' = m \<and> q = p \<and> k = l \<Longrightarrow> False" for f m' q k i r
  proof (induction rule: nr_chars_loop.raw_induct [rotated 1, consumes 1])
    case (1 g f m' q k i r)
    then show ?case using assms by (auto simp: Let_def)
  qed
  then show ?thesis by (cases "nr_chars_loop len1 m p l n") auto
qed

section \<open>Words\<close>

fun keys_at :: "(Uchar32 \<Rightarrow> bool) \<Rightarrow> (bytes \<Rightarrow> nat \<Rightarrow> Uchar32) \<Rightarrow> bytes \<Rightarrow> nat \<Rightarrow> nat list \<Rightarrow> bool" where
  "keys_at P key m p [] \<longleftrightarrow> True"
| "keys_at P key m p (n # ns) \<longleftrightarrow> P (key m p) \<and> keys_at P key m (p + n) ns"

text \<open>What \<open>get_next_word\<close> found: whole characters that are no blanks, and behind them blanks that are
  all the same.\<close>

definition word_found :: "len1 \<Rightarrow> (bytes \<Rightarrow> nat \<Rightarrow> Uchar32) \<Rightarrow> bytes \<Rightarrow> nat \<Rightarrow> nat \<Rightarrow> WORDINFO \<Rightarrow> nat list \<Rightarrow> nat list \<Rightarrow> bool" where
  "word_found len1 key m p n0 w ns ks \<longleftrightarrow>
     wi_len w = n0 + sum_list ns \<and> wi_nr_delimiters w = sum_list ks
     \<and> chars_at len1 m p ns (p + sum_list ns) \<and> keys_at (\<lambda>k. \<not> is_blank k) key m p ns
     \<and> chars_at len1 m (p + sum_list ns) ks (p + sum_list ns + sum_list ks)
     \<and> keys_at (\<lambda>k. is_blank k \<and> ucast k = wi_delimiter w) key m (p + sum_list ns) ks"

locale word_chars = char_lengths len1 for len1 :: len1 +
  fixes "value" :: "bytes \<Rightarrow> nat \<Rightarrow> Achar32" and key :: "bytes \<Rightarrow> nat \<Rightarrow> Uchar32" and unit :: "nat \<Rightarrow> nat"
  assumes blank_unit: "is_blank (key m p) \<Longrightarrow> value m p \<le> 0x0FFF \<Longrightarrow> 0 < len1 m p l \<Longrightarrow> unit (len1 m p l) = len1 m p l"
begin

lemma one_char: "0 < l \<Longrightarrow> len1 m p l \<noteq> 0 \<Longrightarrow> len1 m p (int (len1 m p l)) = len1 m p l"
  using longer [of m p l "int (len1 m p l)"] by simp

lemma delimiters_phase:
  assumes "wi_delimiter w \<noteq> 0" "wi_len w \<noteq> 0"
  shows "\<exists>ks. word_loop len1 value key unit m p l w = w\<lparr>wi_nr_delimiters := wi_nr_delimiters w + sum_list ks\<rparr>
    \<and> chars_at len1 m p ks (p + sum_list ks) \<and> keys_at (\<lambda>k. is_blank k \<and> ucast k = wi_delimiter w) key m p ks
    \<and> int (sum_list ks) \<le> max 0 l"
  using assms
proof (induction "nat l" arbitrary: p l w rule: less_induct)
  case less
  let ?n = "len1 m p l"
  show ?case
  proof (cases "0 < l \<and> ?n \<noteq> 0 \<and> value m p \<le> 0x0FFF \<and> is_blank (key m p) \<and> wi_delimiter w = ucast (key m p)")
    case False
    then have "word_loop len1 value key unit m p l w = w"
      using less.prems by (subst word_loop.simps) (auto simp: Let_def not_le)
    then show ?thesis by (intro exI [of _ "[]"]) simp
  next
    case True
    let ?w = "w\<lparr>wi_nr_delimiters := wi_nr_delimiters w + unit ?n\<rparr>"
    have e: "word_loop len1 value key unit m p l w = word_loop len1 value key unit m (p + ?n) (l - int ?n) ?w"
      using True less.prems by (subst word_loop.simps) (auto simp: Let_def not_less [symmetric])
    have u: "unit ?n = ?n" using True by (intro blank_unit) auto
    have lt: "nat (l - int ?n) < nat l" using True by simp
    have le: "int ?n \<le> l" using True by (intro within) simp
    from less.hyps [OF lt, of ?w "p + ?n"] less.prems obtain ks where ks:
      "word_loop len1 value key unit m (p + ?n) (l - int ?n) ?w = ?w\<lparr>wi_nr_delimiters := wi_nr_delimiters ?w + sum_list ks\<rparr>"
      "chars_at len1 m (p + ?n) ks (p + ?n + sum_list ks)"
      "keys_at (\<lambda>k. is_blank k \<and> ucast k = wi_delimiter w) key m (p + ?n) ks" "int (sum_list ks) \<le> max 0 (l - int ?n)"
      by auto
    show ?thesis
      using True e ks u le one_char [of l m p] by (intro exI [of _ "?n # ks"]) (simp add: add.assoc)
  qed
qed

lemma word_phase:
  assumes "wi_delimiter w = 0" "wi_nr_delimiters w = 0" "wi_len w = 0 \<Longrightarrow> \<not> is_blank (key m p)"
  shows "\<exists>ns ks. word_found len1 key m p (wi_len w) (word_loop len1 value key unit m p l w) ns ks
    \<and> int (sum_list ns + sum_list ks) \<le> max 0 l
    \<and> (0 < l \<and> len1 m p l \<noteq> 0 \<and> wi_len w = 0 \<longrightarrow> ns \<noteq> [])"
  using assms
proof (induction "nat l" arbitrary: p l w rule: less_induct)
  case less
  let ?n = "len1 m p l" and ?r = "word_loop len1 value key unit m p l w"
  consider (stop) "\<not> (0 < l \<and> ?n \<noteq> 0)" | (big) "0 < l" "?n \<noteq> 0" "\<not> value m p \<le> 0x0FFF"
    | (blank) "0 < l" "?n \<noteq> 0" "value m p \<le> 0x0FFF" "is_blank (key m p)"
    | (char) "0 < l" "?n \<noteq> 0" "value m p \<le> 0x0FFF" "\<not> is_blank (key m p)"
    by blast
  then show ?case
  proof cases
    case stop
    then have "?r = w" by (subst word_loop.simps) (auto simp: Let_def)
    with stop less.prems show ?thesis by (intro exI [of _ "[]"]) (auto simp: word_found_def)
  next
    case big
    have le: "int ?n \<le> l" by (rule within [OF big(1)])
    have r: "?r = (if wi_len w \<noteq> 0 then w else w\<lparr>wi_len := ?n\<rparr>)"
      using big by (subst word_loop.simps) (auto simp: Let_def)
    show ?thesis
    proof (cases "wi_len w = 0")
      case True
      with r less.prems le big one_char [of l m p] show ?thesis
        by (intro exI [of _ "[?n]"] exI [of _ "[]"]) (simp add: word_found_def)
    next
      case False
      with r less.prems show ?thesis by (intro exI [of _ "[]"]) (simp add: word_found_def)
    qed
  next
    case blank
    with less.prems(3) have nz: "wi_len w \<noteq> 0" by blast
    let ?w = "w\<lparr>wi_delimiter := ucast (key m p), wi_nr_delimiters := ?n\<rparr>"
    have u: "unit ?n = ?n" using blank by (intro blank_unit) auto
    have d: "(ucast (key m p) :: u8) \<noteq> 0" using blank(4) by (auto simp: is_blank_def)
    have e: "?r = word_loop len1 value key unit m (p + ?n) (l - int ?n) ?w"
      using blank less.prems u by (subst word_loop.simps) (auto simp: Let_def not_less [symmetric])
    have le: "int ?n \<le> l" by (rule within [OF blank(1)])
    from delimiters_phase [of ?w m "p + ?n" "l - int ?n"] nz d obtain ks where ks:
      "word_loop len1 value key unit m (p + ?n) (l - int ?n) ?w = ?w\<lparr>wi_nr_delimiters := ?n + sum_list ks\<rparr>"
      "chars_at len1 m (p + ?n) ks (p + ?n + sum_list ks)"
      "keys_at (\<lambda>k. is_blank k \<and> ucast k = wi_delimiter ?w) key m (p + ?n) ks" "int (sum_list ks) \<le> max 0 (l - int ?n)"
      by auto
    show ?thesis
      using blank e ks le nz one_char [of l m p]
      by (intro exI [of _ "[]"] exI [of _ "?n # ks"]) (simp add: word_found_def add.assoc)
  next
    case char
    let ?w = "w\<lparr>wi_len := wi_len w + ?n\<rparr>"
    have e: "?r = word_loop len1 value key unit m (p + ?n) (l - int ?n) ?w"
      using char less.prems by (subst word_loop.simps) (auto simp: Let_def not_less [symmetric])
    have lt: "nat (l - int ?n) < nat l" using char by simp
    have le: "int ?n \<le> l" by (rule within [OF char(1)])
    from less.hyps [OF lt, of ?w "p + ?n"] less.prems char(2) obtain ns ks where i:
      "word_found len1 key m (p + ?n) (wi_len w + ?n) (word_loop len1 value key unit m (p + ?n) (l - int ?n) ?w) ns ks"
      "int (sum_list ns + sum_list ks) \<le> max 0 (l - int ?n)"
      by auto
    show ?thesis
      using char e i le one_char [of l m p]
      by (intro exI [of _ "?n # ns"] exI [of _ ks]) (simp add: word_found_def add.assoc)
  qed
qed

lemma next_word_found:
  assumes "\<not> is_blank (key m p)" "l \<noteq> 0" "next_word len1 value key unit m p l = (w, q)"
  shows "\<exists>ns ks. word_found len1 key m p 0 w ns ks \<and> q = Some (p + sum_list ns + sum_list ks)
    \<and> int (sum_list ns + sum_list ks) \<le> max 0 l \<and> (0 < l \<and> len1 m p l \<noteq> 0 \<longrightarrow> ns \<noteq> [])"
proof -
  from assms(2,3) have w: "w = word_loop len1 value key unit m p l no_word" "q = Some (next_of p w)"
    by (auto simp: next_word_def Let_def)
  from word_phase [of no_word m p l] assms(1) obtain ns ks where
    "word_found len1 key m p 0 w ns ks" "int (sum_list ns + sum_list ks) \<le> max 0 l"
    "0 < l \<and> len1 m p l \<noteq> 0 \<longrightarrow> ns \<noteq> []"
    unfolding w(1) by (auto simp: no_word_def)
  then show ?thesis using w(2) by (auto simp: word_found_def next_of_def)
qed

end


end
