(* ===== verification/MG_SingleByte.thy ===== *)
theory MG_SingleByte
  imports MG_Charset
begin

unbundle bit_operations_syntax

text \<open>
  The single-byte charsets of \<open>src/font/charset.c\<close>: US-ASCII, ISO 8859 parts 1 to 5, 7 to 11 and 13 to 16, and
  the single-byte JIS X 0201 of Shift-JIS. A conversion to Unicode is a function of the code; a conversion
  from Unicode gives the byte stored, or None where the code returns 0 and stores nothing. Part 6 is in
  \<open>charset-arabic.c\<close> and not modelled.
\<close>

section \<open>Operations all single-byte charsets share\<close>

definition sb_len_first_char :: "bytes \<Rightarrow> nat \<Rightarrow> int \<Rightarrow> nat" where
  "sb_len_first_char m mstr len = (if len < 1 then 0 else if m mstr \<noteq> 0 then 1 else 0)"

definition sb_get_char_value :: "bytes \<Rightarrow> nat \<Rightarrow> Achar32" where
  "sb_get_char_value m cur = ucast (m cur)"

definition sb_char_type :: "Achar32 \<Rightarrow> nat" where
  "sb_char_type chv =
     (let ch_type = (if chv = 0 then 0x0001 else if chv = 7 then 0x0200 else if chv = 8 then 0x0300
        else if chv = 9 then 0x0400 else if chv = 10 then 0x0500 else if chv = 11 then 0x0600
        else if chv = 12 then 0x0700 else if chv = 13 then 0x0800 else if chv = 0x20 then 0x0A00 else 0)
      in if ch_type = 0 then if chv < 7 then 0x0100 else if chv < 0x20 then 0x0900 else 0x0C00
         else ch_type)"

definition sb_nr_chars_in_str :: "bytes \<Rightarrow> nat \<Rightarrow> int \<Rightarrow> int option" where
  "sb_nr_chars_in_str m mstr mstrlen = Some mstrlen"

definition sb_len_first_substr :: "bytes \<Rightarrow> nat \<Rightarrow> int \<Rightarrow> int" where
  "sb_len_first_substr m mstr mstrlen = mstrlen"

definition sb_pos_first_char :: "bytes \<Rightarrow> nat \<Rightarrow> int \<Rightarrow> int option" where
  "sb_pos_first_char m mstr mstrlen = Some 0"

text \<open>The loop of \<open>sb_get_next_word\<close> over the \<open>k\<close> bytes from \<open>p\<close>. A \<open>break\<close> in the \<open>switch\<close> goes on with the
  next byte.\<close>

fun sb_word_loop :: "bytes \<Rightarrow> nat \<Rightarrow> nat \<Rightarrow> WORDINFO \<Rightarrow> WORDINFO" where
  "sb_word_loop m p 0 w = w"
| "sb_word_loop m p (Suc k) w =
     (if m p > 127 then
        if wi_len w > 0 then w\<lparr>wi_delimiter := m p, wi_nr_delimiters := wi_nr_delimiters w + 1\<rparr>
        else w\<lparr>wi_len := wi_len w + 1, wi_delimiter := 0x20, wi_nr_delimiters := wi_nr_delimiters w + 1\<rparr>
      else if is_blank (m p) then
        if wi_delimiter w = 0 then
          sb_word_loop m (p + 1) k (w\<lparr>wi_delimiter := m p, wi_nr_delimiters := wi_nr_delimiters w + 1\<rparr>)
        else if wi_delimiter w = m p then
          sb_word_loop m (p + 1) k (w\<lparr>wi_nr_delimiters := wi_nr_delimiters w + 1\<rparr>)
        else w
      else if wi_delimiter w \<noteq> 0 then sb_word_loop m (p + 1) k w
      else sb_word_loop m (p + 1) k (w\<lparr>wi_len := wi_len w + 1\<rparr>))"

definition sb_get_next_word :: "bytes \<Rightarrow> nat \<Rightarrow> int \<Rightarrow> (WORDINFO \<times> nat option) option" where
  "sb_get_next_word m mstr mstrlen =
     Some (if mstrlen = 0 then (no_word, None)
           else let w = sb_word_loop m mstr (nat mstrlen) no_word in (w, Some (next_of mstr w)))"

fun iso8859_8_word_loop :: "bytes \<Rightarrow> nat \<Rightarrow> nat \<Rightarrow> WORDINFO \<Rightarrow> WORDINFO" where
  "iso8859_8_word_loop m p 0 w = w"
| "iso8859_8_word_loop m p (Suc k) w =
     (if m p = 0xA0 \<or> is_blank (m p) then
        if wi_delimiter w = 0 then
          iso8859_8_word_loop m (p + 1) k (w\<lparr>wi_delimiter := m p, wi_nr_delimiters := wi_nr_delimiters w + 1\<rparr>)
        else if wi_delimiter w = m p then
          iso8859_8_word_loop m (p + 1) k (w\<lparr>wi_nr_delimiters := wi_nr_delimiters w + 1\<rparr>)
        else w
      else if wi_delimiter w \<noteq> 0 then iso8859_8_word_loop m (p + 1) k w
      else iso8859_8_word_loop m (p + 1) k (w\<lparr>wi_len := wi_len w + 1\<rparr>))"

definition iso8859_8_get_next_word :: "bytes \<Rightarrow> nat \<Rightarrow> int \<Rightarrow> (WORDINFO \<times> nat option) option" where
  "iso8859_8_get_next_word m mstr mstrlen =
     Some (if mstrlen = 0 then (no_word, None)
           else let w = iso8859_8_word_loop m mstr (nat mstrlen) no_word in (w, Some (next_of mstr w)))"

section \<open>Conversions by a table\<close>

definition table_conv_to_uc32 :: "Uchar16 list \<Rightarrow> Achar32 \<Rightarrow> Uchar32" where
  "table_conv_to_uc32 tab chv = (if chv < 0xA1 then chv else ucast (tab ! unat (chv - 0xA1)))"

fun table_index :: "Uchar16 list \<Rightarrow> Uchar32 \<Rightarrow> u8 \<Rightarrow> u8 option" where
  "table_index [] wc c = None"
| "table_index (u # tab) wc c = (if ucast u = wc then Some c else table_index tab wc (c + 1))"

definition table_conv_from_uc32 :: "Uchar16 list \<Rightarrow> Uchar32 \<Rightarrow> u8 option" where
  "table_conv_from_uc32 tab wc = (if wc < 0xA1 then Some (ucast wc) else table_index tab wc 0xA1)"

definition iso8859_2_unicode_map :: "Uchar16 list" where
  "iso8859_2_unicode_map = [
   0x0104, 0x02D8, 0x0141, 0x00A4, 0x013D, 0x015A, 0x00A7, 0x00A8, 0x0160, 0x015E,
   0x0164, 0x0179, 0x00AD, 0x017D, 0x017B, 0x00B0, 0x0105, 0x02DB, 0x0142, 0x00B4,
   0x013E, 0x015B, 0x02C7, 0x00B8, 0x0161, 0x015F, 0x0165, 0x017A, 0x02DD, 0x017E,
   0x017C, 0x0154, 0x00C1, 0x00C2, 0x0102, 0x00C4, 0x0139, 0x0106, 0x00C7, 0x010C,
   0x00C9, 0x0118, 0x00CB, 0x011A, 0x00CD, 0x00CE, 0x010E, 0x0110, 0x0143, 0x0147,
   0x00D3, 0x00D4, 0x0150, 0x00D6, 0x00D7, 0x0158, 0x016E, 0x00DA, 0x0170, 0x00DC,
   0x00DD, 0x0162, 0x00DF, 0x0155, 0x00E1, 0x00E2, 0x0103, 0x00E4, 0x013A, 0x0107,
   0x00E7, 0x010D, 0x00E9, 0x0119, 0x00EB, 0x011B, 0x00ED, 0x00EE, 0x010F, 0x0111,
   0x0144, 0x0148, 0x00F3, 0x00F4, 0x0151, 0x00F6, 0x00F7, 0x0159, 0x016F, 0x00FA,
   0x0171, 0x00FC, 0x00FD, 0x0163, 0x02D9]"

definition iso8859_3_unicode_map :: "Uchar16 list" where
  "iso8859_3_unicode_map = [
   0x0126, 0x02D8, 0x00A3, 0x00A4, 0x00A5, 0x0124, 0x00A7, 0x00A8, 0x0130, 0x015E,
   0x011E, 0x0134, 0x00AD, 0x00AE, 0x017B, 0x00B0, 0x0127, 0x00B2, 0x00B3, 0x00B4,
   0x00B5, 0x0125, 0x00B7, 0x00B8, 0x0131, 0x015F, 0x011F, 0x0135, 0x00BD, 0x00BE,
   0x017C, 0x00C0, 0x00C1, 0x00C2, 0x00C3, 0x00C4, 0x010A, 0x0108, 0x00C7, 0x00C8,
   0x00C9, 0x00CA, 0x00CB, 0x00CC, 0x00CD, 0x00CE, 0x00CF, 0x00D0, 0x00D1, 0x00D2,
   0x00D3, 0x00D4, 0x0120, 0x00D6, 0x00D7, 0x011C, 0x00D9, 0x00DA, 0x00DB, 0x00DC,
   0x016C, 0x015C, 0x00DF, 0x00E0, 0x00E1, 0x00E2, 0x00E3, 0x00E4, 0x010B, 0x0109,
   0x00E7, 0x00E8, 0x00E9, 0x00EA, 0x00EB, 0x00EC, 0x00ED, 0x00EE, 0x00EF, 0x00F0,
   0x00F1, 0x00F2, 0x00F3, 0x00F4, 0x0121, 0x00F6, 0x00F7, 0x011D, 0x00F9, 0x00FA,
   0x00FB, 0x00FC, 0x016D, 0x015D, 0x02D9]"

definition iso8859_4_unicode_map :: "Uchar16 list" where
  "iso8859_4_unicode_map = [
   0x0104, 0x0138, 0x0156, 0x00A4, 0x0128, 0x013B, 0x00A7, 0x00A8, 0x0160, 0x0112,
   0x0122, 0x0166, 0x00AD, 0x017D, 0x00AF, 0x00B0, 0x0105, 0x02DB, 0x0157, 0x00B4,
   0x0129, 0x013C, 0x02C7, 0x00B8, 0x0161, 0x0113, 0x0123, 0x0167, 0x014A, 0x017E,
   0x014B, 0x0100, 0x00C1, 0x00C2, 0x00C3, 0x00C4, 0x00C5, 0x00C6, 0x012E, 0x010C,
   0x00C9, 0x0118, 0x00CB, 0x0116, 0x00CD, 0x00CE, 0x012A, 0x0110, 0x0145, 0x014C,
   0x0136, 0x00D4, 0x00D5, 0x00D6, 0x00D7, 0x00D8, 0x0172, 0x00DA, 0x00DB, 0x00DC,
   0x0168, 0x016A, 0x00DF, 0x0101, 0x00E1, 0x00E2, 0x00E3, 0x00E4, 0x00E5, 0x00E6,
   0x012F, 0x010D, 0x00E9, 0x0119, 0x00EB, 0x0117, 0x00ED, 0x00EE, 0x012B, 0x0111,
   0x0146, 0x014D, 0x0137, 0x00F4, 0x00F5, 0x00F6, 0x00F7, 0x00F8, 0x0173, 0x00FA,
   0x00FB, 0x00FC, 0x0169, 0x016B, 0x02D9]"

definition iso8859_10_unicode_map :: "Uchar16 list" where
  "iso8859_10_unicode_map = [
   0x0104, 0x0112, 0x0122, 0x012A, 0x0128, 0x0136, 0x00A7, 0x013B, 0x0110, 0x0160,
   0x0166, 0x017D, 0x00AD, 0x016A, 0x014A, 0x00B0, 0x0105, 0x0113, 0x0123, 0x012B,
   0x0129, 0x0137, 0x00B7, 0x013C, 0x0111, 0x0161, 0x0167, 0x017E, 0x2015, 0x016B,
   0x014B, 0x0100, 0x00C1, 0x00C2, 0x00C3, 0x00C4, 0x00C5, 0x00C6, 0x012E, 0x010C,
   0x00C9, 0x0118, 0x00CB, 0x0116, 0x00CD, 0x00CE, 0x00CF, 0x00D0, 0x0145, 0x014C,
   0x00D3, 0x00D4, 0x00D5, 0x00D6, 0x0168, 0x00D8, 0x0172, 0x00DA, 0x00DB, 0x00DC,
   0x00DD, 0x00DE, 0x00DF, 0x0101, 0x00E1, 0x00E2, 0x00E3, 0x00E4, 0x00E5, 0x00E6,
   0x012F, 0x010D, 0x00E9, 0x0119, 0x00EB, 0x0117, 0x00ED, 0x00EE, 0x00EF, 0x00F0,
   0x0146, 0x014D, 0x00F3, 0x00F4, 0x00F5, 0x00F6, 0x0169, 0x00F8, 0x0173, 0x00FA,
   0x00FB, 0x00FC, 0x00FD, 0x00FE, 0x0138]"

definition iso8859_11_unicode_map :: "Uchar16 list" where
  "iso8859_11_unicode_map = [
   0x0E01, 0x0E02, 0x0E03, 0x0E04, 0x0E05, 0x0E06, 0x0E07, 0x0E08, 0x0E09, 0x0E0A,
   0x0E0B, 0x0E0C, 0x0E0D, 0x0E0E, 0x0E0F, 0x0E10, 0x0E11, 0x0E12, 0x0E13, 0x0E14,
   0x0E15, 0x0E16, 0x0E17, 0x0E18, 0x0E19, 0x0E1A, 0x0E1B, 0x0E1C, 0x0E1D, 0x0E1E,
   0x0E1F, 0x0E20, 0x0E21, 0x0E22, 0x0E23, 0x0E24, 0x0E25, 0x0E26, 0x0E27, 0x0E28,
   0x0E29, 0x0E2A, 0x0E2B, 0x0E2C, 0x0E2D, 0x0E2E, 0x0E2F, 0x0E30, 0x0E31, 0x0E32,
   0x0E33, 0x0E34, 0x0E35, 0x0E36, 0x0E37, 0x0E38, 0x0E39, 0x0E3A, 0x00DB, 0x00DC,
   0x00DD, 0x00DE, 0x0E3F, 0x0E40, 0x0E41, 0x0E42, 0x0E43, 0x0E44, 0x0E45, 0x0E46,
   0x0E47, 0x0E48, 0x0E49, 0x0E4A, 0x0E4B, 0x0E4C, 0x0E4D, 0x0E4E, 0x0E4F, 0x0E50,
   0x0E51, 0x0E52, 0x0E53, 0x0E54, 0x0E55, 0x0E56, 0x0E57, 0x0E58, 0x0E59, 0x0E5A,
   0x0E5B, 0x00FC, 0x00FD, 0x00FE, 0x00FF]"

definition iso8859_13_unicode_map :: "Uchar16 list" where
  "iso8859_13_unicode_map = [
   0x201D, 0x00A2, 0x00A3, 0x00A4, 0x201E, 0x00A6, 0x00A7, 0x00D8, 0x00A9, 0x0156,
   0x00AB, 0x00AC, 0x00AD, 0x00AE, 0x00C6, 0x00B0, 0x00B1, 0x00B2, 0x00B3, 0x201C,
   0x00B5, 0x00B6, 0x00B7, 0x00F8, 0x00B9, 0x0157, 0x00BB, 0x00BC, 0x00BD, 0x00BE,
   0x00E6, 0x0104, 0x012E, 0x0100, 0x0106, 0x00C4, 0x00C5, 0x0118, 0x0112, 0x010C,
   0x00C9, 0x0179, 0x0116, 0x0122, 0x0136, 0x012A, 0x013B, 0x0160, 0x0143, 0x0145,
   0x00D3, 0x014C, 0x00D5, 0x00D6, 0x00D7, 0x0172, 0x0141, 0x015A, 0x016A, 0x00DC,
   0x017B, 0x017D, 0x00DF, 0x0105, 0x012F, 0x0101, 0x0107, 0x00E4, 0x00E5, 0x0119,
   0x0113, 0x010D, 0x00E9, 0x017A, 0x0117, 0x0123, 0x0137, 0x012B, 0x013C, 0x0161,
   0x0144, 0x0146, 0x00F3, 0x014D, 0x00F5, 0x00F6, 0x00F7, 0x0173, 0x0142, 0x015B,
   0x016B, 0x00FC, 0x017C, 0x017E, 0x2019]"

definition iso8859_14_unicode_map :: "Uchar16 list" where
  "iso8859_14_unicode_map = [
   0x1E02, 0x1E03, 0x00A3, 0x010A, 0x010B, 0x1E0A, 0x00A7, 0x1E80, 0x00A9, 0x1E82,
   0x1E0B, 0x1EF2, 0x00AD, 0x00AE, 0x0178, 0x1E1E, 0x1E1F, 0x0120, 0x0121, 0x1E40,
   0x1E41, 0x00B6, 0x1E56, 0x1E81, 0x1E57, 0x1E83, 0x1E60, 0x1EF3, 0x1E84, 0x1E85,
   0x1E61, 0x00C0, 0x00C1, 0x00C2, 0x00C3, 0x00C4, 0x00C5, 0x00C6, 0x00C7, 0x00C8,
   0x00C9, 0x00CA, 0x00CB, 0x00CC, 0x00CD, 0x00CE, 0x00CF, 0x0174, 0x00D1, 0x00D2,
   0x00D3, 0x00D4, 0x00D5, 0x00D6, 0x1E6A, 0x00D8, 0x00D9, 0x00DA, 0x00DB, 0x00DC,
   0x00DD, 0x0176, 0x00DF, 0x00E0, 0x00E1, 0x00E2, 0x00E3, 0x00E4, 0x00E5, 0x00E6,
   0x00E7, 0x00E8, 0x00E9, 0x00EA, 0x00EB, 0x00EC, 0x00ED, 0x00EE, 0x00EF, 0x0175,
   0x00F1, 0x00F2, 0x00F3, 0x00F4, 0x00F5, 0x00F6, 0x1E6B, 0x00F8, 0x00F9, 0x00FA,
   0x00FB, 0x00FC, 0x00FD, 0x0177, 0x00FF]"

definition iso8859_7_unicode_map :: "Uchar16 list" where
  "iso8859_7_unicode_map = [
   0x2018, 0x2019, 0x00A3, 0x00A4, 0x00A5, 0x00A6, 0x00A7, 0x00A8, 0x00A9, 0x00AA,
   0x00AB, 0x00AC, 0x00AD, 0x00AE, 0x2015, 0x00B0, 0x00B1, 0x00B2, 0x00B3, 0x0384,
   0x0385, 0x0386, 0x00B7, 0x0388, 0x0389, 0x038A, 0x00BB, 0x038C, 0x00BD]"

definition iso8859_2_conv_to_uc32 :: "Achar32 \<Rightarrow> Uchar32" where
  "iso8859_2_conv_to_uc32 = table_conv_to_uc32 iso8859_2_unicode_map"

definition iso8859_2_conv_from_uc32 :: "Uchar32 \<Rightarrow> u8 option" where
  "iso8859_2_conv_from_uc32 = table_conv_from_uc32 iso8859_2_unicode_map"

definition iso8859_3_conv_to_uc32 :: "Achar32 \<Rightarrow> Uchar32" where
  "iso8859_3_conv_to_uc32 = table_conv_to_uc32 iso8859_3_unicode_map"

definition iso8859_3_conv_from_uc32 :: "Uchar32 \<Rightarrow> u8 option" where
  "iso8859_3_conv_from_uc32 = table_conv_from_uc32 iso8859_3_unicode_map"

definition iso8859_4_conv_to_uc32 :: "Achar32 \<Rightarrow> Uchar32" where
  "iso8859_4_conv_to_uc32 = table_conv_to_uc32 iso8859_4_unicode_map"

definition iso8859_4_conv_from_uc32 :: "Uchar32 \<Rightarrow> u8 option" where
  "iso8859_4_conv_from_uc32 = table_conv_from_uc32 iso8859_4_unicode_map"

definition iso8859_10_conv_to_uc32 :: "Achar32 \<Rightarrow> Uchar32" where
  "iso8859_10_conv_to_uc32 = table_conv_to_uc32 iso8859_10_unicode_map"

definition iso8859_10_conv_from_uc32 :: "Uchar32 \<Rightarrow> u8 option" where
  "iso8859_10_conv_from_uc32 = table_conv_from_uc32 iso8859_10_unicode_map"

definition iso8859_11_conv_to_uc32 :: "Achar32 \<Rightarrow> Uchar32" where
  "iso8859_11_conv_to_uc32 = table_conv_to_uc32 iso8859_11_unicode_map"

definition iso8859_11_conv_from_uc32 :: "Uchar32 \<Rightarrow> u8 option" where
  "iso8859_11_conv_from_uc32 = table_conv_from_uc32 iso8859_11_unicode_map"

definition iso8859_13_conv_to_uc32 :: "Achar32 \<Rightarrow> Uchar32" where
  "iso8859_13_conv_to_uc32 = table_conv_to_uc32 iso8859_13_unicode_map"

definition iso8859_13_conv_from_uc32 :: "Uchar32 \<Rightarrow> u8 option" where
  "iso8859_13_conv_from_uc32 = table_conv_from_uc32 iso8859_13_unicode_map"

definition iso8859_14_conv_to_uc32 :: "Achar32 \<Rightarrow> Uchar32" where
  "iso8859_14_conv_to_uc32 = table_conv_to_uc32 iso8859_14_unicode_map"

definition iso8859_14_conv_from_uc32 :: "Uchar32 \<Rightarrow> u8 option" where
  "iso8859_14_conv_from_uc32 = table_conv_from_uc32 iso8859_14_unicode_map"

section \<open>Conversions by cases\<close>

definition switch :: "('a \<times> 'b) list \<Rightarrow> 'a \<Rightarrow> 'b option" where
  "switch cases x = map_of cases x"

definition ascii_conv_to_uc32 :: "Achar32 \<Rightarrow> Uchar32" where
  "ascii_conv_to_uc32 chv = (if chv < 128 then chv else 0x3F)"

definition ascii_conv_from_uc32 :: "Uchar32 \<Rightarrow> u8 option" where
  "ascii_conv_from_uc32 wc = (if wc < 128 then Some (ucast wc) else None)"

definition iso8859_1_conv_to_uc32 :: "Achar32 \<Rightarrow> Uchar32" where
  "iso8859_1_conv_to_uc32 chv = chv"

definition iso8859_1_conv_from_uc32 :: "Uchar32 \<Rightarrow> u8 option" where
  "iso8859_1_conv_from_uc32 wc = (if wc < 256 then Some (ucast wc) else None)"

definition iso8859_5_conv_to_uc32 :: "Achar32 \<Rightarrow> Uchar32" where
  "iso8859_5_conv_to_uc32 chv =
     (if chv < 0xA1 then chv else if chv = 0xAD then 0x00AD else if chv = 0xF0 then 0x2116
      else if chv = 0xFD then 0x00A7 else chv + (0x0401 - 0xA1))"

definition iso8859_5_conv_from_uc32 :: "Uchar32 \<Rightarrow> u8 option" where
  "iso8859_5_conv_from_uc32 wc =
     (if wc < 0xA1 then Some (ucast wc)
      else case switch [(0x00A7, 0xFD), (0x00AD, 0xAD), (0x2116, 0xF0)] wc of
        Some c \<Rightarrow> Some c
      | None \<Rightarrow> if wc \<ge> 0x0401 \<and> wc \<le> 0x0401 + 0xFF - 0xA1 then Some (ucast (wc - 0x0401 + 0xA1)) else None)"

definition iso8859_7_conv_to_uc32 :: "Achar32 \<Rightarrow> Uchar32" where
  "iso8859_7_conv_to_uc32 chv =
     (if chv \<ge> 0xBE \<and> chv \<le> 0xFE then chv - 0xBE + 0x038E
      else if chv \<ge> 0xA1 \<and> chv \<le> 0xBD then ucast (iso8859_7_unicode_map ! unat (chv - 0xA1))
      else chv)"

definition iso8859_7_conv_from_uc32 :: "Uchar32 \<Rightarrow> u8 option" where
  "iso8859_7_conv_from_uc32 wc =
     (if wc < 0xA1 then Some (ucast wc)
      else if wc \<ge> 0x038E \<and> wc \<le> 0x038E + 0xFE - 0xBE then Some (ucast (wc - 0x038E + 0xBE))
      else table_index iso8859_7_unicode_map wc 0xA1)"

definition iso8859_8_conv_to_uc32 :: "Achar32 \<Rightarrow> Uchar32" where
  "iso8859_8_conv_to_uc32 chv0 =
     (let chv = REAL_ACHAR chv0
      in if chv \<ge> 0xE0 \<and> chv \<le> 0xFA then chv - 0xE0 + 0x05D0
         else case switch [(0xAA, 0x00D7), (0xBA, 0x00F7), (0xDF, 0x2017), (0xFD, 0x200E), (0xFE, 0x200F)] chv of
           Some u \<Rightarrow> u | None \<Rightarrow> chv)"

definition iso8859_8_conv_from_uc32 :: "Uchar32 \<Rightarrow> u8 option" where
  "iso8859_8_conv_from_uc32 wc =
     (case switch [(0x00D7C, 0xAA), (0x203E, 0xAF), (0x0F7, 0xBA), (0x2017, 0xBF)] wc of
        Some c \<Rightarrow> Some c
      | None \<Rightarrow> if wc < 0x5D0 then Some (ucast wc)
         else if wc \<ge> 0x5D0 \<and> wc \<le> 0x05EA then Some (ucast (wc - 0x5D0 + 0xE0)) else None)"

definition iso8859_9_conv_to_uc32 :: "Achar32 \<Rightarrow> Uchar32" where
  "iso8859_9_conv_to_uc32 chv =
     (case switch [
       (0xD0, 0x011E), (0xDD, 0x0130), (0xDE, 0x015E), (0xF0, 0x011F), (0xFD, 0x0131), (0xFE, 0x015F)] chv of
        Some u \<Rightarrow> u | None \<Rightarrow> chv)"

definition iso8859_9_conv_from_uc32 :: "Uchar32 \<Rightarrow> u8 option" where
  "iso8859_9_conv_from_uc32 wc =
     (case switch [
       (0x011E, 0xD0), (0x0130, 0xDD), (0x015E, 0xDE), (0x011F, 0xF0), (0x0131, 0xFD), (0x015F, 0xFE)] wc of
        Some c \<Rightarrow> Some c
      | None \<Rightarrow> if wc \<le> 0xFF then Some (ucast wc) else None)"

definition iso8859_15_conv_to_uc32 :: "Achar32 \<Rightarrow> Uchar32" where
  "iso8859_15_conv_to_uc32 chv =
     (case switch [
       (0xA4, 0x20AC), (0xA6, 0x0160), (0xA8, 0x0161), (0xB4, 0x017D), (0xB8, 0x017E), (0xBC, 0x0152),
       (0xBD, 0x0153), (0xBE, 0x0178)] chv of
        Some u \<Rightarrow> u | None \<Rightarrow> chv)"

definition iso8859_15_conv_from_uc32 :: "Uchar32 \<Rightarrow> u8 option" where
  "iso8859_15_conv_from_uc32 wc =
     (case switch [
       (0x20AC, 0xA4), (0x0160, 0xA6), (0x0161, 0xA8), (0x017D, 0xB4), (0x017E, 0xB8), (0x0152, 0xBC),
       (0x0153, 0xBD), (0x0178, 0xBE)] wc of
        Some c \<Rightarrow> Some c
      | None \<Rightarrow> if wc \<le> 0xFF then Some (ucast wc) else None)"

definition iso8859_16_conv_to_uc32 :: "Achar32 \<Rightarrow> Uchar32" where
  "iso8859_16_conv_to_uc32 chv =
     (case switch [
       (0xA1, 0x0104), (0xA2, 0x0105), (0xA3, 0x0141), (0xA4, 0x20AC), (0xA5, 0x201E), (0xA6, 0x0160),
       (0xA8, 0x0161), (0xAA, 0x0218), (0xAC, 0x0179), (0xAE, 0x017A), (0xAF, 0x017B), (0xB2, 0x010C),
       (0xB3, 0x0142), (0xB4, 0x017D), (0xB5, 0x201D), (0xB8, 0x017E), (0xB9, 0x010D), (0xBA, 0x0219),
       (0xBC, 0x0152), (0xBD, 0x0153), (0xBE, 0x0178), (0xBF, 0x017C), (0xC3, 0x0102), (0xC5, 0x0106),
       (0xD0, 0x0110), (0xD1, 0x0143), (0xD5, 0x0150), (0xD7, 0x015A), (0xD8, 0x0170), (0xDD, 0x0118),
       (0xDE, 0x021A), (0xE3, 0x0103), (0xE5, 0x0107), (0xF0, 0x0111), (0xF1, 0x0144), (0xF5, 0x0151),
       (0xF7, 0x015B), (0xF8, 0x0171), (0xFD, 0x0119), (0xFE, 0x021B)] chv of
        Some u \<Rightarrow> u | None \<Rightarrow> chv)"

definition iso8859_16_conv_from_uc32 :: "Uchar32 \<Rightarrow> u8 option" where
  "iso8859_16_conv_from_uc32 wc =
     (case switch [
       (0x0104, 0xA1), (0x0105, 0xA2), (0x0141, 0xA3), (0x20AC, 0xA4), (0x201E, 0xA5), (0x0160, 0xA6),
       (0x0161, 0xA8), (0x0218, 0xAA), (0x0179, 0xAC), (0x017A, 0xAE), (0x017B, 0xAF), (0x010C, 0xB2),
       (0x0142, 0xB3), (0x017D, 0xB4), (0x201D, 0xB5), (0x017E, 0xB8), (0x010D, 0xB9), (0x0219, 0xBA),
       (0x0152, 0xBC), (0x0153, 0xBD), (0x0178, 0xBE), (0x017C, 0xBF), (0x0102, 0xC3), (0x0106, 0xC5),
       (0x0110, 0xD0), (0x0143, 0xD1), (0x0150, 0xD5), (0x015A, 0xD7), (0x0170, 0xD8), (0x0118, 0xDD),
       (0x021A, 0xDE), (0x0103, 0xE3), (0x0107, 0xE5), (0x0111, 0xF0), (0x0144, 0xF1), (0x0151, 0xF5),
       (0x015B, 0xF7), (0x0171, 0xF8), (0x0119, 0xFD), (0x021B, 0xFE)] wc of
        Some c \<Rightarrow> Some c
      | None \<Rightarrow> if wc \<le> 0xFF then Some (ucast wc) else None)"

definition jisx0201_1_conv_to_uc32 :: "Achar32 \<Rightarrow> Uchar32" where
  "jisx0201_1_conv_to_uc32 chv =
     (if chv \<ge> 0xA1 \<and> chv \<le> 0xDF then 0xFF61 + chv - 0xA1
      else if chv = 0x5C then 0x00A5 else if chv = 0x80 then 0x005C else chv)"

definition jisx0201_1_conv_from_uc32 :: "Uchar32 \<Rightarrow> u8 option" where
  "jisx0201_1_conv_from_uc32 wc =
     (if wc < 0xA1 then Some (ucast wc)
      else case switch [(0x00A5, 0x5C), (0x005C, 0x80)] wc of
        Some c \<Rightarrow> Some c
      | None \<Rightarrow> if wc \<ge> 0xFF61 \<and> wc \<le> 0xFF61 + 0xDF - 0xA1 then Some (ucast (wc - 0xFF61 + 0xA1)) else None)"

section \<open>Names and operation tables\<close>

definition named_exactly :: "string \<Rightarrow> string \<Rightarrow> nat \<Rightarrow> bool" where
  "named_exactly name sub k = (case strstr name sub of None \<Rightarrow> False | Some sub_enc \<Rightarrow> length sub_enc = k)"

definition ascii_is_this_charset :: "string \<Rightarrow> bool option" where
  "ascii_is_this_charset = with_name (\<lambda>name. has name ''ASCII'')"

definition iso8859_1_is_this_charset :: "string \<Rightarrow> bool option" where
  "iso8859_1_is_this_charset = with_name (\<lambda>name. has name ''ISO'' \<and> named_exactly name ''8859-1'' 6 \<or> named_exactly name ''LATIN1'' 6)"

definition iso8859_2_is_this_charset :: "string \<Rightarrow> bool option" where
  "iso8859_2_is_this_charset = with_name (\<lambda>name. has name ''ISO'' \<and> has name ''8859-2'' \<or> has name ''LATIN2'')"

definition iso8859_3_is_this_charset :: "string \<Rightarrow> bool option" where
  "iso8859_3_is_this_charset = with_name (\<lambda>name. has name ''ISO'' \<and> has name ''8859-3'' \<or> has name ''LATIN3'')"

definition iso8859_4_is_this_charset :: "string \<Rightarrow> bool option" where
  "iso8859_4_is_this_charset = with_name (\<lambda>name. has name ''ISO'' \<and> has name ''8859-4'' \<or> has name ''LATIN4'')"

definition iso8859_5_is_this_charset :: "string \<Rightarrow> bool option" where
  "iso8859_5_is_this_charset = with_name (\<lambda>name. has name ''ISO'' \<and> has name ''8859-5'' \<or> has name ''CYRILLIC'')"

definition iso8859_7_is_this_charset :: "string \<Rightarrow> bool option" where
  "iso8859_7_is_this_charset = with_name (\<lambda>name. has name ''ISO'' \<and> has name ''8859-7'' \<or> has name ''GREEK'')"

definition iso8859_8_is_this_charset :: "string \<Rightarrow> bool option" where
  "iso8859_8_is_this_charset = with_name (\<lambda>name. has name ''ISO'' \<and> has name ''8859-8'' \<or> has name ''HEBREW'')"

definition iso8859_9_is_this_charset :: "string \<Rightarrow> bool option" where
  "iso8859_9_is_this_charset = with_name (\<lambda>name. has name ''ISO'' \<and> has name ''8859-9'' \<or> has name ''LATIN5'')"

definition iso8859_10_is_this_charset :: "string \<Rightarrow> bool option" where
  "iso8859_10_is_this_charset = with_name (\<lambda>name. has name ''ISO'' \<and> has name ''8859-10'' \<or> has name ''LATIN6'')"

definition iso8859_11_is_this_charset :: "string \<Rightarrow> bool option" where
  "iso8859_11_is_this_charset = with_name (\<lambda>name. has name ''ISO'' \<and> has name ''8859-11'' \<or> has name ''TIS'' \<and> has name ''620'')"

definition iso8859_13_is_this_charset :: "string \<Rightarrow> bool option" where
  "iso8859_13_is_this_charset = with_name (\<lambda>name. has name ''ISO'' \<and> has name ''8859-13'' \<or> has name ''LATIN7'')"

definition iso8859_14_is_this_charset :: "string \<Rightarrow> bool option" where
  "iso8859_14_is_this_charset = with_name (\<lambda>name. has name ''ISO'' \<and> has name ''8859-14'' \<or> has name ''LATIN8'')"

definition iso8859_15_is_this_charset :: "string \<Rightarrow> bool option" where
  "iso8859_15_is_this_charset = with_name (\<lambda>name. has name ''ISO'' \<and> has name ''8859-15'' \<or> has name ''LATIN'' \<and> has name ''9'')"

definition iso8859_16_is_this_charset :: "string \<Rightarrow> bool option" where
  "iso8859_16_is_this_charset = with_name (\<lambda>name. has name ''ISO'' \<and> has name ''8859-16'' \<or> has name ''LATIN'' \<and> has name ''10'')"

definition jisx0201_1_is_this_charset :: "string \<Rightarrow> bool option" where
  "jisx0201_1_is_this_charset = with_name (\<lambda>name. has name ''JISX0201'' \<and> has name ''-1'')"

text \<open>A conversion stores its byte and returns 1, or stores nothing and returns 0.\<close>

definition store1 :: "u8 option \<Rightarrow> bytes \<Rightarrow> nat \<Rightarrow> nat \<times> bytes" where
  "store1 r m p = (case r of None \<Rightarrow> (0, m) | Some c \<Rightarrow> (1, m(p := c)))"

definition CharsetOps_ascii :: CHARSETOPS where
  "CharsetOps_ascii = \<lparr>nr_chars = 128, bytes_maxlen_char = 1, cs_name = ''US-ASCII'',
     len_first_char = sb_len_first_char, get_char_value = sb_get_char_value, nr_chars_in_str = sb_nr_chars_in_str,
     is_this_charset = ascii_is_this_charset, len_first_substr = sb_len_first_substr,
     get_next_word = sb_get_next_word, pos_first_char = sb_pos_first_char,
     conv_to_uc32 = Some ascii_conv_to_uc32,
     conv_from_uc32 = (\<lambda>wc. store1 (ascii_conv_from_uc32 wc))\<rparr>"

definition CharsetOps_iso8859_1 :: CHARSETOPS where
  "CharsetOps_iso8859_1 = \<lparr>nr_chars = 256, bytes_maxlen_char = 1, cs_name = ''ISO8859-1'',
     len_first_char = sb_len_first_char, get_char_value = sb_get_char_value, nr_chars_in_str = sb_nr_chars_in_str,
     is_this_charset = iso8859_1_is_this_charset, len_first_substr = sb_len_first_substr,
     get_next_word = sb_get_next_word, pos_first_char = sb_pos_first_char,
     conv_to_uc32 = Some iso8859_1_conv_to_uc32,
     conv_from_uc32 = (\<lambda>wc. store1 (iso8859_1_conv_from_uc32 wc))\<rparr>"

definition CharsetOps_iso8859_2 :: CHARSETOPS where
  "CharsetOps_iso8859_2 = \<lparr>nr_chars = 256, bytes_maxlen_char = 1, cs_name = ''ISO8859-2'',
     len_first_char = sb_len_first_char, get_char_value = sb_get_char_value, nr_chars_in_str = sb_nr_chars_in_str,
     is_this_charset = iso8859_2_is_this_charset, len_first_substr = sb_len_first_substr,
     get_next_word = sb_get_next_word, pos_first_char = sb_pos_first_char,
     conv_to_uc32 = Some iso8859_2_conv_to_uc32,
     conv_from_uc32 = (\<lambda>wc. store1 (iso8859_2_conv_from_uc32 wc))\<rparr>"

definition CharsetOps_iso8859_3 :: CHARSETOPS where
  "CharsetOps_iso8859_3 = \<lparr>nr_chars = 256, bytes_maxlen_char = 1, cs_name = ''ISO8859-3'',
     len_first_char = sb_len_first_char, get_char_value = sb_get_char_value, nr_chars_in_str = sb_nr_chars_in_str,
     is_this_charset = iso8859_3_is_this_charset, len_first_substr = sb_len_first_substr,
     get_next_word = sb_get_next_word, pos_first_char = sb_pos_first_char,
     conv_to_uc32 = Some iso8859_3_conv_to_uc32,
     conv_from_uc32 = (\<lambda>wc. store1 (iso8859_3_conv_from_uc32 wc))\<rparr>"

definition CharsetOps_iso8859_4 :: CHARSETOPS where
  "CharsetOps_iso8859_4 = \<lparr>nr_chars = 256, bytes_maxlen_char = 1, cs_name = ''ISO8859-4'',
     len_first_char = sb_len_first_char, get_char_value = sb_get_char_value, nr_chars_in_str = sb_nr_chars_in_str,
     is_this_charset = iso8859_4_is_this_charset, len_first_substr = sb_len_first_substr,
     get_next_word = sb_get_next_word, pos_first_char = sb_pos_first_char,
     conv_to_uc32 = Some iso8859_4_conv_to_uc32,
     conv_from_uc32 = (\<lambda>wc. store1 (iso8859_4_conv_from_uc32 wc))\<rparr>"

definition CharsetOps_iso8859_5 :: CHARSETOPS where
  "CharsetOps_iso8859_5 = \<lparr>nr_chars = 256, bytes_maxlen_char = 1, cs_name = ''ISO8859-5'',
     len_first_char = sb_len_first_char, get_char_value = sb_get_char_value, nr_chars_in_str = sb_nr_chars_in_str,
     is_this_charset = iso8859_5_is_this_charset, len_first_substr = sb_len_first_substr,
     get_next_word = sb_get_next_word, pos_first_char = sb_pos_first_char,
     conv_to_uc32 = Some iso8859_5_conv_to_uc32,
     conv_from_uc32 = (\<lambda>wc. store1 (iso8859_5_conv_from_uc32 wc))\<rparr>"

definition CharsetOps_iso8859_7 :: CHARSETOPS where
  "CharsetOps_iso8859_7 = \<lparr>nr_chars = 256, bytes_maxlen_char = 1, cs_name = ''ISO8859-7'',
     len_first_char = sb_len_first_char, get_char_value = sb_get_char_value, nr_chars_in_str = sb_nr_chars_in_str,
     is_this_charset = iso8859_7_is_this_charset, len_first_substr = sb_len_first_substr,
     get_next_word = sb_get_next_word, pos_first_char = sb_pos_first_char,
     conv_to_uc32 = Some iso8859_7_conv_to_uc32,
     conv_from_uc32 = (\<lambda>wc. store1 (iso8859_7_conv_from_uc32 wc))\<rparr>"

definition CharsetOps_iso8859_8 :: CHARSETOPS where
  "CharsetOps_iso8859_8 = \<lparr>nr_chars = 256, bytes_maxlen_char = 2, cs_name = ''ISO8859-8'',
     len_first_char = sb_len_first_char, get_char_value = sb_get_char_value, nr_chars_in_str = sb_nr_chars_in_str,
     is_this_charset = iso8859_8_is_this_charset, len_first_substr = sb_len_first_substr,
     get_next_word = iso8859_8_get_next_word, pos_first_char = sb_pos_first_char,
     conv_to_uc32 = Some iso8859_8_conv_to_uc32,
     conv_from_uc32 = (\<lambda>wc. store1 (iso8859_8_conv_from_uc32 wc))\<rparr>"

definition CharsetOps_iso8859_9 :: CHARSETOPS where
  "CharsetOps_iso8859_9 = \<lparr>nr_chars = 256, bytes_maxlen_char = 1, cs_name = ''ISO8859-9'',
     len_first_char = sb_len_first_char, get_char_value = sb_get_char_value, nr_chars_in_str = sb_nr_chars_in_str,
     is_this_charset = iso8859_9_is_this_charset, len_first_substr = sb_len_first_substr,
     get_next_word = sb_get_next_word, pos_first_char = sb_pos_first_char,
     conv_to_uc32 = Some iso8859_9_conv_to_uc32,
     conv_from_uc32 = (\<lambda>wc. store1 (iso8859_9_conv_from_uc32 wc))\<rparr>"

definition CharsetOps_iso8859_10 :: CHARSETOPS where
  "CharsetOps_iso8859_10 = \<lparr>nr_chars = 256, bytes_maxlen_char = 1, cs_name = ''ISO8859-10'',
     len_first_char = sb_len_first_char, get_char_value = sb_get_char_value, nr_chars_in_str = sb_nr_chars_in_str,
     is_this_charset = iso8859_10_is_this_charset, len_first_substr = sb_len_first_substr,
     get_next_word = sb_get_next_word, pos_first_char = sb_pos_first_char,
     conv_to_uc32 = Some iso8859_10_conv_to_uc32,
     conv_from_uc32 = (\<lambda>wc. store1 (iso8859_10_conv_from_uc32 wc))\<rparr>"

definition CharsetOps_iso8859_11 :: CHARSETOPS where
  "CharsetOps_iso8859_11 = \<lparr>nr_chars = 256, bytes_maxlen_char = 1, cs_name = ''ISO8859-11'',
     len_first_char = sb_len_first_char, get_char_value = sb_get_char_value, nr_chars_in_str = sb_nr_chars_in_str,
     is_this_charset = iso8859_11_is_this_charset, len_first_substr = sb_len_first_substr,
     get_next_word = sb_get_next_word, pos_first_char = sb_pos_first_char,
     conv_to_uc32 = Some iso8859_11_conv_to_uc32,
     conv_from_uc32 = (\<lambda>wc. store1 (iso8859_11_conv_from_uc32 wc))\<rparr>"

definition CharsetOps_iso8859_13 :: CHARSETOPS where
  "CharsetOps_iso8859_13 = \<lparr>nr_chars = 256, bytes_maxlen_char = 1, cs_name = ''ISO8859-13'',
     len_first_char = sb_len_first_char, get_char_value = sb_get_char_value, nr_chars_in_str = sb_nr_chars_in_str,
     is_this_charset = iso8859_13_is_this_charset, len_first_substr = sb_len_first_substr,
     get_next_word = sb_get_next_word, pos_first_char = sb_pos_first_char,
     conv_to_uc32 = Some iso8859_13_conv_to_uc32,
     conv_from_uc32 = (\<lambda>wc. store1 (iso8859_13_conv_from_uc32 wc))\<rparr>"

definition CharsetOps_iso8859_14 :: CHARSETOPS where
  "CharsetOps_iso8859_14 = \<lparr>nr_chars = 256, bytes_maxlen_char = 1, cs_name = ''ISO8859-14'',
     len_first_char = sb_len_first_char, get_char_value = sb_get_char_value, nr_chars_in_str = sb_nr_chars_in_str,
     is_this_charset = iso8859_14_is_this_charset, len_first_substr = sb_len_first_substr,
     get_next_word = sb_get_next_word, pos_first_char = sb_pos_first_char,
     conv_to_uc32 = Some iso8859_14_conv_to_uc32,
     conv_from_uc32 = (\<lambda>wc. store1 (iso8859_14_conv_from_uc32 wc))\<rparr>"

definition CharsetOps_iso8859_15 :: CHARSETOPS where
  "CharsetOps_iso8859_15 = \<lparr>nr_chars = 256, bytes_maxlen_char = 1, cs_name = ''ISO8859-15'',
     len_first_char = sb_len_first_char, get_char_value = sb_get_char_value, nr_chars_in_str = sb_nr_chars_in_str,
     is_this_charset = iso8859_15_is_this_charset, len_first_substr = sb_len_first_substr,
     get_next_word = sb_get_next_word, pos_first_char = sb_pos_first_char,
     conv_to_uc32 = Some iso8859_15_conv_to_uc32,
     conv_from_uc32 = (\<lambda>wc. store1 (iso8859_15_conv_from_uc32 wc))\<rparr>"

definition CharsetOps_iso8859_16 :: CHARSETOPS where
  "CharsetOps_iso8859_16 = \<lparr>nr_chars = 256, bytes_maxlen_char = 1, cs_name = ''ISO8859-16'',
     len_first_char = sb_len_first_char, get_char_value = sb_get_char_value, nr_chars_in_str = sb_nr_chars_in_str,
     is_this_charset = iso8859_16_is_this_charset, len_first_substr = sb_len_first_substr,
     get_next_word = sb_get_next_word, pos_first_char = sb_pos_first_char,
     conv_to_uc32 = Some iso8859_16_conv_to_uc32,
     conv_from_uc32 = (\<lambda>wc. store1 (iso8859_16_conv_from_uc32 wc))\<rparr>"

definition CharsetOps_jisx0201_1 :: CHARSETOPS where
  "CharsetOps_jisx0201_1 = \<lparr>nr_chars = 190, bytes_maxlen_char = 1, cs_name = ''JISX0201-1'',
     len_first_char = sb_len_first_char, get_char_value = sb_get_char_value, nr_chars_in_str = sb_nr_chars_in_str,
     is_this_charset = jisx0201_1_is_this_charset, len_first_substr = sb_len_first_substr,
     get_next_word = sb_get_next_word, pos_first_char = sb_pos_first_char,
     conv_to_uc32 = Some jisx0201_1_conv_to_uc32,
     conv_from_uc32 = (\<lambda>wc. store1 (jisx0201_1_conv_from_uc32 wc))\<rparr>"

section \<open>Two-way tables\<close>

text \<open>\<open>round_trips\<close>: a code converted to Unicode and back is the same code. \<open>exact\<close>: a Unicode character that is
  accepted is the one its code stands for.\<close>

definition round_trips :: "(Achar32 \<Rightarrow> Uchar32) \<Rightarrow> (Uchar32 \<Rightarrow> u8 option) \<Rightarrow> u8 \<Rightarrow> bool" where
  "round_trips to from c \<longleftrightarrow> from (to (ucast c)) = Some c"

definition exact :: "(Achar32 \<Rightarrow> Uchar32) \<Rightarrow> (Uchar32 \<Rightarrow> u8 option) \<Rightarrow> Uchar32 \<Rightarrow> bool" where
  "exact to from w \<longleftrightarrow> (case from w of None \<Rightarrow> True | Some c \<Rightarrow> to (ucast c) = w)"

lemma table_index_spec:
  "table_index tab w c = Some b \<Longrightarrow> \<exists>i < length tab. b = c + of_nat i \<and> ucast (tab ! i) = w"
proof (induction tab arbitrary: c)
  case (Cons u tab)
  show ?case
  proof (cases "ucast u = w")
    case True
    with Cons.prems show ?thesis by (intro exI [of _ 0]) simp
  next
    case False
    with Cons.prems Cons.IH [of "c + 1"] obtain i where "i < length tab" "b = c + 1 + of_nat i" "ucast (tab ! i) = w"
      by auto
    then show ?thesis by (intro exI [of _ "Suc i"]) (simp add: add.assoc)
  qed
qed simp

lemma table_index_distinct:
  "distinct tab \<Longrightarrow> i < length tab \<Longrightarrow> table_index tab (ucast (tab ! i)) c = Some (c + of_nat i)"
proof (induction tab arbitrary: i c)
  case (Cons u tab)
  show ?case
  proof (cases i)
    case (Suc j)
    with Cons.prems have "u \<noteq> tab ! j" by auto
    then have "(ucast u :: Uchar32) \<noteq> ucast (tab ! j)" by (simp add: ucast_u16_inject)
    with Suc Cons.prems Cons.IH [of j "c + 1"] show ?thesis by (simp add: add.assoc)
  qed simp
qed simp

locale code_table =
  fixes tab :: "Uchar16 list"
  assumes distinct_codes: "distinct tab"
    and size: "length tab = 95"
    and high: "\<forall>u \<in> set tab. 0xA1 \<le> u"
begin

lemma to_from: "round_trips (table_conv_to_uc32 tab) (table_conv_from_uc32 tab) c"
proof (cases "(ucast c :: Uchar32) < 0xA1")
  case True
  then show ?thesis by (simp add: round_trips_def table_conv_to_uc32_def table_conv_from_uc32_def)
next
  case False
  let ?i = "unat c - 0xA1"
  have "unat c < 2 ^ LENGTH(8)" by (rule unsigned_less)
  then have c: "0xA1 \<le> unat c" "unat c < 256"
    using False by (simp_all add: word_less_nat_alt unsigned_ucast_eq take_bit_nat_eq_self)
  have i: "unat (ucast c - 0xA1 :: Uchar32) = ?i" "?i < length tab"
    using c False by (simp_all add: unat_sub word_le_nat_alt not_less unsigned_ucast_eq take_bit_nat_eq_self size)
  have "0xA1 \<le> tab ! ?i" using high i(2) by simp
  then have "\<not> (ucast (tab ! ?i) :: Uchar32) < 0xA1"
    by (simp add: word_le_nat_alt word_less_nat_alt unat_ucast_u16)
  moreover have "0xA1 + of_nat ?i = c"
    using c by (simp add: word_unat_eq_iff unat_word_ariths unat_of_nat)
  ultimately show ?thesis
    using False table_index_distinct [OF distinct_codes i(2), of "0xA1"]
    by (simp add: round_trips_def table_conv_to_uc32_def table_conv_from_uc32_def i(1))
qed

lemma from_to: "exact (table_conv_to_uc32 tab) (table_conv_from_uc32 tab) w"
proof (cases "w < 0xA1")
  case True
  then have "ucast (ucast w :: u8) = w"
    by (simp add: word_unat_eq_iff unsigned_ucast_eq unsigned_take_bit_eq take_bit_nat_eq_self word_less_nat_alt)
  with True show ?thesis by (simp add: exact_def table_conv_to_uc32_def table_conv_from_uc32_def)
next
  case False
  show ?thesis
  proof (cases "table_index tab w 0xA1")
    case (Some b)
    from table_index_spec [OF this] obtain i where i: "i < 95" "b = 0xA1 + of_nat i" "ucast (tab ! i) = w"
      by (auto simp: size)
    then have u: "unat (ucast b :: Uchar32) = 0xA1 + i"
      by (simp add: unsigned_ucast_eq take_bit_nat_eq_self unat_word_ariths unat_of_nat)
    then have "\<not> (ucast b :: Uchar32) < 0xA1" "unat (ucast b - 0xA1 :: Uchar32) = i"
      by (simp_all add: word_less_nat_alt word_le_nat_alt unat_sub)
    with Some False i show ?thesis by (simp add: exact_def table_conv_to_uc32_def table_conv_from_uc32_def)
  qed (use False in \<open>simp add: exact_def table_conv_from_uc32_def\<close>)
qed

end

lemma code_tableI:
  assumes "distinct (map uint tab)" "length tab = 95" "list_all (\<lambda>u. 0xA1 \<le> uint u) tab"
  shows "code_table tab"
  using assms by unfold_locales (simp_all add: distinct_map list_all_iff word_le_def)

interpretation iso2: code_table iso8859_2_unicode_map
  by (rule code_tableI) (simp_all add: iso8859_2_unicode_map_def)

interpretation iso3: code_table iso8859_3_unicode_map
  by (rule code_tableI) (simp_all add: iso8859_3_unicode_map_def)

interpretation iso4: code_table iso8859_4_unicode_map
  by (rule code_tableI) (simp_all add: iso8859_4_unicode_map_def)

interpretation iso10: code_table iso8859_10_unicode_map
  by (rule code_tableI) (simp_all add: iso8859_10_unicode_map_def)

interpretation iso11: code_table iso8859_11_unicode_map
  by (rule code_tableI) (simp_all add: iso8859_11_unicode_map_def)

interpretation iso13: code_table iso8859_13_unicode_map
  by (rule code_tableI) (simp_all add: iso8859_13_unicode_map_def)

interpretation iso14: code_table iso8859_14_unicode_map
  by (rule code_tableI) (simp_all add: iso8859_14_unicode_map_def)

section \<open>Conversions by cases, checked for every code\<close>

lemma u8_range:
  assumes "list_all (\<lambda>n. P (word_of_int n)) [a..b]" "a \<le> uint c" "uint c \<le> b"
  shows "P (c :: u8)"
proof -
  from assms(2,3) have "uint c \<in> set [a..b]" by simp
  then have "P (word_of_int (uint c))" using assms(1) unfolding list_all_iff by (rule bspec [rotated])
  then show "P c" by (simp only: word_of_int_uint)
qed

lemma u8_high:
  assumes "\<And>c. uint c < a \<Longrightarrow> P c" "list_all (\<lambda>n. P (word_of_int n)) [a..255]"
  shows "P (c :: u8)"
proof (cases "uint c < a")
  case False
  have "uint c < 2 ^ LENGTH(8)" by (rule unsigned_less)
  with False show ?thesis by (intro u8_range [OF assms(2)]) simp_all
qed (rule assms(1))

lemma ucast_less: "uint (c :: u8) < uint (x :: Uchar32) \<Longrightarrow> ucast c < x"
proof -
  have "uint c < 2 ^ LENGTH(8)" "0 \<le> uint c" by (rule unsigned_less, simp)
  then have "uint (ucast c :: Uchar32) = uint c" by (simp add: unsigned_ucast_eq take_bit_int_eq_self)
  then show "uint c < uint x \<Longrightarrow> ucast c < x" by (simp add: word_less_def)
qed

lemma all_range:
  assumes "list_all (\<lambda>n. P (word_of_int n)) [a..b]" "a \<le> uint w" "uint w \<le> b"
  shows "P (w :: Uchar32)"
proof -
  from assms(2,3) have "uint w \<in> set [a..b]" by simp
  then have "P (word_of_int (uint w))" using assms(1) unfolding list_all_iff by (rule bspec [rotated])
  then show "P w" by (simp only: word_of_int_uint)
qed

lemma exact_low: "from w = Some (ucast w) \<Longrightarrow> to w = w \<Longrightarrow> w < 0x100 \<Longrightarrow> exact to from w"
proof -
  assume a: "from w = Some (ucast w)" "to w = w" "w < 0x100"
  from a(3) have "ucast (ucast w :: u8) = w"
    by (simp add: word_unat_eq_iff unsigned_ucast_eq unsigned_take_bit_eq take_bit_nat_eq_self word_less_nat_alt)
  with a show "exact to from w" by (simp add: exact_def)
qed

text \<open>A conversion that lists the codes of the characters above 0xFF and passes all other codes through.\<close>

definition cases_to :: "(Achar32 \<times> Uchar32) list \<Rightarrow> Achar32 \<Rightarrow> Uchar32" where
  "cases_to cs chv = (case switch cs chv of Some u \<Rightarrow> u | None \<Rightarrow> chv)"

definition cases_from :: "(Uchar32 \<times> u8) list \<Rightarrow> Uchar32 \<Rightarrow> u8 option" where
  "cases_from cs wc = (case switch cs wc of Some c \<Rightarrow> Some c | None \<Rightarrow> if wc \<le> 0xFF then Some (ucast wc) else None)"

locale case_table =
  fixes cs :: "(u8 \<times> Uchar32) list"
  assumes distinct_codes: "distinct (map fst cs)"
    and distinct_chars: "distinct (map snd cs)"
    and high: "\<forall>u \<in> set (map snd cs). 0xFF < u"
begin

lemma to_code:
  "cases_to (map (\<lambda>(c, u). (ucast c, u)) cs) (ucast c) = (case map_of cs c of Some u \<Rightarrow> u | None \<Rightarrow> ucast c)"
proof -
  have "map_of (map (\<lambda>(c, u). (ucast c :: Achar32, u)) xs) (ucast c) = map_of xs c" for xs :: "(u8 \<times> Uchar32) list"
    by (induction xs) (auto simp: ucast_u8_inject)
  then show ?thesis by (simp add: cases_to_def switch_def)
qed

lemma from_char: "map_of (map (\<lambda>(c, u). (u, c)) cs) u = Some c \<longleftrightarrow> map_of cs c = Some u"
proof -
  have "map_of (map (\<lambda>(c, u). (u, c)) cs) u = Some c \<longleftrightarrow> (u, c) \<in> set (map (\<lambda>(c, u). (u, c)) cs)"
    using distinct_chars by (intro map_of_eq_Some_iff) (simp add: case_prod_unfold comp_def)
  also have "\<dots> \<longleftrightarrow> (c, u) \<in> set cs" by force
  also have "\<dots> \<longleftrightarrow> map_of cs c = Some u" using distinct_codes by (simp add: map_of_eq_Some_iff)
  finally show ?thesis .
qed

lemma char_high: "map_of cs c = Some u \<Longrightarrow> 0xFF < u"
  using high by (force dest: map_of_SomeD)

lemma not_char: "u \<le> 0xFF \<Longrightarrow> map_of (map (\<lambda>(c, u). (u, c)) cs) u = None"
proof (rule ccontr)
  assume l: "u \<le> 0xFF" and "map_of (map (\<lambda>(c, u). (u, c)) cs) u \<noteq> None"
  then obtain c where "map_of (map (\<lambda>(c, u). (u, c)) cs) u = Some c" by blast
  with from_char have "map_of cs c = Some u" by blast
  from char_high [OF this] l show False by simp
qed

lemma ucast_le_FF: "(ucast (c :: u8) :: Uchar32) \<le> 0xFF"
proof -
  have "unat c < 2 ^ LENGTH(8)" by (rule unsigned_less)
  then show ?thesis by (simp add: word_le_nat_alt unsigned_ucast_eq take_bit_nat_eq_self)
qed

lemma ucast_back: "(w :: Uchar32) \<le> 0xFF \<Longrightarrow> ucast (ucast w :: u8) = w"
  by (simp add: word_unat_eq_iff unsigned_ucast_eq unsigned_take_bit_eq take_bit_nat_eq_self word_le_nat_alt)

lemma all_round_trip: "round_trips (cases_to (map (\<lambda>(c, u). (ucast c, u)) cs)) (cases_from (map (\<lambda>(c, u). (u, c)) cs)) c"
proof (cases "map_of cs c")
  case None
  then show ?thesis
    using not_char [OF ucast_le_FF [of c]] ucast_le_FF [of c]
    by (simp add: round_trips_def to_code cases_from_def switch_def)
next
  case (Some u)
  with from_char [of u c] show ?thesis by (simp add: round_trips_def to_code cases_from_def switch_def)
qed

lemma exact_iff:
  "exact (cases_to (map (\<lambda>(c, u). (ucast c, u)) cs)) (cases_from (map (\<lambda>(c, u). (u, c)) cs)) w
   \<longleftrightarrow> w \<notin> set (map (\<lambda>(c, u). ucast c) cs)"
proof (cases "map_of (map (\<lambda>(c, u). (u, c)) cs) w")
  case (Some c)
  with from_char have c: "map_of cs c = Some w" by blast
  from char_high [OF c] have "w \<noteq> ucast d" for d :: u8 using ucast_le_FF [of d] by auto
  with Some c show ?thesis by (auto simp: exact_def to_code cases_from_def switch_def)
next
  case None
  show ?thesis
  proof (cases "w \<le> 0xFF")
    case False
    then have "w \<noteq> ucast d" for d :: u8 using ucast_le_FF [of d] by auto
    with None False show ?thesis by (auto simp: exact_def cases_from_def switch_def)
  next
    case True
    let ?c = "ucast w :: u8"
    have w: "ucast ?c = w" by (rule ucast_back [OF True])
    have "exact (cases_to (map (\<lambda>(c, u). (ucast c, u)) cs)) (cases_from (map (\<lambda>(c, u). (u, c)) cs)) w
      \<longleftrightarrow> (case map_of cs ?c of Some u \<Rightarrow> u | None \<Rightarrow> w) = w"
      using None True to_code [of ?c] w
      by (simp add: exact_def cases_from_def switch_def split: option.splits)
    also have "\<dots> \<longleftrightarrow> map_of cs ?c = None"
      using char_high [of ?c] True by (auto split: option.splits)
    also have "\<dots> \<longleftrightarrow> w \<notin> set (map (\<lambda>(c, u). ucast c) cs)"
      using w by (auto simp: map_of_eq_None_iff image_iff ucast_u8_inject split: prod.splits)
    finally show ?thesis .
  qed
qed

end

text \<open>The codes that ISO 8859-9, 15 and 16 have beside Latin-1.\<close>

definition latin5_cases :: "(u8 \<times> Uchar32) list" where
  "latin5_cases = [(0xD0, 0x011E), (0xDD, 0x0130), (0xDE, 0x015E), (0xF0, 0x011F), (0xFD, 0x0131), (0xFE, 0x015F)]"

definition latin9_cases :: "(u8 \<times> Uchar32) list" where
  "latin9_cases = [(0xA4, 0x20AC), (0xA6, 0x0160), (0xA8, 0x0161), (0xB4, 0x017D), (0xB8, 0x017E), (0xBC, 0x0152),
     (0xBD, 0x0153), (0xBE, 0x0178)]"

definition latin10_cases :: "(u8 \<times> Uchar32) list" where
  "latin10_cases = [(0xA1, 0x0104), (0xA2, 0x0105), (0xA3, 0x0141), (0xA4, 0x20AC), (0xA5, 0x201E), (0xA6, 0x0160),
     (0xA8, 0x0161), (0xAA, 0x0218), (0xAC, 0x0179), (0xAE, 0x017A), (0xAF, 0x017B), (0xB2, 0x010C),
     (0xB3, 0x0142), (0xB4, 0x017D), (0xB5, 0x201D), (0xB8, 0x017E), (0xB9, 0x010D), (0xBA, 0x0219),
     (0xBC, 0x0152), (0xBD, 0x0153), (0xBE, 0x0178), (0xBF, 0x017C), (0xC3, 0x0102), (0xC5, 0x0106),
     (0xD0, 0x0110), (0xD1, 0x0143), (0xD5, 0x0150), (0xD7, 0x015A), (0xD8, 0x0170), (0xDD, 0x0118),
     (0xDE, 0x021A), (0xE3, 0x0103), (0xE5, 0x0107), (0xF0, 0x0111), (0xF1, 0x0144), (0xF5, 0x0151),
     (0xF7, 0x015B), (0xF8, 0x0171), (0xFD, 0x0119), (0xFE, 0x021B)]"

interpretation l5: case_table latin5_cases
  by unfold_locales (simp_all add: latin5_cases_def)

interpretation l9: case_table latin9_cases
  by unfold_locales (simp_all add: latin9_cases_def)

interpretation l10: case_table latin10_cases
  by unfold_locales (simp_all add: latin10_cases_def)

lemma conv_by_cases:
  "iso8859_9_conv_to_uc32 = cases_to (map (\<lambda>(c, u). (ucast c, u)) latin5_cases)"
  "iso8859_9_conv_from_uc32 = cases_from (map (\<lambda>(c, u). (u, c)) latin5_cases)"
  "iso8859_15_conv_to_uc32 = cases_to (map (\<lambda>(c, u). (ucast c, u)) latin9_cases)"
  "iso8859_15_conv_from_uc32 = cases_from (map (\<lambda>(c, u). (u, c)) latin9_cases)"
  "iso8859_16_conv_to_uc32 = cases_to (map (\<lambda>(c, u). (ucast c, u)) latin10_cases)"
  "iso8859_16_conv_from_uc32 = cases_from (map (\<lambda>(c, u). (u, c)) latin10_cases)"
  by (simp_all add: fun_eq_iff cases_to_def cases_from_def latin5_cases_def latin9_cases_def latin10_cases_def
      iso8859_9_conv_to_uc32_def iso8859_9_conv_from_uc32_def iso8859_15_conv_to_uc32_def
      iso8859_15_conv_from_uc32_def iso8859_16_conv_to_uc32_def iso8859_16_conv_from_uc32_def)

lemma rt5: "round_trips iso8859_5_conv_to_uc32 iso8859_5_conv_from_uc32 c"
proof (rule u8_high [where a = "0xA1" and P = "\<lambda>c. round_trips iso8859_5_conv_to_uc32 iso8859_5_conv_from_uc32 c"])
  fix c :: u8
  assume "uint c < 0xA1"
  then have "(ucast c :: Uchar32) < 0xA1" by (intro ucast_less) simp
  then show "round_trips iso8859_5_conv_to_uc32 iso8859_5_conv_from_uc32 c"
    by (simp add: round_trips_def iso8859_5_conv_to_uc32_def iso8859_5_conv_from_uc32_def)
qed code_simp

lemma rt7: "round_trips iso8859_7_conv_to_uc32 iso8859_7_conv_from_uc32 c \<longleftrightarrow> c \<noteq> 0xFF"
proof (rule u8_high [where a = "0xA1" and P = "\<lambda>c. round_trips iso8859_7_conv_to_uc32 iso8859_7_conv_from_uc32 c \<longleftrightarrow> c \<noteq> 0xFF"])
  fix c :: u8
  assume l: "uint c < 0xA1"
  from l have c: "(ucast c :: Uchar32) < 0xA1" by (intro ucast_less) simp
  then have "(ucast c :: Uchar32) < 0xBE" by (rule less_trans) simp
  with c l show "round_trips iso8859_7_conv_to_uc32 iso8859_7_conv_from_uc32 c \<longleftrightarrow> c \<noteq> 0xFF"
    by (auto simp: round_trips_def iso8859_7_conv_to_uc32_def iso8859_7_conv_from_uc32_def)
qed code_simp

lemma real_achar_u8: "REAL_ACHAR (ucast (c :: u8)) = ucast c"
proof (rule bit_eqI)
  fix i
  have "(0x80000000 :: Achar32) = 2 ^ 31" by simp
  then have h: "bit (0x80000000 :: Achar32) i \<Longrightarrow> i = 31" by (simp only: bit_exp_iff)
  have "bit (ucast c :: Achar32) i \<Longrightarrow> i < 8" using bit_imp_le_length [of c i] by (auto simp: bit_ucast_iff)
  with h bit_imp_le_length [of "ucast c :: Achar32" i] show "bit (REAL_ACHAR (ucast c)) i = bit (ucast c :: Achar32) i"
    unfolding REAL_ACHAR_def bit_and_iff bit_not_iff possible_bit_word by fastforce
qed

definition hebrew_to :: "Achar32 \<Rightarrow> Uchar32" where
  "hebrew_to chv = (if chv \<ge> 0xE0 \<and> chv \<le> 0xFA then chv - 0xE0 + 0x05D0
     else case switch [(0xAA, 0x00D7), (0xBA, 0x00F7), (0xDF, 0x2017), (0xFD, 0x200E), (0xFE, 0x200F)] chv of
       Some u \<Rightarrow> u | None \<Rightarrow> chv)"

lemma rt8: "round_trips iso8859_8_conv_to_uc32 iso8859_8_conv_from_uc32 c \<longleftrightarrow> c \<notin> {0xAA, 0xDF, 0xFD, 0xFE}"
proof -
  have "round_trips hebrew_to iso8859_8_conv_from_uc32 c \<longleftrightarrow> \<not> List.member [0xAA, 0xDF, 0xFD, 0xFE] c"
  proof (rule u8_high [where a = "0xAA" and
        P = "\<lambda>c. round_trips hebrew_to iso8859_8_conv_from_uc32 c \<longleftrightarrow> \<not> List.member [0xAA, 0xDF, 0xFD, 0xFE] c"])
    fix c :: u8
    assume l: "uint c < 0xAA"
    from l have c: "(ucast c :: Uchar32) < 0xAA" by (intro ucast_less) simp
    then have "(ucast c :: Uchar32) < 0xE0" "(ucast c :: Uchar32) < 0x5D0" by (rule less_trans, simp)+
    moreover have ne: "(ucast c :: Uchar32) \<noteq> v" if "0xAA \<le> v" for v using c that by auto
    moreover have "c \<noteq> v" if "0xAA \<le> uint v" for v using l that by auto
    ultimately show "round_trips hebrew_to iso8859_8_conv_from_uc32 c \<longleftrightarrow> \<not> List.member [0xAA, 0xDF, 0xFD, 0xFE] c"
      by (simp add: round_trips_def hebrew_to_def iso8859_8_conv_from_uc32_def switch_def not_le [symmetric])
  qed code_simp
  then show ?thesis
    by (simp add: round_trips_def iso8859_8_conv_to_uc32_def hebrew_to_def real_achar_u8 Let_def)
qed

lemma rtj: "round_trips jisx0201_1_conv_to_uc32 jisx0201_1_conv_from_uc32 c \<longleftrightarrow> c \<noteq> 0x80 \<and> c < 0xE0"
proof (rule u8_high [where a = "0x81" and P = "\<lambda>c. round_trips jisx0201_1_conv_to_uc32 jisx0201_1_conv_from_uc32 c \<longleftrightarrow> c \<noteq> 0x80 \<and> c < 0xE0"])
  fix c :: u8
  assume l: "uint c < 0x81"
  from l have c: "(ucast c :: Uchar32) < 0x81" by (intro ucast_less) simp
  then have "(ucast c :: Uchar32) < 0xA1" by (rule less_trans) simp
  moreover have "c < 0xE0" using l by (simp add: word_less_def)
  moreover have "(ucast c :: Uchar32) = 0x80 \<longleftrightarrow> c = 0x80" "(ucast c :: Uchar32) = 0x5C \<longleftrightarrow> c = 0x5C"
    using ucast_u8_inject [of c "0x80"] ucast_u8_inject [of c "0x5C"] by simp_all
  ultimately show "round_trips jisx0201_1_conv_to_uc32 jisx0201_1_conv_from_uc32 c \<longleftrightarrow> c \<noteq> 0x80 \<and> c < 0xE0"
    by (auto simp: round_trips_def jisx0201_1_conv_to_uc32_def jisx0201_1_conv_from_uc32_def switch_def)
qed code_simp

lemma exact5: "exact iso8859_5_conv_to_uc32 iso8859_5_conv_from_uc32 w \<longleftrightarrow> w \<notin> {0x040D, 0x0450, 0x045D}"
proof -
  consider (low) "w < 0xA1" | (listed) "w \<in> {0x00A7, 0x00AD, 0x2116}"
    | (range) "0x0401 \<le> w" "w \<le> 0x045F" | (none) "\<not> w < 0xA1" "w \<notin> {0x00A7, 0x00AD, 0x2116}" "\<not> (0x0401 \<le> w \<and> w \<le> 0x045F)"
    by blast
  then show ?thesis
  proof cases
    case low
    then have "w < 0x100" by (rule less_trans) simp
    then have "exact iso8859_5_conv_to_uc32 iso8859_5_conv_from_uc32 w"
      using low by (intro exact_low) (simp_all add: iso8859_5_conv_to_uc32_def iso8859_5_conv_from_uc32_def)
    with low show ?thesis by auto
  next
    case listed
    then show ?thesis
      by (auto simp: exact_def iso8859_5_conv_to_uc32_def iso8859_5_conv_from_uc32_def switch_def)
  next
    case range
    have "list_all (\<lambda>n. exact iso8859_5_conv_to_uc32 iso8859_5_conv_from_uc32 (word_of_int n)
       = (\<not> List.member [0x040D, 0x0450, 0x045D] (word_of_int n :: Uchar32))) [0x0401..0x045F]"
      by code_simp
    then have "exact iso8859_5_conv_to_uc32 iso8859_5_conv_from_uc32 w = (\<not> List.member [0x040D, 0x0450, 0x045D] w)"
      by (rule all_range) (use range in \<open>simp_all add: word_le_def\<close>)
    then show ?thesis by simp
  next
    case none
    then have "iso8859_5_conv_from_uc32 w = None" by (auto simp: iso8859_5_conv_from_uc32_def switch_def)
    with none(3) show ?thesis by (auto simp: exact_def)
  qed
qed

lemma exact7: "exact iso8859_7_conv_to_uc32 iso8859_7_conv_from_uc32 w"
proof -
  consider (low) "w < 0xA1" | (range) "0x038E \<le> w" "w \<le> 0x03CE" | (none) "\<not> w < 0xA1" "\<not> (0x038E \<le> w \<and> w \<le> 0x03CE)"
    by blast
  then show ?thesis
  proof cases
    case low
    then have "w < 0x100" by (rule less_trans) simp
    moreover have "w < 0xBE" using low by (rule less_trans) simp
    ultimately show ?thesis
      using low by (intro exact_low) (auto simp: iso8859_7_conv_to_uc32_def iso8859_7_conv_from_uc32_def)
  next
    case range
    have "list_all (\<lambda>n. exact iso8859_7_conv_to_uc32 iso8859_7_conv_from_uc32 (word_of_int n)) [0x038E..0x03CE]"
      by code_simp
    from all_range [OF this] range show ?thesis by (simp add: word_le_def)
  next
    case none
    then have f: "iso8859_7_conv_from_uc32 w = table_index iso8859_7_unicode_map w 0xA1"
      by (auto simp: iso8859_7_conv_from_uc32_def)
    have t: "list_all (\<lambda>i. iso8859_7_conv_to_uc32 (ucast (0xA1 + of_nat i :: u8)) = ucast (iso8859_7_unicode_map ! i)) [0..<29]"
      by code_simp
    show ?thesis
    proof (cases "table_index iso8859_7_unicode_map w 0xA1")
      case (Some b)
      have "length iso8859_7_unicode_map = 29" by (simp add: iso8859_7_unicode_map_def)
      with table_index_spec [OF Some] obtain i where i: "i < 29" "b = 0xA1 + of_nat i" "ucast (iso8859_7_unicode_map ! i) = w"
        by auto
      from t i(1) have "iso8859_7_conv_to_uc32 (ucast (0xA1 + of_nat i :: u8)) = ucast (iso8859_7_unicode_map ! i)"
        using bspec [OF t [unfolded list_all_iff], of i] by simp
      with i Some f show ?thesis by (simp add: exact_def)
    qed (simp add: exact_def f)
  qed
qed

section \<open>Results\<close>

text \<open>The conversion tables of ISO 8859 parts 2, 3, 4, 10, 11, 13 and 14 are two-way: every one of the 256
  codes converted to Unicode and back is the same code, and whatever Unicode character is accepted is the one
  that its code stands for.\<close>

theorem iso8859_tables_two_way:
  "\<forall>(to, from) \<in> set [(iso8859_2_conv_to_uc32, iso8859_2_conv_from_uc32), (iso8859_3_conv_to_uc32, iso8859_3_conv_from_uc32),
      (iso8859_4_conv_to_uc32, iso8859_4_conv_from_uc32), (iso8859_10_conv_to_uc32, iso8859_10_conv_from_uc32),
      (iso8859_11_conv_to_uc32, iso8859_11_conv_from_uc32), (iso8859_13_conv_to_uc32, iso8859_13_conv_from_uc32),
      (iso8859_14_conv_to_uc32, iso8859_14_conv_from_uc32)]. round_trips to from c \<and> exact to from w"
  unfolding iso8859_2_conv_to_uc32_def iso8859_2_conv_from_uc32_def iso8859_3_conv_to_uc32_def iso8859_3_conv_from_uc32_def
    iso8859_4_conv_to_uc32_def iso8859_4_conv_from_uc32_def iso8859_10_conv_to_uc32_def iso8859_10_conv_from_uc32_def
    iso8859_11_conv_to_uc32_def iso8859_11_conv_from_uc32_def iso8859_13_conv_to_uc32_def iso8859_13_conv_from_uc32_def
    iso8859_14_conv_to_uc32_def iso8859_14_conv_from_uc32_def
  by (simp add: iso2.to_from iso2.from_to iso3.to_from iso3.from_to iso4.to_from iso4.from_to iso10.to_from iso10.from_to
    iso11.to_from iso11.from_to iso13.to_from iso13.from_to iso14.to_from iso14.from_to)

lemma iso8859_tables_witness:
  "round_trips iso8859_13_conv_to_uc32 iso8859_13_conv_from_uc32 0xF0
   \<and> exact iso8859_13_conv_to_uc32 iso8859_13_conv_from_uc32 0x0161"
  using iso8859_tables_two_way [of "0xF0" "0x0161"] by simp

text \<open>The conversions written as cases. Parts 5, 9, 15 and 16 bring every code back; Greek (7) all but 0xFF;
  Hebrew (8) all but the multiplication sign, the double low line and the two direction marks; JIS X 0201 all
  but 0x80 and the codes from 0xE0. A Unicode character accepted is the one that its code stands for in Greek;
  in Cyrillic (5) for all but three; in parts 9, 15 and 16 for all but the Latin-1 characters whose codes were
  given to others, which are accepted as those.\<close>

theorem iso8859_cases_exact:
  "round_trips iso8859_5_conv_to_uc32 iso8859_5_conv_from_uc32 c
   \<and> (exact iso8859_5_conv_to_uc32 iso8859_5_conv_from_uc32 w \<longleftrightarrow> w \<notin> {0x040D, 0x0450, 0x045D})
   \<and> (round_trips iso8859_7_conv_to_uc32 iso8859_7_conv_from_uc32 c \<longleftrightarrow> c \<noteq> 0xFF)
   \<and> exact iso8859_7_conv_to_uc32 iso8859_7_conv_from_uc32 w
   \<and> (round_trips iso8859_8_conv_to_uc32 iso8859_8_conv_from_uc32 c \<longleftrightarrow> c \<notin> {0xAA, 0xDF, 0xFD, 0xFE})
   \<and> round_trips iso8859_9_conv_to_uc32 iso8859_9_conv_from_uc32 c
   \<and> (exact iso8859_9_conv_to_uc32 iso8859_9_conv_from_uc32 w \<longleftrightarrow> w \<notin> set (map (\<lambda>(c, u). ucast c) latin5_cases))
   \<and> round_trips iso8859_15_conv_to_uc32 iso8859_15_conv_from_uc32 c
   \<and> (exact iso8859_15_conv_to_uc32 iso8859_15_conv_from_uc32 w \<longleftrightarrow> w \<notin> set (map (\<lambda>(c, u). ucast c) latin9_cases))
   \<and> round_trips iso8859_16_conv_to_uc32 iso8859_16_conv_from_uc32 c
   \<and> (exact iso8859_16_conv_to_uc32 iso8859_16_conv_from_uc32 w \<longleftrightarrow> w \<notin> set (map (\<lambda>(c, u). ucast c) latin10_cases))
   \<and> (round_trips jisx0201_1_conv_to_uc32 jisx0201_1_conv_from_uc32 c \<longleftrightarrow> c \<noteq> 0x80 \<and> c < 0xE0)"
  by (intro conjI) (rule rt5 exact5 rt7 exact7 rt8 rtj
      l5.all_round_trip [folded conv_by_cases] l5.exact_iff [folded conv_by_cases]
      l9.all_round_trip [folded conv_by_cases] l9.exact_iff [folded conv_by_cases]
      l10.all_round_trip [folded conv_by_cases] l10.exact_iff [folded conv_by_cases])+

text \<open>Hebrew: a character up to U+05CF outside the charset is not refused but cut to its low byte.\<close>

lemma iso8859_8_truncates: "iso8859_8_conv_from_uc32 0x0141 = Some 0x41"
  by code_simp

text \<open>The words of \<open>ab cd ef\<close>: the scan goes on over the second word and counts the blank behind it, so the
  next word is reported one byte late.\<close>

lemma sb_next_word_late:
  "sb_get_next_word (\<lambda>i. [0x61, 0x62, 0x20, 0x63, 0x64, 0x20, 0x65, 0x66] ! (i mod 8)) 0 8
   = Some (\<lparr>wi_len = 2, wi_delimiter = 0x20, wi_nr_delimiters = 2\<rparr>, Some 4)"
  by code_simp


end
