(* ===== verification/MG_DoubleByte.thy ===== *)
theory MG_DoubleByte
  imports MG_SingleByte
begin

unbundle bit_operations_syntax

text \<open>
  The multi-byte charsets of \<open>src/font/charset.c\<close>: GB 2312, GBK, GB 18030, Big5, KS C 5601, JIS X 0208 in its EUC
  and its Shift-JIS form, and the JIS X 0201 of EUC-JP. The scanning functions of the two-byte charsets are
  copies of each other around the test of a pair of bytes; here they take the test. The large conversion
  tables and the generated searches in them are arguments.
\<close>

section \<open>Pairs of bytes\<close>

type_synonym pair_test = "u8 \<Rightarrow> u8 \<Rightarrow> bool"

definition IS_GB2312_CHAR :: pair_test where
  "IS_GB2312_CHAR ch1 ch2 \<longleftrightarrow>
     (ch1 \<ge> 0xA1 \<and> ch1 \<le> 0xA9 \<or> ch1 \<ge> 0xB0 \<and> ch1 \<le> 0xF7) \<and> ch2 \<ge> 0xA1 \<and> ch2 \<le> 0xFE"

definition IS_GBK_CHAR :: pair_test where
  "IS_GBK_CHAR ch1 ch2 \<longleftrightarrow> ch1 \<ge> 0x81 \<and> ch1 \<le> 0xFE \<and> ch2 \<ge> 0x40 \<and> ch2 \<le> 0xFE \<and> ch2 \<noteq> 0x7F"

definition is_big5_char :: pair_test where
  "is_big5_char ch1 ch2 \<longleftrightarrow>
     ch1 \<ge> 0xA1 \<and> ch1 \<le> 0xFE \<and> (ch2 \<ge> 0x40 \<and> ch2 \<le> 0x7E \<or> ch2 \<ge> 0xA1 \<and> ch2 \<le> 0xFE)"

definition is_ksc5601_char :: pair_test where
  "is_ksc5601_char ch1 ch2 \<longleftrightarrow> ch1 \<ge> 0xA1 \<and> ch1 \<le> 0xFE \<and> ch2 \<ge> 0xA1 \<and> ch2 \<le> 0xFE"

definition is_jisx0208_0_char :: pair_test where
  "is_jisx0208_0_char ch1 ch2 \<longleftrightarrow> ch1 \<ge> 0xA1 \<and> ch1 \<le> 0xFE \<and> ch2 \<ge> 0xA1 \<and> ch2 \<le> 0xFE"

definition is_jisx0208_1_char :: pair_test where
  "is_jisx0208_1_char ch1 ch2 \<longleftrightarrow>
     (ch1 \<ge> 0x81 \<and> ch1 \<le> 0x9F \<or> ch1 \<ge> 0xE0 \<and> ch1 \<le> 0xEF) \<and> (ch2 \<ge> 0x40 \<and> ch2 \<le> 0x7E \<or> ch2 \<ge> 0x80 \<and> ch2 \<le> 0xFC)"

section \<open>Scanning\<close>

definition db_len_first_char :: "pair_test \<Rightarrow> bytes \<Rightarrow> nat \<Rightarrow> int \<Rightarrow> nat" where
  "db_len_first_char is_char m mstr len =
     (if len < 2 then 0 else if m mstr = 0 then 0 else if is_char (m mstr) (m (mstr + 1)) then 2 else 0)"

function db_substr_loop :: "pair_test \<Rightarrow> bytes \<Rightarrow> nat \<Rightarrow> int \<Rightarrow> nat \<Rightarrow> int \<Rightarrow> int \<Rightarrow> int" where
  "db_substr_loop is_char m mstr mstrlen i left sub_len =
     (if int i < mstrlen then
        if left < 2 then sub_len
        else if m (mstr + i) = 0 then sub_len
        else if is_char (m (mstr + i)) (m (mstr + i + 1))
        then db_substr_loop is_char m mstr mstrlen (i + 2) (left - 2) (sub_len + 2)
        else sub_len
      else sub_len)"
  by auto
termination by (relation "measure (\<lambda>(c, m, p, l, i, left, s). nat (l - int i))") auto

declare db_substr_loop.simps [simp del]

definition db_len_first_substr :: "pair_test \<Rightarrow> bytes \<Rightarrow> nat \<Rightarrow> int \<Rightarrow> int" where
  "db_len_first_substr is_char m mstr mstrlen = db_substr_loop is_char m mstr mstrlen 0 mstrlen 0"

function db_pos_loop :: "pair_test \<Rightarrow> bytes \<Rightarrow> nat \<Rightarrow> nat \<Rightarrow> int \<Rightarrow> int" where
  "db_pos_loop is_char m mstr i left =
     (if left \<noteq> 0 then
        if left < 2 then - 1
        else if m (mstr + i) = 0 then - 1
        else if is_char (m (mstr + i)) (m (mstr + i + 1)) then int i
        else db_pos_loop is_char m mstr (i + 1) (left - 1)
      else - 1)"
  by auto
termination by (relation "measure (\<lambda>(c, m, p, i, left). nat left)") auto

declare db_pos_loop.simps [simp del]

definition db_pos_first_char :: "pair_test \<Rightarrow> bytes \<Rightarrow> nat \<Rightarrow> int \<Rightarrow> int option" where
  "db_pos_first_char is_char m mstr mstrlen = Some (db_pos_loop is_char m mstr 0 mstrlen)"

text \<open>An odd length fails the assertion.\<close>

definition db_nr_chars_in_str :: "bytes \<Rightarrow> nat \<Rightarrow> int \<Rightarrow> int option" where
  "db_nr_chars_in_str m mstr mstrlen = (if 2 dvd mstrlen then Some (mstrlen div 2) else None)"

definition db_get_next_word :: "bytes \<Rightarrow> nat \<Rightarrow> int \<Rightarrow> (WORDINFO \<times> nat option) option" where
  "db_get_next_word m mstr mstrlen =
     (if 2 dvd mstrlen then
        Some (if mstrlen < 2 then (no_word, None) else (no_word\<lparr>wi_len := 2\<rparr>, Some (mstr + 2)))
      else None)"

section \<open>Character values\<close>

text \<open>The values are computed in \<open>int\<close> and converted to \<open>Achar32\<close>.\<close>

definition gb2312_0_value :: "int \<Rightarrow> int \<Rightarrow> int" where
  "gb2312_0_value c1 c2 =
     (let area = c1 - 0xA1
      in if area < 9 then area * 94 + c2 - 0xA1 else if area \<ge> 15 then (area - 6) * 94 + c2 - 0xA1 else 0)"

definition gbk_value :: "int \<Rightarrow> int \<Rightarrow> int" where
  "gbk_value c1 c2 = (if c2 > 0x7F then (c1 - 0x81) * 190 + c2 - 0x41 else (c1 - 0x81) * 190 + c2 - 0x40)"

definition big5_value :: "int \<Rightarrow> int \<Rightarrow> int" where
  "big5_value c1 c2 =
     (if c2 \<ge> 0x80 then (c1 - 0xA1) * 94 + c2 - 0xA1 else 94 * 94 + (c1 - 0xA1) * 63 + (c2 - 0x40))"

definition ksc5601_0_value :: "int \<Rightarrow> int \<Rightarrow> int" where
  "ksc5601_0_value c1 c2 = (c1 - 0xA1) * 94 + c2 - 0xA1"

definition jisx0208_0_value :: "int \<Rightarrow> int \<Rightarrow> int" where
  "jisx0208_0_value c1 c2 = (c1 - 0xA1) * 94 + c2 - 0xA1"

text \<open>The two variables of the Shift-JIS computation are \<open>unsigned char\<close>.\<close>

definition jisx0208_1_value :: "int \<Rightarrow> int \<Rightarrow> int" where
  "jisx0208_1_value c1 c2 =
     (let adjust = (if c2 < 159 then 1 else 0);
          rowOffset = (if c1 < 160 then 112 else 176);
          cellOffset = (if c2 < 159 then if c2 > 127 then 32 else 31 else 126);
          ch1 = ((c1 - rowOffset) * 2 - adjust) mod 256;
          ch2 = (c2 - cellOffset) mod 256;
          ch1' = (ch1 + 128) mod 256;
          ch2' = (ch2 + 128) mod 256
      in (ch1' - 0xA1) * 94 + ch2' - 0xA1)"

definition pair_value :: "(int \<Rightarrow> int \<Rightarrow> int) \<Rightarrow> bytes \<Rightarrow> nat \<Rightarrow> Achar32" where
  "pair_value val m cur = word_of_int (val (uint (m cur)) (uint (m (cur + 1))))"

section \<open>GB 18030\<close>

definition gb18030_pair :: pair_test where
  "gb18030_pair ch1 ch2 \<longleftrightarrow> ch1 \<ge> 0x81 \<and> ch1 \<le> 0xFE \<and> ch2 \<ge> 0x40 \<and> ch2 \<le> 0xFE \<and> ch2 \<noteq> 0x7F"

definition gb18030_four :: "u8 \<Rightarrow> u8 \<Rightarrow> u8 \<Rightarrow> u8 \<Rightarrow> bool" where
  "gb18030_four ch1 ch2 ch3 ch4 \<longleftrightarrow>
     ch2 \<ge> 0x30 \<and> ch2 \<le> 0x39 \<and> ch4 \<ge> 0x30 \<and> ch4 \<le> 0x39 \<and> ch1 \<ge> 0x81 \<and> ch1 \<le> 0xFE \<and> ch3 \<ge> 0x81 \<and> ch3 \<le> 0xFE"

definition gb18030_0_len_first_char :: "bytes \<Rightarrow> nat \<Rightarrow> int \<Rightarrow> nat" where
  "gb18030_0_len_first_char m mstr len =
     (if len < 2 then 0
      else if m mstr = 0 then 0
      else if gb18030_pair (m mstr) (m (mstr + 1)) then 2
      else if len < 4 then 0
      else if gb18030_four (m mstr) (m (mstr + 1)) (m (mstr + 2)) (m (mstr + 3)) then 4
      else 0)"

definition gb18030_0_get_char_value :: "bytes \<Rightarrow> nat \<Rightarrow> Achar32" where
  "gb18030_0_get_char_value m cur =
     (let ch1 = uint (m cur); ch2 = uint (m (cur + 1))
      in if ch2 \<ge> 0x40 then word_of_int ((ch1 - 0x81) * 192 + (ch2 - 0x40))
         else let ch3 = uint (m (cur + 2)); ch4 = uint (m (cur + 3))
              in word_of_int (126 * 192 +
                   ((ch1 - 0x81) * 12600 + (ch2 - 0x30) * 1260 + (ch3 - 0x81) * 10 + (ch4 - 0x30))))"

text \<open>Four bytes that are no character change nothing but the position.\<close>

function gb18030_substr_loop :: "bytes \<Rightarrow> nat \<Rightarrow> int \<Rightarrow> nat \<Rightarrow> int \<Rightarrow> int \<Rightarrow> int" where
  "gb18030_substr_loop m mstr mstrlen i left sub_len =
     (if int i < mstrlen then
        if left < 2 then sub_len
        else if m (mstr + i) = 0 then sub_len
        else if gb18030_pair (m (mstr + i)) (m (mstr + i + 1))
        then gb18030_substr_loop m mstr mstrlen (i + 2) (left - 2) (sub_len + 2)
        else if left \<ge> 4 then
          if gb18030_four (m (mstr + i)) (m (mstr + i + 1)) (m (mstr + i + 2)) (m (mstr + i + 3))
          then gb18030_substr_loop m mstr mstrlen (i + 4) (left - 4) (sub_len + 4)
          else gb18030_substr_loop m mstr mstrlen (i + 2) left sub_len
        else sub_len
      else sub_len)"
  by auto
termination by (relation "measure (\<lambda>(m, p, l, i, left, s). nat (l - int i))") auto

declare gb18030_substr_loop.simps [simp del]

definition gb18030_0_len_first_substr :: "bytes \<Rightarrow> nat \<Rightarrow> int \<Rightarrow> int" where
  "gb18030_0_len_first_substr m mstr mstrlen = gb18030_substr_loop m mstr mstrlen 0 mstrlen 0"

function gb18030_pos_loop :: "bytes \<Rightarrow> nat \<Rightarrow> nat \<Rightarrow> int \<Rightarrow> int" where
  "gb18030_pos_loop m mstr i left =
     (if left \<noteq> 0 then
        if left < 2 then - 1
        else if m (mstr + i) = 0 then - 1
        else if gb18030_pair (m (mstr + i)) (m (mstr + i + 1)) then int i
        else if left < 4 then - 1
        else if gb18030_four (m (mstr + i)) (m (mstr + i + 1)) (m (mstr + i + 2)) (m (mstr + i + 3)) then int i
        else gb18030_pos_loop m mstr (i + 1) (left - 1)
      else - 1)"
  by auto
termination by (relation "measure (\<lambda>(m, p, i, left). nat left)") auto

declare gb18030_pos_loop.simps [simp del]

definition gb18030_0_pos_first_char :: "bytes \<Rightarrow> nat \<Rightarrow> int \<Rightarrow> int option" where
  "gb18030_0_pos_first_char m mstr mstrlen = Some (gb18030_pos_loop m mstr 0 mstrlen)"

function gb18030_count_loop :: "bytes \<Rightarrow> nat \<Rightarrow> nat \<Rightarrow> int \<Rightarrow> int \<Rightarrow> int" where
  "gb18030_count_loop m mstr i left n =
     (if left \<noteq> 0 then
        if left \<ge> 2 \<and> m (mstr + i + 1) \<ge> 0x40 then gb18030_count_loop m mstr (i + 2) (left - 2) (n + 1)
        else if left \<ge> 4 then gb18030_count_loop m mstr (i + 4) (left - 4) (n + 1)
        else n
      else n)"
  by auto
termination by (relation "measure (\<lambda>(m, p, i, left, n). nat left)") auto

declare gb18030_count_loop.simps [simp del]

definition gb18030_0_nr_chars_in_str :: "bytes \<Rightarrow> nat \<Rightarrow> int \<Rightarrow> int option" where
  "gb18030_0_nr_chars_in_str m mstr mstrlen =
     (if 2 dvd mstrlen then Some (gb18030_count_loop m mstr 0 mstrlen 0) else None)"

definition gb18030_0_get_next_word :: "bytes \<Rightarrow> nat \<Rightarrow> int \<Rightarrow> (WORDINFO \<times> nat option) option" where
  "gb18030_0_get_next_word m mstr mstrlen =
     (if 2 dvd mstrlen then
        Some (if mstrlen < 2 then (no_word, None)
              else let w = (if m (mstr + 1) \<ge> 0x40 then no_word\<lparr>wi_len := 2\<rparr>
                            else if mstrlen \<ge> 4 then no_word\<lparr>wi_len := 4\<rparr> else no_word)
                   in (w, Some (mstr + wi_len w)))
      else None)"

definition gb18030_0_conv_to_uc32 :: "(nat \<Rightarrow> Uchar16) \<Rightarrow> Achar32 \<Rightarrow> Uchar32" where
  "gb18030_0_conv_to_uc32 unicode_map chv0 =
     (let chv = REAL_ACHAR chv0
      in if chv > 63611 then
           let m1 = (uint chv - 24192) div 12600; n1 = (uint chv - 24192) mod 12600;
               m2 = n1 div 1260; n2 = n1 mod 1260; m3 = n2 div 10; n3 = n2 mod 10
           in word_of_int ((m1 + 129 - 144) * 12600 + m2 * 1260 + m3 * 10 + n3 + 65536)
         else ucast (unicode_map (unat chv)))"

definition put4 :: "bytes \<Rightarrow> nat \<Rightarrow> int \<Rightarrow> int \<Rightarrow> int \<Rightarrow> int \<Rightarrow> bytes" where
  "put4 m p a b c d = m(p := word_of_int a, p + 1 := word_of_int b, p + 2 := word_of_int c, p + 3 := word_of_int d)"

definition gb18030_0_conv_from_uc32 :: "(int \<Rightarrow> bytes \<Rightarrow> nat \<Rightarrow> nat \<times> bytes) \<Rightarrow> Uchar32 \<Rightarrow> bytes \<Rightarrow> nat \<Rightarrow> nat \<times> bytes" where
  "gb18030_0_conv_from_uc32 map_ucs_to_gb18030 wc m p =
     (if wc > 0x10FFFF then (0, m)
      else if wc \<ge> 0x10000 \<and> wc \<le> 0x10FFFF then
        let m1 = (uint wc - 65536) div 12600; n1 = (uint wc - 65536) mod 12600;
            m2 = n1 div 1260; n2 = n1 mod 1260; m3 = n2 div 10; n3 = n2 mod 10
        in (4, put4 m p (m1 + 144) (m2 + 48) (m3 + 129) (n3 + 48))
      else map_ucs_to_gb18030 (uint wc) m p)"

section \<open>Values are indices\<close>

lemma digits_inject:
  assumes "a * k + b = c * k + (d :: int)" "0 \<le> b" "b < k" "0 \<le> d" "d < k"
  shows "a = c \<and> b = d"
proof -
  have "a = (a * k + b) div k" "c = (c * k + d) div k" using assms(2-5) by simp_all
  with assms(1) have "a = c" by simp
  with assms(1) show ?thesis by simp
qed

text \<open>A numbering of the valid pairs: rows and cells of \<open>k\<close> characters, all below the number of characters of
  the charset, different for different pairs.\<close>

definition numbers :: "pair_test \<Rightarrow> (int \<Rightarrow> int \<Rightarrow> int) \<Rightarrow> int \<Rightarrow> bool" where
  "numbers is_char val nr \<longleftrightarrow>
     (\<forall>a b. is_char a b \<longrightarrow> 0 \<le> val (uint a) (uint b) \<and> val (uint a) (uint b) < nr)
     \<and> (\<forall>a b c d. is_char a b \<longrightarrow> is_char c d \<longrightarrow> val (uint a) (uint b) = val (uint c) (uint d) \<longrightarrow> a = c \<and> b = d)"

lemma numbersI:
  assumes v: "\<And>a b. is_char a b \<Longrightarrow> \<exists>r c. val (uint a) (uint b) = r * k + c \<and> rc (uint a) (uint b) = (r, c)
      \<and> 0 \<le> r \<and> 0 \<le> c \<and> c < k \<and> r * k + c < nr"
    and i: "\<And>a b c d. is_char a b \<Longrightarrow> is_char c d \<Longrightarrow> rc (uint a) (uint b) = rc (uint c) (uint d) \<Longrightarrow> a = c \<and> b = d"
  shows "numbers is_char val nr"
proof -
  have "a = c \<and> b = d" if "is_char a b" "is_char c d" "val (uint a) (uint b) = val (uint c) (uint d)" for a b c d
  proof -
    from v [OF that(1)] obtain r1 c1 where 1: "val (uint a) (uint b) = r1 * k + c1" "rc (uint a) (uint b) = (r1, c1)"
      "0 \<le> c1" "c1 < k" by blast
    from v [OF that(2)] obtain r2 c2 where 2: "val (uint c) (uint d) = r2 * k + c2" "rc (uint c) (uint d) = (r2, c2)"
      "0 \<le> c2" "c2 < k" by blast
    from 1 2 that(3) have "r1 * k + c1 = r2 * k + c2" by simp
    from digits_inject [OF this 1(3,4) 2(3,4)] 1(2) 2(2) show ?thesis by (intro i [OF that(1,2)]) simp
  qed
  moreover have "0 \<le> val (uint a) (uint b) \<and> val (uint a) (uint b) < nr" if c: "is_char a b" for a b
  proof -
    from v [OF c] obtain r c where "val (uint a) (uint b) = r * k + c" "0 \<le> r" "0 \<le> c" "c < k" "r * k + c < nr" by blast
    then show ?thesis by simp
  qed
  ultimately show ?thesis unfolding numbers_def by blast
qed

lemmas pair_bounds = IS_GB2312_CHAR_def IS_GBK_CHAR_def is_big5_char_def is_ksc5601_char_def is_jisx0208_0_char_def
  is_jisx0208_1_char_def word_le_def

lemma byte_eq: "a = (b :: u8) \<longleftrightarrow> uint a = uint b"
  by (simp add: word_uint_eq_iff)

lemma gb2312_numbers: "numbers IS_GB2312_CHAR gb2312_0_value (94 * 81)"
  by (rule numbersI [where k = 94 and rc = "\<lambda>a b. (if a - 0xA1 < 9 then a - 0xA1 else a - 0xA1 - 6, b - 0xA1)"])
    (auto simp: pair_bounds gb2312_0_value_def Let_def byte_eq split: if_splits)

lemma gbk_numbers: "numbers IS_GBK_CHAR gbk_value (126 * 190)"
proof (rule numbersI [where k = 190 and rc = "\<lambda>a b. (a - 0x81, if b > 0x7F then b - 0x41 else b - 0x40)"])
  fix a b c d
  assume "IS_GBK_CHAR a b" "IS_GBK_CHAR c d" and
    "(uint a - 0x81, if uint b > 0x7F then uint b - 0x41 else uint b - 0x40) =
     (uint c - 0x81, if uint d > 0x7F then uint d - 0x41 else uint d - 0x40)"
  then show "a = c \<and> b = d" by (auto simp: pair_bounds byte_eq split: if_splits)
qed (auto simp: pair_bounds gbk_value_def byte_eq split: if_splits)

lemma ksc5601_numbers: "numbers is_ksc5601_char ksc5601_0_value (94 * 94)"
  by (rule numbersI [where k = 94 and rc = "\<lambda>a b. (a - 0xA1, b - 0xA1)"])
    (auto simp: pair_bounds ksc5601_0_value_def byte_eq)

lemma jisx0208_0_numbers: "numbers is_jisx0208_0_char jisx0208_0_value (94 * 94)"
  by (rule numbersI [where k = 94 and rc = "\<lambda>a b. (a - 0xA1, b - 0xA1)"])
    (auto simp: pair_bounds jisx0208_0_value_def byte_eq)


text \<open>Big5 numbers the pairs with a high second byte first.\<close>

lemma big5_high:
  "is_big5_char a b \<Longrightarrow> 0x80 \<le> uint b \<Longrightarrow> big5_value (uint a) (uint b) = (uint a - 0xA1) * 94 + (uint b - 0xA1)
     \<and> 0 \<le> uint a - 0xA1 \<and> uint a - 0xA1 < 94 \<and> 0 \<le> uint b - 0xA1 \<and> uint b - 0xA1 < 94"
  by (auto simp: pair_bounds big5_value_def)

lemma big5_low:
  "is_big5_char a b \<Longrightarrow> \<not> 0x80 \<le> uint b \<Longrightarrow> big5_value (uint a) (uint b) = 8836 + ((uint a - 0xA1) * 63 + (uint b - 0x40))
     \<and> 0 \<le> uint a - 0xA1 \<and> uint a - 0xA1 < 94 \<and> 0 \<le> uint b - 0x40 \<and> uint b - 0x40 < 63"
  by (auto simp: pair_bounds big5_value_def)

lemma big5_side: "is_big5_char a b \<Longrightarrow> big5_value (uint a) (uint b) < 8836 \<longleftrightarrow> 0x80 \<le> uint b"
  using big5_high [of a b] big5_low [of a b] by (cases "0x80 \<le> uint b") auto

lemma big5_inject:
  assumes v: "is_big5_char a b" "is_big5_char c d" and e: "big5_value (uint a) (uint b) = big5_value (uint c) (uint d)"
  shows "a = c \<and> b = d"
proof (cases "0x80 \<le> uint b")
  case True
  with big5_side [OF v(1)] big5_side [OF v(2)] e have h: "0x80 \<le> uint d" by simp
  from big5_high [OF v(1) True] big5_high [OF v(2) h] e
    digits_inject [of "uint a - 0xA1" 94 "uint b - 0xA1" "uint c - 0xA1" "uint d - 0xA1"]
  show ?thesis by (simp add: byte_eq)
next
  case False
  with big5_side [OF v(1)] big5_side [OF v(2)] e have l: "\<not> 0x80 \<le> uint d" by simp
  from big5_low [OF v(1) False] big5_low [OF v(2) l] e
    digits_inject [of "uint a - 0xA1" 63 "uint b - 0x40" "uint c - 0xA1" "uint d - 0x40"]
  show ?thesis by (simp add: byte_eq)
qed

lemma big5_numbers: "numbers is_big5_char big5_value 14758"
proof -
  have "0 \<le> big5_value (uint a) (uint b) \<and> big5_value (uint a) (uint b) < 14758" if "is_big5_char a b" for a b
    using big5_high [OF that] big5_low [OF that] by (cases "0x80 \<le> uint b") auto
  then show ?thesis unfolding numbers_def using big5_inject by blast
qed

text \<open>Row and cell of a Shift-JIS pair, without the arithmetic of \<open>unsigned char\<close>.\<close>

definition sjis_row :: "int \<Rightarrow> int \<Rightarrow> int" where
  "sjis_row c1 c2 = (c1 - (if c1 < 160 then 112 else 176)) * 2 - (if c2 < 159 then 1 else 0) - 33"

definition sjis_cell :: "int \<Rightarrow> int" where
  "sjis_cell c2 = c2 - (if c2 < 159 then if c2 > 127 then 32 else 31 else 126) - 33"

lemma sjis_row_cell:
  assumes "is_jisx0208_1_char a b"
  shows "jisx0208_1_value (uint a) (uint b) = sjis_row (uint a) (uint b) * 94 + sjis_cell (uint b)
    \<and> 0 \<le> sjis_row (uint a) (uint b) \<and> sjis_row (uint a) (uint b) < 94 \<and> 0 \<le> sjis_cell (uint b) \<and> sjis_cell (uint b) < 94"
proof -
  have r: "0 \<le> sjis_row (uint a) (uint b)" "sjis_row (uint a) (uint b) < 94" "0 \<le> sjis_cell (uint b)" "sjis_cell (uint b) < 94"
    using assms by (auto simp: pair_bounds sjis_row_def sjis_cell_def)
  have "jisx0208_1_value (uint a) (uint b)
    = (((sjis_row (uint a) (uint b) + 33) mod 256 + 128) mod 256 - 0xA1) * 94 + ((sjis_cell (uint b) + 33) mod 256 + 128) mod 256 - 0xA1"
    by (simp add: jisx0208_1_value_def sjis_row_def sjis_cell_def Let_def)
  with r show ?thesis by simp
qed

lemma jisx0208_1_numbers: "numbers is_jisx0208_1_char jisx0208_1_value (94 * 94)"
proof (rule numbersI [where k = 94 and rc = "\<lambda>a b. (sjis_row a b, sjis_cell b)"])
  fix a b c d
  assume v: "is_jisx0208_1_char a b" "is_jisx0208_1_char c d"
    and "(sjis_row (uint a) (uint b), sjis_cell (uint b)) = (sjis_row (uint c) (uint d), sjis_cell (uint d))"
  then have r: "sjis_row (uint a) (uint b) = sjis_row (uint c) (uint d)" and e: "sjis_cell (uint b) = sjis_cell (uint d)" by simp_all
  have adj: "(if uint b < 159 then 1 else 0 :: int) = (if uint d < 159 then 1 else 0)"
    using r unfolding sjis_row_def by presburger
  have b: "uint b = uint d"
    using e adj v unfolding sjis_cell_def pair_bounds by (auto split: if_splits)
  have "uint a - (if uint a < 160 then 112 else 176) = uint c - (if uint c < 160 then 112 else 176)"
    using r b unfolding sjis_row_def by simp
  with v have "uint a = uint c" unfolding pair_bounds by (auto split: if_splits)
  with b show "a = c \<and> b = d" by (simp add: byte_eq)
next
  fix a b
  assume "is_jisx0208_1_char a b"
  from sjis_row_cell [OF this] show "\<exists>r c. jisx0208_1_value (uint a) (uint b) = r * 94 + c
    \<and> (sjis_row (uint a) (uint b), sjis_cell (uint b)) = (r, c) \<and> 0 \<le> r \<and> 0 \<le> c \<and> c < 94 \<and> r * 94 + c < 94 * 94"
    by (intro exI [of _ "sjis_row (uint a) (uint b)"] exI [of _ "sjis_cell (uint b)"]) simp
qed

section \<open>The scans agree with the first character\<close>

lemma db_substr_loop_eq:
  assumes "int i + left = l"
  shows "db_substr_loop is_char m p l i left s = s + int (substr_loop (db_len_first_char is_char) m (p + i) left 0)"
  using assms
proof (induction "nat left" arbitrary: i left s rule: less_induct)
  case less
  let ?len = "db_len_first_char is_char m (p + i) left"
  show ?case
  proof (cases "0 < left \<and> ?len \<noteq> 0")
    case False
    then show ?thesis using less.prems
      by (subst db_substr_loop.simps, subst substr_loop.simps)
        (auto simp: db_len_first_char_def Let_def split: if_splits)
  next
    case True
    then have c: "2 \<le> left" "m (p + i) \<noteq> 0" "is_char (m (p + i)) (m (p + i + 1))"
      by (auto simp: db_len_first_char_def split: if_splits)
    have "nat (left - 2) < nat left" "int (i + 2) + (left - 2) = l" using c less.prems by simp_all
    from less.hyps [OF this, of "s + 2"] have
      "db_substr_loop is_char m p l (i + 2) (left - 2) (s + 2)
       = s + 2 + int (substr_loop (db_len_first_char is_char) m (p + i + 2) (left - 2) 0)" by (simp add: add.assoc)
    with c less.prems show ?thesis
      by (subst db_substr_loop.simps, subst substr_loop.simps)
        (simp add: db_len_first_char_def Let_def substr_loop_acc [of _ _ _ _ "Suc (Suc 0)"])
  qed
qed


interpretation db: char_lengths "db_len_first_char is_char" for is_char
  by unfold_locales (auto simp: db_len_first_char_def split: if_splits)

interpretation gb18030: char_lengths gb18030_0_len_first_char
  by unfold_locales (auto simp: gb18030_0_len_first_char_def split: if_splits)

lemma db_pos_loop_spec:
  assumes "0 \<le> left"
  shows "case db_pos_loop is_char m p i left of r \<Rightarrow>
    (r = - 1 \<or> int i \<le> r \<and> r + 2 \<le> int i + left \<and> 0 < db_len_first_char is_char m (p + nat r) 2
       \<and> (\<forall>k. i \<le> k \<and> int k \<le> r \<longrightarrow> m (p + k) \<noteq> 0))
    \<and> (\<forall>j. i \<le> j \<and> int j + 2 \<le> int i + left \<and> (r = - 1 \<or> int j < r) \<and> (\<forall>k. i \<le> k \<and> k \<le> j \<longrightarrow> m (p + k) \<noteq> 0)
         \<longrightarrow> db_len_first_char is_char m (p + j) 2 = 0)"
  using assms
proof (induction "nat left" arbitrary: i left rule: less_induct)
  case less
  consider (stop) "left < 2 \<or> m (p + i) = 0" | (found) "2 \<le> left" "m (p + i) \<noteq> 0" "is_char (m (p + i)) (m (p + i + 1))"
    | (skip) "2 \<le> left" "m (p + i) \<noteq> 0" "\<not> is_char (m (p + i)) (m (p + i + 1))"
    by linarith
  then show ?case
  proof cases
    case stop
    then have r: "db_pos_loop is_char m p i left = - 1" by (subst db_pos_loop.simps) auto
    show ?thesis unfolding r using stop by (auto simp: db_len_first_char_def)
  next
    case found
    then have r: "db_pos_loop is_char m p i left = int i" by (subst db_pos_loop.simps) auto
    show ?thesis unfolding r using found by (auto simp: db_len_first_char_def dest: le_antisym)
  next
    case skip
    then have r: "db_pos_loop is_char m p i left = db_pos_loop is_char m p (i + 1) (left - 1)"
      by (subst db_pos_loop.simps) auto
    let ?r = "db_pos_loop is_char m p (i + 1) (left - 1)"
    have ih: "(?r = - 1 \<or> int (i + 1) \<le> ?r \<and> ?r + 2 \<le> int (i + 1) + (left - 1) \<and> 0 < db_len_first_char is_char m (p + nat ?r) 2
         \<and> (\<forall>k. i + 1 \<le> k \<and> int k \<le> ?r \<longrightarrow> m (p + k) \<noteq> 0))
      \<and> (\<forall>j. i + 1 \<le> j \<and> int j + 2 \<le> int (i + 1) + (left - 1) \<and> (?r = - 1 \<or> int j < ?r)
           \<and> (\<forall>k. i + 1 \<le> k \<and> k \<le> j \<longrightarrow> m (p + k) \<noteq> 0) \<longrightarrow> db_len_first_char is_char m (p + j) 2 = 0)"
      using less.hyps [of "left - 1" "i + 1"] skip(1) by simp
    have here: "db_len_first_char is_char m (p + i) 2 = 0" using skip by (simp add: db_len_first_char_def)
    have "db_len_first_char is_char m (p + j) 2 = 0"
      if "i \<le> j" "int j + 2 \<le> int i + left" "?r = - 1 \<or> int j < ?r" "\<forall>k. i \<le> k \<and> k \<le> j \<longrightarrow> m (p + k) \<noteq> 0" for j
    proof (cases "j = i")
      case False
      with that have "i + 1 \<le> j" "int j + 2 \<le> int (i + 1) + (left - 1)" "\<forall>k. i + 1 \<le> k \<and> k \<le> j \<longrightarrow> m (p + k) \<noteq> 0"
        by simp_all
      with ih that(3) show ?thesis by blast
    qed (simp add: here)
    moreover have "?r = - 1 \<or> int i \<le> ?r \<and> ?r + 2 \<le> int i + left \<and> 0 < db_len_first_char is_char m (p + nat ?r) 2
      \<and> (\<forall>k. i \<le> k \<and> int k \<le> ?r \<longrightarrow> m (p + k) \<noteq> 0)"
    proof (cases "?r = - 1")
      case False
      with conjunct1 [OF ih] have h: "int (i + 1) \<le> ?r" "?r + 2 \<le> int (i + 1) + (left - 1)"
        "0 < db_len_first_char is_char m (p + nat ?r) 2" "\<forall>k. i + 1 \<le> k \<and> int k \<le> ?r \<longrightarrow> m (p + k) \<noteq> 0" by simp_all
      have "m (p + k) \<noteq> 0" if "i \<le> k" "int k \<le> ?r" for k using h(4) skip(2) that by (cases "k = i") simp_all
      with h(1-3) show ?thesis by simp
    qed simp
    ultimately show ?thesis unfolding r by simp
  qed
qed

section \<open>Results\<close>

text \<open>C39: Every valid pair of bytes of GB 2312, GBK, Big5, KS C 5601 and of the two forms of JIS X 0208 has a
  character value of its own, from 0 up to the number of characters the charset declares.\<close>

theorem double_byte_values:
  "\<forall>(is_char, val, nr) \<in> set [(IS_GB2312_CHAR, gb2312_0_value, (0xFF - 0xA1) * (72 + 9)), (IS_GBK_CHAR, gbk_value, (0xFE - 0x80) * 190),
      (is_big5_char, big5_value, 14758), (is_ksc5601_char, ksc5601_0_value, 8836),
      (is_jisx0208_0_char, jisx0208_0_value, 8836), (is_jisx0208_1_char, jisx0208_1_value, 8836)]. numbers is_char val nr"
  using gb2312_numbers gbk_numbers big5_numbers ksc5601_numbers jisx0208_0_numbers jisx0208_1_numbers by simp

lemma double_byte_values_witness: "numbers is_jisx0208_1_char jisx0208_1_value 8836"
  using double_byte_values by simp

text \<open>C40: In every two-byte charset \<open>len_first_substr\<close> is the length of the longest prefix made of characters
  that \<open>len_first_char\<close> accepts, and \<open>pos_first_char\<close> is the first position where \<open>len_first_char\<close> accepts a
  character, or -1 when there is none before the end of the string and before its first zero byte: no zero byte
  stands before the position found.\<close>

theorem double_byte_scans:
  assumes "0 \<le> l"
  shows "(\<exists>ns. db_len_first_substr is_char m p l = int (sum_list ns)
      \<and> chars_at (db_len_first_char is_char) m p ns (p + sum_list ns) \<and> int (sum_list ns) \<le> l
      \<and> (int (sum_list ns) < l \<longrightarrow> db_len_first_char is_char m (p + sum_list ns) (l - int (sum_list ns)) = 0))
    \<and> (\<exists>r. db_pos_first_char is_char m p l = Some r
      \<and> (r = - 1 \<or> 0 \<le> r \<and> r + 2 \<le> l \<and> 0 < db_len_first_char is_char m (p + nat r) 2
           \<and> (\<forall>k. int k \<le> r \<longrightarrow> m (p + k) \<noteq> 0))
      \<and> (\<forall>j. int j + 2 \<le> l \<and> (r = - 1 \<or> int j < r) \<and> (\<forall>k. k \<le> j \<longrightarrow> m (p + k) \<noteq> 0)
           \<longrightarrow> db_len_first_char is_char m (p + j) 2 = 0))"
proof (rule conjI)
  have "db_len_first_substr is_char m p l = int (substr_loop (db_len_first_char is_char) m p l 0)"
    unfolding db_len_first_substr_def using db_substr_loop_eq [of 0 l l is_char m p 0] by simp
  then show "\<exists>ns. db_len_first_substr is_char m p l = int (sum_list ns)
      \<and> chars_at (db_len_first_char is_char) m p ns (p + sum_list ns) \<and> int (sum_list ns) \<le> l
      \<and> (int (sum_list ns) < l \<longrightarrow> db_len_first_char is_char m (p + sum_list ns) (l - int (sum_list ns)) = 0)"
    using db.substr_prefix [of is_char m p l 0] assms by auto
  show "\<exists>r. db_pos_first_char is_char m p l = Some r
      \<and> (r = - 1 \<or> 0 \<le> r \<and> r + 2 \<le> l \<and> 0 < db_len_first_char is_char m (p + nat r) 2
           \<and> (\<forall>k. int k \<le> r \<longrightarrow> m (p + k) \<noteq> 0))
      \<and> (\<forall>j. int j + 2 \<le> l \<and> (r = - 1 \<or> int j < r) \<and> (\<forall>k. k \<le> j \<longrightarrow> m (p + k) \<noteq> 0)
           \<longrightarrow> db_len_first_char is_char m (p + j) 2 = 0)"
    unfolding db_pos_first_char_def using db_pos_loop_spec [OF assms, of is_char m p 0] by simp
qed

definition ex_gbk :: bytes where
  "ex_gbk = (\<lambda>i. [0xB0, 0xA1, 0x81, 0x40, 0x41, 0xB0, 0xA1, 0] ! (i mod 8))"

lemma double_byte_scans_witness:
  "\<exists>ns. db_len_first_substr IS_GBK_CHAR ex_gbk 0 7 = int (sum_list ns)
      \<and> chars_at (db_len_first_char IS_GBK_CHAR) ex_gbk 0 ns (0 + sum_list ns) \<and> int (sum_list ns) \<le> 7
      \<and> (int (sum_list ns) < 7 \<longrightarrow> db_len_first_char IS_GBK_CHAR ex_gbk (0 + sum_list ns) (7 - int (sum_list ns)) = 0)"
  using double_byte_scans [of 7 IS_GBK_CHAR ex_gbk 0] by simp

lemma div_range: "0 \<le> x \<Longrightarrow> x \<le> hi \<Longrightarrow> 0 < k \<Longrightarrow> 0 \<le> x div k \<and> x div k \<le> hi div (k :: int)"
  by (simp add: zdiv_mono1 pos_imp_zdiv_nonneg_iff)

lemma uint_byte: "0 \<le> x \<Longrightarrow> x < 256 \<Longrightarrow> uint (word_of_int x :: u8) = x"
  by (simp add: unsigned_of_int take_bit_int_eq_self)

lemma uint_real_achar:
  assumes "0 \<le> x" "x < 2 ^ 31"
  shows "uint (REAL_ACHAR (word_of_int x)) = x"
proof -
  have u: "uint (word_of_int x :: Achar32) = x" using assms by (simp add: unsigned_of_int take_bit_int_eq_self)
  have b: "bit (word_of_int x :: Achar32) i \<Longrightarrow> i < 31" for i
  proof -
    assume "bit (word_of_int x :: Achar32) i"
    then have "bit x i" by (simp add: bit_word_of_int_iff)
    moreover have "x = take_bit 31 x" using assms by (simp add: take_bit_int_eq_self)
    ultimately show "i < 31" by (metis bit_take_bit_iff)
  qed
  have "(0x80000000 :: Achar32) = 2 ^ 31" by simp
  then have h: "bit (0x80000000 :: Achar32) i \<Longrightarrow> i = 31" for i by (simp only: bit_exp_iff)
  have "REAL_ACHAR (word_of_int x) = (word_of_int x :: Achar32)"
  proof (rule bit_eqI)
    fix i
    show "bit (REAL_ACHAR (word_of_int x)) i = bit (word_of_int x :: Achar32) i"
      using b [of i] h [of i] bit_imp_le_length [of "word_of_int x :: Achar32" i]
      unfolding REAL_ACHAR_def bit_and_iff bit_not_iff possible_bit_word by fastforce
  qed
  with u show ?thesis by simp
qed

lemma digit_div_mod: "0 \<le> x \<Longrightarrow> x < k \<Longrightarrow> (q * k + x) div k = q \<and> (q * k + x) mod k = (x :: int)"
  by simp

lemma put4_bytes:
  "0 \<le> a \<and> a < 256 \<Longrightarrow> uint (put4 m p a b c d p) = a"
  "0 \<le> b \<and> b < 256 \<Longrightarrow> uint (put4 m p a b c d (p + 1)) = b"
  "0 \<le> c \<and> c < 256 \<Longrightarrow> uint (put4 m p a b c d (p + 2)) = c"
  "0 \<le> d \<and> d < 256 \<Longrightarrow> uint (put4 m p a b c d (p + 3)) = d"
  by (simp_all add: put4_def uint_byte)

lemma gb18030_four_bytes:
  assumes b: "uint (m p) = a + 144" "uint (m (p + 1)) = b + 48" "uint (m (p + 2)) = c + 129" "uint (m (p + 3)) = d + 48"
    and r: "0 \<le> a" "a \<le> 83" "0 \<le> b" "b \<le> 9" "0 \<le> c" "c \<le> 125" "0 \<le> d" "d \<le> 9"
  shows "gb18030_0_len_first_char m p 4 = 4
    \<and> gb18030_0_conv_to_uc32 u (gb18030_0_get_char_value m p) = word_of_int (a * 12600 + (b * 1260 + (c * 10 + d)) + 65536)"
proof
  show "gb18030_0_len_first_char m p 4 = 4"
  proof -
    have "m p \<noteq> 0" using b(1) r by auto
    moreover have "\<not> gb18030_pair (m p) (m (p + 1))"
      using b r by (simp add: gb18030_pair_def word_le_def)
    moreover have "gb18030_four (m p) (m (p + 1)) (m (p + 2)) (m (p + 3))"
      using b r by (simp add: gb18030_four_def word_le_def)
    ultimately show ?thesis by (simp add: gb18030_0_len_first_char_def)
  qed
  let ?x = "24192 + ((a + 15) * 12600 + (b * 1260 + (c * 10 + d)))"
  have val: "gb18030_0_get_char_value m p = word_of_int ?x"
    using b r by (simp add: gb18030_0_get_char_value_def Let_def algebra_simps)
  have bx: "0 \<le> ?x" "?x < 2 ^ 31" "63611 < ?x" using r by simp_all
  have ux: "uint (REAL_ACHAR (word_of_int ?x)) = ?x" by (rule uint_real_achar [OF bx(1,2)])
  have l1: "0 \<le> b * 1260 + (c * 10 + d)" "b * 1260 + (c * 10 + d) < 12600" using r by simp_all
  have l2: "0 \<le> c * 10 + d" "c * 10 + d < 1260" using r by simp_all
  have d1: "(?x - 24192) div 12600 = a + 15" "(?x - 24192) mod 12600 = b * 1260 + (c * 10 + d)"
    unfolding add_diff_cancel_left' using digit_div_mod [OF l1] by blast+
  have d2: "(b * 1260 + (c * 10 + d)) div 1260 = b" "(b * 1260 + (c * 10 + d)) mod 1260 = c * 10 + d"
    using digit_div_mod [OF l2] by blast+
  have d3: "(c * 10 + d) div 10 = c" "(c * 10 + d) mod 10 = d" using r by simp_all
  have g: "REAL_ACHAR (word_of_int ?x) > 63611" using bx(3) ux by (simp add: word_less_def)
  have "gb18030_0_conv_to_uc32 u (word_of_int ?x) = word_of_int ((a + 15 + 129 - 144) * 12600 + b * 1260 + c * 10 + d + 65536)"
    unfolding gb18030_0_conv_to_uc32_def Let_def ux d1 d2 d3 if_P [OF g] by (rule refl)
  then show "gb18030_0_conv_to_uc32 u (gb18030_0_get_char_value m p) = word_of_int (a * 12600 + (b * 1260 + (c * 10 + d)) + 65536)"
    unfolding val by (simp add: add.assoc)
qed

text \<open>Every character of the supplementary planes that \<open>gb18030_0_conv_from_uc32\<close> writes is accepted as one
  character of four bytes, and its character value converts back to it, whatever the conversion tables hold.\<close>

theorem gb18030_supplementary_roundtrip:
  assumes "0x10000 \<le> w" "w \<le> 0x10FFFF"
  shows "case gb18030_0_conv_from_uc32 t w m p of (n, m') \<Rightarrow>
    n = 4 \<and> gb18030_0_len_first_char m' p 4 = 4 \<and> gb18030_0_conv_to_uc32 u (gb18030_0_get_char_value m' p) = w"
proof -
  define v where "v = uint w - 65536"
  define a where "a = v div 12600"
  define r where "r = v mod 12600"
  define b where "b = r div 1260"
  define s where "s = r mod 1260"
  define c where "c = s div 10"
  define d where "d = s mod 10"
  let ?m' = "put4 m p (a + 144) (b + 48) (c + 129) (d + 48)"
  have v: "0 \<le> v" "v \<le> 1048575" using assms by (simp_all add: word_le_def v_def)
  have bd: "0 \<le> a" "a \<le> 83" "0 \<le> b" "b \<le> 9" "0 \<le> c" "c \<le> 125" "0 \<le> d" "d \<le> 9"
    using div_range [OF v, of 12600] div_range [of r 12599 1260] div_range [of s 1259 10]
    by (simp_all add: a_def b_def c_def d_def r_def s_def)
  have e: "gb18030_0_conv_from_uc32 t w m p = (4, ?m')"
    using assms by (auto simp: gb18030_0_conv_from_uc32_def Let_def v_def a_def b_def c_def d_def r_def s_def)
  have "a * 12600 + (b * 1260 + (c * 10 + d)) = v"
    unfolding d_def c_def div_mult_mod_eq unfolding s_def b_def div_mult_mod_eq unfolding r_def a_def by (rule div_mult_mod_eq)
  then have w: "word_of_int (a * 12600 + (b * 1260 + (c * 10 + d)) + 65536) = w" by (simp add: v_def)
  have "gb18030_0_len_first_char ?m' p 4 = 4 \<and> gb18030_0_conv_to_uc32 u (gb18030_0_get_char_value ?m' p)
      = word_of_int (a * 12600 + (b * 1260 + (c * 10 + d)) + 65536)"
    by (rule gb18030_four_bytes [where m = ?m' and p = p, OF put4_bytes(1) put4_bytes(2) put4_bytes(3) put4_bytes(4) bd])
      (use bd in simp_all)
  then show ?thesis unfolding e w by simp
qed

lemma gb18030_supplementary_roundtrip_witness:
  "case gb18030_0_conv_from_uc32 (\<lambda>_ m p. (0, m)) 0x1F600 (\<lambda>_. 0) 2 of (n, m') \<Rightarrow>
    n = 4 \<and> gb18030_0_len_first_char m' 2 4 = 4 \<and> gb18030_0_conv_to_uc32 (\<lambda>_. 0) (gb18030_0_get_char_value m' 2) = 0x1F600"
  using gb18030_supplementary_roundtrip [where w = "0x1F600" and t = "\<lambda>_ m p. (0, m)" and m = "\<lambda>_. 0" and p = 2 and u = "\<lambda>_. 0"]
  by simp

text \<open>The four-byte values reach beyond the number of characters that the operations table declares,
  1587600 + 23940, because a two-byte row has 192 places and not 190.\<close>

lemma gb18030_value_out_of_range:
  "let m = (\<lambda>i. [0xFE, 0x39, 0xFE, 0x39] ! (i mod 4))
   in gb18030_0_len_first_char m 0 4 = 4 \<and> uint (gb18030_0_get_char_value m 0) = 1611791 \<and> 1611791 \<ge> (1587600 + 23940 :: int)"
  by code_simp

text \<open>Four bytes that are no character are skipped, and what stands behind them is counted as if it came first.\<close>

lemma gb18030_substr_skips:
  "let m = (\<lambda>i. [0x41, 0x41, 0x41, 0x41, 0xB0, 0xA1] ! (i mod 6))
   in gb18030_0_len_first_char m 0 6 = 0 \<and> gb18030_0_len_first_substr m 0 6 = 2"
  by code_simp

end
