(* ===== verification/MG_Utf8.thy ===== *)
theory MG_Utf8
  imports MG_Charset
begin

unbundle bit_operations_syntax

text \<open>
  The UTF-8 charset operations of \<open>src/font/charset-unicode.c\<close>. A string is a position in memory and a
  length; the operations read the memory behind the string where the code does.
\<close>

section \<open>Single characters\<close>

lemma drop_bit_0x80: "8 \<le> n \<Longrightarrow> drop_bit n (0x80 :: u8) = 0"
  by (rule bit_eqI) (simp add: bit_drop_bit_eq bit_imp_le_length)

text \<open>The loop \<open>while (c & (0x80 >> n)) n++\<close>; the mask is 0 from \<open>n = 8\<close> on.\<close>

function count_ones :: "u8 \<Rightarrow> nat \<Rightarrow> nat" where
  "count_ones c n = (if c AND drop_bit n 0x80 \<noteq> 0 then count_ones c (n + 1) else n)"
  by auto
termination
proof (relation "measure (\<lambda>(c, n). 8 - n)")
  show "((c, n + 1), c, n) \<in> measure (\<lambda>(c, n). 8 - n)" if "c AND drop_bit n 0x80 \<noteq> 0" for c :: u8 and n
    using that drop_bit_0x80 [of n] by (cases "8 \<le> n") auto
qed simp

declare count_ones.simps [simp del]

lemma count_ones_ge: "n \<le> count_ones c n"
  by (induction c n rule: count_ones.induct) (subst count_ones.simps, auto)

fun trail_ok :: "nat \<Rightarrow> bytes \<Rightarrow> nat \<Rightarrow> bool" where
  "trail_ok 0 m p = True"
| "trail_ok (Suc n) m p =
     (let t = m p in if t AND 0x80 = 0 \<or> t AND 0x40 \<noteq> 0 then False else trail_ok n m (p + 1))"

definition utf8_len_first_char :: "bytes \<Rightarrow> nat \<Rightarrow> int \<Rightarrow> nat" where
  "utf8_len_first_char m mstr len =
     (let c = m mstr
      in if c AND 0x80 \<noteq> 0 then
           let n = count_ones c 1
           in if int n > len then 0
              else if trail_ok (n - 1) m (mstr + 1) then n else 0
         else 1)"

fun add_trail :: "nat \<Rightarrow> bytes \<Rightarrow> nat \<Rightarrow> Uchar32 \<Rightarrow> Uchar32" where
  "add_trail 0 m p wc = wc"
| "add_trail (Suc n) m p wc = add_trail n m (p + 1) (push_bit 6 wc OR (ucast (m p) AND 0x3F))"

definition utf8_get_char_value :: "bytes \<Rightarrow> nat \<Rightarrow> Uchar32" where
  "utf8_get_char_value m cur =
     (let wc = ucast (m cur)
      in if wc AND 0x80 \<noteq> 0 then
           let n = count_ones (m cur) 1
           in add_trail (n - 1) m (cur + 1) (wc AND (push_bit (8 - n) 1 - 1))
         else wc)"

text \<open>The cases of the \<open>switch\<close> that fall through, from the last byte to the second.\<close>

fun put_trail :: "nat \<Rightarrow> bytes \<Rightarrow> nat \<Rightarrow> Uchar32 \<Rightarrow> bytes \<times> Uchar32" where
  "put_trail 0 m p wc = (m, wc)"
| "put_trail (Suc k) m p wc = put_trail k (m(p + Suc k := ucast (wc AND 0x3F) OR 0x80)) p (drop_bit 6 wc)"

definition utf8_conv_from_uc32 :: "Uchar32 \<Rightarrow> bytes \<Rightarrow> nat \<Rightarrow> nat \<times> bytes" where
  "utf8_conv_from_uc32 wc m p =
     (let (first, len) =
            (if wc < 0x80 then (0, 1)
             else if wc < 0x800 then (0xC0, 2)
             else if wc < 0x10000 then (0xE0, 3)
             else if wc < 0x200000 then (0xF0, 4)
             else if wc < 0x400000 then (0xF8, 5)
             else (0xFC, 6));
          (m1, wc1) = put_trail (len - 1) m p wc
      in (len, m1(p := ucast wc1 OR first)))"

section \<open>Strings\<close>

definition utf8_nr_chars_in_str :: "bytes \<Rightarrow> nat \<Rightarrow> int \<Rightarrow> int option" where
  "utf8_nr_chars_in_str m mstr mstrlen = nr_chars_loop utf8_len_first_char m mstr mstrlen 0"

definition utf8_is_this_charset :: "string \<Rightarrow> bool option" where
  "utf8_is_this_charset = with_name (\<lambda>name. has name ''UTF'' \<and> has name ''8'')"

definition utf8_len_first_substr :: "bytes \<Rightarrow> nat \<Rightarrow> int \<Rightarrow> nat" where
  "utf8_len_first_substr m mstr mstrlen = substr_loop utf8_len_first_char m mstr mstrlen 0"

definition utf8_get_next_word :: "bytes \<Rightarrow> nat \<Rightarrow> int \<Rightarrow> WORDINFO \<times> nat option" where
  "utf8_get_next_word m mstr mstrlen =
     next_word utf8_len_first_char utf8_get_char_value (\<lambda>m p. ucast (m p)) (\<lambda>ch_len. 1) m mstr mstrlen"

definition utf8_pos_first_char :: "bytes \<Rightarrow> nat \<Rightarrow> int \<Rightarrow> int" where
  "utf8_pos_first_char m mstr mstrlen =
     (if mstrlen > 0 then if utf8_len_first_char m mstr mstrlen = 0 then - 1 else 0 else - 1)"

section \<open>A trailing byte\<close>

definition trail_byte :: "Uchar32 \<Rightarrow> u8" where
  "trail_byte w = ucast (w AND 0x3F) OR 0x80"

lemma bit_0x3F: "bit (0x3F :: 'a::len word) n \<longleftrightarrow> n < 6 \<and> n < LENGTH('a)"
proof -
  have "(0x3F :: 'a word) = mask 6" by (simp add: mask_eq_exp_minus_1)
  then have "bit (0x3F :: 'a word) n = bit (mask 6 :: 'a word) n" by (rule arg_cong)
  also have "\<dots> \<longleftrightarrow> n < 6 \<and> n < LENGTH('a)" by (simp only: bit_mask_iff possible_bit_word conj_commute)
  finally show ?thesis .
qed

lemma bit_pow2_8: "bit (0x80 :: u8) n \<longleftrightarrow> n = 7" "bit (0x40 :: u8) n \<longleftrightarrow> n = 6"
proof -
  have "(0x80 :: u8) = 2 ^ 7" "(0x40 :: u8) = 2 ^ 6" by simp_all
  then show "bit (0x80 :: u8) n \<longleftrightarrow> n = 7" "bit (0x40 :: u8) n \<longleftrightarrow> n = 6"
    by (simp_all only: bit_exp_iff possible_bit_word) (simp_all, auto)
qed

lemma trail_byte_bits:
  "trail_byte w AND 0x80 \<noteq> 0" "trail_byte w AND 0x40 = 0" "ucast (trail_byte w) AND 0x3F = w AND (0x3F :: Uchar32)"
proof -
  have b: "bit (trail_byte w) n \<longleftrightarrow> n < 6 \<and> bit w n \<or> n = 7" for n
    by (auto simp: trail_byte_def bit_or_iff bit_and_iff bit_ucast_iff bit_0x3F bit_pow2_8 simp del: bit_numeral_word_iff)
  have "bit (trail_byte w AND 0x80) 7" by (simp add: bit_and_iff b bit_pow2_8 del: bit_numeral_word_iff)
  then show "trail_byte w AND 0x80 \<noteq> 0" by auto
  show "trail_byte w AND 0x40 = 0" by (rule bit_eqI) (auto simp: bit_and_iff b bit_pow2_8 simp del: bit_numeral_word_iff)
  show "ucast (trail_byte w) AND 0x3F = w AND (0x3F :: Uchar32)"
    by (rule bit_eqI) (auto simp: bit_and_iff bit_ucast_iff b bit_0x3F simp del: bit_numeral_word_iff)
qed

lemma join_6: "push_bit 6 (drop_bit 6 w) OR (w AND 0x3F) = (w :: Uchar32)"
  by (rule bit_eqI) (auto simp: bit_or_iff bit_and_iff bit_push_bit_iff bit_drop_bit_eq bit_0x3F bit_imp_le_length simp del: bit_numeral_word_iff)

section \<open>Writing and reading back\<close>

definition tail_at :: "bytes \<Rightarrow> nat \<Rightarrow> nat \<Rightarrow> Uchar32 \<Rightarrow> bool" where
  "tail_at m p k w \<longleftrightarrow> (\<forall>j < k. m (p + 1 + j) = trail_byte (drop_bit (6 * (k - 1 - j)) w))"

lemma put_trail_spec:
  assumes "put_trail k m p w = (m', w')"
  shows "w' = drop_bit (6 * k) w \<and> tail_at m' p k w \<and> (\<forall>x. x \<le> p \<or> p + k < x \<longrightarrow> m' x = m x)"
  using assms
proof (induction k arbitrary: m w)
  case (Suc k)
  let ?m = "m(p + Suc k := trail_byte w)"
  from Suc.prems have p: "put_trail k ?m p (drop_bit 6 w) = (m', w')" by (simp add: trail_byte_def)
  from Suc.IH [OF p] have r: "w' = drop_bit (6 * k) (drop_bit 6 w)" "tail_at m' p k (drop_bit 6 w)"
    "\<forall>x. x \<le> p \<or> p + k < x \<longrightarrow> m' x = ?m x" by blast+
  have "m' (p + 1 + j) = trail_byte (drop_bit (6 * (Suc k - 1 - j)) w)" if "j < Suc k" for j
  proof (cases "j = k")
    case True
    with r(3) show ?thesis by simp
  next
    case False
    with that have "j < k" by simp
    then have "6 * (k - Suc 0 - j) + 6 = 6 * (k - j)" by simp
    with \<open>j < k\<close> r(2) show ?thesis by (simp add: tail_at_def drop_bit_drop_bit)
  qed
  then have "tail_at m' p (Suc k) w" by (simp add: tail_at_def)
  with r show ?case by (simp add: drop_bit_drop_bit add.commute)
qed (simp add: tail_at_def)

lemma tail_at_Suc: "tail_at m p (Suc k) w \<Longrightarrow> m (p + 1) = trail_byte (drop_bit (6 * k) w) \<and> tail_at m (p + 1) k w"
  unfolding tail_at_def by (force simp: Suc_diff_Suc)

lemma read_trail:
  "tail_at m p k w \<Longrightarrow> trail_ok k m (p + 1) \<and> add_trail k m (p + 1) (drop_bit (6 * k) w) = w"
proof (induction k arbitrary: p)
  case (Suc k)
  from tail_at_Suc [OF Suc.prems] have t: "m (p + 1) = trail_byte (drop_bit (6 * k) w)" "tail_at m (p + 1) k w" by blast+
  have "push_bit 6 (drop_bit (6 * Suc k) w) OR (drop_bit (6 * k) w AND 0x3F) = drop_bit (6 * k) w"
    using join_6 [of "drop_bit (6 * k) w"] by (simp add: drop_bit_drop_bit)
  with t(1) Suc.IH [OF t(2)] show ?case by (simp add: Let_def trail_byte_bits)
qed simp

text \<open>The first byte: its leading ones give the length, the bits behind them the top of the value.\<close>

definition lead_ok :: "nat \<Rightarrow> u8 \<Rightarrow> Uchar32 \<Rightarrow> bool" where
  "lead_ok n c x \<longleftrightarrow> c AND 0x80 \<noteq> 0 \<and> (ucast c :: Uchar32) AND 0x80 \<noteq> 0 \<and> count_ones c 1 = n
     \<and> ucast c AND (push_bit (8 - n) 1 - 1) = x"

lemma lead_bytes:
  "x < 0x20 \<Longrightarrow> lead_ok 2 (ucast x OR 0xC0) x" "x < 0x10 \<Longrightarrow> lead_ok 3 (ucast x OR 0xE0) x"
  "x < 0x08 \<Longrightarrow> lead_ok 4 (ucast x OR 0xF0) x" "x < 0x04 \<Longrightarrow> lead_ok 5 (ucast x OR 0xF8) x"
  "x < 0x02 \<Longrightarrow> lead_ok 6 (ucast x OR 0xFC) x"
proof -
  have all: "P x" if "\<forall>k \<in> set [0..<n]. P (of_nat k)" "x < of_nat n" "n < 256" for P and n :: nat and x :: Uchar32
  proof -
    have "unat x < n" using that(2,3) by (simp add: word_less_nat_alt unat_of_nat)
    then have "P (of_nat (unat x))" by (intro bspec [OF that(1)]) (simp only: set_upt atLeastLessThan_iff le0 simp_thms)
    moreover have "of_nat (unat x) = x" by (simp only: of_nat_unat ucast_id)
    ultimately show ?thesis by (simp only:)
  qed
  have "\<forall>k \<in> set [0..<32]. lead_ok 2 (ucast (of_nat k :: Uchar32) OR 0xC0) (of_nat k)" by code_simp
  then show "x < 0x20 \<Longrightarrow> lead_ok 2 (ucast x OR 0xC0) x" by (rule all) simp_all
  have "\<forall>k \<in> set [0..<16]. lead_ok 3 (ucast (of_nat k :: Uchar32) OR 0xE0) (of_nat k)" by code_simp
  then show "x < 0x10 \<Longrightarrow> lead_ok 3 (ucast x OR 0xE0) x" by (rule all) simp_all
  have "\<forall>k \<in> set [0..<8]. lead_ok 4 (ucast (of_nat k :: Uchar32) OR 0xF0) (of_nat k)" by code_simp
  then show "x < 0x08 \<Longrightarrow> lead_ok 4 (ucast x OR 0xF0) x" by (rule all) simp_all
  have "\<forall>k \<in> set [0..<4]. lead_ok 5 (ucast (of_nat k :: Uchar32) OR 0xF8) (of_nat k)" by code_simp
  then show "x < 0x04 \<Longrightarrow> lead_ok 5 (ucast x OR 0xF8) x" by (rule all) simp_all
  have "\<forall>k \<in> set [0..<2]. lead_ok 6 (ucast (of_nat k :: Uchar32) OR 0xFC) (of_nat k)" by code_simp
  then show "x < 0x02 \<Longrightarrow> lead_ok 6 (ucast x OR 0xFC) x" by (rule all) simp_all
qed


section \<open>The round trip of one character\<close>

text \<open>The length and the first byte \<open>utf8_conv_from_uc32\<close> chooses.\<close>

lemma decode_at:
  assumes "lead_ok n (m p) (drop_bit (6 * (n - 1)) w)" "tail_at m p (n - 1) w" "int n \<le> len"
  shows "utf8_len_first_char m p len = n \<and> utf8_get_char_value m p = w"
  using assms read_trail [OF assms(2)]
  unfolding utf8_len_first_char_def utf8_get_char_value_def lead_ok_def Let_def by simp

lemma unat_drop_bit_div: "unat (drop_bit a w) = unat w div 2 ^ a"
  by (rule trans [OF unat_drop_bit_eq]) (rule drop_bit_eq_div)

lemma drop_bit_less:
  assumes "w < 2 ^ (a + k)" "a + k < 32"
  shows "drop_bit a (w :: Uchar32) < 2 ^ k"
proof -
  have p: "unat ((2 :: Uchar32) ^ n) = 2 ^ n" if "n < 32" for n
  proof -
    have "unat (of_nat (2 ^ n) :: Uchar32) = 2 ^ n mod 2 ^ 32" by (simp only: unat_of_nat) simp
    also have "\<dots> = 2 ^ n" using that by (intro mod_less power_strict_increasing) simp_all
    finally show ?thesis by simp
  qed
  have "unat w < 2 ^ a * 2 ^ k" using assms p [of "a + k"] by (simp only: word_less_nat_alt power_add)
  then have "unat w div 2 ^ a < 2 ^ k" by (simp add: less_mult_imp_div_less mult.commute)
  with p [of k] assms(2) show ?thesis by (simp only: word_less_nat_alt unat_drop_bit_div)
qed

text \<open>Everything \<open>utf8_conv_from_uc32\<close> chose can be read back.\<close>

lemma encode_decode:
  assumes e: "put_trail (n - 1) m p w = (m1, w1)"
    and l: "lead_ok n (ucast w1 OR f) w1" and n: "int n \<le> len"
  shows "utf8_len_first_char (m1(p := ucast w1 OR f)) p len = n
    \<and> utf8_get_char_value (m1(p := ucast w1 OR f)) p = w"
proof (rule decode_at [OF _ _ n])
  from put_trail_spec [OF e] have r: "w1 = drop_bit (6 * (n - 1)) w" "tail_at m1 p (n - 1) w" by blast+
  from l r(1) show "lead_ok n ((m1(p := ucast w1 OR f)) p) (drop_bit (6 * (n - 1)) w)" by simp
  from r(2) show "tail_at (m1(p := ucast w1 OR f)) p (n - 1) w" by (simp add: tail_at_def)
qed

lemma encode_decode_multi:
  assumes w: "w < 2 ^ (6 * (n - 1) + k)" "6 * (n - 1) + k < 32"
    and l: "\<And>x. x < 2 ^ k \<Longrightarrow> lead_ok n (ucast x OR f) x" and n: "int n \<le> len"
    and e: "put_trail (n - 1) m p w = (m1, w1)"
  shows "utf8_len_first_char (m1(p := ucast w1 OR f)) p len = n
    \<and> utf8_get_char_value (m1(p := ucast w1 OR f)) p = w"
proof (rule encode_decode [OF e _ n])
  from put_trail_spec [OF e] have "w1 = drop_bit (6 * (n - 1)) w" by blast
  with drop_bit_less [OF w] show "lead_ok n (ucast w1 OR f) w1" by (simp add: l)
qed

lemma ucast_and_0x80: "(ucast (c :: u8) :: Uchar32) AND 0x80 = ucast (c AND 0x80)"
proof (rule bit_eqI)
  fix i
  have "(0x80 :: Uchar32) = 2 ^ 7" by simp
  then have "bit (0x80 :: Uchar32) i \<longleftrightarrow> i = 7" by (simp only: bit_exp_iff) (auto simp: possible_bit_word)
  then show "bit ((ucast c :: Uchar32) AND 0x80) i = bit (ucast (c AND 0x80) :: Uchar32) i"
    by (auto simp: bit_and_iff bit_ucast_iff bit_pow2_8 simp del: bit_numeral_word_iff)
qed

lemma encode_decode_ascii:
  assumes "w < 0x80"
  shows "utf8_len_first_char (m(p := ucast w OR 0)) p len = 1 \<and> utf8_get_char_value (m(p := ucast w OR 0)) p = w"
proof -
  have b: "\<not> bit w i" if "7 \<le> i" for i
  proof -
    have "unat (drop_bit 7 w) = 0" using assms by (simp only: unat_drop_bit_div word_less_nat_alt) simp
    then have "\<not> bit (drop_bit 7 w) (i - 7)" by (simp add: unat_eq_zero)
    with that show ?thesis by (simp add: bit_drop_bit_eq)
  qed
  have "(ucast w :: u8) AND 0x80 = 0"
    by (rule bit_eqI) (auto simp: bit_and_iff bit_ucast_iff bit_pow2_8 b simp del: bit_numeral_word_iff)
  moreover have "ucast (ucast w :: u8) = w"
  proof (rule bit_eqI)
    fix i show "bit (ucast (ucast w :: u8) :: Uchar32) i = bit w i"
      using b [of i] by (cases "7 \<le> i") (auto simp: bit_ucast_iff bit_imp_le_length)
  qed
  moreover have "w AND 0x80 = 0"
  proof (rule bit_eqI)
    fix i
    have "(0x80 :: Uchar32) = 2 ^ 7" by simp
    then have "bit (0x80 :: Uchar32) i \<Longrightarrow> i = 7" by (simp only: bit_exp_iff)
    then show "bit (w AND 0x80) i = bit 0 i" using b by (auto simp: bit_and_iff simp del: bit_numeral_word_iff)
  qed
  ultimately show ?thesis by (simp add: utf8_len_first_char_def utf8_get_char_value_def)
qed


lemma utf8_conv_frame:
  assumes "put_trail (n - 1) m p w = (m1, w1)" "0 < n" "x < p \<or> p + n \<le> x"
  shows "(m1(p := c)) x = m x"
  using put_trail_spec [OF assms(1)] assms(2,3) by auto

lemma utf8_conv_multi:
  assumes c: "utf8_conv_from_uc32 w m p = (case put_trail (k - 1) m p w of (m1, w1) \<Rightarrow> (k, m1(p := ucast w1 OR f)))"
    and e: "utf8_conv_from_uc32 w m p = (n, m')" and n: "int n \<le> len" and k: "k \<in> {2..6}"
    and w: "w < 2 ^ (6 * (k - 1) + j)" "6 * (k - 1) + j < 32"
    and l: "\<And>x. x < 2 ^ j \<Longrightarrow> lead_ok k (ucast x OR f) x"
  shows "utf8_len_first_char m' p len = n \<and> utf8_get_char_value m' p = w \<and> n \<in> {1..6}
    \<and> (\<forall>x. x < p \<or> p + n \<le> x \<longrightarrow> m' x = m x)"
proof -
  obtain m1 w1 where t: "put_trail (k - 1) m p w = (m1, w1)" by fastforce
  with c e have r: "n = k" "m' = m1(p := ucast w1 OR f)" by simp_all
  have "\<forall>x. x < p \<or> p + n \<le> x \<longrightarrow> m' x = m x"
    using utf8_conv_frame [OF t] k unfolding r by simp
  moreover have "utf8_len_first_char m' p len = n \<and> utf8_get_char_value m' p = w"
    unfolding r by (rule encode_decode_multi [OF w l _ t]) (use n r(1) in simp_all)
  ultimately show ?thesis using k r(1) by simp
qed

lemma utf8_conv_spec:
  assumes "w < 2 ^ 31" and e: "utf8_conv_from_uc32 w m p = (n, m')" and n: "int n \<le> len"
  shows "utf8_len_first_char m' p len = n \<and> utf8_get_char_value m' p = w \<and> n \<in> {1..6}
    \<and> (\<forall>x. x < p \<or> p + n \<le> x \<longrightarrow> m' x = m x)"
proof -
  consider (1) "w < 0x80" | (2) "\<not> w < 0x80" "w < 0x800" | (3) "\<not> w < 0x80" "\<not> w < 0x800" "w < 0x10000"
    | (4) "\<not> w < 0x80" "\<not> w < 0x800" "\<not> w < 0x10000" "w < 0x200000"
    | (5) "\<not> w < 0x80" "\<not> w < 0x800" "\<not> w < 0x10000" "\<not> w < 0x200000" "w < 0x400000"
    | (6) "\<not> w < 0x80" "\<not> w < 0x800" "\<not> w < 0x10000" "\<not> w < 0x200000" "\<not> w < 0x400000"
    by blast
  then show ?thesis
  proof cases
    case 1
    with e have "n = 1" "m' = m(p := ucast w OR 0)"
      by (simp_all add: utf8_conv_from_uc32_def)
    with encode_decode_ascii [OF 1] show ?thesis by simp
  next
    case 2
    show ?thesis
      by (rule utf8_conv_multi [where k = 2 and j = 5 and f = "0xC0", OF _ e n _ _ _ lead_bytes(1)])
        (use 2 in \<open>simp_all add: utf8_conv_from_uc32_def Let_def\<close>)
  next
    case 3
    show ?thesis
      by (rule utf8_conv_multi [where k = 3 and j = 4 and f = "0xE0", OF _ e n _ _ _ lead_bytes(2)])
        (use 3 in \<open>simp_all add: utf8_conv_from_uc32_def Let_def\<close>)
  next
    case 4
    show ?thesis
      by (rule utf8_conv_multi [where k = 4 and j = 3 and f = "0xF0", OF _ e n _ _ _ lead_bytes(3)])
        (use 4 in \<open>simp_all add: utf8_conv_from_uc32_def Let_def\<close>)
  next
    case 5
    have "w < 0x4000000" by (rule less_trans [OF 5(5)]) simp
    then show ?thesis
      by (intro utf8_conv_multi [where k = 5 and j = 2 and f = "0xF8", OF _ e n _ _ _ lead_bytes(4)])
        (use 5 in \<open>simp_all add: utf8_conv_from_uc32_def Let_def\<close>)
  next
    case 6
    show ?thesis
      by (rule utf8_conv_multi [where k = 6 and j = 1 and f = "0xFC", OF _ e n _ _ _ lead_bytes(5)])
        (use 6 assms(1) in \<open>simp_all add: utf8_conv_from_uc32_def Let_def\<close>)
  qed
qed

section \<open>Strings\<close>

interpretation u8: char_lengths utf8_len_first_char
proof
  fix m p and l l' :: int
  show "0 < l \<Longrightarrow> int (utf8_len_first_char m p l) \<le> l"
    by (simp add: utf8_len_first_char_def Let_def)
  show "0 < utf8_len_first_char m p l \<Longrightarrow> 0 < l \<Longrightarrow> int (utf8_len_first_char m p l) \<le> l'
    \<Longrightarrow> utf8_len_first_char m p l' = utf8_len_first_char m p l"
    by (auto simp: utf8_len_first_char_def Let_def split: if_splits)
qed

lemma ascii_bytes: "is_blank c \<Longrightarrow> c AND 0x80 = (0 :: u8)"
  by (auto simp: is_blank_def)

interpretation u8w: word_chars utf8_len_first_char utf8_get_char_value "\<lambda>m p. ucast (m p)" "\<lambda>_. 1"
  by unfold_locales (simp add: is_blank_ucast ascii_bytes utf8_len_first_char_def Let_def)


text \<open>A whole character depends on its own bytes only.\<close>

lemma trail_local:
  "\<forall>x. p \<le> x \<and> x < p + n \<longrightarrow> m' x = m x \<Longrightarrow> trail_ok n m' p = trail_ok n m p \<and> add_trail n m' p w = add_trail n m p w"
proof (induction n arbitrary: p w)
  case (Suc n)
  from Suc.prems have "m' p = m p" "\<forall>x. p + 1 \<le> x \<and> x < p + 1 + n \<longrightarrow> m' x = m x" by auto
  with Suc.IH [of "p + 1"] show ?case by (simp add: Let_def)
qed simp

lemma utf8_char_local:
  assumes "utf8_len_first_char m p l = n" "0 < n" "\<forall>x. p \<le> x \<and> x < p + n \<longrightarrow> m' x = m x"
  shows "utf8_len_first_char m' p l = n \<and> utf8_get_char_value m' p = utf8_get_char_value m p"
proof -
  have c: "m' p = m p" using assms(2,3) by simp
  have t: "trail_ok (n - 1) m' (p + 1) = trail_ok (n - 1) m (p + 1)
    \<and> add_trail (n - 1) m' (p + 1) w = add_trail (n - 1) m (p + 1) w" for w
    using assms(2,3) by (intro trail_local) auto
  show ?thesis
  proof (cases "m p AND 0x80 = 0")
    case True
    then have "(ucast (m p) :: Uchar32) AND 0x80 = 0"
      using ucast_and_0x80 [of "m p"] by simp
    with True c assms(1) show ?thesis by (simp add: utf8_len_first_char_def utf8_get_char_value_def)
  next
    case False
    with assms(1,2) have "n = count_ones (m p) 1" by (auto simp: utf8_len_first_char_def Let_def split: if_splits)
    with t c assms(1) show ?thesis
      by (auto simp: utf8_len_first_char_def utf8_get_char_value_def Let_def split: if_splits)
  qed
qed

text \<open>Writing a text character by character.\<close>

fun utf8_write :: "Uchar32 list \<Rightarrow> bytes \<Rightarrow> nat \<Rightarrow> bytes \<times> nat" where
  "utf8_write [] m p = (m, p)"
| "utf8_write (w # ws) m p = (let (n, m1) = utf8_conv_from_uc32 w m p in utf8_write ws m1 (p + n))"

fun values_at :: "bytes \<Rightarrow> nat \<Rightarrow> nat list \<Rightarrow> Uchar32 list" where
  "values_at m p [] = []"
| "values_at m p (n # ns) = utf8_get_char_value m p # values_at m (p + n) ns"

lemma utf8_write_spec:
  assumes "\<forall>w \<in> set ws. w < 2 ^ 31" "utf8_write ws m p = (m', e)"
  shows "\<exists>ns. chars_at utf8_len_first_char m' p ns e \<and> length ns = length ws \<and> values_at m' p ns = ws
    \<and> p \<le> e \<and> (\<forall>x. x < p \<or> e \<le> x \<longrightarrow> m' x = m x)"
  using assms
proof (induction ws arbitrary: m p)
  case Nil
  then show ?case by (intro exI [of _ "[]"]) simp
next
  case (Cons w ws)
  obtain n m1 where c: "utf8_conv_from_uc32 w m p = (n, m1)" by fastforce
  from utf8_conv_spec [OF _ c, of "int n"] Cons.prems(1) have w: "utf8_len_first_char m1 p (int n) = n"
    "utf8_get_char_value m1 p = w" "n \<in> {1..6}" "\<forall>x. x < p \<or> p + n \<le> x \<longrightarrow> m1 x = m x"
    by auto
  from Cons.IH [of m1 "p + n"] Cons.prems c obtain ns where i: "chars_at utf8_len_first_char m' (p + n) ns e"
    "length ns = length ws" "values_at m' (p + n) ns = ws" "p + n \<le> e" "\<forall>x. x < p + n \<or> e \<le> x \<longrightarrow> m' x = m1 x"
    by auto
  from utf8_char_local [OF w(1), of m'] w(3) i(5)
  have "utf8_len_first_char m' p (int n) = n" "utf8_get_char_value m' p = utf8_get_char_value m1 p" by auto
  with w i show ?case by (intro exI [of _ "n # ns"]) auto
qed

lemma utf8_zero_behind:
  "utf8_len_first_char m p 0 = (if m p AND 0x80 = 0 then 1 else 0)"
proof -
  have "0 < count_ones c 1" for c using count_ones_ge [of 1 c] by simp
  then show ?thesis by (auto simp: utf8_len_first_char_def Let_def)
qed


section \<open>Results\<close>

text \<open>C36: Every code below \<open>2^31\<close> that \<open>utf8_conv_from_uc32\<close> writes is read back by \<open>utf8_get_char_value\<close>,
  and \<open>utf8_len_first_char\<close> finds exactly the bytes written whenever the string reaches that far; one to
  six bytes are written and no other byte of the memory changes.\<close>

theorem utf8_roundtrip:
  assumes "w < 2 ^ 31"
  shows "case utf8_conv_from_uc32 w m p of (n, m') \<Rightarrow>
    utf8_get_char_value m' p = w \<and> (int n \<le> len \<longrightarrow> utf8_len_first_char m' p len = n)
    \<and> n \<in> {1..6} \<and> (\<forall>x. x < p \<or> p + n \<le> x \<longrightarrow> m' x = m x)"
proof -
  obtain n m' where c: "utf8_conv_from_uc32 w m p = (n, m')" by fastforce
  from utf8_conv_spec [OF assms c, of "int n"] utf8_conv_spec [OF assms c, of len] c show ?thesis by simp
qed

lemma utf8_roundtrip_witness:
  "(0x1F600 :: Uchar32) < 2 ^ 31 \<and> (case utf8_conv_from_uc32 0x1F600 (\<lambda>_. 0) 5 of (n, m') \<Rightarrow>
    utf8_get_char_value m' 5 = 0x1F600 \<and> (int n \<le> 4 \<longrightarrow> utf8_len_first_char m' 5 4 = n)
    \<and> n \<in> {1..6} \<and> (\<forall>x. x < 5 \<or> 5 + n \<le> x \<longrightarrow> m' x = 0))"
  using utf8_roundtrip [where w = "0x1F600" and m = "\<lambda>_. 0" and p = 5 and len = 4] by simp

text \<open>A text written character by character is scanned by \<open>utf8_len_first_substr\<close> to its last byte and
  decodes to the text. \<open>utf8_nr_chars_in_str\<close> looks at the byte behind the string: it answers one more than
  the number of characters when that byte is below 0x80 (as a terminating zero is), and never returns
  otherwise.\<close>

theorem utf8_text_scan:
  assumes "\<forall>w \<in> set ws. w < 2 ^ 31"
  shows "case utf8_write ws m p of (m', e) \<Rightarrow>
    (\<exists>ns. chars_at utf8_len_first_char m' p ns e \<and> values_at m' p ns = ws)
    \<and> utf8_len_first_substr m' p (int e - int p) = e - p
    \<and> utf8_nr_chars_in_str m' p (int e - int p) = (if m e AND 0x80 = 0 then Some (int (length ws) + 1) else None)"
proof -
  obtain m' e where w: "utf8_write ws m p = (m', e)" by fastforce
  from utf8_write_spec [OF assms w] obtain ns where ns: "chars_at utf8_len_first_char m' p ns e"
    "length ns = length ws" "values_at m' p ns = ws" "p \<le> e" "\<forall>x. x < p \<or> e \<le> x \<longrightarrow> m' x = m x"
    by blast
  have "utf8_nr_chars_in_str m' p (int e - int p) = nr_chars_loop utf8_len_first_char m' e 0 (int (length ws))"
    unfolding utf8_nr_chars_in_str_def u8.nr_chars_reaches_end [OF ns(1) refl] using ns(2) by simp
  also have "\<dots> = (if m e AND 0x80 = 0 then Some (int (length ws) + 1) else None)"
  proof (cases "m e AND 0x80 = 0")
    case True
    then show ?thesis using ns(5)
      by (subst nr_chars_loop.simps, subst nr_chars_loop.simps) (simp add: utf8_zero_behind)
  next
    case False
    then show ?thesis using ns(5) by (simp add: nr_chars_loop_stuck utf8_zero_behind)
  qed
  finally have "utf8_nr_chars_in_str m' p (int e - int p) = \<dots>" .
  moreover have "utf8_len_first_substr m' p (int e - int p) = e - p"
    using u8.substr_whole [OF ns(1) refl, of 0] u8.chars_at_le [OF ns(1)] by (simp add: utf8_len_first_substr_def)
  ultimately show ?thesis using ns w by auto
qed

lemma utf8_text_scan_witness:
  "case utf8_write [0x41, 0x4E2D] (\<lambda>_. 0) 0 of (m', e) \<Rightarrow>
    (\<exists>ns. chars_at utf8_len_first_char m' 0 ns e \<and> values_at m' 0 ns = [0x41, 0x4E2D])
    \<and> utf8_len_first_substr m' 0 (int e - int 0) = e - 0
    \<and> utf8_nr_chars_in_str m' 0 (int e - int 0) = Some 3"
  using utf8_text_scan [where ws = "[0x41, 0x4E2D]" and m = "\<lambda>_. 0" and p = 0] by simp

text \<open>C37: For a string that does not begin with a blank, \<open>utf8_get_next_word\<close> finds a word of whole
  characters none of which is a blank, followed by blanks that all equal the delimiter reported; the next
  position is behind them and inside the string, and the word has at least one character when the string
  begins with a valid one.\<close>

theorem utf8_get_next_word_correct:
  assumes "\<not> is_blank (m p)" "l \<noteq> 0" "utf8_get_next_word m p l = (w, q)"
  shows "\<exists>ns ks. word_found utf8_len_first_char (\<lambda>m p. ucast (m p)) m p 0 w ns ks
    \<and> q = Some (p + sum_list ns + sum_list ks) \<and> int (sum_list ns + sum_list ks) \<le> max 0 l
    \<and> (0 < l \<and> utf8_len_first_char m p l \<noteq> 0 \<longrightarrow> ns \<noteq> [])"
  using assms(1,2) assms(3)[unfolded utf8_get_next_word_def]
  by (intro u8w.next_word_found) (simp_all add: is_blank_ucast)

definition ex_words :: bytes where
  "ex_words = (\<lambda>i. [0x61, 0x62, 0x20, 0x20, 0x63, 0] ! (i mod 6))"

lemma ex_words_next:
  "utf8_get_next_word ex_words 0 5 = (\<lparr>wi_len = 2, wi_delimiter = 0x20, wi_nr_delimiters = 2\<rparr>, Some 4)"
  by code_simp

lemma utf8_get_next_word_correct_witness:
  "\<not> is_blank (ex_words 0) \<and> (\<exists>ns ks.
    word_found utf8_len_first_char (\<lambda>m p. ucast (m p)) ex_words 0 0 \<lparr>wi_len = 2, wi_delimiter = 0x20, wi_nr_delimiters = 2\<rparr> ns ks
    \<and> Some 4 = Some (0 + sum_list ns + sum_list ks) \<and> int (sum_list ns + sum_list ks) \<le> max 0 5
    \<and> (0 < (5 :: int) \<and> utf8_len_first_char ex_words 0 5 \<noteq> 0 \<longrightarrow> ns \<noteq> []))"
proof -
  have b: "\<not> is_blank (ex_words 0)" by code_simp
  from utf8_get_next_word_correct [OF b _ ex_words_next] b show ?thesis by simp
qed

text \<open>A leading blank in front of a large character: the character is counted as if the string began with
  it, so the three bytes of the word start at the blank and the next position is inside the character.\<close>

lemma utf8_word_behind_blank:
  "utf8_get_next_word (\<lambda>i. [0x20, 0xE4, 0xB8, 0xAD, 0x41] ! (i mod 5)) 0 5
   = (\<lparr>wi_len = 3, wi_delimiter = 0x20, wi_nr_delimiters = 1\<rparr>, Some 4)"
  by code_simp

text \<open>A stray continuation byte passes as a character of its own.\<close>

lemma utf8_stray_continuation: "utf8_len_first_char (\<lambda>_. 0x80) p 1 = 1"
  by code_simp


end
