(* ===== verification/MG_Utf16.thy ===== *)
theory MG_Utf16
  imports MG_Charset
begin

unbundle bit_operations_syntax

text \<open>
  The UTF-16 charset operations of \<open>src/font/charset-unicode.c\<close>. The functions for the two byte orders are
  copies of each other that differ in the places of the two bytes of a unit; here they take the byte order.
\<close>

section \<open>Units\<close>

datatype byte_order = LE | BE

definition MAKEWORD16 :: "u8 \<Rightarrow> u8 \<Rightarrow> Uchar16" where
  "MAKEWORD16 low high = ucast low OR push_bit 8 (ucast high)"

definition LOBYTE :: "'a::len word \<Rightarrow> u8" where
  "LOBYTE w = ucast w"

definition HIBYTE :: "'a::len word \<Rightarrow> u8" where
  "HIBYTE w = ucast (drop_bit 8 w AND 0xFF)"

fun unit_at :: "byte_order \<Rightarrow> bytes \<Rightarrow> nat \<Rightarrow> Uchar16" where
  "unit_at LE m p = MAKEWORD16 (m p) (m (p + 1))"
| "unit_at BE m p = MAKEWORD16 (m (p + 1)) (m p)"

fun put_unit :: "byte_order \<Rightarrow> 'a::len word \<Rightarrow> bytes \<Rightarrow> nat \<Rightarrow> bytes" where
  "put_unit LE w m p = m(p := LOBYTE w, p + 1 := HIBYTE w)"
| "put_unit BE w m p = m(p + 1 := LOBYTE w, p := HIBYTE w)"

section \<open>Single characters\<close>

definition utf16_len_first_char :: "byte_order \<Rightarrow> bytes \<Rightarrow> nat \<Rightarrow> int \<Rightarrow> nat" where
  "utf16_len_first_char bo m mstr len =
     (if len < 2 then 0
      else let w1 = unit_at bo m mstr
           in if w1 < 0xD800 \<or> w1 > 0xDFFF then 2
              else if w1 \<ge> 0xD800 \<and> w1 \<le> 0xDBFF then
                if len < 4 then 0
                else let w2 = unit_at bo m (mstr + 2) in if w2 < 0xDC00 \<or> w2 > 0xDFFF then 0 else 4
              else 4)"

definition utf16_get_char_value :: "byte_order \<Rightarrow> bytes \<Rightarrow> nat \<Rightarrow> Achar32" where
  "utf16_get_char_value bo m cur =
     (let w1 = unit_at bo m cur
      in if w1 < 0xD800 \<or> w1 > 0xDFFF then ucast w1
         else let w2 = unit_at bo m (cur + 2)
              in (push_bit 10 (ucast w1) OR (ucast w2 AND 0x03FF)) + 0x10000)"

definition utf16_conv_from_uc32 :: "byte_order \<Rightarrow> Uchar32 \<Rightarrow> bytes \<Rightarrow> nat \<Rightarrow> nat \<times> bytes" where
  "utf16_conv_from_uc32 bo wc m p =
     (if wc > 0x10FFFF then (0, m)
      else if wc < 0x10000 then (2, put_unit bo wc m p)
      else let wc' = wc - 0x10000;
               w1 = 0xD800 OR (ucast (drop_bit 10 wc') :: Uchar16);
               w2 = 0xDC00 OR (ucast (wc' AND 0x03FF) :: Uchar16)
           in (4, put_unit bo w2 (put_unit bo w1 m p) (p + 2)))"

section \<open>Strings\<close>

definition utf16_nr_chars_in_str :: "byte_order \<Rightarrow> bytes \<Rightarrow> nat \<Rightarrow> int \<Rightarrow> int option" where
  "utf16_nr_chars_in_str bo m mstr mstrlen = nr_chars_loop (utf16_len_first_char bo) m mstr mstrlen 0"

definition utf16_is_this_charset :: "byte_order \<Rightarrow> string \<Rightarrow> bool option" where
  "utf16_is_this_charset bo =
     with_name (\<lambda>name. has name ''UTF'' \<and> has name (case bo of LE \<Rightarrow> ''16LE'' | BE \<Rightarrow> ''16BE''))"

definition utf16_len_first_substr :: "byte_order \<Rightarrow> bytes \<Rightarrow> nat \<Rightarrow> int \<Rightarrow> nat" where
  "utf16_len_first_substr bo m mstr mstrlen = substr_loop (utf16_len_first_char bo) m mstr mstrlen 0"

definition utf16_get_next_word :: "byte_order \<Rightarrow> bytes \<Rightarrow> nat \<Rightarrow> int \<Rightarrow> WORDINFO \<times> nat option" where
  "utf16_get_next_word bo m mstr mstrlen =
     next_word (utf16_len_first_char bo) (utf16_get_char_value bo) (utf16_get_char_value bo) (\<lambda>ch_len. ch_len)
       m mstr mstrlen"

text \<open>A first character of length 0 leaves all the variables of the loop as they are.\<close>

definition utf16_pos_first_char :: "byte_order \<Rightarrow> bytes \<Rightarrow> nat \<Rightarrow> int \<Rightarrow> int option" where
  "utf16_pos_first_char bo m mstr mstrlen =
     (if mstrlen > 0 then if utf16_len_first_char bo m mstr mstrlen > 0 then Some 0 else None else Some (- 1))"

text \<open>The big-endian copies under their names in the source; the little-endian ones are the functions above at \<open>LE\<close>.\<close>

definition utf16be_len_first_char :: "bytes \<Rightarrow> nat \<Rightarrow> int \<Rightarrow> nat" where
  "utf16be_len_first_char = utf16_len_first_char BE"

definition utf16be_get_char_value :: "bytes \<Rightarrow> nat \<Rightarrow> Achar32" where
  "utf16be_get_char_value = utf16_get_char_value BE"

definition utf16be_conv_from_uc32 :: "Uchar32 \<Rightarrow> bytes \<Rightarrow> nat \<Rightarrow> nat \<times> bytes" where
  "utf16be_conv_from_uc32 = utf16_conv_from_uc32 BE"

definition utf16be_nr_chars_in_str :: "bytes \<Rightarrow> nat \<Rightarrow> int \<Rightarrow> int option" where
  "utf16be_nr_chars_in_str = utf16_nr_chars_in_str BE"

definition utf16be_is_this_charset :: "string \<Rightarrow> bool option" where
  "utf16be_is_this_charset = utf16_is_this_charset BE"

definition utf16be_len_first_substr :: "bytes \<Rightarrow> nat \<Rightarrow> int \<Rightarrow> nat" where
  "utf16be_len_first_substr = utf16_len_first_substr BE"

definition utf16be_get_next_word :: "bytes \<Rightarrow> nat \<Rightarrow> int \<Rightarrow> WORDINFO \<times> nat option" where
  "utf16be_get_next_word = utf16_get_next_word BE"

definition utf16be_pos_first_char :: "bytes \<Rightarrow> nat \<Rightarrow> int \<Rightarrow> int option" where
  "utf16be_pos_first_char = utf16_pos_first_char BE"

section \<open>Reading back\<close>

lemma bit_0xFF: "bit (0xFF :: 'a::len word) n \<longleftrightarrow> n < 8 \<and> n < LENGTH('a)"
proof -
  have "(0xFF :: 'a word) = mask 8" by (simp add: mask_eq_exp_minus_1)
  then have "bit (0xFF :: 'a word) n = bit (mask 8 :: 'a word) n" by (rule arg_cong)
  also have "\<dots> \<longleftrightarrow> n < 8 \<and> n < LENGTH('a)" by (simp only: bit_mask_iff possible_bit_word conj_commute)
  finally show ?thesis .
qed

lemma make_bytes: "MAKEWORD16 (LOBYTE w) (HIBYTE w) = (ucast (w :: 'a::len word) :: Uchar16)"
proof (rule bit_eqI)
  fix i
  assume "possible_bit TYPE(16 word) i"
  moreover have "bit w i \<Longrightarrow> i - 8 < LENGTH('a)" using bit_imp_le_length [of w i] by (rule less_imp_diff_less)
  ultimately show "bit (MAKEWORD16 (LOBYTE w) (HIBYTE w)) i = bit (ucast w :: Uchar16) i"
    by (cases "i < 8")
      (auto simp: MAKEWORD16_def LOBYTE_def HIBYTE_def bit_or_iff bit_and_iff bit_ucast_iff bit_push_bit_iff
        bit_drop_bit_eq bit_0xFF bit_imp_le_length simp del: bit_numeral_word_iff)
qed

lemma unit_put [simp]: "unit_at bo (put_unit bo w m p) p = ucast w"
  by (cases bo) (simp_all add: make_bytes)

lemma unit_put_other: "q + 2 \<le> p \<or> p + 2 \<le> q \<Longrightarrow> unit_at bo (put_unit bo w m p) q = unit_at bo m q"
  by (cases bo) auto

lemma put_unit_frame: "x < p \<or> p + 2 \<le> x \<Longrightarrow> put_unit bo w m p x = m x"
  by (cases bo) auto

section \<open>Surrogates\<close>

lemma or_plus_high:
  fixes x :: "'a::len word"
  assumes "unat x < 1024"
  shows "push_bit 10 y OR x = push_bit 10 y + x"
proof -
  have "\<not> bit x i" if "10 \<le> i" for i
  proof -
    have "unat (drop_bit 10 x) = 0" using assms by (simp add: unat_drop_bit_eq drop_bit_eq_div [where 'a = nat])
    then have "\<not> bit (drop_bit 10 x) (i - 10)" by (simp add: unat_eq_zero)
    with that show ?thesis by (simp add: bit_drop_bit_eq)
  qed
  then show ?thesis
    by (intro sym [OF disjunctive_add]) (auto simp: bit_push_bit_iff not_le)
qed

lemma and_3FF: "x AND 0x3FF = take_bit 10 (x :: 'a::len word)"
proof -
  have "(0x3FF :: 'a word) = mask 10" by (simp add: mask_eq_exp_minus_1)
  then show ?thesis by (simp add: take_bit_eq_mask)
qed

lemma surrogate_units:
  fixes w :: Uchar32
  assumes "w < 0x100000"
  defines "w1 \<equiv> 0xD800 OR (ucast (drop_bit 10 w) :: Uchar16)" and "w2 \<equiv> 0xDC00 OR (ucast (w AND 0x03FF) :: Uchar16)"
  shows "unat w1 = 0xD800 + unat w div 1024" "unat w2 = 0xDC00 + unat w mod 1024"
proof -
  have d: "unat (drop_bit 10 w) = unat w div 1024"
    using trans [OF unat_drop_bit_eq drop_bit_eq_div, of 10 w] by simp
  have l: "unat w div 1024 < 1024" using assms(1) by (simp add: word_less_nat_alt)
  have u1: "unat (ucast (drop_bit 10 w) :: Uchar16) = unat w div 1024"
    using d l by (simp add: unsigned_ucast_eq take_bit_nat_eq_self)
  have "w1 = push_bit 10 0x36 OR ucast (drop_bit 10 w)" by (simp add: w1_def)
  also have "\<dots> = push_bit 10 0x36 + ucast (drop_bit 10 w)" by (rule or_plus_high) (simp only: u1 l)
  finally have "w1 = 0xD800 + ucast (drop_bit 10 w)" by simp
  then show "unat w1 = 0xD800 + unat w div 1024" using u1 l by (simp add: unat_word_ariths)
  have m: "unat (w AND 0x3FF) = unat w mod 1024" 
    by (simp only: and_3FF unsigned_take_bit_eq take_bit_eq_mod [where 'a = nat]) simp
  then have u2: "unat (ucast (w AND 0x3FF) :: Uchar16) = unat w mod 1024"
    by (simp add: unsigned_ucast_eq take_bit_nat_eq_self)
  have "w2 = push_bit 10 0x37 OR ucast (w AND 0x3FF)" by (simp add: w2_def)
  also have "\<dots> = push_bit 10 0x37 + ucast (w AND 0x3FF)" by (rule or_plus_high) (rule ord_eq_less_trans [OF u2], simp)
  finally have "w2 = 0xDC00 + ucast (w AND 0x3FF)" by simp
  then show "unat w2 = 0xDC00 + unat w mod 1024" using u2 by (simp add: unat_word_ariths)
qed


lemma supplementary_value:
  assumes "w < 0x100000"
  shows "(push_bit 10 (ucast (0xD800 OR (ucast (drop_bit 10 w) :: Uchar16))) OR
      (ucast (0xDC00 OR (ucast (w AND 0x03FF) :: Uchar16)) AND 0x03FF)) + 0x10000 = w + (0x3610000 :: Uchar32)"
proof -
  let ?w1 = "0xD800 OR (ucast (drop_bit 10 w) :: Uchar16)" and ?w2 = "0xDC00 OR (ucast (w AND 0x03FF) :: Uchar16)"
  have lt: "unat w < 1048576" using assms by (simp add: word_less_nat_alt)
  have u1: "unat (ucast ?w1 :: Uchar32) = 0xD800 + unat w div 1024"
    using surrogate_units(1) [OF assms] lt by (simp add: unsigned_ucast_eq take_bit_nat_eq_self)
  have u2: "unat (ucast ?w2 AND 0x03FF :: Uchar32) = unat w mod 1024"
  proof -
    have "unat (ucast ?w2 :: Uchar32) = 0xDC00 + unat w mod 1024"
      using surrogate_units(2) [OF assms] by (simp add: unsigned_ucast_eq take_bit_nat_eq_self)
    moreover have "(0xDC00 + unat w mod 1024) mod 1024 = unat w mod 1024"
      using mod_mult_self1 [of "unat w mod 1024" 55 1024] by (simp add: add.commute)
    ultimately show ?thesis by (simp only: and_3FF unsigned_take_bit_eq take_bit_eq_mod [where 'a = nat]) simp
  qed
  have p: "unat (push_bit 10 (ucast ?w1) :: Uchar32) = (0xD800 + unat w div 1024) * 1024"
  proof -
    have "unat (push_bit 10 x) = unat x * 1024 mod 2 ^ 32" for x :: Uchar32
      unfolding push_bit_eq_mult unat_word_ariths by simp
    moreover have "(0xD800 + unat w div 1024) * 1024 mod 2 ^ 32 = (0xD800 + unat w div 1024) * 1024"
    proof (rule mod_less)
      have "unat w div 1024 < 1024" using lt by simp
      then show "(0xD800 + unat w div 1024) * 1024 < 2 ^ 32" by simp
    qed
    ultimately show ?thesis by (simp only: u1)
  qed
  have "push_bit 10 (ucast ?w1) OR (ucast ?w2 AND 0x03FF :: Uchar32) = push_bit 10 (ucast ?w1) + (ucast ?w2 AND 0x03FF)"
    by (rule or_plus_high) (rule ord_eq_less_trans [OF u2], simp)
  moreover have "unat (push_bit 10 (ucast ?w1) + (ucast ?w2 AND 0x03FF) :: Uchar32) = unat (w + 0x3600000)"
  proof -
    have "unat (w + 0x3600000) = unat w + 0x3600000" using lt by (simp add: unat_word_ariths)
    moreover have "((0xD800 + unat w div 1024) * 1024 + unat w mod 1024) mod 2 ^ 32 = unat w + 0x3600000"
    proof -
      have "(0xD800 + unat w div 1024) * 1024 + unat w mod 1024 = unat w + 0x3600000"
        using div_mult_mod_eq [of "unat w" 1024] by (simp add: add_mult_distrib)
      then show ?thesis using lt by simp
    qed
    ultimately show ?thesis by (simp only: unat_word_ariths p u2 len_of_numeral_defs) simp
  qed
  ultimately have "push_bit 10 (ucast ?w1) OR (ucast ?w2 AND 0x03FF :: Uchar32) = w + 0x3600000"
    by (simp only: word_unat_eq_iff)
  then show ?thesis by simp
qed


section \<open>Results\<close>

lemma bmp_roundtrip:
  assumes "w < 0x10000" "w < 0xD800 \<or> 0xDFFF < w"
  shows "utf16_len_first_char bo (put_unit bo w m p) p 2 = 2 \<and> utf16_get_char_value bo (put_unit bo w m p) p = w"
proof -
  have u: "unat (ucast w :: Uchar16) = unat w"
    using assms(1) by (simp add: word_less_nat_alt unsigned_ucast_eq take_bit_nat_eq_self)
  then have r: "(ucast w :: Uchar16) < 0xD800 \<or> 0xDFFF < (ucast w :: Uchar16)"
    using assms(2) by (simp add: word_less_nat_alt)
  moreover have "ucast (ucast w :: Uchar16) = w"
    using assms(1)
    by (simp add: word_unat_eq_iff unsigned_ucast_eq unsigned_take_bit_eq take_bit_nat_eq_self word_less_nat_alt)
  ultimately show ?thesis by (simp add: utf16_len_first_char_def utf16_get_char_value_def Let_def)
qed

lemma supplementary_written:
  assumes "0x10000 \<le> w" "w \<le> 0x10FFFF" "utf16_conv_from_uc32 bo w m p = (n, m')" "4 \<le> len"
  shows "n = 4 \<and> utf16_len_first_char bo m' p len = 4 \<and> utf16_get_char_value bo m' p = w + 0x3600000"
proof -
  let ?w = "w - 0x10000"
  let ?w1 = "0xD800 OR (ucast (drop_bit 10 ?w) :: Uchar16)" and ?w2 = "0xDC00 OR (ucast (?w AND 0x03FF) :: Uchar16)"
  have lt: "?w < 0x100000"
  proof -
    have "unat w \<le> 0x10FFFF" "0x10000 \<le> unat w" using assms(1,2) by (simp_all add: word_le_nat_alt)
    moreover have "unat ?w = unat w - 0x10000" using assms(1) by (simp add: unat_sub)
    ultimately show ?thesis by (simp add: word_less_nat_alt)
  qed
  then have ltn: "unat ?w < 1048576" by (simp add: word_less_nat_alt)
  from assms(1-3) have e: "n = 4" "m' = put_unit bo ?w2 (put_unit bo ?w1 m p) (p + 2)"
    by (auto simp: utf16_conv_from_uc32_def Let_def not_less [symmetric])
  have a1: "unit_at bo m' p = ?w1" and a2: "unit_at bo m' (p + 2) = ?w2"
    unfolding e by (simp_all add: unit_put_other)
  from surrogate_units [OF lt] ltn have u: "unat ?w1 = 0xD800 + unat ?w div 1024" "unat ?w div 1024 < 1024"
    "unat ?w2 = 0xDC00 + unat ?w mod 1024" by simp_all
  have "unat ?w mod 1024 < 1024" by simp
  with u have "\<not> (?w1 < 0xD800 \<or> ?w1 > 0xDFFF)" "?w1 \<le> 0xDBFF" "\<not> (?w2 < 0xDC00 \<or> ?w2 > 0xDFFF)"
    by (simp_all add: word_less_nat_alt word_le_nat_alt del: mod_less_divisor)
  with a1 a2 supplementary_value [OF lt] assms(4) e(1) show ?thesis
    by (simp add: utf16_len_first_char_def utf16_get_char_value_def Let_def)
qed

text \<open>C38: What \<open>utf16le_conv_from_uc32\<close> and \<open>utf16be_conv_from_uc32\<close> write: a code of the basic plane that is
  no surrogate is read back as it is; a supplementary code is written as a surrogate pair that
  \<open>len_first_char\<close> accepts, but \<open>get_char_value\<close> does not mask the high surrogate and reads every one of them
  0x3600000 too high; a code above 0x10FFFF is rejected without touching the memory.\<close>

theorem utf16_roundtrip:
  "(w < 0xD800 \<or> 0xDFFF < w \<and> w < 0x10000 \<longrightarrow> (case utf16_conv_from_uc32 bo w m p of (n, m') \<Rightarrow>
      n = 2 \<and> utf16_len_first_char bo m' p (int n) = n \<and> utf16_get_char_value bo m' p = w))
   \<and> (0x10000 \<le> w \<and> w \<le> 0x10FFFF \<longrightarrow> (case utf16_conv_from_uc32 bo w m p of (n, m') \<Rightarrow>
      n = 4 \<and> utf16_len_first_char bo m' p (int n) = n \<and> utf16_get_char_value bo m' p = w + 0x3600000))
   \<and> (0x10FFFF < w \<longrightarrow> utf16_conv_from_uc32 bo w m p = (0, m))"
proof (intro conjI impI)
  assume w: "w < 0xD800 \<or> 0xDFFF < w \<and> w < 0x10000"
  then have "w < 0x10000" by (auto intro: less_trans)
  moreover from this have "\<not> 0x10FFFF < w" by (auto dest: less_trans)
  moreover have "w < 0xD800 \<or> 0xDFFF < w" using w by blast
  ultimately show "case utf16_conv_from_uc32 bo w m p of (n, m') \<Rightarrow>
      n = 2 \<and> utf16_len_first_char bo m' p (int n) = n \<and> utf16_get_char_value bo m' p = w"
    using bmp_roundtrip [of w bo m p] by (simp add: utf16_conv_from_uc32_def)
next
  assume w: "0x10000 \<le> w \<and> w \<le> 0x10FFFF"
  obtain n m' where c: "utf16_conv_from_uc32 bo w m p = (n, m')" by fastforce
  from supplementary_written [OF conjunct1 [OF w] conjunct2 [OF w] c, of 4] c
  show "case utf16_conv_from_uc32 bo w m p of (n, m') \<Rightarrow>
      n = 4 \<and> utf16_len_first_char bo m' p (int n) = n \<and> utf16_get_char_value bo m' p = w + 0x3600000" by simp
next
  assume "0x10FFFF < w"
  then show "utf16_conv_from_uc32 bo w m p = (0, m)" by (simp add: utf16_conv_from_uc32_def)
qed

lemma utf16_roundtrip_witness:
  "(case utf16_conv_from_uc32 BE 0x4E2D (\<lambda>_. 0) 3 of (n, m') \<Rightarrow>
     n = 2 \<and> utf16_len_first_char BE m' 3 (int n) = n \<and> utf16_get_char_value BE m' 3 = 0x4E2D)
   \<and> (case utf16_conv_from_uc32 LE 0x1F600 (\<lambda>_. 0) 3 of (n, m') \<Rightarrow>
     n = 4 \<and> utf16_len_first_char LE m' 3 (int n) = n \<and> utf16_get_char_value LE m' 3 = 0x361F600)"
  using utf16_roundtrip [where w = "0x4E2D" and bo = BE and m = "\<lambda>_. 0" and p = 3]
    utf16_roundtrip [where w = "0x1F600" and bo = LE and m = "\<lambda>_. 0" and p = 3] by simp

interpretation u16: stable_lengths "utf16_len_first_char bo"
  by unfold_locales (auto simp: utf16_len_first_char_def Let_def split: if_splits)

text \<open>A low surrogate on its own counts as a character of four bytes even when the string ends behind it.\<close>

lemma utf16_low_surrogate_overruns:
  "utf16_len_first_substr LE (\<lambda>i. [0x00, 0xDC] ! (i mod 2)) 0 2 = 4"
  by code_simp

lemma utf16_zero_left: "utf16_len_first_char bo m p 0 = 0"
  by (simp add: utf16_len_first_char_def)

text \<open>The characters of a well-formed text cannot be counted: the loop asks for the character behind the
  last one for ever.\<close>

lemma utf16_nr_chars_never_returns:
  assumes "chars_at (utf16_len_first_char bo) m p ns e"
  shows "utf16_nr_chars_in_str bo m p (int e - int p) = None"
  unfolding utf16_nr_chars_in_str_def u16.nr_chars_reaches_end [OF assms refl]
  by (rule nr_chars_loop_stuck) (simp_all add: utf16_zero_left)


end
