(* ===== verification/MG_CharsetOps.thy ===== *)
theory MG_CharsetOps
  imports MG_DoubleByte MG_Utf8 MG_Utf16
begin

text \<open>
  The operation tables of the multi-byte charsets and the table of all charsets of \<open>src/font/charset.c\<close>, in the
  configuration with every charset but the Arabic one (which is in \<open>charset-arabic.c\<close>). The conversion tables
  and the generated searches in them are fields of \<open>uc_tables\<close>.
\<close>

section \<open>Conversions with tables\<close>

record uc_tables =
  gb_unicode_map :: "nat \<Rightarrow> Uchar16"
  gbk_unicode_map :: "nat \<Rightarrow> Uchar16"
  gb18030_unicode_map :: "nat \<Rightarrow> Uchar16"
  big5_unicode_map :: "nat \<Rightarrow> Uchar16"
  ksc5601_unicode_map :: "nat \<Rightarrow> Uchar16"
  jisx0208_0_unicode_map :: "nat \<Rightarrow> Uchar16"
  jisx0208_1_unicode_map :: "nat \<Rightarrow> Uchar16"
  map_uc16_to_gb :: "Uchar16 \<Rightarrow> (u8 \<times> u8) option"
  map_uc16_to_gbk :: "Uchar16 \<Rightarrow> (u8 \<times> u8) option"
  map_uc16_to_big5 :: "Uchar16 \<Rightarrow> (u8 \<times> u8) option"
  map_ucs_to_gb18030 :: "int \<Rightarrow> bytes \<Rightarrow> nat \<Rightarrow> nat \<times> bytes"

definition plain_conv_to_uc32 :: "(nat \<Rightarrow> Uchar16) \<Rightarrow> Achar32 \<Rightarrow> Uchar32" where
  "plain_conv_to_uc32 unicode_map chv = ucast (unicode_map (unat (REAL_ACHAR chv)))"

definition checked_conv_to_uc32 :: "(nat \<Rightarrow> Uchar16) \<Rightarrow> Achar32 \<Rightarrow> Uchar32" where
  "checked_conv_to_uc32 unicode_map chv =
     (let ucs_code = unicode_map (unat (REAL_ACHAR chv)) in if ucs_code = 0 then 0x3F else ucast ucs_code)"

definition pair_conv_from_uc32 :: "(Uchar16 \<Rightarrow> (u8 \<times> u8) option) \<Rightarrow> Uchar32 \<Rightarrow> bytes \<Rightarrow> nat \<Rightarrow> nat \<times> bytes" where
  "pair_conv_from_uc32 map_uc16 wc m p =
     (if wc > 0xFFFF then (0, m)
      else case map_uc16 (ucast wc) of None \<Rightarrow> (0, m) | Some (a, b) \<Rightarrow> (2, m(p := a, p + 1 := b)))"

definition no_conv_from_uc32 :: "Uchar32 \<Rightarrow> bytes \<Rightarrow> nat \<Rightarrow> nat \<times> bytes" where
  "no_conv_from_uc32 wc m p = (0, m)"

section \<open>JIS X 0201 in EUC-JP\<close>

definition jisx0201_0_len_first_char :: "bytes \<Rightarrow> nat \<Rightarrow> int \<Rightarrow> nat" where
  "jisx0201_0_len_first_char m mstr len =
     (if m mstr = 0 then 0 else if m mstr = 0x8E \<and> m (mstr + 1) \<ge> 0xA1 \<and> m (mstr + 1) \<le> 0xDF then 2 else 1)"

definition jisx0201_0_get_char_value :: "bytes \<Rightarrow> nat \<Rightarrow> Achar32" where
  "jisx0201_0_get_char_value m cur = (if m cur = 0x8E then ucast (m (cur + 1)) else ucast (m cur))"

function jisx0201_0_count :: "bytes \<Rightarrow> nat \<Rightarrow> int \<Rightarrow> int \<Rightarrow> int" where
  "jisx0201_0_count m mstr left n =
     (if left > 0 then
        if m mstr = 0 then n
        else if m mstr = 0x8E \<and> m (mstr + 1) \<ge> 0xA1 \<and> m (mstr + 1) \<le> 0xDF
        then jisx0201_0_count m (mstr + 2) (left - 2) (n + 1)
        else jisx0201_0_count m (mstr + 1) (left - 1) (n + 1)
      else n)"
  by auto
termination by (relation "measure (\<lambda>(m, p, left, n). nat left)") auto

declare jisx0201_0_count.simps [simp del]

definition jisx0201_0_nr_chars_in_str :: "bytes \<Rightarrow> nat \<Rightarrow> int \<Rightarrow> int option" where
  "jisx0201_0_nr_chars_in_str m mstr mstrlen = Some (jisx0201_0_count m mstr mstrlen 0)"

definition jisx0201_0_conv_to_uc32 :: "Achar32 \<Rightarrow> Uchar32" where
  "jisx0201_0_conv_to_uc32 chv =
     (if chv \<ge> 0xA1 \<and> chv \<le> 0xDF then 0xFF61 + chv - 0xA1
      else if chv = 0x5C then 0x00A5 else if chv = 0x80 then 0x005C else chv)"

section \<open>The operations of each charset\<close>

definition gb2312_0_is_this_charset :: "string \<Rightarrow> bool option" where
  "gb2312_0_is_this_charset = with_name (\<lambda>name. has name ''GB'' \<and> has name ''2312'' \<or> has name ''EUC'' \<and> has name ''CN'')"

definition gbk_is_this_charset :: "string \<Rightarrow> bool option" where
  "gbk_is_this_charset = with_name (\<lambda>name. has name ''GBK'' \<or> has name ''GB'' \<and> has name ''2312'' \<or> has name ''EUC'' \<and> has name ''CN'')"

definition gb18030_0_is_this_charset :: "string \<Rightarrow> bool option" where
  "gb18030_0_is_this_charset = with_name (\<lambda>name. has name ''GB'' \<and> has name ''18030'' \<or> has name ''GBK'' \<or> has name ''GB'' \<and> has name ''2312'')"

definition big5_is_this_charset :: "string \<Rightarrow> bool option" where
  "big5_is_this_charset = with_name (\<lambda>name. has name ''BIG5'')"

definition ksc5601_0_is_this_charset :: "string \<Rightarrow> bool option" where
  "ksc5601_0_is_this_charset = with_name (\<lambda>name. has name ''KSC5601'' \<and> has name ''-0'' \<or> has name ''EUC'' \<and> has name ''KR'')"

definition jisx0201_0_is_this_charset :: "string \<Rightarrow> bool option" where
  "jisx0201_0_is_this_charset = with_name (\<lambda>name. has name ''JISX0201'' \<and> has name ''-0'')"

definition jisx0208_0_is_this_charset :: "string \<Rightarrow> bool option" where
  "jisx0208_0_is_this_charset = with_name (\<lambda>name. has name ''JISX0208'' \<and> has name ''-0'' \<or> has name ''EUC'' \<and> has name ''JP'')"

definition jisx0208_1_is_this_charset :: "string \<Rightarrow> bool option" where
  "jisx0208_1_is_this_charset = with_name (\<lambda>name. has name ''JISX0208'' \<and> has name ''-1'' \<or> has name ''SHIFT'' \<and> has name ''JIS'')"

definition gb2312_0_len_first_char :: "bytes \<Rightarrow> nat \<Rightarrow> int \<Rightarrow> nat" where
  "gb2312_0_len_first_char = db_len_first_char IS_GB2312_CHAR"

definition gb2312_0_get_char_value :: "bytes \<Rightarrow> nat \<Rightarrow> Achar32" where
  "gb2312_0_get_char_value = pair_value gb2312_0_value"

definition gb2312_0_len_first_substr :: "bytes \<Rightarrow> nat \<Rightarrow> int \<Rightarrow> int" where
  "gb2312_0_len_first_substr = db_len_first_substr IS_GB2312_CHAR"

definition gb2312_0_pos_first_char :: "bytes \<Rightarrow> nat \<Rightarrow> int \<Rightarrow> int option" where
  "gb2312_0_pos_first_char = db_pos_first_char IS_GB2312_CHAR"

definition gb2312_0_conv_to_uc32 :: "uc_tables \<Rightarrow> Achar32 \<Rightarrow> Uchar32" where
  "gb2312_0_conv_to_uc32 t = plain_conv_to_uc32 (gb_unicode_map t)"

definition gb2312_0_conv_from_uc32 :: "uc_tables \<Rightarrow> Uchar32 \<Rightarrow> bytes \<Rightarrow> nat \<Rightarrow> nat \<times> bytes" where
  "gb2312_0_conv_from_uc32 t = pair_conv_from_uc32 (map_uc16_to_gb t)"

definition CharsetOps_gb2312_0 :: "uc_tables \<Rightarrow> CHARSETOPS" where
  "CharsetOps_gb2312_0 t = \<lparr>nr_chars = (0xFF - 0xA1) * (72 + 9), bytes_maxlen_char = 2, cs_name = ''GB2312-0'',
     len_first_char = gb2312_0_len_first_char, get_char_value = gb2312_0_get_char_value, nr_chars_in_str = db_nr_chars_in_str,
     is_this_charset = gb2312_0_is_this_charset, len_first_substr = gb2312_0_len_first_substr,
     get_next_word = db_get_next_word, pos_first_char = gb2312_0_pos_first_char,
     conv_to_uc32 = Some (gb2312_0_conv_to_uc32 t), conv_from_uc32 = gb2312_0_conv_from_uc32 t\<rparr>"

definition gbk_len_first_char :: "bytes \<Rightarrow> nat \<Rightarrow> int \<Rightarrow> nat" where
  "gbk_len_first_char = db_len_first_char IS_GBK_CHAR"

definition gbk_get_char_value :: "bytes \<Rightarrow> nat \<Rightarrow> Achar32" where
  "gbk_get_char_value = pair_value gbk_value"

definition gbk_len_first_substr :: "bytes \<Rightarrow> nat \<Rightarrow> int \<Rightarrow> int" where
  "gbk_len_first_substr = db_len_first_substr IS_GBK_CHAR"

definition gbk_pos_first_char :: "bytes \<Rightarrow> nat \<Rightarrow> int \<Rightarrow> int option" where
  "gbk_pos_first_char = db_pos_first_char IS_GBK_CHAR"

definition gbk_conv_to_uc32 :: "uc_tables \<Rightarrow> Achar32 \<Rightarrow> Uchar32" where
  "gbk_conv_to_uc32 t = plain_conv_to_uc32 (gbk_unicode_map t)"

definition gbk_conv_from_uc32 :: "uc_tables \<Rightarrow> Uchar32 \<Rightarrow> bytes \<Rightarrow> nat \<Rightarrow> nat \<times> bytes" where
  "gbk_conv_from_uc32 t = pair_conv_from_uc32 (map_uc16_to_gbk t)"

definition CharsetOps_gbk :: "uc_tables \<Rightarrow> CHARSETOPS" where
  "CharsetOps_gbk t = \<lparr>nr_chars = (0xFE - 0x80) * 190, bytes_maxlen_char = 2, cs_name = ''GBK'',
     len_first_char = gbk_len_first_char, get_char_value = gbk_get_char_value, nr_chars_in_str = db_nr_chars_in_str,
     is_this_charset = gbk_is_this_charset, len_first_substr = gbk_len_first_substr,
     get_next_word = db_get_next_word, pos_first_char = gbk_pos_first_char,
     conv_to_uc32 = Some (gbk_conv_to_uc32 t), conv_from_uc32 = gbk_conv_from_uc32 t\<rparr>"

definition big5_len_first_char :: "bytes \<Rightarrow> nat \<Rightarrow> int \<Rightarrow> nat" where
  "big5_len_first_char = db_len_first_char is_big5_char"

definition big5_get_char_value :: "bytes \<Rightarrow> nat \<Rightarrow> Achar32" where
  "big5_get_char_value = pair_value big5_value"

definition big5_len_first_substr :: "bytes \<Rightarrow> nat \<Rightarrow> int \<Rightarrow> int" where
  "big5_len_first_substr = db_len_first_substr is_big5_char"

definition big5_pos_first_char :: "bytes \<Rightarrow> nat \<Rightarrow> int \<Rightarrow> int option" where
  "big5_pos_first_char = db_pos_first_char is_big5_char"

definition big5_conv_to_uc32 :: "uc_tables \<Rightarrow> Achar32 \<Rightarrow> Uchar32" where
  "big5_conv_to_uc32 t = checked_conv_to_uc32 (big5_unicode_map t)"

definition big5_conv_from_uc32 :: "uc_tables \<Rightarrow> Uchar32 \<Rightarrow> bytes \<Rightarrow> nat \<Rightarrow> nat \<times> bytes" where
  "big5_conv_from_uc32 t = pair_conv_from_uc32 (map_uc16_to_big5 t)"

definition CharsetOps_big5 :: "uc_tables \<Rightarrow> CHARSETOPS" where
  "CharsetOps_big5 t = \<lparr>nr_chars = 14758, bytes_maxlen_char = 2, cs_name = ''BIG5'',
     len_first_char = big5_len_first_char, get_char_value = big5_get_char_value, nr_chars_in_str = db_nr_chars_in_str,
     is_this_charset = big5_is_this_charset, len_first_substr = big5_len_first_substr,
     get_next_word = db_get_next_word, pos_first_char = big5_pos_first_char,
     conv_to_uc32 = Some (big5_conv_to_uc32 t), conv_from_uc32 = big5_conv_from_uc32 t\<rparr>"

definition ksc5601_0_len_first_char :: "bytes \<Rightarrow> nat \<Rightarrow> int \<Rightarrow> nat" where
  "ksc5601_0_len_first_char = db_len_first_char is_ksc5601_char"

definition ksc5601_0_get_char_value :: "bytes \<Rightarrow> nat \<Rightarrow> Achar32" where
  "ksc5601_0_get_char_value = pair_value ksc5601_0_value"

definition ksc5601_0_len_first_substr :: "bytes \<Rightarrow> nat \<Rightarrow> int \<Rightarrow> int" where
  "ksc5601_0_len_first_substr = db_len_first_substr is_ksc5601_char"

definition ksc5601_0_pos_first_char :: "bytes \<Rightarrow> nat \<Rightarrow> int \<Rightarrow> int option" where
  "ksc5601_0_pos_first_char = db_pos_first_char is_ksc5601_char"

definition ksc5601_0_conv_to_uc32 :: "uc_tables \<Rightarrow> Achar32 \<Rightarrow> Uchar32" where
  "ksc5601_0_conv_to_uc32 t = checked_conv_to_uc32 (ksc5601_unicode_map t)"

definition ksc5601_0_conv_from_uc32 :: "uc_tables \<Rightarrow> Uchar32 \<Rightarrow> bytes \<Rightarrow> nat \<Rightarrow> nat \<times> bytes" where
  "ksc5601_0_conv_from_uc32 t = no_conv_from_uc32"

definition CharsetOps_ksc5601_0 :: "uc_tables \<Rightarrow> CHARSETOPS" where
  "CharsetOps_ksc5601_0 t = \<lparr>nr_chars = 8836, bytes_maxlen_char = 2, cs_name = ''EUC-KR'',
     len_first_char = ksc5601_0_len_first_char, get_char_value = ksc5601_0_get_char_value, nr_chars_in_str = db_nr_chars_in_str,
     is_this_charset = ksc5601_0_is_this_charset, len_first_substr = ksc5601_0_len_first_substr,
     get_next_word = db_get_next_word, pos_first_char = ksc5601_0_pos_first_char,
     conv_to_uc32 = Some (ksc5601_0_conv_to_uc32 t), conv_from_uc32 = ksc5601_0_conv_from_uc32 t\<rparr>"

definition jisx0208_0_len_first_char :: "bytes \<Rightarrow> nat \<Rightarrow> int \<Rightarrow> nat" where
  "jisx0208_0_len_first_char = db_len_first_char is_jisx0208_0_char"

definition jisx0208_0_get_char_value :: "bytes \<Rightarrow> nat \<Rightarrow> Achar32" where
  "jisx0208_0_get_char_value = pair_value jisx0208_0_value"

definition jisx0208_0_len_first_substr :: "bytes \<Rightarrow> nat \<Rightarrow> int \<Rightarrow> int" where
  "jisx0208_0_len_first_substr = db_len_first_substr is_jisx0208_0_char"

definition jisx0208_0_pos_first_char :: "bytes \<Rightarrow> nat \<Rightarrow> int \<Rightarrow> int option" where
  "jisx0208_0_pos_first_char = db_pos_first_char is_jisx0208_0_char"

definition jisx0208_0_conv_to_uc32 :: "uc_tables \<Rightarrow> Achar32 \<Rightarrow> Uchar32" where
  "jisx0208_0_conv_to_uc32 t = checked_conv_to_uc32 (jisx0208_0_unicode_map t)"

definition jisx0208_0_conv_from_uc32 :: "uc_tables \<Rightarrow> Uchar32 \<Rightarrow> bytes \<Rightarrow> nat \<Rightarrow> nat \<times> bytes" where
  "jisx0208_0_conv_from_uc32 t = no_conv_from_uc32"

definition CharsetOps_jisx0208_0 :: "uc_tables \<Rightarrow> CHARSETOPS" where
  "CharsetOps_jisx0208_0 t = \<lparr>nr_chars = 8836, bytes_maxlen_char = 2, cs_name = ''JISX0208-0'',
     len_first_char = jisx0208_0_len_first_char, get_char_value = jisx0208_0_get_char_value, nr_chars_in_str = db_nr_chars_in_str,
     is_this_charset = jisx0208_0_is_this_charset, len_first_substr = jisx0208_0_len_first_substr,
     get_next_word = db_get_next_word, pos_first_char = jisx0208_0_pos_first_char,
     conv_to_uc32 = Some (jisx0208_0_conv_to_uc32 t), conv_from_uc32 = jisx0208_0_conv_from_uc32 t\<rparr>"

definition jisx0208_1_len_first_char :: "bytes \<Rightarrow> nat \<Rightarrow> int \<Rightarrow> nat" where
  "jisx0208_1_len_first_char = db_len_first_char is_jisx0208_1_char"

definition jisx0208_1_get_char_value :: "bytes \<Rightarrow> nat \<Rightarrow> Achar32" where
  "jisx0208_1_get_char_value = pair_value jisx0208_1_value"

definition jisx0208_1_len_first_substr :: "bytes \<Rightarrow> nat \<Rightarrow> int \<Rightarrow> int" where
  "jisx0208_1_len_first_substr = db_len_first_substr is_jisx0208_1_char"

definition jisx0208_1_pos_first_char :: "bytes \<Rightarrow> nat \<Rightarrow> int \<Rightarrow> int option" where
  "jisx0208_1_pos_first_char = db_pos_first_char is_jisx0208_1_char"

definition jisx0208_1_conv_to_uc32 :: "uc_tables \<Rightarrow> Achar32 \<Rightarrow> Uchar32" where
  "jisx0208_1_conv_to_uc32 t = checked_conv_to_uc32 (jisx0208_1_unicode_map t)"

definition jisx0208_1_conv_from_uc32 :: "uc_tables \<Rightarrow> Uchar32 \<Rightarrow> bytes \<Rightarrow> nat \<Rightarrow> nat \<times> bytes" where
  "jisx0208_1_conv_from_uc32 t = no_conv_from_uc32"

definition CharsetOps_jisx0208_1 :: "uc_tables \<Rightarrow> CHARSETOPS" where
  "CharsetOps_jisx0208_1 t = \<lparr>nr_chars = 8836, bytes_maxlen_char = 2, cs_name = ''JISX0208-1'',
     len_first_char = jisx0208_1_len_first_char, get_char_value = jisx0208_1_get_char_value, nr_chars_in_str = db_nr_chars_in_str,
     is_this_charset = jisx0208_1_is_this_charset, len_first_substr = jisx0208_1_len_first_substr,
     get_next_word = db_get_next_word, pos_first_char = jisx0208_1_pos_first_char,
     conv_to_uc32 = Some (jisx0208_1_conv_to_uc32 t), conv_from_uc32 = jisx0208_1_conv_from_uc32 t\<rparr>"

definition CharsetOps_gb18030_0 :: "uc_tables \<Rightarrow> CHARSETOPS" where
  "CharsetOps_gb18030_0 t = \<lparr>nr_chars = 1587600 + 23940, bytes_maxlen_char = 4, cs_name = ''GB18030-0'',
     len_first_char = gb18030_0_len_first_char, get_char_value = gb18030_0_get_char_value,
     nr_chars_in_str = gb18030_0_nr_chars_in_str, is_this_charset = gb18030_0_is_this_charset,
     len_first_substr = gb18030_0_len_first_substr, get_next_word = gb18030_0_get_next_word,
     pos_first_char = gb18030_0_pos_first_char, conv_to_uc32 = Some (gb18030_0_conv_to_uc32 (gb18030_unicode_map t)),
     conv_from_uc32 = gb18030_0_conv_from_uc32 (map_ucs_to_gb18030 t)\<rparr>"

definition CharsetOps_jisx0201_0 :: CHARSETOPS where
  "CharsetOps_jisx0201_0 = \<lparr>nr_chars = 190, bytes_maxlen_char = 1, cs_name = ''JISX0201-0'',
     len_first_char = jisx0201_0_len_first_char, get_char_value = jisx0201_0_get_char_value,
     nr_chars_in_str = jisx0201_0_nr_chars_in_str, is_this_charset = jisx0201_0_is_this_charset,
     len_first_substr = sb_len_first_substr, get_next_word = sb_get_next_word, pos_first_char = sb_pos_first_char,
     conv_to_uc32 = Some jisx0201_0_conv_to_uc32, conv_from_uc32 = no_conv_from_uc32\<rparr>"

definition CharsetOps_utf8 :: CHARSETOPS where
  "CharsetOps_utf8 = \<lparr>nr_chars = 0x7FFFFFFF, bytes_maxlen_char = 6, cs_name = ''UTF-8'',
     len_first_char = utf8_len_first_char, get_char_value = utf8_get_char_value,
     nr_chars_in_str = utf8_nr_chars_in_str, is_this_charset = utf8_is_this_charset,
     len_first_substr = (\<lambda>m p l. int (utf8_len_first_substr m p l)), get_next_word = (\<lambda>m p l. Some (utf8_get_next_word m p l)),
     pos_first_char = (\<lambda>m p l. Some (utf8_pos_first_char m p l)), conv_to_uc32 = None,
     conv_from_uc32 = utf8_conv_from_uc32\<rparr>"

definition CharsetOps_utf16 :: "byte_order \<Rightarrow> CHARSETOPS" where
  "CharsetOps_utf16 bo = \<lparr>nr_chars = 0x7FFFFFFF, bytes_maxlen_char = 4,
     cs_name = (case bo of LE \<Rightarrow> ''UTF-16LE'' | BE \<Rightarrow> ''UTF-16BE''),
     len_first_char = utf16_len_first_char bo, get_char_value = utf16_get_char_value bo,
     nr_chars_in_str = utf16_nr_chars_in_str bo, is_this_charset = utf16_is_this_charset bo,
     len_first_substr = (\<lambda>m p l. int (utf16_len_first_substr bo m p l)),
     get_next_word = (\<lambda>m p l. Some (utf16_get_next_word bo m p l)),
     pos_first_char = utf16_pos_first_char bo, conv_to_uc32 = None, conv_from_uc32 = utf16_conv_from_uc32 bo\<rparr>"

section \<open>The table of charsets\<close>

definition Charsets :: "uc_tables \<Rightarrow> CHARSETOPS list" where
  "Charsets t = [CharsetOps_ascii, CharsetOps_iso8859_16, CharsetOps_iso8859_15, CharsetOps_iso8859_14,
     CharsetOps_iso8859_13, CharsetOps_iso8859_11, CharsetOps_iso8859_10, CharsetOps_iso8859_9, CharsetOps_iso8859_8,
     CharsetOps_iso8859_7, CharsetOps_iso8859_5, CharsetOps_iso8859_4, CharsetOps_iso8859_3, CharsetOps_iso8859_2,
     CharsetOps_iso8859_1, CharsetOps_gb18030_0 t, CharsetOps_gbk t, CharsetOps_gb2312_0 t, CharsetOps_big5 t,
     CharsetOps_ksc5601_0 t, CharsetOps_jisx0201_0, CharsetOps_jisx0208_0 t, CharsetOps_jisx0201_1,
     CharsetOps_jisx0208_1 t, CharsetOps_utf8, CharsetOps_utf16 LE, CharsetOps_utf16 BE]"

section \<open>Finding a charset by its name\<close>

definition charset_tests :: "(string \<Rightarrow> bool option) list" where
  "charset_tests = [ascii_is_this_charset, iso8859_16_is_this_charset, iso8859_15_is_this_charset,
     iso8859_14_is_this_charset, iso8859_13_is_this_charset, iso8859_11_is_this_charset, iso8859_10_is_this_charset,
     iso8859_9_is_this_charset, iso8859_8_is_this_charset, iso8859_7_is_this_charset, iso8859_5_is_this_charset,
     iso8859_4_is_this_charset, iso8859_3_is_this_charset, iso8859_2_is_this_charset, iso8859_1_is_this_charset,
     gb18030_0_is_this_charset, gbk_is_this_charset, gb2312_0_is_this_charset, big5_is_this_charset,
     ksc5601_0_is_this_charset, jisx0201_0_is_this_charset, jisx0208_0_is_this_charset, jisx0201_1_is_this_charset,
     jisx0208_1_is_this_charset, utf8_is_this_charset, utf16_is_this_charset LE, utf16_is_this_charset BE]"

definition charset_names :: "string list" where
  "charset_names = [''US-ASCII'', ''ISO8859-16'', ''ISO8859-15'', ''ISO8859-14'', ''ISO8859-13'', ''ISO8859-11'',
     ''ISO8859-10'', ''ISO8859-9'', ''ISO8859-8'', ''ISO8859-7'', ''ISO8859-5'', ''ISO8859-4'', ''ISO8859-3'',
     ''ISO8859-2'', ''ISO8859-1'', ''GB18030-0'', ''GBK'', ''GB2312-0'', ''BIG5'', ''EUC-KR'', ''JISX0201-0'',
     ''JISX0208-0'', ''JISX0201-1'', ''JISX0208-1'', ''UTF-8'', ''UTF-16LE'', ''UTF-16BE'']"

lemmas charset_ops_defs = CharsetOps_ascii_def CharsetOps_iso8859_1_def CharsetOps_iso8859_2_def CharsetOps_iso8859_3_def
  CharsetOps_iso8859_4_def CharsetOps_iso8859_5_def CharsetOps_iso8859_7_def CharsetOps_iso8859_8_def
  CharsetOps_iso8859_9_def CharsetOps_iso8859_10_def CharsetOps_iso8859_11_def CharsetOps_iso8859_13_def
  CharsetOps_iso8859_14_def CharsetOps_iso8859_15_def CharsetOps_iso8859_16_def CharsetOps_gb18030_0_def
  CharsetOps_gbk_def CharsetOps_gb2312_0_def CharsetOps_big5_def CharsetOps_ksc5601_0_def CharsetOps_jisx0201_0_def
  CharsetOps_jisx0208_0_def CharsetOps_jisx0201_1_def CharsetOps_jisx0208_1_def CharsetOps_utf8_def CharsetOps_utf16_def

lemma Charsets_fields:
  "map is_this_charset (Charsets t) = charset_tests" "map cs_name (Charsets t) = charset_names"
  by (simp_all add: Charsets_def charset_tests_def charset_names_def charset_ops_defs)

lemma Charsets_length: "length (Charsets t) = 27"
  by (simp add: Charsets_def)

fun first_true :: "(string \<Rightarrow> bool option) list \<Rightarrow> string \<Rightarrow> nat option option" where
  "first_true [] charset = Some None"
| "first_true (f # fs) charset =
     (case f charset of None \<Rightarrow> None
      | Some b \<Rightarrow> if b then Some (Some 0) else map_option (map_option Suc) (first_true fs charset))"

lemma first_charset_by_index:
  "first_charset cs charset = map_option (map_option ((!) cs)) (first_true (map is_this_charset cs) charset)"
  by (induction cs) (auto split: option.splits simp: option.map_comp comp_def)

definition answers_to :: "nat \<Rightarrow> nat" where
  "answers_to i = (if i = 16 \<or> i = 17 then 15 else i)"

lemma first_true_names:
  "list_all (\<lambda>i. first_true charset_tests (charset_names ! i) = Some (Some (answers_to i))) [0..<27]"
  by code_simp

text \<open>In the full table \<open>GetCharsetOps\<close> finds every charset by its own name, except that GBK and GB2312-0 are
  answered by GB18030-0, which stands before them and accepts their names.\<close>

theorem GetCharsetOps_own_name:
  assumes "i < 27"
  shows "GetCharsetOps (Charsets t) (cs_name (Charsets t ! i)) = Some (Some (Charsets t ! answers_to i))"
proof -
  have "cs_name (Charsets t ! i) = charset_names ! i"
    using assms Charsets_fields(2) [of t] Charsets_length [of t] by (metis nth_map)
  moreover have "first_true charset_tests (charset_names ! i) = Some (Some (answers_to i))"
    using first_true_names assms by (simp add: list_all_iff)
  ultimately show ?thesis
    by (simp add: GetCharsetOps_def first_charset_by_index Charsets_fields)
qed

lemma GetCharsetOps_own_name_witness:
  "(16 :: nat) < 27 \<and> (\<forall>t. GetCharsetOps (Charsets t) (cs_name (Charsets t ! 16)) = Some (Some (Charsets t ! 15)))"
  using GetCharsetOps_own_name [of 16] by (simp add: answers_to_def)

end
