(* ===== verification/MG_RbHeap.thy ===== *)
theory MG_RbHeap
  imports MG_Prelude "HOL-Library.Monad_Syntax"
begin

text \<open>
  Red-black trees of \<open>src/misc/rbtree.c\<close> and \<open>src/include/rbtree.h\<close>: nodes with a link to the parent, in a
  memory. A pointer is an address, \<open>NULL\<close> is 0. A read or write through a pointer that names no node is the
  value None, and so is a loop that does not end. The code has every step twice, for the left and the right
  side; here the side is an argument.
\<close>

section \<open>Nodes in memory\<close>

type_synonym ptr = nat

abbreviation (input) NULL :: ptr where
  "NULL \<equiv> 0"

record rb_node =
  rb_color :: nat
  rb_parent :: ptr
  rb_right :: ptr
  rb_left :: ptr

type_synonym mem = "ptr \<Rightarrow> rb_node option"

text \<open>The memory and the field \<open>rb_node\<close> of the root.\<close>

type_synonym rb_state = "mem \<times> ptr"

datatype side = L | R

fun opp :: "side \<Rightarrow> side" where
  "opp L = R"
| "opp R = L"

fun child :: "side \<Rightarrow> rb_node \<Rightarrow> ptr" where
  "child L n = rb_left n"
| "child R n = rb_right n"

definition modify :: "ptr \<Rightarrow> (rb_node \<Rightarrow> rb_node) \<Rightarrow> mem \<Rightarrow> mem option" where
  "modify p f m = (case m p of None \<Rightarrow> None | Some n \<Rightarrow> Some (m(p \<mapsto> f n)))"

definition rb_is_red :: "rb_node \<Rightarrow> bool" where
  "rb_is_red n \<longleftrightarrow> rb_color n = 0"

definition rb_is_black :: "rb_node \<Rightarrow> bool" where
  "rb_is_black n \<longleftrightarrow> rb_color n \<noteq> 0"

definition rb_set_color :: "ptr \<Rightarrow> nat \<Rightarrow> mem \<Rightarrow> mem option" where
  "rb_set_color r color = modify r (rb_color_update (\<lambda>_. color))"

definition rb_set_red :: "ptr \<Rightarrow> mem \<Rightarrow> mem option" where
  "rb_set_red r = modify r (rb_color_update (\<lambda>_. 0))"

definition rb_set_black :: "ptr \<Rightarrow> mem \<Rightarrow> mem option" where
  "rb_set_black r = modify r (rb_color_update (\<lambda>_. 1))"

definition rb_set_parent :: "ptr \<Rightarrow> ptr \<Rightarrow> mem \<Rightarrow> mem option" where
  "rb_set_parent rb p = modify rb (rb_parent_update (\<lambda>_. p))"

fun set_child :: "side \<Rightarrow> ptr \<Rightarrow> ptr \<Rightarrow> mem \<Rightarrow> mem option" where
  "set_child L r p = modify r (rb_left_update (\<lambda>_. p))"
| "set_child R r p = modify r (rb_right_update (\<lambda>_. p))"

section \<open>Rotations\<close>

text \<open>The link that leads to \<open>old\<close>, in its parent or in the root, is set to \<open>new\<close>; the side \<open>s\<close> is the one
  that is tested.\<close>

definition hang_on :: "side \<Rightarrow> ptr \<Rightarrow> ptr \<Rightarrow> ptr \<Rightarrow> rb_state \<Rightarrow> rb_state option" where
  "hang_on s parent old new st =
     (if parent \<noteq> NULL then do {
        p \<leftarrow> fst st parent;
        m \<leftarrow> set_child (if child s p = old then s else opp s) parent new (fst st);
        Some (m, snd st) }
      else Some (fst st, new))"

definition link_parent :: "ptr \<Rightarrow> ptr \<Rightarrow> mem \<Rightarrow> mem option" where
  "link_parent q parent m = (if q \<noteq> NULL then rb_set_parent q parent m else Some m)"

text \<open>\<open>rb_rotate L\<close> is \<open>__rb_rotate_left\<close>, \<open>rb_rotate R\<close> is \<open>__rb_rotate_right\<close>.\<close>

definition rb_rotate :: "side \<Rightarrow> ptr \<Rightarrow> rb_state \<Rightarrow> rb_state option" where
  "rb_rotate s node st = do {
     n \<leftarrow> fst st node;
     let right = child (opp s) n;
     let parent = rb_parent n;
     r \<leftarrow> fst st right;
     m \<leftarrow> set_child (opp s) node (child s r) (fst st);
     m \<leftarrow> link_parent (child s r) node m;
     m \<leftarrow> set_child s right node m;
     m \<leftarrow> rb_set_parent right parent m;
     st \<leftarrow> hang_on s parent node right (m, snd st);
     m \<leftarrow> rb_set_parent node right (fst st);
     Some (m, snd st) }"

section \<open>Trees and places in trees\<close>

datatype ptree = Leaf | Node ptree nat ptr ptree

fun root_of :: "ptree \<Rightarrow> ptr" where
  "root_of Leaf = NULL"
| "root_of (Node l c p r) = p"

fun color_of :: "ptree \<Rightarrow> nat" where
  "color_of Leaf = 1"
| "color_of (Node l c p r) = c"

fun nodes :: "ptree \<Rightarrow> ptr list" where
  "nodes Leaf = []"
| "nodes (Node l c p r) = nodes l @ p # nodes r"

fun paint :: "nat \<Rightarrow> ptree \<Rightarrow> ptree" where
  "paint c Leaf = Leaf"
| "paint c (Node l d p r) = Node l c p r"

text \<open>A node by the subtree on the side \<open>s\<close> and the subtree on the other side.\<close>

fun mk :: "side \<Rightarrow> nat \<Rightarrow> ptr \<Rightarrow> ptree \<Rightarrow> ptree \<Rightarrow> ptree" where
  "mk L c p x y = Node x c p y"
| "mk R c p x y = Node y c p x"

fun mkn :: "side \<Rightarrow> nat \<Rightarrow> ptr \<Rightarrow> ptr \<Rightarrow> ptr \<Rightarrow> rb_node" where
  "mkn L c par x y = \<lparr>rb_color = c, rb_parent = par, rb_right = y, rb_left = x\<rparr>"
| "mkn R c par x y = \<lparr>rb_color = c, rb_parent = par, rb_right = x, rb_left = y\<rparr>"

fun tree_at :: "mem \<Rightarrow> ptr \<Rightarrow> ptree \<Rightarrow> bool" where
  "tree_at m par Leaf \<longleftrightarrow> True"
| "tree_at m par (Node l c p r) \<longleftrightarrow> p \<noteq> NULL \<and> m p = Some (mkn L c par (root_of l) (root_of r))
     \<and> tree_at m p l \<and> tree_at m p r"

text \<open>A place in a tree: the nodes above it, the nearest first, each with the side that leads down, and the
  subtree on its other side.\<close>

type_synonym ctx = "(side \<times> nat \<times> ptr \<times> ptree) list"

fun fill :: "ctx \<Rightarrow> ptree \<Rightarrow> ptree" where
  "fill [] t = t"
| "fill ((s, c, p, u) # ctx) t = fill ctx (mk s c p t u)"

fun par :: "ctx \<Rightarrow> ptr" where
  "par [] = NULL"
| "par ((s, c, p, u) # ctx) = p"

fun ctx_nodes :: "ctx \<Rightarrow> ptr set" where
  "ctx_nodes [] = {}"
| "ctx_nodes ((s, c, p, u) # ctx) = {p} \<union> set (nodes u) \<union> ctx_nodes ctx"

fun ctx_at :: "mem \<Rightarrow> ptr \<Rightarrow> ctx \<Rightarrow> ptr \<Rightarrow> bool" where
  "ctx_at m rt [] h \<longleftrightarrow> rt = h"
| "ctx_at m rt ((s, c, p, u) # ctx) h \<longleftrightarrow> p \<noteq> NULL \<and> m p = Some (mkn s c (par ctx) h (root_of u))
     \<and> tree_at m p u \<and> ctx_at m rt ctx p"

fun ctx_distinct :: "ctx \<Rightarrow> bool" where
  "ctx_distinct [] \<longleftrightarrow> True"
| "ctx_distinct ((s, c, p, u) # ctx) \<longleftrightarrow> distinct (nodes u) \<and> p \<notin> set (nodes u)
     \<and> ({p} \<union> set (nodes u)) \<inter> ctx_nodes ctx = {} \<and> ctx_distinct ctx"

definition repr :: "rb_state \<Rightarrow> ptree \<Rightarrow> bool" where
  "repr st t \<longleftrightarrow> snd st = root_of t \<and> tree_at (fst st) NULL t \<and> distinct (nodes t)"

text \<open>The same, seen from a place in the tree.\<close>

definition at_place :: "rb_state \<Rightarrow> ctx \<Rightarrow> ptree \<Rightarrow> bool" where
  "at_place st ctx t \<longleftrightarrow> ctx_at (fst st) (snd st) ctx (root_of t) \<and> tree_at (fst st) (par ctx) t
     \<and> ctx_distinct ctx \<and> distinct (nodes t) \<and> set (nodes t) \<inter> ctx_nodes ctx = {}"

lemma opp_opp [simp]: "opp (opp s) = s"
  by (cases s) auto

lemma opp_neq [simp]: "opp s \<noteq> s" "s \<noteq> opp s"
  by (cases s; simp)+

lemma mk_simps [simp]:
  "root_of (mk s c p x y) = p" "color_of (mk s c p x y) = c" "paint d (mk s c p x y) = mk s d p x y"
  "set (nodes (mk s c p x y)) = {p} \<union> set (nodes x) \<union> set (nodes y)"
  "mk s c p x y \<noteq> Leaf"
  "tree_at m par' (mk s c p x y) \<longleftrightarrow> p \<noteq> NULL \<and> m p = Some (mkn s c par' (root_of x) (root_of y)) \<and> tree_at m p x \<and> tree_at m p y"
  "distinct (nodes (mk s c p x y)) \<longleftrightarrow> p \<notin> set (nodes x) \<and> p \<notin> set (nodes y) \<and> distinct (nodes x) \<and> distinct (nodes y)
     \<and> set (nodes x) \<inter> set (nodes y) = {}"
  by (cases s; auto)+

lemma mk_opp: "mk (opp s) c p x y = mk s c p y x"
  by (cases s) auto

lemma mkn_opp: "mkn (opp s) c q x y = mkn s c q y x"
  by (cases s) auto

lemma mkn_simps [simp]:
  "child s (mkn s c q x y) = x" "child (opp s) (mkn s c q x y) = y" "rb_parent (mkn s c q x y) = q"
  "rb_color (mkn s c q x y) = c" "rb_color_update f (mkn s c q x y) = mkn s (f c) q x y"
  "rb_parent_update g (mkn s c q x y) = mkn s c (g q) x y"
  by (cases s; simp)+

lemma set_child_mkn:
  "m p = Some (mkn s c q x y) \<Longrightarrow> set_child s p z m = Some (m(p \<mapsto> mkn s c q z y))"
  "m p = Some (mkn s c q x y) \<Longrightarrow> set_child (opp s) p z m = Some (m(p \<mapsto> mkn s c q x z))"
  by (cases s; simp add: modify_def)+

lemma mk_cases: "t = Leaf \<or> (\<exists>c p x y. t = mk s c p x y)"
  by (cases t; cases s) (simp, metis mk.simps)+

lemma root_of_Leaf: "tree_at m q t \<Longrightarrow> root_of t = NULL \<longleftrightarrow> t = Leaf"
  by (cases t) auto

lemma root_in_nodes: "t \<noteq> Leaf \<Longrightarrow> root_of t \<in> set (nodes t)"
  by (cases t) auto

lemma NULL_notin_nodes: "tree_at m q t \<Longrightarrow> NULL \<notin> set (nodes t)"
  by (induction t arbitrary: q) auto

lemma NULL_notin_ctx: "ctx_at m rt ctx h \<Longrightarrow> NULL \<notin> ctx_nodes ctx"
proof (induction ctx arbitrary: h)
  case (Cons f ctx)
  obtain s c p u where f: "f = (s, c, p, u)" by (cases f)
  show ?case using Cons.prems Cons.IH [of p] NULL_notin_nodes [of m p u] f by simp
qed simp

lemma par_in_ctx: "ctx \<noteq> [] \<Longrightarrow> par ctx \<in> ctx_nodes ctx"
  by (cases ctx) auto

lemma tree_at_cong: "\<forall>q \<in> set (nodes t). m' q = m q \<Longrightarrow> tree_at m' p t = tree_at m p t"
  by (induction t arbitrary: p) auto

lemma ctx_at_cong: "\<forall>q \<in> ctx_nodes ctx. m' q = m q \<Longrightarrow> ctx_at m' rt ctx h = ctx_at m rt ctx h"
proof (induction ctx arbitrary: h)
  case (Cons f ctx)
  obtain s c p u where f: "f = (s, c, p, u)" by (cases f)
  have "tree_at m' p u = tree_at m p u" using Cons.prems f by (intro tree_at_cong) auto
  with Cons f show ?case by auto
qed simp

lemma fill_nodes: "set (nodes (fill ctx t)) = ctx_nodes ctx \<union> set (nodes t)"
  by (induction ctx t rule: fill.induct) auto

lemma fill_distinct: "distinct (nodes (fill ctx t)) \<longleftrightarrow> ctx_distinct ctx \<and> distinct (nodes t) \<and> set (nodes t) \<inter> ctx_nodes ctx = {}"
  by (induction ctx t rule: fill.induct) auto

lemma fill_tree: "tree_at m NULL (fill ctx t) \<and> rt = root_of (fill ctx t) \<longleftrightarrow> ctx_at m rt ctx (root_of t) \<and> tree_at m (par ctx) t"
  by (induction ctx t rule: fill.induct) auto

lemma repr_fill: "repr st (fill ctx t) \<longleftrightarrow> at_place st ctx t"
  unfolding repr_def at_place_def fill_distinct using fill_tree [of "fst st" ctx t "snd st"] by blast

lemma fill_append: "fill (c1 @ c2) t = fill c2 (fill c1 t)"
  by (induction c1 t rule: fill.induct) auto

section \<open>Changes of the memory\<close>

lemma tree_at_upd [simp]: "p \<notin> set (nodes t) \<Longrightarrow> tree_at (m(p \<mapsto> n)) q t = tree_at m q t"
  by (rule tree_at_cong) auto

lemma ctx_at_upd [simp]: "p \<notin> ctx_nodes ctx \<Longrightarrow> ctx_at (m(p \<mapsto> n)) rt ctx h = ctx_at m rt ctx h"
  by (rule ctx_at_cong) auto

definition reparent :: "ptr \<Rightarrow> ptree \<Rightarrow> mem \<Rightarrow> mem" where
  "reparent q t m = (case t of Leaf \<Rightarrow> m | Node l c p r \<Rightarrow> m(p \<mapsto> mkn L c q (root_of l) (root_of r)))"

lemma link_parent_tree: "tree_at m q t \<Longrightarrow> link_parent (root_of t) q' m = Some (reparent q' t m)"
  by (cases t) (auto simp: link_parent_def reparent_def rb_set_parent_def modify_def)

lemma reparent_frame [simp]: "p \<notin> set (nodes t) \<Longrightarrow> reparent q t m p = m p"
  by (cases t) (auto simp: reparent_def)

lemma tree_at_reparent [simp]: "tree_at m q t \<Longrightarrow> distinct (nodes t) \<Longrightarrow> tree_at (reparent q' t m) q' t"
  by (cases t) (auto simp: reparent_def)

lemma tree_at_reparent_other [simp]:
  "set (nodes t) \<inter> set (nodes u) = {} \<Longrightarrow> tree_at (reparent q t m) q' u = tree_at m q' u"
  by (rule tree_at_cong) (auto intro: reparent_frame)

lemma ctx_at_reparent [simp]: "set (nodes t) \<inter> ctx_nodes ctx = {} \<Longrightarrow> ctx_at (reparent q t m) rt ctx h = ctx_at m rt ctx h"
  by (rule ctx_at_cong) (auto intro: reparent_frame)

fun hang :: "ctx \<Rightarrow> ptr \<Rightarrow> rb_state \<Rightarrow> rb_state" where
  "hang [] h st = (fst st, h)"
| "hang ((s, c, p, u) # ctx) h st = ((fst st)(p \<mapsto> mkn s c (par ctx) h (root_of u)), snd st)"

lemma hang_ctx: "ctx_at m rt ctx h \<Longrightarrow> ctx_distinct ctx \<Longrightarrow> ctx_at (fst (hang ctx h' (m, rt))) (snd (hang ctx h' (m, rt))) ctx h'"
  by (cases "(ctx, h', (m, rt))" rule: hang.cases) auto

lemma hang_frame [simp]: "p \<notin> ctx_nodes ctx \<Longrightarrow> fst (hang ctx h st) p = fst st p"
  by (cases "(ctx, h, st)" rule: hang.cases) auto

lemma tree_at_hang [simp]: "set (nodes t) \<inter> ctx_nodes ctx = {} \<Longrightarrow> tree_at (fst (hang ctx h st)) q t = tree_at (fst st) q t"
  by (rule tree_at_cong) (auto intro: hang_frame)

lemma hang_on_place:
  assumes "ctx_at m rt ctx h" "ctx_distinct ctx" "h \<notin> ctx_nodes ctx" "h \<noteq> NULL"
  shows "hang_on s (par ctx) h h' (m, rt) = Some (hang ctx h' (m, rt))"
proof (cases ctx)
  case (Cons f ctx')
  obtain s' c p u where f: "f = (s', c, p, u)" by (cases f)
  have "root_of u \<noteq> h" using root_in_nodes [of u] assms Cons f by (cases "u = Leaf") auto
  then show ?thesis using assms Cons f set_child_mkn [of m p s'] mkn_simps(2) [of s']
    by (cases s; cases s') (auto simp: hang_on_def modify_def)
qed (use assms in \<open>simp add: hang_on_def\<close>)

definition frame :: "ptr set \<Rightarrow> rb_state \<Rightarrow> rb_state \<Rightarrow> bool" where
  "frame V st st' \<longleftrightarrow> (\<forall>q. q \<notin> V \<longrightarrow> fst st' q = fst st q)"

abbreviation place_nodes :: "ctx \<Rightarrow> ptree \<Rightarrow> ptr set" where
  "place_nodes ctx t \<equiv> ctx_nodes ctx \<union> set (nodes t)"

lemma frame_refl [simp]: "frame V st st"
  by (simp add: frame_def)

lemma frame_trans: "frame V st1 st2 \<Longrightarrow> frame V st2 st3 \<Longrightarrow> frame V st1 st3"
  by (simp add: frame_def)

lemma rb_rotate_place:
  assumes "at_place st ctx (mk s cx x a (mk s cy y b c))"
  shows "\<exists>st'. rb_rotate s x st = Some st' \<and> at_place st' ctx (mk s cy y (mk s cx x a b) c)
    \<and> frame (place_nodes ctx (mk s cx x a (mk s cy y b c))) st st'"
proof -
  obtain m rt where st: "st = (m, rt)" by (cases st)
  define m1 where "m1 = reparent x b (m(x \<mapsto> mkn s cx (par ctx) (root_of a) (root_of b)))"
  define m2 where "m2 = m1(y \<mapsto> mkn s cy (par ctx) x (root_of c))"
  define st2 where "st2 = hang ctx y (m2, rt)"
  have at: "m x = Some (mkn s cx (par ctx) (root_of a) y)" "m y = Some (mkn s cy x (root_of b) (root_of c))"
      "x \<noteq> NULL" "y \<noteq> NULL" "tree_at m x a" "tree_at m y b" "tree_at m y c" "ctx_at m rt ctx x" "ctx_distinct ctx"
    and dis: "x \<noteq> y" "x \<notin> set (nodes a)" "x \<notin> set (nodes b)" "x \<notin> set (nodes c)" "y \<notin> set (nodes a)"
      "y \<notin> set (nodes b)" "y \<notin> set (nodes c)" "distinct (nodes a)" "distinct (nodes b)" "distinct (nodes c)"
      "set (nodes a) \<inter> set (nodes b) = {}" "set (nodes a) \<inter> set (nodes c) = {}" "set (nodes b) \<inter> set (nodes c) = {}"
      "set (nodes a) \<inter> ctx_nodes ctx = {}" "set (nodes b) \<inter> ctx_nodes ctx = {}" "set (nodes c) \<inter> ctx_nodes ctx = {}"
      "x \<notin> ctx_nodes ctx" "y \<notin> ctx_nodes ctx"
    using assms st by (auto simp: at_place_def)
  have m1: "m1 x = Some (mkn s cx (par ctx) (root_of a) (root_of b))" "m1 y = m y"
      "tree_at m1 x a" "tree_at m1 x b" "tree_at m1 y c" "ctx_at m1 rt ctx x"
    using at dis by (simp_all add: m1_def Int_commute)
  have "link_parent (root_of b) x (m(x \<mapsto> mkn s cx (par ctx) (root_of a) (root_of b))) = Some m1"
    unfolding m1_def by (rule link_parent_tree [where q = y]) (simp add: at dis)
  moreover have "set_child (opp s) x (root_of b) m = Some (m(x \<mapsto> mkn s cx (par ctx) (root_of a) (root_of b)))"
    using set_child_mkn(2) at by blast
  moreover have "set_child s y x m1 = Some (m1(y \<mapsto> mkn s cy x x (root_of c)))"
    using set_child_mkn(1) at m1 by metis
  moreover have m2: "ctx_at m2 rt ctx x" "tree_at m2 x a" "tree_at m2 x b" "tree_at m2 y c" "m2 x = m1 x"
      "m2 y = Some (mkn s cy (par ctx) x (root_of c))"
    using m1 dis by (simp_all add: m2_def)
  moreover have "hang_on s (par ctx) x y (m2, rt) = Some st2"
    unfolding st2_def by (rule hang_on_place) (use m2 at dis in auto)
  moreover have st2: "fst st2 x = m1 x" "fst st2 y = m2 y" "tree_at (fst st2) x a" "tree_at (fst st2) x b" "tree_at (fst st2) y c"
      "ctx_at (fst st2) (snd st2) ctx y"
    using m2 dis at by (simp_all add: st2_def hang_ctx)
  ultimately have "rb_rotate s x st = Some ((fst st2)(x \<mapsto> mkn s cx y (root_of a) (root_of b)), snd st2)"
    using at m1 by (simp add: rb_rotate_def st rb_set_parent_def modify_def m2_def)
  moreover have "at_place ((fst st2)(x \<mapsto> mkn s cx y (root_of a) (root_of b)), snd st2) ctx (mk s cy y (mk s cx x a b) c)"
    unfolding at_place_def using st2 m2 dis at by auto
  moreover have "frame (place_nodes ctx (mk s cx x a (mk s cy y b c))) st ((fst st2)(x \<mapsto> mkn s cx y (root_of a) (root_of b)), snd st2)"
    unfolding frame_def by (auto simp: st2_def m2_def m1_def st)
  ultimately show ?thesis by blast
qed

end
