(* ===== verification/MG_RbTree.thy ===== *)
theory MG_RbTree
  imports MG_RbHeap
begin

text \<open>
  The balance of the red-black trees of \<open>src/misc/rbtree.c\<close>: the colour and height invariants, for trees and for
  places in trees, \<open>__mg_rb_insert_color\<close> and \<open>__mg_rb_erase\<close>.
\<close>

section \<open>The invariants\<close>

text \<open>No red node has a red child.\<close>

fun invc :: "ptree \<Rightarrow> bool" where
  "invc Leaf \<longleftrightarrow> True"
| "invc (Node l c p r) \<longleftrightarrow> c \<le> 1 \<and> (c = 0 \<longrightarrow> color_of l = 1 \<and> color_of r = 1) \<and> invc l \<and> invc r"

text \<open>Every path down meets the same number of black nodes.\<close>

fun black_ht :: "nat \<Rightarrow> ptree \<Rightarrow> bool" where
  "black_ht n Leaf \<longleftrightarrow> n = 0"
| "black_ht n (Node l c p r) \<longleftrightarrow> (if c = 0 then black_ht n l \<and> black_ht n r
     else 0 < n \<and> black_ht (n - 1) l \<and> black_ht (n - 1) r)"

definition rbt :: "ptree \<Rightarrow> bool" where
  "rbt t \<longleftrightarrow> invc t \<and> color_of t = 1 \<and> (\<exists>n. black_ht n t)"

text \<open>The invariants of a place: the hole wants a tree of black height \<open>n\<close>; \<open>ctx_color\<close> is the colour of the node
  above, red above the root.\<close>

fun ctx_color :: "ctx \<Rightarrow> nat" where
  "ctx_color [] = 0"
| "ctx_color ((s, c, p, u) # ctx) = c"

fun ctx_invc :: "ctx \<Rightarrow> bool" where
  "ctx_invc [] \<longleftrightarrow> True"
| "ctx_invc ((s, c, p, u) # ctx) \<longleftrightarrow> c \<le> 1 \<and> (c = 0 \<longrightarrow> color_of u = 1 \<and> ctx_color ctx = 1) \<and> invc u \<and> ctx_invc ctx"

fun ctx_ht :: "nat \<Rightarrow> ctx \<Rightarrow> bool" where
  "ctx_ht n [] \<longleftrightarrow> True"
| "ctx_ht n ((s, c, p, u) # ctx) \<longleftrightarrow> black_ht n u \<and> ctx_ht (if c = 0 then n else n + 1) ctx"

lemma invc_mk [simp]: "invc (mk s c p x y) \<longleftrightarrow> c \<le> 1 \<and> (c = 0 \<longrightarrow> color_of x = 1 \<and> color_of y = 1) \<and> invc x \<and> invc y"
  by (cases s) auto

lemma black_ht_mk [simp]: "black_ht n (mk s c p x y) \<longleftrightarrow> (if c = 0 then black_ht n x \<and> black_ht n y
     else 0 < n \<and> black_ht (n - 1) x \<and> black_ht (n - 1) y)"
  by (cases s) auto

lemma invc_color: "invc t \<Longrightarrow> color_of t = 0 \<or> color_of t = 1"
  by (cases t) auto

lemma black_ht_0: "invc t \<Longrightarrow> color_of t = 1 \<Longrightarrow> black_ht 0 t \<Longrightarrow> t = Leaf"
  by (cases t) auto

lemma rbt_fill: "rbt (fill ctx t) \<longleftrightarrow> invc t \<and> ctx_invc ctx \<and> (color_of t = 1 \<or> ctx_color ctx = 1)
    \<and> (\<exists>n. black_ht n t \<and> ctx_ht n ctx)" (is "_ = ?R ctx t")
proof (induction ctx t rule: fill.induct)
  case (2 s c p u ctx t)
  have ht: "(\<exists>n. black_ht n (mk s c p t u) \<and> ctx_ht n ctx) = (\<exists>n. black_ht n t \<and> black_ht n u \<and> ctx_ht (if c = 0 then n else n + 1) ctx)"
  proof (cases "c = 0")
    case False
    then have "(\<exists>n. black_ht n (mk s c p t u) \<and> ctx_ht n ctx) = (\<exists>n>0. black_ht (n - 1) t \<and> black_ht (n - 1) u \<and> ctx_ht n ctx)"
      by auto
    also have "\<dots> = (\<exists>n. black_ht n t \<and> black_ht n u \<and> ctx_ht (Suc n) ctx)"
      by (metis Suc_pred diff_Suc_1 zero_less_Suc)
    finally show ?thesis using False by simp
  qed auto
  show ?case using 2 ht invc_color [of t] by auto
qed (auto simp: rbt_def)

lemma nodes_mk: "nodes (mk s c p x y) = (if s = L then nodes x @ p # nodes y else nodes y @ p # nodes x)"
  by (cases s) auto

lemma nodes_fill_cong: "nodes t = nodes t' \<Longrightarrow> nodes (fill ctx t) = nodes (fill ctx t')"
  by (induction ctx t arbitrary: t' rule: fill.induct) (auto simp: nodes_mk)

lemma nodes_rotate: "nodes (mk s cx x a (mk s cy y b c)) = nodes (mk s cy' y (mk s cx' x a b) c)"
  by (cases s) auto

lemma nodes_paint [simp]: "nodes (paint c t) = nodes t"
  by (cases t) auto

lemma root_of_paint [simp]: "root_of (paint c t) = root_of t"
  by (cases t) auto

section \<open>Insertion\<close>

text \<open>One turn of the loop; None when the condition of the loop fails.\<close>

definition insert_turn :: "ptr \<Rightarrow> rb_state \<Rightarrow> (rb_state \<times> ptr) option option" where
  "insert_turn node st = do {
     n \<leftarrow> fst st node;
     let parent = rb_parent n;
     if parent = NULL then Some None else do {
       p \<leftarrow> fst st parent;
       if \<not> rb_is_red p then Some None else do {
         let gparent = rb_parent p;
         g \<leftarrow> fst st gparent;
         let s = (if parent = rb_left g then L else R);
         let uncle = child (opp s) g;
         uncle_red \<leftarrow> (if uncle = NULL then Some False else map_option rb_is_red (fst st uncle));
         if uncle_red then do {
           m \<leftarrow> rb_set_black uncle (fst st);
           m \<leftarrow> rb_set_black parent m;
           m \<leftarrow> rb_set_red gparent m;
           Some (Some ((m, snd st), gparent)) }
         else do {
           (st, parent, node) \<leftarrow> (if child (opp s) p = node
              then map_option (\<lambda>st. (st, node, parent)) (rb_rotate s parent st) else Some (st, parent, node));
           m \<leftarrow> rb_set_black parent (fst st);
           m \<leftarrow> rb_set_red gparent m;
           st \<leftarrow> rb_rotate (opp s) gparent (m, snd st);
           Some (Some (st, node)) } } } }"

partial_function (option) insert_loop :: "ptr \<Rightarrow> rb_state \<Rightarrow> rb_state option" where
  "insert_loop node st = do {
     next \<leftarrow> insert_turn node st;
     case next of None \<Rightarrow> Some st | Some (st, node) \<Rightarrow> insert_loop node st }"

definition rb_insert_color :: "ptr \<Rightarrow> rb_state \<Rightarrow> rb_state option" where
  "rb_insert_color node st = do {
     st \<leftarrow> insert_loop node st;
     m \<leftarrow> rb_set_black (snd st) (fst st);
     Some (m, snd st) }"

lemmas set_color_defs = rb_set_black_def rb_set_red_def rb_set_color_def modify_def

lemma insert_turn_done:
  assumes "at_place st ctx t" "t \<noteq> Leaf" "ctx_invc ctx" "ctx = [] \<or> ctx_color ctx = 1"
  shows "insert_turn (root_of t) st = Some None"
proof (cases ctx)
  case (Cons f ctx')
  obtain s' c p u where f: "f = (s', c, p, u)" by (cases f)
  show ?thesis using assms Cons f by (cases t) (auto simp: insert_turn_def at_place_def rb_is_red_def)
qed (use assms in \<open>cases t; auto simp: insert_turn_def at_place_def\<close>)

lemma set_color_rules: "rb_set_black r = rb_set_color r 1" "rb_set_red r = rb_set_color r 0"
  by (simp_all add: set_color_defs fun_eq_iff)

lemma place_mk: "at_place st ctx (mk s c p x y) \<longleftrightarrow> at_place st ((s, c, p, y) # ctx) x"
  "at_place st ctx (mk s c p x y) \<longleftrightarrow> at_place st ((opp s, c, p, x) # ctx) y"
  using repr_fill [of st "(s, c, p, y) # ctx" x] repr_fill [of st "(opp s, c, p, x) # ctx" y]
    repr_fill [of st ctx "mk s c p x y"] mk_opp [of s c p y x] by auto

lemma place_nodes_mk: "place_nodes ((s, c, p, y) # ctx) x = place_nodes ctx (mk s c p x y)"
  "place_nodes ((opp s, c, p, x) # ctx) y = place_nodes ctx (mk s c p x y)"
  by auto

text \<open>The state \<open>st\<close> holds the tree \<open>fill ctx t\<close>, with the nodes \<open>ns\<close> in order; outside these nodes the memory is
  that of \<open>st0\<close>.\<close>

definition holds :: "rb_state \<Rightarrow> ptr list \<Rightarrow> rb_state \<Rightarrow> ctx \<Rightarrow> ptree \<Rightarrow> bool" where
  "holds st0 ns st ctx t \<longleftrightarrow> at_place st ctx t \<and> nodes (fill ctx t) = ns \<and> frame (set ns) st0 st"

lemma holds_fill: "fill ctx t = fill ctx' t' \<Longrightarrow> holds st0 ns st ctx t = holds st0 ns st ctx' t'"
  by (simp add: holds_def repr_fill [symmetric])

lemma holds_child:
  "holds st0 ns st ((s, c, p, y) # ctx) x \<longleftrightarrow> holds st0 ns st ctx (mk s c p x y)"
  "holds st0 ns st ((opp s, c, p, x) # ctx) y \<longleftrightarrow> holds st0 ns st ctx (mk s c p x y)"
  by (rule holds_fill, simp add: mk_opp)+

lemma holds_frame:
  assumes "frame (place_nodes ctx t) st st'" "holds st0 ns st ctx t" "at_place st' ctx t'" "nodes t' = nodes t"
  shows "holds st0 ns st' ctx t'"
  using assms frame_trans [of "set ns" st0 st st'] fill_nodes [of ctx t] nodes_fill_cong [of t' t ctx]
  by (auto simp: holds_def)

lemma rotate_holds:
  assumes "holds st0 ns st ctx (mk s cx x a (mk s cy y b c))"
  shows "\<exists>st'. rb_rotate s x st = Some st' \<and> holds st0 ns st' ctx (mk s cy y (mk s cx x a b) c)"
  using rb_rotate_place [of st ctx s cx x a cy y b c] holds_frame [OF _ assms] assms nodes_rotate
  unfolding holds_def by metis

lemma rotate_opp_holds:
  assumes "holds st0 ns st ctx (mk s cx x (mk s cy y a b) c)"
  shows "\<exists>st'. rb_rotate (opp s) x st = Some st' \<and> holds st0 ns st' ctx (mk s cy y a (mk s cx x b c))"
  using rotate_holds [of st0 ns st ctx "opp s" cx x c cy y b a] assms by (simp add: mk_opp)

lemma paint_holds:
  assumes "holds st0 ns st ctx t" "t \<noteq> Leaf"
  shows "\<exists>m. rb_set_color (root_of t) c (fst st) = Some m \<and> holds st0 ns (m, snd st) ctx (paint c t)"
proof -
  have "at_place st ctx t" using assms by (simp add: holds_def)
  then have "\<exists>m. rb_set_color (root_of t) c (fst st) = Some m \<and> at_place (m, snd st) ctx (paint c t)
      \<and> frame (place_nodes ctx t) st (m, snd st)"
    using assms(2) by (cases t) (auto simp: at_place_def set_color_defs frame_def)
  then show ?thesis using holds_frame [OF _ assms(1)] by fastforce
qed

text \<open>The same for a node given by its colour, and for its children.\<close>

lemma paint_mk:
  assumes "holds st0 ns st ctx (mk s c p x y)"
  shows "\<exists>m. rb_set_color p d (fst st) = Some m \<and> holds st0 ns (m, snd st) ctx (mk s d p x y)"
  using paint_holds [OF assms, of d] by simp

lemma paint_child:
  assumes "holds st0 ns st ctx (mk s c p x y)" "x \<noteq> Leaf"
  shows "\<exists>m. rb_set_color (root_of x) d (fst st) = Some m \<and> holds st0 ns (m, snd st) ctx (mk s c p (paint d x) y)"
  using paint_holds [OF iffD2 [OF holds_child(1) assms(1)] assms(2), of d] by (simp add: holds_child(1))

lemma paint_other:
  assumes "holds st0 ns st ctx (mk s c p x y)" "y \<noteq> Leaf"
  shows "\<exists>m. rb_set_color (root_of y) d (fst st) = Some m \<and> holds st0 ns (m, snd st) ctx (mk s c p x (paint d y))"
  using paint_holds [OF iffD2 [OF holds_child(2) assms(1)] assms(2), of d] by (simp add: holds_child(2))

lemma root_paint_holds:
  assumes "holds st0 ns st ctx t" "fill ctx t \<noteq> Leaf"
  shows "\<exists>m. rb_set_black (snd st) (fst st) = Some m \<and> holds st0 ns (m, snd st) [] (paint 1 (fill ctx t))"
proof -
  have "holds st0 ns st [] (fill ctx t)" using assms holds_fill [of ctx t "[]" "fill ctx t"] by simp
  moreover from this have "snd st = root_of (fill ctx t)" by (simp add: holds_def at_place_def)
  ultimately show ?thesis using paint_holds [of st0 ns st "[]" "fill ctx t" 1] assms(2) by (simp add: set_color_rules)
qed

lemma recolor_turn:
  assumes h: "holds st0 ns st ctx (mk s c2 p2 (mk s1 0 p1 t u1) u2)" and "t \<noteq> Leaf" "color_of u2 = 0"
  shows "\<exists>st'. insert_turn (root_of t) st = Some (Some (st', p2)) \<and> holds st0 ns st' ctx (mk s 0 p2 (mk s1 1 p1 t u1) (paint 1 u2))"
proof -
  have u2: "u2 \<noteq> Leaf" using assms(3) by auto
  obtain m1 where m1: "rb_set_color (root_of u2) 1 (fst st) = Some m1"
      "holds st0 ns (m1, snd st) ctx (mk s c2 p2 (mk s1 0 p1 t u1) (paint 1 u2))"
    using paint_other [OF h u2] by blast
  obtain m2 where m2: "rb_set_color p1 1 m1 = Some m2" "holds st0 ns (m2, snd st) ctx (mk s c2 p2 (mk s1 1 p1 t u1) (paint 1 u2))"
    using paint_child [OF m1(2), of 1] by auto
  obtain m3 where m3: "rb_set_color p2 0 m2 = Some m3" "holds st0 ns (m3, snd st) ctx (mk s 0 p2 (mk s1 1 p1 t u1) (paint 1 u2))"
    using paint_mk [OF m2(2), of 0] by auto
  have "at_place st ctx (mk s c2 p2 (mk s1 0 p1 t u1) u2)" using h by (simp add: holds_def)
  then have at: "fst st p2 = Some (mkn s c2 (par ctx) p1 (root_of u2))" "fst st p1 = Some (mkn s1 0 p2 (root_of t) (root_of u1))"
    "p1 \<noteq> NULL" "p1 \<noteq> root_of u2" "tree_at (fst st) p2 u2" "tree_at (fst st) p1 t"
    using root_in_nodes [OF u2] by (auto simp: at_place_def)
  then have s: "(if p1 = rb_left (mkn s c2 (par ctx) p1 (root_of u2)) then L else R) = s" by (cases s) auto
  have "\<exists>n. fst st (root_of u2) = Some n \<and> rb_is_red n" "root_of u2 \<noteq> NULL"
    using at(5) u2 assms(3) by (cases u2; auto simp: rb_is_red_def)+
  moreover have "\<exists>n. fst st (root_of t) = Some n \<and> rb_parent n = p1"
    using at(6) assms(2) by (cases t) auto
  ultimately have "insert_turn (root_of t) st = Some (Some ((m3, snd st), p2))"
    using at s m1(1) m2(1) m3(1) by (auto simp: insert_turn_def rb_is_red_def set_color_rules Let_def)
  with m3(2) show ?thesis by blast
qed

text \<open>What a turn reads when the parent is red and the uncle is not.\<close>

lemma insert_turn_reads:
  assumes "holds st0 ns st ctx (mk s c2 p2 (mk s1 0 p1 t u1) u2)" "t \<noteq> Leaf" "color_of u2 = 1" "invc u2"
  shows "insert_turn (root_of t) st = do {
     (st, parent, node) \<leftarrow> (if s1 = opp s
        then map_option (\<lambda>st. (st, root_of t, p1)) (rb_rotate s p1 st) else Some (st, p1, root_of t));
     m \<leftarrow> rb_set_color parent 1 (fst st);
     m \<leftarrow> rb_set_color p2 0 m;
     st \<leftarrow> rb_rotate (opp s) p2 (m, snd st);
     Some (Some (st, node)) }"
proof -
  have "at_place st ctx (mk s c2 p2 (mk s1 0 p1 t u1) u2)" using assms(1) by (simp add: holds_def)
  then have at: "fst st p2 = Some (mkn s c2 (par ctx) p1 (root_of u2))" "fst st p1 = Some (mkn s1 0 p2 (root_of t) (root_of u1))"
    "p1 \<noteq> NULL" "p1 \<notin> set (nodes u2)" "tree_at (fst st) p2 u2" "tree_at (fst st) p1 t" "tree_at (fst st) p1 u1"
    "set (nodes t) \<inter> set (nodes u1) = {}"
    by (auto simp: at_place_def)
  have ne: "root_of t \<noteq> root_of u1"
    using at(6-8) assms(2) root_in_nodes [of t] root_in_nodes [of u1] by (cases "u1 = Leaf"; cases t) auto
  have "p1 \<noteq> root_of u2" using at(3,4) root_in_nodes [of u2] by (cases "u2 = Leaf") auto
  then have s: "(if p1 = rb_left (mkn s c2 (par ctx) p1 (root_of u2)) then L else R) = s" by (cases s) auto
  have "\<exists>n. fst st (root_of t) = Some n \<and> rb_parent n = p1" using at(6) assms(2) by (cases t) auto
  moreover have "child (opp s) (mkn s1 0 p2 (root_of t) (root_of u1)) = root_of t \<longleftrightarrow> s1 = opp s"
    using ne by (cases s; cases s1) auto
  moreover have "(if root_of u2 = NULL then Some False else map_option rb_is_red (fst st (root_of u2))) = Some False"
    using at(5) assms(3) by (cases u2) (auto simp: rb_is_red_def)
  ultimately show ?thesis using at(1-3) s by (auto simp: insert_turn_def rb_is_red_def set_color_rules Let_def)
qed

lemma outer_turn:
  assumes h: "holds st0 ns st ctx (mk s c2 p2 (mk s 0 p1 t u1) u2)" and "t \<noteq> Leaf" "color_of u2 = 1" "invc u2"
  shows "\<exists>st'. insert_turn (root_of t) st = Some (Some (st', root_of t)) \<and> holds st0 ns st' ctx (mk s 1 p1 t (mk s 0 p2 u1 u2))"
proof -
  obtain m1 where m1: "rb_set_color p1 1 (fst st) = Some m1" "holds st0 ns (m1, snd st) ctx (mk s c2 p2 (mk s 1 p1 t u1) u2)"
    using paint_child [OF h, of 1] by auto
  obtain m2 where m2: "rb_set_color p2 0 m1 = Some m2" "holds st0 ns (m2, snd st) ctx (mk s 0 p2 (mk s 1 p1 t u1) u2)"
    using paint_mk [OF m1(2), of 0] by auto
  show ?thesis using rotate_opp_holds [OF m2(2)] insert_turn_reads [OF assms] m1(1) m2(1) by auto
qed

lemma inner_turn:
  assumes h: "holds st0 ns st ctx (mk s c2 p2 (mk s 0 p1 u1 (mk s cx x a b)) u2)" and u: "color_of u2 = 1" "invc u2"
  shows "\<exists>st'. insert_turn x st = Some (Some (st', p1))
    \<and> holds st0 ns st' ctx (mk s 1 x (mk s 0 p1 u1 a) (mk s 0 p2 b u2))"
proof -
  obtain st1 where st1: "rb_rotate s p1 st = Some st1" "holds st0 ns st1 ctx (mk s c2 p2 (mk s cx x (mk s 0 p1 u1 a) b) u2)"
    using rotate_holds [OF iffD2 [OF holds_child(1) h]] by (auto simp: holds_child(1))
  obtain m1 where m1: "rb_set_color x 1 (fst st1) = Some m1" "holds st0 ns (m1, snd st1) ctx (mk s c2 p2 (mk s 1 x (mk s 0 p1 u1 a) b) u2)"
    using paint_child [OF st1(2), of 1] by auto
  obtain m2 where m2: "rb_set_color p2 0 m1 = Some m2" "holds st0 ns (m2, snd st1) ctx (mk s 0 p2 (mk s 1 x (mk s 0 p1 u1 a) b) u2)"
    using paint_mk [OF m1(2), of 0] by auto
  have "holds st0 ns st ctx (mk s c2 p2 (mk (opp s) 0 p1 (mk s cx x a b) u1) u2)" using h by (simp add: mk_opp)
  then show ?thesis
    using rotate_opp_holds [OF m2(2)] insert_turn_reads [of st0 ns st ctx s c2 p2 "opp s" p1 "mk s cx x a b" u1 u2] u st1(1) m1(1) m2(1)
    by auto
qed

lemma paint_rbt: "rbt t \<Longrightarrow> rbt (paint 1 t)"
  by (cases t) (auto simp: rbt_def)

lemma paint_red_rbt: "invc t \<Longrightarrow> color_of t = 0 \<Longrightarrow> black_ht n t \<Longrightarrow> rbt (paint 1 t)"
  by (cases t) (auto simp: rbt_def intro: exI [of _ "Suc n"])

lemma fill_not_Leaf: "t \<noteq> Leaf \<Longrightarrow> fill ctx t \<noteq> Leaf"
  by (induction ctx t rule: fill.induct) auto

lemma insert_loop_place:
  assumes "holds st0 ns st ctx t" "t \<noteq> Leaf" "color_of t = 0" "invc t" "black_ht n t" "ctx_invc ctx" "ctx_ht n ctx"
  shows "\<exists>st' T. insert_loop (root_of t) st = Some st' \<and> holds st0 ns st' [] T \<and> T \<noteq> Leaf \<and> rbt (paint 1 T)"
  using assms
proof (induction "length ctx" arbitrary: st ctx t n rule: less_induct)
  case less
  note h = less.prems(1)
  consider (exit) "ctx = [] \<or> ctx_color ctx = 1" | (turn) s1 p1 u1 s2 p2 u2 ctx'
    where "ctx = (s1, 0, p1, u1) # (s2, 1, p2, u2) # ctx'"
    using less.prems(6) by (cases ctx; cases "tl ctx") fastforce+
  then show ?case
  proof cases
    case exit
    have "insert_turn (root_of t) st = Some None"
      using insert_turn_done [OF _ less.prems(2,6) exit] h by (simp add: holds_def)
    then have "insert_loop (root_of t) st = Some st" by (subst insert_loop.simps) simp
    moreover have "holds st0 ns st [] (fill ctx t)" using h holds_fill [of ctx t "[]" "fill ctx t"] by simp
    moreover have "rbt (paint 1 (fill ctx t))"
      using exit less.prems paint_red_rbt rbt_fill [of ctx t] paint_rbt by (cases "ctx = []") auto
    ultimately show ?thesis using fill_not_Leaf [OF less.prems(2)] by blast
  next
    case turn
    have h': "holds st0 ns st ctx' (mk s2 1 p2 (mk s1 0 p1 t u1) u2)" using h turn by (simp add: holds_child(1))
    have inv: "color_of u1 = 1" "invc u1" "black_ht n u1" "invc u2" "black_ht n u2" "ctx_invc ctx'" "ctx_ht (Suc n) ctx'"
      using less.prems(6,7) turn by auto
    have step: ?thesis if "insert_turn (root_of t) st = Some (Some (st1, root_of t1))" "holds st0 ns st1 ctx1 t1" "length ctx1 < length ctx"
        "t1 \<noteq> Leaf" "color_of t1 = 0" "invc t1" "black_ht k t1" "ctx_invc ctx1" "ctx_ht k ctx1" for st1 ctx1 t1 k
      using less.hyps [OF that(3,2,4-9)] by (subst insert_loop.simps) (simp add: that(1))
    consider (recolor) "color_of u2 = 0" | (outer) "color_of u2 = 1" "s1 = s2" | (inner) "color_of u2 = 1" "s1 = opp s2"
      using invc_color [OF inv(4)] by (cases s1; cases s2) auto
    then show ?thesis
    proof cases
      case recolor
      obtain st1 where st1: "insert_turn (root_of t) st = Some (Some (st1, p2))"
          "holds st0 ns st1 ctx' (mk s2 0 p2 (mk s1 1 p1 t u1) (paint 1 u2))"
        using recolor_turn [OF h' less.prems(2) recolor] by blast
      have u2: "color_of (paint 1 u2) = 1" "invc (paint 1 u2)" "black_ht (Suc n) (paint 1 u2)"
        using inv recolor by (cases u2; simp)+
      show ?thesis
        by (rule step [where k = "Suc n", OF _ st1(2)]) (use st1(1) turn inv less.prems u2 in \<open>auto\<close>)
    next
      case outer
      obtain st1 where st1: "insert_turn (root_of t) st = Some (Some (st1, root_of t))"
          "holds st0 ns st1 ctx' (mk s2 1 p1 t (mk s2 0 p2 u1 u2))"
        using outer_turn [of st0 ns st ctx' s2 1 p2 p1 t u1 u2] h' outer inv less.prems(2) by auto
      show ?thesis
        by (rule step [where k = n, OF _ iffD2 [OF holds_child(1) st1(2)]]) (use st1(1) turn inv less.prems outer in \<open>auto\<close>)
    next
      case inner
      obtain cx x a b where t: "t = mk s2 cx x a b" using mk_cases [of t s2] less.prems(2) by auto
      obtain st1 where st1: "insert_turn x st = Some (Some (st1, p1))"
          "holds st0 ns st1 ctx' (mk s2 1 x (mk s2 0 p1 u1 a) (mk s2 0 p2 b u2))"
        using inner_turn [of st0 ns st ctx' s2 1 p2 p1 u1 cx x a b u2] h' inner inv t by (auto simp: mk_opp)
      show ?thesis
        by (rule step [where k = n, OF _ iffD2 [OF holds_child(1) st1(2)]]) (use st1(1) turn inv less.prems inner t in \<open>auto\<close>)
    qed
  qed
qed

text \<open>The address of a link: the field of the root or a field of a node.\<close>

datatype link = Root_link | Child_link ptr side

fun set_link :: "link \<Rightarrow> ptr \<Rightarrow> rb_state \<Rightarrow> rb_state option" where
  "set_link Root_link p st = Some (fst st, p)"
| "set_link (Child_link q s) p st = map_option (\<lambda>m. (m, snd st)) (set_child s q p (fst st))"

definition rb_link_node :: "ptr \<Rightarrow> ptr \<Rightarrow> link \<Rightarrow> rb_state \<Rightarrow> rb_state option" where
  "rb_link_node node parent rb_link st =
     (if node = NULL then None
      else set_link rb_link node ((fst st)(node \<mapsto> \<lparr>rb_color = 0, rb_parent = parent, rb_right = NULL, rb_left = NULL\<rparr>), snd st))"

fun ctx_link :: "ctx \<Rightarrow> link" where
  "ctx_link [] = Root_link"
| "ctx_link ((s, c, p, u) # ctx) = Child_link p s"

lemma set_link_hang: "ctx_at m rt ctx h \<Longrightarrow> set_link (ctx_link ctx) h' (m, rt) = Some (hang ctx h' (m, rt))"
  by (cases "(ctx, h', (m, rt))" rule: hang.cases) (auto simp: set_child_mkn)

lemma link_node_place:
  assumes "at_place st ctx Leaf" "node \<notin> ctx_nodes ctx" "node \<noteq> NULL"
  shows "\<exists>st'. rb_link_node node (par ctx) (ctx_link ctx) st = Some st'
    \<and> holds st (nodes (fill ctx (Node Leaf 0 node Leaf))) st' ctx (Node Leaf 0 node Leaf)"
proof -
  obtain m rt where st: "st = (m, rt)" by (cases st)
  let ?n = "\<lparr>rb_color = 0, rb_parent = par ctx, rb_right = NULL, rb_left = NULL\<rparr>"
  let ?st = "hang ctx node (m(node \<mapsto> ?n), rt)"
  have at: "ctx_at (m(node \<mapsto> ?n)) rt ctx NULL" "ctx_distinct ctx" using assms st by (simp_all add: at_place_def)
  have "at_place ?st ctx (Node Leaf 0 node Leaf)"
    using hang_ctx [OF at] assms by (simp add: at_place_def at)
  moreover have "frame (place_nodes ctx (Node Leaf 0 node Leaf)) st ?st" by (auto simp: frame_def st)
  ultimately have "holds st (nodes (fill ctx (Node Leaf 0 node Leaf))) ?st ctx (Node Leaf 0 node Leaf)"
    by (simp add: holds_def fill_nodes)
  then show ?thesis using set_link_hang [OF at(1)] assms(3) by (auto simp: rb_link_node_def st)
qed

text \<open>A tree of one node.\<close>

definition one_node :: "ptr \<Rightarrow> rb_state" where
  "one_node p = ([p \<mapsto> mkn L 1 NULL NULL NULL], p)"

lemma one_node_repr: "p \<noteq> NULL \<Longrightarrow> repr (one_node p) (Node Leaf 1 p Leaf)"
  by (simp add: repr_def one_node_def)

lemma one_node_rbt: "rbt (Node Leaf 1 p Leaf)"
  by (auto simp: rbt_def intro: exI [of _ 1])

text \<open>C16: A node that is not in the tree, linked with \<open>rb_link_node\<close> at a free place of a red-black tree, is
  rebalanced by \<open>__mg_rb_insert_color\<close>: the operation returns and reads only nodes, the result is a
  well-formed red-black tree (no red node with a red child, equal black heights, a black root, correct parent
  links) with the same nodes in the same order and the new one at its place, and no other node changes.\<close>

theorem rb_insert_correct:
  assumes "repr st (fill ctx Leaf)" "rbt (fill ctx Leaf)" "node \<notin> set (nodes (fill ctx Leaf))" "node \<noteq> NULL"
  shows "\<exists>st' T. (rb_link_node node (par ctx) (ctx_link ctx) st \<bind> rb_insert_color node) = Some st' \<and> repr st' T \<and> rbt T
    \<and> nodes T = nodes (fill ctx (Node Leaf 0 node Leaf)) \<and> frame (set (nodes T)) st st'"
proof -
  let ?ns = "nodes (fill ctx (Node Leaf 0 node Leaf))"
  have inv: "ctx_invc ctx" "ctx_ht 0 ctx" using assms(2) by (auto simp: rbt_fill)
  obtain st1 where st1: "rb_link_node node (par ctx) (ctx_link ctx) st = Some st1" "holds st ?ns st1 ctx (Node Leaf 0 node Leaf)"
    using link_node_place [of st ctx node] assms repr_fill fill_nodes by fastforce
  obtain st2 T where st2: "insert_loop node st1 = Some st2" "holds st ?ns st2 [] T" "T \<noteq> Leaf" "rbt (paint 1 T)"
    using insert_loop_place [OF st1(2), of 0] inv by auto
  obtain m where m: "rb_set_black (snd st2) (fst st2) = Some m" "holds st ?ns (m, snd st2) [] (paint 1 T)"
    using root_paint_holds [OF st2(2)] st2(3) by auto
  have "(rb_link_node node (par ctx) (ctx_link ctx) st \<bind> rb_insert_color node) = Some (m, snd st2)"
    using st1(1) st2(1) m(1) by (simp add: rb_insert_color_def)
  moreover have "repr (m, snd st2) (paint 1 T)" using m(2) repr_fill [of _ "[]"] by (simp add: holds_def)
  ultimately show ?thesis using m(2) st2(4) by (intro exI [of _ "(m, snd st2)"] exI [of _ "paint 1 T"]) (auto simp: holds_def)
qed

theorem rb_insert_correct_witness:
  "\<exists>st' T. (rb_link_node 2 1 (Child_link 1 L) (one_node 1) \<bind> rb_insert_color 2) = Some st' \<and> repr st' T \<and> rbt T
    \<and> nodes T = [2, 1] \<and> frame (set (nodes T)) (one_node 1) st'"
  using rb_insert_correct [of "one_node 1" "[(L, 1, 1, Leaf)]" 2] one_node_repr [of 1] one_node_rbt [of 1] by simp

section \<open>Deletion\<close>

text \<open>The tests \<open>!p || rb_is_black(p)\<close>.\<close>

definition null_or_black :: "mem \<Rightarrow> ptr \<Rightarrow> bool option" where
  "null_or_black m p = (if p = NULL then Some True else map_option rb_is_black (m p))"

text \<open>One turn of the loop of \<open>__rb_erase_color\<close>, after its condition: the last case, the cases of a black
  sibling, the whole turn. The flag is the \<open>break\<close>.\<close>

definition erase_finish :: "side \<Rightarrow> ptr \<Rightarrow> ptr \<Rightarrow> rb_state \<Rightarrow> (rb_state \<times> ptr \<times> ptr \<times> bool) option" where
  "erase_finish s parent other st = do {
     p \<leftarrow> fst st parent;
     m \<leftarrow> rb_set_color other (rb_color p) (fst st);
     m \<leftarrow> rb_set_black parent m;
     o3 \<leftarrow> m other;
     m \<leftarrow> rb_set_black (child (opp s) o3) m;
     st \<leftarrow> rb_rotate s parent (m, snd st);
     Some (st, snd st, parent, True) }"

definition erase_black_sibling :: "side \<Rightarrow> ptr \<Rightarrow> ptr \<Rightarrow> rb_state \<Rightarrow> (rb_state \<times> ptr \<times> ptr \<times> bool) option" where
  "erase_black_sibling s parent other st = do {
     o2 \<leftarrow> fst st other;
     left_black \<leftarrow> null_or_black (fst st) (rb_left o2);
     right_black \<leftarrow> (if left_black then null_or_black (fst st) (rb_right o2) else Some False);
     if right_black then do {
       m \<leftarrow> rb_set_red other (fst st);
       p \<leftarrow> m parent;
       Some ((m, snd st), parent, rb_parent p, False) }
     else do {
       far_black \<leftarrow> null_or_black (fst st) (child (opp s) o2);
       if far_black then do {
         m \<leftarrow> rb_set_black (child s o2) (fst st);
         m \<leftarrow> rb_set_red other m;
         st \<leftarrow> rb_rotate (opp s) other (m, snd st);
         p \<leftarrow> fst st parent;
         erase_finish s parent (child (opp s) p) st }
       else erase_finish s parent other st } }"

definition erase_turn :: "ptr \<Rightarrow> ptr \<Rightarrow> rb_state \<Rightarrow> (rb_state \<times> ptr \<times> ptr \<times> bool) option" where
  "erase_turn node parent st = do {
     p \<leftarrow> fst st parent;
     let s = (if rb_left p = node then L else R);
     let other = child (opp s) p;
     o1 \<leftarrow> fst st other;
     if rb_is_red o1 then do {
       m \<leftarrow> rb_set_black other (fst st);
       m \<leftarrow> rb_set_red parent m;
       st \<leftarrow> rb_rotate s parent (m, snd st);
       p \<leftarrow> fst st parent;
       erase_black_sibling s parent (child (opp s) p) st }
     else erase_black_sibling s parent other st }"

partial_function (option) erase_loop :: "ptr \<Rightarrow> ptr \<Rightarrow> rb_state \<Rightarrow> (rb_state \<times> ptr) option" where
  "erase_loop node parent st = do {
     black \<leftarrow> null_or_black (fst st) node;
     if black \<and> node \<noteq> snd st then do {
       (st, node, parent, brk) \<leftarrow> erase_turn node parent st;
       if brk then Some (st, node) else erase_loop node parent st }
     else Some (st, node) }"

definition rb_erase_color :: "ptr \<Rightarrow> ptr \<Rightarrow> rb_state \<Rightarrow> rb_state option" where
  "rb_erase_color node parent st = do {
     (st, node) \<leftarrow> erase_loop node parent st;
     m \<leftarrow> (if node \<noteq> NULL then rb_set_black node (fst st) else Some (fst st));
     Some (m, snd st) }"

lemma holds_node:
  assumes "holds st0 ns st ctx (mk s c p x y)"
  shows "fst st p = Some (mkn s c (par ctx) (root_of x) (root_of y))"
  using assms by (simp add: holds_def at_place_def)

lemma null_or_black_tree:
  assumes "holds st0 ns st ctx t" "invc t"
  shows "null_or_black (fst st) (root_of t) = Some (color_of t = 1)"
  using assms by (cases t) (auto simp: null_or_black_def holds_def at_place_def rb_is_black_def)

lemma finish_holds:
  assumes h: "holds st0 ns st ctx (mk s c p t (mk s d w x y))" and y: "y \<noteq> Leaf"
  shows "\<exists>st'. erase_finish s p w st = Some (st', snd st', p, True) \<and> holds st0 ns st' ctx (mk s c w (mk s 1 p t x) (paint 1 y))"
proof -
  obtain m1 where m1: "rb_set_color w c (fst st) = Some m1" "holds st0 ns (m1, snd st) ctx (mk s c p t (mk s c w x y))"
    using paint_other [OF h, of c] by auto
  obtain m2 where m2: "rb_set_color p 1 m1 = Some m2" "holds st0 ns (m2, snd st) ctx (mk s 1 p t (mk s c w x y))"
    using paint_mk [OF m1(2), of 1] by auto
  note h2 = iffD2 [OF holds_child(2) m2(2)]
  obtain m3 where m3: "rb_set_color (root_of y) 1 m2 = Some m3" "holds st0 ns (m3, snd st) ctx (mk s 1 p t (mk s c w x (paint 1 y)))"
    using paint_other [OF h2 y, of 1] by (auto simp: holds_child mk_opp)
  obtain st' where "rb_rotate s p (m3, snd st) = Some st'" "holds st0 ns st' ctx (mk s c w (mk s 1 p t x) (paint 1 y))"
    using rotate_holds [OF m3(2)] by blast
  then show ?thesis
    using m1(1) m2(1) m3(1) holds_node [OF h] holds_node [OF h2] by (auto simp: erase_finish_def set_color_rules)
qed

lemma both_black_holds:
  assumes h: "holds st0 ns st ctx (mk s c p t (mk s 1 w x y))" and c: "invc x" "invc y" "color_of x = 1" "color_of y = 1"
  shows "\<exists>st'. erase_black_sibling s p w st = Some (st', p, par ctx, False) \<and> holds st0 ns st' ctx (mk s c p t (mk s 0 w x y))"
proof -
  note h1 = iffD2 [OF holds_child(2) h]
  obtain m where m: "rb_set_color w 0 (fst st) = Some m" "holds st0 ns (m, snd st) ctx (mk s c p t (mk s 0 w x y))"
    using paint_other [OF h, of 0] by auto
  have "null_or_black (fst st) (root_of x) = Some True" "null_or_black (fst st) (root_of y) = Some True"
    using null_or_black_tree [OF iffD2 [OF holds_child(1) h1]] null_or_black_tree [OF iffD2 [OF holds_child(2) h1]] c by auto
  then show ?thesis
    using m holds_node [OF h1] holds_node [OF m(2)] by (cases s) (auto simp: erase_black_sibling_def set_color_rules)
qed

lemma far_red_holds:
  assumes h: "holds st0 ns st ctx (mk s c p t (mk s 1 w x y))" and c: "invc x" "invc y" "color_of y = 0"
  shows "\<exists>st'. erase_black_sibling s p w st = Some (st', snd st', p, True)
    \<and> holds st0 ns st' ctx (mk s c w (mk s 1 p t x) (paint 1 y))"
proof -
  note h1 = iffD2 [OF holds_child(2) h]
  have "null_or_black (fst st) (root_of y) = Some False" "null_or_black (fst st) (root_of x) = Some (color_of x = 1)"
    using null_or_black_tree [OF iffD2 [OF holds_child(1) h1]] null_or_black_tree [OF iffD2 [OF holds_child(2) h1]] c by auto
  moreover have "y \<noteq> Leaf" using c by auto
  ultimately show ?thesis
    using finish_holds [OF h] holds_node [OF h1] by (cases s) (auto simp: erase_black_sibling_def)
qed

lemma near_red_holds:
  assumes h: "holds st0 ns st ctx (mk s c p t (mk s 1 w (mk s 0 q a b) y))" and c: "invc (mk s 0 q a b)" "invc y" "color_of y = 1"
  shows "\<exists>st'. erase_black_sibling s p w st = Some (st', snd st', p, True)
    \<and> holds st0 ns st' ctx (mk s c q (mk s 1 p t a) (mk s 1 w b y))"
proof -
  note h1 = iffD2 [OF holds_child(2) h]
  have nb: "null_or_black (fst st) (root_of y) = Some True" "null_or_black (fst st) q = Some False"
    using null_or_black_tree [OF iffD2 [OF holds_child(1) h1]] null_or_black_tree [OF iffD2 [OF holds_child(2) h1]] c by auto
  obtain m1 where m1: "rb_set_color q 1 (fst st) = Some m1" "holds st0 ns (m1, snd st) ((opp s, c, p, t) # ctx) (mk s 1 w (mk s 1 q a b) y)"
    using paint_child [OF h1, of 1] by auto
  obtain m2 where m2: "rb_set_color w 0 m1 = Some m2" "holds st0 ns (m2, snd st) ((opp s, c, p, t) # ctx) (mk s 0 w (mk s 1 q a b) y)"
    using paint_mk [OF m1(2), of 0] by auto
  obtain st1 where st1: "rb_rotate (opp s) w (m2, snd st) = Some st1" "holds st0 ns st1 ctx (mk s c p t (mk s 1 q a (mk s 0 w b y)))"
    using rotate_opp_holds [OF m2(2)] by (auto simp: holds_child mk_opp)
  show ?thesis
    using finish_holds [OF st1(2)] st1(1) m1(1) m2(1) nb holds_node [OF h1] holds_node [OF st1(2)]
    by (cases s) (auto simp: erase_black_sibling_def set_color_rules)
qed

text \<open>A black sibling: either the deficit moves up with the parent, or the loop stops with a balanced tree.\<close>

lemma erase_black_sibling_place:
  assumes h: "holds st0 ns st ctx (mk s c p t (mk s 1 w x y))"
    and inv: "c \<le> 1" "invc t" "color_of t = 1" "black_ht n t" "invc x" "invc y" "black_ht n x" "black_ht n y"
      "ctx_invc ctx" "c = 0 \<longrightarrow> ctx_color ctx = 1" "ctx_ht (if c = 0 then n + 1 else n + 2) ctx"
  shows "(\<exists>st'. erase_black_sibling s p w st = Some (st', p, par ctx, False) \<and> holds st0 ns st' ctx (mk s c p t (mk s 0 w x y))
      \<and> color_of x = 1 \<and> color_of y = 1)
    \<or> (\<exists>st' T. erase_black_sibling s p w st = Some (st', snd st', p, True) \<and> holds st0 ns st' [] T \<and> T \<noteq> Leaf \<and> rbt T)"
proof -
  have stopped: ?thesis if "erase_black_sibling s p w st = Some (st', snd st', p, True)" "holds st0 ns st' ctx (mk s c q u v)"
      "invc u" "invc v" "color_of u = 1" "color_of v = 1" "black_ht (n + 1) u" "black_ht (n + 1) v" for st' q u v
  proof -
    have "rbt (fill ctx (mk s c q u v))"
      unfolding rbt_fill using that(3-8) inv(1,9-11)
      by (intro conjI exI [of _ "if c = 0 then n + 1 else n + 2"]) (cases "c = 0"; simp)+
    moreover have "holds st0 ns st' [] (fill ctx (mk s c q u v))"
      using that(2) holds_fill [of ctx "mk s c q u v" "[]" "fill ctx (mk s c q u v)"] by simp
    moreover have "fill ctx (mk s c q u v) \<noteq> Leaf" by (rule fill_not_Leaf) simp
    ultimately show ?thesis using that(1) by blast
  qed
  consider (both) "color_of x = 1" "color_of y = 1" | (far) "color_of y = 0" | (near) "color_of x = 0" "color_of y = 1"
    using invc_color inv by metis
  then show ?thesis
  proof cases
    case both then show ?thesis using both_black_holds [OF h] inv by auto
  next
    case far
    have y: "invc (paint 1 y)" "color_of (paint 1 y) = 1" "black_ht (n + 1) (paint 1 y)" using inv far by (cases y; simp)+
    obtain st' where st': "erase_black_sibling s p w st = Some (st', snd st', p, True)" "holds st0 ns st' ctx (mk s c w (mk s 1 p t x) (paint 1 y))"
      using far_red_holds [OF h inv(5,6) far] by blast
    show ?thesis by (rule stopped [OF st']) (use inv y in simp_all)
  next
    case near
    obtain q a b where x: "x = mk s 0 q a b" using mk_cases [of x s] near by auto
    have xinv: "invc (mk s 0 q a b)" "black_ht n (mk s 0 q a b)" using inv x by blast+
    obtain st' where st': "erase_black_sibling s p w st = Some (st', snd st', p, True)" "holds st0 ns st' ctx (mk s c q (mk s 1 p t a) (mk s 1 w b y))"
      using near_red_holds [OF h [unfolded x] xinv(1) inv(6) near(2)] by blast
    show ?thesis by (rule stopped [OF st']) (use inv xinv in simp_all)
  qed
qed

lemma erase_turn_reads:
  assumes "holds st0 ns st ctx (mk s c p t (mk s d q x y))"
  shows "erase_turn (root_of t) p st = (if d = 0 then do {
       m \<leftarrow> rb_set_color q 1 (fst st);
       m \<leftarrow> rb_set_color p 0 m;
       st \<leftarrow> rb_rotate s p (m, snd st);
       p' \<leftarrow> fst st p;
       erase_black_sibling s p (child (opp s) p') st }
     else erase_black_sibling s p q st)"
proof -
  have at: "fst st p = Some (mkn s c (par ctx) (root_of t) q)" "fst st q = Some (mkn s d p (root_of x) (root_of y))"
      "q \<notin> set (nodes t)" "q \<noteq> NULL"
    using assms by (auto simp: holds_def at_place_def)
  have "root_of t \<noteq> q" using at(3,4) root_in_nodes [of t] by (cases "t = Leaf") auto
  then have "(if rb_left (mkn s c (par ctx) (root_of t) q) = root_of t then L else R) = s" by (cases s) auto
  with at show ?thesis by (simp add: erase_turn_def rb_is_red_def set_color_rules Let_def)
qed

lemma black_turn:
  assumes "holds st0 ns st ctx (mk s c p t (mk s 1 w x y))"
  shows "erase_turn (root_of t) p st = erase_black_sibling s p w st"
  using erase_turn_reads [OF assms] by simp

lemma red_turn:
  assumes h: "holds st0 ns st ctx (mk s 1 p t (mk s 0 w x y))"
  shows "\<exists>st'. erase_turn (root_of t) p st = erase_black_sibling s p (root_of x) st' \<and> holds st0 ns st' ctx (mk s 1 w (mk s 0 p t x) y)"
proof -
  obtain m1 where m1: "rb_set_color w 1 (fst st) = Some m1" "holds st0 ns (m1, snd st) ctx (mk s 1 p t (mk s 1 w x y))"
    using paint_other [OF h, of 1] by auto
  obtain m2 where m2: "rb_set_color p 0 m1 = Some m2" "holds st0 ns (m2, snd st) ctx (mk s 0 p t (mk s 1 w x y))"
    using paint_mk [OF m1(2), of 0] by auto
  obtain st' where st': "rb_rotate s p (m2, snd st) = Some st'" "holds st0 ns st' ctx (mk s 1 w (mk s 0 p t x) y)"
    using rotate_holds [OF m2(2)] by blast
  have "erase_turn (root_of t) p st = do {
       m \<leftarrow> rb_set_color w 1 (fst st);
       m \<leftarrow> rb_set_color p 0 m;
       st \<leftarrow> rb_rotate s p (m, snd st);
       p' \<leftarrow> fst st p;
       erase_black_sibling s p (child (opp s) p') st }"
    using erase_turn_reads [OF h] by simp
  moreover have "fst st' p = Some (mkn s 0 w (root_of t) (root_of x))"
    using holds_node [OF iffD2 [OF holds_child(1) st'(2)]] by simp
  ultimately show ?thesis using m1(1) m2(1) st' by (intro exI [of _ st']) simp
qed

definition paint_end :: "rb_state \<times> ptr \<Rightarrow> rb_state option" where
  "paint_end = (\<lambda>(st, node). do {
     m \<leftarrow> (if node \<noteq> NULL then rb_set_black node (fst st) else Some (fst st));
     Some (m, snd st) })"

lemma rb_erase_color_unfold:
  "rb_erase_color node parent st = do {
     black \<leftarrow> null_or_black (fst st) node;
     if black \<and> node \<noteq> snd st then do {
       (st, node, parent, brk) \<leftarrow> erase_turn node parent st;
       if brk then paint_end (st, node) else rb_erase_color node parent st }
     else paint_end (st, node) }"
  unfolding rb_erase_color_def paint_end_def
  by (subst erase_loop.simps) (cases "null_or_black (fst st) node"; cases "erase_turn node parent st"; simp split: prod.split)

lemma erase_color_exit:
  assumes h: "holds st0 ns st ctx t" and "invc (paint 1 t)" "color_of t \<le> 1" "black_ht n t" "ctx_invc ctx" "ctx_ht (n + 1) ctx"
    and e: "color_of t = 0 \<or> ctx = []"
  shows "\<exists>st' T. rb_erase_color (root_of t) (par ctx) st = Some st' \<and> holds st0 ns st' [] T \<and> rbt T"
proof (cases "t = Leaf")
  case True
  then have "rb_erase_color (root_of t) (par ctx) st = Some st" "ctx = []"
    using h e by (cases st; auto simp: rb_erase_color_unfold null_or_black_def paint_end_def holds_def at_place_def)+
  then show ?thesis using h True by (auto simp: rbt_def)
next
  case False
  obtain m where m: "rb_set_color (root_of t) 1 (fst st) = Some m" "holds st0 ns (m, snd st) ctx (paint 1 t)"
    using paint_holds [OF h False] by blast
  have at: "at_place st ctx t" using h by (simp add: holds_def)
  have "root_of t \<noteq> NULL" "\<exists>b. null_or_black (fst st) (root_of t) = Some b \<and> (b \<longrightarrow> root_of t = snd st)"
    using at e False by (cases t; auto simp: at_place_def null_or_black_def rb_is_black_def)+
  then have "rb_erase_color (root_of t) (par ctx) st = Some (m, snd st)"
    using m(1) by (auto simp: rb_erase_color_unfold paint_end_def set_color_rules)
  moreover have "rbt (fill ctx (paint 1 t))"
    unfolding rbt_fill using assms False
    by (intro conjI exI [of _ "if color_of t = 0 then n + 1 else n"]) (cases t; auto)+
  moreover have "holds st0 ns (m, snd st) [] (fill ctx (paint 1 t))"
    using m(2) holds_fill [of ctx "paint 1 t" "[]" "fill ctx (paint 1 t)"] by simp
  ultimately show ?thesis by blast
qed

lemma root_in_ctx: "ctx_at m rt ctx h \<Longrightarrow> ctx \<noteq> [] \<Longrightarrow> rt \<in> ctx_nodes ctx"
proof (induction ctx arbitrary: h)
  case (Cons f ctx)
  obtain s c p u where f: "f = (s, c, p, u)" by (cases f)
  show ?case using Cons.prems Cons.IH [of p] f by (cases "ctx = []") auto
qed simp

lemma root_not_place: "at_place st ctx t \<Longrightarrow> ctx \<noteq> [] \<Longrightarrow> root_of t \<noteq> snd st"
  using root_in_ctx [of "fst st" "snd st" ctx "root_of t"] NULL_notin_ctx [of "fst st" "snd st" ctx "root_of t"] root_in_nodes [of t]
  by (cases "t = Leaf") (auto simp: at_place_def intro!: gr0I)

text \<open>A turn that has come down to a black sibling: the loop ends, or goes on with the parent.\<close>

lemma erase_color_step:
  assumes h: "holds st0 ns st1 ctx (mk s c p t (mk s 1 w x y))"
    and inv: "c \<le> 1" "invc t" "color_of t = 1" "black_ht n t" "invc x" "invc y" "black_ht n x" "black_ht n y"
      "ctx_invc ctx" "c = 0 \<longrightarrow> ctx_color ctx = 1" "ctx_ht (if c = 0 then n + 1 else n + 2) ctx"
    and unf: "rb_erase_color (root_of t) q st = do {
        (st, node, parent, brk) \<leftarrow> erase_black_sibling s p w st1;
        if brk then paint_end (st, node) else rb_erase_color node parent st }"
    and goes_on: "\<And>st'. holds st0 ns st' ctx (mk s c p t (mk s 0 w x y)) \<Longrightarrow> color_of x = 1 \<Longrightarrow> color_of y = 1
      \<Longrightarrow> \<exists>st'' T. rb_erase_color p (par ctx) st' = Some st'' \<and> holds st0 ns st'' [] T \<and> rbt T"
  shows "\<exists>st' T. rb_erase_color (root_of t) q st = Some st' \<and> holds st0 ns st' [] T \<and> rbt T"
  using erase_black_sibling_place [OF h inv]
proof (elim disjE exE conjE)
  fix st' T assume e: "erase_black_sibling s p w st1 = Some (st', snd st', p, True)" and T: "holds st0 ns st' [] T" "T \<noteq> Leaf" "rbt T"
  obtain m where m: "rb_set_black (snd st') (fst st') = Some m" "holds st0 ns (m, snd st') [] (paint 1 T)"
    using root_paint_holds [OF T(1)] T(2) by auto
  moreover have "snd st' \<noteq> NULL" using T(1,2) by (cases T) (auto simp: holds_def at_place_def)
  ultimately have "rb_erase_color (root_of t) q st = Some (m, snd st')" by (simp add: unf e paint_end_def)
  then show ?thesis using m(2) paint_rbt [OF T(3)] by blast
next
  fix st' assume "erase_black_sibling s p w st1 = Some (st', p, par ctx, False)"
    "holds st0 ns st' ctx (mk s c p t (mk s 0 w x y))" "color_of x = 1" "color_of y = 1"
  with goes_on show ?thesis by (simp add: unf)
qed

lemma erase_color_place:
  assumes "holds st0 ns st ctx t" "invc (paint 1 t)" "color_of t \<le> 1" "black_ht n t" "ctx_invc ctx" "ctx_ht (n + 1) ctx"
  shows "\<exists>st' T. rb_erase_color (root_of t) (par ctx) st = Some st' \<and> holds st0 ns st' [] T \<and> rbt T"
  using assms
proof (induction "length ctx" arbitrary: st ctx t n rule: less_induct)
  case less
  note h = less.prems(1)
  show ?case
  proof (cases "color_of t = 0 \<or> ctx = []")
    case True then show ?thesis using erase_color_exit [OF less.prems] by blast
  next
    case False
    then obtain s c p w ctx' where ctx: "ctx = (s, c, p, w) # ctx'" by (cases ctx) auto
    have t: "color_of t = 1" "invc t" using False less.prems(2,3) by (cases t; simp)+
    have inv: "c \<le> 1" "invc w" "black_ht (n + 1) w" "ctx_invc ctx'" "c = 0 \<longrightarrow> color_of w = 1 \<and> ctx_color ctx' = 1"
        "ctx_ht (if c = 0 then n + 1 else n + 2) ctx'"
      using less.prems(5,6) ctx by (auto simp: numeral_2_eq_2)
    have h': "holds st0 ns st ctx' (mk s c p t w)" using h ctx by (simp add: holds_child(1))
    have black: "null_or_black (fst st) (root_of t) = Some True" using null_or_black_tree [OF h t(2)] t(1) by simp
    have "w \<noteq> Leaf" using inv(3) by auto
    then obtain d q x y where w: "w = mk s d q x y" using mk_cases [of w s] by auto
    have root: "root_of t \<noteq> snd st" using root_not_place [of st ctx t] h ctx by (auto simp: holds_def)
    have unf: "rb_erase_color (root_of t) (par ctx) st = do {
        (st, node, parent, brk) \<leftarrow> erase_turn (root_of t) p st;
        if brk then paint_end (st, node) else rb_erase_color node parent st }"
      using black root ctx by (subst rb_erase_color_unfold) simp
    show ?thesis
    proof (cases "d = 0")
      case True
      have xy: "invc x" "invc y" "color_of x = 1" "color_of y = 1" "black_ht (n + 1) x" "black_ht (n + 1) y" "c = 1"
        using inv w True by auto
      obtain st1 where st1: "erase_turn (root_of t) p st = erase_black_sibling s p (root_of x) st1"
          "holds st0 ns st1 ctx' (mk s 1 q (mk s 0 p t x) y)"
        using red_turn [of st0 ns st ctx' s p t q x y] h' w True xy(7) by auto
      have "x \<noteq> Leaf" using xy(5) by auto
      then obtain e v a b where x: "x = mk s e v a b" using mk_cases [of x s] by auto
      note h1 = iffD2 [OF holds_child(1) st1(2), unfolded x]
      have e: "e = 1" "invc a" "invc b" "black_ht n a" "black_ht n b" using xy x by auto
      show ?thesis
      proof (rule erase_color_step [where c = 0, OF h1 [unfolded e(1)] _ t(2,1) less.prems(4) e(2-5)])
        fix st' assume "holds st0 ns st' ((s, 1, q, y) # ctx') (mk s 0 p t (mk s 0 v a b))" "color_of a = 1" "color_of b = 1"
        then show "\<exists>st'' T. rb_erase_color p (par ((s, 1, q, y) # ctx')) st' = Some st'' \<and> holds st0 ns st'' [] T \<and> rbt T"
          using erase_color_exit [of st0 ns st' "(s, 1, q, y) # ctx'" "mk s 0 p t (mk s 0 v a b)" n] t less.prems(4) e xy inv by auto
      qed (use unf st1(1) x xy inv in \<open>auto\<close>)
    next
      case False
      have xy: "d = 1" "invc x" "invc y" "black_ht n x" "black_ht n y" using inv w False by auto
      show ?thesis
      proof (rule erase_color_step [OF h' [unfolded w xy(1)] inv(1) t(2,1) less.prems(4) xy(2-5) inv(4)])
        fix st' assume "holds st0 ns st' ctx' (mk s c p t (mk s 0 q x y))" "color_of x = 1" "color_of y = 1"
        then show "\<exists>st'' T. rb_erase_color p (par ctx') st' = Some st'' \<and> holds st0 ns st'' [] T \<and> rbt T"
          using less.hyps [where ctx = ctx' and t = "mk s c p t (mk s 0 q x y)" and n = "if c = 0 then n else n + 1"]
            ctx t xy inv less.prems(4) by (auto split: if_splits)
      qed (use unf black_turn [of st0 ns st ctx' s c p t q x y] h' w xy inv in \<open>auto\<close>)
    qed
  qed
qed


end
