(* ===== verification/MG_RbErase.thy ===== *)
theory MG_RbErase
  imports MG_RbTree
begin

text \<open>
  \<open>__mg_rb_erase\<close> of \<open>src/misc/rbtree.c\<close>: a node with at most one child is replaced by that child; a node with two
  children is replaced by its successor, which leaves its own place to its right child.
\<close>

section \<open>The operation\<close>

text \<open>The loop that follows the links on one side to their end.\<close>

partial_function (option) descend :: "side \<Rightarrow> mem \<Rightarrow> ptr \<Rightarrow> ptr option" where
  "descend s m node = do {
     n \<leftarrow> m node;
     if child s n \<noteq> NULL then descend s m (child s n) else Some node }"

definition erase_one :: "ptr \<Rightarrow> ptr \<Rightarrow> rb_state \<Rightarrow> rb_state option" where
  "erase_one node chld st = do {
     n \<leftarrow> fst st node;
     let parent = rb_parent n;
     m \<leftarrow> link_parent chld parent (fst st);
     st \<leftarrow> hang_on L parent node chld (m, snd st);
     m \<leftarrow> set_child L node NULL (fst st);
     m \<leftarrow> set_child R node NULL m;
     if rb_color n = 1 then rb_erase_color chld parent (m, snd st) else Some (m, snd st) }"

text \<open>Unless it is the right child, the successor leaves its place and takes over the right subtree; the result is
  the parent of the place that lost a node.\<close>

definition cut_out :: "ptr \<Rightarrow> ptr \<Rightarrow> mem \<Rightarrow> (mem \<times> ptr) option" where
  "cut_out old node m = do {
     n \<leftarrow> m node;
     if rb_parent n = old then Some (m, node)
       else do {
         m \<leftarrow> link_parent (rb_right n) (rb_parent n) m;
         m \<leftarrow> set_child L (rb_parent n) (rb_right n) m;
         o2 \<leftarrow> m old;
         m \<leftarrow> set_child R node (rb_right o2) m;
         m \<leftarrow> rb_set_parent (rb_right o2) node m;
         Some (m, rb_parent n) } }"

definition erase_two :: "ptr \<Rightarrow> rb_state \<Rightarrow> rb_state option" where
  "erase_two old st = do {
     o1 \<leftarrow> fst st old;
     node \<leftarrow> descend L (fst st) (rb_right o1);
     st \<leftarrow> hang_on L (rb_parent o1) old node st;
     n \<leftarrow> fst st node;
     (m, parent) \<leftarrow> cut_out old node (fst st);
     o3 \<leftarrow> m old;
     m \<leftarrow> rb_set_color node (rb_color o3) m;
     m \<leftarrow> rb_set_parent node (rb_parent o3) m;
     m \<leftarrow> set_child L node (rb_left o3) m;
     m \<leftarrow> rb_set_parent (rb_left o3) node m;
     m \<leftarrow> set_child L old NULL m;
     m \<leftarrow> set_child R old NULL m;
     if rb_color n = 1 then rb_erase_color (rb_right n) parent (m, snd st) else Some (m, snd st) }"

definition rb_erase :: "ptr \<Rightarrow> rb_state \<Rightarrow> rb_state option" where
  "rb_erase node st = do {
     n \<leftarrow> fst st node;
     if rb_left n = NULL then erase_one node (rb_right n) st
     else if rb_right n = NULL then erase_one node (rb_left n) st
     else erase_two node st }"

section \<open>Places\<close>

lemma place_of_node: "p \<in> set (nodes t) \<Longrightarrow> \<exists>ctx l c r. t = fill ctx (Node l c p r)"
proof (induction t)
  case (Node l c q r)
  consider "p = q" | "p \<in> set (nodes l)" | "p \<in> set (nodes r)" using Node.prems by auto
  then show ?case
  proof cases
    case 1 then show ?thesis by (intro exI [of _ "[]"]) simp
  next
    case 2
    then obtain ctx l' c' r' where "l = fill ctx (Node l' c' p r')" using Node.IH by blast
    then have "Node l c q r = fill (ctx @ [(L, c, q, r)]) (Node l' c' p r')" by (simp add: fill_append)
    then show ?thesis by blast
  next
    case 3
    then obtain ctx l' c' r' where "r = fill ctx (Node l' c' p r')" using Node.IH by blast
    then have "Node l c q r = fill (ctx @ [(R, c, q, l)]) (Node l' c' p r')" by (simp add: fill_append)
    then show ?thesis by blast
  qed
qed simp

lemma nodes_fill: "\<exists>A B. \<forall>t. nodes (fill ctx t) = A @ nodes t @ B"
proof (induction ctx)
  case (Cons f ctx)
  obtain s c p u where f: "f = (s, c, p, u)" by (cases f)
  obtain A B where AB: "\<And>t. nodes (fill ctx t) = A @ nodes t @ B" using Cons by blast
  show ?case
  proof (cases s)
    case L then show ?thesis by (intro exI [of _ A] exI [of _ "p # nodes u @ B"]) (simp add: f AB)
  next
    case R then show ?thesis by (intro exI [of _ "A @ nodes u @ [p]"] exI [of _ B]) (simp add: f AB)
  qed
qed (intro exI [of _ "[]"], simp)

lemma descend_place:
  "tree_at m q t \<Longrightarrow> t \<noteq> Leaf \<Longrightarrow> \<exists>cs c y u. t = fill cs (mk s c y Leaf u) \<and> (\<forall>f \<in> set cs. fst f = s)
     \<and> descend s m (root_of t) = Some y"
proof (induction "size t" arbitrary: q t rule: less_induct)
  case less
  obtain c p x y where t: "t = mk s c p x y" using mk_cases [of t s] less.prems by auto
  have p: "m p = Some (mkn s c q (root_of x) (root_of y))" "tree_at m p x" using less.prems t by auto
  show ?case
  proof (cases "x = Leaf")
    case True
    then have "descend s m p = Some p" by (subst descend.simps) (simp add: p)
    then show ?thesis using t True by (intro exI [of _ "[]"]) auto
  next
    case False
    have "size x < size t" using t by (cases s) auto
    then obtain cs c' z u where IH: "x = fill cs (mk s c' z Leaf u)" "\<forall>f \<in> set cs. fst f = s" "descend s m (root_of x) = Some z"
      using less.hyps p(2) False by blast
    have "root_of x \<noteq> NULL" using root_of_Leaf [OF p(2)] False by simp
    then have "descend s m (root_of t) = Some z" using IH(3) p(1) t by (subst descend.simps) simp
    moreover have "t = fill (cs @ [(s, c, p, y)]) (mk s c' z Leaf u)" using IH(1) t by (simp add: fill_append)
    ultimately show ?thesis using IH(2) by (intro exI [of _ "cs @ [(s, c, p, y)]"]) auto
  qed
qed

text \<open>Another tree is put in the hole of a tree.\<close>

lemma fill_root: "root_of (fill (f # cs) t) = root_of (fill (f # cs) t')"
proof (induction cs arbitrary: f t t')
  case Nil then show ?case by (cases f) auto
next
  case (Cons g cs) then show ?case by (cases f) (simp only: fill.simps)
qed

lemma subtree_change:
  assumes "tree_at m q (fill ((s, c, p, u) # cs) t)" "distinct (nodes (fill ((s, c, p, u) # cs) t))"
  shows "\<exists>q'. m p = Some (mkn s c q' (root_of t) (root_of u)) \<and> tree_at m p t \<and> p \<noteq> NULL \<and> (cs = [] \<longrightarrow> q' = q) \<and> (cs \<noteq> [] \<longrightarrow> q' = par cs)
    \<and> (\<forall>m' t'. m' p = Some (mkn s c q' (root_of t') (root_of u)) \<and> tree_at m' p t'
        \<and> (\<forall>x \<in> set (nodes (fill ((s, c, p, u) # cs) t)) - {p} - set (nodes t). m' x = m x)
        \<longrightarrow> tree_at m' q (fill ((s, c, p, u) # cs) t'))"
  using assms
proof (induction cs arbitrary: q rule: rev_induct)
  case Nil
  have at: "p \<noteq> NULL" "m p = Some (mkn s c q (root_of t) (root_of u))" "tree_at m p t" "tree_at m p u"
    and dis: "p \<notin> set (nodes u)" "set (nodes t) \<inter> set (nodes u) = {}"
    using Nil by auto
  have "tree_at m' q (fill [(s, c, p, u)] t')" if "m' p = Some (mkn s c q (root_of t') (root_of u))" "tree_at m' p t'"
      "\<forall>x \<in> set (nodes (fill [(s, c, p, u)] t)) - {p} - set (nodes t). m' x = m x" for m' t'
  proof -
    have "\<forall>x \<in> set (nodes u). m' x = m x" using that(3) dis by auto
    then have "tree_at m' p u" using tree_at_cong at(4) by blast
    then show ?thesis using that(1,2) at(1) by simp
  qed
  then show ?case using at by (intro exI [of _ q]) blast
next
  case (snoc g cs)
  obtain s2 c2 p2 u2 where g: "g = (s2, c2, p2, u2)" by (cases g)
  let ?f = "\<lambda>t. fill ((s, c, p, u) # cs) t"
  have fill: "fill ((s, c, p, u) # cs @ [g]) t = mk s2 c2 p2 (?f t) u2" for t by (simp add: fill_append g)
  have at: "p2 \<noteq> NULL" "m p2 = Some (mkn s2 c2 q (root_of (?f t)) (root_of u2))" "tree_at m p2 (?f t)" "tree_at m p2 u2"
    and dis: "distinct (nodes (?f t))" "p2 \<notin> set (nodes (?f t))" "p2 \<notin> set (nodes u2)" "set (nodes (?f t)) \<inter> set (nodes u2) = {}"
    using snoc.prems unfolding fill by auto
  have p: "p \<in> set (nodes (?f t))" "set (nodes t) \<subseteq> set (nodes (?f t))" by (auto simp: fill_nodes)
  have par: "par (cs @ [g]) = (if cs = [] then p2 else par cs)" using g by (cases cs) auto
  obtain q' where q': "m p = Some (mkn s c q' (root_of t) (root_of u))" "tree_at m p t" "p \<noteq> NULL"
      "cs = [] \<longrightarrow> q' = p2" "cs \<noteq> [] \<longrightarrow> q' = par cs"
    and IH: "\<And>m' t'. m' p = Some (mkn s c q' (root_of t') (root_of u)) \<Longrightarrow> tree_at m' p t'
        \<Longrightarrow> \<forall>x \<in> set (nodes (?f t)) - {p} - set (nodes t). m' x = m x \<Longrightarrow> tree_at m' p2 (?f t')"
    using snoc.IH [OF at(3) dis(1)] by (elim exE conjE) (rule that, assumption+, simp)
  have "tree_at m' q (mk s2 c2 p2 (?f t') u2)" if "m' p = Some (mkn s c q' (root_of t') (root_of u))" "tree_at m' p t'"
      "\<forall>x \<in> set (nodes (mk s2 c2 p2 (?f t) u2)) - {p} - set (nodes t). m' x = m x" for m' t'
  proof -
    have "tree_at m' p2 (?f t')" using IH that by auto
    moreover have "m' p2 = m p2" "\<forall>x \<in> set (nodes u2). m' x = m x" using that(3) dis p by auto
    moreover have "tree_at m' p2 u2 = tree_at m p2 u2" using \<open>\<forall>x \<in> set (nodes u2). m' x = m x\<close> by (rule tree_at_cong)
    ultimately show ?thesis using at fill_root [of "(s, c, p, u)" cs t t'] by simp
  qed
  then show ?case unfolding fill using q' par by (intro exI [of _ q']) auto
qed

section \<open>The links\<close>

lemma set_child_any: "m p = Some (mkn s c q x y) \<Longrightarrow> set_child s' p z m = Some (m(p \<mapsto> (if s' = s then mkn s c q z y else mkn s c q x z)))"
  by (cases s; cases s'; simp add: modify_def)

lemma erase_one_place:
  assumes "at_place st ctx (mk s c z Leaf t)"
  shows "\<exists>st1. erase_one z (root_of t) st = (if c = 1 then rb_erase_color (root_of t) (par ctx) st1 else Some st1)
    \<and> at_place st1 ctx t \<and> fst st1 z = Some (mkn L c (par ctx) NULL NULL) \<and> frame (place_nodes ctx (mk s c z Leaf t)) st st1"
proof -
  obtain m rt where st: "st = (m, rt)" by (cases st)
  have at: "m z = Some (mkn s c (par ctx) NULL (root_of t))" "z \<noteq> NULL" "tree_at m z t" "ctx_at m rt ctx z" "ctx_distinct ctx"
    and dis: "z \<notin> set (nodes t)" "distinct (nodes t)" "set (nodes t) \<inter> ctx_nodes ctx = {}" "z \<notin> ctx_nodes ctx"
    using assms st by (auto simp: at_place_def)
  define m1 where "m1 = reparent (par ctx) t m"
  define st2 where "st2 = hang ctx (root_of t) (m1, rt)"
  define st1 where "st1 = ((fst st2)(z \<mapsto> mkn L c (par ctx) NULL NULL), snd st2)"
  have m1: "link_parent (root_of t) (par ctx) m = Some m1" "m1 z = m z" "tree_at m1 (par ctx) t" "ctx_at m1 rt ctx z"
    unfolding m1_def using at dis by (auto intro: link_parent_tree)
  have st2: "hang_on L (par ctx) z (root_of t) (m1, rt) = Some st2" "fst st2 z = m z" "tree_at (fst st2) (par ctx) t"
      "ctx_at (fst st2) (snd st2) ctx (root_of t)"
    unfolding st2_def using m1 at dis hang_on_place [of m1 rt ctx z] by (auto simp: hang_ctx)
  have "set_child L z NULL (fst st2) \<bind> set_child R z NULL = Some (fst st1)"
    using st2(2) at(1) by (cases s) (simp_all add: modify_def st1_def)
  then have "\<exists>m. set_child L z NULL (fst st2) = Some m \<and> set_child R z NULL m = Some (fst st1)"
    by (cases "set_child L z NULL (fst st2)") auto
  then have "erase_one z (root_of t) st = (if c = 1 then rb_erase_color (root_of t) (par ctx) st1 else Some st1)"
    using m1(1) st2(1) at(1) by (auto simp: erase_one_def st st1_def)
  moreover have "at_place st1 ctx t" using st2 at dis by (simp add: at_place_def st1_def)
  moreover have "frame (place_nodes ctx (mk s c z Leaf t)) st st1" by (auto simp: frame_def st1_def st2_def m1_def st)
  moreover have "fst st1 z = Some (mkn L c (par ctx) NULL NULL)" by (simp add: st1_def)
  ultimately show ?thesis by blast
qed

lemma cut_out_place:
  assumes "m z = Some (mkn R c q (root_of r) xl)" "tree_at m z r" "distinct (nodes r)" "z \<notin> set (nodes r)"
    and r: "r = fill cs (Node Leaf cy y t)" "\<forall>f \<in> set cs. fst f = L"
  shows "\<exists>m' q'. cut_out z y m = Some (m', if cs = [] then y else par cs) \<and> tree_at m' y (fill cs t)
    \<and> m' y = Some (mkn L cy q' NULL (root_of (fill cs t))) \<and> (\<forall>x. x \<notin> set (nodes r) \<longrightarrow> m' x = m x)"
proof (cases cs)
  case Nil
  then show ?thesis using assms by (auto simp: cut_out_def)
next
  case (Cons f cs')
  then obtain cp p up where f: "f = (L, cp, p, up)" using r(2) by (cases f) auto
  note sc = subtree_change [of m z L cp p up cs' "Node Leaf cy y t", folded f]
  have rr: "r = fill (f # cs') (Node Leaf cy y t)" using r Cons by simp
  obtain q' where q': "m p = Some (mkn L cp q' y (root_of up))" "tree_at m p (Node Leaf cy y t)" "p \<noteq> NULL"
    and change: "\<And>m' t'. m' p = Some (mkn L cp q' (root_of t') (root_of up)) \<Longrightarrow> tree_at m' p t'
        \<Longrightarrow> \<forall>x \<in> set (nodes r) - {p} - set (nodes (Node Leaf cy y t)). m' x = m x \<Longrightarrow> tree_at m' z (fill (f # cs') t')"
    using sc assms rr by (metis root_of.simps(2))
  have t: "m y = Some (mkn L cy p NULL (root_of t))" "tree_at m y t" "y \<noteq> NULL" using q'(2) by auto
  have dis: "p \<noteq> y" "p \<notin> set (nodes t)" "y \<notin> set (nodes t)" "distinct (nodes t)" "p \<noteq> z" "y \<noteq> z" "z \<notin> set (nodes t)"
    "distinct (nodes (fill (f # cs') t))" "y \<notin> set (nodes (fill (f # cs') t))" "z \<notin> set (nodes (fill (f # cs') t))"
    using assms(3,4) unfolding rr fill_distinct fill_nodes f by auto
  define m1 where "m1 = (reparent p t m)(p \<mapsto> mkn L cp q' (root_of t) (root_of up))"
  have m1: "link_parent (root_of t) p m \<bind> set_child L p (root_of t) = Some m1"
    using link_parent_tree [OF t(2)] q'(1) dis by (simp add: m1_def set_child_mkn(1) del: set_child.simps)
  have "tree_at m1 z (fill (f # cs') t)"
    by (rule change) (use dis t q' in \<open>auto simp: m1_def rr\<close>)
  then have m1t: "tree_at (m1(y \<mapsto> n)) z (fill (f # cs') t)" for n using dis(9) by simp
  have root: "root_of (fill (f # cs') t) = root_of r" using fill_root rr by metis
  define m2 where "m2 = m1(y \<mapsto> mkn L cy p NULL (root_of r))"
  have m2: "set_child R y (root_of r) m1 = Some m2" "m1 z = m z"
    using dis t by (simp_all add: m1_def m2_def modify_def)
  define m3 where "m3 = reparent y (fill (f # cs') t) m2"
  have "fill (f # cs') t \<noteq> Leaf" by (simp add: f fill_not_Leaf)
  then have "root_of r \<noteq> NULL" using root_of_Leaf [OF assms(2)] unfolding root [symmetric] using root_of_Leaf [OF m1t] by blast
  then have m3: "rb_set_parent (root_of r) y m2 = Some m3" "tree_at m3 y (fill (f # cs') t)"
    using link_parent_tree [OF m1t, where q' = y] dis(8) tree_at_reparent m1t root
    unfolding m2_def m3_def link_parent_def by fastforce+
  have "cut_out z y m = Some (m3, p)"
    using m1 m2 m3(1) t q' dis assms(1) by (cases "link_parent (root_of t) p m") (auto simp: cut_out_def simp del: set_child.simps)
  moreover have "m3 y = Some (mkn L cy p NULL (root_of (fill cs t)))" using dis(9) Cons root by (simp add: m3_def m2_def)
  moreover have "m3 x = m x" if "x \<notin> set (nodes r)" for x
  proof -
    have "x \<notin> set (nodes (fill (f # cs') t))" "x \<noteq> y" "x \<noteq> p" "x \<notin> set (nodes t)"
      using that unfolding rr fill_nodes f by auto
    then show ?thesis by (simp add: m3_def m2_def m1_def)
  qed
  ultimately show ?thesis using m3(2) Cons f by auto
qed

lemma node_in_fill: "tree_at m q (fill cs (Node l c y r)) \<Longrightarrow> \<exists>q'. m y = Some (mkn L c q' (root_of l) (root_of r))"
proof (induction cs arbitrary: q rule: rev_induct)
  case (snoc g cs)
  obtain s c' p u where g: "g = (s, c', p, u)" by (cases g)
  show ?case using snoc.IH [of p] snoc.prems by (simp add: fill_append g)
qed auto

lemma par_append: "par (cs @ (s, c, y, l) # ctx) = (if cs = [] then y else par cs)"
  by (cases cs) auto

lemma erase_two_place:
  assumes "at_place st ctx (Node l c z r)" "l \<noteq> Leaf" "r = fill cs (Node Leaf cy y t)" "\<forall>f \<in> set cs. fst f = L"
    and desc: "descend L (fst st) (root_of r) = Some y"
  shows "\<exists>st1. erase_two z st = (if cy = 1 then rb_erase_color (root_of t) (par (cs @ (R, c, y, l) # ctx)) st1 else Some st1)
    \<and> at_place st1 (cs @ (R, c, y, l) # ctx) t \<and> fst st1 z = Some (mkn L c (par ctx) NULL NULL)
    \<and> frame (place_nodes ctx (Node l c z r)) st st1"
proof -
  obtain m rt where st: "st = (m, rt)" by (cases st)
  let ?r = "fill cs t" and ?n = "mkn L c (par ctx) (root_of l) (root_of (fill cs t))"
  have at: "m z = Some (mkn L c (par ctx) (root_of l) (root_of r))" "z \<noteq> NULL" "tree_at m z l" "tree_at m z r" "ctx_at m rt ctx z"
      "ctx_distinct ctx"
    and dis: "z \<notin> set (nodes l)" "z \<notin> set (nodes r)" "z \<notin> ctx_nodes ctx" "distinct (nodes l)" "distinct (nodes r)"
      "set (nodes l) \<inter> set (nodes r) = {}" "set (nodes l) \<inter> ctx_nodes ctx = {}" "set (nodes r) \<inter> ctx_nodes ctx = {}"
    using assms(1) st by (auto simp: at_place_def)
  have rn: "set (nodes r) = insert y (set (nodes ?r))" "y \<notin> set (nodes ?r)" "distinct (nodes ?r)"
    using dis(5) unfolding assms(3) fill_nodes fill_distinct by auto
  have y: "y \<notin> set (nodes l)" "y \<notin> ctx_nodes ctx" "y \<noteq> z" "y \<noteq> NULL"
    using rn(1) dis at NULL_notin_nodes [OF at(4)] by auto
  define st2 where "st2 = hang ctx y (m, rt)"
  have st2: "hang_on L (par ctx) z y (m, rt) = Some st2" "fst st2 z = m z" "tree_at (fst st2) z l" "tree_at (fst st2) z r"
      "ctx_at (fst st2) (snd st2) ctx y"
    unfolding st2_def using at dis hang_on_place [of m rt ctx z] by (auto simp: hang_ctx)
  obtain q where n: "fst st2 y = Some (mkn L cy q NULL (root_of t))"
    using node_in_fill st2(4) assms(3) by fastforce
  obtain m3 q' where m3: "cut_out z y (fst st2) = Some (m3, if cs = [] then y else par cs)" "tree_at m3 y ?r"
      "m3 y = Some (mkn L cy q' NULL (root_of ?r))" "\<And>x. x \<notin> set (nodes r) \<Longrightarrow> m3 x = fst st2 x"
    using cut_out_place [of "fst st2" z c "par ctx" r "root_of l" cs cy y t] st2 at(1) dis assms(3,4) by (auto simp: mkn.simps)
  have z: "m3 z = Some (mkn L c (par ctx) (root_of l) (root_of r))" using m3(4) dis(2) st2(2) at(1) by simp
  have l: "tree_at m3 z l" using st2(3) m3(4) dis(6) tree_at_cong [of l m3 "fst st2" z] by auto
  have "\<forall>q \<in> ctx_nodes ctx. m3 q = fst st2 q" using m3(4) dis(8) by auto
  then have c: "ctx_at m3 (snd st2) ctx y" using st2(5) ctx_at_cong by blast
  define m4 where "m4 = reparent y l (m3(y \<mapsto> ?n))"
  have "link_parent (root_of l) y (m3(y \<mapsto> ?n)) = Some m4" unfolding m4_def by (rule link_parent_tree [where q = z]) (use l y in simp)
  moreover have "root_of l \<noteq> NULL" using root_of_Leaf [OF at(3)] assms(2) by simp
  ultimately have m4: "rb_set_parent (root_of l) y (m3(y \<mapsto> ?n)) = Some m4" by (simp add: link_parent_def)
  have upd: "rb_set_color y c m3 = Some (m3(y \<mapsto> mkn L c q' NULL (root_of ?r)))"
      "rb_set_parent y (par ctx) (m3(y \<mapsto> mkn L c q' NULL (root_of ?r))) = Some (m3(y \<mapsto> mkn L c (par ctx) NULL (root_of ?r)))"
      "set_child L y (root_of l) (m3(y \<mapsto> mkn L c (par ctx) NULL (root_of ?r))) = Some (m3(y \<mapsto> ?n))"
      "set_child L z NULL m4 = Some (m4(z \<mapsto> mkn L c (par ctx) NULL (root_of r)))"
      "set_child R z NULL (m4(z \<mapsto> mkn L c (par ctx) NULL (root_of r))) = Some (m4(z \<mapsto> mkn L c (par ctx) NULL NULL))"
    using m3(3) z y by (simp_all add: m4_def modify_def rb_set_color_def rb_set_parent_def dis)
  define st1 where "st1 = (m4(z \<mapsto> mkn L c (par ctx) NULL NULL), snd st2)"
  have m4': "m4 y = Some ?n" "m4 z = m3 z" "tree_at m4 y l" "tree_at m4 y ?r" "ctx_at m4 (snd st2) ctx y"
    using y dis l m3(2) c rn at by (auto simp: m4_def)
  have "erase_two z st = (if cy = 1 then rb_erase_color (root_of t) (par (cs @ (R, c, y, l) # ctx)) st1 else Some st1)"
    using at(1) desc st2(1,2) n m3(1) z m4 m4'(2) y upd
    by (simp add: erase_two_def st st1_def par_append del: set_child.simps)
  moreover have "at_place st1 ctx (Node l c y ?r)"
    using m4' y dis rn at(6) by (auto simp: st1_def at_place_def)
  then have "at_place st1 (cs @ (R, c, y, l) # ctx) t"
    using repr_fill [of st1 ctx "Node l c y ?r"] repr_fill [of st1 "cs @ (R, c, y, l) # ctx" t] by (simp add: fill_append)
  moreover have "m4 x = m x" if "x \<notin> place_nodes ctx (Node l c z r)" for x
    using that rn(1) m3(4) [of x] by (simp add: m4_def st2_def)
  then have "frame (place_nodes ctx (Node l c z r)) st st1" by (auto simp: frame_def st1_def st)
  moreover have "fst st1 z = Some (mkn L c (par ctx) NULL NULL)" by (simp add: st1_def)
  ultimately show ?thesis by blast
qed

section \<open>Correctness\<close>

lemma erase_rest:
  assumes at: "at_place st1 ctx t" and hole: "(c :: nat) \<le> 1 \<and> invc t \<and> ctx_invc ctx \<and> (c = 0 \<longrightarrow> color_of t = 1)
    \<and> (\<exists>n. black_ht n t \<and> ctx_ht (if c = 0 then n else n + 1) ctx)"
  shows "\<exists>st' T. (if c = 1 then rb_erase_color (root_of t) (par ctx) st1 else Some st1) = Some st' \<and> repr st' T \<and> rbt T
    \<and> nodes T = nodes (fill ctx t) \<and> frame (set (nodes T)) st1 st'"
proof (cases "c = 1")
  case True
  obtain n where "black_ht n t" "ctx_ht (if c = 0 then n else n + 1) ctx" using hole by blast
  then have inv: "black_ht n t" "ctx_ht (n + 1) ctx" using True by simp_all
  have h: "holds st1 (nodes (fill ctx t)) st1 ctx t" using at by (simp add: holds_def)
  have "invc (paint 1 t)" "color_of t \<le> 1" using hole by (cases t; simp)+
  then obtain st' T where "rb_erase_color (root_of t) (par ctx) st1 = Some st'" "holds st1 (nodes (fill ctx t)) st' [] T" "rbt T"
    using erase_color_place [OF h _ _ inv(1) _ inv(2)] hole by blast
  then show ?thesis using True repr_fill [of st' "[]" T] by (auto simp: holds_def)
next
  case False
  then have "rbt (fill ctx t)" "repr st1 (fill ctx t)" using hole at repr_fill by (auto simp: rbt_fill)
  then show ?thesis using False by auto
qed

lemma ctx_rename: "ctx_invc (cs @ (s, c, y, l) # ctx) = ctx_invc (cs @ (s, c, z, l) # ctx)"
  "ctx_ht n (cs @ (s, c, y, l) # ctx) = ctx_ht n (cs @ (s, c, z, l) # ctx)"
  "ctx_color (cs @ (s, c, y, l) # ctx) = ctx_color (cs @ (s, c, z, l) # ctx)"
proof (induction cs arbitrary: n)
  case (Cons f cs)
  obtain s' c' p' u' where f: "f = (s', c', p', u')" by (cases f)
  { case 1 show ?case using Cons f by simp }
  { case 2 show ?case using Cons f by simp }
  { case 3 show ?case using f by simp }
qed simp_all

lemma rbt_hole:
  assumes "rbt (fill ctx (mk s c z Leaf t))"
  shows "c \<le> 1 \<and> invc t \<and> ctx_invc ctx \<and> (c = 0 \<longrightarrow> color_of t = 1)
    \<and> (\<exists>n. black_ht n t \<and> ctx_ht (if c = 0 then n else n + 1) ctx)"
proof -
  have inv: "c \<le> 1" "invc t" "ctx_invc ctx" "c = 0 \<longrightarrow> color_of t = 1" using assms by (auto simp: rbt_fill)
  obtain n where n: "black_ht n (mk s c z Leaf t)" "ctx_ht n ctx" using assms by (auto simp only: rbt_fill)
  then have "\<exists>n. black_ht n t \<and> ctx_ht (if c = 0 then n else n + 1) ctx"
    by (intro exI [of _ "if c = 0 then n else n - 1"]) (auto split: if_splits)
  with inv show ?thesis by blast
qed

lemma erase_one_correct:
  assumes at: "at_place st ctx (mk s c z Leaf t)" and bal: "rbt (fill ctx (mk s c z Leaf t))"
  shows "\<exists>st' T. erase_one z (root_of t) st = Some st' \<and> repr st' T \<and> rbt T \<and> nodes T = nodes (fill ctx t)
    \<and> fst st' z = Some (mkn L c (par ctx) NULL NULL) \<and> frame (place_nodes ctx (mk s c z Leaf t)) st st'"
proof -
  obtain st1 where st1: "erase_one z (root_of t) st = (if c = 1 then rb_erase_color (root_of t) (par ctx) st1 else Some st1)"
    "at_place st1 ctx t" "fst st1 z = Some (mkn L c (par ctx) NULL NULL)" "frame (place_nodes ctx (mk s c z Leaf t)) st st1"
    using erase_one_place [OF at] by blast
  obtain st' T where st': "erase_one z (root_of t) st = Some st'" "repr st' T" "rbt T" "nodes T = nodes (fill ctx t)"
      "frame (set (nodes T)) st1 st'"
    using erase_rest [OF st1(2) rbt_hole [OF bal]] unfolding st1(1) by blast
  have "z \<notin> set (nodes T)" using at st'(4) by (auto simp: at_place_def fill_nodes)
  then have "fst st' z = Some (mkn L c (par ctx) NULL NULL)" using st1(3) st'(5) by (simp add: frame_def)
  moreover have "frame (place_nodes ctx (mk s c z Leaf t)) st st'" using st1(4) st'(4,5) by (auto simp: frame_def fill_nodes)
  ultimately show ?thesis using st' by blast
qed

lemma erase_two_correct:
  assumes at: "at_place st ctx (Node l c z r)" and bal: "rbt (fill ctx (Node l c z r))" and lr: "l \<noteq> Leaf" "r \<noteq> Leaf"
  shows "\<exists>st' T. erase_two z st = Some st' \<and> repr st' T \<and> rbt T \<and> (\<exists>A B. nodes (fill ctx (Node l c z r)) = A @ z # B \<and> nodes T = A @ B)
    \<and> fst st' z = Some (mkn L c (par ctx) NULL NULL) \<and> frame (place_nodes ctx (Node l c z r)) st st'"
proof -
  have "tree_at (fst st) z r" using at by (simp add: at_place_def)
  then obtain cs cy y t where cs: "r = fill cs (Node Leaf cy y t)" "\<forall>f \<in> set cs. fst f = L" "descend L (fst st) (root_of r) = Some y"
    using descend_place [of "fst st" z r L] lr(2) by auto
  let ?K = "cs @ (R, c, y, l) # ctx" and ?Z = "cs @ (R, c, z, l) # ctx"
  have Z: "fill ctx (Node l c z r) = fill ?Z (mk L cy y Leaf t)" by (simp add: fill_append cs(1))
  obtain st1 where st1: "erase_two z st = (if cy = 1 then rb_erase_color (root_of t) (par ?K) st1 else Some st1)"
    "at_place st1 ?K t" "fst st1 z = Some (mkn L c (par ctx) NULL NULL)" "frame (place_nodes ctx (Node l c z r)) st st1"
    using erase_two_place [OF at lr(1) cs] by blast
  obtain st' T where st': "erase_two z st = Some st'" "repr st' T" "rbt T" "nodes T = nodes (fill ?K t)"
      "frame (set (nodes T)) st1 st'"
    using erase_rest [OF st1(2), of cy] rbt_hole [OF bal [unfolded Z]]
    unfolding st1(1) ctx_rename [where y = y and z = z] by blast
  obtain A B where AB: "\<And>t. nodes (fill ctx t) = A @ nodes t @ B" using nodes_fill [of ctx] by blast
  have r: "nodes r = y # nodes (fill cs t)"
    using cs(2) unfolding cs(1)
  proof (induction cs rule: rev_induct)
    case (snoc g cs)
    obtain s c' p u where g: "g = (s, c', p, u)" by (cases g)
    show ?case using snoc by (simp add: fill_append g)
  qed simp
  have ns: "nodes (fill ctx (Node l c z r)) = (A @ nodes l) @ z # (nodes r @ B)" "nodes T = (A @ nodes l) @ nodes r @ B"
    using AB st'(4) r by (simp_all add: fill_append)
  have "distinct (nodes (fill ctx (Node l c z r)))" using at by (auto simp: fill_distinct at_place_def)
  then have "z \<notin> set (nodes T)" using ns by auto
  then have "fst st' z = Some (mkn L c (par ctx) NULL NULL)" using st1(3) st'(5) by (simp add: frame_def)
  moreover have "set (nodes T) \<subseteq> place_nodes ctx (Node l c z r)"
    using r unfolding st'(4) by (auto simp: fill_append fill_nodes)
  then have "frame (place_nodes ctx (Node l c z r)) st st'" using st1(4) st'(5) by (auto simp: frame_def)
  ultimately show ?thesis using st' ns by blast
qed

text \<open>C14: \<open>__mg_rb_erase\<close> of any node of a red-black tree returns and leaves a well-formed red-black tree with
  the other nodes in the same order; the erased node has no children afterwards and nothing outside the tree
  changes.\<close>

theorem rb_erase_correct:
  assumes "repr st T" "rbt T" "z \<in> set (nodes T)"
  shows "\<exists>st' T'. rb_erase z st = Some st' \<and> repr st' T' \<and> rbt T' \<and> nodes T' = remove1 z (nodes T)
    \<and> (\<exists>n. fst st' z = Some n \<and> rb_left n = NULL \<and> rb_right n = NULL) \<and> frame (set (nodes T)) st st'"
proof -
  obtain ctx l c r where T: "T = fill ctx (Node l c z r)" using place_of_node [OF assms(3)] by blast
  have at: "at_place st ctx (Node l c z r)" using assms(1) T repr_fill by simp
  have n: "fst st z = Some (mkn L c (par ctx) (root_of l) (root_of r))" using at by (simp add: at_place_def)
  have leaf: "root_of l = NULL \<longleftrightarrow> l = Leaf" "root_of r = NULL \<longleftrightarrow> r = Leaf"
    using at root_of_Leaf [of "fst st" z] by (auto simp: at_place_def)
  have V: "set (nodes T) = place_nodes ctx (Node l c z r)" by (simp add: T fill_nodes)
  have remove: "remove1 z (nodes T) = A @ B" if "nodes T = A @ z # B" for A B
    using that assms(1) by (auto simp: repr_def remove1_append)
  obtain A B where AB: "\<And>t. nodes (fill ctx t) = A @ nodes t @ B" using nodes_fill [of ctx] by blast
  have stop: ?thesis if "rb_erase z st = Some st'" "repr st' T'" "rbt T'" "nodes T' = A' @ B'" "nodes T = A' @ z # B'"
      "fst st' z = Some (mkn L c (par ctx) NULL NULL)" "frame (place_nodes ctx (Node l c z r)) st st'" for st' T' A' B'
    using that remove V by fastforce
  consider "l = Leaf" | "l \<noteq> Leaf" "r = Leaf" | "l \<noteq> Leaf" "r \<noteq> Leaf" by blast
  then show ?thesis
  proof cases
    case 1
    then have "rb_erase z st = erase_one z (root_of r) st" using n by (simp add: rb_erase_def)
    then show ?thesis
      using erase_one_correct [of st ctx L c z r] at assms(2) T 1 AB stop [of _ _ A "nodes r @ B"] by auto
  next
    case 2
    then have "rb_erase z st = erase_one z (root_of l) st" using n leaf by (simp add: rb_erase_def)
    then show ?thesis
      using erase_one_correct [of st ctx R c z l] at assms(2) T 2 AB stop [of _ _ "A @ nodes l" B] by auto
  next
    case 3
    then have "rb_erase z st = erase_two z st" using n leaf by (simp add: rb_erase_def)
    then show ?thesis using erase_two_correct [OF at _ 3] assms(2) T stop by metis
  qed
qed

theorem rb_erase_correct_witness:
  "\<exists>st' T'. rb_erase 1 (one_node 1) = Some st' \<and> repr st' T' \<and> rbt T' \<and> nodes T' = []
    \<and> (\<exists>n. fst st' 1 = Some n \<and> rb_left n = NULL \<and> rb_right n = NULL) \<and> frame {1} (one_node 1) st'"
  using rb_erase_correct [OF one_node_repr one_node_rbt, of 1 1] by simp

end
