(* ===== verification/MG_RbWalk.thy ===== *)
theory MG_RbWalk
  imports MG_RbErase
begin

text \<open>
  The other operations of \<open>src/misc/rbtree.c\<close>: the walk in order (\<open>__mg_rb_first\<close>, \<open>__mg_rb_last\<close>, \<open>__mg_rb_next\<close>,
  \<open>__mg_rb_prev\<close>), \<open>__mg_rb_replace_node\<close> and the nodes that the augment functions visit.
\<close>

section \<open>The operations\<close>

text \<open>\<open>rb_end L\<close> is \<open>__mg_rb_first\<close>, \<open>rb_end R\<close> is \<open>__mg_rb_last\<close>.\<close>

definition rb_end :: "side \<Rightarrow> rb_state \<Rightarrow> ptr option" where
  "rb_end s st = (if snd st = NULL then Some NULL else descend s (fst st) (snd st))"

partial_function (option) climb :: "side \<Rightarrow> mem \<Rightarrow> ptr \<Rightarrow> ptr option" where
  "climb s m node = do {
     n \<leftarrow> m node;
     let parent = rb_parent n;
     if parent = NULL then Some NULL else do {
       p \<leftarrow> m parent;
       if child s p = node then climb s m parent else Some parent } }"

text \<open>\<open>rb_step R\<close> is \<open>__mg_rb_next\<close>, \<open>rb_step L\<close> is \<open>__mg_rb_prev\<close>.\<close>

definition rb_step :: "side \<Rightarrow> mem \<Rightarrow> ptr \<Rightarrow> ptr option" where
  "rb_step s m node = do {
     n \<leftarrow> m node;
     if rb_parent n = node then Some NULL
     else if child s n \<noteq> NULL then descend (opp s) m (child s n)
     else climb s m node }"

definition rb_replace_node :: "ptr \<Rightarrow> ptr \<Rightarrow> rb_state \<Rightarrow> rb_state option" where
  "rb_replace_node victim newnode st = do {
     v \<leftarrow> fst st victim;
     st \<leftarrow> hang_on L (rb_parent v) victim newnode st;
     m \<leftarrow> link_parent (rb_left v) newnode (fst st);
     m \<leftarrow> link_parent (rb_right v) newnode m;
     v \<leftarrow> m victim;
     Some (m(newnode \<mapsto> v), snd st) }"

text \<open>The call of \<open>rb_augment_path\<close> for the other child of the parent \<open>p\<close>.\<close>

definition augment_more :: "ptr \<Rightarrow> rb_node \<Rightarrow> ptr list" where
  "augment_more node p = (if node = rb_left p \<and> rb_right p \<noteq> NULL then [rb_right p]
     else if rb_left p \<noteq> NULL then [rb_left p] else [])"

text \<open>The nodes on which \<open>rb_augment_path\<close> calls \<open>func\<close>, in order.\<close>

partial_function (option) rb_augment_path :: "mem \<Rightarrow> ptr \<Rightarrow> ptr list option" where
  "rb_augment_path m node = do {
     n \<leftarrow> m node;
     let parent = rb_parent n;
     if parent = NULL then Some [node] else do {
       p \<leftarrow> m parent;
       rest \<leftarrow> rb_augment_path m parent;
       Some (node # augment_more node p @ rest) } }"

definition rb_augment_insert :: "mem \<Rightarrow> ptr \<Rightarrow> ptr list option" where
  "rb_augment_insert m node = do {
     n \<leftarrow> m node;
     rb_augment_path m (if rb_left n \<noteq> NULL then rb_left n else if rb_right n \<noteq> NULL then rb_right n else node) }"

definition rb_augment_erase_begin :: "mem \<Rightarrow> ptr \<Rightarrow> ptr option" where
  "rb_augment_erase_begin m node = do {
     n \<leftarrow> m node;
     if rb_right n = NULL \<and> rb_left n = NULL then Some (rb_parent n)
     else if rb_right n = NULL then Some (rb_left n)
     else if rb_left n = NULL then Some (rb_right n)
     else do {
       deepest \<leftarrow> rb_step R m node;
       d \<leftarrow> m deepest;
       if rb_right d \<noteq> NULL then Some (rb_right d)
       else if rb_parent d \<noteq> node then Some (rb_parent d) else Some deepest } }"

definition rb_augment_erase_end :: "mem \<Rightarrow> ptr \<Rightarrow> ptr list option" where
  "rb_augment_erase_end m node = (if node \<noteq> NULL then rb_augment_path m node else Some [])"

section \<open>The order of the nodes\<close>

text \<open>The nodes in the direction of a side, and what comes after a place.\<close>

definition order :: "side \<Rightarrow> ptree \<Rightarrow> ptr list" where
  "order s t = (if s = R then nodes t else rev (nodes t))"

fun after :: "side \<Rightarrow> ctx \<Rightarrow> ptr list" where
  "after s [] = []"
| "after s ((s', c, p, u) # ctx) = (if s' = s then after s ctx else p # order s u @ after s ctx)"

definition hd_ptr :: "ptr list \<Rightarrow> ptr" where
  "hd_ptr ps = (case ps of [] \<Rightarrow> NULL | p # _ \<Rightarrow> p)"

lemma order_mk: "order s (mk s c p x y) = order s y @ p # order s x" "order (opp s) (mk s c p x y) = order (opp s) x @ p # order (opp s) y"
  by (cases s; simp add: order_def)+

lemma order_opp: "rev (order (opp s) t) = order s t"
  by (cases s) (simp_all add: order_def)

lemma order_fill: "order s (fill ctx t) = rev (after (opp s) ctx) @ order s t @ after s ctx"
proof (induction ctx t rule: fill.induct)
  case (2 s' c p u ctx t)
  consider "s' = s" | "s' = opp s" by (cases s; cases s') auto
  then show ?case using 2 order_mk(1) [of s c p t u] order_mk(2) [of "opp s" c p t u] order_opp [of s u]
    by cases auto
qed simp

lemma order_leftmost:
  assumes "\<forall>f \<in> set cs. fst f = opp s"
  shows "\<exists>ps. order s (fill cs (mk (opp s) c y Leaf u)) = y # ps"
proof -
  have "after (opp s) cs = []" using assms
  proof (induction cs)
    case (Cons f cs) then show ?case by (cases f) auto
  qed simp
  then show ?thesis using order_mk(2) [of "opp s" c y Leaf u] by (auto simp: order_fill order_def [of _ Leaf])
qed

lemma descend_first:
  assumes "tree_at m q t" "t \<noteq> Leaf"
  shows "descend (opp s) m (root_of t) = Some (hd_ptr (order s t))"
proof -
  obtain cs c y u where cs: "t = fill cs (mk (opp s) c y Leaf u)" "\<forall>f \<in> set cs. fst f = opp s" "descend (opp s) m (root_of t) = Some y"
    using descend_place [OF assms] by blast
  obtain ps where "order s t = y # ps" using order_leftmost [OF cs(2)] cs(1) by blast
  then show ?thesis using cs(3) by (simp add: hd_ptr_def)
qed

theorem rb_end_correct:
  assumes "repr st T"
  shows "rb_end s st = Some (hd_ptr (order (opp s) T))"
proof (cases "T = Leaf")
  case False
  then show ?thesis using assms descend_first [of "fst st" NULL T "opp s"] root_of_Leaf [of "fst st" NULL T]
    by (simp add: repr_def rb_end_def)
qed (use assms in \<open>simp add: repr_def rb_end_def hd_ptr_def order_def\<close>)

lemma climb_place:
  assumes "ctx_at m rt ctx h" "ctx_distinct ctx" "h \<notin> ctx_nodes ctx" "h \<noteq> NULL" "m h = Some n" "rb_parent n = par ctx"
  shows "climb s m h = Some (hd_ptr (after s ctx))"
  using assms
proof (induction ctx arbitrary: h n)
  case Nil
  then show ?case by (subst climb.simps) (simp add: hd_ptr_def)
next
  case (Cons f ctx)
  obtain s' c p u where f: "f = (s', c, p, u)" by (cases f)
  have p: "m p = Some (mkn s' c (par ctx) h (root_of u))" "p \<noteq> NULL" "rb_parent n = p" "p \<notin> ctx_nodes ctx" "h \<notin> set (nodes u)"
    using Cons.prems f by auto
  have "root_of u \<noteq> h" using p(5) root_in_nodes [of u] Cons.prems(4) by (cases "u = Leaf") auto
  then have side: "child s (mkn s' c (par ctx) h (root_of u)) = h \<longleftrightarrow> s' = s" by (cases s; cases s') auto
  show ?case
  proof (cases "s' = s")
    case True
    have "climb s m p = Some (hd_ptr (after s ctx))" using Cons.IH [of p] Cons.prems f p by auto
    then show ?thesis using True Cons.prems(5) p side f by (subst climb.simps) simp
  next
    case False
    then show ?thesis using Cons.prems(5) p side f by (subst climb.simps) (simp add: hd_ptr_def)
  qed
qed

text \<open>C35: \<open>__mg_rb_next\<close> and \<open>__mg_rb_prev\<close> of a node of a tree return the node that follows it in the order
  of the tree in their direction, NULL at the end.\<close>

theorem rb_step_correct:
  assumes "repr st T" "order s T = A @ z # B"
  shows "rb_step s (fst st) z = Some (hd_ptr B)"
proof -
  have "z \<in> set (nodes T)" using arg_cong [OF assms(2), of set] by (auto simp: order_def split: if_splits)
  then obtain ctx l c r where "T = fill ctx (Node l c z r)" using place_of_node by blast
  then obtain x y where T: "T = fill ctx (mk s c z x y)" by (cases s) auto
  have at: "at_place st ctx (mk s c z x y)" using assms(1) T repr_fill by simp
  then have n: "fst st z = Some (mkn s c (par ctx) (root_of x) (root_of y))" "tree_at (fst st) z x" "z \<noteq> NULL" "z \<notin> ctx_nodes ctx"
    "ctx_at (fst st) (snd st) ctx z" "ctx_distinct ctx"
    by (auto simp: at_place_def)
  have "order s T = (rev (after (opp s) ctx) @ order s y) @ z # (order s x @ after s ctx)" by (simp add: T order_fill order_mk)
  moreover have "distinct (order s T)" using assms(1) by (simp add: repr_def order_def)
  ultimately have B: "B = order s x @ after s ctx" using assms(2) by (metis append_Cons_eq_iff distinct.simps(2) distinct_append not_distinct_conv_prefix)
  have "par ctx \<noteq> z" using n(3,4) par_in_ctx [of ctx] by (cases "ctx = []") auto
  then have step: "rb_step s (fst st) z = (if root_of x \<noteq> NULL then descend (opp s) (fst st) (root_of x) else climb s (fst st) z)"
    using n(1) by (simp add: rb_step_def)
  show ?thesis
  proof (cases "x = Leaf")
    case True
    then show ?thesis using climb_place [OF n(5,6,4,3) n(1)] step B by (simp add: order_def)
  next
    case False
    then have "order s x \<noteq> []" by (cases x) (auto simp: order_def)
    then show ?thesis
      using False descend_first [OF n(2) False, of s] root_of_Leaf [OF n(2)] step B by (cases "order s x") (auto simp: hd_ptr_def)
  qed
qed

section \<open>Replacement of a node\<close>

fun rename :: "ptr \<Rightarrow> ptr \<Rightarrow> ptree \<Rightarrow> ptree" where
  "rename a b Leaf = Leaf"
| "rename a b (Node l c p r) = Node (rename a b l) c (if p = a then b else p) (rename a b r)"

lemma rename_other: "a \<notin> set (nodes t) \<Longrightarrow> rename a b t = t"
  by (induction t) auto

lemma nodes_rename: "nodes (rename a b t) = map (\<lambda>p. if p = a then b else p) (nodes t)"
  by (induction t) auto

lemma color_of_rename [simp]: "color_of (rename a b t) = color_of t"
  by (cases t) auto

lemma rename_rbt: "rbt (rename a b t) = rbt t"
proof -
  have "invc (rename a b t) = invc t" by (induction t) auto
  moreover have "black_ht n (rename a b t) = black_ht n t" for n by (induction t arbitrary: n) auto
  ultimately show ?thesis by (simp add: rbt_def)
qed

lemma rename_mk: "rename a b (mk s c p x y) = mk s c (if p = a then b else p) (rename a b x) (rename a b y)"
  by (cases s) auto

lemma rename_fill: "a \<notin> ctx_nodes ctx \<Longrightarrow> rename a b (fill ctx t) = fill ctx (rename a b t)"
  by (induction ctx t rule: fill.induct) (auto simp: rename_mk rename_other)

theorem rb_replace_node_correct:
  assumes "repr st T" "z \<in> set (nodes T)" "new \<notin> set (nodes T)" "new \<noteq> NULL"
  shows "\<exists>st'. rb_replace_node z new st = Some st' \<and> repr st' (rename z new T) \<and> frame (insert new (set (nodes T))) st st'"
proof -
  obtain ctx l c r where T: "T = fill ctx (Node l c z r)" using place_of_node [OF assms(2)] by blast
  obtain m rt where st: "st = (m, rt)" by (cases st)
  have "at_place st ctx (Node l c z r)" using assms(1) T repr_fill by simp
  then have at: "m z = Some (mkn L c (par ctx) (root_of l) (root_of r))" "z \<noteq> NULL" "tree_at m z l" "tree_at m z r" "ctx_at m rt ctx z"
      "ctx_distinct ctx"
    and dis: "z \<notin> set (nodes l)" "z \<notin> set (nodes r)" "z \<notin> ctx_nodes ctx" "distinct (nodes l)" "distinct (nodes r)"
      "set (nodes l) \<inter> set (nodes r) = {}" "set (nodes l) \<inter> ctx_nodes ctx = {}" "set (nodes r) \<inter> ctx_nodes ctx = {}"
    using st by (auto simp: at_place_def)
  have new: "new \<notin> set (nodes l)" "new \<notin> set (nodes r)" "new \<notin> ctx_nodes ctx" "new \<noteq> z" using assms(3) T by (auto simp: fill_nodes)
  define st1 where "st1 = hang ctx new (m, rt)"
  have st1: "hang_on L (par ctx) z new (m, rt) = Some st1" "fst st1 z = m z" "tree_at (fst st1) z l" "tree_at (fst st1) z r"
      "ctx_at (fst st1) (snd st1) ctx new"
    unfolding st1_def using at dis hang_on_place [of m rt ctx z] by (auto simp: hang_ctx)
  define m2 where "m2 = reparent new r (reparent new l (fst st1))"
  have l: "link_parent (root_of l) new (fst st1) = Some (reparent new l (fst st1))" using link_parent_tree st1(3) by blast
  have "tree_at (reparent new l (fst st1)) z r" using st1(4) dis by simp
  then have r: "link_parent (root_of r) new (reparent new l (fst st1)) = Some m2" "tree_at m2 new r"
    unfolding m2_def using link_parent_tree dis(5) by (blast, simp)
  have m2: "m2 z = m z" "tree_at m2 new l" "ctx_at m2 (snd st1) ctx new"
    unfolding m2_def using st1 dis by (simp_all add: Int_commute)
  define st2 where "st2 = (m2(new \<mapsto> mkn L c (par ctx) (root_of l) (root_of r)), snd st1)"
  have "rb_replace_node z new st = Some st2"
    using at(1) st1(1) l r(1) m2(1) by (simp add: rb_replace_node_def st st2_def)
  moreover have "at_place st2 ctx (Node l c new r)"
    using m2 r(2) new dis assms(4) at(6) by (auto simp: st2_def at_place_def)
  then have "repr st2 (rename z new T)" using T dis by (simp add: rename_fill rename_other repr_fill)
  moreover have "frame (insert new (set (nodes T))) st st2"
    by (auto simp: frame_def st2_def m2_def st1_def st T fill_nodes)
  ultimately show ?thesis by blast
qed

theorem rb_step_correct_witness: "rb_step R (fst (one_node 1)) 1 = Some NULL"
  using rb_step_correct [OF one_node_repr, of 1 R "[]" 1 "[]"] by (simp add: order_def hd_ptr_def)

theorem rb_replace_node_correct_witness:
  "\<exists>st'. rb_replace_node 1 2 (one_node 1) = Some st' \<and> repr st' (Node Leaf 1 2 Leaf) \<and> frame {1, 2} (one_node 1) st'"
  using rb_replace_node_correct [OF one_node_repr, of 1 1 2] by (simp add: insert_commute)

section \<open>The augment functions\<close>

text \<open>A path visits the node, the nodes above it up to the root and the siblings on the way.\<close>

fun ancestors :: "ctx \<Rightarrow> ptr list" where
  "ancestors [] = []"
| "ancestors ((s, c, p, u) # ctx) = p # ancestors ctx"

fun siblings :: "ctx \<Rightarrow> ptr set" where
  "siblings [] = {}"
| "siblings ((s, c, p, u) # ctx) = (if u = Leaf then {} else {root_of u}) \<union> siblings ctx"

lemma augment_more_mkn: "h \<noteq> NULL \<Longrightarrow> w \<noteq> h \<Longrightarrow> insert h (set (augment_more h (mkn s c q h w))) = insert h (if w = NULL then {} else {w})"
  by (cases s) (auto simp: augment_more_def)

lemma rb_augment_path_place:
  assumes "ctx_at m rt ctx h" "ctx_distinct ctx" "h \<notin> ctx_nodes ctx" "h \<noteq> NULL" "m h = Some n" "rb_parent n = par ctx"
  shows "\<exists>ps. rb_augment_path m h = Some ps \<and> set ps = insert h (set (ancestors ctx)) \<union> siblings ctx \<and> hd ps = h \<and> ps \<noteq> []"
  using assms
proof (induction ctx arbitrary: h n)
  case Nil
  then show ?case by (subst rb_augment_path.simps) simp
next
  case (Cons f ctx)
  obtain s c p u where f: "f = (s, c, p, u)" by (cases f)
  have p: "m p = Some (mkn s c (par ctx) h (root_of u))" "p \<noteq> NULL" "rb_parent n = p" "p \<notin> ctx_nodes ctx" "h \<notin> set (nodes u)"
    "tree_at m p u"
    using Cons.prems f by auto
  have u: "root_of u = NULL \<longleftrightarrow> u = Leaf" "root_of u \<noteq> h"
    using root_of_Leaf [OF p(6)] p(5) root_in_nodes [of u] Cons.prems(4) by (blast, cases "u = Leaf", auto)
  obtain ps where ps: "rb_augment_path m p = Some ps" "set ps = insert p (set (ancestors ctx)) \<union> siblings ctx"
    using Cons.IH [of p] Cons.prems f p by auto
  let ?M = "augment_more h (mkn s c (par ctx) h (root_of u))"
  have "rb_augment_path m h = Some (h # ?M @ ps)"
    using Cons.prems(5) p ps(1) by (subst rb_augment_path.simps) simp
  moreover have "set (h # ?M @ ps) = insert h (set (ancestors (f # ctx))) \<union> siblings (f # ctx)"
  proof -
    have M: "insert h (set ?M) = insert h (if u = Leaf then {} else {root_of u})"
      using augment_more_mkn [OF Cons.prems(4) u(2)] u(1) by simp
    have "set (h # ?M @ ps) = insert h (set ?M) \<union> set ps" by simp
    also have "\<dots> = insert h (if u = Leaf then {} else {root_of u}) \<union> (insert p (set (ancestors ctx)) \<union> siblings ctx)"
      unfolding M ps(2) ..
    finally show ?thesis using f by auto
  qed
  ultimately show ?case by (intro exI [of _ "h # ?M @ ps"]) simp
qed

end
