(* ===== verification/MG_Map.thy ===== *)
theory MG_Map
  imports MG_RbWalk "HOL-Library.Word" "HOL-Library.List_Lexorder"
begin

text \<open>
  The maps of \<open>src/misc/map.c\<close>: entries in a red-black tree, sorted by their keys. Keys and values are pointers;
  the copy and comparison functions of a client and the allocator are parameters, and the calls of the free
  functions are recorded. None stands for an access through a pointer that names no entry. The operations get a
  map that exists; the tests for a NULL map are in \<open>map_find\<close> and \<open>map_destroy\<close> and alike in the others.
\<close>

section \<open>State\<close>

type_synonym voidp = "64 word"

text \<open>The functions given at creation. A copy function gets the number of the call, so that two copies differ; of
  a free function only the presence is kept. \<open>alloc\<close> is \<open>mg_slice_new\<close>.\<close>

record map_fns =
  copy_key :: "(nat \<Rightarrow> voidp \<Rightarrow> voidp) option"
  free_key :: bool
  copy_val :: "(nat \<Rightarrow> voidp \<Rightarrow> voidp) option"
  free_val :: bool
  comp_key :: "(voidp \<Rightarrow> voidp \<Rightarrow> int) option"
  alloc :: "nat \<Rightarrow> ptr"

text \<open>\<open>free_val_alt\<close> is 0 or names a function.\<close>

record map_entry =
  key :: voidp
  val :: voidp
  free_val_alt :: nat

datatype free_call = Free_key voidp | Free_val voidp | Free_alt nat voidp

record map_t =
  tree :: rb_state
  entries :: "ptr \<Rightarrow> map_entry option"
  map_size :: int
  calls :: nat
  freed :: "free_call list"

definition map_create :: map_t where
  "map_create = \<lparr>tree = (\<lambda>_. None, NULL), entries = \<lambda>_. None, map_size = 0, calls = 0, freed = []\<rparr>"

section \<open>Operations\<close>

definition free_value :: "map_fns \<Rightarrow> map_entry \<Rightarrow> free_call list" where
  "free_value fns e = (if free_val_alt e \<noteq> 0 then [Free_alt (free_val_alt e) (val e)]
     else if free_val fns then [Free_val (val e)] else [])"

definition new_entry :: "map_fns \<Rightarrow> voidp \<Rightarrow> voidp \<Rightarrow> nat \<Rightarrow> map_t \<Rightarrow> ptr \<times> map_t" where
  "new_entry fns k v free_alt s =
     (let p = alloc fns (calls s)
      in if p \<noteq> NULL then
           (p, s\<lparr>entries := (entries s)(p \<mapsto>
              \<lparr>key = (case copy_key fns of Some f \<Rightarrow> f (calls s) k | None \<Rightarrow> k),
               val = (case copy_val fns of Some f \<Rightarrow> f (calls s) v | None \<Rightarrow> v),
               free_val_alt = free_alt\<rparr>), calls := calls s + 1\<rparr>)
         else (p, s\<lparr>calls := calls s + 1\<rparr>))"

partial_function (option) clear_node :: "map_fns \<Rightarrow> ptr \<Rightarrow> map_t \<Rightarrow> map_t option" where
  "clear_node fns node s =
     (if node \<noteq> NULL then do {
        e \<leftarrow> entries s node;
        let s = s\<lparr>freed := freed s @ (if free_key fns then [Free_key (key e)] else []) @ free_value fns e\<rparr>;
        n \<leftarrow> fst (tree s) node;
        s \<leftarrow> clear_node fns (rb_left n) s;
        n \<leftarrow> fst (tree s) node;
        s \<leftarrow> clear_node fns (rb_right n) s;
        Some (s\<lparr>tree := ((fst (tree s))(node := None), snd (tree s)), entries := (entries s)(node := None)\<rparr>) }
      else Some s)"

definition erase_entry :: "map_fns \<Rightarrow> ptr \<Rightarrow> map_t \<Rightarrow> map_t option" where
  "erase_entry fns entry s = do {
     t \<leftarrow> rb_erase entry (tree s);
     s \<leftarrow> clear_node fns entry (s\<lparr>tree := t\<rparr>);
     Some (s\<lparr>map_size := map_size s - 1\<rparr>) }"

definition map_clear :: "map_fns \<Rightarrow> map_t \<Rightarrow> map_t option" where
  "map_clear fns s = do {
     s \<leftarrow> clear_node fns (snd (tree s)) s;
     Some (s\<lparr>tree := (fst (tree s), NULL), map_size := 0\<rparr>) }"

text \<open>The comparison, without a function the difference of the pointers as a C \<open>int\<close>.\<close>

definition compare :: "map_fns \<Rightarrow> voidp \<Rightarrow> voidp \<Rightarrow> int" where
  "compare fns k1 k2 = (case comp_key fns of Some f \<Rightarrow> f k1 k2 | None \<Rightarrow> sint (ucast (k1 - k2) :: 32 word))"

partial_function (option) find_loop :: "map_fns \<Rightarrow> map_t \<Rightarrow> voidp \<Rightarrow> ptr \<Rightarrow> ptr option" where
  "find_loop fns s k entry =
     (if entry \<noteq> NULL then do {
        e \<leftarrow> entries s entry;
        n \<leftarrow> fst (tree s) entry;
        let ret = compare fns k (key e);
        if ret < 0 then find_loop fns s k (rb_left n)
        else if ret > 0 then find_loop fns s k (rb_right n)
        else Some entry }
      else Some NULL)"

definition find_entry :: "map_fns \<Rightarrow> map_t \<Rightarrow> voidp \<Rightarrow> ptr option" where
  "find_entry fns s k = find_loop fns s k (snd (tree s))"

definition map_find :: "map_fns \<Rightarrow> map_t option \<Rightarrow> voidp \<Rightarrow> ptr option" where
  "map_find fns m k = (case m of None \<Rightarrow> Some NULL | Some s \<Rightarrow> find_entry fns s k)"

definition map_get_size :: "map_t \<Rightarrow> int" where
  "map_get_size s = map_size s"

text \<open>What is left of a destroyed map is the record of the free calls.\<close>

definition map_destroy :: "map_fns \<Rightarrow> map_t option \<Rightarrow> (int \<times> free_call list) option" where
  "map_destroy fns m = (case m of None \<Rightarrow> Some (- 1, []) | Some s \<Rightarrow> map_option (\<lambda>s. (0, freed s)) (map_clear fns s))"

definition map_erase :: "map_fns \<Rightarrow> voidp \<Rightarrow> map_t \<Rightarrow> (int \<times> map_t) option" where
  "map_erase fns k s = do {
     entry \<leftarrow> find_entry fns s k;
     if entry \<noteq> NULL then do { s \<leftarrow> erase_entry fns entry s; Some (0, s) } else Some (- 1, s) }"

definition copied_val :: "map_fns \<Rightarrow> voidp \<Rightarrow> map_t \<Rightarrow> voidp" where
  "copied_val fns v s = (case copy_val fns of Some f \<Rightarrow> f (calls s) v | None \<Rightarrow> v)"

definition map_replace :: "map_fns \<Rightarrow> voidp \<Rightarrow> voidp \<Rightarrow> nat \<Rightarrow> map_t \<Rightarrow> (int \<times> map_t) option" where
  "map_replace fns k v free_alt s = do {
     entry \<leftarrow> find_entry fns s k;
     if entry = NULL then Some (- 1, s) else do {
       e \<leftarrow> entries s entry;
       if v = val e then Some (0, s)
       else Some (0, s\<lparr>entries := (entries s)(entry \<mapsto> e\<lparr>val := copied_val fns v s, free_val_alt := free_alt\<rparr>),
         calls := calls s + 1, freed := freed s @ free_value fns e\<rparr>) } }"

definition read_link :: "rb_state \<Rightarrow> link \<Rightarrow> ptr option" where
  "read_link st l = (case l of Root_link \<Rightarrow> Some (snd st) | Child_link p sd \<Rightarrow> map_option (child sd) (fst st p))"

text \<open>The way down of the insertions: the entry that is found or NULL, the link to it and the node above.\<close>

partial_function (option) locate ::
  "(voidp \<Rightarrow> voidp \<Rightarrow> int option) \<Rightarrow> map_t \<Rightarrow> voidp \<Rightarrow> link \<Rightarrow> ptr \<Rightarrow> (ptr \<times> link \<times> ptr) option" where
  "locate cmp s k pentry parent = do {
     p \<leftarrow> read_link (tree s) pentry;
     if p \<noteq> NULL then do {
       e \<leftarrow> entries s p;
       ret \<leftarrow> cmp k (key e);
       if ret < 0 then locate cmp s k (Child_link p L) p
       else if ret > 0 then locate cmp s k (Child_link p R) p
       else Some (p, pentry, p) }
     else Some (NULL, pentry, parent) }"

definition insert_new :: "map_fns \<Rightarrow> voidp \<Rightarrow> voidp \<Rightarrow> nat \<Rightarrow> link \<Rightarrow> ptr \<Rightarrow> map_t \<Rightarrow> (ptr \<times> map_t) option" where
  "insert_new fns k v free_alt pentry parent s = do {
     let (entry, s) = new_entry fns k v free_alt s;
     t \<leftarrow> rb_link_node entry parent pentry (tree s);
     t \<leftarrow> rb_insert_color entry t;
     Some (entry, s\<lparr>tree := t, map_size := map_size s + 1\<rparr>) }"

definition map_insert_ex2 :: "map_fns \<Rightarrow> voidp \<Rightarrow> voidp \<Rightarrow> nat \<Rightarrow> map_t \<Rightarrow> (ptr \<times> map_t) option" where
  "map_insert_ex2 fns k v free_alt s = do {
     (entry, pentry, parent) \<leftarrow> locate (\<lambda>k1 k2. Some (compare fns k1 k2)) s k Root_link NULL;
     if entry = NULL then insert_new fns k v free_alt pentry parent s
     else do {
       e \<leftarrow> entries s entry;
       Some (entry, s\<lparr>entries := (entries s)(entry \<mapsto> e\<lparr>val := copied_val fns v s\<rparr>), calls := calls s + 1,
         freed := freed s @ (if free_val fns then [Free_val (val e)] else [])\<rparr>) } }"

text \<open>Without a comparison function the code reads the key of \<open>entry\<close>, which is NULL in the loop.\<close>

definition map_find_replace_or_insert :: "map_fns \<Rightarrow> voidp \<Rightarrow> voidp \<Rightarrow> nat \<Rightarrow> map_t \<Rightarrow> (int \<times> map_t) option" where
  "map_find_replace_or_insert fns k v free_alt s = do {
     (entry, pentry, parent) \<leftarrow> locate (\<lambda>k1 k2. map_option (\<lambda>f. f k1 k2) (comp_key fns)) s k Root_link NULL;
     if entry = NULL then map_option (\<lambda>(_, s). (0, s)) (insert_new fns k v free_alt pentry parent s)
     else do {
       e \<leftarrow> entries s entry;
       Some (0, s\<lparr>entries := (entries s)(entry \<mapsto> e\<lparr>val := copied_val fns v s, free_val_alt := free_alt\<rparr>),
         calls := calls s + 1, freed := freed s @ free_value fns e\<rparr>) } }"

definition map_insert_ex :: "map_fns \<Rightarrow> voidp \<Rightarrow> voidp \<Rightarrow> nat \<Rightarrow> map_t \<Rightarrow> (int \<times> map_t) option" where
  "map_insert_ex fns k v free_alt s = map_option (\<lambda>(p, s). (if p \<noteq> NULL then 0 else - 1, s)) (map_insert_ex2 fns k v 0 s)"

definition map_insert :: "map_fns \<Rightarrow> voidp \<Rightarrow> voidp \<Rightarrow> map_t \<Rightarrow> (int \<times> map_t) option" where
  "map_insert fns k v s = map_insert_ex fns k v 0 s"

section \<open>What a map holds\<close>

text \<open>\<open>kf\<close> gives the meaning of a key, \<open>D\<close> the keys that may be used.\<close>

definition pkey :: "(voidp \<Rightarrow> 'k) \<Rightarrow> map_t \<Rightarrow> ptr \<Rightarrow> 'k" where
  "pkey kf s p = kf (key (the (entries s p)))"

definition pval :: "map_t \<Rightarrow> ptr \<Rightarrow> voidp" where
  "pval s p = val (the (entries s p))"

definition map_tree :: "(voidp \<Rightarrow> 'k :: linorder) \<Rightarrow> (voidp \<Rightarrow> bool) \<Rightarrow> map_t \<Rightarrow> ptree \<Rightarrow> bool" where
  "map_tree kf D s T \<longleftrightarrow> repr (tree s) T \<and> rbt T \<and> (\<forall>p \<in> set (nodes T). \<exists>e. entries s p = Some e \<and> D (key e))
     \<and> sorted_wrt (<) (map (pkey kf s) (nodes T)) \<and> map_size s = int (length (nodes T))"

definition map_holds :: "(voidp \<Rightarrow> 'k :: linorder) \<Rightarrow> (voidp \<Rightarrow> bool) \<Rightarrow> map_t \<Rightarrow> ('k \<rightharpoonup> voidp) \<Rightarrow> bool" where
  "map_holds kf D s M \<longleftrightarrow> (\<exists>T. map_tree kf D s T \<and> M = map_of (map (\<lambda>p. (pkey kf s p, pval s p)) (nodes T)))"

lemma map_create_holds: "map_holds kf D map_create (\<lambda>_. None)"
  by (auto simp: map_holds_def map_tree_def map_create_def repr_def rbt_def intro: exI [of _ Leaf])

lemma map_of_split:
  assumes "sorted_wrt (<) (map f (A @ p # B))"
  shows "map_of (map (\<lambda>p. (f p, g p)) (A @ p # B)) = (map_of (map (\<lambda>p. (f p, g p)) (A @ B)))(f p \<mapsto> g p)"
    and "map_of (map (\<lambda>p. (f p, g p)) (A @ B)) (f p :: 'k :: linorder) = None"
proof -
  have "f p \<notin> f ` set A" "f p \<notin> f ` set B" using assms by (auto simp: sorted_wrt_append)
  then show "map_of (map (\<lambda>p. (f p, g p)) (A @ B)) (f p) = None" by (auto simp: map_of_eq_None_iff image_iff)
  show "map_of (map (\<lambda>p. (f p, g p)) (A @ p # B)) = (map_of (map (\<lambda>p. (f p, g p)) (A @ B)))(f p \<mapsto> g p)"
  proof -
    have "f p \<notin> dom (map_of (map (\<lambda>p. (f p, g p)) A))"
      using \<open>f p \<notin> f ` set A\<close> by (simp add: dom_map_of_conv_image_fst image_image)
    then show ?thesis by (simp add: map_add_upd_left)
  qed
qed

lemma map_of_cong:
  assumes "\<forall>p \<in> set ps. f p = f' p \<and> g p = g' p"
  shows "map_of (map (\<lambda>p. (f p, g p)) ps) = map_of (map (\<lambda>p. (f' p, g' p)) ps)"
  using assms by (metis (no_types, lifting) map_eq_conv)

lemma map_of_node:
  assumes "p \<in> set ps" "sorted_wrt (<) (map f ps)"
  shows "map_of (map (\<lambda>p. (f p, g p)) ps) (f p :: 'k :: linorder) = Some (g p)"
proof -
  obtain A B where "ps = A @ p # B" using assms(1) by (meson split_list)
  then show ?thesis using map_of_split(1) [of f A p B g] assms(2) by simp
qed

text \<open>The result of a search for the key \<open>k\<close>.\<close>

definition found :: "(voidp \<Rightarrow> 'k) \<Rightarrow> map_t \<Rightarrow> voidp \<Rightarrow> ptree \<Rightarrow> ptr \<Rightarrow> bool" where
  "found kf s k t p \<longleftrightarrow> (if p = NULL then kf k \<notin> pkey kf s ` set (nodes t) else p \<in> set (nodes t) \<and> pkey kf s p = kf k)"

text \<open>The contract of the comparison and the copy of keys.\<close>

locale key_order =
  fixes fns :: map_fns and kf :: "voidp \<Rightarrow> 'k :: linorder" and D :: "voidp \<Rightarrow> bool"
  assumes compare_less: "D k1 \<Longrightarrow> D k2 \<Longrightarrow> compare fns k1 k2 < 0 \<longleftrightarrow> kf k1 < kf k2"
    and compare_greater: "D k1 \<Longrightarrow> D k2 \<Longrightarrow> compare fns k1 k2 > 0 \<longleftrightarrow> kf k1 > kf k2"
    and copy_same: "D k \<Longrightarrow> copy_key fns = Some f \<Longrightarrow> D (f n k) \<and> kf (f n k) = kf k"
begin

lemma find_loop_tree:
  assumes "tree_at (fst (tree s)) q t" "\<forall>p \<in> set (nodes t). \<exists>e. entries s p = Some e \<and> D (key e)" "D k"
    "sorted_wrt (<) (map (pkey kf s) (nodes t))"
  shows "\<exists>p. find_loop fns s k (root_of t) = Some p
    \<and> found kf s k t p"
  using assms
proof (induction t arbitrary: q)
  case Leaf
  then show ?case by (subst find_loop.simps) (simp add: found_def)
next
  case (Node l c p r)
  obtain e where e: "entries s p = Some e" "D (key e)" using Node.prems(2) by auto
  have p: "pkey kf s p = kf (key e)" "p \<noteq> NULL" "fst (tree s) p = Some (mkn L c q (root_of l) (root_of r))"
    using Node.prems(1) e by (auto simp: pkey_def)
  have l: "\<exists>p. find_loop fns s k (root_of l) = Some p
      \<and> found kf s k l p"
    and r: "\<exists>p. find_loop fns s k (root_of r) = Some p
      \<and> found kf s k r p"
    using Node.IH [of p] Node.prems by (auto simp: sorted_wrt_append)
  have sorted: "\<forall>x \<in> set (nodes l). pkey kf s x < pkey kf s p" "\<forall>x \<in> set (nodes r). pkey kf s p < pkey kf s x"
    using Node.prems(4) by (auto simp: sorted_wrt_append)
  have unf: "find_loop fns s k p = (if compare fns k (key e) < 0 then find_loop fns s k (root_of l)
      else if compare fns k (key e) > 0 then find_loop fns s k (root_of r) else Some p)"
    using p e(1) by (subst find_loop.simps) simp
  consider "kf k < kf (key e)" | "kf k > kf (key e)" | "kf k = kf (key e)" by force
  then show ?case
  proof cases
    case 1
    then have "find_loop fns s k (root_of (Node l c p r)) = find_loop fns s k (root_of l)"
      using unf compare_less [OF Node.prems(3) e(2)] by simp
    moreover have "kf k \<notin> pkey kf s ` set (nodes r)" "kf k \<noteq> pkey kf s p" using 1 sorted(2) p(1) by auto
    moreover obtain x where "find_loop fns s k (root_of l) = Some x" "found kf s k l x" using l by blast
    ultimately show ?thesis by (intro exI [of _ x]) (auto simp: found_def)
  next
    case 2
    then have "find_loop fns s k (root_of (Node l c p r)) = find_loop fns s k (root_of r)"
      using unf compare_less [OF Node.prems(3) e(2)] compare_greater [OF Node.prems(3) e(2)] by simp
    moreover have "kf k \<notin> pkey kf s ` set (nodes l)" "kf k \<noteq> pkey kf s p" using 2 sorted(1) p(1) by auto
    moreover obtain x where "find_loop fns s k (root_of r) = Some x" "found kf s k r x" using r by blast
    ultimately show ?thesis by (intro exI [of _ x]) (auto simp: found_def)
  next
    case 3
    then show ?thesis
      using unf compare_less [OF Node.prems(3) e(2)] compare_greater [OF Node.prems(3) e(2)] p by (simp add: found_def)
  qed
qed

lemma find_entry_tree:
  assumes "map_tree kf D s T" "D k"
  shows "\<exists>p. find_entry fns s k = Some p \<and> found kf s k T p"
  using find_loop_tree [of s NULL T k] assms by (auto simp: map_tree_def find_entry_def repr_def)

end

section \<open>Correctness of the operations\<close>

text \<open>The keys around a place are smaller and greater than \<open>k\<close>.\<close>

definition between :: "(voidp \<Rightarrow> 'k :: linorder) \<Rightarrow> map_t \<Rightarrow> voidp \<Rightarrow> ctx \<Rightarrow> bool" where
  "between kf s k ctx \<longleftrightarrow> (\<forall>x \<in> set (after L ctx). pkey kf s x < kf k) \<and> (\<forall>x \<in> set (after R ctx). kf k < pkey kf s x)"

lemma nodes_around: "nodes (fill ctx t) = rev (after L ctx) @ nodes t @ after R ctx"
  using order_fill [of R ctx t] by (simp add: order_def)

lemma read_link_place: "at_place st ctx t \<Longrightarrow> read_link st (ctx_link ctx) = Some (root_of t)"
  by (cases ctx) (auto simp: read_link_def at_place_def)

context key_order
begin

lemma locate_place:
  assumes "at_place (tree s) ctx t" "\<forall>p \<in> set (nodes t). \<exists>e. entries s p = Some e \<and> D (key e)" "D k"
    "sorted_wrt (<) (map (pkey kf s) (nodes t))" "between kf s k ctx" "\<And>k1 k2. cmp k1 k2 = Some (compare fns k1 k2)"
  shows "(\<exists>ctx'. locate cmp s k (ctx_link ctx) (par ctx) = Some (NULL, ctx_link ctx', par ctx') \<and> fill ctx' Leaf = fill ctx t
      \<and> between kf s k ctx')
    \<or> (\<exists>p l. locate cmp s k (ctx_link ctx) (par ctx) = Some (p, l, p) \<and> p \<noteq> NULL \<and> p \<in> set (nodes t) \<and> pkey kf s p = kf k)"
  using assms
proof (induction t arbitrary: ctx)
  case Leaf
  then have "locate cmp s k (ctx_link ctx) (par ctx) = Some (NULL, ctx_link ctx, par ctx)"
    using read_link_place [OF Leaf.prems(1)] by (subst locate.simps) simp
  then show ?case using Leaf.prems(5) by blast
next
  case (Node l c p r)
  obtain e where e: "entries s p = Some e" "D (key e)" using Node.prems(2) by auto
  have p: "pkey kf s p = kf (key e)" "p \<noteq> NULL" using Node.prems(1) e by (auto simp: pkey_def at_place_def)
  have pl: "at_place (tree s) ((L, c, p, r) # ctx) l" "at_place (tree s) ((R, c, p, l) # ctx) r"
    using Node.prems(1) place_mk [of "tree s" ctx L c p l r] by simp_all
  have sorted: "\<forall>x \<in> set (nodes l). pkey kf s x < pkey kf s p" "\<forall>x \<in> set (nodes r). pkey kf s p < pkey kf s x"
    "sorted_wrt (<) (map (pkey kf s) (nodes l))" "sorted_wrt (<) (map (pkey kf s) (nodes r))"
    using Node.prems(4) by (auto simp: sorted_wrt_append)
  have unf: "locate cmp s k (ctx_link ctx) (par ctx) = (if compare fns k (key e) < 0 then locate cmp s k (Child_link p L) p
      else if compare fns k (key e) > 0 then locate cmp s k (Child_link p R) p else Some (p, ctx_link ctx, p))"
    using read_link_place [OF Node.prems(1)] p(2) e(1) Node.prems(6) by (subst locate.simps) simp
  note cmp = compare_less [OF Node.prems(3) e(2)] compare_greater [OF Node.prems(3) e(2)]
  consider "kf k < kf (key e)" | "kf k > kf (key e)" | "kf k = kf (key e)" by force
  then show ?case
  proof cases
    case 1
    then have "between kf s k ((L, c, p, r) # ctx)"
      using sorted(2) p(1) Node.prems(5) by (auto simp: between_def order_def)
    with Node.IH(1) [OF pl(1) _ Node.prems(3) sorted(3) _ Node.prems(6)] Node.prems(2) show ?thesis
      using unf cmp 1 by simp blast
  next
    case 2
    then have "between kf s k ((R, c, p, l) # ctx)"
      using sorted(1) p(1) Node.prems(5) by (auto simp: between_def order_def)
    with Node.IH(2) [OF pl(2) _ Node.prems(3) sorted(4) _ Node.prems(6)] Node.prems(2) show ?thesis
      using unf cmp 2 by simp blast
  next
    case 3
    then show ?thesis using unf cmp p by auto
  qed
qed

lemma locate_tree:
  assumes "map_tree kf D s T" "D k" "\<And>k1 k2. cmp k1 k2 = Some (compare fns k1 k2)"
  shows "(\<exists>ctx. locate cmp s k Root_link NULL = Some (NULL, ctx_link ctx, par ctx) \<and> fill ctx Leaf = T \<and> between kf s k ctx)
    \<or> (\<exists>p l. locate cmp s k Root_link NULL = Some (p, l, p) \<and> p \<noteq> NULL \<and> p \<in> set (nodes T) \<and> pkey kf s p = kf k)"
  using locate_place [of s "[]" T k cmp] assms repr_fill [of "tree s" "[]" T] by (simp add: map_tree_def between_def)

lemma insert_new_holds:
  assumes T: "map_tree kf D s (fill ctx Leaf)" and k: "D k" "between kf s k ctx"
    and fresh: "alloc fns (calls s) \<noteq> NULL" "entries s (alloc fns (calls s)) = None"
  shows "\<exists>s'. insert_new fns k v a (ctx_link ctx) (par ctx) s = Some (alloc fns (calls s), s') \<and> freed s' = freed s
    \<and> map_holds kf D s' ((map_of (map (\<lambda>p. (pkey kf s p, pval s p)) (nodes (fill ctx Leaf))))(kf k \<mapsto> copied_val fns v s))"
proof -
  let ?p = "alloc fns (calls s)" and ?A = "rev (after L ctx)" and ?B = "after R ctx"
  have Tp: "repr (tree s) (fill ctx Leaf)" "rbt (fill ctx Leaf)" "?p \<notin> set (nodes (fill ctx Leaf))"
    using T fresh(2) unfolding map_tree_def by (blast, blast, metis option.distinct(1))
  have ns: "nodes (fill ctx Leaf) = ?A @ ?B" by (simp add: nodes_around)
  obtain t' T' where t': "(rb_link_node ?p (par ctx) (ctx_link ctx) (tree s) \<bind> rb_insert_color ?p) = Some t'" "repr t' T'" "rbt T'"
      "nodes T' = ?A @ ?p # ?B"
    using rb_insert_correct [OF Tp fresh(1)] by (auto simp: nodes_around)
  define e where "e = \<lparr>key = (case copy_key fns of Some f \<Rightarrow> f (calls s) k | None \<Rightarrow> k), val = copied_val fns v s, free_val_alt = a\<rparr>"
  define s' where "s' = s\<lparr>entries := (entries s)(?p \<mapsto> e), calls := calls s + 1, tree := t', map_size := map_size s + 1\<rparr>"
  have e: "D (key e)" "kf (key e) = kf k" using copy_same k(1) by (auto simp: e_def split: option.split)
  have op: "insert_new fns k v a (ctx_link ctx) (par ctx) s = Some (?p, s')"
    using t'(1) fresh by (auto simp: insert_new_def new_entry_def Let_def s'_def e_def copied_val_def split: bind_splits)
  have old: "\<forall>x \<in> set ?A \<union> set ?B. pkey kf s' x = pkey kf s x \<and> pval s' x = pval s x"
    using Tp(3) ns by (auto simp: pkey_def pval_def s'_def)
  have new: "pkey kf s' ?p = kf k" "pval s' ?p = copied_val fns v s"
    using e(2) by (simp_all add: pkey_def pval_def s'_def) (simp add: e_def)
  have "sorted_wrt (<) (map (pkey kf s) ?A)" "sorted_wrt (<) (map (pkey kf s) ?B)"
    using T ns by (auto simp: map_tree_def sorted_wrt_append)
  moreover have "map (pkey kf s') ?A = map (pkey kf s) ?A" "map (pkey kf s') ?B = map (pkey kf s) ?B" using old by (simp_all only: map_eq_conv Un_iff, blast+)
  ultimately have so: "sorted_wrt (<) (map (pkey kf s') ?A)" "sorted_wrt (<) (map (pkey kf s') ?B)" by metis+
  have lt: "\<forall>x \<in> set ?A. pkey kf s' x < kf k" "\<forall>x \<in> set ?B. kf k < pkey kf s' x"
    using k(2) old by (simp_all add: between_def)
  have "sorted_wrt (<) (map (pkey kf s') (?A @ ?p # ?B))"
    using so lt new(1) unfolding map_append list.map sorted_wrt_append sorted_wrt.simps
    by (metis (no_types, lifting) image_iff image_set less_trans list.set(2) insert_iff)
  moreover have "\<forall>p \<in> set (nodes T'). \<exists>e. entries s' p = Some e \<and> D (key e)"
    using T e(1) ns t'(4) by (auto simp: map_tree_def s'_def)
  moreover have "map_size s' = int (length (nodes T'))" using T ns t'(4) by (simp add: map_tree_def s'_def)
  ultimately have "map_tree kf D s' T'" using t'(2-4) by (simp add: map_tree_def) (simp add: s'_def)
  moreover have "map_of (map (\<lambda>p. (pkey kf s' p, pval s' p)) (nodes T'))
      = (map_of (map (\<lambda>p. (pkey kf s' p, pval s' p)) (?A @ ?B)))(kf k \<mapsto> copied_val fns v s)"
    using map_of_split(1) [of "pkey kf s'" ?A ?p ?B "pval s'"] \<open>sorted_wrt (<) (map (pkey kf s') (?A @ ?p # ?B))\<close> t'(4) new by simp
  moreover have "map_of (map (\<lambda>p. (pkey kf s' p, pval s' p)) (?A @ ?B)) = map_of (map (\<lambda>p. (pkey kf s p, pval s p)) (?A @ ?B))"
    by (rule map_of_cong) (use old in auto)
  ultimately have "map_holds kf D s' ((map_of (map (\<lambda>p. (pkey kf s p, pval s p)) (nodes (fill ctx Leaf))))(kf k \<mapsto> copied_val fns v s))"
    unfolding map_holds_def ns by metis
  moreover have "freed s' = freed s" by (simp add: s'_def)
  ultimately show ?thesis using op by blast
qed

end

text \<open>A new value for an entry.\<close>

lemma map_tree_update:
  assumes T: "map_tree kf D s T" and p: "p \<in> set (nodes T)" "entries s p = Some e" "key e' = key e"
    and s': "entries s' = (entries s)(p \<mapsto> e')" "tree s' = tree s" "map_size s' = map_size s"
  shows "map_holds kf D s' ((map_of (map (\<lambda>p. (pkey kf s p, pval s p)) (nodes T)))(pkey kf s p \<mapsto> val e'))"
proof -
  have key: "pkey kf s' = pkey kf s" by (rule ext) (use p s' in \<open>simp add: pkey_def\<close>)
  then have "map_tree kf D s' T" using T p s'(1) unfolding map_tree_def key s'(2,3) by auto
  obtain A B where AB: "nodes T = A @ p # B" using p(1) by (meson split_list)
  have "distinct (nodes T)" using T by (simp add: map_tree_def repr_def)
  then have val: "\<forall>x \<in> set (A @ B). pval s' x = pval s x" "pval s' p = val e'"
    using AB s'(1) by (auto simp: pval_def)
  have so: "sorted_wrt (<) (map (pkey kf s) (A @ p # B))" using T AB by (simp add: map_tree_def)
  have "map_of (map (\<lambda>p. (pkey kf s' p, pval s' p)) (nodes T)) = (map_of (map (\<lambda>p. (pkey kf s p, pval s p)) (A @ B)))(pkey kf s p \<mapsto> val e')"
    unfolding key AB map_of_split(1) [OF so] val(2)
    using map_of_cong [of "A @ B" "pkey kf s" "pkey kf s" "pval s'" "pval s"] val(1) by simp
  also have "\<dots> = (map_of (map (\<lambda>p. (pkey kf s p, pval s p)) (nodes T)))(pkey kf s p \<mapsto> val e')"
    unfolding AB map_of_split(1) [OF so] by simp
  finally show ?thesis using \<open>map_tree kf D s' T\<close> unfolding map_holds_def by (intro exI [of _ T] conjI) simp_all
qed

lemma map_tree_node: "map_tree kf D s T \<Longrightarrow> p \<in> set (nodes T) \<Longrightarrow> \<exists>e. entries s p = Some e \<and> pval s p = val e
    \<and> map_of (map (\<lambda>p. (pkey kf s p, pval s p)) (nodes T)) (pkey kf s p) = Some (val e)"
  using map_of_node [of p "nodes T" "pkey kf s" "pval s"] by (fastforce simp: map_tree_def pval_def)

lemma map_tree_no_node: "kf k \<notin> pkey kf s ` set (nodes T) \<Longrightarrow> map_of (map (\<lambda>p. (pkey kf s p, pval s p)) (nodes T)) (kf k) = None"
  by (auto simp: map_of_eq_None_iff image_iff)

lemma between_no_node: "between kf s k ctx \<Longrightarrow> kf k \<notin> pkey kf s ` set (nodes (fill ctx Leaf))"
  by (auto simp: between_def nodes_around)

context key_order
begin

text \<open>A search gives the entry of the key, or NULL when the map has none.\<close>

lemma find_holds:
  assumes "map_holds kf D s M" "D k"
  shows "\<exists>p. find_entry fns s k = Some p \<and> (case M (kf k) of None \<Rightarrow> p = NULL
      | Some v \<Rightarrow> p \<noteq> NULL \<and> (\<exists>e. entries s p = Some e \<and> kf (key e) = kf k \<and> val e = v))"
proof -
  obtain T where T: "map_tree kf D s T" and M: "M = map_of (map (\<lambda>p. (pkey kf s p, pval s p)) (nodes T))"
    using assms(1) by (auto simp: map_holds_def)
  obtain p where p: "find_entry fns s k = Some p" "found kf s k T p" using find_entry_tree [OF T assms(2)] by blast
  show ?thesis
  proof (cases "p = NULL")
    case True
    then show ?thesis using p map_tree_no_node [of kf k s T] M by (simp add: found_def)
  next
    case False
    then obtain e where "entries s p = Some e" "M (kf k) = Some (val e)"
      using p(2) map_tree_node [OF T, of p] M by (auto simp: found_def)
    then show ?thesis using p False by (auto simp: found_def pkey_def)
  qed
qed

lemma insert_ex2_holds:
  assumes "map_holds kf D s M" "D k" "alloc fns (calls s) \<noteq> NULL" "entries s (alloc fns (calls s)) = None"
  shows "\<exists>p s'. map_insert_ex2 fns k v a s = Some (p, s') \<and> p \<noteq> NULL \<and> map_holds kf D s' (M(kf k \<mapsto> copied_val fns v s))
    \<and> freed s' = freed s @ (case M (kf k) of None \<Rightarrow> [] | Some old \<Rightarrow> if free_val fns then [Free_val old] else [])"
proof -
  obtain T where T: "map_tree kf D s T" and M: "M = map_of (map (\<lambda>p. (pkey kf s p, pval s p)) (nodes T))"
    using assms(1) by (auto simp: map_holds_def)
  show ?thesis using locate_tree [where cmp = "\<lambda>k1 k2. Some (compare fns k1 k2)", OF T assms(2) refl]
  proof (elim disjE exE conjE)
    fix ctx assume l: "locate (\<lambda>k1 k2. Some (compare fns k1 k2)) s k Root_link NULL = Some (NULL, ctx_link ctx, par ctx)"
      and ctx: "fill ctx Leaf = T" "between kf s k ctx"
    have "M (kf k) = None" using map_tree_no_node [OF between_no_node [OF ctx(2)]] ctx(1) M by simp
    moreover obtain s' where new: "insert_new fns k v a (ctx_link ctx) (par ctx) s = Some (alloc fns (calls s), s')" "freed s' = freed s"
        "map_holds kf D s' (M(kf k \<mapsto> copied_val fns v s))"
      using insert_new_holds [OF T [folded ctx(1)] assms(2) ctx(2) assms(3,4), of v a] M ctx(1) by blast
    ultimately show ?thesis
      using new l assms(3) by (simp add: map_insert_ex2_def)
  next
    fix p l assume l: "locate (\<lambda>k1 k2. Some (compare fns k1 k2)) s k Root_link NULL = Some (p, l, p)"
      and p: "p \<noteq> NULL" "p \<in> set (nodes T)" "pkey kf s p = kf k"
    obtain e where e: "entries s p = Some e" "M (kf k) = Some (val e)" using map_tree_node [OF T p(2)] M p(3) by auto
    show ?thesis
      using l p e map_tree_update [OF T p(2) e(1), of "e\<lparr>val := copied_val fns v s\<rparr>"] M by (simp add: map_insert_ex2_def)
  qed
qed

lemma find_replace_or_insert_holds:
  assumes "map_holds kf D s M" "D k" "alloc fns (calls s) \<noteq> NULL" "entries s (alloc fns (calls s)) = None" "comp_key fns \<noteq> None"
  shows "\<exists>s'. map_find_replace_or_insert fns k v a s = Some (0, s') \<and> map_holds kf D s' (M(kf k \<mapsto> copied_val fns v s))
    \<and> (case M (kf k) of None \<Rightarrow> freed s' = freed s
        | Some old \<Rightarrow> \<exists>e p. entries s p = Some e \<and> kf (key e) = kf k \<and> val e = old \<and> freed s' = freed s @ free_value fns e)"
proof -
  obtain T where T: "map_tree kf D s T" and M: "M = map_of (map (\<lambda>p. (pkey kf s p, pval s p)) (nodes T))"
    using assms(1) by (auto simp: map_holds_def)
  let ?cmp = "\<lambda>k1 k2. map_option (\<lambda>f. f k1 k2) (comp_key fns)"
  have cmp: "?cmp k1 k2 = Some (compare fns k1 k2)" for k1 k2 using assms(5) by (auto simp: compare_def)
  show ?thesis using locate_tree [OF T assms(2) cmp]
  proof (elim disjE exE conjE)
    fix ctx assume l: "locate ?cmp s k Root_link NULL = Some (NULL, ctx_link ctx, par ctx)"
      and ctx: "fill ctx Leaf = T" "between kf s k ctx"
    have "M (kf k) = None" using map_tree_no_node [OF between_no_node [OF ctx(2)]] ctx(1) M by simp
    moreover obtain s' where new: "insert_new fns k v a (ctx_link ctx) (par ctx) s = Some (alloc fns (calls s), s')" "freed s' = freed s"
        "map_holds kf D s' (M(kf k \<mapsto> copied_val fns v s))"
      using insert_new_holds [OF T [folded ctx(1)] assms(2) ctx(2) assms(3,4), of v a] M ctx(1) by blast
    ultimately show ?thesis
      using new l by (simp add: map_find_replace_or_insert_def)
  next
    fix p l assume l: "locate ?cmp s k Root_link NULL = Some (p, l, p)"
      and p: "p \<noteq> NULL" "p \<in> set (nodes T)" "pkey kf s p = kf k"
    obtain e where e: "entries s p = Some e" "M (kf k) = Some (val e)" using map_tree_node [OF T p(2)] M p(3) by auto
    then have "kf (key e) = kf k" using p(3) by (simp add: pkey_def)
    then show ?thesis
      using l p e map_tree_update [OF T p(2) e(1), of "e\<lparr>val := copied_val fns v s, free_val_alt := a\<rparr>"] M
      by (simp add: map_find_replace_or_insert_def) blast
  qed
qed

lemma replace_holds:
  assumes "map_holds kf D s M" "D k"
  shows "\<exists>r s'. map_replace fns k v a s = Some (r, s') \<and> r = (if M (kf k) = None then - 1 else 0)
    \<and> map_holds kf D s' (if M (kf k) = None \<or> M (kf k) = Some v then M else M(kf k \<mapsto> copied_val fns v s))"
proof -
  obtain T where T: "map_tree kf D s T" and M: "M = map_of (map (\<lambda>p. (pkey kf s p, pval s p)) (nodes T))"
    using assms(1) by (auto simp: map_holds_def)
  obtain p where p: "find_entry fns s k = Some p" "found kf s k T p" using find_entry_tree [OF T assms(2)] by blast
  show ?thesis
  proof (cases "p = NULL")
    case True
    then show ?thesis using p map_tree_no_node [of kf k s T] M assms(1) by (simp add: found_def map_replace_def)
  next
    case False
    have pT: "p \<in> set (nodes T)" "pkey kf s p = kf k" using p(2) False by (simp_all add: found_def)
    obtain e where e: "entries s p = Some e" "M (kf k) = Some (val e)" using map_tree_node [OF T pT(1)] M pT(2) by auto
    show ?thesis
      using p(1) False e pT(2) assms(1) map_tree_update [OF T pT(1) e(1), of "e\<lparr>val := copied_val fns v s, free_val_alt := a\<rparr>"] M
      by (auto simp: map_replace_def)
  qed
qed

end

section \<open>Deletion of entries\<close>

text \<open>The free calls for an entry, and the state without some entries.\<close>

definition entry_frees :: "map_fns \<Rightarrow> map_t \<Rightarrow> ptr \<Rightarrow> free_call list" where
  "entry_frees fns s p = (let e = the (entries s p) in (if free_key fns then [Free_key (key e)] else []) @ free_value fns e)"

fun preorder :: "ptree \<Rightarrow> ptr list" where
  "preorder Leaf = []"
| "preorder (Node l c p r) = p # preorder l @ preorder r"

definition without :: "ptr set \<Rightarrow> free_call list \<Rightarrow> map_t \<Rightarrow> map_t" where
  "without V fs s = s\<lparr>tree := (\<lambda>x. if x \<in> V then None else fst (tree s) x, snd (tree s)),
     entries := (\<lambda>x. if x \<in> V then None else entries s x), freed := freed s @ fs\<rparr>"

lemma set_preorder: "set (preorder t) = set (nodes t)"
  by (induction t) auto

lemma distinct_preorder: "distinct (nodes t) \<Longrightarrow> distinct (preorder t)"
  by (induction t) (auto simp: set_preorder)

lemma frees_without: "set (nodes t) \<inter> V = {} \<Longrightarrow>
  map (entry_frees fns (without V fs s)) (preorder t) = map (entry_frees fns s) (preorder t)"
  by (auto simp: entry_frees_def without_def set_preorder)

lemma without_without: "without V fs (without W gs s) = without (W \<union> V) (gs @ fs) s"
  by (auto simp: without_def fun_eq_iff)

lemma clear_node_tree:
  assumes "tree_at (fst (tree s)) q t" "distinct (nodes t)" "\<forall>p \<in> set (nodes t). \<exists>e. entries s p = Some e"
  shows "clear_node fns (root_of t) s = Some (without (set (nodes t)) (concat (map (entry_frees fns s) (preorder t))) s)"
  using assms
proof (induction t arbitrary: s q)
  case Leaf
  then show ?case by (subst clear_node.simps) (simp add: without_def)
next
  case (Node l c p r)
  obtain e where e: "entries s p = Some e" using Node.prems(3) by auto
  define s1 where "s1 = without {} (entry_frees fns s p) s"
  define s2 where "s2 = without (set (nodes l)) (concat (map (entry_frees fns s1) (preorder l))) s1"
  define s3 where "s3 = without (set (nodes r)) (concat (map (entry_frees fns s2) (preorder r))) s2"
  have at: "fst (tree s) p = Some (mkn L c q (root_of l) (root_of r))" "tree_at (fst (tree s)) p l" "tree_at (fst (tree s)) p r"
      "p \<noteq> NULL" "p \<notin> set (nodes l)" "p \<notin> set (nodes r)" "set (nodes l) \<inter> set (nodes r) = {}"
    using Node.prems by auto
  have s1: "s\<lparr>freed := freed s @ (if free_key fns then [Free_key (key e)] else []) @ free_value fns e\<rparr> = s1"
    by (simp add: s1_def without_def entry_frees_def e)
  have l: "clear_node fns (root_of l) s1 = Some s2"
    unfolding s2_def by (rule Node.IH(1)) (use Node.prems in \<open>auto simp: s1_def without_def\<close>)
  have "tree_at (fst (tree s2)) p r = tree_at (fst (tree s)) p r"
    by (rule tree_at_cong) (use at(7) in \<open>auto simp: s2_def s1_def without_def\<close>)
  then have r: "clear_node fns (root_of r) s2 = Some s3"
    unfolding s3_def by (intro Node.IH(2)) (use Node.prems at(3,7) in \<open>auto simp: s2_def s1_def without_def\<close>)
  have "clear_node fns p s = Some (without {p} [] s3)"
    using at e s1 l r by (subst clear_node.simps) (auto simp: s2_def s1_def without_def fun_eq_iff)
  also have "without {p} [] s3 = without (set (nodes (Node l c p r))) (concat (map (entry_frees fns s) (preorder (Node l c p r)))) s"
    unfolding s3_def s2_def s1_def without_without using at(5-7)
    by (subst frees_without, blast)+ (simp add: insert_commute Un_commute)
  finally show ?case by simp
qed

lemma tree_at_without: "set (nodes t) \<inter> V = {} \<Longrightarrow> tree_at (fst (tree (without V fs s))) q t = tree_at (fst (tree s)) q t"
  by (rule tree_at_cong) (auto simp: without_def)

text \<open>\<open>erase_entry\<close> takes one entry out of the tree and frees it.\<close>

lemma erase_entry_tree:
  assumes T: "map_tree kf D s T" and p: "p \<in> set (nodes T)"
  shows "\<exists>s'. erase_entry fns p s = Some s' \<and> freed s' = freed s @ entry_frees fns s p \<and> entries s' p = None
    \<and> map_holds kf D s' ((map_of (map (\<lambda>p. (pkey kf s p, pval s p)) (nodes T)))(pkey kf s p := None))"
proof -
  obtain t' T' n where t': "rb_erase p (tree s) = Some t'" "repr t' T'" "rbt T'" "nodes T' = remove1 p (nodes T)"
      "fst t' p = Some n" "rb_left n = NULL" "rb_right n = NULL"
    using rb_erase_correct [of "tree s" T p] T p by (auto simp: map_tree_def)
  obtain e where e: "entries s p = Some e" using T p by (auto simp: map_tree_def)
  obtain A B where AB: "nodes T = A @ p # B" using p by (meson split_list)
  have dis: "distinct (nodes T)" "NULL \<notin> set (nodes T)" using T NULL_notin_nodes by (auto simp: map_tree_def repr_def)
  then have ns: "nodes T' = A @ B" "p \<notin> set (nodes T')" "p \<noteq> NULL" using AB t'(4) p by (auto simp: remove1_append)
  define s1 where "s1 = s\<lparr>tree := t'\<rparr>"
  define s2 where "s2 = without {p} (entry_frees fns s p) s1"
  define s' where "s' = s2\<lparr>map_size := map_size s - 1\<rparr>"
  have "clear_node fns p s1 = Some s2"
    using e t'(5-7) ns(3) clear_node.simps [of fns NULL]
    by (subst clear_node.simps) (auto simp: s2_def s1_def without_def entry_frees_def fun_eq_iff)
  then have op: "erase_entry fns p s = Some s'" using t'(1) by (simp add: erase_entry_def s1_def s'_def s2_def without_def)
  have key: "pkey kf s' x = pkey kf s x \<and> pval s' x = pval s x \<and> entries s' x = entries s x" if "x \<noteq> p" for x
    using that by (simp add: pkey_def pval_def s'_def s2_def s1_def without_def)
  have kept: "\<forall>x \<in> set (A @ B). pkey kf s' x = pkey kf s x \<and> pval s' x = pval s x" using key ns(1,2) by metis
  have keys: "map (pkey kf s') (A @ B) = map (pkey kf s) (A @ B)"
    unfolding map_eq_conv using kept by blast
  have so: "sorted_wrt (<) (map (pkey kf s) (A @ p # B))" using T AB by (simp add: map_tree_def)
  then have "sorted_wrt (<) (map (pkey kf s') (A @ B))" unfolding keys by (simp add: sorted_wrt_append)
  moreover have "repr (tree s') T'"
    using t'(2) ns(2) tree_at_without [of T' "{p}" "entry_frees fns s p" s1]
    by (simp add: repr_def s'_def s2_def) (simp add: s1_def without_def)
  moreover have "\<forall>x \<in> set (nodes T'). \<exists>e. entries s' x = Some e \<and> D (key e)"
  proof
    fix x assume x: "x \<in> set (nodes T')"
    then have "x \<noteq> p" "x \<in> set (nodes T)" using ns AB by auto
    then show "\<exists>e. entries s' x = Some e \<and> D (key e)" using T key by (simp add: map_tree_def)
  qed
  moreover have "map_size s' = int (length (nodes T'))" using T AB ns(1) by (simp add: map_tree_def s'_def)
  ultimately have "map_tree kf D s' T'" using t'(3) ns(1) by (simp add: map_tree_def)
  moreover have "map_of (map (\<lambda>p. (pkey kf s' p, pval s' p)) (nodes T')) = map_of (map (\<lambda>p. (pkey kf s p, pval s p)) (A @ B))"
    unfolding ns(1) by (rule map_of_cong) (rule kept)
  moreover have "(map_of (map (\<lambda>p. (pkey kf s p, pval s p)) (A @ p # B)))(pkey kf s p := None)
      = map_of (map (\<lambda>p. (pkey kf s p, pval s p)) (A @ B))"
    unfolding map_of_split(1) [OF so] fun_upd_upd by (rule fun_upd_idem) (rule map_of_split(2) [OF so])
  ultimately have "map_holds kf D s' ((map_of (map (\<lambda>p. (pkey kf s p, pval s p)) (nodes T)))(pkey kf s p := None))"
    unfolding map_holds_def AB by (intro exI [of _ T'] conjI) simp_all
  moreover have "freed s' = freed s @ entry_frees fns s p" "entries s' p = None" by (simp_all add: s'_def s2_def s1_def without_def)
  ultimately show ?thesis using op by blast
qed

text \<open>\<open>map_clear\<close> frees every entry once and leaves the empty map.\<close>

lemma map_clear_tree:
  assumes T: "map_tree kf D s T"
  shows "\<exists>s'. map_clear fns s = Some s' \<and> map_holds kf D s' (\<lambda>_. None) \<and> map_size s' = 0
    \<and> freed s' = freed s @ concat (map (entry_frees fns s) (preorder T)) \<and> (\<forall>p \<in> set (nodes T). entries s' p = None)"
proof -
  have t: "tree_at (fst (tree s)) NULL T" "distinct (nodes T)" "\<forall>p \<in> set (nodes T). \<exists>e. entries s p = Some e" "snd (tree s) = root_of T"
    using T by (auto simp: map_tree_def repr_def)
  let ?s = "without (set (nodes T)) (concat (map (entry_frees fns s) (preorder T))) s"
  let ?s' = "?s\<lparr>tree := (fst (tree ?s), NULL), map_size := 0\<rparr>"
  have "map_clear fns s = Some ?s'" using clear_node_tree [OF t(1-3), of fns] t(4) by (simp add: map_clear_def)
  moreover have "map_tree kf D ?s' Leaf" by (simp add: map_tree_def repr_def rbt_def)
  then have "map_holds kf D ?s' (\<lambda>_. None)" unfolding map_holds_def by (intro exI [of _ Leaf]) simp
  ultimately show ?thesis by (auto simp: without_def)
qed

context key_order
begin

lemma erase_holds:
  assumes "map_holds kf D s M" "D k"
  shows "\<exists>r s'. map_erase fns k s = Some (r, s') \<and> r = (if M (kf k) = None then - 1 else 0) \<and> map_holds kf D s' (M(kf k := None))
    \<and> (case M (kf k) of None \<Rightarrow> freed s' = freed s
        | Some v \<Rightarrow> \<exists>p e. entries s p = Some e \<and> kf (key e) = kf k \<and> val e = v \<and> freed s' = freed s @ entry_frees fns s p)"
proof -
  obtain T where T: "map_tree kf D s T" and M: "M = map_of (map (\<lambda>p. (pkey kf s p, pval s p)) (nodes T))"
    using assms(1) by (auto simp: map_holds_def)
  obtain p where p: "find_entry fns s k = Some p" "found kf s k T p" using find_entry_tree [OF T assms(2)] by blast
  show ?thesis
  proof (cases "p = NULL")
    case True
    then have none: "M (kf k) = None" using p(2) map_tree_no_node [of kf k s T] M by (simp add: found_def)
    then have "M(kf k := None) = M" by auto
    then show ?thesis using p(1) True none assms(1) by (simp add: map_erase_def)
  next
    case False
    have pT: "p \<in> set (nodes T)" "pkey kf s p = kf k" using p(2) False by (simp_all add: found_def)
    obtain e where e: "entries s p = Some e" "M (kf k) = Some (val e)" using map_tree_node [OF T pT(1)] M pT(2) by auto
    obtain s' where s': "erase_entry fns p s = Some s'" "freed s' = freed s @ entry_frees fns s p" "map_holds kf D s' (M(kf k := None))"
      using erase_entry_tree [OF T pT(1), of fns] M pT(2) by auto
    have "map_erase fns k s = Some (0, s')" using p(1) False s'(1) by (simp add: map_erase_def)
    moreover have "kf (key e) = kf k" using pT(2) e(1) by (simp add: pkey_def)
    ultimately show ?thesis using e s'(2,3) by simp blast
  qed
qed

end

section \<open>The orders of the clients\<close>

text \<open>Without functions the keys are numbers: the difference is right for keys below \<open>2 ^ 31\<close>.\<close>

definition int_fns :: "(nat \<Rightarrow> ptr) \<Rightarrow> map_fns" where
  "int_fns al = \<lparr>copy_key = None, free_key = False, copy_val = None, free_val = False, comp_key = None, alloc = al\<rparr>"

definition small_key :: "voidp \<Rightarrow> bool" where
  "small_key k \<longleftrightarrow> k < 2 ^ 31"

lemma ucast_of_int_minus: "(ucast (a - b) :: 32 word) = word_of_int (uint a - uint b)" for a b :: "64 word"
proof -
  have "(ucast (a - b) :: 32 word) = word_of_int (uint (a - b))" by (rule ucast_eq)
  also have "uint (a - b) = take_bit 64 (uint a - uint b)" by (simp only: uint_word_ariths take_bit_eq_mod) simp
  also have "(word_of_int (take_bit 64 (uint a - uint b)) :: 32 word) = word_of_int (uint a - uint b)"
    by (rule word_of_int_eq_iff [THEN iffD2]) simp
  finally show ?thesis .
qed

lemma compare_small:
  assumes "small_key k1" "small_key k2"
  shows "compare (int_fns al) k1 k2 = uint k1 - uint k2"
proof -
  have "uint k1 < 2 ^ 31" "uint k2 < 2 ^ 31" using assms by (simp_all add: small_key_def word_less_def)
  then have "- (2 ^ 31) \<le> uint k1 - uint k2" "uint k1 - uint k2 < 2 ^ 31" using uint_ge_0 [of k1] uint_ge_0 [of k2] by linarith+
  then have "sint (word_of_int (uint k1 - uint k2) :: 32 word) = uint k1 - uint k2"
    unfolding sint_sbintrunc' by (intro signed_take_bit_int_eq_self) simp_all
  then show ?thesis unfolding compare_def int_fns_def map_fns.simps option.case ucast_of_int_minus .
qed

interpretation int_keys: key_order "int_fns al" uint small_key for al
  by unfold_locales (simp_all add: compare_small word_less_def, simp add: int_fns_def)

text \<open>The map of strings: \<open>copy_key_string\<close>, \<open>free_key_string\<close>, \<open>comp_key_string\<close>; \<open>str\<close> gives the string at an
  address and \<open>dup\<close> the address that a call of \<open>strdup\<close> returns.\<close>

fun strcmp :: "8 word list \<Rightarrow> 8 word list \<Rightarrow> int" where
  "strcmp [] [] = 0"
| "strcmp [] (b # bs) = - uint b"
| "strcmp (a # as) [] = uint a"
| "strcmp (a # as) (b # bs) = (if a = b then strcmp as bs else uint a - uint b)"

definition string_fns :: "(voidp \<Rightarrow> 8 word list) \<Rightarrow> (nat \<Rightarrow> voidp \<Rightarrow> voidp) \<Rightarrow> bool \<Rightarrow> (nat \<Rightarrow> ptr) \<Rightarrow> map_fns" where
  "string_fns str dup fv al = \<lparr>copy_key = Some dup, free_key = True, copy_val = None, free_val = fv,
     comp_key = Some (\<lambda>k1 k2. strcmp (str k1) (str k2)), alloc = al\<rparr>"

definition string_key :: "(voidp \<Rightarrow> 8 word list) \<Rightarrow> voidp \<Rightarrow> bool" where
  "string_key str k \<longleftrightarrow> 0 \<notin> set (str k)"

lemma strcmp_less:
  assumes "0 \<notin> set as" "0 \<notin> set bs"
  shows "(strcmp as bs < 0 \<longleftrightarrow> as < bs) \<and> (strcmp as bs > 0 \<longleftrightarrow> as > bs)"
  using assms
proof (induction as bs rule: strcmp.induct)
  case (2 b bs) then show ?case using word_neq_0_conv [of b] by (auto simp: word_less_def)
next
  case (3 a as) then show ?case using word_neq_0_conv [of a] by (auto simp: word_less_def)
qed (auto simp: word_less_def)

lemma string_order:
  assumes "\<And>n k. str (dup n k) = str k"
  shows "key_order (string_fns str dup fv al) str (string_key str)"
proof
  fix k1 k2 assume "string_key str k1" "string_key str k2"
  then have "0 \<notin> set (str k1)" "0 \<notin> set (str k2)" by (simp_all add: string_key_def)
  from strcmp_less [OF this]
  show "compare (string_fns str dup fv al) k1 k2 < 0 \<longleftrightarrow> str k1 < str k2" "compare (string_fns str dup fv al) k1 k2 > 0 \<longleftrightarrow> str k1 > str k2"
    by (simp_all add: compare_def string_fns_def)
qed (use assms in \<open>auto simp: string_fns_def string_key_def\<close>)

end
