(* ===== verification/MG_MapRun.thy ===== *)
theory MG_MapRun
  imports MG_Map
begin

text \<open>
  Executions of the operations of \<open>src/misc/map.c\<close> on a map with string keys, in a memory where the rest of the
  program writes too and freed addresses are handed out again: they do what the same operations do to a finite map
  from strings to values.
\<close>

section \<open>Operations in sequence\<close>

datatype map_op = Insert voidp voidp nat | Find_replace voidp voidp nat | Replace voidp voidp nat | Erase voidp | Clear

fun map_step :: "map_fns \<Rightarrow> map_op \<Rightarrow> map_t \<Rightarrow> map_t option" where
  "map_step fns (Insert k v a) s = map_option snd (map_insert_ex fns k v a s)"
| "map_step fns (Find_replace k v a) s = map_option snd (map_find_replace_or_insert fns k v a s)"
| "map_step fns (Replace k v a) s = map_option snd (map_replace fns k v a s)"
| "map_step fns (Erase k) s = map_option snd (map_erase fns k s)"
| "map_step fns Clear s = map_clear fns s"

fun abs_step :: "(voidp \<Rightarrow> 'k) \<Rightarrow> map_op \<Rightarrow> ('k \<rightharpoonup> voidp) \<Rightarrow> ('k \<rightharpoonup> voidp)" where
  "abs_step kf (Insert k v a) M = M(kf k \<mapsto> v)"
| "abs_step kf (Find_replace k v a) M = M(kf k \<mapsto> v)"
| "abs_step kf (Replace k v a) M = (if M (kf k) = None then M else M(kf k \<mapsto> v))"
| "abs_step kf (Erase k) M = M(kf k := None)"
| "abs_step kf Clear M = (\<lambda>_. None)"

fun op_key :: "map_op \<Rightarrow> voidp set" where
  "op_key (Insert k v a) = {k}"
| "op_key (Find_replace k v a) = {k}"
| "op_key (Replace k v a) = {k}"
| "op_key (Erase k) = {k}"
| "op_key Clear = {}"

section \<open>Refinement\<close>

context key_order
begin

lemma map_step_holds:
  assumes "map_holds kf D s M" "entries s (alloc fns (calls s)) = None" "alloc fns (calls s) \<noteq> NULL" "copy_val fns = None"
    "comp_key fns \<noteq> None" "\<forall>k \<in> op_key op. D k"
  shows "\<exists>s'. map_step fns op s = Some s' \<and> map_holds kf D s' (abs_step kf op M)"
proof -
  have v: "copied_val fns v s = v" for v using assms(4) by (simp add: copied_val_def)
  show ?thesis
  proof (cases op)
    case (Insert k v a)
    then obtain p s' where "map_insert_ex2 fns k v 0 s = Some (p, s')" "map_holds kf D s' (M(kf k \<mapsto> v))"
      using insert_ex2_holds [OF assms(1) _ assms(3,2), of k v 0] assms(6) v by auto
    then show ?thesis using Insert by (simp add: map_insert_ex_def)
  next
    case (Find_replace k v a)
    then obtain s' where "map_find_replace_or_insert fns k v a s = Some (0, s')" "map_holds kf D s' (M(kf k \<mapsto> v))"
      using find_replace_or_insert_holds [OF assms(1) _ assms(3,2,5), of k v a] assms(6) v by auto
    then show ?thesis using Find_replace by simp
  next
    case (Replace k v a)
    then obtain r s' where s': "map_replace fns k v a s = Some (r, s')"
        "map_holds kf D s' (if M (kf k) = None \<or> M (kf k) = Some v then M else M(kf k \<mapsto> v))"
      using replace_holds [OF assms(1), of k v a] assms(6) v Replace by (metis op_key.simps(3) singletonI)
    have "(if M (kf k) = None \<or> M (kf k) = Some v then M else M(kf k \<mapsto> v)) = abs_step kf op M"
      unfolding Replace abs_step.simps using fun_upd_idem [of M "kf k" "Some v"] by simp
    then show ?thesis using s' Replace by simp
  next
    case (Erase k)
    then show ?thesis using erase_holds [OF assms(1), of k] assms(6) by auto
  next
    case Clear
    obtain T where "map_tree kf D s T" using assms(1) by (auto simp: map_holds_def)
    then show ?thesis using map_clear_tree [of kf D s T fns] Clear by auto
  qed
qed

end

text \<open>Writing to memory does not change what a map holds if the strings of its keys stay.\<close>

lemma map_holds_memory:
  assumes "map_holds kf D s M" "\<And>p e. entries s p = Some e \<Longrightarrow> kf' (key e) = kf (key e) \<and> D' (key e) = D (key e)"
  shows "map_holds kf' D' s M"
proof -
  obtain T where T: "map_tree kf D s T" and M: "M = map_of (map (\<lambda>p. (pkey kf s p, pval s p)) (nodes T))"
    using assms(1) by (auto simp: map_holds_def)
  have same: "pkey kf' s p = pkey kf s p" if "p \<in> set (nodes T)" for p
    using T that assms(2) by (force simp: map_tree_def pkey_def)
  then have "map (pkey kf' s) (nodes T) = map (pkey kf s) (nodes T)"
    "map (\<lambda>p. (pkey kf' s p, pval s p)) (nodes T) = map (\<lambda>p. (pkey kf s p, pval s p)) (nodes T)" by simp_all
  moreover have "map_tree kf' D' s T"
    using T assms(2) unfolding map_tree_def calculation(1) by metis
  ultimately show ?thesis unfolding map_holds_def M by (intro exI [of _ T] conjI arg_cong [where f = map_of]) simp_all
qed

section \<open>Maps of numbers\<close>

theorem int_map_insert_find:
  assumes "map_holds uint small_key s M" "small_key k" "al (calls s) \<noteq> NULL" "entries s (al (calls s)) = None"
  shows "\<exists>s' p e. map_insert (int_fns al) k v s = Some (0, s') \<and> map_holds uint small_key s' (M(uint k \<mapsto> v))
    \<and> find_entry (int_fns al) s' k = Some p \<and> p \<noteq> NULL \<and> entries s' p = Some e \<and> val e = v"
proof -
  have fns: "alloc (int_fns al) = al" "copied_val (int_fns al) v s = v" by (simp_all add: int_fns_def copied_val_def)
  obtain p s' where s': "map_insert_ex2 (int_fns al) k v 0 s = Some (p, s')" "p \<noteq> NULL" "map_holds uint small_key s' (M(uint k \<mapsto> v))"
    using int_keys.insert_ex2_holds [OF assms(1,2), of al v 0] assms(3,4) unfolding fns by blast
  then show ?thesis using int_keys.find_holds [OF s'(3) assms(2), of al] by (auto simp: map_insert_def map_insert_ex_def)
qed

theorem int_map_insert_find_witness:
  "\<exists>s' p e. map_insert (int_fns Suc) 5 7 map_create = Some (0, s') \<and> map_holds uint small_key s' [uint (5 :: voidp) \<mapsto> 7]
    \<and> find_entry (int_fns Suc) s' 5 = Some p \<and> p \<noteq> NULL \<and> entries s' p = Some e \<and> val e = 7"
  by (rule int_map_insert_find [OF map_create_holds]) (simp_all add: small_key_def map_create_def)

text \<open>The insertion that replaces reads through NULL when there is no comparison function and the map is not
  empty.\<close>

theorem find_replace_without_comparison:
  assumes "comp_key fns = None" "snd (tree s) \<noteq> NULL"
  shows "map_find_replace_or_insert fns k v a s = None"
proof -
  have "locate (\<lambda>k1 k2. map_option (\<lambda>f. f k1 k2) (comp_key fns)) s k Root_link NULL = None"
    using assms by (subst locate.simps) (auto simp: read_link_def split: bind_splits)
  then show ?thesis by (simp add: map_find_replace_or_insert_def)
qed

theorem find_replace_without_comparison_witness:
  "map_find_replace_or_insert (int_fns Suc) 1 2 0 (map_create\<lparr>tree := (\<lambda>_. None, 1)\<rparr>) = None"
  by (rule find_replace_without_comparison) (simp_all add: int_fns_def)

text \<open>Two keys that differ by a multiple of \<open>2 ^ 32\<close> are equal for a map without a comparison function.\<close>

theorem compare_truncates: "compare (int_fns al) (k + 2 ^ 32) k = 0"
  unfolding compare_def int_fns_def map_fns.simps option.case by simp

section \<open>Maps of strings\<close>

text \<open>The executions. \<open>str\<close> gives the string at an address in the memory of the moment. Between two operations the
  program may write anywhere but to the keys of the entries (\<open>elsewhere\<close>), so also to the memory of freed keys. An
  operation (\<open>operate\<close>) has its own answers of \<open>mg_slice_new\<close>, which gives an address that is not NULL and where
  the map has no entry now, and of \<open>strdup\<close>, which has left a copy of the string it was given. Both say that memory
  does not run out, which the code does not test.\<close>

inductive string_map :: "bool \<Rightarrow> (voidp \<Rightarrow> 8 word list) \<Rightarrow> map_t \<Rightarrow> (8 word list \<rightharpoonup> voidp) \<Rightarrow> bool" for fv where
  create: "string_map fv str map_create (\<lambda>_. None)"
| elsewhere: "string_map fv str s M \<Longrightarrow> (\<And>p e. entries s p = Some e \<Longrightarrow> str' (key e) = str (key e)) \<Longrightarrow> string_map fv str' s M"
| operate: "string_map fv str s M \<Longrightarrow> \<forall>k \<in> op_key op. 0 \<notin> set (str k) \<Longrightarrow> (\<And>n k. str (dup n k) = str k) \<Longrightarrow>
    al (calls s) \<noteq> NULL \<Longrightarrow> entries s (al (calls s)) = None \<Longrightarrow>
    map_step (string_fns str dup fv al) op s = Some s' \<Longrightarrow> string_map fv str s' (abs_step str op M)"

lemma string_step:
  assumes "map_holds str (string_key str) s M" "\<forall>k \<in> op_key op. 0 \<notin> set (str k)" "\<And>n k. str (dup n k) = str k"
    "al (calls s) \<noteq> NULL" "entries s (al (calls s)) = None"
  shows "\<exists>s'. map_step (string_fns str dup fv al) op s = Some s' \<and> map_holds str (string_key str) s' (abs_step str op M)"
proof -
  have order: "key_order (string_fns str dup fv al) str (string_key str)" by (rule string_order) (rule assms(3))
  show ?thesis
    by (rule key_order.map_step_holds [OF order assms(1)]) (use assms(2,4,5) in \<open>simp_all add: string_fns_def string_key_def\<close>)
qed

lemma string_map_holds: "string_map fv str s M \<Longrightarrow> map_holds str (string_key str) s M"
proof (induction rule: string_map.induct)
  case (create str)
  show ?case by (rule map_create_holds)
next
  case (elsewhere str s M str')
  then show ?case by (intro map_holds_memory [OF elsewhere.IH]) (simp add: string_key_def)
next
  case (operate str s M op dup al s')
  obtain s1 where "map_step (string_fns str dup fv al) op s = Some s1" "map_holds str (string_key str) s1 (abs_step str op M)"
    using string_step [where str = str and dup = dup and al = al and s = s, OF operate.IH operate.hyps(2-5)] by blast
  then show ?case using operate.hyps(6) by simp
qed

lemma map_holds_size: "map_holds kf D s M \<Longrightarrow> map_get_size s = int (card (dom M))"
proof -
  assume "map_holds kf D s M"
  then obtain T where T: "map_tree kf D s T" and M: "M = map_of (map (\<lambda>p. (pkey kf s p, pval s p)) (nodes T))"
    by (auto simp: map_holds_def)
  have sorted: "sorted_wrt (<) (map (pkey kf s) (nodes T))" using T by (simp add: map_tree_def)
  have "dom M = set (map (pkey kf s) (nodes T))" unfolding M by (simp add: dom_map_of_conv_image_fst image_image)
  moreover have "card (set (map (pkey kf s) (nodes T))) = length (nodes T)"
    using strict_sorted_iff [of "map (pkey kf s) (nodes T)"] sorted by (metis distinct_card length_map)
  ultimately show ?thesis using T by (simp add: map_tree_def map_get_size_def)
qed

text \<open>C15: A map with string keys refines a finite map, through any execution of \<open>__mg_map_insert\<close>,
  \<open>__mg_map_find_replace_or_insert\<close>, \<open>__mg_map_replace\<close>, \<open>__mg_map_erase\<close> and \<open>__mg_map_clear\<close> that starts with an
  empty map, as long as \<open>mg_slice_new\<close> (which minigui.h says never gives NULL) and \<open>strdup\<close> do not run out of
  memory; addresses of freed entries and keys may be handed out again, and the program may write anything outside
  the keys of the entries. \<open>__mg_map_find\<close> finds an entry exactly for the strings that the same operations on a
  finite map leave defined, with their values; the size is the number of these strings; and every further
  operation returns.\<close>

theorem string_map_refines:
  assumes "string_map fv str s M" "0 \<notin> set (str k)" "\<And>n k. str (dup n k) = str k"
  shows "(\<exists>p. map_find (string_fns str dup fv al) (Some s) k = Some p
      \<and> (case M (str k) of None \<Rightarrow> p = NULL
          | Some v \<Rightarrow> p \<noteq> NULL \<and> (\<exists>e. entries s p = Some e \<and> str (key e) = str k \<and> val e = v)))
    \<and> map_get_size s = int (card (dom M))
    \<and> (\<forall>op. (\<forall>k \<in> op_key op. 0 \<notin> set (str k)) \<and> al (calls s) \<noteq> NULL \<and> entries s (al (calls s)) = None
        \<longrightarrow> (\<exists>s'. map_step (string_fns str dup fv al) op s = Some s' \<and> string_map fv str s' (abs_step str op M)))"
proof -
  note H = string_map_holds [OF assms(1)]
  have "\<exists>s'. map_step (string_fns str dup fv al) op s = Some s' \<and> string_map fv str s' (abs_step str op M)"
    if "\<forall>k \<in> op_key op. 0 \<notin> set (str k)" "al (calls s) \<noteq> NULL" "entries s (al (calls s)) = None" for op
    using string_step [where str = str and dup = dup and fv = fv and al = al and s = s, OF H that(1) assms(3) that(2,3)]
      string_map.operate [where str = str and dup = dup and al = al and s = s, OF assms(1) that(1) assms(3) that(2,3)] by blast
  moreover have order: "key_order (string_fns str dup fv al) str (string_key str)" by (rule string_order) (rule assms(3))
  ultimately show ?thesis
    using key_order.find_holds [OF order H, of k] assms(2) map_holds_size [OF H] by (simp add: string_key_def map_find_def)
qed

definition low_byte :: "voidp \<Rightarrow> 8 word list" where
  "low_byte k = (if k = 0 then [] else [1])"

theorem string_map_refines_witness:
  "\<exists>s p. string_map False low_byte s [[1] \<mapsto> 7] \<and> map_find (string_fns low_byte (\<lambda>n k. k) False Suc) (Some s) 5 = Some p
    \<and> p \<noteq> NULL \<and> (\<exists>e. entries s p = Some e \<and> val e = 7) \<and> map_get_size s = 1"
proof -
  let ?fns = "string_fns low_byte (\<lambda>n k. k) False Suc"
  have str: "low_byte ((\<lambda>n k. k) n k) = low_byte k" for n :: nat and k by simp
  have z: "0 \<notin> set (low_byte k)" for k by (simp add: low_byte_def)
  have "\<exists>s'. map_step ?fns (Insert 5 7 0) map_create = Some s'
      \<and> string_map False low_byte s' (abs_step low_byte (Insert 5 7 0) (\<lambda>_. None))"
    by (rule mp [OF spec [OF conjunct2 [OF conjunct2 [OF
        string_map_refines [where str = low_byte and al = Suc and dup = "\<lambda>n k. k", OF string_map.create z [of 0] str]]]]])
      (simp add: z map_create_def)
  then obtain s where s: "string_map False low_byte s [[1] \<mapsto> 7]" by (auto simp: low_byte_def)
  have "low_byte 5 = [1]" by (simp add: low_byte_def)
  then show ?thesis
    using s string_map_refines [where str = low_byte and al = Suc and dup = "\<lambda>n k. k", OF s z [of 5] str] by (auto intro!: exI [of _ s])
qed

end
