(* ===== verification/MG_FixStr.thy ===== *)
theory MG_FixStr
  imports MG_SlotSet
begin

unbundle bit_operations_syntax

text \<open>
  The fixed strings of \<open>src/kernel/fixstr.c\<close>: five heaps of short buffers in one block, heap \<open>i\<close> with \<open>8 * 2^i\<close>
  buffers of \<open>2^(6-i)\<close> bytes, and a bitmap in which a set bit marks a buffer that is not in use. Longer strings
  and those for which there is no buffer come from \<open>malloc\<close>. Addresses are integers; the result of \<open>malloc\<close> is
  an argument.
\<close>

section \<open>Operations\<close>

definition MAX_LEN_FIXSTR :: int where "MAX_LEN_FIXSTR = 64"

definition NR_HEAP :: nat where "NR_HEAP = 5"

definition LEN_BITMAP :: nat where "LEN_BITMAP = 1 + 2 + 4 + 8 + 16"

record FIXSTR =
  bitmap :: "u8 list"
  offset :: "nat list"
  heap :: "int list"

text \<open>The offsets that the loop of \<open>mg_InitFixStr\<close> adds up, and the bytes it sets.\<close>

fun heap_offsets :: "nat \<Rightarrow> nat \<Rightarrow> nat \<Rightarrow> nat list" where
  "heap_offsets 0 i off = []"
| "heap_offsets (Suc n) i off = off # heap_offsets n (i + 1) (off + 2 ^ i)"

definition mg_InitFixStr :: "int option \<Rightarrow> FIXSTR option" where
  "mg_InitFixStr mal = (case mal of None \<Rightarrow> None
     | Some base \<Rightarrow> Some \<lparr>bitmap = replicate LEN_BITMAP 0xFF, offset = heap_offsets NR_HEAP 0 0,
         heap = map (\<lambda>i. base + MAX_LEN_FIXSTR * 8 * int i) [0..<NR_HEAP + 1]\<rparr>)"

text \<open>The result of an allocation: NULL, the constant empty string or a buffer.\<close>

datatype fixstr_ptr = Null_str | Zero_string | Str_at int

definition of_malloc :: "int option \<Rightarrow> fixstr_ptr" where
  "of_malloc mal = (case mal of None \<Rightarrow> Null_str | Some a \<Rightarrow> Str_at a)"

text \<open>The loop that counts the bits of the length.\<close>

function count_bits :: "nat \<Rightarrow> nat \<Rightarrow> nat" where
  "count_bits ulen i = (if ulen \<noteq> 0 then count_bits (ulen div 2) (i + 1) else i)"
  by auto
termination by (relation "measure fst") auto

declare count_bits.simps [simp del]

text \<open>The loops over the bytes and the bits of a heap, as one loop over its slots: \<open>k\<close> is the slot in the whole
  bitmap, \<open>a\<close> the address of its buffer.\<close>

fun search_slots :: "u8 list \<Rightarrow> nat \<Rightarrow> nat \<Rightarrow> int \<Rightarrow> int \<Rightarrow> (nat \<times> int) option" where
  "search_slots bmp k 0 a bufflen = None"
| "search_slots bmp k (Suc n) a bufflen =
     (if bmp ! (k div 8) AND drop_bit (k mod 8) 0x80 \<noteq> 0 then Some (k, a)
      else search_slots bmp (k + 1) n (a + bufflen) bufflen)"

definition FixStrAlloc :: "int \<Rightarrow> int option \<Rightarrow> FIXSTR \<Rightarrow> fixstr_ptr \<times> FIXSTR" where
  "FixStrAlloc len mal s =
     (if len < 0 then (Null_str, s)
      else if len = 0 then (Zero_string, s)
      else if len \<ge> MAX_LEN_FIXSTR then (of_malloc mal, s)
      else let n = count_bits (nat len) 0;
               n = (if n = 1 then 2 else n);
               bufflen = 2 ^ n;
               i = NR_HEAP + 1 - n
           in case search_slots (bitmap s) (8 * (offset s ! i)) (8 * 2 ^ i) (heap s ! i) bufflen of
                Some (k, a) \<Rightarrow> (Str_at a, s\<lparr>bitmap := slot_set_use (bitmap s) k\<rparr>)
              | None \<Rightarrow> (of_malloc mal, s))"

text \<open>The heap of an address, and the loop \<open>while (str != heap)\<close>, which does not end for an address that is no
  buffer.\<close>

fun heap_above :: "int list \<Rightarrow> int \<Rightarrow> nat \<Rightarrow> nat \<Rightarrow> nat" where
  "heap_above hs str i 0 = i"
| "heap_above hs str i (Suc n) = (if str < hs ! i then i else heap_above hs str (i + 1) n)"

partial_function (option) locate_slot :: "int \<Rightarrow> int \<Rightarrow> int \<Rightarrow> nat \<Rightarrow> nat option" where
  "locate_slot str h bufflen stroff =
     (if str \<noteq> h then locate_slot str (h + bufflen) bufflen (stroff + 1) else Some stroff)"

text \<open>\<open>first\<close> is the first character of the string; the result says whether \<open>free\<close> is called.\<close>

definition FreeFixStr :: "int \<Rightarrow> u8 \<Rightarrow> FIXSTR \<Rightarrow> (bool \<times> FIXSTR) option" where
  "FreeFixStr str first s =
     (if first = 0 then Some (False, s)
      else if str \<ge> heap s ! NR_HEAP \<or> str < heap s ! 0 then Some (True, s)
      else let i = heap_above (heap s) str 1 NR_HEAP - 1;
               bufflen = 2 ^ (NR_HEAP + 1 - i)
           in map_option (\<lambda>stroff. (False, s\<lparr>bitmap := slot_clear_use (bitmap s) (8 * (offset s ! i) + stroff)\<rparr>))
                (locate_slot str (heap s ! i) bufflen 0))"

text \<open>\<open>FixStrDup\<close> of a string of length \<open>len\<close>, with the characters that \<open>strcpy\<close> writes.\<close>

definition FixStrDup :: "u8 list option \<Rightarrow> int option \<Rightarrow> FIXSTR \<Rightarrow> fixstr_ptr \<times> u8 list \<times> FIXSTR" where
  "FixStrDup str mal s = (case str of None \<Rightarrow> (Null_str, [], s)
     | Some cs \<Rightarrow> let (buff, s) = FixStrAlloc (int (length cs)) mal s in (buff, (if buff \<noteq> Null_str then cs @ [0] else []), s))"

section \<open>The buffers\<close>

text \<open>Buffer \<open>j\<close> of heap \<open>i\<close>: its slot, address and size.\<close>

definition buf_slot :: "nat \<Rightarrow> nat \<Rightarrow> nat" where
  "buf_slot i j = 8 * (2 ^ i - 1) + j"

definition buf_size :: "nat \<Rightarrow> int" where
  "buf_size i = 2 ^ (6 - i)"

definition buf_addr :: "int \<Rightarrow> nat \<Rightarrow> nat \<Rightarrow> int" where
  "buf_addr base i j = base + 512 * int i + int j * buf_size i"

text \<open>The part of the state that never changes.\<close>

definition fix_wf :: "int \<Rightarrow> FIXSTR \<Rightarrow> bool" where
  "fix_wf base s \<longleftrightarrow> length (bitmap s) = 31 \<and> offset s = [0, 1, 3, 7, 15]
     \<and> heap s = [base, base + 512, base + 1024, base + 1536, base + 2048, base + 2560]"

lemma fixstr_init_wf: "mg_InitFixStr (Some base) = Some s \<Longrightarrow> fix_wf base s \<and> idle_slots (bitmap s) = {..<248}"
proof -
  assume "mg_InitFixStr (Some base) = Some s"
  then have s: "s = \<lparr>bitmap = replicate LEN_BITMAP 0xFF, offset = heap_offsets NR_HEAP 0 0,
         heap = map (\<lambda>i. base + MAX_LEN_FIXSTR * 8 * int i) [0..<NR_HEAP + 1]\<rparr>"
    by (simp add: mg_InitFixStr_def)
  have upt: "[0..<NR_HEAP + 1] = [0, 1, 2, 3, 4, 5]" by (simp add: NR_HEAP_def upt_rec)
  have bits: "bit (0xFF :: u8) (7 - i mod 8)" for i :: nat
  proof -
    have "(0xFF :: u8) = - 1" by simp
    then show ?thesis by (simp only: bit_minus_1_iff) simp
  qed
  have len: "LEN_BITMAP = 31" by (simp add: LEN_BITMAP_def)
  have nr: "NR_HEAP = Suc (Suc (Suc (Suc (Suc 0))))" by (simp add: NR_HEAP_def)
  have offs: "heap_offsets NR_HEAP 0 0 = [0, 1, 3, 7, 15]" unfolding nr heap_offsets.simps by simp
  have nth: "replicate 31 (0xFF :: u8) ! (x div 8) = 0xFF" if "x < 248" for x
    by (rule nth_replicate) (use that in simp)
  have idle: "slot_idle (replicate 31 0xFF) x = (x < 248)" for x
  proof (cases "x < 248")
    case True
    then show ?thesis using nth [OF True] bits [of x] by (simp add: slot_idle_def)
  qed (simp add: slot_idle_def)
  have "idle_slots (bitmap s) = {..<248}"
    unfolding s FIXSTR.simps len by (rule set_eqI) (simp only: mem_idle_slots idle lessThan_iff)
  moreover have "fix_wf base s" unfolding s fix_wf_def FIXSTR.simps upt len offs by (simp add: MAX_LEN_FIXSTR_def)
  ultimately show ?thesis by blast
qed

lemma slot_test: "k < 8 * length bmp \<Longrightarrow> (bmp ! (k div 8) AND drop_bit (k mod 8) 0x80 \<noteq> 0) = slot_idle bmp k"
  by (simp add: slot_idle_iff_and slot_is_used_def)

lemma search_slots_spec:
  assumes "k + n \<le> 8 * length bmp"
  shows "case search_slots bmp k n a b of
     None \<Rightarrow> \<forall>j < n. \<not> slot_idle bmp (k + j)
   | Some (k', a') \<Rightarrow> \<exists>j < n. k' = k + j \<and> a' = a + int j * b \<and> slot_idle bmp k' \<and> (\<forall>i < j. \<not> slot_idle bmp (k + i))"
  using assms
proof (induction n arbitrary: k a)
  case (Suc n)
  show ?case
  proof (cases "slot_idle bmp k")
    case True
    then show ?thesis using slot_test [of k bmp] Suc.prems by auto
  next
    case False
    have IH: "case search_slots bmp (k + 1) n (a + b) b of
       None \<Rightarrow> \<forall>j < n. \<not> slot_idle bmp (k + 1 + j)
     | Some (k', a') \<Rightarrow> \<exists>j < n. k' = k + 1 + j \<and> a' = a + b + int j * b \<and> slot_idle bmp k' \<and> (\<forall>i < j. \<not> slot_idle bmp (k + 1 + i))"
      by (rule Suc.IH) (use Suc.prems in simp)
    have step: "search_slots bmp k (Suc n) a b = search_slots bmp (k + 1) n (a + b) b"
      using False slot_test [of k bmp] Suc.prems by simp
    have shift: "(\<forall>i < Suc j. \<not> slot_idle bmp (k + i)) = (\<forall>i < j. \<not> slot_idle bmp (k + 1 + i))" for j
      using False by (auto simp: less_Suc_eq_0_disj)
    show ?thesis
    proof (cases "search_slots bmp (k + 1) n (a + b) b")
      case None
      then show ?thesis using IH step shift by simp
    next
      case (Some r)
      obtain k' a' where r: "r = (k', a')" by (cases r)
      then obtain j where "j < n" "k' = k + 1 + j" "a' = a + b + int j * b" "slot_idle bmp k'" "\<forall>i < j. \<not> slot_idle bmp (k + 1 + i)"
        using IH Some by auto
      then show ?thesis unfolding step Some r using shift [of j]
        by (auto intro!: exI [of _ "Suc j"] simp: algebra_simps)
    qed
  qed
qed simp

text \<open>The bit count of a length below 64 and the heap it leads to.\<close>

lemma count_bits_bounds: "0 < n \<Longrightarrow> 2 ^ i \<le> n * 2 ^ i \<Longrightarrow> \<exists>b. count_bits n i = i + b \<and> 2 ^ (b - 1) \<le> n \<and> n < 2 ^ b \<and> 0 < b"
proof (induction n i rule: count_bits.induct)
  case (1 n i)
  show ?case
  proof (cases "n div 2 = 0")
    case True
    then have "n = 1" using 1 by linarith
    then show ?thesis by (auto simp: count_bits.simps intro: exI [of _ 1])
  next
    case False
    then obtain b where b: "count_bits (n div 2) (i + 1) = i + 1 + b" "2 ^ (b - 1) \<le> n div 2" "n div 2 < 2 ^ b" "0 < b"
      using 1 by auto
    have "2 ^ b = 2 * (2 :: nat) ^ (b - 1)" using b(4) by (cases b) auto
    then have "2 ^ b \<le> n" "n < 2 ^ (Suc b)" using b(2,3) by auto
    then show ?thesis using b(1,4) 1(2) by (intro exI [of _ "Suc b"]) (subst count_bits.simps, simp)
  qed
qed

lemma heap_for_length:
  assumes "0 < len" "len < 64"
  shows "\<exists>i \<le> 4. (let n = count_bits (nat len) 0; n = (if n = 1 then 2 else n) in n = 6 - i) \<and> len < buf_size i"
proof -
  obtain b where b: "count_bits (nat len) 0 = b" "2 ^ (b - 1) \<le> nat len" "nat len < 2 ^ b" "0 < b"
    using count_bits_bounds [of "nat len" 0] assms by auto
  have "(2 :: nat) ^ (b - 1) < 2 ^ 6" 
  proof (rule le_less_trans [OF b(2)])
    show "nat len < 2 ^ 6" using assms by (simp add: nat_less_iff)
  qed
  then have "b - 1 < 6" by (simp only: power_strict_increasing_iff one_less_numeral_iff semiring_norm)
  then have b6: "b \<le> 6" by simp
  have len: "len < 2 ^ b" using b(3) assms by (simp add: nat_less_iff)
  show ?thesis
  proof (cases "b = 1")
    case True
    then show ?thesis using b(1) len by (intro exI [of _ 4]) (simp add: buf_size_def Let_def)
  next
    case False
    then have "6 - (6 - b) = b" "6 - b \<le> 4" using b6 b(4) by simp_all
    then show ?thesis using b(1) len False by (intro exI [of _ "6 - b"]) (simp add: buf_size_def Let_def)
  qed
qed

section \<open>Allocation and release\<close>

lemma heap_cases: "i \<le> 4 \<Longrightarrow> i = 0 \<or> i = 1 \<or> i = 2 \<or> i = 3 \<or> i = (4 :: nat)"
  by arith

lemma wf_heap:
  assumes "fix_wf base s" "i \<le> 4"
  shows "heap s ! i = base + 512 * int i" "offset s ! i = 2 ^ i - 1" "8 * (offset s ! i) = buf_slot i 0" "buf_slot i (8 * 2 ^ i) \<le> 248"
  using assms heap_cases [of i] by (auto simp: fix_wf_def buf_slot_def)

lemma buf_size_pow: "i \<le> 4 \<Longrightarrow> buf_size i = 2 ^ (NR_HEAP + 1 - i) \<and> 0 < buf_size i \<and> 8 * 2 ^ i * buf_size i = 512"
  using heap_cases [of i] by (auto simp: buf_size_def NR_HEAP_def)

text \<open>A buffer is given out only if its slot was idle, and it is big enough.\<close>

lemma FixStrAlloc_buffer:
  assumes wf: "fix_wf base s" and len: "0 < len" "len < 64"
  shows "(\<exists>i j. i \<le> 4 \<and> j < 8 * 2 ^ i \<and> slot_idle (bitmap s) (buf_slot i j) \<and> len < buf_size i
      \<and> FixStrAlloc len mal s = (Str_at (buf_addr base i j), s\<lparr>bitmap := slot_set_use (bitmap s) (buf_slot i j)\<rparr>))
    \<or> FixStrAlloc len mal s = (of_malloc mal, s)"
proof -
  obtain i where i: "i \<le> 4" "(let n = count_bits (nat len) 0; n = (if n = 1 then 2 else n) in n = 6 - i)" "len < buf_size i"
    using heap_for_length [OF len] by blast
  define n where "n = (if count_bits (nat len) 0 = 1 then 2 else count_bits (nat len) 0)"
  have n: "n = 6 - i" "NR_HEAP + 1 - n = i" "2 ^ n = buf_size i" using i by (auto simp: n_def Let_def NR_HEAP_def buf_size_def)
  have alloc: "FixStrAlloc len mal s = (case search_slots (bitmap s) (buf_slot i 0) (8 * 2 ^ i) (base + 512 * int i) (buf_size i) of
      Some (k, a) \<Rightarrow> (Str_at a, s\<lparr>bitmap := slot_set_use (bitmap s) k\<rparr>) | None \<Rightarrow> (of_malloc mal, s))"
    unfolding FixStrAlloc_def n_def [symmetric] Let_def n(2,3) wf_heap(1,3) [OF wf i(1)]
    using len by (simp add: MAX_LEN_FIXSTR_def)
  have "buf_slot i 0 + 8 * 2 ^ i \<le> 8 * length (bitmap s)"
    using wf_heap(4) [OF wf i(1)] wf by (simp add: buf_slot_def fix_wf_def)
  from search_slots_spec [OF this, of "base + 512 * int i" "buf_size i"]
  show ?thesis
  proof (cases "search_slots (bitmap s) (buf_slot i 0) (8 * 2 ^ i) (base + 512 * int i) (buf_size i)")
    case None
    then show ?thesis using alloc by simp
  next
    case (Some r)
    obtain k a where r: "r = (k, a)" by (cases r)
    obtain j where "j < 8 * 2 ^ i" "k = buf_slot i 0 + j" "a = base + 512 * int i + int j * buf_size i" "slot_idle (bitmap s) k"
      using search_slots_spec [OF \<open>buf_slot i 0 + 8 * 2 ^ i \<le> 8 * length (bitmap s)\<close>, of "base + 512 * int i" "buf_size i"] Some r
      by auto
    then show ?thesis using alloc Some r i by (intro disjI1 exI [of _ i] exI [of _ j]) (simp add: buf_slot_def buf_addr_def)
  qed
qed

lemma locate_slot_found: "0 < b \<Longrightarrow> locate_slot (h + int j * b) h b n = Some (n + j)"
proof (induction j arbitrary: h n)
  case 0 then show ?case by (subst locate_slot.simps) simp
next
  case (Suc j)
  have "locate_slot (h + b + int j * b) (h + b) b (n + 1) = Some (n + 1 + j)" using Suc by blast
  moreover have "0 < (1 + int j) * b" using Suc.prems by (intro mult_pos_pos) simp_all
  ultimately show ?case by (subst locate_slot.simps) (simp add: algebra_simps)
qed

text \<open>The loop of \<open>FreeFixStr\<close> ends only at an address that is a multiple of the size away.\<close>

lemma locate_slot_aligned:
  assumes "locate_slot str h b n = Some k"
  shows "n \<le> k \<and> str = h + int (k - n) * b"
proof (rule locate_slot.raw_induct [OF _ assms, where P = "\<lambda>str h b n k. n \<le> k \<and> str = h + int (k - n) * b"])
  fix f and str h b :: int and n k :: nat
  assume IH: "\<And>str h b n k. f str h b n = Some k \<Longrightarrow> n \<le> k \<and> str = h + int (k - n) * b"
    and body: "(if str \<noteq> h then f str (h + b) b (n + 1) else Some n) = Some k"
  show "n \<le> k \<and> str = h + int (k - n) * b"
  proof (cases "str = h")
    case False
    then have I: "n + 1 \<le> k" "str = h + b + int (k - (n + 1)) * b" using IH [of str "h + b" b "n + 1" k] body by auto
    then have "int (k - n) = int (k - (n + 1)) + 1" by simp
    then have "int (k - n) * b = int (k - (n + 1)) * b + b" by (simp only: distrib_right mult_1)
    then show ?thesis using I by linarith
  qed (use body in simp)
qed

lemma heap_above_addr:
  assumes "fix_wf base s" "i \<le> 4" "base + 512 * int i \<le> a" "a < base + 512 * int i + 512"
  shows "heap_above (heap s) a 1 NR_HEAP = i + 1"
proof -
  have nr: "NR_HEAP = Suc (Suc (Suc (Suc (Suc 0))))" by (simp add: NR_HEAP_def)
  have hs: "heap s = [base, base + 512, base + 1024, base + 1536, base + 2048, base + 2560]" using assms(1) by (simp add: fix_wf_def)
  show ?thesis unfolding nr heap_above.simps hs using assms(3,4) heap_cases [OF assms(2)] by auto
qed

lemma buf_in_heap:
  assumes "i \<le> 4" "j < 8 * 2 ^ i"
  shows "base + 512 * int i \<le> buf_addr base i j" "buf_addr base i j + buf_size i \<le> base + 512 * int i + 512"
proof -
  have "int j + 1 \<le> 8 * 2 ^ i" using assms(2) by (metis of_nat_Suc of_nat_le_iff of_nat_mult of_nat_numeral of_nat_power Suc_leI add.commute)
  then have "(int j + 1) * buf_size i \<le> 8 * 2 ^ i * buf_size i" using buf_size_pow [OF assms(1)] by (intro mult_right_mono) auto
  then show "buf_addr base i j + buf_size i \<le> base + 512 * int i + 512"
    using conjunct2 [OF conjunct2 [OF buf_size_pow [OF assms(1)]]] unfolding buf_addr_def distrib_right by linarith
  show "base + 512 * int i \<le> buf_addr base i j" using buf_size_pow [OF assms(1)] by (simp add: buf_addr_def)
qed

lemma FreeFixStr_buffer:
  assumes wf: "fix_wf base s" and ij: "i \<le> 4" "j < 8 * 2 ^ i" and "c \<noteq> 0"
  shows "FreeFixStr (buf_addr base i j) c s = Some (False, s\<lparr>bitmap := slot_clear_use (bitmap s) (buf_slot i j)\<rparr>)"
proof -
  note b = buf_in_heap [OF ij, of base] buf_size_pow [OF ij(1)]
  have above: "heap_above (heap s) (buf_addr base i j) 1 NR_HEAP = i + 1" using heap_above_addr [OF wf ij(1)] b by simp
  have "\<not> (buf_addr base i j \<ge> heap s ! NR_HEAP \<or> buf_addr base i j < heap s ! 0)"
    using b ij(1) wf by (auto simp: fix_wf_def NR_HEAP_def)
  moreover have "locate_slot (buf_addr base i j) (heap s ! i) (2 ^ (NR_HEAP + 1 - i)) 0 = Some j"
    using locate_slot_found [of "buf_size i" "heap s ! i" j 0] b wf_heap(1) [OF wf ij(1)] by (simp add: buf_addr_def)
  ultimately show ?thesis
    using assms(4) above wf_heap(3) [OF wf ij(1)] by (simp add: FreeFixStr_def buf_slot_def)
qed

end
