(* ===== verification/MG_FixRun.thy ===== *)
theory MG_FixRun
  imports MG_FixStr
begin

text \<open>
  Runs of the fixed strings of \<open>src/kernel/fixstr.c\<close>: the strings a program has got and not given back, with what
  it may rely on. The one thing assumed is that \<open>malloc\<close> returns memory that is not in use.
\<close>

section \<open>Distinct buffers\<close>

lemma buf_slot_bound: "i \<le> 4 \<Longrightarrow> j < 8 * 2 ^ i \<Longrightarrow> buf_slot i j < 248"
  using heap_cases [of i] by (auto simp: buf_slot_def)

lemma buf_slot_inj:
  assumes "i \<le> 4" "j < 8 * 2 ^ i" "i' \<le> 4" "j' < 8 * 2 ^ i'" "buf_slot i j = buf_slot i' j'"
  shows "i = i' \<and> j = j'"
proof -
  have less: False if "i < i'" "j < 8 * 2 ^ i" "buf_slot i j = buf_slot i' j'" for i j i' j'
  proof -
    have "(2 :: nat) ^ Suc i \<le> 2 ^ i'" using that(1) by (intro power_increasing) simp_all
    moreover have "(1 :: nat) \<le> 2 ^ i" by simp
    ultimately show False using that(2,3) unfolding buf_slot_def power_Suc by linarith
  qed
  have "i = i'"
    using less [of i i' j j'] less [of i' i j' j] assms by (metis linorder_neqE_nat)
  then show ?thesis using assms(5) by (simp add: buf_slot_def)
qed

lemma buf_disjoint:
  assumes "i \<le> 4" "j < 8 * 2 ^ i" "i' \<le> 4" "j' < 8 * 2 ^ i'" "(i, j) \<noteq> (i', j')"
  shows "buf_addr base i j + buf_size i \<le> buf_addr base i' j' \<or> buf_addr base i' j' + buf_size i' \<le> buf_addr base i j"
proof (cases "i = i'")
  case True
  have less: "buf_addr base i j + buf_size i \<le> buf_addr base i j'" if "j < j'" for j j'
  proof -
    have "(int j + 1) * buf_size i \<le> int j' * buf_size i"
      using that buf_size_pow [OF assms(1)] by (intro mult_right_mono) auto
    then show ?thesis unfolding buf_addr_def distrib_right by linarith
  qed
  show ?thesis using True less [of j j'] less [of j' j] assms(5) by (metis linorder_neqE_nat)
next
  case False
  have less: "buf_addr base i j + buf_size i \<le> buf_addr base i' j'"
    if "i < i'" "i \<le> 4" "j < 8 * 2 ^ i" "i' \<le> 4" "j' < 8 * 2 ^ i'" for i j i' j'
  proof -
    have "base + 512 * int i + 512 \<le> base + 512 * int i'" using that(1) by simp
    then show ?thesis using buf_in_heap [OF that(2,3), of base] buf_in_heap [OF that(4,5), of base] by linarith
  qed
  show ?thesis using False less [of i i' j j'] less [of i' i j' j] assms by (metis linorder_neqE_nat)
qed

section \<open>Strings in use\<close>

text \<open>A string in use: its address and the length asked for; it holds \<open>len + 1\<close> bytes.\<close>

type_synonym live = "(int \<times> int) set"

definition apart :: "int \<times> int \<Rightarrow> int \<times> int \<Rightarrow> bool" where
  "apart x y \<longleftrightarrow> fst x + snd x < fst y \<or> fst y + snd y < fst x"

text \<open>The promise of \<open>malloc (len + 1)\<close>: memory outside the block of the heaps and of the other strings.\<close>

definition malloc_fresh :: "int \<Rightarrow> live \<Rightarrow> int \<Rightarrow> int option \<Rightarrow> bool" where
  "malloc_fresh base L len mal \<longleftrightarrow> (case mal of None \<Rightarrow> True
     | Some a \<Rightarrow> apart (a, len) (base, 2559) \<and> (\<forall>x \<in> L. apart (a, len) x))"

inductive fixstr_run :: "int \<Rightarrow> FIXSTR \<Rightarrow> live \<Rightarrow> bool" for base where
  run_init: "mg_InitFixStr (Some base) = Some s \<Longrightarrow> fixstr_run base s {}"
| run_alloc: "fixstr_run base s L \<Longrightarrow> malloc_fresh base L len mal \<Longrightarrow> FixStrAlloc len mal s = (Str_at a, s')
     \<Longrightarrow> fixstr_run base s' (insert (a, len) L)"
| run_free: "fixstr_run base s L \<Longrightarrow> (a, len) \<in> L \<Longrightarrow> c \<noteq> 0 \<Longrightarrow> FreeFixStr a c s = Some (m, s')
     \<Longrightarrow> fixstr_run base s' (L - {(a, len)})"

text \<open>Where a string in use lies: in a buffer that is big enough and marked as used, or outside the heaps.\<close>

definition in_buffer :: "int \<Rightarrow> FIXSTR \<Rightarrow> int \<times> int \<Rightarrow> nat \<Rightarrow> nat \<Rightarrow> bool" where
  "in_buffer base s x i j \<longleftrightarrow> i \<le> 4 \<and> j < 8 * 2 ^ i \<and> fst x = buf_addr base i j \<and> snd x < buf_size i
     \<and> \<not> slot_idle (bitmap s) (buf_slot i j)"

definition str_placed :: "int \<Rightarrow> FIXSTR \<Rightarrow> int \<times> int \<Rightarrow> bool" where
  "str_placed base s x \<longleftrightarrow> 0 < snd x \<and> ((\<exists>i j. in_buffer base s x i j) \<or> apart x (base, 2559))"

definition fix_inv :: "int \<Rightarrow> FIXSTR \<Rightarrow> live \<Rightarrow> bool" where
  "fix_inv base s L \<longleftrightarrow> fix_wf base s \<and> (\<forall>x \<in> L. str_placed base s x) \<and> (\<forall>x \<in> L. \<forall>y \<in> L. x \<noteq> y \<longrightarrow> apart x y)"

lemma apart_sym: "apart x y = apart y x"
  by (auto simp: apart_def)

lemma wf_bitmap: "fix_wf base s \<Longrightarrow> length bmp = 31 \<Longrightarrow> fix_wf base (s\<lparr>bitmap := bmp\<rparr>)"
  by (simp add: fix_wf_def)

lemma buffer_in_arena:
  assumes "in_buffer base s x i j"
  shows "base \<le> fst x" "fst x + snd x \<le> base + 2559"
proof -
  have b: "base + 512 * int i \<le> fst x" "fst x + buf_size i \<le> base + 512 * int i + 512" "i \<le> 4" "snd x < buf_size i"
    using assms buf_in_heap [of i j base] by (auto simp: in_buffer_def)
  show "base \<le> fst x" using b(1) by linarith
  have "int i \<le> 4" using b(3) by simp
  then show "fst x + snd x \<le> base + 2559" using b(2,4) by linarith
qed

lemma buffers_apart:
  assumes "in_buffer base s x i j" "in_buffer base s' y i' j'" "(i, j) \<noteq> (i', j')"
  shows "apart x y"
proof -
  have "buf_addr base i j + buf_size i \<le> buf_addr base i' j' \<or> buf_addr base i' j' + buf_size i' \<le> buf_addr base i j"
    using assms by (intro buf_disjoint) (simp_all add: in_buffer_def)
  then show ?thesis using assms by (auto simp: apart_def in_buffer_def)
qed

text \<open>Allocation keeps the invariant.\<close>

lemma alloc_set:
  assumes inv: "fix_inv base s L" and new: "str_placed base s' (a, len)" and wf: "fix_wf base s'"
    and keep: "\<And>x. x \<in> L \<Longrightarrow> str_placed base s' x" and apart: "\<And>x. x \<in> L \<Longrightarrow> apart (a, len) x"
  shows "fix_inv base s' (insert (a, len) L)"
proof -
  have "apart x y" if "x \<in> insert (a, len) L" "y \<in> insert (a, len) L" "x \<noteq> y" for x y
    using that inv apart [of x] apart [of y] apart_sym [of "(a, len)" x] by (auto simp: fix_inv_def)
  then show ?thesis using new wf keep by (simp add: fix_inv_def)
qed

lemma in_buffer_set_use:
  assumes "in_buffer base s x i j" "length (bitmap s) = 31" "k < 248"
  shows "in_buffer base (s\<lparr>bitmap := slot_set_use (bitmap s) k\<rparr>) x i j"
  using assms by (simp add: in_buffer_def slot_idle_set_use)

lemma alloc_malloc:
  assumes inv: "fix_inv base s L" and fresh: "malloc_fresh base L len (Some a)" and "0 < len"
  shows "fix_inv base s (insert (a, len) L)"
proof (rule alloc_set [OF inv])
  show "str_placed base s (a, len)" using fresh assms(3) by (simp add: malloc_fresh_def str_placed_def)
qed (use inv fresh in \<open>auto simp: fix_inv_def malloc_fresh_def\<close>)

lemma alloc_buffer:
  assumes inv: "fix_inv base s L" and ij: "i \<le> 4" "j < 8 * 2 ^ i" "slot_idle (bitmap s) (buf_slot i j)"
    and len: "0 < len" "len < buf_size i"
  shows "fix_inv base (s\<lparr>bitmap := slot_set_use (bitmap s) (buf_slot i j)\<rparr>) (insert (buf_addr base i j, len) L)"
    (is "fix_inv base ?s' _")
proof -
  have wf: "fix_wf base s" and n: "length (bitmap s) = 31" "buf_slot i j < 8 * length (bitmap s)"
    using inv buf_slot_bound [OF ij(1,2)] by (auto simp: fix_inv_def fix_wf_def)
  have new: "in_buffer base ?s' (buf_addr base i j, len) i j"
    using ij len n by (simp add: in_buffer_def slot_idle_set_use)
  show ?thesis
  proof (rule alloc_set [OF inv])
    show "str_placed base ?s' (buf_addr base i j, len)" using new len(1) by (auto simp: str_placed_def)
    show "fix_wf base ?s'" using wf n by (intro wf_bitmap) simp_all
  next
    fix x assume x: "x \<in> L"
    then have placed: "str_placed base s x" using inv by (simp add: fix_inv_def)
    then show "str_placed base ?s' x"
      using in_buffer_set_use [OF _ n(1), of base x _ _ "buf_slot i j"] buf_slot_bound [OF ij(1,2)] by (auto simp: str_placed_def)
    show "apart (buf_addr base i j, len) x"
    proof (cases "\<exists>i' j'. in_buffer base s x i' j'")
      case True
      then obtain i' j' where b: "in_buffer base s x i' j'" by blast
      then have "(i, j) \<noteq> (i', j')" using ij(3) by (auto simp: in_buffer_def)
      then show ?thesis using buffers_apart [OF new b] by simp
    next
      case False
      then have "apart x (base, 2559)" using placed by (simp add: str_placed_def)
      then show ?thesis using buffer_in_arena [OF new] by (auto simp: apart_def)
    qed
  qed
qed

lemma FixStrAlloc_large: "64 \<le> len \<Longrightarrow> FixStrAlloc len mal s = (of_malloc mal, s)"
  by (simp add: FixStrAlloc_def MAX_LEN_FIXSTR_def)

lemma FixStrAlloc_small: "len \<le> 0 \<Longrightarrow> FixStrAlloc len mal s = (if len < 0 then Null_str else Zero_string, s)"
  by (simp add: FixStrAlloc_def)

lemma fix_alloc_inv:
  assumes inv: "fix_inv base s L" and fresh: "malloc_fresh base L len mal" and alloc: "FixStrAlloc len mal s = (Str_at a, s')"
  shows "fix_inv base s' (insert (a, len) L)"
proof -
  have len: "0 < len" using alloc FixStrAlloc_small [of len mal s] by (cases "0 < len") (auto split: if_splits)
  have mal: "fix_inv base s' (insert (a, len) L)" if "FixStrAlloc len mal s = (of_malloc mal, s)"
  proof -
    have "mal = Some a" "s' = s" using that alloc by (auto simp: of_malloc_def split: option.splits)
    then show ?thesis using alloc_malloc [OF inv _ len] fresh by blast
  qed
  show ?thesis
  proof (cases "len < 64")
    case True
    have "fix_wf base s" using inv by (simp add: fix_inv_def)
    from FixStrAlloc_buffer [OF this len True, of mal] consider
        (buf) i j where "i \<le> 4" "j < 8 * 2 ^ i" "slot_idle (bitmap s) (buf_slot i j)" "len < buf_size i"
          "FixStrAlloc len mal s = (Str_at (buf_addr base i j), s\<lparr>bitmap := slot_set_use (bitmap s) (buf_slot i j)\<rparr>)"
      | (mal) "FixStrAlloc len mal s = (of_malloc mal, s)" by blast
    then show ?thesis
    proof cases
      case buf
      then have "a = buf_addr base i j" "s' = s\<lparr>bitmap := slot_set_use (bitmap s) (buf_slot i j)\<rparr>" using alloc by simp_all
      then show ?thesis using alloc_buffer [OF inv buf(1-3) len buf(4)] by simp
    qed (rule mal)
  next
    case False
    then show ?thesis by (intro mal FixStrAlloc_large) simp
  qed
qed

text \<open>Release: a string in a buffer gives the buffer back, the other ones go to \<open>free\<close>.\<close>

lemma free_outside:
  assumes wf: "fix_wf base s" and "0 < len" "apart (a, len) (base, 2559)" "c \<noteq> 0"
  shows "FreeFixStr a c s = Some (True, s)"
  using assms by (auto simp: FreeFixStr_def fix_wf_def apart_def NR_HEAP_def)

lemma free_placed:
  assumes inv: "fix_inv base s L" and a: "(a, len) \<in> L" and "c \<noteq> 0"
  obtains (out) "apart (a, len) (base, 2559)" "FreeFixStr a c s = Some (True, s)"
    | (buf) i j where "in_buffer base s (a, len) i j"
        "FreeFixStr a c s = Some (False, s\<lparr>bitmap := slot_clear_use (bitmap s) (buf_slot i j)\<rparr>)"
proof -
  have wf: "fix_wf base s" and p: "str_placed base s (a, len)" using inv a by (auto simp: fix_inv_def)
  show ?thesis
  proof (cases "\<exists>i j. in_buffer base s (a, len) i j")
    case True
    then obtain i j where b: "in_buffer base s (a, len) i j" by blast
    then have "FreeFixStr a c s = Some (False, s\<lparr>bitmap := slot_clear_use (bitmap s) (buf_slot i j)\<rparr>)"
      using FreeFixStr_buffer [OF wf _ _ assms(3), of i j] by (simp add: in_buffer_def)
    then show ?thesis using buf b by blast
  next
    case False
    then have "0 < len" "apart (a, len) (base, 2559)" using p by (auto simp: str_placed_def)
    then show ?thesis using out free_outside [OF wf _ _ assms(3)] by blast
  qed
qed

lemma fix_free_inv:
  assumes inv: "fix_inv base s L" and a: "(a, len) \<in> L" and c: "c \<noteq> 0" and free: "FreeFixStr a c s = Some (m, s')"
  shows "fix_inv base s' (L - {(a, len)})"
proof -
  have wf: "fix_wf base s" and n: "length (bitmap s) = 31" using inv by (auto simp: fix_inv_def fix_wf_def)
  from inv a c show ?thesis
  proof (cases rule: free_placed)
    case out
    then have "s' = s" using free by simp
    then show ?thesis using inv by (auto simp: fix_inv_def)
  next
    case (buf i j)
    then have s': "s' = s\<lparr>bitmap := slot_clear_use (bitmap s) (buf_slot i j)\<rparr>" using free by simp
    have k: "buf_slot i j < 8 * length (bitmap s)" using buf(1) n buf_slot_bound [of i j] by (simp add: in_buffer_def)
    have "str_placed base s' x" if x: "x \<in> L - {(a, len)}" for x
    proof -
      have p: "str_placed base s x" "apart (a, len) x" using inv a x by (auto simp: fix_inv_def)
      have "in_buffer base s' x i' j'" if b: "in_buffer base s x i' j'" for i' j'
      proof -
        have "fst x \<noteq> a" using p a inv by (auto simp: apart_def fix_inv_def str_placed_def)
        then have "(i', j') \<noteq> (i, j)" using b buf(1) by (auto simp: in_buffer_def)
        then have "buf_slot i' j' \<noteq> buf_slot i j" using buf_slot_inj [of i' j' i j] b buf(1) by (auto simp: in_buffer_def)
        then show ?thesis using b k by (simp add: in_buffer_def s' slot_idle_clear_use)
      qed
      then show ?thesis using p(1) by (auto simp: str_placed_def)
    qed
    moreover have "fix_wf base s'" unfolding s' using wf n by (intro wf_bitmap) simp_all
    ultimately show ?thesis using inv by (auto simp: fix_inv_def)
  qed
qed

lemma run_inv: "fixstr_run base s L \<Longrightarrow> fix_inv base s L"
proof (induction rule: fixstr_run.induct)
  case (run_init s)
  then show ?case using fixstr_init_wf by (simp add: fix_inv_def)
qed (auto intro: fix_alloc_inv fix_free_inv)

section \<open>What a program may rely on\<close>

definition fix_start :: FIXSTR where
  "fix_start = the (mg_InitFixStr (Some 4096))"

lemma fix_start_init: "mg_InitFixStr (Some 4096) = Some fix_start"
  by (simp add: fix_start_def mg_InitFixStr_def)

lemma fix_start_example:
  "\<exists>s. fixstr_run 4096 s {(6148, 3), (6144, 3)} \<and> fix_wf 4096 s"
proof -
  have run0: "fixstr_run 4096 fix_start {}" by (rule run_init [OF fix_start_init])
  have a1: "FixStrAlloc 3 None fix_start = (Str_at 6144, snd (FixStrAlloc 3 None fix_start))" by code_simp
  have run1: "fixstr_run 4096 (snd (FixStrAlloc 3 None fix_start)) {(6144, 3)}"
    by (rule run_alloc [OF run0 _ a1]) (simp add: malloc_fresh_def)
  have a2: "FixStrAlloc 3 None (snd (FixStrAlloc 3 None fix_start))
      = (Str_at 6148, snd (FixStrAlloc 3 None (snd (FixStrAlloc 3 None fix_start))))" by code_simp
  have "fixstr_run 4096 (snd (FixStrAlloc 3 None (snd (FixStrAlloc 3 None fix_start)))) {(6148, 3), (6144, 3)}"
    by (rule run_alloc [OF run1 _ a2]) (simp add: malloc_fresh_def)
  then show ?thesis using run_inv by (auto simp: fix_inv_def)
qed

text \<open>A string that was emptied keeps its buffer: \<open>FreeFixStr\<close> returns at once.\<close>

lemma FreeFixStr_emptied: "FreeFixStr a 0 s = Some (False, s)"
  by (simp add: FreeFixStr_def)

text \<open>C20: In every run of the program, two strings in use never share a byte: each occupies its length and the
  terminating null, whether it came from a heap or from \<open>malloc\<close>, and no sequence of allocations and releases
  lets one of them overlap another.\<close>

theorem FixStr_live_disjoint:
  assumes "fixstr_run base s L" "(a, n) \<in> L" "(b, m) \<in> L" "(a, n) \<noteq> (b, m)"
  shows "a + n < b \<or> b + m < a"
  using run_inv [OF assms(1)] assms(2-) by (force simp: fix_inv_def apart_def)

theorem FixStr_live_disjoint_witness:
  "\<exists>s. fixstr_run 4096 s {(6148, 3), (6144, 3)} \<and> ((6148 :: int) + 3 < 6144 \<or> 6144 + 3 < (6148 :: int))"
proof -
  obtain s where s: "fixstr_run 4096 s {(6148, 3), (6144, 3)}" using fix_start_example by blast
  show ?thesis using s FixStr_live_disjoint [OF s, of 6148 3 6144 3] by auto
qed

text \<open>In every run the bitmaps and the heaps keep their layout, every string in use lies in a buffer marked as
  used and bigger than its length or outside the heaps, and so giving it back always returns: the buffer becomes idle
  again and \<open>free\<close> is called exactly for the strings outside.\<close>

theorem FreeFixStr_live:
  assumes "fixstr_run base s L" "(a, n) \<in> L" "c \<noteq> 0"
  shows "fix_wf base s \<and> (case FreeFixStr a c s of None \<Rightarrow> False
    | Some (called_free, s') \<Rightarrow> called_free = (a + n < base \<or> base + 2560 \<le> a)
        \<and> (if called_free then s' = s
           else \<exists>i j. a = buf_addr base i j \<and> n < buf_size i \<and> \<not> slot_idle (bitmap s) (buf_slot i j)
             \<and> idle_slots (bitmap s') = insert (buf_slot i j) (idle_slots (bitmap s))))"
proof -
  have inv: "fix_inv base s L" by (rule run_inv [OF assms(1)])
  then have wf: "fix_wf base s" by (simp add: fix_inv_def)
  from inv assms(2,3) show ?thesis
  proof (cases rule: free_placed)
    case out
    then show ?thesis using wf by (simp add: apart_def) linarith
  next
    case (buf i j)
    have k: "buf_slot i j < 8 * length (bitmap s)" using buf(1) wf buf_slot_bound [of i j] by (simp add: in_buffer_def fix_wf_def)
    have "\<not> (a + n < base \<or> base + 2560 \<le> a)"
      using buffer_in_arena [OF buf(1)] inv assms(2) by (auto simp: fix_inv_def str_placed_def)
    moreover have "\<exists>i' j'. a = buf_addr base i' j' \<and> n < buf_size i' \<and> \<not> slot_idle (bitmap s) (buf_slot i' j')
        \<and> idle_slots (bitmap (s\<lparr>bitmap := slot_clear_use (bitmap s) (buf_slot i j)\<rparr>)) = insert (buf_slot i' j') (idle_slots (bitmap s))"
      using buf(1) k by (intro exI [of _ i] exI [of _ j]) (simp add: in_buffer_def idle_slot_clear_use)
    ultimately show ?thesis using wf unfolding buf(2) by simp
  qed
qed

theorem FreeFixStr_live_witness:
  "\<exists>s. fixstr_run 4096 s {(6148, 3), (6144, 3)} \<and> FreeFixStr 6144 65 s \<noteq> None"
proof -
  obtain s where s: "fixstr_run 4096 s {(6148, 3), (6144, 3)}" using fix_start_example by blast
  show ?thesis using s FreeFixStr_live [OF s, of 6144 3 65] by (auto split: option.splits)
qed

text \<open>C21: \<open>FreeFixStr\<close> returns exactly for an empty string, an address outside the heaps and the first byte of a
  buffer; for any other address inside the heaps its loop never ends.\<close>

theorem FreeFixStr_returns_iff:
  assumes "fix_wf base s"
  shows "(FreeFixStr a c s \<noteq> None) = (c = 0 \<or> a < base \<or> base + 2560 \<le> a \<or> (\<exists>i j. i \<le> 4 \<and> j < 8 * 2 ^ i \<and> a = buf_addr base i j))"
proof (cases "c = 0 \<or> a < base \<or> base + 2560 \<le> a")
  case True
  then show ?thesis using assms by (auto simp: FreeFixStr_def fix_wf_def NR_HEAP_def)
next
  case False
  define i where "i = nat ((a - base) div 512)"
  have d: "0 \<le> (a - base) div 512" "(a - base) div 512 \<le> 4" using False by auto
  then have i: "i \<le> 4" "int i = (a - base) div 512" by (auto simp: i_def)
  then have r: "base + 512 * int i \<le> a" "a < base + 512 * int i + 512" by (simp_all add: minus_div_mult_eq_mod [symmetric])
  have free: "FreeFixStr a c s \<noteq> None \<longleftrightarrow> locate_slot a (base + 512 * int i) (buf_size i) 0 \<noteq> None"
    using False assms heap_above_addr [OF assms i(1) r] wf_heap(1) [OF assms i(1)] buf_size_pow [OF i(1)]
    by (auto simp: FreeFixStr_def fix_wf_def NR_HEAP_def)
  show ?thesis
  proof
    assume "FreeFixStr a c s \<noteq> None"
    then obtain k where "locate_slot a (base + 512 * int i) (buf_size i) 0 = Some k" using free by blast
    then have a: "a = buf_addr base i k" using locate_slot_aligned by (fastforce simp: buf_addr_def)
    have "int k * buf_size i < 8 * 2 ^ i * buf_size i"
      using a r(2) conjunct2 [OF conjunct2 [OF buf_size_pow [OF i(1)]]] unfolding buf_addr_def by linarith
    then have "int k < 8 * 2 ^ i" using mult_less_cancel_right_pos [OF conjunct1 [OF conjunct2 [OF buf_size_pow [OF i(1)]]]] by blast
    then have "k < 8 * 2 ^ i" by (metis of_nat_less_iff of_nat_mult of_nat_numeral of_nat_power)
    then show "c = 0 \<or> a < base \<or> base + 2560 \<le> a \<or> (\<exists>i j. i \<le> 4 \<and> j < 8 * 2 ^ i \<and> a = buf_addr base i j)" using a i(1) by blast
  next
    assume "c = 0 \<or> a < base \<or> base + 2560 \<le> a \<or> (\<exists>i j. i \<le> 4 \<and> j < 8 * 2 ^ i \<and> a = buf_addr base i j)"
    then obtain i' j' where "i' \<le> 4" "j' < 8 * 2 ^ i'" "a = buf_addr base i' j'" using False by blast
    then show "FreeFixStr a c s \<noteq> None" using FreeFixStr_buffer [OF assms, of i' j' c] False by simp
  qed
qed

theorem FreeFixStr_returns_iff_witness:
  "\<exists>s. fix_wf 4096 s \<and> FreeFixStr 6148 65 s \<noteq> None"
proof -
  obtain s where s: "fix_wf 4096 s" using fix_start_example by blast
  have "6148 = buf_addr 4096 4 1" by (simp add: buf_addr_def buf_size_def)
  then have "FreeFixStr 6148 65 s \<noteq> None"
    by (subst FreeFixStr_returns_iff [OF s]) (intro disjI2 exI [of _ 4] exI [of _ 1], simp)
  then show ?thesis using s by blast
qed

end
