(* ===== verification/MG_SemSet.thy ===== *)
theory MG_SemSet
  imports MG_SlotSet
begin

text \<open>
  The manager of a set of System V semaphores, \<open>src/kernel/sem-manager.c\<close>, which the processes build has: which
  semaphores of the set are in use is a bitmap of slots. The lock around the operations is not modelled.
\<close>

section \<open>Operations\<close>

record SemSetManager =
  semid :: int
  pre_created :: bool
  nr_sems :: int
  use_bmp :: "u8 list"
  sem_val :: "int \<Rightarrow> int"

text \<open>\<open>got\<close> is what \<open>semget\<close> returns; the two flags say whether \<open>calloc\<close> and \<open>malloc\<close> succeed.\<close>

definition create_sem_set_manager :: "bool \<Rightarrow> bool \<Rightarrow> int \<Rightarrow> int \<Rightarrow> int \<Rightarrow> (int \<Rightarrow> int) \<Rightarrow> SemSetManager option" where
  "create_sem_set_manager calloc_ok malloc_ok got sid nr vals =
     (if nr \<le> 0 then None
      else if \<not> calloc_ok then None
      else let s = (if sid < 0 then got else sid)
           in if sid < 0 \<and> got < 0 then None
              else if \<not> malloc_ok then None
              else Some \<lparr>semid = s, pre_created = (sid \<ge> 0), nr_sems = nr, use_bmp = replicate (nat ((nr + 7) div 8)) 0xFF,
                sem_val = vals\<rparr>)"

text \<open>The semaphore number, and the identifier that \<open>*semid\<close> gets. The flag says whether \<open>semctl\<close> sets the value of a
  semaphore of the set; the code does not look at its result.\<close>

definition alloc_mutual_sem :: "bool \<Rightarrow> SemSetManager \<Rightarrow> int \<times> int option \<times> SemSetManager" where
  "alloc_mutual_sem setval_ok m =
     (let (n, bmp) = (case lookfor_unused_slot (use_bmp m) True of None \<Rightarrow> (- 1, use_bmp m) | Some (k, bmp) \<Rightarrow> (int k, bmp));
               n = (if n \<ge> nr_sems m then - 1 else n);
               out = (if n \<ge> 0 then Some (semid m) else None);
               m = m\<lparr>use_bmp := bmp\<rparr>
      in (n, out, if n \<ge> 0 \<and> setval_ok then m\<lparr>sem_val := (sem_val m)(n := 1)\<rparr> else m))"

text \<open>The test of the result of \<open>__mg_slot_clear_use\<close> is always passed: the function returns 1.\<close>

definition free_mutual_sem :: "int \<Rightarrow> SemSetManager \<Rightarrow> int \<times> SemSetManager" where
  "free_mutual_sem sem_num m =
     (if sem_num < 0 \<or> sem_num \<ge> nr_sems m then (- 1, m)
      else (0, m\<lparr>use_bmp := slot_clear_use (use_bmp m) (nat sem_num)\<rparr>))"

section \<open>Runs\<close>

inductive sem_run :: "int \<Rightarrow> SemSetManager \<Rightarrow> int set \<Rightarrow> bool" for nr where
  sem_create: "create_sem_set_manager c a got sid nr vals = Some m \<Longrightarrow> sem_run nr m {}"
| sem_alloc: "sem_run nr m L \<Longrightarrow> alloc_mutual_sem ok m = (n, out, m') \<Longrightarrow> sem_run nr m' (if n \<ge> 0 then insert n L else L)"
| sem_free: "sem_run nr m L \<Longrightarrow> n \<in> L \<Longrightarrow> free_mutual_sem n m = (r, m') \<Longrightarrow> sem_run nr m' (L - {n})"

definition sem_inv :: "int \<Rightarrow> SemSetManager \<Rightarrow> int set \<Rightarrow> bool" where
  "sem_inv nr m L \<longleftrightarrow> 0 < nr \<and> nr_sems m = nr \<and> length (use_bmp m) = nat ((nr + 7) div 8)
     \<and> L = {n. 0 \<le> n \<and> n < nr \<and> \<not> slot_idle (use_bmp m) (nat n)}"

lemma bitmap_fits: "0 < nr \<Longrightarrow> 0 \<le> n \<Longrightarrow> n < nr \<Longrightarrow> nat n < 8 * nat ((nr + 7) div 8)"
  by linarith

lemma new_bitmap_idle: "k < 8 * n \<Longrightarrow> slot_idle (replicate n 0xFF) k"
proof -
  assume k: "k < 8 * n"
  have "(0xFF :: u8) = - 1" by simp
  then have "bit (0xFF :: u8) (7 - k mod 8)" by (simp only: bit_minus_1_iff) simp
  moreover have "replicate n (0xFF :: u8) ! (k div 8) = 0xFF" using k by (intro nth_replicate) simp
  ultimately show ?thesis using k by (simp add: slot_idle_def)
qed

lemma create_inv:
  assumes "create_sem_set_manager c a got sid nr vals = Some m"
  shows "sem_inv nr m {}"
proof -
  have m: "0 < nr" "nr_sems m = nr" "use_bmp m = replicate (nat ((nr + 7) div 8)) 0xFF"
    using assms by (auto simp: create_sem_set_manager_def Let_def split: if_splits)
  have "slot_idle (use_bmp m) (nat n)" if "0 \<le> n" "n < nr" for n
    unfolding m(3) by (rule new_bitmap_idle [OF bitmap_fits [OF m(1) that]])
  then show ?thesis using m by (auto simp: sem_inv_def)
qed

lemma sem_alloc_inv:
  assumes inv: "sem_inv nr m L" and al: "alloc_mutual_sem ok m = (n, out, m')"
  shows "sem_inv nr m' (if n \<ge> 0 then insert n L else L) \<and> (if n \<ge> 0 then n < nr \<and> n \<notin> L \<and> (ok \<longrightarrow> sem_val m' n = 1) else n = - 1 \<and> L = {0..<nr})"
proof -
  have i: "0 < nr" "nr_sems m = nr" "length (use_bmp m) = nat ((nr + 7) div 8)"
    and L: "L = {n. 0 \<le> n \<and> n < nr \<and> \<not> slot_idle (use_bmp m) (nat n)}" using inv by (auto simp: sem_inv_def)
  show ?thesis
  proof (cases "lookfor_unused_slot (use_bmp m) True")
    case None
    then have no: "\<not> slot_idle (use_bmp m) k" for k
      using lookfor_unused_slot_spec [where bmp = "use_bmp m" and s = True] by auto
    have "n = - 1" "m' = m" using al None i by (auto simp: alloc_mutual_sem_def Let_def)
    then show ?thesis using inv L no by auto
  next
    case (Some p)
    obtain k bmp where p: "p = (k, bmp)" by (cases p)
    have k: "slot_idle (use_bmp m) k" "\<forall>j. slot_idle (use_bmp m) j \<longrightarrow> k \<le> j" "bmp = slot_set_use (use_bmp m) k"
      using lookfor_unused_slot_spec [where bmp = "use_bmp m" and s = True] Some p by auto
    have kl: "k < 8 * length (use_bmp m)" using k(1) by (simp add: slot_idle_def)
    show ?thesis
    proof (cases "int k \<ge> nr")
      case True
      have "n = - 1" "m' = m\<lparr>use_bmp := bmp\<rparr>" using al Some p True i by (auto simp: alloc_mutual_sem_def Let_def)
      moreover have "\<not> slot_idle (use_bmp m) (nat j)" if "0 \<le> j" "j < nr" for j
      proof -
        have "nat j < k" using that True by linarith
        then show ?thesis using k(2) by (meson not_le)
      qed
      moreover have "slot_idle bmp (nat j) = slot_idle (use_bmp m) (nat j)" if "0 \<le> j" "j < nr" for j
      proof -
        have "nat j \<noteq> k" using that True by linarith
        then show ?thesis using slot_idle_set_use [OF kl] k(3) by simp
      qed
      ultimately show ?thesis using i L k(3) by (auto simp: sem_inv_def)
    next
      case False
      have n: "n = int k" "m' = m\<lparr>use_bmp := bmp, sem_val := (if ok then (sem_val m)(int k := 1) else sem_val m)\<rparr>"
        using al Some p False i by (auto simp: alloc_mutual_sem_def Let_def)
      have "{j. 0 \<le> j \<and> j < nr \<and> \<not> slot_idle bmp (nat j)} = insert (int k) L"
        unfolding L k(3) slot_idle_set_use [OF kl] using False by auto
      then show ?thesis using i L k n False by (auto simp: sem_inv_def)
    qed
  qed
qed

lemma sem_free_inv:
  assumes inv: "sem_inv nr m L" and n: "n \<in> L" and fr: "free_mutual_sem n m = (r, m')"
  shows "sem_inv nr m' (L - {n}) \<and> r = 0"
proof -
  have i: "0 < nr" "nr_sems m = nr" "length (use_bmp m) = nat ((nr + 7) div 8)"
    and L: "L = {n. 0 \<le> n \<and> n < nr \<and> \<not> slot_idle (use_bmp m) (nat n)}" using inv by (auto simp: sem_inv_def)
  have n': "0 \<le> n" "n < nr" "\<not> slot_idle (use_bmp m) (nat n)" using n L by auto
  have nl: "nat n < 8 * length (use_bmp m)" using bitmap_fits [OF i(1) n'(1,2)] i(3) by simp
  have m': "r = 0" "m' = m\<lparr>use_bmp := slot_clear_use (use_bmp m) (nat n)\<rparr>" using fr n' i by (auto simp: free_mutual_sem_def)
  have "{j. 0 \<le> j \<and> j < nr \<and> \<not> slot_idle (slot_clear_use (use_bmp m) (nat n)) (nat j)} = L - {n}"
    unfolding L slot_idle_clear_use [OF nl] using n' by auto
  then show ?thesis using i m' by (simp add: sem_inv_def)
qed

lemma sem_run_inv: "sem_run nr m L \<Longrightarrow> sem_inv nr m L"
proof (induction rule: sem_run.induct)
  case (sem_alloc m L n out m')
  then show ?case using sem_alloc_inv by blast
next
  case (sem_free m L n r m')
  then show ?case using sem_free_inv by blast
qed (rule create_inv)

text \<open>C22: As long as a program gives back only the semaphores it has, an allocation never hands
  out a semaphore that is in use: it returns the number of a free semaphore of the set, whose value is then one if
  \<open>semctl\<close> does what it is asked for, and minus one exactly when all are in use; giving a semaphore back always succeeds.\<close>

theorem sem_set_exclusive:
  assumes "sem_run nr m L"
  shows "(case alloc_mutual_sem ok m of (n, out, m') \<Rightarrow>
        if L = {0..<nr} then n = - 1 \<and> out = None else n \<in> {0..<nr} - L \<and> out = Some (semid m) \<and> (ok \<longrightarrow> sem_val m' n = 1))
    \<and> (\<forall>n \<in> L. fst (free_mutual_sem n m) = 0)"
proof -
  have inv: "sem_inv nr m L" by (rule sem_run_inv [OF assms])
  obtain n out m' where a: "alloc_mutual_sem ok m = (n, out, m')" by (cases "alloc_mutual_sem ok m")
  have out: "out = (if n \<ge> 0 then Some (semid m) else None)"
    using a by (auto simp: alloc_mutual_sem_def Let_def split: prod.splits if_splits)
  have fr: "fst (free_mutual_sem n m) = 0" if "n \<in> L" for n
    using sem_free_inv [OF inv that, of "fst (free_mutual_sem n m)" "snd (free_mutual_sem n m)"] by simp
  have full: "n = - 1" if "L = {0..<nr}"
  proof (rule ccontr)
    assume "n \<noteq> - 1"
    then have "n < nr \<and> n \<notin> L \<and> 0 \<le> n" using sem_alloc_inv [OF inv a] by (auto split: if_splits)
    then show False using that atLeastLessThan_iff by blast
  qed
  have al: "if L = {0..<nr} then n = - 1 \<and> out = None else n \<in> {0..<nr} - L \<and> out = Some (semid m) \<and> (ok \<longrightarrow> sem_val m' n = 1)"
  proof (cases "L = {0..<nr}")
    case True
    then show ?thesis using full out by simp
  next
    case False
    then have n0: "0 \<le> n" using sem_alloc_inv [OF inv a] by (metis (full_types))
    have "n < nr \<and> n \<notin> L \<and> (ok \<longrightarrow> sem_val m' n = 1)" using conjunct2 [OF sem_alloc_inv [OF inv a]] unfolding if_P [OF n0] .
    then show ?thesis unfolding if_not_P [OF False] using n0 out by auto
  qed
  show ?thesis unfolding a prod.case using al fr by blast
qed

text \<open>Giving back a semaphore that is not in use is not noticed.\<close>

lemma free_unused_unnoticed:
  "0 \<le> n \<Longrightarrow> n < nr_sems m \<Longrightarrow> fst (free_mutual_sem n m) = 0"
  by (simp add: free_mutual_sem_def)

theorem sem_set_exclusive_witness:
  "\<exists>m. sem_run 5 m {} \<and> fst (alloc_mutual_sem True m) \<in> {0..<5}"
proof -
  obtain m where "create_sem_set_manager True True 7 (- 1) 5 (\<lambda>_. 0) = Some m"
    by (simp add: create_sem_set_manager_def)
  then have r: "sem_run 5 m {}" by (rule sem_create)
  have "(0 :: int) \<in> {0..<5}" by simp
  then have "{} \<noteq> {0..<5 :: int}" by blast
  then show ?thesis using r sem_set_exclusive [OF r, of True] by (auto split: prod.splits)
qed

end
