(* ===== verification/MG_Event.thy ===== *)
theory MG_Event
  imports MG_KernelData
begin

unbundle bit_operations_syntax

text \<open>
  The low level events of \<open>src/kernel/event.c\<close> in MiniGUI-Threads: each call of \<open>kernel_GetLWEvent\<close> compares
  what the input engine reports with the buttons and keys of the last call and gives back at most one event. The
  static variables of the file and of \<open>kernel_RefreshCursor\<close> (\<open>src/kernel/cursor.c\<close>) are the state; what the
  engine reports in one call is a record.
\<close>

section \<open>Data\<close>

type_synonym u32 = "32 word"

named_theorems lw_consts \<open>the constants of event.h and customial.h\<close>

definition IAL_MOUSEEVENT :: u32 where [lw_consts]: "IAL_MOUSEEVENT = 1"
definition IAL_KEYEVENT :: u32 where [lw_consts]: "IAL_KEYEVENT = 2"
definition IAL_MOUSE_LEFTBUTTON :: u32 where [lw_consts]: "IAL_MOUSE_LEFTBUTTON = 1"
definition IAL_MOUSE_RIGHTBUTTON :: u32 where [lw_consts]: "IAL_MOUSE_RIGHTBUTTON = 2"
definition IAL_MOUSE_MIDDLEBUTTON :: u32 where [lw_consts]: "IAL_MOUSE_MIDDLEBUTTON = 4"

datatype mouse_event_code = ME_MOVED
  | ME_LEFTDOWN | ME_LEFTUP | ME_LEFTDBLCLICK
  | ME_RIGHTDOWN | ME_RIGHTUP | ME_RIGHTDBLCLICK
  | ME_MIDDLEDOWN | ME_MIDDLEUP | ME_MIDDLEDBLCLICK

datatype key_event_code = KE_KEYDOWN | KE_KEYUP | KE_KEYLONGPRESS | KE_KEYALWAYSPRESS

record MOUSEEVENT =
  me_event :: mouse_event_code
  me_x :: int
  me_y :: int
  me_status :: dword

record KEYEVENT =
  ke_event :: key_event_code
  ke_scancode :: nat
  ke_status :: dword

text \<open>An event: its type with the member of the union that belongs to it.\<close>

datatype LWEVENT = LWETYPE_TIMEOUT int | LWETYPE_KEY KEYEVENT | LWETYPE_MOUSE MOUSEEVENT

text \<open>The values read from the configuration, and the times of long presses.\<close>

record lw_config =
  dblclicktime :: dword
  timeout_usec :: int
  repeat_usec :: int
  key_longpress_time :: dword
  key_alwayspress_time :: dword
  interval_time :: dword

text \<open>What the engine and the clock say during one call.\<close>

record ial_input =
  UpdateMouse :: bool
  MouseX :: int
  MouseY :: int
  MouseButton :: u32
  UpdateKeyboard :: nat
  KeyboardState :: "u8 list"
  tick_counter :: dword

record lw_state =
  oldx :: int
  oldy :: int
  cursor_x :: int
  cursor_y :: int
  oldbutton :: u32
  time1 :: dword
  time2 :: dword
  time3 :: dword
  ke_time :: dword
  oldkeystate :: "u8 list"
  olddownkey :: nat
  status :: dword
  alt1 :: dword
  alt2 :: dword
  capslock :: dword
  caps_off :: dword
  numlock :: dword
  num_off :: dword
  slock :: dword
  slock_off :: dword
  control1 :: dword
  control2 :: dword
  shift1 :: dword
  shift2 :: dword
  meta1 :: dword
  meta2 :: dword
  ial_leds :: dword
  event_timeout :: "int \<times> int"
  starttime :: dword
  flag1 :: bool
  flag2 :: bool
  timeout_count :: int
  old_lwe :: LWEVENT

definition DEF_MSEC_DBLCLICK :: int where "DEF_MSEC_DBLCLICK = 300"
definition DEF_USEC_TIMEOUT :: int where "DEF_USEC_TIMEOUT = 300000"
definition DEF_REPEAT_TIME :: int where "DEF_REPEAT_TIME = 50000"
definition MGUI_NR_KEYS :: nat where "MGUI_NR_KEYS = 255"

section \<open>Initial values\<close>

text \<open>The configuration entries, where present, as the integers that \<open>atoi\<close> returns.\<close>

definition GetDblclickTime :: "int option \<Rightarrow> dword" where
  "GetDblclickTime ms = (case ms of None \<Rightarrow> word_of_int (DEF_MSEC_DBLCLICK div 10)
     | Some m \<Rightarrow> if m > 0 \<and> m < 1000 then word_of_int (m div 10) else word_of_int (DEF_MSEC_DBLCLICK div 10))"

definition GetTimeout :: "int option \<Rightarrow> int option \<Rightarrow> int \<times> int" where
  "GetTimeout myrepeatusec mytimeoutusec = (case myrepeatusec of None \<Rightarrow> (DEF_USEC_TIMEOUT, DEF_REPEAT_TIME)
     | Some r \<Rightarrow> (case mytimeoutusec of None \<Rightarrow> (DEF_USEC_TIMEOUT, DEF_REPEAT_TIME)
       | Some t \<Rightarrow> if r \<ge> 0 \<and> t > 0 then (t, r) else (DEF_USEC_TIMEOUT, DEF_REPEAT_TIME)))"

definition ResetMouseEvent :: "lw_state \<Rightarrow> lw_state" where
  "ResetMouseEvent s = s\<lparr>oldbutton := 0, time1 := 0, time2 := 0, time3 := 0\<rparr>"

definition leds_of :: "lw_state \<Rightarrow> dword" where
  "leds_of s = slock s OR push_bit 1 (numlock s) OR push_bit 2 (capslock s)"

definition ResetKeyEvent :: "lw_config \<Rightarrow> lw_state \<Rightarrow> lw_state" where
  "ResetKeyEvent cfg s =
     (let s = s\<lparr>oldkeystate := replicate (MGUI_NR_KEYS + 1) 0, olddownkey := 0, status := 0, alt1 := 0, alt2 := 0,
           control1 := 0, control2 := 0, shift1 := 0, shift2 := 0, capslock := 0, caps_off := 1, numlock := 0,
           num_off := 1, slock := 0, slock_off := 1, meta1 := 0, meta2 := 0\<rparr>
      in s\<lparr>ial_leds := leds_of s, event_timeout := (0, timeout_usec cfg)\<rparr>)"

text \<open>The statics as the program starts, and \<open>mg_InitLWEvent\<close>; \<open>ial_failed\<close> is what \<open>mg_InitIAL\<close> returns.\<close>

definition lw_zero :: lw_state where
  "lw_zero = \<lparr>oldx = -1, oldy = 0, cursor_x = 0, cursor_y = 0, oldbutton = 0, time1 = 0, time2 = 0, time3 = 0, ke_time = 0,
     oldkeystate = replicate (MGUI_NR_KEYS + 1) 0, olddownkey = 0, status = 0, alt1 = 0, alt2 = 0, capslock = 0, caps_off = 1,
     numlock = 0, num_off = 1, slock = 0, slock_off = 1, control1 = 0, control2 = 0, shift1 = 0, shift2 = 0, meta1 = 0, meta2 = 0,
     ial_leds = 0, event_timeout = (0, 0), starttime = 0, flag1 = False, flag2 = True, timeout_count = 0,
     old_lwe = LWETYPE_TIMEOUT 0\<rparr>"

definition mg_InitLWEvent :: "int option \<Rightarrow> int option \<Rightarrow> int option \<Rightarrow> bool \<Rightarrow> lw_config \<Rightarrow> lw_state \<Rightarrow> (lw_config \<times> lw_state) option" where
  "mg_InitLWEvent ms rep tmo ial_failed cfg s =
     (let cfg = cfg\<lparr>dblclicktime := GetDblclickTime ms, timeout_usec := fst (GetTimeout rep tmo), repeat_usec := snd (GetTimeout rep tmo)\<rparr>
      in if ial_failed then None else Some (cfg, ResetKeyEvent cfg (ResetMouseEvent s)))"

section \<open>The mouse\<close>

definition kernel_RefreshCursor :: "ial_input \<Rightarrow> lw_state \<Rightarrow> bool \<times> lw_state" where
  "kernel_RefreshCursor inp s =
     (let s = s\<lparr>cursor_x := MouseX inp, cursor_y := MouseY inp\<rparr>
      in if oldx s \<noteq> cursor_x s \<or> oldy s \<noteq> cursor_y s then (True, s\<lparr>oldx := cursor_x s, oldy := cursor_y s\<rparr>) else (False, s))"

text \<open>The tests of the three buttons, in the order of the code; None when none of them applies.\<close>

definition button_event :: "lw_config \<Rightarrow> u32 \<Rightarrow> dword \<Rightarrow> lw_state \<Rightarrow> (mouse_event_code \<times> lw_state) option" where
  "button_event cfg button now s =
     (if oldbutton s AND IAL_MOUSE_LEFTBUTTON = 0 \<and> button AND IAL_MOUSE_LEFTBUTTON \<noteq> 0 then
        Some (if now - time1 s \<le> dblclicktime cfg then ME_LEFTDBLCLICK else ME_LEFTDOWN, s\<lparr>time1 := now\<rparr>)
      else if oldbutton s AND IAL_MOUSE_LEFTBUTTON \<noteq> 0 \<and> button AND IAL_MOUSE_LEFTBUTTON = 0 then Some (ME_LEFTUP, s)
      else if oldbutton s AND IAL_MOUSE_RIGHTBUTTON = 0 \<and> button AND IAL_MOUSE_RIGHTBUTTON \<noteq> 0 then
        Some (if now - time2 s \<le> dblclicktime cfg then ME_RIGHTDBLCLICK else ME_RIGHTDOWN, s\<lparr>time2 := now\<rparr>)
      else if oldbutton s AND IAL_MOUSE_RIGHTBUTTON \<noteq> 0 \<and> button AND IAL_MOUSE_RIGHTBUTTON = 0 then Some (ME_RIGHTUP, s)
      else if oldbutton s AND IAL_MOUSE_MIDDLEBUTTON = 0 \<and> button AND IAL_MOUSE_MIDDLEBUTTON \<noteq> 0 then
        Some (if now - time3 s \<le> dblclicktime cfg then ME_MIDDLEDBLCLICK else ME_MIDDLEDOWN, s\<lparr>time3 := now\<rparr>)
      else if oldbutton s AND IAL_MOUSE_MIDDLEBUTTON \<noteq> 0 \<and> button AND IAL_MOUSE_MIDDLEBUTTON = 0 then Some (ME_MIDDLEUP, s)
      else None)"

definition KS_LEFTBUTTON :: dword where [lw_consts]: "KS_LEFTBUTTON = 0x00010000"
definition KS_RIGHTBUTTON :: dword where [lw_consts]: "KS_RIGHTBUTTON = 0x00020000"
definition KS_MIDDLEBUTTON :: dword where [lw_consts]: "KS_MIDDLEBUTTON = 0x00040000"
definition MASK_KS_BUTTONS :: dword where [lw_consts]: "MASK_KS_BUTTONS = 0x000F0000"
definition MASK_KS_SHIFTKEYS :: dword where [lw_consts]: "MASK_KS_SHIFTKEYS = 0x0000FFFF"
definition KS_REPEATED :: dword where [lw_consts]: "KS_REPEATED = 0x00000800"

definition button_bits :: "u32 \<Rightarrow> dword" where
  "button_bits b = (if b AND IAL_MOUSE_LEFTBUTTON \<noteq> 0 then KS_LEFTBUTTON else 0)
     OR (if b AND IAL_MOUSE_RIGHTBUTTON \<noteq> 0 then KS_RIGHTBUTTON else 0)
     OR (if b AND IAL_MOUSE_MIDDLEBUTTON \<noteq> 0 then KS_MIDDLEBUTTON else 0)"

text \<open>The end of the function, from the label \<open>mouseret\<close>.\<close>

definition mouseret :: "lw_config \<Rightarrow> mouse_event_code \<Rightarrow> ial_input \<Rightarrow> lw_state \<Rightarrow> LWEVENT option \<times> lw_state" where
  "mouseret cfg ev inp s =
     (let s = s\<lparr>status := status s AND NOT MASK_KS_BUTTONS, oldbutton := MouseButton inp\<rparr>;
          s = s\<lparr>status := status s OR button_bits (oldbutton s)\<rparr>;
          lwe = LWETYPE_MOUSE \<lparr>me_event = ev, me_x = MouseX inp, me_y = MouseY inp, me_status = status s\<rparr>
      in (Some lwe, s\<lparr>old_lwe := lwe, event_timeout := (0, timeout_usec cfg)\<rparr>))"

section \<open>The keyboard\<close>

definition treat_longpress :: "lw_config \<Rightarrow> dword \<Rightarrow> dword \<Rightarrow> lw_state \<Rightarrow> key_event_code \<times> lw_state" where
  "treat_longpress cfg now interval s =
     (let lp = key_longpress_time cfg; ap = key_alwayspress_time cfg; maxctime = (if lp < ap then lp else ap);
          long = (if \<not> flag1 s then (KE_KEYLONGPRESS, s\<lparr>flag1 := True\<rparr>) else (KE_KEYDOWN, s));
          always = (if flag2 s then (KE_KEYALWAYSPRESS, s\<lparr>flag2 := False, starttime := now\<rparr>)
            else if now - starttime s < interval_time cfg then (KE_KEYDOWN, s)
            else (KE_KEYALWAYSPRESS, s\<lparr>starttime := now\<rparr>))
      in if lp = 0 \<or> interval < maxctime then (KE_KEYDOWN, s\<lparr>flag1 := False, flag2 := True\<rparr>)
         else if maxctime < ap then (if interval \<ge> lp \<and> interval \<le> ap then long else always)
         else if interval \<ge> ap \<and> interval \<le> lp then always else long)"

text \<open>The loop that looks for the first key whose state has changed: its scan code and whether it went down.\<close>

fun find_key_change :: "u8 list \<Rightarrow> u8 list \<Rightarrow> nat \<Rightarrow> nat \<Rightarrow> (nat \<times> bool) option" where
  "find_key_change old new i 0 = None"
| "find_key_change old new i (Suc n) =
     (if old ! i = 0 \<and> new ! i \<noteq> 0 then Some (i, True)
      else if old ! i \<noteq> 0 \<and> new ! i = 0 then Some (i, False)
      else find_key_change old new (i + 1) n)"

definition SCANCODE_CAPSLOCK :: nat where [lw_consts]: "SCANCODE_CAPSLOCK = 58"
definition SCANCODE_NUMLOCK :: nat where [lw_consts]: "SCANCODE_NUMLOCK = 69"
definition SCANCODE_SCROLLLOCK :: nat where [lw_consts]: "SCANCODE_SCROLLLOCK = 70"
definition SCANCODE_LEFTCONTROL :: nat where [lw_consts]: "SCANCODE_LEFTCONTROL = 29"
definition SCANCODE_RIGHTCONTROL :: nat where [lw_consts]: "SCANCODE_RIGHTCONTROL = 97"
definition SCANCODE_LEFTSHIFT :: nat where [lw_consts]: "SCANCODE_LEFTSHIFT = 42"
definition SCANCODE_RIGHTSHIFT :: nat where [lw_consts]: "SCANCODE_RIGHTSHIFT = 54"
definition SCANCODE_LEFTALT :: nat where [lw_consts]: "SCANCODE_LEFTALT = 56"
definition SCANCODE_RIGHTALT :: nat where [lw_consts]: "SCANCODE_RIGHTALT = 100"
definition SCANCODE_LEFTMETA :: nat where [lw_consts]: "SCANCODE_LEFTMETA = 125"
definition SCANCODE_RIGHTMETA :: nat where [lw_consts]: "SCANCODE_RIGHTMETA = 126"

text \<open>The switch on the scan code.\<close>

definition set_leds :: "lw_state \<Rightarrow> lw_state" where
  "set_leds s = s\<lparr>ial_leds := leds_of s, status := push_bit 16 (leds_of s)\<rparr>"

definition key_switch :: "nat \<Rightarrow> dword \<Rightarrow> lw_state \<Rightarrow> lw_state" where
  "key_switch sc mk s =
     (if sc = SCANCODE_CAPSLOCK then
        (if mk \<noteq> 0 \<and> caps_off s \<noteq> 0 then set_leds (s\<lparr>capslock := 1 - capslock s\<rparr>) else s)\<lparr>caps_off := 1 - mk\<rparr>
      else if sc = SCANCODE_NUMLOCK then
        (if mk \<noteq> 0 \<and> num_off s \<noteq> 0 then set_leds (s\<lparr>numlock := 1 - numlock s\<rparr>) else s)\<lparr>num_off := 1 - mk\<rparr>
      else if sc = SCANCODE_SCROLLLOCK then
        (if mk AND slock_off s \<noteq> 0 then set_leds (s\<lparr>slock := 1 - slock s\<rparr>) else s)\<lparr>slock_off := 1 - mk\<rparr>
      else if sc = SCANCODE_LEFTCONTROL then s\<lparr>control1 := mk\<rparr>
      else if sc = SCANCODE_RIGHTCONTROL then s\<lparr>control2 := mk\<rparr>
      else if sc = SCANCODE_LEFTSHIFT then s\<lparr>shift1 := mk\<rparr>
      else if sc = SCANCODE_RIGHTSHIFT then s\<lparr>shift2 := mk\<rparr>
      else if sc = SCANCODE_LEFTALT then s\<lparr>alt1 := mk\<rparr>
      else if sc = SCANCODE_RIGHTALT then s\<lparr>alt2 := mk\<rparr>
      else if sc = SCANCODE_LEFTMETA then s\<lparr>meta1 := mk\<rparr>
      else if sc = SCANCODE_RIGHTMETA then s\<lparr>meta2 := mk\<rparr>
      else s)"

definition shift_word :: "lw_state \<Rightarrow> dword" where
  "shift_word s = push_bit 13 (meta1 s) OR push_bit 12 (meta2 s) OR push_bit 8 (capslock s) OR push_bit 7 (numlock s)
     OR push_bit 6 (slock s) OR push_bit 5 (control1 s) OR push_bit 4 (control2 s) OR push_bit 3 (alt1 s)
     OR push_bit 2 (alt2 s) OR push_bit 1 (shift1 s) OR shift2 s"

definition update_status :: "lw_state \<Rightarrow> lw_state" where
  "update_status s = s\<lparr>status := (status s AND NOT MASK_KS_SHIFTKEYS) OR shift_word s OR button_bits (oldbutton s)\<rparr>"

text \<open>The branch for a key event; \<open>nr_keys\<close> is not zero.\<close>

definition keyret :: "lw_config \<Rightarrow> key_event_code \<Rightarrow> nat \<Rightarrow> ial_input \<Rightarrow> lw_state \<Rightarrow> LWEVENT option \<times> lw_state" where
  "keyret cfg ev sc inp s =
     (let lwe = LWETYPE_KEY \<lparr>ke_event = ev, ke_scancode = sc, ke_status = status s\<rparr>; nr = UpdateKeyboard inp
      in (Some lwe, s\<lparr>oldkeystate := take nr (KeyboardState inp) @ drop nr (oldkeystate s), old_lwe := lwe,
            event_timeout := (0, timeout_usec cfg)\<rparr>))"

definition key_event :: "lw_config \<Rightarrow> ial_input \<Rightarrow> lw_state \<Rightarrow> LWEVENT option \<times> lw_state" where
  "key_event cfg inp s =
     (case find_key_change (oldkeystate s) (KeyboardState inp) 1 (UpdateKeyboard inp - 1) of
        Some (i, down) \<Rightarrow>
          let s = (if down then s\<lparr>ke_time := tick_counter inp, olddownkey := i\<rparr> else s\<lparr>olddownkey := 0\<rparr>);
              s = update_status (key_switch i (if down then 1 else 0) s)
          in keyret cfg (if down then KE_KEYDOWN else KE_KEYUP) i inp s
      | None \<Rightarrow>
          if olddownkey s = 0 then (None, s)
          else let (ev, s) = treat_longpress cfg (tick_counter inp) (tick_counter inp - ke_time s) s;
                   s = (if ev = KE_KEYDOWN then s\<lparr>status := status s OR KS_REPEATED\<rparr> else s)
               in keyret cfg ev (olddownkey s) inp s)"

section \<open>One event\<close>

text \<open>Nothing happened: repeat the last key, report a timeout, or wait on.\<close>

definition is_button_down :: "LWEVENT \<Rightarrow> bool" where
  "is_button_down lwe = (case lwe of LWETYPE_MOUSE me \<Rightarrow> me_event me \<in> {ME_LEFTDOWN, ME_RIGHTDOWN, ME_MIDDLEDOWN} | _ \<Rightarrow> False)"

definition key_down_of :: "LWEVENT \<Rightarrow> KEYEVENT option" where
  "key_down_of lwe = (case lwe of LWETYPE_KEY ke \<Rightarrow> if ke_event ke = KE_KEYDOWN then Some ke else None | _ \<Rightarrow> None)"

definition no_event :: "lw_config \<Rightarrow> ial_input \<Rightarrow> lw_state \<Rightarrow> LWEVENT option \<times> lw_state" where
  "no_event cfg inp s =
     (if event_timeout s = (0, 0) then
        let s = s\<lparr>event_timeout := (0, repeat_usec cfg)\<rparr>
        in case key_down_of (old_lwe s) of
             Some ke \<Rightarrow>
               let (ev, s) = treat_longpress cfg (tick_counter inp) (tick_counter inp - ke_time s) s
               in (Some (LWETYPE_KEY (ke\<lparr>ke_event := ev, ke_status := (if ev = KE_KEYDOWN then ke_status ke OR KS_REPEATED else ke_status ke)\<rparr>)), s)
           | None \<Rightarrow>
               let s = (if \<not> is_button_down (old_lwe s) then s\<lparr>event_timeout := (0, timeout_usec cfg)\<rparr> else s);
                   s = s\<lparr>timeout_count := timeout_count s + 1\<rparr>
               in (Some (LWETYPE_TIMEOUT (timeout_count s)), s)
      else (None, s\<lparr>old_lwe := LWETYPE_TIMEOUT 0\<rparr>))"

text \<open>The branch for a mouse event; None for the event when it goes on to the branch for keys.\<close>

definition mouse_event :: "lw_config \<Rightarrow> ial_input \<Rightarrow> lw_state \<Rightarrow> LWEVENT option \<times> lw_state" where
  "mouse_event cfg inp s =
     (let (moved, s) = kernel_RefreshCursor inp s;
          s = (if moved then s\<lparr>time1 := 0, time2 := 0, time3 := 0\<rparr> else s)
      in if moved \<and> MouseButton inp = oldbutton s then mouseret cfg ME_MOVED inp s
         else case button_event cfg (MouseButton inp) (tick_counter inp) s of
                Some (ev, s) \<Rightarrow> mouseret cfg ev inp s
              | None \<Rightarrow> (None, s))"

definition kernel_GetLWEvent :: "lw_config \<Rightarrow> u32 \<Rightarrow> ial_input \<Rightarrow> lw_state \<Rightarrow> LWEVENT option \<times> lw_state" where
  "kernel_GetLWEvent cfg event inp s =
     (let event = (if event AND IAL_MOUSEEVENT \<noteq> 0 \<and> \<not> UpdateMouse inp then event AND NOT IAL_MOUSEEVENT else event);
          event = (if event AND IAL_KEYEVENT \<noteq> 0 \<and> UpdateKeyboard inp = 0 then event AND NOT IAL_KEYEVENT else event)
      in if event = 0 then no_event cfg inp s
         else let s = s\<lparr>timeout_count := 0\<rparr>;
                  (lwe, s) = (if event AND IAL_MOUSEEVENT \<noteq> 0 then mouse_event cfg inp s else (None, s))
              in if lwe \<noteq> None then (lwe, s)
                 else if event AND IAL_KEYEVENT \<noteq> 0 then key_event cfg inp s
                 else (None, s\<lparr>old_lwe := LWETYPE_TIMEOUT 0\<rparr>))"

text \<open>What programs can ask for.\<close>

definition GetKeyStatus :: "u32 \<Rightarrow> lw_state \<Rightarrow> nat" where
  "GetKeyStatus uKey s =
     (if uKey AND 0xF000 \<noteq> 0 then (if oldbutton s AND drop_bit 12 uKey \<noteq> 0 then 1 else 0)
      else if unat uKey \<le> MGUI_NR_KEYS then unat (oldkeystate s ! unat uKey) else 0)"

definition GetShiftKeyStatus :: "lw_state \<Rightarrow> dword" where
  "GetShiftKeyStatus s = status s"

definition GetKeyboardState :: "lw_state \<Rightarrow> u8 list" where
  "GetKeyboardState s = oldkeystate s"

end
