(* ===== verification/MG_EventInv.thy ===== *)
theory MG_EventInv
  imports MG_Event
begin

unbundle bit_operations_syntax

text \<open>
  The state that \<open>kernel_GetLWEvent\<close> keeps: what holds of the static variables of \<open>src/kernel/event.c\<close> after every
  sequence of calls, whatever the engine reports, and how the word of shift keys is put together.
\<close>

section \<open>Runs\<close>

text \<open>One call: the time that the wait has left in \<open>__mg_event_timeout\<close>, the event and what the engine says. A run
  returns the events it gave back.\<close>

type_synonym lw_call = "(int \<times> int) \<times> u32 \<times> ial_input"

definition lw_step :: "lw_config \<Rightarrow> lw_call \<Rightarrow> lw_state \<Rightarrow> LWEVENT option \<times> lw_state" where
  "lw_step cfg c s = (case c of (left, event, inp) \<Rightarrow> kernel_GetLWEvent cfg event inp (s\<lparr>event_timeout := left\<rparr>))"

fun lw_run :: "lw_config \<Rightarrow> lw_call list \<Rightarrow> lw_state \<Rightarrow> LWEVENT option list \<times> lw_state" where
  "lw_run cfg [] s = ([], s)"
| "lw_run cfg (c # cs) s = (let (r, s) = lw_step cfg c s; (rs, s) = lw_run cfg cs s in (r # rs, s))"

text \<open>The promise of an input engine: a state for each of the 256 keys.\<close>

definition ial_ok :: "ial_input \<Rightarrow> bool" where
  "ial_ok inp \<longleftrightarrow> length (KeyboardState inp) = 256 \<and> UpdateKeyboard inp \<le> 256"

definition call_ok :: "lw_call \<Rightarrow> bool" where
  "call_ok c \<longleftrightarrow> ial_ok (snd (snd c))"

section \<open>The state\<close>

definition is_flag :: "dword \<Rightarrow> bool" where
  "is_flag x \<longleftrightarrow> x = 0 \<or> x = 1"

definition mod_flags :: "lw_state \<Rightarrow> dword list" where
  "mod_flags s = [control1 s, control2 s, shift1 s, shift2 s, alt1 s, alt2 s, meta1 s, meta2 s]"

definition lock_flags :: "lw_state \<Rightarrow> dword list" where
  "lock_flags s = [capslock s, numlock s, slock s, caps_off s, num_off s, slock_off s]"

definition status_ok :: "lw_state \<Rightarrow> bool" where
  "status_ok s \<longleftrightarrow> status s AND 0xF7FF = shift_word s \<and> status s AND NOT 0xFFFFF = 0"

definition held_ok :: "lw_state \<Rightarrow> bool" where
  "held_ok s \<longleftrightarrow> length (oldkeystate s) = 256 \<and> olddownkey s < 256 \<and> (olddownkey s \<noteq> 0 \<longrightarrow> oldkeystate s ! olddownkey s \<noteq> 0)"

definition lw_wf :: "lw_state \<Rightarrow> bool" where
  "lw_wf s \<longleftrightarrow> (\<forall>x \<in> set (mod_flags s @ lock_flags s). is_flag x) \<and> status_ok s \<and> held_ok s"

lemma flag_bits:
  "is_flag x \<Longrightarrow> n \<in> {0, 1, 2, 3, 4, 5, 6, 7, 8, 12, 13} \<Longrightarrow> push_bit n x AND 0xF7FF = push_bit n x \<and> push_bit n x AND NOT 0xFFFFF = 0"
  by (auto simp: is_flag_def)

lemma shift_word_bits:
  assumes "\<forall>x \<in> set (mod_flags s @ lock_flags s). is_flag x"
  shows "shift_word s AND 0xF7FF = shift_word s" "shift_word s AND NOT 0xFFFFF = 0"
proof -
  have f: "is_flag (meta1 s)" "is_flag (meta2 s)" "is_flag (capslock s)" "is_flag (numlock s)" "is_flag (slock s)"
    "is_flag (control1 s)" "is_flag (control2 s)" "is_flag (alt1 s)" "is_flag (alt2 s)" "is_flag (shift1 s)" "is_flag (shift2 s)"
    using assms by (auto simp: mod_flags_def lock_flags_def)
  note b = flag_bits [OF f(1), of 13] flag_bits [OF f(2), of 12] flag_bits [OF f(3), of 8] flag_bits [OF f(4), of 7]
    flag_bits [OF f(5), of 6] flag_bits [OF f(6), of 5] flag_bits [OF f(7), of 4] flag_bits [OF f(8), of 3]
    flag_bits [OF f(9), of 2] flag_bits [OF f(10), of 1] flag_bits [OF f(11), of 0]
  show "shift_word s AND 0xF7FF = shift_word s" "shift_word s AND NOT 0xFFFFF = 0"
    using b unfolding shift_word_def bit.conj_disj_distrib2 by simp_all
qed

lemma button_bits_mask: "button_bits b AND 0xF7FF = 0" "button_bits b AND NOT 0xFFFFF = 0"
  by (simp_all add: button_bits_def lw_consts)

text \<open>The frame of the updates.\<close>

lemma key_switch_mods:
  "control1 (key_switch sc mk s) = (if sc = 29 then mk else control1 s)"
  "control2 (key_switch sc mk s) = (if sc = 97 then mk else control2 s)"
  "shift1 (key_switch sc mk s) = (if sc = 42 then mk else shift1 s)"
  "shift2 (key_switch sc mk s) = (if sc = 54 then mk else shift2 s)"
  "alt1 (key_switch sc mk s) = (if sc = 56 then mk else alt1 s)"
  "alt2 (key_switch sc mk s) = (if sc = 100 then mk else alt2 s)"
  "meta1 (key_switch sc mk s) = (if sc = 125 then mk else meta1 s)"
  "meta2 (key_switch sc mk s) = (if sc = 126 then mk else meta2 s)"
  by (simp_all add: key_switch_def set_leds_def lw_consts)

lemma key_switch_locks:
  "capslock (key_switch sc mk s) = (if sc = 58 \<and> mk \<noteq> 0 \<and> caps_off s \<noteq> 0 then 1 - capslock s else capslock s)"
  "numlock (key_switch sc mk s) = (if sc = 69 \<and> mk \<noteq> 0 \<and> num_off s \<noteq> 0 then 1 - numlock s else numlock s)"
  "slock (key_switch sc mk s) = (if sc = 70 \<and> mk AND slock_off s \<noteq> 0 then 1 - slock s else slock s)"
  "caps_off (key_switch sc mk s) = (if sc = 58 then 1 - mk else caps_off s)"
  "num_off (key_switch sc mk s) = (if sc = 69 then 1 - mk else num_off s)"
  "slock_off (key_switch sc mk s) = (if sc = 70 then 1 - mk else slock_off s)"
  by (simp_all add: key_switch_def set_leds_def lw_consts)

lemma key_switch_flags:
  assumes "is_flag mk" "\<forall>x \<in> set (mod_flags s @ lock_flags s). is_flag x"
  shows "\<forall>x \<in> set (mod_flags (key_switch sc mk s) @ lock_flags (key_switch sc mk s)). is_flag x"
proof -
  have "is_flag (1 - x)" if "is_flag x" for x using that by (auto simp: is_flag_def)
  then show ?thesis using assms by (simp add: key_switch_mods key_switch_locks mod_flags_def lock_flags_def)
qed

lemma key_switch_held [simp]:
  "oldkeystate (key_switch sc mk s) = oldkeystate s" "olddownkey (key_switch sc mk s) = olddownkey s"
  "oldbutton (key_switch sc mk s) = oldbutton s"
  by (simp_all add: key_switch_def set_leds_def lw_consts)

lemma update_status_ok:
  assumes "\<forall>x \<in> set (mod_flags s @ lock_flags s). is_flag x" "status s AND NOT 0xFFFFF = 0"
  shows "status_ok (update_status s)"
proof -
  have w: "shift_word (update_status s) = shift_word s" by (simp add: update_status_def shift_word_def)
  have s: "status (update_status s) = (status s AND NOT MASK_KS_SHIFTKEYS) OR shift_word s OR button_bits (oldbutton s)"
    by (simp add: update_status_def)
  have m: "(status s AND NOT MASK_KS_SHIFTKEYS) AND 0xF7FF = 0" by (simp add: lw_consts and.assoc)
  have n: "(status s AND NOT MASK_KS_SHIFTKEYS) AND NOT 0xFFFFF = 0"
    using assms(2) by (simp add: and.assoc and.left_commute and.commute)
  show ?thesis unfolding status_ok_def s w bit.conj_disj_distrib2 m n button_bits_mask shift_word_bits [OF assms(1)] by simp
qed

lemma key_switch_status:
  assumes "status s AND NOT 0xFFFFF = 0" "\<forall>x \<in> set (mod_flags s @ lock_flags s). is_flag x"
  shows "status (key_switch sc mk s) AND NOT 0xFFFFF = 0"
proof -
  have leds: "push_bit 16 (leds_of t) AND NOT 0xFFFFF = 0" if "is_flag (slock t)" "is_flag (numlock t)" "is_flag (capslock t)" for t
    using that unfolding leds_of_def by (auto simp: is_flag_def)
  have "is_flag (1 - x)" if "is_flag x" for x using that by (auto simp: is_flag_def)
  then show ?thesis using assms leds by (simp add: key_switch_def set_leds_def lock_flags_def)
qed

section \<open>Every call keeps it\<close>

lemma lw_wf_cong:
  assumes "lw_wf s" "mod_flags t = mod_flags s" "lock_flags t = lock_flags s" "status t = status s"
    "oldkeystate t = oldkeystate s" "olddownkey t = olddownkey s"
  shows "lw_wf t"
proof -
  have "shift_word t = shift_word s" using assms(2,3) by (simp add: shift_word_def mod_flags_def lock_flags_def)
  then show ?thesis using assms by (simp add: lw_wf_def status_ok_def held_ok_def)
qed

lemma longpress_frame:
  assumes "treat_longpress cfg now d s = (ev, t)"
  shows "mod_flags t = mod_flags s" "lock_flags t = lock_flags s" "status t = status s" "oldkeystate t = oldkeystate s"
    "olddownkey t = olddownkey s" "oldbutton t = oldbutton s" "ke_time t = ke_time s" "ev \<noteq> KE_KEYUP"
  using assms by (auto simp: treat_longpress_def Let_def mod_flags_def lock_flags_def split: if_splits)

lemma refresh_frame:
  assumes "kernel_RefreshCursor inp s = (m, t)"
  shows "mod_flags t = mod_flags s" "lock_flags t = lock_flags s" "status t = status s" "oldkeystate t = oldkeystate s"
    "olddownkey t = olddownkey s" "oldbutton t = oldbutton s" "time1 t = time1 s" "time2 t = time2 s" "time3 t = time3 s"
  using assms by (auto simp: kernel_RefreshCursor_def Let_def mod_flags_def lock_flags_def split: if_splits)

lemma button_event_frame:
  assumes "button_event cfg b now s = Some (ev, t)"
  shows "mod_flags t = mod_flags s" "lock_flags t = lock_flags s" "status t = status s" "oldkeystate t = oldkeystate s"
    "olddownkey t = olddownkey s" "oldbutton t = oldbutton s"
  using assms by (auto simp: button_event_def mod_flags_def lock_flags_def split: if_splits)

lemma mouseret_wf:
  assumes "lw_wf s"
  shows "lw_wf (snd (mouseret cfg ev inp s))"
proof -
  define t where "t = snd (mouseret cfg ev inp s)"
  have st: "status t = (status s AND NOT MASK_KS_BUTTONS) OR button_bits (MouseButton inp)"
    by (simp add: t_def mouseret_def Let_def)
  have fr: "shift_word t = shift_word s" "mod_flags t = mod_flags s" "lock_flags t = lock_flags s" "held_ok t = held_ok s"
    by (simp_all add: t_def mouseret_def Let_def shift_word_def mod_flags_def lock_flags_def held_ok_def)
  have "(status s AND NOT MASK_KS_BUTTONS) AND 0xF7FF = (status s AND 0xF7FF) AND NOT MASK_KS_BUTTONS"
    "(status s AND NOT MASK_KS_BUTTONS) AND NOT 0xFFFFF = (status s AND NOT 0xFFFFF) AND NOT MASK_KS_BUTTONS"
    by (simp_all only: and.assoc and.left_commute and.commute)
  moreover have "(status s AND 0xF7FF) AND NOT MASK_KS_BUTTONS = status s AND 0xF7FF" by (simp add: lw_consts and.assoc)
  ultimately have "status_ok t" using assms unfolding status_ok_def st fr bit.conj_disj_distrib2 button_bits_mask
    by (simp add: lw_wf_def status_ok_def)
  then show ?thesis using assms fr unfolding t_def [symmetric] lw_wf_def by simp
qed

lemma mouse_event_wf:
  assumes "lw_wf s"
  shows "lw_wf (snd (mouse_event cfg inp s))"
proof -
  obtain m t where r: "kernel_RefreshCursor inp s = (m, t)" by (cases "kernel_RefreshCursor inp s")
  define u where "u = (if m then t\<lparr>time1 := 0, time2 := 0, time3 := 0\<rparr> else t)"
  have u: "lw_wf u" by (rule lw_wf_cong [OF assms]) (use refresh_frame [OF r] in \<open>simp_all add: u_def mod_flags_def lock_flags_def\<close>)
  have e: "mouse_event cfg inp s = (if m \<and> MouseButton inp = oldbutton u then mouseret cfg ME_MOVED inp u
      else case button_event cfg (MouseButton inp) (tick_counter inp) u of
        Some (ev, s) \<Rightarrow> mouseret cfg ev inp s | None \<Rightarrow> (None, u))"
    unfolding mouse_event_def r u_def [symmetric] Let_def prod.case by (simp add: u_def)
  show ?thesis
  proof (cases "button_event cfg (MouseButton inp) (tick_counter inp) u")
    case None
    then show ?thesis using mouseret_wf [OF u] u by (simp add: e)
  next
    case (Some p)
    then obtain ev v where p: "button_event cfg (MouseButton inp) (tick_counter inp) u = Some (ev, v)" by (cases p) auto
    then have "lw_wf v" using lw_wf_cong [OF u button_event_frame(1-5) [OF p]] by blast
    then show ?thesis using mouseret_wf u p by (simp add: e)
  qed
qed

lemma find_key_change_spec:
  "find_key_change old new i n = Some (k, d) \<Longrightarrow> i \<le> k \<and> k < i + n \<and> (old ! k \<noteq> 0) = (\<not> d) \<and> (new ! k \<noteq> 0) = d
     \<and> (\<forall>j. i \<le> j \<and> j < k \<longrightarrow> (old ! j = 0) = (new ! j = 0))"
proof (induction n arbitrary: i)
  case (Suc n)
  show ?case
  proof (cases "(old ! i = 0) = (new ! i = 0)")
    case True
    then have "find_key_change old new (i + 1) n = Some (k, d)" using Suc.prems by (auto split: if_splits)
    note IH = Suc.IH [OF this]
    have "(old ! j = 0) = (new ! j = 0)" if j: "i \<le> j" "j < k" for j
    proof (cases "j = i")
      case False
      then have "i + 1 \<le> j" using j by simp
      then show ?thesis using IH j by blast
    qed (use True in simp)
    then show ?thesis using IH by simp
  next
    case False
    then show ?thesis using Suc.prems by (auto split: if_splits)
  qed
qed simp

lemma find_key_change_none:
  "find_key_change old new i n = None \<longleftrightarrow> (\<forall>j. i \<le> j \<and> j < i + n \<longrightarrow> (old ! j = 0) = (new ! j = 0))"
proof (induction n arbitrary: i)
  case (Suc n)
  have "{i..<i + Suc n} = insert i {i + 1..<i + 1 + n}" by auto
  then have "(\<forall>j. i \<le> j \<and> j < i + Suc n \<longrightarrow> P j) = (P i \<and> (\<forall>j. i + 1 \<le> j \<and> j < i + 1 + n \<longrightarrow> P j))" for P
    unfolding atLeastLessThan_iff [symmetric] Ball_def [symmetric] by simp
  then show ?case using Suc.IH [of "i + 1"] unfolding find_key_change.simps by auto
qed auto

lemma keyret_held:
  assumes "ial_ok inp" "length (oldkeystate s) = 256" "olddownkey s < 256"
    "olddownkey s \<noteq> 0 \<Longrightarrow> (if olddownkey s < UpdateKeyboard inp then KeyboardState inp else oldkeystate s) ! olddownkey s \<noteq> 0"
  shows "held_ok (snd (keyret cfg ev sc inp s))"
  using assms by (auto simp: held_ok_def keyret_def Let_def ial_ok_def nth_append)

lemma keyret_wf:
  assumes "\<forall>x \<in> set (mod_flags s @ lock_flags s). is_flag x" "status_ok s" "held_ok (snd (keyret cfg ev sc inp s))"
  shows "lw_wf (snd (keyret cfg ev sc inp s))"
  using assms by (simp add: lw_wf_def keyret_def Let_def status_ok_def shift_word_def mod_flags_def lock_flags_def)

lemma key_event_wf:
  assumes wf: "lw_wf s" and inp: "ial_ok inp"
  shows "lw_wf (snd (key_event cfg inp s))"
proof (cases "find_key_change (oldkeystate s) (KeyboardState inp) 1 (UpdateKeyboard inp - 1)")
  case (Some p)
  obtain i d where p: "p = (i, d)" by (cases p)
  define t where "t = (if d then s\<lparr>ke_time := tick_counter inp, olddownkey := i\<rparr> else s\<lparr>olddownkey := 0\<rparr>)"
  define u where "u = update_status (key_switch i (if d then 1 else 0) t)"
  have ft: "\<forall>x \<in> set (mod_flags t @ lock_flags t). is_flag x" "status t AND NOT 0xFFFFF = 0"
    using wf by (simp_all add: t_def lw_wf_def mod_flags_def lock_flags_def status_ok_def)
  have fk: "\<forall>x \<in> set (mod_flags (key_switch i (if d then 1 else 0) t) @ lock_flags (key_switch i (if d then 1 else 0) t)). is_flag x"
    by (rule key_switch_flags [OF _ ft(1)]) (simp add: is_flag_def)
  have fu: "\<forall>x \<in> set (mod_flags u @ lock_flags u). is_flag x" using fk by (simp add: u_def update_status_def mod_flags_def lock_flags_def)
  have su: "status_ok u" unfolding u_def by (rule update_status_ok [OF fk key_switch_status [OF ft(2,1)]])
  have hu: "oldkeystate u = oldkeystate s" "olddownkey u = (if d then i else 0)"
    by (simp_all add: u_def update_status_def t_def)
  have i: "1 \<le> i" "i < UpdateKeyboard inp" "d \<Longrightarrow> KeyboardState inp ! i \<noteq> 0"
    using find_key_change_spec [OF Some [unfolded p]] by auto
  have "lw_wf (snd (keyret cfg (if d then KE_KEYDOWN else KE_KEYUP) i inp u))"
    by (rule keyret_wf [OF fu su keyret_held [OF inp]]) (use wf hu i inp in \<open>auto simp: lw_wf_def held_ok_def ial_ok_def split: if_splits\<close>)
  then show ?thesis unfolding key_event_def Some p by (simp add: t_def u_def Let_def)
next
  case None
  have held: "held_ok s" using wf by (simp add: lw_wf_def)
  show ?thesis
  proof (cases "olddownkey s = 0")
    case False
    obtain ev t where lp: "treat_longpress cfg (tick_counter inp) (tick_counter inp - ke_time s) s = (ev, t)"
      by (cases "treat_longpress cfg (tick_counter inp) (tick_counter inp - ke_time s) s")
    note fr = longpress_frame [OF lp]
    have t: "lw_wf t" by (rule lw_wf_cong [OF wf fr(1-5)])
    define u where "u = (if ev = KE_KEYDOWN then t\<lparr>status := status t OR KS_REPEATED\<rparr> else t)"
    have su: "status_ok u"
    proof (cases "ev = KE_KEYDOWN")
      case True
      have "shift_word u = shift_word t" by (simp add: u_def shift_word_def)
      then show ?thesis using t True unfolding status_ok_def u_def by (simp add: lw_wf_def status_ok_def bit.conj_disj_distrib2 lw_consts)
    qed (use t in \<open>simp add: u_def lw_wf_def\<close>)
    have fu: "\<forall>x \<in> set (mod_flags u @ lock_flags u). is_flag x" using t by (simp add: u_def lw_wf_def mod_flags_def lock_flags_def)
    have hu: "oldkeystate u = oldkeystate s" "olddownkey u = olddownkey s" using fr by (simp_all add: u_def)
    have same: "(oldkeystate s ! j = 0) = (KeyboardState inp ! j = 0)" if "1 \<le> j" "j < UpdateKeyboard inp" for j
      using None that unfolding find_key_change_none by auto
    have "lw_wf (snd (keyret cfg ev (olddownkey s) inp u))"
      by (rule keyret_wf [OF fu su keyret_held [OF inp]]) (use held hu same [of "olddownkey s"] in \<open>auto simp: held_ok_def\<close>)
    then show ?thesis unfolding key_event_def None using False by (simp add: lp u_def [symmetric] Let_def hu)
  next
    case True
    then show ?thesis unfolding key_event_def None using wf by simp
  qed
qed

lemma no_event_wf:
  assumes "lw_wf s"
  shows "lw_wf (snd (no_event cfg inp s))"
proof -
  define t where "t = s\<lparr>event_timeout := (0, repeat_usec cfg)\<rparr>"
  have t: "lw_wf t" by (rule lw_wf_cong [OF assms]) (simp_all add: t_def mod_flags_def lock_flags_def)
  obtain ev u where lp: "treat_longpress cfg (tick_counter inp) (tick_counter inp - ke_time t) t = (ev, u)"
    by (cases "treat_longpress cfg (tick_counter inp) (tick_counter inp - ke_time t) t")
  have u: "lw_wf u" by (rule lw_wf_cong [OF t longpress_frame(1-5) [OF lp]])
  have "lw_wf (snd (no_event cfg inp s)) \<or> snd (no_event cfg inp s) = u"
  proof (cases "event_timeout s = (0, 0) \<and> key_down_of (old_lwe t) \<noteq> None")
    case True
    then show ?thesis using lp by (auto simp: no_event_def t_def [symmetric] Let_def split: prod.splits)
  next
    case False
    have "lw_wf (snd (no_event cfg inp s))"
      by (rule lw_wf_cong [OF assms]) (use False in \<open>auto simp: no_event_def t_def Let_def mod_flags_def lock_flags_def split: option.splits\<close>)
    then show ?thesis ..
  qed
  then show ?thesis using u by auto
qed

lemma GetLWEvent_wf:
  assumes wf: "lw_wf s" and inp: "ial_ok inp"
  shows "lw_wf (snd (kernel_GetLWEvent cfg event inp s))"
proof -
  define e where "e = (let event = (if event AND IAL_MOUSEEVENT \<noteq> 0 \<and> \<not> UpdateMouse inp then event AND NOT IAL_MOUSEEVENT else event)
     in if event AND IAL_KEYEVENT \<noteq> 0 \<and> UpdateKeyboard inp = 0 then event AND NOT IAL_KEYEVENT else event)"
  define t where "t = s\<lparr>timeout_count := 0\<rparr>"
  have t: "lw_wf t" by (rule lw_wf_cong [OF wf]) (simp_all add: t_def mod_flags_def lock_flags_def)
  obtain r u where m: "(if e AND IAL_MOUSEEVENT \<noteq> 0 then mouse_event cfg inp t else (None, t)) = (r, u)"
    by (cases "if e AND IAL_MOUSEEVENT \<noteq> 0 then mouse_event cfg inp t else (None, t)")
  then have u: "lw_wf u" using mouse_event_wf [OF t, of cfg inp] t by (auto split: if_splits)
  have last: "lw_wf (u\<lparr>old_lwe := LWETYPE_TIMEOUT 0\<rparr>)" by (rule lw_wf_cong [OF u]) (simp_all add: mod_flags_def lock_flags_def)
  have "kernel_GetLWEvent cfg event inp s = (if e = 0 then no_event cfg inp s else if r \<noteq> None then (r, u)
      else if e AND IAL_KEYEVENT \<noteq> 0 then key_event cfg inp u else (None, u\<lparr>old_lwe := LWETYPE_TIMEOUT 0\<rparr>))"
    unfolding kernel_GetLWEvent_def Let_def e_def [unfolded Let_def, symmetric] t_def [symmetric] m by simp
  then show ?thesis using no_event_wf [OF wf, of cfg inp] u last key_event_wf [OF u inp, of cfg] by simp
qed

lemma lw_step_wf: "lw_wf s \<Longrightarrow> call_ok c \<Longrightarrow> lw_wf (snd (lw_step cfg c s))"
proof -
  assume wf: "lw_wf s" and c: "call_ok c"
  obtain left event inp where c': "c = (left, event, inp)" by (cases c)
  have "lw_wf (s\<lparr>event_timeout := left\<rparr>)" by (rule lw_wf_cong [OF wf]) (simp_all add: mod_flags_def lock_flags_def)
  then show "lw_wf (snd (lw_step cfg c s))" using GetLWEvent_wf c by (simp add: lw_step_def c' call_ok_def)
qed

lemma lw_run_wf: "lw_wf s \<Longrightarrow> \<forall>c \<in> set cs. call_ok c \<Longrightarrow> lw_wf (snd (lw_run cfg cs s))"
proof (induction cs arbitrary: s)
  case (Cons c cs)
  obtain r t where st: "lw_step cfg c s = (r, t)" by (cases "lw_step cfg c s")
  then have "lw_wf t" using lw_step_wf [of s c cfg] Cons.prems by simp
  then have "lw_wf (snd (lw_run cfg cs t))" using Cons by simp
  then show ?case by (simp add: st case_prod_beta)
qed simp

lemma lw_init_wf: "mg_InitLWEvent ms rep tmo False cfg s = Some (cfg', t) \<Longrightarrow> lw_wf t"
  by (auto simp: mg_InitLWEvent_def Let_def ResetKeyEvent_def ResetMouseEvent_def lw_wf_def mod_flags_def lock_flags_def is_flag_def
      status_ok_def shift_word_def held_ok_def MGUI_NR_KEYS_def)

end
