(* ===== verification/MG_EventView.thy ===== *)
theory MG_EventView
  imports MG_EventInv
begin

unbundle bit_operations_syntax

text \<open>
  What a program knows that only follows the events of \<open>kernel_GetLWEvent\<close>: the buttons and keys that are down and
  the locks that are on. As long as the engine never reports two changes of buttons or keys in one call, this is the
  state that \<open>GetKeyStatus\<close> and \<open>GetShiftKeyStatus\<close> show.
\<close>

section \<open>Following the events\<close>

record key_view =
  v_buttons :: u32
  v_keys :: "nat set"
  v_locks :: "nat set"

definition view_start :: key_view where
  "view_start = \<lparr>v_buttons = 0, v_keys = {}, v_locks = {}\<rparr>"

fun follow_mouse :: "mouse_event_code \<Rightarrow> u32 \<Rightarrow> u32" where
  "follow_mouse ME_MOVED b = b"
| "follow_mouse ME_LEFTDOWN b = b OR 1"
| "follow_mouse ME_LEFTDBLCLICK b = b OR 1"
| "follow_mouse ME_LEFTUP b = b AND NOT 1"
| "follow_mouse ME_RIGHTDOWN b = b OR 2"
| "follow_mouse ME_RIGHTDBLCLICK b = b OR 2"
| "follow_mouse ME_RIGHTUP b = b AND NOT 2"
| "follow_mouse ME_MIDDLEDOWN b = b OR 4"
| "follow_mouse ME_MIDDLEDBLCLICK b = b OR 4"
| "follow_mouse ME_MIDDLEUP b = b AND NOT 4"

definition key_pressed :: "nat \<Rightarrow> key_view \<Rightarrow> key_view" where
  "key_pressed k v = v\<lparr>v_keys := insert k (v_keys v),
     v_locks := (if k \<in> {58, 69, 70} then if k \<in> v_locks v then v_locks v - {k} else insert k (v_locks v) else v_locks v)\<rparr>"

definition follow_key :: "KEYEVENT \<Rightarrow> key_view \<Rightarrow> key_view" where
  "follow_key ke v =
     (if ke_event ke = KE_KEYDOWN \<and> ke_status ke AND KS_REPEATED = 0 then key_pressed (ke_scancode ke) v
      else if ke_event ke = KE_KEYUP then v\<lparr>v_keys := v_keys v - {ke_scancode ke}\<rparr>
      else v)"

fun follow :: "LWEVENT option \<Rightarrow> key_view \<Rightarrow> key_view" where
  "follow (Some (LWETYPE_MOUSE me)) v = v\<lparr>v_buttons := follow_mouse (me_event me) (v_buttons v)\<rparr>"
| "follow (Some (LWETYPE_KEY ke)) v = follow_key ke v"
| "follow _ v = v"

text \<open>At most one button or key changes in each call that asks for it. The keys have the codes from 1; code 0 is
  \<open>SCANCODE_RESERVED\<close>.\<close>

definition one_button :: "u32 \<Rightarrow> u32 \<Rightarrow> bool" where
  "one_button b b' \<longleftrightarrow> b XOR b' \<in> {0, 1, 2, 4}"

definition key_changes :: "u8 list \<Rightarrow> u8 list \<Rightarrow> nat \<Rightarrow> nat set" where
  "key_changes old new nr = {i. 0 < i \<and> i < nr \<and> (old ! i = 0) \<noteq> (new ! i = 0)}"

definition one_key :: "u8 list \<Rightarrow> u8 list \<Rightarrow> nat \<Rightarrow> bool" where
  "one_key old new nr \<longleftrightarrow> key_changes old new nr = {} \<or> (\<exists>k. key_changes old new nr = {k})"

definition single_change :: "lw_call \<Rightarrow> lw_state \<Rightarrow> bool" where
  "single_change c s \<longleftrightarrow> (let event = fst (snd c); inp = snd (snd c)
      in (event AND IAL_MOUSEEVENT \<noteq> 0 \<and> UpdateMouse inp \<longrightarrow> one_button (oldbutton s) (MouseButton inp))
     \<and> (event AND IAL_KEYEVENT \<noteq> 0 \<longrightarrow> one_key (oldkeystate s) (KeyboardState inp) (UpdateKeyboard inp)))"

fun single_changes :: "lw_config \<Rightarrow> lw_call list \<Rightarrow> lw_state \<Rightarrow> bool" where
  "single_changes cfg [] s = True"
| "single_changes cfg (c # cs) s = (single_change c s \<and> single_changes cfg cs (snd (lw_step cfg c s)))"

text \<open>The state seen the same way.\<close>

definition down_keys :: "u8 list \<Rightarrow> nat set" where
  "down_keys ks = {i. 0 < i \<and> i < length ks \<and> ks ! i \<noteq> 0}"

definition lw_view :: "lw_state \<Rightarrow> key_view" where
  "lw_view s = \<lparr>v_buttons = oldbutton s, v_keys = down_keys (oldkeystate s),
     v_locks = (if capslock s \<noteq> 0 then {58} else {}) \<union> (if numlock s \<noteq> 0 then {69} else {}) \<union> (if slock s \<noteq> 0 then {70} else {})\<rparr>"

definition view_word :: "key_view \<Rightarrow> dword" where
  "view_word v = (let k = (\<lambda>i. if i \<in> v_keys v then 1 else 0); l = (\<lambda>i. if i \<in> v_locks v then 1 else 0) in
     push_bit 13 (k 125) OR push_bit 12 (k 126) OR push_bit 8 (l 58) OR push_bit 7 (l 69) OR push_bit 6 (l 70)
     OR push_bit 5 (k 29) OR push_bit 4 (k 97) OR push_bit 3 (k 56) OR push_bit 2 (k 100) OR push_bit 1 (k 42) OR k 54)"

text \<open>The flags of the modifiers and of the lock keys agree with the keys.\<close>

definition on_flag :: "lw_state \<Rightarrow> nat \<Rightarrow> dword" where
  "on_flag s k = (if k \<in> down_keys (oldkeystate s) then 1 else 0)"

definition flags_follow :: "lw_state \<Rightarrow> bool" where
  "flags_follow s \<longleftrightarrow> mod_flags s = map (on_flag s) [29, 97, 42, 54, 56, 100, 125, 126]
     \<and> [caps_off s, num_off s, slock_off s] = map (\<lambda>k. 1 - on_flag s k) [58, 69, 70]"

lemma view_word_shift: "lw_wf s \<Longrightarrow> flags_follow s \<Longrightarrow> view_word (lw_view s) = shift_word s"
proof -
  assume wf: "lw_wf s" and f: "flags_follow s"
  have l: "is_flag (capslock s)" "is_flag (numlock s)" "is_flag (slock s)" using wf by (auto simp: lw_wf_def lock_flags_def)
  have locks: "(if 58 \<in> v_locks (lw_view s) then 1 else 0) = capslock s" "(if 69 \<in> v_locks (lw_view s) then 1 else 0) = numlock s"
    "(if 70 \<in> v_locks (lw_view s) then 1 else 0) = slock s"
    using l by (auto simp: lw_view_def is_flag_def)
  have keys: "(if k \<in> v_keys (lw_view s) then 1 else 0) = on_flag s k" for k by (simp add: lw_view_def on_flag_def)
  show "view_word (lw_view s) = shift_word s"
    using f unfolding view_word_def Let_def locks keys shift_word_def flags_follow_def mod_flags_def by simp
qed

section \<open>The mouse follows\<close>

lemma xor_single_bit:
  fixes b :: u32
  shows "(b AND push_bit k 1 = 0 \<and> b XOR push_bit k 1 = b OR push_bit k 1)
    \<or> (b AND push_bit k 1 \<noteq> 0 \<and> b XOR push_bit k 1 = b AND NOT (push_bit k 1))"
proof (cases "bit b k")
  case True
  have "b XOR push_bit k 1 = b AND NOT (push_bit k 1)" using True by (intro bit_eqI) (auto simp: bit_simps)
  moreover have "b AND push_bit k 1 \<noteq> 0" using True by (simp add: push_bit_of_1 and_exp_eq_0_iff_not_bit)
  ultimately show ?thesis by blast
next
  case False
  have "b XOR push_bit k 1 = b OR push_bit k 1" using False by (intro bit_eqI) (auto simp: bit_simps)
  moreover have "b AND push_bit k 1 = 0" using False by (simp add: push_bit_of_1 and_exp_eq_0_iff_not_bit)
  ultimately show ?thesis by blast
qed

lemma one_button_cases:
  assumes "one_button b b'"
  obtains "b' = b" | n where "n \<in> {1, 2, 4}" "b AND n = 0" "b' = b OR n" | n where "n \<in> {1, 2, 4}" "b AND n \<noteq> 0" "b' = b AND NOT n"
proof -
  have b': "b' = b XOR (b XOR b')" by (simp flip: xor.assoc)
  show ?thesis
  proof (cases "b XOR b' = 0")
    case True
    then show ?thesis using that(1) b' by simp
  next
    case False
    then obtain k where k: "b XOR b' = push_bit k 1" "k \<in> {0, 1, 2}" "push_bit k (1 :: u32) \<in> {1, 2, 4}"
    proof -
      have "b XOR b' = push_bit 0 1 \<or> b XOR b' = push_bit 1 1 \<or> b XOR b' = push_bit 2 1"
        using assms False by (auto simp: one_button_def)
      then show ?thesis using that by fastforce
    qed
    show ?thesis using xor_single_bit [of b k] that(2) [OF k(3)] that(3) [OF k(3)] b' k(1) by metis
  qed
qed

lemma mouseret_view:
  assumes "mouseret cfg ev inp s = (r, t)"
  shows "oldkeystate t = oldkeystate s" "mod_flags t = mod_flags s" "lock_flags t = lock_flags s"
    "lw_view t = (lw_view s)\<lparr>v_buttons := MouseButton inp\<rparr>"
    "follow r v = v\<lparr>v_buttons := follow_mouse ev (v_buttons v)\<rparr>" "r \<noteq> None"
  using assms by (auto simp: mouseret_def Let_def lw_view_def mod_flags_def lock_flags_def)

lemma button_event_follow:
  assumes "one_button (oldbutton s) b"
  shows "case button_event cfg b now s of None \<Rightarrow> b = oldbutton s | Some (ev, t) \<Rightarrow> b = follow_mouse ev (oldbutton s)"
  using assms
proof (cases rule: one_button_cases)
  case 1
  then show ?thesis by (auto simp: button_event_def)
next
  case (2 n)
  then show ?thesis by (auto simp: button_event_def lw_consts bit.conj_disj_distrib2)
next
  case (3 n)
  then show ?thesis by (auto simp: button_event_def lw_consts and.assoc)
qed

lemma view_frame:
  assumes "oldkeystate t = oldkeystate s" "lock_flags t = lock_flags s" "oldbutton t = oldbutton s"
  shows "lw_view t = lw_view s"
  using assms by (simp add: lw_view_def lock_flags_def)

lemma mouse_event_view:
  assumes one: "one_button (oldbutton s) (MouseButton inp)" and e: "mouse_event cfg inp s = (r, t)"
  shows "oldkeystate t = oldkeystate s \<and> mod_flags t = mod_flags s \<and> lock_flags t = lock_flags s \<and> lw_view t = follow r (lw_view s)"
proof -
  obtain m s1 where r: "kernel_RefreshCursor inp s = (m, s1)" by (cases "kernel_RefreshCursor inp s")
  define u where "u = (if m then s1\<lparr>time1 := 0, time2 := 0, time3 := 0\<rparr> else s1)"
  have fr: "mod_flags u = mod_flags s" "lock_flags u = lock_flags s" "oldkeystate u = oldkeystate s" "oldbutton u = oldbutton s"
    using refresh_frame [OF r] by (simp_all add: u_def mod_flags_def lock_flags_def)
  have vu: "lw_view u = lw_view s" by (rule view_frame [OF fr(3,2,4)])
  have e': "(r, t) = (if m \<and> MouseButton inp = oldbutton u then mouseret cfg ME_MOVED inp u
      else case button_event cfg (MouseButton inp) (tick_counter inp) u of
        Some (ev, s) \<Rightarrow> mouseret cfg ev inp s | None \<Rightarrow> (None, u))"
    unfolding e [symmetric] mouse_event_def r u_def [symmetric] Let_def prod.case by (simp add: u_def)
  note follow_u = button_event_follow [of u "MouseButton inp" cfg "tick_counter inp", unfolded fr, OF one]
  have vb: "v_buttons (lw_view s) = oldbutton s" by (simp add: lw_view_def)
  consider (mv) "m" "MouseButton inp = oldbutton u" | (none) "\<not> (m \<and> MouseButton inp = oldbutton u)" "button_event cfg (MouseButton inp) (tick_counter inp) u = None"
    | (ev) ev v where "\<not> (m \<and> MouseButton inp = oldbutton u)" "button_event cfg (MouseButton inp) (tick_counter inp) u = Some (ev, v)"
    by (cases "button_event cfg (MouseButton inp) (tick_counter inp) u") auto
  then show ?thesis
  proof cases
    case mv
    then have "mouseret cfg ME_MOVED inp u = (r, t)" using e' by simp
    note mr = mouseret_view [OF this]
    then show ?thesis using fr mv(2) by (simp add: vu vb)
  next
    case none
    have "(r, t) = (None, u)" unfolding e' if_not_P [OF none(1)] none(2) by simp
    then show ?thesis using fr vu by simp
  next
    case (ev ev v)
    have "mouseret cfg ev inp v = (r, t)" unfolding e' if_not_P [OF ev(1)] ev(2) by simp
    note mr = mouseret_view [OF this] and bf = button_event_frame [OF ev(2)]
    have "lw_view v = lw_view u" by (rule view_frame [OF bf(4,2,6)])
    then show ?thesis using mr bf fr vu vb follow_u ev(2) by simp
  qed
qed

section \<open>The keyboard follows\<close>

definition merged_keys :: "ial_input \<Rightarrow> lw_state \<Rightarrow> u8 list" where
  "merged_keys inp s = take (UpdateKeyboard inp) (KeyboardState inp) @ drop (UpdateKeyboard inp) (oldkeystate s)"

lemma merged_nth:
  assumes "ial_ok inp" "length (oldkeystate s) = 256"
  shows "length (merged_keys inp s) = 256" "merged_keys inp s ! k = (if k < UpdateKeyboard inp then KeyboardState inp ! k else oldkeystate s ! k)"
  using assms by (auto simp: merged_keys_def ial_ok_def nth_append)

lemma down_merged:
  assumes ok: "ial_ok inp" "length (oldkeystate s) = 256"
  shows "down_keys (merged_keys inp s)
    = {k \<in> down_keys (oldkeystate s). k \<notin> key_changes (oldkeystate s) (KeyboardState inp) (UpdateKeyboard inp)}
      \<union> {k \<in> key_changes (oldkeystate s) (KeyboardState inp) (UpdateKeyboard inp). KeyboardState inp ! k \<noteq> 0}"
proof -
  have "UpdateKeyboard inp \<le> 256" using ok(1) by (simp add: ial_ok_def)
  then show ?thesis unfolding down_keys_def key_changes_def merged_nth [OF ok] ok(2) by auto
qed

lemma found_change:
  assumes one: "one_key old new nr" and found: "find_key_change old new 1 (nr - 1) = Some (i, d)"
  shows "key_changes old new nr = {i}" "0 < i" "i < nr" "(new ! i \<noteq> 0) = d" "(old ! i \<noteq> 0) = (\<not> d)"
proof -
  note sp = find_key_change_spec [OF found]
  show "0 < i" "i < nr" "(new ! i \<noteq> 0) = d" "(old ! i \<noteq> 0) = (\<not> d)" using sp by auto
  then have "i \<in> key_changes old new nr" by (auto simp: key_changes_def)
  then show "key_changes old new nr = {i}" using one by (auto simp: one_key_def)
qed

lemma no_change:
  assumes one: "one_key old new nr" and found: "find_key_change old new 1 (nr - 1) = None"
  shows "key_changes old new nr = {}"
proof -
  have "(old ! k = 0) = (new ! k = 0)" if "0 < k" "k < nr" for k using found that unfolding find_key_change_none by simp
  then show ?thesis by (auto simp: key_changes_def)
qed

lemma update_status_not_repeated:
  assumes "\<forall>x \<in> set (mod_flags s @ lock_flags s). is_flag x"
  shows "status (update_status s) AND KS_REPEATED = 0"
proof -
  have "shift_word s AND KS_REPEATED = shift_word s AND (0xF7FF AND KS_REPEATED)"
    unfolding and.assoc [symmetric] shift_word_bits(1) [OF assms] ..
  then have w: "shift_word s AND KS_REPEATED = 0" by (simp add: lw_consts)
  have b: "button_bits (oldbutton s) AND KS_REPEATED = 0" by (simp add: button_bits_def lw_consts)
  have st: "(status s AND NOT MASK_KS_SHIFTKEYS) AND KS_REPEATED = 0" by (simp add: lw_consts and.assoc)
  show ?thesis unfolding update_status_def by (simp add: bit.conj_disj_distrib2 w b st)
qed

lemma flags_follow_cong:
  "flags_follow s \<Longrightarrow> mod_flags t = mod_flags s \<Longrightarrow> lock_flags t = lock_flags s
    \<Longrightarrow> down_keys (oldkeystate t) = down_keys (oldkeystate s) \<Longrightarrow> flags_follow t"
  by (simp add: flags_follow_def lock_flags_def on_flag_def)

text \<open>A reported change.\<close>

lemma key_change_flags:
  assumes f: "flags_follow s" and d: "down_keys ks = (if d then insert i (down_keys (oldkeystate s)) else down_keys (oldkeystate s) - {i})"
    and t: "mod_flags t = mod_flags (key_switch i (if d then 1 else 0) s)" "lock_flags t = lock_flags (key_switch i (if d then 1 else 0) s)"
      "oldkeystate t = ks"
  shows "flags_follow t"
proof -
  have on: "on_flag t k = (if k = i then (if d then 1 else 0) else on_flag s k)" for k by (auto simp: on_flag_def t(3) d)
  show ?thesis using f t(1,2) unfolding flags_follow_def on by (simp add: mod_flags_def lock_flags_def key_switch_mods key_switch_locks)
qed

lemma key_change_view:
  assumes wf: "lw_wf s" and f: "flags_follow s" and up: "d \<Longrightarrow> i \<notin> down_keys (oldkeystate s)"
    and t: "lock_flags t = lock_flags (key_switch i (if d then 1 else 0) s)" "oldbutton t = oldbutton s"
    and d: "down_keys (oldkeystate t) = (if d then insert i (down_keys (oldkeystate s)) else down_keys (oldkeystate s) - {i})"
  shows "lw_view t = (if d then key_pressed i (lw_view s) else (lw_view s)\<lparr>v_keys := v_keys (lw_view s) - {i}\<rparr>)"
proof -
  have l: "is_flag (capslock s)" "is_flag (numlock s)" "is_flag (slock s)" using wf by (auto simp: lw_wf_def lock_flags_def)
  have off: "caps_off s = 1 - on_flag s 58" "num_off s = 1 - on_flag s 69" "slock_off s = 1 - on_flag s 70"
    using f by (auto simp: flags_follow_def)
  have up': "on_flag s i = 0" if d using up [OF that] by (simp add: on_flag_def)
  have t': "capslock t = (if i = 58 \<and> d then 1 - capslock s else capslock s)"
    "numlock t = (if i = 69 \<and> d then 1 - numlock s else numlock s)" "slock t = (if i = 70 \<and> d then 1 - slock s else slock s)"
    using t(1) up' by (auto simp: lock_flags_def key_switch_locks off)
  have flip: "(x = 1) = (x \<noteq> 0)" if "is_flag x" for x using that by (auto simp: is_flag_def)
  show ?thesis unfolding lw_view_def key_pressed_def t' t(2) d by (auto simp: flip [OF l(1)] flip [OF l(2)] flip [OF l(3)])
qed

lemma key_event_view:
  assumes wf: "lw_wf s" and inp: "ial_ok inp" and f: "flags_follow s"
    and one: "one_key (oldkeystate s) (KeyboardState inp) (UpdateKeyboard inp)" and e: "key_event cfg inp s = (r, t)"
  shows "flags_follow t \<and> lw_view t = follow r (lw_view s)"
proof -
  have len: "length (oldkeystate s) = 256" using wf by (simp add: lw_wf_def held_ok_def)
  note dm = down_merged [OF inp len]
  show ?thesis
  proof (cases "find_key_change (oldkeystate s) (KeyboardState inp) 1 (UpdateKeyboard inp - 1)")
    case (Some p)
    obtain i d where p: "p = (i, d)" by (cases p)
    note fc = found_change [OF one Some [unfolded p]]
    have i: "i < 256" using fc(3) inp by (simp add: ial_ok_def)
    define s1 where "s1 = (if d then s\<lparr>ke_time := tick_counter inp, olddownkey := i\<rparr> else s\<lparr>olddownkey := 0\<rparr>)"
    define ks where "ks = key_switch i (if d then 1 else 0) s1"
    have rt: "(r, t) = keyret cfg (if d then KE_KEYDOWN else KE_KEYUP) i inp (update_status ks)"
      unfolding e [symmetric] key_event_def Some p by (simp add: s1_def ks_def Let_def)
    have s1: "mod_flags s1 = mod_flags s" "lock_flags s1 = lock_flags s" "oldkeystate s1 = oldkeystate s" "oldbutton s1 = oldbutton s"
      by (simp_all add: s1_def mod_flags_def lock_flags_def)
    have t: "oldkeystate t = merged_keys inp s" "mod_flags t = mod_flags ks" "lock_flags t = lock_flags ks" "oldbutton t = oldbutton s"
      using rt by (auto simp: keyret_def Let_def update_status_def merged_keys_def ks_def s1 mod_flags_def lock_flags_def)
    have r: "r = Some (LWETYPE_KEY \<lparr>ke_event = (if d then KE_KEYDOWN else KE_KEYUP), ke_scancode = i, ke_status = status (update_status ks)\<rparr>)"
      using rt by (auto simp: keyret_def Let_def)
    have d: "down_keys (merged_keys inp s) = (if d then insert i (down_keys (oldkeystate s)) else down_keys (oldkeystate s) - {i})"
      unfolding dm fc(1) using fc(4) by auto
    have up: "i \<notin> down_keys (oldkeystate s)" if d using fc(5) that by (simp add: down_keys_def)
    have f1: "flags_follow s1" by (rule flags_follow_cong [OF f]) (simp_all add: s1)
    have wf1: "lw_wf s1 \<or> True" by simp
    have l1: "\<forall>x \<in> set (mod_flags s1 @ lock_flags s1). is_flag x" using wf by (simp add: s1 lw_wf_def)
    have fk: "\<forall>x \<in> set (mod_flags ks @ lock_flags ks). is_flag x"
      unfolding ks_def by (rule key_switch_flags [OF _ l1]) (simp add: is_flag_def)
    have ksl: "lock_flags (key_switch i (if d then 1 else 0) s) = lock_flags ks"
      unfolding ks_def using s1(2) by (simp add: lock_flags_def key_switch_locks)
    have "flags_follow t"
      by (rule key_change_flags [OF f1, of "merged_keys inp s" d i]) (simp_all add: d s1 t ks_def)
    moreover have "lw_view t = (if d then key_pressed i (lw_view s) else (lw_view s)\<lparr>v_keys := v_keys (lw_view s) - {i}\<rparr>)"
      by (rule key_change_view [OF wf f up]) (simp_all add: t d ksl)
    moreover have "status (update_status ks) AND KS_REPEATED = 0" by (rule update_status_not_repeated [OF fk])
    ultimately show ?thesis by (simp add: r follow_key_def)
  next
    case None
    have d: "down_keys (merged_keys inp s) = down_keys (oldkeystate s)" unfolding dm no_change [OF one None] by simp
    show ?thesis
    proof (cases "olddownkey s = 0")
      case True
      then have "(r, t) = (None, s)" using e None unfolding key_event_def by simp
      then show ?thesis using f by simp
    next
      case False
      obtain ev s1 where lp: "treat_longpress cfg (tick_counter inp) (tick_counter inp - ke_time s) s = (ev, s1)"
        by (cases "treat_longpress cfg (tick_counter inp) (tick_counter inp - ke_time s) s")
      note fr = longpress_frame [OF lp]
      define u where "u = (if ev = KE_KEYDOWN then s1\<lparr>status := status s1 OR KS_REPEATED\<rparr> else s1)"
      have hu: "olddownkey u = olddownkey s" "oldkeystate u = oldkeystate s" "mod_flags u = mod_flags s" "lock_flags u = lock_flags s"
        "oldbutton u = oldbutton s"
        using fr by (simp_all add: u_def mod_flags_def lock_flags_def)
      have rt: "(r, t) = keyret cfg ev (olddownkey s) inp u"
        unfolding e [symmetric] key_event_def None using False by (simp add: lp u_def [symmetric] Let_def hu)
      have t: "oldkeystate t = merged_keys inp s" "mod_flags t = mod_flags s" "lock_flags t = lock_flags s" "oldbutton t = oldbutton s"
        using rt hu by (auto simp: keyret_def Let_def merged_keys_def mod_flags_def lock_flags_def)
      have r: "r = Some (LWETYPE_KEY \<lparr>ke_event = ev, ke_scancode = olddownkey s, ke_status = status u\<rparr>)"
        using rt by (auto simp: keyret_def Let_def)
      have rep: "status u AND KS_REPEATED \<noteq> 0" if "ev = KE_KEYDOWN"
      proof -
        have "status u AND KS_REPEATED = KS_REPEATED" using that by (simp add: u_def bit.conj_disj_distrib2 or.commute)
        then show ?thesis by (simp add: lw_consts)
      qed
      have "lw_view t = lw_view s" using t d by (simp add: lw_view_def lock_flags_def)
      moreover have "flags_follow t" by (rule flags_follow_cong [OF f]) (simp_all add: t d)
      ultimately show ?thesis using rep fr(8) by (cases "ev = KE_KEYDOWN") (simp_all add: r follow_key_def)
    qed
  qed
qed

end
