(* ===== verification/MG_EventRun.thy ===== *)
theory MG_EventRun
  imports MG_EventView
begin

unbundle bit_operations_syntax

text \<open>
  Properties of the runs of \<open>kernel_GetLWEvent\<close>: the events tell the state, two presses make a double click, and
  what the function does with changes that come together.
\<close>

section \<open>The events tell the state\<close>

lemma no_event_view:
  assumes "no_event cfg inp s = (r, t)" "flags_follow s"
  shows "flags_follow t \<and> lw_view t = follow r (lw_view s)"
proof -
  obtain ev u where lp: "treat_longpress cfg (tick_counter inp) (tick_counter inp - ke_time s) (s\<lparr>event_timeout := (0, repeat_usec cfg)\<rparr>) = (ev, u)"
    by (cases "treat_longpress cfg (tick_counter inp) (tick_counter inp - ke_time s) (s\<lparr>event_timeout := (0, repeat_usec cfg)\<rparr>)")
  note fr = longpress_frame [OF lp]
  have u: "mod_flags u = mod_flags s" "lock_flags u = lock_flags s" "oldkeystate u = oldkeystate s" "oldbutton u = oldbutton s"
    using fr by (simp_all add: mod_flags_def lock_flags_def)
  have vu: "lw_view u = lw_view s" "flags_follow u"
    using view_frame [OF u(3,2,4)] flags_follow_cong [OF assms(2) u(1,2)] u(3) by simp_all
  have rep: "(st OR KS_REPEATED) AND KS_REPEATED \<noteq> 0" for st
  proof -
    have "(st OR KS_REPEATED) AND KS_REPEATED = KS_REPEATED" by (simp add: bit.conj_disj_distrib2 or.commute)
    then show ?thesis by (simp add: lw_consts)
  qed
  have frame: "lw_view t = lw_view s \<and> flags_follow t" if "mod_flags t = mod_flags s" "lock_flags t = lock_flags s"
    "oldkeystate t = oldkeystate s" "oldbutton t = oldbutton s" for t
    using view_frame [OF that(3,2,4)] flags_follow_cong [OF assms(2) that(1,2)] that(3) by simp
  show ?thesis
  proof (cases "event_timeout s = (0, 0)")
    case False
    then have "r = None" "t = s\<lparr>old_lwe := LWETYPE_TIMEOUT 0\<rparr>" using assms(1) by (simp_all add: no_event_def)
    then show ?thesis using frame [of t] by (simp add: mod_flags_def lock_flags_def)
  next
    case True
    show ?thesis
    proof (cases "key_down_of (old_lwe s)")
      case (Some ke)
      then have "t = u" "r = Some (LWETYPE_KEY (ke\<lparr>ke_event := ev, ke_status := (if ev = KE_KEYDOWN then ke_status ke OR KS_REPEATED else ke_status ke)\<rparr>))"
        using assms(1) True lp by (simp_all add: no_event_def Let_def)
      then show ?thesis using vu fr(8) rep by (cases "ev = KE_KEYDOWN") (simp_all add: follow_key_def)
    next
      case None
      then obtain n where "r = Some (LWETYPE_TIMEOUT n)" and t: "mod_flags t = mod_flags s" "lock_flags t = lock_flags s"
        "oldkeystate t = oldkeystate s" "oldbutton t = oldbutton s"
        using assms(1) True by (auto simp: no_event_def Let_def mod_flags_def lock_flags_def)
      then show ?thesis using frame [OF t] by simp
    qed
  qed
qed

lemma lw_step_view:
  assumes wf: "lw_wf s" and ok: "call_ok c" and f: "flags_follow s" and one: "single_change c s" and st: "lw_step cfg c s = (r, t)"
  shows "flags_follow t \<and> lw_view t = follow r (lw_view s)"
proof -
  obtain left event inp where c: "c = (left, event, inp)" by (cases c)
  define s1 where "s1 = s\<lparr>event_timeout := left\<rparr>"
  define s2 where "s2 = s1\<lparr>timeout_count := 0\<rparr>"
  have f1: "flags_follow s1" "lw_view s1 = lw_view s" "flags_follow s2" "lw_view s2 = lw_view s"
    using flags_follow_cong [OF f] by (simp_all add: s1_def s2_def lw_view_def mod_flags_def lock_flags_def)
  have w2: "lw_wf s2" by (rule lw_wf_cong [OF wf]) (simp_all add: s1_def s2_def mod_flags_def lock_flags_def)
  define e1 where "e1 = (if event AND IAL_MOUSEEVENT \<noteq> 0 \<and> \<not> UpdateMouse inp then event AND NOT IAL_MOUSEEVENT else event)"
  define e where "e = (if e1 AND IAL_KEYEVENT \<noteq> 0 \<and> UpdateKeyboard inp = 0 then e1 AND NOT IAL_KEYEVENT else e1)"
  obtain r1 u where m: "(if e AND IAL_MOUSEEVENT \<noteq> 0 then mouse_event cfg inp s2 else (None, s2)) = (r1, u)"
    by (cases "if e AND IAL_MOUSEEVENT \<noteq> 0 then mouse_event cfg inp s2 else (None, s2)")
  have rt: "(r, t) = (if e = 0 then no_event cfg inp s1 else if r1 \<noteq> None then (r1, u)
      else if e AND IAL_KEYEVENT \<noteq> 0 then key_event cfg inp u else (None, u\<lparr>old_lwe := LWETYPE_TIMEOUT 0\<rparr>))"
    unfolding st [symmetric] lw_step_def c prod.case kernel_GetLWEvent_def Let_def s1_def [symmetric] e1_def [symmetric] e_def [symmetric]
      s2_def [symmetric] m by simp
  have "\<exists>k. e1 = event AND k" unfolding e1_def by (metis and.right_neutral)
  then obtain k1 where k1: "e1 = event AND k1" ..
  have "\<exists>k. e = e1 AND k" unfolding e_def by (metis and.right_neutral)
  then obtain k2 where k2: "e = e1 AND k2" ..
  have asked: "event AND b \<noteq> 0" if "e AND b \<noteq> 0" for b
  proof
    assume "event AND b = 0"
    moreover have "e AND b = (event AND b) AND k1 AND k2" unfolding k2 k1 by (simp only: and.assoc and.commute and.left_commute)
    ultimately show False using that by simp
  qed
  have u: "oldkeystate u = oldkeystate s2 \<and> mod_flags u = mod_flags s2 \<and> lock_flags u = lock_flags s2 \<and> lw_view u = follow r1 (lw_view s2)"
  proof (cases "e AND IAL_MOUSEEVENT \<noteq> 0")
    case True
    have "UpdateMouse inp"
    proof (rule ccontr)
      assume "\<not> UpdateMouse inp"
      then have "e1 AND IAL_MOUSEEVENT = 0" by (simp add: e1_def and.assoc)
      then have "e AND IAL_MOUSEEVENT = 0" by (simp add: e_def and.assoc lw_consts)
      then show False using True by simp
    qed
    then have "one_button (oldbutton s2) (MouseButton inp)" using one asked [OF True] by (simp add: single_change_def c s1_def s2_def)
    then show ?thesis using mouse_event_view [of s2 inp cfg r1 u] m True by simp
  qed (use m in auto)
  then have fu: "flags_follow u" by (intro flags_follow_cong [OF f1(3)]) simp_all
  consider (no) "e = 0" | (mouse) "e \<noteq> 0" "r1 \<noteq> None" | (key) "e \<noteq> 0" "r1 = None" "e AND IAL_KEYEVENT \<noteq> 0"
    | (rest) "e \<noteq> 0" "r1 = None" "e AND IAL_KEYEVENT = 0" by blast
  then show ?thesis
  proof cases
    case no
    then show ?thesis using no_event_view [of cfg inp s1 r t] rt f1 by simp
  next
    case mouse
    then show ?thesis using rt u fu f1(4) by simp
  next
    case key
    then have k: "key_event cfg inp u = (r, t)" using rt by simp
    have wu: "lw_wf u" using mouse_event_wf [OF w2, of cfg inp] w2 m by (auto split: if_splits)
    have "one_key (oldkeystate u) (KeyboardState inp) (UpdateKeyboard inp)"
      using one u asked [OF key(3)] by (simp add: single_change_def c s1_def s2_def)
    from key_event_view [OF wu _ fu this k] ok show ?thesis using u f1(4) key(2) by (simp add: call_ok_def c)
  next
    case rest
    then have "(r, t) = (None, u\<lparr>old_lwe := LWETYPE_TIMEOUT 0\<rparr>)" using rt by simp
    moreover have "flags_follow (u\<lparr>old_lwe := LWETYPE_TIMEOUT 0\<rparr>)" by (rule flags_follow_cong [OF fu]) (simp_all add: mod_flags_def lock_flags_def)
    ultimately show ?thesis using u f1(4) rest(2) by (simp add: lw_view_def lock_flags_def)
  qed
qed

lemma lw_run_view:
  assumes "lw_wf s" "\<forall>c \<in> set cs. call_ok c" "flags_follow s" "single_changes cfg cs s" "lw_run cfg cs s = (rs, t)"
  shows "lw_wf t \<and> flags_follow t \<and> lw_view t = fold follow rs (lw_view s)"
  using assms
proof (induction cs arbitrary: s rs)
  case (Cons c cs)
  obtain r s1 where st: "lw_step cfg c s = (r, s1)" by (cases "lw_step cfg c s")
  obtain rs' t' where run: "lw_run cfg cs s1 = (rs', t')" by (cases "lw_run cfg cs s1")
  have t: "rs = r # rs'" "t' = t" using Cons.prems(5) st run by simp_all
  have w1: "lw_wf s1" using lw_step_wf [of s c cfg] Cons.prems st by simp
  have v1: "flags_follow s1" "lw_view s1 = follow r (lw_view s)" using lw_step_view [OF Cons.prems(1) _ Cons.prems(3) _ st] Cons.prems by auto
  show ?case using Cons.IH [OF w1 _ v1(1) _ run [unfolded t]] Cons.prems st v1(2) t(1) by simp
qed simp

lemma init_view:
  assumes "mg_InitLWEvent ms rep tmo False cfg s0 = Some (cfg', s)"
  shows "flags_follow s" "lw_view s = view_start"
proof -
  have s: "oldkeystate s = replicate 256 0" "oldbutton s = 0" "lock_flags s = [0, 0, 0, 1, 1, 1]" "mod_flags s = [0, 0, 0, 0, 0, 0, 0, 0]"
    using assms by (auto simp: mg_InitLWEvent_def Let_def ResetKeyEvent_def ResetMouseEvent_def MGUI_NR_KEYS_def lock_flags_def mod_flags_def)
  have d: "down_keys (oldkeystate s) = {}" unfolding s by (auto simp: down_keys_def)
  show "flags_follow s" unfolding flags_follow_def on_flag_def d using s(3,4) by (simp add: lock_flags_def)
  show "lw_view s = view_start" using s d by (simp add: lw_view_def view_start_def lock_flags_def)
qed

lemma GetKeyStatus_key:
  assumes "length (oldkeystate s) = 256" "k < 256" "0 < k"
  shows "(GetKeyStatus (word_of_nat k) s \<noteq> 0) = (k \<in> down_keys (oldkeystate s))"
proof -
  have k: "unat (word_of_nat k :: u32) = k" using assms(2) by (simp add: unat_of_nat take_bit_nat_eq_self)
  have "k AND 0xF000 = take_bit 8 k AND 0xF000" using assms(2) by (simp add: take_bit_nat_eq_self)
  also have "\<dots> = 0" by (simp add: take_bit_eq_mask mask_eq_exp_minus_1 and.assoc)
  finally have "unat ((word_of_nat k :: u32) AND 0xF000) = 0" by (simp add: unsigned_and_eq k)
  then have z: "(word_of_nat k :: u32) AND 0xF000 = 0" by (simp add: unat_eq_0)
  show ?thesis using assms by (simp add: GetKeyStatus_def z k MGUI_NR_KEYS_def down_keys_def unat_eq_0)
qed

text \<open>If the engine never reports two changes of buttons or keys in one call, the events tell everything: a
  program that only follows them, taking a key press that is not marked as repeated as a press, a second press of a
  lock key as its release, and so on, knows after every run which keys (of the codes from 1) \<open>GetKeyStatus\<close> reports as down, which buttons
  are down, and the word of modifiers and locks that \<open>GetShiftKeyStatus\<close> returns.\<close>

theorem lw_events_tell_state:
  assumes "mg_InitLWEvent ms rep tmo False cfg s0 = Some (cfg', s)" "\<forall>c \<in> set cs. call_ok c" "single_changes cfg' cs s"
    "lw_run cfg' cs s = (rs, t)"
  shows "oldbutton t = v_buttons (fold follow rs view_start)
    \<and> {k. 0 < k \<and> k < 256 \<and> GetKeyStatus (word_of_nat k) t \<noteq> 0} = v_keys (fold follow rs view_start)
    \<and> GetShiftKeyStatus t AND 0xF7FF = view_word (fold follow rs view_start)"
proof -
  have run: "lw_wf t" "flags_follow t" "lw_view t = fold follow rs view_start"
    using lw_run_view [OF lw_init_wf [OF assms(1)] assms(2) init_view(1) [OF assms(1)] assms(3,4)] init_view(2) [OF assms(1)] by simp_all
  have len: "length (oldkeystate t) = 256" using run(1) by (simp add: lw_wf_def held_ok_def)
  have "{k. 0 < k \<and> k < 256 \<and> GetKeyStatus (word_of_nat k) t \<noteq> 0} = down_keys (oldkeystate t)"
    using GetKeyStatus_key [OF len] len by (auto simp: down_keys_def)
  moreover have "status t AND 0xF7FF = view_word (lw_view t)"
    using run(1) view_word_shift [OF run(1,2)] by (simp add: lw_wf_def status_ok_def)
  ultimately show ?thesis unfolding run(3) [symmetric] by (simp add: lw_view_def GetShiftKeyStatus_def)
qed

text \<open>C19: Whatever the engine reports, after every run the keyboard state has its 256 entries, the flags of modifiers
  and locks are zero or one, the key that repeats is a key that is down, and the status word consists of the word of
  those flags, the bit of repeated keys and the bits of the buttons, and nothing else.\<close>

theorem lw_state_type:
  assumes "mg_InitLWEvent ms rep tmo False cfg s0 = Some (cfg', s)" "\<forall>c \<in> set cs. call_ok c" "lw_run cfg' cs s = (rs, t)"
  shows "length (GetKeyboardState t) = 256 \<and> set (mod_flags t @ lock_flags t) \<subseteq> {0, 1}
    \<and> olddownkey t < 256 \<and> (olddownkey t \<noteq> 0 \<longrightarrow> GetKeyStatus (word_of_nat (olddownkey t)) t \<noteq> 0)
    \<and> GetShiftKeyStatus t AND 0xF7FF = shift_word t \<and> GetShiftKeyStatus t AND NOT 0xFFFFF = 0"
proof -
  have wf: "lw_wf t" using lw_run_wf [OF lw_init_wf [OF assms(1)] assms(2), of cfg'] assms(3) by simp
  then have "length (oldkeystate t) = 256" "olddownkey t < 256" "olddownkey t \<noteq> 0 \<Longrightarrow> oldkeystate t ! olddownkey t \<noteq> 0"
    by (simp_all add: lw_wf_def held_ok_def)
  then show ?thesis using wf GetKeyStatus_key [of t "olddownkey t"]
    by (auto simp: lw_wf_def status_ok_def is_flag_def GetKeyboardState_def GetShiftKeyStatus_def down_keys_def)
qed

section \<open>Double clicks\<close>

datatype mbutton = MB_Left | MB_Right | MB_Middle

fun down_code :: "mbutton \<Rightarrow> mouse_event_code" where
  "down_code MB_Left = ME_LEFTDOWN" | "down_code MB_Right = ME_RIGHTDOWN" | "down_code MB_Middle = ME_MIDDLEDOWN"

fun dbl_code :: "mbutton \<Rightarrow> mouse_event_code" where
  "dbl_code MB_Left = ME_LEFTDBLCLICK" | "dbl_code MB_Right = ME_RIGHTDBLCLICK" | "dbl_code MB_Middle = ME_MIDDLEDBLCLICK"

definition press_of :: "mbutton \<Rightarrow> LWEVENT option \<Rightarrow> bool" where
  "press_of b r = (case r of Some (LWETYPE_MOUSE me) \<Rightarrow> me_event me = down_code b \<or> me_event me = dbl_code b | _ \<Rightarrow> False)"

fun press_time :: "mbutton \<Rightarrow> lw_state \<Rightarrow> dword" where
  "press_time MB_Left s = time1 s" | "press_time MB_Right s = time2 s" | "press_time MB_Middle s = time3 s"

definition pointer_at :: "int \<times> int \<Rightarrow> lw_call \<Rightarrow> bool" where
  "pointer_at p c \<longleftrightarrow> (UpdateMouse (snd (snd c)) \<longrightarrow> (MouseX (snd (snd c)), MouseY (snd (snd c))) = p)"

lemma button_event_press:
  assumes "button_event cfg b now s = Some (ev, t)" "(ev = down_code m \<or> ev = dbl_code m)"
  shows "press_time m t = now" "ev = (if now - press_time m s \<le> dblclicktime cfg then dbl_code m else down_code m)"
  using assms by (cases m; auto simp: button_event_def split: if_splits)+

lemma button_event_no_press:
  assumes "button_event cfg b now s = Some (ev, t)" "\<not> (ev = down_code m \<or> ev = dbl_code m)"
  shows "press_time m t = press_time m s"
  using assms by (cases m; auto simp: button_event_def split: if_splits)+

lemma button_event_place:
  assumes "button_event cfg b now s = Some (ev, t)"
  shows "oldx t = oldx s" "oldy t = oldy s" "ev \<noteq> ME_MOVED"
  using assms by (auto simp: button_event_def split: if_splits)

text \<open>The part of the state that decides about double clicks.\<close>

definition press_state :: "lw_state \<Rightarrow> (int \<times> int) \<times> dword \<times> dword \<times> dword" where
  "press_state s = ((oldx s, oldy s), time1 s, time2 s, time3 s)"

lemma press_time_cong: "press_state t = press_state s \<Longrightarrow> press_time m t = press_time m s"
  by (cases m) (simp_all add: press_state_def)

lemma longpress_press: "treat_longpress cfg now d s = (ev, t) \<Longrightarrow> press_state t = press_state s"
  by (auto simp: treat_longpress_def Let_def press_state_def split: if_splits)

lemma key_switch_press: "press_state (key_switch i mk s) = press_state s"
  by (simp add: press_state_def key_switch_def set_leds_def lw_consts)

lemma key_event_press:
  assumes "key_event cfg inp s = (r, t)"
  shows "press_state t = press_state s \<and> \<not> press_of m r"
proof -
  have ret: "press_state (snd (keyret cfg ev sc inp u)) = press_state u \<and> \<not> press_of m (fst (keyret cfg ev sc inp u))" for ev sc u
    by (simp add: keyret_def Let_def press_state_def press_of_def)
  have up: "press_state (update_status u) = press_state u" for u by (simp add: update_status_def press_state_def)
  show ?thesis
  proof (cases "find_key_change (oldkeystate s) (KeyboardState inp) 1 (UpdateKeyboard inp - 1)")
    case (Some p)
    obtain i d where p: "p = (i, d)" by (cases p)
    define s1 where "s1 = (if d then s\<lparr>ke_time := tick_counter inp, olddownkey := i\<rparr> else s\<lparr>olddownkey := 0\<rparr>)"
    define u where "u = update_status (key_switch i (if d then 1 else 0) s1)"
    have rt: "(r, t) = keyret cfg (if d then KE_KEYDOWN else KE_KEYUP) i inp u"
      unfolding assms [symmetric] key_event_def Some p by (simp add: s1_def u_def Let_def)
    have "press_state s1 = press_state s" by (simp add: s1_def press_state_def)
    then have "press_state u = press_state s" unfolding u_def up key_switch_press .
    then show ?thesis using ret [of "if d then KE_KEYDOWN else KE_KEYUP" i u] rt by (metis fst_conv snd_conv)
  next
    case None
    obtain ev s1 where lp: "treat_longpress cfg (tick_counter inp) (tick_counter inp - ke_time s) s = (ev, s1)"
      by (cases "treat_longpress cfg (tick_counter inp) (tick_counter inp - ke_time s) s")
    define u where "u = (if ev = KE_KEYDOWN then s1\<lparr>status := status s1 OR KS_REPEATED\<rparr> else s1)"
    have u: "press_state u = press_state s" using longpress_press [OF lp] by (simp add: u_def press_state_def)
    show ?thesis
    proof (cases "olddownkey s = 0")
      case True
      then have "r = None" "t = s" using assms None unfolding key_event_def by simp_all
      then show ?thesis by (simp add: press_of_def)
    next
      case False
      have "(r, t) = keyret cfg ev (olddownkey u) inp u"
        unfolding assms [symmetric] key_event_def None using False longpress_frame(5) [OF lp] by (simp add: lp u_def [symmetric] Let_def)
      then show ?thesis using ret [of ev "olddownkey u" u] u by (metis fst_conv snd_conv)
    qed
  qed
qed

lemma no_event_press:
  assumes "no_event cfg inp s = (r, t)"
  shows "press_state t = press_state s \<and> \<not> press_of m r"
proof -
  obtain ev u where lp: "treat_longpress cfg (tick_counter inp) (tick_counter inp - ke_time s) (s\<lparr>event_timeout := (0, repeat_usec cfg)\<rparr>) = (ev, u)"
    by (cases "treat_longpress cfg (tick_counter inp) (tick_counter inp - ke_time s) (s\<lparr>event_timeout := (0, repeat_usec cfg)\<rparr>)")
  have u: "press_state u = press_state s" using longpress_press [OF lp] by (simp add: press_state_def)
  have "press_state t = press_state s \<or> t = u"
    using assms lp by (auto simp: no_event_def Let_def press_state_def split: if_splits option.splits)
  moreover have "\<not> press_of m r"
    using assms lp by (auto simp: no_event_def Let_def press_of_def split: if_splits option.splits)
  ultimately show ?thesis using u by auto
qed

lemma mouseret_press:
  assumes "mouseret cfg ev inp s = (r, t)"
  shows "press_state t = press_state s" "press_of m r = (ev = down_code m \<or> ev = dbl_code m)"
    "\<exists>me. r = Some (LWETYPE_MOUSE me) \<and> me_event me = ev"
  using assms by (auto simp: mouseret_def Let_def press_state_def press_of_def)

lemma moved_code: "\<not> (ME_MOVED = down_code m \<or> ME_MOVED = dbl_code m)"
  by (cases m) simp_all

text \<open>A mouse event: the press it reports, if it does, sets the time of the button, and is told from the time that
  was there.\<close>

lemma mouse_event_press:
  assumes e: "mouse_event cfg inp s = (r, t)"
  defines "here \<equiv> (oldx s, oldy s) = (MouseX inp, MouseY inp)"
  shows "(oldx t, oldy t) = (MouseX inp, MouseY inp)"
    and "press_of m r \<Longrightarrow> press_time m t = tick_counter inp"
    and "here \<Longrightarrow> press_of m r \<Longrightarrow> \<exists>me. r = Some (LWETYPE_MOUSE me)
          \<and> me_event me = (if tick_counter inp - press_time m s \<le> dblclicktime cfg then dbl_code m else down_code m)"
    and "here \<Longrightarrow> \<not> press_of m r \<Longrightarrow> press_time m t = press_time m s"
proof -
  define u where "u = (if \<not> here then s\<lparr>cursor_x := MouseX inp, cursor_y := MouseY inp, oldx := MouseX inp, oldy := MouseY inp, time1 := 0, time2 := 0, time3 := 0\<rparr>
    else s\<lparr>cursor_x := MouseX inp, cursor_y := MouseY inp\<rparr>)"
  have e': "(r, t) = (if \<not> here \<and> MouseButton inp = oldbutton u then mouseret cfg ME_MOVED inp u
      else case button_event cfg (MouseButton inp) (tick_counter inp) u of
        Some (ev, s) \<Rightarrow> mouseret cfg ev inp s | None \<Rightarrow> (None, u))"
    unfolding e [symmetric] mouse_event_def kernel_RefreshCursor_def Let_def by (auto simp: u_def here_def split: option.split)
  have pu: "(oldx u, oldy u) = (MouseX inp, MouseY inp)" by (simp add: u_def here_def)
  have tu: "press_time m u = press_time m s" if here using that by (cases m) (simp_all add: u_def)
  consider (mv) "\<not> here" "MouseButton inp = oldbutton u"
    | (none) "\<not> (\<not> here \<and> MouseButton inp = oldbutton u)" "button_event cfg (MouseButton inp) (tick_counter inp) u = None"
    | (ev) ev v where "\<not> (\<not> here \<and> MouseButton inp = oldbutton u)" "button_event cfg (MouseButton inp) (tick_counter inp) u = Some (ev, v)"
    by (cases "button_event cfg (MouseButton inp) (tick_counter inp) u") auto
  then have "(oldx t, oldy t) = (MouseX inp, MouseY inp) \<and> (press_of m r \<longrightarrow> press_time m t = tick_counter inp)
    \<and> (here \<longrightarrow> press_of m r \<longrightarrow> (\<exists>me. r = Some (LWETYPE_MOUSE me)
          \<and> me_event me = (if tick_counter inp - press_time m s \<le> dblclicktime cfg then dbl_code m else down_code m)))
    \<and> (here \<longrightarrow> \<not> press_of m r \<longrightarrow> press_time m t = press_time m s)"
  proof cases
    case mv
    then have "mouseret cfg ME_MOVED inp u = (r, t)" using e' by simp
    note mr = mouseret_press [OF this]
    have "\<not> press_of m r" using mr(2) [of m] moved_code by blast
    then show ?thesis using mr(1) pu mv(1) by (simp add: press_state_def)
  next
    case none
    have rt: "r = None" "t = u" using e' unfolding if_not_P [OF none(1)] none(2) by simp_all
    then show ?thesis using pu tu by (simp add: press_of_def)
  next
    case (ev ev v)
    have "mouseret cfg ev inp v = (r, t)" unfolding e' if_not_P [OF ev(1)] ev(2) by simp
    note mr = mouseret_press [OF this]
    note bp = button_event_press [OF ev(2), of m] button_event_no_press [OF ev(2), of m] button_event_place [OF ev(2)]
    have tt: "press_time m t = press_time m v" by (rule press_time_cong [OF mr(1)])
    have pt: "(oldx t, oldy t) = (MouseX inp, MouseY inp)" using mr(1) bp pu by (simp add: press_state_def)
    show ?thesis
    proof (cases "press_of m r")
      case True
      then have "ev = down_code m \<or> ev = dbl_code m" using mr(2) by simp
      then have "press_time m v = tick_counter inp" "ev = (if tick_counter inp - press_time m u \<le> dblclicktime cfg then dbl_code m else down_code m)"
        using bp by blast+
      then show ?thesis using True mr(3) pt tt tu by auto
    next
      case False
      then show ?thesis using bp mr(2) pt tt tu by auto
    qed
  qed
  then show "(oldx t, oldy t) = (MouseX inp, MouseY inp)" "press_of m r \<Longrightarrow> press_time m t = tick_counter inp"
    "here \<Longrightarrow> press_of m r \<Longrightarrow> \<exists>me. r = Some (LWETYPE_MOUSE me)
          \<and> me_event me = (if tick_counter inp - press_time m s \<le> dblclicktime cfg then dbl_code m else down_code m)"
    "here \<Longrightarrow> \<not> press_of m r \<Longrightarrow> press_time m t = press_time m s" by blast+
qed

lemma lw_step_press:
  assumes st: "lw_step cfg c s = (r, t)"
  shows "press_of m r \<Longrightarrow> UpdateMouse (snd (snd c)) \<and> press_time m t = tick_counter (snd (snd c))
      \<and> (oldx t, oldy t) = (MouseX (snd (snd c)), MouseY (snd (snd c)))"
    and "pointer_at (oldx s, oldy s) c \<Longrightarrow> (oldx t, oldy t) = (oldx s, oldy s)"
    and "pointer_at (oldx s, oldy s) c \<Longrightarrow> press_of m r \<Longrightarrow> \<exists>me. r = Some (LWETYPE_MOUSE me)
          \<and> me_event me = (if tick_counter (snd (snd c)) - press_time m s \<le> dblclicktime cfg then dbl_code m else down_code m)"
    and "pointer_at (oldx s, oldy s) c \<Longrightarrow> \<not> press_of m r \<Longrightarrow> press_time m t = press_time m s"
proof -
  obtain left event inp where c: "c = (left, event, inp)" by (cases c)
  define s1 where "s1 = s\<lparr>event_timeout := left\<rparr>"
  define s2 where "s2 = s1\<lparr>timeout_count := 0\<rparr>"
  have p1: "press_state s1 = press_state s" "press_state s2 = press_state s" by (simp_all add: s1_def s2_def press_state_def)
  define e1 where "e1 = (if event AND IAL_MOUSEEVENT \<noteq> 0 \<and> \<not> UpdateMouse inp then event AND NOT IAL_MOUSEEVENT else event)"
  define e where "e = (if e1 AND IAL_KEYEVENT \<noteq> 0 \<and> UpdateKeyboard inp = 0 then e1 AND NOT IAL_KEYEVENT else e1)"
  obtain r1 u where m: "(if e AND IAL_MOUSEEVENT \<noteq> 0 then mouse_event cfg inp s2 else (None, s2)) = (r1, u)"
    by (cases "if e AND IAL_MOUSEEVENT \<noteq> 0 then mouse_event cfg inp s2 else (None, s2)")
  have rt: "(r, t) = (if e = 0 then no_event cfg inp s1 else if r1 \<noteq> None then (r1, u)
      else if e AND IAL_KEYEVENT \<noteq> 0 then key_event cfg inp u else (None, u\<lparr>old_lwe := LWETYPE_TIMEOUT 0\<rparr>))"
    unfolding st [symmetric] lw_step_def c prod.case kernel_GetLWEvent_def Let_def s1_def [symmetric] e1_def [symmetric] e_def [symmetric]
      s2_def [symmetric] m by simp
  have upd: "UpdateMouse inp" if "e AND IAL_MOUSEEVENT \<noteq> 0"
  proof (rule ccontr)
    assume "\<not> UpdateMouse inp"
    then have "e1 AND IAL_MOUSEEVENT = 0" by (simp add: e1_def and.assoc)
    then have "e AND IAL_MOUSEEVENT = 0" by (simp add: e_def and.assoc lw_consts)
    then show False using that by simp
  qed
  have rt': "press_state t = press_state s \<and> \<not> press_of m r \<or> press_state t = press_state u \<and> (press_of m r \<longrightarrow> r = r1) \<and> (press_of m r1 \<longrightarrow> r = r1)"
  proof (cases "e = 0")
    case True
    then show ?thesis using rt no_event_press [of cfg inp s1 r t m] p1 by simp
  next
    case e: False
    show ?thesis
    proof (cases "r1 = None")
      case True
      then show ?thesis using e rt key_event_press [of cfg inp u r t m] by (auto simp: press_of_def press_state_def split: if_splits)
    qed (use e rt in simp)
  qed
  have u: "if e AND IAL_MOUSEEVENT \<noteq> 0 then mouse_event cfg inp s2 = (r1, u) else r1 = None \<and> u = s2" using m by (auto split: if_splits)
  have tm: "press_time m s2 = press_time m s" by (rule press_time_cong [OF p1(2)])
  have xy: "(oldx s2, oldy s2) = (oldx s, oldy s)" using p1(2) by (simp add: press_state_def)
  have cong: "press_time m x = press_time m y \<and> (oldx x, oldy x) = (oldx y, oldy y)" if "press_state x = press_state y" for x y
    using that press_time_cong [OF that] by (simp add: press_state_def)
  have none: "\<not> press_of m None" by (simp add: press_of_def)
  have all: "(press_of m r \<longrightarrow> UpdateMouse inp \<and> press_time m t = tick_counter inp \<and> (oldx t, oldy t) = (MouseX inp, MouseY inp))
    \<and> (pointer_at (oldx s, oldy s) c \<longrightarrow> (oldx t, oldy t) = (oldx s, oldy s)
       \<and> (press_of m r \<longrightarrow> (\<exists>me. r = Some (LWETYPE_MOUSE me)
          \<and> me_event me = (if tick_counter inp - press_time m s \<le> dblclicktime cfg then dbl_code m else down_code m)))
       \<and> (\<not> press_of m r \<longrightarrow> press_time m t = press_time m s))"
    (is "?A \<and> (?P \<longrightarrow> ?B \<and> ?C \<and> ?D)")
    using rt'
  proof (elim disjE conjE)
    assume "press_state t = press_state s" "\<not> press_of m r"
    then show ?thesis using cong [of t s] by simp
  next
    assume pt: "press_state t = press_state u" and r1: "press_of m r \<longrightarrow> r = r1" and r2: "press_of m r1 \<longrightarrow> r = r1"
    have ct: "press_time m t = press_time m u" "(oldx t, oldy t) = (oldx u, oldy u)" using cong [OF pt] by simp_all
    show ?thesis
    proof (cases "e AND IAL_MOUSEEVENT \<noteq> 0")
      case True
      then have me: "mouse_event cfg inp s2 = (r1, u)" using u by simp
      note mp = mouse_event_press(1) [OF me] mouse_event_press(2-4) [OF me, where m = m]
      have pl: "(oldx s2, oldy s2) = (MouseX inp, MouseY inp)" if ?P using that upd [OF True] xy by (simp add: pointer_at_def c)
      show ?thesis
      proof (cases "press_of m r")
        case pr: True
        then have "r = r1" using r1 by blast
        then have pr1: "press_of m r1" using pr by simp
        have ?A using mp(1) mp(2) [OF pr1] upd [OF True] ct by simp
        moreover have "?B \<and> ?C \<and> ?D" if ?P
          using mp(1) mp(3) [OF pl [OF that] pr1] pl [OF that] ct xy pr \<open>r = r1\<close> by (simp add: tm)
        ultimately show ?thesis by blast
      next
        case pr: False
        then have pr1: "\<not> press_of m r1" using r2 by auto
        have "?B \<and> ?D" if ?P using mp(1) mp(4) [OF pl [OF that] pr1] pl [OF that] ct xy by (simp add: tm)
        then show ?thesis using pr by blast
      qed
    next
      case False
      then have "r1 = None" "u = s2" using u by simp_all
      then have "\<not> press_of m r" using r1 none by auto
      then show ?thesis using ct xy \<open>u = s2\<close> by (simp add: tm)
    qed
  qed
  then show "press_of m r \<Longrightarrow> UpdateMouse (snd (snd c)) \<and> press_time m t = tick_counter (snd (snd c))
      \<and> (oldx t, oldy t) = (MouseX (snd (snd c)), MouseY (snd (snd c)))"
    "pointer_at (oldx s, oldy s) c \<Longrightarrow> (oldx t, oldy t) = (oldx s, oldy s)"
    "pointer_at (oldx s, oldy s) c \<Longrightarrow> press_of m r \<Longrightarrow> \<exists>me. r = Some (LWETYPE_MOUSE me)
          \<and> me_event me = (if tick_counter (snd (snd c)) - press_time m s \<le> dblclicktime cfg then dbl_code m else down_code m)"
    "pointer_at (oldx s, oldy s) c \<Longrightarrow> \<not> press_of m r \<Longrightarrow> press_time m t = press_time m s"
    by (simp_all add: c)
qed

lemma lw_run_still:
  assumes "lw_run cfg cs s = (rs, t)" "\<forall>c \<in> set cs. pointer_at (oldx s, oldy s) c" "\<forall>r \<in> set rs. \<not> press_of m r"
  shows "press_time m t = press_time m s \<and> (oldx t, oldy t) = (oldx s, oldy s)"
  using assms
proof (induction cs arbitrary: s rs)
  case (Cons c cs)
  obtain r s1 where st: "lw_step cfg c s = (r, s1)" by (cases "lw_step cfg c s")
  obtain rs' t' where run: "lw_run cfg cs s1 = (rs', t')" by (cases "lw_run cfg cs s1")
  have t: "rs = r # rs'" "t' = t" using Cons.prems(1) st run by simp_all
  have here: "pointer_at (oldx s, oldy s) c" using Cons.prems by simp
  have s1: "press_time m s1 = press_time m s" "(oldx s1, oldy s1) = (oldx s, oldy s)"
    using lw_step_press(4) [OF st here, of m] lw_step_press(2) [OF st here] Cons.prems(3) t by simp_all
  have "press_time m t = press_time m s1 \<and> (oldx t, oldy t) = (oldx s1, oldy s1)"
    by (rule Cons.IH [OF run [unfolded t]]) (use Cons.prems t s1 in simp_all)
  then show ?case using s1 by simp
qed simp

text \<open>C18: A press of a button is reported as a double click exactly when it comes within the double click time after
  the last reported press of the same button, as long as the pointer stays where it is; what happens between the two
  presses, releases, other buttons, keys or timeouts, does not matter, and the times of the buttons are independent.\<close>

theorem double_click_iff:
  assumes "lw_step cfg c s = (r, s1)" "press_of m r"
    and "lw_run cfg cs s1 = (rs, s2)" "\<forall>q \<in> set rs. \<not> press_of m q"
    and "lw_step cfg c' s2 = (r', s3)" "press_of m r'"
    and "\<forall>d \<in> set (cs @ [c']). pointer_at (MouseX (snd (snd c)), MouseY (snd (snd c))) d"
  shows "\<exists>me. r' = Some (LWETYPE_MOUSE me)
    \<and> (me_event me = dbl_code m \<longleftrightarrow> tick_counter (snd (snd c')) - tick_counter (snd (snd c)) \<le> dblclicktime cfg)"
proof -
  have 1: "press_time m s1 = tick_counter (snd (snd c))" "(oldx s1, oldy s1) = (MouseX (snd (snd c)), MouseY (snd (snd c)))"
    using lw_step_press(1) [OF assms(1,2)] by blast+
  have 2: "press_time m s2 = press_time m s1 \<and> (oldx s2, oldy s2) = (oldx s1, oldy s1)"
    by (rule lw_run_still [OF assms(3) _ assms(4)]) (use assms(7) 1 in simp)
  have "pointer_at (oldx s2, oldy s2) c'" using assms(7) 1 2 by simp
  from lw_step_press(3) [OF assms(5) this assms(6)] show ?thesis using 1 2 by (cases m) auto
qed

section \<open>What comes together\<close>

text \<open>A lock key that is switched on writes its light into the bits of the buttons: with no button down the status
  says that the middle button is.\<close>

lemma mask_absorb: "(m :: dword) OR (x AND m) = m"
  by (rule bit_eqI) (auto simp: bit_simps)

lemma caps_lock_sets_button_bit:
  assumes "capslock s = 0" "caps_off s = 1" "oldbutton s = 0"
  shows "status (update_status (key_switch SCANCODE_CAPSLOCK 1 s)) AND KS_MIDDLEBUTTON = KS_MIDDLEBUTTON"
proof -
  define st where "st = status (key_switch SCANCODE_CAPSLOCK 1 s)"
  define w where "w = shift_word (key_switch SCANCODE_CAPSLOCK 1 s)"
  have "st = push_bit 16 (slock s) OR push_bit 16 (push_bit 1 (numlock s)) OR KS_MIDDLEBUTTON"
    using assms by (simp add: st_def key_switch_def set_leds_def leds_of_def push_bit_or lw_consts)
  then have st: "st AND KS_MIDDLEBUTTON = KS_MIDDLEBUTTON"
    by (simp add: bit.conj_disj_distrib2 mask_absorb or.commute or.assoc)
  have "(st AND NOT MASK_KS_SHIFTKEYS) AND KS_MIDDLEBUTTON = (st AND KS_MIDDLEBUTTON) AND NOT MASK_KS_SHIFTKEYS"
    by (simp only: and.assoc and.commute and.left_commute)
  also have "\<dots> = KS_MIDDLEBUTTON" unfolding st by (simp add: lw_consts)
  finally have "(st AND NOT MASK_KS_SHIFTKEYS) AND KS_MIDDLEBUTTON = KS_MIDDLEBUTTON" .
  then have "((st AND NOT MASK_KS_SHIFTKEYS) OR w OR b) AND KS_MIDDLEBUTTON = KS_MIDDLEBUTTON" for b
    unfolding bit.conj_disj_distrib2 by (simp add: mask_absorb or.assoc [symmetric])
  then show ?thesis by (simp add: update_status_def st_def w_def)
qed

text \<open>A button other than the three hides every motion while it is down.\<close>

lemma other_button_hides_motion:
  assumes "UpdateMouse inp" "MouseButton inp AND 7 = oldbutton s AND 7" "MouseButton inp \<noteq> oldbutton s"
  shows "fst (kernel_GetLWEvent cfg IAL_MOUSEEVENT inp s) = None
    \<and> oldbutton (snd (kernel_GetLWEvent cfg IAL_MOUSEEVENT inp s)) = oldbutton s"
proof -
  define t where "t = s\<lparr>timeout_count := 0\<rparr>"
  obtain m u where r: "kernel_RefreshCursor inp t = (m, u)" by (cases "kernel_RefreshCursor inp t")
  define v where "v = (if m then u\<lparr>time1 := 0, time2 := 0, time3 := 0\<rparr> else u)"
  have v: "oldbutton v = oldbutton s" using refresh_frame(6) [OF r] by (simp add: v_def t_def)
  have same: "(MouseButton inp AND k = 0) = (oldbutton s AND k = 0)" if "7 AND k = k" for k
  proof -
    have "b AND k = (b AND 7) AND k" for b using that by (simp add: and.assoc)
    then show ?thesis using assms(2) by metis
  qed
  have "button_event cfg (MouseButton inp) (tick_counter inp) v = None"
    using same [of 1] same [of 2] same [of 4] by (simp add: button_event_def v lw_consts)
  moreover have "mouse_event cfg inp t = (if m \<and> MouseButton inp = oldbutton v then mouseret cfg ME_MOVED inp v
      else case button_event cfg (MouseButton inp) (tick_counter inp) v of
        Some (ev, s) \<Rightarrow> mouseret cfg ev inp s | None \<Rightarrow> (None, v))"
    unfolding mouse_event_def r Let_def prod.case by (simp add: v_def split: option.split)
  ultimately have "mouse_event cfg inp t = (None, v)" using assms(3) v by simp
  then show ?thesis using assms(1) v by (simp add: kernel_GetLWEvent_def Let_def t_def [symmetric] lw_consts)
qed

text \<open>Two keys released together: only the first is reported, and the other modifier stays on.\<close>

lemma released_together:
  assumes "find_key_change (oldkeystate s) (KeyboardState inp) 1 (UpdateKeyboard inp - 1) = Some (29, False)"
    and "ial_ok inp" "length (oldkeystate s) = 256" "54 < UpdateKeyboard inp" "KeyboardState inp ! 54 = 0" "shift2 s = 1"
    and "key_event cfg inp s = (r, t)"
  shows "GetKeyStatus 54 t = 0 \<and> shift2 t = 1 \<and> (\<exists>ke. r = Some (LWETYPE_KEY ke) \<and> ke_scancode ke = 29)"
proof -
  have t: "oldkeystate t = merged_keys inp s" "shift2 t = shift2 s" "\<exists>ke. r = Some (LWETYPE_KEY ke) \<and> ke_scancode ke = 29"
    using assms(7) unfolding key_event_def assms(1)
    by (auto simp: keyret_def Let_def update_status_def merged_keys_def key_switch_mods)
  have "merged_keys inp s ! 54 = 0" using merged_nth(2) [OF assms(2,3)] assms(4,5) by simp
  then show ?thesis using t assms(6) by (simp add: GetKeyStatus_def MGUI_NR_KEYS_def)
qed

section \<open>A run\<close>

definition ev_cfg :: lw_config where
  "ev_cfg = \<lparr>dblclicktime = 0, timeout_usec = 0, repeat_usec = 0, key_longpress_time = 200, key_alwayspress_time = 1000, interval_time = 200\<rparr>"

definition ev_press :: "dword \<Rightarrow> lw_call" where
  "ev_press n = ((0, 300000), IAL_MOUSEEVENT, \<lparr>UpdateMouse = True, MouseX = 0, MouseY = 0, MouseButton = 1, UpdateKeyboard = 0,
     KeyboardState = replicate 256 0, tick_counter = n\<rparr>)"

definition ev_release :: "dword \<Rightarrow> lw_call" where
  "ev_release n = ((0, 300000), IAL_MOUSEEVENT, \<lparr>UpdateMouse = True, MouseX = 0, MouseY = 0, MouseButton = 0, UpdateKeyboard = 0,
     KeyboardState = replicate 256 0, tick_counter = n\<rparr>)"

definition ev_ctrl :: "dword \<Rightarrow> lw_call" where
  "ev_ctrl n = ((0, 300000), IAL_KEYEVENT, \<lparr>UpdateMouse = False, MouseX = 0, MouseY = 0, MouseButton = 0, UpdateKeyboard = 256,
     KeyboardState = (replicate 256 0)[29 := 1], tick_counter = n\<rparr>)"

lemma ev_calls_ok: "call_ok (ev_press n)" "call_ok (ev_release n)" "call_ok (ev_ctrl n)"
  by (simp_all add: call_ok_def ial_ok_def ev_press_def ev_release_def ev_ctrl_def)

lemma ev_init: "\<exists>c s. mg_InitLWEvent None None None False ev_cfg lw_zero = Some (c, s) \<and> dblclicktime c = 30
    \<and> oldkeystate s = replicate 256 0 \<and> oldbutton s = 0 \<and> time1 s = 0 \<and> oldx s = -1"
  by (simp add: mg_InitLWEvent_def Let_def ResetKeyEvent_def ResetMouseEvent_def GetDblclickTime_def DEF_MSEC_DBLCLICK_def
      MGUI_NR_KEYS_def lw_zero_def)

lemma ctrl_change: "key_changes (replicate 256 0) ((replicate 256 0)[29 := 1]) 256 = {29}"
  by (auto simp: key_changes_def nth_list_update)

lemma ev_mouse_step:
  assumes "c = ((0, 300000), IAL_MOUSEEVENT, \<lparr>UpdateMouse = True, MouseX = 0, MouseY = 0, MouseButton = b, UpdateKeyboard = 0,
     KeyboardState = replicate 256 0, tick_counter = n\<rparr>)" "b \<noteq> oldbutton s" "b \<in> {0, 1}" "oldbutton s \<in> {0, 1}"
  shows "\<exists>r t. lw_step cfg c s = (r, t) \<and> press_of MB_Left r = (b = 1) \<and> oldbutton t = b \<and> oldkeystate t = oldkeystate s"
proof -
  define inp where "inp = \<lparr>UpdateMouse = True, MouseX = 0, MouseY = 0, MouseButton = b, UpdateKeyboard = 0,
     KeyboardState = replicate 256 0, tick_counter = n\<rparr>"
  define s2 where "s2 = s\<lparr>event_timeout := (0, 300000), timeout_count := 0\<rparr>"
  obtain m s1 where r: "kernel_RefreshCursor inp s2 = (m, s1)" by (cases "kernel_RefreshCursor inp s2")
  define u where "u = (if m then s1\<lparr>time1 := 0, time2 := 0, time3 := 0\<rparr> else s1)"
  have u: "oldbutton u = oldbutton s" "oldkeystate u = oldkeystate s"
    using refresh_frame(4,6) [OF r] by (simp_all add: u_def s2_def)
  obtain ev v where be: "button_event cfg b n u = Some (ev, v)" and ev: "(ev = ME_LEFTDOWN \<or> ev = ME_LEFTDBLCLICK) = (b = 1)"
    using assms(2-4) by (auto simp: button_event_def u lw_consts)
  have me: "mouse_event cfg inp s2 = mouseret cfg ev inp v"
    unfolding mouse_event_def r Let_def prod.case u_def [symmetric] using be assms(2) by (simp add: inp_def u)
  have "lw_step cfg c s = mouseret cfg ev inp v"
    unfolding assms(1) inp_def [symmetric] lw_step_def prod.case kernel_GetLWEvent_def Let_def
    using me by (simp add: inp_def s2_def lw_consts mouseret_def Let_def)
  moreover have "press_of MB_Left (fst (mouseret cfg ev inp v)) = (b = 1)" using ev by (simp add: mouseret_def Let_def press_of_def)
  moreover have "oldbutton (snd (mouseret cfg ev inp v)) = b \<and> oldkeystate (snd (mouseret cfg ev inp v)) = oldkeystate s"
    using button_event_frame(4) [OF be] u by (simp add: mouseret_def Let_def inp_def)
  ultimately show ?thesis by (metis prod.collapse)
qed

lemma ev_press_step:
  assumes "oldbutton s = 0"
  shows "\<exists>r t. lw_step cfg (ev_press n) s = (r, t) \<and> press_of MB_Left r \<and> oldbutton t = 1 \<and> oldkeystate t = oldkeystate s"
  using ev_mouse_step [OF ev_press_def, of s cfg n] assms by simp

lemma ev_release_step:
  assumes "oldbutton s = 1"
  shows "\<exists>r t. lw_step cfg (ev_release n) s = (r, t) \<and> \<not> press_of MB_Left r \<and> oldbutton t = 0 \<and> oldkeystate t = oldkeystate s"
  using ev_mouse_step [OF ev_release_def, of s cfg n] assms by simp

theorem lw_events_tell_state_witness:
  "\<exists>c s rs t. mg_InitLWEvent None None None False ev_cfg lw_zero = Some (c, s) \<and> lw_run c [ev_press 100, ev_ctrl 110] s = (rs, t)
    \<and> oldbutton t = v_buttons (fold follow rs view_start)"
proof -
  obtain c s where i: "mg_InitLWEvent None None None False ev_cfg lw_zero = Some (c, s)" and s: "oldkeystate s = replicate 256 0" "oldbutton s = 0"
    using ev_init by blast
  obtain r s1 where p: "lw_step c (ev_press 100) s = (r, s1)" "oldkeystate s1 = oldkeystate s" using ev_press_step [OF s(2)] by blast
  have one: "single_changes c [ev_press 100, ev_ctrl 110] s"
    using p s by (simp add: single_change_def ev_press_def ev_ctrl_def one_button_def one_key_def ctrl_change) (simp add: key_changes_def)
  obtain rs t where run: "lw_run c [ev_press 100, ev_ctrl 110] s = (rs, t)" by (cases "lw_run c [ev_press 100, ev_ctrl 110] s")
  from lw_events_tell_state [OF i _ one run] show ?thesis using i run ev_calls_ok by auto
qed

theorem lw_state_type_witness:
  "\<exists>c s rs t. mg_InitLWEvent None None None False ev_cfg lw_zero = Some (c, s) \<and> lw_run c [ev_press 100, ev_ctrl 110] s = (rs, t)
    \<and> GetShiftKeyStatus t AND NOT 0xFFFFF = 0"
proof -
  obtain c s where i: "mg_InitLWEvent None None None False ev_cfg lw_zero = Some (c, s)" using ev_init by blast
  obtain rs t where run: "lw_run c [ev_press 100, ev_ctrl 110] s = (rs, t)" by (cases "lw_run c [ev_press 100, ev_ctrl 110] s")
  from lw_state_type [OF i _ run] show ?thesis using i run ev_calls_ok by auto
qed

theorem double_click_iff_witness:
  "\<exists>c s r s1 rs s2 r' s3 me. lw_step c (ev_press 100) s = (r, s1) \<and> lw_run c [ev_release 105] s1 = (rs, s2)
    \<and> lw_step c (ev_press 120) s2 = (r', s3) \<and> r' = Some (LWETYPE_MOUSE me) \<and> me_event me = ME_LEFTDBLCLICK"
proof -
  obtain c :: lw_config and s :: lw_state where c: "dblclicktime c = 30" and s: "oldbutton s = 0" using ev_init by blast
  obtain r s1 where p: "lw_step c (ev_press 100) s = (r, s1)" "press_of MB_Left r" "oldbutton s1 = 1" using ev_press_step [OF s] by blast
  obtain q s2 where q: "lw_step c (ev_release 105) s1 = (q, s2)" "\<not> press_of MB_Left q" "oldbutton s2 = 0" using ev_release_step [OF p(3)] by blast
  have run: "lw_run c [ev_release 105] s1 = ([q], s2)" by (simp add: q)
  obtain r' s3 where p': "lw_step c (ev_press 120) s2 = (r', s3)" "press_of MB_Left r'" using ev_press_step [OF q(3)] by blast
  have "\<exists>me. r' = Some (LWETYPE_MOUSE me) \<and> (me_event me = dbl_code MB_Left
      \<longleftrightarrow> tick_counter (snd (snd (ev_press 120))) - tick_counter (snd (snd (ev_press 100))) \<le> dblclicktime c)"
    by (rule double_click_iff [OF p(1,2) run _ p']) (simp_all add: q pointer_at_def ev_press_def ev_release_def)
  then obtain me where "r' = Some (LWETYPE_MOUSE me)" "me_event me = ME_LEFTDBLCLICK" using c by (auto simp: ev_press_def)
  then show ?thesis using p q run p' by blast
qed

end
