(* ===== verification/MG_EventLoop.thy ===== *)
theory MG_EventLoop
  imports MG_EventRun MG_MsgSend
begin

unbundle bit_operations_syntax

text \<open>
  The thread that collects events: \<open>ParseEvent\<close> and \<open>EventLoop\<close> of \<open>src/kernel/init.c\<close>, and
  \<open>__mg_check_hook_func\<close> of \<open>src/kernel/desktop.c\<close>. An event becomes messages for the desktop, which the hooks of
  the program may stop and which are put into the message queue of the desktop.
\<close>

section \<open>From events to messages\<close>

named_theorems ev_msgs \<open>the codes of the event messages\<close>

definition MSG_LBUTTONDOWN :: nat where [ev_msgs]: "MSG_LBUTTONDOWN = 0x0001"
definition MSG_LBUTTONUP :: nat where [ev_msgs]: "MSG_LBUTTONUP = 0x0002"
definition MSG_LBUTTONDBLCLK :: nat where [ev_msgs]: "MSG_LBUTTONDBLCLK = 0x0003"
definition MSG_RBUTTONDOWN :: nat where [ev_msgs]: "MSG_RBUTTONDOWN = 0x0005"
definition MSG_RBUTTONUP :: nat where [ev_msgs]: "MSG_RBUTTONUP = 0x0006"
definition MSG_RBUTTONDBLCLK :: nat where [ev_msgs]: "MSG_RBUTTONDBLCLK = 0x0007"
definition MSG_MBUTTONDOWN :: nat where [ev_msgs]: "MSG_MBUTTONDOWN = 0x0008"
definition MSG_MBUTTONUP :: nat where [ev_msgs]: "MSG_MBUTTONUP = 0x0009"
definition MSG_MBUTTONDBLCLK :: nat where [ev_msgs]: "MSG_MBUTTONDBLCLK = 0x000A"
definition MSG_KEYDOWN :: nat where [ev_msgs]: "MSG_KEYDOWN = 0x0015"
definition MSG_KEYUP :: nat where [ev_msgs]: "MSG_KEYUP = 0x0017"
definition MSG_KEYLONGPRESS :: nat where [ev_msgs]: "MSG_KEYLONGPRESS = 0x001B"
definition MSG_KEYALWAYSPRESS :: nat where [ev_msgs]: "MSG_KEYALWAYSPRESS = 0x001C"
definition MSG_EXIN_END_CHANGES :: nat where [ev_msgs]: "MSG_EXIN_END_CHANGES = 0x008F"

text \<open>The hooks: a function of the window, the message and its parameters, which may stop the message.\<close>

type_synonym hook = "HWND \<Rightarrow> nat \<Rightarrow> dword \<Rightarrow> dword \<Rightarrow> int"

datatype hook_event = HOOK_EVENT_KEY | HOOK_EVENT_MOUSE | HOOK_EVENT_EXTRA

record HOOKS =
  keyhook :: "hook option"
  mousehook :: "hook option"
  extrahook :: "hook option"

definition HOOK_GOON :: int where "HOOK_GOON = 0"

definition check_hook_func :: "HOOKS \<Rightarrow> hook_event \<Rightarrow> MSG \<Rightarrow> int" where
  "check_hook_func hs event_type msg =
     (case (case event_type of HOOK_EVENT_KEY \<Rightarrow> keyhook hs | HOOK_EVENT_MOUSE \<Rightarrow> mousehook hs | HOOK_EVENT_EXTRA \<Rightarrow> extrahook hs) of
        Some f \<Rightarrow> f (hwnd msg) (message msg) (wParam msg) (lParam msg)
      | None \<Rightarrow> HOOK_GOON)"

record event_loop =
  el_desktop :: HWND
  el_lw :: lw_state
  mouse_x :: int
  mouse_y :: int
  el_queue :: MSGQUEUE

text \<open>A message goes to the queue of the desktop unless its hook stops it; the thread of the events is not the
  thread of the desktop.\<close>

definition QueueDeskMessage :: "dword \<Rightarrow> MSG \<Rightarrow> event_loop \<Rightarrow> event_loop" where
  "QueueDeskMessage tick m L = L\<lparr>el_queue := snd (snd (kernel_QueueMessage tick False (el_queue L) m))\<rparr>"

definition hook_queue :: "HOOKS \<Rightarrow> hook_event \<Rightarrow> dword \<Rightarrow> MSG \<Rightarrow> event_loop \<Rightarrow> event_loop" where
  "hook_queue hs e tick m L = (if check_hook_func hs e m = HOOK_GOON then QueueDeskMessage tick m L else L)"

fun key_message :: "key_event_code \<Rightarrow> nat" where
  "key_message KE_KEYDOWN = MSG_KEYDOWN"
| "key_message KE_KEYUP = MSG_KEYUP"
| "key_message KE_KEYLONGPRESS = MSG_KEYLONGPRESS"
| "key_message KE_KEYALWAYSPRESS = MSG_KEYALWAYSPRESS"

fun mouse_message :: "mouse_event_code \<Rightarrow> nat" where
  "mouse_message ME_MOVED = MSG_MOUSEMOVE"
| "mouse_message ME_LEFTDOWN = MSG_LBUTTONDOWN"
| "mouse_message ME_LEFTUP = MSG_LBUTTONUP"
| "mouse_message ME_LEFTDBLCLICK = MSG_LBUTTONDBLCLK"
| "mouse_message ME_RIGHTDOWN = MSG_RBUTTONDOWN"
| "mouse_message ME_RIGHTUP = MSG_RBUTTONUP"
| "mouse_message ME_RIGHTDBLCLICK = MSG_RBUTTONDBLCLK"
| "mouse_message ME_MIDDLEDOWN = MSG_MBUTTONDOWN"
| "mouse_message ME_MIDDLEUP = MSG_MBUTTONUP"
| "mouse_message ME_MIDDLEDBLCLICK = MSG_MBUTTONDBLCLK"

definition desk_msg :: "HWND \<Rightarrow> nat \<Rightarrow> dword \<Rightarrow> dword \<Rightarrow> dword \<Rightarrow> MSG" where
  "desk_msg h code w l tick = \<lparr>hwnd = h, message = code, wParam = w, lParam = l, msg_time = tick, pSyncMsg = None\<rparr>"

fun ParseEvent :: "HOOKS \<Rightarrow> dword \<Rightarrow> LWEVENT \<Rightarrow> event_loop \<Rightarrow> event_loop" where
  "ParseEvent hs tick (LWETYPE_TIMEOUT n) L = L"
| "ParseEvent hs tick (LWETYPE_KEY ke) L =
     hook_queue hs HOOK_EVENT_KEY tick (desk_msg (el_desktop L) (key_message (ke_event ke)) (word_of_nat (ke_scancode ke)) (ke_status ke) tick) L"
| "ParseEvent hs tick (LWETYPE_MOUSE me) L =
     (let msg = desk_msg (el_desktop L) (mouse_message (me_event me)) (me_status me) (MAKELONG (word_of_int (me_x me)) (word_of_int (me_y me))) tick;
          L = (if me_event me \<noteq> ME_MOVED \<and> (mouse_x L \<noteq> me_x me \<or> mouse_y L \<noteq> me_y me)
               then (hook_queue hs HOOK_EVENT_MOUSE tick (msg\<lparr>message := MSG_MOUSEMOVE\<rparr>) L)\<lparr>mouse_x := me_x me, mouse_y := me_y me\<rparr>
               else L)
      in hook_queue hs HOOK_EVENT_MOUSE tick msg L)"

section \<open>The loop\<close>

record EXTRA_INPUT_EVENT =
  ex_event :: nat
  ex_wparam :: dword
  ex_lparam :: dword
  params_mask :: u32
  wparams :: "dword list"
  lparams :: "dword list"

definition NR_PACKED_SUB_EVENTS :: nat where "NR_PACKED_SUB_EVENTS = 16"
definition IAL_EVENT_EXTRA :: u32 where "IAL_EVENT_EXTRA = 4"

text \<open>The loop over the packed sub events: it counts those that the mask names.\<close>

fun packed_events :: "HOOKS \<Rightarrow> dword \<Rightarrow> EXTRA_INPUT_EVENT \<Rightarrow> nat list \<Rightarrow> nat \<Rightarrow> event_loop \<Rightarrow> nat \<times> event_loop" where
  "packed_events hs tick ex [] n L = (n, L)"
| "packed_events hs tick ex (i # is) n L =
     (if params_mask ex AND push_bit i 1 \<noteq> 0
      then packed_events hs tick ex is (n + 1)
             (hook_queue hs HOOK_EVENT_EXTRA tick (desk_msg (el_desktop L) (ex_event ex) (wparams ex ! i) (lparams ex ! i) tick) L)
      else packed_events hs tick ex is n L)"

definition extra_events :: "HOOKS \<Rightarrow> dword \<Rightarrow> EXTRA_INPUT_EVENT \<Rightarrow> event_loop \<Rightarrow> event_loop" where
  "extra_events hs tick ex L =
     (if params_mask ex \<noteq> 0 then
        (case packed_events hs tick ex [0..<NR_PACKED_SUB_EVENTS] 0 L of (n, L) \<Rightarrow>
           if n > 0 then hook_queue hs HOOK_EVENT_EXTRA tick (desk_msg (el_desktop L) MSG_EXIN_END_CHANGES (word_of_nat n) 0 tick) L else L)
      else hook_queue hs HOOK_EVENT_EXTRA tick (desk_msg (el_desktop L) (ex_event ex) (ex_wparam ex) (ex_lparam ex) tick) L)"

definition get_and_parse :: "lw_config \<Rightarrow> HOOKS \<Rightarrow> u32 \<Rightarrow> ial_input \<Rightarrow> event_loop \<Rightarrow> event_loop" where
  "get_and_parse cfg hs e inp L =
     (case kernel_GetLWEvent cfg e inp (el_lw L) of
        (None, s) \<Rightarrow> L\<lparr>el_lw := s\<rparr>
      | (Some lwe, s) \<Rightarrow> ParseEvent hs (tick_counter inp) lwe (L\<lparr>el_lw := s\<rparr>))"

text \<open>What one turn of the loop meets: the event that \<open>IAL_WaitEvent\<close> returns, what it leaves of the timeout, and
  what the engine says in the calls that follow.\<close>

record loop_turn =
  lt_event :: u32
  lt_left :: "int \<times> int"
  lt_mouse :: ial_input
  lt_key :: ial_input
  lt_none :: ial_input
  lt_extra :: EXTRA_INPUT_EVENT

definition EventLoop_turn :: "lw_config \<Rightarrow> HOOKS \<Rightarrow> loop_turn \<Rightarrow> event_loop \<Rightarrow> event_loop" where
  "EventLoop_turn cfg hs d L =
     (let L = L\<lparr>el_lw := (el_lw L)\<lparr>event_timeout := lt_left d\<rparr>\<rparr>; event = lt_event d
      in if sint event < 0 then L
         else
           let L = (if event AND IAL_MOUSEEVENT \<noteq> 0 then get_and_parse cfg hs IAL_MOUSEEVENT (lt_mouse d) L else L);
               L = (if event AND IAL_KEYEVENT \<noteq> 0 then get_and_parse cfg hs IAL_KEYEVENT (lt_key d) L else L)
           in if event AND IAL_EVENT_EXTRA \<noteq> 0 then extra_events hs (tick_counter (lt_none d)) (lt_extra d) L
              else if event = 0 then get_and_parse cfg hs 0 (lt_none d) L
              else L)"

definition EventLoop :: "lw_config \<Rightarrow> HOOKS \<Rightarrow> loop_turn list \<Rightarrow> event_loop \<Rightarrow> event_loop" where
  "EventLoop cfg hs ds L = fold (EventLoop_turn cfg hs) ds L"

section \<open>Following the messages\<close>

definition follow_msg :: "MSG \<Rightarrow> key_view \<Rightarrow> key_view" where
  "follow_msg m v =
     (if message m = MSG_KEYDOWN then (if lParam m AND KS_REPEATED = 0 then key_pressed (unat (wParam m)) v else v)
      else if message m = MSG_KEYUP then v\<lparr>v_keys := v_keys v - {unat (wParam m)}\<rparr>
      else if message m = MSG_LBUTTONDOWN \<or> message m = MSG_LBUTTONDBLCLK then v\<lparr>v_buttons := v_buttons v OR 1\<rparr>
      else if message m = MSG_LBUTTONUP then v\<lparr>v_buttons := v_buttons v AND NOT 1\<rparr>
      else if message m = MSG_RBUTTONDOWN \<or> message m = MSG_RBUTTONDBLCLK then v\<lparr>v_buttons := v_buttons v OR 2\<rparr>
      else if message m = MSG_RBUTTONUP then v\<lparr>v_buttons := v_buttons v AND NOT 2\<rparr>
      else if message m = MSG_MBUTTONDOWN \<or> message m = MSG_MBUTTONDBLCLK then v\<lparr>v_buttons := v_buttons v OR 4\<rparr>
      else if message m = MSG_MBUTTONUP then v\<lparr>v_buttons := v_buttons v AND NOT 4\<rparr>
      else v)"

text \<open>Hooks that let everything pass.\<close>

definition hooks_pass :: "HOOKS \<Rightarrow> bool" where
  "hooks_pass hs \<longleftrightarrow> (\<forall>e m. check_hook_func hs e m = HOOK_GOON)"

lemma update_first_split: "update_first P f xs = Some ys \<Longrightarrow> \<exists>as x bs. xs = as @ x # bs \<and> P x \<and> ys = as @ f x # bs"
proof (induction xs arbitrary: ys)
  case (Cons x xs)
  show ?case
  proof (cases "P x")
    case True
    then show ?thesis using Cons.prems by (intro exI [of _ "[]"]) auto
  next
    case False
    then obtain zs where "update_first P f xs = Some zs" "ys = x # zs" using Cons.prems by auto
    then show ?thesis using Cons.IH [of zs] by (metis append_Cons)
  qed
qed simp

lemma update_last_split: "update_last P f xs = Some ys \<Longrightarrow> \<exists>as x bs. xs = as @ x # bs \<and> P x \<and> ys = as @ f x # bs"
proof -
  assume "update_last P f xs = Some ys"
  then obtain zs where z: "update_first P f (rev xs) = Some zs" "ys = rev zs" by (auto simp: update_last_def)
  obtain as x bs where s: "rev xs = as @ x # bs" "P x" "zs = as @ f x # bs" using update_first_split [OF z(1)] by blast
  have "xs = rev bs @ x # rev as" using s(1) by (simp add: rev_swap)
  moreover have "ys = rev bs @ f x # rev as" using s(3) z(2) by simp
  ultimately show ?thesis using s(2) by blast
qed

lemma follow_msg_time [simp]: "follow_msg (m\<lparr>msg_time := n\<rparr>) v = follow_msg m v"
  by (simp add: follow_msg_def)

lemma follow_msg_other: "is_move m \<or> is_clock m \<Longrightarrow> follow_msg m v = v"
  by (auto simp: is_move_def is_clock_def msg_codes ev_msgs follow_msg_def)

lemma post_list_follow:
  assumes "post_list cap m xs = Some ys"
  shows "fold follow_msg ys v = follow_msg m (fold follow_msg xs v) \<and> length ys \<le> Suc (length xs)"
proof -
  have merge: ?thesis if "xs = as @ x # bs" "ys = as @ y # bs" "is_move m \<or> is_clock m" "follow_msg y = follow_msg x" for as x y bs
    using that follow_msg_other [of m] by simp
  have same: "follow_msg y = follow_msg x" if "message y = message x" "message x = message m" "is_move m \<or> is_clock m" for x y
  proof -
    have "is_move x \<or> is_clock x" "is_move y \<or> is_clock y" using that by (auto simp: is_move_def is_clock_def)
    then show ?thesis using follow_msg_other by (intro ext) simp
  qed
  consider (app) "ys = xs @ [m]"
    | (mv) "is_move m" "update_last (same_move m) (\<lambda>a. a\<lparr>lParam := lParam m, msg_time := msg_time m\<rparr>) xs = Some ys"
    | (cl) "is_clock m" "update_first (same_clock m) (\<lambda>a. a\<lparr>wParam := wParam m, lParam := lParam m, msg_time := msg_time m\<rparr>) xs = Some ys"
  proof (cases "is_move m")
    case True
    then show ?thesis using assms that(1,2) by (cases "update_last (same_move m) (\<lambda>a. a\<lparr>lParam := lParam m, msg_time := msg_time m\<rparr>) xs")
        (auto simp: post_list_def split: if_splits)
  next
    case False
    then show ?thesis using assms that(1,3)
      by (cases "is_clock m"; cases "update_first (same_clock m) (\<lambda>a. a\<lparr>wParam := wParam m, lParam := lParam m, msg_time := msg_time m\<rparr>) xs")
        (auto simp: post_list_def split: if_splits)
  qed
  then show ?thesis
  proof cases
    case mv
    obtain as x bs where s: "xs = as @ x # bs" "same_move m x" "ys = as @ x\<lparr>lParam := lParam m, msg_time := msg_time m\<rparr> # bs"
      using update_last_split [OF mv(2)] by blast
    show ?thesis by (rule merge [OF s(1,3)]) (use mv(1) s(2) in \<open>auto intro!: same simp: same_move_def\<close>)
  next
    case cl
    obtain as x bs where s: "xs = as @ x # bs" "same_clock m x" "ys = as @ x\<lparr>wParam := wParam m, lParam := lParam m, msg_time := msg_time m\<rparr> # bs"
      using update_first_split [OF cl(2)] by blast
    show ?thesis by (rule merge [OF s(1,3)]) (use cl(1) s(2) in \<open>auto intro!: same simp: same_clock_def\<close>)
  qed simp
qed

lemma post_list_room: "length xs < cap \<Longrightarrow> post_list cap m xs \<noteq> None"
  by (auto simp: post_list_def Let_def split: option.split)

definition msgs_view :: "event_loop \<Rightarrow> key_view" where
  "msgs_view L = fold follow_msg (posted (el_queue L)) view_start"

definition queue_room :: "nat \<Rightarrow> event_loop \<Rightarrow> bool" where
  "queue_room n L \<longleftrightarrow> ring_inv (el_queue L) \<and> length (posted (el_queue L)) + n \<le> len (el_queue L) - 1"

lemma queue_room_mono: "queue_room b L \<Longrightarrow> a \<le> b \<Longrightarrow> queue_room a L"
  unfolding queue_room_def by (meson add_left_mono le_trans)

lemma hook_queue_follow:
  assumes pass: "hooks_pass hs" and room: "queue_room (Suc n) L"
  shows "queue_room n (hook_queue hs e tick m L)" "msgs_view (hook_queue hs e tick m L) = follow_msg m (msgs_view L)"
    "el_lw (hook_queue hs e tick m L) = el_lw L"
proof -
  obtain ok m' q' where k: "kernel_QueueMessage tick False (el_queue L) m = (ok, m', q')"
    by (cases "kernel_QueueMessage tick False (el_queue L) m")
  have L: "hook_queue hs e tick m L = L\<lparr>el_queue := q'\<rparr>" using pass k by (simp add: hook_queue_def QueueDeskMessage_def hooks_pass_def)
  have inv: "ring_inv (el_queue L)" and r: "length (posted (el_queue L)) < len (el_queue L) - 1" using room by (simp_all add: queue_room_def)
  note sp = queue_message_spec [OF inv k]
  obtain xs where xs: "post_list (len (el_queue L) - 1) m' (posted (el_queue L)) = Some xs" using post_list_room [OF r] by blast
  have q': "ring_inv q'" "m' = m\<lparr>msg_time := tick\<rparr>" "posted q' = xs" using sp unfolding xs by simp_all
  have len: "len q' = len (el_queue L)"
    using k by (auto simp: kernel_QueueMessage_def write_post_def Let_def split: if_splits option.splits)
  note pf = post_list_follow [OF xs, of view_start]
  show "queue_room n (hook_queue hs e tick m L)" using q' len pf room by (auto simp: L queue_room_def)
  show "msgs_view (hook_queue hs e tick m L) = follow_msg m (msgs_view L)" using pf q' by (simp add: L msgs_view_def)
  show "el_lw (hook_queue hs e tick m L) = el_lw L" by (simp add: L)
qed

text \<open>A key event that names a key, or one that does not change what is down.\<close>

definition key_code_ok :: "LWEVENT \<Rightarrow> bool" where
  "key_code_ok lwe \<longleftrightarrow> (case lwe of LWETYPE_KEY ke \<Rightarrow> ke_scancode ke < 256
       \<or> ke_event ke \<noteq> KE_KEYUP \<and> (ke_event ke = KE_KEYDOWN \<longrightarrow> ke_status ke AND KS_REPEATED \<noteq> 0) | _ \<Rightarrow> True)"

lemma follow_key_message:
  assumes "key_code_ok (LWETYPE_KEY ke)"
  shows "follow_msg (desk_msg h (key_message (ke_event ke)) (word_of_nat (ke_scancode ke)) (ke_status ke) tick) v = follow (Some (LWETYPE_KEY ke)) v"
proof -
  have "unat (word_of_nat (ke_scancode ke) :: dword) = ke_scancode ke" if "ke_scancode ke < 256"
    using that by (simp add: unat_of_nat take_bit_nat_eq_self)
  then show ?thesis using assms
    by (cases "ke_event ke") (auto simp: follow_msg_def desk_msg_def follow_key_def ev_msgs key_code_ok_def)
qed

lemma follow_mouse_message:
  "follow_msg (desk_msg h (mouse_message (me_event me)) w l tick) v = follow (Some (LWETYPE_MOUSE me)) v"
  by (cases "me_event me") (simp_all add: follow_msg_def desk_msg_def ev_msgs msg_codes)

lemma ParseEvent_follow:
  assumes pass: "hooks_pass hs" and room: "queue_room (Suc (Suc n)) L" and sc: "key_code_ok lwe"
  shows "queue_room n (ParseEvent hs tick lwe L) \<and> msgs_view (ParseEvent hs tick lwe L) = follow (Some lwe) (msgs_view L)
    \<and> el_lw (ParseEvent hs tick lwe L) = el_lw L"
proof (cases lwe)
  case (LWETYPE_TIMEOUT k)
  then show ?thesis using room by (simp add: queue_room_def)
next
  case (LWETYPE_KEY ke)
  have "queue_room (Suc n) L \<Longrightarrow> queue_room n L" for L :: event_loop by (simp add: queue_room_def)
  then show ?thesis using LWETYPE_KEY hook_queue_follow [OF pass room] follow_key_message [OF sc [unfolded LWETYPE_KEY]] by simp
next
  case (LWETYPE_MOUSE me)
  define m where "m = desk_msg (el_desktop L) (mouse_message (me_event me)) (me_status me) (MAKELONG (word_of_int (me_x me)) (word_of_int (me_y me))) tick"
  define L1 where "L1 = (if me_event me \<noteq> ME_MOVED \<and> (mouse_x L \<noteq> me_x me \<or> mouse_y L \<noteq> me_y me)
      then (hook_queue hs HOOK_EVENT_MOUSE tick (m\<lparr>message := MSG_MOUSEMOVE\<rparr>) L)\<lparr>mouse_x := me_x me, mouse_y := me_y me\<rparr> else L)"
  have same: "queue_room k (L\<lparr>mouse_x := x, mouse_y := y\<rparr>) = queue_room k L" "msgs_view (L\<lparr>mouse_x := x, mouse_y := y\<rparr>) = msgs_view L" for k x y L
    by (simp_all add: queue_room_def msgs_view_def)
  have mv: "follow_msg (m\<lparr>message := MSG_MOUSEMOVE\<rparr>) v = v" for v by (simp add: follow_msg_def ev_msgs msg_codes)
  have "queue_room (Suc n) L1 \<and> msgs_view L1 = msgs_view L \<and> el_lw L1 = el_lw L"
    using hook_queue_follow [OF pass room, of HOOK_EVENT_MOUSE tick "m\<lparr>message := MSG_MOUSEMOVE\<rparr>"] room mv
    by (simp add: L1_def same) (simp add: queue_room_def)
  then have L1: "queue_room (Suc n) L1" "msgs_view L1 = msgs_view L" "el_lw L1 = el_lw L" by blast+
  have pe: "ParseEvent hs tick lwe L = hook_queue hs HOOK_EVENT_MOUSE tick m L1"
    unfolding LWETYPE_MOUSE ParseEvent.simps Let_def m_def [symmetric] L1_def [symmetric] ..
  have fm: "follow_msg m v = follow (Some lwe) v" for v unfolding m_def LWETYPE_MOUSE by (rule follow_mouse_message)
  show ?thesis unfolding pe using hook_queue_follow [OF pass L1(1)] fm L1(2,3) by simp
qed

section \<open>Extra input events\<close>

text \<open>The codes from \<open>MSG_FIRSTEXTRAINPUTMSG\<close> to \<open>MSG_LASTEXTRAINPUTMSG\<close>.\<close>

definition extra_code :: "nat \<Rightarrow> bool" where
  "extra_code c \<longleftrightarrow> 0x70 \<le> c \<and> c \<le> 0x9F"

lemma follow_extra: "extra_code c \<Longrightarrow> follow_msg (desk_msg h c w l tick) v = v"
  by (auto simp: extra_code_def follow_msg_def desk_msg_def ev_msgs)

lemma packed_events_follow:
  assumes "hooks_pass hs" "extra_code (ex_event ex)" "queue_room (length is + n) L" "packed_events hs tick ex is k L = (k', L')"
  shows "queue_room n L' \<and> msgs_view L' = msgs_view L \<and> el_lw L' = el_lw L"
  using assms(3,4)
proof (induction "is" arbitrary: k L)
  case (Cons i "is")
  let ?L = "hook_queue hs HOOK_EVENT_EXTRA tick (desk_msg (el_desktop L) (ex_event ex) (wparams ex ! i) (lparams ex ! i) tick) L"
  have "queue_room (Suc (length is + n)) L" using Cons.prems(1) by simp
  note h = hook_queue_follow [OF assms(1) this]
  show ?case
  proof (cases "params_mask ex AND push_bit i 1 \<noteq> 0")
    case True
    then have "packed_events hs tick ex is (k + 1) ?L = (k', L')" using Cons.prems(2) by simp
    from Cons.IH [OF h(1) this] h(2,3) follow_extra [OF assms(2)] show ?thesis by simp
  next
    case False
    then have "packed_events hs tick ex is k L = (k', L')" using Cons.prems(2) by simp
    moreover have "queue_room (length is + n) L" by (rule queue_room_mono [OF Cons.prems(1)]) simp
    ultimately show ?thesis by (rule Cons.IH [rotated])
  qed
qed simp

lemma extra_events_follow:
  assumes pass: "hooks_pass hs" and code: "extra_code (ex_event ex)" and room: "queue_room (17 + n) L"
  shows "queue_room n (extra_events hs tick ex L) \<and> msgs_view (extra_events hs tick ex L) = msgs_view L
    \<and> el_lw (extra_events hs tick ex L) = el_lw L"
proof (cases "params_mask ex = 0")
  case True
  have "queue_room (Suc n) L" by (rule queue_room_mono [OF room]) simp
  from hook_queue_follow [OF pass this] show ?thesis using True follow_extra [OF code] by (simp add: extra_events_def)
next
  case False
  obtain k L1 where p: "packed_events hs tick ex [0..<NR_PACKED_SUB_EVENTS] 0 L = (k, L1)"
    by (cases "packed_events hs tick ex [0..<NR_PACKED_SUB_EVENTS] 0 L")
  have "queue_room (length [0..<NR_PACKED_SUB_EVENTS] + Suc n) L" using room by (simp add: NR_PACKED_SUB_EVENTS_def)
  from packed_events_follow [OF pass code this p]
  have L1: "queue_room (Suc n) L1" "msgs_view L1 = msgs_view L" "el_lw L1 = el_lw L" by simp_all
  have "extra_code MSG_EXIN_END_CHANGES" by (simp add: extra_code_def MSG_EXIN_END_CHANGES_def)
  then show ?thesis
    using False p L1 hook_queue_follow [OF pass L1(1)] queue_room_mono [OF L1(1), of n] follow_extra
    by (simp add: extra_events_def)
qed

section \<open>The messages tell the state\<close>

text \<open>What the engine says in a turn: at most one change of a button in the call for the mouse and of a key in the call
  for the keyboard, and an extra event with a code of these.\<close>

definition turn_single :: "lw_config \<Rightarrow> HOOKS \<Rightarrow> loop_turn \<Rightarrow> event_loop \<Rightarrow> bool" where
  "turn_single cfg hs d L \<longleftrightarrow>
     (let L0 = L\<lparr>el_lw := (el_lw L)\<lparr>event_timeout := lt_left d\<rparr>\<rparr>;
          L1 = (if lt_event d AND IAL_MOUSEEVENT \<noteq> 0 then get_and_parse cfg hs IAL_MOUSEEVENT (lt_mouse d) L0 else L0)
      in ial_ok (lt_mouse d) \<and> ial_ok (lt_key d) \<and> (lt_event d AND IAL_EVENT_EXTRA \<noteq> 0 \<longrightarrow> extra_code (ex_event (lt_extra d)))
         \<and> (lt_event d AND IAL_MOUSEEVENT \<noteq> 0 \<longrightarrow> single_change ((0, 0), IAL_MOUSEEVENT, lt_mouse d) (el_lw L0))
         \<and> (lt_event d AND IAL_KEYEVENT \<noteq> 0 \<longrightarrow> single_change ((0, 0), IAL_KEYEVENT, lt_key d) (el_lw L1)))"

text \<open>The most messages that a turn can queue: two for the mouse and two for the keyboard, and one for each packed
  event and one for their end.\<close>

definition turn_msgs :: "loop_turn \<Rightarrow> nat" where
  "turn_msgs d = (if lt_event d AND IAL_EVENT_EXTRA \<noteq> 0 then 4 + NR_PACKED_SUB_EVENTS + 1 else 4)"

fun turns_single :: "lw_config \<Rightarrow> HOOKS \<Rightarrow> loop_turn list \<Rightarrow> event_loop \<Rightarrow> bool" where
  "turns_single cfg hs [] L = True"
| "turns_single cfg hs (d # ds) L = (turn_single cfg hs d L \<and> turns_single cfg hs ds (EventLoop_turn cfg hs d L))"

lemma mouseret_code: "\<exists>me. fst (mouseret cfg ev inp s) = Some (LWETYPE_MOUSE me)"
  by (simp add: mouseret_def Let_def)

lemma mouse_result_code:
  assumes "mouse_event cfg inp s = (Some lwe, t)"
  shows "key_code_ok lwe"
proof -
  obtain m s1 where r: "kernel_RefreshCursor inp s = (m, s1)" by (cases "kernel_RefreshCursor inp s")
  have ok: "key_code_ok lwe" if "mouseret cfg ev inp u = (Some lwe, t)" for ev u
    using mouseret_code [of cfg ev inp u] that by (auto simp: key_code_ok_def)
  show ?thesis using assms unfolding mouse_event_def r Let_def prod.case by (auto intro: ok split: if_splits option.splits)
qed

lemma key_result_code:
  assumes wf: "lw_wf s" and inp: "ial_ok inp" and e: "key_event cfg inp s = (Some lwe, t)"
  shows "key_code_ok lwe"
proof (cases "find_key_change (oldkeystate s) (KeyboardState inp) 1 (UpdateKeyboard inp - 1)")
  case (Some p)
  obtain i d where p: "p = (i, d)" by (cases p)
  have "i < 256" using find_key_change_spec [OF Some [unfolded p]] inp by (auto simp: ial_ok_def)
  then show ?thesis using e unfolding key_event_def Some p by (auto simp: keyret_def Let_def key_code_ok_def)
next
  case None
  have k: "olddownkey s < 256" using wf by (simp add: lw_wf_def held_ok_def)
  obtain ev s1 where lp: "treat_longpress cfg (tick_counter inp) (tick_counter inp - ke_time s) s = (ev, s1)"
    by (cases "treat_longpress cfg (tick_counter inp) (tick_counter inp - ke_time s) s")
  have "olddownkey s1 < 256" using k longpress_frame(5) [OF lp] by simp
  then show ?thesis using e lp unfolding key_event_def None by (auto simp: keyret_def Let_def key_code_ok_def split: if_splits)
qed

lemma no_event_code:
  assumes "no_event cfg inp s = (Some lwe, t)"
  shows "key_code_ok lwe"
proof -
  obtain ev u where lp: "treat_longpress cfg (tick_counter inp) (tick_counter inp - ke_time s) (s\<lparr>event_timeout := (0, repeat_usec cfg)\<rparr>) = (ev, u)"
    by (cases "treat_longpress cfg (tick_counter inp) (tick_counter inp - ke_time s) (s\<lparr>event_timeout := (0, repeat_usec cfg)\<rparr>)")
  have "(st OR KS_REPEATED) AND KS_REPEATED = KS_REPEATED" for st by (simp add: bit.conj_disj_distrib2 or.commute)
  then have rep: "(st OR KS_REPEATED) AND KS_REPEATED \<noteq> 0" for st by (simp add: lw_consts)
  show ?thesis using assms lp longpress_frame(8) [OF lp] rep
    by (auto simp: no_event_def Let_def key_code_ok_def split: if_splits option.splits)
qed

lemma GetLWEvent_code:
  assumes wf: "lw_wf s" and inp: "ial_ok inp" and e: "kernel_GetLWEvent cfg event inp s = (Some lwe, t)"
  shows "key_code_ok lwe"
proof -
  define e1 where "e1 = (if event AND IAL_MOUSEEVENT \<noteq> 0 \<and> \<not> UpdateMouse inp then event AND NOT IAL_MOUSEEVENT else event)"
  define e where "e = (if e1 AND IAL_KEYEVENT \<noteq> 0 \<and> UpdateKeyboard inp = 0 then e1 AND NOT IAL_KEYEVENT else e1)"
  define s2 where "s2 = s\<lparr>timeout_count := 0\<rparr>"
  have w2: "lw_wf s2" by (rule lw_wf_cong [OF wf]) (simp_all add: s2_def mod_flags_def lock_flags_def)
  obtain r1 u where m: "(if e AND IAL_MOUSEEVENT \<noteq> 0 then mouse_event cfg inp s2 else (None, s2)) = (r1, u)"
    by (cases "if e AND IAL_MOUSEEVENT \<noteq> 0 then mouse_event cfg inp s2 else (None, s2)")
  have wu: "lw_wf u" using mouse_event_wf [OF w2, of cfg inp] w2 m by (auto split: if_splits)
  have rt: "(Some lwe, t) = (if e = 0 then no_event cfg inp s else if r1 \<noteq> None then (r1, u)
      else if e AND IAL_KEYEVENT \<noteq> 0 then key_event cfg inp u else (None, u\<lparr>old_lwe := LWETYPE_TIMEOUT 0\<rparr>))"
    unfolding assms(3) [symmetric] kernel_GetLWEvent_def Let_def e1_def [symmetric] e_def [symmetric] s2_def [symmetric] m by simp
  show ?thesis
    using rt m no_event_code [of cfg inp s lwe t] mouse_result_code [of cfg inp s2 lwe u] key_result_code [OF wu inp, of cfg lwe t]
    by (auto split: if_splits)
qed

definition loop_ok :: "event_loop \<Rightarrow> bool" where
  "loop_ok L \<longleftrightarrow> lw_wf (el_lw L) \<and> flags_follow (el_lw L) \<and> msgs_view L = lw_view (el_lw L)"

lemma step_eq: "kernel_GetLWEvent cfg e inp s = lw_step cfg (event_timeout s, e, inp) s"
  by (simp add: lw_step_def)

text \<open>A call of \<open>kernel_GetLWEvent\<close> that the follower keeps up with.\<close>

definition call_follows :: "lw_config \<Rightarrow> u32 \<Rightarrow> ial_input \<Rightarrow> lw_state \<Rightarrow> bool" where
  "call_follows cfg e inp s \<longleftrightarrow> (case kernel_GetLWEvent cfg e inp s of (r, t) \<Rightarrow> lw_wf t \<and> flags_follow t
     \<and> lw_view t = follow r (lw_view s) \<and> (\<forall>lwe. r = Some lwe \<longrightarrow> key_code_ok lwe))"

lemma single_call_follows:
  assumes "lw_wf s" "flags_follow s" "ial_ok inp" "single_change ((0, 0), e, inp) s"
  shows "call_follows cfg e inp s"
proof -
  obtain r t where g: "kernel_GetLWEvent cfg e inp s = (r, t)" by (cases "kernel_GetLWEvent cfg e inp s")
  have "flags_follow t \<and> lw_view t = follow r (lw_view s)"
    by (rule lw_step_view [OF assms(1) _ assms(2), of "(event_timeout s, e, inp)" cfg]) (use assms g in \<open>simp_all add: step_eq call_ok_def single_change_def\<close>)
  moreover have "lw_wf t" using GetLWEvent_wf [OF assms(1,3), of cfg e] g by simp
  moreover have "\<forall>lwe. r = Some lwe \<longrightarrow> key_code_ok lwe" using GetLWEvent_code [OF assms(1,3), of cfg e _ t] g by auto
  ultimately show ?thesis by (simp add: call_follows_def g)
qed

lemma no_call_follows:
  assumes "lw_wf s" "flags_follow s"
  shows "call_follows cfg 0 inp s"
proof -
  obtain r t where g: "no_event cfg inp s = (r, t)" by (cases "no_event cfg inp s")
  have "kernel_GetLWEvent cfg 0 inp s = (r, t)" using g by (simp add: kernel_GetLWEvent_def Let_def)
  then show ?thesis using no_event_view [OF g assms(2)] no_event_wf [OF assms(1), of cfg inp] no_event_code [of cfg inp s _ t] g
    by (simp add: call_follows_def)
qed

lemma get_and_parse_ok:
  assumes ok: "loop_ok L" and pass: "hooks_pass hs" and room: "queue_room (Suc (Suc n)) L" and call: "call_follows cfg e inp (el_lw L)"
  shows "loop_ok (get_and_parse cfg hs e inp L) \<and> queue_room n (get_and_parse cfg hs e inp L)"
proof -
  obtain r t where g: "kernel_GetLWEvent cfg e inp (el_lw L) = (r, t)" by (cases "kernel_GetLWEvent cfg e inp (el_lw L)")
  have wt: "lw_wf t" and vt: "flags_follow t" "lw_view t = follow r (lw_view (el_lw L))" and code: "\<And>lwe. r = Some lwe \<Longrightarrow> key_code_ok lwe"
    using call by (simp_all add: call_follows_def g)
  have same: "queue_room k (L\<lparr>el_lw := t\<rparr>) = queue_room k L" "msgs_view (L\<lparr>el_lw := t\<rparr>) = msgs_view L" for k
    by (simp_all add: queue_room_def msgs_view_def)
  show ?thesis
  proof (cases r)
    case None
    have "queue_room n L" using room by (simp add: queue_room_def)
    then show ?thesis using None g wt vt ok by (simp add: get_and_parse_def loop_ok_def same)
  next
    case (Some lwe)
    have "queue_room (Suc (Suc n)) (L\<lparr>el_lw := t\<rparr>)" using room by (simp add: same)
    from ParseEvent_follow [OF pass this code [OF Some], of "tick_counter inp"]
    show ?thesis using Some g wt vt ok by (simp add: get_and_parse_def loop_ok_def same)
  qed
qed

lemma EventLoop_turn_ok:
  assumes ok: "loop_ok L" and pass: "hooks_pass hs" and room: "queue_room (turn_msgs d + n) L" and one: "turn_single cfg hs d L"
  shows "loop_ok (EventLoop_turn cfg hs d L) \<and> queue_room n (EventLoop_turn cfg hs d L)"
proof -
  define L0 where "L0 = L\<lparr>el_lw := (el_lw L)\<lparr>event_timeout := lt_left d\<rparr>\<rparr>"
  define L1 where "L1 = (if lt_event d AND IAL_MOUSEEVENT \<noteq> 0 then get_and_parse cfg hs IAL_MOUSEEVENT (lt_mouse d) L0 else L0)"
  define L2 where "L2 = (if lt_event d AND IAL_KEYEVENT \<noteq> 0 then get_and_parse cfg hs IAL_KEYEVENT (lt_key d) L1 else L1)"
  note ts = one [unfolded turn_single_def Let_def, folded L0_def, folded L1_def]
  note o = conjunct1 [OF ts] conjunct1 [OF conjunct2 [OF ts]] conjunct1 [OF conjunct2 [OF conjunct2 [OF ts]]]
    mp [OF conjunct1 [OF conjunct2 [OF conjunct2 [OF conjunct2 [OF ts]]]]] mp [OF conjunct2 [OF conjunct2 [OF conjunct2 [OF conjunct2 [OF ts]]]]]
  note less = queue_room_mono
  have wf0: "lw_wf (el_lw L0)" 
    by (rule lw_wf_cong [of "el_lw L"]) (use ok in \<open>simp_all add: L0_def loop_ok_def mod_flags_def lock_flags_def\<close>)
  have f0: "flags_follow (el_lw L0)" 
    by (rule flags_follow_cong [of "el_lw L"]) (use ok in \<open>simp_all add: L0_def loop_ok_def mod_flags_def lock_flags_def\<close>)
  have ok0: "loop_ok L0" using ok wf0 f0 by (simp add: loop_ok_def L0_def lw_view_def msgs_view_def)
  define k where "k = (if lt_event d AND IAL_EVENT_EXTRA \<noteq> 0 then 17 + n else n)"
  have r0: "queue_room (4 + k) L0" using room by (auto simp: L0_def queue_room_def turn_msgs_def k_def NR_PACKED_SUB_EVENTS_def split: if_splits)
  have kn: "n \<le> k" by (simp add: k_def)
  have 1: "loop_ok L1 \<and> queue_room (2 + k) L1"
  proof (cases "lt_event d AND IAL_MOUSEEVENT \<noteq> 0")
    case True
    have "queue_room (Suc (Suc (2 + k))) L0" by (rule less [OF r0]) simp
    from get_and_parse_ok [OF ok0 pass this single_call_follows [OF wf0 f0 o(1) o(4) [OF True]]] show ?thesis unfolding L1_def using True by simp
  next
    case False
    then have "L1 = L0" unfolding L1_def by simp
    then show ?thesis using ok0 less [OF r0, of "2 + k"] by simp
  qed
  then have ok1: "loop_ok L1" "lw_wf (el_lw L1)" "flags_follow (el_lw L1)" by (simp_all add: loop_ok_def)
  have 2: "loop_ok L2 \<and> queue_room k L2"
  proof (cases "lt_event d AND IAL_KEYEVENT \<noteq> 0")
    case True
    have "queue_room (Suc (Suc k)) L1" using 1 by simp
    from get_and_parse_ok [OF ok1(1) pass this single_call_follows [OF ok1(2,3) o(2) o(5) [OF True]]] show ?thesis unfolding L2_def using True by simp
  next
    case False
    then have "L2 = L1" unfolding L2_def by simp
    then show ?thesis using 1 less [of "2 + k" L1 k] by simp
  qed
  have turn: "EventLoop_turn cfg hs d L = (if sint (lt_event d) < 0 then L0
      else if lt_event d AND IAL_EVENT_EXTRA \<noteq> 0 then extra_events hs (tick_counter (lt_none d)) (lt_extra d) L2
      else if lt_event d = 0 then get_and_parse cfg hs 0 (lt_none d) L2 else L2)"
    unfolding EventLoop_turn_def Let_def L0_def [symmetric] L1_def [symmetric] L2_def [symmetric] by simp
  consider (none) "lt_event d = 0" | (extra) "lt_event d AND IAL_EVENT_EXTRA \<noteq> 0" | (rest) "lt_event d \<noteq> 0" "lt_event d AND IAL_EVENT_EXTRA = 0"
    by blast
  then show ?thesis
  proof cases
    case none
    then have L2: "L2 = L0" by (simp add: L2_def L1_def)
    have "queue_room (Suc (Suc n)) L0" by (rule less [OF r0]) (use kn in simp)
    from get_and_parse_ok [OF ok0 pass this no_call_follows [OF wf0 f0]]
    show ?thesis using none L2 turn by simp
  next
    case extra
    have "queue_room (17 + n) L2" using 2 extra by (simp add: k_def)
    from extra_events_follow [OF pass mp [OF o(3) extra] this]
    show ?thesis using extra turn 2 ok0 less [OF r0, of n] kn by (simp add: loop_ok_def)
  next
    case rest
    then show ?thesis using turn 2 ok0 less [OF r0, of n] by (simp add: k_def)
  qed
qed

lemma EventLoop_ok:
  assumes "loop_ok L" "hooks_pass hs" "queue_room (sum_list (map turn_msgs ds)) L" "turns_single cfg hs ds L"
  shows "loop_ok (EventLoop cfg hs ds L)"
  using assms
proof (induction ds arbitrary: L)
  case (Cons d ds)
  have "queue_room (turn_msgs d + sum_list (map turn_msgs ds)) L" using Cons.prems(3) by simp
  moreover have "turn_single cfg hs d L" using Cons.prems(4) by simp
  ultimately have "loop_ok (EventLoop_turn cfg hs d L) \<and> queue_room (sum_list (map turn_msgs ds)) (EventLoop_turn cfg hs d L)"
    by (rule EventLoop_turn_ok [OF Cons.prems(1,2)])
  then show ?case using Cons.IH [of "EventLoop_turn cfg hs d L"] Cons.prems by (simp add: EventLoop_def)
qed (simp add: EventLoop_def)

text \<open>The start of the thread: the statics of \<open>ParseEvent\<close> are zero and the queue of the desktop is empty.\<close>

definition loop_start :: "HWND \<Rightarrow> lw_state \<Rightarrow> nat \<Rightarrow> event_loop" where
  "loop_start h s n = \<lparr>el_desktop = h, el_lw = s, mouse_x = 0, mouse_y = 0, el_queue = empty_posts n fresh_queue\<rparr>"

text \<open>C17: From the engine to the message queue nothing about buttons and keys is lost: as long as no hook stops a
  message, the queue of the desktop has room, the engine reports in each call at most one change, of one of the three
  buttons or of one key, and its extra events have the codes of extra input messages, the messages in the queue,
  followed in their order and whatever moves and extra messages were put or merged among them, end in the buttons,
  the keys (of the codes from 1; code 0 is \<open>SCANCODE_RESERVED\<close>, of which no message tells), the locks and the
  modifiers that \<open>GetKeyStatus\<close> and \<open>GetShiftKeyStatus\<close> report.\<close>

theorem EventLoop_messages_tell_state:
  assumes "mg_InitLWEvent ms rep tmo False cfg s0 = Some (cfg', s)" "hooks_pass hs" "sum_list (map turn_msgs ds) < n"
    "turns_single cfg' hs ds (loop_start h s n)" "L = EventLoop cfg' hs ds (loop_start h s n)"
  shows "oldbutton (el_lw L) = v_buttons (fold follow_msg (posted (el_queue L)) view_start)
    \<and> {k. 0 < k \<and> k < 256 \<and> GetKeyStatus (word_of_nat k) (el_lw L) \<noteq> 0} = v_keys (fold follow_msg (posted (el_queue L)) view_start)
    \<and> GetShiftKeyStatus (el_lw L) AND 0xF7FF = view_word (fold follow_msg (posted (el_queue L)) view_start)"
proof -
  have q: "ring_inv (empty_posts n fresh_queue)" "posted (empty_posts n fresh_queue) = []" "len (empty_posts n fresh_queue) = n"
    using empty_posts_inv assms(3) by simp_all
  have "loop_ok (loop_start h s n)"
    using lw_init_wf [OF assms(1)] init_view [OF assms(1)] q by (simp add: loop_ok_def loop_start_def msgs_view_def)
  moreover have "queue_room (sum_list (map turn_msgs ds)) (loop_start h s n)" using q assms(3) by (simp add: queue_room_def loop_start_def)
  ultimately have ok: "loop_ok L" using EventLoop_ok [OF _ assms(2) _ assms(4)] assms(5) by simp
  then have v: "fold follow_msg (posted (el_queue L)) view_start = lw_view (el_lw L)" and wf: "lw_wf (el_lw L)" and f: "flags_follow (el_lw L)"
    by (simp_all add: loop_ok_def msgs_view_def)
  have len: "length (oldkeystate (el_lw L)) = 256" using wf by (simp add: lw_wf_def held_ok_def)
  have "{k. 0 < k \<and> k < 256 \<and> GetKeyStatus (word_of_nat k) (el_lw L) \<noteq> 0} = down_keys (oldkeystate (el_lw L))"
    using GetKeyStatus_key [OF len] len by (auto simp: down_keys_def)
  moreover have "status (el_lw L) AND 0xF7FF = view_word (lw_view (el_lw L))"
    using wf view_word_shift [OF wf f] by (simp add: lw_wf_def status_ok_def)
  ultimately show ?thesis unfolding v by (simp add: lw_view_def GetShiftKeyStatus_def)
qed

definition press_turn :: loop_turn where
  "press_turn = \<lparr>lt_event = IAL_MOUSEEVENT, lt_left = (0, 300000), lt_mouse = snd (snd (ev_press 100)), lt_key = snd (snd (ev_press 100)),
     lt_none = snd (snd (ev_press 100)), lt_extra = \<lparr>ex_event = 0, ex_wparam = 0, ex_lparam = 0, params_mask = 0, wparams = [], lparams = []\<rparr>\<rparr>"

theorem EventLoop_messages_tell_state_witness:
  "\<exists>c s L. mg_InitLWEvent None None None False ev_cfg lw_zero = Some (c, s)
    \<and> L = EventLoop c \<lparr>keyhook = None, mousehook = None, extrahook = None\<rparr> [press_turn] (loop_start 9 s 64)
    \<and> oldbutton (el_lw L) = v_buttons (fold follow_msg (posted (el_queue L)) view_start)"
proof -
  obtain c s where i: "mg_InitLWEvent None None None False ev_cfg lw_zero = Some (c, s)" and s: "oldbutton s = 0"
    using ev_init by blast
  let ?hs = "\<lparr>keyhook = None, mousehook = None, extrahook = None\<rparr>"
  have room: "sum_list (map turn_msgs [press_turn]) < 64" by (simp add: turn_msgs_def press_turn_def lw_consts IAL_EVENT_EXTRA_def)
  have pass: "hooks_pass ?hs" by (simp add: hooks_pass_def check_hook_func_def split: hook_event.split)
  have "turns_single c ?hs [press_turn] (loop_start 9 s 64)"
    using s by (simp add: turn_single_def Let_def press_turn_def ev_press_def loop_start_def ial_ok_def lw_consts IAL_EVENT_EXTRA_def
        single_change_def one_button_def one_key_def key_changes_def)
  from EventLoop_messages_tell_state [OF i pass room this refl] show ?thesis using i by auto
qed

text \<open>The position of the last synthetic move is not that of the last reported one: a press where the former was is
  queued without a move, although the desktop was told that the pointer is elsewhere.\<close>

lemma press_without_move:
  assumes "mouse_x L = me_x p" "mouse_y L = me_y p" "me_event mv = ME_MOVED" "me_event p = ME_LEFTDOWN"
  shows "ParseEvent hs tick (LWETYPE_MOUSE p) (ParseEvent hs tick (LWETYPE_MOUSE mv) L)
    = hook_queue hs HOOK_EVENT_MOUSE tick (desk_msg (el_desktop L) MSG_LBUTTONDOWN (me_status p) (MAKELONG (word_of_int (me_x p)) (word_of_int (me_y p))) tick)
        (hook_queue hs HOOK_EVENT_MOUSE tick (desk_msg (el_desktop L) MSG_MOUSEMOVE (me_status mv) (MAKELONG (word_of_int (me_x mv)) (word_of_int (me_y mv))) tick) L)"
proof -
  have "mouse_x (hook_queue hs e tick m L) = mouse_x L" "mouse_y (hook_queue hs e tick m L) = mouse_y L"
    "el_desktop (hook_queue hs e tick m L) = el_desktop L" for e m
    by (simp_all add: hook_queue_def QueueDeskMessage_def)
  then show ?thesis using assms by (simp add: Let_def)
qed

end
