(* ===== verification/MG_Etc.thy ===== *)
theory MG_Etc
  imports Main "HOL-Library.Word"
begin

text \<open>
  The configuration files of \<open>src/misc/misc.c\<close>: sections of keys and values, which are read from and written to text
  files (\<open>LoadEtcFile\<close>, \<open>SaveEtcToFile\<close>), held in memory (\<open>ETC_S\<close>), and looked up or changed in a file directly
  (\<open>GetValueFromEtcFile\<close>, \<open>SetValueToEtcFile\<close>, \<open>SaveSectionToEtcFile\<close>).

  A string is the list of its characters without the terminating null; files contain no null. A stream that is read
  is the list of the lines that \<open>fgets\<close> will return, so that stepping back over the last line is putting it in front
  again. Reading and writing of open files succeeds; whether a file can be opened is an argument. The byte in front of
  the line buffer, which \<open>get_key_value\<close> reads when a line begins with \<open>=\<close>, is taken for no blank.
\<close>

section \<open>Lines\<close>

type_synonym str = string

definition ETC_MAXLINE :: nat where "ETC_MAXLINE = 1024"

datatype etc_code = ETC_OK | ETC_FILENOTFOUND | ETC_SECTIONNOTFOUND | ETC_KEYNOTFOUND | ETC_TMPFILEFAILED
  | ETC_FILEIOFAILED | ETC_INTCONV | ETC_INVALIDOBJ | ETC_READONLYOBJ

abbreviation nl :: char where "nl \<equiv> CHR 0x0A"

definition blank :: "char \<Rightarrow> bool" where
  "blank c \<longleftrightarrow> c = CHR '' '' \<or> c = CHR 0x09"

text \<open>What \<open>fgets\<close> reads: at most \<open>n\<close> characters, up to a newline.\<close>

fun fgets_line :: "nat \<Rightarrow> str \<Rightarrow> str \<times> str" where
  "fgets_line 0 s = ([], s)"
| "fgets_line (Suc n) [] = ([], [])"
| "fgets_line (Suc n) (c # s) = (if c = nl then ([c], s) else case fgets_line n s of (l, r) \<Rightarrow> (c # l, r))"

lemma fgets_line_length: "fgets_line n s = (l, r) \<Longrightarrow> length s = length l + length r"
  by (induction n s arbitrary: l r rule: fgets_line.induct) (auto split: if_splits prod.splits)

lemma fgets_line_progress: "0 < n \<Longrightarrow> s \<noteq> [] \<Longrightarrow> fgets_line n s = (l, r) \<Longrightarrow> l \<noteq> []"
  by (cases n; cases s) (auto split: if_splits prod.splits)

text \<open>The lines that the calls \<open>fgets (szBuff, ETC_MAXLINE, fp)\<close> return one after the other.\<close>

function etc_lines :: "str \<Rightarrow> str list" where
  "etc_lines s = (if s = [] then [] else case fgets_line (ETC_MAXLINE - 1) s of (l, r) \<Rightarrow> l # etc_lines r)"
  by pat_completeness auto
termination
proof (relation "measure length", goal_cases)
  case (2 s l r)
  then have f: "fgets_line (ETC_MAXLINE - 1) s = (l, r)" by simp
  have "l \<noteq> []" by (rule fgets_line_progress [OF _ 2(1) f]) (simp add: ETC_MAXLINE_def)
  then show ?case using fgets_line_length [OF f] by simp
qed simp

declare etc_lines.simps [simp del]

section \<open>Parsing a line\<close>

definition skip_blanks :: "str \<Rightarrow> str" where
  "skip_blanks s = dropWhile blank s"

definition name_end :: "char \<Rightarrow> bool" where
  "name_end c \<longleftrightarrow> c = CHR '']'' \<or> c = nl \<or> c = CHR '';'' \<or> c = CHR ''#''"

definition key_end :: "char \<Rightarrow> bool" where
  "key_end c \<longleftrightarrow> c = CHR ''='' \<or> c = nl \<or> c = CHR '';'' \<or> c = CHR ''#''"

text \<open>The loop that should cut blanks off the end of the name starts at the null just written and does nothing.\<close>

definition get_section_name :: "str \<Rightarrow> str option" where
  "get_section_name section_line =
     (case skip_blanks section_line of
        [] \<Rightarrow> None
      | c # cs \<Rightarrow> if c = CHR '';'' \<or> c = CHR ''#'' then None
                 else if c = CHR ''['' then Some (takeWhile (\<lambda>c. \<not> name_end c) (skip_blanks cs))
                 else None)"

text \<open>The results of \<open>get_key_value\<close>: -1, 1, and 0 with the key and the value.\<close>

datatype key_line = KV_none | KV_section | KV str str

definition trim_end :: "str \<Rightarrow> str" where
  "trim_end s = rev (dropWhile blank (rev s))"

definition get_key_value :: "str \<Rightarrow> key_line" where
  "get_key_value line =
     (case skip_blanks line of
        [] \<Rightarrow> KV_none
      | c # cs \<Rightarrow>
          if c = CHR '';'' \<or> c = CHR ''#'' then KV_none
          else if c = CHR ''['' then KV_section
          else if c = nl then KV_none
          else let tail = dropWhile (\<lambda>c. \<not> key_end c) (c # cs);
                   value = (case tail of t # v \<Rightarrow> if t = CHR ''='' then takeWhile (\<lambda>c. c \<noteq> nl) v else [] | [] \<Rightarrow> [])
               in KV (trim_end (takeWhile (\<lambda>c. \<not> key_end c) (c # cs))) value)"

text \<open>The line without its newline, as \<open>szBuff [bufflen - 1] = '\0'\<close> leaves it.\<close>

definition cut_nl :: "str \<Rightarrow> str" where
  "cut_nl l = (if l \<noteq> [] \<and> last l = nl then butlast l else l)"

section \<open>Files\<close>

text \<open>\<open>etc_LocateSection\<close>: whether the section was found, what was copied, and what is left to read.\<close>

fun etc_LocateSection :: "str list \<Rightarrow> str \<Rightarrow> bool \<times> str \<times> str list" where
  "etc_LocateSection [] pSection = (False, [], [])"
| "etc_LocateSection (l # ls) pSection =
     (if get_section_name l = Some pSection then (True, l, ls)
      else case etc_LocateSection ls pSection of (ok, bak, rest) \<Rightarrow> (ok, l @ bak, rest))"

definition print_key :: "str \<Rightarrow> str \<Rightarrow> str" where
  "print_key key value = key @ ''='' @ value @ [nl]"

definition print_section :: "str \<Rightarrow> str" where
  "print_section name = ''['' @ name @ '']'' @ [nl]"

fun etc_LocateKeyValue :: "str list \<Rightarrow> str \<Rightarrow> (etc_code \<times> str) \<times> str \<times> str list" where
  "etc_LocateKeyValue [] pKey = ((ETC_FILEIOFAILED, []), [], [])"
| "etc_LocateKeyValue (l # ls) pKey =
     (case get_key_value (cut_nl l) of
        KV_none \<Rightarrow> etc_LocateKeyValue ls pKey
      | KV_section \<Rightarrow> ((ETC_KEYNOTFOUND, []), [], l # ls)
      | KV current value \<Rightarrow>
          if current = pKey then ((ETC_OK, value), [], ls)
          else case etc_LocateKeyValue ls pKey of (rc, bak, rest) \<Rightarrow>
            (rc, (if current \<noteq> [] then print_key current value else []) @ bak, rest))"

text \<open>A file is its text; None stands for a file that cannot be opened. The value is what \<open>strncpy\<close> writes.\<close>

definition GetValueFromEtcFile :: "str option \<Rightarrow> str option \<Rightarrow> str \<Rightarrow> nat \<Rightarrow> etc_code \<times> str" where
  "GetValueFromEtcFile file pSection pKey iLen =
     (case file of None \<Rightarrow> (ETC_FILENOTFOUND, [])
      | Some text \<Rightarrow>
          (case (case pSection of None \<Rightarrow> (True, [], etc_lines text) | Some sn \<Rightarrow> etc_LocateSection (etc_lines text) sn) of
             (ok, _, rest) \<Rightarrow>
               if \<not> ok then (ETC_SECTIONNOTFOUND, [])
               else (case etc_LocateKeyValue rest pKey of ((rc, value), _, _) \<Rightarrow>
                       if rc \<noteq> ETC_OK then (ETC_KEYNOTFOUND, []) else (ETC_OK, take iLen value))))"

definition etc_CopyAndLocate :: "str list \<Rightarrow> str \<Rightarrow> str \<Rightarrow> etc_code \<times> str \<times> str list" where
  "etc_CopyAndLocate ls pSection pKey =
     (case etc_LocateSection ls pSection of (ok, bak, rest) \<Rightarrow>
        if \<not> ok then (ETC_SECTIONNOTFOUND, bak, rest)
        else (case etc_LocateKeyValue rest pKey of ((rc, _), bak', rest') \<Rightarrow>
                (if rc \<noteq> ETC_OK then ETC_KEYNOTFOUND else ETC_OK, bak @ bak', rest')))"

text \<open>\<open>SetValueToEtcFile\<close>, with the result of \<open>__mg_tmpfile\<close> and of the last opening for writing. The buffer
  \<open>tempSection\<close> is never filled.\<close>

definition SetValueToEtcFile :: "bool \<Rightarrow> bool \<Rightarrow> str option \<Rightarrow> str \<Rightarrow> str \<Rightarrow> str \<Rightarrow> etc_code \<times> str option" where
  "SetValueToEtcFile tmp_ok write_ok file pSection pKey pValue =
     (if \<not> tmp_ok then (ETC_TMPFILEFAILED, file)
      else case file of
        None \<Rightarrow> if \<not> write_ok then (ETC_FILEIOFAILED, None)
                else (ETC_OK, Some (print_section pSection @ print_key pKey pValue))
      | Some text \<Rightarrow>
          (case etc_CopyAndLocate (etc_lines text) pSection pKey of (rc, bak, rest) \<Rightarrow>
             let tmp = bak @ (if rc = ETC_SECTIONNOTFOUND then [nl] @ print_section pSection @ print_key pKey pValue
                              else if rc = ETC_KEYNOTFOUND then print_key pKey pValue @ [nl]
                              else print_key pKey pValue) @ concat rest
             in if \<not> write_ok then (ETC_FILEIOFAILED, file) else (ETC_OK, Some tmp)))"

section \<open>Objects in memory\<close>

definition NR_KEYS_INIT_ALLOC :: nat where "NR_KEYS_INIT_ALLOC = 8"
definition NR_KEYS_INC_ALLOC :: nat where "NR_KEYS_INC_ALLOC = 4"
definition NR_SECTS_INIT_ALLOC :: nat where "NR_SECTS_INIT_ALLOC = 16"
definition NR_SECTS_INC_ALLOC :: nat where "NR_SECTS_INC_ALLOC = 8"

text \<open>The arrays of keys and values are one list of pairs; the counts are its length. A name NULL is None.\<close>

record ETCSECTION =
  key_nr_alloc :: nat
  name :: "str option"
  keyvals :: "(str \<times> str) list"

record ETC_S =
  sect_nr_alloc :: nat
  sections :: "ETCSECTION list"

definition no_section :: ETCSECTION where
  "no_section = \<lparr>key_nr_alloc = 0, name = None, keyvals = []\<rparr>"

definition etc_NewSection :: "ETC_S \<Rightarrow> ETC_S" where
  "etc_NewSection petc =
     (let petc = (if length (sections petc) = sect_nr_alloc petc then petc\<lparr>sect_nr_alloc := sect_nr_alloc petc + NR_SECTS_INC_ALLOC\<rparr> else petc)
      in petc\<lparr>sections := sections petc @ [no_section]\<rparr>)"

definition etc_NewKeyValue :: "ETCSECTION \<Rightarrow> str \<Rightarrow> str \<Rightarrow> ETCSECTION" where
  "etc_NewKeyValue psect key value =
     (let psect = (if length (keyvals psect) = key_nr_alloc psect then psect\<lparr>key_nr_alloc := key_nr_alloc psect + NR_KEYS_INC_ALLOC\<rparr> else psect)
      in psect\<lparr>keyvals := keyvals psect @ [(key, value)]\<rparr>)"

text \<open>The two phases of \<open>etc_ReadSection\<close>: the lines up to the name of a section, and its keys.\<close>

fun read_keys :: "str list \<Rightarrow> ETCSECTION \<Rightarrow> ETCSECTION \<times> str list" where
  "read_keys [] psect = (psect, [])"
| "read_keys (l # ls) psect =
     (case get_key_value (cut_nl l) of
        KV_none \<Rightarrow> read_keys ls psect
      | KV_section \<Rightarrow> (psect, l # ls)
      | KV key value \<Rightarrow> read_keys ls (etc_NewKeyValue psect key value))"

fun etc_ReadSection :: "str list \<Rightarrow> (ETCSECTION \<times> str list) option" where
  "etc_ReadSection [] = None"
| "etc_ReadSection (l # ls) =
     (case get_section_name (cut_nl l) of
        None \<Rightarrow> etc_ReadSection ls
      | Some sect_name \<Rightarrow> Some (read_keys ls \<lparr>key_nr_alloc = NR_KEYS_INIT_ALLOC, name = Some sect_name, keyvals = []\<rparr>))"

lemma read_keys_length: "read_keys ls s = (s', rest) \<Longrightarrow> length rest \<le> length ls"
  by (induction ls arbitrary: s) (auto split: key_line.splits intro: le_SucI)

lemma ReadSection_length: "etc_ReadSection ls = Some (s, rest) \<Longrightarrow> length rest < length ls"
  by (induction ls) (auto split: option.splits dest: read_keys_length intro: less_SucI le_imp_less_Suc)

function read_sections :: "str list \<Rightarrow> ETC_S \<Rightarrow> ETC_S" where
  "read_sections ls petc =
     (case etc_ReadSection ls of
        None \<Rightarrow> petc
      | Some (psect, rest) \<Rightarrow>
          let petc = petc\<lparr>sections := sections petc @ [psect]\<rparr>
          in read_sections rest (if length (sections petc) = sect_nr_alloc petc
               then petc\<lparr>sect_nr_alloc := sect_nr_alloc petc + NR_SECTS_INC_ALLOC\<rparr> else petc))"
  by pat_completeness auto
termination by (relation "measure (length \<circ> fst)") (auto dest: ReadSection_length)

declare read_sections.simps [simp del]

text \<open>\<open>LoadEtcFile\<close>: the outer option is the name of the file, the inner one the text if it can be opened.\<close>

definition LoadEtcFile :: "str option option \<Rightarrow> ETC_S option" where
  "LoadEtcFile pEtcFile =
     (case pEtcFile of
        None \<Rightarrow> Some \<lparr>sect_nr_alloc = NR_SECTS_INIT_ALLOC, sections = []\<rparr>
      | Some None \<Rightarrow> None
      | Some (Some text) \<Rightarrow> Some (read_sections (etc_lines text) \<lparr>sect_nr_alloc = NR_SECTS_INIT_ALLOC, sections = []\<rparr>))"

definition etc_WriteSection :: "ETCSECTION \<Rightarrow> bool \<Rightarrow> str" where
  "etc_WriteSection psect bSectName =
     (case name psect of None \<Rightarrow> []
      | Some n \<Rightarrow> (if bSectName then print_section n else []) @ concat (map (\<lambda>(k, v). print_key k v) (keyvals psect)) @ [nl])"

definition SaveEtcToFile :: "ETC_S option \<Rightarrow> bool \<Rightarrow> str option \<Rightarrow> etc_code \<times> str option" where
  "SaveEtcToFile hEtc write_ok file =
     (case hEtc of None \<Rightarrow> (ETC_INVALIDOBJ, file)
      | Some petc \<Rightarrow> if \<not> write_ok then (ETC_FILEIOFAILED, file)
                     else (ETC_OK, Some (concat (map (\<lambda>s. etc_WriteSection s True) (sections petc)))))"

text \<open>\<open>etc_GetSectionValue\<close>: a positive length asks for the value, any other sets it. The result has what
  \<open>strncpy\<close> writes and the section.\<close>

fun set_value :: "(str \<times> str) list \<Rightarrow> str \<Rightarrow> str \<Rightarrow> (str \<times> str) list option" where
  "set_value [] k v = None"
| "set_value ((k', v') # kvs) k v = (if k' = k then Some ((k', v) # kvs) else map_option ((#) (k', v')) (set_value kvs k v))"

definition etc_GetSectionValue :: "ETCSECTION \<Rightarrow> str \<Rightarrow> str \<Rightarrow> int \<Rightarrow> etc_code \<times> str \<times> ETCSECTION" where
  "etc_GetSectionValue psect pKey pValue iLen =
     (if iLen > 0 then
        (case map_of (keyvals psect) pKey of None \<Rightarrow> (ETC_KEYNOTFOUND, [], psect)
         | Some v \<Rightarrow> (ETC_OK, take (nat iLen) v, psect))
      else if key_nr_alloc psect \<le> 0 then (ETC_READONLYOBJ, [], psect)
      else (case set_value (keyvals psect) pKey pValue of
              None \<Rightarrow> (ETC_OK, [], etc_NewKeyValue psect pKey pValue)
            | Some kvs \<Rightarrow> (ETC_OK, [], psect\<lparr>keyvals := kvs\<rparr>)))"

text \<open>The search for a section by its name, and for the last place that is empty.\<close>

fun find_section :: "ETCSECTION list \<Rightarrow> str \<Rightarrow> nat \<Rightarrow> nat option" where
  "find_section [] pSection i = None"
| "find_section (s # ss) pSection i = (if name s = Some pSection then Some i else find_section ss pSection (i + 1))"

fun empty_section :: "ETCSECTION list \<Rightarrow> nat \<Rightarrow> nat option \<Rightarrow> nat option" where
  "empty_section [] i e = e"
| "empty_section (s # ss) i e = empty_section ss (i + 1) (if name s = None then Some i else e)"

definition fresh_section :: "str \<Rightarrow> ETCSECTION" where
  "fresh_section pSection = \<lparr>key_nr_alloc = NR_KEYS_INIT_ALLOC, name = Some pSection, keyvals = []\<rparr>"

text \<open>The place of a new section, and the object with it.\<close>

definition place_section :: "ETC_S \<Rightarrow> str \<Rightarrow> nat \<times> ETC_S" where
  "place_section petc pSection =
     (case empty_section (sections petc) 0 None of
        Some i \<Rightarrow> (i, petc\<lparr>sections := (sections petc)[i := fresh_section pSection]\<rparr>)
      | None \<Rightarrow> let i = length (sections petc); petc = etc_NewSection petc
                in (i, petc\<lparr>sections := (sections petc)[i := fresh_section pSection]\<rparr>))"

text \<open>\<open>GetValueFromEtc\<close>; the -1 it returns for a missing argument is \<open>ETC_FILENOTFOUND\<close>.\<close>

definition GetValueFromEtc :: "ETC_S option \<Rightarrow> str \<Rightarrow> str \<Rightarrow> str option \<Rightarrow> int \<Rightarrow> etc_code \<times> str \<times> ETC_S option" where
  "GetValueFromEtc hEtc pSection pKey pValue iLen =
     (case (hEtc, pValue) of
        (Some petc, Some val) \<Rightarrow>
          let at = (\<lambda>petc i. case etc_GetSectionValue (sections petc ! i) pKey val iLen of (rc, out, s) \<Rightarrow>
                      (rc, out, Some (petc\<lparr>sections := (sections petc)[i := s]\<rparr>)))
          in (case find_section (sections petc) pSection 0 of
                Some i \<Rightarrow> at petc i
              | None \<Rightarrow> if iLen > 0 then (ETC_SECTIONNOTFOUND, [], hEtc)
                        else if sect_nr_alloc petc \<le> 0 then (ETC_READONLYOBJ, [], hEtc)
                        else case place_section petc pSection of (i, petc) \<Rightarrow> at petc i)
      | _ \<Rightarrow> (ETC_FILENOTFOUND, [], hEtc))"

text \<open>\<open>strtol\<close> with base 0 for a \<open>long\<close> of \<open>L\<close> bits: the value, and whether \<open>errno\<close> was set to \<open>ERANGE\<close>.\<close>

definition digit_val :: "char \<Rightarrow> nat" where
  "digit_val c = (let x = of_char c in
     if 48 \<le> x \<and> x \<le> 57 then x - 48 else if 97 \<le> x \<and> x \<le> 122 then x - 87 else if 65 \<le> x \<and> x \<le> 90 then x - 55 else 36)"

definition c_space :: "char \<Rightarrow> bool" where
  "c_space c \<longleftrightarrow> blank c \<or> c = nl \<or> c = CHR 0x0B \<or> c = CHR 0x0C \<or> c = CHR 0x0D"

definition digits_val :: "nat \<Rightarrow> str \<Rightarrow> int" where
  "digits_val base s = foldl (\<lambda>a c. a * int base + int (digit_val c)) 0 (takeWhile (\<lambda>c. digit_val c < base) s)"

definition magnitude :: "str \<Rightarrow> int" where
  "magnitude s = (case s of
     z # x # d # ds \<Rightarrow> if z = CHR ''0'' \<and> (x = CHR ''x'' \<or> x = CHR ''X'') \<and> digit_val d < 16 then digits_val 16 (d # ds)
                       else if z = CHR ''0'' then digits_val 8 s else digits_val 10 s
   | z # _ \<Rightarrow> if z = CHR ''0'' then digits_val 8 s else digits_val 10 s
   | [] \<Rightarrow> 0)"

definition strtol_0 :: "nat \<Rightarrow> str \<Rightarrow> int \<times> bool" where
  "strtol_0 L s =
     (let s = dropWhile c_space s;
          v = (case s of [] \<Rightarrow> 0 | c # cs \<Rightarrow> if c = CHR ''-'' then - magnitude cs else if c = CHR ''+'' then magnitude cs else magnitude s)
      in if v < - (2 ^ (L - 1)) then (- (2 ^ (L - 1)), True) else if v \<ge> 2 ^ (L - 1) then (2 ^ (L - 1) - 1, True) else (v, False))"

text \<open>The value is kept in an \<open>int\<close> before it is compared with the ends of \<open>long\<close>; \<open>eset\<close> tells that \<open>errno\<close> was
  \<open>ERANGE\<close> already. A value of 50 characters fills the buffer; the byte behind it is taken for the null.\<close>

definition int_value :: "nat \<Rightarrow> bool \<Rightarrow> str \<Rightarrow> etc_code \<times> int" where
  "int_value L eset szBuff =
     (case strtol_0 L szBuff of (v, e) \<Rightarrow>
        let value = sint (word_of_int v :: 32 word)
        in if (value = - (2 ^ (L - 1)) \<or> value = 2 ^ (L - 1) - 1) \<and> (e \<or> eset) then (ETC_INTCONV, value) else (ETC_OK, value))"

definition GetIntValueFromEtc :: "nat \<Rightarrow> bool \<Rightarrow> ETC_S option \<Rightarrow> str \<Rightarrow> str \<Rightarrow> int \<Rightarrow> etc_code \<times> int" where
  "GetIntValueFromEtc L eset hEtc pSection pKey value =
     (case GetValueFromEtc hEtc pSection pKey (Some []) 50 of (ret, szBuff, _) \<Rightarrow>
        if ret \<noteq> ETC_OK then (ret, value) else int_value L eset szBuff)"

definition GetIntValueFromEtcFile :: "nat \<Rightarrow> bool \<Rightarrow> str option \<Rightarrow> str option \<Rightarrow> str \<Rightarrow> int \<Rightarrow> etc_code \<times> int" where
  "GetIntValueFromEtcFile L eset file pSection pKey value =
     (case GetValueFromEtcFile file pSection pKey 50 of (ret, szBuff) \<Rightarrow>
        if ret \<noteq> ETC_OK then (ret, value) else int_value L eset szBuff)"

text \<open>A handle of a section is its index; \<open>ETC_READONLYOBJ\<close> may come back in its place.\<close>

datatype sect_handle = No_sect | Sect nat | Sect_readonly

definition FindSectionInEtc :: "ETC_S option \<Rightarrow> str option \<Rightarrow> bool \<Rightarrow> sect_handle \<times> ETC_S option" where
  "FindSectionInEtc hEtc pSection bCreateNew =
     (case (hEtc, pSection) of
        (Some petc, Some sn) \<Rightarrow>
          (case find_section (sections petc) sn 0 of
             Some i \<Rightarrow> (Sect i, hEtc)
           | None \<Rightarrow> if bCreateNew then
                       if sect_nr_alloc petc \<le> 0 then (Sect_readonly, hEtc)
                       else (case place_section petc sn of (i, petc) \<Rightarrow> (Sect i, Some petc))
                     else (No_sect, hEtc))
      | _ \<Rightarrow> (No_sect, hEtc))"

definition GetValueFromEtcSec :: "ETCSECTION option \<Rightarrow> str \<Rightarrow> str \<Rightarrow> int \<Rightarrow> etc_code \<times> str \<times> ETCSECTION option" where
  "GetValueFromEtcSec hSect pKey pValue iLen =
     (case hSect of None \<Rightarrow> (ETC_INVALIDOBJ, [], None)
      | Some psect \<Rightarrow> case etc_GetSectionValue psect pKey pValue iLen of (rc, out, s) \<Rightarrow> (rc, out, Some s))"

definition GetIntValueFromEtcSec :: "nat \<Rightarrow> bool \<Rightarrow> ETCSECTION option \<Rightarrow> str \<Rightarrow> int \<Rightarrow> etc_code \<times> int" where
  "GetIntValueFromEtcSec L eset hSect pKey value =
     (case hSect of None \<Rightarrow> (ETC_INVALIDOBJ, value)
      | Some psect \<Rightarrow>
          case etc_GetSectionValue psect pKey [] 50 of (ret, szBuff, _) \<Rightarrow>
            if ret \<noteq> ETC_OK then (ret, value) else int_value L eset szBuff)"

definition SetValueToEtcSec :: "ETCSECTION option \<Rightarrow> str \<Rightarrow> str \<Rightarrow> etc_code \<times> ETCSECTION option" where
  "SetValueToEtcSec hSect pKey pValue =
     (case hSect of None \<Rightarrow> (ETC_INVALIDOBJ, None)
      | Some psect \<Rightarrow> case etc_GetSectionValue psect pKey pValue (- 1) of (rc, _, s) \<Rightarrow> (rc, Some s))"

definition RemoveSectionInEtc :: "ETC_S option \<Rightarrow> str \<Rightarrow> etc_code \<times> ETC_S option" where
  "RemoveSectionInEtc hEtc pSection =
     (case hEtc of None \<Rightarrow> (ETC_INVALIDOBJ, None)
      | Some petc \<Rightarrow>
          if sect_nr_alloc petc = 0 then (ETC_READONLYOBJ, hEtc)
          else case fst (FindSectionInEtc hEtc (Some pSection) False) of
                 Sect i \<Rightarrow> (ETC_OK, Some (petc\<lparr>sections := (sections petc)[i := (sections petc ! i)\<lparr>keyvals := [], name := None\<rparr>]\<rparr>))
               | _ \<Rightarrow> (ETC_SECTIONNOTFOUND, hEtc))"

section \<open>One section of a file\<close>

fun etc_LocateSection_2 :: "str list \<Rightarrow> str \<Rightarrow> bool \<times> str \<times> str list" where
  "etc_LocateSection_2 [] pSection = (False, [], [])"
| "etc_LocateSection_2 (l # ls) pSection =
     (if get_section_name l = Some pSection then (True, [], ls)
      else case etc_LocateSection_2 ls pSection of (ok, bak, rest) \<Rightarrow> (ok, l @ bak, rest))"

fun etc_FindNextSection :: "str list \<Rightarrow> str list" where
  "etc_FindNextSection [] = []"
| "etc_FindNextSection (l # ls) = (if get_section_name l \<noteq> None then l # ls else etc_FindNextSection ls)"

definition etc_ReviseSectionInEtcFile :: "bool \<Rightarrow> bool \<Rightarrow> str option \<Rightarrow> ETCSECTION \<Rightarrow> bool \<Rightarrow> etc_code \<times> str option" where
  "etc_ReviseSectionInEtcFile tmp_ok write_ok file psect bRemove =
     (if \<not> tmp_ok then (ETC_TMPFILEFAILED, file)
      else case file of
        None \<Rightarrow> if bRemove then (ETC_SECTIONNOTFOUND, None)
                else if \<not> write_ok then (ETC_FILEIOFAILED, None)
                else (ETC_OK, Some (etc_WriteSection psect True))
      | Some text \<Rightarrow>
          (case etc_LocateSection_2 (etc_lines text) (the (name psect)) of (ok, bak, rest) \<Rightarrow>
             if \<not> ok then
               if \<not> bRemove then (ETC_OK, Some (text @ etc_WriteSection psect True)) else (ETC_SECTIONNOTFOUND, file)
             else
               let tmp = bak @ (if \<not> bRemove then etc_WriteSection psect True else []) @ concat (etc_FindNextSection rest)
               in if \<not> write_ok then (ETC_FILEIOFAILED, file) else (ETC_OK, Some tmp)))"

definition RemoveSectionInEtcFile :: "bool \<Rightarrow> bool \<Rightarrow> str option \<Rightarrow> str \<Rightarrow> etc_code \<times> str option" where
  "RemoveSectionInEtcFile tmp_ok write_ok file pSection =
     etc_ReviseSectionInEtcFile tmp_ok write_ok file \<lparr>key_nr_alloc = 0, name = Some pSection, keyvals = []\<rparr> True"

definition SaveSectionToEtcFile :: "bool \<Rightarrow> bool \<Rightarrow> str option \<Rightarrow> ETCSECTION \<Rightarrow> etc_code \<times> str option" where
  "SaveSectionToEtcFile tmp_ok write_ok file psect = etc_ReviseSectionInEtcFile tmp_ok write_ok file psect False"

end
