(* ===== verification/MG_EtcRun.thy ===== *)
theory MG_EtcRun
  imports MG_Etc
begin

text \<open>
  What the configuration files of \<open>MG_Etc\<close> promise. A text means a list of sections with their keys and values
  (\<open>etc_view\<close>); reading it into memory, looking up a value in it, writing an object, setting a value in a file and
  replacing or removing one section of a file are described on that meaning.
\<close>

section \<open>Complete lines\<close>

definition complete_line :: "str \<Rightarrow> bool" where
  "complete_line l \<longleftrightarrow> l \<noteq> [] \<and> last l = nl \<and> nl \<notin> set (butlast l) \<and> length l < ETC_MAXLINE"

lemma fgets_complete_line:
  "l \<noteq> [] \<Longrightarrow> last l = nl \<Longrightarrow> nl \<notin> set (butlast l) \<Longrightarrow> length l \<le> n \<Longrightarrow> fgets_line n (l @ r) = (l, r)"
proof (induction l arbitrary: n)
  case (Cons c l)
  then obtain m where n: "n = Suc m" by (cases n) auto
  show ?case
  proof (cases "l = []")
    case True
    then show ?thesis using Cons.prems n by simp
  next
    case False
    then have "fgets_line m (l @ r) = (l, r)" using Cons.IH [of m] Cons.prems n by simp
    moreover have "c \<noteq> nl" using False Cons.prems(3) by auto
    ultimately show ?thesis using n by simp
  qed
qed simp

lemma etc_lines_complete: "\<forall>l\<in>set ls. complete_line l \<Longrightarrow> etc_lines (concat ls @ r) = ls @ etc_lines r"
proof (induction ls)
  case (Cons l ls)
  then have c: "l \<noteq> []" "last l = nl" "nl \<notin> set (butlast l)" "length l \<le> ETC_MAXLINE - 1"
    by (auto simp: complete_line_def)
  have "fgets_line (ETC_MAXLINE - 1) (l @ (concat ls @ r)) = (l, concat ls @ r)" by (rule fgets_complete_line [OF c])
  then show ?case using Cons c(1) by (subst etc_lines.simps) simp
qed simp

lemma etc_lines_Nil [simp]: "etc_lines [] = []"
  by (subst etc_lines.simps) simp

lemmas etc_lines_concat = etc_lines_complete [where r = "[]", simplified]

lemma fgets_line_append: "fgets_line n s = (l, r) \<Longrightarrow> l @ r = s"
  by (induction n s arbitrary: l r rule: fgets_line.induct) (auto split: if_splits prod.splits)

lemma fgets_line_nl: "fgets_line n s = (l, r) \<Longrightarrow> nl \<notin> set (butlast l)"
  by (induction n s arbitrary: l r rule: fgets_line.induct) (auto split: if_splits prod.splits)

lemma concat_etc_lines: "concat (etc_lines s) = s"
proof (induction s rule: etc_lines.induct)
  case (1 s)
  show ?case
  proof (cases "s = []")
    case False
    obtain l r where f: "fgets_line (ETC_MAXLINE - 1) s = (l, r)" by fastforce
    then have "etc_lines s = l # etc_lines r" using False by (subst etc_lines.simps) simp
    then show ?thesis using 1 [OF False f [symmetric]] fgets_line_append [OF f] by simp
  qed simp
qed

lemma etc_lines_nl: "l \<in> set (etc_lines s) \<Longrightarrow> nl \<notin> set (butlast l)"
proof (induction s rule: etc_lines.induct)
  case (1 s)
  show ?case
  proof (cases "s = []")
    case False
    obtain a r where f: "fgets_line (ETC_MAXLINE - 1) s = (a, r)" by fastforce
    then have "etc_lines s = a # etc_lines r" using False by (subst etc_lines.simps) simp
    then show ?thesis using 1(1) [OF False f [symmetric]] 1(2) fgets_line_nl [OF f] by auto
  qed (use 1(2) in simp)
qed

text \<open>A text whose lines all end with a newline and leave room for one character more.\<close>

definition short_lines :: "str \<Rightarrow> bool" where
  "short_lines text \<longleftrightarrow> (\<forall>l\<in>set (etc_lines text). l \<noteq> [] \<and> last l = nl \<and> length l < ETC_MAXLINE - 1)"

lemma short_lines_complete: "short_lines text \<Longrightarrow> l \<in> set (etc_lines text) \<Longrightarrow> complete_line l"
  using etc_lines_nl [of l "text"] by (auto simp: short_lines_def complete_line_def)

section \<open>Printing and parsing\<close>

definition clean_name :: "str \<Rightarrow> bool" where
  "clean_name n \<longleftrightarrow> (\<forall>c\<in>set n. \<not> name_end c) \<and> (n = [] \<or> \<not> blank (hd n)) \<and> length n + 3 < ETC_MAXLINE"

definition clean_key :: "str \<Rightarrow> bool" where
  "clean_key k \<longleftrightarrow> k \<noteq> [] \<and> (\<forall>c\<in>set k. \<not> key_end c) \<and> \<not> blank (hd k) \<and> hd k \<noteq> CHR ''[''
     \<and> \<not> blank (last k)"

definition clean_pair :: "str \<times> str \<Rightarrow> bool" where
  "clean_pair kv \<longleftrightarrow> clean_key (fst kv) \<and> nl \<notin> set (snd kv) \<and> length (fst kv) + length (snd kv) + 2 < ETC_MAXLINE"

lemma chars [simp]:
  "\<not> blank nl" "\<not> blank (CHR ''['')" "\<not> blank (CHR '';'')" "\<not> blank (CHR ''#'')" "\<not> blank (CHR ''='')" "\<not> blank (CHR '']'')"
  "name_end nl" "name_end (CHR '']'')" "name_end (CHR '';'')" "name_end (CHR ''#'')"
  "key_end nl" "key_end (CHR ''='')" "key_end (CHR '';'')" "key_end (CHR ''#'')"
  by (simp_all add: blank_def name_end_def key_end_def)

lemma not_nl: "\<not> name_end c \<Longrightarrow> c \<noteq> nl" "\<not> key_end c \<Longrightarrow> c \<noteq> nl"
  by auto

lemma clean_nl: "clean_name n \<Longrightarrow> nl \<notin> set n" "clean_key k \<Longrightarrow> nl \<notin> set k"
  by (auto simp: clean_name_def clean_key_def)

lemma complete_print_section: "clean_name n \<Longrightarrow> complete_line (print_section n)"
  using clean_nl(1) [of n] by (auto simp: clean_name_def complete_line_def print_section_def butlast_append)

lemma complete_print_key: "clean_pair (k, v) \<Longrightarrow> complete_line (print_key k v)"
  using clean_nl(2) [of k] by (auto simp: clean_pair_def complete_line_def print_key_def butlast_append)

lemma complete_nl: "complete_line [nl]"
  by (simp add: complete_line_def ETC_MAXLINE_def)

lemma skip_blanks_id: "s = [] \<or> \<not> blank (hd s) \<Longrightarrow> skip_blanks s = s"
  by (cases s) (auto simp: skip_blanks_def)

lemma until_app: "\<forall>c\<in>set a. \<not> P c \<Longrightarrow> P d \<Longrightarrow>
  takeWhile (\<lambda>c. \<not> P c) (a @ d # b) = a \<and> dropWhile (\<lambda>c. \<not> P c) (a @ d # b) = d # b"
  by (induction a) auto

lemma get_section_name_print: "clean_name n \<Longrightarrow> get_section_name (print_section n) = Some n"
proof -
  assume n: "clean_name n"
  then have "skip_blanks (n @ CHR '']'' # [nl]) = n @ CHR '']'' # [nl]"
    by (intro skip_blanks_id) (cases n; auto simp: clean_name_def)
  moreover have "takeWhile (\<lambda>c. \<not> name_end c) (n @ CHR '']'' # [nl]) = n"
    using until_app [of n name_end "CHR '']''" "[nl]"] n by (simp add: clean_name_def)
  ultimately show ?thesis by (simp add: get_section_name_def print_section_def skip_blanks_def)
qed

lemma cut_nl_snoc [simp]: "cut_nl (b @ [nl]) = b"
  by (simp add: cut_nl_def)

lemma trim_end_id: "k \<noteq> [] \<Longrightarrow> \<not> blank (last k) \<Longrightarrow> trim_end k = k"
  by (cases k rule: rev_cases) (auto simp: trim_end_def)

lemma get_key_value_print:
  assumes k: "clean_key k" and v: "nl \<notin> set v"
  shows "get_key_value (cut_nl (print_key k v)) = KV k v"
proof -
  have cut: "cut_nl (print_key k v) = k @ CHR ''='' # v"
    using cut_nl_snoc [of "k @ CHR ''='' # v"] by (simp add: print_key_def)
  obtain c cs where ck: "k = c # cs" using k by (cases k) (auto simp: clean_key_def)
  have s: "skip_blanks (k @ CHR ''='' # v) = c # cs @ CHR ''='' # v" using k ck by (simp add: skip_blanks_def clean_key_def)
  have td: "takeWhile (\<lambda>c. \<not> key_end c) (c # cs @ CHR ''='' # v) = k"
    "dropWhile (\<lambda>c. \<not> key_end c) (c # cs @ CHR ''='' # v) = CHR ''='' # v"
    using until_app [of k key_end "CHR ''=''" v] k ck by (auto simp: clean_key_def)
  have w: "takeWhile (\<lambda>c. c \<noteq> nl) v = v" using v by (auto simp: takeWhile_eq_all_conv)
  have c: "c \<noteq> CHR '';''" "c \<noteq> CHR ''#''" "c \<noteq> CHR ''[''" "c \<noteq> nl" using k ck by (auto simp: clean_key_def)
  have tr: "trim_end k = k" using k by (auto simp: clean_key_def intro: trim_end_id)
  show ?thesis unfolding get_key_value_def cut s by (simp only: list.case td Let_def tr w c if_False if_True disj_not1 refl) simp
qed

text \<open>The name and the key of a line do not depend on its newline, and what is read from a short line can be printed.\<close>

lemma takeWhile_snoc_end: "P c \<Longrightarrow> takeWhile (\<lambda>c. \<not> P c) (s @ [c]) = takeWhile (\<lambda>c. \<not> P c) s"
  by (induction s) auto

lemma skip_blanks_snoc: "skip_blanks (s @ [nl]) = skip_blanks s @ [nl]"
  by (induction s) (auto simp: skip_blanks_def)

lemma get_section_name_snoc: "get_section_name (s @ [nl]) = get_section_name s"
  by (auto simp: get_section_name_def skip_blanks_snoc takeWhile_snoc_end split: list.split)

lemma get_section_name_cut: "get_section_name (cut_nl l) = get_section_name l"
proof (cases "l \<noteq> [] \<and> last l = nl")
  case True
  then have "l = butlast l @ [nl]" by (metis append_butlast_last_id)
  then show ?thesis using True get_section_name_snoc [of "butlast l"] by (simp add: cut_nl_def)
qed (auto simp: cut_nl_def)

lemma key_line_section: "get_key_value s = KV_section \<longleftrightarrow> get_section_name s \<noteq> None"
  by (auto simp: get_key_value_def get_section_name_def Let_def split: list.split)

lemma get_key_value_clean:
  assumes "get_key_value s = KV k v"
  shows "(k = [] \<or> clean_key k) \<and> nl \<notin> set v \<and> length k + length v \<le> length s"
proof -
  define t where "t = skip_blanks s"
  have lt: "length t \<le> length s" by (simp add: t_def skip_blanks_def length_dropWhile_le)
  obtain c cs where ct: "t = c # cs" using assms by (cases t) (auto simp: get_key_value_def t_def)
  have c: "c \<noteq> CHR '';''" "c \<noteq> CHR ''#''" "c \<noteq> CHR ''[''" "c \<noteq> nl" "\<not> blank c"
  proof -
    show "\<not> blank c" using ct hd_dropWhile [of blank s] by (auto simp: t_def skip_blanks_def)
  qed (use assms ct in \<open>auto simp: get_key_value_def t_def split: if_splits\<close>)
  define k0 where "k0 = takeWhile (\<lambda>c. \<not> key_end c) t"
  define d where "d = dropWhile (\<lambda>c. \<not> key_end c) t"
  have kv: "k = trim_end k0" "v = (case d of t # v \<Rightarrow> if t = CHR ''='' then takeWhile (\<lambda>c. c \<noteq> nl) v else [] | [] \<Rightarrow> [])"
    using assms c by (auto simp: get_key_value_def t_def [symmetric] ct k0_def d_def Let_def)
  have kd: "k0 @ d = t" by (simp add: k0_def d_def)
  obtain b where b: "k0 = k @ b" "\<forall>c\<in>set b. blank c"
  proof
    show "k0 = k @ rev (takeWhile blank (rev k0))"
      using takeWhile_dropWhile_id [of blank "rev k0"] by (metis kv(1) rev_append rev_rev_ident trim_end_def)
  qed (auto dest: set_takeWhileD)
  have vd: "length v \<le> length d" using kv(2) by (cases d) (auto intro: le_SucI length_takeWhile_le)
  have len: "length k + length v \<le> length s" using vd arg_cong [OF kd, of length] arg_cong [OF b(1), of length] lt by simp
  have nv: "nl \<notin> set v" using kv(2) by (auto split: list.splits if_splits dest: set_takeWhileD)
  have "clean_key k" if "k \<noteq> []"
  proof -
    have "\<forall>c\<in>set k0. \<not> key_end c" by (auto simp: k0_def dest: set_takeWhileD)
    then have "\<forall>c\<in>set k. \<not> key_end c" using b(1) by simp
    moreover have "hd k = c" using that b(1) kd ct by (cases k) auto
    moreover have "\<not> blank (last k)"
    proof -
      have "rev k \<noteq> []" using that by simp
      then have "\<not> blank (hd (rev k))" using hd_dropWhile [of blank "rev k0"] by (simp add: kv(1) trim_end_def)
      then show ?thesis using that by (simp add: hd_rev)
    qed
    ultimately show ?thesis using c that by (simp add: clean_key_def)
  qed
  then show ?thesis using nv len by blast
qed

section \<open>The meaning of a text\<close>

fun head_keys :: "str list \<Rightarrow> (str \<times> str) list" where
  "head_keys [] = []"
| "head_keys (l # ls) = (case get_key_value (cut_nl l) of KV_none \<Rightarrow> head_keys ls | KV_section \<Rightarrow> [] | KV k v \<Rightarrow> (k, v) # head_keys ls)"

fun lines_view :: "str list \<Rightarrow> (str \<times> (str \<times> str) list) list" where
  "lines_view [] = []"
| "lines_view (l # ls) = (case get_section_name l of None \<Rightarrow> lines_view ls | Some n \<Rightarrow> (n, head_keys ls) # lines_view ls)"

definition etc_view :: "str \<Rightarrow> (str \<times> (str \<times> str) list) list" where
  "etc_view t = lines_view (etc_lines t)"

definition view_value :: "(str \<times> (str \<times> str) list) list \<Rightarrow> str \<Rightarrow> str \<Rightarrow> str option" where
  "view_value w sn k = Option.bind (map_of w sn) (\<lambda>kvs. map_of kvs k)"

lemma cut_section: "get_key_value (cut_nl l) = KV_section \<longleftrightarrow> get_section_name l \<noteq> None"
  by (simp add: key_line_section get_section_name_cut)

lemma not_section_view: "get_key_value (cut_nl l) \<noteq> KV_section \<Longrightarrow> lines_view (l # ls) = lines_view ls"
  by (simp add: cut_section)

lemma head_keys_stop: "get_section_name l \<noteq> None \<Longrightarrow> head_keys (pre @ l # X) = head_keys pre"
  by (induction pre) (auto simp: cut_section [THEN iffD2] split: key_line.split)

lemma lines_view_append: "get_section_name l \<noteq> None \<Longrightarrow> lines_view (pre @ l # X) = lines_view pre @ lines_view (l # X)"
  by (induction pre) (auto simp: head_keys_stop split: option.split)

lemma lines_view_names: "fst ` set (lines_view ls) = {n. \<exists>l\<in>set ls. get_section_name l = Some n}"
  by (induction ls) (auto split: option.split)

section \<open>Reading a text into memory\<close>

definition sect_view :: "ETCSECTION \<Rightarrow> str \<times> (str \<times> str) list" where
  "sect_view s = (the (name s), keyvals s)"

lemma NewKeyValue_view: "keyvals (etc_NewKeyValue s k v) = keyvals s @ [(k, v)] \<and> name (etc_NewKeyValue s k v) = name s"
  by (simp add: etc_NewKeyValue_def Let_def)

lemma read_keys_view:
  "read_keys ls s = (s', rest) \<Longrightarrow> keyvals s' = keyvals s @ head_keys ls \<and> name s' = name s \<and> lines_view rest = lines_view ls"
proof (induction ls arbitrary: s)
  case (Cons l ls)
  show ?case
  proof (cases "get_key_value (cut_nl l)")
    case KV_none
    then have "read_keys ls s = (s', rest)" using Cons.prems by simp
    then show ?thesis using Cons.IH [of s] KV_none not_section_view [of l ls] by simp
  next
    case KV_section
    then show ?thesis using Cons.prems by auto
  next
    case (KV k v)
    then have "read_keys ls (etc_NewKeyValue s k v) = (s', rest)" using Cons.prems by simp
    then show ?thesis using Cons.IH [of "etc_NewKeyValue s k v"] KV not_section_view [of l ls] by (simp add: NewKeyValue_view)
  qed
qed auto

lemma ReadSection_None: "etc_ReadSection ls = None \<Longrightarrow> lines_view ls = []"
  by (induction ls) (auto simp: get_section_name_cut split: option.splits)

lemma ReadSection_Some:
  "etc_ReadSection ls = Some (s, rest) \<Longrightarrow> name s \<noteq> None \<and> lines_view ls = sect_view s # lines_view rest"
  by (induction ls) (auto simp: get_section_name_cut sect_view_def split: option.splits dest!: read_keys_view)

lemma read_sections_view:
  "\<exists>new. sections (read_sections ls petc) = sections petc @ new \<and> map sect_view new = lines_view ls \<and> (\<forall>s\<in>set new. name s \<noteq> None)"
proof (induction ls petc rule: read_sections.induct)
  case (1 ls petc)
  show ?case
  proof (cases "etc_ReadSection ls")
    case None
    then show ?thesis by (subst read_sections.simps) (simp add: ReadSection_None)
  next
    case (Some a)
    obtain s rest where a: "a = (s, rest)" by (cases a)
    have r: "etc_ReadSection ls = Some (s, rest)" using Some a by simp
    note IH = 1 [OF Some a [symmetric] refl]
    show ?thesis using IH ReadSection_Some [OF r]
      by (subst read_sections.simps) (auto simp: r Let_def)
  qed
qed

lemma LoadEtcFile_view:
  "\<exists>petc. LoadEtcFile (Some (Some t)) = Some petc \<and> map sect_view (sections petc) = etc_view t \<and> (\<forall>s\<in>set (sections petc). name s \<noteq> None)"
  using read_sections_view [of "etc_lines t" "\<lparr>sect_nr_alloc = NR_SECTS_INIT_ALLOC, sections = []\<rparr>"]
  by (auto simp: LoadEtcFile_def etc_view_def)

section \<open>Looking up a value\<close>

lemma LocateSection_found:
  "etc_LocateSection ls sn = (ok, bak, rest) \<Longrightarrow>
    (if ok then \<exists>pre l. ls = pre @ l # rest \<and> bak = concat pre @ l \<and> get_section_name l = Some sn \<and> (\<forall>p\<in>set pre. get_section_name p \<noteq> Some sn)
     else bak = concat ls \<and> rest = [] \<and> (\<forall>p\<in>set ls. get_section_name p \<noteq> Some sn))"
proof (induction ls arbitrary: ok bak rest)
  case (Cons l ls)
  show ?case
  proof (cases "get_section_name l = Some sn")
    case True
    then show ?thesis using Cons.prems by (auto intro!: exI [of _ "[]"])
  next
    case False
    obtain ok' bak' rest' where e: "etc_LocateSection ls sn = (ok', bak', rest')" by (cases "etc_LocateSection ls sn")
    then have r: "ok = ok'" "bak = l @ bak'" "rest = rest'" using False Cons.prems by auto
    note IH = Cons.IH [OF e]
    show ?thesis
    proof (cases ok')
      case True
      then obtain pre m where m: "ls = pre @ m # rest'" "bak' = concat pre @ m" "get_section_name m = Some sn"
        "\<forall>p\<in>set pre. get_section_name p \<noteq> Some sn" using IH by auto
      show ?thesis unfolding r using True False m by (auto intro!: exI [of _ "l # pre"] exI [of _ m])
    qed (use IH r False in auto)
  qed
qed auto

lemma map_of_notin: "n \<notin> fst ` set xs \<Longrightarrow> map_of (xs @ ys) n = map_of ys n"
  by (induction xs) auto

lemma LocateSection_view:
  assumes e: "etc_LocateSection ls sn = (ok, bak, rest)"
  shows "map_of (lines_view ls) sn = (if ok then Some (head_keys rest) else None)"
proof (cases ok)
  case True
  then obtain pre l where m: "ls = pre @ l # rest" "get_section_name l = Some sn" "\<forall>p\<in>set pre. get_section_name p \<noteq> Some sn"
    using LocateSection_found [OF e] by auto
  have "sn \<notin> fst ` set (lines_view pre)" using m(3) by (simp add: lines_view_names)
  then show ?thesis using True m by (simp add: lines_view_append map_of_notin del: map_of_append)
next
  case False
  then have "sn \<notin> fst ` set (lines_view ls)" using LocateSection_found [OF e] by (simp add: lines_view_names)
  then show ?thesis using False by (simp add: map_of_eq_None_iff)
qed

lemma LocateKeyValue_view:
  "etc_LocateKeyValue ls k = ((rc, v), bak, rest) \<Longrightarrow> map_of (head_keys ls) k = (if rc = ETC_OK then Some v else None)"
proof (induction ls arbitrary: bak rest)
  case (Cons l ls)
  then show ?case by (auto split: key_line.splits prod.splits if_splits)
qed auto

theorem GetValueFromEtcFile_view:
  "GetValueFromEtcFile (Some t) (Some sn) k n =
     (case map_of (etc_view t) sn of None \<Rightarrow> (ETC_SECTIONNOTFOUND, [])
      | Some kvs \<Rightarrow> (case map_of kvs k of None \<Rightarrow> (ETC_KEYNOTFOUND, []) | Some v \<Rightarrow> (ETC_OK, take n v)))"
proof -
  obtain ok bak rest where s: "etc_LocateSection (etc_lines t) sn = (ok, bak, rest)" by (cases "etc_LocateSection (etc_lines t) sn")
  obtain rc v bak' rest' where l: "etc_LocateKeyValue rest k = ((rc, v), bak', rest')"
    by (metis prod.exhaust)
  show ?thesis using LocateSection_view [OF s] LocateKeyValue_view [OF l]
    by (auto simp: GetValueFromEtcFile_def etc_view_def s l)
qed

section \<open>Setting a value in a file\<close>

abbreviation printed :: "(str \<times> str) list \<Rightarrow> str list" where
  "printed kvs \<equiv> map (\<lambda>(k, v). print_key k v) kvs"

abbreviation keyed :: "(str \<times> str) list \<Rightarrow> (str \<times> str) list" where
  "keyed kvs \<equiv> filter (\<lambda>(k, v). k \<noteq> []) kvs"

lemma print_key_view:
  assumes "clean_pair (k, v)"
  shows "head_keys (print_key k v # X) = (k, v) # head_keys X" "lines_view (print_key k v # X) = lines_view X"
proof -
  have g: "get_key_value (cut_nl (print_key k v)) = KV k v" using assms by (simp add: clean_pair_def get_key_value_print)
  then show "head_keys (print_key k v # X) = (k, v) # head_keys X" by simp
  show "lines_view (print_key k v # X) = lines_view X" by (rule not_section_view) (simp add: g)
qed

lemma printed_view:
  "\<forall>kv\<in>set kvs. clean_pair kv \<Longrightarrow> head_keys (printed kvs @ X) = kvs @ head_keys X \<and> lines_view (printed kvs @ X) = lines_view X"
  by (induction kvs) (auto simp: print_key_view simp del: head_keys.simps lines_view.simps)

lemma nl_view: "head_keys ([nl] # X) = head_keys X" "lines_view ([nl] # X) = lines_view X"
  by (simp_all add: get_section_name_def get_key_value_def skip_blanks_def cut_nl_def)

lemma nl_view_end: "head_keys (ls @ [[nl]]) = head_keys ls \<and> lines_view (ls @ [[nl]]) = lines_view ls"
  by (induction ls) (use nl_view [of "[]"] in \<open>auto split: key_line.split option.split\<close>)

lemma print_section_view: "clean_name n \<Longrightarrow> lines_view (print_section n # X) = (n, head_keys X) # lines_view X"
  by (simp add: get_section_name_print)

lemma complete_printed: "\<forall>kv\<in>set kvs. clean_pair kv \<Longrightarrow> \<forall>l\<in>set (printed kvs). complete_line l"
  by (auto intro: complete_print_key)

lemma head_keys_clean:
  assumes "\<forall>l\<in>set ls. l \<noteq> [] \<and> last l = nl \<and> length l < ETC_MAXLINE - 1"
  shows "\<forall>kv\<in>set (keyed (head_keys ls)). clean_pair kv"
  using assms
proof (induction ls)
  case (Cons l ls)
  have IH: "\<forall>kv\<in>set (keyed (head_keys ls)). clean_pair kv" using Cons by simp
  show ?case
  proof (cases "get_key_value (cut_nl l)")
    case (KV k v)
    have "length (cut_nl l) + 1 = length l" using Cons.prems by (auto simp: cut_nl_def)
    then have "k \<noteq> [] \<Longrightarrow> clean_pair (k, v)"
      using get_key_value_clean [OF KV] Cons.prems by (auto simp: clean_pair_def)
    then show ?thesis using IH KV by auto
  qed (use IH in auto)
qed simp

lemma LocateKeyValue_lines:
  "etc_LocateKeyValue ls k = ((rc, v), bak, rest) \<Longrightarrow>
    \<exists>A. bak = concat (printed (keyed A)) \<and> k \<notin> fst ` set A \<and> (\<exists>pre. ls = pre @ rest) \<and> lines_view rest = lines_view ls
      \<and> (if rc = ETC_OK then head_keys ls = A @ (k, v) # head_keys rest else head_keys ls = A \<and> head_keys rest = [])"
proof (induction ls arbitrary: bak rest)
  case (Cons l ls)
  show ?case
  proof (cases "get_key_value (cut_nl l)")
    case KV_none
    then have e: "etc_LocateKeyValue ls k = ((rc, v), bak, rest)" using Cons.prems by simp
    have "\<exists>pre. l # ls = pre @ rest" if "ls = pre @ rest" for pre using that by (auto intro: exI [of _ "l # pre"])
    then show ?thesis using Cons.IH [OF e] KV_none not_section_view [of l ls] by auto
  next
    case KV_section
    then show ?thesis using Cons.prems by auto
  next
    case (KV a b)
    have nv: "lines_view (l # ls) = lines_view ls" by (rule not_section_view) (simp add: KV)
    show ?thesis
    proof (cases "a = k")
      case True
      then show ?thesis using Cons.prems KV nv by (auto intro!: exI [of _ "[]"] exI [of _ "[l]"])
    next
      case False
      obtain bak' where e: "etc_LocateKeyValue ls k = ((rc, v), bak', rest)"
        and b: "bak = (if a \<noteq> [] then print_key a b else []) @ bak'"
        using Cons.prems KV False by (auto split: prod.splits)
      obtain A pre where A: "bak' = concat (printed (keyed A))" "k \<notin> fst ` set A" "ls = pre @ rest" "lines_view rest = lines_view ls"
        "if rc = ETC_OK then head_keys ls = A @ (k, v) # head_keys rest else head_keys ls = A \<and> head_keys rest = []"
        using Cons.IH [OF e] by blast
      have "l # ls = (l # pre) @ rest" using A(3) by simp
      moreover have "bak = concat (printed (keyed ((a, b) # A)))" using b A(1) by simp
      moreover have "k \<notin> fst ` set ((a, b) # A)" using A(2) False by simp
      moreover have "if rc = ETC_OK then head_keys (l # ls) = ((a, b) # A) @ (k, v) # head_keys rest
          else head_keys (l # ls) = (a, b) # A \<and> head_keys rest = []" using A(5) KV by simp
      ultimately show ?thesis using A(4) nv by metis
    qed
  qed
qed auto

text \<open>\<open>SetValueToEtcFile\<close> on the meaning: the value of one key of one section is replaced, or a key or a section added.\<close>

lemma view_value_at: "sn \<notin> fst ` set pre \<Longrightarrow>
  view_value (pre @ (sn, kvs) # post) sn' k = (if sn' = sn then map_of kvs k else view_value (pre @ post) sn' k)"
  by (induction pre) (auto simp: view_value_def)

lemma view_value_None: "sn \<notin> fst ` set w \<Longrightarrow> view_value w sn k = None"
  using map_of_eq_None_iff [of w sn] by (simp add: view_value_def)

lemma complete_lines_view: "\<forall>l\<in>set ls. complete_line l \<Longrightarrow> etc_view (concat ls) = lines_view ls"
  by (simp add: etc_view_def etc_lines_concat)

lemma set_new_section:
  assumes t: "short_lines t" and sn: "clean_name sn" and kv: "clean_pair (k, v)"
    and s: "etc_LocateSection (etc_lines t) sn = (False, bak, rest)"
  shows "sn \<notin> fst ` set (etc_view t) \<and>
    (\<exists>t'. SetValueToEtcFile True True (Some t) sn k v = (ETC_OK, Some t') \<and> etc_view t' = etc_view t @ [(sn, [(k, v)])])"
proof -
  let ?ls = "etc_lines t"
  have none: "bak = concat ?ls" "rest = []" "\<forall>p\<in>set ?ls. get_section_name p \<noteq> Some sn"
    using LocateSection_found [OF s] by auto
  let ?new = "?ls @ [[nl], print_section sn, print_key k v]"
  have "etc_view (concat ?new) = lines_view ?new"
    by (rule complete_lines_view)
      (use short_lines_complete [OF t] sn kv complete_nl complete_print_section complete_print_key in auto)
  also have "\<dots> = lines_view (?ls @ [[nl]]) @ lines_view (print_section sn # [print_key k v])"
    using lines_view_append [of "print_section sn" "?ls @ [[nl]]" "[print_key k v]"] get_section_name_print [OF sn] by simp
  also have "lines_view (?ls @ [[nl]]) = etc_view t" by (simp add: nl_view_end etc_view_def)
  also have "lines_view (print_section sn # [print_key k v]) = [(sn, [(k, v)])]"
    using kv by (simp add: print_section_view [OF sn] print_key_view del: lines_view.simps(2) head_keys.simps(2))
  finally have v': "etc_view (concat ?new) = etc_view t @ [(sn, [(k, v)])]" .
  have "SetValueToEtcFile True True (Some t) sn k v = (ETC_OK, Some (concat ?new))"
    using s none by (simp add: SetValueToEtcFile_def etc_CopyAndLocate_def)
  then show ?thesis using v' none(3) by (auto simp: etc_view_def lines_view_names)
qed

lemma set_old_section:
  assumes t: "short_lines t" and kv: "clean_pair (k, v)" and s: "etc_LocateSection (etc_lines t) sn = (True, bak, rest)"
  shows "\<exists>t' pre A B C post. SetValueToEtcFile True True (Some t) sn k v = (ETC_OK, Some t') \<and> sn \<notin> fst ` set pre \<and> k \<notin> fst ` set A \<and>
    etc_view t = pre @ (sn, A @ B @ C) # post \<and> etc_view t' = pre @ (sn, keyed A @ (k, v) # C) # post \<and>
    (B = [] \<and> C = [] \<or> (\<exists>u. B = [(k, u)]))"
proof -
  let ?ls = "etc_lines t"
  obtain pre l where m: "?ls = pre @ l # rest" "bak = concat pre @ l" "get_section_name l = Some sn"
    "\<forall>p\<in>set pre. get_section_name p \<noteq> Some sn" using LocateSection_found [OF s] by auto
  obtain rc u bak' rest' where lk: "etc_LocateKeyValue rest k = ((rc, u), bak', rest')" by (metis prod.exhaust)
  obtain A pre' where A: "bak' = concat (printed (keyed A))" "k \<notin> fst ` set A" "rest = pre' @ rest'" "lines_view rest' = lines_view rest"
    "if rc = ETC_OK then head_keys rest = A @ (k, u) # head_keys rest' else head_keys rest = A \<and> head_keys rest' = []"
    using LocateKeyValue_lines [OF lk] by blast
  let ?gap = "if rc = ETC_OK then [] else [[nl]]"
  let ?tail = "printed (keyed A) @ print_key k v # ?gap @ rest'"
  have "\<forall>kv\<in>set (keyed (head_keys rest)). clean_pair kv"
    by (rule head_keys_clean) (use t m(1) in \<open>auto simp: short_lines_def\<close>)
  then have cA: "\<forall>kv\<in>set (keyed A). clean_pair kv" using A(5) by (auto split: if_splits)
  have "etc_view (concat (pre @ l # ?tail)) = lines_view (pre @ l # ?tail)"
    by (rule complete_lines_view)
      (use short_lines_complete [OF t] m(1) A(3) kv complete_printed [OF cA] complete_nl complete_print_key in auto)
  moreover have gap: "head_keys (?gap @ rest') = head_keys rest'" "lines_view (?gap @ rest') = lines_view rest'"
    using nl_view [of rest'] by auto
  moreover have "head_keys ?tail = keyed A @ (k, v) # head_keys rest'" "lines_view ?tail = lines_view rest'"
    using printed_view [OF cA] print_key_view [OF kv] gap by (simp_all del: head_keys.simps lines_view.simps)
  ultimately have v': "etc_view (concat (pre @ l # ?tail)) = lines_view pre @ (sn, keyed A @ (k, v) # head_keys rest') # lines_view rest'"
    using m(3) by (simp add: lines_view_append)
  have v: "etc_view t = lines_view pre @ (sn, head_keys rest) # lines_view rest'"
    using m(1,3) A(4) by (simp add: etc_view_def lines_view_append)
  have nn: "sn \<notin> fst ` set (lines_view pre)" using m(4) by (simp add: lines_view_names)
  have r: "SetValueToEtcFile True True (Some t) sn k v = (ETC_OK, Some (concat (pre @ l # ?tail)))"
    using s lk m A(1) by (auto simp: SetValueToEtcFile_def etc_CopyAndLocate_def)
  show ?thesis
  proof (cases "rc = ETC_OK")
    case True
    then have "etc_view t = lines_view pre @ (sn, A @ [(k, u)] @ head_keys rest') # lines_view rest'" using v A(5) by simp
    then show ?thesis using r nn A(2) v' by blast
  next
    case False
    then have "etc_view t = lines_view pre @ (sn, A @ [] @ []) # lines_view rest'" "head_keys rest' = []" using v A(5) by auto
    then show ?thesis using r nn A(2) v' by metis
  qed
qed

lemma map_of_keyed: "k \<noteq> [] \<Longrightarrow> map_of (keyed A) k = map_of A k"
  by (induction A) auto

lemma SetValueToEtcFile_view:
  assumes t: "short_lines t" and sn: "clean_name sn" and kv: "clean_pair (k, v)"
  shows "\<exists>t'. SetValueToEtcFile True True (Some t) sn k v = (ETC_OK, Some t') \<and>
    (\<forall>sn' k'. k' \<noteq> [] \<longrightarrow> view_value (etc_view t') sn' k' = (if sn' = sn \<and> k' = k then Some v else view_value (etc_view t) sn' k'))"
proof -
  obtain found bak rest where s: "etc_LocateSection (etc_lines t) sn = (found, bak, rest)" by (cases "etc_LocateSection (etc_lines t) sn")
  show ?thesis
  proof (cases found)
    case False
    then obtain t' where t': "sn \<notin> fst ` set (etc_view t)" "SetValueToEtcFile True True (Some t) sn k v = (ETC_OK, Some t')"
      "etc_view t' = etc_view t @ [(sn, [(k, v)])]" using set_new_section [OF t sn kv, of bak rest] s by auto
    have "map_of (etc_view t) sn = None" using t'(1) by (simp add: map_of_eq_None_iff)
    then have "view_value (etc_view t) sn k' = None" for k' by (simp add: view_value_def)
    then show ?thesis using t'(2,3) view_value_at [OF t'(1), of "[(k, v)]" "[]"] by auto
  next
    case True
    then have s': "etc_LocateSection (etc_lines t) sn = (True, bak, rest)" using s by simp
    obtain t' pre A B C post where o: "SetValueToEtcFile True True (Some t) sn k v = (ETC_OK, Some t')"
      "sn \<notin> fst ` set pre" "k \<notin> fst ` set A" "etc_view t = pre @ (sn, A @ B @ C) # post"
      "etc_view t' = pre @ (sn, keyed A @ (k, v) # C) # post" "B = [] \<and> C = [] \<or> (\<exists>u. B = [(k, u)])"
      using set_old_section [OF t kv s'] by (elim exE conjE) (rule that)
    have kA: "map_of A k = None" using o(3) by (simp add: map_of_eq_None_iff)
    have "map_of (keyed A @ (k, v) # C) k' = (if k' = k then Some v else map_of (A @ B @ C) k')" if "k' \<noteq> []" for k'
      using o(6) map_of_keyed [OF that] kA by (auto simp: map_add_def split: option.split)
    then show ?thesis using o by (auto simp: view_value_at)
  qed
qed

definition file_value :: "str \<Rightarrow> str \<Rightarrow> str \<Rightarrow> str option" where
  "file_value t sn k = (case GetValueFromEtcFile (Some t) (Some sn) k ETC_MAXLINE of (rc, v) \<Rightarrow> if rc = ETC_OK then Some v else None)"

lemma file_value_view: "file_value t sn k = map_option (take ETC_MAXLINE) (view_value (etc_view t) sn k)"
  by (auto simp: file_value_def GetValueFromEtcFile_view view_value_def split: option.split)

text \<open>C23: After \<open>SetValueToEtcFile\<close> on a file whose lines all end in a newline and are shorter than the line buffer
  the values that \<open>GetValueFromEtcFile\<close> returns for keys that are not empty are those from before, with the new value
  at the section and the key that were given: no other such key and no other section is changed, whether the key, or
  the section, was there or not. The section name, key and value are ones that can be printed and read again: the name
  has none of the characters that end a name and no blank in front; the key is not empty, does not begin with a bracket
  and has neither blanks at its ends nor one of the characters that end a key; the value has no newline; both lines are
  shorter than \<open>ETC_MAXLINE\<close>. The temporary file and the file can be opened and written. (A line that gives the empty
  key a value is dropped when it stands between the head of the section and the key.)\<close>

theorem SetValueToEtcFile_updates:
  assumes "short_lines t" and "clean_name sn" and "clean_pair (k, v)"
  shows "\<exists>t'. SetValueToEtcFile True True (Some t) sn k v = (ETC_OK, Some t') \<and>
    (\<forall>sn' k'. k' \<noteq> [] \<longrightarrow> file_value t' sn' k' = (if sn' = sn \<and> k' = k then Some v else file_value t sn' k'))"
proof -
  have "length v \<le> ETC_MAXLINE" using assms(3) by (simp add: clean_pair_def)
  then show ?thesis using SetValueToEtcFile_view [OF assms] by (fastforce simp: file_value_view)
qed

theorem SetValueToEtcFile_updates_witness:
  "\<exists>t'. SetValueToEtcFile True True (Some (''[a]'' @ [nl] @ ''k=u'' @ [nl])) ''a'' ''k'' ''v'' = (ETC_OK, Some t') \<and>
    (\<forall>sn' k'. k' \<noteq> [] \<longrightarrow> file_value t' sn' k' =
      (if sn' = ''a'' \<and> k' = ''k'' then Some ''v'' else file_value (''[a]'' @ [nl] @ ''k=u'' @ [nl]) sn' k'))"
proof (rule SetValueToEtcFile_updates)
  have "etc_lines (concat [''[a]'' @ [nl], ''k=u'' @ [nl]]) = [''[a]'' @ [nl], ''k=u'' @ [nl]]"
    by (rule etc_lines_concat) (simp add: complete_line_def ETC_MAXLINE_def)
  then show "short_lines (''[a]'' @ [nl] @ ''k=u'' @ [nl])" by (simp add: short_lines_def ETC_MAXLINE_def)
qed (simp_all add: clean_name_def clean_pair_def clean_key_def name_end_def key_end_def blank_def ETC_MAXLINE_def)

end
