(* ===== verification/MG_EtcObj.thy ===== *)
theory MG_EtcObj
  imports MG_EtcRun
begin

text \<open>
  The objects of \<open>MG_Etc\<close> in memory and their files: an object that is written and read again is the same object,
  a value that is set in an object or a section that is removed from it changes nothing else, and one section of a file
  is replaced or removed in its place.
\<close>

section \<open>Writing an object and reading it again\<close>

definition clean_section :: "ETCSECTION \<Rightarrow> bool" where
  "clean_section s \<longleftrightarrow> (case name s of None \<Rightarrow> True | Some n \<Rightarrow> clean_name n \<and> (\<forall>kv\<in>set (keyvals s). clean_pair kv))"

definition section_lines :: "ETCSECTION \<Rightarrow> str list" where
  "section_lines s = (case name s of None \<Rightarrow> [] | Some n \<Rightarrow> print_section n # printed (keyvals s) @ [[nl]])"

definition obj_view :: "ETCSECTION list \<Rightarrow> (str \<times> (str \<times> str) list) list" where
  "obj_view ss = map sect_view (filter (\<lambda>s. name s \<noteq> None) ss)"

lemma obj_view_simps [simp]:
  "obj_view [] = []" "obj_view (s # ss) = (if name s = None then obj_view ss else sect_view s # obj_view ss)"
  "obj_view (ss @ ss') = obj_view ss @ obj_view ss'"
  by (simp_all add: obj_view_def)

lemma WriteSection_lines: "etc_WriteSection s True = concat (section_lines s)"
  by (simp add: etc_WriteSection_def section_lines_def split: option.split)

lemma section_lines_complete: "clean_section s \<Longrightarrow> \<forall>l\<in>set (section_lines s). complete_line l"
  using complete_printed [of "keyvals s"] complete_print_section complete_nl
  by (auto simp: clean_section_def section_lines_def split: option.splits)

lemma section_lines_view:
  assumes c: "clean_section s" and X: "head_keys X = []"
  shows "lines_view (section_lines s @ X) = obj_view [s] @ lines_view X"
proof (cases "name s")
  case (Some n)
  then have n: "clean_name n" "\<forall>kv\<in>set (keyvals s). clean_pair kv" using c by (auto simp: clean_section_def)
  have "lines_view (section_lines s @ X) = (n, keyvals s @ head_keys ([nl] # X)) # lines_view ([nl] # X)"
    using print_section_view [OF n(1), of "printed (keyvals s) @ [nl] # X"] printed_view [OF n(2), of "[nl] # X"] Some
    by (simp add: section_lines_def del: lines_view.simps head_keys.simps)
  then show ?thesis using X Some by (simp only: nl_view) (simp add: sect_view_def)
qed (simp add: section_lines_def)

lemma section_lines_keys: "name s \<noteq> None \<Longrightarrow> clean_section s \<Longrightarrow> head_keys (section_lines s @ X) = []"
  using head_keys_stop [where pre = "[]"] get_section_name_print
  by (fastforce simp: section_lines_def clean_section_def split: option.splits)

lemma objects_view:
  "\<forall>s\<in>set ss. clean_section s \<Longrightarrow> lines_view (concat (map section_lines ss)) = obj_view ss \<and> head_keys (concat (map section_lines ss)) = []"
proof (induction ss)
  case (Cons s ss)
  then have s: "clean_section s" and k: "head_keys (concat (map section_lines ss)) = []"
    and v: "lines_view (concat (map section_lines ss)) = obj_view ss" by auto
  have "head_keys (section_lines s @ concat (map section_lines ss)) = []"
    using k section_lines_keys [OF _ s] by (cases "name s") (auto simp: section_lines_def)
  then show ?case using section_lines_view [OF s k] v by simp
qed simp

lemma concat_concat_map: "concat (map (\<lambda>s. concat (f s)) ss) = concat (concat (map f ss))"
  by (induction ss) auto

definition named_sections :: "ETC_S \<Rightarrow> (str option \<times> (str \<times> str) list) list" where
  "named_sections petc = map (\<lambda>s. (name s, keyvals s)) (filter (\<lambda>s. name s \<noteq> None) (sections petc))"

lemma named_sections_view: "named_sections petc = map (\<lambda>(n, kvs). (Some n, kvs)) (obj_view (sections petc))"
  by (auto simp: named_sections_def obj_view_def sect_view_def)

text \<open>C24: An object whose names, keys and values can be printed (names and keys without the characters that end them
  and without blanks around them, lines shorter than \<open>ETC_MAXLINE\<close>) is the same after \<open>SaveEtcToFile\<close> and
  \<open>LoadEtcFile\<close>: the same sections in the same order, with the same keys and values; removed sections are left out.\<close>

theorem SaveEtcToFile_LoadEtcFile:
  assumes "\<forall>s\<in>set (sections petc). clean_section s"
  shows "\<exists>t petc'. SaveEtcToFile (Some petc) True f = (ETC_OK, Some t) \<and> LoadEtcFile (Some (Some t)) = Some petc'
    \<and> named_sections petc' = named_sections petc"
proof -
  let ?t = "concat (concat (map section_lines (sections petc)))"
  have save: "SaveEtcToFile (Some petc) True f = (ETC_OK, Some ?t)"
    by (simp add: SaveEtcToFile_def WriteSection_lines concat_concat_map)
  have "etc_view ?t = obj_view (sections petc)"
    using objects_view [OF assms] assms section_lines_complete by (subst complete_lines_view) auto
  moreover obtain petc' where l: "LoadEtcFile (Some (Some ?t)) = Some petc'" "map sect_view (sections petc') = etc_view ?t"
    "\<forall>s\<in>set (sections petc'). name s \<noteq> None" using LoadEtcFile_view [of ?t] by blast
  moreover have "obj_view (sections petc') = map sect_view (sections petc')"
    using l(3) filter_True [of "sections petc'" "\<lambda>s. name s \<noteq> None"] by (simp add: obj_view_def)
  ultimately have "named_sections petc' = named_sections petc" by (simp add: named_sections_view)
  then show ?thesis using save l(1) by blast
qed

section \<open>Looking up and setting values in an object\<close>

lemma find_section_found:
  "find_section ss sn i = r \<Longrightarrow>
    (case r of None \<Rightarrow> sn \<notin> fst ` set (obj_view ss)
     | Some j \<Rightarrow> \<exists>pre s post. ss = pre @ s # post \<and> j = i + length pre \<and> name s = Some sn \<and> sn \<notin> fst ` set (obj_view pre))"
proof (induction ss arbitrary: i r)
  case (Cons s ss)
  show ?case
  proof (cases "name s = Some sn")
    case True
    then show ?thesis using Cons.prems by (auto intro!: exI [of _ "[]"])
  next
    case False
    then have r: "find_section ss sn (i + 1) = r" using Cons.prems by simp
    show ?thesis
    proof (cases r)
      case None
      then show ?thesis using Cons.IH [OF r] False by (auto simp: sect_view_def)
    next
      case (Some j)
      then obtain pre s' post where d: "ss = pre @ s' # post" "j = i + 1 + length pre" "name s' = Some sn" "sn \<notin> fst ` set (obj_view pre)"
        using Cons.IH [OF r] by auto
      have "s # ss = (s # pre) @ s' # post" "j = i + length (s # pre)" "sn \<notin> fst ` set (obj_view (s # pre))"
        using d False by (auto simp: sect_view_def)
      then show ?thesis using Some d(3) by (simp only: option.case) blast
    qed
  qed
qed auto

lemma empty_section_range:
  "empty_section ss i e = Some j \<Longrightarrow> e = Some j \<or> (\<exists>pre s post. ss = pre @ s # post \<and> j = i + length pre \<and> name s = None)"
proof (induction ss arbitrary: i e)
  case (Cons s ss)
  have "empty_section ss (i + 1) (if name s = None then Some i else e) = Some j" using Cons.prems by simp
  from Cons.IH [OF this] consider "(if name s = None then Some i else e) = Some j"
    | pre s' post where "ss = pre @ s' # post" "j = i + 1 + length pre" "name s' = None" by blast
  then show ?case
  proof cases
    case 1
    then show ?thesis by (cases "name s") auto
  next
    case 2
    then have "s # ss = (s # pre) @ s' # post" "j = i + length (s # pre)" by auto
    then show ?thesis using 2(3) by blast
  qed
qed simp

text \<open>The arrays that can grow have room for what they hold; the size 0 marks an object, or a section, that is
  read-only.\<close>

definition sect_wf :: "ETCSECTION \<Rightarrow> bool" where
  "sect_wf s \<longleftrightarrow> (0 < key_nr_alloc s \<longrightarrow> length (keyvals s) \<le> key_nr_alloc s)"

definition etc_wf :: "ETC_S \<Rightarrow> bool" where
  "etc_wf petc \<longleftrightarrow> (0 < sect_nr_alloc petc \<longrightarrow> length (sections petc) \<le> sect_nr_alloc petc) \<and> (\<forall>s\<in>set (sections petc). sect_wf s)"

text \<open>No value can be set in the section: it is there and read-only, or it is not and the object is read-only.\<close>

definition etc_read_only :: "ETC_S \<Rightarrow> str \<Rightarrow> bool" where
  "etc_read_only petc sn \<longleftrightarrow> (case find_section (sections petc) sn 0 of
     Some i \<Rightarrow> key_nr_alloc (sections petc ! i) = 0 | None \<Rightarrow> sect_nr_alloc petc = 0)"

lemma NewKeyValue_wf: "sect_wf s \<Longrightarrow> sect_wf (etc_NewKeyValue s k v)"
  by (auto simp: sect_wf_def etc_NewKeyValue_def NR_KEYS_INC_ALLOC_def Let_def)

lemma set_value_map: "set_value kvs k v = r \<Longrightarrow>
  (case r of None \<Rightarrow> map_of kvs k = None | Some kvs' \<Rightarrow> map_of kvs' = (map_of kvs)(k \<mapsto> v) \<and> length kvs' = length kvs)"
  by (induction kvs k v arbitrary: r rule: set_value.induct) (auto simp: fun_eq_iff split: option.splits)

lemma GetSectionValue_set:
  assumes "sect_wf s" "0 < key_nr_alloc s" "n \<le> 0"
  shows "\<exists>s'. etc_GetSectionValue s k v n = (ETC_OK, [], s') \<and> sect_wf s' \<and> name s' = name s \<and> map_of (keyvals s') = (map_of (keyvals s))(k \<mapsto> v)"
proof (cases "set_value (keyvals s) k v")
  case None
  then have "map_of (keyvals s) k = None" using set_value_map [of "keyvals s" k v] by auto
  then have "map_of (keyvals (etc_NewKeyValue s k v)) = (map_of (keyvals s))(k \<mapsto> v)"
    by (auto simp: NewKeyValue_view map_add_def fun_eq_iff split: option.split)
  then show ?thesis using assms None NewKeyValue_wf NewKeyValue_view by (auto simp: etc_GetSectionValue_def sect_wf_def)
next
  case (Some kvs)
  then show ?thesis using assms set_value_map [OF Some] by (auto simp: etc_GetSectionValue_def sect_wf_def)
qed

definition obj_value :: "nat \<Rightarrow> ETC_S \<Rightarrow> str \<Rightarrow> str \<Rightarrow> str option" where
  "obj_value n petc sn k = (case GetValueFromEtc (Some petc) sn k (Some []) (int n) of (rc, v, _) \<Rightarrow> if rc = ETC_OK then Some v else None)"

lemma GetValueFromEtc_get:
  assumes "0 < n"
  shows "GetValueFromEtc (Some petc) sn k (Some b) (int n) =
     (case map_of (obj_view (sections petc)) sn of None \<Rightarrow> (ETC_SECTIONNOTFOUND, [], Some petc)
      | Some kvs \<Rightarrow> (case map_of kvs k of None \<Rightarrow> (ETC_KEYNOTFOUND, [], Some petc) | Some v \<Rightarrow> (ETC_OK, take n v, Some petc)))"
proof (cases "find_section (sections petc) sn 0")
  case None
  then have "map_of (obj_view (sections petc)) sn = None" using find_section_found [OF None] by (simp add: map_of_eq_None_iff)
  then show ?thesis using None assms by (simp add: GetValueFromEtc_def)
next
  case (Some j)
  then obtain pre s post where d: "sections petc = pre @ s # post" "j = length pre" "name s = Some sn" "sn \<notin> fst ` set (obj_view pre)"
    using find_section_found [OF Some] by auto
  have "map_of (obj_view (sections petc)) sn = Some (keyvals s)"
    using d by (simp add: map_of_notin sect_view_def del: map_of_append)
  moreover have "petc\<lparr>sections := pre @ s # post\<rparr> = petc" using d(1) by (cases petc) simp
  ultimately show ?thesis using Some d assms
    by (simp add: GetValueFromEtc_def etc_GetSectionValue_def split: option.split)
qed

lemma obj_value_view: "0 < n \<Longrightarrow> obj_value n petc sn k = map_option (take n) (view_value (obj_view (sections petc)) sn k)"
  by (auto simp: obj_value_def GetValueFromEtc_get view_value_def split: option.split)

lemma GetValueFromEtc_LoadEtcFile_eq:
  assumes "0 < n" and "LoadEtcFile (Some (Some t)) = Some petc"
  shows "GetValueFromEtc (Some petc) sn k (Some b) (int n) = (case GetValueFromEtcFile (Some t) (Some sn) k n of (rc, v) \<Rightarrow> (rc, v, Some petc))"
proof -
  have "map sect_view (sections petc) = etc_view t" "\<forall>s\<in>set (sections petc). name s \<noteq> None"
    using LoadEtcFile_view [of t] assms(2) by auto
  then have "obj_view (sections petc) = etc_view t"
    using filter_True [of "sections petc" "\<lambda>s. name s \<noteq> None"] by (simp add: obj_view_def)
  then show ?thesis using assms(1) by (simp add: GetValueFromEtc_get GetValueFromEtcFile_view split: option.split)
qed

text \<open>C25: Looking a value up in an object that was loaded from a file and looking it up in the file itself give the
  same result: the same error code, or the same characters of the value.\<close>

theorem GetValueFromEtc_LoadEtcFile:
  assumes "0 < n" and "LoadEtcFile (Some (Some t)) = Some petc"
  shows "GetValueFromEtc (Some petc) sn k (Some b) (int n) = (case GetValueFromEtcFile (Some t) (Some sn) k n of (rc, v) \<Rightarrow> (rc, v, Some petc))"
  using assms by (rule GetValueFromEtc_LoadEtcFile_eq)

text \<open>The place that is found or made for a section that is not in the object.\<close>

lemma place_section_split:
  assumes wf: "etc_wf petc" "0 < sect_nr_alloc petc" and p: "place_section petc sn = (i, petc')"
  shows "\<exists>pre post. sections petc' = pre @ fresh_section sn # post \<and> i = length pre \<and>
    obj_view (sections petc) = obj_view pre @ obj_view post \<and> etc_wf petc'"
proof (cases "empty_section (sections petc) 0 None")
  case None
  then have "sections petc' = sections petc @ fresh_section sn # []" "i = length (sections petc)" "etc_wf petc'"
    using p wf by (auto simp: place_section_def etc_NewSection_def Let_def etc_wf_def fresh_section_def sect_wf_def
        NR_KEYS_INIT_ALLOC_def NR_SECTS_INC_ALLOC_def split: if_splits)
  then show ?thesis by (metis append_Nil2 obj_view_simps(1))
next
  case (Some j)
  then obtain pre s post where d: "sections petc = pre @ s # post" "j = length pre" "name s = None"
    using empty_section_range [OF Some] by auto
  then have "sections petc' = pre @ fresh_section sn # post" "i = length pre"
    using p Some by (auto simp: place_section_def)
  moreover have "etc_wf petc'" using p Some wf d
    by (auto simp: place_section_def etc_wf_def fresh_section_def sect_wf_def NR_KEYS_INIT_ALLOC_def)
  ultimately show ?thesis using d by auto
qed

lemma set_at:
  assumes wf: "etc_wf petc" and d: "sections petc = pre @ s # post" "name s = Some sn" "sn \<notin> fst ` set (obj_view pre)" and n: "n \<le> 0" "0 < key_nr_alloc s"
  shows "\<exists>s'. etc_GetSectionValue s k v n = (ETC_OK, [], s') \<and> etc_wf (petc\<lparr>sections := pre @ s' # post\<rparr>) \<and>
    (\<forall>sn' k'. view_value (obj_view (pre @ s' # post)) sn' k' =
      (if sn' = sn \<and> k' = k then Some v else if sn' = sn then map_of (keyvals s) k' else view_value (obj_view pre @ obj_view post) sn' k'))"
proof -
  have "sect_wf s" using wf d by (auto simp: etc_wf_def)
  then obtain s' where s': "etc_GetSectionValue s k v n = (ETC_OK, [], s')" "sect_wf s'" "name s' = name s"
    "map_of (keyvals s') = (map_of (keyvals s))(k \<mapsto> v)" using GetSectionValue_set [OF _ n(2,1)] by blast
  have "etc_wf (petc\<lparr>sections := pre @ s' # post\<rparr>)" using wf d(1) s'(2) by (auto simp: etc_wf_def)
  moreover have "view_value (obj_view (pre @ s' # post)) sn' k' =
      (if sn' = sn \<and> k' = k then Some v else if sn' = sn then map_of (keyvals s) k' else view_value (obj_view pre @ obj_view post) sn' k')" for sn' k'
    using view_value_at [OF d(3), of "keyvals s'" "obj_view post"] s' d(2) by (simp add: sect_view_def)
  ultimately show ?thesis using s'(1) by blast
qed

lemma GetValueFromEtc_read_only:
  assumes "etc_read_only petc sn" "n \<le> 0"
  shows "GetValueFromEtc (Some petc) sn k (Some v) n = (ETC_READONLYOBJ, [], Some petc)"
  using assms by (auto simp: etc_read_only_def GetValueFromEtc_def etc_GetSectionValue_def split: option.splits)

lemma GetValueFromEtc_set_view:
  assumes wf: "etc_wf petc" and n: "n \<le> 0" and rw: "\<not> etc_read_only petc sn"
  shows "\<exists>petc'. GetValueFromEtc (Some petc) sn k (Some v) n = (ETC_OK, [], Some petc') \<and> etc_wf petc' \<and>
    (\<forall>sn' k'. view_value (obj_view (sections petc')) sn' k' =
      (if sn' = sn \<and> k' = k then Some v else view_value (obj_view (sections petc)) sn' k'))"
proof (cases "find_section (sections petc) sn 0")
  case (Some j)
  then obtain pre s post where d: "sections petc = pre @ s # post" "j = length pre" "name s = Some sn" "sn \<notin> fst ` set (obj_view pre)"
    using find_section_found [OF Some] by auto
  have "0 < key_nr_alloc s" using rw Some d(1,2) by (simp add: etc_read_only_def)
  then obtain s' where s': "etc_GetSectionValue s k v n = (ETC_OK, [], s')" "etc_wf (petc\<lparr>sections := pre @ s' # post\<rparr>)"
    "\<And>sn' k'. view_value (obj_view (pre @ s' # post)) sn' k' =
      (if sn' = sn \<and> k' = k then Some v else if sn' = sn then map_of (keyvals s) k' else view_value (obj_view pre @ obj_view post) sn' k')"
    using set_at [OF wf d(1,3,4) n] by blast
  have "GetValueFromEtc (Some petc) sn k (Some v) n = (ETC_OK, [], Some (petc\<lparr>sections := pre @ s' # post\<rparr>))"
    using Some d s'(1) by (simp add: GetValueFromEtc_def)
  moreover have "view_value (obj_view (sections petc)) sn' k' = (if sn' = sn then map_of (keyvals s) k' else view_value (obj_view pre @ obj_view post) sn' k')" for sn' k'
    using view_value_at [OF d(4), of "keyvals s" "obj_view post"] d(1,3) by (simp add: sect_view_def)
  ultimately show ?thesis using s'(2,3) by auto
next
  case None
  have alloc: "0 < sect_nr_alloc petc" using rw None by (simp add: etc_read_only_def)
  have nn: "sn \<notin> fst ` set (obj_view (sections petc))" using find_section_found [OF None] by simp
  obtain i pc where p: "place_section petc sn = (i, pc)" by (cases "place_section petc sn")
  obtain pre post where d: "sections pc = pre @ fresh_section sn # post" "i = length pre"
    "obj_view (sections petc) = obj_view pre @ obj_view post" "etc_wf pc" using place_section_split [OF wf alloc p] by blast
  have f: "name (fresh_section sn) = Some sn" "keyvals (fresh_section sn) = []" "0 < key_nr_alloc (fresh_section sn)"
    by (simp_all add: fresh_section_def NR_KEYS_INIT_ALLOC_def)
  have pre: "sn \<notin> fst ` set (obj_view pre)" using nn d(3) by auto
  obtain s' where s': "etc_GetSectionValue (fresh_section sn) k v n = (ETC_OK, [], s')" "etc_wf (pc\<lparr>sections := pre @ s' # post\<rparr>)"
    "\<And>sn' k'. view_value (obj_view (pre @ s' # post)) sn' k' =
      (if sn' = sn \<and> k' = k then Some v else if sn' = sn then map_of (keyvals (fresh_section sn)) k' else view_value (obj_view pre @ obj_view post) sn' k')"
    using set_at [OF d(4,1) f(1) pre n f(3)] by blast
  have "GetValueFromEtc (Some petc) sn k (Some v) n = (ETC_OK, [], Some (pc\<lparr>sections := pre @ s' # post\<rparr>))"
    using None n p d(1,2) s'(1) alloc by (simp add: GetValueFromEtc_def)
  then show ?thesis using s'(2,3) d(3) f(2) view_value_None [OF nn] by auto
qed

text \<open>C26: Setting a value in an object (\<open>GetValueFromEtc\<close> with a length that is not positive) fails exactly when the
  section is there and read-only or is missing from a read-only object; then the result is \<open>ETC_READONLYOBJ\<close> and the
  object is as it was. Otherwise it succeeds, also when the section or the key is new or a removed section has left a
  place, and exactly the value of the given section and key has changed. The arrays that can grow still have room for
  the sections and the keys.\<close>

theorem GetValueFromEtc_set:
  assumes "etc_wf petc" and "n \<le> 0" and "0 < m"
  shows "\<exists>rc petc'. GetValueFromEtc (Some petc) sn k (Some v) n = (rc, [], Some petc') \<and> etc_wf petc' \<and>
    (if etc_read_only petc sn then rc = ETC_READONLYOBJ \<and> petc' = petc
     else rc = ETC_OK \<and>
       (\<forall>sn' k'. obj_value m petc' sn' k' = (if sn' = sn \<and> k' = k then Some (take m v) else obj_value m petc sn' k')))"
proof (cases "etc_read_only petc sn")
  case True
  then show ?thesis using GetValueFromEtc_read_only [OF True assms(2)] assms(1) by simp
next
  case False
  obtain petc' where p: "GetValueFromEtc (Some petc) sn k (Some v) n = (ETC_OK, [], Some petc')" "etc_wf petc'"
    "\<And>sn' k'. view_value (obj_view (sections petc')) sn' k' =
      (if sn' = sn \<and> k' = k then Some v else view_value (obj_view (sections petc)) sn' k')"
    using GetValueFromEtc_set_view [OF assms(1,2) False] by blast
  then show ?thesis using False assms(3) by (simp add: obj_value_view)
qed

text \<open>The integer that is read is the same from a file and from an object loaded from it. Where \<open>long\<close> has 64 bits a
  number out of range is never reported, because the value has been cut to an \<open>int\<close> before it is compared.\<close>

lemma GetIntValueFromEtc_LoadEtcFile:
  "LoadEtcFile (Some (Some t)) = Some petc \<Longrightarrow>
    GetIntValueFromEtc L e (Some petc) sn k d = GetIntValueFromEtcFile L e (Some t) (Some sn) k d"
  using GetValueFromEtc_LoadEtcFile_eq [of 50 t petc sn k "[]"]
  by (auto simp: GetIntValueFromEtc_def GetIntValueFromEtcFile_def split: prod.split)

lemma int_value_never_INTCONV: "fst (int_value 64 e s) = ETC_OK"
proof -
  have "- (2 ^ 31) \<le> sint w \<and> sint w < 2 ^ 31" for w :: "32 word"
    using sint_ge [of w] sint_lt [of w] by simp
  then have "sint w \<noteq> - (2 ^ 63) \<and> sint w \<noteq> 2 ^ 63 - 1" for w :: "32 word" by (smt (verit, best) numeral_One one_less_numeral_iff power_strict_increasing_iff semiring_norm)
  then show ?thesis by (auto simp: int_value_def Let_def split: prod.split)
qed

section \<open>Room in the arrays\<close>

lemma read_keys_wf: "read_keys ls s = (s', rest) \<Longrightarrow> sect_wf s \<Longrightarrow> sect_wf s'"
  by (induction ls arbitrary: s) (auto split: key_line.splits dest: NewKeyValue_wf)

lemma ReadSection_wf: "etc_ReadSection ls = Some (s, rest) \<Longrightarrow> sect_wf s"
proof (induction ls)
  case (Cons l ls)
  have "sect_wf \<lparr>key_nr_alloc = NR_KEYS_INIT_ALLOC, name = Some n, keyvals = []\<rparr>" for n
    by (simp add: sect_wf_def NR_KEYS_INIT_ALLOC_def)
  then show ?case using Cons by (auto split: option.splits dest: read_keys_wf)
qed simp

text \<open>While a file is loaded there is always room for one section more, which the next \<open>etc_ReadSection\<close> fills.\<close>

lemma read_sections_wf:
  "etc_wf petc \<Longrightarrow> length (sections petc) < sect_nr_alloc petc \<Longrightarrow>
    etc_wf (read_sections ls petc) \<and> length (sections (read_sections ls petc)) < sect_nr_alloc (read_sections ls petc)"
proof (induction ls petc rule: read_sections.induct)
  case (1 ls petc)
  show ?case
  proof (cases "etc_ReadSection ls")
    case None
    then show ?thesis using 1(2,3) by (subst (1 2 3) read_sections.simps) simp
  next
    case (Some a)
    obtain s rest where a: "a = (s, rest)" by (cases a)
    have r: "etc_ReadSection ls = Some (s, rest)" using Some a by simp
    let ?p = "petc\<lparr>sections := sections petc @ [s]\<rparr>"
    let ?q = "if length (sections ?p) = sect_nr_alloc ?p then ?p\<lparr>sect_nr_alloc := sect_nr_alloc ?p + NR_SECTS_INC_ALLOC\<rparr> else ?p"
    have "read_sections ls petc = read_sections rest ?q" by (subst read_sections.simps) (simp add: r Let_def)
    moreover have "etc_wf ?q" "length (sections ?q) < sect_nr_alloc ?q"
      using 1(2,3) ReadSection_wf [OF r] by (auto simp: etc_wf_def NR_SECTS_INC_ALLOC_def)
    ultimately show ?thesis using 1(1) [OF Some a [symmetric] refl] by simp
  qed
qed

lemma LoadEtcFile_wf: "LoadEtcFile f = Some petc \<Longrightarrow> etc_wf petc \<and> length (sections petc) < sect_nr_alloc petc"
  using read_sections_wf [of "\<lparr>sect_nr_alloc = NR_SECTS_INIT_ALLOC, sections = []\<rparr>"]
  by (auto simp: LoadEtcFile_def etc_wf_def NR_SECTS_INIT_ALLOC_def split: option.splits)

section \<open>Removing a section of an object\<close>

lemma RemoveSectionInEtc_removes:
  assumes wf: "etc_wf petc" "0 < sect_nr_alloc petc" and m: "0 < m" and dis: "distinct (map fst (obj_view (sections petc)))"
  shows "case RemoveSectionInEtc (Some petc) sn of
     (rc, Some petc') \<Rightarrow> rc = (if sn \<in> fst ` set (obj_view (sections petc)) then ETC_OK else ETC_SECTIONNOTFOUND) \<and> etc_wf petc' \<and>
       (\<forall>sn' k. obj_value m petc' sn' k = (if sn' = sn then None else obj_value m petc sn' k))
   | _ \<Rightarrow> False"
proof (cases "find_section (sections petc) sn 0")
  case None
  then show ?thesis using wf find_section_found [OF None] m view_value_None
    by (auto simp: RemoveSectionInEtc_def FindSectionInEtc_def etc_wf_def obj_value_view)
next
  case (Some j)
  then obtain pre s post where d: "sections petc = pre @ s # post" "j = length pre" "name s = Some sn" "sn \<notin> fst ` set (obj_view pre)"
    using find_section_found [OF Some] by auto
  let ?p = "petc\<lparr>sections := pre @ s\<lparr>keyvals := [], name := None\<rparr> # post\<rparr>"
  have r: "RemoveSectionInEtc (Some petc) sn = (ETC_OK, Some ?p)"
    using Some d wf by (simp add: RemoveSectionInEtc_def FindSectionInEtc_def etc_wf_def)
  have w: "etc_wf ?p" using wf d(1) by (auto simp: etc_wf_def sect_wf_def)
  have v: "obj_view (sections petc) = obj_view pre @ (sn, keyvals s) # obj_view post" using d(1,3) by (simp add: sect_view_def)
  have "sn \<notin> fst ` set (obj_view pre @ obj_view post)" using dis v by auto
  then have "view_value (obj_view pre @ obj_view post) sn k = None" for k by (rule view_value_None)
  then show ?thesis using r w m v d(1) view_value_at [OF d(4)] by (auto simp: obj_value_view)
qed

section \<open>Replacing and removing a section of a file\<close>

lemma LocateSection_2_found:
  "etc_LocateSection_2 ls sn = (ok, bak, rest) \<Longrightarrow>
    (if ok then \<exists>pre l. ls = pre @ l # rest \<and> bak = concat pre \<and> get_section_name l = Some sn \<and> (\<forall>p\<in>set pre. get_section_name p \<noteq> Some sn)
     else bak = concat ls \<and> rest = [] \<and> (\<forall>p\<in>set ls. get_section_name p \<noteq> Some sn))"
proof (induction ls arbitrary: ok bak rest)
  case (Cons l ls)
  show ?case
  proof (cases "get_section_name l = Some sn")
    case True
    then show ?thesis using Cons.prems by (auto intro!: exI [of _ "[]"])
  next
    case False
    obtain ok' bak' rest' where e: "etc_LocateSection_2 ls sn = (ok', bak', rest')" by (cases "etc_LocateSection_2 ls sn")
    then have r: "ok = ok'" "bak = l @ bak'" "rest = rest'" using False Cons.prems by auto
    note IH = Cons.IH [OF e]
    show ?thesis
    proof (cases ok')
      case True
      then obtain pre m where m: "ls = pre @ m # rest'" "bak' = concat pre" "get_section_name m = Some sn"
        "\<forall>p\<in>set pre. get_section_name p \<noteq> Some sn" using IH by auto
      show ?thesis unfolding r using True False m by (auto intro!: exI [of _ "l # pre"] exI [of _ m])
    qed (use IH r False in auto)
  qed
qed auto

lemma FindNextSection_view:
  "(\<exists>pre. ls = pre @ etc_FindNextSection ls) \<and> lines_view (etc_FindNextSection ls) = lines_view ls \<and> head_keys (etc_FindNextSection ls) = []
    \<and> (etc_FindNextSection ls = [] \<or> get_section_name (hd (etc_FindNextSection ls)) \<noteq> None)"
proof (induction ls)
  case (Cons l ls)
  show ?case
  proof (cases "get_section_name l")
    case None
    obtain pre where "ls = pre @ etc_FindNextSection ls" using Cons by blast
    then have "\<exists>pre. l # ls = pre @ etc_FindNextSection ls" by (intro exI [of _ "l # pre"]) simp
    then show ?thesis using None Cons by simp
  next
    case (Some n)
    then have "get_key_value (cut_nl l) = KV_section" by (simp add: cut_section)
    then show ?thesis using Some by auto
  qed
qed simp

lemma ReviseSection_view:
  assumes t: "short_lines t" and c: "clean_section s" "name s = Some sn"
  shows "if sn \<in> fst ` set (etc_view t)
    then \<exists>t' pre kvs post. etc_ReviseSectionInEtcFile True True (Some t) s bRemove = (ETC_OK, Some t') \<and> sn \<notin> fst ` set pre \<and>
      etc_view t = pre @ (sn, kvs) # post \<and> etc_view t' = pre @ (if bRemove then [] else [(sn, keyvals s)]) @ post
    else if bRemove then etc_ReviseSectionInEtcFile True True (Some t) s bRemove = (ETC_SECTIONNOTFOUND, Some t)
    else \<exists>t'. etc_ReviseSectionInEtcFile True True (Some t) s bRemove = (ETC_OK, Some t') \<and> etc_view t' = etc_view t @ [(sn, keyvals s)]"
proof -
  let ?ls = "etc_lines t"
  have ok: "\<forall>l\<in>set ?ls. complete_line l" using short_lines_complete [OF t] by blast
  obtain found bak rest where f: "etc_LocateSection_2 ?ls sn = (found, bak, rest)" by (cases "etc_LocateSection_2 ?ls sn")
  have sv: "section_lines s = print_section sn # printed (keyvals s) @ [[nl]]" using c(2) by (simp add: section_lines_def)
  have psn: "get_section_name (print_section sn) \<noteq> None" using c get_section_name_print by (auto simp: clean_section_def)
  have join: "lines_view (X @ section_lines s @ Y) = lines_view X @ (sn, keyvals s) # lines_view Y" if "head_keys Y = []" for X Y
    using lines_view_append [OF psn, of X] section_lines_view [OF c(1) that] sv c(2) by (simp add: sect_view_def)
  show ?thesis
  proof (cases found)
    case False
    then have none: "\<forall>p\<in>set ?ls. get_section_name p \<noteq> Some sn" using LocateSection_2_found [OF f] by auto
    have "etc_view (concat (?ls @ section_lines s)) = lines_view (?ls @ section_lines s)"
      by (rule complete_lines_view) (use ok section_lines_complete [OF c(1)] in auto)
    also have "\<dots> = etc_view t @ [(sn, keyvals s)]" using join [of "[]" ?ls] by (simp add: etc_view_def)
    finally have "etc_view (t @ etc_WriteSection s True) = etc_view t @ [(sn, keyvals s)]"
      by (simp add: WriteSection_lines concat_etc_lines)
    then show ?thesis using False f none c(2) by (auto simp: etc_ReviseSectionInEtcFile_def etc_view_def lines_view_names)
  next
    case True
    obtain pre l where m: "?ls = pre @ l # rest" "bak = concat pre" "get_section_name l = Some sn"
      "\<forall>p\<in>set pre. get_section_name p \<noteq> Some sn" using LocateSection_2_found [OF f] True by auto
    let ?next = "etc_FindNextSection rest"
    obtain skip where n: "rest = skip @ ?next" "lines_view ?next = lines_view rest" "head_keys ?next = []"
      "?next = [] \<or> get_section_name (hd ?next) \<noteq> None" using FindNextSection_view [of rest] by blast
    let ?new = "pre @ (if bRemove then [] else section_lines s) @ ?next"
    have "set ?next \<subseteq> set rest" using n(1) by (metis set_append Un_upper2)
    then have "etc_view (concat ?new) = lines_view ?new"
      by (intro complete_lines_view) (use ok m(1) section_lines_complete [OF c(1)] in auto)
    also have "\<dots> = lines_view pre @ (if bRemove then [] else [(sn, keyvals s)]) @ lines_view rest"
    proof (cases bRemove)
      case True
      then show ?thesis using n(2,4) lines_view_append [of "hd ?next" pre "tl ?next"] by (cases ?next) auto
    qed (use join [OF n(3)] n(2) in simp)
    finally have v': "etc_view (concat ?new) = lines_view pre @ (if bRemove then [] else [(sn, keyvals s)]) @ lines_view rest" .
    have v: "etc_view t = lines_view pre @ (sn, head_keys rest) # lines_view rest" using m(1,3) by (simp add: etc_view_def lines_view_append)
    have nn: "sn \<notin> fst ` set (lines_view pre)" using m(4) by (simp add: lines_view_names)
    have "etc_ReviseSectionInEtcFile True True (Some t) s bRemove = (ETC_OK, Some (concat ?new))"
      using True f m(2) c(2) by (simp add: etc_ReviseSectionInEtcFile_def WriteSection_lines)
    moreover have "sn \<in> fst ` set (etc_view t)" using v by simp
    ultimately show ?thesis using v v' nn by (auto simp del: concat_append)
  qed
qed

text \<open>C27: \<open>SaveSectionToEtcFile\<close> on a file whose lines all end in a newline and are shorter than the line buffer makes
  the keys and values of that section the ones that were given, and leaves the values of all other sections as they
  were. The section is one that can be printed and read again: its name has none of the characters that end a name
  and no blank in front; every key is not empty, does not begin with a bracket and has neither blanks at its ends nor
  one of the characters that end a key; no value has a newline; all lines are shorter than \<open>ETC_MAXLINE\<close>. The
  temporary file and the file can be opened and written.\<close>

theorem SaveSectionToEtcFile_replaces:
  assumes "short_lines t" and "clean_section s" and "name s = Some sn"
  shows "\<exists>t'. SaveSectionToEtcFile True True (Some t) s = (ETC_OK, Some t') \<and>
    (\<forall>sn' k. file_value t' sn' k = (if sn' = sn then map_option (take ETC_MAXLINE) (map_of (keyvals s) k) else file_value t sn' k))"
proof (cases "sn \<in> fst ` set (etc_view t)")
  case True
  then obtain t' pre kvs post where r: "etc_ReviseSectionInEtcFile True True (Some t) s False = (ETC_OK, Some t')"
    "sn \<notin> fst ` set pre" "etc_view t = pre @ (sn, kvs) # post" "etc_view t' = pre @ [(sn, keyvals s)] @ post"
    using ReviseSection_view [OF assms, of False] by auto
  then show ?thesis by (auto simp: SaveSectionToEtcFile_def file_value_view view_value_at)
next
  case False
  then obtain t' where r: "etc_ReviseSectionInEtcFile True True (Some t) s False = (ETC_OK, Some t')"
    "etc_view t' = etc_view t @ [(sn, keyvals s)]" using ReviseSection_view [OF assms, of False] by auto
  then show ?thesis using view_value_at [OF False, of "keyvals s" "[]"] by (auto simp: SaveSectionToEtcFile_def file_value_view)
qed

text \<open>\<open>RemoveSectionInEtcFile\<close> removes the first section of that name.\<close>

lemma RemoveSectionInEtcFile_removes:
  assumes "short_lines t" and "clean_name sn"
  shows "if sn \<in> fst ` set (etc_view t)
    then \<exists>t' pre kvs post. RemoveSectionInEtcFile True True (Some t) sn = (ETC_OK, Some t') \<and> sn \<notin> fst ` set pre \<and>
      etc_view t = pre @ (sn, kvs) # post \<and> etc_view t' = pre @ post
    else RemoveSectionInEtcFile True True (Some t) sn = (ETC_SECTIONNOTFOUND, Some t)"
  using ReviseSection_view [OF assms(1), of "\<lparr>key_nr_alloc = 0, name = Some sn, keyvals = []\<rparr>" sn True] assms(2)
  by (auto simp: clean_section_def RemoveSectionInEtcFile_def split: if_splits)

section \<open>Examples\<close>

definition some_section :: ETCSECTION where
  "some_section = \<lparr>key_nr_alloc = 8, name = Some ''a'', keyvals = [(''k'', ''v'')]\<rparr>"

lemma clean_some: "clean_name ''a''" "clean_pair (''k'', ''v'')" "clean_section some_section" "name some_section = Some ''a''"
  by (simp_all add: clean_name_def clean_pair_def clean_key_def clean_section_def some_section_def name_end_def key_end_def
      blank_def ETC_MAXLINE_def)

lemma short_lines_Nil: "short_lines []"
  by (simp add: short_lines_def)

theorem SaveEtcToFile_LoadEtcFile_witness:
  "\<exists>t petc'. SaveEtcToFile (Some \<lparr>sect_nr_alloc = 16, sections = [some_section]\<rparr>) True None = (ETC_OK, Some t) \<and>
    LoadEtcFile (Some (Some t)) = Some petc' \<and> named_sections petc' = named_sections \<lparr>sect_nr_alloc = 16, sections = [some_section]\<rparr>"
  by (rule SaveEtcToFile_LoadEtcFile) (simp add: clean_some)

theorem SaveSectionToEtcFile_replaces_witness:
  "\<exists>t'. SaveSectionToEtcFile True True (Some []) some_section = (ETC_OK, Some t') \<and>
    (\<forall>sn' k. file_value t' sn' k = (if sn' = ''a'' then map_option (take ETC_MAXLINE) (map_of (keyvals some_section) k) else file_value [] sn' k))"
  by (rule SaveSectionToEtcFile_replaces [OF short_lines_Nil clean_some(3,4)])

theorem GetValueFromEtc_set_witness:
  "(\<exists>petc'. GetValueFromEtc (Some \<lparr>sect_nr_alloc = 16, sections = [some_section]\<rparr>) ''b'' ''k'' (Some ''w'') (- 1) = (ETC_OK, [], Some petc')
      \<and> obj_value 3 petc' ''b'' ''k'' = Some ''w'')
    \<and> GetValueFromEtc (Some \<lparr>sect_nr_alloc = 0, sections = [some_section]\<rparr>) ''b'' ''k'' (Some ''w'') (- 1)
      = (ETC_READONLYOBJ, [], Some \<lparr>sect_nr_alloc = 0, sections = [some_section]\<rparr>)"
proof -
  let ?o = "\<lambda>n. \<lparr>sect_nr_alloc = n, sections = [some_section]\<rparr>"
  have "etc_wf (?o 16)" "etc_wf (?o 0)" "\<not> etc_read_only (?o 16) ''b''" "etc_read_only (?o 0) ''b''"
    by (simp_all add: etc_wf_def sect_wf_def etc_read_only_def some_section_def)
  then show ?thesis
    using GetValueFromEtc_set [of "?o 16" "- 1" 3 "''b''" "''k''" "''w''"] GetValueFromEtc_set [of "?o 0" "- 1" 3 "''b''" "''k''" "''w''"]
    by (auto simp: take_Cons')
qed

theorem GetValueFromEtc_LoadEtcFile_witness:
  "GetValueFromEtc (Some (read_sections (etc_lines ''[a]'') \<lparr>sect_nr_alloc = NR_SECTS_INIT_ALLOC, sections = []\<rparr>)) ''a'' ''k'' (Some []) (int 2) =
    (case GetValueFromEtcFile (Some ''[a]'') (Some ''a'') ''k'' 2 of (rc, v) \<Rightarrow>
      (rc, v, Some (read_sections (etc_lines ''[a]'') \<lparr>sect_nr_alloc = NR_SECTS_INIT_ALLOC, sections = []\<rparr>)))"
  by (rule GetValueFromEtc_LoadEtcFile) (simp_all add: LoadEtcFile_def)

end
