(* ===== verification/Spec2Isabelle.thy ===== *)
theory Spec2Isabelle
  imports MG_Rect MG_SlotSet MG_BlockHeap MG_Region MG_RegionAlg MG_Generators MG_Timer MG_Fifo MG_MsgSend MG_Peek
    MG_ZOrderCorrect MG_CharsetOps MG_MapRun MG_FixRun MG_SemSet
    MG_EventLoop MG_EtcObj
begin

text \<open>
  A model of the core of MiniGUI, a windowing system for embedded Linux, in the configuration
  MiniGUI-Threads with virtual windows on a 64-bit system.

  The program. Drawing is clipped against regions: every window and every device context
  owns lists of rectangles (\<open>src/newgdi/region.c\<close>), made of rectangles (\<open>rect.c\<close>) and
  fed by the scan line generators (\<open>generators.c\<close>). Their nodes come from block heaps
  (\<open>src/kernel/blockheap.c\<close>), which record their free blocks in slot bitmaps
  (\<open>slotset.c\<close>). Windows talk through messages: each message thread has one queue
  (\<open>MSGQUEUE\<close> in \<open>src/include/internals.h\<close>), to which other threads post, notify or
  send synchronously (\<open>src/kernel/message.c\<close>), and whose owner peeks, waits and
  dispatches. The queue also holds the thread's timers (\<open>timer.c\<close>), which the desktop's
  tick makes expire. The main windows are nodes of the z-order (\<open>src/include/zorder.h\<close>,
  \<open>zorder.c\<close>, \<open>desktop.c\<close>), seven levels of doubly linked lists in one array; from it the desktop
  computes the clipping region of a window, finds the window under the mouse and chooses the next
  active window. What the user does comes from an input engine: \<open>kernel_GetLWEvent\<close> (\<open>src/kernel/event.c\<close>) turns it into
  events and a thread of its own (\<open>init.c\<close>) into messages for the desktop. Text is a sequence of bytes in one of some thirty charsets; each is a table of
  operations (\<open>CHARSETOPS\<close> in \<open>src/include/devfont.h\<close>, \<open>src/font/charset.c\<close>,
  \<open>charset-unicode.c\<close>) that finds the characters and words of a string, numbers the characters
  and converts them to Unicode and back. Named resources, surfaces and the local data of windows are kept in
  maps (\<open>src/misc/map.c\<close>), which are red-black trees (\<open>rbtree.c\<close>).

  The theories, with what they model.

  \<^item> \<open>MG_Prelude\<close>: integer types, collections of rewrite rules, list lemmas.
  \<^item> \<open>MG_Rect\<close>: \<open>rect.c\<close> and the inline helpers of \<open>gdi.h\<close>. Specification: the set of pixels of
    a rectangle.
  \<^item> \<open>MG_SlotSet\<close>: \<open>slotset.c\<close> and \<open>misc.h\<close>, at the level of bytes. Specification: the set of
    idle slots, through the locale \<open>slot_set\<close>, which the bitmaps interpret.
  \<^item> \<open>MG_BlockHeap\<close>: \<open>blockheap.c\<close>; reachability by allocations and frees, no overlap.
  \<^item> \<open>MG_Region\<close>: the record of a region, the banded form (\<open>rgn_wf\<close>), queries and offsets.
  \<^item> \<open>MG_RegionOp\<close>, \<open>MG_RegionSweep\<close>, \<open>MG_RegionOps\<close>: \<open>REGION_RegionOp\<close> and \<open>REGION_Coalesce\<close>
    with the positions of \<open>prevBand\<close> and \<open>curBand\<close>; the contract of a callback as the locale \<open>band_op\<close>,
    in which the sweep is verified; the callbacks of union, intersection and subtraction as
    interpretations.
  \<^item> \<open>MG_RegionAlg\<close>: the exported operations over a store of regions, so that aliased
    arguments are covered; scrolling; circles and ellipses.
  \<^item> \<open>MG_Generators\<close>: clipper, line, circle and ellipse generators with callbacks that thread
    a context.
  \<^item> \<open>MG_KernelData\<close>: messages, queues, windows, timers and the inline checks of
    \<open>internals.h\<close>; \<open>mg_InitMsgQueue\<close>.
  \<^item> \<open>MG_Timer\<close>: \<open>timer.c\<close>. Specification: a finite table from window and identifier to
    a timer.
  \<^item> \<open>MG_PostQueue\<close>, \<open>MG_Fifo\<close>: the ring of posted messages with its merging of mouse moves and
    clock messages, refined to a bounded list; the locale \<open>bounded_fifo\<close> and its interpretation.
  \<^item> \<open>MG_MsgSend\<close>: notification, synchronous and quit messages, broadcasts, dispatching,
    throwing away, emptying.
  \<^item> \<open>MG_Peek\<close>: \<open>PeekMessageEx\<close> as a composition of one step per kind of message, with its
    loop, \<open>HavePendingMessageEx\<close> and \<open>WaitMessage\<close>.
  \<^item> \<open>MG_ZOrderData\<close>: flags, nodes, levels and sizes of the z-order, its set-up, the walks over the
    levels. \<open>MG_ZMask\<close>: the masks of irregular windows. \<open>MG_ZChain\<close>: the link operations and the list
    that links spell. \<open>MG_ZOrder\<close>: all operations of \<open>desktop.c\<close> on the z-order but
    \<open>dskMoveWindow\<close>. \<open>MG_ZClip\<close>: \<open>__mg_lock_recalc_gcrinfo\<close>.
  \<^item> \<open>MG_ZOrderSpec\<close>, \<open>MG_ZOrderFree\<close>, \<open>MG_ZOrderInv\<close>: the abstraction of a z-order, seven lists of
    slots (\<open>zrep\<close>), and what each operation does to them; the capacity of the levels.
    \<open>MG_ZOrderReach\<close>: the states that a server reaches. \<open>MG_ZWalk\<close>: the walks follow the order.
    \<open>MG_ZAge\<close>: which nodes get older when a window is shown. \<open>MG_ZOrderCorrect\<close>: the properties.
  \<^item> \<open>MG_Charset\<close>: the operation table, charset names, and the loops over the characters of a string that
    the charsets share; the locales \<open>stable_lengths\<close>, \<open>char_lengths\<close> and \<open>word_chars\<close> state what they need of
    the function that finds one character. \<open>MG_SingleByte\<close>: ASCII, ISO 8859, JIS X 0201; the locales \<open>code_table\<close>
    and \<open>case_table\<close> for the two ways a conversion is written. \<open>MG_DoubleByte\<close>: GB 2312, GBK, GB 18030, Big5,
    KS C 5601, JIS X 0208. \<open>MG_Utf8\<close>, \<open>MG_Utf16\<close>: the Unicode encodings. \<open>MG_CharsetOps\<close>: the table of charsets.
  \<^item> \<open>MG_RbHeap\<close>: nodes of red-black trees in memory, rotations, and the description of a memory by a tree and
    a place in it. \<open>MG_RbTree\<close>: the balance invariants, insertion, and the rebalancing after a deletion;
    \<open>MG_RbErase\<close>: deletion; \<open>MG_RbWalk\<close>: walks, replacement, augmented trees (\<open>rbtree.c\<close>). \<open>MG_Map\<close>: maps; the
    locale \<open>key_order\<close> is the contract of comparison and copy of keys. \<open>MG_MapRun\<close>: executions of map
    operations, in a memory whose addresses are handed out again, refine a finite map.
  \<^item> \<open>MG_Event\<close>: \<open>event.c\<close> with the static variables as the state; \<open>MG_EventInv\<close>: its invariant; \<open>MG_EventView\<close>:
    what a follower of the events knows, and that the state agrees with it; \<open>MG_EventRun\<close>: runs, double clicks.
    \<open>MG_EventLoop\<close>: \<open>ParseEvent\<close> and \<open>EventLoop\<close> of \<open>init.c\<close> on top of it and of the ring of \<open>MG_PostQueue\<close>.
  \<^item> \<open>MG_FixStr\<close>, \<open>MG_FixRun\<close>: \<open>fixstr.c\<close>, short strings in buffers marked in slot bitmaps, and the runs of a program
    that uses them. \<open>MG_SemSet\<close>: \<open>sem-manager.c\<close>.
  \<^item> \<open>MG_Etc\<close>: the configuration files of \<open>misc.c\<close>. \<open>MG_EtcRun\<close>: the sections, keys and values that a text means
    (\<open>etc_view\<close>), printing and parsing, setting a value in a file. \<open>MG_EtcObj\<close>: objects in memory and single sections.

  Correspondence. A struct is a record with the fields of the source, a \<open>#define\<close>d flag set
  is a set or a word. An operation that writes through a pointer returns the written value. Locks are left
  out: each critical section is one step. Semaphores are counters of posts. A read through a NULL pointer
  or out of a bitmap is the value \<open>None\<close>. What the code gets from outside (the clock, the result of
  \<open>calloc\<close>, window procedures, timer procedures, the idle handler) is an argument. \<open>mg_slice_new\<close> and
  \<open>strdup\<close> of the maps do not run out of memory; the code does not test their results.
  Tick counters, masks and message words have the width of the C type and wrap; coordinates are
  unbounded integers, so the statements about them hold where the C arithmetic does not
  overflow.

  Bounds and fuel. The region sweep recurses on the number of rectangles left. The ellipse loop
  carries a termination measure; the line and circle loops recurse on the steps left. \<open>PeekMessageEx\<close>
  repeats its pass from \<open>checkagain\<close> only after it has handled a timer by its procedure, which
  takes one flag of the mask away, so 65 rounds of fuel are enough; this is proved under the
  hypothesis that a timer procedure flags no timer. \<open>WaitMessage\<close> waits for events and takes the
  number of rounds as fuel. The loops along a level of the z-order take the number of nodes as fuel, which
  is enough since the lists have no repetition; the loops along a mask take the size of the array of mask
  rectangles.

  What the groups of lemmas show. Rectangles and regions: every operation is the set operation it is
  named for, and keeps the banded form. Slot sets and heaps: allocation gives out what was free
  and nothing twice. Timers: each operation is an update of the table, expiry is exact. Queues:
  posting is first-in-first-out with bounded room, passes serve the sources in the documented
  order, each flagged timer is served, each synchronous sender is released once. Z-order: in every
  reachable state the links, counters and bitmap agree with one list per level, each operation is the
  list operation it is named for, and a recomputed clipping region is what the windows above and the menus
  leave of the window. Charsets: what is written is read back, where the code does that, and the scans stop
  behind the last whole character. Trees and maps: every operation returns, reads and writes only its nodes,
  keeps balance and order, and does to the map what it does to a finite map. Events: the static variables keep
  their form whatever the engine reports, and as long as it reports one change at a time a program that follows the
  events or the messages in the queue of the desktop knows the state. Strings and semaphores: nothing in use is given
  out again. Configuration files: what is written is read back, and a change of a value or of a section changes
  nothing else. Lemmas at the ends of the theories show the places where the code does something else than its
  documentation or its evident intent.

  Not modelled. \<open>dskMoveWindow\<close>, layers and compositing; the desktop's message handlers, main
  window creation and painting (\<open>desktop*.c\<close>, \<open>window.c\<close>), dialogs,
  menus, controls and the text editor; device contexts, bitmaps, text layout, font engines, the bidi operations and the generated conversion tables; polygons, arcs
  and wide lines; the graphics and input engines, the cursor; start-up, shared memory and the process
  mode; the other utilities and resources. Of the modelled files: the system timer and its signal
  handler, allocation of queues per thread and of regions, message strings, \<open>CircleArcGenerator\<close>,
  \<open>InitPolygonRegion\<close>, the select based idle handler.
\<close>

end
